(* ===== verification/Skynet_Prelude.thy ===== *)
theory Skynet_Prelude
  imports Main "HOL-Library.Word" "HOL-Library.Monad_Syntax"
begin

text \<open>
  Shared material of the development: the widths of the C integers, the error values the C
  code can end in, the abstract view of a ring buffer (used by the message queues of
  \<^verbatim>\<open>skynet_mq.c\<close> and by the package queue of \<^verbatim>\<open>lua-netpack.c\<close>), and the first-in first-out
  interface both of them provide.

  A C function that can fail an \<^verbatim>\<open>assert\<close>, follow a null or dangling pointer or read memory
  that was never written is a function into \<open>option\<close>: \<open>None\<close> is exactly that failure.
  A function that reports an error to its caller returns it as a value.
\<close>

unbundle bit_operations_syntax

type_synonym u8 = "8 word"
type_synonym u16 = "16 word"
type_synonym u32 = "32 word"
type_synonym u64 = "64 word"

lemma unat_u32_less: "unat (x :: u32) < 4294967296"
  by (rule order_less_le_trans [OF unsigned_less]) simp

subsection \<open>Collections of rewrite rules\<close>

named_theorems c_simps \<open>evaluation of the failure monad of the C model\<close>
named_theorems ring_simps \<open>ring buffers as lists\<close>

subsection \<open>Assertions\<close>

definition c_assert :: "bool \<Rightarrow> unit option" where
  "c_assert b = (if b then Some () else None)"

lemma c_assert_True [simp, c_simps]: "c_assert True = Some ()"
  by (simp add: c_assert_def)

lemma c_assert_False [simp, c_simps]: "c_assert False = None"
  by (simp add: c_assert_def)

lemma c_assert_eq_Some [simp, c_simps]: "c_assert b = Some u \<longleftrightarrow> b"
  by (simp add: c_assert_def)

lemma bind_c_assert [simp, c_simps]: "Option.bind (c_assert b) f = (if b then f () else None)"
  by (simp add: c_assert_def)

lemma bind_Some_iff [c_simps]:
  "Option.bind m f = Some y \<longleftrightarrow> (\<exists>x. m = Some x \<and> f x = Some y)"
  by (cases m) auto

subsection \<open>Reading an array of a known length\<close>

definition array_get :: "'a list \<Rightarrow> nat \<Rightarrow> 'a option" where
  "array_get xs i = (if i < length xs then Some (xs ! i) else None)"

definition array_set :: "'a list \<Rightarrow> nat \<Rightarrow> 'a \<Rightarrow> 'a list option" where
  "array_set xs i x = (if i < length xs then Some (xs[i := x]) else None)"

lemma array_get_in [simp]: "i < length xs \<Longrightarrow> array_get xs i = Some (xs ! i)"
  by (simp add: array_get_def)

lemma array_set_in [simp]: "i < length xs \<Longrightarrow> array_set xs i x = Some (xs[i := x])"
  by (simp add: array_set_def)

lemma array_get_Some: "array_get xs i = Some x \<longleftrightarrow> i < length xs \<and> xs ! i = x"
  by (auto simp: array_get_def)

lemma array_set_Some: "array_set xs i x = Some ys \<longleftrightarrow> i < length xs \<and> ys = xs[i := x]"
  by (auto simp: array_set_def)

subsection \<open>Ring buffers\<close>

text \<open>The number of elements between the read index \<open>h\<close> and the write index \<open>t\<close> of a ring of
  capacity \<open>c\<close>, and the list of the \<open>n\<close> elements that start at \<open>h\<close>.\<close>

definition ring_len :: "nat \<Rightarrow> nat \<Rightarrow> nat \<Rightarrow> nat" where
  "ring_len h t c = (if h \<le> t then t - h else t + c - h)"

definition ring_slice :: "'a list \<Rightarrow> nat \<Rightarrow> nat \<Rightarrow> 'a list" where
  "ring_slice xs h n = map (\<lambda>i. xs ! ((h + i) mod length xs)) [0..<n]"

definition ring_next :: "nat \<Rightarrow> nat \<Rightarrow> nat" where
  "ring_next i c = (if c \<le> i + 1 then 0 else i + 1)"

lemma ring_slice_0 [simp, ring_simps]: "ring_slice xs h 0 = []"
  by (simp add: ring_slice_def)

lemma length_ring_slice [simp, ring_simps]: "length (ring_slice xs h n) = n"
  by (simp add: ring_slice_def)

lemma ring_next_less [simp, ring_simps]: "0 < c \<Longrightarrow> ring_next i c < c"
  by (auto simp: ring_next_def)

lemma ring_next_mod: "i < c \<Longrightarrow> ring_next i c = (i + 1) mod c"
  by (auto simp: ring_next_def mod_if)

lemma ring_len_less: "h < c \<Longrightarrow> t < c \<Longrightarrow> ring_len h t c < c"
  by (auto simp: ring_len_def)

lemma ring_len_eq_0: "h < c \<Longrightarrow> t < c \<Longrightarrow> ring_len h t c = 0 \<longleftrightarrow> h = t"
  by (auto simp: ring_len_def)

lemma ring_len_tail: "h < c \<Longrightarrow> t < c \<Longrightarrow> (h + ring_len h t c) mod c = t"
  by (auto simp: ring_len_def)

lemma ring_len_push:
  assumes "h < c" "t < c" "h \<noteq> ring_next t c"
  shows "ring_len h (ring_next t c) c = Suc (ring_len h t c)"
  using assms by (auto simp: ring_len_def ring_next_def split: if_splits)

lemma ring_len_full:
  assumes "h < c" "t < c" "h = ring_next t c"
  shows "Suc (ring_len h t c) = c"
  using assms by (auto simp: ring_len_def ring_next_def split: if_splits)

lemma ring_len_pop:
  assumes "h < c" "t < c" "h \<noteq> t"
  shows "ring_len h t c = Suc (ring_len (ring_next h c) t c)"
  using assms by (auto simp: ring_len_def ring_next_def split: if_splits)

lemma mod_add_inj:
  fixes h i j c :: nat
  assumes "(h + i) mod c = (h + j) mod c" "i < c" "j < c"
  shows "i = j"
proof -
  have aux: False if lt: "a < b" and eq: "(h + a) mod c = (h + b) mod c" and "b < c" for a b
  proof -
    have "c dvd (h + b) - (h + a)"
      using eq lt by (metis mod_eq_dvd_iff_nat add_left_mono less_imp_le)
    with that show False by (auto dest: dvd_imp_le)
  qed
  from assms aux [of i j] aux [of j i] show ?thesis
    by (metis linorder_neqE_nat)
qed

lemma ring_slice_push:
  assumes c: "length xs = c" and "h < c" "t < c"
  shows "ring_slice (xs[t := x]) h (Suc (ring_len h t c)) = ring_slice xs h (ring_len h t c) @ [x]"
proof -
  let ?n = "ring_len h t c"
  have n: "?n < c" and t: "(h + ?n) mod c = t"
    using assms by (simp_all add: ring_len_less ring_len_tail)
  have other: "xs[t := x] ! ((h + i) mod c) = xs ! ((h + i) mod c)" if "i < ?n" for i
  proof -
    have "(h + i) mod c \<noteq> t"
      using t n that mod_add_inj [of h i c ?n] by force
    then show ?thesis by simp
  qed
  have "xs[t := x] ! ((h + ?n) mod c) = x"
    using t assms by simp
  moreover have "map (\<lambda>i. xs[t := x] ! ((h + i) mod c)) [0..<?n] = map (\<lambda>i. xs ! ((h + i) mod c)) [0..<?n]"
    using other by simp
  ultimately show ?thesis
    using c by (simp add: ring_slice_def)
qed

lemma ring_slice_pop:
  assumes "length xs = c" "h < c"
  shows "ring_slice xs h (Suc n) = xs ! h # ring_slice xs (ring_next h c) n"
proof -
  have "(ring_next h c + i) mod c = (h + Suc i) mod c" for i
    using assms by (simp add: ring_next_mod mod_simps)
  then have "map (\<lambda>i. xs ! ((ring_next h c + i) mod c)) [0..<n] = map (\<lambda>i. xs ! ((h + Suc i) mod c)) [0..<n]"
    by simp
  moreover have "[0..<Suc n] = 0 # map Suc [0..<n]"
    by (simp add: upt_conv_Cons map_Suc_upt del: upt_Suc)
  ultimately show ?thesis
    using assms by (simp add: ring_slice_def o_def del: upt_Suc)
qed

lemma ring_slice_expand:
  assumes "length xs = c" "n \<le> c"
  shows "ring_slice (ring_slice xs h c @ ys) 0 n = ring_slice xs h n"
  using assms by (auto simp: ring_slice_def nth_append intro!: map_cong)

lemma set_ring_slice_full:
  assumes "length xs = c"
  shows "set (ring_slice xs h c) \<subseteq> set xs"
  using assms by (cases "c = 0") (auto simp: ring_slice_def)

subsection \<open>The first-in first-out interface\<close>

text \<open>What a client of a queue relies on: a view of the queue as a list, an invariant, an enqueue
  that appends and a dequeue that takes the first element.\<close>

text \<open>A run of a client: \<open>Some x\<close> enqueues \<open>x\<close>, \<open>None\<close> dequeues. The second function is the same run
  on a plain list.\<close>

fun fifo_run :: "('a \<Rightarrow> 'q \<Rightarrow> 'q option) \<Rightarrow> ('q \<Rightarrow> ('a option \<times> 'q) option) \<Rightarrow> 'a option list \<Rightarrow> 'q
    \<Rightarrow> ('a option list \<times> 'q) option" where
  "fifo_run enq deq [] q = Some ([], q)"
| "fifo_run enq deq (Some x # ops) q = do { q1 \<leftarrow> enq x q; fifo_run enq deq ops q1 }"
| "fifo_run enq deq (None # ops) q = do {
     (r, q1) \<leftarrow> deq q;
     (rs, q2) \<leftarrow> fifo_run enq deq ops q1;
     Some (r # rs, q2) }"

fun list_run :: "'a option list \<Rightarrow> 'a list \<Rightarrow> 'a option list \<times> 'a list" where
  "list_run [] xs = ([], xs)"
| "list_run (Some x # ops) xs = list_run ops (xs @ [x])"
| "list_run (None # ops) [] = (let (rs, ys) = list_run ops [] in (None # rs, ys))"
| "list_run (None # ops) (x # xs) = (let (rs, ys) = list_run ops xs in (Some x # rs, ys))"

locale fifo =
  fixes enq :: "'a \<Rightarrow> 'q \<Rightarrow> 'q option"
    and deq :: "'q \<Rightarrow> ('a option \<times> 'q) option"
    and view :: "'q \<Rightarrow> 'a list"
    and inv :: "'q \<Rightarrow> bool"
  assumes enq_ok: "inv q \<Longrightarrow> \<exists>q'. enq x q = Some q' \<and> inv q' \<and> view q' = view q @ [x]"
    and deq_empty: "inv q \<Longrightarrow> view q = [] \<Longrightarrow> \<exists>q'. deq q = Some (None, q') \<and> inv q' \<and> view q' = []"
    and deq_cons: "inv q \<Longrightarrow> view q = x # xs \<Longrightarrow> \<exists>q'. deq q = Some (Some x, q') \<and> inv q' \<and> view q' = xs"
begin

lemma run_ok:
  "inv q \<Longrightarrow> \<exists>q'. fifo_run enq deq ops q = Some (fst (list_run ops (view q)), q') \<and> inv q' \<and>
     view q' = snd (list_run ops (view q))"
proof (induction ops "view q" arbitrary: q rule: list_run.induct)
  case 1
  then show ?case by simp
next
  case (2 x ops)
  from enq_ok [OF 2(2), of x] obtain q1 where "enq x q = Some q1" "inv q1" "view q1 = view q @ [x]"
    by blast
  with 2(1) [of q1] show ?case by simp
next
  case (3 ops)
  from deq_empty [OF 3(3) 3(2) [symmetric]] obtain q1 where "deq q = Some (None, q1)" "inv q1" "view q1 = []"
    by blast
  with 3(1) [of q1] show ?case by (auto simp: 3(2) [symmetric] split: prod.splits)
next
  case (4 ops x xs)
  from deq_cons [OF 4(3) 4(2) [symmetric]] obtain q1 where "deq q = Some (Some x, q1)" "inv q1" "view q1 = xs"
    by blast
  with 4(1) [of q1] show ?case by (auto simp: 4(2) [symmetric] split: prod.splits)
qed

end

subsection \<open>Runs\<close>

text \<open>A step that yields results, for a list of inputs.\<close>

fun run_steps :: "('s \<Rightarrow> 'i \<Rightarrow> ('o list \<times> 's) option) \<Rightarrow> 's \<Rightarrow> 'i list \<Rightarrow> ('o list \<times> 's) option" where
  "run_steps f s [] = Some ([], s)"
| "run_steps f s (i # is) = do {
     (os, s) \<leftarrow> f s i;
     (os', s) \<leftarrow> run_steps f s is;
     Some (os @ os', s) }"

lemma run_steps_silent: "f s i = Some ([], s') \<Longrightarrow> run_steps f s (i # is) = run_steps f s' is"
  by (cases "run_steps f s' is") auto

lemma run_steps_append:
  "run_steps f s (is @ js) = do { (os, s) \<leftarrow> run_steps f s is; (os', s) \<leftarrow> run_steps f s js; Some (os @ os', s) }"
  by (induction "is" arbitrary: s) (auto split: bind_splits)

subsection \<open>Bytes of numbers\<close>

text \<open>The bytes of a number of \<open>n\<close> bytes in memory.\<close>

fun le_bytes :: "nat \<Rightarrow> nat \<Rightarrow> u8 list" where
  "le_bytes 0 k = []"
| "le_bytes (Suc n) k = of_nat k # le_bytes n (k div 256)"

fun le_nat :: "u8 list \<Rightarrow> nat" where
  "le_nat [] = 0"
| "le_nat (b # bs) = unat b + 256 * le_nat bs"

lemma length_le_bytes [simp]: "length (le_bytes n k) = n"
  by (induction n arbitrary: k) simp_all

lemma le_nat_le_bytes: "le_nat (le_bytes n k) = k mod 256 ^ n"
proof (induction n arbitrary: k)
  case (Suc n)
  have "unat (of_nat k :: u8) = k mod 256" by (simp add: unsigned_of_nat take_bit_eq_mod)
  with Suc show ?case by (simp add: mod_mult2_eq mult.commute [of _ "256 :: nat"])
qed simp

lemma le_nat_less: "le_nat bs < 256 ^ length bs"
proof (induction bs)
  case (Cons b bs)
  have "unat b < 256" using unsigned_less [of b] by simp
  with Cons show ?case by simp
qed simp

lemma le_nat_small: "k < 256 ^ n \<Longrightarrow> le_nat (le_bytes n k) = k"
  by (simp add: le_nat_le_bytes)

end
