(* ===== verification/Message_Queue.thy ===== *)
theory Message_Queue
  imports Skynet_Prelude
begin

text \<open>
  \<^verbatim>\<open>skynet-src/skynet_mq.c\<close>: the message queue of a service, a ring buffer that doubles when it
  is full, and the global queue, a linked list of the message queues that have work. Message
  queues live in a store indexed by their address, so that the links of the global queue are
  addresses, as in the C code. The theory ends with the two refinements: a message queue is a
  list of messages, and the global queue is a list of addresses.

  The \<^verbatim>\<open>int\<close> fields that are array indices or capacities are natural numbers. A slot of the
  array that \<^verbatim>\<open>malloc\<close> returned and nobody wrote is \<open>None\<close>, and reading one is a failure.
\<close>

subsection \<open>Data\<close>

definition DEFAULT_QUEUE_SIZE :: nat where "DEFAULT_QUEUE_SIZE = 64"
definition MQ_IN_GLOBAL :: int where "MQ_IN_GLOBAL = 1"
definition MQ_OVERLOAD :: int where "MQ_OVERLOAD = 1024"

type_synonym qid = nat

record 'm message_queue =
  mq_handle :: u32
  mq_cap :: nat
  mq_head :: nat
  mq_tail :: nat
  mq_release :: int
  mq_in_global :: int
  mq_overload :: int
  mq_overload_threshold :: int
  mq_queue :: "'m option list"
  mq_next :: "qid option"

text \<open>The store of message queues, the next free address, and \<^verbatim>\<open>struct global_queue\<close>.\<close>

record 'm mq_store =
  mqs :: "qid \<Rightarrow> 'm message_queue option"
  mq_fresh :: qid
  gq_head :: "qid option"
  gq_tail :: "qid option"

subsection \<open>The global queue\<close>

definition skynet_globalmq_push :: "qid \<Rightarrow> 'm mq_store \<Rightarrow> 'm mq_store option" where
  "skynet_globalmq_push queue s = do {
     q \<leftarrow> mqs s queue;
     c_assert (mq_next q = None);
     (case gq_tail s of
        Some t \<Rightarrow> do {
          tq \<leftarrow> mqs s t;
          Some (s\<lparr>mqs := (mqs s)(t \<mapsto> tq\<lparr>mq_next := Some queue\<rparr>), gq_tail := Some queue\<rparr>) }
      | None \<Rightarrow> Some (s\<lparr>gq_head := Some queue, gq_tail := Some queue\<rparr>)) }"

definition skynet_globalmq_pop :: "'m mq_store \<Rightarrow> (qid option \<times> 'm mq_store) option" where
  "skynet_globalmq_pop s = (case gq_head s of
     None \<Rightarrow> Some (None, s)
   | Some mq \<Rightarrow> do {
       q \<leftarrow> mqs s mq;
       (case mq_next q of
          None \<Rightarrow> do {
            c_assert (gq_tail s = Some mq);
            Some (Some mq, s\<lparr>gq_head := None, gq_tail := None,
                             mqs := (mqs s)(mq \<mapsto> q\<lparr>mq_next := None\<rparr>)\<rparr>) }
        | Some nx \<Rightarrow>
            Some (Some mq, s\<lparr>gq_head := Some nx, mqs := (mqs s)(mq \<mapsto> q\<lparr>mq_next := None\<rparr>)\<rparr>)) })"

definition skynet_mq_init :: "'m mq_store" where
  "skynet_mq_init = \<lparr>mqs = (\<lambda>_. None), mq_fresh = 0, gq_head = None, gq_tail = None\<rparr>"

subsection \<open>One message queue\<close>

definition skynet_mq_new :: "u32 \<Rightarrow> 'm message_queue" where
  "skynet_mq_new handle =
     \<lparr>mq_handle = handle, mq_cap = DEFAULT_QUEUE_SIZE, mq_head = 0, mq_tail = 0,
      mq_release = 0, mq_in_global = MQ_IN_GLOBAL, mq_overload = 0,
      mq_overload_threshold = MQ_OVERLOAD,
      mq_queue = replicate DEFAULT_QUEUE_SIZE None, mq_next = None\<rparr>"

definition skynet_mq_create :: "u32 \<Rightarrow> 'm mq_store \<Rightarrow> qid \<times> 'm mq_store" where
  "skynet_mq_create handle s =
     (mq_fresh s, s\<lparr>mqs := (mqs s)(mq_fresh s \<mapsto> skynet_mq_new handle), mq_fresh := Suc (mq_fresh s)\<rparr>)"

definition mq_free :: "qid \<Rightarrow> 'm mq_store \<Rightarrow> 'm mq_store option" where
  "mq_free i s = do {
     q \<leftarrow> mqs s i;
     c_assert (mq_next q = None);
     Some (s\<lparr>mqs := (mqs s)(i := None)\<rparr>) }"

definition skynet_mq_handle :: "'m message_queue \<Rightarrow> u32" where
  "skynet_mq_handle q = mq_handle q"

definition skynet_mq_length :: "'m message_queue \<Rightarrow> int" where
  "skynet_mq_length q =
     (if mq_head q \<le> mq_tail q then int (mq_tail q) - int (mq_head q)
      else int (mq_tail q) + int (mq_cap q) - int (mq_head q))"

definition skynet_mq_overload :: "'m message_queue \<Rightarrow> int \<times> 'm message_queue" where
  "skynet_mq_overload q =
     (if mq_overload q \<noteq> 0 then (mq_overload q, q\<lparr>mq_overload := 0\<rparr>) else (0, q))"

text \<open>The loop that doubles the threshold; \<open>None\<close> would be a loop that does not end.\<close>

partial_function (option) overload_loop :: "int \<Rightarrow> int \<Rightarrow> int \<Rightarrow> (int \<times> int) option" where
  "overload_loop len overload threshold =
     (if len > threshold then overload_loop len len (threshold * 2)
      else Some (overload, threshold))"

definition skynet_mq_pop :: "'m message_queue \<Rightarrow> ('m option \<times> 'm message_queue) option" where
  "skynet_mq_pop q =
     (if mq_head q \<noteq> mq_tail q then do {
        slot \<leftarrow> array_get (mq_queue q) (mq_head q);
        message \<leftarrow> slot;
        let head = mq_head q + 1;
            head = (if head \<ge> mq_cap q then 0 else head);
            len = int (mq_tail q) - int head;
            len = (if len < 0 then len + int (mq_cap q) else len) in do {
        (ov, th) \<leftarrow> overload_loop len (mq_overload q) (mq_overload_threshold q);
        Some (Some message, q\<lparr>mq_head := head, mq_overload := ov, mq_overload_threshold := th\<rparr>) } }
      else Some (None, q\<lparr>mq_overload_threshold := MQ_OVERLOAD, mq_in_global := 0\<rparr>))"

definition expand_queue :: "'m message_queue \<Rightarrow> 'm message_queue" where
  "expand_queue q =
     q\<lparr>mq_head := 0, mq_tail := mq_cap q, mq_cap := mq_cap q * 2,
       mq_queue := map (\<lambda>i. mq_queue q ! ((mq_head q + i) mod mq_cap q)) [0..<mq_cap q]
                   @ replicate (mq_cap q) None\<rparr>"

text \<open>The part of \<^verbatim>\<open>skynet_mq_push\<close> that changes the ring.\<close>

definition mq_enqueue :: "'m \<Rightarrow> 'm message_queue \<Rightarrow> 'm message_queue option" where
  "mq_enqueue message q = do {
     queue \<leftarrow> array_set (mq_queue q) (mq_tail q) (Some message);
     let tail = mq_tail q + 1;
         tail = (if tail \<ge> mq_cap q then 0 else tail);
         q = q\<lparr>mq_queue := queue, mq_tail := tail\<rparr> in
     Some (if mq_head q = mq_tail q then expand_queue q else q) }"

definition skynet_mq_push :: "qid \<Rightarrow> 'm \<Rightarrow> 'm mq_store \<Rightarrow> 'm mq_store option" where
  "skynet_mq_push i message s = do {
     q0 \<leftarrow> mqs s i;
     q \<leftarrow> mq_enqueue message q0;
     if mq_in_global q = 0
     then skynet_globalmq_push i (s\<lparr>mqs := (mqs s)(i \<mapsto> q\<lparr>mq_in_global := MQ_IN_GLOBAL\<rparr>)\<rparr>)
     else Some (s\<lparr>mqs := (mqs s)(i \<mapsto> q)\<rparr>) }"

definition skynet_mq_mark_release :: "qid \<Rightarrow> 'm mq_store \<Rightarrow> 'm mq_store option" where
  "skynet_mq_mark_release i s = do {
     q \<leftarrow> mqs s i;
     c_assert (mq_release q = 0);
     let s = s\<lparr>mqs := (mqs s)(i \<mapsto> q\<lparr>mq_release := 1\<rparr>)\<rparr> in
     if mq_in_global q \<noteq> MQ_IN_GLOBAL then skynet_globalmq_push i s else Some s }"

text \<open>\<^verbatim>\<open>_drop_queue\<close>: the messages handed to the callback, in order, and the store without the queue.
  The callback itself runs on the node and is applied by the caller of this function.\<close>

partial_function (option) drop_loop :: "'m message_queue \<Rightarrow> ('m list \<times> 'm message_queue) option" where
  "drop_loop q = Option.bind (skynet_mq_pop q) (\<lambda>(r, q').
     (case r of None \<Rightarrow> Some ([], q')
      | Some m \<Rightarrow> Option.bind (drop_loop q') (\<lambda>(ms, q''). Some (m # ms, q''))))"

definition drop_queue :: "qid \<Rightarrow> 'm mq_store \<Rightarrow> ('m list \<times> 'm mq_store) option" where
  "drop_queue i s = do {
     q \<leftarrow> mqs s i;
     (ms, q') \<leftarrow> drop_loop q;
     s' \<leftarrow> mq_free i (s\<lparr>mqs := (mqs s)(i \<mapsto> q')\<rparr>);
     Some (ms, s') }"

definition skynet_mq_release :: "qid \<Rightarrow> 'm mq_store \<Rightarrow> ('m list \<times> 'm mq_store) option" where
  "skynet_mq_release i s = do {
     q \<leftarrow> mqs s i;
     if mq_release q \<noteq> 0 then drop_queue i s
     else do { s' \<leftarrow> skynet_globalmq_push i s; Some ([], s') } }"

subsection \<open>A message queue is a list of messages\<close>

definition mq_list :: "'m message_queue \<Rightarrow> 'm list" where
  "mq_list q = map the (ring_slice (mq_queue q) (mq_head q) (ring_len (mq_head q) (mq_tail q) (mq_cap q)))"

definition mq_inv :: "'m message_queue \<Rightarrow> bool" where
  "mq_inv q \<longleftrightarrow> length (mq_queue q) = mq_cap q \<and> mq_head q < mq_cap q \<and> mq_tail q < mq_cap q \<and>
     None \<notin> set (ring_slice (mq_queue q) (mq_head q) (ring_len (mq_head q) (mq_tail q) (mq_cap q))) \<and>
     MQ_OVERLOAD \<le> mq_overload_threshold q"

lemma mq_inv_frame [simp]:
  "mq_inv (q\<lparr>mq_next := n\<rparr>) = mq_inv q" "mq_inv (q\<lparr>mq_release := r\<rparr>) = mq_inv q"
  "mq_inv (q\<lparr>mq_in_global := g\<rparr>) = mq_inv q" "mq_inv (q\<lparr>mq_overload := ov\<rparr>) = mq_inv q"
  by (simp_all add: mq_inv_def)

lemma mq_list_frame [simp]:
  "mq_list (q\<lparr>mq_next := n\<rparr>) = mq_list q" "mq_list (q\<lparr>mq_release := r\<rparr>) = mq_list q"
  "mq_list (q\<lparr>mq_in_global := g\<rparr>) = mq_list q" "mq_list (q\<lparr>mq_overload := ov\<rparr>) = mq_list q"
  "mq_list (q\<lparr>mq_overload_threshold := th\<rparr>) = mq_list q"
  by (simp_all add: mq_list_def)

lemma mq_inv_threshold [simp]: "mq_inv q \<Longrightarrow> mq_inv (q\<lparr>mq_overload_threshold := MQ_OVERLOAD\<rparr>)"
  by (simp add: mq_inv_def)

lemma mq_inv_new [simp]: "mq_inv (skynet_mq_new h)"
  by (simp add: mq_inv_def skynet_mq_new_def DEFAULT_QUEUE_SIZE_def ring_len_def)

lemma mq_list_new [simp]: "mq_list (skynet_mq_new h) = []"
  by (simp add: mq_list_def skynet_mq_new_def ring_len_def)

lemma mq_length_list: "mq_inv q \<Longrightarrow> skynet_mq_length q = int (length (mq_list q))"
  by (auto simp: mq_inv_def mq_list_def skynet_mq_length_def ring_len_def)

lemma mq_list_Nil_iff: "mq_inv q \<Longrightarrow> mq_list q = [] \<longleftrightarrow> mq_head q = mq_tail q"
  by (auto simp: mq_list_def mq_inv_def ring_len_eq_0 simp flip: length_0_conv)

lemma overload_loop_returns:
  assumes "0 < th"
  shows "\<exists>ov' th'. overload_loop n ov th = Some (ov', th') \<and> n \<le> th' \<and> th \<le> th'
    \<and> (ov' = (if n > th then n else ov))"
  using assms
proof (induction "nat (n - th)" arbitrary: ov th rule: less_induct)
  case less
  show ?case
  proof (cases "n > th")
    case True
    with less.prems have "nat (n - th * 2) < nat (n - th)" "0 < th * 2" by simp_all
    from less.hyps [OF this, of n] obtain ov' th'
      where "overload_loop n n (th * 2) = Some (ov', th')" "n \<le> th'" "th * 2 \<le> th'" "ov' = n"
      by (auto split: if_splits)
    with True less.prems show ?thesis
      by (subst overload_loop.simps) auto
  next
    case False
    then show ?thesis by (subst overload_loop.simps) simp
  qed
qed

lemma mq_enqueue_ok:
  assumes inv: "mq_inv q"
  shows "\<exists>q'. mq_enqueue m q = Some q' \<and> mq_inv q' \<and> mq_list q' = mq_list q @ [m] \<and>
     mq_handle q' = mq_handle q \<and> mq_release q' = mq_release q \<and> mq_in_global q' = mq_in_global q \<and>
     mq_next q' = mq_next q"
proof -
  let ?h = "mq_head q" and ?t = "mq_tail q" and ?c = "mq_cap q"
  let ?n = "ring_len ?h ?t ?c" and ?xs = "(mq_queue q)[mq_tail q := Some m]"
  let ?q1 = "q\<lparr>mq_queue := ?xs, mq_tail := ring_next ?t ?c\<rparr>"
  from inv have len: "length (mq_queue q) = ?c" and h: "?h < ?c" and t: "?t < ?c"
    and some: "None \<notin> set (ring_slice (mq_queue q) ?h ?n)"
    by (simp_all add: mq_inv_def)
  have slice: "ring_slice ?xs ?h (Suc ?n) = ring_slice (mq_queue q) ?h ?n @ [Some m]"
    using len h t by (rule ring_slice_push)
  have enq: "mq_enqueue m q = Some (if ?h = ring_next ?t ?c then expand_queue ?q1 else ?q1)"
    using t len by (simp add: mq_enqueue_def ring_next_def Let_def)
  show ?thesis
  proof (cases "?h = ring_next ?t ?c")
    case True
    have n: "Suc ?n = ?c" using h t True by (rule ring_len_full)
    have ex: "mq_queue (expand_queue ?q1) = ring_slice ?xs ?h ?c @ replicate ?c None"
      using len by (simp add: expand_queue_def ring_slice_def)
    have full: "ring_slice (mq_queue (expand_queue ?q1)) 0 ?c = ring_slice ?xs ?h ?c"
      unfolding ex by (rule ring_slice_expand) (use len in auto)
    have rl: "ring_len 0 ?c (?c * 2) = ?c" by (simp add: ring_len_def)
    have sel: "mq_head (expand_queue ?q1) = 0" "mq_tail (expand_queue ?q1) = ?c"
      "mq_cap (expand_queue ?q1) = ?c * 2"
      by (simp_all add: expand_queue_def)
    have "mq_list (expand_queue ?q1) = mq_list q @ [m]"
      unfolding mq_list_def sel rl full using slice n by simp
    moreover have "mq_inv (expand_queue ?q1)"
      unfolding mq_inv_def sel rl full
      using slice n some inv ex h by (auto simp: expand_queue_def mq_inv_def)
    ultimately show ?thesis
      using enq True by (simp add: expand_queue_def)
  next
    case False
    have n: "ring_len ?h (ring_next ?t ?c) ?c = Suc ?n"
      using h t False by (rule ring_len_push)
    have "mq_list ?q1 = mq_list q @ [m]"
      using slice n by (simp add: mq_list_def)
    moreover have "mq_inv ?q1"
      using slice n some inv h by (auto simp: mq_inv_def)
    ultimately show ?thesis
      using enq False by simp
  qed
qed

lemma mq_pop_empty:
  assumes "mq_inv q" "mq_list q = []"
  shows "skynet_mq_pop q = Some (None, q\<lparr>mq_overload_threshold := MQ_OVERLOAD, mq_in_global := 0\<rparr>)"
  using assms by (simp add: skynet_mq_pop_def mq_list_Nil_iff)

lemma mq_pop_cons:
  assumes inv: "mq_inv q" and cons: "mq_list q = m # ms"
  shows "\<exists>q'. skynet_mq_pop q = Some (Some m, q') \<and> mq_inv q' \<and> mq_list q' = ms \<and>
     mq_handle q' = mq_handle q \<and> mq_release q' = mq_release q \<and> mq_in_global q' = mq_in_global q \<and>
     mq_next q' = mq_next q \<and> mq_cap q' = mq_cap q \<and>
     mq_overload q' = (if int (length ms) > mq_overload_threshold q then int (length ms) else mq_overload q) \<and>
     int (length ms) \<le> mq_overload_threshold q'"
proof -
  let ?h = "mq_head q" and ?t = "mq_tail q" and ?c = "mq_cap q"
  let ?h' = "ring_next ?h ?c"
  from inv have len: "length (mq_queue q) = ?c" and h: "?h < ?c" and t: "?t < ?c"
    and some: "None \<notin> set (ring_slice (mq_queue q) ?h (ring_len ?h ?t ?c))"
    and th: "MQ_OVERLOAD \<le> mq_overload_threshold q"
    by (simp_all add: mq_inv_def)
  have ne: "?h \<noteq> ?t" using inv cons mq_list_Nil_iff [of q] by auto
  have rl: "ring_len ?h ?t ?c = Suc (ring_len ?h' ?t ?c)" using h t ne by (rule ring_len_pop)
  have slice: "ring_slice (mq_queue q) ?h (ring_len ?h ?t ?c)
      = mq_queue q ! ?h # ring_slice (mq_queue q) ?h' (ring_len ?h' ?t ?c)"
    unfolding rl using len h by (rule ring_slice_pop)
  have m: "mq_queue q ! ?h = Some m"
    and ms: "map the (ring_slice (mq_queue q) ?h' (ring_len ?h' ?t ?c)) = ms"
    using cons some unfolding mq_list_def slice by (cases "mq_queue q ! ?h"; auto)+
  let ?n = "int (length ms)"
  have n: "length ms = ring_len ?h' ?t ?c" using ms by auto
  have h': "?h' < ?c" using h by simp
  from th have "0 < mq_overload_threshold q" by (simp add: MQ_OVERLOAD_def)
  from overload_loop_returns [OF this, of ?n "mq_overload q"] obtain ov tho
    where ol: "overload_loop ?n (mq_overload q) (mq_overload_threshold q) = Some (ov, tho)"
      and le: "?n \<le> tho" "mq_overload_threshold q \<le> tho"
      and ov: "ov = (if ?n > mq_overload_threshold q then ?n else mq_overload q)" by blast
  let ?q' = "q\<lparr>mq_head := ?h', mq_overload := ov, mq_overload_threshold := tho\<rparr>"
  have hn: "(if ?c \<le> ?h + 1 then 0 else ?h + 1) = ?h'" by (simp add: ring_next_def)
  have len': "(if int ?t - int ?h' < 0 then int ?t - int ?h' + int ?c else int ?t - int ?h') = ?n"
    using h' unfolding n by (auto simp: ring_len_def)
  have "skynet_mq_pop q = Some (Some m, ?q')"
    unfolding skynet_mq_pop_def Let_def hn len' using ne h len m ol by simp
  moreover have "mq_inv ?q'"
    using inv some slice th le h' by (auto simp: mq_inv_def)
  moreover have "mq_list ?q' = ms"
    using ms by (simp add: mq_list_def)
  ultimately show ?thesis using ov le by (intro exI [of _ ?q']) simp
qed

text \<open>The message queue provides the first-in first-out interface.\<close>

interpretation mq: fifo mq_enqueue skynet_mq_pop mq_list mq_inv
proof
  fix q :: "'m message_queue" and x
  assume "mq_inv q"
  then show "\<exists>q'. mq_enqueue x q = Some q' \<and> mq_inv q' \<and> mq_list q' = mq_list q @ [x]"
    using mq_enqueue_ok [of q x] by auto
next
  fix q :: "'m message_queue"
  assume "mq_inv q" "mq_list q = []"
  then show "\<exists>q'. skynet_mq_pop q = Some (None, q') \<and> mq_inv q' \<and> mq_list q' = []"
    by (simp add: mq_pop_empty)
next
  fix q :: "'m message_queue" and x xs
  assume "mq_inv q" "mq_list q = x # xs"
  then show "\<exists>q'. skynet_mq_pop q = Some (Some x, q') \<and> mq_inv q' \<and> mq_list q' = xs"
    using mq_pop_cons [of q x xs] by auto
qed

lemma drop_loop_ok:
  assumes "mq_inv q"
  shows "\<exists>q'. drop_loop q = Some (mq_list q, q') \<and> mq_inv q' \<and> mq_list q' = [] \<and> mq_next q' = mq_next q"
  using assms
proof (induction "mq_list q" arbitrary: q)
  case Nil
  then show ?case
    by (subst drop_loop.simps) (simp add: mq_pop_empty)
next
  case (Cons m ms)
  from mq_pop_cons [OF Cons.prems Cons.hyps(2) [symmetric]] obtain q1
    where q1: "skynet_mq_pop q = Some (Some m, q1)" "mq_inv q1" "mq_list q1 = ms" "mq_next q1 = mq_next q"
    by blast
  from Cons.hyps(1) [of q1] q1 Cons.hyps(2) show ?case
    by (subst drop_loop.simps) auto
qed

subsection \<open>The global queue is a list of addresses\<close>

fun mq_chain :: "(qid \<Rightarrow> 'm message_queue option) \<Rightarrow> qid option \<Rightarrow> qid list \<Rightarrow> bool" where
  "mq_chain f p [] \<longleftrightarrow> p = None"
| "mq_chain f p (x # xs) \<longleftrightarrow> p = Some x \<and> (case f x of None \<Rightarrow> False | Some q \<Rightarrow> mq_chain f (mq_next q) xs)"

definition gq_rep :: "'m mq_store \<Rightarrow> qid list \<Rightarrow> bool" where
  "gq_rep s xs \<longleftrightarrow> distinct xs \<and> mq_chain (mqs s) (gq_head s) xs \<and>
     gq_tail s = (if xs = [] then None else Some (last xs)) \<and>
     (\<forall>i q. i \<notin> set xs \<longrightarrow> mqs s i = Some q \<longrightarrow> mq_next q = None)"

lemma mq_chain_unique: "mq_chain f p xs \<Longrightarrow> mq_chain f p ys \<Longrightarrow> xs = ys"
proof (induction xs arbitrary: p ys)
  case Nil
  then show ?case by (cases ys) auto
next
  case (Cons x xs)
  then show ?case by (cases ys) (auto split: option.splits)
qed

lemma gq_rep_unique: "gq_rep s xs \<Longrightarrow> gq_rep s ys \<Longrightarrow> xs = ys"
  by (auto simp: gq_rep_def intro: mq_chain_unique)

lemma mq_chain_cong:
  assumes "\<And>x. x \<in> set xs \<Longrightarrow> map_option mq_next (f x) = map_option mq_next (g x)"
  shows "mq_chain f p xs = mq_chain g p xs"
  using assms
proof (induction xs arbitrary: p)
  case Nil
  then show ?case by simp
next
  case (Cons x xs)
  have "map_option mq_next (f x) = map_option mq_next (g x)" using Cons.prems by simp
  moreover have "mq_chain f r xs = mq_chain g r xs" for r using Cons by simp
  ultimately show ?case by (cases "f x"; cases "g x") auto
qed

lemma mq_chain_mem: "mq_chain f p xs \<Longrightarrow> x \<in> set xs \<Longrightarrow> \<exists>q. f x = Some q"
  by (induction xs arbitrary: p) (auto split: option.splits)

lemma mq_chain_last:
  "mq_chain f p xs \<Longrightarrow> xs \<noteq> [] \<Longrightarrow> \<exists>q. f (last xs) = Some q \<and> mq_next q = None"
  by (induction xs arbitrary: p) (auto split: option.splits if_splits)

lemma mq_chain_snoc:
  assumes "mq_chain f p xs" "xs \<noteq> []" "distinct xs" "i \<notin> set xs"
    and "f (last xs) = Some t" "f i = Some q" "mq_next q = None"
  shows "mq_chain (f(last xs \<mapsto> t\<lparr>mq_next := Some i\<rparr>)) p (xs @ [i])"
  using assms
proof (induction xs arbitrary: p)
  case Nil
  then show ?case by simp
next
  case (Cons x xs)
  show ?case
  proof (cases "xs = []")
    case True
    with Cons.prems show ?thesis by auto
  next
    case False
    with Cons.prems obtain r where "f x = Some r" "mq_chain f (mq_next r) xs" "x \<noteq> last xs"
      by (metis (no_types, lifting) mq_chain.simps(2) distinct.simps(2) last_in_set option.case_eq_if option.collapse)
    moreover from this False Cons.prems have "mq_chain (f(last xs \<mapsto> t\<lparr>mq_next := Some i\<rparr>)) (mq_next r) (xs @ [i])"
      by (intro Cons.IH) auto
    ultimately show ?thesis using False Cons.prems by (simp add: fun_upd_other del: fun_upd_apply)
  qed
qed

lemma gq_rep_mem: "gq_rep s xs \<Longrightarrow> x \<in> set xs \<Longrightarrow> \<exists>q. mqs s x = Some q"
  by (auto simp: gq_rep_def intro: mq_chain_mem)

lemma gq_rep_update:
  assumes "gq_rep s xs" "mqs s i = Some q" "mq_next q' = mq_next q"
  shows "gq_rep (s\<lparr>mqs := (mqs s)(i \<mapsto> q')\<rparr>) xs"
  using assms by (auto simp: gq_rep_def cong: mq_chain_cong)
    (subst mq_chain_cong [where g = "mqs s"], auto)

text \<open>Pushing a queue that is not in the list appends it and cannot fail its assertion.\<close>

lemma gq_push_ok:
  assumes rep: "gq_rep s xs" and i: "i \<notin> set xs" and q: "mqs s i = Some q"
  shows "\<exists>s'. skynet_globalmq_push i s = Some s' \<and> gq_rep s' (xs @ [i]) \<and> mq_fresh s' = mq_fresh s \<and>
     (\<forall>j. map_option (\<lambda>r. r\<lparr>mq_next := None\<rparr>) (mqs s' j) = map_option (\<lambda>r. r\<lparr>mq_next := None\<rparr>) (mqs s j))"
proof (cases "xs = []")
  case True
  with assms show ?thesis
    by (auto simp: skynet_globalmq_push_def gq_rep_def)
next
  case False
  with rep have tl: "gq_tail s = Some (last xs)" and ch: "mq_chain (mqs s) (gq_head s) xs"
    and dist: "distinct xs" and nx: "mq_next q = None"
    using i q by (auto simp: gq_rep_def)
  from mq_chain_last [OF ch False] obtain t where t: "mqs s (last xs) = Some t" by blast
  let ?s' = "s\<lparr>mqs := (mqs s)(last xs \<mapsto> t\<lparr>mq_next := Some i\<rparr>), gq_tail := Some i\<rparr>"
  have "skynet_globalmq_push i s = Some ?s'"
    using q nx tl t by (simp add: skynet_globalmq_push_def)
  moreover have "gq_rep ?s' (xs @ [i])"
    using mq_chain_snoc [OF ch False dist i t q nx] rep dist i False by (auto simp: gq_rep_def)
  ultimately show ?thesis using t by auto
qed

lemma gq_pop_empty: "gq_rep s [] \<Longrightarrow> skynet_globalmq_pop s = Some (None, s)"
  by (simp add: skynet_globalmq_pop_def gq_rep_def)

lemma gq_pop_cons:
  assumes rep: "gq_rep s (i # xs)"
  shows "\<exists>s'. skynet_globalmq_pop s = Some (Some i, s') \<and> gq_rep s' xs \<and> mq_fresh s' = mq_fresh s \<and>
     (\<forall>j. map_option (\<lambda>r. r\<lparr>mq_next := None\<rparr>) (mqs s' j) = map_option (\<lambda>r. r\<lparr>mq_next := None\<rparr>) (mqs s j))"
proof -
  from rep obtain q where q: "mqs s i = Some q" and hd: "gq_head s = Some i"
    and ch: "mq_chain (mqs s) (mq_next q) xs" and i: "i \<notin> set xs" and dist: "distinct xs"
    by (auto simp: gq_rep_def split: option.splits)
  have ch': "mq_chain ((mqs s)(i \<mapsto> q\<lparr>mq_next := None\<rparr>)) p xs = mq_chain (mqs s) p xs" for p
    using i by (intro mq_chain_cong) auto
  show ?thesis
  proof (cases xs)
    case Nil
    with ch q hd rep show ?thesis
      by (auto simp: skynet_globalmq_pop_def gq_rep_def)
  next
    case (Cons j ys)
    with ch have nx: "mq_next q = Some j" by simp
    let ?s' = "s\<lparr>gq_head := Some j, mqs := (mqs s)(i \<mapsto> q\<lparr>mq_next := None\<rparr>)\<rparr>"
    have "skynet_globalmq_pop s = Some (Some i, ?s')"
      using q hd nx by (simp add: skynet_globalmq_pop_def)
    moreover have "gq_rep ?s' xs"
      using rep ch ch' nx dist Cons by (auto simp: gq_rep_def split: if_splits)
    ultimately show ?thesis using q by auto
  qed
qed

subsection \<open>Properties\<close>

text \<open>Property C1: a message queue is a first-in first-out queue. Any sequence of pushes and pops
  on a new queue, however often the ring has to grow, returns what the same sequence returns on a
  list, and the length the queue reports is the length of that list.\<close>

theorem mq_refines_fifo:
  "\<exists>q'. fifo_run mq_enqueue skynet_mq_pop ops (skynet_mq_new h) = Some (fst (list_run ops []), q') \<and>
     mq_list q' = snd (list_run ops []) \<and>
     skynet_mq_length q' = int (length (snd (list_run ops [])))"
  using mq.run_ok [of "skynet_mq_new h" ops] by (auto simp: mq_length_list)

text \<open>Property: the overload mark. A pop that leaves more messages than the threshold records
  their number and raises the threshold above it; the next call of \<^verbatim>\<open>skynet_mq_overload\<close> reports
  the number once and clears it.\<close>

theorem mq_overload_reported:
  assumes "mq_inv q" "mq_list q = m # ms" "mq_overload_threshold q < int (length ms)"
  shows "\<exists>q' q''. skynet_mq_pop q = Some (Some m, q') \<and> mq_list q' = ms \<and>
     int (length ms) \<le> mq_overload_threshold q' \<and>
     skynet_mq_overload q' = (int (length ms), q'') \<and> skynet_mq_overload q'' = (0, q'')"
proof -
  from mq_pop_cons [OF assms(1,2)] assms(3) obtain q' where q': "skynet_mq_pop q = Some (Some m, q')"
    "mq_list q' = ms" "mq_overload q' = int (length ms)" "int (length ms) \<le> mq_overload_threshold q'"
    by auto
  moreover have "ms \<noteq> []" using assms(1,3) by (auto simp: mq_inv_def MQ_OVERLOAD_def)
  ultimately show ?thesis
    by (intro exI [of _ q'] exI [of _ "q'\<lparr>mq_overload := 0\<rparr>"]) (simp add: skynet_mq_overload_def)
qed

text \<open>A queue that holds the messages \<open>0, \<dots>, n - 1\<close> in a ring of twice their number.\<close>

definition loaded_mq :: "nat \<Rightarrow> nat message_queue" where
  "loaded_mq n = (skynet_mq_new 7)\<lparr>mq_cap := 2 * n, mq_tail := n,
     mq_queue := map Some [0..<n] @ replicate n None\<rparr>"

lemma loaded_mq_ok:
  assumes "0 < n"
  shows "mq_inv (loaded_mq n)" "mq_list (loaded_mq n) = [0..<n]"
proof -
  have sel: "mq_head (loaded_mq n) = 0" "mq_tail (loaded_mq n) = n" "mq_cap (loaded_mq n) = 2 * n"
    "length (mq_queue (loaded_mq n)) = 2 * n" "mq_overload_threshold (loaded_mq n) = MQ_OVERLOAD"
    by (simp_all add: loaded_mq_def skynet_mq_new_def)
  have rl: "ring_len 0 n (2 * n) = n" by (simp add: ring_len_def)
  have sl: "ring_slice (mq_queue (loaded_mq n)) 0 n = map Some [0..<n]"
    by (auto simp: ring_slice_def loaded_mq_def nth_append)
  show "mq_inv (loaded_mq n)"
    unfolding mq_inv_def sel rl sl using assms by auto
  show "mq_list (loaded_mq n) = [0..<n]"
    unfolding mq_list_def sel rl sl by (simp add: comp_def)
qed

theorem mq_overload_reported_witness:
  "\<exists>q' q''. skynet_mq_pop (loaded_mq 1026) = Some (Some 0, q') \<and> mq_list q' = [1..<1026] \<and>
     int (length [1..<1026]) \<le> mq_overload_threshold q' \<and>
     skynet_mq_overload q' = (int (length [1..<1026]), q'') \<and> skynet_mq_overload q'' = (0, q'')"
proof (rule mq_overload_reported)
  show "mq_inv (loaded_mq 1026)" by (rule loaded_mq_ok) simp
  have "mq_list (loaded_mq 1026) = [0..<1026]" by (rule loaded_mq_ok) simp
  also have "\<dots> = 0 # [1..<1026]" by (rule upt_conv_Cons [THEN trans]) simp_all
  finally show "mq_list (loaded_mq 1026) = 0 # [1..<1026]" .
  show "mq_overload_threshold (loaded_mq 1026) < int (length [1..<1026])"
    by (simp only: length_upt) (simp add: loaded_mq_def skynet_mq_new_def MQ_OVERLOAD_def)
qed

text \<open>Property: releasing a queue. A queue marked for release hands every message it holds to
  the drop callback, in order, and is freed while the global queue keeps its order; a queue that
  is not marked yet goes to the end of the global queue and loses nothing.\<close>

theorem mq_release_drops_all:
  assumes "gq_rep s xs" "i \<notin> set xs" "mqs s i = Some q" "mq_inv q"
  shows "\<exists>ms s'. skynet_mq_release i s = Some (ms, s') \<and>
     (if mq_release q \<noteq> 0 then ms = mq_list q \<and> mqs s' i = None \<and> gq_rep s' xs
      else ms = [] \<and> gq_rep s' (xs @ [i]) \<and> (\<exists>q'. mqs s' i = Some q' \<and> mq_list q' = mq_list q))"
proof (cases "mq_release q = 0")
  case True
  from gq_push_ok [OF assms(1-3)] obtain s' where s': "skynet_globalmq_push i s = Some s'"
    "gq_rep s' (xs @ [i])"
    "map_option (\<lambda>r. r\<lparr>mq_next := None\<rparr>) (mqs s' i) = map_option (\<lambda>r. r\<lparr>mq_next := None\<rparr>) (mqs s i)"
    by blast
  from s'(3) assms(3) obtain q' where q': "mqs s' i = Some q'" "q'\<lparr>mq_next := None\<rparr> = q\<lparr>mq_next := None\<rparr>"
    by auto
  from q'(2) have "mq_list q' = mq_list q" by (metis mq_list_frame(1))
  with True assms s' q' show ?thesis by (simp add: skynet_mq_release_def)
next
  case False
  have "mq_next q = None" using assms by (auto simp: gq_rep_def)
  moreover from drop_loop_ok [OF assms(4)] obtain q' where "drop_loop q = Some (mq_list q, q')"
    "mq_next q' = mq_next q" by blast
  moreover have "gq_rep (s\<lparr>mqs := (mqs s)(i := None)\<rparr>) xs"
    using assms(1,2) by (auto simp: gq_rep_def) (subst mq_chain_cong [where g = "mqs s"], auto)
  ultimately show ?thesis
    using assms False by (simp add: skynet_mq_release_def drop_queue_def mq_free_def)
qed

definition released_store :: "nat mq_store" where
  "released_store = \<lparr>mqs = [0 \<mapsto> (skynet_mq_new 7)\<lparr>mq_release := 1, mq_tail := 2,
     mq_queue := Some 5 # Some 6 # replicate 62 None\<rparr>], mq_fresh = 1, gq_head = None, gq_tail = None\<rparr>"

theorem mq_release_drops_all_witness:
  "\<exists>s'. skynet_mq_release 0 released_store = Some ([5, 6], s') \<and> mqs s' 0 = None \<and> gq_rep s' []"
proof -
  let ?q = "(skynet_mq_new 7)\<lparr>mq_release := 1, mq_tail := 2,
     mq_queue := Some 5 # Some 6 # replicate 62 None\<rparr> :: nat message_queue"
  have sl: "ring_slice (Some 5 # Some 6 # replicate 62 None) 0 2 = [Some 5, Some (6::nat)]"
    by (simp add: ring_slice_def numeral_2_eq_2)
  have rl: "ring_len 0 2 64 = 2" by (simp add: ring_len_def)
  have "mq_inv ?q" "mq_list ?q = [5, 6]"
    by (simp_all add: mq_inv_def mq_list_def skynet_mq_new_def DEFAULT_QUEUE_SIZE_def rl sl)
  moreover have "gq_rep released_store []" "mqs released_store 0 = Some ?q" "mq_release ?q \<noteq> 0"
    by (auto simp: gq_rep_def released_store_def skynet_mq_new_def)
  ultimately show ?thesis
    using mq_release_drops_all [of released_store "[]" 0 ?q] by auto
qed

end
