(* ===== verification/Scheduler.thy ===== *)
theory Scheduler
  imports Message_Queue
begin

text \<open>
  How worker threads share the message queues (\<^verbatim>\<open>skynet_context_message_dispatch\<close> of
  \<^verbatim>\<open>skynet-src/skynet_server.c\<close>, with the queue operations of \<^verbatim>\<open>skynet_mq.c\<close>). Every queue
  operation runs under the lock of the queue or of the global queue, so a run of the program is
  a sequence of these operations in some order, by any number of threads. The state adds to the
  store of queues the addresses that some thread holds: a worker holds the queue it took from
  the global queue, and the creator of a service holds its queue until it publishes it.

  The invariant says that a queue is scheduled at most once: it is in the global queue or held
  by one thread, never both and never twice, exactly when it is marked as scheduled or released.
  A queue with messages is always scheduled, so no message waits forever in a forgotten queue.
\<close>

record 'm sched =
  sc_store :: "'m mq_store"
  sc_held :: "qid list"

definition sched_init :: "'m sched" where
  "sched_init = \<lparr>sc_store = skynet_mq_init, sc_held = []\<rparr>"

text \<open>One rule for each call the threads make. A worker serves a queue only while it holds a
  reference to the service, so the queue is not marked as released then; the same is true of a
  sender (\<^verbatim>\<open>skynet_context_push\<close>).\<close>

inductive sched_step :: "'m sched \<Rightarrow> 'm sched \<Rightarrow> bool" where
  create: "skynet_mq_create h (sc_store s) = (i, st) \<Longrightarrow>
     sched_step s (s\<lparr>sc_store := st, sc_held := i # sc_held s\<rparr>)"
| send: "mqs (sc_store s) i = Some q \<Longrightarrow> mq_release q = 0 \<Longrightarrow>
     skynet_mq_push i m (sc_store s) = Some st \<Longrightarrow>
     sched_step s (s\<lparr>sc_store := st\<rparr>)"
| take_queue: "skynet_globalmq_pop (sc_store s) = Some (Some i, st) \<Longrightarrow>
     sched_step s (s\<lparr>sc_store := st, sc_held := i # sc_held s\<rparr>)"
| serve: "i \<in> set (sc_held s) \<Longrightarrow> mqs (sc_store s) i = Some q \<Longrightarrow> mq_release q = 0 \<Longrightarrow>
     skynet_mq_pop q = Some (Some m, q') \<Longrightarrow>
     sched_step s (s\<lparr>sc_store := (sc_store s)\<lparr>mqs := (mqs (sc_store s))(i \<mapsto> q')\<rparr>\<rparr>)"
| idle: "i \<in> set (sc_held s) \<Longrightarrow> mqs (sc_store s) i = Some q \<Longrightarrow> mq_release q = 0 \<Longrightarrow>
     skynet_mq_pop q = Some (None, q') \<Longrightarrow>
     sched_step s (s\<lparr>sc_store := (sc_store s)\<lparr>mqs := (mqs (sc_store s))(i \<mapsto> q')\<rparr>,
                     sc_held := remove1 i (sc_held s)\<rparr>)"
| putback: "i \<in> set (sc_held s) \<Longrightarrow> skynet_globalmq_push i (sc_store s) = Some st \<Longrightarrow>
     sched_step s (s\<lparr>sc_store := st, sc_held := remove1 i (sc_held s)\<rparr>)"
| mark: "mqs (sc_store s) i = Some q \<Longrightarrow> mq_release q = 0 \<Longrightarrow>
     skynet_mq_mark_release i (sc_store s) = Some st \<Longrightarrow>
     sched_step s (s\<lparr>sc_store := st\<rparr>)"
| release: "i \<in> set (sc_held s) \<Longrightarrow> skynet_mq_release i (sc_store s) = Some (ms, st) \<Longrightarrow>
     sched_step s (s\<lparr>sc_store := st, sc_held := remove1 i (sc_held s)\<rparr>)"

inductive sched_reachable :: "'m sched \<Rightarrow> bool" where
  start: "sched_reachable sched_init"
| step: "sched_reachable s \<Longrightarrow> sched_step s t \<Longrightarrow> sched_reachable t"

subsection \<open>The invariant\<close>

definition scheduled :: "'m message_queue \<Rightarrow> bool" where
  "scheduled q \<longleftrightarrow> mq_in_global q = MQ_IN_GLOBAL \<or> mq_release q \<noteq> 0"

definition queue_ok :: "'m message_queue \<Rightarrow> bool" where
  "queue_ok q \<longleftrightarrow> mq_inv q \<and> (mq_in_global q = 0 \<or> mq_in_global q = MQ_IN_GLOBAL) \<and>
     (\<not> scheduled q \<longrightarrow> mq_list q = [])"

definition sched_inv :: "'m sched \<Rightarrow> qid list \<Rightarrow> bool" where
  "sched_inv s xs \<longleftrightarrow> gq_rep (sc_store s) xs \<and> distinct (xs @ sc_held s) \<and>
     (\<forall>i q. mqs (sc_store s) i = Some q \<longrightarrow> queue_ok q \<and> (scheduled q \<longleftrightarrow> i \<in> set (xs @ sc_held s))) \<and>
     (\<forall>i \<in> set (sc_held s). mqs (sc_store s) i \<noteq> None) \<and>
     (\<forall>i. mq_fresh (sc_store s) \<le> i \<longrightarrow> mqs (sc_store s) i = None)"

text \<open>Two stores that differ only in links.\<close>

definition same_queues :: "'m mq_store \<Rightarrow> 'm mq_store \<Rightarrow> bool" where
  "same_queues s s' \<longleftrightarrow> mq_fresh s' = mq_fresh s \<and>
     (\<forall>j. map_option (\<lambda>r. r\<lparr>mq_next := None\<rparr>) (mqs s' j) = map_option (\<lambda>r. r\<lparr>mq_next := None\<rparr>) (mqs s j))"

lemma queue_ok_next [simp]: "queue_ok (q\<lparr>mq_next := n\<rparr>) = queue_ok q"
  by (simp add: queue_ok_def scheduled_def)

lemma scheduled_next [simp]: "scheduled (q\<lparr>mq_next := n\<rparr>) = scheduled q"
  by (simp add: scheduled_def)

lemma same_queues_None: "same_queues s s' \<Longrightarrow> mqs s' j = None \<longleftrightarrow> mqs s j = None"
  unfolding same_queues_def by (metis option.map_disc_iff)

lemma same_queues_Some:
  assumes "same_queues s s'" "mqs s' j = Some q'"
  obtains q where "mqs s j = Some q" "queue_ok q' = queue_ok q" "scheduled q' = scheduled q"
proof -
  from assms obtain q where q: "mqs s j = Some q" "q'\<lparr>mq_next := None\<rparr> = q\<lparr>mq_next := None\<rparr>"
    unfolding same_queues_def by (metis (no_types, lifting) map_option_eq_Some)
  from q(2) have "queue_ok q' = queue_ok q" "scheduled q' = scheduled q"
    by (metis queue_ok_next, metis scheduled_next)
  with q(1) that show thesis by blast
qed

text \<open>Replacing the store by one that differs in links, with the queue list and the held
  addresses rearranged.\<close>

lemma sched_inv_rearrange:
  assumes inv: "sched_inv s xs" and rep: "gq_rep st ys" and same: "same_queues (sc_store s) st"
    and dist: "distinct (ys @ hs)" and set: "set (ys @ hs) = set (xs @ sc_held s)"
    and held: "set hs \<subseteq> set (xs @ sc_held s)"
  shows "sched_inv (s\<lparr>sc_store := st, sc_held := hs\<rparr>) ys"
proof -
  have live: "mqs (sc_store s) i \<noteq> None" if "i \<in> set (xs @ sc_held s)" for i
    using inv that gq_rep_mem [of "sc_store s" xs i] by (auto simp: sched_inv_def)
  have "queue_ok q \<and> (scheduled q \<longleftrightarrow> i \<in> set (ys @ hs))" if q: "mqs st i = Some q" for i q
  proof -
    from same q obtain r where "mqs (sc_store s) i = Some r" "queue_ok q = queue_ok r"
      "scheduled q = scheduled r" by (rule same_queues_Some)
    with inv set show ?thesis by (auto simp: sched_inv_def)
  qed
  moreover have "mqs st i \<noteq> None" if "i \<in> set hs" for i
    using live that held same_queues_None [OF same, of i] by blast
  moreover have "mqs st i = None" if "mq_fresh st \<le> i" for i
    using inv that same same_queues_None [OF same, of i] by (auto simp: sched_inv_def same_queues_def)
  ultimately show ?thesis
    using rep dist by (auto simp: sched_inv_def)
qed

lemma gq_push_same:
  assumes "gq_rep s xs" "i \<notin> set xs" "mqs s i = Some q"
  shows "\<exists>s'. skynet_globalmq_push i s = Some s' \<and> gq_rep s' (xs @ [i]) \<and> same_queues s s'"
  using gq_push_ok [OF assms] by (auto simp: same_queues_def)

text \<open>Changing the fields of one queue, and possibly dropping it from the held addresses.\<close>

lemma sched_inv_update:
  assumes inv: "sched_inv s xs" and q: "mqs (sc_store s) i = Some q" and nx: "mq_next q' = mq_next q"
    and ok: "queue_ok q'" and dist: "distinct (xs @ hs)"
    and hs: "set hs \<subseteq> set (sc_held s)" "\<And>j. j \<noteq> i \<Longrightarrow> j \<in> set hs \<longleftrightarrow> j \<in> set (sc_held s)"
    and sch: "scheduled q' \<longleftrightarrow> i \<in> set (xs @ hs)"
  shows "sched_inv (s\<lparr>sc_store := (sc_store s)\<lparr>mqs := (mqs (sc_store s))(i \<mapsto> q')\<rparr>, sc_held := hs\<rparr>) xs"
proof -
  have "gq_rep ((sc_store s)\<lparr>mqs := (mqs (sc_store s))(i \<mapsto> q')\<rparr>) xs"
    using inv q nx by (intro gq_rep_update) (auto simp: sched_inv_def)
  then show ?thesis
    using inv q ok dist hs sch by (auto simp: sched_inv_def)
qed

lemma sched_inv_init: "sched_inv sched_init []"
  by (simp add: sched_inv_def sched_init_def skynet_mq_init_def gq_rep_def)

lemma sched_inv_create:
  assumes inv: "sched_inv s xs" and cr: "skynet_mq_create h (sc_store s) = (i, st)"
  shows "sched_inv (s\<lparr>sc_store := st, sc_held := i # sc_held s\<rparr>) xs"
proof -
  from cr have i: "i = mq_fresh (sc_store s)"
    and st: "st = (sc_store s)\<lparr>mqs := (mqs (sc_store s))(i \<mapsto> skynet_mq_new h), mq_fresh := Suc i\<rparr>"
    by (auto simp: skynet_mq_create_def)
  from inv i have fresh: "mqs (sc_store s) i = None" by (auto simp: sched_inv_def)
  have notin: "i \<notin> set xs" "i \<notin> set (sc_held s)"
    using inv fresh gq_rep_mem [of "sc_store s" xs i] by (auto simp: sched_inv_def)
  have "gq_rep st xs"
    using inv notin unfolding st
    by (auto simp: sched_inv_def gq_rep_def skynet_mq_new_def)
      (subst mq_chain_cong [where g = "mqs (sc_store s)"], auto)
  moreover have "queue_ok (skynet_mq_new h)" "scheduled (skynet_mq_new h)"
    by (simp_all add: queue_ok_def scheduled_def) (simp_all add: skynet_mq_new_def)
  ultimately show ?thesis
    using inv notin unfolding st i by (auto simp: sched_inv_def)
qed

text \<open>Publishing an unscheduled queue under changed fields.\<close>

lemma sched_inv_publish:
  assumes inv: "sched_inv s xs" and q: "mqs (sc_store s) i = Some q" and nx: "mq_next q' = mq_next q"
    and ok: "queue_ok q'" "scheduled q'" and i: "i \<notin> set (xs @ sc_held s)"
  shows "\<exists>st. skynet_globalmq_push i ((sc_store s)\<lparr>mqs := (mqs (sc_store s))(i \<mapsto> q')\<rparr>) = Some st \<and>
    sched_inv (s\<lparr>sc_store := st\<rparr>) (xs @ [i])"
proof -
  let ?st = "(sc_store s)\<lparr>mqs := (mqs (sc_store s))(i \<mapsto> q')\<rparr>"
  have rep: "gq_rep ?st xs" using inv q nx by (intro gq_rep_update) (auto simp: sched_inv_def)
  from gq_push_same [of ?st xs i] rep i obtain st
    where st: "skynet_globalmq_push i ?st = Some st" "gq_rep st (xs @ [i])" "same_queues ?st st"
    by auto
  have "queue_ok r \<and> (scheduled r \<longleftrightarrow> j \<in> set (xs @ [i] @ sc_held s))" if r: "mqs st j = Some r" for j r
  proof -
    from st(3) r obtain r' where r': "mqs ?st j = Some r'" "queue_ok r = queue_ok r'"
      "scheduled r = scheduled r'" by (rule same_queues_Some)
    then show ?thesis using inv ok by (cases "j = i") (auto simp: sched_inv_def)
  qed
  moreover have "mqs st j \<noteq> None" if "j \<in> set (sc_held s)" for j
    using that inv same_queues_None [OF st(3), of j] i by (auto simp: sched_inv_def)
  moreover have "mqs st j = None" if "mq_fresh st \<le> j" for j
    using that inv same_queues_None [OF st(3), of j] st(3) q
    by (auto simp: sched_inv_def same_queues_def)
  ultimately have "sched_inv (s\<lparr>sc_store := st\<rparr>) (xs @ [i])"
    using st(2) inv i by (auto simp: sched_inv_def)
  with st(1) show ?thesis by blast
qed

lemma sched_inv_send:
  assumes inv: "sched_inv s xs" and q: "mqs (sc_store s) i = Some q" and rel: "mq_release q = 0"
  shows "\<exists>st ys. skynet_mq_push i m (sc_store s) = Some st \<and> sched_inv (s\<lparr>sc_store := st\<rparr>) ys"
proof -
  from inv q have ok: "queue_ok q" and sch: "scheduled q \<longleftrightarrow> i \<in> set (xs @ sc_held s)"
    by (auto simp: sched_inv_def)
  from ok obtain q1 where q1: "mq_enqueue m q = Some q1" "mq_inv q1" "mq_release q1 = mq_release q"
    "mq_in_global q1 = mq_in_global q" "mq_next q1 = mq_next q"
    using mq_enqueue_ok [of q m] by (auto simp: queue_ok_def)
  show ?thesis
  proof (cases "mq_in_global q = 0")
    case True
    with sch rel have i: "i \<notin> set (xs @ sc_held s)" by (simp add: scheduled_def MQ_IN_GLOBAL_def)
    have "queue_ok (q1\<lparr>mq_in_global := MQ_IN_GLOBAL\<rparr>)" "scheduled (q1\<lparr>mq_in_global := MQ_IN_GLOBAL\<rparr>)"
      using q1 by (simp_all add: queue_ok_def scheduled_def)
    with sched_inv_publish [OF inv q, of "q1\<lparr>mq_in_global := MQ_IN_GLOBAL\<rparr>"] i q q1 True
    show ?thesis by (auto simp: skynet_mq_push_def)
  next
    case False
    with ok have g: "mq_in_global q = MQ_IN_GLOBAL" by (simp add: queue_ok_def)
    then have "queue_ok q1" "scheduled q1" "scheduled q"
      using q1 by (simp_all add: queue_ok_def scheduled_def)
    then have "sched_inv (s\<lparr>sc_store := (sc_store s)\<lparr>mqs := (mqs (sc_store s))(i \<mapsto> q1)\<rparr>\<rparr>) xs"
      using sched_inv_update [OF inv q q1(5), of "sc_held s"] sch inv by (auto simp: sched_inv_def)
    then show ?thesis using q q1 False by (auto simp: skynet_mq_push_def)
  qed
qed

lemma sched_inv_take:
  assumes inv: "sched_inv s xs" and pop: "skynet_globalmq_pop (sc_store s) = Some (Some i, st)"
  shows "\<exists>ys. sched_inv (s\<lparr>sc_store := st, sc_held := i # sc_held s\<rparr>) ys"
proof (cases xs)
  case Nil
  with inv pop show ?thesis by (simp add: sched_inv_def gq_pop_empty)
next
  case (Cons j ys)
  with inv have "gq_rep (sc_store s) (j # ys)" by (simp add: sched_inv_def)
  from gq_pop_cons [OF this] pop have "j = i" "gq_rep st ys" "same_queues (sc_store s) st"
    by (auto simp: same_queues_def)
  then have "sched_inv (s\<lparr>sc_store := st, sc_held := i # sc_held s\<rparr>) ys"
    using inv Cons by (intro sched_inv_rearrange [OF inv]) (auto simp: sched_inv_def)
  then show ?thesis by blast
qed

lemma sched_inv_pop:
  assumes inv: "sched_inv s xs" and i: "i \<in> set (sc_held s)" and q: "mqs (sc_store s) i = Some q"
    and rel: "mq_release q = 0" and pop: "skynet_mq_pop q = Some (r, q')"
  shows "sched_inv (s\<lparr>sc_store := (sc_store s)\<lparr>mqs := (mqs (sc_store s))(i \<mapsto> q')\<rparr>,
    sc_held := (if r = None then remove1 i (sc_held s) else sc_held s)\<rparr>) xs"
proof -
  from inv q i have ok: "queue_ok q" and sch: "scheduled q" by (auto simp: sched_inv_def)
  from inv have d: "distinct (xs @ sc_held s)" by (simp add: sched_inv_def)
  show ?thesis
  proof (cases "mq_list q")
    case Nil
    with ok pop have "r = None" and q': "q' = q\<lparr>mq_overload_threshold := MQ_OVERLOAD, mq_in_global := 0\<rparr>"
      by (auto simp: mq_pop_empty queue_ok_def)
    moreover have "queue_ok q'" "\<not> scheduled q'"
      using ok Nil rel by (simp_all add: q' queue_ok_def scheduled_def MQ_IN_GLOBAL_def)
    ultimately show ?thesis
      using sched_inv_update [OF inv q, of q' "remove1 i (sc_held s)"] d i by (auto simp: q')
  next
    case (Cons m ms)
    with ok pop mq_pop_cons [of q m ms] have "r = Some m" "mq_next q' = mq_next q" "mq_inv q'"
      "mq_release q' = mq_release q" "mq_in_global q' = mq_in_global q"
      by (auto simp: queue_ok_def)
    moreover from this have "queue_ok q'" "scheduled q'"
      using ok sch by (simp_all add: queue_ok_def scheduled_def)
    ultimately show ?thesis
      using sched_inv_update [OF inv q, of q' "sc_held s"] d i by auto
  qed
qed

lemma held_not_in_global: "sched_inv s xs \<Longrightarrow> i \<in> set (sc_held s) \<Longrightarrow> i \<notin> set xs \<and> (\<exists>q. mqs (sc_store s) i = Some q)"
  by (auto simp: sched_inv_def)

lemma sched_inv_putback:
  assumes inv: "sched_inv s xs" and i: "i \<in> set (sc_held s)"
  shows "\<exists>st. skynet_globalmq_push i (sc_store s) = Some st \<and>
    sched_inv (s\<lparr>sc_store := st, sc_held := remove1 i (sc_held s)\<rparr>) (xs @ [i])"
proof -
  from held_not_in_global [OF inv i] obtain q where "i \<notin> set xs" "mqs (sc_store s) i = Some q" by blast
  moreover have "gq_rep (sc_store s) xs" using inv by (simp add: sched_inv_def)
  ultimately obtain st where "skynet_globalmq_push i (sc_store s) = Some st" "gq_rep st (xs @ [i])"
    "same_queues (sc_store s) st"
    using gq_push_same by blast
  moreover from this have "sched_inv (s\<lparr>sc_store := st, sc_held := remove1 i (sc_held s)\<rparr>) (xs @ [i])"
    using inv i by (intro sched_inv_rearrange [OF inv]) (auto simp: sched_inv_def)
  ultimately show ?thesis by blast
qed

lemma sched_inv_mark:
  assumes inv: "sched_inv s xs" and q: "mqs (sc_store s) i = Some q" and rel: "mq_release q = 0"
  shows "\<exists>st ys. skynet_mq_mark_release i (sc_store s) = Some st \<and> sched_inv (s\<lparr>sc_store := st\<rparr>) ys"
proof -
  let ?q1 = "q\<lparr>mq_release := 1\<rparr>"
  let ?st = "(sc_store s)\<lparr>mqs := (mqs (sc_store s))(i \<mapsto> ?q1)\<rparr>"
  from inv q have ok: "queue_ok q" and sch: "scheduled q \<longleftrightarrow> i \<in> set (xs @ sc_held s)"
    by (auto simp: sched_inv_def)
  have ok1: "queue_ok ?q1" "scheduled ?q1" using ok by (simp_all add: queue_ok_def scheduled_def)
  show ?thesis
  proof (cases "mq_in_global q = MQ_IN_GLOBAL")
    case True
    then have "scheduled q" by (simp add: scheduled_def)
    then have "sched_inv (s\<lparr>sc_store := ?st\<rparr>) xs"
      using sched_inv_update [OF inv q, of ?q1 "sc_held s"] ok1 sch inv by (auto simp: sched_inv_def)
    then show ?thesis
      using q rel True by (auto simp: skynet_mq_mark_release_def)
  next
    case False
    with sch rel have "i \<notin> set (xs @ sc_held s)" by (simp add: scheduled_def)
    with sched_inv_publish [OF inv q, of ?q1] ok1 q rel False show ?thesis
      by (auto simp: skynet_mq_mark_release_def)
  qed
qed

lemma sched_inv_drop:
  assumes inv: "sched_inv s xs" and i: "i \<in> set (sc_held s)"
  shows "\<exists>ms st. drop_queue i (sc_store s) = Some (ms, st) \<and>
    ms = mq_list (the (mqs (sc_store s) i)) \<and> mqs st i = None \<and>
    sched_inv (s\<lparr>sc_store := st, sc_held := remove1 i (sc_held s)\<rparr>) xs"
proof -
  from held_not_in_global [OF inv i] obtain q where nin: "i \<notin> set xs" and q: "mqs (sc_store s) i = Some q"
    by blast
  from inv q have ok: "queue_ok q" and rep: "gq_rep (sc_store s) xs" by (auto simp: sched_inv_def)
  from rep nin q have nx: "mq_next q = None" by (auto simp: gq_rep_def)
  from ok drop_loop_ok [of q] obtain q' where q': "drop_loop q = Some (mq_list q, q')" "mq_next q' = mq_next q"
    by (auto simp: queue_ok_def)
  let ?st = "(sc_store s)\<lparr>mqs := (mqs (sc_store s))(i := None)\<rparr>"
  have "drop_queue i (sc_store s) = Some (mq_list q, ?st)"
    using q q' nx by (simp add: drop_queue_def mq_free_def)
  moreover have "gq_rep ?st xs"
    using rep nin by (auto simp: gq_rep_def) (subst mq_chain_cong [where g = "mqs (sc_store s)"], auto)
  moreover from this have "sched_inv (s\<lparr>sc_store := ?st, sc_held := remove1 i (sc_held s)\<rparr>) xs"
    using inv i by (auto simp: sched_inv_def)
  ultimately show ?thesis using q by simp
qed

lemma sched_inv_release:
  assumes inv: "sched_inv s xs" and i: "i \<in> set (sc_held s)"
  shows "\<exists>ms st ys. skynet_mq_release i (sc_store s) = Some (ms, st) \<and>
    sched_inv (s\<lparr>sc_store := st, sc_held := remove1 i (sc_held s)\<rparr>) ys"
proof -
  from held_not_in_global [OF inv i] obtain q where q: "mqs (sc_store s) i = Some q" by blast
  show ?thesis
    using sched_inv_drop [OF inv i] sched_inv_putback [OF inv i] q
    by (cases "mq_release q = 0") (auto simp: skynet_mq_release_def)
qed

lemma sched_step_inv: "sched_step s t \<Longrightarrow> \<exists>xs. sched_inv s xs \<Longrightarrow> \<exists>ys. sched_inv t ys"
proof (induction rule: sched_step.induct)
  case (create h s i st)
  then show ?case by (blast intro: sched_inv_create)
next
  case (send s i q m st)
  then show ?case using sched_inv_send [of s _ i q m] by fastforce
next
  case (take_queue s i st)
  then show ?case by (blast intro: sched_inv_take)
next
  case (serve i s q m q')
  then obtain xs where "sched_inv s xs" by blast
  from sched_inv_pop [OF this serve.hyps] show ?case by auto
next
  case (idle i s q q')
  then obtain xs where "sched_inv s xs" by blast
  from sched_inv_pop [OF this idle.hyps] show ?case by auto
next
  case (putback i s st)
  then show ?case using sched_inv_putback by fastforce
next
  case (mark s i q st)
  then show ?case using sched_inv_mark by fastforce
next
  case (release i s ms st)
  then show ?case using sched_inv_release by fastforce
qed

lemma sched_reachable_inv: "sched_reachable s \<Longrightarrow> \<exists>xs. sched_inv s xs"
proof (induction rule: sched_reachable.induct)
  case start
  show ?case using sched_inv_init by blast
next
  case (step s t)
  then show ?case by (blast intro: sched_step_inv)
qed

subsection \<open>Properties\<close>

text \<open>Property C2: no lost wake-up and no double scheduling. In every state the threads can reach,
  a queue is in the global queue at most once, and never there and in the hands of a thread at
  the same time; and a queue with a message in it is in one of these two places.\<close>

theorem sched_no_lost_wakeup:
  assumes "sched_reachable s"
  shows "\<exists>xs. gq_rep (sc_store s) xs \<and> distinct (xs @ sc_held s) \<and>
     (\<forall>i q. mqs (sc_store s) i = Some q \<and> mq_list q \<noteq> [] \<longrightarrow> i \<in> set (xs @ sc_held s))"
proof -
  from sched_reachable_inv [OF assms] obtain xs where "sched_inv s xs" by blast
  then show ?thesis by (intro exI [of _ xs]) (auto simp: sched_inv_def queue_ok_def)
qed

text \<open>A run of two calls: the queue of a new service gets a message while its creator holds it.\<close>

lemma sched_demo:
  "\<exists>s q :: nat message_queue. sched_reachable s \<and> sc_held s = [0] \<and> mqs (sc_store s) 0 = Some q \<and>
     mq_list q = [42] \<and> mq_release q = 0"
proof -
  let ?q = "skynet_mq_new 9 :: nat message_queue"
  let ?s0 = "sched_init :: nat sched"
  let ?st1 = "\<lparr>mqs = [0 \<mapsto> ?q], mq_fresh = 1, gq_head = None, gq_tail = None\<rparr>"
  let ?s1 = "\<lparr>sc_store = ?st1, sc_held = [0]\<rparr>"
  have "skynet_mq_create 9 (sc_store ?s0) = (0, ?st1)"
    by (simp add: skynet_mq_create_def sched_init_def skynet_mq_init_def)
  from sched_step.create [OF this] have "sched_step ?s0 ?s1" by (simp add: sched_init_def)
  then have r1: "sched_reachable ?s1" by (rule sched_reachable.step [OF sched_reachable.start])
  have sel: "mq_release ?q = 0" "mq_in_global ?q = MQ_IN_GLOBAL" by (simp_all add: skynet_mq_new_def)
  obtain q1 where q1: "mq_enqueue 42 ?q = Some q1" "mq_list q1 = [42]" "mq_release q1 = 0"
    "mq_in_global q1 = MQ_IN_GLOBAL"
    using mq_enqueue_ok [OF mq_inv_new [of 9], of "42 :: nat"] mq_list_new [of 9]
    by (auto simp: sel)
  let ?st2 = "?st1\<lparr>mqs := [0 \<mapsto> q1]\<rparr>"
  have "skynet_mq_push 0 42 ?st1 = Some ?st2"
    using q1 by (simp add: skynet_mq_push_def MQ_IN_GLOBAL_def)
  then have "sched_step ?s1 (?s1\<lparr>sc_store := ?st2\<rparr>)"
    by (intro sched_step.send [where i = 0 and q = ?q and m = 42]) (simp_all add: skynet_mq_new_def)
  then have "sched_reachable (?s1\<lparr>sc_store := ?st2\<rparr>)" by (rule sched_reachable.step [OF r1])
  with q1 show ?thesis by (intro exI [of _ "?s1\<lparr>sc_store := ?st2\<rparr>"] exI [of _ q1]) simp
qed

theorem sched_no_lost_wakeup_witness:
  "\<exists>(s :: nat sched) q xs. sched_reachable s \<and> mqs (sc_store s) 0 = Some q \<and> mq_list q = [42] \<and>
     gq_rep (sc_store s) xs \<and> 0 \<in> set (xs @ sc_held s)"
proof -
  from sched_demo obtain s q where s: "sched_reachable (s :: nat sched)" "mqs (sc_store s) 0 = Some q"
    "mq_list q = [42]" by blast
  from sched_no_lost_wakeup [OF s(1)] obtain xs where "gq_rep (sc_store s) xs"
    "\<forall>i q. mqs (sc_store s) i = Some q \<and> mq_list q \<noteq> [] \<longrightarrow> i \<in> set (xs @ sc_held s)" by blast
  with s show ?thesis by (intro exI [of _ s] exI [of _ q] exI [of _ xs]) auto
qed

text \<open>Property C5: the queue operations never fail an assertion and never follow a dangling link.
  In every reachable state a worker can ask the global queue for work, a sender can push to a
  live queue and its service can mark it, and the thread that holds a queue can serve it, put it
  back and release it; releasing a marked queue yields all its messages.\<close>

theorem sched_no_failure:
  assumes "sched_reachable s"
  shows "skynet_globalmq_pop (sc_store s) \<noteq> None \<and>
     (\<forall>i q m. mqs (sc_store s) i = Some q \<and> mq_release q = 0 \<longrightarrow>
        skynet_mq_push i m (sc_store s) \<noteq> None \<and> skynet_mq_mark_release i (sc_store s) \<noteq> None) \<and>
     (\<forall>i. i \<in> set (sc_held s) \<longrightarrow>
        (\<exists>q. mqs (sc_store s) i = Some q \<and> skynet_mq_pop q \<noteq> None \<and>
           skynet_globalmq_push i (sc_store s) \<noteq> None \<and>
           (\<exists>ms st. skynet_mq_release i (sc_store s) = Some (ms, st) \<and>
              (mq_release q \<noteq> 0 \<longrightarrow> ms = mq_list q))))"
proof -
  from sched_reachable_inv [OF assms] obtain xs where inv: "sched_inv s xs" by blast
  have "skynet_globalmq_pop (sc_store s) \<noteq> None"
    using inv gq_pop_empty [of "sc_store s"] gq_pop_cons [of "sc_store s"]
    by (cases xs) (fastforce simp: sched_inv_def)+
  moreover have "skynet_mq_push i m (sc_store s) \<noteq> None \<and> skynet_mq_mark_release i (sc_store s) \<noteq> None"
    if "mqs (sc_store s) i = Some q \<and> mq_release q = 0" for i q m
    using sched_inv_send [OF inv, of i q m] sched_inv_mark [OF inv, of i q] that by auto
  moreover have "\<exists>q. mqs (sc_store s) i = Some q \<and> skynet_mq_pop q \<noteq> None \<and>
      skynet_globalmq_push i (sc_store s) \<noteq> None \<and>
      (\<exists>ms st. skynet_mq_release i (sc_store s) = Some (ms, st) \<and> (mq_release q \<noteq> 0 \<longrightarrow> ms = mq_list q))"
    if i: "i \<in> set (sc_held s)" for i
  proof -
    from held_not_in_global [OF inv i] obtain q where q: "mqs (sc_store s) i = Some q" by blast
    with inv have "mq_inv q" by (auto simp: sched_inv_def queue_ok_def)
    then have "skynet_mq_pop q \<noteq> None"
      using mq_pop_empty [of q] mq_pop_cons [of q] by (cases "mq_list q") fastforce+
    then show ?thesis
      using q sched_inv_putback [OF inv i] sched_inv_drop [OF inv i]
      by (auto simp: skynet_mq_release_def)
  qed
  ultimately show ?thesis by blast
qed

theorem sched_no_failure_witness:
  "\<exists>(s :: nat sched) q. sched_reachable s \<and> mqs (sc_store s) 0 = Some q \<and> mq_list q = [42] \<and>
     skynet_mq_pop q \<noteq> None \<and> skynet_mq_push 0 43 (sc_store s) \<noteq> None"
proof -
  from sched_demo obtain s q where s: "sched_reachable (s :: nat sched)" "mqs (sc_store s) 0 = Some q"
    "mq_list q = [42]" "sc_held s = [0]" "mq_release q = 0" by blast
  with sched_no_failure [OF s(1)] show ?thesis by (intro exI [of _ s] exI [of _ q]) auto
qed

end
