(* ===== verification/Handle_Storage.thy ===== *)
theory Handle_Storage
  imports Skynet_Prelude "HOL-Library.Char_ord" "HOL-Library.List_Lexorder"
begin

text \<open>
  \<^verbatim>\<open>skynet-src/skynet_handle.c\<close>: the table of services. A handle is a 32-bit number whose high
  8 bits are the node (harbor) and whose low 24 bits index an open hash table of service
  contexts that doubles when it is full. Beside it a sorted array maps local names to handles.

  A slot holds the address of a context; the handle of a context is a field of the context, so
  the operations that read it take that field as a function \<open>hof\<close> from addresses to handles.
  The array of names has the capacity the code allocated; an entry nobody wrote is \<open>None\<close>.
\<close>

subsection \<open>Data\<close>

definition DEFAULT_SLOT_SIZE :: nat where "DEFAULT_SLOT_SIZE = 4"
definition MAX_SLOT_SIZE :: nat where "MAX_SLOT_SIZE = 0x40000000"
definition HANDLE_MASK :: u32 where "HANDLE_MASK = 0xffffff"
definition HANDLE_REMOTE_SHIFT :: nat where "HANDLE_REMOTE_SHIFT = 24"

type_synonym cid = nat
type_synonym handle_name = "string \<times> u32"

record handle_storage =
  hs_harbor :: u32
  hs_handle_index :: u32
  hs_slot_size :: nat
  hs_slot :: "cid option list"
  hs_name_cap :: nat
  hs_name_count :: nat
  hs_name :: "handle_name option list"

definition skynet_handle_init :: "int \<Rightarrow> handle_storage" where
  "skynet_handle_init harbor =
     \<lparr>hs_harbor = push_bit HANDLE_REMOTE_SHIFT (word_of_int harbor AND 0xff),
      hs_handle_index = 1, hs_slot_size = DEFAULT_SLOT_SIZE,
      hs_slot = replicate DEFAULT_SLOT_SIZE None,
      hs_name_cap = 2, hs_name_count = 0, hs_name = replicate 2 None\<rparr>"

text \<open>The slot of a handle: \<^verbatim>\<open>handle & (slot_size - 1)\<close>.\<close>

definition slot_hash :: "u32 \<Rightarrow> nat \<Rightarrow> nat" where
  "slot_hash handle sz = unat (handle AND (of_nat sz - 1))"

subsection \<open>Registering a context\<close>

text \<open>The inner loop of \<^verbatim>\<open>skynet_handle_register\<close>: the first handle whose slot is free, among the
  \<open>n\<close> that start at \<open>handle\<close>.\<close>

fun reg_probe :: "nat \<Rightarrow> u32 \<Rightarrow> handle_storage \<Rightarrow> (u32 option) option" where
  "reg_probe 0 handle s = Some None"
| "reg_probe (Suc n) handle s = (
     let handle = (if handle > HANDLE_MASK then 1 else handle);
         hash = slot_hash handle (hs_slot_size s) in do {
     c \<leftarrow> array_get (hs_slot s) hash;
     (case c of None \<Rightarrow> Some (Some handle) | Some _ \<Rightarrow> reg_probe n (handle + 1) s) })"

text \<open>The rehash loop: every slot is read and the context in it is asked for its handle, so an
  empty slot is a null pointer that the code follows.\<close>

fun rehash :: "(cid \<Rightarrow> u32) \<Rightarrow> nat \<Rightarrow> cid option list \<Rightarrow> cid option list \<Rightarrow> (cid option list) option" where
  "rehash hof size2 [] new_slot = Some new_slot"
| "rehash hof size2 (c # cs) new_slot = do {
     ctx \<leftarrow> c;
     let hash = slot_hash (hof ctx) size2 in do {
     old \<leftarrow> array_get new_slot hash;
     c_assert (old = None);
     new_slot' \<leftarrow> array_set new_slot hash (Some ctx);
     rehash hof size2 cs new_slot' } }"

definition expand_slots :: "(cid \<Rightarrow> u32) \<Rightarrow> handle_storage \<Rightarrow> handle_storage option" where
  "expand_slots hof s = do {
     c_assert (hs_slot_size s * 2 - 1 \<le> unat HANDLE_MASK);
     new_slot \<leftarrow> rehash hof (hs_slot_size s * 2) (hs_slot s) (replicate (hs_slot_size s * 2) None);
     Some (s\<lparr>hs_slot := new_slot, hs_slot_size := hs_slot_size s * 2\<rparr>) }"

partial_function (option) register_loop ::
    "(cid \<Rightarrow> u32) \<Rightarrow> cid \<Rightarrow> handle_storage \<Rightarrow> (u32 \<times> handle_storage) option" where
  "register_loop hof ctx s =
     Option.bind (reg_probe (hs_slot_size s) (hs_handle_index s) s) (\<lambda>r.
       case r of
         Some handle \<Rightarrow>
           Some (handle OR hs_harbor s,
                 s\<lparr>hs_slot := (hs_slot s)[slot_hash handle (hs_slot_size s) := Some ctx],
                   hs_handle_index := handle + 1\<rparr>)
       | None \<Rightarrow> Option.bind (expand_slots hof s) (\<lambda>s'. register_loop hof ctx s'))"

definition skynet_handle_register ::
    "(cid \<Rightarrow> u32) \<Rightarrow> cid \<Rightarrow> handle_storage \<Rightarrow> (u32 \<times> handle_storage) option" where
  "skynet_handle_register hof ctx s = register_loop hof ctx s"

subsection \<open>Looking up and retiring a handle\<close>

text \<open>\<^verbatim>\<open>skynet_handle_grab\<close> without the reference count, which the caller raises: the address of
  the context with this handle.\<close>

definition handle_lookup :: "(cid \<Rightarrow> u32) \<Rightarrow> u32 \<Rightarrow> handle_storage \<Rightarrow> cid option" where
  "handle_lookup hof handle s =
     (case hs_slot s ! slot_hash handle (hs_slot_size s) of
        Some ctx \<Rightarrow> if hof ctx = handle then Some ctx else None
      | None \<Rightarrow> None)"

text \<open>The loop that drops the names of the handle: \<open>i\<close> reads, \<open>j\<close> writes.\<close>

fun retire_names :: "u32 \<Rightarrow> nat \<Rightarrow> nat \<Rightarrow> nat \<Rightarrow> handle_name option list
    \<Rightarrow> (nat \<times> handle_name option list) option" where
  "retire_names handle 0 i j name = Some (j, name)"
| "retire_names handle (Suc k) i j name = do {
     slot \<leftarrow> array_get name i;
     e \<leftarrow> slot;
     if snd e = handle then retire_names handle k (Suc i) j name
     else do {
       name' \<leftarrow> (if i \<noteq> j then array_set name j (Some e) else Some name);
       retire_names handle k (Suc i) (Suc j) name' } }"

text \<open>The part of \<^verbatim>\<open>skynet_handle_retire\<close> under the lock: the context to release, if any.\<close>

definition skynet_handle_retire :: "(cid \<Rightarrow> u32) \<Rightarrow> u32 \<Rightarrow> handle_storage \<Rightarrow> (cid option \<times> handle_storage) option" where
  "skynet_handle_retire hof handle s = (
     let hash = slot_hash handle (hs_slot_size s) in do {
     c \<leftarrow> array_get (hs_slot s) hash;
     (case c of
        Some ctx \<Rightarrow>
          if hof ctx = handle then do {
            (j, name) \<leftarrow> retire_names handle (hs_name_count s) 0 0 (hs_name s);
            Some (Some ctx, s\<lparr>hs_slot := (hs_slot s)[hash := None], hs_name := name, hs_name_count := j\<rparr>) }
          else Some (None, s)
      | None \<Rightarrow> Some (None, s)) })"

subsection \<open>Names\<close>

text \<open>\<^verbatim>\<open>strcmp\<close> compares bytes as unsigned characters; the terminating zero is below them all.\<close>

fun strcmp :: "string \<Rightarrow> string \<Rightarrow> int" where
  "strcmp [] [] = 0"
| "strcmp [] (b # bs) = - 1"
| "strcmp (a # as) [] = 1"
| "strcmp (a # as) (b # bs) =
     (if a = b then strcmp as bs else int (of_char a) - int (of_char b))"

text \<open>The binary search that \<^verbatim>\<open>skynet_handle_findname\<close> and \<^verbatim>\<open>_insert_name\<close> both contain: the entry with
  this name, or the index before which the name belongs.\<close>

function name_search :: "handle_name option list \<Rightarrow> string \<Rightarrow> int \<Rightarrow> int \<Rightarrow> (nat + nat) option" where
  "name_search name key b e =
     (if b \<le> e then (
        let mid = (b + e) div 2 in do {
        slot \<leftarrow> array_get name (nat mid);
        n \<leftarrow> slot;
        let c = strcmp (fst n) key in
        if c = 0 then Some (Inr (nat mid))
        else if c < 0 then name_search name key (mid + 1) e
        else name_search name key b (mid - 1) })
      else Some (Inl (nat b)))"
  by pat_completeness auto
termination
  by (relation "measure (\<lambda>(name, key, b, e). nat (e - b + 1))") auto

declare name_search.simps [simp del]

definition skynet_handle_findname :: "string \<Rightarrow> handle_storage \<Rightarrow> u32 option" where
  "skynet_handle_findname name s = do {
     r \<leftarrow> name_search (hs_name s) name 0 (int (hs_name_count s) - 1);
     (case r of
        Inr mid \<Rightarrow> do { slot \<leftarrow> array_get (hs_name s) mid; n \<leftarrow> slot; Some (snd n) }
      | Inl _ \<Rightarrow> Some 0) }"

text \<open>The three copying loops of \<^verbatim>\<open>_insert_name_before\<close>: \<open>copy_up\<close> moves \<open>n\<close> entries from index \<open>i\<close> of
  one array to index \<open>j\<close> of another, and \<open>shift_up\<close> moves \<open>n\<close> entries, the last at index \<open>i - 1\<close>,
  one place up in the same array.\<close>

fun copy_up :: "nat \<Rightarrow> nat \<Rightarrow> nat \<Rightarrow> 'a list \<Rightarrow> 'a list \<Rightarrow> 'a list option" where
  "copy_up 0 i j src dst = Some dst"
| "copy_up (Suc n) i j src dst = do {
     x \<leftarrow> array_get src i;
     dst' \<leftarrow> array_set dst j x;
     copy_up n (Suc i) (Suc j) src dst' }"

fun shift_up :: "nat \<Rightarrow> nat \<Rightarrow> 'a list \<Rightarrow> 'a list option" where
  "shift_up 0 i xs = Some xs"
| "shift_up (Suc n) i xs = do {
     x \<leftarrow> array_get xs (i - 1);
     xs' \<leftarrow> array_set xs i x;
     shift_up n (i - 1) xs' }"

definition insert_name_before :: "string \<Rightarrow> u32 \<Rightarrow> nat \<Rightarrow> handle_storage \<Rightarrow> handle_storage option" where
  "insert_name_before name handle before s = do {
     s1 \<leftarrow> (if hs_name_count s \<ge> hs_name_cap s then do {
              c_assert (hs_name_cap s * 2 \<le> MAX_SLOT_SIZE);
              n1 \<leftarrow> copy_up before 0 0 (hs_name s) (replicate (hs_name_cap s * 2) None);
              n2 \<leftarrow> copy_up (hs_name_count s - before) before (Suc before) (hs_name s) n1;
              Some (s\<lparr>hs_name_cap := hs_name_cap s * 2, hs_name := n2\<rparr>) }
            else do {
              n1 \<leftarrow> shift_up (hs_name_count s - before) (hs_name_count s) (hs_name s);
              Some (s\<lparr>hs_name := n1\<rparr>) });
     n3 \<leftarrow> array_set (hs_name s1) before (Some (name, handle));
     Some (s1\<lparr>hs_name := n3, hs_name_count := hs_name_count s1 + 1\<rparr>) }"

text \<open>\<^verbatim>\<open>_insert_name\<close> and \<^verbatim>\<open>skynet_handle_namehandle\<close>: the name, or \<open>None\<close> (the null pointer) when
  it is taken.\<close>

definition insert_name :: "string \<Rightarrow> u32 \<Rightarrow> handle_storage \<Rightarrow> (string option \<times> handle_storage) option" where
  "insert_name name handle s = do {
     r \<leftarrow> name_search (hs_name s) name 0 (int (hs_name_count s) - 1);
     (case r of
        Inr _ \<Rightarrow> Some (None, s)
      | Inl before \<Rightarrow> do {
          s' \<leftarrow> insert_name_before name handle before s;
          Some (Some name, s') }) }"

definition skynet_handle_namehandle :: "u32 \<Rightarrow> string \<Rightarrow> handle_storage \<Rightarrow> (string option \<times> handle_storage) option" where
  "skynet_handle_namehandle handle name s = insert_name name handle s"

subsection \<open>The table of slots\<close>

lemma slot_hash_mod:
  assumes "k < 32"
  shows "slot_hash h (2 ^ k) = unat h mod 2 ^ k"
proof -
  have "(of_nat (2 ^ k) :: u32) - 1 = mask k"
    by (simp add: mask_eq_exp_minus_1)
  then have eq: "h AND (of_nat (2 ^ k) - 1) = take_bit k h"
    by (simp only: take_bit_eq_mask)
  show ?thesis
    unfolding slot_hash_def eq unsigned_take_bit_eq by (rule take_bit_eq_mod)
qed

definition hs_inv :: "(cid \<Rightarrow> u32) \<Rightarrow> handle_storage \<Rightarrow> bool" where
  "hs_inv hof s \<longleftrightarrow> (\<exists>k. k \<le> 24 \<and> hs_slot_size s = 2 ^ k) \<and> length (hs_slot s) = hs_slot_size s \<and>
     (\<forall>i < hs_slot_size s. \<forall>c. hs_slot s ! i = Some c \<longrightarrow> slot_hash (hof c) (hs_slot_size s) = i) \<and>
     hs_harbor s AND HANDLE_MASK = 0 \<and> 1 \<le> unat (hs_handle_index s)"

lemma slot_hash_less: "k < 32 \<Longrightarrow> slot_hash h (2 ^ k) < 2 ^ k"
  by (simp add: slot_hash_mod)

lemma hs_inv_hash_less: "hs_inv hof s \<Longrightarrow> slot_hash h (hs_slot_size s) < length (hs_slot s)"
  by (auto simp: hs_inv_def intro!: slot_hash_less)

lemma lookup_iff:
  assumes "hs_inv hof s"
  shows "handle_lookup hof h s = Some c \<longleftrightarrow> Some c \<in> set (hs_slot s) \<and> hof c = h"
proof -
  have a: "hs_slot s ! slot_hash (hof c) (hs_slot_size s) = Some c" if "Some c \<in> set (hs_slot s)"
  proof -
    from that obtain i where "i < length (hs_slot s)" "hs_slot s ! i = Some c"
      by (auto simp: in_set_conv_nth)
    with assms show ?thesis by (simp add: hs_inv_def)
  qed
  have b: "Some d \<in> set (hs_slot s)" if "hs_slot s ! slot_hash h (hs_slot_size s) = Some d" for d
    using nth_mem [OF hs_inv_hash_less [OF assms, of h]] that by simp
  show ?thesis
  proof
    assume "handle_lookup hof h s = Some c"
    then have "hs_slot s ! slot_hash h (hs_slot_size s) = Some c" "hof c = h"
      by (simp_all add: handle_lookup_def split: option.splits if_splits)
    with b show "Some c \<in> set (hs_slot s) \<and> hof c = h" by simp
  next
    assume c: "Some c \<in> set (hs_slot s) \<and> hof c = h"
    with a have "hs_slot s ! slot_hash h (hs_slot_size s) = Some c" by blast
    with c show "handle_lookup hof h s = Some c" by (simp add: handle_lookup_def)
  qed
qed

lemma lookup_ext:
  assumes "hs_inv hof s" "hs_inv hof s'" "set (hs_slot s) - {None} = set (hs_slot s') - {None}"
  shows "handle_lookup hof h s = handle_lookup hof h s'"
proof -
  have "Some c \<in> set (hs_slot s) \<longleftrightarrow> Some c \<in> set (hs_slot s')" for c
    using assms(3) by (metis Diff_iff option.distinct(1) singletonD)
  then have "handle_lookup hof h s = Some c \<longleftrightarrow> handle_lookup hof h s' = Some c" for c
    by (simp add: lookup_iff [OF assms(1)] lookup_iff [OF assms(2)])
  then show ?thesis by (metis option.exhaust)
qed

text \<open>The probe, while the handles it tries do not wrap around.\<close>

lemma unat_HANDLE_MASK: "unat HANDLE_MASK = 2 ^ 24 - 1"
  by (simp add: HANDLE_MASK_def)

lemma unat_Suc_small: "unat (h :: u32) < 2 ^ 24 \<Longrightarrow> unat (h + 1) = Suc (unat h)"
  by (simp add: unat_word_ariths)

lemma reg_probe_ok:
  assumes "hs_inv hof s" "unat h + n \<le> 2 ^ 24"
  shows "(\<exists>h'. reg_probe n h s = Some (Some h') \<and> unat h \<le> unat h' \<and> unat h' < unat h + n \<and>
             hs_slot s ! slot_hash h' (hs_slot_size s) = None)
       \<or> (reg_probe n h s = Some None \<and>
          (\<forall>j. unat h \<le> j \<and> j < unat h + n \<longrightarrow> hs_slot s ! slot_hash (of_nat j) (hs_slot_size s) \<noteq> None))"
  using assms(2)
proof (induction n arbitrary: h)
  case 0
  then show ?case by auto
next
  case (Suc n)
  from Suc.prems have lt: "unat h < 2 ^ 24" and le: "\<not> h > HANDLE_MASK"
    by (auto simp: word_less_nat_alt unat_HANDLE_MASK)
  note get = array_get_in [OF hs_inv_hash_less [OF assms(1), of h]]
  show ?case
  proof (cases "hs_slot s ! slot_hash h (hs_slot_size s)")
    case None
    with get le show ?thesis by (auto simp: Let_def)
  next
    case (Some c)
    have sucs: "unat (h + 1) = Suc (unat h)" using lt by (rule unat_Suc_small)
    have step: "reg_probe (Suc n) h s = reg_probe n (h + 1) s"
      using get le Some by (simp add: Let_def)
    have here: "hs_slot s ! slot_hash (of_nat j) (hs_slot_size s) \<noteq> None" if "j = unat h" for j
      using Some that by simp
    have rest: "unat h \<le> j \<and> j < unat h + Suc n \<longleftrightarrow> j = unat h \<or> unat (h + 1) \<le> j \<and> j < unat (h + 1) + n" for j
      using sucs by auto
    from Suc.IH [of "h + 1"] Suc.prems sucs
    have "unat (h + 1) + n \<le> 2 ^ 24" by simp
    from Suc.IH [OF this] show ?thesis
      unfolding step rest using here sucs by (auto simp: Suc_le_eq)
  qed
qed

lemma residues_cover:
  fixes a m i :: nat
  assumes "i < m"
  shows "\<exists>j. a \<le> j \<and> j < a + m \<and> j mod m = i"
proof -
  let ?d = "(i + m - a mod m) mod m"
  have "(a + ?d) mod m = (a + (i + m - a mod m)) mod m" by (simp add: mod_simps)
  also have "a + (i + m - a mod m) = (a - a mod m) + (i + m)"
    using assms by (simp add: mod_le_divisor less_imp_le add.commute)
      (metis Nat.add_diff_assoc Nat.diff_add_assoc2 assms bot_nat_0.not_eq_extremum le_add2 mod_le_divisor
        mod_less_eq_dividend add.commute le_trans less_nat_zero_code)
  also have "\<dots> mod m = i"
    using assms by (simp add: minus_mod_eq_mult_div mod_add_left_eq)
  finally have "(a + ?d) mod m = i" .
  moreover have "?d < m" using assms by (intro mod_less_divisor) linarith
  ultimately show ?thesis by (intro exI [of _ "a + ?d"]) simp
qed

lemma reg_probe_full:
  assumes inv: "hs_inv hof s" and nowrap: "unat (hs_handle_index s) + hs_slot_size s \<le> 2 ^ 24"
    and none: "reg_probe (hs_slot_size s) (hs_handle_index s) s = Some None"
  shows "None \<notin> set (hs_slot s)"
proof
  assume "None \<in> set (hs_slot s)"
  then obtain i where i: "i < hs_slot_size s" "hs_slot s ! i = None"
    using inv by (auto simp: in_set_conv_nth hs_inv_def)
  obtain k where k: "k \<le> 24" "hs_slot_size s = 2 ^ k" using inv by (auto simp: hs_inv_def)
  obtain j where j: "unat (hs_handle_index s) \<le> j" "j < unat (hs_handle_index s) + 2 ^ k" "j mod 2 ^ k = i"
    using residues_cover i(1) k(2) by metis
  have "j < 2 ^ 24" using j(2) nowrap k(2) by simp
  then have "unat (of_nat j :: u32) = j" by (simp add: unat_of_nat take_bit_nat_eq_self)
  then have "slot_hash (of_nat j) (hs_slot_size s) = i"
    using k j(3) by (simp add: slot_hash_mod)
  with i j k reg_probe_ok [OF inv nowrap] none show False by auto
qed

lemma rehash_ok:
  assumes "\<And>c. Some c \<in> set cs \<Longrightarrow> slot_hash (hof c) m < length new \<and> new ! slot_hash (hof c) m = None"
    and "distinct (map (\<lambda>c. slot_hash (hof (the c)) m) cs)" and "None \<notin> set cs"
  shows "\<exists>new'. rehash hof m cs new = Some new' \<and> length new' = length new \<and>
     (\<forall>j < length new. \<forall>c. new' ! j = Some c \<longleftrightarrow> new ! j = Some c \<or> (Some c \<in> set cs \<and> slot_hash (hof c) m = j))"
  using assms
proof (induction cs arbitrary: new)
  case Nil
  then show ?case by simp
next
  case (Cons x cs)
  from Cons.prems(3) obtain c where x: "x = Some c" by (cases x) auto
  let ?h = "slot_hash (hof c) m" and ?new = "new[slot_hash (hof c) m := Some c]"
  from Cons.prems(1) [of c] x have h: "?h < length new" "new ! ?h = None" by simp_all
  have "slot_hash (hof d) m < length ?new \<and> ?new ! slot_hash (hof d) m = None" if d: "Some d \<in> set cs" for d
  proof -
    have "?h \<noteq> slot_hash (hof d) m"
      using Cons.prems(2) d x by (force simp: image_iff)
    with Cons.prems(1) [of d] d show ?thesis by simp
  qed
  from Cons.IH [OF this] Cons.prems obtain new'
    where new': "rehash hof m cs ?new = Some new'" "length new' = length new"
      "\<And>j d. j < length new \<Longrightarrow> new' ! j = Some d \<longleftrightarrow> ?new ! j = Some d \<or> (Some d \<in> set cs \<and> slot_hash (hof d) m = j)"
    by auto
  have "rehash hof m (x # cs) new = Some new'"
    using x h new'(1) by simp
  moreover have "new' ! j = Some d \<longleftrightarrow> new ! j = Some d \<or> (Some d \<in> set (x # cs) \<and> slot_hash (hof d) m = j)"
    if "j < length new" for j d
    using new'(3) [OF that, of d] h x by (cases "j = ?h") auto
  ultimately show ?case using new'(2) by auto
qed

lemma expand_slots_ok:
  assumes inv: "hs_inv hof s" and full: "None \<notin> set (hs_slot s)" and sz: "hs_slot_size s * 2 \<le> 2 ^ 24"
  shows "\<exists>s'. expand_slots hof s = Some s' \<and> hs_inv hof s' \<and> hs_slot_size s' = hs_slot_size s * 2 \<and>
    hs_handle_index s' = hs_handle_index s \<and> hs_harbor s' = hs_harbor s \<and>
    hs_name s' = hs_name s \<and> hs_name_count s' = hs_name_count s \<and> hs_name_cap s' = hs_name_cap s \<and>
    set (hs_slot s') - {None} = set (hs_slot s) - {None} \<and> None \<in> set (hs_slot s')"
proof -
  from inv obtain k where k: "k \<le> 24" "hs_slot_size s = 2 ^ k" and len: "length (hs_slot s) = 2 ^ k"
    by (auto simp: hs_inv_def)
  let ?m = "2 ^ Suc k :: nat"
  have m: "hs_slot_size s * 2 = ?m" using k by simp
  have "(2::nat) ^ Suc k \<le> 2 ^ 24" using sz m by simp
  then have k24: "Suc k \<le> 24" by (simp only: power_increasing_iff)
  have hash_lt: "slot_hash h ?m < ?m" for h
    using k24 by (intro slot_hash_less) simp
  have res: "slot_hash (hof c) ?m mod 2 ^ k = i" if "i < 2 ^ k" "hs_slot s ! i = Some c" for i c
  proof -
    have "unat (hof c) mod ?m mod 2 ^ k = unat (hof c) mod 2 ^ k"
      by (rule mod_mod_cancel) simp
    moreover have "slot_hash (hof c) ?m = unat (hof c) mod ?m"
      using k24 by (intro slot_hash_mod) simp
    ultimately show ?thesis
      using inv that k by (simp add: hs_inv_def slot_hash_mod)
  qed
  have at: "\<exists>c. hs_slot s ! i = Some c" if "i < 2 ^ k" for i
    using full len that by (metis nth_mem option.exhaust)
  have inj: "i = j" if "i < 2 ^ k" "j < 2 ^ k"
    "slot_hash (hof (the (hs_slot s ! i))) ?m = slot_hash (hof (the (hs_slot s ! j))) ?m" for i j
    using res [OF that(1)] res [OF that(2)] at [OF that(1)] at [OF that(2)] that(3) by auto
  have dist: "distinct (map (\<lambda>c. slot_hash (hof (the c)) ?m) (hs_slot s))"
    using inj len by (auto simp: distinct_conv_nth)
  have pre: "slot_hash (hof c) ?m < length (replicate ?m None) \<and>
      replicate ?m (None :: cid option) ! slot_hash (hof c) ?m = None" for c
    using hash_lt by (simp add: nth_replicate)
  from rehash_ok [OF pre dist full] obtain new
    where new: "rehash hof ?m (hs_slot s) (replicate ?m None) = Some new" "length new = ?m"
      "\<And>j c. j < ?m \<Longrightarrow> new ! j = Some c \<longleftrightarrow> Some c \<in> set (hs_slot s) \<and> slot_hash (hof c) ?m = j"
    by (auto simp: nth_replicate)
  let ?s' = "s\<lparr>hs_slot := new, hs_slot_size := ?m\<rparr>"
  have ex: "expand_slots hof s = Some ?s'"
    using new(1) sz m unfolding expand_slots_def m by (simp add: unat_HANDLE_MASK)
  have inv': "hs_inv hof ?s'"
    using inv new k24 unfolding hs_inv_def by (auto intro!: exI [of _ "Suc k"])
  have set_eq: "Some c \<in> set new \<longleftrightarrow> Some c \<in> set (hs_slot s)" for c
    using new(2,3) hash_lt [of "hof c"] by (metis in_set_conv_nth)
  have none: "None \<in> set new"
  proof (rule ccontr)
    assume none: "None \<notin> set new"
    have "inj_on (\<lambda>j. the (new ! j)) {..<?m}"
      using none new(2,3) by (intro inj_onI) (metis lessThan_iff nth_mem option.exhaust_sel)
    moreover have "(\<lambda>j. the (new ! j)) ` {..<?m} \<subseteq> the ` set (hs_slot s)"
      using none new(2) set_eq by (auto simp: image_iff) (metis nth_mem option.exhaust_sel option.sel)
    ultimately have "card {..<?m} \<le> card (the ` set (hs_slot s))"
      by (meson List.finite_set card_inj_on_le finite_imageI)
    also have "\<dots> \<le> length (hs_slot s)"
      by (meson List.finite_set card_image_le card_length order_trans)
    finally show False using len by simp
  qed
  have "set new - {None} = set (hs_slot s) - {None}"
  proof (rule set_eqI)
    fix x show "x \<in> set new - {None} \<longleftrightarrow> x \<in> set (hs_slot s) - {None}"
      using set_eq by (cases x) auto
  qed
  with ex inv' none m show ?thesis by simp
qed

lemma slot_hash_take_bit: "k < 32 \<Longrightarrow> slot_hash h (2 ^ k) = unat (take_bit k h)"
  by (simp only: slot_hash_mod unsigned_take_bit_eq) (simp only: take_bit_eq_mod)

lemma slot_hash_harbor:
  assumes "k \<le> 24" "harbor AND HANDLE_MASK = 0"
  shows "slot_hash (h OR harbor) (2 ^ k) = slot_hash h (2 ^ k)"
proof -
  have "HANDLE_MASK = mask 24" by (simp add: HANDLE_MASK_def mask_eq_exp_minus_1)
  with assms(2) have "take_bit 24 harbor = 0" by (simp only: take_bit_eq_mask)
  then have "take_bit k harbor = 0"
    using assms(1) by (metis min.absorb1 take_bit_of_0 take_bit_take_bit)
  then have "take_bit k (h OR harbor) = take_bit k h" by simp
  with assms(1) show ?thesis by (simp add: slot_hash_take_bit)
qed

text \<open>Storing a context in a free slot.\<close>

lemma store_slot_ok:
  assumes inv: "hs_inv hof s" and free: "hs_slot s ! slot_hash h' (hs_slot_size s) = None"
    and new: "Some ctx \<notin> set (hs_slot s)" and h: "1 \<le> unat h'" "unat h' < 2 ^ 24"
  defines "h \<equiv> h' OR hs_harbor s"
  defines "s' \<equiv> s\<lparr>hs_slot := (hs_slot s)[slot_hash h' (hs_slot_size s) := Some ctx], hs_handle_index := h' + 1\<rparr>"
  shows "hs_inv (hof(ctx := h)) s' \<and> handle_lookup hof h s = None \<and>
    (\<forall>g. handle_lookup (hof(ctx := h)) g s' = (if g = h then Some ctx else handle_lookup hof g s))"
proof -
  let ?i = "slot_hash h' (hs_slot_size s)"
  from inv obtain k where k: "k \<le> 24" "hs_slot_size s = 2 ^ k" and len: "length (hs_slot s) = 2 ^ k"
    and harb: "hs_harbor s AND HANDLE_MASK = 0"
    by (auto simp: hs_inv_def)
  have hash: "slot_hash h (hs_slot_size s) = ?i"
    unfolding h_def k(2) using k(1) harb by (rule slot_hash_harbor)
  have i: "?i < length (hs_slot s)" using inv by (rule hs_inv_hash_less)
  have "unat (h' + 1) = Suc (unat h')" using h(2) by (rule unat_Suc_small)
  moreover have "c \<noteq> ctx" if "j < length (hs_slot s)" "hs_slot s ! j = Some c" for j c
    using new that nth_mem by metis
  ultimately have inv': "hs_inv (hof(ctx := h)) s'"
    using inv hash i by (auto simp: hs_inv_def s'_def nth_list_update)
  have none: "handle_lookup hof h s = None"
    using free hash by (simp add: handle_lookup_def)
  have mem: "Some c \<in> set ((hs_slot s)[?i := Some ctx]) \<longleftrightarrow> c = ctx \<or> Some c \<in> set (hs_slot s)" for c
    using i free by (auto simp: set_update_memI dest!: subsetD [OF set_update_subset_insert])
      (metis in_set_conv_nth length_list_update nth_list_update_neq option.distinct(1))
  have "handle_lookup (hof(ctx := h)) g s' = Some c \<longleftrightarrow> (if g = h then Some ctx else handle_lookup hof g s) = Some c" for g c
  proof (cases "c = ctx")
    case True
    then show ?thesis
      using lookup_iff [OF inv', of g c] mem [of ctx] lookup_iff [OF inv, of g ctx] new
      by (auto simp: s'_def)
  next
    case False
    then show ?thesis
      using lookup_iff [OF inv', of g c] mem [of c] lookup_iff [OF inv, of g c] none
      by (auto simp: s'_def)
  qed
  then have "handle_lookup (hof(ctx := h)) g s' = (if g = h then Some ctx else handle_lookup hof g s)" for g
    by (metis option.exhaust)
  with inv' none show ?thesis by blast
qed

lemma reg_probe_free:
  assumes inv: "hs_inv hof s" and "None \<in> set (hs_slot s)"
    and "unat (hs_handle_index s) + hs_slot_size s \<le> 2 ^ 24"
  shows "\<exists>h'. reg_probe (hs_slot_size s) (hs_handle_index s) s = Some (Some h') \<and>
    hs_slot s ! slot_hash h' (hs_slot_size s) = None \<and> 1 \<le> unat h' \<and> unat h' < 2 ^ 24"
  using reg_probe_ok [OF inv assms(3)] reg_probe_full [OF inv assms(3)] assms
  by (force simp: hs_inv_def)

lemma register_ok:
  assumes inv: "hs_inv hof s" and new: "Some ctx \<notin> set (hs_slot s)"
    and nowrap: "unat (hs_handle_index s) + hs_slot_size s * 2 \<le> 2 ^ 24"
  shows "\<exists>h s'. skynet_handle_register hof ctx s = Some (h, s') \<and> hs_inv (hof(ctx := h)) s' \<and>
    handle_lookup hof h s = None \<and>
    (\<forall>g. handle_lookup (hof(ctx := h)) g s' = (if g = h then Some ctx else handle_lookup hof g s)) \<and>
    hs_name s' = hs_name s \<and> hs_name_count s' = hs_name_count s \<and> hs_name_cap s' = hs_name_cap s"
proof (cases "None \<in> set (hs_slot s)")
  case True
  from reg_probe_free [OF inv True] nowrap obtain h'
    where h': "reg_probe (hs_slot_size s) (hs_handle_index s) s = Some (Some h')"
      "hs_slot s ! slot_hash h' (hs_slot_size s) = None" "1 \<le> unat h'" "unat h' < 2 ^ 24" by auto
  from store_slot_ok [OF inv h'(2) new h'(3,4)] h'(1) show ?thesis
    by (auto simp: skynet_handle_register_def register_loop.simps)
next
  case False
  have "reg_probe (hs_slot_size s) (hs_handle_index s) s = Some None"
    using reg_probe_ok [OF inv, of "hs_handle_index s" "hs_slot_size s"] nowrap False
      nth_mem [OF hs_inv_hash_less [OF inv]] by (metis add_leD1 mult_2_right group_cancel.add1)
  moreover obtain s1 where s1: "expand_slots hof s = Some s1" "hs_inv hof s1"
    "hs_slot_size s1 = hs_slot_size s * 2" "hs_handle_index s1 = hs_handle_index s"
    "hs_name s1 = hs_name s" "hs_name_count s1 = hs_name_count s" "hs_name_cap s1 = hs_name_cap s"
    "set (hs_slot s1) - {None} = set (hs_slot s) - {None}" "None \<in> set (hs_slot s1)"
    using expand_slots_ok [OF inv False] nowrap by auto
  moreover from reg_probe_free [OF s1(2) s1(9)] s1(3,4) nowrap obtain h'
    where h': "reg_probe (hs_slot_size s1) (hs_handle_index s1) s1 = Some (Some h')"
      "hs_slot s1 ! slot_hash h' (hs_slot_size s1) = None" "1 \<le> unat h'" "unat h' < 2 ^ 24" by auto
  moreover have "Some ctx \<notin> set (hs_slot s1)" using new s1(8) by auto
  moreover have "handle_lookup hof g s1 = handle_lookup hof g s" for g
    using s1 inv by (intro lookup_ext) auto
  ultimately show ?thesis
    using store_slot_ok [OF s1(2) h'(2) _ h'(3,4), of ctx]
    by (auto simp: skynet_handle_register_def register_loop.simps [of hof ctx s] register_loop.simps [of hof ctx s1])
qed

text \<open>The probe when the handles it tries may wrap around: the handle after \<open>0xffffff\<close> is 1, so such a probe never looks at slot 0.\<close>

definition first_probe :: "handle_storage \<Rightarrow> u32" where
  "first_probe s = (if hs_handle_index s > HANDLE_MASK then 1 else hs_handle_index s)"

definition probe_wraps :: "handle_storage \<Rightarrow> bool" where
  "probe_wraps s \<longleftrightarrow> 2 ^ 24 < unat (first_probe s) + hs_slot_size s"

lemma first_probe_range: "hs_inv hof s \<Longrightarrow> 1 \<le> unat (first_probe s) \<and> unat (first_probe s) < 2 ^ 24"
  by (auto simp: first_probe_def hs_inv_def word_less_nat_alt unat_HANDLE_MASK)

lemma reg_probe_first: "reg_probe n (hs_handle_index s) s = reg_probe n (first_probe s) s"
  by (cases n) (auto simp: first_probe_def HANDLE_MASK_def)

lemma reg_probe_append: "unat h + m \<le> 2 ^ 24 \<Longrightarrow>
    reg_probe (m + n) h s = Option.bind (reg_probe m h s) (\<lambda>r. case r of None \<Rightarrow> reg_probe n (h + of_nat m) s | Some h' \<Rightarrow> Some (Some h'))"
proof (induction m arbitrary: h)
  case (Suc m)
  then have "unat (h + 1) = Suc (unat h)" "\<not> h > HANDLE_MASK" by (auto intro: unat_Suc_small simp: word_less_nat_alt unat_HANDLE_MASK)
  with Suc.IH [of "h + 1"] Suc.prems show ?case by (auto simp: Let_def algebra_simps split: bind_splits option.splits)
qed simp

lemma reg_probe_wrap:
  assumes inv: "hs_inv hof s" and wraps: "probe_wraps s"
  shows "(\<exists>h'. reg_probe (hs_slot_size s) (hs_handle_index s) s = Some (Some h') \<and> 1 \<le> unat h' \<and> unat h' < 2 ^ 24 \<and>
      slot_hash h' (hs_slot_size s) \<noteq> 0 \<and> hs_slot s ! slot_hash h' (hs_slot_size s) = None) \<or>
    (reg_probe (hs_slot_size s) (hs_handle_index s) s = Some None \<and> (\<forall>i. 0 < i \<and> i < hs_slot_size s \<longrightarrow> hs_slot s ! i \<noteq> None))"
proof -
  obtain k where k: "k \<le> 24" "hs_slot_size s = 2 ^ k" using inv by (auto simp: hs_inv_def)
  let ?n = "2 ^ k :: nat" and ?h = "first_probe s" and ?r = "reg_probe (hs_slot_size s) (hs_handle_index s) s"
  have h: "1 \<le> unat ?h" "unat ?h < 2 ^ 24" using first_probe_range [OF inv] by simp_all
  define m where "m = 2 ^ 24 - unat ?h"
  have "?n dvd 2 ^ 24" using k(1) by (rule le_imp_power_dvd)
  then obtain q where q: "2 ^ 24 = ?n * q" ..
  have m: "unat ?h + m = 2 ^ 24" "1 \<le> m" "m < ?n" using h wraps k by (auto simp: m_def probe_wraps_def)
  have n: "?n \<le> 2 ^ 24" using k(1) by (rule power_increasing) simp
  have hash: "slot_hash h' ?n = unat h' mod ?n" for h' using k(1) by (intro slot_hash_mod) simp
  have sec: "reg_probe (?n - m) (?h + of_nat m) s = reg_probe (?n - m) 1 s"
  proof -
    have "?h + of_nat m = word_of_nat (unat ?h + m)" by simp
    then have "?h + of_nat m > HANDLE_MASK" unfolding m(1) by (simp add: HANDLE_MASK_def)
    moreover have "\<not> 1 > HANDLE_MASK" by (simp add: HANDLE_MASK_def)
    ultimately show ?thesis by (cases "?n - m") (simp_all add: Let_def)
  qed
  have run: "?r = Option.bind (reg_probe m ?h s) (\<lambda>r. case r of None \<Rightarrow> reg_probe (?n - m) 1 s | Some h' \<Rightarrow> Some (Some h'))"
    unfolding reg_probe_first k(2) sec [symmetric] using reg_probe_append [of ?h m "?n - m" s] m by simp
  have part1: "unat ?h + m \<le> 2 ^ 24" and part2: "unat (1 :: u32) + (?n - m) \<le> 2 ^ 24" using m n by simp_all
  have low: "unat h' mod ?n \<noteq> 0" if "1 \<le> unat h'" "unat h' < 1 + (?n - m)" for h' :: u32 using that m by simp
  have high: "unat h' mod ?n \<noteq> 0" if "unat ?h \<le> unat h'" "unat h' < 2 ^ 24" for h' :: u32
  proof
    assume "unat h' mod ?n = 0"
    then obtain p where p: "unat h' = ?n * p" by (auto elim: dvdE simp: mod_eq_0_iff_dvd)
    have "p < q" using that(2) unfolding p q by simp
    then have "?n * p + ?n \<le> ?n * q" by (metis Suc_leI mult_Suc_right add.commute mult_le_mono2)
    with that(1) p q m show False by linarith
  qed
  show ?thesis
  proof (cases "reg_probe m ?h s = Some None")
    case False
    with reg_probe_ok [OF inv part1] obtain h' where "reg_probe m ?h s = Some (Some h')" "unat ?h \<le> unat h'" "unat h' < 2 ^ 24"
      "hs_slot s ! slot_hash h' (hs_slot_size s) = None" using m(1) by auto
    with run high [of h'] h(1) show ?thesis by (intro disjI1 exI [of _ h']) (auto simp: hash k(2))
  next
    case one: True
    with reg_probe_ok [OF inv part1] have occ1: "hs_slot s ! slot_hash (of_nat j) ?n \<noteq> None" if "unat ?h \<le> j" "j < 2 ^ 24" for j
      using that m(1) k(2) by auto
    show ?thesis
    proof (cases "reg_probe (?n - m) 1 s = Some None")
      case False
      with reg_probe_ok [OF inv part2] obtain h' where "reg_probe (?n - m) 1 s = Some (Some h')" "1 \<le> unat h'" "unat h' < 1 + (?n - m)"
        "hs_slot s ! slot_hash h' (hs_slot_size s) = None" by auto
      with run one low [of h'] n m(2) show ?thesis by (intro disjI1 exI [of _ h']) (auto simp: hash k(2))
    next
      case True
      with reg_probe_ok [OF inv part2] have occ2: "hs_slot s ! slot_hash (of_nat j) ?n \<noteq> None" if "1 \<le> j" "j < 1 + (?n - m)" for j
        using that k(2) by auto
      have idx: "slot_hash (of_nat j) ?n = j mod ?n" if "j < 2 ^ 24" for j
        using that hash [of "of_nat j"] by (simp add: unat_of_nat take_bit_nat_eq_self)
      have "hs_slot s ! i \<noteq> None" if i: "0 < i" "i < ?n" for i
      proof (cases "i \<le> ?n - m")
        case True
        with i occ2 [of i] idx [of i] n show ?thesis by simp
      next
        case False
        let ?j = "2 ^ 24 - (?n - i)"
        have "?j = ?n * (q - 1) + i" using i q n by (simp add: algebra_simps diff_mult_distrib2)
        then have "?j mod ?n = i" using i by simp
        moreover have "unat ?h \<le> ?j" "?j < 2 ^ 24" using False i m n by simp_all
        ultimately show ?thesis using occ1 [of ?j] idx [of ?j] by simp
      qed
      with run one True k(2) show ?thesis by simp
    qed
  qed
qed

text \<open>Whether or not it wraps around, the probe finds a free slot unless it misses slot 0, or there is none.\<close>

definition slot_missed :: "handle_storage \<Rightarrow> bool" where
  "slot_missed s \<longleftrightarrow> probe_wraps s \<and> hs_slot s ! 0 = None \<and> (\<forall>i. 0 < i \<and> i < hs_slot_size s \<longrightarrow> hs_slot s ! i \<noteq> None)"

lemma reg_probe_any:
  assumes inv: "hs_inv hof s"
  shows "if None \<notin> set (hs_slot s) \<or> slot_missed s then reg_probe (hs_slot_size s) (hs_handle_index s) s = Some None
    else \<exists>h'. reg_probe (hs_slot_size s) (hs_handle_index s) s = Some (Some h') \<and> 1 \<le> unat h' \<and> unat h' < 2 ^ 24 \<and>
      hs_slot s ! slot_hash h' (hs_slot_size s) = None"
proof -
  have len: "length (hs_slot s) = hs_slot_size s" using inv by (simp add: hs_inv_def)
  have mem: "None \<in> set (hs_slot s) \<longleftrightarrow> (\<exists>i<hs_slot_size s. hs_slot s ! i = None)" by (simp add: in_set_conv_nth len)
  have hash: "slot_hash h' (hs_slot_size s) < hs_slot_size s" for h' using hs_inv_hash_less [OF inv] len by simp
  show ?thesis
  proof (cases "probe_wraps s")
    case True
    from reg_probe_wrap [OF inv True] show ?thesis
    proof
      assume "\<exists>h'. reg_probe (hs_slot_size s) (hs_handle_index s) s = Some (Some h') \<and> 1 \<le> unat h' \<and> unat h' < 2 ^ 24 \<and>
        slot_hash h' (hs_slot_size s) \<noteq> 0 \<and> hs_slot s ! slot_hash h' (hs_slot_size s) = None"
      then show ?thesis using mem hash by (auto simp: slot_missed_def)
    next
      assume r: "reg_probe (hs_slot_size s) (hs_handle_index s) s = Some None \<and> (\<forall>i. 0 < i \<and> i < hs_slot_size s \<longrightarrow> hs_slot s ! i \<noteq> None)"
      then have "None \<in> set (hs_slot s) \<Longrightarrow> hs_slot s ! 0 = None" using mem by (metis gr0I)
      with r True show ?thesis by (auto simp: slot_missed_def)
    qed
  next
    case False
    let ?s = "s\<lparr>hs_handle_index := first_probe s\<rparr>"
    have inv': "hs_inv hof ?s" using inv first_probe_range [OF inv] by (simp add: hs_inv_def)
    have nowrap: "unat (first_probe s) + hs_slot_size s \<le> 2 ^ 24" using False by (simp add: probe_wraps_def)
    have same: "reg_probe n h ?s = reg_probe n h s" for n h by (induction n arbitrary: h) simp_all
    note ok = reg_probe_ok [OF inv nowrap] and full = reg_probe_full [OF inv', unfolded same]
    have "None \<notin> set (hs_slot s) \<Longrightarrow> reg_probe (hs_slot_size s) (first_probe s) s = Some None" using ok mem hash by blast
    moreover have "\<exists>h'. reg_probe (hs_slot_size s) (first_probe s) s = Some (Some h') \<and> 1 \<le> unat h' \<and> unat h' < 2 ^ 24 \<and>
        hs_slot s ! slot_hash h' (hs_slot_size s) = None" if "None \<in> set (hs_slot s)"
      using ok full nowrap that first_probe_range [OF inv] by force
    ultimately show ?thesis using False unfolding reg_probe_first by (auto simp: slot_missed_def)
  qed
qed

lemma rehash_hole: "None \<in> set cs \<Longrightarrow> rehash hof m cs new = None"
  by (induction cs arbitrary: new) (auto simp: Let_def bind_eq_None_conv)

lemma expanded_not_missed:
  assumes inv: "hs_inv hof s" and size: "hs_slot_size s = length xs * 2" "2 \<le> length xs" and slots: "set (hs_slot s) - {None} = set xs - {None}"
  shows "\<not> slot_missed s"
proof
  assume "slot_missed s"
  then have occ: "hs_slot s ! i \<noteq> None" if "i \<in> {1..<hs_slot_size s}" for i using that by (simp add: slot_missed_def)
  have len: "length (hs_slot s) = hs_slot_size s" using inv by (simp add: hs_inv_def)
  have "inj_on (\<lambda>i. hs_slot s ! i) {1..<hs_slot_size s}"
  proof (rule inj_onI)
    fix i j assume ij: "i \<in> {1..<hs_slot_size s}" "j \<in> {1..<hs_slot_size s}" "hs_slot s ! i = hs_slot s ! j"
    then obtain c where "hs_slot s ! i = Some c" "hs_slot s ! j = Some c" using occ [of i] by auto
    with ij inv show "i = j" by (auto simp: hs_inv_def)
  qed
  moreover have "(\<lambda>i. hs_slot s ! i) ` {1..<hs_slot_size s} \<subseteq> set xs"
  proof (rule image_subsetI)
    fix i assume i: "i \<in> {1..<hs_slot_size s}"
    then have "hs_slot s ! i \<in> set (hs_slot s) - {None}" using occ [OF i] len by simp
    then show "hs_slot s ! i \<in> set xs" unfolding slots by simp
  qed
  ultimately have "card {1..<hs_slot_size s} \<le> card (set xs)" by (rule card_inj_on_le) simp
  also have "\<dots> \<le> length xs" by (rule card_length)
  finally show False using size by simp
qed

text \<open>Registering, in every state of the table.\<close>

lemma register_any:
  assumes inv: "hs_inv hof s" and new: "Some ctx \<notin> set (hs_slot s)" and size: "2 \<le> hs_slot_size s"
  shows "if slot_missed s \<or> (None \<notin> set (hs_slot s) \<and> hs_slot_size s = 2 ^ 24) then skynet_handle_register hof ctx s = None
    else \<exists>h s'. skynet_handle_register hof ctx s = Some (h, s') \<and> hs_inv (hof(ctx := h)) s' \<and> handle_lookup hof h s = None \<and>
      (\<forall>g. handle_lookup (hof(ctx := h)) g s' = (if g = h then Some ctx else handle_lookup hof g s))"
proof -
  obtain k where k: "k \<le> 24" "hs_slot_size s = 2 ^ k" and len: "length (hs_slot s) = hs_slot_size s" using inv by (auto simp: hs_inv_def)
  have probe: "reg_probe (hs_slot_size s) (hs_handle_index s) s = Some None" if "slot_missed s \<or> None \<notin> set (hs_slot s)"
    using reg_probe_any [OF inv] that by auto
  consider (missed) "slot_missed s" | (full) "None \<notin> set (hs_slot s)" "\<not> slot_missed s" | (free) "None \<in> set (hs_slot s)" "\<not> slot_missed s" by blast
  then show ?thesis
  proof cases
    case missed
    then have "None \<in> set (hs_slot s)" using len size nth_mem [of 0 "hs_slot s"] by (simp add: slot_missed_def)
    then have "expand_slots hof s = None" by (simp add: expand_slots_def rehash_hole bind_eq_None_conv)
    with missed probe show ?thesis by (simp add: skynet_handle_register_def register_loop.simps)
  next
    case free
    with reg_probe_any [OF inv] obtain h' where h': "reg_probe (hs_slot_size s) (hs_handle_index s) s = Some (Some h')"
      "hs_slot s ! slot_hash h' (hs_slot_size s) = None" "1 \<le> unat h'" "unat h' < 2 ^ 24" by auto
    from store_slot_ok [OF inv h'(2) new h'(3,4)] h'(1) free show ?thesis
      by (auto simp: skynet_handle_register_def register_loop.simps)
  next
    case full
    show ?thesis
    proof (cases "k = 24")
      case True
      with k(2) have "expand_slots hof s = None" by (simp add: expand_slots_def c_assert_def HANDLE_MASK_def)
      with full True k(2) probe show ?thesis by (simp add: skynet_handle_register_def register_loop.simps)
    next
      case False
      with k(1) have "Suc k \<le> 24" by simp
      then have "(2 :: nat) ^ Suc k \<le> 2 ^ 24" by (rule power_increasing) simp
      then have "hs_slot_size s * 2 \<le> 2 ^ 24" using k(2) by simp
      from expand_slots_ok [OF inv full(1) this] obtain s1 where s1: "expand_slots hof s = Some s1" "hs_inv hof s1"
        "hs_slot_size s1 = hs_slot_size s * 2" "set (hs_slot s1) - {None} = set (hs_slot s) - {None}" "None \<in> set (hs_slot s1)"
        "hs_harbor s1 = hs_harbor s" by blast
      have "\<not> slot_missed s1" by (rule expanded_not_missed [OF s1(2) _ _ s1(4)]) (use s1(3) len size in simp_all)
      with reg_probe_any [OF s1(2)] s1(5) obtain h' where h': "reg_probe (hs_slot_size s1) (hs_handle_index s1) s1 = Some (Some h')"
        "hs_slot s1 ! slot_hash h' (hs_slot_size s1) = None" "1 \<le> unat h'" "unat h' < 2 ^ 24" by auto
      have "Some ctx \<notin> set (hs_slot s1)" using new s1(4) by auto
      moreover have same: "handle_lookup hof g s1 = handle_lookup hof g s" for g using s1 inv by (intro lookup_ext) auto
      moreover have "hs_slot_size s \<noteq> 2 ^ 24"
      proof
        assume "hs_slot_size s = 2 ^ 24"
        then have "(2 :: nat) ^ k = 2 ^ 24" unfolding k(2) .
        then show False using False by (subst (asm) power_inject_exp) simp_all
      qed
      ultimately show ?thesis using store_slot_ok [OF s1(2) h'(2) _ h'(3,4), of ctx] full probe s1(1) h'(1)
        by (auto simp: skynet_handle_register_def register_loop.simps [of hof ctx s] register_loop.simps [of hof ctx s1])
    qed
  qed
qed

subsection \<open>The array of names is a sorted map\<close>

definition hs_names :: "handle_storage \<Rightarrow> handle_name list" where
  "hs_names s = map the (take (hs_name_count s) (hs_name s))"

definition names_inv :: "handle_storage \<Rightarrow> bool" where
  "names_inv s \<longleftrightarrow> length (hs_name s) = hs_name_cap s \<and> 0 < hs_name_cap s \<and>
     hs_name_count s \<le> hs_name_cap s \<and> None \<notin> set (take (hs_name_count s) (hs_name s)) \<and>
     sorted_wrt (<) (map fst (hs_names s))"

lemma strcmp_eq_0 [simp]: "strcmp a b = 0 \<longleftrightarrow> a = b"
  by (induction a b rule: strcmp.induct) auto

lemma strcmp_less_0: "strcmp a b < 0 \<longleftrightarrow> a < b"
  by (induction a b rule: strcmp.induct) (auto simp: less_char_def)

lemma names_at:
  assumes "names_inv s" "i < hs_name_count s"
  shows "i < length (hs_name s)" "hs_name s ! i = Some (hs_names s ! i)" "i < length (hs_names s)"
proof -
  show len: "i < length (hs_name s)" "i < length (hs_names s)"
    using assms by (auto simp: names_inv_def hs_names_def)
  have "hs_name s ! i \<in> set (take (hs_name_count s) (hs_name s))"
    using assms len by (auto simp: in_set_conv_nth)
  then have "hs_name s ! i \<noteq> None" using assms(1) unfolding names_inv_def by metis
  then show "hs_name s ! i = Some (hs_names s ! i)"
    using assms len by (auto simp: hs_names_def)
qed

lemma length_hs_names: "names_inv s \<Longrightarrow> length (hs_names s) = hs_name_count s"
  by (auto simp: names_inv_def hs_names_def)

lemma names_sorted: "names_inv s \<Longrightarrow> i < j \<Longrightarrow> j < hs_name_count s \<Longrightarrow> fst (hs_names s ! i) < fst (hs_names s ! j)"
  using sorted_wrt_nth_less [of "(<)" "map fst (hs_names s)" i j] length_hs_names [of s]
  by (simp add: names_inv_def)

lemma name_search_ok:
  assumes inv: "names_inv s" and "0 \<le> b" "e < int (hs_name_count s)" "b \<le> e + 1"
    and "\<forall>i < nat b. fst (hs_names s ! i) < key"
    and "\<forall>i. e < int i \<and> i < hs_name_count s \<longrightarrow> key < fst (hs_names s ! i)"
  shows "(\<exists>m < hs_name_count s. name_search (hs_name s) key b e = Some (Inr m) \<and> fst (hs_names s ! m) = key) \<or>
    (\<exists>p \<le> hs_name_count s. name_search (hs_name s) key b e = Some (Inl p) \<and>
       (\<forall>i < p. fst (hs_names s ! i) < key) \<and> (\<forall>i. p \<le> i \<and> i < hs_name_count s \<longrightarrow> key < fst (hs_names s ! i)))"
  using assms(2-)
proof (induction "nat (e - b + 1)" arbitrary: b e rule: less_induct)
  case less
  show ?case
  proof (cases "b \<le> e")
    case False
    then have "name_search (hs_name s) key b e = Some (Inl (nat b))"
      by (subst name_search.simps) simp
    with False less.prems show ?thesis by (intro disjI2 exI [of _ "nat b"]) auto
  next
    case True
    let ?mid = "(b + e) div 2" let ?m = "nat ((b + e) div 2)"
    have mid: "b \<le> ?mid" "?mid \<le> e" using True by auto
    have m: "?m < hs_name_count s" "int ?m = ?mid" using mid less.prems by auto
    note at = names_at [OF inv m(1)]
    let ?k = "fst (hs_names s ! ?m)"
    have unf: "name_search (hs_name s) key b e =
      (if ?k = key then Some (Inr ?m)
       else if ?k < key then name_search (hs_name s) key (?mid + 1) e
       else name_search (hs_name s) key b (?mid - 1))"
      using True at by (subst name_search.simps) (simp add: Let_def strcmp_less_0)
    consider "?k = key" | "?k < key" | "key < ?k" by (metis linorder_neqE)
    then show ?thesis
    proof cases
      case 1
      with unf m show ?thesis by auto
    next
      case 2
      have "fst (hs_names s ! i) < key" if "i < nat (?mid + 1)" for i
      proof (cases "i = ?m")
        case False
        with that mid less.prems have "i < ?m" by linarith
        from names_sorted [OF inv this m(1)] 2 show ?thesis by (rule order_less_trans)
      qed (use 2 in simp)
      moreover have "name_search (hs_name s) key b e = name_search (hs_name s) key (?mid + 1) e"
        using unf 2 by auto
      ultimately show ?thesis
        using less.hyps [of e "?mid + 1"] less.prems mid by auto
    next
      case 3
      have "key < fst (hs_names s ! i)" if "?mid - 1 < int i" "i < hs_name_count s" for i
      proof (cases "i = ?m")
        case False
        with that m have "?m < i" by linarith
        from names_sorted [OF inv this that(2)] 3 show ?thesis by (rule order_less_trans [rotated])
      qed (use 3 in simp)
      moreover have "name_search (hs_name s) key b e = name_search (hs_name s) key b (?mid - 1)"
        using unf 3 by auto
      ultimately show ?thesis
        using less.hyps [of "?mid - 1" b] less.prems mid by auto
    qed
  qed
qed

lemma name_search_all:
  assumes "names_inv s"
  shows "(\<exists>m < hs_name_count s. name_search (hs_name s) key 0 (int (hs_name_count s) - 1) = Some (Inr m) \<and>
      fst (hs_names s ! m) = key) \<or>
    (\<exists>p \<le> hs_name_count s. name_search (hs_name s) key 0 (int (hs_name_count s) - 1) = Some (Inl p) \<and>
       (\<forall>i < p. fst (hs_names s ! i) < key) \<and> (\<forall>i. p \<le> i \<and> i < hs_name_count s \<longrightarrow> key < fst (hs_names s ! i)))"
  using assms by (intro name_search_ok) auto

lemma names_distinct: "names_inv s \<Longrightarrow> distinct (map fst (hs_names s))"
  by (simp add: names_inv_def strict_sorted_iff)

lemma findname_ok:
  assumes inv: "names_inv s"
  shows "skynet_handle_findname key s = Some (case map_of (hs_names s) key of Some h \<Rightarrow> h | None \<Rightarrow> 0)"
  using name_search_all [OF inv, of key]
proof (elim disjE exE conjE)
  fix m assume m: "m < hs_name_count s" and eq: "fst (hs_names s ! m) = key"
    and r: "name_search (hs_name s) key 0 (int (hs_name_count s) - 1) = Some (Inr m)"
  have "map_of (hs_names s) key = Some (snd (hs_names s ! m))"
    using names_distinct [OF inv] names_at(3) [OF inv m] eq
    by (metis map_of_eq_Some_iff nth_mem prod.collapse)
  then show ?thesis
    using r names_at [OF inv m] by (simp add: skynet_handle_findname_def)
next
  fix p assume p: "p \<le> hs_name_count s"
    and r: "name_search (hs_name s) key 0 (int (hs_name_count s) - 1) = Some (Inl p)"
    and lo: "\<forall>i < p. fst (hs_names s ! i) < key"
    and hi: "\<forall>i. p \<le> i \<and> i < hs_name_count s \<longrightarrow> key < fst (hs_names s ! i)"
  have "fst (hs_names s ! i) \<noteq> key" if "i < length (hs_names s)" for i
    using lo hi that length_hs_names [OF inv] by (metis leI order_less_irrefl)
  then have "map_of (hs_names s) key = None"
    by (force simp: map_of_eq_None_iff in_set_conv_nth)
  then show ?thesis using r by (simp add: skynet_handle_findname_def)
qed

lemma copy_up_ok:
  "i + n \<le> length src \<Longrightarrow> j + n \<le> length dst \<Longrightarrow>
   copy_up n i j src dst = Some (take j dst @ take n (drop i src) @ drop (j + n) dst)"
proof (induction n arbitrary: i j dst)
  case 0
  then show ?case by simp
next
  case (Suc n)
  then show ?case
    by (simp add: take_Suc_conv_app_nth [of i] Cons_nth_drop_Suc [symmetric, of i src]
        take_Suc_conv_app_nth [of j "dst[j := src ! i]"])
qed

lemma shift_up_ok:
  "n \<le> i \<Longrightarrow> i < length xs \<Longrightarrow>
   shift_up n i xs = Some (take (Suc (i - n)) xs @ take n (drop (i - n) xs) @ drop (Suc i) xs)"
proof (induction n arbitrary: i xs)
  case 0
  then show ?case by (simp add: append_take_drop_id)
next
  case (Suc n)
  then obtain k where i: "i = Suc k" by (cases i) auto
  let ?xs = "xs[i := xs ! k]"
  have "shift_up (Suc n) i xs = shift_up n k ?xs" using Suc.prems i by simp
  also have "\<dots> = Some (take (Suc (k - n)) ?xs @ take n (drop (k - n) ?xs) @ drop (Suc k) ?xs)"
    using Suc.prems i by (intro Suc.IH) auto
  also have "take (Suc (k - n)) ?xs = take (Suc (k - n)) xs" using i by simp
  also have "take n (drop (k - n) ?xs) @ drop (Suc k) ?xs = take (Suc n) (drop (k - n) xs) @ drop (Suc i) xs"
  proof -
    have "take n (drop (k - n) ?xs) = take n (drop (k - n) xs)"
      using Suc.prems i by (simp add: take_drop)
    moreover have "drop (Suc k) ?xs = xs ! k # drop (Suc i) xs"
      using Suc.prems i Cons_nth_drop_Suc [of "Suc k" ?xs] by simp
    moreover have "take (Suc n) (drop (k - n) xs) = take n (drop (k - n) xs) @ [xs ! k]"
      using Suc.prems i by (simp add: take_Suc_conv_app_nth)
    ultimately show ?thesis by simp
  qed
  finally show ?case using i by simp
qed

lemma retire_names_ok:
  assumes "i + k \<le> length name" "j \<le> i" "None \<notin> set (take k (drop i name))"
  shows "\<exists>name'. retire_names h k i j name =
      Some (j + length (filter (\<lambda>e. snd (the e) \<noteq> h) (take k (drop i name))), name') \<and>
    length name' = length name \<and>
    take (j + length (filter (\<lambda>e. snd (the e) \<noteq> h) (take k (drop i name)))) name'
      = take j name @ filter (\<lambda>e. snd (the e) \<noteq> h) (take k (drop i name))"
  using assms
proof (induction k arbitrary: i j name)
  case 0
  then show ?case by simp
next
  case (Suc k)
  have dr: "take (Suc k) (drop i name) = name ! i # take k (drop (Suc i) name)"
    using Suc.prems(1) by (simp add: Cons_nth_drop_Suc [symmetric])
  obtain e where e: "name ! i = Some e" using Suc.prems(3) dr by (cases "name ! i") auto
  show ?case
  proof (cases "snd e = h")
    case True
    with Suc.IH [of "Suc i" name j] Suc.prems e dr show ?thesis by simp
  next
    case False
    let ?name = "name[j := Some e]"
    have same: "(if i \<noteq> j then array_set name j (Some e) else Some name) = Some ?name"
      using Suc.prems e list_update_id [of name i] by (cases "i = j") auto
    have rest: "take k (drop (Suc i) ?name) = take k (drop (Suc i) name)"
      using Suc.prems by (simp add: drop_update_cancel)
    have tk: "take (Suc j) ?name = take j name @ [Some e]"
      using Suc.prems by (simp add: take_Suc_conv_app_nth)
    from Suc.IH [of "Suc i" ?name "Suc j"] Suc.prems rest dr obtain name'
      where "retire_names h k (Suc i) (Suc j) ?name =
          Some (Suc j + length (filter (\<lambda>e. snd (the e) \<noteq> h) (take k (drop (Suc i) name))), name')"
        "length name' = length name"
        "take (Suc j + length (filter (\<lambda>e. snd (the e) \<noteq> h) (take k (drop (Suc i) name)))) name'
          = take (Suc j) ?name @ filter (\<lambda>e. snd (the e) \<noteq> h) (take k (drop (Suc i) name))"
      by auto
    with same tk e False dr Suc.prems show ?thesis by simp
  qed
qed

lemma insert_name_before_ok:
  assumes inv: "names_inv s" and p: "p \<le> hs_name_count s" and cap: "hs_name_cap s * 2 \<le> MAX_SLOT_SIZE"
    and lo: "\<forall>i < p. fst (hs_names s ! i) < key"
    and hi: "\<forall>i. p \<le> i \<and> i < hs_name_count s \<longrightarrow> key < fst (hs_names s ! i)"
  shows "\<exists>s'. insert_name_before key h p s = Some s' \<and> names_inv s' \<and>
    hs_names s' = take p (hs_names s) @ [(key, h)] @ drop p (hs_names s) \<and>
    hs_slot s' = hs_slot s \<and> hs_slot_size s' = hs_slot_size s \<and> hs_harbor s' = hs_harbor s \<and>
    hs_handle_index s' = hs_handle_index s"
proof -
  let ?c = "hs_name_count s" and ?a = "hs_name s"
  from inv have len: "length ?a = hs_name_cap s" and cnt: "?c \<le> hs_name_cap s" and pos: "0 < hs_name_cap s"
    and none: "None \<notin> set (take ?c ?a)"
    by (simp_all add: names_inv_def)
  have "\<exists>rest. insert_name_before key h p s =
      Some (s\<lparr>hs_name := take p ?a @ [Some (key, h)] @ take (?c - p) (drop p ?a) @ rest,
              hs_name_cap := Suc ?c + length rest, hs_name_count := Suc ?c\<rparr>)"
  proof (cases "hs_name_cap s \<le> ?c")
    case True
    then have "?c = hs_name_cap s" using cnt by simp
    then show ?thesis
      using p cap len pos
      by (intro exI [of _ "replicate (?c - 1) None"])
        (simp add: insert_name_before_def copy_up_ok array_set_def list_update_append min_def, arith)
  next
    case False
    then have lt: "?c < length ?a" using len by simp
    have "take (Suc p) ?a = take p ?a @ [?a ! p]" using lt p by (simp add: take_Suc_conv_app_nth)
    then show ?thesis
      using p lt len False
      by (intro exI [of _ "drop (Suc ?c) ?a"])
        (simp add: insert_name_before_def shift_up_ok array_set_def list_update_append min_def)
  qed
  then obtain rest where eq: "insert_name_before key h p s =
      Some (s\<lparr>hs_name := take p ?a @ [Some (key, h)] @ take (?c - p) (drop p ?a) @ rest,
              hs_name_cap := Suc ?c + length rest, hs_name_count := Suc ?c\<rparr>)" by blast
  let ?s' = "s\<lparr>hs_name := take p ?a @ [Some (key, h)] @ take (?c - p) (drop p ?a) @ rest,
              hs_name_cap := Suc ?c + length rest, hs_name_count := Suc ?c\<rparr>"
  have tk: "take (Suc ?c) (hs_name ?s') = take p ?a @ [Some (key, h)] @ take (?c - p) (drop p ?a)"
  proof -
    let ?x = "take p ?a @ [Some (key, h)] @ take (?c - p) (drop p ?a)"
    have "length ?x = Suc ?c" using p len cnt by simp
    then have "take (Suc ?c) (?x @ rest) = ?x" by (metis append_eq_conv_conj)
    then show ?thesis by simp
  qed
  have parts: "take p (hs_names s) = map the (take p ?a)" "drop p (hs_names s) = map the (take (?c - p) (drop p ?a))"
    using p by (simp_all add: hs_names_def take_map drop_map min_def drop_take)
  have names: "hs_names ?s' = take p (hs_names s) @ [(key, h)] @ drop p (hs_names s)"
    unfolding hs_names_def [of ?s'] using tk parts by simp
  have lo': "x < key" if "x \<in> set (map fst (take p (hs_names s)))" for x
    using that lo p length_hs_names [OF inv] by (force simp: in_set_conv_nth)
  have hi': "key < x" if "x \<in> set (map fst (drop p (hs_names s)))" for x
  proof -
    from that obtain i where "i < length (hs_names s) - p" "x = fst (hs_names s ! (p + i))"
      by (auto simp: in_set_conv_nth)
    with hi length_hs_names [OF inv] show ?thesis by auto
  qed
  have "sorted_wrt (<) (map fst (take p (hs_names s)) @ map fst (drop p (hs_names s)))"
    using inv by (simp add: names_inv_def flip: map_append)
  then have "sorted_wrt (<) (map fst (hs_names ?s'))"
    unfolding names map_append sorted_wrt_append using lo' hi' by auto
  moreover have "None \<notin> set (take (Suc ?c) (hs_name ?s'))"
  proof -
    have "take ?c ?a = take p ?a @ take (?c - p) (drop p ?a)"
      using p take_add [of p "?c - p" ?a] by simp
    with none show ?thesis unfolding tk by simp
  qed
  ultimately have "names_inv ?s'"
    using p len cnt by (simp add: names_inv_def)
  with eq names show ?thesis by simp
qed

lemma map_of_insert_middle:
  assumes "key \<notin> fst ` set (take p xs)"
  shows "map_of (take p xs @ [(key, h)] @ drop p xs) = (map_of xs)(key \<mapsto> h)"
proof
  fix k
  have all: "map_of (take p xs @ drop p xs) k = map_of xs k" by simp
  from assms have "map_of (take p xs) key = None" by (simp add: map_of_eq_None_iff)
  with all show "map_of (take p xs @ [(key, h)] @ drop p xs) k = ((map_of xs)(key \<mapsto> h)) k"
    by (cases "k = key") (auto simp: map_add_def simp del: append_take_drop_id split: option.splits)
qed

lemma namehandle_ok:
  assumes inv: "names_inv s" and cap: "hs_name_cap s * 2 \<le> MAX_SLOT_SIZE"
  shows "(if key \<in> dom (map_of (hs_names s)) then skynet_handle_namehandle h key s = Some (None, s)
     else \<exists>s'. skynet_handle_namehandle h key s = Some (Some key, s') \<and> names_inv s' \<and>
       map_of (hs_names s') = (map_of (hs_names s))(key \<mapsto> h) \<and>
       hs_slot s' = hs_slot s \<and> hs_slot_size s' = hs_slot_size s)"
  using name_search_all [OF inv, of key]
proof (elim disjE exE conjE)
  fix m assume m: "m < hs_name_count s" and eq: "fst (hs_names s ! m) = key"
    and r: "name_search (hs_name s) key 0 (int (hs_name_count s) - 1) = Some (Inr m)"
  have "key \<in> fst ` set (hs_names s)"
    using names_at(3) [OF inv m] eq by (metis image_eqI nth_mem)
  then show ?thesis
    using r by (simp add: skynet_handle_namehandle_def insert_name_def dom_map_of_conv_image_fst)
next
  fix p assume p: "p \<le> hs_name_count s"
    and r: "name_search (hs_name s) key 0 (int (hs_name_count s) - 1) = Some (Inl p)"
    and lo: "\<forall>i < p. fst (hs_names s ! i) < key"
    and hi: "\<forall>i. p \<le> i \<and> i < hs_name_count s \<longrightarrow> key < fst (hs_names s ! i)"
  have "fst (hs_names s ! i) \<noteq> key" if "i < length (hs_names s)" for i
    using lo hi that length_hs_names [OF inv] by (metis leI order_less_irrefl)
  then have nin: "key \<notin> fst ` set (hs_names s)"
    by (force simp: in_set_conv_nth)
  then have "key \<notin> fst ` set (take p (hs_names s))" by (auto dest: in_set_takeD)
  from map_of_insert_middle [OF this, of h] insert_name_before_ok [OF inv p cap lo hi, of h] nin r
  show ?thesis
    by (auto simp: skynet_handle_namehandle_def insert_name_def dom_map_of_conv_image_fst)
qed

lemma retire_ok:
  assumes hs: "hs_inv hof s" and inv: "names_inv s" and c: "handle_lookup hof h s = Some c"
  shows "\<exists>s'. skynet_handle_retire hof h s = Some (Some c, s') \<and> hs_inv hof s' \<and> names_inv s' \<and>
    (\<forall>g. handle_lookup hof g s' = (if g = h then None else handle_lookup hof g s)) \<and>
    hs_names s' = filter (\<lambda>e. snd e \<noteq> h) (hs_names s)"
proof -
  let ?i = "slot_hash h (hs_slot_size s)"
  have i: "?i < length (hs_slot s)" using hs by (rule hs_inv_hash_less)
  from c have slot: "hs_slot s ! ?i = Some c" and hc: "hof c = h"
    by (simp_all add: handle_lookup_def split: option.splits if_splits)
  let ?f = "filter (\<lambda>e. snd (the e) \<noteq> h) (take (hs_name_count s) (hs_name s))"
  from inv retire_names_ok [of 0 "hs_name_count s" "hs_name s" 0 h] obtain name'
    where r: "retire_names h (hs_name_count s) 0 0 (hs_name s) = Some (length ?f, name')"
      and len: "length name' = length (hs_name s)" and tk: "take (length ?f) name' = ?f"
    by (auto simp: names_inv_def)
  let ?s' = "s\<lparr>hs_slot := (hs_slot s)[?i := None], hs_name := name', hs_name_count := length ?f\<rparr>"
  have "skynet_handle_retire hof h s = Some (Some c, ?s')"
    using i slot hc r by (simp add: skynet_handle_retire_def)
  moreover have hs': "hs_inv hof ?s'"
  proof -
    have "slot_hash (hof d) (hs_slot_size s) = j"
      if "j < hs_slot_size s" "(hs_slot s)[?i := None] ! j = Some d" for j d
      using hs that by (cases "j = ?i") (simp_all add: hs_inv_def)
    with hs show ?thesis by (simp add: hs_inv_def)
  qed
  moreover have names: "hs_names ?s' = filter (\<lambda>e. snd e \<noteq> h) (hs_names s)"
    using tk by (simp add: hs_names_def filter_map o_def)
  moreover have "names_inv ?s'"
  proof -
    have "None \<notin> set ?f" using inv by (auto simp: names_inv_def)
    moreover have "length ?f \<le> length (hs_name s)"
      by (rule order_trans [OF length_filter_le]) simp
    moreover have "sorted_wrt (<) (map fst (hs_names ?s'))"
      unfolding names using inv by (auto simp: names_inv_def sorted_wrt_map intro: sorted_wrt_filter)
    ultimately show ?thesis
      using inv len tk by (simp add: names_inv_def)
  qed
  moreover have "handle_lookup hof g ?s' = (if g = h then None else handle_lookup hof g s)" for g
  proof -
    have "handle_lookup hof g ?s' = Some d \<longleftrightarrow> g \<noteq> h \<and> handle_lookup hof g s = Some d" for d
    proof (cases "slot_hash g (hs_slot_size s) = ?i")
      case True
      with i slot hc show ?thesis by (simp add: handle_lookup_def)
    next
      case False
      then show ?thesis by (auto simp: handle_lookup_def)
    qed
    then show ?thesis by (metis option.exhaust)
  qed
  ultimately show ?thesis by blast
qed

lemma hs_inv_init: "hs_inv hof (skynet_handle_init harbor)"
proof -
  have "push_bit 24 (x AND 0xff) AND (0xffffff :: u32) = 0" for x
  proof (rule bit_word_eqI)
    fix n assume "n < LENGTH(32)"
    have m: "(0xffffff :: u32) = mask 24" by (simp add: mask_eq_exp_minus_1)
    show "bit (push_bit 24 (x AND 0xff) AND (0xffffff :: u32)) n = bit 0 n"
      unfolding m by (simp only: bit_and_iff bit_push_bit_iff bit_mask_iff) simp
  qed
  then show ?thesis
    by (auto simp: hs_inv_def skynet_handle_init_def DEFAULT_SLOT_SIZE_def HANDLE_MASK_def
        HANDLE_REMOTE_SHIFT_def intro!: exI [of _ 2])
qed

lemma names_inv_init: "names_inv (skynet_handle_init harbor)" "hs_names (skynet_handle_init harbor) = []"
  by (simp_all add: names_inv_def hs_names_def skynet_handle_init_def)

lemma map_of_filter_value:
  "distinct (map fst xs) \<Longrightarrow>
   map_of (filter (\<lambda>e. snd e \<noteq> h) xs) key = (if map_of xs key = Some h then None else map_of xs key)"
proof (induction xs)
  case Nil
  then show ?case by simp
next
  case (Cons x xs)
  have "fst x \<notin> dom (map_of xs)" using Cons.prems by (simp add: dom_map_of_conv_image_fst)
  with Cons show ?case by (cases "fst x = key"; cases "snd x = h") auto
qed

subsection \<open>Properties\<close>

text \<open>Property C4: registration of a new context, in every state of a table of at least two slots (it starts with four, and
  doubles). Either it succeeds: then the handle it returns belonged to no service, it finds the new context from then on, and every other
  handle finds exactly what it found before. Or the code fails, and this happens in exactly two states: the table is full with \<open>2 ^
  24\<close> services, so the assertion on its size fails, or slot 0 is the only free one and the handles that are tried pass the end of
  the 24-bit range. Since the handle after \<^verbatim>\<open>0xffffff\<close> is 1, the search then misses slot 0, the table is taken for
  full, and the copying of the slots follows the null pointer in slot 0.\<close>

theorem handle_register_fresh:
  assumes "hs_inv hof s" "Some ctx \<notin> set (hs_slot s)" "2 \<le> hs_slot_size s"
  shows "case skynet_handle_register hof ctx s of
      Some (h, s') \<Rightarrow> hs_inv (hof(ctx := h)) s' \<and> handle_lookup hof h s = None \<and> handle_lookup (hof(ctx := h)) h s' = Some ctx \<and>
        (\<forall>g. g = h \<or> handle_lookup (hof(ctx := h)) g s' = handle_lookup hof g s) \<and>
        \<not> slot_missed s \<and> (None \<in> set (hs_slot s) \<or> hs_slot_size s \<noteq> 2 ^ 24)
    | None \<Rightarrow> slot_missed s \<or> (None \<notin> set (hs_slot s) \<and> hs_slot_size s = 2 ^ 24)"
  using register_any [OF assms] by (auto split: if_splits)

theorem handle_register_fresh_witness:
  "\<exists>h s'. skynet_handle_register (\<lambda>_. 0) 5 (skynet_handle_init 1) = Some (h, s') \<and>
     handle_lookup ((\<lambda>_. 0)(5 := h)) h s' = Some 5"
proof -
  have new: "Some 5 \<notin> set (hs_slot (skynet_handle_init 1))" and size: "2 \<le> hs_slot_size (skynet_handle_init 1)"
    and empty: "\<not> slot_missed (skynet_handle_init 1)" "None \<in> set (hs_slot (skynet_handle_init 1))"
    by (auto simp: skynet_handle_init_def DEFAULT_SLOT_SIZE_def slot_missed_def nth_replicate intro: exI [of _ 1])
  from handle_register_fresh [OF hs_inv_init [of "\<lambda>_. 0"] new size] empty show ?thesis by (auto split: option.splits)
qed

text \<open>Property C6: retiring. Retiring the handle of a live service yields its context to release,
  frees the slot, leaves every other handle as it was, and removes exactly the names of that
  handle: a later lookup of a name finds another service's handle or nothing.\<close>

theorem handle_retire_exact:
  assumes "hs_inv hof s" "names_inv s" "handle_lookup hof h s = Some c"
  shows "\<exists>s'. skynet_handle_retire hof h s = Some (Some c, s') \<and> hs_inv hof s' \<and> names_inv s' \<and>
     (\<forall>g. handle_lookup hof g s' = (if g = h then None else handle_lookup hof g s)) \<and>
     (\<forall>key. skynet_handle_findname key s' =
        (if map_of (hs_names s) key = Some h then Some 0 else skynet_handle_findname key s))"
proof -
  from retire_ok [OF assms] obtain s' where s': "skynet_handle_retire hof h s = Some (Some c, s')"
    "hs_inv hof s'" "names_inv s'"
    "\<forall>g. handle_lookup hof g s' = (if g = h then None else handle_lookup hof g s)"
    "hs_names s' = filter (\<lambda>e. snd e \<noteq> h) (hs_names s)" by blast
  from map_of_filter_value [OF names_distinct [OF assms(2)]] have "skynet_handle_findname key s' =
      (if map_of (hs_names s) key = Some h then Some 0 else skynet_handle_findname key s)" for key
    by (simp add: findname_ok [OF s'(3)] findname_ok [OF assms(2)] s'(5))
  with s'(1-4) show ?thesis by blast
qed

theorem handle_retire_exact_witness:
  "\<exists>s'. skynet_handle_retire (\<lambda>_. 2) 2 ((skynet_handle_init 0)\<lparr>hs_slot := [None, None, Some 9, None],
        hs_name := [Some (''a'', 2), None], hs_name_count := 1\<rparr>) = Some (Some 9, s') \<and>
     handle_lookup (\<lambda>_. 2) 2 s' = None \<and> skynet_handle_findname ''a'' s' = Some 0"
proof -
  let ?s = "(skynet_handle_init 0)\<lparr>hs_slot := [None, None, Some 9, None],
        hs_name := [Some (''a'', 2), None], hs_name_count := 1\<rparr>"
  have h: "slot_hash 2 4 = 2" by (simp add: slot_hash_def)
  have inv: "hs_inv (\<lambda>_. 2) ?s"
    using hs_inv_init [of "\<lambda>_. 2" 0]
    by (auto simp: hs_inv_def skynet_handle_init_def DEFAULT_SLOT_SIZE_def h nth_Cons' split: if_splits)
  have names: "names_inv ?s" "hs_names ?s = [(''a'', 2)]"
    by (simp_all add: names_inv_def hs_names_def skynet_handle_init_def)
  have "handle_lookup (\<lambda>_. 2) 2 ?s = Some 9"
    by (simp add: handle_lookup_def skynet_handle_init_def DEFAULT_SLOT_SIZE_def h)
  from handle_retire_exact [OF inv names(1) this] show ?thesis
    unfolding names(2) by force
qed

text \<open>Property: names. Naming a handle refuses a name that is taken and changes nothing then;
  otherwise the array, doubled when it is full, stays sorted, the new name is found and every
  other name is found as before.\<close>

theorem handle_name_lookup:
  assumes "names_inv s" "hs_name_cap s * 2 \<le> MAX_SLOT_SIZE"
  shows "\<exists>r s'. skynet_handle_namehandle h name s = Some (r, s') \<and> names_inv s' \<and>
     (if r = None then s' = s \<and> map_of (hs_names s) name \<noteq> None
      else map_of (hs_names s) name = None \<and> r = Some name \<and>
        (\<forall>key. skynet_handle_findname key s' = (if key = name then Some h else skynet_handle_findname key s)))"
  using namehandle_ok [OF assms, of name h] assms(1) by (auto simp: findname_ok split: if_splits)

theorem handle_name_lookup_witness:
  "\<exists>s'. skynet_handle_namehandle 77 ''db'' (skynet_handle_init 1) = Some (Some ''db'', s') \<and>
     skynet_handle_findname ''db'' s' = Some 77"
proof -
  have "hs_name_cap (skynet_handle_init 1) * 2 \<le> MAX_SLOT_SIZE"
    by (simp add: skynet_handle_init_def MAX_SLOT_SIZE_def)
  from handle_name_lookup [OF names_inv_init(1) this, of 77 "''db''"] show ?thesis
    by (auto simp: names_inv_init split: if_splits)
qed

text \<open>A table near the end of the range of handles, with slot 0 free.\<close>

definition wrapped_table :: handle_storage where
  "wrapped_table = \<lparr>hs_harbor = 0, hs_handle_index = 0xfffffd, hs_slot_size = 4,
     hs_slot = [None, Some 1, Some 2, Some 3], hs_name_cap = 2, hs_name_count = 0, hs_name = [None, None]\<rparr>"

text \<open>Property: the wrap-around of the handle counter. Services with the handles 1, 2 and 3 are
  alive, slot 0 is free, and the counter has come near the end of the 24-bit range. The probe
  then looks at slots 1, 2, 3 and, because the handle after \<^verbatim>\<open>0xffffff\<close> is 1, at slot 1 again: a
  well-formed table that has room is taken for full, and growing it follows the null pointer in
  the free slot.\<close>

theorem handle_register_wrap_fails:
  "hs_inv of_nat wrapped_table \<and> None \<in> set (hs_slot wrapped_table) \<and>
   skynet_handle_register of_nat ctx wrapped_table = None"
proof -
  have four: "hs_slot_size wrapped_table = Suc (Suc (Suc (Suc 0)))" by (simp add: wrapped_table_def)
  have h: "slot_hash 1 4 = 1" "slot_hash 2 4 = 2" "slot_hash 3 4 = 3" "slot_hash 0xfffffd 4 = 1"
    "slot_hash 0xfffffe 4 = 2" "slot_hash 0xffffff 4 = 3"
    by (simp_all add: slot_hash_def)
  have "reg_probe (hs_slot_size wrapped_table) (hs_handle_index wrapped_table) wrapped_table = Some None"
    unfolding four by (simp add: wrapped_table_def HANDLE_MASK_def h Let_def)
  moreover have "expand_slots of_nat wrapped_table = None"
    by (simp add: expand_slots_def wrapped_table_def)
  ultimately have "skynet_handle_register of_nat ctx wrapped_table = None"
    unfolding skynet_handle_register_def by (subst register_loop.simps) simp
  moreover have "hs_inv of_nat wrapped_table"
  proof -
    have "slot_hash (of_nat c) 4 = i" if "hs_slot wrapped_table ! i = Some c" "i < 4" for i c
      using that by (auto simp: wrapped_table_def h nth_Cons' split: if_splits)
    then show ?thesis by (auto simp: hs_inv_def wrapped_table_def intro!: exI [of _ 2])
  qed
  ultimately show ?thesis by (simp add: wrapped_table_def)
qed

end
