(* ===== verification/Timer_Wheel.thy ===== *)
theory Timer_Wheel
  imports Skynet_Prelude "HOL-Library.Multiset"
begin

text \<open>
  \<^verbatim>\<open>skynet-src/skynet_timer.c\<close>: the hierarchical timing wheel. A node waits in one of 256 lists for
  the coming 256 ticks or in one of 64 lists of four coarser levels; when the clock passes a
  boundary, one list of a coarser level is distributed again. Times are 32-bit words and wrap
  around after about 497 days.

  A linked list with a tail pointer is a list to which \<open>link\<close> appends. Both arrays of lists
  together are one function from the place of a list to its nodes. The code that a node
  triggers (\<^verbatim>\<open>dispatch_list\<close>) is in the theory of the node; here a tick returns the nodes it
  dispatches, in order.
\<close>

subsection \<open>Data\<close>

definition TIME_NEAR_SHIFT :: nat where "TIME_NEAR_SHIFT = 8"
definition TIME_LEVEL_SHIFT :: nat where "TIME_LEVEL_SHIFT = 6"
definition TIME_NEAR :: u32 where "TIME_NEAR = 256"
definition TIME_NEAR_MASK :: u32 where "TIME_NEAR_MASK = 255"
definition TIME_LEVEL_MASK :: u32 where "TIME_LEVEL_MASK = 63"

record timer_event =
  te_handle :: u32
  te_session :: int

record timer_node =
  tn_expire :: u32
  tn_event :: timer_event

text \<open>The place of a list: \<^verbatim>\<open>near[idx]\<close> or \<^verbatim>\<open>t[level][idx]\<close>.\<close>

datatype wheel_slot = Near nat | Level nat nat

record timer =
  tm_lists :: "wheel_slot \<Rightarrow> timer_node list"
  tm_time :: u32
  tm_starttime :: u32
  tm_current :: u64
  tm_current_point :: u64

subsection \<open>Operations\<close>

definition link_clear :: "wheel_slot \<Rightarrow> timer \<Rightarrow> timer_node list \<times> timer" where
  "link_clear l T = (tm_lists T l, T\<lparr>tm_lists := (tm_lists T)(l := [])\<rparr>)"

definition link :: "wheel_slot \<Rightarrow> timer_node \<Rightarrow> timer \<Rightarrow> timer" where
  "link l node T = T\<lparr>tm_lists := (tm_lists T)(l := tm_lists T l @ [node])\<rparr>"

text \<open>The loop of \<^verbatim>\<open>add_node\<close> over the levels, with at most \<open>n\<close> rounds left.\<close>

fun level_loop :: "nat \<Rightarrow> nat \<Rightarrow> u32 \<Rightarrow> u32 \<Rightarrow> u32 \<Rightarrow> nat" where
  "level_loop 0 i msk time current_time = i"
| "level_loop (Suc n) i msk time current_time =
     (if time OR (msk - 1) = current_time OR (msk - 1) then i
      else level_loop n (Suc i) (push_bit TIME_LEVEL_SHIFT msk) time current_time)"

definition node_slot :: "u32 \<Rightarrow> u32 \<Rightarrow> wheel_slot" where
  "node_slot current_time time =
     (if time OR TIME_NEAR_MASK = current_time OR TIME_NEAR_MASK
      then Near (unat (time AND TIME_NEAR_MASK))
      else (let i = level_loop 3 0 (push_bit TIME_LEVEL_SHIFT TIME_NEAR) time current_time in
        Level i (unat (drop_bit (TIME_NEAR_SHIFT + i * TIME_LEVEL_SHIFT) time AND TIME_LEVEL_MASK))))"

definition add_node :: "timer_node \<Rightarrow> timer \<Rightarrow> timer" where
  "add_node node T = link (node_slot (tm_time T) (tn_expire node)) node T"

definition timer_add :: "timer_event \<Rightarrow> int \<Rightarrow> timer \<Rightarrow> timer" where
  "timer_add arg time T =
     add_node \<lparr>tn_expire = word_of_int time + tm_time T, tn_event = arg\<rparr> T"

definition move_list :: "nat \<Rightarrow> nat \<Rightarrow> timer \<Rightarrow> timer" where
  "move_list level idx T = (let (current, T') = link_clear (Level level idx) T in fold add_node current T')"

text \<open>The loop of \<^verbatim>\<open>timer_shift\<close>: the list to distribute, if any.\<close>

partial_function (option) shift_loop :: "u32 \<Rightarrow> u32 \<Rightarrow> u32 \<Rightarrow> nat \<Rightarrow> ((nat \<times> nat) option) option" where
  "shift_loop ct msk time i =
     (if ct AND (msk - 1) = 0
      then (let idx = time AND TIME_LEVEL_MASK in
        if idx \<noteq> 0 then Some (Some (i, unat idx))
        else shift_loop ct (push_bit TIME_LEVEL_SHIFT msk) (drop_bit TIME_LEVEL_SHIFT time) (Suc i))
      else Some None)"

definition timer_shift :: "timer \<Rightarrow> timer option" where
  "timer_shift T = (
     let ct = tm_time T + 1; T' = T\<lparr>tm_time := ct\<rparr> in
     if ct = 0 then Some (move_list 3 0 T')
     else do {
       r \<leftarrow> shift_loop ct TIME_NEAR (drop_bit TIME_NEAR_SHIFT ct) 0;
       Some (case r of None \<Rightarrow> T' | Some (level, idx) \<Rightarrow> move_list level idx T') })"

text \<open>\<^verbatim>\<open>timer_execute\<close>: the nodes dispatched so far come first.\<close>

partial_function (option) timer_execute :: "timer_node list \<Rightarrow> timer \<Rightarrow> (timer_node list \<times> timer) option" where
  "timer_execute acc T = (
     let idx = Near (unat (tm_time T AND TIME_NEAR_MASK)) in
     if tm_lists T idx \<noteq> []
     then (let (current, T') = link_clear idx T in timer_execute (acc @ current) T')
     else Some (acc, T))"

definition timer_update :: "timer \<Rightarrow> (timer_node list \<times> timer) option" where
  "timer_update T = do {
     (d1, T1) \<leftarrow> timer_execute [] T;
     T2 \<leftarrow> timer_shift T1;
     (d2, T3) \<leftarrow> timer_execute [] T2;
     Some (d1 @ d2, T3) }"

definition timer_create_timer :: timer where
  "timer_create_timer = \<lparr>tm_lists = (\<lambda>_. []), tm_time = 0, tm_starttime = 0, tm_current = 0, tm_current_point = 0\<rparr>"

text \<open>\<^verbatim>\<open>systime\<close> and \<^verbatim>\<open>gettime\<close> compute centiseconds from what \<^verbatim>\<open>clock_gettime\<close> returned.\<close>

definition systime :: "u64 \<Rightarrow> u64 \<Rightarrow> u32 \<times> u32" where
  "systime tv_sec tv_nsec = (ucast tv_sec, ucast (tv_nsec div 10000000))"

definition gettime :: "u64 \<Rightarrow> u64 \<Rightarrow> u64" where
  "gettime tv_sec tv_nsec = tv_sec * 100 + tv_nsec div 10000000"

definition skynet_timer_init :: "u64 \<times> u64 \<Rightarrow> u64 \<times> u64 \<Rightarrow> timer" where
  "skynet_timer_init realtime monotonic = (
     let (sec, cs) = systime (fst realtime) (snd realtime) in
     timer_create_timer\<lparr>tm_starttime := sec, tm_current := ucast cs,
       tm_current_point := gettime (fst monotonic) (snd monotonic)\<rparr>)"

text \<open>The nodes dispatched by \<open>n\<close> ticks, one list for each tick.\<close>

fun timer_ticks :: "nat \<Rightarrow> timer \<Rightarrow> (timer_node list list \<times> timer) option" where
  "timer_ticks 0 T = Some ([], T)"
| "timer_ticks (Suc n) T = do {
     (d, T1) \<leftarrow> timer_update T;
     (ds, T2) \<leftarrow> timer_ticks n T1;
     Some (d # ds, T2) }"

text \<open>\<^verbatim>\<open>skynet_updatetime\<close> with the time that \<^verbatim>\<open>gettime\<close> returned.\<close>

definition skynet_updatetime :: "u64 \<Rightarrow> timer \<Rightarrow> (timer_node list list \<times> timer) option" where
  "skynet_updatetime cp T =
     (if cp < tm_current_point T then Some ([], T\<lparr>tm_current_point := cp\<rparr>)
      else if cp \<noteq> tm_current_point T then (
        let diff = (ucast (cp - tm_current_point T) :: u32) in
        timer_ticks (unat diff) (T\<lparr>tm_current_point := cp, tm_current := tm_current T + ucast diff\<rparr>))
      else Some ([], T))"

definition skynet_starttime :: "timer \<Rightarrow> u32" where
  "skynet_starttime T = tm_starttime T"

definition skynet_now :: "timer \<Rightarrow> u64" where
  "skynet_now T = tm_current T"

subsection \<open>Places as natural numbers\<close>

definition lvl :: "nat \<Rightarrow> nat \<Rightarrow> nat" where
  "lvl k x = x div 2 ^ (8 + 6 * k)"

definition slot_nat :: "nat \<Rightarrow> nat \<Rightarrow> wheel_slot" where
  "slot_nat t e =
     (if lvl 0 e = lvl 0 t then Near (e mod 256)
      else if lvl 1 e = lvl 1 t then Level 0 (lvl 0 e mod 64)
      else if lvl 2 e = lvl 2 t then Level 1 (lvl 1 e mod 64)
      else if lvl 3 e = lvl 3 t then Level 2 (lvl 2 e mod 64)
      else Level 3 (lvl 3 e mod 64))"

definition moved_nat :: "nat \<Rightarrow> (nat \<times> nat) option" where
  "moved_nat t =
     (if t = 0 then Some (3, 0)
      else if t mod 256 \<noteq> 0 then None
      else if lvl 0 t mod 64 \<noteq> 0 then Some (0, lvl 0 t mod 64)
      else if lvl 1 t mod 64 \<noteq> 0 then Some (1, lvl 1 t mod 64)
      else if lvl 2 t mod 64 \<noteq> 0 then Some (2, lvl 2 t mod 64)
      else Some (3, lvl 3 t mod 64))"

lemma drop_bit_mask_0: "drop_bit n (mask n :: u32) = 0"
  by (rule bit_word_eqI) (simp add: bit_drop_bit_eq bit_mask_iff)

lemma or_mask_eq_iff:
  fixes a b :: u32
  assumes "n \<le> 32"
  shows "a OR mask n = b OR mask n \<longleftrightarrow> unat a div 2 ^ n = unat b div 2 ^ n"
proof -
  have "a OR mask n = b OR mask n \<longleftrightarrow> drop_bit n a = drop_bit n b"
  proof
    assume "a OR mask n = b OR mask n"
    then have "drop_bit n (a OR mask n) = drop_bit n (b OR mask n)" by (rule arg_cong)
    then show "drop_bit n a = drop_bit n b" by (simp add: drop_bit_mask_0)
  next
    assume eq: "drop_bit n a = drop_bit n b"
    show "a OR mask n = b OR mask n"
    proof (rule bit_word_eqI)
      fix m assume "m < LENGTH(32)"
      show "bit (a OR mask n) m = bit (b OR mask n) m"
      proof (cases "m < n")
        case False
        then have "bit a m = bit (drop_bit n a) (m - n)" "bit b m = bit (drop_bit n b) (m - n)"
          by (simp_all add: bit_drop_bit_eq)
        with eq show ?thesis by (simp add: bit_or_iff)
      qed (use \<open>m < LENGTH(32)\<close> in \<open>simp add: bit_or_iff bit_mask_iff\<close>)
    qed
  qed
  also have "\<dots> \<longleftrightarrow> unat (drop_bit n a) = unat (drop_bit n b)"
    by (simp only: word_unat_eq_iff)
  also have "\<dots> \<longleftrightarrow> unat a div 2 ^ n = unat b div 2 ^ n"
    unfolding unat_drop_bit_eq by (simp add: drop_bit_eq_div)
  finally show ?thesis .
qed

lemma unat_and_mask: "unat (a AND mask n :: u32) = unat a mod 2 ^ n"
  by (simp only: unsigned_take_bit_eq flip: take_bit_eq_mask) (simp only: take_bit_eq_mod)

lemma level_loop_nat:
  "level_loop 3 0 (push_bit TIME_LEVEL_SHIFT TIME_NEAR) e t =
     (if lvl 1 (unat e) = lvl 1 (unat t) then 0 else if lvl 2 (unat e) = lvl 2 (unat t) then 1
      else if lvl 3 (unat e) = lvl 3 (unat t) then 2 else 3)"
proof -
  have pb: "push_bit TIME_LEVEL_SHIFT TIME_NEAR - 1 = mask 14"
    "push_bit TIME_LEVEL_SHIFT (push_bit TIME_LEVEL_SHIFT TIME_NEAR) - 1 = mask 20"
    "push_bit TIME_LEVEL_SHIFT (push_bit TIME_LEVEL_SHIFT (push_bit TIME_LEVEL_SHIFT TIME_NEAR)) - 1 = mask 26"
    by (simp_all add: TIME_LEVEL_SHIFT_def TIME_NEAR_def mask_eq_exp_minus_1)
  show ?thesis
    by (simp only: numeral_3_eq_3 level_loop.simps pb or_mask_eq_iff lvl_def) simp
qed

lemma node_slot_nat: "node_slot t e = slot_nat (unat t) (unat e)"
proof -
  have m: "TIME_NEAR_MASK = mask 8" "TIME_LEVEL_MASK = mask 6"
    by (simp_all add: TIME_NEAR_MASK_def TIME_LEVEL_MASK_def mask_eq_exp_minus_1)
  have near: "e OR mask 8 = t OR mask 8 \<longleftrightarrow> lvl 0 (unat e) = lvl 0 (unat t)"
    by (simp only: or_mask_eq_iff lvl_def) simp
  have idx: "unat (drop_bit (TIME_NEAR_SHIFT + i * TIME_LEVEL_SHIFT) e AND mask 6) = lvl i (unat e) mod 64" for i
    unfolding unat_and_mask unat_drop_bit_eq
    by (simp add: drop_bit_eq_div lvl_def TIME_NEAR_SHIFT_def TIME_LEVEL_SHIFT_def mult.commute)
  have low: "unat (e AND mask 8) = unat e mod 256"
    by (simp only: unat_and_mask) simp
  show ?thesis
    unfolding node_slot_def slot_nat_def m near low idx level_loop_nat Let_def by simp
qed

text \<open>Which list the clock distributes when it reaches \<open>t\<close>.\<close>

lemma lvl_Suc: "lvl (Suc k) x = lvl k x div 64"
proof -
  have "(2::nat) ^ (8 + 6 * Suc k) = 2 ^ (8 + 6 * k) * 64" by (simp add: power_add)
  then show ?thesis unfolding lvl_def by (simp only: div_mult2_eq)
qed

lemma shift_loop_step:
  assumes "msk = 2 ^ (8 + 6 * i)" "8 + 6 * i < 32" "time = drop_bit (8 + 6 * i) ct"
  shows "shift_loop ct msk time i =
    (if unat ct mod 2 ^ (8 + 6 * i) = 0
     then (if lvl i (unat ct) mod 64 \<noteq> 0 then Some (Some (i, lvl i (unat ct) mod 64))
           else shift_loop ct (2 ^ (8 + 6 * Suc i)) (drop_bit (8 + 6 * Suc i) ct) (Suc i))
     else Some None)"
proof -
  have m: "msk - 1 = mask (8 + 6 * i)" "TIME_LEVEL_MASK = mask 6"
    by (simp_all add: assms(1) TIME_LEVEL_MASK_def mask_eq_exp_minus_1)
  have low: "ct AND mask (8 + 6 * i) = 0 \<longleftrightarrow> unat ct mod 2 ^ (8 + 6 * i) = 0"
    by (simp only: unat_and_mask flip: unat_eq_0)
  have idx: "unat (time AND mask 6) = lvl i (unat ct) mod 64"
    unfolding unat_and_mask assms(3) unat_drop_bit_eq by (simp add: drop_bit_eq_div lvl_def)
  have idx0: "time AND mask 6 = 0 \<longleftrightarrow> lvl i (unat ct) mod 64 = 0"
    by (simp only: idx flip: unat_eq_0)
  have nxt: "push_bit TIME_LEVEL_SHIFT msk = 2 ^ (8 + 6 * Suc i)"
    "drop_bit TIME_LEVEL_SHIFT time = drop_bit (8 + 6 * Suc i) ct"
    by (simp_all add: assms TIME_LEVEL_SHIFT_def push_bit_eq_mult drop_bit_drop_bit flip: power_add)
      (simp_all add: add.commute power_add)
  show ?thesis
    by (subst shift_loop.simps) (simp only: m low idx idx0 nxt Let_def simp_thms)
qed

lemma shift_loop_nat:
  assumes "ct \<noteq> 0"
  shows "shift_loop ct TIME_NEAR (drop_bit TIME_NEAR_SHIFT ct) 0 = Some (moved_nat (unat ct))"
proof -
  let ?t = "unat ct"
  have t0: "?t \<noteq> 0" "?t < 2 ^ 32" using assms unat_eq_0 [of ct] unat_u32_less [of ct] by auto
  have lvl3: "lvl 3 ?t < 64" using t0(2) by (simp add: lvl_def div_less_iff_less_mult)
  have d: "?t mod 2 ^ (8 + 6 * Suc i) = 0 \<longleftrightarrow> lvl i ?t mod 64 = 0" if "?t mod 2 ^ (8 + 6 * i) = 0" for i
  proof -
    have "?t = 2 ^ (8 + 6 * i) * lvl i ?t" using that by (auto simp: lvl_def)
    then have "?t mod (2 ^ (8 + 6 * i) * 64) = 2 ^ (8 + 6 * i) * (lvl i ?t mod 64)"
      by (metis mod_mult_mult1)
    moreover have "(2::nat) ^ (8 + 6 * Suc i) = 2 ^ (8 + 6 * i) * 64" by (simp add: power_add)
    ultimately show ?thesis by simp
  qed
  have l3: "lvl 3 ?t mod 64 \<noteq> 0" if "?t mod 2 ^ (8 + 6 * 3) = 0"
    using that lvl3 t0(1) by (auto simp: lvl_def)
  have start: "shift_loop ct TIME_NEAR (drop_bit TIME_NEAR_SHIFT ct) 0 = shift_loop ct (2 ^ (8 + 6 * 0)) (drop_bit (8 + 6 * 0) ct) 0"
    by (simp add: TIME_NEAR_def TIME_NEAR_SHIFT_def)
  note step = shift_loop_step [OF refl _ refl, of _ ct]
  have s3: "shift_loop ct (2 ^ (8 + 6 * 3)) (drop_bit (8 + 6 * 3) ct) 3 = Some (Some (3, lvl 3 ?t mod 64))"
    if "?t mod 2 ^ (8 + 6 * 3) = 0"
    using step [of 3] l3 that by simp
  have s2: "shift_loop ct (2 ^ (8 + 6 * 2)) (drop_bit (8 + 6 * 2) ct) 2 =
      Some (if lvl 2 ?t mod 64 \<noteq> 0 then Some (2, lvl 2 ?t mod 64) else Some (3, lvl 3 ?t mod 64))"
    if "?t mod 2 ^ (8 + 6 * 2) = 0"
    using step [of 2] d [of 2] s3 that by (simp split: if_splits)
  have s1: "shift_loop ct (2 ^ (8 + 6 * 1)) (drop_bit (8 + 6 * 1) ct) 1 =
      Some (if lvl 1 ?t mod 64 \<noteq> 0 then Some (1, lvl 1 ?t mod 64)
            else if lvl 2 ?t mod 64 \<noteq> 0 then Some (2, lvl 2 ?t mod 64) else Some (3, lvl 3 ?t mod 64))"
    if "?t mod 2 ^ (8 + 6 * 1) = 0"
    using step [of 1] d [of 1] s2 that by (simp flip: numeral_2_eq_2 split: if_splits)
  have s0: "shift_loop ct (2 ^ (8 + 6 * 0)) (drop_bit (8 + 6 * 0) ct) 0 = Some (moved_nat ?t)"
    using step [of 0] d [of 0] s1 t0(1) by (simp add: moved_nat_def split: if_splits)
  show ?thesis unfolding start by (rule s0)
qed

text \<open>A node that waits is ahead of the clock, possibly past the wrap-around.\<close>

definition ahead :: "nat \<Rightarrow> nat \<Rightarrow> bool" where
  "ahead t e \<longleftrightarrow> t < e \<or> lvl 3 e < lvl 3 t"

lemma lvl_mono_eq: "lvl k e = lvl k t \<Longrightarrow> k \<le> m \<Longrightarrow> lvl m e = lvl m t"
  by (induction m) (auto simp: le_Suc_eq lvl_Suc)

lemma lvl_tick: "lvl k (Suc t) = (if Suc t mod 2 ^ (8 + 6 * k) = 0 then Suc (lvl k t) else lvl k t)"
  unfolding lvl_def by (rule div_Suc)

lemma lvl_tick_ne:
  assumes "ahead t e" "k \<le> 3" "Suc t mod 2 ^ (8 + 6 * k) = 0"
  shows "lvl k e \<noteq> lvl k t"
proof
  assume eq: "lvl k e = lvl k t"
  then have "lvl 3 e = lvl 3 t" using assms(2) by (rule lvl_mono_eq)
  with assms(1) have "t < e" by (simp add: ahead_def)
  have "Suc t = 2 ^ (8 + 6 * k) * lvl k (Suc t)" using assms(3) by (auto simp: lvl_def)
  also have "lvl k (Suc t) = Suc (lvl k e)" using assms(3) eq by (simp add: lvl_tick)
  finally have "e < Suc t" unfolding lvl_def by (metis dividend_less_times_div zero_less_numeral zero_less_power mult_Suc_right add.commute)
  with \<open>t < e\<close> show False by simp
qed

lemma slot_shift_carry:
  assumes "ahead t e" and ne: "slot_nat (Suc t) e \<noteq> slot_nat t e"
  shows "\<exists>i idx. moved_nat (Suc t) = Some (i, idx) \<and> slot_nat t e = Level i idx"
proof -
  define P where "P k \<longleftrightarrow> Suc t mod 2 ^ (8 + 6 * k) = 0" for k
  have tick: "lvl k (Suc t) = (if P k then Suc (lvl k t) else lvl k t)" for k
    by (simp add: lvl_tick P_def)
  have neq: "lvl k e \<noteq> lvl k t" if "P k" "k \<le> 3" for k
    using lvl_tick_ne [OF assms(1) that(2)] that(1) by (simp add: P_def)
  have up: "P k" if "P (Suc k)" for k
  proof -
    have "(2::nat) ^ (8 + 6 * k) dvd 2 ^ (8 + 6 * Suc k)" by (rule le_imp_power_dvd) simp
    with that show ?thesis unfolding P_def by (metis dvd_trans mod_0_imp_dvd dvd_imp_mod_0)
  qed
  have P_lvl: "P (Suc k) \<longleftrightarrow> lvl k (Suc t) mod 64 = 0" if "P k" for k
  proof -
    have "Suc t = 2 ^ (8 + 6 * k) * lvl k (Suc t)" using that by (auto simp: lvl_def P_def)
    then have "Suc t mod (2 ^ (8 + 6 * k) * 64) = 2 ^ (8 + 6 * k) * (lvl k (Suc t) mod 64)"
      by (metis mod_mult_mult1)
    moreover have "(2::nat) ^ (8 + 6 * Suc k) = 2 ^ (8 + 6 * k) * 64" by (simp add: power_add)
    ultimately show ?thesis by (simp add: P_def)
  qed
  note up' = up [of 0] up [of 1] up [of 2]
  note me = lvl_mono_eq [of 0 e _ 1] lvl_mono_eq [of 1 e _ 2] lvl_mono_eq [of 2 e _ 3]
  have moved: "moved_nat (Suc t) = (if \<not> P 0 then None else if \<not> P 1 then Some (0, lvl 0 (Suc t) mod 64)
      else if \<not> P 2 then Some (1, lvl 1 (Suc t) mod 64)
      else if \<not> P 3 then Some (2, lvl 2 (Suc t) mod 64) else Some (3, lvl 3 (Suc t) mod 64))"
  proof -
    have chain: "P (Suc k) \<longleftrightarrow> P k \<and> lvl k (Suc t) mod 64 = 0" for k
      using P_lvl [of k] up [of k] by argo
    have "(2::nat) ^ (8 + 6 * 0) = 256" by simp
    then have "P 0 \<longleftrightarrow> Suc t mod 256 = 0" by (simp only: P_def)
    with chain [of 0] chain [of 1] chain [of 2]
    have "P 0 \<longleftrightarrow> Suc t mod 256 = 0" "P 1 \<longleftrightarrow> P 0 \<and> lvl 0 (Suc t) mod 64 = 0"
      "P 2 \<longleftrightarrow> P 1 \<and> lvl 1 (Suc t) mod 64 = 0" "P 3 \<longleftrightarrow> P 2 \<and> lvl 2 (Suc t) mod 64 = 0"
      by (simp_all only: numeral_2_eq_2 numeral_3_eq_3 One_nat_def)
    then show ?thesis unfolding moved_nat_def by simp
  qed
  have P: "P 3 \<Longrightarrow> P 2" "P 2 \<Longrightarrow> P 1" "P 1 \<Longrightarrow> P 0"
    using up' by (simp_all only: numeral_2_eq_2 numeral_3_eq_3 One_nat_def)
  have same: "slot_nat (Suc t) e = slot_nat t e"
    if "\<And>j. j \<le> 3 \<Longrightarrow> lvl j e = lvl j (Suc t) \<longleftrightarrow> lvl j e = lvl j t"
    unfolding slot_nat_def using that [of 0] that [of 1] that [of 2] that [of 3] by simp
  have main: "\<exists>idx. idx = lvl i (Suc t) mod 64 \<and> slot_nat t e = Level i idx"
    if i: "i \<le> 3" and lo: "\<And>j. j \<le> i \<Longrightarrow> P j" and hi: "\<And>j. i < j \<Longrightarrow> j \<le> 3 \<Longrightarrow> \<not> P j" for i
  proof -
    have "lvl i e = lvl i (Suc t)"
    proof (rule ccontr)
      assume "lvl i e \<noteq> lvl i (Suc t)"
      then have "lvl j e \<noteq> lvl j (Suc t)" if "j \<le> i" for j
        using lvl_mono_eq [of j e "Suc t" i] that by blast
      moreover have "lvl j e \<noteq> lvl j t" if "j \<le> i" for j
        using neq [of j] lo [of j] that i by simp
      moreover have "lvl j (Suc t) = lvl j t" if "i < j" "j \<le> 3" for j
        using hi that by (simp add: tick)
      ultimately have "slot_nat (Suc t) e = slot_nat t e"
        by (intro same) (metis not_less)
      with ne show False by simp
    qed
    moreover from this have "lvl j e = lvl j t" if "i < j" "j \<le> 3" for j
      using lvl_mono_eq [of i e "Suc t" j] hi [OF that] that by (simp add: tick)
    moreover have "lvl j e \<noteq> lvl j t" if "j \<le> i" for j
      using neq [of j] lo [of j] that i by simp
    moreover have "lvl i (Suc t) \<noteq> lvl i t" using lo [of i] by (simp add: tick)
    moreover from i have "i = 0 \<or> i = 1 \<or> i = 2 \<or> i = 3" by linarith
    ultimately show ?thesis
      unfolding slot_nat_def by (elim disjE) simp_all
  qed
  have small: "j = 0 \<or> j = 1 \<or> j = 2 \<or> j = 3" if "j \<le> 3" for j :: nat using that by linarith
  consider "\<not> P 0" | "P 0" "\<not> P 1" | "P 1" "\<not> P 2" | "P 2" "\<not> P 3" | "P 3" by blast
  then show ?thesis
  proof cases
    case 1
    then have "\<not> P j" if "j \<le> 3" for j using P small [OF that] by auto
    with same ne show ?thesis by (simp add: tick)
  next
    case 2
    then have "\<And>j. 0 < j \<Longrightarrow> j \<le> 3 \<Longrightarrow> \<not> P j" using P small by fastforce
    with main [of 0] 2 moved show ?thesis by auto
  next
    case 3
    then have "\<And>j. j \<le> 1 \<Longrightarrow> P j" "\<And>j. 1 < j \<Longrightarrow> j \<le> 3 \<Longrightarrow> \<not> P j"
      using P small by (metis le_Suc_eq le_zero_eq One_nat_def) (metis P(1) 3(2) small less_numeral_extra(4) not_one_less_zero)
    with main [of 1] 3 P moved show ?thesis by auto
  next
    case 4
    then have "\<And>j. j \<le> 2 \<Longrightarrow> P j" "\<And>j. 2 < j \<Longrightarrow> j \<le> 3 \<Longrightarrow> \<not> P j"
      using P by (metis le_Suc_eq le_zero_eq One_nat_def numeral_2_eq_2) (metis 4(2) Suc_leI eval_nat_numeral(3) le_antisym)
    with main [of 2] 4 P moved show ?thesis by auto
  next
    case 5
    then have "P j" if "j \<le> 3" for j using P small [OF that] by auto
    with main [of 3] 5 P moved show ?thesis by auto
  qed
qed

lemma filter_mset_all: "(\<And>x. x \<in># M \<Longrightarrow> P x) \<Longrightarrow> filter_mset P M = M"
  by (induction M) auto

lemma filter_mset_none: "(\<And>x. x \<in># M \<Longrightarrow> \<not> P x) \<Longrightarrow> filter_mset P M = {#}"
  by (induction M) auto

lemma unat_tick: "t + 1 \<noteq> (0 :: u32) \<Longrightarrow> unat (t + 1) = Suc (unat t)"
  using unat_u32_less [of t] unat_eq_0 [of "t + 1"]
  by (cases "Suc (unat t) = 2 ^ 32") (simp_all add: unat_word_ariths)

lemma slot_shift:
  assumes ah: "ahead (unat t) (unat e)" and ne: "node_slot (t + 1) e \<noteq> node_slot t e"
  shows "\<exists>i idx. moved_nat (unat (t + 1)) = Some (i, idx) \<and> node_slot t e = Level i idx"
proof (cases "t + 1 = 0")
  case False
  with slot_shift_carry [OF ah] ne show ?thesis
    by (simp add: node_slot_nat unat_tick)
next
  case True
  then have t: "t = - 1" by (simp add: eq_neg_iff_add_eq_0)
  have ut: "unat t = 2 ^ 32 - 1" by (simp add: t unsigned_minus_1_eq_mask mask_eq_exp_minus_1)
  with ah unat_u32_less [of e] have l3: "lvl 3 (unat e) < lvl 3 (unat t)" by (auto simp: ahead_def)
  then have "lvl j (unat e) \<noteq> lvl j (unat t)" if "j \<le> 3" for j
    using lvl_mono_eq [of j "unat e" "unat t" 3] that by auto
  then have sl: "node_slot t e = Level 3 (lvl 3 (unat e) mod 64)"
    by (simp add: node_slot_nat slot_nat_def)
  have "lvl 3 (unat e) = 0"
  proof (rule ccontr)
    assume "lvl 3 (unat e) \<noteq> 0"
    then have "lvl j (unat e) \<noteq> lvl j 0" if "j \<le> 3" for j
      using lvl_mono_eq [of j "unat e" 0 3] that by (auto simp: lvl_def)
    then have "node_slot (t + 1) e = Level 3 (lvl 3 (unat e) mod 64)"
      unfolding True by (simp add: node_slot_nat slot_nat_def)
    with sl ne show False by simp
  qed
  with sl show ?thesis unfolding True by (simp add: moved_nat_def)
qed

subsection \<open>The invariant of the wheel\<close>

text \<open>Every node is where \<open>add_node\<close> would put it now, and satisfies a condition on the clock and
  its time.\<close>

definition wheel_ok :: "(nat \<Rightarrow> nat \<Rightarrow> bool) \<Rightarrow> timer \<Rightarrow> bool" where
  "wheel_ok P T \<longleftrightarrow> (\<forall>l. \<forall>n \<in> set (tm_lists T l).
     node_slot (tm_time T) (tn_expire n) = l \<and> P (unat (tm_time T)) (unat (tn_expire n)))"

definition wheel_inv :: "timer \<Rightarrow> bool" where
  "wheel_inv T \<longleftrightarrow> wheel_ok ahead T"

definition wheel_slots :: "wheel_slot set" where
  "wheel_slots = Near ` {..<256} \<union> (\<lambda>(i, j). Level i j) ` ({..<4} \<times> {..<64})"

definition pending :: "timer \<Rightarrow> timer_node multiset" where
  "pending T = (\<Sum>l \<in> wheel_slots. mset (tm_lists T l))"

lemma finite_wheel_slots [simp]: "finite wheel_slots"
  by (simp add: wheel_slots_def)

lemma node_slot_in [simp]: "node_slot t e \<in> wheel_slots"
  by (auto simp: node_slot_nat slot_nat_def wheel_slots_def)

lemma pending_upd:
  assumes "l \<in> wheel_slots"
  shows "pending (T\<lparr>tm_lists := (tm_lists T)(l := ns)\<rparr>) + mset (tm_lists T l) = pending T + mset ns"
proof -
  have "(\<Sum>k \<in> wheel_slots - {l}. mset (((tm_lists T)(l := ns)) k)) = (\<Sum>k \<in> wheel_slots - {l}. mset (tm_lists T k))"
    by (rule sum.cong) auto
  then show ?thesis
    using assms by (simp add: pending_def sum.remove [of wheel_slots l])
qed

lemma pending_link: "l \<in> wheel_slots \<Longrightarrow> pending (link l n T) = add_mset n (pending T)"
  using pending_upd [of l T "tm_lists T l @ [n]"] by (simp add: link_def)

lemma pending_add_node [simp]: "pending (add_node n T) = add_mset n (pending T)"
  by (simp add: add_node_def pending_link)

lemma tm_time_add_node [simp]: "tm_time (add_node n T) = tm_time T"
  by (simp add: add_node_def link_def)

lemma wheel_ok_add_node:
  "wheel_ok P T \<Longrightarrow> P (unat (tm_time T)) (unat (tn_expire n)) \<Longrightarrow> wheel_ok P (add_node n T)"
  by (auto simp: wheel_ok_def add_node_def link_def)

lemma fold_add_node:
  "wheel_ok P T \<Longrightarrow> \<forall>n \<in> set ns. P (unat (tm_time T)) (unat (tn_expire n)) \<Longrightarrow>
   wheel_ok P (fold add_node ns T) \<and> pending (fold add_node ns T) = mset ns + pending T \<and>
   tm_time (fold add_node ns T) = tm_time T"
proof (induction ns arbitrary: T)
  case Nil
  then show ?case by simp
next
  case (Cons n ns)
  with wheel_ok_add_node [of P T n] Cons.IH [of "add_node n T"] show ?case by simp
qed

lemma pending_clear:
  "l \<in> wheel_slots \<Longrightarrow> mset (tm_lists T l) + pending (T\<lparr>tm_lists := (tm_lists T)(l := [])\<rparr>) = pending T"
  using pending_upd [of l T "[]"] by (simp add: add.commute)

lemma wheel_nodes: "wheel_ok P T \<Longrightarrow> n \<in># pending T \<longleftrightarrow> (\<exists>l. n \<in> set (tm_lists T l))"
  unfolding pending_def wheel_ok_def
  by (auto simp: in_Union_mset_iff set_mset_sum) (metis node_slot_in)

text \<open>Due now or ahead.\<close>

definition due_or_ahead :: "nat \<Rightarrow> nat \<Rightarrow> bool" where
  "due_or_ahead t e \<longleftrightarrow> e = t \<or> ahead t e"

lemma ahead_tick:
  assumes "ahead (unat (t :: u32)) (unat (e :: u32))"
  shows "due_or_ahead (unat (t + 1)) (unat e)"
proof (cases "t + 1 = 0")
  case True
  then show ?thesis by (auto simp: due_or_ahead_def ahead_def)
next
  case False
  have "lvl 3 (unat t) \<le> lvl 3 (Suc (unat t))" by (simp add: lvl_def div_le_mono)
  with assms False show ?thesis by (auto simp: due_or_ahead_def ahead_def unat_tick)
qed

lemma due_place: "node_slot t e = Near (unat (t AND TIME_NEAR_MASK)) \<longleftrightarrow> e = t"
proof -
  have m: "unat (t AND TIME_NEAR_MASK) = unat t mod 256"
    using unat_and_mask [of t 8] by (simp add: TIME_NEAR_MASK_def mask_eq_exp_minus_1)
  have "lvl 0 (unat e) = lvl 0 (unat t) \<and> unat e mod 256 = unat t mod 256 \<longleftrightarrow> unat e = unat t"
    by (auto simp: lvl_def) (metis div_mult_mod_eq)
  then show ?thesis
    by (auto simp: node_slot_nat slot_nat_def m word_unat_eq_iff split: if_splits)
qed

lemma timer_execute_eq:
  "timer_execute acc T =
     (let idx = Near (unat (tm_time T AND TIME_NEAR_MASK)) in
      Some (acc @ tm_lists T idx, T\<lparr>tm_lists := (tm_lists T)(idx := [])\<rparr>))"
proof -
  let ?idx = "Near (unat (tm_time T AND TIME_NEAR_MASK))"
  let ?T' = "T\<lparr>tm_lists := (tm_lists T)(?idx := [])\<rparr>"
  have again: "timer_execute a ?T' = Some (a, ?T')" for a
    by (subst timer_execute.simps) (simp add: Let_def)
  show ?thesis
  proof (cases "tm_lists T ?idx = []")
    case True
    then have "?T' = T" by (simp add: fun_upd_idem)
    with again [of acc] True show ?thesis by (simp add: Let_def)
  next
    case False
    then have "timer_execute acc T = timer_execute (acc @ tm_lists T ?idx) ?T'"
      by (subst timer_execute.simps) (simp add: Let_def link_clear_def)
    with again show ?thesis by (simp add: Let_def)
  qed
qed

text \<open>After the clock moved, distributing the one list restores the places.\<close>

lemma move_list_ok:
  assumes T: "\<And>k n. n \<in> set (tm_lists T k) \<Longrightarrow> P (unat (tm_time T)) (unat (tn_expire n))"
    and place: "\<And>k n. n \<in> set (tm_lists T k) \<Longrightarrow> k \<noteq> Level i idx \<Longrightarrow> node_slot (tm_time T) (tn_expire n) = k"
    and l: "Level i idx \<in> wheel_slots"
  shows "wheel_ok P (move_list i idx T) \<and> pending (move_list i idx T) = pending T \<and>
    tm_time (move_list i idx T) = tm_time T"
proof -
  let ?T' = "T\<lparr>tm_lists := (tm_lists T)(Level i idx := [])\<rparr>"
  have "wheel_ok P ?T'" using T place by (auto simp: wheel_ok_def)
  from fold_add_node [OF this, of "tm_lists T (Level i idx)"] T pending_clear [OF l, of T] show ?thesis
    by (simp add: move_list_def link_clear_def)
qed

lemma moved_nat_in:
  assumes "moved_nat (unat (t :: u32)) = Some (i, idx)"
  shows "Level i idx \<in> wheel_slots"
  using assms unat_u32_less [of t]
  by (auto simp: moved_nat_def wheel_slots_def lvl_def split: if_splits)

lemma timer_shift_ok:
  assumes "wheel_inv T"
  shows "\<exists>T'. timer_shift T = Some T' \<and> wheel_ok due_or_ahead T' \<and> pending T' = pending T \<and>
    tm_time T' = tm_time T + 1"
proof -
  let ?ct = "tm_time T + 1" let ?T1 = "T\<lparr>tm_time := ?ct\<rparr>"
  have node: "node_slot (tm_time T) (tn_expire n) = l" "ahead (unat (tm_time T)) (unat (tn_expire n))"
    if "n \<in> set (tm_lists T l)" for l n
    using assms that by (auto simp: wheel_inv_def wheel_ok_def)
  have P: "due_or_ahead (unat ?ct) (unat (tn_expire n))" if "n \<in> set (tm_lists T l)" for l n
    using node(2) [OF that] by (rule ahead_tick)
  have stay: "node_slot ?ct (tn_expire n) = l"
    if "n \<in> set (tm_lists T l)" "\<And>i idx. moved_nat (unat ?ct) = Some (i, idx) \<Longrightarrow> l \<noteq> Level i idx" for l n
    using slot_shift [OF node(2) [OF that(1)]] node(1) [OF that(1)] that(2) by metis
  have pend: "pending ?T1 = pending T" by (simp add: pending_def)
  show ?thesis
  proof (cases "moved_nat (unat ?ct)")
    case None
    then have "?ct \<noteq> 0" by (auto simp: moved_nat_def)
    then have "timer_shift T = Some ?T1"
      using shift_loop_nat [of ?ct] None by (simp add: timer_shift_def Let_def)
    moreover have "wheel_ok due_or_ahead ?T1" using P stay None by (auto simp: wheel_ok_def)
    ultimately show ?thesis using pend by simp
  next
    case (Some p)
    obtain i idx where p: "p = (i, idx)" by (cases p)
    have "timer_shift T = Some (move_list i idx ?T1)"
      using shift_loop_nat [of ?ct] Some p
      by (cases "?ct = 0") (auto simp: timer_shift_def Let_def moved_nat_def)
    moreover have "wheel_ok due_or_ahead (move_list i idx ?T1) \<and>
        pending (move_list i idx ?T1) = pending ?T1 \<and> tm_time (move_list i idx ?T1) = tm_time ?T1"
      using P stay Some p by (intro move_list_ok) (auto intro: moved_nat_in)
    ultimately show ?thesis using pend by simp
  qed
qed

text \<open>One tick dispatches exactly the nodes that are due.\<close>

lemma timer_update_ok:
  assumes inv: "wheel_inv T"
  shows "\<exists>ds T'. timer_update T = Some (ds, T') \<and> wheel_inv T' \<and> tm_time T' = tm_time T + 1 \<and>
    mset ds = filter_mset (\<lambda>n. tn_expire n = tm_time T + 1) (pending T) \<and>
    pending T' = filter_mset (\<lambda>n. tn_expire n \<noteq> tm_time T + 1) (pending T)"
proof -
  let ?idx = "\<lambda>t. Near (unat (t AND TIME_NEAR_MASK))"
  have "tm_lists T (?idx (tm_time T)) = []"
  proof (rule ccontr)
    assume "tm_lists T (?idx (tm_time T)) \<noteq> []"
    then obtain n where "n \<in> set (tm_lists T (?idx (tm_time T)))" by (metis list.set_intros(1) neq_Nil_conv)
    with inv have "node_slot (tm_time T) (tn_expire n) = ?idx (tm_time T)"
      "ahead (unat (tm_time T)) (unat (tn_expire n))" by (auto simp: wheel_inv_def wheel_ok_def)
    then show False by (simp add: due_place ahead_def)
  qed
  then have first: "timer_execute [] T = Some ([], T)"
    by (simp add: timer_execute_eq Let_def fun_upd_idem)
  from timer_shift_ok [OF inv] obtain T2 where T2: "timer_shift T = Some T2" "wheel_ok due_or_ahead T2"
    "pending T2 = pending T" "tm_time T2 = tm_time T + 1" by blast
  let ?l = "?idx (tm_time T2)"
  let ?T3 = "T2\<lparr>tm_lists := (tm_lists T2)(?l := [])\<rparr>"
  have upd: "timer_update T = Some (tm_lists T2 ?l, ?T3)"
    using first T2(1) by (simp add: timer_update_def timer_execute_eq Let_def)
  have due: "n \<in> set (tm_lists T2 l) \<Longrightarrow> tn_expire n = tm_time T2 \<longleftrightarrow> l = ?l" for n l
    using T2(2) due_place [of "tm_time T2" "tn_expire n"] by (auto simp: wheel_ok_def)
  have inv3: "wheel_inv ?T3"
    using T2(2) due by (auto simp: wheel_inv_def wheel_ok_def due_or_ahead_def word_unat_eq_iff)
  have l: "?l \<in> wheel_slots" using node_slot_in due_place by metis
  have split: "pending T = mset (tm_lists T2 ?l) + pending ?T3"
    using pending_clear [OF l, of T2] T2(3) by simp
  have later: "tn_expire n \<noteq> tm_time T2" if "n \<in># pending ?T3" for n
  proof -
    from that inv3 obtain k where "n \<in> set (tm_lists ?T3 k)"
      using wheel_nodes [of ahead ?T3] by (auto simp: wheel_inv_def)
    then show ?thesis using due [of n k] by (cases "k = ?l") auto
  qed
  have now: "tn_expire n = tm_time T2" if "n \<in> set (tm_lists T2 ?l)" for n
    using that due by simp
  have "filter_mset (\<lambda>n. tn_expire n = tm_time T2) (pending T) = mset (tm_lists T2 ?l)"
    "filter_mset (\<lambda>n. tn_expire n \<noteq> tm_time T2) (pending T) = pending ?T3"
  proof -
    have "filter_mset (\<lambda>n. tn_expire n = tm_time T2) (mset (tm_lists T2 ?l)) = mset (tm_lists T2 ?l)"
      "filter_mset (\<lambda>n. tn_expire n \<noteq> tm_time T2) (pending ?T3) = pending ?T3"
      by (rule filter_mset_all, simp add: now, rule filter_mset_all, rule later)
    moreover have "filter_mset (\<lambda>n. tn_expire n = tm_time T2) (pending ?T3) = {#}"
      "filter_mset (\<lambda>n. tn_expire n \<noteq> tm_time T2) (mset (tm_lists T2 ?l)) = {#}"
      by (rule filter_mset_none, rule later, assumption, rule filter_mset_none, simp add: now)
    ultimately show "filter_mset (\<lambda>n. tn_expire n = tm_time T2) (pending T) = mset (tm_lists T2 ?l)"
      "filter_mset (\<lambda>n. tn_expire n \<noteq> tm_time T2) (pending T) = pending ?T3"
      unfolding split by simp_all
  qed
  with upd inv3 T2(4) show ?thesis by simp
qed

lemma word_add_neq:
  fixes t :: u32
  assumes "i < j" "j < 2 ^ 32"
  shows "t + of_nat i \<noteq> t + of_nat j"
proof
  assume "t + of_nat i = t + of_nat j"
  then have "(of_nat i :: u32) = of_nat j" by simp
  then have "unat (of_nat i :: u32) = unat (of_nat j :: u32)" by simp
  with assms show False by (simp add: unsigned_of_nat take_bit_nat_eq_self)
qed

text \<open>Tick \<open>k\<close> of a run dispatches exactly the nodes whose time is \<open>k + 1\<close> ticks away.\<close>

lemma timer_ticks_ok:
  assumes "wheel_inv T" "n < 2 ^ 32"
  shows "\<exists>dss T'. timer_ticks n T = Some (dss, T') \<and> wheel_inv T' \<and> length dss = n \<and>
    tm_time T' = tm_time T + of_nat n \<and>
    (\<forall>k < n. mset (dss ! k) = filter_mset (\<lambda>m. tn_expire m = tm_time T + of_nat (Suc k)) (pending T))"
  using assms
proof (induction n arbitrary: T)
  case 0
  then show ?case by simp
next
  case (Suc n)
  from timer_update_ok [OF Suc.prems(1)] obtain ds T1 where T1: "timer_update T = Some (ds, T1)"
    "wheel_inv T1" "tm_time T1 = tm_time T + 1"
    "mset ds = filter_mset (\<lambda>m. tn_expire m = tm_time T + 1) (pending T)"
    "pending T1 = filter_mset (\<lambda>m. tn_expire m \<noteq> tm_time T + 1) (pending T)" by blast
  from Suc.IH [OF T1(2)] Suc.prems(2) obtain dss T2 where T2: "timer_ticks n T1 = Some (dss, T2)"
    "wheel_inv T2" "length dss = n" "tm_time T2 = tm_time T1 + of_nat n"
    "\<And>k. k < n \<Longrightarrow> mset (dss ! k) = filter_mset (\<lambda>m. tn_expire m = tm_time T1 + of_nat (Suc k)) (pending T1)"
    by auto
  have "mset ((ds # dss) ! k) = filter_mset (\<lambda>m. tn_expire m = tm_time T + of_nat (Suc k)) (pending T)"
    if "k < Suc n" for k
  proof (cases k)
    case 0
    with T1(4) show ?thesis by simp
  next
    case (Suc j)
    have "tm_time T + of_nat (Suc 0) \<noteq> tm_time T + of_nat (Suc k)"
      using that Suc Suc.prems(2) by (intro word_add_neq) auto
    then have "(\<lambda>m. tn_expire m = tm_time T + of_nat (Suc k)) =
        (\<lambda>m. tn_expire m \<noteq> tm_time T + 1 \<and> tn_expire m = tm_time T1 + of_nat (Suc j))"
      using T1(3) Suc by (auto simp: add.assoc add.commute)
    then have "filter_mset (\<lambda>m. tn_expire m = tm_time T + of_nat (Suc k)) (pending T) =
        filter_mset (\<lambda>m. tn_expire m \<noteq> tm_time T + 1 \<and> tn_expire m = tm_time T1 + of_nat (Suc j)) (pending T)"
      by (rule arg_cong)
    moreover have "mset (dss ! j) = filter_mset (\<lambda>m. tn_expire m \<noteq> tm_time T + 1 \<and> tn_expire m = tm_time T1 + of_nat (Suc j)) (pending T)"
      using T2(5) [of j] T1(5) that Suc by (simp only: filter_filter_mset)
    ultimately show ?thesis by (simp only: Suc nth_Cons_Suc)
  qed
  with T1 T2 show ?case by (auto simp: add.assoc add.commute)
qed

text \<open>Ticks leave the centisecond counter alone.\<close>

lemma fold_add_node_current: "tm_current (fold add_node ns T) = tm_current T"
  by (induction ns arbitrary: T) (simp_all add: add_node_def link_def)

lemma timer_shift_current: "timer_shift T = Some T' \<Longrightarrow> tm_current T' = tm_current T"
  by (auto simp: timer_shift_def Let_def move_list_def link_clear_def fold_add_node_current c_simps
      split: if_splits option.splits)

lemma timer_execute_current: "timer_execute acc T = Some (ds, T') \<Longrightarrow> tm_current T' = tm_current T"
proof -
  have "timer_execute acc T = Some r \<Longrightarrow> tm_current (snd r) = tm_current T" for r
    by (erule timer_execute.raw_induct [of "\<lambda>_ T r. tm_current (snd r) = tm_current T", rotated])
      (auto simp: Let_def link_clear_def split: if_splits)
  then show "timer_execute acc T = Some (ds, T') \<Longrightarrow> tm_current T' = tm_current T" by fastforce
qed

lemma timer_ticks_current: "timer_ticks n T = Some (dss, T') \<Longrightarrow> tm_current T' = tm_current T"
proof (induction n arbitrary: T dss)
  case 0
  then show ?case by simp
next
  case (Suc n)
  then show ?case
    by (auto simp: timer_update_def c_simps dest!: timer_execute_current timer_shift_current)
qed

text \<open>A delay that a positive C \<^verbatim>\<open>int\<close> can hold is ahead of the clock.\<close>

lemma ahead_add:
  fixes t d :: u32
  assumes "0 < unat d" "unat d < 2 ^ 31"
  shows "ahead (unat t) (unat (d + t))"
proof (cases "unat d + unat t < 2 ^ 32")
  case True
  then have "unat (d + t) = unat d + unat t" by (simp add: unat_word_ariths)
  with assms show ?thesis by (simp add: ahead_def)
next
  case False
  then have "unat (d + t) = unat d + unat t - 2 ^ 32"
    using unat_u32_less [of t] assms by (simp add: unat_word_ariths mod_if)
  then have "unat (d + t) + 2 ^ 26 * 32 \<le> unat t"
    using False assms by simp
  then have "unat (d + t) div 2 ^ 26 + 32 \<le> unat t div 2 ^ 26"
    using div_le_mono [of "unat (d + t) + 2 ^ 26 * 32" "unat t" "2 ^ 26"] by simp
  then show ?thesis by (simp add: ahead_def lvl_def)
qed

lemma unat_word_of_int_delay:
  assumes "0 < d" "d < 2 ^ 31"
  shows "unat (word_of_int d :: u32) = nat d"
  using assms by (simp add: unsigned_of_int take_bit_int_eq_self)

lemma timer_add_ok:
  assumes "wheel_inv T" "0 < d" "d < 2 ^ 31"
  shows "wheel_inv (timer_add ev d T) \<and> tm_time (timer_add ev d T) = tm_time T \<and>
    pending (timer_add ev d T) =
      add_mset \<lparr>tn_expire = tm_time T + of_nat (nat d), tn_event = ev\<rparr> (pending T)"
proof -
  have w: "(word_of_int d :: u32) = of_nat (nat d)" using assms(2) by simp
  have "ahead (unat (tm_time T)) (unat (word_of_int d + tm_time T))"
    using assms unat_word_of_int_delay [of d] by (intro ahead_add) simp_all
  then show ?thesis
    using assms(1) wheel_ok_add_node [of ahead T "\<lparr>tn_expire = word_of_int d + tm_time T, tn_event = ev\<rparr>"] w
    by (simp add: timer_add_def wheel_inv_def add.commute)
qed

lemma wheel_inv_create [simp]: "wheel_inv timer_create_timer" "pending timer_create_timer = {#}"
  by (simp_all add: wheel_inv_def wheel_ok_def timer_create_timer_def pending_def)

text \<open>What a new timeout changes in the coming ticks.\<close>

lemma timer_add_ticks:
  assumes "wheel_inv T" "0 < d" "d < 2 ^ 31" "n < 2 ^ 32"
  shows "\<exists>dss dss' T1 T2. timer_ticks n T = Some (dss, T1) \<and> timer_ticks n (timer_add ev d T) = Some (dss', T2) \<and>
     length dss = n \<and> length dss' = n \<and>
     (\<forall>k. k < n \<longrightarrow> mset (dss' ! k) = (if k + 1 = nat d
        then add_mset \<lparr>tn_expire = tm_time T + of_nat (nat d), tn_event = ev\<rparr> (mset (dss ! k))
        else mset (dss ! k)))"
proof -
  note add = timer_add_ok [OF assms(1-3), of ev]
  from timer_ticks_ok [OF assms(1,4)] obtain dss T1 where 1: "timer_ticks n T = Some (dss, T1)" "length dss = n"
    "\<And>k. k < n \<Longrightarrow> mset (dss ! k) = filter_mset (\<lambda>m. tn_expire m = tm_time T + of_nat (Suc k)) (pending T)"
    by blast
  from timer_ticks_ok [of "timer_add ev d T" n] add assms(4) obtain dss' T2
    where 2: "timer_ticks n (timer_add ev d T) = Some (dss', T2)" "length dss' = n"
      "\<And>k. k < n \<Longrightarrow> mset (dss' ! k) = filter_mset (\<lambda>m. tn_expire m = tm_time T + of_nat (Suc k))
         (pending (timer_add ev d T))" by auto
  have "nat d < 2 ^ 32" using assms(3) by simp
  then have "tm_time T + of_nat (nat d) = tm_time T + of_nat (Suc k) \<longleftrightarrow> k + 1 = nat d" if "k < n" for k
    using word_add_neq [of "nat d" "Suc k" "tm_time T"] word_add_neq [of "Suc k" "nat d" "tm_time T"] that assms(3,4)
    by (cases "nat d" "Suc k" rule: linorder_cases) (auto simp del: of_nat_Suc)
  then have "mset (dss' ! k) = (if k + 1 = nat d
      then add_mset \<lparr>tn_expire = tm_time T + of_nat (nat d), tn_event = ev\<rparr> (mset (dss ! k))
      else mset (dss ! k))" if "k < n" for k
    using 1(3) [OF that] 2(3) [OF that] add that by (simp del: of_nat_Suc)
  with 1 2 show ?thesis by blast
qed

subsection \<open>Properties\<close>

text \<open>Property C3: a timeout fires on its tick. Adding a timeout of \<open>d\<close> ticks changes what the wheel
  dispatches in the coming ticks in one respect: tick number \<open>d\<close> dispatches the new node too. This
  holds whatever else is pending, through every redistribution of the coarser levels and also
  when the 32-bit clock wraps around meanwhile.\<close>

theorem timeout_fires_on_its_tick:
  assumes "wheel_inv T" "0 < d" "d < 2 ^ 31" "n < 2 ^ 32"
  shows "\<exists>dss dss' T1 T2. timer_ticks n T = Some (dss, T1) \<and> timer_ticks n (timer_add ev d T) = Some (dss', T2) \<and>
     length dss = n \<and> length dss' = n \<and>
     (\<forall>k. k < n \<longrightarrow> mset (dss' ! k) = (if k + 1 = nat d
        then add_mset \<lparr>tn_expire = tm_time T + of_nat (nat d), tn_event = ev\<rparr> (mset (dss ! k))
        else mset (dss ! k)))"
  using assms by (rule timer_add_ticks)

theorem timeout_fires_on_its_tick_witness:
  "\<exists>dss dss' T1 T2. timer_ticks 3 (timer_create_timer\<lparr>tm_time := - 1\<rparr>) = Some (dss, T1) \<and>
     timer_ticks 3 (timer_add \<lparr>te_handle = 7, te_session = 1\<rparr> 2 (timer_create_timer\<lparr>tm_time := - 1\<rparr>)) = Some (dss', T2) \<and>
     mset (dss' ! 1) = add_mset \<lparr>tn_expire = 1, tn_event = \<lparr>te_handle = 7, te_session = 1\<rparr>\<rparr> (mset (dss ! 1))"
proof -
  have "wheel_inv (timer_create_timer\<lparr>tm_time := - 1\<rparr>)"
    by (simp add: wheel_inv_def wheel_ok_def timer_create_timer_def pending_def)
  from timeout_fires_on_its_tick [OF this, of 2 3 "\<lparr>te_handle = 7, te_session = 1\<rparr>"]
  show ?thesis by force
qed

text \<open>Property: \<^verbatim>\<open>skynet_updatetime\<close> catches up. When the monotonic clock has moved by less than
  \<open>2\<^sup>3\<^sup>2\<close> ticks, the wheel makes exactly that many ticks, the centisecond counter and the wheel
  clock advance by the elapsed time, and every pending node that came due in between is
  dispatched in its tick; when the clock went backwards nothing is dispatched and only the
  reference point is set.\<close>

theorem updatetime_catches_up:
  assumes "wheel_inv T" "tm_current_point T \<le> cp" "unat (cp - tm_current_point T) < 2 ^ 32"
  shows "\<exists>dss T'. skynet_updatetime cp T = Some (dss, T') \<and> wheel_inv T' \<and>
     length dss = unat (cp - tm_current_point T) \<and>
     tm_time T' = tm_time T + of_nat (unat (cp - tm_current_point T)) \<and>
     skynet_now T' = skynet_now T + (cp - tm_current_point T) \<and>
     (\<forall>k. k < length dss \<longrightarrow>
        mset (dss ! k) = filter_mset (\<lambda>m. tn_expire m = tm_time T + of_nat (Suc k)) (pending T))"
proof (cases "cp = tm_current_point T")
  case True
  with assms(1) show ?thesis by (simp add: skynet_updatetime_def)
next
  case False
  let ?n = "unat (cp - tm_current_point T)"
  let ?T = "T\<lparr>tm_current_point := cp, tm_current := tm_current T + of_nat ?n\<rparr>"
  have n: "unat (ucast (cp - tm_current_point T) :: u32) = ?n"
    using assms(3) by (simp add: unsigned_ucast_eq take_bit_nat_eq_self)
  then have c: "(ucast (ucast (cp - tm_current_point T) :: u32) :: u64) = of_nat ?n"
    by (metis of_nat_unat)
  have upd: "skynet_updatetime cp T = timer_ticks ?n ?T"
    using False leD [OF assms(2)] n c by (simp add: skynet_updatetime_def Let_def)
  have "wheel_inv ?T" "pending ?T = pending T" using assms(1)
    by (simp_all add: wheel_inv_def wheel_ok_def pending_def)
  with timer_ticks_ok [of ?T ?n] assms(3) obtain dss T' where "timer_ticks ?n ?T = Some (dss, T')"
    "wheel_inv T'" "length dss = ?n" "tm_time T' = tm_time T + of_nat ?n"
    "\<forall>k<?n. mset (dss ! k) = filter_mset (\<lambda>m. tn_expire m = tm_time T + of_nat (Suc k)) (pending T)" by auto
  moreover from timer_ticks_current [OF this(1)] have "skynet_now T' = skynet_now T + (cp - tm_current_point T)"
    by (simp add: skynet_now_def)
  ultimately show ?thesis using upd by auto
qed

theorem updatetime_catches_up_witness:
  "\<exists>dss T'. skynet_updatetime 502 (timer_create_timer\<lparr>tm_current_point := 500\<rparr>) = Some (dss, T') \<and>
     length dss = 2 \<and> tm_time T' = 2"
proof -
  let ?T = "timer_create_timer\<lparr>tm_current_point := 500\<rparr>"
  have "wheel_inv ?T"
    by (simp add: wheel_inv_def wheel_ok_def timer_create_timer_def pending_def)
  from updatetime_catches_up [OF this, of 502] show ?thesis
    by (auto simp: timer_create_timer_def)
qed

end
