(* ===== verification/C_Text.thy ===== *)
theory C_Text
  imports Skynet_Prelude
begin

text \<open>
  The functions of the C library on texts that the modelled code uses: printing numbers with
  \<^verbatim>\<open>sprintf\<close>, reading them with \<^verbatim>\<open>strtoul\<close> and \<^verbatim>\<open>strtol\<close>, and splitting a text with \<^verbatim>\<open>strsep\<close> and
  \<^verbatim>\<open>sscanf\<close>. A text is a list of characters without the terminating zero.
\<close>

subsection \<open>Printing numbers\<close>

definition string_bytes :: "string \<Rightarrow> u8 list" where
  "string_bytes s = map of_char s"

definition hex_digit :: "nat \<Rightarrow> char" where
  "hex_digit n = ''0123456789abcdef'' ! n"

fun hex_string :: "nat \<Rightarrow> string" where
  "hex_string n = (if n < 16 then [hex_digit n] else hex_string (n div 16) @ [hex_digit (n mod 16)])"

declare hex_string.simps [simp del]

definition upper_hex :: "nat \<Rightarrow> char" where
  "upper_hex n = ''0123456789ABCDEF'' ! n"

definition hex8 :: "nat \<Rightarrow> string" where
  "hex8 n = (let s = hex_string n in replicate (8 - length s) CHR ''0'' @ s)"

fun dec_nat :: "nat \<Rightarrow> string" where
  "dec_nat n = (if n < 10 then [hex_digit n] else dec_nat (n div 10) @ [hex_digit (n mod 10)])"

declare dec_nat.simps [simp del]

definition dec_string :: "int \<Rightarrow> string" where
  "dec_string i = (if i < 0 then ''-'' @ dec_nat (nat (- i)) else dec_nat (nat i))"

subsection \<open>Reading numbers\<close>

text \<open>\<^verbatim>\<open>strtoul\<close> and \<^verbatim>\<open>strtol\<close>: leading white space, a sign, the prefix of the base, then digits up to the
  first character that is none. The result saturates at the bounds of a 64-bit \<^verbatim>\<open>long\<close>.\<close>

definition c_isspace :: "char \<Rightarrow> bool" where
  "c_isspace c \<longleftrightarrow> c = CHR '' '' \<or> (9 \<le> (of_char c :: nat) \<and> (of_char c :: nat) \<le> 13)"

definition digit_value :: "char \<Rightarrow> nat" where
  "digit_value c = (let n = of_char c in
     if 48 \<le> n \<and> n \<le> 57 then n - 48
     else if 97 \<le> n \<and> n \<le> 122 then n - 87
     else if 65 \<le> n \<and> n \<le> 90 then n - 55
     else 36)"

fun read_digits :: "nat \<Rightarrow> nat \<Rightarrow> string \<Rightarrow> nat" where
  "read_digits base acc [] = acc"
| "read_digits base acc (c # cs) =
     (if digit_value c < base then read_digits base (acc * base + digit_value c) cs else acc)"

definition has_hex_prefix :: "string \<Rightarrow> bool" where
  "has_hex_prefix s \<longleftrightarrow> (case s of c0 # c1 # c2 # _ \<Rightarrow>
     c0 = CHR ''0'' \<and> (c1 = CHR ''x'' \<or> c1 = CHR ''X'') \<and> digit_value c2 < 16 | _ \<Rightarrow> False)"

definition read_magnitude :: "nat \<Rightarrow> string \<Rightarrow> nat" where
  "read_magnitude base s =
     (if (base = 16 \<or> base = 0) \<and> has_hex_prefix s then read_digits 16 0 (drop 2 s)
      else if base = 0 then read_digits (if take 1 s = ''0'' then 8 else 10) 0 s
      else read_digits base 0 s)"

definition read_sign :: "string \<Rightarrow> bool \<times> string" where
  "read_sign s = (case s of
     c # cs \<Rightarrow> if c = CHR ''-'' then (True, cs) else if c = CHR ''+'' then (False, cs) else (False, s)
   | [] \<Rightarrow> (False, []))"

text \<open>\<^verbatim>\<open>strtoul(s, NULL, 16)\<close> stored in a \<^verbatim>\<open>uint32_t\<close>.\<close>

definition strtoul16 :: "string \<Rightarrow> u32" where
  "strtoul16 s = (
     let (neg, t) = read_sign (dropWhile c_isspace s); n = read_magnitude 16 t in
     if n \<ge> 2 ^ 64 then - 1 else if neg then - of_nat n else of_nat n)"

text \<open>\<^verbatim>\<open>strtol(s, NULL, base)\<close> stored in an \<^verbatim>\<open>int\<close>.\<close>

definition strtol_int :: "nat \<Rightarrow> string \<Rightarrow> int" where
  "strtol_int base s = (
     let (neg, t) = read_sign (dropWhile c_isspace s); n = int (read_magnitude base t);
         v = (if neg then max (- (2 ^ 63)) (- n) else min (2 ^ 63 - 1) n) in
     signed_take_bit 31 v)"

subsection \<open>Words of a text\<close>

text \<open>The conversion \<^verbatim>\<open>%s\<close> of \<^verbatim>\<open>sscanf\<close>: white space is skipped, then a word is read; without a word the
  buffer stays as it was.\<close>

definition scan_word :: "string \<Rightarrow> string option \<times> string" where
  "scan_word s = (let t = dropWhile c_isspace s; w = takeWhile (\<lambda>c. \<not> c_isspace c) t in
     (if w = [] then (None, t) else (Some w, drop (length w) t)))"

text \<open>\<^verbatim>\<open>strsep\<close>: the text up to the first delimiter, and the rest if there was one.\<close>

definition strsep :: "char list \<Rightarrow> string option \<Rightarrow> string option \<times> string option" where
  "strsep delim s = (case s of
     None \<Rightarrow> (None, None)
   | Some t \<Rightarrow> let w = takeWhile (\<lambda>c. c \<notin> set delim) t in
       (Some w, if length w < length t then Some (drop (length w + 1) t) else None))"

subsection \<open>Reading back what was printed\<close>

definition digits16 :: "string \<Rightarrow> bool" where
  "digits16 s \<longleftrightarrow> list_all (\<lambda>c. digit_value c < 16) s"

lemma read_digits_append:
  "list_all (\<lambda>c. digit_value c < b) xs \<Longrightarrow> read_digits b acc (xs @ ys) = read_digits b (read_digits b acc xs) ys"
  by (induction xs arbitrary: acc) auto

lemma digit_value_space: "c_isspace c \<Longrightarrow> digit_value c = 36"
  by (auto simp: c_isspace_def digit_value_def Let_def)

lemma digits16_head:
  assumes "digits16 (c # s)"
  shows "\<not> c_isspace c" "c \<noteq> CHR ''-''" "c \<noteq> CHR ''+''" "c \<noteq> CHR ''x''" "c \<noteq> CHR ''X''"
  using assms digit_value_space [of c] by (auto simp: digits16_def digit_value_def)

lemma digits16_no_prefix: "digits16 s \<Longrightarrow> \<not> has_hex_prefix s"
  by (auto simp: has_hex_prefix_def digits16_def digit_value_def split: list.splits)

lemma strtoul16_digits:
  assumes "digits16 s" "s \<noteq> []" "read_digits 16 0 s < 2 ^ 64"
  shows "strtoul16 s = of_nat (read_digits 16 0 s)"
proof -
  obtain c t where s: "s = c # t" using assms(2) by (cases s) auto
  have "dropWhile c_isspace s = s" "read_sign s = (False, s)"
    using digits16_head [of c t] assms(1) s by (simp_all add: read_sign_def)
  then show ?thesis
    using assms digits16_no_prefix [OF assms(1)] by (simp add: strtoul16_def read_magnitude_def)
qed

lemma digit_value_digit:
  assumes "n < 16"
  shows "digit_value (hex_digit n) = n" "digit_value (upper_hex n) = n"
proof -
  from assms have "n \<in> set [0..<16]" by simp
  moreover have "[0..<16] = [0, 1, 2, 3, 4, 5, 6, 7, 8, 9, 10, 11, 12, 13, 14, 15 :: nat]" by (simp add: upt_rec)
  ultimately have "n \<in> {0, 1, 2, 3, 4, 5, 6, 7, 8, 9, 10, 11, 12, 13, 14, 15}" by simp
  then show "digit_value (hex_digit n) = n" "digit_value (upper_hex n) = n"
    by (auto simp: digit_value_def hex_digit_def upper_hex_def)
qed

lemma hex_string_digits: "digits16 (hex_string n) \<and> hex_string n \<noteq> [] \<and> read_digits 16 0 (hex_string n) = n"
proof (induction n rule: less_induct)
  case (less n)
  show ?case
  proof (cases "n < 16")
    case True
    then show ?thesis
      by (subst (1 2 3) hex_string.simps) (simp add: digits16_def digit_value_digit)
  next
    case False
    then have IH: "digits16 (hex_string (n div 16))" "read_digits 16 0 (hex_string (n div 16)) = n div 16"
      using less [of "n div 16"] by simp_all
    from False show ?thesis
      using IH read_digits_append [of 16 "hex_string (n div 16)" 0 "[hex_digit (n mod 16)]"]
      by (subst (1 2 3) hex_string.simps) (simp add: digits16_def digit_value_digit)
  qed
qed

lemma strtoul16_hex_string:
  "n < 2 ^ 32 \<Longrightarrow> strtoul16 (hex_string n) = of_nat n"
  using strtoul16_digits [of "hex_string n"] hex_string_digits [of n] by simp

end
