(* ===== verification/Service_Node.thy ===== *)
theory Service_Node
  imports Scheduler Handle_Storage Timer_Wheel C_Text
begin

text \<open>
  \<^verbatim>\<open>skynet-src/skynet_server.c\<close> with \<^verbatim>\<open>skynet_error.c\<close>, \<^verbatim>\<open>skynet_harbor.c\<close>, \<^verbatim>\<open>skynet_monitor.c\<close> and the
  parts of \<^verbatim>\<open>skynet_handle.c\<close> and \<^verbatim>\<open>skynet_timer.c\<close> that call into it: service contexts with
  their reference counts, sending, dispatching and dropping messages.

  One record holds the state of a node: the contexts by address, the table of handles, the
  store of message queues, the heap blocks that \<^verbatim>\<open>skynet_malloc\<close> returned, the timer and the static
  variables. Every function returns \<open>None\<close> for a failed assertion, a use of a freed context or
  block, or a double free. The code of a service (a module loaded at run time, its callback)
  and the clocks are not part of the repository's core: they are the fields of a parameter, the
  record \<open>service_code\<close>.
\<close>

subsection \<open>Constants of skynet.h and skynet\_mq.h\<close>

definition PTYPE_TEXT :: u32 where "PTYPE_TEXT = 0"
definition PTYPE_RESPONSE :: u32 where "PTYPE_RESPONSE = 1"
definition PTYPE_CLIENT :: u32 where "PTYPE_CLIENT = 3"
definition PTYPE_SYSTEM :: u32 where "PTYPE_SYSTEM = 4"
definition PTYPE_HARBOR :: u32 where "PTYPE_HARBOR = 5"
definition PTYPE_ERROR :: u32 where "PTYPE_ERROR = 7"
definition PTYPE_TAG_DONTCOPY :: u32 where "PTYPE_TAG_DONTCOPY = 0x10000"
definition PTYPE_TAG_ALLOCSESSION :: u32 where "PTYPE_TAG_ALLOCSESSION = 0x20000"

text \<open>\<^verbatim>\<open>size_t\<close> has 64 bits: the type of a message is in the high 8 bits of its size.\<close>

definition MESSAGE_TYPE_SHIFT :: nat where "MESSAGE_TYPE_SHIFT = 56"
definition MESSAGE_TYPE_MASK :: u64 where "MESSAGE_TYPE_MASK = drop_bit 8 (- 1)"
definition GLOBALNAME_LENGTH :: nat where "GLOBALNAME_LENGTH = 16"
definition LOG_MESSAGE_SIZE :: nat where "LOG_MESSAGE_SIZE = 256"

subsection \<open>Data\<close>

type_synonym addr = nat

record skynet_message =
  sm_source :: u32
  sm_session :: int
  sm_data :: "addr option"
  sm_sz :: u64

record remote_message =
  rm_name :: "u8 list"
  rm_handle :: u32
  rm_message :: "addr option"
  rm_sz :: u64
  rm_type :: u32

text \<open>\<^verbatim>\<open>sizeof(struct remote_message)\<close>: 16 bytes of name, the handle, padding, a pointer, a \<^verbatim>\<open>size_t\<close>,
  an \<^verbatim>\<open>int\<close> and padding.\<close>

definition sizeof_remote_message :: u64 where "sizeof_remote_message = 48"

datatype block = Bytes "u8 list" | Remote remote_message

record skynet_context =
  ctx_mod :: string
  ctx_cb :: "nat option"
  ctx_queue :: qid
  ctx_logfile :: "nat option"
  ctx_cpu_cost :: u64
  ctx_cpu_start :: u64
  ctx_result :: string
  ctx_handle :: u32
  ctx_session_id :: u32
  ctx_ref :: int
  ctx_message_count :: int
  ctx_init :: bool
  ctx_endless :: bool
  ctx_profile :: bool

record skynet_node =
  nd_total :: int
  nd_monitor_exit :: u32
  nd_profile :: bool
  nd_ctxs :: "cid \<Rightarrow> skynet_context option"
  nd_next_ctx :: cid
  nd_handles :: handle_storage
  nd_store :: "skynet_message mq_store"
  nd_heap :: "addr \<Rightarrow> block option"
  nd_next_addr :: addr
  nd_timer :: timer
  nd_logger :: u32
  nd_REMOTE :: "cid option"
  nd_HARBOR :: u32
  nd_env :: "string \<Rightarrow> string option"

text \<open>What the node calls but does not contain: the modules found on the path and their entry
  points, the callbacks of the services, closing a log file, writing to it, and the thread clock.
  A callback and an entry point may call the node again, so each of them transforms it.\<close>

record service_code =
  mod_query :: "string \<Rightarrow> bool"
  mod_create :: "string \<Rightarrow> bool"
  mod_init :: "cid \<Rightarrow> string option \<Rightarrow> skynet_node \<Rightarrow> (int \<times> skynet_node) option"
  mod_release :: "string \<Rightarrow> skynet_node \<Rightarrow> skynet_node option"
  mod_signal :: "string \<Rightarrow> int \<Rightarrow> skynet_node \<Rightarrow> skynet_node option"
  svc_cb :: "nat \<Rightarrow> cid \<Rightarrow> u32 \<Rightarrow> int \<Rightarrow> u32 \<Rightarrow> addr option \<Rightarrow> u64 \<Rightarrow> skynet_node \<Rightarrow> (int \<times> skynet_node) option"
  thread_time :: "skynet_node \<Rightarrow> u64"
  format_lf :: "u64 \<Rightarrow> string"

subsection \<open>Memory\<close>

definition skynet_malloc :: "block \<Rightarrow> skynet_node \<Rightarrow> addr \<times> skynet_node" where
  "skynet_malloc b nd = (nd_next_addr nd,
     nd\<lparr>nd_heap := (nd_heap nd)(nd_next_addr nd \<mapsto> b), nd_next_addr := Suc (nd_next_addr nd)\<rparr>)"

definition skynet_free :: "addr option \<Rightarrow> skynet_node \<Rightarrow> skynet_node option" where
  "skynet_free p nd = (case p of
     None \<Rightarrow> Some nd
   | Some a \<Rightarrow> if nd_heap nd a = None then None else Some (nd\<lparr>nd_heap := (nd_heap nd)(a := None)\<rparr>))"

text \<open>\<^verbatim>\<open>memcpy\<close> of \<open>sz\<close> bytes from a block, followed by a zero byte.\<close>

definition copy_block :: "addr \<Rightarrow> u64 \<Rightarrow> skynet_node \<Rightarrow> (u8 list) option" where
  "copy_block a sz nd = (case nd_heap nd a of
     Some (Bytes bs) \<Rightarrow> if unat sz \<le> length bs then Some (take (unat sz) bs @ [0]) else None
   | _ \<Rightarrow> None)"

subsection \<open>The node and its contexts\<close>

definition hof :: "skynet_node \<Rightarrow> cid \<Rightarrow> u32" where
  "hof nd c = (case nd_ctxs nd c of Some x \<Rightarrow> ctx_handle x | None \<Rightarrow> 0)"

definition put_ctx :: "cid \<Rightarrow> skynet_context \<Rightarrow> skynet_node \<Rightarrow> skynet_node" where
  "put_ctx c x nd = nd\<lparr>nd_ctxs := (nd_ctxs nd)(c \<mapsto> x)\<rparr>"

definition skynet_context_total :: "skynet_node \<Rightarrow> int" where
  "skynet_context_total nd = nd_total nd"

definition context_inc :: "skynet_node \<Rightarrow> skynet_node" where
  "context_inc nd = nd\<lparr>nd_total := nd_total nd + 1\<rparr>"

definition context_dec :: "skynet_node \<Rightarrow> skynet_node" where
  "context_dec nd = nd\<lparr>nd_total := nd_total nd - 1\<rparr>"

definition skynet_context_handle :: "cid \<Rightarrow> skynet_node \<Rightarrow> u32 option" where
  "skynet_context_handle c nd = map_option ctx_handle (nd_ctxs nd c)"

definition skynet_callback :: "cid \<Rightarrow> nat option \<Rightarrow> skynet_node \<Rightarrow> skynet_node option" where
  "skynet_callback c cb nd = do { x \<leftarrow> nd_ctxs nd c; Some (put_ctx c (x\<lparr>ctx_cb := cb\<rparr>) nd) }"

text \<open>The session counter is a C \<^verbatim>\<open>int\<close> that wraps around.\<close>

definition skynet_context_newsession :: "cid \<Rightarrow> skynet_node \<Rightarrow> (int \<times> skynet_node) option" where
  "skynet_context_newsession c nd = do {
     x \<leftarrow> nd_ctxs nd c;
     let session = ctx_session_id x + 1 in
     if sint session \<le> 0 then Some (1, put_ctx c (x\<lparr>ctx_session_id := 1\<rparr>) nd)
     else Some (sint session, put_ctx c (x\<lparr>ctx_session_id := session\<rparr>) nd) }"

definition skynet_context_grab :: "cid \<Rightarrow> skynet_node \<Rightarrow> skynet_node option" where
  "skynet_context_grab c nd = do {
     x \<leftarrow> nd_ctxs nd c;
     Some (put_ctx c (x\<lparr>ctx_ref := ctx_ref x + 1\<rparr>) nd) }"

definition skynet_context_reserve :: "cid \<Rightarrow> skynet_node \<Rightarrow> skynet_node option" where
  "skynet_context_reserve c nd = do {
     nd \<leftarrow> skynet_context_grab c nd;
     Some (context_dec nd) }"

text \<open>Closing the log file has no effect on the node. The context is freed at the end.\<close>

definition delete_context :: "service_code \<Rightarrow> cid \<Rightarrow> skynet_node \<Rightarrow> skynet_node option" where
  "delete_context code c nd = do {
     x \<leftarrow> nd_ctxs nd c;
     nd \<leftarrow> mod_release code (ctx_mod x) nd;
     x \<leftarrow> nd_ctxs nd c;
     st \<leftarrow> skynet_mq_mark_release (ctx_queue x) (nd_store nd);
     Some (context_dec (nd\<lparr>nd_store := st, nd_ctxs := (nd_ctxs nd)(c := None)\<rparr>)) }"

definition skynet_context_release :: "service_code \<Rightarrow> cid \<Rightarrow> skynet_node \<Rightarrow> (cid option \<times> skynet_node) option" where
  "skynet_context_release code c nd = do {
     x \<leftarrow> nd_ctxs nd c;
     let nd = put_ctx c (x\<lparr>ctx_ref := ctx_ref x - 1\<rparr>) nd in
     if ctx_ref x = 1 then do {
       nd \<leftarrow> delete_context code c nd;
       Some (None, nd) }
     else Some (Some c, nd) }"

definition skynet_handle_grab :: "u32 \<Rightarrow> skynet_node \<Rightarrow> (cid option \<times> skynet_node) option" where
  "skynet_handle_grab handle nd = (case handle_lookup (hof nd) handle (nd_handles nd) of
     None \<Rightarrow> Some (None, nd)
   | Some c \<Rightarrow> do { nd \<leftarrow> skynet_context_grab c nd; Some (Some c, nd) })"

text \<open>\<^verbatim>\<open>skynet_handle_retire\<close>: the table drops the handle, then the reference the table held is released.\<close>

definition handle_retire :: "service_code \<Rightarrow> u32 \<Rightarrow> skynet_node \<Rightarrow> (int \<times> skynet_node) option" where
  "handle_retire code handle nd = do {
     (r, hs) \<leftarrow> skynet_handle_retire (hof nd) handle (nd_handles nd);
     (case r of
        Some c \<Rightarrow> do {
          (_, nd) \<leftarrow> skynet_context_release code c (nd\<lparr>nd_handles := hs\<rparr>);
          Some (1, nd) }
      | None \<Rightarrow> Some (0, nd\<lparr>nd_handles := hs\<rparr>)) }"

definition mq_push :: "qid \<Rightarrow> skynet_message \<Rightarrow> skynet_node \<Rightarrow> skynet_node option" where
  "mq_push q m nd = do {
     st \<leftarrow> skynet_mq_push q m (nd_store nd);
     Some (nd\<lparr>nd_store := st\<rparr>) }"

definition skynet_context_push :: "service_code \<Rightarrow> u32 \<Rightarrow> skynet_message \<Rightarrow> skynet_node \<Rightarrow> (int \<times> skynet_node) option" where
  "skynet_context_push code handle message nd = do {
     (r, nd) \<leftarrow> skynet_handle_grab handle nd;
     (case r of
        None \<Rightarrow> Some (- 1, nd)
      | Some c \<Rightarrow> do {
          x \<leftarrow> nd_ctxs nd c;
          nd \<leftarrow> mq_push (ctx_queue x) message nd;
          (_, nd) \<leftarrow> skynet_context_release code c nd;
          Some (0, nd) }) }"

definition skynet_context_endless :: "service_code \<Rightarrow> u32 \<Rightarrow> skynet_node \<Rightarrow> skynet_node option" where
  "skynet_context_endless code handle nd = do {
     (r, nd) \<leftarrow> skynet_handle_grab handle nd;
     (case r of
        None \<Rightarrow> Some nd
      | Some c \<Rightarrow> do {
          x \<leftarrow> nd_ctxs nd c;
          (_, nd) \<leftarrow> skynet_context_release code c (put_ctx c (x\<lparr>ctx_endless := True\<rparr>) nd);
          Some nd }) }"

text \<open>The type of a message goes into the high bits of its size.\<close>

definition type_sz :: "u32 \<Rightarrow> u64 \<Rightarrow> u64" where
  "type_sz type sz = sz OR push_bit MESSAGE_TYPE_SHIFT (ucast type)"

definition skynet_context_send :: "cid \<Rightarrow> addr option \<Rightarrow> u64 \<Rightarrow> u32 \<Rightarrow> u32 \<Rightarrow> int \<Rightarrow> skynet_node \<Rightarrow> skynet_node option" where
  "skynet_context_send c msg sz source type session nd = do {
     x \<leftarrow> nd_ctxs nd c;
     mq_push (ctx_queue x) \<lparr>sm_source = source, sm_session = session, sm_data = msg, sm_sz = type_sz type sz\<rparr> nd }"

subsection \<open>The error log\<close>

text \<open>The size of the buffer for a text that does not fit into \<^verbatim>\<open>LOG_MESSAGE_SIZE\<close>: doubled until it fits.
  The buffers that were too small are freed at once.\<close>

partial_function (option) error_size :: "nat \<Rightarrow> nat \<Rightarrow> nat option" where
  "error_size len max_size = (if len < max_size * 2 then Some (max_size * 2) else error_size len (max_size * 2))"

definition error_data :: "string \<Rightarrow> (u8 list) option" where
  "error_data text =
     (if length text < LOG_MESSAGE_SIZE then Some (string_bytes text @ [0])
      else do {
        n \<leftarrow> error_size (length text) LOG_MESSAGE_SIZE;
        Some (string_bytes text @ replicate (n - length text) 0) })"

text \<open>\<^verbatim>\<open>skynet_error\<close> with the text that \<^verbatim>\<open>vsnprintf\<close> formats; the \<^verbatim>\<open>static\<close> handle of the logger is a
  field of the node.\<close>

definition skynet_error :: "service_code \<Rightarrow> cid option \<Rightarrow> string \<Rightarrow> skynet_node \<Rightarrow> skynet_node option" where
  "skynet_error code context text nd = do {
     logger \<leftarrow> (if nd_logger nd = 0 then skynet_handle_findname ''logger'' (nd_handles nd) else Some (nd_logger nd));
     let nd = nd\<lparr>nd_logger := logger\<rparr> in
     if logger = 0 then Some nd
     else do {
       bs \<leftarrow> error_data text;
       let (data, nd) = skynet_malloc (Bytes bs) nd in do {
       source \<leftarrow> (case context of None \<Rightarrow> Some 0 | Some c \<Rightarrow> skynet_context_handle c nd);
       (_, nd) \<leftarrow> skynet_context_push code logger
          \<lparr>sm_source = source, sm_session = 0, sm_data = Some data,
           sm_sz = type_sz PTYPE_TEXT (of_nat (length text))\<rparr> nd;
       Some nd } } }"

subsection \<open>Other nodes\<close>

definition invalid_type :: "u32 \<Rightarrow> bool" where
  "invalid_type type \<longleftrightarrow> type \<noteq> PTYPE_SYSTEM \<and> type \<noteq> PTYPE_HARBOR"

definition skynet_harbor_send :: "remote_message \<Rightarrow> addr \<Rightarrow> u32 \<Rightarrow> int \<Rightarrow> skynet_node \<Rightarrow> skynet_node option" where
  "skynet_harbor_send rmsg a source session nd = do {
     c_assert (invalid_type (rm_type rmsg));
     c \<leftarrow> nd_REMOTE nd;
     skynet_context_send c (Some a) sizeof_remote_message source PTYPE_SYSTEM session nd }"

definition skynet_harbor_message_isremote :: "u32 \<Rightarrow> skynet_node \<Rightarrow> bool option" where
  "skynet_harbor_message_isremote handle nd = do {
     c_assert (nd_HARBOR nd \<noteq> - 1);
     let h = handle AND NOT HANDLE_MASK in
     Some (h \<noteq> nd_HARBOR nd \<and> h \<noteq> 0) }"

definition skynet_harbor_init :: "u32 \<Rightarrow> skynet_node \<Rightarrow> skynet_node" where
  "skynet_harbor_init harbor nd = nd\<lparr>nd_HARBOR := push_bit HANDLE_REMOTE_SHIFT harbor\<rparr>"

definition skynet_harbor_start :: "cid \<Rightarrow> skynet_node \<Rightarrow> skynet_node option" where
  "skynet_harbor_start c nd = do {
     nd \<leftarrow> skynet_context_reserve c nd;
     Some (nd\<lparr>nd_REMOTE := Some c\<rparr>) }"

definition skynet_harbor_exit :: "service_code \<Rightarrow> skynet_node \<Rightarrow> skynet_node option" where
  "skynet_harbor_exit code nd = (case nd_REMOTE nd of
     None \<Rightarrow> Some (nd\<lparr>nd_REMOTE := None\<rparr>)
   | Some c \<Rightarrow> do {
       (_, nd) \<leftarrow> skynet_context_release code c (nd\<lparr>nd_REMOTE := None\<rparr>);
       Some nd })"

definition skynet_isremote :: "u32 \<Rightarrow> skynet_node \<Rightarrow> (bool \<times> u32) option" where
  "skynet_isremote handle nd = do {
     ret \<leftarrow> skynet_harbor_message_isremote handle nd;
     Some (ret, drop_bit HANDLE_REMOTE_SHIFT handle) }"

subsection \<open>Sending\<close>

definition has_tag :: "u32 \<Rightarrow> u32 \<Rightarrow> bool" where
  "has_tag type tag \<longleftrightarrow> type AND tag \<noteq> 0"

text \<open>\<^verbatim>\<open>_filter_args\<close>: the session, the data and the size with the type, in the order of the code.\<close>

definition filter_args :: "cid option \<Rightarrow> u32 \<Rightarrow> int \<Rightarrow> addr option \<Rightarrow> u64 \<Rightarrow> skynet_node
    \<Rightarrow> (int \<times> addr option \<times> u64 \<times> skynet_node) option" where
  "filter_args context type session data sz nd = do {
     (session, nd) \<leftarrow>
       (if has_tag type PTYPE_TAG_ALLOCSESSION then do {
          c_assert (session = 0);
          c \<leftarrow> context;
          skynet_context_newsession c nd }
        else Some (session, nd));
     (data, nd) \<leftarrow>
       (case data of
          Some a \<Rightarrow>
            if \<not> has_tag type PTYPE_TAG_DONTCOPY then do {
              bs \<leftarrow> copy_block a sz nd;
              (let (msg, nd) = skynet_malloc (Bytes bs) nd in Some (Some msg, nd)) }
            else Some (data, nd)
        | None \<Rightarrow> Some (None, nd));
     Some (session, data, type_sz (type AND 0xff) sz, nd) }"

definition sz_len :: "u64 \<Rightarrow> u64" where
  "sz_len sz = sz AND MESSAGE_TYPE_MASK"

definition sz_type :: "u64 \<Rightarrow> u32" where
  "sz_type sz = ucast (drop_bit MESSAGE_TYPE_SHIFT sz)"

text \<open>The tail of \<^verbatim>\<open>skynet_send\<close> and \<^verbatim>\<open>skynet_sendname\<close> for another node: the message travels in a
  \<^verbatim>\<open>struct remote_message\<close>.\<close>

definition send_remote :: "u8 list \<Rightarrow> u32 \<Rightarrow> u32 \<Rightarrow> int \<Rightarrow> addr option \<Rightarrow> u64 \<Rightarrow> skynet_node \<Rightarrow> skynet_node option" where
  "send_remote name handle source session data sz nd = (
     let rmsg = \<lparr>rm_name = name, rm_handle = handle, rm_message = data, rm_sz = sz_len sz, rm_type = sz_type sz\<rparr>;
         (a, nd) = skynet_malloc (Remote rmsg) nd in
     skynet_harbor_send rmsg a source session nd)"

text \<open>The handler of \<^verbatim>\<open>sz\<close> out of range, shared by both send functions.\<close>

definition send_too_large :: "service_code \<Rightarrow> cid option \<Rightarrow> string \<Rightarrow> u32 \<Rightarrow> addr option \<Rightarrow> skynet_node \<Rightarrow> (int \<times> skynet_node) option" where
  "send_too_large code context text type data nd = do {
     nd \<leftarrow> skynet_error code context text nd;
     nd \<leftarrow> (if has_tag type PTYPE_TAG_DONTCOPY then skynet_free data nd else Some nd);
     Some (- 2, nd) }"

definition ctx_source :: "cid option \<Rightarrow> u32 \<Rightarrow> skynet_node \<Rightarrow> u32 option" where
  "ctx_source context source nd =
     (if source = 0 then do { c \<leftarrow> context; skynet_context_handle c nd } else Some source)"

text \<open>The local part of \<^verbatim>\<open>skynet_send\<close>: the message is pushed to the destination or its data is freed.\<close>

definition send_local :: "service_code \<Rightarrow> u32 \<Rightarrow> skynet_message \<Rightarrow> skynet_node \<Rightarrow> (int \<times> skynet_node) option" where
  "send_local code destination smsg nd = do {
     (r, nd) \<leftarrow> skynet_context_push code destination smsg nd;
     if r \<noteq> 0 then do {
       nd \<leftarrow> skynet_free (sm_data smsg) nd;
       Some (- 1, nd) }
     else Some (sm_session smsg, nd) }"

definition skynet_send :: "service_code \<Rightarrow> cid option \<Rightarrow> u32 \<Rightarrow> u32 \<Rightarrow> u32 \<Rightarrow> int \<Rightarrow> addr option \<Rightarrow> u64
    \<Rightarrow> skynet_node \<Rightarrow> (int \<times> skynet_node) option" where
  "skynet_send code context source destination type session data sz nd =
     (if sz AND MESSAGE_TYPE_MASK \<noteq> sz
      then send_too_large code context (''The message to '' @ hex_string (unat destination) @ '' is too large'') type data nd
      else do {
        (session, data, sz, nd) \<leftarrow> filter_args context type session data sz nd;
        source \<leftarrow> ctx_source context source nd;
        if destination = 0 then
          (if data \<noteq> None then do {
             nd \<leftarrow> skynet_error code context ''Destination address can't be 0'' nd;
             nd \<leftarrow> skynet_free data nd;
             Some (- 1, nd) }
           else Some (session, nd))
        else do {
          remote \<leftarrow> skynet_harbor_message_isremote destination nd;
          if remote then do {
            nd \<leftarrow> send_remote (replicate GLOBALNAME_LENGTH 0) destination source session data sz nd;
            Some (session, nd) }
          else send_local code destination
                 \<lparr>sm_source = source, sm_session = session, sm_data = data, sm_sz = sz\<rparr> nd } })"

subsection \<open>Sending to a name\<close>

text \<open>\<^verbatim>\<open>copy_name\<close>: at most 16 bytes of the address, padded with zeros.\<close>

definition copy_name :: "string \<Rightarrow> u8 list" where
  "copy_name addr = take GLOBALNAME_LENGTH (string_bytes addr @ replicate GLOBALNAME_LENGTH 0)"

definition skynet_sendname :: "service_code \<Rightarrow> cid option \<Rightarrow> u32 \<Rightarrow> string \<Rightarrow> u32 \<Rightarrow> int \<Rightarrow> addr option \<Rightarrow> u64
    \<Rightarrow> skynet_node \<Rightarrow> (int \<times> skynet_node) option" where
  "skynet_sendname code context source addr type session data sz nd = do {
     source \<leftarrow> ctx_source context source nd;
     if take 1 addr = '':'' then skynet_send code context source (strtoul16 (drop 1 addr)) type session data sz nd
     else if take 1 addr = ''.'' then do {
       des \<leftarrow> skynet_handle_findname (drop 1 addr) (nd_handles nd);
       if des = 0 then do {
         nd \<leftarrow> (if has_tag type PTYPE_TAG_DONTCOPY then skynet_free data nd else Some nd);
         Some (- 1, nd) }
       else skynet_send code context source des type session data sz nd }
     else if sz AND MESSAGE_TYPE_MASK \<noteq> sz
     then send_too_large code context (''The message to '' @ addr @ '' is too large'') type data nd
     else do {
       (session, data, sz, nd) \<leftarrow> filter_args context type session data sz nd;
       nd \<leftarrow> send_remote (copy_name addr) 0 source session data sz nd;
       Some (session, nd) } }"

subsection \<open>Dropping and dispatching messages\<close>

definition drop_message :: "service_code \<Rightarrow> u32 \<Rightarrow> skynet_message \<Rightarrow> skynet_node \<Rightarrow> skynet_node option" where
  "drop_message code source msg nd = do {
     nd \<leftarrow> skynet_free (sm_data msg) nd;
     c_assert (source \<noteq> 0);
     (_, nd) \<leftarrow> skynet_send code None source (sm_source msg) PTYPE_ERROR 0 None 0 nd;
     Some nd }"

text \<open>Popping from a queue of the node's store.\<close>

definition mq_pop :: "qid \<Rightarrow> skynet_node \<Rightarrow> (skynet_message option \<times> skynet_node) option" where
  "mq_pop i nd = do {
     q \<leftarrow> mqs (nd_store nd) i;
     (r, q') \<leftarrow> skynet_mq_pop q;
     Some (r, nd\<lparr>nd_store := (nd_store nd)\<lparr>mqs := (mqs (nd_store nd))(i \<mapsto> q')\<rparr>\<rparr>) }"

text \<open>\<^verbatim>\<open>_drop_queue\<close> with the callback of the node between the pops.\<close>

partial_function (option) drop_messages :: "service_code \<Rightarrow> u32 \<Rightarrow> qid \<Rightarrow> skynet_node \<Rightarrow> skynet_node option" where
  "drop_messages code source i nd = Option.bind (mq_pop i nd) (\<lambda>(r, nd1).
     (case r of
        None \<Rightarrow> Some nd1
      | Some msg \<Rightarrow> Option.bind (drop_message code source msg nd1) (\<lambda>nd2. drop_messages code source i nd2)))"

definition mq_release_node :: "service_code \<Rightarrow> u32 \<Rightarrow> qid \<Rightarrow> skynet_node \<Rightarrow> skynet_node option" where
  "mq_release_node code source i nd = do {
     q \<leftarrow> mqs (nd_store nd) i;
     if mq_release q \<noteq> 0 then do {
       nd \<leftarrow> drop_messages code source i nd;
       st \<leftarrow> mq_free i (nd_store nd);
       Some (nd\<lparr>nd_store := st\<rparr>) }
     else do {
       st \<leftarrow> skynet_globalmq_push i (nd_store nd);
       Some (nd\<lparr>nd_store := st\<rparr>) } }"

text \<open>Writing to the log file does not change the node.\<close>

definition dispatch_message :: "service_code \<Rightarrow> cid \<Rightarrow> skynet_message \<Rightarrow> skynet_node \<Rightarrow> skynet_node option" where
  "dispatch_message code c msg nd = do {
     x \<leftarrow> nd_ctxs nd c;
     c_assert (ctx_init x);
     let type = sz_type (sm_sz msg); sz = sz_len (sm_sz msg);
         x = x\<lparr>ctx_message_count := ctx_message_count x + 1\<rparr> in do {
     cb \<leftarrow> ctx_cb x;
     (reserve_msg, nd) \<leftarrow>
       (if ctx_profile x then do {
          let nd = put_ctx c (x\<lparr>ctx_cpu_start := thread_time code nd\<rparr>) nd in do {
          (r, nd) \<leftarrow> svc_cb code cb c type (sm_session msg) (sm_source msg) (sm_data msg) sz nd;
          y \<leftarrow> nd_ctxs nd c;
          Some (r, put_ctx c (y\<lparr>ctx_cpu_cost := ctx_cpu_cost y + (thread_time code nd - ctx_cpu_start y)\<rparr>) nd) } }
        else svc_cb code cb c type (sm_session msg) (sm_source msg) (sm_data msg) sz (put_ctx c x nd));
     if reserve_msg = 0 then skynet_free (sm_data msg) nd else Some nd } }"

partial_function (option) skynet_context_dispatchall :: "service_code \<Rightarrow> cid \<Rightarrow> qid \<Rightarrow> skynet_node \<Rightarrow> skynet_node option" where
  "skynet_context_dispatchall code c q nd = Option.bind (mq_pop q nd) (\<lambda>(r, nd1).
     (case r of
        None \<Rightarrow> Some nd1
      | Some msg \<Rightarrow> Option.bind (dispatch_message code c msg nd1) (\<lambda>nd2. skynet_context_dispatchall code c q nd2)))"

subsection \<open>The monitor\<close>

record skynet_monitor =
  mon_version :: u32
  mon_check_version :: u32
  mon_source :: u32
  mon_destination :: u32

definition skynet_monitor_new :: skynet_monitor where
  "skynet_monitor_new = \<lparr>mon_version = 0, mon_check_version = 0, mon_source = 0, mon_destination = 0\<rparr>"

definition skynet_monitor_trigger :: "u32 \<Rightarrow> u32 \<Rightarrow> skynet_monitor \<Rightarrow> skynet_monitor" where
  "skynet_monitor_trigger source destination sm =
     sm\<lparr>mon_source := source, mon_destination := destination, mon_version := mon_version sm + 1\<rparr>"

definition skynet_monitor_check :: "service_code \<Rightarrow> skynet_monitor \<Rightarrow> skynet_node \<Rightarrow> (skynet_monitor \<times> skynet_node) option" where
  "skynet_monitor_check code sm nd =
     (if mon_version sm = mon_check_version sm then
        (if mon_destination sm \<noteq> 0 then do {
           nd \<leftarrow> skynet_context_endless code (mon_destination sm) nd;
           nd \<leftarrow> skynet_error code None
             (''A message from [ :'' @ hex8 (unat (mon_source sm)) @ '' ] to [ :'' @ hex8 (unat (mon_destination sm))
              @ '' ] maybe in an endless loop (version = '' @ dec_string (sint (mon_version sm)) @ '')'') nd;
           Some (sm, nd) }
         else Some (sm, nd))
      else Some (sm\<lparr>mon_check_version := mon_version sm\<rparr>, nd))"

subsection \<open>A worker's turn\<close>

definition globalmq_pop :: "skynet_node \<Rightarrow> (qid option \<times> skynet_node) option" where
  "globalmq_pop nd = do {
     (r, st) \<leftarrow> skynet_globalmq_pop (nd_store nd);
     Some (r, nd\<lparr>nd_store := st\<rparr>) }"

text \<open>The loop of \<^verbatim>\<open>skynet_context_message_dispatch\<close> from round \<open>i\<close> of \<open>n\<close>: \<open>Inl\<close> when the queue ran
  empty and the function returned inside the loop.\<close>

definition report_overload :: "service_code \<Rightarrow> cid \<Rightarrow> qid \<Rightarrow> skynet_node \<Rightarrow> skynet_node option" where
  "report_overload code c q nd = do {
     mq \<leftarrow> mqs (nd_store nd) q;
     let (overload, mq') = skynet_mq_overload mq;
         nd = nd\<lparr>nd_store := (nd_store nd)\<lparr>mqs := (mqs (nd_store nd))(q \<mapsto> mq')\<rparr>\<rparr> in
     if overload \<noteq> 0 then skynet_error code (Some c) (''May overload, message queue length = '' @ dec_string overload) nd
     else Some nd }"

definition serve_message :: "service_code \<Rightarrow> cid \<Rightarrow> skynet_message \<Rightarrow> skynet_node \<Rightarrow> skynet_node option" where
  "serve_message code c msg nd = do {
     x \<leftarrow> nd_ctxs nd c;
     if ctx_cb x = None then skynet_free (sm_data msg) nd else dispatch_message code c msg nd }"

definition rounds :: "int \<Rightarrow> nat \<Rightarrow> nat \<Rightarrow> qid \<Rightarrow> skynet_node \<Rightarrow> nat option" where
  "rounds weight i n q nd =
     (if i = 0 \<and> weight \<ge> 0 then do {
        mq \<leftarrow> mqs (nd_store nd) q;
        Some (nat (drop_bit (nat weight) (skynet_mq_length mq))) }
      else Some n)"

partial_function (option) dispatch_loop :: "service_code \<Rightarrow> int \<Rightarrow> u32 \<Rightarrow> cid \<Rightarrow> qid \<Rightarrow> nat \<Rightarrow> nat \<Rightarrow> skynet_monitor
    \<Rightarrow> skynet_node \<Rightarrow> ((qid option + unit) \<times> skynet_monitor \<times> skynet_node) option" where
  "dispatch_loop code weight handle c q i n sm nd =
     (if i < n then
        Option.bind (mq_pop q nd) (\<lambda>(r, nd1).
          (case r of
             None \<Rightarrow>
               Option.bind (skynet_context_release code c nd1) (\<lambda>(_, nd2).
               Option.bind (globalmq_pop nd2) (\<lambda>(nq, nd3). Some (Inl nq, sm, nd3)))
           | Some msg \<Rightarrow>
               Option.bind (rounds weight i n q nd1) (\<lambda>n1.
               Option.bind (report_overload code c q nd1) (\<lambda>nd2.
               Option.bind (serve_message code c msg nd2) (\<lambda>nd3.
               dispatch_loop code weight handle c q (Suc i) n1
                 (skynet_monitor_trigger 0 0 (skynet_monitor_trigger (sm_source msg) handle sm)) nd3)))))
      else Some (Inr (), sm, nd))"

definition skynet_context_message_dispatch :: "service_code \<Rightarrow> skynet_monitor \<Rightarrow> qid option \<Rightarrow> int \<Rightarrow> skynet_node
    \<Rightarrow> (qid option \<times> skynet_monitor \<times> skynet_node) option" where
  "skynet_context_message_dispatch code sm q weight nd = do {
     (q, nd) \<leftarrow> (case q of None \<Rightarrow> globalmq_pop nd | Some i \<Rightarrow> Some (Some i, nd));
     (case q of
        None \<Rightarrow> Some (None, sm, nd)
      | Some i \<Rightarrow> do {
          mq \<leftarrow> mqs (nd_store nd) i;
          let handle = skynet_mq_handle mq in do {
          (r, nd) \<leftarrow> skynet_handle_grab handle nd;
          (case r of
             None \<Rightarrow> do {
               nd \<leftarrow> mq_release_node code handle i nd;
               (nq, nd) \<leftarrow> globalmq_pop nd;
               Some (nq, sm, nd) }
           | Some c \<Rightarrow> do {
               (e, sm, nd) \<leftarrow> dispatch_loop code weight handle c i 0 1 sm nd;
               (case e of
                  Inl nq \<Rightarrow> Some (nq, sm, nd)
                | Inr _ \<Rightarrow> do {
                    x \<leftarrow> nd_ctxs nd c;
                    c_assert (ctx_queue x = i);
                    (nq, nd) \<leftarrow> globalmq_pop nd;
                    (q', nd) \<leftarrow> (case nq of
                       Some j \<Rightarrow> do {
                         st \<leftarrow> skynet_globalmq_push i (nd_store nd);
                         Some (Some j, nd\<lparr>nd_store := st\<rparr>) }
                     | None \<Rightarrow> Some (Some i, nd));
                    (_, nd) \<leftarrow> skynet_context_release code c nd;
                    Some (q', sm, nd) }) }) } }) }"

subsection \<open>Creating and retiring services\<close>

text \<open>The new context is stored when its handle and its queue are known: until then the code keeps
  its handle at 0, which is the handle of an address without a context.\<close>

definition new_context :: "string \<Rightarrow> u32 \<Rightarrow> qid \<Rightarrow> bool \<Rightarrow> skynet_context" where
  "new_context name handle q prof =
     \<lparr>ctx_mod = name, ctx_cb = None, ctx_queue = q, ctx_logfile = None, ctx_cpu_cost = 0, ctx_cpu_start = 0,
      ctx_result = [], ctx_handle = handle, ctx_session_id = 0, ctx_ref = 2, ctx_message_count = 0,
      ctx_init = False, ctx_endless = False, ctx_profile = prof\<rparr>"

text \<open>The two ends of \<^verbatim>\<open>skynet_context_new\<close>: the module accepted the service, or it did not.\<close>

definition launch_ok :: "service_code \<Rightarrow> string \<Rightarrow> string option \<Rightarrow> cid \<Rightarrow> qid \<Rightarrow> skynet_node \<Rightarrow> (cid option \<times> skynet_node) option" where
  "launch_ok code name param c q nd = do {
     (ret, nd) \<leftarrow> skynet_context_release code c nd;
     nd \<leftarrow> (if ret \<noteq> None then do { x \<leftarrow> nd_ctxs nd c; Some (put_ctx c (x\<lparr>ctx_init := True\<rparr>) nd) } else Some nd);
     st \<leftarrow> skynet_globalmq_push q (nd_store nd);
     let nd = nd\<lparr>nd_store := st\<rparr> in
     if ret \<noteq> None then do {
       nd \<leftarrow> skynet_error code (Some c) (''LAUNCH '' @ name @ '' '' @ (case param of Some p \<Rightarrow> p | None \<Rightarrow> [])) nd;
       Some (ret, nd) }
     else Some (ret, nd) }"

definition launch_failed :: "service_code \<Rightarrow> string \<Rightarrow> cid \<Rightarrow> qid \<Rightarrow> skynet_node \<Rightarrow> (cid option \<times> skynet_node) option" where
  "launch_failed code name c q nd = do {
     nd \<leftarrow> skynet_error code (Some c) (''FAILED launch '' @ name) nd;
     x \<leftarrow> nd_ctxs nd c;
     let handle = ctx_handle x in do {
     (_, nd) \<leftarrow> skynet_context_release code c nd;
     (_, nd) \<leftarrow> handle_retire code handle nd;
     nd \<leftarrow> mq_release_node code handle q nd;
     Some (None, nd) } }"

definition skynet_context_new :: "service_code \<Rightarrow> string \<Rightarrow> string option \<Rightarrow> skynet_node \<Rightarrow> (cid option \<times> skynet_node) option" where
  "skynet_context_new code name param nd =
     (if \<not> mod_query code name then Some (None, nd)
      else if \<not> mod_create code name then Some (None, nd)
      else do {
        let c = nd_next_ctx nd in do {
        (handle, hs) \<leftarrow> skynet_handle_register (hof nd) c (nd_handles nd);
        let (q, st) = skynet_mq_create handle (nd_store nd);
            nd = context_inc (nd\<lparr>nd_next_ctx := Suc c, nd_handles := hs, nd_store := st,
                   nd_ctxs := (nd_ctxs nd)(c \<mapsto> new_context name handle q (nd_profile nd))\<rparr>) in do {
        (r, nd) \<leftarrow> mod_init code c param nd;
        if r = 0 then launch_ok code name param c q nd
        else launch_failed code name c q nd } } })"

text \<open>\<^verbatim>\<open>skynet_handle_retireall\<close>: sweeps over the slots, reading each slot afresh, until a sweep retires
  nothing.\<close>

partial_function (option) retire_sweep :: "service_code \<Rightarrow> nat \<Rightarrow> nat \<Rightarrow> skynet_node \<Rightarrow> (nat \<times> skynet_node) option" where
  "retire_sweep code i n nd =
     (if i < hs_slot_size (nd_handles nd) then
        Option.bind (array_get (hs_slot (nd_handles nd)) i) (\<lambda>c.
          let handle = (case c of Some ctx \<Rightarrow> hof nd ctx | None \<Rightarrow> 0) in
          if handle \<noteq> 0 then
            Option.bind (handle_retire code handle nd) (\<lambda>(r, nd1).
              retire_sweep code (Suc i) (if r \<noteq> 0 then Suc n else n) nd1)
          else retire_sweep code (Suc i) n nd)
      else Some (n, nd))"

partial_function (option) skynet_handle_retireall :: "service_code \<Rightarrow> skynet_node \<Rightarrow> skynet_node option" where
  "skynet_handle_retireall code nd =
     Option.bind (retire_sweep code 0 0 nd) (\<lambda>(n, nd1).
       if n = 0 then Some nd1 else skynet_handle_retireall code nd1)"

subsection \<open>Timeouts\<close>

definition timer_message :: "int \<Rightarrow> skynet_message" where
  "timer_message session =
     \<lparr>sm_source = 0, sm_session = session, sm_data = None, sm_sz = type_sz PTYPE_RESPONSE 0\<rparr>"

fun dispatch_list :: "service_code \<Rightarrow> timer_node list \<Rightarrow> skynet_node \<Rightarrow> skynet_node option" where
  "dispatch_list code [] nd = Some nd"
| "dispatch_list code (t # ts) nd = do {
     (_, nd) \<leftarrow> skynet_context_push code (te_handle (tn_event t)) (timer_message (te_session (tn_event t))) nd;
     dispatch_list code ts nd }"

definition skynet_timeout :: "service_code \<Rightarrow> u32 \<Rightarrow> int \<Rightarrow> int \<Rightarrow> skynet_node \<Rightarrow> (int \<times> skynet_node) option" where
  "skynet_timeout code handle time session nd =
     (if time \<le> 0 then do {
        (r, nd) \<leftarrow> skynet_context_push code handle (timer_message session) nd;
        Some (if r \<noteq> 0 then - 1 else session, nd) }
      else Some (session, nd\<lparr>nd_timer := timer_add \<lparr>te_handle = handle, te_session = session\<rparr> time (nd_timer nd)\<rparr>))"

text \<open>A tick of the timer thread: the wheel turns and the nodes it hands out become messages.\<close>

definition node_tick :: "service_code \<Rightarrow> skynet_node \<Rightarrow> skynet_node option" where
  "node_tick code nd = do {
     (ds, T) \<leftarrow> timer_update (nd_timer nd);
     dispatch_list code ds (nd\<lparr>nd_timer := T\<rparr>) }"

fun node_ticks :: "service_code \<Rightarrow> nat \<Rightarrow> skynet_node \<Rightarrow> skynet_node option" where
  "node_ticks code 0 nd = Some nd"
| "node_ticks code (Suc n) nd = do { nd \<leftarrow> node_tick code nd; node_ticks code n nd }"

subsection \<open>The start of a node\<close>

text \<open>\<^verbatim>\<open>skynet_globalinit\<close> and the initialisation of the parts in \<^verbatim>\<open>skynet_start\<close>; the key that holds the
  handle of a thread is not part of the state.\<close>

definition skynet_globalinit :: "int \<Rightarrow> bool \<Rightarrow> timer \<Rightarrow> skynet_node" where
  "skynet_globalinit harbor prof T = skynet_harbor_init (word_of_int harbor)
     \<lparr>nd_total = 0, nd_monitor_exit = 0, nd_profile = prof, nd_ctxs = (\<lambda>_. None), nd_next_ctx = 0,
      nd_handles = skynet_handle_init harbor, nd_store = skynet_mq_init, nd_heap = (\<lambda>_. None), nd_next_addr = 0,
      nd_timer = T, nd_logger = 0, nd_REMOTE = None, nd_HARBOR = - 1, nd_env = (\<lambda>_. None)\<rparr>"

definition skynet_profile_enable :: "bool \<Rightarrow> skynet_node \<Rightarrow> skynet_node" where
  "skynet_profile_enable enable nd = nd\<lparr>nd_profile := enable\<rparr>"

end
