(* ===== verification/Service_Props.thy ===== *)
theory Service_Props
  imports Service_Node
begin

text \<open>
  The invariant of a node and the behaviour of its operations (\<^verbatim>\<open>skynet_server.c\<close>,
  \<^verbatim>\<open>skynet_error.c\<close>, \<^verbatim>\<open>skynet_monitor.c\<close>, \<^verbatim>\<open>skynet_timer.c\<close>). The abstract view of a node is
  the mailbox of a handle: the list of the messages that wait in the queue of its service.
\<close>

subsection \<open>The type in the high bits of the size\<close>

lemma MESSAGE_TYPE_MASK_mask: "MESSAGE_TYPE_MASK = mask 56"
  by (simp add: MESSAGE_TYPE_MASK_def mask_eq_exp_minus_1)

lemma sz_fits_iff: "sz AND MESSAGE_TYPE_MASK = sz \<longleftrightarrow> take_bit 56 sz = sz"
  by (simp add: MESSAGE_TYPE_MASK_mask take_bit_eq_mask)

lemma sz_len_type_sz:
  assumes "sz AND MESSAGE_TYPE_MASK = sz"
  shows "sz_len (type_sz t sz) = sz"
proof -
  have "take_bit 56 (sz OR push_bit 56 (ucast t)) = (sz :: u64)"
    using assms by (simp add: sz_fits_iff take_bit_push_bit)
  then show ?thesis
    by (simp add: sz_len_def type_sz_def MESSAGE_TYPE_SHIFT_def MESSAGE_TYPE_MASK_mask take_bit_eq_mask)
qed

lemma sz_type_type_sz:
  assumes "sz AND MESSAGE_TYPE_MASK = sz"
  shows "sz_type (type_sz (t AND 0xff) sz) = t AND 0xff"
proof (rule bit_word_eqI)
  fix n assume n: "n < LENGTH(32)"
  have m: "(0xff :: u32) = mask 8" by (simp add: mask_eq_exp_minus_1)
  from assms have "take_bit 56 sz = sz" by (simp add: sz_fits_iff)
  then have "\<not> bit sz (56 + n)" by (metis bit_take_bit_iff not_add_less1)
  then show "bit (sz_type (type_sz (t AND 0xff) sz)) n = bit (t AND 0xff) n"
    unfolding m using n
    by (auto simp: sz_type_def type_sz_def MESSAGE_TYPE_SHIFT_def bit_simps)
qed

lemma sz_type_PTYPE [simp]:
  "sz_type (type_sz PTYPE_TEXT 0) = PTYPE_TEXT" "sz_type (type_sz PTYPE_RESPONSE 0) = PTYPE_RESPONSE"
  by (simp_all add: sz_type_def type_sz_def MESSAGE_TYPE_SHIFT_def PTYPE_TEXT_def PTYPE_RESPONSE_def)

subsection \<open>What a push does to the store of queues\<close>

definition qmsgs :: "'m mq_store \<Rightarrow> qid \<Rightarrow> 'm list option" where
  "qmsgs s i = map_option mq_list (mqs s i)"

definition qmeta :: "'m mq_store \<Rightarrow> qid \<Rightarrow> (u32 \<times> int) option" where
  "qmeta s i = map_option (\<lambda>q. (mq_handle q, mq_release q)) (mqs s i)"

lemma globalmq_push_frame:
  assumes "skynet_globalmq_push i s = Some s'"
  shows "qmsgs s' = qmsgs s \<and> qmeta s' = qmeta s"
  using assms
  by (auto simp: skynet_globalmq_push_def qmsgs_def qmeta_def fun_eq_iff c_simps split: option.splits if_splits)

lemma sched_push_effect:
  assumes inv: "sched_inv s xs" and q: "mqs (sc_store s) i = Some q" and rel: "mq_release q = 0"
  shows "\<exists>st ys. skynet_mq_push i m (sc_store s) = Some st \<and> sched_inv (s\<lparr>sc_store := st\<rparr>) ys \<and>
     qmsgs st = (qmsgs (sc_store s))(i \<mapsto> mq_list q @ [m]) \<and> qmeta st = qmeta (sc_store s)"
proof -
  from sched_inv_send [OF assms, of m] obtain st ys
    where st: "skynet_mq_push i m (sc_store s) = Some st" "sched_inv (s\<lparr>sc_store := st\<rparr>) ys" by blast
  from inv q have "mq_inv q" by (auto simp: sched_inv_def queue_ok_def)
  from mq_enqueue_ok [OF this, of m] obtain q1 where q1: "mq_enqueue m q = Some q1" "mq_list q1 = mq_list q @ [m]"
    "mq_handle q1 = mq_handle q" "mq_release q1 = mq_release q" "mq_in_global q1 = mq_in_global q" by blast
  let ?u = "\<lambda>q'. (sc_store s)\<lparr>mqs := (mqs (sc_store s))(i \<mapsto> q')\<rparr>"
  have u: "qmsgs (?u q') = (qmsgs (sc_store s))(i \<mapsto> mq_list q @ [m]) \<and> qmeta (?u q') = qmeta (sc_store s)"
    if "mq_list q' = mq_list q @ [m]" "mq_handle q' = mq_handle q" "mq_release q' = mq_release q" for q'
    using that q by (auto simp: qmsgs_def qmeta_def fun_eq_iff)
  have "qmsgs st = (qmsgs (sc_store s))(i \<mapsto> mq_list q @ [m]) \<and> qmeta st = qmeta (sc_store s)"
  proof (cases "mq_in_global q1 = 0")
    case True
    with st(1) q q1(1) have "skynet_globalmq_push i (?u (q1\<lparr>mq_in_global := MQ_IN_GLOBAL\<rparr>)) = Some st"
      by (simp add: skynet_mq_push_def)
    from globalmq_push_frame [OF this] u [of "q1\<lparr>mq_in_global := MQ_IN_GLOBAL\<rparr>"] q1 show ?thesis by simp
  next
    case False
    with st(1) q q1(1) have "st = ?u q1" by (simp add: skynet_mq_push_def)
    with u [of q1] q1 show ?thesis by simp
  qed
  with st show ?thesis by blast
qed

subsection \<open>The invariant of a node\<close>

text \<open>\<open>held\<close> are the queues that worker threads and creators hold at the moment. Every context in the
  table of handles is alive and the table's reference is counted; every live context has a queue
  of its own that carries its handle and is not marked for release.\<close>

definition node_inv :: "qid list \<Rightarrow> skynet_node \<Rightarrow> bool" where
  "node_inv held nd \<longleftrightarrow>
     (\<exists>xs. sched_inv \<lparr>sc_store = nd_store nd, sc_held = held\<rparr> xs) \<and>
     hs_inv (hof nd) (nd_handles nd) \<and> names_inv (nd_handles nd) \<and>
     (\<forall>c. Some c \<in> set (hs_slot (nd_handles nd)) \<longrightarrow> nd_ctxs nd c \<noteq> None) \<and>
     (\<forall>c x. nd_ctxs nd c = Some x \<longrightarrow> 1 \<le> ctx_ref x \<and> qmeta (nd_store nd) (ctx_queue x) = Some (ctx_handle x, 0)) \<and>
     (\<forall>c d x y. nd_ctxs nd c = Some x \<longrightarrow> nd_ctxs nd d = Some y \<longrightarrow> ctx_queue x = ctx_queue y \<longrightarrow> c = d) \<and>
     (\<forall>a. nd_next_addr nd \<le> a \<longrightarrow> nd_heap nd a = None) \<and>
     (\<forall>c. nd_next_ctx nd \<le> c \<longrightarrow> nd_ctxs nd c = None) \<and>
     nd_HARBOR nd \<noteq> - 1"

lemma node_invI:
  assumes "sched_inv \<lparr>sc_store = nd_store nd, sc_held = held\<rparr> xs"
    and "hs_inv (hof nd) (nd_handles nd)" "names_inv (nd_handles nd)"
    and "\<And>c. Some c \<in> set (hs_slot (nd_handles nd)) \<Longrightarrow> nd_ctxs nd c \<noteq> None"
    and "\<And>c x. nd_ctxs nd c = Some x \<Longrightarrow> 1 \<le> ctx_ref x \<and> qmeta (nd_store nd) (ctx_queue x) = Some (ctx_handle x, 0)"
    and "\<And>c d x y. nd_ctxs nd c = Some x \<Longrightarrow> nd_ctxs nd d = Some y \<Longrightarrow> ctx_queue x = ctx_queue y \<Longrightarrow> c = d"
    and "\<And>a. nd_next_addr nd \<le> a \<Longrightarrow> nd_heap nd a = None"
    and "\<And>c. nd_next_ctx nd \<le> c \<Longrightarrow> nd_ctxs nd c = None" "nd_HARBOR nd \<noteq> - 1"
  shows "node_inv held nd"
  using assms unfolding node_inv_def by blast

lemma node_inv_fresh:
  assumes "node_inv held nd"
  shows "\<And>a. nd_next_addr nd \<le> a \<Longrightarrow> nd_heap nd a = None" "\<And>c. nd_next_ctx nd \<le> c \<Longrightarrow> nd_ctxs nd c = None"
    "nd_HARBOR nd \<noteq> - 1" "names_inv (nd_handles nd)"
  using assms unfolding node_inv_def by blast+

lemma node_inv_ctx:
  assumes "node_inv held nd" "nd_ctxs nd c = Some x"
  shows "1 \<le> ctx_ref x" "qmeta (nd_store nd) (ctx_queue x) = Some (ctx_handle x, 0)"
  using assms unfolding node_inv_def by blast+

lemma node_inv_inj:
  assumes "node_inv held nd" "nd_ctxs nd c = Some x" "nd_ctxs nd d = Some y" "ctx_queue x = ctx_queue y"
  shows "c = d"
  using assms unfolding node_inv_def by blast

lemma node_inv_table:
  assumes "node_inv held nd"
  shows "hs_inv (hof nd) (nd_handles nd)" "\<And>c. Some c \<in> set (hs_slot (nd_handles nd)) \<Longrightarrow> nd_ctxs nd c \<noteq> None"
  using assms unfolding node_inv_def by blast+

definition service :: "skynet_node \<Rightarrow> u32 \<Rightarrow> cid option" where
  "service nd h = handle_lookup (hof nd) h (nd_handles nd)"

definition mailbox :: "skynet_node \<Rightarrow> u32 \<Rightarrow> (skynet_message list) option" where
  "mailbox nd h = do { c \<leftarrow> service nd h; x \<leftarrow> nd_ctxs nd c; qmsgs (nd_store nd) (ctx_queue x) }"

lemma hof_cong [simp]:
  "hof (nd\<lparr>nd_store := st\<rparr>) = hof nd" "hof (nd\<lparr>nd_heap := hp\<rparr>) = hof nd" "hof (nd\<lparr>nd_next_addr := a\<rparr>) = hof nd"
  "hof (nd\<lparr>nd_logger := l\<rparr>) = hof nd" "hof (nd\<lparr>nd_timer := T\<rparr>) = hof nd" "hof (nd\<lparr>nd_total := n\<rparr>) = hof nd"
  "hof (nd\<lparr>nd_monitor_exit := m\<rparr>) = hof nd" "hof (nd\<lparr>nd_handles := hs\<rparr>) = hof nd"
  by (simp_all add: hof_def fun_eq_iff)

lemma service_live:
  assumes "node_inv held nd" "service nd h = Some c"
  obtains x where "nd_ctxs nd c = Some x" "ctx_handle x = h" "1 \<le> ctx_ref x"
    "Some c \<in> set (hs_slot (nd_handles nd))"
proof -
  from assms have "Some c \<in> set (hs_slot (nd_handles nd))" "hof nd c = h"
    by (auto simp: node_inv_def service_def lookup_iff)
  moreover from this assms(1) obtain x where "nd_ctxs nd c = Some x" by (auto simp: node_inv_def)
  moreover from this assms(1) have "1 \<le> ctx_ref x" by (simp add: node_inv_def)
  ultimately show thesis using that by (simp add: hof_def)
qed

lemma live_queue:
  assumes "node_inv held nd" "nd_ctxs nd c = Some x"
  obtains q where "mqs (nd_store nd) (ctx_queue x) = Some q" "mq_release q = 0" "mq_handle q = ctx_handle x"
proof -
  from assms have "qmeta (nd_store nd) (ctx_queue x) = Some (ctx_handle x, 0)" by (simp add: node_inv_def)
  then show thesis using that by (auto simp: qmeta_def)
qed

lemma mailbox_None_iff:
  assumes "node_inv held nd"
  shows "mailbox nd h = None \<longleftrightarrow> service nd h = None"
proof (cases "service nd h")
  case None
  then show ?thesis by (simp add: mailbox_def)
next
  case (Some c)
  from service_live [OF assms Some] obtain x where "nd_ctxs nd c = Some x" .
  moreover from live_queue [OF assms this] obtain q where "mqs (nd_store nd) (ctx_queue x) = Some q" .
  ultimately show ?thesis using Some by (simp add: mailbox_def qmsgs_def)
qed

lemma node_inv_store:
  assumes "node_inv held nd" "sched_inv \<lparr>sc_store = st, sc_held = held\<rparr> ys" "qmeta st = qmeta (nd_store nd)"
  shows "node_inv held (nd\<lparr>nd_store := st\<rparr>)"
  using assms by (auto simp: node_inv_def)

lemma put_ctx_same: "nd_ctxs nd c = Some x \<Longrightarrow> put_ctx c x (nd\<lparr>nd_store := st\<rparr>) = nd\<lparr>nd_store := st\<rparr>"
  by (simp add: put_ctx_def fun_upd_idem)

lemma context_push_missing:
  "service nd h = None \<Longrightarrow> skynet_context_push code h m nd = Some (- 1, nd)"
  by (simp add: skynet_context_push_def skynet_handle_grab_def service_def)

text \<open>A push grabs the context, pushes and releases it again: the reference count is as before.\<close>

lemma context_push_ok:
  assumes inv: "node_inv held nd" and c: "service nd h = Some c"
  shows "\<exists>st. skynet_context_push code h m nd = Some (0, nd\<lparr>nd_store := st\<rparr>) \<and>
     node_inv held (nd\<lparr>nd_store := st\<rparr>) \<and>
     mailbox (nd\<lparr>nd_store := st\<rparr>) = (mailbox nd)(h := map_option (\<lambda>ms. ms @ [m]) (mailbox nd h)) \<and>
     qmeta st = qmeta (nd_store nd) \<and>
     (\<forall>i g r. qmeta (nd_store nd) i = Some (g, r) \<and> r \<noteq> 0 \<longrightarrow> qmsgs st i = qmsgs (nd_store nd) i)"
proof -
  from service_live [OF inv c] obtain x where x: "nd_ctxs nd c = Some x" "ctx_handle x = h" "1 \<le> ctx_ref x" .
  from live_queue [OF inv x(1)] obtain q where q: "mqs (nd_store nd) (ctx_queue x) = Some q" "mq_release q = 0" .
  from inv obtain xs where "sched_inv \<lparr>sc_store = nd_store nd, sc_held = held\<rparr> xs" by (auto simp: node_inv_def)
  from sched_push_effect [OF this, of "ctx_queue x" q m] q obtain st ys
    where st: "skynet_mq_push (ctx_queue x) m (nd_store nd) = Some st"
      "sched_inv \<lparr>sc_store = st, sc_held = held\<rparr> ys"
      "qmsgs st = (qmsgs (nd_store nd))(ctx_queue x \<mapsto> mq_list q @ [m])" "qmeta st = qmeta (nd_store nd)"
    by auto
  have inv': "node_inv held (nd\<lparr>nd_store := st\<rparr>)" by (rule node_inv_store [OF inv st(2,4)])
  have push: "skynet_context_push code h m nd = Some (0, nd\<lparr>nd_store := st\<rparr>)"
    using c x st(1)
    by (simp add: skynet_context_push_def skynet_handle_grab_def service_def skynet_context_grab_def
        put_ctx_def mq_push_def skynet_context_release_def fun_upd_idem)
  have "mailbox (nd\<lparr>nd_store := st\<rparr>) g = ((mailbox nd)(h := map_option (\<lambda>ms. ms @ [m]) (mailbox nd h))) g" for g
  proof (cases "service nd g")
    case None
    then show ?thesis using c by (auto simp: mailbox_def service_def)
  next
    case (Some d)
    from service_live [OF inv Some] obtain y where y: "nd_ctxs nd d = Some y" "ctx_handle y = g" .
    have "g = h \<longleftrightarrow> ctx_queue y = ctx_queue x"
      using inv x y Some c by (fastforce simp: node_inv_def)
    then show ?thesis
      using Some c x y q st(3) by (auto simp: mailbox_def service_def qmsgs_def)
  qed
  moreover have "qmsgs st i = qmsgs (nd_store nd) i" if "qmeta (nd_store nd) i = Some (g, r) \<and> r \<noteq> 0" for i g r
    using that q st(3) by (auto simp: qmeta_def)
  ultimately show ?thesis using push inv' st(4) by blast
qed

subsection \<open>Frames: what does not touch the mailboxes\<close>

lemma mailbox_cong:
  assumes "nd_ctxs nd' = nd_ctxs nd" "nd_handles nd' = nd_handles nd" "nd_store nd' = nd_store nd"
  shows "mailbox nd' = mailbox nd" "service nd' = service nd" "hof nd' = hof nd"
proof -
  show h: "hof nd' = hof nd" using assms by (simp add: hof_def fun_eq_iff)
  show s: "service nd' = service nd" by (rule ext) (simp add: service_def h assms)
  show "mailbox nd' = mailbox nd" by (rule ext) (simp add: mailbox_def s assms)
qed

lemma mailbox_upd [simp]:
  "mailbox (nd\<lparr>nd_heap := hp\<rparr>) = mailbox nd" "mailbox (nd\<lparr>nd_next_addr := n\<rparr>) = mailbox nd"
  "mailbox (nd\<lparr>nd_logger := l\<rparr>) = mailbox nd" "mailbox (nd\<lparr>nd_timer := T\<rparr>) = mailbox nd"
  "service (nd\<lparr>nd_heap := hp\<rparr>) = service nd" "service (nd\<lparr>nd_next_addr := n\<rparr>) = service nd"
  "service (nd\<lparr>nd_logger := l\<rparr>) = service nd" "service (nd\<lparr>nd_timer := T\<rparr>) = service nd"
  by (intro mailbox_cong; simp)+

lemma service_store [simp]: "service (nd\<lparr>nd_store := st\<rparr>) = service nd"
  by (simp add: service_def fun_eq_iff)

lemma node_inv_frame [simp]:
  "node_inv held (nd\<lparr>nd_logger := l\<rparr>) = node_inv held nd" "node_inv held (nd\<lparr>nd_timer := T\<rparr>) = node_inv held nd"
  by (simp_all add: node_inv_def)

lemma node_inv_malloc:
  assumes "node_inv held nd"
  shows "node_inv held (nd\<lparr>nd_heap := (nd_heap nd)(nd_next_addr nd \<mapsto> b), nd_next_addr := Suc (nd_next_addr nd)\<rparr>)"
  using assms by (simp add: node_inv_def)

lemma node_inv_free: "node_inv held nd \<Longrightarrow> node_inv held (nd\<lparr>nd_heap := (nd_heap nd)(a := None)\<rparr>)"
  by (simp add: node_inv_def)

lemma put_ctx_sel [simp]:
  "nd_handles (put_ctx c y nd) = nd_handles nd" "nd_store (put_ctx c y nd) = nd_store nd"
  "nd_heap (put_ctx c y nd) = nd_heap nd" "nd_next_addr (put_ctx c y nd) = nd_next_addr nd"
  "nd_HARBOR (put_ctx c y nd) = nd_HARBOR nd" "nd_logger (put_ctx c y nd) = nd_logger nd"
  "nd_timer (put_ctx c y nd) = nd_timer nd" "nd_next_ctx (put_ctx c y nd) = nd_next_ctx nd"
  "nd_REMOTE (put_ctx c y nd) = nd_REMOTE nd" "nd_ctxs (put_ctx c y nd) = (nd_ctxs nd)(c \<mapsto> y)"
  by (simp_all add: put_ctx_def)

text \<open>Changing a context in fields other than its handle, its queue and its reference count.\<close>

lemma put_ctx_frame:
  assumes x: "nd_ctxs nd c = Some x" and y: "ctx_handle y = ctx_handle x" "ctx_queue y = ctx_queue x"
  shows "hof (put_ctx c y nd) = hof nd" "service (put_ctx c y nd) = service nd"
    "mailbox (put_ctx c y nd) = mailbox nd"
proof -
  show h: "hof (put_ctx c y nd) = hof nd" using x y by (auto simp: hof_def put_ctx_def fun_eq_iff)
  show s: "service (put_ctx c y nd) = service nd" by (rule ext) (simp add: service_def h)
  show "mailbox (put_ctx c y nd) = mailbox nd"
  proof
    fix h
    show "mailbox (put_ctx c y nd) h = mailbox nd h"
      unfolding mailbox_def s using x y by (cases "service nd h") (auto simp: put_ctx_def)
  qed
qed

lemma node_inv_put_ctx:
  assumes "node_inv held nd" "nd_ctxs nd c = Some x" "ctx_handle y = ctx_handle x" "ctx_queue y = ctx_queue x"
    and "1 \<le> ctx_ref y"
  shows "node_inv held (put_ctx c y nd)"
proof -
  have "hof (put_ctx c y nd) = hof nd" by (rule put_ctx_frame [OF assms(2-4)])
  then show ?thesis
    using assms by (auto simp: node_inv_def put_ctx_def)
qed

subsection \<open>Sessions and the error log\<close>

lemma newsession_ok:
  assumes "nd_ctxs nd c = Some x"
  shows "\<exists>w. skynet_context_newsession c nd = Some (sint w, put_ctx c (x\<lparr>ctx_session_id := w\<rparr>) nd) \<and> 1 \<le> sint w \<and>
     w = (if ctx_session_id x + 1 \<noteq> 0 \<and> 0 \<le> sint (ctx_session_id x + 1) then ctx_session_id x + 1 else 1)"
proof -
  have "sint (ctx_session_id x + 1) = 0 \<longleftrightarrow> ctx_session_id x + 1 = 0"
    by (rule signed_eq_0_iff)
  then show ?thesis using assms
    by (auto simp: skynet_context_newsession_def Let_def)
qed

lemma error_size_returns: "0 < m \<Longrightarrow> \<exists>n. error_size len m = Some n \<and> len < n"
proof (induction "Suc len - m" arbitrary: m rule: less_induct)
  case less
  show ?case
  proof (cases "len < m * 2")
    case True
    then show ?thesis by (subst error_size.simps) simp
  next
    case False
    with less.prems have "Suc len - m * 2 < Suc len - m" "0 < m * 2" by simp_all
    from less.hyps [OF this] False show ?thesis by (subst error_size.simps) simp
  qed
qed

lemma error_data_returns: "\<exists>bs. error_data text = Some bs \<and> take (length text) bs = string_bytes text"
  using error_size_returns [of LOG_MESSAGE_SIZE "length text"]
  by (auto simp: error_data_def LOG_MESSAGE_SIZE_def string_bytes_def)

lemma skynet_error_ok:
  assumes inv: "node_inv held nd" and ctx: "\<And>c. context = Some c \<Longrightarrow> nd_ctxs nd c \<noteq> None"
  shows "\<exists>nd'. skynet_error code context text nd = Some nd' \<and> node_inv held nd' \<and>
     nd_ctxs nd' = nd_ctxs nd \<and> nd_handles nd' = nd_handles nd \<and> nd_HARBOR nd' = nd_HARBOR nd \<and>
     nd_monitor_exit nd' = nd_monitor_exit nd \<and>
     (\<forall>a. a < nd_next_addr nd \<longrightarrow> nd_heap nd' a = nd_heap nd a) \<and> nd_next_addr nd \<le> nd_next_addr nd' \<and>
     (\<forall>h. h \<noteq> nd_logger nd' \<longrightarrow> mailbox nd' h = mailbox nd h)"
proof -
  from inv have names: "names_inv (nd_handles nd)" by (simp add: node_inv_def)
  from findname_ok [OF this] obtain l where l: "(if nd_logger nd = 0
      then skynet_handle_findname ''logger'' (nd_handles nd) else Some (nd_logger nd)) = Some l"
    by (cases "nd_logger nd = 0") auto
  show ?thesis
  proof (cases "l = 0")
    case True
    with l inv show ?thesis by (simp add: skynet_error_def Let_def del: not_None_eq)
  next
    case False
    from error_data_returns obtain bs where bs: "error_data text = Some bs" by blast
    let ?nd1 = "nd\<lparr>nd_logger := l, nd_heap := (nd_heap nd)(nd_next_addr nd \<mapsto> Bytes bs),
      nd_next_addr := Suc (nd_next_addr nd)\<rparr>"
    have inv1: "node_inv held ?nd1"
      using node_inv_malloc [of held "nd\<lparr>nd_logger := l\<rparr>" "Bytes bs"] inv by simp
    obtain source where src: "(case context of None \<Rightarrow> Some 0 | Some c \<Rightarrow> skynet_context_handle c ?nd1) = Some source"
      using ctx by (cases "context") (auto simp: skynet_context_handle_def)
    let ?m = "\<lparr>sm_source = source, sm_session = 0, sm_data = Some (nd_next_addr nd),
      sm_sz = type_sz PTYPE_TEXT (of_nat (length text))\<rparr>"
    obtain r nd2 where push: "skynet_context_push code l ?m ?nd1 = Some (r, nd2)"
      and nd2: "node_inv held nd2" "nd_ctxs nd2 = nd_ctxs nd" "nd_handles nd2 = nd_handles nd" "nd_HARBOR nd2 = nd_HARBOR nd"
        "nd_monitor_exit nd2 = nd_monitor_exit nd" "nd_heap nd2 = nd_heap ?nd1" "nd_logger nd2 = l" "nd_next_addr nd2 = Suc (nd_next_addr nd)"
        "\<And>h. h \<noteq> l \<Longrightarrow> mailbox nd2 h = mailbox nd h"
    proof (cases "service ?nd1 l")
      case None
      then show thesis
        using context_push_missing [OF None, of code ?m] inv1 that by simp
    next
      case (Some d)
      from context_push_ok [OF inv1 Some, of code ?m] that show thesis by auto
    qed
    have "skynet_error code context text nd = Some nd2"
      using l bs src push False by (simp add: skynet_error_def skynet_malloc_def Let_def)
    with nd2 show ?thesis by auto
  qed
qed

subsection \<open>Sending\<close>

text \<open>What a caller of \<^verbatim>\<open>skynet_send\<close> has to provide: a live context where one is needed, a session of 0
  when it asks for a new one, and data that is as long as it says.\<close>

definition send_args_ok :: "cid option \<Rightarrow> u32 \<Rightarrow> u32 \<Rightarrow> int \<Rightarrow> addr option \<Rightarrow> u64 \<Rightarrow> skynet_node \<Rightarrow> bool" where
  "send_args_ok context source type session data sz nd \<longleftrightarrow>
     (case context of Some c \<Rightarrow> nd_ctxs nd c \<noteq> None | None \<Rightarrow> source \<noteq> 0 \<and> \<not> has_tag type PTYPE_TAG_ALLOCSESSION) \<and>
     (has_tag type PTYPE_TAG_ALLOCSESSION \<longrightarrow> session = 0) \<and>
     (case data of None \<Rightarrow> True | Some a \<Rightarrow>
        (case nd_heap nd a of Some (Bytes bs) \<Rightarrow> unat sz \<le> length bs | _ \<Rightarrow> False))"

definition payload :: "skynet_node \<Rightarrow> addr option \<Rightarrow> u64 \<Rightarrow> (u8 list) option" where
  "payload nd p sz = (case p of None \<Rightarrow> Some [] | Some a \<Rightarrow>
     (case nd_heap nd a of Some (Bytes bs) \<Rightarrow> Some (take (unat sz) bs) | _ \<Rightarrow> None))"

lemma payload_cong: "nd_heap nd' = nd_heap nd \<Longrightarrow> payload nd' p sz = payload nd p sz"
  by (cases p) (simp_all add: payload_def)

lemma send_args_data:
  assumes "send_args_ok context source type session data sz nd" "data = Some a"
  obtains bs where "nd_heap nd a = Some (Bytes bs)" "unat sz \<le> length bs"
  using assms by (auto simp: send_args_ok_def split: option.splits block.splits)

lemma filter_session_ok:
  assumes inv: "node_inv held nd" and ok: "send_args_ok context source type session data sz nd"
  obtains session' nd' where
    "(if has_tag type PTYPE_TAG_ALLOCSESSION then do {
        c_assert (session = 0);
        c \<leftarrow> context;
        skynet_context_newsession c nd }
      else Some (session, nd)) = Some (session', nd')"
    "node_inv held nd'" "mailbox nd' = mailbox nd" "service nd' = service nd"
    "nd_heap nd' = nd_heap nd" "nd_next_addr nd' = nd_next_addr nd" "nd_HARBOR nd' = nd_HARBOR nd"
    "ctx_source context source nd' = ctx_source context source nd"
    "if has_tag type PTYPE_TAG_ALLOCSESSION then 1 \<le> session' else session' = session"
proof (cases "has_tag type PTYPE_TAG_ALLOCSESSION")
  case True
  with ok obtain c x where c: "context = Some c" "nd_ctxs nd c = Some x" "session = 0"
    by (auto simp: send_args_ok_def split: option.splits)
  from newsession_ok [OF c(2)] obtain w
    where w: "skynet_context_newsession c nd = Some (sint w, put_ctx c (x\<lparr>ctx_session_id := w\<rparr>) nd)" "1 \<le> sint w"
    by blast
  let ?nd' = "put_ctx c (x\<lparr>ctx_session_id := w\<rparr>) nd"
  have "1 \<le> ctx_ref x" using inv c by (simp add: node_inv_def)
  then have "node_inv held ?nd'" using inv c by (intro node_inv_put_ctx) auto
  moreover have "mailbox ?nd' = mailbox nd" "service ?nd' = service nd"
    using put_ctx_frame [OF c(2), of "x\<lparr>ctx_session_id := w\<rparr>"] by simp_all
  moreover have "ctx_source context source ?nd' = ctx_source context source nd"
    using c by (simp add: ctx_source_def skynet_context_handle_def)
  ultimately show thesis using that [of "sint w" ?nd'] c w True by simp
next
  case False
  with inv that [of session nd] show thesis by simp
qed

lemma filter_args_ok:
  assumes inv: "node_inv held nd" and ok: "send_args_ok context source type session data sz nd"
  obtains session' data' nd' where
    "filter_args context type session data sz nd = Some (session', data', type_sz (type AND 0xff) sz, nd')"
    "node_inv held nd'" "mailbox nd' = mailbox nd" "service nd' = service nd" "nd_HARBOR nd' = nd_HARBOR nd"
    "ctx_source context source nd' = ctx_source context source nd"
    "if has_tag type PTYPE_TAG_ALLOCSESSION then 1 \<le> session' else session' = session"
    "payload nd' data' sz = payload nd data sz" "data' = None \<longleftrightarrow> data = None"
    "if data = None \<or> has_tag type PTYPE_TAG_DONTCOPY then data' = data \<and> nd_heap nd' = nd_heap nd
     else \<exists>b. data' = Some (nd_next_addr nd) \<and> nd_heap nd (nd_next_addr nd) = None \<and>
       nd_heap nd' = (nd_heap nd)(nd_next_addr nd \<mapsto> b)"
proof -
  from filter_session_ok [OF inv ok] obtain session' nd1 where
    s: "(if has_tag type PTYPE_TAG_ALLOCSESSION then do {
        c_assert (session = 0);
        c \<leftarrow> context;
        skynet_context_newsession c nd }
      else Some (session, nd)) = Some (session', nd1)" and
    f: "node_inv held nd1" "mailbox nd1 = mailbox nd" "service nd1 = service nd"
    "nd_heap nd1 = nd_heap nd" "nd_next_addr nd1 = nd_next_addr nd" "nd_HARBOR nd1 = nd_HARBOR nd"
    "ctx_source context source nd1 = ctx_source context source nd"
    "if has_tag type PTYPE_TAG_ALLOCSESSION then 1 \<le> session' else session' = session" .
  have pay: "payload nd1 p sz = payload nd p sz" for p using f(4) by (rule payload_cong)
  show thesis
  proof (cases "data = None \<or> has_tag type PTYPE_TAG_DONTCOPY")
    case True
    then have "filter_args context type session data sz nd = Some (session', data, type_sz (type AND 0xff) sz, nd1)"
      unfolding filter_args_def s by (cases data) auto
    with f pay True show thesis by (intro that [of session' data nd1]) simp_all
  next
    case False
    then obtain a where a: "data = Some a" by auto
    from send_args_data [OF ok a] obtain bs where bs: "nd_heap nd a = Some (Bytes bs)" "unat sz \<le> length bs" .
    let ?b = "Bytes (take (unat sz) bs @ [0])"
    let ?nd2 = "nd1\<lparr>nd_heap := (nd_heap nd1)(nd_next_addr nd1 \<mapsto> ?b), nd_next_addr := Suc (nd_next_addr nd1)\<rparr>"
    have "filter_args context type session data sz nd =
        Some (session', Some (nd_next_addr nd), type_sz (type AND 0xff) sz, ?nd2)"
      unfolding filter_args_def s using False a bs f(4,5)
      by (simp add: copy_block_def skynet_malloc_def)
    moreover have "node_inv held ?nd2" using f(1) by (rule node_inv_malloc)
    moreover have "ctx_source context source ?nd2 = ctx_source context source nd1"
      by (auto simp: ctx_source_def skynet_context_handle_def split: option.splits)
    moreover have "payload ?nd2 (Some (nd_next_addr nd)) sz = payload nd data sz"
      using a bs f(5) by (simp add: payload_def)
    moreover have "nd_heap nd (nd_next_addr nd) = None" using inv by (simp add: node_inv_def)
    moreover have "\<exists>b. nd_heap ?nd2 = (nd_heap nd)(nd_next_addr nd \<mapsto> b)" using f(4,5) by auto
    ultimately show thesis using f False a
      by (intro that [of session' "Some (nd_next_addr nd)" ?nd2]) simp_all
  qed
qed

definition sender :: "cid option \<Rightarrow> u32 \<Rightarrow> skynet_node \<Rightarrow> u32" where
  "sender context source nd =
     (if source \<noteq> 0 then source else case context of Some c \<Rightarrow> hof nd c | None \<Rightarrow> 0)"

lemma ctx_source_ok:
  "send_args_ok context source type session data sz nd \<Longrightarrow>
   ctx_source context source nd = Some (sender context source nd)"
  by (auto simp: send_args_ok_def ctx_source_def skynet_context_handle_def sender_def hof_def split: option.splits)

subsection \<open>Creating a service\<close>

lemma node_inv_init: "node_inv [] (skynet_globalinit harbor prof T)"
proof -
  let ?nd = "skynet_globalinit harbor prof T"
  have h: "nd_HARBOR ?nd \<noteq> - 1"
  proof -
    have "\<not> bit (push_bit 24 (word_of_int harbor :: u32)) 0" by (simp add: bit_push_bit_iff)
    moreover have "bit (- 1 :: u32) 0" by simp
    ultimately show ?thesis
      by (auto simp: skynet_globalinit_def skynet_harbor_init_def HANDLE_REMOTE_SHIFT_def)
  qed
  have "sched_inv \<lparr>sc_store = nd_store ?nd, sc_held = []\<rparr> []"
    using sched_inv_init by (simp add: sched_init_def skynet_globalinit_def skynet_harbor_init_def)
  with h show ?thesis
    by (auto simp: node_inv_def skynet_globalinit_def skynet_harbor_init_def hs_inv_init names_inv_init)
      (simp add: skynet_handle_init_def)
qed

lemma names_inv_frame:
  assumes "hs_name s' = hs_name s" "hs_name_count s' = hs_name_count s" "hs_name_cap s' = hs_name_cap s"
  shows "names_inv s' = names_inv s"
  using assms by (simp add: names_inv_def hs_names_def)

text \<open>The state of the node just before the module initialises the new service.\<close>

definition before_init :: "string \<Rightarrow> u32 \<Rightarrow> handle_storage \<Rightarrow> skynet_node \<Rightarrow> skynet_node" where
  "before_init name h hs nd = context_inc (nd\<lparr>nd_next_ctx := Suc (nd_next_ctx nd), nd_handles := hs,
     nd_store := snd (skynet_mq_create h (nd_store nd)),
     nd_ctxs := (nd_ctxs nd)(nd_next_ctx nd \<mapsto> new_context name h (mq_fresh (nd_store nd)) (nd_profile nd))\<rparr>)"

lemma before_init_inv:
  assumes inv: "node_inv held nd"
    and room: "unat (hs_handle_index (nd_handles nd)) + hs_slot_size (nd_handles nd) * 2 \<le> 2 ^ 24"
  obtains h hs where "skynet_handle_register (hof nd) (nd_next_ctx nd) (nd_handles nd) = Some (h, hs)"
    "node_inv (mq_fresh (nd_store nd) # held) (before_init name h hs nd)"
    "service nd h = None" "service (before_init name h hs nd) = (service nd)(h \<mapsto> nd_next_ctx nd)"
    "mailbox (before_init name h hs nd) = (mailbox nd)(h \<mapsto> [])"
proof -
  let ?c = "nd_next_ctx nd" and ?q = "mq_fresh (nd_store nd)"
  from inv have fresh: "nd_ctxs nd ?c = None" and hs: "hs_inv (hof nd) (nd_handles nd)"
    and tab: "\<And>d. Some d \<in> set (hs_slot (nd_handles nd)) \<Longrightarrow> nd_ctxs nd d \<noteq> None"
    and inj: "\<And>d x e y. nd_ctxs nd d = Some x \<Longrightarrow> nd_ctxs nd e = Some y \<Longrightarrow> ctx_queue x = ctx_queue y \<Longrightarrow> d = e"
    unfolding node_inv_def by blast+
  from tab fresh have "Some ?c \<notin> set (hs_slot (nd_handles nd))" by blast
  from register_ok [OF hs this room] obtain h hs' where
    r: "skynet_handle_register (hof nd) ?c (nd_handles nd) = Some (h, hs')"
    "hs_inv ((hof nd)(?c := h)) hs'" "handle_lookup (hof nd) h (nd_handles nd) = None"
    "\<And>g. handle_lookup ((hof nd)(?c := h)) g hs' = (if g = h then Some ?c else handle_lookup (hof nd) g (nd_handles nd))"
    "names_inv hs' = names_inv (nd_handles nd)"
    using names_inv_frame by blast
  let ?nd = "before_init name h hs' nd"
  have hof': "hof ?nd = (hof nd)(?c := h)"
    by (auto simp: hof_def before_init_def context_inc_def new_context_def fun_eq_iff)
  have sel: "nd_handles ?nd = hs'" "nd_ctxs ?nd = (nd_ctxs nd)(?c \<mapsto> new_context name h ?q (nd_profile nd))"
    "nd_store ?nd = (nd_store nd)\<lparr>mqs := (mqs (nd_store nd))(?q \<mapsto> skynet_mq_new h), mq_fresh := Suc ?q\<rparr>"
    "nd_heap ?nd = nd_heap nd" "nd_next_addr ?nd = nd_next_addr nd" "nd_HARBOR ?nd = nd_HARBOR nd"
    "nd_next_ctx ?nd = Suc ?c"
    by (simp_all add: before_init_def context_inc_def skynet_mq_create_def)
  have svc: "service ?nd = (service nd)(h \<mapsto> ?c)"
    unfolding service_def hof' sel using r(4) by (auto simp: fun_eq_iff)
  from inv obtain xs where sch: "sched_inv \<lparr>sc_store = nd_store nd, sc_held = held\<rparr> xs" by (auto simp: node_inv_def)
  from sch have q0: "mqs (nd_store nd) ?q = None" by (simp add: sched_inv_def)
  have meta: "qmeta (nd_store ?nd) = (qmeta (nd_store nd))(?q \<mapsto> (h, 0))"
    "qmsgs (nd_store ?nd) = (qmsgs (nd_store nd))(?q \<mapsto> [])"
    by (auto simp: sel qmeta_def qmsgs_def fun_eq_iff) (simp_all add: skynet_mq_new_def)
  have other: "ctx_queue x \<noteq> ?q" if "nd_ctxs nd d = Some x" for d x
    using live_queue [OF inv that] q0 by (metis option.distinct(1))
  have "skynet_mq_create h (nd_store nd) = (?q, nd_store ?nd)"
    by (simp add: skynet_mq_create_def sel)
  from sched_inv_create [OF sch, of h ?q] this have n1: "sched_inv \<lparr>sc_store = nd_store ?nd, sc_held = ?q # held\<rparr> xs"
    by simp
  have n2: "nd_ctxs ?nd d \<noteq> None" if "Some d \<in> set (hs_slot (nd_handles ?nd))" for d
  proof -
    from that r(2) have "Some d \<in> set (hs_slot hs')" by (simp add: sel)
    with r(2) have "handle_lookup ((hof nd)(?c := h)) (((hof nd)(?c := h)) d) hs' = Some d"
      by (simp add: lookup_iff)
    then have "d = ?c \<or> handle_lookup (hof nd) (((hof nd)(?c := h)) d) (nd_handles nd) = Some d"
      by (auto simp only: r(4) split: if_splits)
    then show ?thesis using tab [of d] hs by (auto simp: sel lookup_iff)
  qed
  have n3: "1 \<le> ctx_ref x \<and> qmeta (nd_store ?nd) (ctx_queue x) = Some (ctx_handle x, 0)"
    if "nd_ctxs ?nd d = Some x" for d x
    using that inv other [of d x] unfolding meta
    by (auto simp: sel new_context_def node_inv_def split: if_splits)
  have n4: "d = e" if "nd_ctxs ?nd d = Some x" "nd_ctxs ?nd e = Some y" "ctx_queue x = ctx_queue y" for d e x y
  proof -
    have old: "nd_ctxs nd b = Some z \<and> ctx_queue z \<noteq> ?q" if "nd_ctxs ?nd b = Some z" "b \<noteq> ?c" for b z
      using that other by (simp add: sel(2))
    have new: "ctx_queue z = ?q" if "nd_ctxs ?nd ?c = Some z" for z
      using that by (auto simp: sel(2) new_context_def)
    show ?thesis
      using that old [of d x] old [of e y] new [of x] new [of y] inj by metis
  qed
  have "node_inv (?q # held) ?nd"
  proof (rule node_invI [OF n1 _ _ n2 n3 n4])
    show "hs_inv (hof ?nd) (nd_handles ?nd)" unfolding hof' sel by (rule r(2))
    show "names_inv (nd_handles ?nd)" unfolding sel r(5) by (rule node_inv_fresh [OF inv])
    show "nd_heap ?nd a = None" if "nd_next_addr ?nd \<le> a" for a
      using that node_inv_fresh(1) [OF inv] by (simp add: sel)
    show "nd_ctxs ?nd d = None" if "nd_next_ctx ?nd \<le> d" for d
      using that node_inv_fresh(2) [OF inv] by (simp add: sel)
    show "nd_HARBOR ?nd \<noteq> - 1" using node_inv_fresh(3) [OF inv] by (simp add: sel)
  qed
  moreover have "mailbox ?nd g = ((mailbox nd)(h \<mapsto> [])) g" for g
  proof (cases "g = h")
    case True
    then show ?thesis by (simp add: mailbox_def svc) (simp add: sel(2) meta new_context_def)
  next
    case False
    show ?thesis
    proof (cases "service nd g")
      case None
      with False show ?thesis by (simp add: mailbox_def svc)
    next
      case (Some d)
      from service_live [OF inv Some] obtain x where x: "nd_ctxs nd d = Some x" .
      then have "nd_ctxs ?nd d = Some x" using fresh by (auto simp: sel)
      with Some False other [OF x] x show ?thesis by (simp add: mailbox_def svc meta)
    qed
  qed
  ultimately show thesis
    using that [OF r(1)] r(3) svc by (auto simp: service_def fun_eq_iff)
qed

subsection \<open>The queue of a service that is gone\<close>

lemma sched_inv_pop_released:
  assumes inv: "sched_inv s xs" and i: "i \<in> set (sc_held s)" and q: "mqs (sc_store s) i = Some q"
    and rel: "mq_release q \<noteq> 0"
  obtains q' where "skynet_mq_pop q = Some (case mq_list q of [] \<Rightarrow> None | m # _ \<Rightarrow> Some m, q')"
    "mq_list q' = tl (mq_list q)" "mq_handle q' = mq_handle q" "mq_release q' = mq_release q"
    "sched_inv (s\<lparr>sc_store := (sc_store s)\<lparr>mqs := (mqs (sc_store s))(i \<mapsto> q')\<rparr>\<rparr>) xs"
proof -
  from inv q have ok: "queue_ok q" by (auto simp: sched_inv_def)
  obtain q' where q': "skynet_mq_pop q = Some (case mq_list q of [] \<Rightarrow> None | m # _ \<Rightarrow> Some m, q')"
    "mq_list q' = tl (mq_list q)" "mq_handle q' = mq_handle q" "mq_release q' = mq_release q" "mq_inv q'"
    "mq_next q' = mq_next q" "mq_in_global q' = 0 \<or> mq_in_global q' = MQ_IN_GLOBAL"
  proof (cases "mq_list q")
    case Nil
    with ok mq_pop_empty [of q] show thesis
      by (intro that [of "q\<lparr>mq_overload_threshold := MQ_OVERLOAD, mq_in_global := 0\<rparr>"]) (simp_all add: queue_ok_def)
  next
    case (Cons m ms)
    from ok have "mq_inv q" "mq_in_global q = 0 \<or> mq_in_global q = MQ_IN_GLOBAL" by (simp_all add: queue_ok_def)
    with mq_pop_cons [OF this(1) Cons] Cons that show thesis by auto
  qed
  moreover have "queue_ok q'" "scheduled q'" using q' rel by (simp_all add: queue_ok_def scheduled_def)
  moreover have "distinct (xs @ sc_held s)" using inv by (simp add: sched_inv_def)
  ultimately have "sched_inv (s\<lparr>sc_store := (sc_store s)\<lparr>mqs := (mqs (sc_store s))(i \<mapsto> q')\<rparr>, sc_held := sc_held s\<rparr>) xs"
    using i by (intro sched_inv_update [OF inv q]) auto
  with that q' show thesis by simp
qed

lemma sched_inv_free:
  assumes inv: "sched_inv s xs" and i: "i \<in> set (sc_held s)"
  shows "mq_free i (sc_store s) = Some ((sc_store s)\<lparr>mqs := (mqs (sc_store s))(i := None)\<rparr>) \<and>
    sched_inv (s\<lparr>sc_store := (sc_store s)\<lparr>mqs := (mqs (sc_store s))(i := None)\<rparr>, sc_held := remove1 i (sc_held s)\<rparr>) xs"
proof -
  from held_not_in_global [OF inv i] obtain q where nin: "i \<notin> set xs" and q: "mqs (sc_store s) i = Some q" by blast
  from inv q nin have nx: "mq_next q = None" by (auto simp: sched_inv_def gq_rep_def)
  have "gq_rep ((sc_store s)\<lparr>mqs := (mqs (sc_store s))(i := None)\<rparr>) xs"
    using inv nin by (auto simp: sched_inv_def gq_rep_def) (subst mq_chain_cong [where g = "mqs (sc_store s)"], auto)
  then show ?thesis using inv i q nx by (auto simp: sched_inv_def mq_free_def)
qed

text \<open>The error message that the sender of a dropped message gets.\<close>

definition error_message :: "u32 \<Rightarrow> skynet_message" where
  "error_message source = \<lparr>sm_source = source, sm_session = 0, sm_data = None, sm_sz = type_sz PTYPE_ERROR 0\<rparr>"

text \<open>Appending a message to the mailbox of a handle that has one.\<close>

definition deliver :: "u32 \<Rightarrow> skynet_message \<Rightarrow> (u32 \<Rightarrow> (skynet_message list) option) \<Rightarrow> u32 \<Rightarrow> (skynet_message list) option" where
  "deliver h m f = f(h := map_option (\<lambda>ms. ms @ [m]) (f h))"

lemma deliver_nobody: "f h = None \<Longrightarrow> deliver h m f = f"
  by (auto simp: deliver_def)

lemma send_error_ok:
  assumes inv: "node_inv held nd" and src: "source \<noteq> 0"
    and loc: "skynet_harbor_message_isremote dest nd = Some False"
  obtains r st where "skynet_send code None source dest PTYPE_ERROR 0 None 0 nd = Some (r, nd\<lparr>nd_store := st\<rparr>)"
    "node_inv held (nd\<lparr>nd_store := st\<rparr>)" "qmeta st = qmeta (nd_store nd)"
    "mailbox (nd\<lparr>nd_store := st\<rparr>) = (if dest = 0 then mailbox nd else deliver dest (error_message source) (mailbox nd))"
    "\<forall>i g r. qmeta (nd_store nd) i = Some (g, r) \<and> r \<noteq> 0 \<longrightarrow> qmsgs st i = qmsgs (nd_store nd) i"
proof -
  have tag: "\<not> has_tag PTYPE_ERROR PTYPE_TAG_ALLOCSESSION" "PTYPE_ERROR AND 0xff = PTYPE_ERROR"
    by (simp_all add: has_tag_def PTYPE_ERROR_def PTYPE_TAG_ALLOCSESSION_def)
  have send: "skynet_send code None source dest PTYPE_ERROR 0 None 0 nd =
      (if dest = 0 then Some (0, nd) else send_local code dest (error_message source) nd)"
    using src loc tag by (simp add: skynet_send_def filter_args_def ctx_source_def error_message_def)
  show thesis
  proof (cases "dest = 0 \<or> service nd dest = None")
    case True
    then have "skynet_send code None source dest PTYPE_ERROR 0 None 0 nd = Some (if dest = 0 then 0 else - 1, nd)"
      using send context_push_missing [of nd dest code "error_message source"]
      by (auto simp: send_local_def skynet_free_def error_message_def)
    moreover have "mailbox nd = (if dest = 0 then mailbox nd else deliver dest (error_message source) (mailbox nd))"
      using True inv by (auto simp: deliver_nobody mailbox_None_iff)
    ultimately show thesis using inv by (intro that [of _ "nd_store nd"]) simp_all
  next
    case False
    then obtain c where "service nd dest = Some c" by auto
    from context_push_ok [OF inv this, of code "error_message source"] obtain st where
      "skynet_context_push code dest (error_message source) nd = Some (0, nd\<lparr>nd_store := st\<rparr>)"
      and st: "node_inv held (nd\<lparr>nd_store := st\<rparr>)" "qmeta st = qmeta (nd_store nd)"
      "mailbox (nd\<lparr>nd_store := st\<rparr>) = deliver dest (error_message source) (mailbox nd)"
      "\<forall>i g r. qmeta (nd_store nd) i = Some (g, r) \<and> r \<noteq> 0 \<longrightarrow> qmsgs st i = qmsgs (nd_store nd) i"
      unfolding deliver_def by blast
    then have "skynet_send code None source dest PTYPE_ERROR 0 None 0 nd = Some (0, nd\<lparr>nd_store := st\<rparr>)"
      using send False by (simp add: send_local_def error_message_def)
    with st False show thesis by (intro that [of 0 st]) simp_all
  qed
qed

text \<open>The data of the messages: each block is allocated and belongs to one message.\<close>

definition owned :: "skynet_node \<Rightarrow> skynet_message list \<Rightarrow> bool" where
  "owned nd ms \<longleftrightarrow> distinct (List.map_filter sm_data ms) \<and>
     (\<forall>a \<in> set (List.map_filter sm_data ms). nd_heap nd a \<noteq> None)"

definition local_sources :: "skynet_node \<Rightarrow> skynet_message list \<Rightarrow> bool" where
  "local_sources nd ms \<longleftrightarrow> list_all (\<lambda>m. skynet_harbor_message_isremote (sm_source m) nd = Some False) ms"

definition drop_heap :: "skynet_message list \<Rightarrow> (addr \<Rightarrow> block option) \<Rightarrow> addr \<Rightarrow> block option" where
  "drop_heap ms hp a = (if a \<in> set (List.map_filter sm_data ms) then None else hp a)"

definition report :: "u32 \<Rightarrow> skynet_message \<Rightarrow> (u32 \<Rightarrow> (skynet_message list) option) \<Rightarrow> u32 \<Rightarrow> (skynet_message list) option" where
  "report h m f = (if sm_source m = 0 then f else deliver (sm_source m) (error_message h) f)"

lemma isremote_frame:
  "nd_HARBOR nd' = nd_HARBOR nd \<Longrightarrow> skynet_harbor_message_isremote h nd' = skynet_harbor_message_isremote h nd"
  by (simp add: skynet_harbor_message_isremote_def)

lemma drop_message_ok:
  assumes inv: "node_inv held nd" and src: "source \<noteq> 0" and own: "owned nd (m # ms)"
    and loc: "local_sources nd (m # ms)"
  obtains nd' where "drop_message code source m nd = Some nd'" "node_inv held nd'"
    "nd_heap nd' = drop_heap [m] (nd_heap nd)" "mailbox nd' = report source m (mailbox nd)"
    "qmeta (nd_store nd') = qmeta (nd_store nd)" "owned nd' ms" "local_sources nd' ms"
    "nd_ctxs nd' = nd_ctxs nd" "nd_handles nd' = nd_handles nd"
    "\<forall>i g r. qmeta (nd_store nd) i = Some (g, r) \<and> r \<noteq> 0 \<longrightarrow> qmsgs (nd_store nd') i = qmsgs (nd_store nd) i"
proof -
  let ?nd1 = "nd\<lparr>nd_heap := drop_heap [m] (nd_heap nd)\<rparr>"
  have free: "skynet_free (sm_data m) nd = Some ?nd1"
    using own by (cases "sm_data m")
      (auto simp: skynet_free_def drop_heap_def owned_def List.map_filter_simps fun_eq_iff intro!: skynet_node.equality)
  have inv1: "node_inv held ?nd1"
    using inv by (auto simp: node_inv_def drop_heap_def)
  have "skynet_harbor_message_isremote (sm_source m) ?nd1 = Some False"
    using loc by (simp add: local_sources_def isremote_frame [of ?nd1 nd])
  from send_error_ok [OF inv1 src this, where code = code] obtain r st where
    st: "skynet_send code None source (sm_source m) PTYPE_ERROR 0 None 0 ?nd1 = Some (r, ?nd1\<lparr>nd_store := st\<rparr>)"
    "node_inv held (?nd1\<lparr>nd_store := st\<rparr>)" "qmeta st = qmeta (nd_store ?nd1)"
    "mailbox (?nd1\<lparr>nd_store := st\<rparr>) = (if sm_source m = 0 then mailbox ?nd1
       else deliver (sm_source m) (error_message source) (mailbox ?nd1))"
    "\<forall>i g r. qmeta (nd_store ?nd1) i = Some (g, r) \<and> r \<noteq> 0 \<longrightarrow> qmsgs st i = qmsgs (nd_store ?nd1) i" .
  let ?nd2 = "?nd1\<lparr>nd_store := st\<rparr>"
  have "drop_message code source m nd = Some ?nd2" using free src st(1) by (simp add: drop_message_def)
  moreover have "owned ?nd2 ms"
    using own by (auto simp: owned_def drop_heap_def List.map_filter_simps split: option.splits)
  moreover have "local_sources ?nd2 ms"
    using loc by (simp add: local_sources_def isremote_frame [of ?nd2 nd])
  moreover have "mailbox ?nd2 = report source m (mailbox nd)" using st(4) by (simp add: report_def)
  ultimately show thesis using st(2,3,5) by (intro that [of ?nd2]) simp_all
qed

lemma node_inv_pop_released:
  assumes inv: "node_inv held nd" and i: "i \<in> set held" and rel: "qmeta (nd_store nd) i = Some (h, r)" "r \<noteq> 0"
    and ms: "qmsgs (nd_store nd) i = Some ms"
  obtains st where "mq_pop i nd = Some (case ms of [] \<Rightarrow> None | m # _ \<Rightarrow> Some m, nd\<lparr>nd_store := st\<rparr>)"
    "node_inv held (nd\<lparr>nd_store := st\<rparr>)" "qmeta st = qmeta (nd_store nd)" "qmsgs st i = Some (tl ms)"
    "mailbox (nd\<lparr>nd_store := st\<rparr>) = mailbox nd"
proof -
  from rel ms obtain q where q: "mqs (nd_store nd) i = Some q" "mq_handle q = h" "mq_release q = r" "mq_list q = ms"
    by (auto simp: qmeta_def qmsgs_def)
  from inv obtain xs where sch: "sched_inv \<lparr>sc_store = nd_store nd, sc_held = held\<rparr> xs" by (auto simp: node_inv_def)
  from sched_inv_pop_released [OF sch, of i q] i q rel obtain q' where
    q': "skynet_mq_pop q = Some (case mq_list q of [] \<Rightarrow> None | m # _ \<Rightarrow> Some m, q')"
    "mq_list q' = tl ms" "mq_handle q' = mq_handle q" "mq_release q' = mq_release q"
    "sched_inv \<lparr>sc_store = (nd_store nd)\<lparr>mqs := (mqs (nd_store nd))(i \<mapsto> q')\<rparr>, sc_held = held\<rparr> xs"
    by auto
  let ?st = "(nd_store nd)\<lparr>mqs := (mqs (nd_store nd))(i \<mapsto> q')\<rparr>"
  have meta: "qmeta ?st = qmeta (nd_store nd)" using q q' by (auto simp: qmeta_def fun_eq_iff)
  have live: "ctx_queue x \<noteq> i" if "nd_ctxs nd c = Some x" for c x
    using live_queue [OF inv that] q rel by (metis option.inject)
  have "mailbox (nd\<lparr>nd_store := ?st\<rparr>) g = mailbox nd g" for g
  proof (cases "service nd g")
    case None
    then show ?thesis by (simp add: mailbox_def)
  next
    case (Some c)
    from service_live [OF inv Some] obtain x where "nd_ctxs nd c = Some x" .
    with live [OF this] Some show ?thesis by (simp add: mailbox_def qmsgs_def)
  qed
  moreover have "mq_pop i nd = Some (case ms of [] \<Rightarrow> None | m # _ \<Rightarrow> Some m, nd\<lparr>nd_store := ?st\<rparr>)"
    using q q' by (simp add: mq_pop_def)
  moreover have "qmsgs ?st i = Some (tl ms)" using q' by (simp add: qmsgs_def)
  ultimately show thesis using that meta node_inv_store [OF inv q'(5) meta] by blast
qed

lemma drop_messages_ok:
  assumes "node_inv held nd" "i \<in> set held" "qmeta (nd_store nd) i = Some (h, r)" "r \<noteq> 0" "h \<noteq> 0"
    "qmsgs (nd_store nd) i = Some ms" "owned nd ms" "local_sources nd ms"
  shows "\<exists>nd'. drop_messages code h i nd = Some nd' \<and> node_inv held nd' \<and>
    nd_heap nd' = drop_heap ms (nd_heap nd) \<and> mailbox nd' = fold (report h) ms (mailbox nd) \<and>
    qmeta (nd_store nd') = qmeta (nd_store nd) \<and> nd_ctxs nd' = nd_ctxs nd \<and> nd_handles nd' = nd_handles nd"
  using assms
proof (induction ms arbitrary: nd)
  case Nil
  from node_inv_pop_released [OF Nil.prems(1-4,6)] obtain st where
    "mq_pop i nd = Some (None, nd\<lparr>nd_store := st\<rparr>)" "node_inv held (nd\<lparr>nd_store := st\<rparr>)"
    "qmeta st = qmeta (nd_store nd)" "mailbox (nd\<lparr>nd_store := st\<rparr>) = mailbox nd" by auto
  then show ?case
    by (subst drop_messages.simps) (auto simp: drop_heap_def List.map_filter_simps)
next
  case (Cons m ms)
  from node_inv_pop_released [OF Cons.prems(1-4,6)] obtain st where
    st: "mq_pop i nd = Some (Some m, nd\<lparr>nd_store := st\<rparr>)" "node_inv held (nd\<lparr>nd_store := st\<rparr>)"
    "qmeta st = qmeta (nd_store nd)" "qmsgs st i = Some ms" "mailbox (nd\<lparr>nd_store := st\<rparr>) = mailbox nd" by auto
  let ?nd1 = "nd\<lparr>nd_store := st\<rparr>"
  have "owned ?nd1 (m # ms)" "local_sources ?nd1 (m # ms)"
    using Cons.prems(7,8) by (simp_all add: owned_def local_sources_def isremote_frame [of ?nd1 nd])
  from drop_message_ok [OF st(2) Cons.prems(5) this, where code = code] obtain nd2 where
    nd2: "drop_message code h m ?nd1 = Some nd2" "node_inv held nd2"
    "nd_heap nd2 = drop_heap [m] (nd_heap ?nd1)" "mailbox nd2 = report h m (mailbox ?nd1)"
    "qmeta (nd_store nd2) = qmeta (nd_store ?nd1)" "owned nd2 ms" "local_sources nd2 ms"
    "nd_ctxs nd2 = nd_ctxs ?nd1" "nd_handles nd2 = nd_handles ?nd1"
    "\<forall>j g r. qmeta (nd_store ?nd1) j = Some (g, r) \<and> r \<noteq> 0 \<longrightarrow> qmsgs (nd_store nd2) j = qmsgs (nd_store ?nd1) j" .
  have "qmsgs (nd_store nd2) i = Some ms" "qmeta (nd_store nd2) i = Some (h, r)"
    using nd2(5,10) st(3,4) Cons.prems(3,4) by simp_all
  from Cons.IH [OF nd2(2) Cons.prems(2) this(2) Cons.prems(4,5) this(1) nd2(6,7)] obtain nd3 where
    "drop_messages code h i nd2 = Some nd3" "node_inv held nd3"
    "nd_heap nd3 = drop_heap ms (nd_heap nd2)" "mailbox nd3 = fold (report h) ms (mailbox nd2)"
    "qmeta (nd_store nd3) = qmeta (nd_store nd2)" "nd_ctxs nd3 = nd_ctxs nd2" "nd_handles nd3 = nd_handles nd2"
    by auto
  moreover have "drop_heap ms (drop_heap [m] (nd_heap nd)) = drop_heap (m # ms) (nd_heap nd)"
    by (auto simp: drop_heap_def List.map_filter_simps fun_eq_iff split: option.splits)
  ultimately show ?case
    using st nd2 by (subst drop_messages.simps) auto
qed

lemma node_inv_free_queue:
  assumes inv: "node_inv held nd" and i: "i \<in> set held" and rel: "qmeta (nd_store nd) i = Some (h, r)" "r \<noteq> 0"
  obtains st where "mq_free i (nd_store nd) = Some st" "mqs st i = None" "node_inv (remove1 i held) (nd\<lparr>nd_store := st\<rparr>)"
    "mailbox (nd\<lparr>nd_store := st\<rparr>) = mailbox nd"
proof -
  let ?st = "(nd_store nd)\<lparr>mqs := (mqs (nd_store nd))(i := None)\<rparr>" and ?nd = "nd\<lparr>nd_store := (nd_store nd)\<lparr>mqs := (mqs (nd_store nd))(i := None)\<rparr>\<rparr>"
  from inv obtain xs where sch: "sched_inv \<lparr>sc_store = nd_store nd, sc_held = held\<rparr> xs" by (auto simp: node_inv_def)
  from sched_inv_free [OF sch, of i] i have free: "mq_free i (nd_store nd) = Some ?st"
    and sch': "sched_inv \<lparr>sc_store = nd_store ?nd, sc_held = remove1 i held\<rparr> xs" by simp_all
  have live: "ctx_queue x \<noteq> i" if "nd_ctxs nd c = Some x" for c x
    using node_inv_ctx(2) [OF inv that] rel by auto
  have meta: "qmeta ?st = (qmeta (nd_store nd))(i := None)" "qmsgs ?st = (qmsgs (nd_store nd))(i := None)"
    by (auto simp: qmeta_def qmsgs_def)
  have "node_inv (remove1 i held) ?nd"
  proof (rule node_invI [OF sch'])
    show "1 \<le> ctx_ref x \<and> qmeta (nd_store ?nd) (ctx_queue x) = Some (ctx_handle x, 0)" if "nd_ctxs ?nd c = Some x" for c x
      using that live [of c x] node_inv_ctx [OF inv, of c x] by (simp add: meta)
    show "c = d" if "nd_ctxs ?nd c = Some x" "nd_ctxs ?nd d = Some y" "ctx_queue x = ctx_queue y" for c d x y
      by (rule node_inv_inj [OF inv, of c x d y]) (use that in simp_all)
  qed (use node_inv_fresh [OF inv] node_inv_table [OF inv] in simp_all)
  moreover have "mailbox ?nd g = mailbox nd g" for g
  proof (cases "service nd g")
    case None
    then show ?thesis by (simp add: mailbox_def)
  next
    case (Some c)
    from service_live [OF inv Some] obtain x where "nd_ctxs nd c = Some x" .
    with live [OF this] Some show ?thesis by (simp add: mailbox_def meta)
  qed
  ultimately show thesis using that [OF free] by auto
qed

lemma mq_release_node_ok:
  assumes "node_inv held nd" "i \<in> set held" "qmeta (nd_store nd) i = Some (h, r)" "r \<noteq> 0" "h \<noteq> 0"
    "qmsgs (nd_store nd) i = Some ms" "owned nd ms" "local_sources nd ms"
  obtains nd' where "mq_release_node code h i nd = Some nd'" "node_inv (remove1 i held) nd'"
    "mqs (nd_store nd') i = None" "nd_heap nd' = drop_heap ms (nd_heap nd)"
    "mailbox nd' = fold (report h) ms (mailbox nd)"
proof -
  from drop_messages_ok [OF assms, of code] obtain nd1 where nd1: "drop_messages code h i nd = Some nd1" "node_inv held nd1"
    "nd_heap nd1 = drop_heap ms (nd_heap nd)" "mailbox nd1 = fold (report h) ms (mailbox nd)"
    "qmeta (nd_store nd1) i = Some (h, r)" using assms(3) by auto
  from node_inv_free_queue [OF nd1(2) assms(2) nd1(5) assms(4)] obtain st where
    st: "mq_free i (nd_store nd1) = Some st" "mqs st i = None" "node_inv (remove1 i held) (nd1\<lparr>nd_store := st\<rparr>)"
    "mailbox (nd1\<lparr>nd_store := st\<rparr>) = mailbox nd1" .
  from assms(3) obtain q where "mqs (nd_store nd) i = Some q" "mq_release q = r" by (auto simp: qmeta_def)
  then have "mq_release_node code h i nd = Some (nd1\<lparr>nd_store := st\<rparr>)"
    using assms(4) nd1(1) st(1) by (simp add: mq_release_node_def)
  with that [of "nd1\<lparr>nd_store := st\<rparr>"] st nd1 show thesis by simp
qed

lemma same_queues_meta: "same_queues s s' \<Longrightarrow> qmeta s' = qmeta s \<and> qmsgs s' = qmsgs s"
proof -
  assume same: "same_queues s s'"
  have "qmeta s' j = qmeta s j \<and> qmsgs s' j = qmsgs s j" for j
  proof -
    from same have "map_option (\<lambda>r. r\<lparr>mq_next := None\<rparr>) (mqs s' j) = map_option (\<lambda>r. r\<lparr>mq_next := None\<rparr>) (mqs s j)"
      by (simp add: same_queues_def)
    then have "map_option (\<lambda>q. (mq_handle q, mq_release q)) (map_option (\<lambda>r. r\<lparr>mq_next := None\<rparr>) (mqs s' j)) =
        map_option (\<lambda>q. (mq_handle q, mq_release q)) (map_option (\<lambda>r. r\<lparr>mq_next := None\<rparr>) (mqs s j))"
      "map_option mq_list (map_option (\<lambda>r. r\<lparr>mq_next := None\<rparr>) (mqs s' j)) =
        map_option mq_list (map_option (\<lambda>r. r\<lparr>mq_next := None\<rparr>) (mqs s j))" by (simp_all only:)
    then show ?thesis by (simp add: qmeta_def qmsgs_def option.map_comp comp_def)
  qed
  then show ?thesis by (simp add: fun_eq_iff)
qed

lemma mailbox_store:
  assumes "qmsgs st = qmsgs (nd_store nd)"
  shows "mailbox (nd\<lparr>nd_store := st\<rparr>) = mailbox nd"
  using assms by (simp add: mailbox_def fun_eq_iff)

lemma node_inv_held:
  assumes "node_inv held nd" "sched_inv \<lparr>sc_store = st, sc_held = held'\<rparr> ys" "qmeta st = qmeta (nd_store nd)"
  shows "node_inv held' (nd\<lparr>nd_store := st\<rparr>)"
  using assms by (auto simp: node_inv_def)

lemma globalmq_pop_ok:
  assumes inv: "node_inv held nd"
  obtains nq st where "globalmq_pop nd = Some (nq, nd\<lparr>nd_store := st\<rparr>)"
    "node_inv ((case nq of None \<Rightarrow> [] | Some j \<Rightarrow> [j]) @ held) (nd\<lparr>nd_store := st\<rparr>)"
    "mailbox (nd\<lparr>nd_store := st\<rparr>) = mailbox nd" "qmeta st = qmeta (nd_store nd)"
proof -
  from inv obtain xs where sch: "sched_inv \<lparr>sc_store = nd_store nd, sc_held = held\<rparr> xs" by (auto simp: node_inv_def)
  then have rep: "gq_rep (nd_store nd) xs" by (simp add: sched_inv_def)
  show thesis
  proof (cases xs)
    case Nil
    with gq_pop_empty [of "nd_store nd"] rep inv show thesis
      by (intro that [of None "nd_store nd"]) (simp_all add: globalmq_pop_def)
  next
    case (Cons j ys)
    with gq_pop_cons [of "nd_store nd" j ys] rep obtain st where
      st: "skynet_globalmq_pop (nd_store nd) = Some (Some j, st)" "same_queues (nd_store nd) st"
      by (auto simp: same_queues_def)
    from sched_inv_take [OF sch, of j st] st(1) obtain zs where
      "sched_inv \<lparr>sc_store = st, sc_held = j # held\<rparr> zs" by auto
    with st same_queues_meta [OF st(2)] inv show thesis
      by (intro that [of "Some j" st]) (auto simp: globalmq_pop_def mailbox_store intro: node_inv_held)
  qed
qed

subsection \<open>Retiring a service\<close>

lemma mark_release_effect:
  assumes "skynet_mq_mark_release i s = Some st" "mqs s i = Some q"
  shows "qmeta st = (qmeta s)(i \<mapsto> (mq_handle q, 1)) \<and> qmsgs st = qmsgs s"
proof -
  let ?s = "s\<lparr>mqs := (mqs s)(i \<mapsto> q\<lparr>mq_release := 1\<rparr>)\<rparr>"
  have "qmeta ?s = (qmeta s)(i \<mapsto> (mq_handle q, 1)) \<and> qmsgs ?s = qmsgs s"
    using assms(2) by (auto simp: qmeta_def qmsgs_def fun_eq_iff)
  with assms globalmq_push_frame [of i ?s st] show ?thesis
    by (auto simp: skynet_mq_mark_release_def Let_def split: if_splits)
qed

lemma hs_inv_cong:
  assumes "\<And>c. Some c \<in> set (hs_slot s) \<Longrightarrow> f c = g c" "hs_inv f s"
  shows "hs_inv g s" "handle_lookup g h s = handle_lookup f h s"
proof -
  have fg: "g c = f c" if "i < hs_slot_size s" "hs_slot s ! i = Some c" for i c
    using assms(1) [of c] that nth_mem [of i "hs_slot s"] assms(2) by (simp add: hs_inv_def)
  show inv: "hs_inv g s" using assms(2) fg by (simp add: hs_inv_def)
  have "handle_lookup g h s = Some c \<longleftrightarrow> handle_lookup f h s = Some c" for c
    using assms(1) [of c] by (auto simp: lookup_iff [OF inv] lookup_iff [OF assms(2)])
  then show "handle_lookup g h s = handle_lookup f h s" by (metis option.exhaust)
qed

lemma retire_table:
  assumes inv: "node_inv held nd" and c: "service nd h = Some c"
  obtains hs where "skynet_handle_retire (hof nd) h (nd_handles nd) = Some (Some c, hs)"
    "hs_inv (hof nd) hs" "names_inv hs" "\<And>g. handle_lookup (hof nd) g hs = ((service nd)(h := None)) g"
    "Some c \<notin> set (hs_slot hs)" "\<And>d. Some d \<in> set (hs_slot hs) \<Longrightarrow> Some d \<in> set (hs_slot (nd_handles nd))"
proof -
  from c have c': "handle_lookup (hof nd) h (nd_handles nd) = Some c" by (simp add: service_def)
  from retire_ok [OF node_inv_table(1) [OF inv] node_inv_fresh(4) [OF inv] c'] obtain hs where
    hs: "skynet_handle_retire (hof nd) h (nd_handles nd) = Some (Some c, hs)" "hs_inv (hof nd) hs" "names_inv hs"
    "\<And>g. handle_lookup (hof nd) g hs = (if g = h then None else handle_lookup (hof nd) g (nd_handles nd))" by blast
  have hc: "hof nd c = h" using c' by (simp add: lookup_iff [OF node_inv_table(1) [OF inv]])
  have sub: "Some d \<in> set (hs_slot (nd_handles nd))" if "Some d \<in> set (hs_slot hs)" for d
  proof -
    from that have "handle_lookup (hof nd) (hof nd d) hs = Some d" by (simp add: lookup_iff [OF hs(2)])
    then have "handle_lookup (hof nd) (hof nd d) (nd_handles nd) = Some d" by (simp add: hs(4) split: if_splits)
    then show ?thesis by (simp add: lookup_iff [OF node_inv_table(1) [OF inv]])
  qed
  have "Some c \<notin> set (hs_slot hs)"
  proof
    assume "Some c \<in> set (hs_slot hs)"
    then have "handle_lookup (hof nd) h hs = Some c" using hc by (simp add: lookup_iff [OF hs(2)])
    then show False by (simp add: hs(4))
  qed
  with that hs sub show thesis by (simp add: service_def)
qed

text \<open>Only the table held a reference: the context goes and its queue is marked, with its messages.\<close>

lemma retire_last:
  assumes inv: "node_inv held nd" and c: "service nd h = Some c" and x: "nd_ctxs nd c = Some x" "ctx_ref x = 1"
    and rel: "\<And>n. mod_release code (ctx_mod x) n = Some n"
  obtains nd' where "handle_retire code h nd = Some (1, nd')" "node_inv held nd'"
    "nd_ctxs nd' = (nd_ctxs nd)(c := None)" "service nd' = (service nd)(h := None)"
    "qmeta (nd_store nd') = (qmeta (nd_store nd))(ctx_queue x \<mapsto> (h, 1))" "qmsgs (nd_store nd') = qmsgs (nd_store nd)"
    "nd_heap nd' = nd_heap nd" "nd_total nd' = nd_total nd - 1" "nd_HARBOR nd' = nd_HARBOR nd"
proof -
  from retire_table [OF inv c] obtain hs where
    hs: "skynet_handle_retire (hof nd) h (nd_handles nd) = Some (Some c, hs)"
    "hs_inv (hof nd) hs" "names_inv hs" "\<And>g. handle_lookup (hof nd) g hs = ((service nd)(h := None)) g"
    "Some c \<notin> set (hs_slot hs)" "\<And>d. Some d \<in> set (hs_slot hs) \<Longrightarrow> Some d \<in> set (hs_slot (nd_handles nd))" by metis
  from live_queue [OF inv x(1)] obtain q where q: "mqs (nd_store nd) (ctx_queue x) = Some q" "mq_release q = 0"
    "mq_handle q = ctx_handle x" .
  from service_live [OF inv c] x(1) have hx: "ctx_handle x = h" by force
  from inv obtain xs where sch: "sched_inv \<lparr>sc_store = nd_store nd, sc_held = held\<rparr> xs" by (auto simp: node_inv_def)
  from sched_inv_mark [OF sch, of "ctx_queue x" q] q obtain st ys where
    st: "skynet_mq_mark_release (ctx_queue x) (nd_store nd) = Some st" "sched_inv \<lparr>sc_store = st, sc_held = held\<rparr> ys"
    by auto
  from mark_release_effect [OF st(1) q(1)] q hx have eff:
    "qmeta st = (qmeta (nd_store nd))(ctx_queue x \<mapsto> (h, 1))" "qmsgs st = qmsgs (nd_store nd)" by simp_all
  let ?nd = "nd\<lparr>nd_handles := hs, nd_store := st, nd_ctxs := (nd_ctxs nd)(c := None), nd_total := nd_total nd - 1\<rparr>"
  have ret: "handle_retire code h nd = Some (1, ?nd)"
    using hs(1) x st(1) rel
    by (simp add: handle_retire_def skynet_context_release_def delete_context_def put_ctx_def context_dec_def)
  have hof': "hof ?nd d = hof nd d" if "d \<noteq> c" for d using that by (simp add: hof_def)
  have hsi: "hs_inv (hof ?nd) hs" "\<And>g. handle_lookup (hof ?nd) g hs = handle_lookup (hof nd) g hs"
    using hs_inv_cong [of hs "hof nd" "hof ?nd"] hs(2,5) hof' by metis+
  have svc: "service ?nd = (service nd)(h := None)"
    using hs(4) hsi(2) by (simp add: service_def fun_eq_iff)
  have "node_inv held ?nd"
  proof (rule node_invI [where xs = ys])
    show "sched_inv \<lparr>sc_store = nd_store ?nd, sc_held = held\<rparr> ys" using st(2) by simp
    show "hs_inv (hof ?nd) (nd_handles ?nd)" using hsi(1) by simp
    show "names_inv (nd_handles ?nd)" using hs(3) by simp
    show "nd_ctxs ?nd d \<noteq> None" if "Some d \<in> set (hs_slot (nd_handles ?nd))" for d
      using that hs(5) hs(6) [of d] node_inv_table(2) [OF inv, of d] by auto
    show "1 \<le> ctx_ref y \<and> qmeta (nd_store ?nd) (ctx_queue y) = Some (ctx_handle y, 0)" if "nd_ctxs ?nd d = Some y" for d y
    proof -
      from that have y: "nd_ctxs nd d = Some y" "d \<noteq> c" by (auto split: if_splits)
      with node_inv_inj [OF inv y(1) x(1)] have "ctx_queue y \<noteq> ctx_queue x" by blast
      with node_inv_ctx [OF inv y(1)] eff show ?thesis by simp
    qed
    show "d = e" if "nd_ctxs ?nd d = Some y" "nd_ctxs ?nd e = Some z" "ctx_queue y = ctx_queue z" for d e y z
      by (rule node_inv_inj [OF inv, of d y e z]) (use that in \<open>auto split: if_splits\<close>)
  qed (use node_inv_fresh [OF inv] in auto)
  with that [OF ret] svc eff show thesis by simp
qed

text \<open>What the entry point \<^verbatim>\<open>release\<close> of a module leaves alone while its context \<open>c\<close> with the queue \<open>q\<close> and the waiting messages \<open>ms\<close> is
  deleted: the table of services, who the contexts are, the queue, and the data of the messages in it. It may free what the service had
  allocated, send messages to other services, and change all that is outside of the node.\<close>

definition ctx_ids :: "skynet_node \<Rightarrow> cid \<Rightarrow> (u32 \<times> qid) option" where
  "ctx_ids nd d = map_option (\<lambda>y. (ctx_handle y, ctx_queue y)) (nd_ctxs nd d)"

definition release_leaves :: "qid list \<Rightarrow> cid \<Rightarrow> qid \<Rightarrow> skynet_message list \<Rightarrow> skynet_node \<Rightarrow> skynet_node \<Rightarrow> bool" where
  "release_leaves held c q ms n n' \<longleftrightarrow> node_inv held (n'\<lparr>nd_ctxs := (nd_ctxs n')(c := None)\<rparr>) \<and> ctx_ids n' = ctx_ids n \<and>
     nd_handles n' = nd_handles n \<and> nd_HARBOR n' = nd_HARBOR n \<and>
     qmeta (nd_store n') q = qmeta (nd_store n) q \<and> qmsgs (nd_store n') q = qmsgs (nd_store n) q \<and>
     (\<forall>a \<in> set (List.map_filter sm_data ms). nd_heap n' a = nd_heap n a)"

text \<open>The node in which the entry point is called: the handle is gone, and there is no reference to the context any more.\<close>

definition before_release :: "cid \<Rightarrow> skynet_context \<Rightarrow> handle_storage \<Rightarrow> skynet_node \<Rightarrow> skynet_node" where
  "before_release c x hs nd = put_ctx c (x\<lparr>ctx_ref := 0\<rparr>) (nd\<lparr>nd_handles := hs\<rparr>)"

lemma ctx_ids_hof: "ctx_ids n' = ctx_ids n \<Longrightarrow> hof n' = hof n"
  unfolding ctx_ids_def hof_def by (rule ext, drule_tac x = c in fun_cong) (auto split: option.splits)

lemma retire_release:
  assumes inv: "node_inv held nd" and c: "service nd h = Some c" and x: "nd_ctxs nd c = Some x" "ctx_ref x = 1"
    and hs: "skynet_handle_retire (hof nd) h (nd_handles nd) = Some (Some c, hs)"
    and rel: "mod_release code (ctx_mod x) (before_release c x hs nd) = Some n'"
    and leaves: "release_leaves held c (ctx_queue x) ms (before_release c x hs nd) n'"
  obtains nd' where "handle_retire code h nd = Some (1, nd')" "node_inv held nd'" "nd_ctxs nd' c = None" "service nd' h = None"
    "qmeta (nd_store nd') (ctx_queue x) = Some (h, 1)" "qmsgs (nd_store nd') (ctx_queue x) = qmsgs (nd_store nd) (ctx_queue x)"
    "mailbox nd' = mailbox n'" "nd_heap nd' = nd_heap n'" "nd_HARBOR nd' = nd_HARBOR nd"
proof -
  let ?n = "before_release c x hs nd" and ?i = "ctx_queue x"
  let ?w = "n'\<lparr>nd_ctxs := (nd_ctxs n')(c := None)\<rparr>"
  from retire_table [OF inv c] obtain hs' where t: "skynet_handle_retire (hof nd) h (nd_handles nd) = Some (Some c, hs')"
    "hs_inv (hof nd) hs'" "\<And>g. handle_lookup (hof nd) g hs' = ((service nd)(h := None)) g" "Some c \<notin> set (hs_slot hs')" by metis
  have "hs' = hs" using t(1) hs by simp
  with t have tab: "hs_inv (hof nd) hs" "handle_lookup (hof nd) h hs = None" "Some c \<notin> set (hs_slot hs)" by simp_all
  from service_live [OF inv c] x(1) have hx: "ctx_handle x = h" by force
  have frame: "ctx_ids ?n = ctx_ids nd" "nd_handles ?n = hs" "nd_store ?n = nd_store nd" "nd_HARBOR ?n = nd_HARBOR nd"
    using x(1) by (auto simp: before_release_def put_ctx_def ctx_ids_def fun_eq_iff)
  note lv = leaves [unfolded release_leaves_def frame]
  have w: "node_inv held ?w" and ids: "ctx_ids n' = ctx_ids nd" and tbl: "nd_handles n' = hs" using lv by blast+
  have hofn: "hof n' = hof nd" by (rule ctx_ids_hof [OF ids])
  from ids x(1) obtain y where y: "nd_ctxs n' c = Some y" "ctx_queue y = ?i" "ctx_handle y = h"
    using hx by (auto simp: ctx_ids_def fun_eq_iff dest!: spec [of _ c])
  have meta: "qmeta (nd_store n') ?i = Some (h, 0)" using lv node_inv_ctx(2) [OF inv x(1)] hx by simp
  then obtain q where q: "mqs (nd_store n') ?i = Some q" "mq_release q = 0" "mq_handle q = h" by (auto simp: qmeta_def)
  from w obtain xs where "sched_inv \<lparr>sc_store = nd_store n', sc_held = held\<rparr> xs" by (auto simp: node_inv_def)
  from sched_inv_mark [OF this, of ?i q] q obtain st ys where
    st: "skynet_mq_mark_release ?i (nd_store n') = Some st" "sched_inv \<lparr>sc_store = st, sc_held = held\<rparr> ys" by auto
  from mark_release_effect [OF st(1) q(1)] q(3) have eff:
    "qmeta st = (qmeta (nd_store n'))(?i \<mapsto> (h, 1))" "qmsgs st = qmsgs (nd_store n')" by simp_all
  let ?nd = "?w\<lparr>nd_store := st, nd_total := nd_total n' - 1\<rparr>"
  have ret: "handle_retire code h nd = Some (1, ?nd)"
    using hs x rel st(1) y(1,2)
    by (simp add: handle_retire_def skynet_context_release_def delete_context_def context_dec_def before_release_def)
  have hofw: "hof ?nd d = hof nd d" if "d \<noteq> c" for d using that hofn by (simp add: hof_def fun_eq_iff)
  have look: "hs_inv (hof ?nd) hs" "\<And>g. handle_lookup (hof ?nd) g hs = handle_lookup (hof nd) g hs"
    using hs_inv_cong [of hs "hof nd" "hof ?nd"] tab(1,3) hofw by metis+
  have svc: "service ?nd g = handle_lookup (hof nd) g hs" for g using look(2) tbl by (simp add: service_def)
  have svcn: "service n' g = handle_lookup (hof nd) g hs" for g using hofn tbl by (simp add: service_def)
  have box: "mailbox ?nd g = mailbox n' g" for g
  proof -
    have "d \<noteq> c" if "handle_lookup (hof nd) g hs = Some d" for d using that tab(3) by (auto simp: lookup_iff [OF tab(1)])
    then show ?thesis using eff(2) by (auto simp: mailbox_def svc svcn split: bind_splits)
  qed
  have "node_inv held ?nd"
  proof (rule node_invI [where xs = ys])
    show "sched_inv \<lparr>sc_store = nd_store ?nd, sc_held = held\<rparr> ys" using st(2) by simp
    show "hs_inv (hof ?nd) (nd_handles ?nd)" using look(1) tbl by simp
    show "nd_ctxs ?nd d \<noteq> None" if "Some d \<in> set (hs_slot (nd_handles ?nd))" for d
      using that node_inv_table(2) [OF w, of d] by simp
    show "1 \<le> ctx_ref z \<and> qmeta (nd_store ?nd) (ctx_queue z) = Some (ctx_handle z, 0)" if "nd_ctxs ?nd d = Some z" for d z
    proof -
      from that have z: "nd_ctxs ?w d = Some z" "d \<noteq> c" by (auto split: if_splits)
      have "ctx_ids n' d = ctx_ids nd d" using ids by simp
      with z have "ctx_ids nd d = Some (ctx_handle z, ctx_queue z)" by (simp add: ctx_ids_def)
      then obtain z0 where "nd_ctxs nd d = Some z0" "ctx_queue z0 = ctx_queue z" by (auto simp: ctx_ids_def)
      with node_inv_inj [OF inv _ x(1)] z(2) have "ctx_queue z \<noteq> ?i" by metis
      with node_inv_ctx [OF w z(1)] eff(1) show ?thesis by simp
    qed
    show "d = e" if "nd_ctxs ?nd d = Some y" "nd_ctxs ?nd e = Some z" "ctx_queue y = ctx_queue z" for d e y z
      by (rule node_inv_inj [OF w, of d y e z]) (use that in simp_all)
  qed (use node_inv_fresh [OF w] in auto)
  moreover have "service ?nd h = None" using svc tab(2) by simp
  moreover have "mailbox ?nd = mailbox n'" by (rule ext) (rule box)
  moreover have "qmsgs (nd_store ?nd) ?i = qmsgs (nd_store nd) ?i" using eff(2) lv by simp
  moreover have "nd_HARBOR ?nd = nd_HARBOR nd" using lv by simp
  ultimately show thesis by (intro that [OF ret]) (simp_all add: eff(1))
qed

lemma node_inv_heap:
  assumes "node_inv held nd" "\<And>a. na \<le> a \<Longrightarrow> hp a = None"
  shows "node_inv held (nd\<lparr>nd_heap := hp, nd_next_addr := na\<rparr>)"
  using assms unfolding node_inv_def by simp

lemma before_release_inv:
  assumes inv: "node_inv held nd" and x: "nd_ctxs nd c = Some x" and tab: "hs_inv (hof nd) hs" "names_inv hs" "Some c \<notin> set (hs_slot hs)"
    and sub: "\<And>d. Some d \<in> set (hs_slot hs) \<Longrightarrow> Some d \<in> set (hs_slot (nd_handles nd))"
  shows "node_inv held ((before_release c x hs nd)\<lparr>nd_ctxs := (nd_ctxs (before_release c x hs nd))(c := None)\<rparr>)"
proof -
  let ?n = "(before_release c x hs nd)\<lparr>nd_ctxs := (nd_ctxs (before_release c x hs nd))(c := None)\<rparr>"
  have sel: "nd_ctxs ?n = (nd_ctxs nd)(c := None)" "nd_handles ?n = hs" "nd_store ?n = nd_store nd" "nd_heap ?n = nd_heap nd"
    "nd_next_addr ?n = nd_next_addr nd" "nd_next_ctx ?n = nd_next_ctx nd" "nd_HARBOR ?n = nd_HARBOR nd"
    by (simp_all add: before_release_def put_ctx_def)
  have hof': "hof ?n d = hof nd d" if "d \<noteq> c" for d using that by (simp add: hof_def sel)
  from inv obtain xs where sch: "sched_inv \<lparr>sc_store = nd_store nd, sc_held = held\<rparr> xs" by (auto simp: node_inv_def)
  show ?thesis
  proof (rule node_invI [where xs = xs], unfold sel)
    show "hs_inv (hof ?n) hs" using hs_inv_cong(1) [of hs "hof nd" "hof ?n"] tab(1,3) hof' by metis
    show "((nd_ctxs nd)(c := None)) d \<noteq> None" if "Some d \<in> set (hs_slot hs)" for d
      using that tab(3) sub [OF that] node_inv_table(2) [OF inv, of d] by auto
    show "1 \<le> ctx_ref y \<and> qmeta (nd_store nd) (ctx_queue y) = Some (ctx_handle y, 0)" if "((nd_ctxs nd)(c := None)) d = Some y" for d y
      using that node_inv_ctx [OF inv, of d y] by (auto split: if_splits)
    show "d = e" if "((nd_ctxs nd)(c := None)) d = Some y" "((nd_ctxs nd)(c := None)) e = Some z" "ctx_queue y = ctx_queue z" for d e y z
      by (rule node_inv_inj [OF inv, of d y e z]) (use that in \<open>auto split: if_splits\<close>)
  qed (use sch tab(2) node_inv_fresh [OF inv] in auto)
qed

lemma dispatch_dead_ok:
  assumes "node_inv held nd" "i \<in> set held" "qmeta (nd_store nd) i = Some (h, r)" "r \<noteq> 0" "h \<noteq> 0"
    "service nd h = None" "qmsgs (nd_store nd) i = Some ms" "owned nd ms" "local_sources nd ms"
  obtains nq nd' where "skynet_context_message_dispatch code sm (Some i) weight nd = Some (nq, sm, nd')"
    "node_inv ((case nq of None \<Rightarrow> [] | Some j \<Rightarrow> [j]) @ remove1 i held) nd'" "mqs (nd_store nd') i = None"
    "nd_heap nd' = drop_heap ms (nd_heap nd)" "mailbox nd' = fold (report h) ms (mailbox nd)"
proof -
  from mq_release_node_ok [OF assms(1-5,7-9), where code = code] obtain nd1 where
    nd1: "mq_release_node code h i nd = Some nd1" "node_inv (remove1 i held) nd1" "mqs (nd_store nd1) i = None"
    "nd_heap nd1 = drop_heap ms (nd_heap nd)" "mailbox nd1 = fold (report h) ms (mailbox nd)" .
  from globalmq_pop_ok [OF nd1(2)] obtain nq st where
    g: "globalmq_pop nd1 = Some (nq, nd1\<lparr>nd_store := st\<rparr>)"
    "node_inv ((case nq of None \<Rightarrow> [] | Some j \<Rightarrow> [j]) @ remove1 i held) (nd1\<lparr>nd_store := st\<rparr>)"
    "mailbox (nd1\<lparr>nd_store := st\<rparr>) = mailbox nd1" "qmeta st = qmeta (nd_store nd1)" .
  have "mqs st i = None"
  proof -
    have "qmeta st i = None" using g(4) nd1(3) by (simp add: qmeta_def)
    then show ?thesis by (simp add: qmeta_def)
  qed
  moreover from assms(3) obtain q where "mqs (nd_store nd) i = Some q" "mq_handle q = h" by (auto simp: qmeta_def)
  then have "skynet_context_message_dispatch code sm (Some i) weight nd = Some (nq, sm, nd1\<lparr>nd_store := st\<rparr>)"
    using assms(6) nd1(1) g(1)
    by (simp add: skynet_context_message_dispatch_def skynet_mq_handle_def skynet_handle_grab_def service_def)
  ultimately show thesis using that [of nq "nd1\<lparr>nd_store := st\<rparr>"] g nd1 by simp
qed

subsection \<open>Timeouts\<close>

definition deliver_node :: "timer_node \<Rightarrow> (u32 \<Rightarrow> (skynet_message list) option) \<Rightarrow> u32 \<Rightarrow> (skynet_message list) option" where
  "deliver_node t = deliver (te_handle (tn_event t)) (timer_message (te_session (tn_event t)))"

lemma context_push_deliver:
  assumes inv: "node_inv held nd"
  obtains r st where "skynet_context_push code h m nd = Some (r, nd\<lparr>nd_store := st\<rparr>)"
    "node_inv held (nd\<lparr>nd_store := st\<rparr>)" "mailbox (nd\<lparr>nd_store := st\<rparr>) = deliver h m (mailbox nd)"
    "r = (if service nd h = None then - 1 else 0)"
proof (cases "service nd h")
  case None
  with inv context_push_missing [OF None, of code m] show thesis
    by (intro that [of "- 1" "nd_store nd"]) (simp_all add: deliver_nobody mailbox_None_iff)
next
  case (Some c)
  from context_push_ok [OF inv Some, of code m] obtain st where
    "skynet_context_push code h m nd = Some (0, nd\<lparr>nd_store := st\<rparr>)" "node_inv held (nd\<lparr>nd_store := st\<rparr>)"
    "mailbox (nd\<lparr>nd_store := st\<rparr>) = deliver h m (mailbox nd)" unfolding deliver_def by blast
  with Some show thesis by (intro that [of 0 st]) simp_all
qed

lemma dispatch_list_ok:
  "node_inv held nd \<Longrightarrow> \<exists>st. dispatch_list code ts nd = Some (nd\<lparr>nd_store := st\<rparr>) \<and> node_inv held (nd\<lparr>nd_store := st\<rparr>) \<and>
     mailbox (nd\<lparr>nd_store := st\<rparr>) = fold deliver_node ts (mailbox nd)"
proof (induction ts arbitrary: nd)
  case Nil
  then show ?case by (intro exI [of _ "nd_store nd"]) simp
next
  case (Cons t ts)
  let ?h = "te_handle (tn_event t)" and ?m = "timer_message (te_session (tn_event t))"
  from context_push_deliver [OF Cons.prems, where code = code and h = ?h and m = ?m] obtain r st where
    st: "skynet_context_push code ?h ?m nd = Some (r, nd\<lparr>nd_store := st\<rparr>)" "node_inv held (nd\<lparr>nd_store := st\<rparr>)"
    "mailbox (nd\<lparr>nd_store := st\<rparr>) = deliver ?h ?m (mailbox nd)" .
  from Cons.IH [OF st(2)] obtain st' where
    "dispatch_list code ts (nd\<lparr>nd_store := st\<rparr>) = Some (nd\<lparr>nd_store := st'\<rparr>)" "node_inv held (nd\<lparr>nd_store := st'\<rparr>)"
    "mailbox (nd\<lparr>nd_store := st'\<rparr>) = fold deliver_node ts (mailbox (nd\<lparr>nd_store := st\<rparr>))" by auto
  moreover have "mailbox (nd\<lparr>nd_store := st\<rparr>) = deliver_node t (mailbox nd)" using st(3) by (simp add: deliver_node_def)
  ultimately show ?case using st(1) by (intro exI [of _ st']) simp
qed

lemma node_ticks_ok:
  "node_inv held nd \<Longrightarrow> timer_ticks n (nd_timer nd) = Some (dss, T) \<Longrightarrow>
   \<exists>nd'. node_ticks code n nd = Some nd' \<and> node_inv held nd' \<and> nd_timer nd' = T \<and>
     mailbox nd' = fold deliver_node (concat dss) (mailbox nd)"
proof (induction n arbitrary: nd dss)
  case 0
  then show ?case by simp
next
  case (Suc n)
  from Suc.prems(2) obtain ds T1 dss' where t: "timer_update (nd_timer nd) = Some (ds, T1)"
    "timer_ticks n T1 = Some (dss', T)" "dss = ds # dss'" by (auto simp: c_simps)
  have "node_inv held (nd\<lparr>nd_timer := T1\<rparr>)" using Suc.prems(1) by simp
  from dispatch_list_ok [OF this, of code ds] obtain st where
    st: "dispatch_list code ds (nd\<lparr>nd_timer := T1\<rparr>) = Some (nd\<lparr>nd_timer := T1, nd_store := st\<rparr>)"
    "node_inv held (nd\<lparr>nd_timer := T1, nd_store := st\<rparr>)"
    "mailbox (nd\<lparr>nd_timer := T1, nd_store := st\<rparr>) = fold deliver_node ds (mailbox nd)" by auto
  from Suc.IH [OF st(2), of dss'] t(2) obtain nd' where
    "node_ticks code n (nd\<lparr>nd_timer := T1, nd_store := st\<rparr>) = Some nd'" "node_inv held nd'" "nd_timer nd' = T"
    "mailbox nd' = fold deliver_node (concat dss') (mailbox (nd\<lparr>nd_timer := T1, nd_store := st\<rparr>))" by auto
  with st t show ?case by (simp add: node_tick_def)
qed

lemma fold_deliver_box:
  "f h = Some ms \<Longrightarrow> \<exists>ms'. fold deliver_node ts f h = Some (ms @ ms') \<and>
     ms' = map (\<lambda>t. timer_message (te_session (tn_event t))) (filter (\<lambda>t. te_handle (tn_event t) = h) ts)"
proof (induction ts arbitrary: f ms)
  case Nil
  then show ?case by simp
next
  case (Cons t ts)
  then have "deliver_node t f h = Some (ms @ (if te_handle (tn_event t) = h then [timer_message (te_session (tn_event t))] else []))"
    by (auto simp: deliver_node_def deliver_def)
  from Cons.IH [of "deliver_node t f", OF this] show ?case by auto
qed

lemma mset_concat_insert:
  assumes "length ys = length xs"
    and "\<And>k. k < length xs \<Longrightarrow> mset (ys ! k) = (if k = j then add_mset a (mset (xs ! k)) else mset (xs ! k))"
  shows "mset (concat ys) = (if j < length xs then add_mset a (mset (concat xs)) else mset (concat xs))"
proof -
  have cc: "mset (concat zs) = (\<Sum>k<length zs. mset (zs ! k))" for zs :: "'a list list"
    by (induction zs rule: rev_induct) (simp_all add: nth_append)
  have "mset (concat ys) = (\<Sum>k<length xs. mset (xs ! k) + (if k = j then {#a#} else {#}))"
    unfolding cc assms(1) by (rule sum.cong) (simp_all add: assms(2))
  also have "\<dots> = mset (concat xs) + (if j < length xs then {#a#} else {#})"
    unfolding cc sum.distrib by simp
  finally show ?thesis by simp
qed

subsection \<open>A node with one service\<close>

text \<open>The node that the examples below use: harbor 1, and one service that is being created.\<close>

definition demo_table :: handle_storage where
  "demo_table = (skynet_handle_init 1)\<lparr>hs_slot := [None, Some 0, None, None], hs_handle_index := 2\<rparr>"

definition demo_node :: skynet_node where
  "demo_node = before_init ''echo'' 0x1000001 demo_table (skynet_globalinit 1 False timer_create_timer)"

definition demo_code :: service_code where
  "demo_code = \<lparr>mod_query = (\<lambda>_. True), mod_create = (\<lambda>_. True), mod_init = (\<lambda>_ _ nd. Some (0, nd)),
     mod_release = (\<lambda>_ nd. Some nd), mod_signal = (\<lambda>_ _ nd. Some nd), svc_cb = (\<lambda>_ _ _ _ _ _ _ nd. Some (0, nd)),
     thread_time = (\<lambda>_. 0), format_lf = (\<lambda>_. ''0'')\<rparr>"

lemma demo_register: "skynet_handle_register f 0 (skynet_handle_init 1) = Some (0x1000001, demo_table)"
proof -
  let ?s = "skynet_handle_init 1"
  have h: "slot_hash 1 4 = 1" by (simp add: slot_hash_def)
  have sel: "hs_slot_size ?s = 4" "hs_handle_index ?s = 1" "hs_slot ?s = [None, None, None, None]" "hs_harbor ?s = 0x1000000"
    by (simp_all add: skynet_handle_init_def DEFAULT_SLOT_SIZE_def HANDLE_REMOTE_SHIFT_def numeral_eq_Suc)
  have four: "(4 :: nat) = Suc (Suc (Suc (Suc 0)))" by simp
  have "reg_probe (Suc (Suc (Suc (Suc 0)))) 1 ?s = Some (Some 1)"
    by (simp add: sel h HANDLE_MASK_def Let_def)
  then have "reg_probe (hs_slot_size ?s) (hs_handle_index ?s) ?s = Some (Some 1)" by (simp only: sel four)
  then show ?thesis
    unfolding skynet_handle_register_def
    by (subst register_loop.simps) (simp add: demo_table_def sel h)
qed

lemma demo_ok:
  "node_inv [0] demo_node" "service demo_node 0x1000001 = Some 0" "mailbox demo_node 0x1000001 = Some []"
  "skynet_harbor_message_isremote 0x1000001 demo_node = Some False" "wheel_inv (nd_timer demo_node)"
  "nd_ctxs demo_node 0 = Some (new_context ''echo'' 0x1000001 0 False)" "service demo_node 0x1000009 = None"
  "skynet_harbor_message_isremote 0x1000009 demo_node = Some False" "nd_heap demo_node = (\<lambda>_. None)"
  "pending (nd_timer demo_node) = {#}" "nd_logger demo_node = 0" "nd_total demo_node = 1"
proof -
  let ?nd = "skynet_globalinit 1 False timer_create_timer"
  have sel: "nd_handles ?nd = skynet_handle_init 1" "nd_next_ctx ?nd = 0" "mq_fresh (nd_store ?nd) = 0"
    by (simp_all add: skynet_globalinit_def skynet_harbor_init_def skynet_mq_init_def)
  have room: "unat (hs_handle_index (nd_handles ?nd)) + hs_slot_size (nd_handles ?nd) * 2 \<le> 2 ^ 24"
    by (simp add: sel skynet_handle_init_def DEFAULT_SLOT_SIZE_def)
  from before_init_inv [OF node_inv_init room, where name = "''echo''"] obtain h hs where
    b: "skynet_handle_register (hof ?nd) (nd_next_ctx ?nd) (nd_handles ?nd) = Some (h, hs)"
    "node_inv (mq_fresh (nd_store ?nd) # []) (before_init ''echo'' h hs ?nd)"
    "service (before_init ''echo'' h hs ?nd) = (service ?nd)(h \<mapsto> nd_next_ctx ?nd)"
    "mailbox (before_init ''echo'' h hs ?nd) = (mailbox ?nd)(h \<mapsto> [])" by metis
  from b(1) have h: "h = 0x1000001" "hs = demo_table" by (simp_all add: sel demo_register)
  from b(2-4) show "node_inv [0] demo_node" "service demo_node 0x1000001 = Some 0" "mailbox demo_node 0x1000001 = Some []"
    by (simp_all add: h sel demo_node_def)
  have "service ?nd g = None" for g
    by (simp add: service_def handle_lookup_def sel) (simp add: skynet_handle_init_def DEFAULT_SLOT_SIZE_def
      slot_hash_less [of 2, simplified])
  with b(3) show "service demo_node 0x1000009 = None" by (simp add: h demo_node_def)
  show "skynet_harbor_message_isremote 0x1000001 demo_node = Some False"
    "skynet_harbor_message_isremote 0x1000009 demo_node = Some False" "wheel_inv (nd_timer demo_node)"
    "nd_ctxs demo_node 0 = Some (new_context ''echo'' 0x1000001 0 False)" "nd_heap demo_node = (\<lambda>_. None)"
    "pending (nd_timer demo_node) = {#}" "nd_logger demo_node = 0" "nd_total demo_node = 1"
    by (simp_all add: skynet_harbor_message_isremote_def demo_node_def before_init_def context_inc_def
        skynet_globalinit_def skynet_harbor_init_def HANDLE_REMOTE_SHIFT_def HANDLE_MASK_def skynet_mq_init_def)
qed

subsection \<open>Properties\<close>

text \<open>Property C9: a message that is sent arrives. When the arguments are valid, the destination is a
  live service of this node and the size fits, \<^verbatim>\<open>skynet_send\<close> appends one message to the mailbox of the
  destination and changes no other mailbox. The receiver finds the type in the high byte and
  the length in the rest of the size, the bytes of the data (copied unless the sender gave them
  away), the sender, and the session that the call returns, a new positive one when the sender
  asked for it.\<close>

theorem send_delivers:
  assumes "node_inv held nd" "send_args_ok context source type session data sz nd"
    and "sz AND MESSAGE_TYPE_MASK = sz" "destination \<noteq> 0"
    and "skynet_harbor_message_isremote destination nd = Some False" "service nd destination \<noteq> None"
  shows "\<exists>session' msg nd'. skynet_send code context source destination type session data sz nd = Some (session', nd') \<and>
     node_inv held nd' \<and>
     mailbox nd' = (mailbox nd)(destination := map_option (\<lambda>ms. ms @ [msg]) (mailbox nd destination)) \<and>
     sm_session msg = session' \<and> (if has_tag type PTYPE_TAG_ALLOCSESSION then 1 \<le> session' else session' = session) \<and>
     sm_source msg = sender context source nd \<and>
     sz_type (sm_sz msg) = type AND 0xff \<and> sz_len (sm_sz msg) = sz \<and>
     payload nd' (sm_data msg) sz = payload nd data sz"
proof -
  from filter_args_ok [OF assms(1,2)] obtain session' data' nd1 where
    f: "filter_args context type session data sz nd = Some (session', data', type_sz (type AND 0xff) sz, nd1)"
    "node_inv held nd1" "mailbox nd1 = mailbox nd" "service nd1 = service nd" "nd_HARBOR nd1 = nd_HARBOR nd"
    "ctx_source context source nd1 = ctx_source context source nd"
    "if has_tag type PTYPE_TAG_ALLOCSESSION then 1 \<le> session' else session' = session"
    "payload nd1 data' sz = payload nd data sz" .
  let ?m = "\<lparr>sm_source = sender context source nd, sm_session = session', sm_data = data',
    sm_sz = type_sz (type AND 0xff) sz\<rparr>"
  from assms(6) f(4) obtain c where "service nd1 destination = Some c" by auto
  from context_push_ok [OF f(2) this, of code ?m] obtain st where
    st: "skynet_context_push code destination ?m nd1 = Some (0, nd1\<lparr>nd_store := st\<rparr>)"
    "node_inv held (nd1\<lparr>nd_store := st\<rparr>)"
    "mailbox (nd1\<lparr>nd_store := st\<rparr>) = (mailbox nd1)(destination := map_option (\<lambda>ms. ms @ [?m]) (mailbox nd1 destination))"
    by blast
  have rem: "skynet_harbor_message_isremote destination nd1 = Some False"
    using assms(5) f(5) by (simp add: skynet_harbor_message_isremote_def)
  have "skynet_send code context source destination type session data sz nd = Some (session', nd1\<lparr>nd_store := st\<rparr>)"
    using assms(3,4) f(1,6) ctx_source_ok [OF assms(2)] rem st(1) by (simp add: skynet_send_def send_local_def)
  moreover have "payload (nd1\<lparr>nd_store := st\<rparr>) data' sz = payload nd1 data' sz" by (rule payload_cong) simp
  ultimately show ?thesis
    using st(2-3) f(3,7,8) sz_type_type_sz [OF assms(3)] sz_len_type_sz [OF assms(3)]
    by (intro exI [of _ session'] exI [of _ ?m] exI [of _ "nd1\<lparr>nd_store := st\<rparr>"]) simp
qed

theorem send_delivers_witness:
  "\<exists>session' msg nd'. skynet_send demo_code (Some 0) 0 0x1000001 (PTYPE_TAG_ALLOCSESSION OR PTYPE_CLIENT) 0 None 0 demo_node
       = Some (session', nd') \<and>
     mailbox nd' 0x1000001 = Some [msg] \<and> sm_source msg = 0x1000001 \<and> 1 \<le> session' \<and> sz_type (sm_sz msg) = PTYPE_CLIENT"
proof -
  let ?t = "PTYPE_TAG_ALLOCSESSION OR PTYPE_CLIENT"
  have t: "has_tag ?t PTYPE_TAG_ALLOCSESSION" "?t AND 0xff = PTYPE_CLIENT"
    by (simp_all add: has_tag_def PTYPE_TAG_ALLOCSESSION_def PTYPE_CLIENT_def)
  have ok: "send_args_ok (Some 0) 0 ?t 0 None 0 demo_node" by (simp add: send_args_ok_def demo_ok(6))
  have src: "sender (Some 0) 0 demo_node = 0x1000001" by (simp add: sender_def hof_def demo_ok(6) new_context_def)
  have "service demo_node 0x1000001 \<noteq> None" by (simp add: demo_ok(2))
  from send_delivers [OF demo_ok(1) ok _ _ demo_ok(4) this, of demo_code] t src demo_ok(3) show ?thesis by auto
qed

text \<open>Property C10: sending to a handle that no service has reports \<open>- 1\<close>, changes no mailbox and leaks
  nothing: the copy that was made for the message is freed, so the heap is as before, and data
  that the sender gave away is freed.\<close>

theorem send_to_nobody_leaks_nothing:
  assumes "node_inv held nd" "send_args_ok context source type session data sz nd"
    and "sz AND MESSAGE_TYPE_MASK = sz" "destination \<noteq> 0"
    and "skynet_harbor_message_isremote destination nd = Some False" "service nd destination = None"
  shows "\<exists>nd'. skynet_send code context source destination type session data sz nd = Some (- 1, nd') \<and>
     node_inv held nd' \<and> mailbox nd' = mailbox nd \<and>
     nd_heap nd' = (if has_tag type PTYPE_TAG_DONTCOPY then
        (case data of Some a \<Rightarrow> (nd_heap nd)(a := None) | None \<Rightarrow> nd_heap nd) else nd_heap nd)"
proof -
  from filter_args_ok [OF assms(1,2)] obtain session' data' nd1 where
    f: "filter_args context type session data sz nd = Some (session', data', type_sz (type AND 0xff) sz, nd1)"
    "node_inv held nd1" "mailbox nd1 = mailbox nd" "service nd1 = service nd" "nd_HARBOR nd1 = nd_HARBOR nd"
    "ctx_source context source nd1 = ctx_source context source nd"
    "if data = None \<or> has_tag type PTYPE_TAG_DONTCOPY then data' = data \<and> nd_heap nd1 = nd_heap nd
     else \<exists>b. data' = Some (nd_next_addr nd) \<and> nd_heap nd (nd_next_addr nd) = None \<and>
       nd_heap nd1 = (nd_heap nd)(nd_next_addr nd \<mapsto> b)" .
  have rem: "skynet_harbor_message_isremote destination nd1 = Some False"
    using assms(5) f(5) by (simp add: skynet_harbor_message_isremote_def)
  have "service nd1 destination = None" using assms(6) f(4) by simp
  then have send: "skynet_send code context source destination type session data sz nd =
      Option.bind (skynet_free data' nd1) (\<lambda>nd'. Some (- 1, nd'))"
    using assms(3,4) f(1,6) ctx_source_ok [OF assms(2)] rem
    by (simp add: skynet_send_def send_local_def context_push_missing)
  show ?thesis
  proof (cases data')
    case None
    with send f show ?thesis
      by (auto simp: skynet_free_def split: if_splits)
  next
    case (Some a)
    have "nd_heap nd1 a \<noteq> None"
    proof (cases "data = None \<or> has_tag type PTYPE_TAG_DONTCOPY")
      case True
      with Some f(7) have "data = Some a" "nd_heap nd1 = nd_heap nd" by auto
      with send_args_data [OF assms(2)] show ?thesis by (metis option.distinct(1))
    next
      case False
      with f(7) Some show ?thesis by auto
    qed
    with send Some have "skynet_send code context source destination type session data sz nd =
        Some (- 1, nd1\<lparr>nd_heap := (nd_heap nd1)(a := None)\<rparr>)" by (simp add: skynet_free_def)
    moreover have "node_inv held (nd1\<lparr>nd_heap := (nd_heap nd1)(a := None)\<rparr>)" using f(2) by (rule node_inv_free)
    moreover have "(nd_heap nd1)(a := None) = (if has_tag type PTYPE_TAG_DONTCOPY then
        (case data of Some a \<Rightarrow> (nd_heap nd)(a := None) | None \<Rightarrow> nd_heap nd) else nd_heap nd)"
      using f(7) Some by (cases data) (auto simp: fun_eq_iff split: if_splits)
    ultimately show ?thesis using f(3) by simp
  qed
qed

theorem send_to_nobody_leaks_nothing_witness:
  "\<exists>nd'. skynet_send demo_code None 7 0x1000009 PTYPE_CLIENT 3 (Some 5) 2 (demo_node\<lparr>nd_heap := [5 \<mapsto> Bytes [1, 2, 3]], nd_next_addr := 6\<rparr>)
       = Some (- 1, nd') \<and> nd_heap nd' = [5 \<mapsto> Bytes [1, 2, 3]]"
proof -
  let ?nd = "demo_node\<lparr>nd_heap := [5 \<mapsto> Bytes [1, 2, 3]], nd_next_addr := 6\<rparr>"
  have inv: "node_inv [0] ?nd" using demo_ok(1) by (simp add: node_inv_def)
  have t: "\<not> has_tag PTYPE_CLIENT PTYPE_TAG_ALLOCSESSION" "\<not> has_tag PTYPE_CLIENT PTYPE_TAG_DONTCOPY"
    by (simp_all add: has_tag_def PTYPE_TAG_ALLOCSESSION_def PTYPE_TAG_DONTCOPY_def PTYPE_CLIENT_def)
  have ok: "send_args_ok None 7 PTYPE_CLIENT 3 (Some 5) 2 ?nd" by (simp add: send_args_ok_def t)
  have fits: "(2 :: u64) AND MESSAGE_TYPE_MASK = 2"
    by (simp only: sz_fits_iff) (simp add: take_bit_eq_mod)
  have loc: "skynet_harbor_message_isremote 0x1000009 ?nd = Some False"
    using demo_ok(8) by (simp add: isremote_frame [of ?nd demo_node])
  from send_to_nobody_leaks_nothing [OF inv ok fits _ loc, of demo_code] demo_ok(7) t show ?thesis by auto
qed

text \<open>Property C11: killing a service. The table holds the last reference to its context (\<open>ctx_ref x = 1\<close>: no thread uses it at this moment),
  a worker holds its queue, and the senders of the waiting messages are services of this node. Retiring the handle calls the entry point
  \<^verbatim>\<open>release\<close> of the module, which may change the node as far as \<open>release_leaves\<close> allows, and frees the context. The worker then answers every
  message that still waits in the queue: the sender of each gets one error message from the dead handle, in order, the data of each is freed,
  and the queue itself is freed. Nothing else is changed after the entry point has returned.\<close>

theorem killed_service_answers_senders:
  assumes "node_inv held nd" "service nd h = Some c" "nd_ctxs nd c = Some x" "ctx_ref x = 1" "h \<noteq> 0"
    and "skynet_handle_retire (hof nd) h (nd_handles nd) = Some (Some c, hs)"
    and "mod_release code (ctx_mod x) (before_release c x hs nd) = Some n'"
    and "release_leaves held c (ctx_queue x) ms (before_release c x hs nd) n'"
    and "ctx_queue x \<in> set held" "mailbox nd h = Some ms" "owned nd ms" "local_sources nd ms"
  shows "\<exists>nd1 nq nd2. handle_retire code h nd = Some (1, nd1) \<and> nd_ctxs nd1 c = None \<and>
     skynet_context_message_dispatch code sm (Some (ctx_queue x)) weight nd1 = Some (nq, sm, nd2) \<and>
     mqs (nd_store nd2) (ctx_queue x) = None \<and> nd_heap nd2 = drop_heap ms (nd_heap n') \<and>
     mailbox nd2 = fold (report h) ms ((mailbox n')(h := None))"
proof -
  let ?i = "ctx_queue x"
  from retire_release [OF assms(1-4,6-8)] obtain nd1 where nd1: "handle_retire code h nd = Some (1, nd1)" "node_inv held nd1"
    "nd_ctxs nd1 c = None" "service nd1 h = None" "qmeta (nd_store nd1) ?i = Some (h, 1)"
    "qmsgs (nd_store nd1) ?i = qmsgs (nd_store nd) ?i" "mailbox nd1 = mailbox n'" "nd_heap nd1 = nd_heap n'" "nd_HARBOR nd1 = nd_HARBOR nd" .
  have "qmsgs (nd_store nd1) ?i = Some ms" using assms(2,3,10) by (simp add: nd1(6) mailbox_def)
  moreover have "local_sources nd1 ms" using assms(12) nd1(9) by (simp add: local_sources_def isremote_frame [of nd1 nd])
  moreover have "owned nd1 ms"
    using assms(8,11) nd1(8) by (simp add: owned_def release_leaves_def before_release_def put_ctx_def)
  ultimately obtain nq nd2 where
    "skynet_context_message_dispatch code sm (Some ?i) weight nd1 = Some (nq, sm, nd2)" "mqs (nd_store nd2) ?i = None"
    "nd_heap nd2 = drop_heap ms (nd_heap nd1)" "mailbox nd2 = fold (report h) ms (mailbox nd1)"
    using dispatch_dead_ok [OF nd1(2) assms(9) nd1(5) _ assms(5) nd1(4), of ms, where code = code and sm = sm and weight = weight]
    by simp metis
  moreover have "mailbox nd1 h = None" using nd1(4) by (simp add: mailbox_def)
  then have "mailbox nd1 = (mailbox n')(h := None)" using nd1(7) by (auto simp: fun_eq_iff)
  ultimately show ?thesis
    using nd1(1,3,8) by (intro exI [of _ nd1] exI [of _ nq] exI [of _ nd2]) (simp only:)
qed

text \<open>A module whose entry point \<^verbatim>\<open>release\<close> frees the block at address 0.\<close>

definition freeing_code :: service_code where
  "freeing_code = demo_code\<lparr>mod_release := (\<lambda>_ n. skynet_free (Some 0) n)\<rparr>"

theorem killed_service_answers_senders_witness:
  "\<exists>nd m nd1 nq nd2. mailbox nd 0x1000001 = Some [m] \<and> nd_heap nd 0 = Some (Bytes [1]) \<and>
     handle_retire freeing_code 0x1000001 nd = Some (1, nd1) \<and>
     skynet_context_message_dispatch freeing_code skynet_monitor_new (Some 0) (- 1) nd1 = Some (nq, skynet_monitor_new, nd2) \<and>
     nd_heap nd2 0 = None \<and> mailbox nd2 0x1000001 = None"
proof -
  let ?h = "0x1000001 :: u32" and ?x = "(new_context ''echo'' 0x1000001 0 False)\<lparr>ctx_ref := 1\<rparr>"
  let ?nd = "put_ctx 0 ?x demo_node" and ?m = "timer_message 5"
  have inv: "node_inv [0] ?nd"
    by (rule node_inv_put_ctx [OF demo_ok(1,6)]) (simp_all add: new_context_def)
  note fr = put_ctx_frame [OF demo_ok(6), of ?x, simplified new_context_def, simplified, folded new_context_def]
  from fr(2) have svc: "service ?nd ?h = Some 0" by (simp add: demo_ok(2) new_context_def)
  from fr(3) have mb: "mailbox ?nd ?h = Some []" by (simp add: demo_ok(3) new_context_def)
  from context_push_ok [OF inv svc, of demo_code ?m] mb obtain st where
    st: "node_inv [0] (?nd\<lparr>nd_store := st\<rparr>)" "mailbox (?nd\<lparr>nd_store := st\<rparr>) ?h = Some [?m]"
    by auto
  define n0 where "n0 = ?nd\<lparr>nd_store := st, nd_heap := [0 \<mapsto> Bytes [1]], nd_next_addr := Suc (nd_next_addr ?nd)\<rparr>"
  have n0: "node_inv [0] n0" unfolding n0_def by (rule node_inv_heap [OF st(1)]) auto
  have sel: "service n0 ?h = Some 0" "mailbox n0 ?h = Some [?m]" "nd_ctxs n0 0 = Some ?x" "nd_heap n0 = [0 \<mapsto> Bytes [1]]"
    using svc st(2) by (simp_all add: n0_def service_def mailbox_def put_ctx_def)
  from retire_table [OF n0 sel(1)] obtain hs where hs: "skynet_handle_retire (hof n0) ?h (nd_handles n0) = Some (Some 0, hs)"
    "hs_inv (hof n0) hs" "names_inv hs" "Some 0 \<notin> set (hs_slot hs)" "\<And>d. Some d \<in> set (hs_slot hs) \<Longrightarrow> Some d \<in> set (hs_slot (nd_handles n0))"
    by metis
  let ?b = "before_release 0 ?x hs n0"
  let ?n' = "?b\<lparr>nd_heap := (nd_heap ?b)(0 := None)\<rparr>"
  have b: "nd_heap ?b = [0 \<mapsto> Bytes [1]]" using sel(4) by (simp add: before_release_def put_ctx_def)
  have rel: "mod_release freeing_code (ctx_mod ?x) ?b = Some ?n'" by (simp add: freeing_code_def skynet_free_def b)
  have "node_inv [0] (?n'\<lparr>nd_ctxs := (nd_ctxs ?n')(0 := None)\<rparr>)"
  proof -
    have "?n'\<lparr>nd_ctxs := (nd_ctxs ?n')(0 := None)\<rparr> =
        (?b\<lparr>nd_ctxs := (nd_ctxs ?b)(0 := None)\<rparr>)\<lparr>nd_heap := (\<lambda>_. None), nd_next_addr := nd_next_addr ?b\<rparr>"
      by (rule skynet_node.equality) (simp_all add: b fun_eq_iff)
    with node_inv_heap [OF before_release_inv [OF n0 sel(3) hs(2,3,4,5)], of "nd_next_addr ?b" "\<lambda>_. None"] show ?thesis by simp
  qed
  then have leaves: "release_leaves [0] 0 (ctx_queue ?x) [?m] ?b ?n'"
    by (simp add: release_leaves_def ctx_ids_def fun_eq_iff timer_message_def List.map_filter_simps)
  have own: "owned n0 [?m]" by (simp add: owned_def timer_message_def List.map_filter_simps)
  have loc: "local_sources n0 [?m]"
    using node_inv_fresh(3) [OF n0] by (simp add: local_sources_def timer_message_def skynet_harbor_message_isremote_def)
  have "ctx_ref ?x = 1" "?h \<noteq> 0" "ctx_queue ?x \<in> set [0]" by (simp_all add: new_context_def)
  from killed_service_answers_senders [OF n0 sel(1,3) this(1,2) hs(1) rel leaves this(3) sel(2) own loc, of skynet_monitor_new "- 1"]
  obtain nd1 nq nd2 where k: "handle_retire freeing_code ?h n0 = Some (1, nd1)"
    "skynet_context_message_dispatch freeing_code skynet_monitor_new (Some (ctx_queue ?x)) (- 1) nd1 = Some (nq, skynet_monitor_new, nd2)"
    "nd_heap nd2 = drop_heap [?m] (nd_heap ?n')" "mailbox nd2 = fold (report ?h) [?m] ((mailbox ?n')(?h := None))" by blast
  have "ctx_queue ?x = 0" by (simp add: new_context_def)
  moreover have "nd_heap nd2 0 = None" using k(3) by (simp add: drop_heap_def)
  moreover have "mailbox nd2 ?h = None" using k(4) by (simp add: report_def timer_message_def)
  ultimately show ?thesis using sel(2,4) k(1,2)
    by (intro exI [of _ n0] exI [of _ ?m] exI [of _ nd1] exI [of _ nq] exI [of _ nd2]) simp
qed

text \<open>Property C12: a timeout becomes a message. A service that asks for a timeout of \<open>d\<close> centiseconds
  finds one more response with its session in its mailbox once the timer has made \<open>d\<close> ticks, and
  not before; every other mailbox is as it would have been.\<close>

theorem timeout_message_arrives:
  assumes "node_inv held nd" "wheel_inv (nd_timer nd)" "mailbox nd h = Some ms" "0 < d" "d < 2 ^ 31" "n < 2 ^ 32"
  shows "\<exists>nd1 nd2 nd3 ms2 ms3. skynet_timeout code h d session nd = Some (session, nd1) \<and>
     node_ticks code n nd = Some nd2 \<and> node_ticks code n nd1 = Some nd3 \<and>
     mailbox nd2 h = Some ms2 \<and> mailbox nd3 h = Some ms3 \<and>
     mset ms3 = (if nat d \<le> n then add_mset (timer_message session) (mset ms2) else mset ms2) \<and>
     (\<forall>g. g \<noteq> h \<longrightarrow> map_option mset (mailbox nd3 g) = map_option mset (mailbox nd2 g))"
proof -
  let ?ev = "\<lparr>te_handle = h, te_session = session\<rparr>"
  let ?nd1 = "nd\<lparr>nd_timer := timer_add ?ev d (nd_timer nd)\<rparr>"
  let ?msg = "\<lambda>t. timer_message (te_session (tn_event t))"
  from timer_add_ticks [OF assms(2,4-6), of ?ev] obtain dss dss' T1 T2 where
    t: "timer_ticks n (nd_timer nd) = Some (dss, T1)" "timer_ticks n (timer_add ?ev d (nd_timer nd)) = Some (dss', T2)"
    "length dss = n" "length dss' = n"
    and k: "\<And>k. k < n \<Longrightarrow> mset (dss' ! k) = (if k + 1 = nat d
        then add_mset \<lparr>tn_expire = tm_time (nd_timer nd) + of_nat (nat d), tn_event = ?ev\<rparr> (mset (dss ! k))
        else mset (dss ! k))" by blast
  let ?t = "\<lparr>tn_expire = tm_time (nd_timer nd) + of_nat (nat d), tn_event = ?ev\<rparr>"
  from node_ticks_ok [OF assms(1) t(1), of code] obtain nd2 where nd2: "node_ticks code n nd = Some nd2"
    "mailbox nd2 = fold deliver_node (concat dss) (mailbox nd)" by blast
  from node_ticks_ok [of held ?nd1 n dss' T2 code] assms(1) t(2) obtain nd3 where nd3: "node_ticks code n ?nd1 = Some nd3"
    "mailbox nd3 = fold deliver_node (concat dss') (mailbox nd)" by auto
  have "mset (dss' ! k) = (if k = nat d - 1 then add_mset ?t (mset (dss ! k)) else mset (dss ! k))" if "k < length dss" for k
    using k [of k] that t(3) assms(4) by (cases "k = nat d - 1") auto
  from mset_concat_insert [OF _ this] t(3,4) have
    cc: "mset (concat dss') = (if nat d \<le> n then add_mset ?t (mset (concat dss)) else mset (concat dss))"
    using assms(4) by (simp add: Suc_le_eq [symmetric])
  have box: "map_option mset (mailbox nd3 g) =
      (if g = h \<and> nat d \<le> n then map_option (add_mset (timer_message session)) (map_option mset (mailbox nd2 g))
       else map_option mset (mailbox nd2 g))" for g
  proof (cases "mailbox nd g")
    case None
    have "f g = None \<Longrightarrow> fold deliver_node ts f g = None" for ts f
    proof (induction ts arbitrary: f)
      case (Cons t ts)
      have "deliver_node t f g = None" using Cons.prems by (auto simp: deliver_node_def deliver_def)
      from Cons.IH [of "deliver_node t f", OF this] show ?case by simp
    qed simp
    with None show ?thesis by (cases "g = h") (simp_all add: nd2(2) nd3(2))
  next
    case (Some ms)
    have f: "mset (map ?msg (filter (\<lambda>t. te_handle (tn_event t) = g) ts)) =
        image_mset ?msg (filter_mset (\<lambda>t. te_handle (tn_event t) = g) (mset ts))" for ts by simp
    from fold_deliver_box [of "mailbox nd" g, OF Some, of "concat dss"] fold_deliver_box [of "mailbox nd" g, OF Some, of "concat dss'"]
    show ?thesis unfolding nd2(2) nd3(2) using f [of "concat dss'"] f [of "concat dss"] cc by auto
  qed
  from fold_deliver_box [of "mailbox nd" h, OF assms(3), of "concat dss"] fold_deliver_box [of "mailbox nd" h, OF assms(3), of "concat dss'"]
  obtain ms2 ms3 where m: "mailbox nd2 h = Some ms2" "mailbox nd3 h = Some ms3" by (auto simp: nd2(2) nd3(2))
  moreover have "skynet_timeout code h d session nd = Some (session, ?nd1)" using assms(4) by (simp add: skynet_timeout_def)
  moreover have "mset ms3 = (if nat d \<le> n then add_mset (timer_message session) (mset ms2) else mset ms2)"
    using box [of h] m by (simp split: if_splits)
  ultimately show ?thesis
    using nd2(1) nd3(1) box by (intro exI [of _ ?nd1] exI [of _ nd2] exI [of _ nd3] exI [of _ ms2] exI [of _ ms3]) simp
qed

theorem timeout_message_arrives_witness:
  "\<exists>nd1 nd2 nd3 ms2 ms3. skynet_timeout demo_code 0x1000001 2 9 demo_node = Some (9, nd1) \<and>
     node_ticks demo_code 2 demo_node = Some nd2 \<and> node_ticks demo_code 2 nd1 = Some nd3 \<and>
     mailbox nd2 0x1000001 = Some ms2 \<and> mailbox nd3 0x1000001 = Some ms3 \<and> mset ms3 = add_mset (timer_message 9) (mset ms2)"
  using timeout_message_arrives [OF demo_ok(1,5,3), of 2 2 demo_code 9] by fastforce

text \<open>Property: sessions. A new session is always a positive number, one more than the last one until
  the 32-bit counter would turn negative, and then 1 again; no mailbox changes.\<close>

theorem newsession_positive:
  assumes "nd_ctxs nd c = Some x"
  shows "\<exists>s nd' y. skynet_context_newsession c nd = Some (s, nd') \<and> 1 \<le> s \<and> s < 2 ^ 31 \<and>
     nd_ctxs nd' c = Some y \<and> sint (ctx_session_id y) = s \<and>
     (0 \<le> sint (ctx_session_id x) \<and> sint (ctx_session_id x) < 2 ^ 31 - 1 \<longrightarrow> s = sint (ctx_session_id x) + 1) \<and>
     (sint (ctx_session_id x) = 2 ^ 31 - 1 \<longrightarrow> s = 1) \<and> mailbox nd' = mailbox nd"
proof -
  from newsession_ok [OF assms] obtain w where
    w: "skynet_context_newsession c nd = Some (sint w, put_ctx c (x\<lparr>ctx_session_id := w\<rparr>) nd)" "1 \<le> sint w"
    "w = (if ctx_session_id x + 1 \<noteq> 0 \<and> 0 \<le> sint (ctx_session_id x + 1) then ctx_session_id x + 1 else 1)" by blast
  have inc: "sint (ctx_session_id x + 1) = sint (ctx_session_id x) + 1"
    if "0 \<le> sint (ctx_session_id x)" "sint (ctx_session_id x) < 2 ^ 31 - 1"
    using that by (simp add: sint_word_ariths signed_take_bit_int_eq_self)
  have nz: "ctx_session_id x + 1 \<noteq> 0" if "0 \<le> sint (ctx_session_id x)" "sint (ctx_session_id x) < 2 ^ 31 - 1"
    using inc [OF that] that(1) by auto
  have wrap: "sint (ctx_session_id x + 1) < 0" if "sint (ctx_session_id x) = 2 ^ 31 - 1"
    using that by (simp add: sint_word_ariths)
  have "sint w < 2 ^ 31" using sint_lt [of w] by simp
  moreover have "mailbox (put_ctx c (x\<lparr>ctx_session_id := w\<rparr>) nd) = mailbox nd"
    by (rule put_ctx_frame [OF assms]) simp_all
  moreover have "0 \<le> sint (ctx_session_id x) \<and> sint (ctx_session_id x) < 2 ^ 31 - 1 \<Longrightarrow> sint w = sint (ctx_session_id x) + 1"
    using w(3) inc nz by auto
  moreover have "sint (ctx_session_id x) = 2 ^ 31 - 1 \<Longrightarrow> sint w = 1" using w(3) wrap by auto
  ultimately show ?thesis using w(1,2) by auto
qed

theorem newsession_positive_witness:
  "\<exists>s nd'. skynet_context_newsession 0 (put_ctx 0 ((new_context ''echo'' 0x1000001 0 False)\<lparr>ctx_session_id := 0x7fffffff\<rparr>) demo_node)
     = Some (s, nd') \<and> s = 1"
proof -
  let ?x = "(new_context ''echo'' 0x1000001 0 False)\<lparr>ctx_session_id := 0x7fffffff\<rparr>"
  have "nd_ctxs (put_ctx 0 ?x demo_node) 0 = Some ?x" by simp
  from newsession_positive [OF this] show ?thesis by force
qed

text \<open>What the code of a module has to respect when it initialises its service: it leaves the node
  well formed and keeps the new context, with its handle and its queue, in place.\<close>

definition init_respects :: "service_code \<Rightarrow> string option \<Rightarrow> bool" where
  "init_respects code param \<longleftrightarrow> (\<forall>held nd c x. node_inv held nd \<and> nd_ctxs nd c = Some x \<longrightarrow>
     (\<exists>nd' y. mod_init code c param nd = Some (0, nd') \<and> node_inv held nd' \<and> nd_ctxs nd' c = Some y \<and>
        ctx_ref y = ctx_ref x \<and> ctx_queue y = ctx_queue x \<and> ctx_handle y = ctx_handle x \<and>
        (\<forall>h. service nd h = Some c \<longrightarrow> service nd' h = Some c)))"

lemma launch_ok_returns:
  assumes inv: "node_inv (q # held) nd" and x: "nd_ctxs nd c = Some x" "ctx_ref x = 2" "ctx_queue x = q"
    and svc: "service nd h = Some c"
  obtains nd' y where "launch_ok code name param c q nd = Some (Some c, nd')" "node_inv held nd'"
    "service nd' h = Some c" "nd_ctxs nd' c = Some y" "ctx_init y" "ctx_ref y = 1" "ctx_handle y = ctx_handle x"
proof -
  let ?y = "x\<lparr>ctx_ref := 1, ctx_init := True\<rparr>"
  let ?nd1 = "put_ctx c ?y nd"
  have inv1: "node_inv (q # held) ?nd1" using inv x(1) by (rule node_inv_put_ctx) simp_all
  have svc1: "service ?nd1 = service nd" by (rule put_ctx_frame [OF x(1)]) simp_all
  from inv1 obtain xs where sch: "sched_inv \<lparr>sc_store = nd_store ?nd1, sc_held = q # held\<rparr> xs" by (auto simp: node_inv_def)
  from sched_inv_putback [OF sch, of q] obtain st where
    st: "skynet_globalmq_push q (nd_store ?nd1) = Some st" "sched_inv \<lparr>sc_store = st, sc_held = held\<rparr> (xs @ [q])" by auto
  have "qmeta st = qmeta (nd_store ?nd1)" using globalmq_push_frame [OF st(1)] by simp
  from node_inv_held [OF inv1 st(2) this] have inv2: "node_inv held (?nd1\<lparr>nd_store := st\<rparr>)" .
  from skynet_error_ok [OF inv2, of "Some c" code "''LAUNCH '' @ name @ '' '' @ (case param of Some p \<Rightarrow> p | None \<Rightarrow> [])"]
  obtain nd' where nd': "skynet_error code (Some c) (''LAUNCH '' @ name @ '' '' @ (case param of Some p \<Rightarrow> p | None \<Rightarrow> []))
      (?nd1\<lparr>nd_store := st\<rparr>) = Some nd'" "node_inv held nd'" "nd_ctxs nd' = nd_ctxs ?nd1" "nd_handles nd' = nd_handles ?nd1"
    by auto
  have "launch_ok code name param c q nd = Some (Some c, nd')"
    using x st(1) nd'(1) by (simp add: launch_ok_def skynet_context_release_def put_ctx_def Let_def)
  moreover have "hof nd' = hof ?nd1" using nd'(3) by (simp add: hof_def fun_eq_iff)
  then have "service nd' = service ?nd1" using nd'(4) by (intro ext) (simp add: service_def)
  then have "service nd' h = Some c" using svc svc1 by simp
  ultimately show thesis using that [of nd' ?y] nd'(2,3) by simp
qed

text \<open>Property: launching a service. When the module exists and accepts the service, the new context
  has a handle that no service had, it is found under that handle, it is marked as initialised, its
  only reference is the one of the table, and its queue has left the creator's hands and waits in
  the global queue.\<close>

theorem launch_registers_service:
  assumes "node_inv held nd" "mod_query code name" "mod_create code name" "init_respects code param"
    and "unat (hs_handle_index (nd_handles nd)) + hs_slot_size (nd_handles nd) * 2 \<le> 2 ^ 24"
  shows "\<exists>c nd' x. skynet_context_new code name param nd = Some (Some c, nd') \<and> node_inv held nd' \<and>
     nd_ctxs nd' c = Some x \<and> ctx_init x \<and> ctx_ref x = 1 \<and>
     service nd (ctx_handle x) = None \<and> service nd' (ctx_handle x) = Some c"
proof -
  let ?c = "nd_next_ctx nd" and ?q = "mq_fresh (nd_store nd)"
  from before_init_inv [OF assms(1,5), where name = name] obtain h hs where
    b: "skynet_handle_register (hof nd) ?c (nd_handles nd) = Some (h, hs)"
    "node_inv (?q # held) (before_init name h hs nd)" "service nd h = None"
    "service (before_init name h hs nd) = (service nd)(h \<mapsto> ?c)" .
  let ?nd0 = "before_init name h hs nd" and ?x = "new_context name h ?q (nd_profile nd)"
  have x0: "nd_ctxs ?nd0 ?c = Some ?x" by (simp add: before_init_def context_inc_def)
  from assms(4) b(2) x0 obtain nd1 y where
    i: "mod_init code ?c param ?nd0 = Some (0, nd1)" "node_inv (?q # held) nd1" "nd_ctxs nd1 ?c = Some y"
    "ctx_ref y = ctx_ref ?x" "ctx_queue y = ctx_queue ?x" "ctx_handle y = ctx_handle ?x" "service nd1 h = Some ?c"
    unfolding init_respects_def using b(4) by (metis fun_upd_same)
  have y: "ctx_ref y = 2" "ctx_queue y = ?q" "ctx_handle y = h" using i(4-6) by (simp_all add: new_context_def)
  from launch_ok_returns [OF i(2,3) y(1,2) i(7), where code = code and name = name and param = param] obtain nd' z where
    l: "launch_ok code name param ?c ?q nd1 = Some (Some ?c, nd')" "node_inv held nd'" "service nd' h = Some ?c"
    "nd_ctxs nd' ?c = Some z" "ctx_init z" "ctx_ref z = 1" "ctx_handle z = ctx_handle y" .
  have "skynet_context_new code name param nd = Some (Some ?c, nd')"
    using assms(2,3) b(1) i(1) l(1)
    by (simp add: skynet_context_new_def Let_def skynet_mq_create_def before_init_def)
  with l b(3) y(3) show ?thesis by (intro exI [of _ ?c] exI [of _ nd'] exI [of _ z]) simp
qed

theorem launch_registers_service_witness:
  "\<exists>c nd' x. skynet_context_new demo_code ''logger'' None (skynet_globalinit 1 False timer_create_timer) = Some (Some c, nd') \<and>
     nd_ctxs nd' c = Some x \<and> service nd' (ctx_handle x) = Some c"
proof -
  have "init_respects demo_code None" by (simp add: init_respects_def demo_code_def)
  moreover have "mod_query demo_code ''logger''" "mod_create demo_code ''logger''" by (simp_all add: demo_code_def)
  moreover have "unat (hs_handle_index (nd_handles (skynet_globalinit 1 False timer_create_timer)))
      + hs_slot_size (nd_handles (skynet_globalinit 1 False timer_create_timer)) * 2 \<le> 2 ^ 24"
    by (simp add: skynet_globalinit_def skynet_harbor_init_def skynet_handle_init_def DEFAULT_SLOT_SIZE_def)
  ultimately show ?thesis
    using launch_registers_service [OF node_inv_init, of demo_code "''logger''" None 1 False timer_create_timer] by blast
qed

text \<open>Property: the error log keeps the text of a message that nobody will read. The handle of the
  logger is looked up once and kept; when that service is gone, \<^verbatim>\<open>skynet_error\<close> allocates the text, the
  push fails, and nothing frees the block: no mailbox refers to it and the heap has grown.\<close>

theorem error_text_leaks:
  assumes "node_inv held nd" "nd_logger nd \<noteq> 0" "service nd (nd_logger nd) = None"
  shows "\<exists>nd' bs. skynet_error code None text nd = Some nd' \<and> mailbox nd' = mailbox nd \<and>
     nd_heap nd (nd_next_addr nd) = None \<and> nd_heap nd' = (nd_heap nd)(nd_next_addr nd \<mapsto> Bytes bs) \<and>
     take (length text) bs = string_bytes text"
proof -
  from error_data_returns obtain bs where bs: "error_data text = Some bs" "take (length text) bs = string_bytes text" by blast
  let ?nd = "nd\<lparr>nd_heap := (nd_heap nd)(nd_next_addr nd \<mapsto> Bytes bs), nd_next_addr := Suc (nd_next_addr nd)\<rparr>"
  let ?m = "\<lparr>sm_source = 0, sm_session = 0, sm_data = Some (nd_next_addr nd),
      sm_sz = type_sz PTYPE_TEXT (of_nat (length text))\<rparr>"
  have "skynet_context_push code (nd_logger nd) ?m ?nd = Some (- 1, ?nd)"
    by (rule context_push_missing) (simp add: assms(3))
  then have "skynet_error code None text nd = Some ?nd"
    using assms(2) bs(1) by (simp add: skynet_error_def skynet_malloc_def Let_def)
  moreover have "nd_heap nd (nd_next_addr nd) = None" using node_inv_fresh(1) [OF assms(1)] by simp
  ultimately show ?thesis using bs(2) by (intro exI [of _ ?nd] exI [of _ bs]) simp
qed

theorem error_text_leaks_witness:
  "\<exists>nd' bs. skynet_error demo_code None ''lost'' (demo_node\<lparr>nd_logger := 0x1000009\<rparr>) = Some nd' \<and>
     mailbox nd' = mailbox demo_node \<and> nd_heap nd' \<noteq> nd_heap demo_node"
proof -
  have "service (demo_node\<lparr>nd_logger := 0x1000009\<rparr>) 0x1000009 = None" by (simp add: demo_ok(7))
  with error_text_leaks [of "[0]" "demo_node\<lparr>nd_logger := 0x1000009\<rparr>" demo_code "''lost''"] demo_ok(1,9)
  show ?thesis by auto
qed

end
