(* ===== verification/Commands.thy ===== *)
theory Commands
  imports Service_Props
begin

text \<open>
  The text commands of a service (\<^verbatim>\<open>skynet_command\<close> and the \<^verbatim>\<open>cmd_\<close> functions of
  \<^verbatim>\<open>skynet-src/skynet_server.c\<close>). A command gets a parameter that may be the null pointer and
  returns a text or the null pointer; texts that the code formats into the \<^verbatim>\<open>result\<close> buffer of the
  context are stored there. \<open>None\<close> is a failure: reading through a null pointer, or using the
  content of a buffer that nobody wrote. \<^verbatim>\<open>cmd_logon\<close> and \<^verbatim>\<open>cmd_logoff\<close>, which open and close
  files, are not modelled.
\<close>

type_synonym cmd_result = "(string option \<times> skynet_node) option"

definition id_to_hex :: "u32 \<Rightarrow> string" where
  "id_to_hex i = CHR '':'' # map (\<lambda>k. upper_hex (unat (drop_bit ((7 - k) * 4) i AND 0xf))) [0..<8]"

text \<open>Formatting into the result buffer of the context.\<close>

definition set_result :: "cid \<Rightarrow> string \<Rightarrow> skynet_node \<Rightarrow> cmd_result" where
  "set_result c text nd = do {
     x \<leftarrow> nd_ctxs nd c;
     Some (Some text, put_ctx c (x\<lparr>ctx_result := text\<rparr>) nd) }"

definition skynet_queryname :: "service_code \<Rightarrow> cid \<Rightarrow> string \<Rightarrow> skynet_node \<Rightarrow> (u32 \<times> skynet_node) option" where
  "skynet_queryname code c name nd =
     (if take 1 name = '':'' then Some (strtoul16 (drop 1 name), nd)
      else if take 1 name = ''.'' then do {
        h \<leftarrow> skynet_handle_findname (drop 1 name) (nd_handles nd);
        Some (h, nd) }
      else do {
        nd \<leftarrow> skynet_error code (Some c) (''Don't support query global name '' @ name) nd;
        Some (0, nd) })"

definition handle_exit :: "service_code \<Rightarrow> cid \<Rightarrow> u32 \<Rightarrow> skynet_node \<Rightarrow> skynet_node option" where
  "handle_exit code c handle nd = do {
     x \<leftarrow> nd_ctxs nd c;
     let target = (if handle = 0 then ctx_handle x else handle);
         text = (if handle = 0 then ''KILL self'' else ''KILL :'' @ hex_string (unat handle)) in do {
     nd \<leftarrow> skynet_error code (Some c) text nd;
     nd \<leftarrow> (if nd_monitor_exit nd \<noteq> 0 then do {
              (_, nd) \<leftarrow> skynet_send code (Some c) target (nd_monitor_exit nd) PTYPE_CLIENT 0 None 0 nd;
              Some nd }
            else Some nd);
     (_, nd) \<leftarrow> handle_retire code target nd;
     Some nd } }"

definition tohandle :: "service_code \<Rightarrow> cid \<Rightarrow> string \<Rightarrow> skynet_node \<Rightarrow> (u32 \<times> skynet_node) option" where
  "tohandle code c param nd =
     (if take 1 param = '':'' then Some (strtoul16 (drop 1 param), nd)
      else if take 1 param = ''.'' then do {
        h \<leftarrow> skynet_handle_findname (drop 1 param) (nd_handles nd);
        Some (h, nd) }
      else do {
        nd \<leftarrow> skynet_error code (Some c) (''Can't convert '' @ param @ '' to handle'') nd;
        Some (0, nd) })"

subsection \<open>The commands\<close>

definition cmd_timeout :: "service_code \<Rightarrow> cid \<Rightarrow> string option \<Rightarrow> skynet_node \<Rightarrow> cmd_result" where
  "cmd_timeout code c param nd = do {
     p \<leftarrow> param;
     let ti = strtol_int 10 p in do {
     (session, nd) \<leftarrow> skynet_context_newsession c nd;
     x \<leftarrow> nd_ctxs nd c;
     (_, nd) \<leftarrow> skynet_timeout code (ctx_handle x) ti session nd;
     set_result c (dec_string session) nd } }"

definition name_handle :: "u32 \<Rightarrow> string \<Rightarrow> skynet_node \<Rightarrow> cmd_result" where
  "name_handle handle name nd = do {
     (r, hs) \<leftarrow> skynet_handle_namehandle handle name (nd_handles nd);
     Some (r, nd\<lparr>nd_handles := hs\<rparr>) }"

definition cmd_reg :: "service_code \<Rightarrow> cid \<Rightarrow> string option \<Rightarrow> skynet_node \<Rightarrow> cmd_result" where
  "cmd_reg code c param nd = do {
     x \<leftarrow> nd_ctxs nd c;
     (case param of
        None \<Rightarrow> set_result c ('':'' @ hex_string (unat (ctx_handle x))) nd
      | Some p \<Rightarrow>
          if p = [] then set_result c ('':'' @ hex_string (unat (ctx_handle x))) nd
          else if take 1 p = ''.'' then name_handle (ctx_handle x) (drop 1 p) nd
          else do {
            nd \<leftarrow> skynet_error code (Some c) (''Can't register global name '' @ p @ '' in C'') nd;
            Some (None, nd) }) }"

definition cmd_query :: "cid \<Rightarrow> string option \<Rightarrow> skynet_node \<Rightarrow> cmd_result" where
  "cmd_query c param nd = do {
     p \<leftarrow> param;
     if take 1 p = ''.'' then do {
       handle \<leftarrow> skynet_handle_findname (drop 1 p) (nd_handles nd);
       if handle \<noteq> 0 then set_result c ('':'' @ hex_string (unat handle)) nd else Some (None, nd) }
     else Some (None, nd) }"

definition cmd_name :: "service_code \<Rightarrow> cid \<Rightarrow> string option \<Rightarrow> skynet_node \<Rightarrow> cmd_result" where
  "cmd_name code c param nd = do {
     p \<leftarrow> param;
     let (w1, rest) = scan_word p; (w2, _) = scan_word rest in do {
     name \<leftarrow> w1;
     handle \<leftarrow> w2;
     if take 1 handle \<noteq> '':'' then Some (None, nd)
     else (let handle_id = strtoul16 (drop 1 handle) in
       if handle_id = 0 then Some (None, nd)
       else if take 1 name = ''.'' then name_handle handle_id (drop 1 name) nd
       else do {
         nd \<leftarrow> skynet_error code (Some c) (''Can't set global name '' @ name @ '' in C'') nd;
         Some (None, nd) }) } }"

definition cmd_exit :: "service_code \<Rightarrow> cid \<Rightarrow> skynet_node \<Rightarrow> cmd_result" where
  "cmd_exit code c nd = do { nd \<leftarrow> handle_exit code c 0 nd; Some (None, nd) }"

definition cmd_kill :: "service_code \<Rightarrow> cid \<Rightarrow> string option \<Rightarrow> skynet_node \<Rightarrow> cmd_result" where
  "cmd_kill code c param nd = do {
     p \<leftarrow> param;
     (handle, nd) \<leftarrow> tohandle code c p nd;
     nd \<leftarrow> (if handle \<noteq> 0 then handle_exit code c handle nd else Some nd);
     Some (None, nd) }"

definition blanks :: "char list" where "blanks = [CHR '' '', CHR 0x09, CHR 0x0D, CHR 0x0A]"
definition line_ends :: "char list" where "line_ends = [CHR 0x0D, CHR 0x0A]"

definition cmd_launch :: "service_code \<Rightarrow> cid \<Rightarrow> string option \<Rightarrow> skynet_node \<Rightarrow> cmd_result" where
  "cmd_launch code c param nd = do {
     p \<leftarrow> param;
     let (m0, args) = strsep blanks (Some p); (args, _) = strsep line_ends args in do {
     m \<leftarrow> m0;
     (inst, nd) \<leftarrow> skynet_context_new code m args nd;
     (case inst of
        None \<Rightarrow> Some (None, nd)
      | Some i \<Rightarrow> do {
          y \<leftarrow> nd_ctxs nd i;
          set_result c (id_to_hex (ctx_handle y)) nd }) } }"

text \<open>The environment is a Lua state of which only string globals are used: a map. \<^verbatim>\<open>skynet_setenv\<close>
  asserts that the variable is not set.\<close>

definition skynet_getenv :: "string \<Rightarrow> skynet_node \<Rightarrow> string option" where
  "skynet_getenv key nd = nd_env nd key"

definition skynet_setenv :: "string \<Rightarrow> string \<Rightarrow> skynet_node \<Rightarrow> skynet_node option" where
  "skynet_setenv key value nd = do {
     c_assert (nd_env nd key = None);
     Some (nd\<lparr>nd_env := (nd_env nd)(key \<mapsto> value)\<rparr>) }"

definition cmd_getenv :: "string option \<Rightarrow> skynet_node \<Rightarrow> cmd_result" where
  "cmd_getenv param nd = do { p \<leftarrow> param; Some (skynet_getenv p nd, nd) }"

definition cmd_setenv :: "string option \<Rightarrow> skynet_node \<Rightarrow> cmd_result" where
  "cmd_setenv param nd = do {
     p \<leftarrow> param;
     let key = takeWhile (\<lambda>c. c \<noteq> CHR '' '') p in
     if length key = length p then Some (None, nd)
     else do {
       nd \<leftarrow> skynet_setenv key (drop (length key + 1) p) nd;
       Some (None, nd) } }"

definition cmd_starttime :: "cid \<Rightarrow> skynet_node \<Rightarrow> cmd_result" where
  "cmd_starttime c nd = set_result c (dec_nat (unat (skynet_starttime (nd_timer nd)))) nd"

definition cmd_abort :: "service_code \<Rightarrow> skynet_node \<Rightarrow> cmd_result" where
  "cmd_abort code nd = do { nd \<leftarrow> skynet_handle_retireall code nd; Some (None, nd) }"

definition cmd_monitor :: "service_code \<Rightarrow> cid \<Rightarrow> string option \<Rightarrow> skynet_node \<Rightarrow> cmd_result" where
  "cmd_monitor code c param nd = (case param of
     None \<Rightarrow>
       if nd_monitor_exit nd \<noteq> 0 then set_result c ('':'' @ hex_string (unat (nd_monitor_exit nd))) nd else Some (None, nd)
   | Some p \<Rightarrow>
       if p = [] then
         (if nd_monitor_exit nd \<noteq> 0 then set_result c ('':'' @ hex_string (unat (nd_monitor_exit nd))) nd else Some (None, nd))
       else do {
         (handle, nd) \<leftarrow> tohandle code c p nd;
         Some (None, nd\<lparr>nd_monitor_exit := handle\<rparr>) })"

text \<open>The two floating-point texts of \<^verbatim>\<open>cmd_stat\<close> are left to the parameter \<open>format_lf\<close>, which prints a
  number of microseconds as seconds.\<close>

definition cmd_stat :: "service_code \<Rightarrow> cid \<Rightarrow> string option \<Rightarrow> skynet_node \<Rightarrow> cmd_result" where
  "cmd_stat code c param nd = do {
     p \<leftarrow> param;
     x \<leftarrow> nd_ctxs nd c;
     if p = ''mqlen'' then do {
       q \<leftarrow> mqs (nd_store nd) (ctx_queue x);
       set_result c (dec_string (skynet_mq_length q)) nd }
     else if p = ''endless'' then
       (if ctx_endless x then set_result c ''1'' (put_ctx c (x\<lparr>ctx_endless := False\<rparr>) nd) else set_result c ''0'' nd)
     else if p = ''cpu'' then set_result c (format_lf code (ctx_cpu_cost x)) nd
     else if p = ''time'' then
       (if ctx_profile x then set_result c (format_lf code (thread_time code nd - ctx_cpu_start x)) nd
        else set_result c ''0'' nd)
     else if p = ''message'' then set_result c (dec_string (ctx_message_count x)) nd
     else set_result c [] nd }"

definition cmd_signal :: "service_code \<Rightarrow> cid \<Rightarrow> string option \<Rightarrow> skynet_node \<Rightarrow> cmd_result" where
  "cmd_signal code c param nd = do {
     p \<leftarrow> param;
     (handle, nd) \<leftarrow> tohandle code c p nd;
     if handle = 0 then Some (None, nd)
     else do {
       (r, nd) \<leftarrow> skynet_handle_grab handle nd;
       (case r of
          None \<Rightarrow> Some (None, nd)
        | Some d \<Rightarrow> do {
            x \<leftarrow> nd_ctxs nd d;
            let rest = dropWhile (\<lambda>ch. ch \<noteq> CHR '' '') p; sig = (if rest = [] then 0 else strtol_int 0 rest) in do {
            nd \<leftarrow> mod_signal code (ctx_mod x) sig nd;
            (_, nd) \<leftarrow> skynet_context_release code d nd;
            Some (None, nd) } }) } }"

definition cmd_funcs :: "service_code \<Rightarrow> (string \<times> (cid \<Rightarrow> string option \<Rightarrow> skynet_node \<Rightarrow> cmd_result)) list" where
  "cmd_funcs code =
     [(''TIMEOUT'', cmd_timeout code), (''REG'', cmd_reg code), (''QUERY'', cmd_query),
      (''NAME'', cmd_name code), (''EXIT'', \<lambda>c _. cmd_exit code c), (''KILL'', cmd_kill code),
      (''LAUNCH'', cmd_launch code), (''GETENV'', \<lambda>_. cmd_getenv), (''SETENV'', \<lambda>_. cmd_setenv),
      (''STARTTIME'', \<lambda>c _. cmd_starttime c), (''ABORT'', \<lambda>_ _. cmd_abort code),
      (''MONITOR'', cmd_monitor code), (''STAT'', cmd_stat code), (''SIGNAL'', cmd_signal code)]"

text \<open>The search through the table of commands; an unknown command returns the null pointer.\<close>

definition skynet_command :: "service_code \<Rightarrow> cid \<Rightarrow> string \<Rightarrow> string option \<Rightarrow> skynet_node \<Rightarrow> cmd_result" where
  "skynet_command code c cmd param nd = (case map_of (cmd_funcs code) cmd of
     Some f \<Rightarrow> f c param nd
   | None \<Rightarrow> Some (None, nd))"

subsection \<open>Handles in text\<close>

lemma read_upper_hex:
  "list_all (\<lambda>n. n < 16) ns \<Longrightarrow> read_digits 16 acc (map upper_hex ns) = foldl (\<lambda>a n. a * 16 + n) acc ns"
  by (induction ns arbitrary: acc) (simp_all add: digit_value_digit)

lemma id_to_hex_digits:
  "digits16 (tl (id_to_hex i)) \<and> read_digits 16 0 (tl (id_to_hex i)) = unat i"
proof -
  let ?d = "\<lambda>k. unat (drop_bit ((7 - k) * 4) i AND 0xf)"
  have d: "?d k = unat i div 2 ^ ((7 - k) * 4) mod 16" for k
  proof -
    have m: "(0xf :: u32) = mask 4" by (simp add: mask_eq_exp_minus_1)
    show ?thesis unfolding m
      by (simp only: unsigned_take_bit_eq flip: take_bit_eq_mask)
        (simp add: unat_drop_bit_eq, simp add: take_bit_eq_mod drop_bit_eq_div)
  qed
  have tl: "tl (id_to_hex i) = map upper_hex (map ?d [0..<8])" by (simp add: id_to_hex_def)
  have lt: "list_all (\<lambda>n. n < 16) (map ?d [0..<8])" by (simp add: list_all_iff d)
  have "digits16 (tl (id_to_hex i))"
    unfolding tl digits16_def using lt by (auto simp: list_all_iff digit_value_digit)
  moreover have "read_digits 16 0 (tl (id_to_hex i)) = foldl (\<lambda>a n. a * 16 + n) 0 (map ?d [0..<8])"
    unfolding tl by (rule read_upper_hex [OF lt])
  moreover have "foldl (\<lambda>a n. a * 16 + n) 0 (map ?d [0..<8]) = unat i"
  proof -
    have up: "[0..<8] = [0, 1, 2, 3, 4, 5, 6, 7 :: nat]" by (simp add: upt_rec)
    let ?n = "unat i"
    have st: "?n div 2 ^ (k + 4) * 16 + ?n div 2 ^ k mod 16 = ?n div 2 ^ k" for k
      using div_mult_mod_eq [of "?n div 2 ^ k" 16] by (simp add: power_add div_mult2_eq)
    have "?n < 2 ^ 32" using unat_u32_less [of i] by simp
    then have "?n div 2 ^ 28 mod 16 = ?n div 2 ^ 28" by (simp add: less_mult_imp_div_less)
    then show ?thesis
      using st [of 24] st [of 20] st [of 16] st [of 12] st [of 8] st [of 4] st [of 0]
      unfolding up d by simp
  qed
  ultimately show ?thesis by simp
qed

lemma strtoul16_id_to_hex: "strtoul16 (tl (id_to_hex i)) = i"
proof -
  have "tl (id_to_hex i) \<noteq> []" by (simp add: id_to_hex_def)
  then show ?thesis
    using strtoul16_digits [of "tl (id_to_hex i)"] id_to_hex_digits [of i] unat_u32_less [of i] by simp
qed

lemma take_drop_head [simp]: "take 1 (x # xs) = [x]" "drop 1 (x # xs) = xs"
  by simp_all

subsection \<open>Properties\<close>

text \<open>Property: handles survive the trip through text. The text that \<^verbatim>\<open>LAUNCH\<close> returns (eight upper-case
  digits) and the text that \<^verbatim>\<open>REG\<close>, \<^verbatim>\<open>QUERY\<close> and \<^verbatim>\<open>MONITOR\<close> return (lower case, no leading zeros) both
  name the same handle when they come back as the parameter of a command.\<close>

theorem handle_text_roundtrip:
  "tohandle code c (id_to_hex h) nd = Some (h, nd) \<and>
   tohandle code c ('':'' @ hex_string (unat h)) nd = Some (h, nd) \<and>
   skynet_queryname code c (id_to_hex h) nd = Some (h, nd) \<and>
   skynet_queryname code c ('':'' @ hex_string (unat h)) nd = Some (h, nd)"
proof -
  have i: "id_to_hex h = CHR '':'' # tl (id_to_hex h)" by (simp add: id_to_hex_def)
  have "strtoul16 (hex_string (unat h)) = h"
    using strtoul16_hex_string [of "unat h"] unat_u32_less [of h] by simp
  then have "tohandle code c (CHR '':'' # tl (id_to_hex h)) nd = Some (h, nd)"
    "skynet_queryname code c (CHR '':'' # tl (id_to_hex h)) nd = Some (h, nd)"
    "tohandle code c ('':'' @ hex_string (unat h)) nd = Some (h, nd)"
    "skynet_queryname code c ('':'' @ hex_string (unat h)) nd = Some (h, nd)"
    by (simp_all add: tohandle_def skynet_queryname_def strtoul16_id_to_hex)
  then show ?thesis unfolding i [symmetric] by blast
qed

text \<open>Property: names. A service that registers a free local name gets the name back, and a later
  \<^verbatim>\<open>QUERY\<close> of that name answers with the text of its handle.\<close>

theorem reg_then_query:
  assumes "node_inv held nd" "nd_ctxs nd c = Some x" "ctx_handle x \<noteq> 0"
    and "map_of (hs_names (nd_handles nd)) name = None" "hs_name_cap (nd_handles nd) * 2 \<le> MAX_SLOT_SIZE"
  shows "\<exists>nd1 nd2 text. skynet_command code c ''REG'' (Some (CHR ''.'' # name)) nd = Some (Some name, nd1) \<and>
     skynet_command code c ''QUERY'' (Some (CHR ''.'' # name)) nd1 = Some (Some text, nd2) \<and>
     tohandle code c text nd2 = Some (ctx_handle x, nd2)"
proof -
  from namehandle_ok [OF node_inv_fresh(4) [OF assms(1)] assms(5), of name "ctx_handle x"] assms(4) obtain hs where
    hs: "skynet_handle_namehandle (ctx_handle x) name (nd_handles nd) = Some (Some name, hs)" "names_inv hs"
    "map_of (hs_names hs) = (map_of (hs_names (nd_handles nd)))(name \<mapsto> ctx_handle x)" by (auto simp: domIff)
  let ?nd1 = "nd\<lparr>nd_handles := hs\<rparr>" and ?t = "'':'' @ hex_string (unat (ctx_handle x))"
  let ?nd2 = "put_ctx c (x\<lparr>ctx_result := ?t\<rparr>) ?nd1"
  have find: "skynet_handle_findname name hs = Some (ctx_handle x)" using hs(2,3) by (simp add: findname_ok)
  have "skynet_command code c ''REG'' (Some (CHR ''.'' # name)) nd = Some (Some name, ?nd1)"
    using assms(2) hs(1) by (simp add: skynet_command_def cmd_funcs_def cmd_reg_def name_handle_def)
  moreover have "skynet_command code c ''QUERY'' (Some (CHR ''.'' # name)) ?nd1 = Some (Some ?t, ?nd2)"
    using assms(2,3) find by (simp add: skynet_command_def cmd_funcs_def cmd_query_def set_result_def)
  moreover have "tohandle code c ?t ?nd2 = Some (ctx_handle x, ?nd2)"
    using strtoul16_hex_string [of "unat (ctx_handle x)"] unat_u32_less [of "ctx_handle x"] by (simp add: tohandle_def)
  ultimately show ?thesis by blast
qed

theorem reg_then_query_witness:
  "\<exists>nd1 nd2 text. skynet_command demo_code 0 ''REG'' (Some ''.db'') demo_node = Some (Some ''db'', nd1) \<and>
     skynet_command demo_code 0 ''QUERY'' (Some ''.db'') nd1 = Some (Some text, nd2) \<and>
     tohandle demo_code 0 text nd2 = Some (0x1000001, nd2)"
proof -
  have t: "nd_handles demo_node = demo_table" by (simp add: demo_node_def before_init_def context_inc_def)
  have "map_of (hs_names (nd_handles demo_node)) ''db'' = None" "hs_name_cap (nd_handles demo_node) * 2 \<le> MAX_SLOT_SIZE"
    by (simp_all add: t demo_table_def hs_names_def skynet_handle_init_def MAX_SLOT_SIZE_def)
  from reg_then_query [OF demo_ok(1,6) _ this, of demo_code] show ?thesis by (simp add: new_context_def)
qed

text \<open>Property: \<^verbatim>\<open>KILL\<close>. The command with the text of a handle removes that service from the table and
  no other; when the table held its last reference its context is freed. No monitor is set here.\<close>

theorem kill_removes_service:
  assumes "node_inv held nd" "nd_ctxs nd c \<noteq> None" "service nd h = Some d" "nd_ctxs nd d = Some x" "ctx_ref x = 1" "h \<noteq> 0"
    and "\<And>n. mod_release code (ctx_mod x) n = Some n" "nd_monitor_exit nd = 0"
  shows "\<exists>nd'. skynet_command code c ''KILL'' (Some ('':'' @ hex_string (unat h))) nd = Some (None, nd') \<and>
     node_inv held nd' \<and> service nd' = (service nd)(h := None) \<and> nd_ctxs nd' = (nd_ctxs nd)(d := None)"
proof -
  let ?text = "''KILL :'' @ hex_string (unat h)"
  have parse: "tohandle code c ('':'' @ hex_string (unat h)) nd = Some (h, nd)"
    using strtoul16_hex_string [of "unat h"] unat_u32_less [of h] by (simp add: tohandle_def)
  from skynet_error_ok [OF assms(1), of "Some c" code ?text] assms(2) obtain nd1 where
    nd1: "skynet_error code (Some c) ?text nd = Some nd1" "node_inv held nd1" "nd_ctxs nd1 = nd_ctxs nd"
    "nd_handles nd1 = nd_handles nd" "nd_monitor_exit nd1 = nd_monitor_exit nd" by auto
  have "hof nd1 = hof nd" using nd1(3) by (simp add: hof_def fun_eq_iff)
  then have svc: "service nd1 = service nd" using nd1(4) by (intro ext) (simp add: service_def)
  have mon: "nd_monitor_exit nd1 = 0" using nd1(5) assms(8) by simp
  have "service nd1 h = Some d" "nd_ctxs nd1 d = Some x" using assms(3,4) svc nd1(3) by simp_all
  from retire_last [OF nd1(2) this assms(5,7)] obtain nd' where
    r: "handle_retire code h nd1 = Some (1, nd')" "node_inv held nd'" "nd_ctxs nd' = (nd_ctxs nd1)(d := None)"
    "service nd' = (service nd1)(h := None)" .
  have "handle_exit code c h nd = Some nd'"
    using assms(2,6) nd1(1) mon r(1) by (auto simp: handle_exit_def Let_def)
  then have "skynet_command code c ''KILL'' (Some ('':'' @ hex_string (unat h))) nd = Some (None, nd')"
    using parse assms(6) by (simp add: skynet_command_def cmd_funcs_def cmd_kill_def del: append_Cons append_Nil)
  with r svc nd1(3) show ?thesis by auto
qed

theorem kill_removes_service_witness:
  "\<exists>nd'. skynet_command demo_code 0 ''KILL'' (Some ('':'' @ hex_string (unat (0x1000001 :: u32))))
       (put_ctx 0 ((new_context ''echo'' 0x1000001 0 False)\<lparr>ctx_ref := 1\<rparr>) demo_node) = Some (None, nd') \<and>
     service nd' 0x1000001 = None \<and> nd_ctxs nd' 0 = None"
proof -
  let ?x = "(new_context ''echo'' 0x1000001 0 False)\<lparr>ctx_ref := 1\<rparr>"
  let ?nd = "put_ctx 0 ?x demo_node"
  have x: "ctx_handle ?x = ctx_handle (new_context ''echo'' 0x1000001 0 False)"
    "ctx_queue ?x = ctx_queue (new_context ''echo'' 0x1000001 0 False)" "ctx_ref ?x = 1" by simp_all
  have inv: "node_inv [0] ?nd" by (rule node_inv_put_ctx [OF demo_ok(1,6) x(1,2)]) simp
  have svc: "service ?nd 0x1000001 = Some 0" using put_ctx_frame(2) [OF demo_ok(6) x(1,2)] demo_ok(2) by simp
  have "nd_monitor_exit ?nd = 0"
    by (simp add: put_ctx_def demo_node_def before_init_def context_inc_def skynet_globalinit_def skynet_harbor_init_def)
  with kill_removes_service [OF inv _ svc _ x(3), of 0 demo_code] show ?thesis
    by (auto simp: demo_code_def)
qed

text \<open>Property: \<^verbatim>\<open>NAME\<close> with a single word. \<^verbatim>\<open>sscanf\<close> fills the first of the two buffers only and the
  code goes on to look at the second one, which holds whatever the stack held.\<close>

theorem name_reads_unwritten_buffer:
  assumes "name \<noteq> []" "list_all (\<lambda>ch. \<not> c_isspace ch) name"
  shows "skynet_command code c ''NAME'' (Some name) nd = None"
proof -
  obtain a t where "name = a # t" using assms(1) by (cases name) auto
  with assms(2) have "dropWhile c_isspace name = name" "takeWhile (\<lambda>ch. \<not> c_isspace ch) name = name"
    by (auto simp: list_all_iff takeWhile_eq_all_conv)
  then have "scan_word name = (Some name, [])" using assms(1) unfolding scan_word_def by (simp only: Let_def) simp
  moreover have "scan_word [] = (None, [])" by (simp add: scan_word_def)
  ultimately show ?thesis by (simp add: skynet_command_def cmd_funcs_def cmd_name_def)
qed

theorem name_reads_unwritten_buffer_witness:
  "skynet_command demo_code 0 ''NAME'' (Some ''.db'') demo_node = None"
  by (rule name_reads_unwritten_buffer) (simp_all add: c_isspace_def)

end
