(* ===== verification/Packages.thy ===== *)
theory Packages
  imports Skynet_Prelude
begin

text \<open>
  The format of the packages on a socket and its specification, shared by the gate service
  (\<^verbatim>\<open>service_gate.c\<close>) and the module \<^verbatim>\<open>lua-netpack.c\<close>: a big-endian length of two bytes, then the body.
\<close>

subsection \<open>Big-endian lengths\<close>

lemma unat_u8_less: "unat (a :: u8) < 256"
  by (rule order_less_le_trans [OF unsigned_less]) simp

lemma unat_be2: "unat (push_bit 8 (ucast (a :: u8)) OR ucast (b :: u8) :: u32) = unat a * 256 + unat b"
proof -
  have "push_bit 8 (ucast a) AND ucast b = (0 :: u32)"
    by (rule bit_word_eqI) (auto simp: bit_simps dest: bit_imp_le_length)
  then have "push_bit 8 (ucast a) OR ucast b = push_bit 8 (ucast a) + (ucast b :: u32)"
    by (rule disjunctive_add_eq_or [symmetric])
  also have "\<dots> = of_nat (unat a * 256 + unat b)"
    by (simp add: push_bit_eq_mult ac_simps)
  also have "unat (of_nat (unat a * 256 + unat b) :: u32) = unat a * 256 + unat b"
    using unat_u8_less [of a] unat_u8_less [of b]
    by (simp only: unsigned_of_nat) (simp add: take_bit_nat_eq_self)
  finally show ?thesis .
qed

lemma take_2: "2 \<le> length xs \<Longrightarrow> \<exists>a b ys. xs = a # b # ys"
  by (cases xs; cases "tl xs") auto

subsection \<open>Cutting a stream into packages\<close>

text \<open>The specification: a package is two bytes of length, big-endian, and that many bytes; what does
  not make a whole package waits.\<close>

function split_packages :: "u8 list \<Rightarrow> u8 list list \<times> u8 list" where
  "split_packages bs = (case bs of
     a # b # rest \<Rightarrow>
       (let n = unat a * 256 + unat b in
        if n \<le> length rest then (let (ps, r) = split_packages (drop n rest) in (take n rest # ps, r)) else ([], bs))
   | _ \<Rightarrow> ([], bs))"
  by pat_completeness auto
termination by (relation "measure length") auto

declare split_packages.simps [simp del]

lemma split_packages_short: "length bs < 2 \<Longrightarrow> split_packages bs = ([], bs)"
  by (subst split_packages.simps) (auto split: list.splits)

lemma split_packages_wait: "length rest < unat a * 256 + unat b \<Longrightarrow> split_packages (a # b # rest) = ([], a # b # rest)"
  by (subst split_packages.simps) simp

lemma split_packages_take:
  "n = unat a * 256 + unat b \<Longrightarrow> n \<le> length rest \<Longrightarrow>
   split_packages (a # b # rest) = (take n rest # fst (split_packages (drop n rest)), snd (split_packages (drop n rest)))"
  by (subst split_packages.simps) (simp add: case_prod_unfold Let_def)

text \<open>Cutting can go on where it stopped.\<close>

lemma split_packages_append:
  "split_packages (bs @ cs) =
     (fst (split_packages bs) @ fst (split_packages (snd (split_packages bs) @ cs)),
      snd (split_packages (snd (split_packages bs) @ cs)))"
proof (induction bs rule: split_packages.induct)
  case (1 bs)
  show ?case
  proof (cases "2 \<le> length bs")
    case False
    then show ?thesis by (simp add: split_packages_short)
  next
    case True
    then obtain a b rest where bs: "bs = a # b # rest" using take_2 by blast
    let ?n = "unat a * 256 + unat b"
    show ?thesis
    proof (cases "?n \<le> length rest")
      case False
      then show ?thesis by (simp add: bs split_packages_wait)
    next
      case n: True
      have IH: "split_packages (drop ?n rest @ cs) =
        (fst (split_packages (drop ?n rest)) @ fst (split_packages (snd (split_packages (drop ?n rest)) @ cs)),
         snd (split_packages (snd (split_packages (drop ?n rest)) @ cs)))"
        using "1" [OF bs refl refl n] by simp
      have "split_packages (bs @ cs) = (take ?n rest # fst (split_packages (drop ?n rest @ cs)), snd (split_packages (drop ?n rest @ cs)))"
        using split_packages_take [of ?n a b "rest @ cs"] n by (simp add: bs)
      with IH split_packages_take [OF refl n] show ?thesis by (simp add: bs)
    qed
  qed
qed

end
