(* ===== verification/Data_Buffer.thy ===== *)
theory Data_Buffer
  imports Packages
begin

text \<open>
  \<^verbatim>\<open>service-src/databuffer.h\<close>: the receive buffer of a connection. The blocks that the socket layer
  delivered are kept in a linked list, and reading copies bytes out of them across block
  boundaries. The abstract view of a buffer is the stream of bytes that were pushed and not yet
  read; every operation is shown to act on that stream.

  A block is the list of its bytes (its length is the field \<^verbatim>\<open>size\<close>). The nodes of the list come
  from a pool; the pool is the number of its chunks and the number of nodes on its free list.
\<close>

definition MESSAGEPOOL :: nat where "MESSAGEPOOL = 1023"

record databuffer =
  db_header :: int
  db_offset :: nat
  db_size :: int
  db_msgs :: "u8 list list"

record messagepool =
  mp_pool :: nat
  mp_freelist :: nat

definition databuffer_empty :: databuffer where
  "databuffer_empty = \<lparr>db_header = 0, db_offset = 0, db_size = 0, db_msgs = []\<rparr>"

definition messagepool_free :: "messagepool \<Rightarrow> messagepool" where
  "messagepool_free pool = pool\<lparr>mp_pool := 0, mp_freelist := 0\<rparr>"

text \<open>\<^verbatim>\<open>_return_message\<close>: the first node goes back to the free list.\<close>

definition return_message :: "databuffer \<Rightarrow> messagepool \<Rightarrow> (databuffer \<times> messagepool) option" where
  "return_message db mp = (case db_msgs db of
     [] \<Rightarrow> None
   | m # rest \<Rightarrow> Some (db\<lparr>db_msgs := rest\<rparr>, mp\<lparr>mp_freelist := Suc (mp_freelist mp)\<rparr>))"

text \<open>The loop of \<^verbatim>\<open>databuffer_read\<close> with \<open>sz\<close> bytes to go; an empty list is a null pointer that the
  code would follow.\<close>

function (sequential) read_loop :: "nat \<Rightarrow> databuffer \<Rightarrow> messagepool \<Rightarrow> (u8 list \<times> databuffer \<times> messagepool) option" where
  "read_loop sz db mp = (case db_msgs db of
     [] \<Rightarrow> None
   | current # rest \<Rightarrow> do {
       c_assert (db_offset db \<le> length current);
       let bsz = length current - db_offset db in
       if bsz > sz then
         Some (take sz (drop (db_offset db) current), db\<lparr>db_offset := db_offset db + sz\<rparr>, mp)
       else if bsz = sz then
         Some (drop (db_offset db) current, db\<lparr>db_offset := 0, db_msgs := rest\<rparr>, mp\<lparr>mp_freelist := Suc (mp_freelist mp)\<rparr>)
       else do {
         (bs, db', mp') \<leftarrow> read_loop (sz - bsz) (db\<lparr>db_msgs := rest, db_offset := 0\<rparr>)
                             (mp\<lparr>mp_freelist := Suc (mp_freelist mp)\<rparr>);
         Some (drop (db_offset db) current @ bs, db', mp') } })"
  by pat_completeness auto
termination by (relation "measure (\<lambda>(sz, db, mp). length (db_msgs db))") auto

declare read_loop.simps [simp del]

definition databuffer_read :: "nat \<Rightarrow> databuffer \<Rightarrow> messagepool \<Rightarrow> (u8 list \<times> databuffer \<times> messagepool) option" where
  "databuffer_read sz db mp = do {
     c_assert (db_size db \<ge> int sz);
     read_loop sz (db\<lparr>db_size := db_size db - int sz\<rparr>) mp }"

text \<open>A node comes from the free list or from a new chunk of the pool.\<close>

definition databuffer_push :: "u8 list \<Rightarrow> databuffer \<Rightarrow> messagepool \<Rightarrow> databuffer \<times> messagepool" where
  "databuffer_push data db mp =
     (db\<lparr>db_size := db_size db + int (length data), db_msgs := db_msgs db @ [data]\<rparr>,
      (if mp_freelist mp > 0 then mp\<lparr>mp_freelist := mp_freelist mp - 1\<rparr>
       else mp\<lparr>mp_pool := Suc (mp_pool mp), mp_freelist := MESSAGEPOOL - 1\<rparr>))"

text \<open>The length in the header, big-endian, stored in a C \<^verbatim>\<open>int\<close>.\<close>

definition header_value :: "u8 list \<Rightarrow> nat \<Rightarrow> int" where
  "header_value plen header_size =
     (if header_size = 2 then sint (push_bit 8 (ucast (plen ! 0)) OR ucast (plen ! 1) :: u32)
      else sint (push_bit 24 (ucast (plen ! 0)) OR push_bit 16 (ucast (plen ! 1)) OR
                 push_bit 8 (ucast (plen ! 2)) OR ucast (plen ! 3) :: u32))"

definition databuffer_readheader :: "nat \<Rightarrow> databuffer \<Rightarrow> messagepool \<Rightarrow> (int \<times> databuffer \<times> messagepool) option" where
  "databuffer_readheader header_size db mp = do {
     (early, db, mp) \<leftarrow>
       (if db_header db = 0 then
          (if db_size db < int header_size then Some (True, db, mp)
           else do {
             (plen, db, mp) \<leftarrow> databuffer_read header_size db mp;
             Some (False, db\<lparr>db_header := header_value plen header_size\<rparr>, mp) })
        else Some (False, db, mp));
     if early then Some (- 1, db, mp)
     else if db_size db < db_header db then Some (- 1, db, mp)
     else Some (db_header db, db, mp) }"

definition databuffer_reset :: "databuffer \<Rightarrow> databuffer" where
  "databuffer_reset db = db\<lparr>db_header := 0\<rparr>"

definition databuffer_clear :: "databuffer \<Rightarrow> messagepool \<Rightarrow> databuffer \<times> messagepool" where
  "databuffer_clear db mp = (databuffer_empty, mp\<lparr>mp_freelist := mp_freelist mp + length (db_msgs db)\<rparr>)"

subsection \<open>A buffer is a stream of bytes\<close>

definition db_stream :: "databuffer \<Rightarrow> u8 list" where
  "db_stream db = drop (db_offset db) (concat (db_msgs db))"

definition db_inv :: "databuffer \<Rightarrow> bool" where
  "db_inv db \<longleftrightarrow> db_size db = int (length (db_stream db)) \<and>
     (case db_msgs db of [] \<Rightarrow> db_offset db = 0 | m # _ \<Rightarrow> db_offset db \<le> length m)"

lemma db_inv_empty [simp]: "db_inv databuffer_empty" "db_stream databuffer_empty = []"
  by (simp_all add: db_inv_def db_stream_def databuffer_empty_def)

lemma db_inv_header [simp]:
  "db_inv (db\<lparr>db_header := h\<rparr>) = db_inv db" "db_stream (db\<lparr>db_header := h\<rparr>) = db_stream db"
  by (auto simp: db_inv_def db_stream_def split: list.splits)

lemma db_push:
  assumes "db_inv db"
  shows "db_inv (fst (databuffer_push data db mp))"
    "db_stream (fst (databuffer_push data db mp)) = db_stream db @ data"
    "db_header (fst (databuffer_push data db mp)) = db_header db"
proof -
  have "db_offset db \<le> length (concat (db_msgs db))"
    using assms by (auto simp: db_inv_def split: list.splits)
  then show str: "db_stream (fst (databuffer_push data db mp)) = db_stream db @ data"
    by (simp add: databuffer_push_def db_stream_def)
  show "db_inv (fst (databuffer_push data db mp))"
    using assms str by (auto simp: databuffer_push_def db_inv_def split: list.splits)
qed (simp add: databuffer_push_def)

lemma read_loop_ok:
  assumes "sz \<le> length (db_stream db)" "0 < sz"
    and "case db_msgs db of [] \<Rightarrow> db_offset db = 0 | m # _ \<Rightarrow> db_offset db \<le> length m"
  shows "\<exists>db' mp'. read_loop sz db mp = Some (take sz (db_stream db), db', mp') \<and>
    db_stream db' = drop sz (db_stream db) \<and> db_size db' = db_size db \<and> db_header db' = db_header db \<and>
    (case db_msgs db' of [] \<Rightarrow> db_offset db' = 0 | m # _ \<Rightarrow> db_offset db' \<le> length m)"
  using assms
proof (induction sz db mp rule: read_loop.induct)
  case (1 sz db mp)
  then obtain cur rest where m: "db_msgs db = cur # rest" and off: "db_offset db \<le> length cur"
    by (cases "db_msgs db") (auto simp: db_stream_def)
  let ?b = "length cur - db_offset db"
  have str: "db_stream db = drop (db_offset db) cur @ concat rest" using m off by (simp add: db_stream_def)
  consider "?b > sz" | "?b = sz" | "?b < sz" by linarith
  then show ?case
  proof cases
    case 1
    have "db_stream (db\<lparr>db_offset := db_offset db + sz\<rparr>) = drop sz (db_stream db)"
      by (simp add: db_stream_def add.commute del: drop_append)
    with 1 m off str show ?thesis by (subst read_loop.simps) simp
  next
    case 2
    have "db_stream (db\<lparr>db_offset := 0, db_msgs := rest\<rparr>) = drop sz (db_stream db)"
      using 2 str by (simp add: db_stream_def)
    with 2 m off str show ?thesis by (subst read_loop.simps) (simp split: list.splits)
  next
    case 3
    let ?db = "db\<lparr>db_msgs := rest, db_offset := 0\<rparr>" and ?mp = "mp\<lparr>mp_freelist := Suc (mp_freelist mp)\<rparr>"
    have s: "db_stream ?db = concat rest" by (simp add: db_stream_def)
    have len: "sz - ?b \<le> length (db_stream ?db)" "0 < sz - ?b" using 3 str "1.prems"(1) s by simp_all
    have wf: "case db_msgs ?db of [] \<Rightarrow> db_offset ?db = 0 | m # _ \<Rightarrow> db_offset ?db \<le> length m"
      by (simp split: list.splits)
    from "1.IH" [OF m _ refl _ _ len wf] off 3 obtain db' mp' where
      r: "read_loop (sz - ?b) ?db ?mp = Some (take (sz - ?b) (concat rest), db', mp')"
      "db_stream db' = drop (sz - ?b) (concat rest)" "db_size db' = db_size db" "db_header db' = db_header db"
      "case db_msgs db' of [] \<Rightarrow> db_offset db' = 0 | m # _ \<Rightarrow> db_offset db' \<le> length m"
      unfolding s by auto
    with 3 m off str show ?thesis by (subst read_loop.simps) auto
  qed
qed

lemma databuffer_read_ok:
  assumes "db_inv db" "0 < sz" "sz \<le> length (db_stream db)"
  shows "\<exists>db' mp'. databuffer_read sz db mp = Some (take sz (db_stream db), db', mp') \<and> db_inv db' \<and>
    db_stream db' = drop sz (db_stream db) \<and> db_header db' = db_header db"
proof -
  let ?db = "db\<lparr>db_size := db_size db - int sz\<rparr>"
  have s: "db_stream ?db = db_stream db" by (simp add: db_stream_def)
  have "case db_msgs ?db of [] \<Rightarrow> db_offset ?db = 0 | m # _ \<Rightarrow> db_offset ?db \<le> length m"
    using assms(1) by (auto simp: db_inv_def split: list.splits)
  from read_loop_ok [of sz ?db, OF _ assms(2) this, of mp] assms s obtain db' mp' where
    "read_loop sz ?db mp = Some (take sz (db_stream db), db', mp')" "db_stream db' = drop sz (db_stream db)"
    "db_size db' = db_size db - int sz" "db_header db' = db_header db"
    "case db_msgs db' of [] \<Rightarrow> db_offset db' = 0 | m # _ \<Rightarrow> db_offset db' \<le> length m" by auto
  with assms show ?thesis by (simp add: databuffer_read_def db_inv_def)
qed

subsection \<open>The header\<close>

lemma sint_small:
  assumes "unat (w :: u32) < 2 ^ 31"
  shows "sint w = int (unat w)"
proof -
  have "uint w < 2 ^ 31" using assms by (metis of_nat_unat of_nat_less_numeral_power_cancel_iff)
  moreover have "- (2 ^ 31) \<le> uint w" by (rule order_trans [of _ 0]) simp_all
  ultimately have "signed_take_bit 31 (uint w) = uint w" by (intro signed_take_bit_int_eq_self)
  then show ?thesis by (simp add: sint_uint)
qed

lemma header_value_2: "header_value (a # b # rest) 2 = int (unat a * 256 + unat b)"
proof -
  let ?w = "push_bit 8 (ucast a) OR ucast b :: u32"
  have "unat ?w < 2 ^ 31" using unat_be2 [of a b] unat_u8_less [of a] unat_u8_less [of b] by simp
  then have "sint ?w = int (unat ?w)" by (rule sint_small)
  then show ?thesis by (simp add: header_value_def unat_be2)
qed

lemma header_value_4_negative:
  assumes "bit a 7"
  shows "header_value (a # b # c # d # rest) 4 < 0"
proof -
  let ?w = "push_bit 24 (ucast a) OR push_bit 16 (ucast b) OR push_bit 8 (ucast c) OR ucast d :: u32"
  have "bit ?w 31" using assms by (simp add: bit_simps)
  then have "sint ?w < 0" using bit_last_iff [of ?w] by simp
  then show ?thesis by (simp add: header_value_def)
qed

text \<open>Reading the header in the two states of a buffer.\<close>

lemma readheader_short:
  assumes "db_inv db" "db_header db = 0" "length (db_stream db) < hs"
  shows "databuffer_readheader hs db mp = Some (- 1, db, mp)"
  using assms by (simp add: databuffer_readheader_def db_inv_def)

lemma readheader_fresh:
  assumes "db_inv db" "db_header db = 0" "hs \<le> length (db_stream db)" "0 < hs"
  obtains db' mp' where "databuffer_readheader hs db mp =
      Some (if int (length (db_stream db')) < db_header db' then - 1 else db_header db', db', mp')"
    "db_inv db'" "db_stream db' = drop hs (db_stream db)" "db_header db' = header_value (take hs (db_stream db)) hs"
proof -
  from databuffer_read_ok [OF assms(1,4,3), of mp] obtain db1 mp1 where
    r: "databuffer_read hs db mp = Some (take hs (db_stream db), db1, mp1)" "db_inv db1"
    "db_stream db1 = drop hs (db_stream db)" by blast
  let ?db = "db1\<lparr>db_header := header_value (take hs (db_stream db)) hs\<rparr>"
  have "db_size ?db = int (length (db_stream ?db))" using r(2) by (simp add: db_inv_def)
  moreover have "\<not> db_size db < int hs" using assms(1,3) by (simp add: db_inv_def)
  ultimately have "databuffer_readheader hs db mp =
      Some (if int (length (db_stream ?db)) < db_header ?db then - 1 else db_header ?db, ?db, mp1)"
    using r(1) assms(2) by (simp add: databuffer_readheader_def)
  from that [OF this] r show thesis by simp
qed

lemma readheader_pending:
  assumes "db_inv db" "db_header db \<noteq> 0"
  shows "databuffer_readheader hs db mp =
    Some (if int (length (db_stream db)) < db_header db then - 1 else db_header db, db, mp)"
  using assms by (simp add: databuffer_readheader_def db_inv_def)

end
