(* ===== verification/Hash_Id.thy ===== *)
theory Hash_Id
  imports Skynet_Prelude
begin

text \<open>
  \<^verbatim>\<open>service-src/hashid.h\<close>: the table of a gate that maps socket ids to connection slots. The nodes
  are an array; the buckets of a hash table are chains through the nodes. A pointer to a node
  is its index in the array. The theory shows that the table is a finite map.
\<close>

record hashid_node =
  hn_id :: int
  hn_next :: "nat option"

record hashid =
  hi_hashmod :: int
  hi_cap :: nat
  hi_count :: int
  hi_id :: "hashid_node list"
  hi_hash :: "nat option list"

text \<open>The loop that doubles the capacity; \<open>None\<close> would be a loop that does not end.\<close>

partial_function (option) hash_capacity :: "nat \<Rightarrow> nat \<Rightarrow> nat option" where
  "hash_capacity hashcap mx = (if hashcap < mx then hash_capacity (hashcap * 2) mx else Some hashcap)"

definition hashid_init :: "nat \<Rightarrow> hashid option" where
  "hashid_init mx = do {
     hashcap \<leftarrow> hash_capacity 16 mx;
     Some \<lparr>hi_hashmod = int hashcap - 1, hi_cap = mx, hi_count = 0,
       hi_id = replicate mx \<lparr>hn_id = - 1, hn_next = None\<rparr>, hi_hash = replicate hashcap None\<rparr> }"

definition hashid_clear :: "hashid \<Rightarrow> hashid" where
  "hashid_clear hi = hi\<lparr>hi_id := [], hi_hash := [], hi_hashmod := 1, hi_cap := 0, hi_count := 0\<rparr>"

definition bucket :: "hashid \<Rightarrow> int \<Rightarrow> nat" where
  "bucket hi key = nat (key AND hi_hashmod hi)"

text \<open>The loop of \<^verbatim>\<open>hashid_lookup\<close>: the index of the node with this id on the chain, or \<open>- 1\<close>.\<close>

partial_function (option) chain_lookup :: "hashid_node list \<Rightarrow> int \<Rightarrow> nat option \<Rightarrow> int option" where
  "chain_lookup nodes key c = (case c of
     None \<Rightarrow> Some (- 1)
   | Some i \<Rightarrow> Option.bind (array_get nodes i) (\<lambda>n.
       if hn_id n = key then Some (int i) else chain_lookup nodes key (hn_next n)))"

definition hashid_lookup :: "hashid \<Rightarrow> int \<Rightarrow> int option" where
  "hashid_lookup hi key = do {
     c \<leftarrow> array_get (hi_hash hi) (bucket hi key);
     chain_lookup (hi_id hi) key c }"

text \<open>The label \<^verbatim>\<open>_clear\<close> of \<^verbatim>\<open>hashid_remove\<close>.\<close>

definition clear_node :: "nat \<Rightarrow> hashid \<Rightarrow> (int \<times> hashid) option" where
  "clear_node i hi = do {
     ns \<leftarrow> array_set (hi_id hi) i \<lparr>hn_id = - 1, hn_next = None\<rparr>;
     Some (int i, hi\<lparr>hi_id := ns, hi_count := hi_count hi - 1\<rparr>) }"

text \<open>The loop of \<^verbatim>\<open>hashid_remove\<close> behind the node \<open>c\<close>.\<close>

partial_function (option) unlink_loop :: "int \<Rightarrow> nat \<Rightarrow> hashid \<Rightarrow> (int \<times> hashid) option" where
  "unlink_loop key c hi = Option.bind (array_get (hi_id hi) c) (\<lambda>n. case hn_next n of
     None \<Rightarrow> Some (- 1, hi)
   | Some t \<Rightarrow> Option.bind (array_get (hi_id hi) t) (\<lambda>temp.
       if hn_id temp = key
       then clear_node t (hi\<lparr>hi_id := (hi_id hi)[c := n\<lparr>hn_next := hn_next temp\<rparr>]\<rparr>)
       else unlink_loop key t hi))"

definition hashid_remove :: "hashid \<Rightarrow> int \<Rightarrow> (int \<times> hashid) option" where
  "hashid_remove hi key = (let h = bucket hi key in do {
     c \<leftarrow> array_get (hi_hash hi) h;
     (case c of
        None \<Rightarrow> Some (- 1, hi)
      | Some i \<Rightarrow> do {
          n \<leftarrow> array_get (hi_id hi) i;
          if hn_id n = key then clear_node i (hi\<lparr>hi_hash := (hi_hash hi)[h := hn_next n]\<rparr>)
          else unlink_loop key i hi }) })"

text \<open>The remainder of C has the sign of the dividend.\<close>

definition c_rem :: "int \<Rightarrow> int \<Rightarrow> int" where
  "c_rem a b = (if a < 0 then - ((- a) mod b) else a mod b)"

text \<open>The first free node at or after \<open>key\<close> modulo the capacity, trying \<open>k\<close> more. The sum is one of two
  ints: when it leaves their range the code has no defined behaviour, which is \<open>None\<close> here.\<close>

fun find_free :: "nat \<Rightarrow> int \<Rightarrow> int \<Rightarrow> hashid \<Rightarrow> (nat option) option" where
  "find_free 0 i key hi = Some None"
| "find_free (Suc k) i key hi = (let index = c_rem (i + key) (int (hi_cap hi)) in do {
     c_assert (i + key < 2 ^ 31);
     c_assert (0 \<le> index);
     n \<leftarrow> array_get (hi_id hi) (nat index);
     if hn_id n = - 1 then Some (Some (nat index)) else find_free k (i + 1) key hi })"

definition hashid_insert :: "hashid \<Rightarrow> int \<Rightarrow> (int \<times> hashid) option" where
  "hashid_insert hi key = do {
     r \<leftarrow> find_free (hi_cap hi) 0 key hi;
     c \<leftarrow> r;
     n \<leftarrow> array_get (hi_id hi) c;
     c_assert (hn_next n = None);
     let h = bucket hi key in do {
     b \<leftarrow> array_get (hi_hash hi) h;
     Some (int c, hi\<lparr>hi_count := hi_count hi + 1, hi_id := (hi_id hi)[c := \<lparr>hn_id = key, hn_next = b\<rparr>],
                   hi_hash := (hi_hash hi)[h := Some c]\<rparr>) } }"

definition hashid_full :: "hashid \<Rightarrow> bool" where
  "hashid_full hi \<longleftrightarrow> hi_count hi = int (hi_cap hi)"

subsection \<open>Chains\<close>

fun hchain :: "hashid_node list \<Rightarrow> nat option \<Rightarrow> nat list \<Rightarrow> bool" where
  "hchain ns p [] \<longleftrightarrow> p = None"
| "hchain ns p (i # is) \<longleftrightarrow> p = Some i \<and> i < length ns \<and> hchain ns (hn_next (ns ! i)) is"

lemma hchain_less: "hchain ns p is \<Longrightarrow> i \<in> set is \<Longrightarrow> i < length ns"
  by (induction "is" arbitrary: p) auto

lemma hchain_upd:
  "i \<notin> set is \<Longrightarrow> hchain (ns[i := n]) p is = hchain ns p is"
  by (induction "is" arbitrary: p) auto

lemma chain_lookup_ok:
  assumes "hchain ns p is"
  shows "chain_lookup ns key p = Some (case find (\<lambda>i. hn_id (ns ! i) = key) is of Some i \<Rightarrow> int i | None \<Rightarrow> - 1)"
  using assms
proof (induction "is" arbitrary: p)
  case Nil
  then show ?case by (subst chain_lookup.simps) simp
next
  case (Cons i "is")
  then show ?case by (subst chain_lookup.simps) auto
qed

text \<open>Every used node is on the chain of the bucket of its id, once; unused nodes have no successor;
  no id is used twice; the counter counts the used nodes.\<close>

definition used :: "hashid \<Rightarrow> nat \<Rightarrow> bool" where
  "used hi i \<longleftrightarrow> i < hi_cap hi \<and> hn_id (hi_id hi ! i) \<noteq> - 1"

definition hid_rep :: "hashid \<Rightarrow> (nat \<Rightarrow> nat list) \<Rightarrow> bool" where
  "hid_rep hi ch \<longleftrightarrow> 0 \<le> hi_hashmod hi \<and> length (hi_hash hi) = nat (hi_hashmod hi) + 1 \<and> length (hi_id hi) = hi_cap hi \<and>
     (\<forall>h < length (hi_hash hi). hchain (hi_id hi) (hi_hash hi ! h) (ch h) \<and> distinct (ch h) \<and>
        (\<forall>i \<in> set (ch h). used hi i \<and> bucket hi (hn_id (hi_id hi ! i)) = h)) \<and>
     (\<forall>i. used hi i \<longrightarrow> i \<in> set (ch (bucket hi (hn_id (hi_id hi ! i))))) \<and>
     (\<forall>i. i < hi_cap hi \<longrightarrow> \<not> used hi i \<longrightarrow> hn_next (hi_id hi ! i) = None) \<and>
     (\<forall>i j. used hi i \<longrightarrow> used hi j \<longrightarrow> hn_id (hi_id hi ! i) = hn_id (hi_id hi ! j) \<longrightarrow> i = j) \<and>
     hi_count hi = int (card {i. used hi i})"

definition hid_inv :: "hashid \<Rightarrow> bool" where
  "hid_inv hi \<longleftrightarrow> (\<exists>ch. hid_rep hi ch)"

lemma bucket_less: "hid_rep hi ch \<Longrightarrow> bucket hi key < length (hi_hash hi)"
proof -
  assume r: "hid_rep hi ch"
  then have "0 \<le> hi_hashmod hi" by (simp add: hid_rep_def)
  then have "key AND hi_hashmod hi \<le> hi_hashmod hi" by (rule AND_upper2)
  moreover from r have "length (hi_hash hi) = nat (hi_hashmod hi) + 1" by (simp add: hid_rep_def)
  ultimately show ?thesis by (simp add: bucket_def less_Suc_eq_le nat_mono)
qed

lemma hid_repD:
  assumes "hid_rep hi ch"
  shows "length (hi_id hi) = hi_cap hi"
    "\<And>h. h < length (hi_hash hi) \<Longrightarrow> hchain (hi_id hi) (hi_hash hi ! h) (ch h)"
    "\<And>h. h < length (hi_hash hi) \<Longrightarrow> distinct (ch h)"
    "\<And>h i. h < length (hi_hash hi) \<Longrightarrow> i \<in> set (ch h) \<Longrightarrow> used hi i \<and> bucket hi (hn_id (hi_id hi ! i)) = h"
    "\<And>i. used hi i \<Longrightarrow> i \<in> set (ch (bucket hi (hn_id (hi_id hi ! i))))"
    "\<And>i. i < hi_cap hi \<Longrightarrow> \<not> used hi i \<Longrightarrow> hn_next (hi_id hi ! i) = None"
    "\<And>i j. used hi i \<Longrightarrow> used hi j \<Longrightarrow> hn_id (hi_id hi ! i) = hn_id (hi_id hi ! j) \<Longrightarrow> i = j"
    "hi_count hi = int (card {i. used hi i})" "0 \<le> hi_hashmod hi" "length (hi_hash hi) = nat (hi_hashmod hi) + 1"
  using assms unfolding hid_rep_def by blast+

text \<open>The lookup answers with the node that carries the id.\<close>

lemma lookup_node:
  assumes "hid_rep hi ch" "used hi i" "hn_id (hi_id hi ! i) = key"
  shows "hashid_lookup hi key = Some (int i)"
proof -
  note r = hid_repD [OF assms(1)]
  let ?h = "bucket hi key"
  have h: "?h < length (hi_hash hi)" by (rule bucket_less [OF assms(1)])
  have i: "i \<in> set (ch ?h)" using r(5) [OF assms(2)] assms(3) by simp
  have "find (\<lambda>j. hn_id (hi_id hi ! j) = key) (ch ?h) = Some i"
  proof (cases "find (\<lambda>j. hn_id (hi_id hi ! j) = key) (ch ?h)")
    case None
    with i assms(3) show ?thesis by (auto simp: find_None_iff)
  next
    case (Some j)
    then have "j \<in> set (ch ?h)" "hn_id (hi_id hi ! j) = key" by (auto simp: find_Some_iff)
    with r(4) [OF h, of j] r(7) [of j i] assms(2,3) Some show ?thesis by simp
  qed
  with chain_lookup_ok [OF r(2) [OF h], of key] h show ?thesis by (simp add: hashid_lookup_def)
qed

lemma lookup_none:
  assumes "hid_rep hi ch" "\<And>i. used hi i \<Longrightarrow> hn_id (hi_id hi ! i) \<noteq> key"
  shows "hashid_lookup hi key = Some (- 1)"
proof -
  note r = hid_repD [OF assms(1)]
  let ?h = "bucket hi key"
  have h: "?h < length (hi_hash hi)" by (rule bucket_less [OF assms(1)])
  have "find (\<lambda>j. hn_id (hi_id hi ! j) = key) (ch ?h) = None"
    using r(4) [OF h] assms(2) by (auto simp: find_None_iff)
  with chain_lookup_ok [OF r(2) [OF h], of key] h show ?thesis by (simp add: hashid_lookup_def)
qed

lemma lookup_cases:
  assumes "hid_inv hi"
  obtains i where "used hi i" "hn_id (hi_id hi ! i) = key" "hashid_lookup hi key = Some (int i)"
  | "\<And>i. used hi i \<Longrightarrow> hn_id (hi_id hi ! i) \<noteq> key" "hashid_lookup hi key = Some (- 1)"
proof -
  from assms obtain ch where r: "hid_rep hi ch" by (auto simp: hid_inv_def)
  show thesis
    using lookup_node [OF r, of _ key] lookup_none [OF r, of key] that by blast
qed

text \<open>Two tables that use the same nodes for the same ids answer alike.\<close>

lemma lookup_eqI:
  assumes "hid_inv hi" "hid_inv hi'"
    and "\<And>i. used hi' i \<and> hn_id (hi_id hi' ! i) = key \<longleftrightarrow> used hi i \<and> hn_id (hi_id hi ! i) = key"
  shows "hashid_lookup hi' key = hashid_lookup hi key"
proof -
  from assms(1,2) obtain ch ch' where r: "hid_rep hi ch" "hid_rep hi' ch'" by (auto simp: hid_inv_def)
  show ?thesis
  proof (cases "\<exists>i. used hi i \<and> hn_id (hi_id hi ! i) = key")
    case True
    then obtain i where i: "used hi i" "hn_id (hi_id hi ! i) = key" by blast
    then have "used hi' i" "hn_id (hi_id hi' ! i) = key" using assms(3) [of i] by blast+
    with lookup_node [OF r(1) i] lookup_node [OF r(2)] show ?thesis by simp
  next
    case False
    then have "hashid_lookup hi key = Some (- 1)" using lookup_none [OF r(1)] by blast
    moreover have "hashid_lookup hi' key = Some (- 1)"
      using False assms(3) by (intro lookup_none [OF r(2)]) blast
    ultimately show ?thesis by simp
  qed
qed

subsection \<open>Inserting and removing\<close>

lemma find_free_ok:
  assumes "0 \<le> key" "0 \<le> i" "length (hi_id hi) = hi_cap hi" "0 < hi_cap hi" "i + int k + key \<le> 2 ^ 31"
  shows "\<exists>r. find_free k i key hi = Some r \<and> (case r of
    Some c \<Rightarrow> c < hi_cap hi \<and> \<not> used hi c
  | None \<Rightarrow> (\<forall>j < k. used hi (nat ((i + int j + key) mod int (hi_cap hi)))))"
  using assms(2,5)
proof (induction k arbitrary: i)
  case 0
  then show ?case by simp
next
  case (Suc k)
  let ?x = "nat ((i + key) mod int (hi_cap hi))"
  have x: "c_rem (i + key) (int (hi_cap hi)) = (i + key) mod int (hi_cap hi)" "?x < hi_cap hi"
    "0 \<le> (i + key) mod int (hi_cap hi)" "i + key < 2 ^ 31"
    using assms(1,4) Suc.prems by (simp_all add: c_rem_def nat_less_iff)
  show ?case
  proof (cases "hn_id (hi_id hi ! ?x) = - 1")
    case True
    with x assms(3) show ?thesis by (auto simp: used_def)
  next
    case False
    from Suc.IH [of "i + 1"] Suc.prems obtain r where r: "find_free k (i + 1) key hi = Some r"
      "case r of Some c \<Rightarrow> c < hi_cap hi \<and> \<not> used hi c
       | None \<Rightarrow> (\<forall>j < k. used hi (nat ((i + 1 + int j + key) mod int (hi_cap hi))))" by auto
    have "used hi ?x" using False x by (simp add: used_def)
    then have "\<forall>j < Suc k. used hi (nat ((i + int j + key) mod int (hi_cap hi)))"
      if "\<forall>j < k. used hi (nat ((i + 1 + int j + key) mod int (hi_cap hi)))"
      using that by (auto simp: less_Suc_eq_0_disj algebra_simps)
    with r False x assms(3) show ?thesis by (cases r) (auto simp: Let_def)
  qed
qed

lemma finite_used [simp]: "finite {i. used hi i}"
  by (rule finite_subset [of _ "{..<hi_cap hi}"]) (auto simp: used_def)

lemma mod_shift_cover:
  assumes "0 < c" "0 \<le> key" "x < c"
  shows "\<exists>j < c. nat ((int j + key) mod int c) = x"
proof -
  let ?j = "nat ((int x - key) mod int c)"
  have "int ?j = (int x - key) mod int c" using assms(1) by simp
  then have "(int ?j + key) mod int c = int x mod int c" by (simp add: mod_simps)
  moreover have "?j < c" using assms(1) by (simp add: nat_less_iff)
  ultimately show ?thesis using assms(3) by (intro exI [of _ ?j]) simp
qed

lemma find_free_room:
  assumes r: "hid_rep hi ch" and "0 \<le> key" and room: "\<not> hashid_full hi" and int: "int (hi_cap hi) + key \<le> 2 ^ 31"
  obtains c where "find_free (hi_cap hi) 0 key hi = Some (Some c)" "c < hi_cap hi" "\<not> used hi c"
proof -
  have cap: "0 < hi_cap hi"
    using room hid_repD(8) [OF r] by (cases "hi_cap hi") (auto simp: hashid_full_def used_def)
  from find_free_ok [OF assms(2) _ hid_repD(1) [OF r] cap, of 0 "hi_cap hi"] int obtain x where
    x: "find_free (hi_cap hi) 0 key hi = Some x" "case x of Some c \<Rightarrow> c < hi_cap hi \<and> \<not> used hi c
      | None \<Rightarrow> (\<forall>j < hi_cap hi. used hi (nat ((0 + int j + key) mod int (hi_cap hi))))" by auto
  have "x \<noteq> None"
  proof
    assume "x = None"
    with x(2) have all: "\<And>j. j < hi_cap hi \<Longrightarrow> used hi (nat ((int j + key) mod int (hi_cap hi)))" by simp
    have "{i. used hi i} = {..<hi_cap hi}"
    proof
      show "{i. used hi i} \<subseteq> {..<hi_cap hi}" by (auto simp: used_def)
      show "{..<hi_cap hi} \<subseteq> {i. used hi i}"
        using all mod_shift_cover [OF cap assms(2)] by (metis lessThan_iff mem_Collect_eq subsetI)
    qed
    with room hid_repD(8) [OF r] show False by (simp add: hashid_full_def)
  qed
  with x that show thesis by (cases x) auto
qed

text \<open>A table whose chains are known is well formed when its used nodes and chains fit together.\<close>

lemma hid_repI:
  assumes "0 \<le> hi_hashmod hi" "length (hi_hash hi) = nat (hi_hashmod hi) + 1" "length (hi_id hi) = hi_cap hi"
    and "\<And>h. h < length (hi_hash hi) \<Longrightarrow> hchain (hi_id hi) (hi_hash hi ! h) (ch h)"
    and "\<And>h. h < length (hi_hash hi) \<Longrightarrow> distinct (ch h)"
    and "\<And>h i. h < length (hi_hash hi) \<Longrightarrow> i \<in> set (ch h) \<Longrightarrow> used hi i \<and> bucket hi (hn_id (hi_id hi ! i)) = h"
    and "\<And>i. used hi i \<Longrightarrow> i \<in> set (ch (bucket hi (hn_id (hi_id hi ! i))))"
    and "\<And>i. i < hi_cap hi \<Longrightarrow> \<not> used hi i \<Longrightarrow> hn_next (hi_id hi ! i) = None"
    and "\<And>i j. used hi i \<Longrightarrow> used hi j \<Longrightarrow> hn_id (hi_id hi ! i) = hn_id (hi_id hi ! j) \<Longrightarrow> i = j"
    and "hi_count hi = int (card {i. used hi i})"
  shows "hid_rep hi ch"
  using assms unfolding hid_rep_def by blast

lemma find_free_found:
  "find_free k i key hi = Some (Some c) \<Longrightarrow> c < length (hi_id hi) \<and> hn_id (hi_id hi ! c) = - 1"
  by (induction k arbitrary: i) (auto simp: bind_eq_Some_conv array_get_def Let_def split: if_splits)

lemma hashid_insert_ok:
  assumes r: "hid_rep hi ch" and key: "0 \<le> key" and found: "find_free (hi_cap hi) 0 key hi = Some (Some c)"
    and new: "\<And>i. used hi i \<Longrightarrow> hn_id (hi_id hi ! i) \<noteq> key"
  obtains hi' ch' where "hashid_insert hi key = Some (int c, hi')" "hid_rep hi' ch'" "\<not> used hi c" "c < hi_cap hi"
    "\<And>i. used hi' i \<longleftrightarrow> used hi i \<or> i = c"
    "\<And>i. hn_id (hi_id hi' ! i) = (if i = c then key else hn_id (hi_id hi ! i))" "hi_cap hi' = hi_cap hi"
proof -
  note d = hid_repD [OF r]
  have c: "find_free (hi_cap hi) 0 key hi = Some (Some c)" "c < hi_cap hi" "\<not> used hi c"
    using found find_free_found [OF found] d(1) by (simp_all add: used_def)
  let ?h = "bucket hi key"
  have h: "?h < length (hi_hash hi)" by (rule bucket_less [OF r])
  let ?n = "\<lparr>hn_id = key, hn_next = hi_hash hi ! ?h\<rparr>"
  let ?hi = "hi\<lparr>hi_count := hi_count hi + 1, hi_id := (hi_id hi)[c := ?n], hi_hash := (hi_hash hi)[?h := Some c]\<rparr>"
  let ?ch = "ch(?h := c # ch ?h)"
  have ins: "hashid_insert hi key = Some (int c, ?hi)"
    using c d(1,6) h by (simp add: hashid_insert_def Let_def)
  have ids: "hn_id (hi_id ?hi ! i) = (if i = c then key else hn_id (hi_id hi ! i))" for i
    using c(2) d(1) by (simp add: nth_list_update)
  have us: "used ?hi i \<longleftrightarrow> used hi i \<or> i = c" for i
    using c(2,3) key ids [of i] by (auto simp: used_def)
  have bk: "bucket ?hi k = bucket hi k" for k by (simp add: bucket_def)
  have notin: "c \<notin> set (ch h')" if "h' < length (hi_hash hi)" for h' using d(4) [OF that] c(3) by blast
  have "hid_rep ?hi ?ch"
  proof (rule hid_repI)
    show "hchain (hi_id ?hi) (hi_hash ?hi ! h') (?ch h')" if "h' < length (hi_hash ?hi)" for h'
      using that h c(2) d(1) d(2) [of h'] d(2) [OF h] notin [of h'] notin [OF h]
      by (cases "h' = ?h") (simp_all add: hchain_upd)
    show "distinct (?ch h')" if "h' < length (hi_hash ?hi)" for h'
      using that d(3) [of h'] notin [OF h] by auto
    show "used ?hi i \<and> bucket ?hi (hn_id (hi_id ?hi ! i)) = h'"
      if "h' < length (hi_hash ?hi)" "i \<in> set (?ch h')" for h' i
    proof (cases "i = c")
      case True
      with that notin [of h'] have "h' = ?h" by (auto split: if_splits)
      with True us [of c] ids [of c] bk show ?thesis by simp
    next
      case False
      with that have "i \<in> set (ch h')" "h' < length (hi_hash hi)" by (auto split: if_splits)
      with d(4) False us [of i] ids [of i] bk show ?thesis by simp
    qed
    show "i \<in> set (?ch (bucket ?hi (hn_id (hi_id ?hi ! i))))" if "used ?hi i" for i
      using that us [of i] ids [of i] bk d(5) [of i] by (cases "i = c") auto
    show "hn_next (hi_id ?hi ! i) = None" if "i < hi_cap ?hi" "\<not> used ?hi i" for i
      using that us [of i] d(6) [of i] by auto
    show "i = j" if "used ?hi i" "used ?hi j" "hn_id (hi_id ?hi ! i) = hn_id (hi_id ?hi ! j)" for i j
      using that us [of i] us [of j] ids [of i] ids [of j] new [of i] new [of j] d(7) [of i j]
      by (cases "i = c"; cases "j = c") simp_all
    have "{i. used ?hi i} = insert c {i. used hi i}" using us by blast
    then show "hi_count ?hi = int (card {i. used ?hi i})" using c(3) d(8) by simp
  qed (use d in simp_all)
  with that [OF ins _ c(3,2) us ids] show thesis by simp
qed

lemma hchain_append_Cons: "hchain ns p (as @ i # bs) \<Longrightarrow> i < length ns \<and> hchain ns (hn_next (ns ! i)) bs"
  by (induction as arbitrary: p) auto

lemma hchain_unlink:
  assumes "hchain ns p (as @ l # i # bs)" "distinct (as @ l # i # bs)"
  shows "hchain (ns[l := (ns ! l)\<lparr>hn_next := hn_next (ns ! i)\<rparr>]) p (as @ l # bs)"
  using assms
proof (induction as arbitrary: p)
  case Nil
  then show ?case by (auto simp: hchain_upd)
next
  case (Cons a as)
  then show ?case by auto
qed

lemma unlink_loop_ok:
  assumes "hchain (hi_id hi) (Some c) (c # as @ i # bs)" "\<And>j. j \<in> set as \<Longrightarrow> hn_id (hi_id hi ! j) \<noteq> key"
    "hn_id (hi_id hi ! i) = key"
  shows "unlink_loop key c hi = (let l = last (c # as) in
    clear_node i (hi\<lparr>hi_id := (hi_id hi)[l := (hi_id hi ! l)\<lparr>hn_next := hn_next (hi_id hi ! i)\<rparr>]\<rparr>))"
  using assms
proof (induction as arbitrary: c)
  case Nil
  then show ?case by (subst unlink_loop.simps) (simp add: Let_def)
next
  case (Cons a as)
  from Cons.prems have "hchain (hi_id hi) (Some a) (a # as @ i # bs)" by simp
  from Cons.IH [OF this] Cons.prems show ?case by (subst unlink_loop.simps) simp
qed

text \<open>What is left when node \<open>i\<close> has left its chain: the same chains without it.\<close>

lemma hid_rep_clear:
  assumes r: "hid_rep hi ch" and i: "used hi i" and b: "b = bucket hi (hn_id (hi_id hi ! i))"
    and ch: "ch b = as @ i # bs"
    and ns: "\<And>j. hn_id (ns ! j) = hn_id (hi_id hi ! j)" "length ns = hi_cap hi"
    and nx: "\<And>j. j \<notin> set (ch b) \<Longrightarrow> ns ! j = hi_id hi ! j"
    and hash: "hs = (if as = [] then (hi_hash hi)[b := hn_next (hi_id hi ! i)] else hi_hash hi)"
    and chain: "hchain ns (hs ! b) (as @ bs)"
  shows "hid_rep (hi\<lparr>hi_id := ns[i := \<lparr>hn_id = - 1, hn_next = None\<rparr>], hi_hash := hs, hi_count := hi_count hi - 1\<rparr>) (ch(b := as @ bs))"
    (is "hid_rep ?hi ?ch")
proof -
  note d = hid_repD [OF r]
  have bl: "b < length (hi_hash hi)" unfolding b by (rule bucket_less [OF r])
  have lh: "length hs = length (hi_hash hi)" using hash by simp
  have ic: "i < hi_cap hi" using i by (simp add: used_def)
  have ids: "hn_id (hi_id ?hi ! j) = (if j = i then - 1 else hn_id (hi_id hi ! j))" for j
    using ns ic by (simp add: nth_list_update)
  have us: "used ?hi j \<longleftrightarrow> used hi j \<and> j \<noteq> i" for j
    using ids [of j] ic by (auto simp: used_def)
  have bk: "bucket ?hi k = bucket hi k" for k by (simp add: bucket_def)
  have dist: "distinct (as @ i # bs)" using d(3) [OF bl] ch by simp
  have other: "i \<notin> set (ch h)" "set (ch h) \<inter> set (ch b) = {}" if "h < length (hi_hash hi)" "h \<noteq> b" for h
    using d(4) [OF that(1)] d(4) [OF bl] that(2) b by auto
  have agree: "hchain (hi_id hi) p is \<Longrightarrow> set is \<inter> set (ch b) = {} \<Longrightarrow> hchain ns p is" for p "is"
    using nx ns(2) d(1) by (induction "is" arbitrary: p) auto
  show ?thesis
  proof (rule hid_repI)
    show "hchain (hi_id ?hi) (hi_hash ?hi ! h) (?ch h)" if "h < length (hi_hash ?hi)" for h
    proof (cases "h = b")
      case True
      have "hchain (ns[i := \<lparr>hn_id = - 1, hn_next = None\<rparr>]) (hs ! b) (as @ bs)"
        using chain dist by (subst hchain_upd) auto
      with True show ?thesis by simp
    next
      case False
      with that lh have h: "h < length (hi_hash hi)" by simp
      from agree [OF d(2) [OF h]] other [OF h False] have "hchain ns (hi_hash hi ! h) (ch h)" by blast
      with False other(1) [OF h False] hash show ?thesis by (simp add: hchain_upd)
    qed
    show "distinct (?ch h)" if "h < length (hi_hash ?hi)" for h
      using that lh d(3) [of h] dist by auto
    show "used ?hi j \<and> bucket ?hi (hn_id (hi_id ?hi ! j)) = h" if "h < length (hi_hash ?hi)" "j \<in> set (?ch h)" for h j
    proof -
      from that lh have h: "h < length (hi_hash hi)" by simp
      have "j \<in> set (ch h) \<and> j \<noteq> i"
        using that(2) ch dist other(1) [OF h] by (cases "h = b") auto
      with d(4) [OF h, of j] us [of j] ids [of j] bk show ?thesis by simp
    qed
    show "j \<in> set (?ch (bucket ?hi (hn_id (hi_id ?hi ! j))))" if "used ?hi j" for j
      using that us [of j] ids [of j] bk d(5) [of j] ch by auto
    show "hn_next (hi_id ?hi ! j) = None" if "j < hi_cap ?hi" "\<not> used ?hi j" for j
    proof (cases "j = i")
      case True
      with ic ns(2) show ?thesis by simp
    next
      case False
      with that us [of j] have u: "\<not> used hi j" "j < hi_cap hi" by auto
      then have "j \<notin> set (ch b)" using d(4) [OF bl, of j] by blast
      with False u d(6) nx show ?thesis by simp
    qed
    show "j = k" if "used ?hi j" "used ?hi k" "hn_id (hi_id ?hi ! j) = hn_id (hi_id ?hi ! k)" for j k
      using that us [of j] us [of k] ids [of j] ids [of k] d(7) [of j k] by simp
    have "{j. used ?hi j} = {j. used hi j} - {i}" using us by blast
    moreover have "0 < card {j. used hi j}" using i by (auto simp: card_gt_0_iff)
    ultimately show "hi_count ?hi = int (card {j. used ?hi j})" using i d(8) by (simp add: of_nat_diff)
  qed (use d lh ns(2) in simp_all)
qed

lemma hashid_remove_ok:
  assumes r: "hid_rep hi ch" and i: "used hi i" and key: "hn_id (hi_id hi ! i) = key"
  obtains hi' ch' where "hashid_remove hi key = Some (int i, hi')" "hid_rep hi' ch'"
    "\<And>j. used hi' j \<longleftrightarrow> used hi j \<and> j \<noteq> i" "\<And>j. used hi' j \<Longrightarrow> hn_id (hi_id hi' ! j) = hn_id (hi_id hi ! j)"
proof -
  note out = that
  note d = hid_repD [OF r]
  let ?b = "bucket hi key"
  have bl: "?b < length (hi_hash hi)" by (rule bucket_less [OF r])
  have "i \<in> set (ch ?b)" using d(5) [OF i] key by simp
  then obtain as bs where ch: "ch ?b = as @ i # bs" by (meson split_list)
  have dist: "distinct (as @ i # bs)" using d(3) [OF bl] ch by simp
  have chain: "hchain (hi_id hi) (hi_hash hi ! ?b) (as @ i # bs)" using d(2) [OF bl] ch by simp
  have ne: "hn_id (hi_id hi ! j) \<noteq> key" if "j \<in> set as" for j
    using that d(4) [OF bl, of j] d(7) [of j i] i key ch dist by auto
  have ic: "i < hi_cap hi" using i by (simp add: used_def)
  have bi: "?b = bucket hi (hn_id (hi_id hi ! i))" by (simp add: key)
  have conc: thesis
    if "hashid_remove hi key = Some (int i, hi\<lparr>hi_id := ns[i := \<lparr>hn_id = - 1, hn_next = None\<rparr>], hi_hash := hs,
          hi_count := hi_count hi - 1\<rparr>)"
      and "hid_rep (hi\<lparr>hi_id := ns[i := \<lparr>hn_id = - 1, hn_next = None\<rparr>], hi_hash := hs, hi_count := hi_count hi - 1\<rparr>)
            (ch(?b := as @ bs))"
      and "\<And>j. hn_id (ns ! j) = hn_id (hi_id hi ! j)" "length ns = hi_cap hi" for ns hs
    using that(3,4) ic by (intro out [OF that(1,2)]) (auto simp: used_def nth_list_update)
  show thesis
  proof (cases as rule: rev_cases)
    case Nil
    let ?hs = "(hi_hash hi)[?b := hn_next (hi_id hi ! i)]"
    have rem: "hashid_remove hi key = Some (int i, hi\<lparr>hi_id := (hi_id hi)[i := \<lparr>hn_id = - 1, hn_next = None\<rparr>],
        hi_hash := ?hs, hi_count := hi_count hi - 1\<rparr>)"
      using Nil chain bl key ic d(1) by (simp add: hashid_remove_def clear_node_def Let_def)
    have "hchain (hi_id hi) (?hs ! ?b) (as @ bs)" using chain Nil bl by simp
    then have "hid_rep (hi\<lparr>hi_id := (hi_id hi)[i := \<lparr>hn_id = - 1, hn_next = None\<rparr>], hi_hash := ?hs,
        hi_count := hi_count hi - 1\<rparr>) (ch(?b := as @ bs))"
      using Nil d(1) by (intro hid_rep_clear [OF r i bi ch]) simp_all
    from conc [OF rem this] d(1) show thesis by simp
  next
    case (snoc as' l)
    then have "as \<noteq> []" by simp
    then obtain c cs where as: "as = c # cs" by (meson neq_Nil_conv)
    let ?ns = "(hi_id hi)[l := (hi_id hi ! l)\<lparr>hn_next := hn_next (hi_id hi ! i)\<rparr>]"
    have hd: "hi_hash hi ! ?b = Some c" "c < length (hi_id hi)" using chain as by simp_all
    have cc: "hchain (hi_id hi) (Some c) (c # cs @ i # bs)" using chain as hd(1) by simp
    have l: "last (c # cs) = l" using as snoc by (metis last_snoc)
    have necs: "hn_id (hi_id hi ! j) \<noteq> key" if "j \<in> set cs" for j using that ne as by simp
    from unlink_loop_ok [OF cc necs key] have
      un: "unlink_loop key c hi = clear_node i (hi\<lparr>hi_id := ?ns\<rparr>)" by (simp only: Let_def l)
    have rem: "hashid_remove hi key = Some (int i, hi\<lparr>hi_id := ?ns[i := \<lparr>hn_id = - 1, hn_next = None\<rparr>],
        hi_hash := hi_hash hi, hi_count := hi_count hi - 1\<rparr>)"
      using un hd bl ne [of c] as ic d(1) by (simp add: hashid_remove_def clear_node_def Let_def)
    have "hchain ?ns (hi_hash hi ! ?b) (as @ bs)"
      using hchain_unlink [of "hi_id hi" "hi_hash hi ! ?b" as' l i bs] chain dist snoc by simp
    moreover have ids: "hn_id (?ns ! j) = hn_id (hi_id hi ! j)" for j
      by (cases "l < length (hi_id hi)") (simp_all add: nth_list_update list_update_beyond)
    moreover have "?ns ! j = hi_id hi ! j" if "j \<notin> set (ch ?b)" for j
      using that ch snoc by (cases "j = l") simp_all
    ultimately have "hid_rep (hi\<lparr>hi_id := ?ns[i := \<lparr>hn_id = - 1, hn_next = None\<rparr>], hi_hash := hi_hash hi,
        hi_count := hi_count hi - 1\<rparr>) (ch(?b := as @ bs))"
      using snoc d(1) by (intro hid_rep_clear [OF r i bi ch]) auto
    from conc [OF rem this ids] d(1) show thesis by simp
  qed
qed

subsection \<open>Properties\<close>

lemma hash_capacity_returns: "0 < c \<Longrightarrow> \<exists>n. hash_capacity c mx = Some n \<and> c \<le> n \<and> mx \<le> n"
proof (induction "mx - c" arbitrary: c rule: less_induct)
  case less
  show ?case
  proof (cases "c < mx")
    case True
    with less.prems less.hyps [of "c * 2"] show ?thesis by (subst hash_capacity.simps) fastforce
  next
    case False
    then show ?thesis by (subst hash_capacity.simps) simp
  qed
qed

lemma hashid_init_ok: "\<exists>hi. hashid_init mx = Some hi \<and> hid_inv hi \<and> hi_cap hi = mx \<and> hi_count hi = 0 \<and> (\<forall>i. \<not> used hi i)"
proof -
  from hash_capacity_returns [of 16 mx] obtain n where n: "hash_capacity 16 mx = Some n" "16 \<le> n" by auto
  let ?hi = "\<lparr>hi_hashmod = int n - 1, hi_cap = mx, hi_count = 0,
       hi_id = replicate mx \<lparr>hn_id = - 1, hn_next = None\<rparr>, hi_hash = replicate n None\<rparr>"
  have "hid_rep ?hi (\<lambda>_. [])" using n(2) by (auto simp: hid_rep_def used_def)
  with n show ?thesis by (auto simp: hashid_init_def hid_inv_def used_def)
qed

text \<open>An insertion that returns has done its work; one into a table with room returns as long as no sum leaves the range of an int.\<close>

lemma hashid_insert_kept:
  assumes "hid_inv hi" "0 \<le> key" "hashid_lookup hi key = Some (- 1)" "hashid_insert hi key = Some (r, hi')"
  shows "\<exists>c. r = int c \<and> hid_inv hi' \<and> hi_cap hi' = hi_cap hi \<and> c < hi_cap hi \<and>
     (\<forall>k. hashid_lookup hi k \<noteq> Some (int c)) \<and> hashid_lookup hi' = (hashid_lookup hi)(key := Some (int c))"
proof -
  from assms(1) obtain ch where rep: "hid_rep hi ch" by (auto simp: hid_inv_def)
  have new: "hn_id (hi_id hi ! i) \<noteq> key" if "used hi i" for i
    using lookup_node [OF rep that, of key] assms(3) by auto
  from assms(4) obtain c where "find_free (hi_cap hi) 0 key hi = Some (Some c)"
    by (auto simp: hashid_insert_def bind_eq_Some_conv)
  from hashid_insert_ok [OF rep assms(2) this new] assms(4) obtain ch' where
    c: "r = int c" "hid_rep hi' ch'" "\<not> used hi c" "c < hi_cap hi" "hi_cap hi' = hi_cap hi"
    and us: "\<And>i. used hi' i \<longleftrightarrow> used hi i \<or> i = c"
    and ids: "\<And>i. hn_id (hi_id hi' ! i) = (if i = c then key else hn_id (hi_id hi ! i))" by (metis option.inject prod.inject)
  have free: "hashid_lookup hi k \<noteq> Some (int c)" for k
    using c(3) by (cases rule: lookup_cases [OF assms(1), of k]) auto
  have "hashid_lookup hi' key = Some (int c)" using lookup_node [OF c(2), of c key] us [of c] ids [of c] by simp
  moreover have "hashid_lookup hi' k = hashid_lookup hi k" if "k \<noteq> key" for k
  proof (rule lookup_eqI [OF assms(1)])
    show "hid_inv hi'" using c(2) by (auto simp: hid_inv_def)
    show "used hi' i \<and> hn_id (hi_id hi' ! i) = k \<longleftrightarrow> used hi i \<and> hn_id (hi_id hi ! i) = k" for i
      using us [of i] ids [of i] that c(3) by auto
  qed
  ultimately have "hashid_lookup hi' = (hashid_lookup hi)(key := Some (int c))" by auto
  then show ?thesis using c free by (auto simp: hid_inv_def)
qed

lemma hashid_insert_returns:
  assumes "hid_inv hi" "0 \<le> key" "\<not> hashid_full hi" "hashid_lookup hi key = Some (- 1)" "int (hi_cap hi) + key \<le> 2 ^ 31"
  shows "hashid_insert hi key \<noteq> None"
proof -
  from assms(1) obtain ch where rep: "hid_rep hi ch" by (auto simp: hid_inv_def)
  have new: "hn_id (hi_id hi ! i) \<noteq> key" if "used hi i" for i
    using lookup_node [OF rep that, of key] assms(4) by auto
  from find_free_room [OF rep assms(2,3,5)] obtain c where "find_free (hi_cap hi) 0 key hi = Some (Some c)" by blast
  from hashid_insert_ok [OF rep assms(2) this new] show ?thesis by (metis option.distinct(1))
qed

lemma clear_node_cap: "clear_node i hi = Some y \<Longrightarrow> hi_cap (snd y) = hi_cap hi"
  by (auto simp: clear_node_def bind_eq_Some_conv)

lemma unlink_loop_cap:
  assumes "unlink_loop key c hi = Some y"
  shows "hi_cap (snd y) = hi_cap hi"
proof (rule unlink_loop.raw_induct [OF _ assms])
  fix f :: "int \<Rightarrow> nat \<Rightarrow> hashid \<Rightarrow> (int \<times> hashid) option" and key c hi y
  assume IH: "\<And>key c hi y. f key c hi = Some y \<Longrightarrow> hi_cap (snd y) = hi_cap hi"
  assume "Option.bind (array_get (hi_id hi) c) (\<lambda>n. case hn_next n of
     None \<Rightarrow> Some (- 1, hi)
   | Some t \<Rightarrow> Option.bind (array_get (hi_id hi) t) (\<lambda>temp.
       if hn_id temp = key
       then clear_node t (hi\<lparr>hi_id := (hi_id hi)[c := n\<lparr>hn_next := hn_next temp\<rparr>]\<rparr>)
       else f key t hi)) = Some y"
  then show "hi_cap (snd y) = hi_cap hi"
    by (auto simp: bind_eq_Some_conv split: option.splits if_splits dest!: clear_node_cap IH)
qed

lemma hashid_remove_cap: "hashid_remove hi key = Some y \<Longrightarrow> hi_cap (snd y) = hi_cap hi"
  by (auto simp: hashid_remove_def Let_def bind_eq_Some_conv split: option.splits if_splits dest!: clear_node_cap unlink_loop_cap)

lemma hashid_remove_law:
  assumes "hid_inv hi" "key \<noteq> - 1"
  shows "\<exists>r hi'. hashid_remove hi key = Some (r, hi') \<and> hashid_lookup hi key = Some r \<and> hid_inv hi' \<and>
     hi_cap hi' = hi_cap hi \<and> hashid_lookup hi' = (hashid_lookup hi)(key := Some (- 1))"
proof (cases rule: lookup_cases [OF assms(1), of key])
  case (1 i)
  from assms(1) obtain ch where r: "hid_rep hi ch" by (auto simp: hid_inv_def)
  from hashid_remove_ok [OF r 1(1,2)] obtain hi' ch' where
    c: "hashid_remove hi key = Some (int i, hi')" "hid_rep hi' ch'"
    and us: "\<And>j. used hi' j \<longleftrightarrow> used hi j \<and> j \<noteq> i"
    and ids: "\<And>j. used hi' j \<Longrightarrow> hn_id (hi_id hi' ! j) = hn_id (hi_id hi ! j)" by metis
  have "hashid_lookup hi' key = Some (- 1)"
    using us ids hid_repD(7) [OF r, of _ i] 1(1,2) by (intro lookup_none [OF c(2)]) metis
  moreover have "hashid_lookup hi' k = hashid_lookup hi k" if "k \<noteq> key" for k
  proof (rule lookup_eqI [OF assms(1)])
    show "hid_inv hi'" using c(2) by (auto simp: hid_inv_def)
    show "used hi' j \<and> hn_id (hi_id hi' ! j) = k \<longleftrightarrow> used hi j \<and> hn_id (hi_id hi ! j) = k" for j
      using us [of j] ids [of j] that 1(2) by auto
  qed
  ultimately have "hashid_lookup hi' = (hashid_lookup hi)(key := Some (- 1))" by auto
  then show ?thesis using c 1(3) hashid_remove_cap [OF c(1)] by (auto simp: hid_inv_def)
next
  case 2
  from assms(1) obtain ch where r: "hid_rep hi ch" by (auto simp: hid_inv_def)
  note d = hid_repD [OF r]
  let ?b = "bucket hi key"
  have bl: "?b < length (hi_hash hi)" by (rule bucket_less [OF r])
  have ne: "hn_id (hi_id hi ! j) \<noteq> key" if "j \<in> set (ch ?b)" for j using that d(4) [OF bl] 2(1) by blast
  have un: "hchain (hi_id hi) (Some c) (c # as) \<Longrightarrow> \<forall>j \<in> set as. hn_id (hi_id hi ! j) \<noteq> key \<Longrightarrow>
      unlink_loop key c hi = Some (- 1, hi)" for c as
  proof (induction as arbitrary: c)
    case Nil
    then show ?case by (subst unlink_loop.simps) simp
  next
    case (Cons a as)
    then show ?case by (subst unlink_loop.simps) simp
  qed
  have "hashid_remove hi key = Some (- 1, hi)"
  proof (cases "ch ?b")
    case Nil
    with d(2) [OF bl] bl show ?thesis by (simp add: hashid_remove_def)
  next
    case (Cons c as)
    with d(2) [OF bl] have "hchain (hi_id hi) (Some c) (c # as)" "hi_hash hi ! ?b = Some c" by simp_all
    with un [of c as] ne Cons bl show ?thesis by (auto simp: hashid_remove_def Let_def)
  qed
  with 2(2) assms(1) show ?thesis by (auto simp: fun_upd_idem)
qed

subsection \<open>The interface of the table\<close>

text \<open>What a client relies on: an id is found in at most one slot below the capacity, an insertion takes
  a slot that no id has, and both updates change the answer for one id only.\<close>

locale id_table =
  fixes inv :: "'t \<Rightarrow> bool" and cap :: "'t \<Rightarrow> nat" and full :: "'t \<Rightarrow> bool"
    and lookup :: "'t \<Rightarrow> int \<Rightarrow> int option"
    and insert :: "'t \<Rightarrow> int \<Rightarrow> (int \<times> 't) option" and remove :: "'t \<Rightarrow> int \<Rightarrow> (int \<times> 't) option"
  assumes lookup_slot: "inv t \<Longrightarrow> lookup t k = Some (- 1) \<or> (\<exists>i. lookup t k = Some (int i) \<and> i < cap t)"
    and insert_kept: "inv t \<Longrightarrow> 0 \<le> k \<Longrightarrow> lookup t k = Some (- 1) \<Longrightarrow> insert t k = Some (r, t') \<Longrightarrow>
      \<exists>c. r = int c \<and> inv t' \<and> cap t' = cap t \<and> c < cap t \<and>
        (\<forall>k. lookup t k \<noteq> Some (int c)) \<and> lookup t' = (lookup t)(k := Some (int c))"
    and insert_returns: "inv t \<Longrightarrow> 0 \<le> k \<Longrightarrow> \<not> full t \<Longrightarrow> lookup t k = Some (- 1) \<Longrightarrow> int (cap t) + k \<le> 2 ^ 31 \<Longrightarrow>
      insert t k \<noteq> None"
    and remove_law: "inv t \<Longrightarrow> k \<noteq> - 1 \<Longrightarrow>
      \<exists>r t'. remove t k = Some (r, t') \<and> lookup t k = Some r \<and> inv t' \<and> cap t' = cap t \<and>
        lookup t' = (lookup t)(k := Some (- 1))"
begin

lemma insert_law:
  assumes "inv t" "0 \<le> k" "\<not> full t" "lookup t k = Some (- 1)" "int (cap t) + k \<le> 2 ^ 31"
  shows "\<exists>c t'. insert t k = Some (int c, t') \<and> inv t' \<and> cap t' = cap t \<and> c < cap t \<and>
        (\<forall>k. lookup t k \<noteq> Some (int c)) \<and> lookup t' = (lookup t)(k := Some (int c))"
proof -
  from insert_returns [OF assms] obtain r t' where "insert t k = Some (r, t')" by auto
  with insert_kept [OF assms(1,2,4) this] show ?thesis by auto
qed

text \<open>An id that came and went leaves no trace in the answers.\<close>

lemma insert_then_remove:
  assumes "inv t" "0 \<le> k" "\<not> full t" "lookup t k = Some (- 1)" "int (cap t) + k \<le> 2 ^ 31"
  shows "\<exists>c t' t''. insert t k = Some (int c, t') \<and> remove t' k = Some (int c, t'') \<and> inv t'' \<and> lookup t'' = lookup t"
proof -
  from insert_law [OF assms] obtain c t' where
    i: "insert t k = Some (int c, t')" "inv t'" "lookup t' = (lookup t)(k := Some (int c))" by blast
  from assms(2) have "k \<noteq> - 1" by auto
  from remove_law [OF i(2) this] obtain t'' where
    "remove t' k = Some (int c, t'')" "inv t''" "lookup t'' = (lookup t')(k := Some (- 1))" using i(3) by auto
  with i assms(4) show ?thesis by (auto simp: fun_upd_idem)
qed

lemma slotE:
  assumes "inv t"
  obtains "lookup t k = Some (- 1)" | i where "lookup t k = Some (int i)" "i < cap t"
  using lookup_slot [OF assms, of k] by auto

end

interpretation hid: id_table hid_inv hi_cap hashid_full hashid_lookup hashid_insert hashid_remove
proof
  show "hashid_lookup hi k = Some (- 1) \<or> (\<exists>i. hashid_lookup hi k = Some (int i) \<and> i < hi_cap hi)"
    if "hid_inv hi" for hi k
    by (cases rule: lookup_cases [OF that, of k]) (auto simp: used_def)
qed (rule hashid_insert_kept hashid_insert_returns hashid_remove_law; assumption)+

subsection \<open>Properties\<close>

text \<open>Property: the connection table is a finite map. Inserting a socket id that is not in a table with
  room succeeds and answers with a slot that no id had; from then on the id is found there and
  every other id as before.\<close>

theorem hashid_insert_maps:
  assumes "hid_inv hi" "0 \<le> key" "\<not> hashid_full hi" "hashid_lookup hi key = Some (- 1)"
    "int (hi_cap hi) + key \<le> 2 ^ 31"
  shows "\<exists>c hi'. hashid_insert hi key = Some (int c, hi') \<and> hid_inv hi' \<and> c < hi_cap hi \<and>
     (\<forall>k. hashid_lookup hi k \<noteq> Some (int c)) \<and> hashid_lookup hi' = (hashid_lookup hi)(key := Some (int c))"
  using hid.insert_law [OF assms] by blast

theorem hashid_insert_maps_witness:
  "\<exists>hi c hi'. hashid_init 3 = Some hi \<and> hashid_insert hi 17 = Some (int c, hi') \<and> hashid_lookup hi' 17 = Some (int c)"
proof -
  from hashid_init_ok [of 3] obtain hi where hi: "hashid_init 3 = Some hi" "hid_inv hi" "hi_cap hi = 3" "hi_count hi = 0"
    "\<And>i. \<not> used hi i" by blast
  then have "hashid_lookup hi 17 = Some (- 1)" by (cases rule: lookup_cases [OF hi(2), of 17]) auto
  with hashid_insert_maps [OF hi(2), of 17] hi show ?thesis by (auto simp: hashid_full_def)
qed

text \<open>Property: removing an id that is in the table answers with its slot, after which the id is not
  found and every other id as before; removing an id that is not there changes nothing.\<close>

theorem hashid_remove_unmaps:
  assumes "hid_inv hi" "key \<noteq> - 1"
  shows "\<exists>r hi'. hashid_remove hi key = Some (r, hi') \<and> hashid_lookup hi key = Some r \<and> hid_inv hi' \<and>
     hashid_lookup hi' = (hashid_lookup hi)(key := Some (- 1))"
  using hid.remove_law [OF assms] by blast

theorem hashid_remove_unmaps_witness:
  "\<exists>hi r hi'. hashid_init 3 = Some hi \<and> hashid_remove hi 5 = Some (r, hi') \<and> hashid_lookup hi' 5 = Some (- 1)"
  using hashid_init_ok [of 3] hashid_remove_unmaps [of _ 5] by fastforce

end
