(* ===== verification/Gate.thy ===== *)
theory Gate
  imports Data_Buffer Hash_Id C_Text
begin

text \<open>
  \<^verbatim>\<open>service-src/service_gate.c\<close>: the gate service accepts connections, cuts the byte stream of each
  connection into packages (a big-endian length of 2 or 4 bytes, then the body) and forwards
  each package as a message.

  The gate calls the node and the socket layer; a call is recorded as a value of the type
  \<open>gate_call\<close> and the operations return the list of the calls they make, in order. What these
  layers answer is a parameter: \<open>query\<close> resolves a service name (\<^verbatim>\<open>skynet_queryname\<close>) and \<open>listen\<close> is the
  result of \<^verbatim>\<open>skynet_socket_listen\<close>. \<open>None\<close> is a failed assertion or a bad memory access.
\<close>

subsection \<open>Data\<close>

definition BACKLOG :: int where "BACKLOG = 128"
definition MAX_PACKAGE :: int where "MAX_PACKAGE = 0x1000000"

definition TAG_TEXT :: u32 where "TAG_TEXT = 0"
definition TAG_CLIENT :: u32 where "TAG_CLIENT = 3"
definition TAG_DONTCOPY :: u32 where "TAG_DONTCOPY = 0x10000"

datatype gate_call =
    Send u32 u32 u32 int "u8 list"
  | Socket_Close int
  | Socket_Start int
  | Socket_Send int "u8 list"
  | Socket_Listen string int int
  | Log string
  | Free_Buffer

record connection =
  cn_id :: int
  cn_agent :: u32
  cn_client :: u32
  cn_remote_name :: string
  cn_buffer :: databuffer

record gate =
  g_listen_id :: int
  g_watchdog :: u32
  g_broker :: u32
  g_client_tag :: u32
  g_header_size :: nat
  g_max_connection :: nat
  g_hash :: hashid
  g_conn :: "connection list"
  g_mp :: messagepool

definition no_connection :: connection where
  "no_connection = \<lparr>cn_id = - 1, cn_agent = 0, cn_client = 0, cn_remote_name = [], cn_buffer = databuffer_empty\<rparr>"

definition gate_create :: gate where
  "gate_create = \<lparr>g_listen_id = - 1, g_watchdog = 0, g_broker = 0, g_client_tag = 0, g_header_size = 0,
     g_max_connection = 0, g_hash = \<lparr>hi_hashmod = 0, hi_cap = 0, hi_count = 0, hi_id = [], hi_hash = []\<rparr>,
     g_conn = [], g_mp = \<lparr>mp_pool = 0, mp_freelist = 0\<rparr>\<rparr>"

text \<open>\<^verbatim>\<open>gate_release\<close>: the calls it makes; the memory of the gate goes with it.\<close>

definition gate_release :: "gate \<Rightarrow> gate_call list" where
  "gate_release g =
     map (\<lambda>c. Socket_Close (cn_id c)) (filter (\<lambda>c. cn_id c \<ge> 0) (take (g_max_connection g) (g_conn g)))
     @ (if g_listen_id g \<ge> 0 then [Socket_Close (g_listen_id g)] else [])"

subsection \<open>Packages\<close>

text \<open>\<^verbatim>\<open>_forward\<close>: a package of \<open>sz\<close> bytes is taken from the buffer and sent to the broker, the agent
  or the watchdog. Without any of them, and when the socket is gone, nothing is taken.\<close>

definition gate_forward :: "gate \<Rightarrow> connection \<Rightarrow> nat \<Rightarrow> messagepool \<Rightarrow> (gate_call list \<times> connection \<times> messagepool) option" where
  "gate_forward g c sz mp =
     (if cn_id c \<le> 0 then Some ([], c, mp)
      else if g_broker g \<noteq> 0 then do {
        (temp, db, mp) \<leftarrow> databuffer_read sz (cn_buffer c) mp;
        Some ([Send 0 (g_broker g) (g_client_tag g OR TAG_DONTCOPY) (cn_id c) temp], c\<lparr>cn_buffer := db\<rparr>, mp) }
      else if cn_agent c \<noteq> 0 then do {
        (temp, db, mp) \<leftarrow> databuffer_read sz (cn_buffer c) mp;
        Some ([Send (cn_client c) (cn_agent c) (g_client_tag g OR TAG_DONTCOPY) (cn_id c) temp], c\<lparr>cn_buffer := db\<rparr>, mp) }
      else if g_watchdog g \<noteq> 0 then do {
        (temp, db, mp) \<leftarrow> databuffer_read sz (cn_buffer c) mp;
        Some ([Send 0 (g_watchdog g) (TAG_TEXT OR TAG_DONTCOPY) (cn_id c)
                 (string_bytes (dec_string (cn_id c) @ '' data '') @ temp)], c\<lparr>cn_buffer := db\<rparr>, mp) }
      else Some ([], c, mp))"

text \<open>The loop of \<^verbatim>\<open>dispatch_message\<close> after the new data was pushed.\<close>

partial_function (option) package_loop :: "gate \<Rightarrow> int \<Rightarrow> connection \<Rightarrow> messagepool \<Rightarrow> (gate_call list \<times> connection \<times> messagepool) option" where
  "package_loop g key c mp =
     Option.bind (databuffer_readheader (g_header_size g) (cn_buffer c) mp) (\<lambda>(sz, db, mp1).
       if sz < 0 then Some ([], c\<lparr>cn_buffer := db\<rparr>, mp1)
       else if sz > 0 then
         (if sz \<ge> MAX_PACKAGE then
            (let (db', mp2) = databuffer_clear db mp1 in
             Some ([Socket_Close key, Log ''Recv socket message > 16M''], c\<lparr>cn_buffer := db'\<rparr>, mp2))
          else
            Option.bind (gate_forward g (c\<lparr>cn_buffer := db\<rparr>) (nat sz) mp1) (\<lambda>(calls, c1, mp2).
            Option.bind (package_loop g key (c1\<lparr>cn_buffer := databuffer_reset (cn_buffer c1)\<rparr>) mp2) (\<lambda>(calls', c2, mp3).
              Some (calls @ calls', c2, mp3))))
       else package_loop g key (c\<lparr>cn_buffer := db\<rparr>) mp1)"

definition gate_dispatch_message :: "gate \<Rightarrow> int \<Rightarrow> u8 list \<Rightarrow> connection \<Rightarrow> messagepool
    \<Rightarrow> (gate_call list \<times> connection \<times> messagepool) option" where
  "gate_dispatch_message g key data c mp = (
     let (db, mp1) = databuffer_push data (cn_buffer c) mp in
     package_loop g key (c\<lparr>cn_buffer := db\<rparr>) mp1)"

subsection \<open>Commands\<close>

text \<open>\<^verbatim>\<open>_parm\<close>: the text behind the command word and the spaces after it.\<close>

definition gate_parm :: "string \<Rightarrow> nat \<Rightarrow> string" where
  "gate_parm msg command_sz = dropWhile (\<lambda>ch. ch = CHR '' '') (drop command_sz msg)"

definition forward_agent :: "int \<Rightarrow> u32 \<Rightarrow> u32 \<Rightarrow> gate \<Rightarrow> gate option" where
  "forward_agent fd agentaddr clientaddr g = do {
     i \<leftarrow> hashid_lookup (g_hash g) fd;
     if i \<ge> 0 then do {
       c \<leftarrow> array_get (g_conn g) (nat i);
       Some (g\<lparr>g_conn := (g_conn g)[nat i := c\<lparr>cn_agent := agentaddr, cn_client := clientaddr\<rparr>]\<rparr>) }
     else Some g }"

text \<open>\<^verbatim>\<open>memcmp(command, word, n) == 0\<close> for the first word of the command: it is a prefix of the name
  (when it is longer than the name it reads past the literal, and the first difference is at its
  end at the latest).\<close>

definition is_command :: "string \<Rightarrow> nat \<Rightarrow> string \<Rightarrow> bool" where
  "is_command msg n name \<longleftrightarrow> n \<le> length name \<and> take n msg = take n name"

text \<open>The branches of \<^verbatim>\<open>_ctrl\<close>; the text ends at its first zero byte, as the functions on strings see it.\<close>

definition ctrl_kick :: "string \<Rightarrow> gate \<Rightarrow> (gate_call list \<times> gate) option" where
  "ctrl_kick parm g = (let uid = strtol_int 10 parm in do {
     i \<leftarrow> hashid_lookup (g_hash g) uid;
     Some (if i \<ge> 0 then [Socket_Close uid] else [], g) })"

definition ctrl_forward :: "string \<Rightarrow> gate \<Rightarrow> (gate_call list \<times> gate) option" where
  "ctrl_forward parm g = (
     let (idstr, client) = strsep '' '' (Some parm) in
     case client of
       None \<Rightarrow> Some ([], g)
     | Some _ \<Rightarrow>
        (let (agent, client2) = strsep '' '' client in
         case client2 of
           None \<Rightarrow> Some ([], g)
         | Some cl \<Rightarrow> do {
             fd \<leftarrow> idstr; ag \<leftarrow> agent;
             g \<leftarrow> forward_agent (strtol_int 10 fd) (strtoul16 (drop 1 ag)) (strtoul16 (drop 1 cl)) g;
             Some ([], g) }))"

definition ctrl_start :: "string \<Rightarrow> gate \<Rightarrow> (gate_call list \<times> gate) option" where
  "ctrl_start parm g = (let uid = strtol_int 10 parm in do {
     i \<leftarrow> hashid_lookup (g_hash g) uid;
     Some (if i \<ge> 0 then [Socket_Start uid] else [], g) })"

definition gate_ctrl :: "(string \<Rightarrow> u32) \<Rightarrow> string \<Rightarrow> gate \<Rightarrow> (gate_call list \<times> gate) option" where
  "gate_ctrl query msg g = (
     let i = length (takeWhile (\<lambda>ch. ch \<noteq> CHR '' '') msg); parm = gate_parm msg i in
     if msg = [] then Some ([], g)
     else if is_command msg i ''kick'' then ctrl_kick parm g
     else if is_command msg i ''forward'' then ctrl_forward parm g
     else if is_command msg i ''broker'' then Some ([], g\<lparr>g_broker := query parm\<rparr>)
     else if is_command msg i ''start'' then ctrl_start parm g
     else if is_command msg i ''close'' then
       (if g_listen_id g \<ge> 0 then Some ([Socket_Close (g_listen_id g)], g\<lparr>g_listen_id := - 1\<rparr>) else Some ([], g))
     else Some ([Log (''[gate] Unkown command : '' @ msg)], g))"

subsection \<open>Events of the socket layer\<close>

text \<open>\<^verbatim>\<open>_report\<close>: the text goes to the watchdog, cut at 1023 characters by \<^verbatim>\<open>vsnprintf\<close>.\<close>

definition gate_report :: "string \<Rightarrow> gate \<Rightarrow> gate_call list" where
  "gate_report text g =
     (if g_watchdog g = 0 then [] else [Send 0 (g_watchdog g) TAG_TEXT 0 (string_bytes text)])"

datatype socket_event =
    Ev_Data int "u8 list"
  | Ev_Connect int
  | Ev_Close int
  | Ev_Error int
  | Ev_Accept int int string
  | Ev_Warning int int

definition ev_data :: "int \<Rightarrow> u8 list \<Rightarrow> gate \<Rightarrow> (gate_call list \<times> gate) option" where
  "ev_data fd data g = do {
     i \<leftarrow> hashid_lookup (g_hash g) fd;
     if i \<ge> 0 then do {
       c \<leftarrow> array_get (g_conn g) (nat i);
       (calls, c, mp) \<leftarrow> gate_dispatch_message g fd data c (g_mp g);
       Some (calls, g\<lparr>g_conn := (g_conn g)[nat i := c], g_mp := mp\<rparr>) }
     else Some ([Log (''Drop unknown connection '' @ dec_string fd @ '' message''), Socket_Close fd, Free_Buffer], g) }"

definition ev_connect :: "int \<Rightarrow> gate \<Rightarrow> (gate_call list \<times> gate) option" where
  "ev_connect fd g =
     (if fd = g_listen_id g then Some ([], g)
      else do {
        i \<leftarrow> hashid_lookup (g_hash g) fd;
        Some (if i < 0 then [Log (''Close unknown connection '' @ dec_string fd), Socket_Close fd] else [], g) })"

definition ev_close :: "int \<Rightarrow> gate \<Rightarrow> (gate_call list \<times> gate) option" where
  "ev_close fd g = do {
     (i, hash) \<leftarrow> hashid_remove (g_hash g) fd;
     if i \<ge> 0 then do {
       c \<leftarrow> array_get (g_conn g) (nat i);
       let (_, mp) = databuffer_clear (cn_buffer c) (g_mp g);
           g = g\<lparr>g_hash := hash, g_conn := (g_conn g)[nat i := no_connection], g_mp := mp\<rparr> in
       Some (gate_report (dec_string fd @ '' close'') g, g) }
     else Some ([], g\<lparr>g_hash := hash\<rparr>) }"

definition ev_accept :: "int \<Rightarrow> int \<Rightarrow> string \<Rightarrow> gate \<Rightarrow> (gate_call list \<times> gate) option" where
  "ev_accept lid ud name g = do {
     c_assert (g_listen_id g = lid);
     if hashid_full (g_hash g) then Some ([Socket_Close ud], g)
     else do {
       (i, hash) \<leftarrow> hashid_insert (g_hash g) ud;
       c \<leftarrow> array_get (g_conn g) (nat i);
       let c = c\<lparr>cn_id := ud, cn_remote_name := take 31 name\<rparr>;
           g = g\<lparr>g_hash := hash, g_conn := (g_conn g)[nat i := c]\<rparr> in
       Some (gate_report (dec_string ud @ '' open '' @ dec_string ud @ '' '' @ take 31 name @ '':0'') g
             @ [Log (''socket open: '' @ hex_string (nat (ud mod 2 ^ 32)))], g) } }"

fun dispatch_socket_message :: "socket_event \<Rightarrow> gate \<Rightarrow> (gate_call list \<times> gate) option" where
  "dispatch_socket_message (Ev_Data fd data) g = ev_data fd data g"
| "dispatch_socket_message (Ev_Connect fd) g = ev_connect fd g"
| "dispatch_socket_message (Ev_Close fd) g = ev_close fd g"
| "dispatch_socket_message (Ev_Error fd) g = ev_close fd g"
| "dispatch_socket_message (Ev_Accept lid ud name) g = ev_accept lid ud name g"
| "dispatch_socket_message (Ev_Warning fd ud) g =
     Some ([Log (''fd ('' @ dec_string fd @ '') send buffer ('' @ dec_string ud @ '')K'')], g)"

subsection \<open>Messages to the gate\<close>

datatype gate_msg = Msg_Text string | Msg_Client u32 "u8 list" | Msg_Socket socket_event | Msg_Other

text \<open>A client message ends with the little-endian id of a socket. The result says whether the gate
  keeps the message (it was handed to the socket layer).\<close>

definition client_id :: "u8 list \<Rightarrow> int" where
  "client_id msg = (let b = drop (length msg - 4) msg in
     sint (ucast (b ! 0) OR push_bit 8 (ucast (b ! 1)) OR push_bit 16 (ucast (b ! 2)) OR push_bit 24 (ucast (b ! 3)) :: u32))"

definition gate_client :: "u32 \<Rightarrow> u8 list \<Rightarrow> gate \<Rightarrow> (bool \<times> gate_call list) option" where
  "gate_client source msg g =
     (if length msg \<le> 4 then Some (False, [Log (''Invalid client message from '' @ hex_string (unat source))])
      else (let uid = client_id msg in do {
        i \<leftarrow> hashid_lookup (g_hash g) uid;
        if i \<ge> 0 then Some (True, [Socket_Send uid (take (length msg - 4) msg)])
        else Some (False, [Log (''Invalid client id '' @ dec_string uid @ '' from '' @ hex_string (unat source))]) }))"

fun gate_cb :: "(string \<Rightarrow> u32) \<Rightarrow> gate_msg \<Rightarrow> gate \<Rightarrow> (bool \<times> gate_call list \<times> gate) option" where
  "gate_cb query (Msg_Text msg) g = do { (calls, g) \<leftarrow> gate_ctrl query msg g; Some (False, calls, g) }"
| "gate_cb query (Msg_Client source msg) g = do { (keep, calls) \<leftarrow> gate_client source msg g; Some (keep, calls, g) }"
| "gate_cb query (Msg_Socket ev) g = do { (calls, g) \<leftarrow> dispatch_socket_message ev g; Some (False, calls, g) }"
| "gate_cb query Msg_Other g = Some (False, [], g)"

subsection \<open>Starting a gate\<close>

text \<open>The text before and behind the last colon, if there is one.\<close>

definition split_port :: "string \<Rightarrow> (string \<times> string) option" where
  "split_port s = (if CHR '':'' \<in> set s then
     (let port = rev (takeWhile (\<lambda>ch. ch \<noteq> CHR '':'') (rev s)) in Some (take (length s - length port - 1) s, port))
     else None)"

definition start_listen :: "(string \<Rightarrow> int \<Rightarrow> int) \<Rightarrow> string \<Rightarrow> gate \<Rightarrow> int \<times> gate_call list \<times> gate" where
  "start_listen listen listen_addr g = (
     let (host, port) = (case split_port listen_addr of
           None \<Rightarrow> ([], strtol_int 10 listen_addr) | Some (h, p) \<Rightarrow> (h, strtol_int 10 p)) in
     if port \<le> 0 then (1, [Log (''Invalid gate address '' @ listen_addr)], g)
     else (let lid = listen host port; g = g\<lparr>g_listen_id := lid\<rparr> in
       if lid < 0 then (1, [Socket_Listen host port BACKLOG], g)
       else (0, [Socket_Listen host port BACKLOG, Socket_Start lid], g)))"

text \<open>The conversion \<^verbatim>\<open>%d\<close> of \<^verbatim>\<open>sscanf\<close>: \<open>None\<close> when there is no number. The fields of the parameter are
  read with \<^verbatim>\<open>"%c %s %s %d %d"\<close>: \<open>None\<close> when less than four of them are there; without the fifth \<^verbatim>\<open>max\<close>
  keeps its initial value 0.\<close>

definition scan_int :: "string \<Rightarrow> (int \<times> string) option" where
  "scan_int s = (
     let (neg, t) = read_sign (dropWhile c_isspace s); ds = takeWhile (\<lambda>c. digit_value c < 10) t in
     if ds = [] then None else Some (strtol_int 10 s, drop (length ds) t))"

definition gate_scan :: "string \<Rightarrow> (char \<times> string \<times> string \<times> int \<times> int) option" where
  "gate_scan parm = (case parm of
     [] \<Rightarrow> None
   | header # rest \<Rightarrow> (
       let (w, rest1) = scan_word rest; (bnd, rest2) = scan_word rest1 in do {
       watchdog \<leftarrow> w;
       binding \<leftarrow> bnd;
       (client_tag, rest3) \<leftarrow> scan_int rest2;
       Some (header, watchdog, binding, client_tag, case scan_int rest3 of None \<Rightarrow> 0 | Some (mx, _) \<Rightarrow> mx) }))"

definition gate_init :: "(string \<Rightarrow> u32) \<Rightarrow> (string \<Rightarrow> int \<Rightarrow> int) \<Rightarrow> string option \<Rightarrow> gate
    \<Rightarrow> (int \<times> gate_call list \<times> gate) option" where
  "gate_init query listen parm g = (case parm of None \<Rightarrow> Some (1, [], g) | Some text \<Rightarrow> (case gate_scan text of
     None \<Rightarrow> Some (1, [Log (''Invalid gate parm '' @ text)], g)
   | Some (header, watchdog, binding, client_tag, mx) \<Rightarrow>
       if mx \<le> 0 then Some (1, [Log ''Need max connection''], g)
       else if header \<noteq> CHR ''S'' \<and> header \<noteq> CHR ''L'' then Some (1, [Log ''Invalid data header style''], g)
       else (
         let tag = (if client_tag = 0 then TAG_CLIENT else word_of_int client_tag);
             wd = (if take 1 watchdog = ''!'' then 0 else query watchdog) in
         if take 1 watchdog \<noteq> ''!'' \<and> wd = 0
         then Some (1, [Log (''Invalid watchdog '' @ watchdog)], g\<lparr>g_watchdog := wd\<rparr>)
         else do {
           hash \<leftarrow> hashid_init (nat mx);
           (let g = g\<lparr>g_watchdog := wd, g_hash := hash, g_conn := replicate (nat mx) no_connection,
                      g_max_connection := nat mx, g_client_tag := tag,
                      g_header_size := (if header = CHR ''S'' then 2 else 4)\<rparr> in
            Some (start_listen listen binding g)) })))"

subsection \<open>The package loop ends\<close>

text \<open>A round either stops, or takes the header from the buffer, or drops a header that was taken
  before.\<close>

definition same_conn :: "connection \<Rightarrow> connection \<Rightarrow> bool" where
  "same_conn c c' \<longleftrightarrow> c' = c\<lparr>cn_buffer := cn_buffer c'\<rparr>"

lemma same_conn_refl [simp]: "same_conn c (c\<lparr>cn_buffer := db\<rparr>)" "same_conn c c"
  by (simp_all add: same_conn_def)

lemma same_conn_trans: "same_conn a b \<Longrightarrow> same_conn b c \<Longrightarrow> same_conn a c"
  unfolding same_conn_def by (metis connection.update_convs(5) connection.surjective)

lemma gate_forward_ok:
  assumes "db_inv (cn_buffer c)" "0 < n" "n \<le> length (db_stream (cn_buffer c))"
  obtains calls c' mp' where "gate_forward g c n mp = Some (calls, c', mp')" "same_conn c c'" "db_inv (cn_buffer c')"
    "db_header (cn_buffer c') = db_header (cn_buffer c)" "length (db_stream (cn_buffer c')) \<le> length (db_stream (cn_buffer c))"
proof -
  from databuffer_read_ok [OF assms, of mp] obtain db mp' where
    "databuffer_read n (cn_buffer c) mp = Some (take n (db_stream (cn_buffer c)), db, mp')" "db_inv db"
    "db_stream db = drop n (db_stream (cn_buffer c))" "db_header db = db_header (cn_buffer c)" by blast
  with assms(1) that show thesis
    by (cases "cn_id c \<le> 0"; cases "g_broker g = 0"; cases "cn_agent c = 0"; cases "g_watchdog g = 0")
      (simp_all add: gate_forward_def)
qed

lemma package_loop_returns:
  assumes "db_inv (cn_buffer c)" "0 < g_header_size g"
  shows "\<exists>calls c' mp'. package_loop g key c mp = Some (calls, c', mp') \<and> same_conn c c' \<and> db_inv (cn_buffer c')"
  using assms(1)
proof (induction "2 * length (db_stream (cn_buffer c)) + (if db_header (cn_buffer c) = 0 then 0 else 1)"
    arbitrary: c mp rule: less_induct)
  case less
  let ?db = "cn_buffer c"
  have step: ?case
    if rh: "databuffer_readheader (g_header_size g) ?db mp = Some (v, db, mp1)" and inv: "db_inv db"
      and fits: "0 \<le> v \<Longrightarrow> v = db_header db \<and> nat v \<le> length (db_stream db)"
      and dec: "0 \<le> v \<Longrightarrow> 2 * length (db_stream db) <
        2 * length (db_stream ?db) + (if db_header ?db = 0 then 0 else 1)" for v db mp1
  proof -
    consider "v < 0" | "v = 0" | "0 < v" "v \<ge> MAX_PACKAGE" | "0 < v" "v < MAX_PACKAGE" by linarith
    then show ?thesis
    proof cases
      case 1
      with rh inv show ?thesis by (subst package_loop.simps) simp
    next
      case 2
      let ?c = "c\<lparr>cn_buffer := db\<rparr>"
      from fits 2 have "db_header db = 0" by simp
      with dec 2 less.hyps [of ?c mp1] inv obtain calls c' mp' where
        "package_loop g key ?c mp1 = Some (calls, c', mp')" "same_conn ?c c'" "db_inv (cn_buffer c')" by auto
      with 2 rh same_conn_trans [of c ?c c'] show ?thesis by (subst package_loop.simps) simp
    next
      case 3
      with rh show ?thesis by (subst package_loop.simps) (simp add: databuffer_clear_def)
    next
      case 4
      let ?c = "c\<lparr>cn_buffer := db\<rparr>"
      have "db_inv (cn_buffer ?c)" "0 < nat v" "nat v \<le> length (db_stream (cn_buffer ?c))" using inv 4 fits by auto
      from gate_forward_ok [OF this, where g = g and mp = mp1] obtain calls c1 mp2 where
        f: "gate_forward g ?c (nat v) mp1 = Some (calls, c1, mp2)" "same_conn ?c c1" "db_inv (cn_buffer c1)"
        "db_header (cn_buffer c1) = db_header (cn_buffer ?c)"
        "length (db_stream (cn_buffer c1)) \<le> length (db_stream (cn_buffer ?c))" .
      let ?c1 = "c1\<lparr>cn_buffer := databuffer_reset (cn_buffer c1)\<rparr>"
      have "db_inv (cn_buffer ?c1)" "db_stream (cn_buffer ?c1) = db_stream (cn_buffer c1)" "db_header (cn_buffer ?c1) = 0"
        using f(3) by (simp_all add: databuffer_reset_def)
      with less.hyps [of ?c1 mp2] f(5) dec 4 obtain calls' c' mp' where
        "package_loop g key ?c1 mp2 = Some (calls', c', mp')" "same_conn ?c1 c'" "db_inv (cn_buffer c')" by auto
      moreover have "same_conn c c1" "same_conn c1 ?c1" using f(2) same_conn_trans [of c ?c c1] by simp_all
      ultimately show ?thesis
        using rh 4 f(1) same_conn_trans [of c c1 ?c1] same_conn_trans [of c ?c1 c'] by (subst package_loop.simps) auto
    qed
  qed
  show ?case
  proof (cases "db_header ?db = 0")
    case True
    show ?thesis
    proof (cases "length (db_stream ?db) < g_header_size g")
      case short: True
      show ?thesis
        by (rule step [OF readheader_short [OF less.prems True short]]) (use less.prems in auto)
    next
      case False
      then have hs: "g_header_size g \<le> length (db_stream ?db)" by simp
      from readheader_fresh [OF less.prems True hs assms(2), of mp] obtain db' mp' where
        r: "databuffer_readheader (g_header_size g) ?db mp =
          Some (if int (length (db_stream db')) < db_header db' then - 1 else db_header db', db', mp')"
        "db_inv db'" "db_stream db' = drop (g_header_size g) (db_stream ?db)" .
      show ?thesis
        by (rule step [OF r(1,2)]) (use r(3) hs assms(2) True in \<open>auto split: if_splits\<close>)
    qed
  next
    case False
    show ?thesis
      by (rule step [OF readheader_pending [OF less.prems False]])
        (use less.prems False in \<open>auto split: if_splits\<close>)
  qed
qed

subsection \<open>The packages of a connection\<close>

text \<open>The bytes of a length, and the bytes of a connection that are not forwarded yet, the length that was taken included.\<close>

definition header_bytes :: "nat \<Rightarrow> int \<Rightarrow> u8 list" where
  "header_bytes hs h = (if hs = 2 then [of_int (drop_bit 8 h), of_int h]
     else [of_int (drop_bit 24 h), of_int (drop_bit 16 h), of_int (drop_bit 8 h), of_int h])"

definition conn_pending :: "nat \<Rightarrow> connection \<Rightarrow> u8 list" where
  "conn_pending hs c = (if db_header (cn_buffer c) = 0 then [] else header_bytes hs (db_header (cn_buffer c))) @ db_stream (cn_buffer c)"

definition conn_ok :: "nat \<Rightarrow> connection \<Rightarrow> bool" where
  "conn_ok hs c \<longleftrightarrow> db_inv (cn_buffer c) \<and>
     header_value (header_bytes hs (db_header (cn_buffer c))) hs = db_header (cn_buffer c)"

lemma list_2: "length l = 2 \<Longrightarrow> \<exists>a b. l = [a, b]" and list_4: "length l = 4 \<Longrightarrow> \<exists>a b c d. l = [a, b, c, d]"
  by (auto simp: numeral_eq_Suc length_Suc_conv)

lemma header_bytes_value:
  assumes "length l = hs" "hs = 2 \<or> hs = 4"
  shows "header_bytes hs (header_value l hs) = l"
proof -
  have byte: "of_int (drop_bit k (sint w)) = (ucast (drop_bit k w) :: u8)" if "k \<le> 24" for k and w :: u32
  proof (rule bit_word_eqI)
    fix n assume "n < LENGTH(8)"
    then have "min 31 (k + n) = k + n" using that by simp
    then show "bit (of_int (drop_bit k (sint w)) :: u8) n = bit (ucast (drop_bit k w) :: u8) n"
      using \<open>n < LENGTH(8)\<close> by (simp add: bit_simps)
  qed
  show ?thesis
  proof (cases "hs = 2")
    case True
    with assms(1) obtain a b where l: "l = [a, b]" using list_2 by blast
    let ?w = "push_bit 8 (ucast a) OR ucast b :: u32"
    have "ucast (drop_bit 8 ?w) = a" "ucast ?w = b" by (rule bit_word_eqI, auto simp: bit_simps dest: bit_imp_le_length)+
    then show ?thesis using byte [of 8 ?w] byte [of 0 ?w] True by (simp add: l header_bytes_def header_value_def)
  next
    case False
    with assms obtain a b c d where l: "l = [a, b, c, d]" using list_4 [of l] by auto
    let ?w = "push_bit 24 (ucast a) OR push_bit 16 (ucast b) OR push_bit 8 (ucast c) OR ucast d :: u32"
    have "ucast (drop_bit 24 ?w) = a" "ucast (drop_bit 16 ?w) = b" "ucast (drop_bit 8 ?w) = c" "ucast ?w = d"
      by (rule bit_word_eqI, auto simp: bit_simps dest: bit_imp_le_length)+
    then show ?thesis
      using byte [of 24 ?w] byte [of 16 ?w] byte [of 8 ?w] byte [of 0 ?w] False by (simp add: l header_bytes_def header_value_def)
  qed
qed

lemma length_header_bytes: "hs = 2 \<or> hs = 4 \<Longrightarrow> length (header_bytes hs h) = hs"
  by (auto simp: header_bytes_def)

lemma header_value_0: "hs = 2 \<or> hs = 4 \<Longrightarrow> header_value (header_bytes hs 0) hs = 0"
  by (auto simp: header_bytes_def header_value_def)

text \<open>Where a package goes.\<close>

definition has_receiver :: "gate \<Rightarrow> connection \<Rightarrow> bool" where
  "has_receiver g c \<longleftrightarrow> 0 < cn_id c \<and> (g_broker g \<noteq> 0 \<or> cn_agent c \<noteq> 0 \<or> g_watchdog g \<noteq> 0)"

definition package_call :: "gate \<Rightarrow> connection \<Rightarrow> u8 list \<Rightarrow> gate_call" where
  "package_call g c body =
     (if g_broker g \<noteq> 0 then Send 0 (g_broker g) (g_client_tag g OR TAG_DONTCOPY) (cn_id c) body
      else if cn_agent c \<noteq> 0 then Send (cn_client c) (cn_agent c) (g_client_tag g OR TAG_DONTCOPY) (cn_id c) body
      else Send 0 (g_watchdog g) (TAG_TEXT OR TAG_DONTCOPY) (cn_id c)
             (string_bytes (dec_string (cn_id c) @ '' data '') @ body))"

lemma package_call_buffer [simp]: "package_call g (c\<lparr>cn_buffer := db\<rparr>) = package_call g c"
  by (simp add: package_call_def fun_eq_iff)

lemma gate_forward_sends:
  assumes "db_inv (cn_buffer c)" "0 < n" "n \<le> length (db_stream (cn_buffer c))" "has_receiver g c"
  shows "\<exists>db mp'. gate_forward g c n mp = Some ([package_call g c (take n (db_stream (cn_buffer c)))], c\<lparr>cn_buffer := db\<rparr>, mp') \<and>
    db_inv db \<and> db_stream db = drop n (db_stream (cn_buffer c))"
  using databuffer_read_ok [OF assms(1-3), of mp] assms(4)
  by (auto simp: gate_forward_def has_receiver_def package_call_def)

text \<open>The header with the bytes behind it, in whichever state the buffer is.\<close>

lemma readheader_package:
  assumes ok: "conn_ok hs c" and p: "conn_pending hs c = l @ rest" "length l = hs" and hs: "hs = 2 \<or> hs = 4"
  obtains db mp' where "databuffer_readheader hs (cn_buffer c) mp =
      Some (if int (length rest) < header_value l hs then - 1 else header_value l hs, db, mp')"
    "db_inv db" "db_stream db = rest" "db_header db = header_value l hs"
proof -
  let ?db = "cn_buffer c"
  from ok have inv: "db_inv ?db" by (simp add: conn_ok_def)
  show thesis
  proof (cases "db_header ?db = 0")
    case True
    with p have s: "db_stream ?db = l @ rest" by (simp add: conn_pending_def)
    then have "hs \<le> length (db_stream ?db)" "0 < hs" using p(2) hs by auto
    from readheader_fresh [OF inv True this, of mp] obtain db' mp' where r: "databuffer_readheader hs ?db mp =
        Some (if int (length (db_stream db')) < db_header db' then - 1 else db_header db', db', mp')"
      "db_inv db'" "db_stream db' = drop hs (db_stream ?db)" "db_header db' = header_value (take hs (db_stream ?db)) hs" .
    have "take hs (db_stream ?db) = l" "drop hs (db_stream ?db) = rest" using s p(2) by simp_all
    with r show thesis by (intro that [of db' mp']) simp_all
  next
    case False
    with p length_header_bytes [OF hs, of "db_header ?db"] have "header_bytes hs (db_header ?db) = l" and r: "db_stream ?db = rest"
      by (simp_all add: conn_pending_def)
    with ok have hd: "header_value l hs = db_header ?db" by (simp add: conn_ok_def)
    show thesis by (rule that [OF _ inv r]) (use readheader_pending [OF inv False, of hs mp] hd r in simp_all)
  qed
qed

text \<open>The specification: what the gate makes of a stream with lengths of \<open>hs\<close> bytes. The results are the packages it forwards and the
  bytes that are kept, or no bytes when it closes the connection. A package with a length of zero is dropped. Nothing is read any
  more behind a length that is negative as a number of 32 bits with a sign. A connection is closed when a package of 16M or more has
  arrived. Without a receiver only the lengths are taken from the stream: the bytes of a package are read as the next one.\<close>

function gate_packages :: "nat \<Rightarrow> bool \<Rightarrow> u8 list \<Rightarrow> u8 list list \<times> u8 list option" where
  "gate_packages hs receives bs = (
     let n = header_value (take hs bs) hs; rest = drop hs bs in
     if hs = 0 \<or> length bs < hs \<or> n < 0 \<or> int (length rest) < n then ([], Some bs)
     else if n = 0 then gate_packages hs receives rest
     else if n \<ge> MAX_PACKAGE then ([], None)
     else if receives then (let (ps, r) = gate_packages hs receives (drop (nat n) rest) in (take (nat n) rest # ps, r))
     else gate_packages hs receives rest)"
  by pat_completeness auto
termination by (relation "measure (\<lambda>(hs, receives, bs). length bs)") (auto simp: Let_def)

declare gate_packages.simps [simp del]

lemma gate_packages_wait:
  "length bs < hs \<or> header_value (take hs bs) hs < 0 \<or> int (length bs) - int hs < header_value (take hs bs) hs \<Longrightarrow>
   gate_packages hs receives bs = ([], Some bs)"
  by (subst gate_packages.simps) (auto simp: Let_def)

lemma gate_packages_step:
  assumes "length l = hs" "0 < hs" "n = header_value l hs" "0 \<le> n" "n \<le> int (length rest)"
  shows "gate_packages hs receives (l @ rest) =
    (if n = 0 then gate_packages hs receives rest
     else if n \<ge> MAX_PACKAGE then ([], None)
     else if receives then (take (nat n) rest # fst (gate_packages hs receives (drop (nat n) rest)), snd (gate_packages hs receives (drop (nat n) rest)))
     else gate_packages hs receives rest)"
  using assms by (subst gate_packages.simps) (auto simp: Let_def case_prod_unfold)

text \<open>Cutting can go on where it stopped.\<close>

lemma gate_packages_append:
  "gate_packages hs receives (bs @ cs) = (case snd (gate_packages hs receives bs) of
     None \<Rightarrow> (fst (gate_packages hs receives bs), None)
   | Some r \<Rightarrow> (fst (gate_packages hs receives bs) @ fst (gate_packages hs receives (r @ cs)), snd (gate_packages hs receives (r @ cs))))"
proof (induction hs receives bs rule: gate_packages.induct)
  case (1 hs receives bs)
  define n rest where n: "n = header_value (take hs bs) hs" and rest: "rest = drop hs bs"
  show ?case
  proof (cases "hs = 0 \<or> length bs < hs \<or> n < 0 \<or> int (length rest) < n")
    case True
    then have "gate_packages hs receives bs = ([], Some bs)" by (subst gate_packages.simps) (simp add: n rest)
    then show ?thesis by simp
  next
    case False
    then have l: "length (take hs bs) = hs" "0 < hs" "0 \<le> n" "n \<le> int (length rest)" "n \<le> int (length (rest @ cs))" by auto
    have bs: "bs = take hs bs @ rest" "bs @ cs = take hs bs @ rest @ cs" by (simp_all add: rest)
    note step = gate_packages_step [OF l(1,2) n l(3,4), folded bs(1)] gate_packages_step [OF l(1,2) n l(3,5), folded bs(2)]
    have d: "drop (nat n) (rest @ cs) = drop (nat n) rest @ cs" "take (nat n) (rest @ cs) = take (nat n) rest" using l(4) by simp_all
    show ?thesis
      using "1" [OF n rest False] unfolding step d by (auto split: option.split)
  qed
qed

text \<open>What the gate does about a stream.\<close>

definition stream_calls :: "gate \<Rightarrow> int \<Rightarrow> connection \<Rightarrow> u8 list list \<times> u8 list option \<Rightarrow> gate_call list" where
  "stream_calls g key c pr = map (package_call g c) (fst pr)
     @ (if snd pr = None then [Socket_Close key, Log ''Recv socket message > 16M''] else [])"

definition stream_rest :: "u8 list list \<times> u8 list option \<Rightarrow> u8 list" where
  "stream_rest pr = (case snd pr of None \<Rightarrow> [] | Some r \<Rightarrow> r)"

lemma gate_forward_nobody:
  "\<not> has_receiver g c \<Longrightarrow> gate_forward g c n mp = Some ([], c, mp)"
  by (auto simp: gate_forward_def has_receiver_def)

lemma package_loop_splits:
  assumes "conn_ok hs c" "g_header_size g = hs" "hs = 2 \<or> hs = 4"
  shows "\<exists>db mp'. package_loop g key c mp =
      Some (stream_calls g key c (gate_packages hs (has_receiver g c) (conn_pending hs c)), c\<lparr>cn_buffer := db\<rparr>, mp') \<and>
    conn_ok hs (c\<lparr>cn_buffer := db\<rparr>) \<and>
    conn_pending hs (c\<lparr>cn_buffer := db\<rparr>) = stream_rest (gate_packages hs (has_receiver g c) (conn_pending hs c))"
  using assms(1)
proof (induction "length (conn_pending hs c)" arbitrary: c mp rule: less_induct)
  case less
  let ?db = "cn_buffer c" and ?R = "has_receiver g c"
  have R: "has_receiver g (c\<lparr>cn_buffer := db\<rparr>) = ?R" for db by (simp add: has_receiver_def)
  have S: "stream_calls g key (c\<lparr>cn_buffer := db\<rparr>) = stream_calls g key c" for db by (simp add: stream_calls_def fun_eq_iff)
  show ?case
  proof (cases "hs \<le> length (conn_pending hs c)")
    case False
    with length_header_bytes [OF assms(3)] have h: "db_header ?db = 0" and s: "length (db_stream ?db) < hs"
      by (auto simp: conn_pending_def split: if_splits)
    from readheader_short [OF _ h s, of mp] less.prems have "databuffer_readheader hs ?db mp = Some (- 1, ?db, mp)"
      by (simp add: conn_ok_def)
    with False less.prems assms(2) show ?thesis
      by (intro exI [of _ ?db] exI [of _ mp], subst package_loop.simps) (simp add: gate_packages_wait stream_calls_def stream_rest_def)
  next
    case True
    define l rest where "l = take hs (conn_pending hs c)" and "rest = drop hs (conn_pending hs c)"
    have p: "conn_pending hs c = l @ rest" and l: "length l = hs" using True by (simp_all add: l_def rest_def)
    define n where n: "n = header_value l hs"
    have hs0: "0 < hs" using assms(3) by auto
    from readheader_package [OF less.prems p l assms(3), of mp, folded n] obtain db mp1 where
      r: "databuffer_readheader hs ?db mp = Some (if int (length rest) < n then - 1 else n, db, mp1)"
      "db_inv db" "db_stream db = rest" "db_header db = n" .
    have hb: "header_bytes hs n = l" using header_bytes_value [OF l assms(3)] by (simp add: n)
    have ok: "conn_ok hs (c\<lparr>cn_buffer := db\<rparr>)" using r(2,4) hb n by (simp add: conn_ok_def)
    consider (wait) "n < 0 \<or> int (length rest) < n" | (empty) "n = 0" | (big) "n \<ge> MAX_PACKAGE" "n \<le> int (length rest)"
      | (pack) "0 < n" "n < MAX_PACKAGE" "n \<le> int (length rest)" by linarith
    then show ?thesis
    proof cases
      case wait
      then have "conn_pending hs (c\<lparr>cn_buffer := db\<rparr>) = l @ rest" using r(3,4) hb by (auto simp: conn_pending_def)
      moreover have "gate_packages hs ?R (conn_pending hs c) = ([], Some (l @ rest))"
        using wait l by (subst gate_packages_wait) (auto simp: p n)
      moreover have "package_loop g key c mp = Some ([], c\<lparr>cn_buffer := db\<rparr>, mp1)"
        using wait r(1) assms(2) by (subst package_loop.simps) auto
      ultimately show ?thesis using ok by (intro exI [of _ db] exI [of _ mp1]) (simp add: stream_calls_def stream_rest_def)
    next
      case empty
      let ?c = "c\<lparr>cn_buffer := db\<rparr>"
      have c: "conn_pending hs ?c = rest" using r(3,4) empty by (simp add: conn_pending_def)
      from less.hyps [OF _ ok, of mp1] c l hs0 p R S obtain db' mp' where
        "package_loop g key ?c mp1 = Some (stream_calls g key c (gate_packages hs ?R rest), ?c\<lparr>cn_buffer := db'\<rparr>, mp')"
        "conn_ok hs (?c\<lparr>cn_buffer := db'\<rparr>)" "conn_pending hs (?c\<lparr>cn_buffer := db'\<rparr>) = stream_rest (gate_packages hs ?R rest)" by auto
      with empty r(1) assms(2) gate_packages_step [OF l hs0 n, of rest ?R] p show ?thesis
        by (subst package_loop.simps) auto
    next
      case big
      have "package_loop g key c mp = Some ([Socket_Close key, Log ''Recv socket message > 16M''],
          c\<lparr>cn_buffer := fst (databuffer_clear db mp1)\<rparr>, snd (databuffer_clear db mp1))"
        using big r(1) assms(2) by (subst package_loop.simps) (simp add: case_prod_unfold Let_def MAX_PACKAGE_def)
      moreover have "conn_ok hs (c\<lparr>cn_buffer := fst (databuffer_clear db mp1)\<rparr>)"
        "conn_pending hs (c\<lparr>cn_buffer := fst (databuffer_clear db mp1)\<rparr>) = []"
        using header_value_0 [OF assms(3)] by (simp_all add: databuffer_clear_def conn_ok_def conn_pending_def) (simp_all add: databuffer_empty_def)
      ultimately show ?thesis
        using big gate_packages_step [OF l hs0 n, of rest ?R] p by (auto simp: stream_calls_def stream_rest_def MAX_PACKAGE_def)
    next
      case pack
      let ?c = "c\<lparr>cn_buffer := db\<rparr>"
      let ?rest = "if ?R then drop (nat n) rest else rest"
      have "\<exists>db2 mp2. gate_forward g ?c (nat n) mp1 = Some (if ?R then [package_call g c (take (nat n) rest)] else [], c\<lparr>cn_buffer := db2\<rparr>, mp2) \<and>
          db_inv db2 \<and> db_stream db2 = ?rest"
        using gate_forward_sends [of ?c "nat n" g mp1] gate_forward_nobody [of g ?c "nat n" mp1] R [of db] r(2,3) pack by (cases ?R) auto
      then obtain db2 mp2 where
        f: "gate_forward g ?c (nat n) mp1 = Some (if ?R then [package_call g c (take (nat n) rest)] else [], c\<lparr>cn_buffer := db2\<rparr>, mp2)"
        "db_inv db2" "db_stream db2 = ?rest" by blast
      let ?c2 = "c\<lparr>cn_buffer := databuffer_reset db2\<rparr>"
      have c2: "conn_pending hs ?c2 = ?rest" "conn_ok hs ?c2"
        using f(2,3) header_value_0 [OF assms(3)] by (simp_all add: conn_pending_def conn_ok_def databuffer_reset_def)
      have "length ?rest \<le> length rest" "length rest < length (conn_pending hs c)" using p l hs0 by simp_all
      then have "length ?rest < length (conn_pending hs c)" by (rule le_less_trans)
      with less.hyps [OF _ c2(2), of mp2] c2(1) R S obtain db' mp' where
        l': "package_loop g key ?c2 mp2 = Some (stream_calls g key c (gate_packages hs ?R ?rest), c\<lparr>cn_buffer := db'\<rparr>, mp')"
        "conn_ok hs (c\<lparr>cn_buffer := db'\<rparr>)" "conn_pending hs (c\<lparr>cn_buffer := db'\<rparr>) = stream_rest (gate_packages hs ?R ?rest)" by auto
      have "package_loop g key c mp = Some ((if ?R then [package_call g c (take (nat n) rest)] else []) @
          stream_calls g key c (gate_packages hs ?R ?rest), c\<lparr>cn_buffer := db'\<rparr>, mp')"
        using pack r(1) f(1) l'(1) assms(2) by (subst package_loop.simps) simp
      then show ?thesis
        using l'(2,3) pack gate_packages_step [OF l hs0 n, of rest ?R] p
        by (cases ?R) (auto simp: stream_calls_def stream_rest_def)
    qed
  qed
qed

subsection \<open>Runs of events\<close>

text \<open>A sequence of events of the socket layer, each handled before the next.\<close>

fun gate_events :: "socket_event list \<Rightarrow> gate \<Rightarrow> (gate_call list \<times> gate) option" where
  "gate_events [] g = Some ([], g)"
| "gate_events (ev # evs) g = do {
     (calls, g) \<leftarrow> dispatch_socket_message ev g;
     (calls', g) \<leftarrow> gate_events evs g;
     Some (calls @ calls', g) }"

text \<open>One piece of data on a connection in good order.\<close>

lemma ev_data_splits:
  assumes "hashid_lookup (g_hash g) fd = Some (int i)" "i < length (g_conn g)" "conn_ok hs (g_conn g ! i)"
    "g_header_size g = hs" "hs = 2 \<or> hs = 4"
    and P: "P = gate_packages hs (has_receiver g (g_conn g ! i)) (conn_pending hs (g_conn g ! i) @ data)"
  obtains db mp where "ev_data fd data g = Some (stream_calls g fd (g_conn g ! i) P,
        g\<lparr>g_conn := (g_conn g)[i := (g_conn g ! i)\<lparr>cn_buffer := db\<rparr>], g_mp := mp\<rparr>)"
    "conn_ok hs ((g_conn g ! i)\<lparr>cn_buffer := db\<rparr>)" "conn_pending hs ((g_conn g ! i)\<lparr>cn_buffer := db\<rparr>) = stream_rest P"
proof -
  let ?c = "g_conn g ! i"
  let ?p = "databuffer_push data (cn_buffer ?c) (g_mp g)"
  let ?c1 = "?c\<lparr>cn_buffer := fst ?p\<rparr>"
  from assms(3) have inv: "db_inv (cn_buffer ?c)" by (simp add: conn_ok_def)
  note push = db_push [OF inv, of data "g_mp g"]
  have "conn_ok hs ?c1" using assms(3) push by (simp add: conn_ok_def)
  moreover have "conn_pending hs ?c1 = conn_pending hs ?c @ data" using push by (simp add: conn_pending_def)
  moreover have "has_receiver g ?c1 = has_receiver g ?c" "stream_calls g fd ?c1 = stream_calls g fd ?c"
    by (simp_all add: has_receiver_def stream_calls_def fun_eq_iff)
  ultimately obtain db mp' where
    "package_loop g fd ?c1 (snd ?p) = Some (stream_calls g fd ?c P, ?c\<lparr>cn_buffer := db\<rparr>, mp')"
    "conn_ok hs (?c\<lparr>cn_buffer := db\<rparr>)" "conn_pending hs (?c\<lparr>cn_buffer := db\<rparr>) = stream_rest P"
    using package_loop_splits [of hs ?c1 g fd "snd ?p"] assms(4,5) by (auto simp: P)
  with assms(1,2) that show thesis
    by (simp add: ev_data_def gate_dispatch_message_def case_prod_unfold)
qed

text \<open>Property C21: the stream of a connection, with lengths of two or four bytes, in any pieces. As long as the connection is not closed, the
  gate forwards exactly the packages of the stream, each once and in order, to the broker, the agent or the watchdog, and the bytes
  that do not make a whole package yet wait in the buffer; packages without a body are dropped, and behind a negative length of four
  bytes everything waits. When nobody receives the packages, nothing is forwarded, and the lengths are looked for everywhere in the
  stream. The connection is closed exactly when a package of 16M or more is complete (so never with two bytes), after the packages
  before it, with the piece of data that completes it; the rest of that piece is lost.\<close>

theorem gate_reassembles_packages:
  assumes "hashid_lookup (g_hash g) fd = Some (int i)" "i < length (g_conn g)" "conn_ok hs (g_conn g ! i)"
    "g_header_size g = hs" "hs = 2 \<or> hs = 4" "ds \<noteq> []"
    "gate_packages hs (has_receiver g (g_conn g ! i)) (conn_pending hs (g_conn g ! i) @ concat ds) = (ps, r)"
  shows "case r of
      Some rest \<Rightarrow> \<exists>g'. gate_events (map (Ev_Data fd) ds) g = Some (map (package_call g (g_conn g ! i)) ps, g') \<and>
        conn_pending hs (g_conn g' ! i) = rest
    | None \<Rightarrow> \<exists>ds1 ds2 g'. ds = ds1 @ ds2 \<and> gate_events (map (Ev_Data fd) ds1) g = Some (map (package_call g (g_conn g ! i)) ps
        @ [Socket_Close fd, Log ''Recv socket message > 16M''], g') \<and> conn_pending hs (g_conn g' ! i) = []"
  using assms
proof (induction ds arbitrary: g ps)
  case Nil
  then show ?case by simp
next
  case (Cons d ds)
  let ?c = "g_conn g ! i"
  define P where P: "P = gate_packages hs (has_receiver g ?c) (conn_pending hs ?c @ d)"
  from ev_data_splits [OF Cons.prems(1-5) P] obtain db mp where
    e: "ev_data fd d g = Some (stream_calls g fd ?c P, g\<lparr>g_conn := (g_conn g)[i := ?c\<lparr>cn_buffer := db\<rparr>], g_mp := mp\<rparr>)"
    "conn_ok hs (?c\<lparr>cn_buffer := db\<rparr>)" "conn_pending hs (?c\<lparr>cn_buffer := db\<rparr>) = stream_rest P" .
  let ?g = "g\<lparr>g_conn := (g_conn g)[i := ?c\<lparr>cn_buffer := db\<rparr>], g_mp := mp\<rparr>"
  have g: "package_call ?g (g_conn ?g ! i) = package_call g ?c" "g_conn ?g ! i = ?c\<lparr>cn_buffer := db\<rparr>"
    "has_receiver ?g (g_conn ?g ! i) = has_receiver g ?c" "hashid_lookup (g_hash ?g) fd = Some (int i)" "i < length (g_conn ?g)"
    "conn_ok hs (g_conn ?g ! i)" "g_header_size ?g = hs"
    using Cons.prems(1-4) e(2) by (simp_all add: package_call_def has_receiver_def fun_eq_iff)
  have all: "(ps, r) = (case snd P of None \<Rightarrow> (fst P, None) | Some q \<Rightarrow> (fst P @ fst (gate_packages hs (has_receiver g ?c) (q @ concat ds)),
      snd (gate_packages hs (has_receiver g ?c) (q @ concat ds))))"
    unfolding P
    using gate_packages_append [of hs "has_receiver g ?c" "conn_pending hs ?c @ d" "concat ds"] Cons.prems(7) by simp
  show ?case
  proof (cases "snd P")
    case None
    then have "gate_events (map (Ev_Data fd) [d]) g = Some (map (package_call g ?c) ps @ [Socket_Close fd, Log ''Recv socket message > 16M''], ?g)"
      "conn_pending hs (g_conn ?g ! i) = []"
      using e g(2) all by (simp_all add: stream_calls_def stream_rest_def)
    then show ?thesis using None all by (intro exI [of _ "[d]"] exI [of _ ds] exI [of _ ?g] | simp)+
  next
    case (Some q)
    define Q where Q: "Q = gate_packages hs (has_receiver g ?c) (q @ concat ds)"
    have ps: "ps = fst P @ fst Q" "r = snd Q" using all Some by (simp_all add: Q)
    have first: "ev_data fd d g = Some (map (package_call g ?c) (fst P), ?g)" and q: "conn_pending hs (g_conn ?g ! i) = q"
      using e g(2) Some by (simp_all add: stream_calls_def stream_rest_def)
    show ?thesis
    proof (cases "ds = []")
      case True
      have "gate_packages hs (has_receiver g ?c) q = ([], Some q)"
        using gate_packages_append [of hs "has_receiver g ?c" "conn_pending hs ?c @ d" "[]"] Some
        by (auto simp: P [symmetric] prod_eq_iff)
      then show ?thesis using first q ps True by (simp add: Q)
    next
      case False
      have go: "\<exists>g'. gate_events (map (Ev_Data fd) (d # es)) g = Some (map (package_call g ?c) (fst P) @ cs, g') \<and> B g'"
        if "\<exists>g'. gate_events (map (Ev_Data fd) es) ?g = Some (cs, g') \<and> B g'" for es cs B
        using first that by auto
      have "gate_packages hs (has_receiver ?g (g_conn ?g ! i)) (conn_pending hs (g_conn ?g ! i) @ concat ds) = (fst Q, r)"
        unfolding g(3) q Q [symmetric] by (simp add: ps(2))
      note IH = Cons.IH [OF g(4,5,6,7) Cons.prems(5) False this, unfolded g(1)]
      show ?thesis
      proof (cases r)
        case (Some rest)
        from go [OF IH [unfolded Some option.case]] show ?thesis by (simp add: Some ps(1))
      next
        case None
        from IH [unfolded None option.case] obtain ds1 ds2 where ds: "ds = ds1 @ ds2" "\<exists>g'. gate_events (map (Ev_Data fd) ds1) ?g =
          Some (map (package_call g ?c) (fst Q) @ [Socket_Close fd, Log ''Recv socket message > 16M''], g') \<and> conn_pending hs (g_conn g' ! i) = []"
          by blast
        have "d # ds = (d # ds1) @ ds2" by (simp add: ds(1))
        with go [OF ds(2)] show ?thesis unfolding None option.case ps(1) map_append append_assoc by blast
      qed
    qed
  qed
qed

definition demo_gate :: gate where
  "demo_gate = gate_create\<lparr>g_watchdog := 1, g_client_tag := TAG_CLIENT, g_header_size := 2, g_max_connection := 1,
     g_hash := \<lparr>hi_hashmod = 0, hi_cap = 1, hi_count = 1, hi_id = [\<lparr>hn_id = 7, hn_next = None\<rparr>], hi_hash = [Some 0]\<rparr>,
     g_conn := [no_connection\<lparr>cn_id := 7, cn_agent := 5, cn_client := 6\<rparr>]\<rparr>"

lemma demo_gate_ok:
  "hashid_lookup (g_hash demo_gate) 7 = Some (int 0)" "0 < length (g_conn demo_gate)" "conn_ok 2 (g_conn demo_gate ! 0)"
  "has_receiver demo_gate (g_conn demo_gate ! 0)" "g_header_size demo_gate = 2" "conn_pending 2 (g_conn demo_gate ! 0) = []"
  by (simp_all add: demo_gate_def gate_create_def no_connection_def conn_ok_def has_receiver_def conn_pending_def header_value_0
      hashid_lookup_def bucket_def chain_lookup.simps databuffer_empty_def db_inv_def db_stream_def)

theorem gate_reassembles_packages_witness:
  "\<exists>g'. gate_events (map (Ev_Data 7) [[0, 2], [10, 20, 0], [0, 0, 1, 30, 0]]) demo_gate =
     Some ([Send 6 5 (TAG_CLIENT OR TAG_DONTCOPY) 7 [10, 20], Send 6 5 (TAG_CLIENT OR TAG_DONTCOPY) 7 [30]], g') \<and>
     conn_pending 2 (g_conn g' ! 0) = [0]"
proof -
  have "gate_packages 2 True [0, 2, 10, 20, 0, 0, 0, 1, 30, 0] = ([[10, 20], [30]], Some [0])"
    by (simp add: gate_packages.simps header_value_2 MAX_PACKAGE_def)
  moreover have "package_call demo_gate (g_conn demo_gate ! 0) body = Send 6 5 (TAG_CLIENT OR TAG_DONTCOPY) 7 body" for body
    by (simp add: package_call_def demo_gate_def gate_create_def no_connection_def)
  ultimately show ?thesis
    using gate_reassembles_packages [OF demo_gate_ok(1-3,5), of "[[0, 2], [10, 20, 0], [0, 0, 1, 30, 0]]" "[[10, 20], [30]]" "Some [0]"]
      demo_gate_ok(4,6) by simp
qed

subsection \<open>The gate never fails\<close>

definition gate_inv :: "gate \<Rightarrow> bool" where
  "gate_inv g \<longleftrightarrow> hid_inv (g_hash g) \<and> length (g_conn g) = hi_cap (g_hash g) \<and> 0 < g_header_size g \<and>
     (\<forall>c \<in> set (g_conn g). db_inv (cn_buffer c))"

text \<open>What the socket layer promises of its events: the id of an accepted socket is not negative and not in use, and no socket has
  the id -1.\<close>

fun event_ok :: "socket_event \<Rightarrow> gate \<Rightarrow> bool" where
  "event_ok (Ev_Accept lid ud name) g \<longleftrightarrow> 0 \<le> ud \<and> hashid_lookup (g_hash g) ud = Some (- 1)"
| "event_ok (Ev_Close fd) g \<longleftrightarrow> fd \<noteq> - 1"
| "event_ok (Ev_Error fd) g \<longleftrightarrow> fd \<noteq> - 1"
| "event_ok _ g \<longleftrightarrow> True"

fun events_ok :: "socket_event list \<Rightarrow> gate \<Rightarrow> bool" where
  "events_ok [] g \<longleftrightarrow> True"
| "events_ok (ev # evs) g \<longleftrightarrow> event_ok ev g \<and>
     (case dispatch_socket_message ev g of None \<Rightarrow> True | Some (_, g') \<Rightarrow> events_ok evs g')"

text \<open>The events a gate may fail on: the accept of a connection that does not come from its own listening socket, and that of a
  connection whose id and the number of slots exceed the range of an \<^verbatim>\<open>int\<close> together.\<close>

fun event_risky :: "socket_event \<Rightarrow> gate \<Rightarrow> bool" where
  "event_risky (Ev_Accept lid ud name) g \<longleftrightarrow> lid \<noteq> g_listen_id g \<or> int (hi_cap (g_hash g)) + ud > 2 ^ 31"
| "event_risky _ g \<longleftrightarrow> False"

lemma gate_inv_update:
  assumes "gate_inv g" "db_inv (cn_buffer c)" "hid_inv h" "hi_cap h = hi_cap (g_hash g)"
  shows "gate_inv (g\<lparr>g_hash := h, g_conn := (g_conn g)[i := c], g_mp := mp\<rparr>)"
  using assms set_update_subset_insert [of "g_conn g" i c] by (auto simp: gate_inv_def)

lemma gate_inv_hash: "gate_inv g \<Longrightarrow> hid_inv (g_hash g)"
  by (simp add: gate_inv_def)

lemma ev_data_safe:
  assumes "gate_inv g"
  shows "\<exists>calls g'. ev_data fd data g = Some (calls, g') \<and> gate_inv g'"
proof (cases rule: hid.slotE [OF gate_inv_hash [OF assms], of fd])
  case 1
  then show ?thesis using assms by (simp add: ev_data_def)
next
  case (2 i)
  then have i: "i < length (g_conn g)" using assms by (simp add: gate_inv_def)
  then have inv: "db_inv (cn_buffer (g_conn g ! i))" using assms by (simp add: gate_inv_def)
  let ?p = "databuffer_push data (cn_buffer (g_conn g ! i)) (g_mp g)"
  have "db_inv (cn_buffer ((g_conn g ! i)\<lparr>cn_buffer := fst ?p\<rparr>))" using db_push [OF inv] by simp
  from package_loop_returns [OF this, of g fd "snd ?p"] assms obtain calls c' mp' where
    "package_loop g fd ((g_conn g ! i)\<lparr>cn_buffer := fst ?p\<rparr>) (snd ?p) = Some (calls, c', mp')" "db_inv (cn_buffer c')"
    by (auto simp: gate_inv_def)
  then show ?thesis
    using 2 i assms gate_inv_update [OF assms, of c' "g_hash g" mp' i]
    by (auto simp: ev_data_def gate_dispatch_message_def case_prod_unfold gate_inv_def)
qed

lemma ev_close_safe:
  assumes "gate_inv g" "fd \<noteq> - 1"
  shows "\<exists>calls g'. ev_close fd g = Some (calls, g') \<and> gate_inv g'"
proof -
  note inv = gate_inv_hash [OF assms(1)]
  from hid.remove_law [OF inv assms(2)] obtain r h where
    r: "hashid_remove (g_hash g) fd = Some (r, h)" "hashid_lookup (g_hash g) fd = Some r" "hid_inv h"
      "hi_cap h = hi_cap (g_hash g)" by blast
  show ?thesis
  proof (cases rule: hid.slotE [OF inv, of fd])
    case 1
    with r have "ev_close fd g = Some ([], g\<lparr>g_hash := h\<rparr>)" by (simp add: ev_close_def)
    then show ?thesis using r assms(1) by (simp add: gate_inv_def)
  next
    case (2 i)
    then have "i < length (g_conn g)" "r = int i" using assms(1) r(2) by (simp_all add: gate_inv_def)
    then show ?thesis
      using r gate_inv_update [OF assms(1) _ r(3,4), of no_connection "snd (databuffer_clear (cn_buffer (g_conn g ! i)) (g_mp g))" i]
      by (simp add: ev_close_def case_prod_unfold no_connection_def Let_def)
  qed
qed

lemma ev_accept_safe:
  assumes "gate_inv g" "event_ok (Ev_Accept lid ud name) g" "\<not> event_risky (Ev_Accept lid ud name) g"
  shows "\<exists>calls g'. ev_accept lid ud name g = Some (calls, g') \<and> gate_inv g'"
proof (cases "hashid_full (g_hash g)")
  case True
  then show ?thesis using assms by (simp add: ev_accept_def c_assert_def)
next
  case False
  from assms have "hid_inv (g_hash g)" "0 \<le> ud" "hashid_lookup (g_hash g) ud = Some (- 1)"
    "int (hi_cap (g_hash g)) + ud \<le> 2 ^ 31" by (simp_all add: gate_inv_def)
  from hid.insert_law [OF this(1,2) False this(3,4)] obtain i h where
    h: "hashid_insert (g_hash g) ud = Some (int i, h)" "hid_inv h" "hi_cap h = hi_cap (g_hash g)" "i < hi_cap (g_hash g)"
    by blast
  then have i: "i < length (g_conn g)" using assms(1) by (simp add: gate_inv_def)
  then have "db_inv (cn_buffer (g_conn g ! i))" using assms(1) by (simp add: gate_inv_def)
  then have "gate_inv (g\<lparr>g_hash := h, g_conn := (g_conn g)[i := (g_conn g ! i)\<lparr>cn_id := ud, cn_remote_name := take 31 name\<rparr>],
      g_mp := g_mp g\<rparr>)"
    by (intro gate_inv_update [OF assms(1) _ h(2,3)]) simp
  then show ?thesis using assms(3) False h i by (simp add: ev_accept_def c_assert_def Let_def)
qed

lemma dispatch_socket_message_safe:
  assumes "gate_inv g" "event_ok ev g" "\<not> event_risky ev g"
  shows "\<exists>calls g'. dispatch_socket_message ev g = Some (calls, g') \<and> gate_inv g'"
proof (cases ev)
  case (Ev_Data fd data)
  then show ?thesis using ev_data_safe [OF assms(1)] by simp
next
  case (Ev_Connect fd)
  then show ?thesis
    by (cases rule: hid.slotE [OF gate_inv_hash [OF assms(1)], of fd]) (use Ev_Connect assms(1) in \<open>simp_all add: ev_connect_def\<close>)
next
  case (Ev_Accept lid ud name)
  then show ?thesis using ev_accept_safe [of g lid ud name] assms by simp
qed (use assms ev_close_safe [of g] in simp_all)

lemma ev_accept_inv:
  assumes "gate_inv g" "event_ok (Ev_Accept lid ud name) g" "ev_accept lid ud name g = Some (calls, g')"
  shows "gate_inv g'"
proof (cases "hashid_full (g_hash g)")
  case True
  then show ?thesis using assms(1,3) by (auto simp: ev_accept_def c_assert_def bind_eq_Some_conv split: if_splits)
next
  case False
  obtain r h where h: "hashid_insert (g_hash g) ud = Some (r, h)"
    using assms(3) False by (cases "hashid_insert (g_hash g) ud") (auto simp: ev_accept_def c_assert_def split: if_splits)
  from hid.insert_kept [OF gate_inv_hash [OF assms(1)] _ _ this] assms(2) obtain i where
    i: "r = int i" "hid_inv h" "hi_cap h = hi_cap (g_hash g)" "i < hi_cap (g_hash g)" by auto
  then have "i < length (g_conn g)" using assms(1) by (simp add: gate_inv_def)
  moreover from this have "db_inv (cn_buffer (g_conn g ! i))" using assms(1) by (simp add: gate_inv_def)
  then have "gate_inv (g\<lparr>g_hash := h, g_conn := (g_conn g)[i := (g_conn g ! i)\<lparr>cn_id := ud, cn_remote_name := take 31 name\<rparr>],
      g_mp := g_mp g\<rparr>)"
    by (intro gate_inv_update [OF assms(1) _ i(2,3)]) simp
  ultimately show ?thesis using assms(3) False h i(1) by (auto simp: ev_accept_def c_assert_def Let_def split: if_splits)
qed

lemma dispatch_keeps_inv:
  assumes "gate_inv g" "event_ok ev g" "dispatch_socket_message ev g = Some (calls, g')"
  shows "gate_inv g'"
proof (cases "event_risky ev g")
  case True
  then obtain lid ud name where "ev = Ev_Accept lid ud name" by (cases ev) auto
  with assms ev_accept_inv [OF assms(1)] show ?thesis by simp
next
  case False
  with dispatch_socket_message_safe [OF assms(1,2)] assms(3) show ?thesis by auto
qed

lemma gate_init_inv:
  assumes "gate_init query listen parm g0 = Some (0, calls, g)"
  shows "gate_inv g"
proof (cases parm)
  case None
  with assms show ?thesis by (simp add: gate_init_def)
next
  case (Some tx)
  obtain header watchdog binding tag mx where p: "gate_scan tx = Some (header, watchdog, binding, tag, mx)"
    using assms Some by (cases "gate_scan tx") (auto simp: gate_init_def)
  from hashid_init_ok [of "nat mx"] obtain hi where hi: "hashid_init (nat mx) = Some hi" "hid_inv hi" "hi_cap hi = nat mx" by blast
  with assms Some p show ?thesis
    by (auto simp: gate_init_def start_listen_def gate_inv_def Let_def no_connection_def split: if_splits prod.splits)
qed

text \<open>Property C22: a gate that was started handles every sequence of events of the socket layer without a failed assertion or an access outside
  its tables, whatever the data of the clients: every buffer stays well formed, and the loop over the packages always ends. The one
  exception is an accept: the assertion fails when it names another listening socket than the gate's, and the table may compute a
  negative index when the id of the new socket and the number of slots exceed \<open>2 ^ 31\<close> together. So whenever a run fails, it fails in
  such an event, after events that were all handled. (Every accepted socket has an id that is not negative and not in use, and
  no socket that is closed has the id -1: the socket server gives out ids in this way.)\<close>

theorem gate_never_fails:
  assumes "gate_init query listen parm gate_create = Some (0, calls, g)" "events_ok evs g"
  shows "case gate_events evs g of
      Some (calls', g') \<Rightarrow> gate_inv g'
    | None \<Rightarrow> \<exists>evs1 ev evs2 calls1 g1. evs = evs1 @ ev # evs2 \<and> gate_events evs1 g = Some (calls1, g1) \<and> gate_inv g1 \<and>
        dispatch_socket_message ev g1 = None \<and> event_risky ev g1"
proof -
  have "gate_inv g" using assms(1) by (rule gate_init_inv)
  then show ?thesis
    using assms(2)
  proof (induction evs arbitrary: g)
    case Nil
    then show ?case by simp
  next
    case (Cons ev evs)
    show ?case
    proof (cases "dispatch_socket_message ev g")
      case None
      with Cons.prems dispatch_socket_message_safe [of g ev] have "event_risky ev g" by auto
      with None Cons.prems(1) show ?thesis by (auto intro!: exI [of _ "[]"])
    next
      case (Some st)
      then obtain calls1 g1 where g1: "dispatch_socket_message ev g = Some (calls1, g1)" by (cases st) auto
      with Cons.prems dispatch_keeps_inv [of g ev] have inv: "gate_inv g1" by auto
      from g1 Cons.prems(2) have ok: "events_ok evs g1" by simp
      note IH = Cons.IH [OF inv ok]
      show ?thesis
      proof (cases "gate_events evs g1")
        case None
        with IH obtain evs1 ev' evs2 calls2 g2 where "evs = evs1 @ ev' # evs2" "gate_events evs1 g1 = Some (calls2, g2)" "gate_inv g2"
          "dispatch_socket_message ev' g2 = None" "event_risky ev' g2" by auto
        with g1 None show ?thesis by (auto intro!: exI [of _ "ev # evs1"])
      next
        case (Some st')
        with g1 IH show ?thesis by auto
      qed
    qed
  qed
qed

theorem gate_never_fails_witness:
  "\<exists>calls g calls' g'. gate_init (\<lambda>_. 9) (\<lambda>_ _. 3) (Some ''S ! 8888 0 1'') gate_create = Some (0, calls, g) \<and>
     gate_events [Ev_Accept 3 12 ''10.0.0.1'', Ev_Data 12 [0, 1, 65], Ev_Close 12] g = Some (calls', g') \<and> gate_inv g'"
proof -
  from hashid_init_ok [of 1] obtain hi where hi: "hashid_init 1 = Some hi" "hid_inv hi" "hi_cap hi = 1" "\<And>i. \<not> used hi i" by blast
  then have new: "hashid_lookup hi 12 = Some (- 1)" by (cases rule: lookup_cases [OF hi(2), of 12]) auto
  have port: "split_port ''8888'' = None" "strtol_int 10 ''8888'' = 8888"
    "gate_scan ''S ! 8888 0 1'' = Some (CHR ''S'', ''!'', ''8888'', 0, 1)" by code_simp+
  obtain calls g where g: "gate_init (\<lambda>_. 9) (\<lambda>_ _. 3) (Some ''S ! 8888 0 1'') gate_create = Some (0, calls, g)"
    "g_listen_id g = 3" "g_hash g = hi"
    using hi(1) by (auto simp: gate_init_def start_listen_def port Let_def)
  let ?evs = "[Ev_Accept 3 12 ''10.0.0.1'', Ev_Data 12 [0, 1, 65], Ev_Close 12]"
  have "events_ok ?evs g" using g(3) new by (simp split: option.split)
  note ok = gate_never_fails [OF g(1) this]
  have "\<not> event_risky ev g1" if "?evs = evs1 @ ev # evs2" "gate_events evs1 g = Some (calls1, g1)" for evs1 ev evs2 calls1 g1
    using that g(2,3) hi(3) by (auto simp: Cons_eq_append_conv simp del: dispatch_socket_message.simps)
  with ok obtain calls' g' where "gate_events ?evs g = Some (calls', g')" "gate_inv g'" by (cases "gate_events ?evs g") auto
  with g(1) show ?thesis by blast
qed

subsection \<open>Streams the gate cannot read\<close>

text \<open>A negative length is neither a package nor an error: from then on every piece of data is kept and
  nothing is read.\<close>

lemma package_loop_stuck:
  assumes "db_inv (cn_buffer c)" "db_header (cn_buffer c) < 0"
  shows "package_loop g key c mp = Some ([], c, mp)"
  using readheader_pending [OF assms(1), of "g_header_size g" mp] assms(2)
  by (subst package_loop.simps) simp

lemma ev_data_stuck:
  assumes "hashid_lookup (g_hash g) fd = Some (int i)" "i < length (g_conn g)" "db_inv (cn_buffer (g_conn g ! i))"
    "db_header (cn_buffer (g_conn g ! i)) < 0"
  obtains db mp where "ev_data fd data g = Some ([], g\<lparr>g_conn := (g_conn g)[i := (g_conn g ! i)\<lparr>cn_buffer := db\<rparr>], g_mp := mp\<rparr>)"
    "db_inv db" "db_header db < 0" "db_stream db = db_stream (cn_buffer (g_conn g ! i)) @ data"
proof -
  let ?p = "databuffer_push data (cn_buffer (g_conn g ! i)) (g_mp g)"
  note push = db_push [OF assms(3), of data "g_mp g"]
  have "package_loop g fd ((g_conn g ! i)\<lparr>cn_buffer := fst ?p\<rparr>) (snd ?p) = Some ([], (g_conn g ! i)\<lparr>cn_buffer := fst ?p\<rparr>, snd ?p)"
    by (rule package_loop_stuck) (use push assms(4) in simp_all)
  with assms push that [of "snd ?p" "fst ?p"] show thesis
    by (simp add: ev_data_def gate_dispatch_message_def case_prod_unfold Let_def)
qed

lemma gate_events_stuck:
  assumes "hashid_lookup (g_hash g) fd = Some (int i)" "i < length (g_conn g)" "db_inv (cn_buffer (g_conn g ! i))"
    "db_header (cn_buffer (g_conn g ! i)) < 0"
  shows "\<exists>g'. gate_events (map (Ev_Data fd) ds) g = Some ([], g') \<and>
    db_stream (cn_buffer (g_conn g' ! i)) = db_stream (cn_buffer (g_conn g ! i)) @ concat ds"
  using assms
proof (induction ds arbitrary: g)
  case Nil
  then show ?case by simp
next
  case (Cons d ds)
  from ev_data_stuck [OF Cons.prems, of d] obtain db mp where
    e: "ev_data fd d g = Some ([], g\<lparr>g_conn := (g_conn g)[i := (g_conn g ! i)\<lparr>cn_buffer := db\<rparr>], g_mp := mp\<rparr>)"
    "db_inv db" "db_header db < 0" "db_stream db = db_stream (cn_buffer (g_conn g ! i)) @ d" .
  from Cons.IH [of "g\<lparr>g_conn := (g_conn g)[i := (g_conn g ! i)\<lparr>cn_buffer := db\<rparr>], g_mp := mp\<rparr>"] Cons.prems e
  show ?case by auto
qed

text \<open>Property C23: in a gate with 4-byte lengths, a client that sends a length with the top bit set is not
  cut off by the limit of 16M: the length is negative as an \<^verbatim>\<open>int\<close>, so no package of the connection is
  forwarded ever again, the connection is not closed, and all that the client sends is kept in memory.\<close>

theorem gate_negative_length_stalls:
  assumes "hashid_lookup (g_hash g) fd = Some (int i)" "i < length (g_conn g)" "db_inv (cn_buffer (g_conn g ! i))"
    "db_header (cn_buffer (g_conn g ! i)) = 0" "db_stream (cn_buffer (g_conn g ! i)) = []" "g_header_size g = 4" "bit a 7"
  shows "\<exists>g'. gate_events (map (Ev_Data fd) ([a, b, c, d] # ds)) g = Some ([], g') \<and>
    db_stream (cn_buffer (g_conn g' ! i)) = concat ds"
proof -
  let ?c = "g_conn g ! i"
  let ?p = "databuffer_push [a, b, c, d] (cn_buffer ?c) (g_mp g)"
  note push = db_push [OF assms(3), of "[a, b, c, d]" "g_mp g"]
  have hs: "4 \<le> length (db_stream (fst ?p))" "db_header (fst ?p) = 0" "0 < (4 :: nat)" using push assms(4,5) by simp_all
  from readheader_fresh [OF push(1) hs(2,1,3), of "snd ?p"] obtain db mp where
    r: "databuffer_readheader 4 (fst ?p) (snd ?p) =
        Some (if int (length (db_stream db)) < db_header db then - 1 else db_header db, db, mp)"
    "db_inv db" "db_stream db = drop 4 (db_stream (fst ?p))" "db_header db = header_value (take 4 (db_stream (fst ?p))) 4" .
  have neg: "db_header db < 0" "db_stream db = []"
    using r(3,4) push assms(5) header_value_4_negative [OF assms(7), of b c d "[]"] by simp_all
  let ?g = "g\<lparr>g_conn := (g_conn g)[i := ?c\<lparr>cn_buffer := db\<rparr>], g_mp := mp\<rparr>"
  have "package_loop g fd (?c\<lparr>cn_buffer := fst ?p\<rparr>) (snd ?p) = Some ([], ?c\<lparr>cn_buffer := db\<rparr>, mp)"
    using r(1) neg assms(6) by (subst package_loop.simps) simp
  then have "ev_data fd [a, b, c, d] g = Some ([], ?g)"
    using assms(1,2) by (simp add: ev_data_def gate_dispatch_message_def case_prod_unfold)
  with gate_events_stuck [of ?g fd i ds] assms(1,2) r(2) neg show ?thesis by auto
qed

theorem gate_negative_length_stalls_witness:
  "\<exists>g'. gate_events (map (Ev_Data 7) [[0x80, 0, 0, 1], [65, 66], [67]]) (demo_gate\<lparr>g_header_size := 4\<rparr>) = Some ([], g') \<and>
     db_stream (cn_buffer (g_conn g' ! 0)) = [65, 66, 67]"
  using gate_negative_length_stalls [of "demo_gate\<lparr>g_header_size := 4\<rparr>" 7 0 "0x80" 0 0 1 "[[65, 66], [67]]"] demo_gate_ok
  by (simp add: conn_ok_def demo_gate_def gate_create_def no_connection_def databuffer_empty_def db_stream_def bit_numeral_rec)

text \<open>Property: when nobody receives the packages of a connection (no broker, no agent, no watchdog) the
  gate drops the length of a package but keeps its body, and goes on to read the body as if it were
  the next package.\<close>

theorem gate_unforwarded_body_is_reread:
  assumes "conn_ok hs c" "conn_pending hs c = l @ rest" "length l = hs" "g_header_size g = hs" "hs = 2 \<or> hs = 4"
    "g_broker g = 0" "cn_agent c = 0" "g_watchdog g = 0"
    "0 < header_value l hs" "header_value l hs < MAX_PACKAGE" "header_value l hs \<le> int (length rest)"
  shows "\<exists>db mp'. package_loop g key c mp = package_loop g key (c\<lparr>cn_buffer := db\<rparr>) mp' \<and>
    conn_pending hs (c\<lparr>cn_buffer := db\<rparr>) = rest"
proof -
  define n where n: "n = header_value l hs"
  from readheader_package [OF assms(1,2,3,5), of mp, folded n] obtain db mp1 where
    r: "databuffer_readheader hs (cn_buffer c) mp = Some (if int (length rest) < n then - 1 else n, db, mp1)"
    "db_inv db" "db_stream db = rest" "db_header db = n" .
  have "gate_forward g (c\<lparr>cn_buffer := db\<rparr>) (nat n) mp1 = Some ([], c\<lparr>cn_buffer := db\<rparr>, mp1)"
    using assms(6-8) by (simp add: gate_forward_def)
  moreover have "Option.bind x (\<lambda>(calls', c2, mp3). Some ([] @ calls', c2, mp3)) = x"
    for x :: "(gate_call list \<times> connection \<times> messagepool) option" by (cases x) auto
  ultimately have "package_loop g key c mp = package_loop g key (c\<lparr>cn_buffer := databuffer_reset db\<rparr>) mp1"
    using r(1) assms(4,9-11) [folded n] by (subst package_loop.simps) simp
  then show ?thesis using r(3) by (intro exI [of _ "databuffer_reset db"] exI [of _ mp1]) (simp add: conn_pending_def databuffer_reset_def)
qed

definition demo_unread :: connection where
  "demo_unread = no_connection\<lparr>cn_id := 7, cn_buffer := \<lparr>db_header = 0, db_offset = 0, db_size = 4, db_msgs = [[0, 2, 0, 1]]\<rparr>\<rparr>"

theorem gate_unforwarded_body_is_reread_witness:
  "\<exists>db mp'. package_loop (gate_create\<lparr>g_header_size := 2\<rparr>) 7 demo_unread (g_mp gate_create) =
     package_loop (gate_create\<lparr>g_header_size := 2\<rparr>) 7 (demo_unread\<lparr>cn_buffer := db\<rparr>) mp' \<and>
     conn_pending 2 (demo_unread\<lparr>cn_buffer := db\<rparr>) = [0, 1]"
  by (rule gate_unforwarded_body_is_reread [where l = "[0, 2]" and hs = 2])
    (simp_all add: demo_unread_def no_connection_def conn_ok_def conn_pending_def db_inv_def db_stream_def gate_create_def header_value_0
       header_value_2 MAX_PACKAGE_def)

end
