(* ===== verification/Net_Pack.thy ===== *)
theory Net_Pack
  imports Packages
begin

text \<open>
  \<^verbatim>\<open>lualib-src/lua-netpack.c\<close>: the module that cuts the data of the sockets into packages for a gate
  written in Lua. The complete packages of one call wait in a ring; the unfinished package of a
  socket waits in a hash table.

  The queue is the userdata at the first position of the Lua stack, and \<open>None\<close> there is the null
  pointer of the first call. Memory from the allocator is a list of cells, \<open>None\<close> is a cell that was
  never written. A function into \<open>option\<close> ends in \<open>None\<close> when an assertion fails or memory outside a block
  is touched.
\<close>

subsection \<open>Memory blocks\<close>

type_synonym mem = "u8 option list"

definition block :: "nat \<Rightarrow> mem" where
  "block n = replicate n None"

definition copy_at :: "mem \<Rightarrow> nat \<Rightarrow> mem \<Rightarrow> mem option" where
  "copy_at buf off bs = (if off + length bs \<le> length buf
     then Some (take off buf @ bs @ drop (off + length bs) buf) else None)"

subsection \<open>Data\<close>

definition QUEUESIZE :: nat where "QUEUESIZE = 1024"
definition HASHSIZE :: nat where "HASHSIZE = 4096"

record netpack =
  np_id :: int
  np_size :: nat
  np_buffer :: mem

record uncomplete =
  uc_pack :: netpack
  uc_read :: int
  uc_header :: int

record queue =
  q_cap :: nat
  q_head :: nat
  q_tail :: nat
  q_hash :: "nat \<Rightarrow> uncomplete list"
  q_queue :: "netpack option list"

text \<open>\<^verbatim>\<open>hash_fd\<close>; the sum of the three ints wraps.\<close>

definition hash_fd :: "int \<Rightarrow> nat" where
  "hash_fd fd = unat (of_int (drop_bit 24 fd + drop_bit 12 fd + fd) :: u32) mod HASHSIZE"

fun unlink_uncomplete :: "int \<Rightarrow> uncomplete list \<Rightarrow> (uncomplete \<times> uncomplete list) option" where
  "unlink_uncomplete fd [] = None"
| "unlink_uncomplete fd (uc # ucs) =
     (if np_id (uc_pack uc) = fd then Some (uc, ucs)
      else map_option (\<lambda>(u, rest). (u, uc # rest)) (unlink_uncomplete fd ucs))"

definition find_uncomplete :: "queue option \<Rightarrow> int \<Rightarrow> uncomplete option \<times> queue option" where
  "find_uncomplete qo fd = (case qo of
     None \<Rightarrow> (None, None)
   | Some q \<Rightarrow> (let h = hash_fd fd in
       case unlink_uncomplete fd (q_hash q h) of
         None \<Rightarrow> (None, Some q)
       | Some (uc, rest) \<Rightarrow> (Some uc, Some (q\<lparr>q_hash := (q_hash q)(h := rest)\<rparr>))))"

definition get_queue :: "queue option \<Rightarrow> queue" where
  "get_queue qo = (case qo of
     Some q \<Rightarrow> q
   | None \<Rightarrow> \<lparr>q_cap = QUEUESIZE, q_head = 0, q_tail = 0, q_hash = (\<lambda>_. []), q_queue = replicate QUEUESIZE None\<rparr>)"

definition np_expand_queue :: "queue \<Rightarrow> queue" where
  "np_expand_queue q =
     \<lparr>q_cap = q_cap q + QUEUESIZE, q_head = 0, q_tail = q_cap q, q_hash = q_hash q,
      q_queue = map (\<lambda>i. q_queue q ! ((q_head q + i) mod q_cap q)) [0..<q_cap q] @ replicate QUEUESIZE None\<rparr>"

definition push_data :: "queue option \<Rightarrow> int \<Rightarrow> mem \<Rightarrow> nat \<Rightarrow> bool \<Rightarrow> queue option" where
  "push_data qo fd buffer sz clone = do {
     c_assert (clone \<longrightarrow> sz \<le> length buffer);
     let q = get_queue qo; buffer = (if clone then take sz buffer else buffer);
         t = q_tail q + 1; t = (if t \<ge> q_cap q then t - q_cap q else t) in do {
     ns \<leftarrow> array_set (q_queue q) (q_tail q) (Some \<lparr>np_id = fd, np_size = sz, np_buffer = buffer\<rparr>);
     let q = q\<lparr>q_queue := ns, q_tail := t\<rparr> in
     Some (if q_head q = q_tail q then np_expand_queue q else q) } }"

text \<open>\<^verbatim>\<open>save_uncomplete\<close> returns a zeroed entry that its caller fills; \<open>fill\<close> is what the caller writes.\<close>

definition save_uncomplete :: "queue option \<Rightarrow> int \<Rightarrow> (uncomplete \<Rightarrow> uncomplete) \<Rightarrow> queue" where
  "save_uncomplete qo fd fill = (
     let q = get_queue qo; h = hash_fd fd;
         uc = \<lparr>uc_pack = \<lparr>np_id = fd, np_size = 0, np_buffer = []\<rparr>, uc_read = 0, uc_header = 0\<rparr> in
     q\<lparr>q_hash := (q_hash q)(h := fill uc # q_hash q h)\<rparr>)"

definition read_size :: "u8 \<Rightarrow> u8 \<Rightarrow> nat" where
  "read_size a b = unat (push_bit 8 (ucast a) OR ucast b :: u32)"

text \<open>What the callers of \<^verbatim>\<open>save_uncomplete\<close> store: the first byte of a length, or a length and the part of
  the body that is there.\<close>

definition save_header :: "queue option \<Rightarrow> int \<Rightarrow> u8 \<Rightarrow> queue" where
  "save_header qo fd b = save_uncomplete qo fd (\<lambda>uc. uc\<lparr>uc_read := - 1, uc_header := uint b\<rparr>)"

definition save_part :: "queue option \<Rightarrow> int \<Rightarrow> nat \<Rightarrow> u8 list \<Rightarrow> queue option" where
  "save_part qo fd pack_size part = do {
     m \<leftarrow> copy_at (block pack_size) 0 (map Some part);
     Some (save_uncomplete qo fd (\<lambda>uc. uc\<lparr>uc_read := int (length part),
             uc_pack := (uc_pack uc)\<lparr>np_size := pack_size, np_buffer := m\<rparr>\<rparr>)) }"

function push_more :: "queue option \<Rightarrow> int \<Rightarrow> u8 list \<Rightarrow> queue option" where
  "push_more qo fd buffer = (case buffer of
     [] \<Rightarrow> None
   | [b] \<Rightarrow> Some (save_header qo fd b)
   | a # b # rest \<Rightarrow> (
       let pack_size = read_size a b in
       if length rest < pack_size then save_part qo fd pack_size rest
       else do {
         q \<leftarrow> push_data qo fd (map Some rest) pack_size True;
         if length rest - pack_size > 0 then push_more (Some q) fd (drop pack_size rest) else Some q }))"
  by pat_completeness auto
termination by (relation "measure (\<lambda>(_, _, bs). length bs)") auto

declare push_more.simps [simp del]

definition close_uncomplete :: "queue option \<Rightarrow> int \<Rightarrow> queue option" where
  "close_uncomplete qo fd = snd (find_uncomplete qo fd)"

subsection \<open>The filter\<close>

datatype filter_result =
    No_Message
  | Data int mem nat
  | More
  | Error int string
  | Open int string
  | Close int
  | Warning int int

text \<open>The branch of \<^verbatim>\<open>filter_data_\<close> that fills an unfinished package, after its length is known.\<close>

definition fill_uncomplete :: "queue option \<Rightarrow> int \<Rightarrow> uncomplete \<Rightarrow> u8 list \<Rightarrow> (filter_result \<times> queue option) option" where
  "fill_uncomplete qo fd uc buffer = (
     let need = int (np_size (uc_pack uc)) - uc_read uc; pack = uc_pack uc in
     if int (length buffer) < need then do {
       m \<leftarrow> copy_at (np_buffer pack) (nat (uc_read uc)) (map Some buffer);
       q \<leftarrow> qo;
       let h = hash_fd fd;
           uc = uc\<lparr>uc_pack := pack\<lparr>np_buffer := m\<rparr>, uc_read := uc_read uc + int (length buffer)\<rparr> in
       Some (No_Message, Some (q\<lparr>q_hash := (q_hash q)(h := uc # q_hash q h)\<rparr>)) }
     else do {
       m \<leftarrow> copy_at (np_buffer pack) (nat (uc_read uc)) (map Some (take (nat need) buffer));
       let rest = drop (nat need) buffer in
       if rest = [] then Some (Data fd m (np_size pack), qo)
       else do {
         q \<leftarrow> push_data qo fd m (np_size pack) False;
         q \<leftarrow> push_more (Some q) fd rest;
         Some (More, Some q) } })"

text \<open>An entry whose length is not complete takes the next byte for it.\<close>

definition read_header :: "uncomplete \<Rightarrow> u8 list \<Rightarrow> (uncomplete \<times> u8 list) option" where
  "read_header uc buffer =
     (if uc_read uc < 0 then do {
        c_assert (uc_read uc = - 1);
        c_assert (buffer \<noteq> []);
        let pack_size = unat (ucast (hd buffer) OR push_bit 8 (of_int (uc_header uc)) :: u32) in
        Some (uc\<lparr>uc_pack := (uc_pack uc)\<lparr>np_size := pack_size, np_buffer := block pack_size\<rparr>, uc_read := 0\<rparr>, tl buffer) }
      else Some (uc, buffer))"

definition filter_data :: "queue option \<Rightarrow> int \<Rightarrow> u8 list \<Rightarrow> (filter_result \<times> queue option) option" where
  "filter_data qo fd buffer = (case find_uncomplete qo fd of
     (Some uc, qo) \<Rightarrow> do {
       (uc, buffer) \<leftarrow> read_header uc buffer;
       fill_uncomplete qo fd uc buffer }
   | (None, qo) \<Rightarrow> (case buffer of
       [] \<Rightarrow> None
     | [b] \<Rightarrow> Some (No_Message, Some (save_header qo fd b))
     | a # b # rest \<Rightarrow> (
         let pack_size = read_size a b in
         if length rest < pack_size then do { q \<leftarrow> save_part qo fd pack_size rest; Some (No_Message, Some q) }
         else if length rest = pack_size then do {
           m \<leftarrow> copy_at (block pack_size) 0 (map Some rest);
           Some (Data fd m pack_size, qo) }
         else do {
           q \<leftarrow> push_data qo fd (map Some rest) pack_size True;
           q \<leftarrow> push_more (Some q) fd (drop pack_size rest);
           Some (More, Some q) })))"

text \<open>A message of the socket layer: either a separate buffer with \<^verbatim>\<open>ud\<close> bytes, or none and a text behind
  the message.\<close>

record skynet_socket_message =
  sm_type :: nat
  sm_id :: int
  sm_ud :: int
  sm_buffer :: "u8 list option"
  sm_padding :: string

definition SKYNET_SOCKET_TYPE_DATA :: nat where "SKYNET_SOCKET_TYPE_DATA = 1"
definition SKYNET_SOCKET_TYPE_CONNECT :: nat where "SKYNET_SOCKET_TYPE_CONNECT = 2"
definition SKYNET_SOCKET_TYPE_CLOSE :: nat where "SKYNET_SOCKET_TYPE_CLOSE = 3"
definition SKYNET_SOCKET_TYPE_ACCEPT :: nat where "SKYNET_SOCKET_TYPE_ACCEPT = 4"
definition SKYNET_SOCKET_TYPE_ERROR :: nat where "SKYNET_SOCKET_TYPE_ERROR = 5"
definition SKYNET_SOCKET_TYPE_WARNING :: nat where "SKYNET_SOCKET_TYPE_WARNING = 7"

text \<open>\<^verbatim>\<open>pushstring\<close> of the padding; with a separate buffer the size is -1 and the copy fails.\<close>

definition push_padding :: "skynet_socket_message \<Rightarrow> string option" where
  "push_padding m = (case sm_buffer m of None \<Rightarrow> Some (sm_padding m) | Some _ \<Rightarrow> None)"

definition lfilter :: "queue option \<Rightarrow> skynet_socket_message \<Rightarrow> (filter_result \<times> queue option) option" where
  "lfilter qo m =
     (if sm_type m = SKYNET_SOCKET_TYPE_DATA then do {
        buffer \<leftarrow> sm_buffer m;
        c_assert (0 \<le> sm_ud m \<and> nat (sm_ud m) \<le> length buffer);
        filter_data qo (sm_id m) (take (nat (sm_ud m)) buffer) }
      else if sm_type m = SKYNET_SOCKET_TYPE_CONNECT then Some (No_Message, qo)
      else if sm_type m = SKYNET_SOCKET_TYPE_CLOSE then Some (Close (sm_id m), close_uncomplete qo (sm_id m))
      else if sm_type m = SKYNET_SOCKET_TYPE_ACCEPT then do {
        name \<leftarrow> push_padding m;
        Some (Open (sm_ud m) name, qo) }
      else if sm_type m = SKYNET_SOCKET_TYPE_ERROR then do {
        err \<leftarrow> push_padding m;
        Some (Error (sm_id m) err, close_uncomplete qo (sm_id m)) }
      else if sm_type m = SKYNET_SOCKET_TYPE_WARNING then Some (Warning (sm_id m) (sm_ud m), qo)
      else Some (No_Message, qo))"

subsection \<open>Taking packages out\<close>

definition lpop :: "queue option \<Rightarrow> (netpack option \<times> queue option) option" where
  "lpop qo = (case qo of
     None \<Rightarrow> Some (None, None)
   | Some q \<Rightarrow>
       if q_head q = q_tail q then Some (None, Some q)
       else do {
         cell \<leftarrow> array_get (q_queue q) (q_head q);
         np \<leftarrow> cell;
         let h = q_head q + 1 in
         Some (Some np, Some (q\<lparr>q_head := (if h \<ge> q_cap q then 0 else h)\<rparr>)) })"

text \<open>\<^verbatim>\<open>lclear\<close> with the buffers it frees.\<close>

definition lclear :: "queue option \<Rightarrow> mem list \<times> queue option" where
  "lclear qo = (case qo of
     None \<Rightarrow> ([], None)
   | Some q \<Rightarrow> (
       let t = (if q_head q > q_tail q then q_tail q + q_cap q else q_tail q);
           parts = concat (map (\<lambda>i. map (\<lambda>uc. np_buffer (uc_pack uc)) (q_hash q i)) [0..<HASHSIZE]);
           packs = map (\<lambda>i. case q_queue q ! (i mod q_cap q) of Some np \<Rightarrow> np_buffer np | None \<Rightarrow> []) [q_head q..<t] in
       (parts @ packs,
        Some (q\<lparr>q_hash := (\<lambda>i. if i < HASHSIZE then [] else q_hash q i), q_head := 0, q_tail := 0\<rparr>))))"

definition write_size :: "nat \<Rightarrow> u8 list" where
  "write_size len = [of_nat (drop_bit 8 len AND 0xff), of_nat (len AND 0xff)]"

datatype pack_error = Too_Long

text \<open>\<^verbatim>\<open>lpack\<close> of a string or of a block with its length, and \<^verbatim>\<open>ltostring\<close>, which copies a block and frees it.\<close>

definition lpack :: "u8 list \<Rightarrow> pack_error + u8 list" where
  "lpack msg = (if length msg \<ge> 0x10000 then Inl Too_Long else Inr (write_size (length msg) @ msg))"

definition ltostring :: "mem option \<Rightarrow> nat \<Rightarrow> u8 list option" where
  "ltostring ptr sz = (case ptr of
     None \<Rightarrow> Some []
   | Some m \<Rightarrow> do {
       c_assert (sz \<le> length m);
       those (take sz m) })"

subsection \<open>The ring of packages\<close>

definition np_list :: "queue \<Rightarrow> netpack list" where
  "np_list q = map the (ring_slice (q_queue q) (q_head q) (ring_len (q_head q) (q_tail q) (q_cap q)))"

definition ring_ok :: "queue \<Rightarrow> bool" where
  "ring_ok q \<longleftrightarrow> q_head q < q_cap q \<and> q_tail q < q_cap q \<and> length (q_queue q) = q_cap q \<and>
     None \<notin> set (ring_slice (q_queue q) (q_head q) (ring_len (q_head q) (q_tail q) (q_cap q)))"

lemma ring_hash_update [simp]: "ring_ok (q\<lparr>q_hash := t\<rparr>) = ring_ok q" "np_list (q\<lparr>q_hash := t\<rparr>) = np_list q"
  by (simp_all add: ring_ok_def np_list_def)

lemma ring_empty [simp]: "ring_ok (get_queue None)" "np_list (get_queue None) = []"
  by (simp_all add: get_queue_def ring_ok_def np_list_def ring_len_def QUEUESIZE_def)

lemma get_queue_Some [simp]: "get_queue (Some q) = q"
  by (simp add: get_queue_def)

lemma get_queue_idem: "push_data (Some (get_queue qo)) = push_data qo" "save_uncomplete (Some (get_queue qo)) = save_uncomplete qo"
  by (simp_all add: push_data_def save_uncomplete_def fun_eq_iff)

lemma push_data_ok:
  assumes "ring_ok (get_queue qo)" "clone \<Longrightarrow> sz \<le> length buf"
  obtains q where "push_data qo fd buf sz clone = Some q" "ring_ok q" "q_hash q = q_hash (get_queue qo)"
    "np_list q = np_list (get_queue qo) @ [\<lparr>np_id = fd, np_size = sz, np_buffer = if clone then take sz buf else buf\<rparr>]"
proof -
  let ?q = "get_queue qo" and ?p = "\<lparr>np_id = fd, np_size = sz, np_buffer = if clone then take sz buf else buf\<rparr>"
  let ?h = "q_head ?q" and ?t = "q_tail ?q" and ?c = "q_cap ?q"
  let ?xs = "(q_queue ?q)[?t := Some ?p]" and ?n = "ring_len ?h ?t ?c"
  from assms(1) have r: "?h < ?c" "?t < ?c" "length (q_queue ?q) = ?c" "None \<notin> set (ring_slice (q_queue ?q) ?h ?n)"
    by (simp_all add: ring_ok_def)
  have sl: "ring_slice ?xs ?h (Suc ?n) = ring_slice (q_queue ?q) ?h ?n @ [Some ?p]"
    by (rule ring_slice_push [OF r(3,1,2)])
  let ?q1 = "?q\<lparr>q_queue := ?xs, q_tail := ring_next ?t ?c\<rparr>"
  have tl: "(if ?c \<le> Suc ?t then Suc ?t - ?c else Suc ?t) = ring_next ?t ?c"
    using r(2) by (auto simp: ring_next_def)
  have eval: "push_data qo fd buf sz clone = Some (if ?h = ring_next ?t ?c then np_expand_queue ?q1 else ?q1)"
    using assms(2) r(2,3) by (simp add: push_data_def Let_def tl)
  show thesis
  proof (cases "?h = ring_next ?t ?c")
    case False
    then have "ring_ok ?q1" "np_list ?q1 = np_list ?q @ [?p]"
      using r sl ring_len_push [OF r(1,2) False] by (simp_all add: ring_ok_def np_list_def)
    with eval False that show thesis by simp
  next
    case True
    have n: "Suc ?n = ?c" by (rule ring_len_full [OF r(1,2) True])
    let ?q2 = "np_expand_queue ?q1"
    have exp: "q_queue ?q2 = ring_slice ?xs ?h ?c @ replicate QUEUESIZE None"
      using r(3) by (simp add: np_expand_queue_def ring_slice_def)
    have "ring_slice (q_queue ?q2) 0 ?c = ring_slice (q_queue ?q) ?h ?n @ [Some ?p]"
      unfolding exp sl [symmetric] n by (rule ring_slice_expand) (simp_all add: r(3))
    moreover have "q_head ?q2 = 0" "q_tail ?q2 = ?c" "q_cap ?q2 = ?c + QUEUESIZE" "q_hash ?q2 = q_hash ?q"
      "ring_len 0 ?c (?c + QUEUESIZE) = ?c"
      by (simp_all add: np_expand_queue_def ring_len_def)
    moreover have "length (q_queue ?q2) = q_cap ?q2" by (simp add: np_expand_queue_def)
    ultimately have "ring_ok ?q2" "np_list ?q2 = np_list ?q @ [?p]" "q_hash ?q2 = q_hash ?q"
      using r(4) by (simp_all add: ring_ok_def np_list_def QUEUESIZE_def)
    with eval True that show thesis by simp
  qed
qed

lemma lpop_empty: "ring_ok q \<Longrightarrow> np_list q = [] \<Longrightarrow> lpop (Some q) = Some (None, Some q)"
  using ring_len_eq_0 [of "q_head q" "q_cap q" "q_tail q"]
  by (simp add: ring_ok_def np_list_def lpop_def) (metis length_0_conv length_ring_slice)

lemma lpop_cons:
  assumes "ring_ok q" "np_list q = x # xs"
  obtains q' where "lpop (Some q) = Some (Some x, Some q')" "ring_ok q'" "np_list q' = xs" "q_hash q' = q_hash q"
proof -
  from assms(1) have r: "q_head q < q_cap q" "q_tail q < q_cap q" "length (q_queue q) = q_cap q" by (simp_all add: ring_ok_def)
  have ne: "q_head q \<noteq> q_tail q" using assms(2) by (auto simp: np_list_def ring_len_def)
  note len = ring_len_pop [OF r(1,2) ne]
  note sl = ring_slice_pop [OF r(3,1), of "ring_len (ring_next (q_head q) (q_cap q)) (q_tail q) (q_cap q)"]
  let ?q = "q\<lparr>q_head := ring_next (q_head q) (q_cap q)\<rparr>"
  from assms sl len have x: "q_queue q ! q_head q = Some x" "np_list ?q = xs" "ring_ok ?q"
    using r by (auto simp: np_list_def ring_ok_def)
  have "lpop (Some q) = Some (Some x, Some ?q)" using ne r x(1) by (simp add: lpop_def ring_next_def Let_def)
  with x that show thesis by simp
qed

text \<open>The ring is a second implementation of the first-in first-out interface.\<close>

definition np_enqueue :: "netpack \<Rightarrow> queue \<Rightarrow> queue option" where
  "np_enqueue p q = push_data (Some q) (np_id p) (np_buffer p) (np_size p) False"

definition np_dequeue :: "queue \<Rightarrow> (netpack option \<times> queue) option" where
  "np_dequeue q = do { (r, qo) \<leftarrow> lpop (Some q); q' \<leftarrow> qo; Some (r, q') }"

interpretation np: fifo np_enqueue np_dequeue np_list ring_ok
proof
  fix q x
  assume "ring_ok q"
  then have ok: "ring_ok (get_queue (Some q))" by simp
  show "\<exists>q'. np_enqueue x q = Some q' \<and> ring_ok q' \<and> np_list q' = np_list q @ [x]"
    by (rule push_data_ok [OF ok, of False "np_size x" "np_buffer x" "np_id x"]) (simp_all add: np_enqueue_def)
next
  fix q
  assume "ring_ok q" "np_list q = []"
  then show "\<exists>q'. np_dequeue q = Some (None, q') \<and> ring_ok q' \<and> np_list q' = []"
    by (simp add: np_dequeue_def lpop_empty)
next
  fix q x xs
  assume "ring_ok q" "np_list q = x # xs"
  then show "\<exists>q'. np_dequeue q = Some (Some x, q') \<and> ring_ok q' \<and> np_list q' = xs"
    by (auto simp: np_dequeue_def elim: lpop_cons)
qed

subsection \<open>The table of unfinished packages\<close>

abbreviation uc_id :: "uncomplete \<Rightarrow> int" where
  "uc_id uc \<equiv> np_id (uc_pack uc)"

definition be2 :: "nat \<Rightarrow> u8 list" where
  "be2 n = [of_nat (n div 256), of_nat (n mod 256)]"

text \<open>The bytes of the stream that an entry stands for, and what is always true of an entry.\<close>

definition uc_bytes :: "uncomplete \<Rightarrow> u8 list" where
  "uc_bytes uc = (if uc_read uc < 0 then [of_int (uc_header uc)]
     else be2 (np_size (uc_pack uc)) @ map the (take (nat (uc_read uc)) (np_buffer (uc_pack uc))))"

definition uc_ok :: "uncomplete \<Rightarrow> bool" where
  "uc_ok uc \<longleftrightarrow> (uc_read uc = - 1 \<and> 0 \<le> uc_header uc \<and> uc_header uc < 256) \<or>
     (\<exists>bs. uc_read uc = int (length bs) \<and> length bs < np_size (uc_pack uc) \<and> np_size (uc_pack uc) < 65536 \<and>
        np_buffer (uc_pack uc) = map Some bs @ block (np_size (uc_pack uc) - length bs))"

definition entry :: "queue \<Rightarrow> int \<Rightarrow> uncomplete option" where
  "entry q fd = find (\<lambda>uc. uc_id uc = fd) (q_hash q (hash_fd fd))"

definition q_pending :: "queue \<Rightarrow> int \<Rightarrow> u8 list" where
  "q_pending q fd = (case entry q fd of None \<Rightarrow> [] | Some uc \<Rightarrow> uc_bytes uc)"

definition table_ok :: "queue \<Rightarrow> bool" where
  "table_ok q \<longleftrightarrow> (\<forall>h. distinct (map uc_id (q_hash q h)) \<and> (\<forall>uc \<in> set (q_hash q h). hash_fd (uc_id uc) = h \<and> uc_ok uc))"

lemma unlink_uncomplete_find:
  "distinct (map uc_id ucs) \<Longrightarrow> unlink_uncomplete fd ucs =
     map_option (\<lambda>uc. (uc, filter (\<lambda>u. uc_id u \<noteq> fd) ucs)) (find (\<lambda>u. uc_id u = fd) ucs)"
proof (induction ucs)
  case (Cons uc ucs)
  have "filter (\<lambda>u. uc_id u \<noteq> fd) ucs = ucs" if "uc_id uc = fd"
    using Cons.prems that by (auto intro!: filter_True simp: image_iff)
  with Cons show ?case by (auto simp: option.map_comp o_def split_def)
qed simp

lemma find_filter_other: "fd' \<noteq> fd \<Longrightarrow> find (\<lambda>u. uc_id u = fd') (filter (\<lambda>u. uc_id u \<noteq> fd) ucs) = find (\<lambda>u. uc_id u = fd') ucs"
  by (induction ucs) auto

lemma find_filter_same: "find (\<lambda>u. uc_id u = fd) (filter (\<lambda>u. uc_id u \<noteq> fd) ucs) = None"
  by (auto simp: find_None_iff)

lemma find_SomeD: "find P xs = Some x \<Longrightarrow> P x \<and> x \<in> set xs"
  by (auto simp: find_Some_iff)

text \<open>Taking an entry out.\<close>

lemma find_uncomplete_ok:
  assumes "table_ok (get_queue qo)"
  obtains qo' where "find_uncomplete qo fd = (entry (get_queue qo) fd, qo')" "table_ok (get_queue qo')"
    "entry (get_queue qo') = (entry (get_queue qo))(fd := None)" "\<exists>t. get_queue qo' = (get_queue qo)\<lparr>q_hash := t\<rparr>"
    "qo' = None \<longrightarrow> qo = None"
proof (cases qo)
  case None
  then have "find_uncomplete qo fd = (entry (get_queue qo) fd, None)" "entry (get_queue qo) = (\<lambda>_. None)"
    by (auto simp: find_uncomplete_def entry_def get_queue_def)
  moreover have "\<exists>t. get_queue None = (get_queue None)\<lparr>q_hash := t\<rparr>" by (rule exI [of _ "q_hash (get_queue None)"]) simp
  ultimately show thesis
    using assms None by (intro that [of None]) auto
next
  case (Some q)
  let ?h = "hash_fd fd"
  have d: "distinct (map uc_id (q_hash q ?h))" using assms Some by (simp add: table_ok_def)
  show thesis
  proof (cases "entry q fd")
    case None
    then have "find_uncomplete qo fd = (None, Some q)"
      using unlink_uncomplete_find [OF d, of fd] Some by (simp add: find_uncomplete_def entry_def Let_def)
    moreover have "\<exists>t. q = q\<lparr>q_hash := t\<rparr>" by (rule exI [of _ "q_hash q"]) simp
    ultimately show thesis
      using that [of "Some q"] assms Some None by (simp add: fun_upd_idem)
  next
    case (Some uc)
    let ?q = "q\<lparr>q_hash := (q_hash q)(?h := filter (\<lambda>u. uc_id u \<noteq> fd) (q_hash q ?h))\<rparr>"
    have "find_uncomplete qo fd = (Some uc, Some ?q)"
      using unlink_uncomplete_find [OF d, of fd] Some \<open>qo = Some q\<close> by (simp add: find_uncomplete_def entry_def Let_def)
    moreover have "table_ok ?q" using assms \<open>qo = Some q\<close> by (auto simp: table_ok_def distinct_map_filter)
    moreover have "entry ?q = (entry q)(fd := None)"
      by (auto simp: entry_def fun_eq_iff find_filter_same find_filter_other)
    ultimately show thesis using that [of "Some ?q"] Some \<open>qo = Some q\<close> by auto
  qed
qed

text \<open>Putting an entry in front of its chain.\<close>

definition put_entry :: "queue \<Rightarrow> uncomplete \<Rightarrow> queue" where
  "put_entry q uc = q\<lparr>q_hash := (q_hash q)(hash_fd (uc_id uc) := uc # q_hash q (hash_fd (uc_id uc)))\<rparr>"

lemma put_entry_ring [simp]: "ring_ok (put_entry q uc) = ring_ok q" "np_list (put_entry q uc) = np_list q"
  by (simp_all add: put_entry_def)

lemma put_entry_ok:
  assumes "table_ok q" "entry q (uc_id uc) = None" "uc_ok uc"
  shows "table_ok (put_entry q uc)" "q_pending (put_entry q uc) = (q_pending q)(uc_id uc := uc_bytes uc)"
proof -
  have "uc_id uc \<notin> set (map uc_id (q_hash q (hash_fd (uc_id uc))))"
    using assms(2) by (auto simp: entry_def find_None_iff)
  then show "table_ok (put_entry q uc)" using assms(1,3) by (auto simp: table_ok_def put_entry_def)
  have "entry (put_entry q uc) = (entry q)(uc_id uc := Some uc)"
    by (auto simp: entry_def put_entry_def fun_eq_iff)
  then show "q_pending (put_entry q uc) = (q_pending q)(uc_id uc := uc_bytes uc)"
    by (simp add: q_pending_def fun_eq_iff)
qed

subsection \<open>Packages and their headers\<close>

definition packet :: "int \<Rightarrow> u8 list \<Rightarrow> netpack" where
  "packet fd body = \<lparr>np_id = fd, np_size = length body, np_buffer = map Some body\<rparr>"

definition q_inv :: "queue \<Rightarrow> bool" where
  "q_inv q \<longleftrightarrow> ring_ok q \<and> table_ok q"

lemma read_size_eq [simp]: "read_size a b = unat a * 256 + unat b"
  by (simp add: read_size_def unat_be2)

lemma be2_bytes: "be2 (unat a * 256 + unat b) = [a, b]"
  using unat_u8_less [of b] by (simp add: be2_def)

lemma be2_less: "unat (a :: u8) * 256 + unat (b :: u8) < 65536"
  using unat_u8_less [of a] unat_u8_less [of b] by simp

lemma split_be2:
  assumes "n < 65536"
  shows "split_packages (be2 n @ bs) = (if n \<le> length bs
     then (take n bs # fst (split_packages (drop n bs)), snd (split_packages (drop n bs))) else ([], be2 n @ bs))"
proof -
  let ?a = "of_nat (n div 256) :: u8" and ?b = "of_nat (n mod 256) :: u8"
  have "n div 256 < 256" using assms by (simp add: div_less_iff_less_mult)
  then have "unat ?a = n div 256" "unat ?b = n mod 256"
    by (simp_all add: unsigned_of_nat take_bit_nat_eq_self)
  then have n: "n = unat ?a * 256 + unat ?b" by simp
  show ?thesis
    using split_packages_take [OF n] split_packages_wait [of bs ?a ?b] n by (auto simp: be2_def)
qed

lemma copy_at_fill:
  assumes "length bs + length cs \<le> n"
  shows "copy_at (map Some bs @ block (n - length bs)) (length bs) (map Some cs) =
    Some (map Some (bs @ cs) @ block (n - length (bs @ cs)))"
  using assms by (simp add: copy_at_def block_def)

lemma copy_at_block: "length cs \<le> n \<Longrightarrow> copy_at (block n) 0 (map Some cs) = Some (map Some cs @ block (n - length cs))"
  using copy_at_fill [of "[]" cs n] by simp

lemma save_header_put: "save_header qo fd b = put_entry (get_queue qo)
    \<lparr>uc_pack = \<lparr>np_id = fd, np_size = 0, np_buffer = []\<rparr>, uc_read = - 1, uc_header = uint b\<rparr>"
  by (simp add: save_header_def save_uncomplete_def put_entry_def Let_def)

lemma save_header_ok:
  assumes "q_inv (get_queue qo)" "entry (get_queue qo) fd = None"
  shows "q_inv (save_header qo fd b)" "np_list (save_header qo fd b) = np_list (get_queue qo)"
    "q_pending (save_header qo fd b) = (q_pending (get_queue qo))(fd := [b])"
proof -
  let ?uc = "\<lparr>uc_pack = \<lparr>np_id = fd, np_size = 0, np_buffer = []\<rparr>, uc_read = - 1, uc_header = uint b\<rparr>"
  have "uint b < 256" using uint_lt2p [of b] by simp
  then have uc: "uc_ok ?uc" by (simp add: uc_ok_def)
  have "table_ok (get_queue qo)" "entry (get_queue qo) (uc_id ?uc) = None" "ring_ok (get_queue qo)"
    using assms by (simp_all add: q_inv_def)
  note put = put_entry_ok [OF this(1,2) uc] this(3)
  have "uc_bytes ?uc = [b]" by (simp add: uc_bytes_def)
  with put show "q_inv (save_header qo fd b)" "np_list (save_header qo fd b) = np_list (get_queue qo)"
    "q_pending (save_header qo fd b) = (q_pending (get_queue qo))(fd := [b])"
    unfolding save_header_put q_inv_def by simp_all
qed

text \<open>An entry with a part of its body.\<close>

definition part_entry :: "int \<Rightarrow> nat \<Rightarrow> u8 list \<Rightarrow> int \<Rightarrow> uncomplete" where
  "part_entry fd n bs hh = \<lparr>uc_pack = \<lparr>np_id = fd, np_size = n, np_buffer = map Some bs @ block (n - length bs)\<rparr>,
     uc_read = int (length bs), uc_header = hh\<rparr>"

lemma part_entry_simps [simp]:
  "uc_id (part_entry fd n bs hh) = fd" "np_size (uc_pack (part_entry fd n bs hh)) = n"
  "uc_read (part_entry fd n bs hh) = int (length bs)" "uc_bytes (part_entry fd n bs hh) = be2 n @ bs"
  "np_buffer (uc_pack (part_entry fd n bs hh)) = map Some bs @ block (n - length bs)"
  by (simp_all add: part_entry_def uc_bytes_def)

lemma part_entry_ok: "length bs < n \<Longrightarrow> n < 65536 \<Longrightarrow> uc_ok (part_entry fd n bs hh)"
  by (auto simp: uc_ok_def part_entry_def)

lemma save_part_ok:
  assumes "q_inv (get_queue qo)" "entry (get_queue qo) fd = None" "length bs < n" "n < 65536"
  obtains q where "save_part qo fd n bs = Some q" "q_inv q" "np_list q = np_list (get_queue qo)"
    "q_pending q = (q_pending (get_queue qo))(fd := be2 n @ bs)"
proof -
  let ?q = "put_entry (get_queue qo) (part_entry fd n bs 0)"
  have "save_part qo fd n bs = Some ?q"
    using assms(3) by (simp add: save_part_def copy_at_block save_uncomplete_def put_entry_def part_entry_def Let_def)
  with assms put_entry_ok [of "get_queue qo" "part_entry fd n bs 0"] part_entry_ok [OF assms(3,4), of fd 0] show thesis
    by (intro that [of ?q]) (simp_all add: q_inv_def)
qed

lemma push_clone_ok:
  assumes "q_inv (get_queue qo)" "n \<le> length rest"
  obtains q where "push_data qo fd (map Some rest) n True = Some q" "q_inv q"
    "np_list q = np_list (get_queue qo) @ [packet fd (take n rest)]" "entry q = entry (get_queue qo)"
    "q_pending q = q_pending (get_queue qo)"
proof -
  have ok: "ring_ok (get_queue qo)" "True \<Longrightarrow> n \<le> length (map Some rest)" using assms by (simp_all add: q_inv_def)
  from push_data_ok [OF this, where fd = fd] obtain q where
    q: "push_data qo fd (map Some rest) n True = Some q" "ring_ok q" "q_hash q = q_hash (get_queue qo)"
    "np_list q = np_list (get_queue qo) @ [\<lparr>np_id = fd, np_size = n,
        np_buffer = if True then take n (map Some rest) else map Some rest\<rparr>]" .
  have e: "entry q = entry (get_queue qo)" using q(3) by (simp add: entry_def fun_eq_iff)
  then have "q_pending q = q_pending (get_queue qo)" "table_ok q"
    using assms(1) q(3) by (simp_all add: q_pending_def q_inv_def table_ok_def fun_eq_iff)
  with q e assms(2) show thesis by (intro that [of q]) (simp_all add: q_inv_def packet_def take_map)
qed

text \<open>The rest of a piece of data after a package was completed.\<close>

lemma push_more_ok:
  assumes "q_inv (get_queue qo)" "entry (get_queue qo) fd = None" "buffer \<noteq> []"
  shows "\<exists>q. push_more qo fd buffer = Some q \<and> q_inv q \<and>
    np_list q = np_list (get_queue qo) @ map (packet fd) (fst (split_packages buffer)) \<and>
    q_pending q = (q_pending (get_queue qo))(fd := snd (split_packages buffer))"
  using assms
proof (induction buffer arbitrary: qo rule: split_packages.induct)
  case (1 buffer)
  show ?case
  proof (cases "2 \<le> length buffer")
    case False
    with "1.prems"(3) obtain b where "buffer = [b]" by (cases buffer; cases "tl buffer") auto
    then show ?thesis
      using save_header_ok [OF "1.prems"(1,2), of b] by (simp add: push_more.simps [of qo fd "[b]"] split_packages_short fun_upd_def)
  next
    case True
    then obtain a b rest where bs: "buffer = a # b # rest" using take_2 by blast
    define n where n: "n = unat a * 256 + unat b"
    have ab: "be2 n = [a, b]" "n < 65536" unfolding n by (rule be2_bytes be2_less)+
    show ?thesis
    proof (cases "n \<le> length rest")
      case False
      then have "length rest < n" by simp
      from save_part_ok [OF "1.prems"(1,2) this ab(2)] obtain q where
        "save_part qo fd n rest = Some q" "q_inv q" "np_list q = np_list (get_queue qo)"
        "q_pending q = (q_pending (get_queue qo))(fd := be2 n @ rest)" .
      with False show ?thesis
        using split_packages_wait [of rest a b] by (simp add: push_more.simps [of qo fd "a # b # rest"] bs ab(1) n [symmetric] fun_upd_def)
    next
      case fits: True
      from push_clone_ok [OF "1.prems"(1) fits, where fd = fd] obtain q where
        q: "push_data qo fd (map Some rest) n True = Some q" "q_inv q"
        "np_list q = np_list (get_queue qo) @ [packet fd (take n rest)]" "entry q = entry (get_queue qo)"
        "q_pending q = q_pending (get_queue qo)" .
      note split = split_packages_take [OF n fits]
      have step: "push_more qo fd buffer = (if length rest - n > 0 then push_more (Some q) fd (drop n rest) else Some q)"
        using q(1) fits by (simp add: push_more.simps [of qo fd "a # b # rest"] bs n [symmetric])
      show ?thesis
      proof (cases "drop n rest = []")
        case True
        have "q_pending q = (q_pending q)(fd := [])" using "1.prems"(2) q(4) by (simp add: q_pending_def fun_upd_idem)
        with True step q split show ?thesis by (simp add: bs split_packages_short)
      next
        case False
        have "entry (get_queue (Some q)) fd = None" "q_inv (get_queue (Some q))" using q "1.prems"(2) by simp_all
        with "1.IH" [OF bs refl n fits, of "Some q"] False q step split show ?thesis by (simp add: bs)
      qed
    qed
  qed
qed

text \<open>What a call of the filter means for the packages of the stream: it answers nothing, or the one
  package itself, or it has put all of them into the ring.\<close>

definition delivers :: "int \<Rightarrow> u8 list list \<Rightarrow> queue \<Rightarrow> filter_result \<Rightarrow> queue \<Rightarrow> bool" where
  "delivers fd ps q r q' \<longleftrightarrow>
     (case r of
        No_Message \<Rightarrow> ps = [] \<and> np_list q' = np_list q
      | Data fd' m sz \<Rightarrow> fd' = fd \<and> ps = [map the m] \<and> \<lparr>np_id = fd', np_size = sz, np_buffer = m\<rparr> = packet fd (map the m) \<and>
          np_list q' = np_list q
      | More \<Rightarrow> np_list q' = np_list q @ map (packet fd) ps
      | _ \<Rightarrow> False)"

lemma delivers_same: "np_list q = np_list q2 \<Longrightarrow> delivers fd ps q r q' = delivers fd ps q2 r q'"
  by (cases r) (simp_all add: delivers_def)

text \<open>Filling an entry whose length is known.\<close>

lemma fill_ok:
  assumes inv: "q_inv q" and free: "entry q fd = None" and n: "n < 65536" "length bs \<le> n"
    and live: "length bs < n \<or> n = 0"
  shows "\<exists>r qo'. fill_uncomplete (Some q) fd (part_entry fd n bs hh) buffer = Some (r, qo') \<and> q_inv (get_queue qo') \<and>
    delivers fd (fst (split_packages (be2 n @ bs @ buffer))) q r (get_queue qo') \<and>
    q_pending (get_queue qo') = (q_pending q)(fd := snd (split_packages (be2 n @ bs @ buffer)))"
proof (cases "length bs + length buffer < n")
  case True
  let ?uc = "part_entry fd n (bs @ buffer) hh"
  have "copy_at (np_buffer (uc_pack (part_entry fd n bs hh))) (length bs) (map Some buffer) =
      Some (map Some (bs @ buffer) @ block (n - length (bs @ buffer)))"
    using copy_at_fill [of bs buffer n] True by simp
  then have "fill_uncomplete (Some q) fd (part_entry fd n bs hh) buffer = Some (No_Message, Some (put_entry q ?uc))"
    using True by (simp add: fill_uncomplete_def put_entry_def part_entry_def Let_def)
  moreover have "uc_ok ?uc" using True n by (intro part_entry_ok) simp_all
  ultimately show ?thesis
    using put_entry_ok [of q ?uc] inv free True split_be2 [OF n(1), of "bs @ buffer"]
    by (auto simp: q_inv_def delivers_def)
next
  case False
  let ?need = "n - length bs"
  have nd: "nat (int n - int (length bs)) = ?need" by simp
  let ?body = "bs @ take ?need buffer" and ?rest = "drop ?need buffer"
  have body: "length ?body = n" "take n (bs @ buffer) = ?body" "drop n (bs @ buffer) = ?rest"
    using False n(2) by simp_all
  have split: "split_packages (be2 n @ bs @ buffer) = (?body # fst (split_packages ?rest), snd (split_packages ?rest))"
    using split_be2 [OF n(1), of "bs @ buffer"] False body by simp
  have copy: "copy_at (np_buffer (uc_pack (part_entry fd n bs hh))) (length bs) (map Some (take ?need buffer)) = Some (map Some ?body)"
    using copy_at_fill [of bs "take ?need buffer" n] body(1) by (simp add: block_def)
  have run: "fill_uncomplete (Some q) fd (part_entry fd n bs hh) buffer =
     (if ?rest = [] then Some (Data fd (map Some ?body) n, Some q)
      else do { q \<leftarrow> push_data (Some q) fd (map Some ?body) n False; q \<leftarrow> push_more (Some q) fd ?rest; Some (More, Some q) })"
    using False copy nd unfolding fill_uncomplete_def Let_def by (simp del: map_append)
  show ?thesis
  proof (cases "?rest = []")
    case True
    have "q_pending q = (q_pending q)(fd := [])" using free by (simp add: q_pending_def fun_upd_idem)
    with True run split inv body(1) show ?thesis
      by (simp add: delivers_def packet_def split_packages_short o_def)
  next
    case rest: False
    have ok: "ring_ok (get_queue (Some q))" "False \<Longrightarrow> n \<le> length (map Some ?body)" using inv by (simp_all add: q_inv_def)
    from push_data_ok [OF this, where fd = fd] obtain q1 where
      q1: "push_data (Some q) fd (map Some ?body) n False = Some q1" "ring_ok q1" "q_hash q1 = q_hash (get_queue (Some q))"
      "np_list q1 = np_list (get_queue (Some q)) @ [\<lparr>np_id = fd, np_size = n,
        np_buffer = if False then take n (map Some ?body) else map Some ?body\<rparr>]" .
    have e: "entry q1 = entry q" "q_pending q1 = q_pending q" "q_inv q1"
      using q1(2,3) inv by (simp_all add: entry_def q_pending_def q_inv_def table_ok_def fun_eq_iff)
    have "q_inv (get_queue (Some q1))" "entry (get_queue (Some q1)) fd = None" using e free by simp_all
    from push_more_ok [OF this rest] obtain q2 where
      "push_more (Some q1) fd ?rest = Some q2" "q_inv q2"
      "np_list q2 = np_list q1 @ map (packet fd) (fst (split_packages ?rest))"
      "q_pending q2 = (q_pending q1)(fd := snd (split_packages ?rest))" by auto
    with rest run split q1 e body(1) show ?thesis by (simp add: delivers_def packet_def)
  qed
qed

lemma read_header_ok:
  assumes "uc_ok uc" "buffer \<noteq> []"
  obtains n bs hh rest where "read_header uc buffer = Some (part_entry (uc_id uc) n bs hh, rest)"
    "n < 65536" "length bs \<le> n" "length bs < n \<or> n = 0" "be2 n @ bs @ rest = uc_bytes uc @ buffer"
proof (cases "uc_read uc < 0")
  case True
  then have uc: "uc_read uc = - 1" "0 \<le> uc_header uc" "uc_header uc < 256" using assms(1) by (auto simp: uc_ok_def)
  obtain b rest where b: "buffer = b # rest" using assms(2) by (cases buffer) auto
  let ?a = "of_int (uc_header uc) :: u8"
  let ?n = "unat ?a * 256 + unat b"
  have "uint ?a = uc_header uc" using uc by (simp add: unsigned_of_int take_bit_int_eq_self)
  then have "of_int (uc_header uc) = (ucast ?a :: u32)" by (metis of_int_uint)
  then have "unat (ucast b OR push_bit 8 (of_int (uc_header uc)) :: u32) = ?n" using unat_be2 [of ?a b] by (simp add: or.commute)
  then have "read_header uc buffer = Some (part_entry (uc_id uc) ?n [] (uc_header uc), rest)"
    using True uc(1) b by (simp add: read_header_def part_entry_def Let_def)
  moreover have "be2 ?n @ [] @ rest = uc_bytes uc @ buffer" using True b be2_bytes [of ?a b] by (simp add: uc_bytes_def)
  ultimately show thesis by (intro that) (auto intro: be2_less)
next
  case False
  with assms(1) obtain bs where bs: "uc_read uc = int (length bs)" "length bs < np_size (uc_pack uc)" "np_size (uc_pack uc) < 65536"
    "np_buffer (uc_pack uc) = map Some bs @ block (np_size (uc_pack uc) - length bs)" by (auto simp: uc_ok_def)
  have "uc = part_entry (uc_id uc) (np_size (uc_pack uc)) bs (uc_header uc)"
    using bs by (cases uc; cases "uc_pack uc") (simp add: part_entry_def)
  moreover have "uc_bytes uc = be2 (np_size (uc_pack uc)) @ bs" using bs by (simp add: uc_bytes_def o_def)
  ultimately show thesis
    using False bs by (intro that [of "np_size (uc_pack uc)" bs "uc_header uc" buffer]) (simp_all add: read_header_def)
qed

lemma filter_data_ok:
  assumes inv: "q_inv (get_queue qo)" and ne: "buffer \<noteq> []"
  shows "\<exists>r qo'. filter_data qo fd buffer = Some (r, qo') \<and> q_inv (get_queue qo') \<and>
    delivers fd (fst (split_packages (q_pending (get_queue qo) fd @ buffer))) (get_queue qo) r (get_queue qo') \<and>
    q_pending (get_queue qo') = (q_pending (get_queue qo))(fd := snd (split_packages (q_pending (get_queue qo) fd @ buffer)))"
proof -
  from inv have "table_ok (get_queue qo)" by (simp add: q_inv_def)
  from find_uncomplete_ok [OF this, where fd = fd] obtain qo' where
    f: "find_uncomplete qo fd = (entry (get_queue qo) fd, qo')" "table_ok (get_queue qo')"
    "entry (get_queue qo') = (entry (get_queue qo))(fd := None)" "\<exists>t. get_queue qo' = (get_queue qo)\<lparr>q_hash := t\<rparr>"
    "qo' = None \<longrightarrow> qo = None" .
  have inv': "q_inv (get_queue qo')" "np_list (get_queue qo') = np_list (get_queue qo)" "entry (get_queue qo') fd = None"
    using f inv by (auto simp: q_inv_def)
  have pend: "(q_pending (get_queue qo'))(fd := x) = (q_pending (get_queue qo))(fd := x)" for x
    using f(3) by (auto simp: q_pending_def fun_eq_iff)
  show ?thesis
  proof (cases "entry (get_queue qo) fd")
    case (Some uc)
    then obtain q where q: "qo' = Some q" using f(5) by (cases qo') (auto simp: entry_def get_queue_def)
    have uc: "uc_id uc = fd" "uc_ok uc"
      using Some \<open>table_ok (get_queue qo)\<close> by (auto simp: entry_def table_ok_def dest!: find_SomeD)
    from read_header_ok [OF uc(2) ne] obtain n bs hh rest where
      r: "read_header uc buffer = Some (part_entry (uc_id uc) n bs hh, rest)"
      "n < 65536" "length bs \<le> n" "length bs < n \<or> n = 0" "be2 n @ bs @ rest = uc_bytes uc @ buffer" .
    have "filter_data qo fd buffer = fill_uncomplete (Some q) fd (part_entry fd n bs hh) rest"
      using f(1) Some r(1) uc(1) q by (simp add: filter_data_def)
    moreover have "q_pending (get_queue qo) fd = uc_bytes uc" using Some by (simp add: q_pending_def)
    moreover have q': "q_inv q" "entry q fd = None" "np_list q = np_list (get_queue qo)" using inv' q by simp_all
    ultimately show ?thesis
      using fill_ok [OF q'(1,2) r(2,3,4), of hh rest] delivers_same [of q "get_queue qo"] r(5) pend q by auto
  next
    case None
    have p0: "q_pending (get_queue qo) fd = []" using None by (simp add: q_pending_def)
    note same = pend [of "snd (split_packages buffer)"]
    show ?thesis
    proof (cases "2 \<le> length buffer")
      case False
      with ne obtain b where b: "buffer = [b]" by (cases buffer; cases "tl buffer") auto
      then have "filter_data qo fd buffer = Some (No_Message, Some (save_header qo' fd b))"
        using f(1) None by (simp add: filter_data_def)
      with b p0 same save_header_ok [OF inv'(1,3), of b] inv'(2) show ?thesis
        by (simp add: delivers_def split_packages_short)
    next
      case True
      then obtain a b rest where bs: "buffer = a # b # rest" using take_2 by blast
      define n where n: "n = unat a * 256 + unat b"
      have ab: "be2 n = [a, b]" "n < 65536" unfolding n by (rule be2_bytes be2_less)+
      note split = split_be2 [OF ab(2), of rest]
      consider (wait) "length rest < n" | (one) "length rest = n" | (more) "n < length rest" by linarith
      then show ?thesis
      proof cases
        case wait
        from save_part_ok [OF inv'(1,3) this ab(2)] obtain q where
          "save_part qo' fd n rest = Some q" "q_inv q" "np_list q = np_list (get_queue qo')"
          "q_pending q = (q_pending (get_queue qo'))(fd := be2 n @ rest)" .
        with wait show ?thesis
          using f(1) None inv'(2) p0 split pend [of "be2 n @ rest"] by (simp add: filter_data_def bs ab(1) n [symmetric] delivers_def)
      next
        case one
        have "(q_pending (get_queue qo))(fd := []) = q_pending (get_queue qo')"
          using pend [of "[]"] inv'(3) by (metis fun_upd_triv q_pending_def option.simps(4))
        with one show ?thesis
          using f(1) None inv' p0 split copy_at_block [of rest n]
          by (simp add: filter_data_def bs ab(1) n [symmetric] delivers_def packet_def split_packages_short block_def o_def)
      next
        case more
        from push_clone_ok [OF inv'(1) less_imp_le [OF more], where fd = fd] obtain q where
          q: "push_data qo' fd (map Some rest) n True = Some q" "q_inv q"
          "np_list q = np_list (get_queue qo') @ [packet fd (take n rest)]" "entry q = entry (get_queue qo')"
          "q_pending q = q_pending (get_queue qo')" .
        have "q_inv (get_queue (Some q))" "entry (get_queue (Some q)) fd = None" "drop n rest \<noteq> []" using q inv'(3) more by simp_all
        from push_more_ok [OF this] obtain q2 where
          "push_more (Some q) fd (drop n rest) = Some q2" "q_inv q2"
          "np_list q2 = np_list q @ map (packet fd) (fst (split_packages (drop n rest)))"
          "q_pending q2 = (q_pending q)(fd := snd (split_packages (drop n rest)))" by auto
        with more show ?thesis
          using f(1) None inv'(2) p0 split q pend [of "snd (split_packages (drop n rest))"]
          by (simp add: filter_data_def bs ab(1) n [symmetric] delivers_def)
      qed
    qed
  qed
qed

subsection \<open>A gate that uses the module\<close>

text \<open>The client takes the queue until it is empty whenever the filter answers \<open>More\<close> (the loop
  \<^verbatim>\<open>for fd, msg, sz in netpack.pop, queue\<close> of \<^verbatim>\<open>lualib/snax/gateserver.lua\<close>). The result of a run is
  the packages in the order in which the client sees them.\<close>

partial_function (option) drain :: "queue option \<Rightarrow> (netpack list \<times> queue option) option" where
  "drain qo = Option.bind (lpop qo) (\<lambda>(r, qo1). case r of
     None \<Rightarrow> Some ([], qo1)
   | Some p \<Rightarrow> Option.bind (drain qo1) (\<lambda>(ps, qo2). Some (p # ps, qo2)))"

definition client_step :: "queue option \<Rightarrow> skynet_socket_message \<Rightarrow> (netpack list \<times> queue option) option" where
  "client_step qo m = do {
     (r, qo) \<leftarrow> lfilter qo m;
     (case r of
        Data fd buf sz \<Rightarrow> Some ([\<lparr>np_id = fd, np_size = sz, np_buffer = buf\<rparr>], qo)
      | More \<Rightarrow> drain qo
      | _ \<Rightarrow> Some ([], qo)) }"

fun client_run :: "queue option \<Rightarrow> skynet_socket_message list \<Rightarrow> (netpack list \<times> queue option) option" where
  "client_run qo [] = Some ([], qo)"
| "client_run qo (m # ms) = do {
     (ps, qo) \<leftarrow> client_step qo m;
     (ps', qo) \<leftarrow> client_run qo ms;
     Some (ps @ ps', qo) }"

text \<open>The specification: every socket has the bytes of its stream that are not a whole package yet;
  data completes packages, and a socket that is closed loses them.\<close>

fun stream_run :: "(int \<Rightarrow> u8 list) \<Rightarrow> skynet_socket_message list \<Rightarrow> netpack list" where
  "stream_run pend [] = []"
| "stream_run pend (m # ms) =
     (if sm_type m = SKYNET_SOCKET_TYPE_DATA then
        (let (ps, rest) = split_packages (pend (sm_id m) @ the (sm_buffer m)) in
         map (packet (sm_id m)) ps @ stream_run (pend(sm_id m := rest)) ms)
      else if sm_type m = SKYNET_SOCKET_TYPE_CLOSE \<or> sm_type m = SKYNET_SOCKET_TYPE_ERROR
      then stream_run (pend(sm_id m := [])) ms
      else stream_run pend ms)"

text \<open>The messages the socket layer sends: data is a block with at least one byte, and a text comes
  behind the message.\<close>

definition message_ok :: "skynet_socket_message \<Rightarrow> bool" where
  "message_ok m \<longleftrightarrow>
     (if sm_type m = SKYNET_SOCKET_TYPE_DATA
      then (case sm_buffer m of None \<Rightarrow> False | Some bs \<Rightarrow> bs \<noteq> [] \<and> sm_ud m = int (length bs))
      else sm_type m \<in> {SKYNET_SOCKET_TYPE_ACCEPT, SKYNET_SOCKET_TYPE_ERROR} \<longrightarrow> sm_buffer m = None)"

lemma drain_ok:
  assumes "q_inv q"
  shows "\<exists>q'. drain (Some q) = Some (np_list q, Some q') \<and> q_inv q' \<and> np_list q' = [] \<and> q_hash q' = q_hash q"
  using assms
proof (induction "np_list q" arbitrary: q)
  case Nil
  then show ?case using lpop_empty [of q] by (subst drain.simps) (simp add: q_inv_def)
next
  case (Cons p ps)
  from Cons.prems have "ring_ok q" by (simp add: q_inv_def)
  from lpop_cons [OF this Cons.hyps(2) [symmetric]] obtain q1 where
    q1: "lpop (Some q) = Some (Some p, Some q1)" "ring_ok q1" "np_list q1 = ps" "q_hash q1 = q_hash q" .
  have "q_inv q1" using q1 Cons.prems by (simp add: q_inv_def table_ok_def)
  with Cons.hyps(1) [of q1] q1(3,4) obtain q' where
    "drain (Some q1) = Some (ps, Some q')" "q_inv q'" "np_list q' = []" "q_hash q' = q_hash q" by auto
  with q1(1) Cons.hyps(2) show ?case by (subst drain.simps) simp
qed

lemma close_uncomplete_ok:
  assumes "q_inv (get_queue qo)"
  shows "q_inv (get_queue (close_uncomplete qo fd))" "np_list (get_queue (close_uncomplete qo fd)) = np_list (get_queue qo)"
    "q_pending (get_queue (close_uncomplete qo fd)) = (q_pending (get_queue qo))(fd := [])"
proof -
  from assms have "table_ok (get_queue qo)" by (simp add: q_inv_def)
  from find_uncomplete_ok [OF this, where fd = fd] obtain qo' where
    f: "find_uncomplete qo fd = (entry (get_queue qo) fd, qo')" "table_ok (get_queue qo')"
    "entry (get_queue qo') = (entry (get_queue qo))(fd := None)" "\<exists>t. get_queue qo' = (get_queue qo)\<lparr>q_hash := t\<rparr>"
    "qo' = None \<longrightarrow> qo = None" .
  then have "ring_ok (get_queue qo')" "np_list (get_queue qo') = np_list (get_queue qo)"
    using assms by (auto simp: q_inv_def)
  with f show "q_inv (get_queue (close_uncomplete qo fd))" "np_list (get_queue (close_uncomplete qo fd)) = np_list (get_queue qo)"
    "q_pending (get_queue (close_uncomplete qo fd)) = (q_pending (get_queue qo))(fd := [])"
    by (simp_all add: close_uncomplete_def q_inv_def q_pending_def fun_eq_iff)
qed

lemmas socket_types = SKYNET_SOCKET_TYPE_DATA_def SKYNET_SOCKET_TYPE_CONNECT_def SKYNET_SOCKET_TYPE_CLOSE_def
  SKYNET_SOCKET_TYPE_ACCEPT_def SKYNET_SOCKET_TYPE_ERROR_def SKYNET_SOCKET_TYPE_WARNING_def

lemma data_step:
  assumes "q_inv (get_queue qo)" "np_list (get_queue qo) = []" "message_ok m" "sm_type m = SKYNET_SOCKET_TYPE_DATA"
  shows "\<exists>qo'. client_step qo m = Some (map (packet (sm_id m))
      (fst (split_packages (q_pending (get_queue qo) (sm_id m) @ the (sm_buffer m)))), qo') \<and>
    q_inv (get_queue qo') \<and> np_list (get_queue qo') = [] \<and>
    q_pending (get_queue qo') = (q_pending (get_queue qo))
      (sm_id m := snd (split_packages (q_pending (get_queue qo) (sm_id m) @ the (sm_buffer m))))"
proof -
  let ?fd = "sm_id m"
  from assms(3,4) obtain bs where bs: "sm_buffer m = Some bs" "bs \<noteq> []" "sm_ud m = int (length bs)"
    by (auto simp: message_ok_def split: option.splits)
  let ?ps = "fst (split_packages (q_pending (get_queue qo) ?fd @ bs))"
  let ?rest = "snd (split_packages (q_pending (get_queue qo) ?fd @ bs))"
  from filter_data_ok [OF assms(1) bs(2), of ?fd] obtain r qo1 where
    f: "filter_data qo ?fd bs = Some (r, qo1)" "q_inv (get_queue qo1)" "delivers ?fd ?ps (get_queue qo) r (get_queue qo1)"
    "q_pending (get_queue qo1) = (q_pending (get_queue qo))(?fd := ?rest)" by blast
  have l: "lfilter qo m = Some (r, qo1)" using f(1) bs assms(4) by (simp add: lfilter_def)
  show ?thesis
  proof (cases r)
    case No_Message
    then show ?thesis using l f bs(1) assms(2) by (auto simp: client_step_def delivers_def)
  next
    case (Data fd buf sz)
    then have "?ps = [map the buf]" "\<lparr>np_id = fd, np_size = sz, np_buffer = buf\<rparr> = packet ?fd (map the buf)" "np_list (get_queue qo1) = []"
      using f(3) assms(2) by (auto simp: delivers_def)
    with Data l f(2,4) bs(1) show ?thesis by (simp add: client_step_def)
  next
    case More
    show ?thesis
    proof (cases qo1)
      case None
      then have "?ps = []" "np_list (get_queue qo1) = []" using f(3) More assms(2) by (auto simp: delivers_def)
      moreover have "drain None = Some ([], None)" by (subst drain.simps) (simp add: lpop_def)
      ultimately show ?thesis using More l f(2,4) None bs(1) by (simp add: client_step_def)
    next
      case (Some q)
      from drain_ok [of q] f(2) Some obtain q' where
        d: "drain qo1 = Some (np_list q, Some q')" "q_inv q'" "np_list q' = []" "q_hash q' = q_hash q" by auto
      then have "q_pending q' = q_pending q" by (simp add: q_pending_def entry_def fun_eq_iff)
      moreover have "np_list q = map (packet ?fd) ?ps" using f(3) More Some assms(2) by (simp add: delivers_def)
      ultimately show ?thesis using More l f(4) Some d bs(1) by (simp add: client_step_def)
    qed
  qed (use f(3) in \<open>simp_all add: delivers_def\<close>)
qed

lemma other_step:
  assumes "q_inv (get_queue qo)" "np_list (get_queue qo) = []" "message_ok m" "sm_type m \<noteq> SKYNET_SOCKET_TYPE_DATA"
  shows "\<exists>qo'. client_step qo m = Some ([], qo') \<and> q_inv (get_queue qo') \<and> np_list (get_queue qo') = [] \<and>
    q_pending (get_queue qo') = (if sm_type m = SKYNET_SOCKET_TYPE_CLOSE \<or> sm_type m = SKYNET_SOCKET_TYPE_ERROR
      then (q_pending (get_queue qo))(sm_id m := []) else q_pending (get_queue qo))"
  using assms close_uncomplete_ok [OF assms(1), of "sm_id m"]
  by (auto simp: client_step_def lfilter_def message_ok_def push_padding_def socket_types)

lemma client_run_ok:
  assumes "q_inv (get_queue qo)" "np_list (get_queue qo) = []" "\<forall>m \<in> set ms. message_ok m"
  shows "\<exists>qo'. client_run qo ms = Some (stream_run (q_pending (get_queue qo)) ms, qo')"
  using assms
proof (induction ms arbitrary: qo)
  case Nil
  then show ?case by simp
next
  case (Cons m ms)
  then have ok: "message_ok m" by simp
  show ?case
  proof (cases "sm_type m = SKYNET_SOCKET_TYPE_DATA")
    case True
    let ?s = "split_packages (q_pending (get_queue qo) (sm_id m) @ the (sm_buffer m))"
    from data_step [OF Cons.prems(1,2) ok True] obtain qo' where
      d: "client_step qo m = Some (map (packet (sm_id m)) (fst ?s), qo')" "q_inv (get_queue qo')" "np_list (get_queue qo') = []"
      "q_pending (get_queue qo') = (q_pending (get_queue qo))(sm_id m := snd ?s)" by blast
    from Cons.IH [OF d(2,3)] Cons.prems(3) obtain qo2 where
      "client_run qo' ms = Some (stream_run (q_pending (get_queue qo')) ms, qo2)" by auto
    with d(1,4) True show ?thesis by (simp add: case_prod_unfold Let_def)
  next
    case False
    from other_step [OF Cons.prems(1,2) ok False] obtain qo' where
      o: "client_step qo m = Some ([], qo')" "q_inv (get_queue qo')" "np_list (get_queue qo') = []"
      "q_pending (get_queue qo') = (if sm_type m = SKYNET_SOCKET_TYPE_CLOSE \<or> sm_type m = SKYNET_SOCKET_TYPE_ERROR
        then (q_pending (get_queue qo))(sm_id m := []) else q_pending (get_queue qo))" by blast
    from Cons.IH [OF o(2,3)] Cons.prems(3) obtain qo2 where
      "client_run qo' ms = Some (stream_run (q_pending (get_queue qo')) ms, qo2)" by auto
    with o(1,4) False show ?thesis by (auto split: if_splits)
  qed
qed

lemma q_inv_new: "q_inv (get_queue None)" "q_pending (get_queue None) = (\<lambda>_. [])"
  by (simp_all add: q_inv_def) (simp_all add: table_ok_def get_queue_def q_pending_def entry_def fun_eq_iff)

lemma client_run_new:
  assumes "\<forall>m \<in> set ms. message_ok m"
  shows "\<exists>qo'. client_run None ms = Some (stream_run (\<lambda>_. []) ms, qo')"
  using client_run_ok [of None ms] assms by (simp add: q_inv_new)

text \<open>Data of one socket.\<close>

definition data_message :: "int \<Rightarrow> u8 list \<Rightarrow> skynet_socket_message" where
  "data_message fd bs = \<lparr>sm_type = SKYNET_SOCKET_TYPE_DATA, sm_id = fd, sm_ud = int (length bs), sm_buffer = Some bs, sm_padding = []\<rparr>"

definition socket_stream :: "int \<Rightarrow> (int \<times> u8 list) list \<Rightarrow> u8 list" where
  "socket_stream fd chunks = concat (map snd (filter (\<lambda>c. fst c = fd) chunks))"

lemma split_packages_rest: "split_packages (snd (split_packages bs)) = ([], snd (split_packages bs))"
  using split_packages_append [of bs "[]"] by (metis append_Nil2 append_self_conv prod.collapse prod.inject)

lemma stream_run_socket:
  assumes "\<forall>fd. split_packages (pend fd) = ([], pend fd)"
  shows "filter (\<lambda>p. np_id p = fd) (stream_run pend (map (\<lambda>(fd, bs). data_message fd bs) chunks)) =
    map (packet fd) (fst (split_packages (pend fd @ socket_stream fd chunks)))"
  using assms
proof (induction chunks arbitrary: pend)
  case Nil
  then show ?case by (simp add: socket_stream_def)
next
  case (Cons c chunks)
  obtain fd' bs where c: "c = (fd', bs)" by (cases c)
  let ?s = "split_packages (pend fd' @ bs)"
  have "\<forall>fd. split_packages ((pend(fd' := snd ?s)) fd) = ([], (pend(fd' := snd ?s)) fd)"
    using Cons.prems by (simp add: split_packages_rest)
  note IH = Cons.IH [OF this]
  have all: "filter (\<lambda>p. np_id p = fd) (map (packet fd') ps) = (if fd' = fd then map (packet fd') ps else [])" for ps
    by (induction ps) (simp_all add: packet_def)
  have step: "stream_run pend (map (\<lambda>(fd, bs). data_message fd bs) (c # chunks)) =
      map (packet fd') (fst ?s) @ stream_run (pend(fd' := snd ?s)) (map (\<lambda>(fd, bs). data_message fd bs) chunks)"
    by (simp add: c data_message_def case_prod_unfold Let_def)
  show ?case
    using IH split_packages_append [of "pend fd @ bs" "socket_stream fd chunks"]
    by (simp only: step filter_append all) (auto simp: c socket_stream_def)
qed

subsection \<open>Properties\<close>

text \<open>Property C26: for the client the module behaves like its specification on streams: whatever the messages
  of the socket layer are and however they interleave, no assertion fails, no memory outside a block is
  touched, and the packages come out in the order of the specification, each byte as it was sent.\<close>

theorem netpack_refines_streams:
  assumes "\<forall>m \<in> set ms. message_ok m"
  shows "\<exists>qo'. client_run None ms = Some (stream_run (\<lambda>_. []) ms, qo')"
  by (rule client_run_new [OF assms])

definition demo_messages :: "skynet_socket_message list" where
  "demo_messages = [data_message 3 [0], data_message 4 [0, 1], data_message 3 [2, 65, 66, 0, 1, 67],
     \<lparr>sm_type = SKYNET_SOCKET_TYPE_CLOSE, sm_id = 4, sm_ud = 0, sm_buffer = None, sm_padding = []\<rparr>, data_message 4 [0, 0]]"

theorem netpack_refines_streams_witness:
  "\<exists>qo'. client_run None demo_messages = Some ([packet 3 [65, 66], packet 3 [67], packet 4 []], qo')"
proof -
  have "\<forall>m \<in> set demo_messages. message_ok m"
    by (simp add: demo_messages_def message_ok_def data_message_def socket_types)
  moreover have "stream_run (\<lambda>_. []) demo_messages = [packet 3 [65, 66], packet 3 [67], packet 4 []]"
    by (simp add: demo_messages_def data_message_def socket_types split_packages.simps)
  ultimately show ?thesis using netpack_refines_streams [of demo_messages] by simp
qed

text \<open>Property: packages of different sockets do not mix. When the data of many sockets arrives in pieces and
  in any interleaving, the packages of each socket are those of its own stream, in order.\<close>

theorem netpack_sockets_do_not_mix:
  assumes "\<forall>c \<in> set chunks. snd c \<noteq> []"
  shows "\<exists>ps qo'. client_run None (map (\<lambda>(fd, bs). data_message fd bs) chunks) = Some (ps, qo') \<and>
    (\<forall>fd. filter (\<lambda>p. np_id p = fd) ps = map (packet fd) (fst (split_packages (socket_stream fd chunks))))"
proof -
  have "\<forall>m \<in> set (map (\<lambda>(fd, bs). data_message fd bs) chunks). message_ok m"
    using assms by (auto simp: message_ok_def data_message_def)
  from client_run_new [OF this] stream_run_socket [of "\<lambda>_. []" _ chunks] show ?thesis
    by (auto simp: split_packages_short)
qed

theorem netpack_sockets_do_not_mix_witness:
  "\<exists>ps qo'. client_run None (map (\<lambda>(fd, bs). data_message fd bs) [(3, [0]), (4, [0, 1]), (3, [1, 9]), (4, [7])]) = Some (ps, qo') \<and>
     filter (\<lambda>p. np_id p = 4) ps = [packet 4 [7]]"
  using netpack_sockets_do_not_mix [of "[(3, [0]), (4, [0, 1]), (3, [1, 9]), (4, [7])]"]
  by (auto simp: socket_stream_def split_packages.simps)

lemma and_255: "(n :: nat) AND 255 = n mod 256"
  using take_bit_eq_mask [of 8 n] take_bit_eq_mod [of 8 n] by (simp add: mask_eq_exp_minus_1)

lemma lpack_be2: "length msg < 65536 \<Longrightarrow> lpack msg = Inr (be2 (length msg) @ msg)"
  by (simp add: lpack_def write_size_def be2_def drop_bit_eq_div and_255)

lemma split_lpack:
  assumes "list_all2 (\<lambda>m w. lpack m = Inr w) msgs wires"
  shows "split_packages (concat wires) = (msgs, [])"
  using assms
proof (induction rule: list_all2_induct)
  case (Cons m ms w ws)
  then have "length m < 65536" by (simp add: lpack_def split: if_splits)
  with Cons split_be2 [of "length m" "m @ concat ws"] lpack_be2 [of m] show ?case by auto
qed (simp add: split_packages_short)

lemma those_Some: "those (map Some xs) = Some xs"
  by (induction xs) simp_all

lemma ltostring_packet: "ltostring (Some (np_buffer (packet fd m))) (np_size (packet fd m)) = Some m"
  by (simp add: ltostring_def packet_def those_Some)

lemma stream_run_one:
  "stream_run pend (map (data_message fd) chunks) =
     filter (\<lambda>p. np_id p = fd) (stream_run pend (map (\<lambda>(fd, bs). data_message fd bs) (map (Pair fd) chunks)))"
proof (induction chunks arbitrary: pend)
  case (Cons c chunks)
  have "filter (\<lambda>p. np_id p = fd) (map (packet fd) ps) = map (packet fd) ps" for ps
    by (induction ps) (simp_all add: packet_def)
  with Cons show ?case by (simp add: data_message_def case_prod_unfold Let_def fun_upd_def)
qed simp

text \<open>Property C27: messages that were packed for the wire arrive as they were: however the stream of packed
  messages is cut into pieces, the client gets the same messages in the same order and reads the
  same bytes from them.\<close>

theorem netpack_pack_roundtrip:
  assumes "\<forall>m \<in> set msgs. length m < 65536"
  shows "\<exists>wires. list_all2 (\<lambda>m w. lpack m = Inr w) msgs wires \<and>
    (\<forall>chunks. concat chunks = concat wires \<and> [] \<notin> set chunks \<longrightarrow>
      (\<exists>ps qo'. client_run None (map (data_message fd) chunks) = Some (ps, qo') \<and>
        map (\<lambda>p. (np_id p, ltostring (Some (np_buffer p)) (np_size p))) ps = map (\<lambda>m. (fd, Some m)) msgs))"
proof (intro exI [of _ "map (\<lambda>m. be2 (length m) @ m) msgs"] conjI allI impI)
  let ?wires = "map (\<lambda>m. be2 (length m) @ m) msgs"
  show all: "list_all2 (\<lambda>m w. lpack m = Inr w) msgs ?wires"
    using assms lpack_be2 by (auto simp: list_all2_conv_all_nth)
  fix chunks
  assume c: "concat chunks = concat ?wires \<and> [] \<notin> set chunks"
  have "\<forall>m \<in> set (map (data_message fd) chunks). message_ok m"
    using c by (auto simp: message_ok_def data_message_def)
  from client_run_new [OF this] obtain qo' where
    run: "client_run None (map (data_message fd) chunks) = Some (stream_run (\<lambda>_. []) (map (data_message fd) chunks), qo')" by blast
  have "socket_stream fd (map (Pair fd) chunks) = concat chunks"
    by (simp add: socket_stream_def filter_map o_def)
  with stream_run_one [of "\<lambda>_. []" fd chunks] stream_run_socket [of "\<lambda>_. []" fd "map (Pair fd) chunks"] c split_lpack [OF all]
  have "stream_run (\<lambda>_. []) (map (data_message fd) chunks) = map (packet fd) msgs"
    by (simp add: split_packages_short)
  with run show "\<exists>ps qo'. client_run None (map (data_message fd) chunks) = Some (ps, qo') \<and>
      map (\<lambda>p. (np_id p, ltostring (Some (np_buffer p)) (np_size p))) ps = map (\<lambda>m. (fd, Some m)) msgs"
    by (simp add: ltostring_packet o_def) (simp add: packet_def)
qed

theorem netpack_pack_roundtrip_witness:
  "\<exists>ps qo'. client_run None (map (data_message 5) [[0], [2, 65], [66, 0, 0]]) = Some (ps, qo') \<and>
     map (\<lambda>p. (np_id p, ltostring (Some (np_buffer p)) (np_size p))) ps = [(5, Some [65, 66]), (5, Some [])]"
proof -
  have "lpack [65, 66] = Inr [0, 2, 65, 66]" "lpack [] = Inr [0, 0]"
    by (simp_all add: lpack_be2 be2_def)
  with netpack_pack_roundtrip [of "[[65, 66], []]" 5] obtain wires where
    "wires = [[0, 2, 65, 66], [0, 0]]" and
    all: "\<forall>chunks. concat chunks = concat wires \<and> [] \<notin> set chunks \<longrightarrow>
      (\<exists>ps qo'. client_run None (map (data_message 5) chunks) = Some (ps, qo') \<and>
        map (\<lambda>p. (np_id p, ltostring (Some (np_buffer p)) (np_size p))) ps = map (\<lambda>m. (5, Some m)) [[65, 66], []])"
    by (auto simp: list_all2_Cons1)
  then show ?thesis using all [rule_format, of "[[0], [2, 65], [66, 0, 0]]"] by simp
qed

lemma hash_fd_less: "hash_fd fd < HASHSIZE"
  by (simp add: hash_fd_def HASHSIZE_def)

lemma ring_slice_walk:
  assumes "length xs = c" "h < c" "t < c"
  shows "map (\<lambda>i. xs ! (i mod c)) [h..<(if h > t then t + c else t)] = ring_slice xs h (ring_len h t c)"
proof -
  have "(if h > t then t + c else t) = h + ring_len h t c" using assms by (auto simp: ring_len_def)
  moreover have "[h..<h + n] = map (\<lambda>i. h + i) [0..<n]" for n
    by (induction n) simp_all
  ultimately show ?thesis using assms(1) by (simp add: ring_slice_def o_def)
qed

text \<open>Property: clearing the queue frees the buffer of every package that waits and of every unfinished
  package, and leaves an empty queue that works on.\<close>

theorem netpack_clear_frees_all:
  assumes "q_inv q"
  shows "\<exists>parts q'. lclear (Some q) = (parts @ map np_buffer (np_list q), Some q') \<and>
    (\<forall>fd uc. entry q fd = Some uc \<longrightarrow> np_buffer (uc_pack uc) \<in> set parts) \<and>
    q_inv q' \<and> np_list q' = [] \<and> q_pending q' = (\<lambda>_. [])"
proof -
  let ?parts = "concat (map (\<lambda>i. map (\<lambda>uc. np_buffer (uc_pack uc)) (q_hash q i)) [0..<HASHSIZE])"
  let ?q = "q\<lparr>q_hash := (\<lambda>i. if i < HASHSIZE then [] else q_hash q i), q_head := 0, q_tail := 0\<rparr>"
  let ?slice = "ring_slice (q_queue q) (q_head q) (ring_len (q_head q) (q_tail q) (q_cap q))"
  from assms have r: "q_head q < q_cap q" "q_tail q < q_cap q" "length (q_queue q) = q_cap q" "None \<notin> set ?slice"
    by (simp_all add: q_inv_def ring_ok_def)
  have "map (\<lambda>i. case q_queue q ! (i mod q_cap q) of Some np \<Rightarrow> np_buffer np | None \<Rightarrow> [])
      [q_head q..<(if q_head q > q_tail q then q_tail q + q_cap q else q_tail q)] =
    map (\<lambda>x. case x of Some np \<Rightarrow> np_buffer np | None \<Rightarrow> []) ?slice"
    using arg_cong [OF ring_slice_walk [OF r(3,1,2)], of "map (\<lambda>x. case x of Some np \<Rightarrow> np_buffer np | None \<Rightarrow> [])"]
    by (simp add: o_def)
  moreover have "map (\<lambda>x. case x of Some np \<Rightarrow> np_buffer np | None \<Rightarrow> []) ?slice = map np_buffer (map the ?slice)"
    using r(4) by (auto split: option.splits)
  ultimately have "lclear (Some q) = (?parts @ map np_buffer (np_list q), Some ?q)"
    by (simp add: lclear_def np_list_def)
  moreover have "np_buffer (uc_pack uc) \<in> set ?parts" if "entry q fd = Some uc" for fd uc
    using that hash_fd_less [of fd] by (force simp: entry_def dest!: find_SomeD)
  moreover have "q_inv ?q" using assms r by (auto simp: q_inv_def ring_ok_def table_ok_def ring_len_def)
  moreover have "np_list ?q = []" "q_pending ?q = (\<lambda>_. [])"
    by (simp_all add: np_list_def ring_len_def q_pending_def entry_def hash_fd_less fun_eq_iff)
  ultimately show ?thesis by blast
qed

theorem netpack_clear_frees_all_witness:
  "\<exists>freed q'. lclear (Some (save_header None 3 7)) = (freed, Some q') \<and> np_list q' = [] \<and> q_pending q' = (\<lambda>_. [])"
proof -
  have "entry (get_queue None) 3 = None" by (simp add: entry_def get_queue_def)
  then have "q_inv (save_header None 3 7)" by (rule save_header_ok [OF q_inv_new(1)])
  from netpack_clear_frees_all [OF this] show ?thesis by blast
qed

end
