(* ===== verification/Seri.thy ===== *)
theory Seri
  imports Skynet_Prelude
begin

text \<open>
  \<^verbatim>\<open>lualib-src/lua-seri.c\<close>: the serialisation of Lua values for messages between services. The writer
  appends bytes to a chain of blocks of 128 bytes, the reader takes them from one buffer.

  A Lua table is modelled by the length that \<^verbatim>\<open>lua_rawlen\<close> reports and the list of its pairs in the order
  of \<^verbatim>\<open>lua_next\<close>; a table with a metamethod \<^verbatim>\<open>__pairs\<close> by the pairs that the metamethod yields. Numbers are the
  64-bit words that hold them. The machine is little-endian, as the bytes of a number are copied as
  they are in memory. An error that is raised with \<^verbatim>\<open>luaL_error\<close> is a value of the type \<open>seri_error\<close>.
\<close>

subsection \<open>Data\<close>

definition TYPE_NIL :: int where "TYPE_NIL = 0"
definition TYPE_BOOLEAN :: int where "TYPE_BOOLEAN = 1"
definition TYPE_NUMBER :: int where "TYPE_NUMBER = 2"
definition TYPE_NUMBER_ZERO :: int where "TYPE_NUMBER_ZERO = 0"
definition TYPE_NUMBER_BYTE :: int where "TYPE_NUMBER_BYTE = 1"
definition TYPE_NUMBER_WORD :: int where "TYPE_NUMBER_WORD = 2"
definition TYPE_NUMBER_DWORD :: int where "TYPE_NUMBER_DWORD = 4"
definition TYPE_NUMBER_QWORD :: int where "TYPE_NUMBER_QWORD = 6"
definition TYPE_NUMBER_REAL :: int where "TYPE_NUMBER_REAL = 8"
definition TYPE_USERDATA :: int where "TYPE_USERDATA = 3"
definition TYPE_SHORT_STRING :: int where "TYPE_SHORT_STRING = 4"
definition TYPE_LONG_STRING :: int where "TYPE_LONG_STRING = 5"
definition TYPE_TABLE :: int where "TYPE_TABLE = 6"
definition MAX_COOKIE :: int where "MAX_COOKIE = 32"
definition BLOCK_SIZE :: nat where "BLOCK_SIZE = 128"
definition MAX_DEPTH :: nat where "MAX_DEPTH = 32"

lemmas seri_types = TYPE_NIL_def TYPE_BOOLEAN_def TYPE_NUMBER_def TYPE_NUMBER_ZERO_def TYPE_NUMBER_BYTE_def
  TYPE_NUMBER_WORD_def TYPE_NUMBER_DWORD_def TYPE_NUMBER_QWORD_def TYPE_NUMBER_REAL_def TYPE_USERDATA_def
  TYPE_SHORT_STRING_def TYPE_LONG_STRING_def TYPE_TABLE_def MAX_COOKIE_def

definition COMBINE_TYPE :: "int \<Rightarrow> int \<Rightarrow> u8" where
  "COMBINE_TYPE t v = of_int (t OR push_bit 3 v)"

datatype lua_value =
    LNil
  | LBoolean bool
  | LInteger u64
  | LReal u64
  | LPointer u64
  | LString "u8 list"
  | LTable nat "(lua_value \<times> lua_value) list"
  | LMeta "(lua_value \<times> lua_value) list"
  | LOther

datatype seri_error =
    Too_Deep
  | Unsupported_Type
  | Invalid_Stream
  | Block_Too_Big
  | Bad_Index
  | Null_Pointer
  | Out_Of_Fuel

subsection \<open>The chain of blocks\<close>

text \<open>The filled blocks, the written part of the current block (its length is \<^verbatim>\<open>ptr\<close>), and the total length.\<close>

record write_block =
  wb_full :: "u8 list list"
  wb_current :: "u8 list"
  wb_len :: nat

definition wb_init :: write_block where
  "wb_init = \<lparr>wb_full = [], wb_current = [], wb_len = 0\<rparr>"

definition wb_next :: "write_block \<Rightarrow> write_block" where
  "wb_next wb = wb\<lparr>wb_full := wb_full wb @ [wb_current wb], wb_current := []\<rparr>"

text \<open>The body of \<^verbatim>\<open>wb_push\<close> behind the test for a full block; the label \<^verbatim>\<open>_again\<close> starts with a new block.\<close>

function wb_copy :: "write_block \<Rightarrow> u8 list \<Rightarrow> write_block" where
  "wb_copy wb buf = (
     let ptr = length (wb_current wb); cp = BLOCK_SIZE - ptr in
     if ptr + length buf \<le> BLOCK_SIZE
     then wb\<lparr>wb_current := wb_current wb @ buf, wb_len := wb_len wb + length buf\<rparr>
     else wb_copy (wb_next (wb\<lparr>wb_current := wb_current wb @ take cp buf, wb_len := wb_len wb + cp\<rparr>)) (drop cp buf))"
  by pat_completeness auto
termination
proof (relation "measures [\<lambda>(_, buf). length buf, \<lambda>(wb, _). length (wb_current wb)]")
  fix wb :: write_block and buf :: "u8 list" and ptr cp
  assume "ptr = length (wb_current wb)" "cp = BLOCK_SIZE - ptr" "\<not> ptr + length buf \<le> BLOCK_SIZE"
  then show "((wb_next (wb\<lparr>wb_current := wb_current wb @ take cp buf, wb_len := wb_len wb + cp\<rparr>), drop cp buf), wb, buf)
      \<in> measures [\<lambda>(_, buf). length buf, \<lambda>(wb, _). length (wb_current wb)]"
    by (cases "cp = 0") (auto simp: wb_next_def BLOCK_SIZE_def)
qed simp

declare wb_copy.simps [simp del]

definition wb_push :: "write_block \<Rightarrow> u8 list \<Rightarrow> write_block" where
  "wb_push wb buf = wb_copy (if length (wb_current wb) = BLOCK_SIZE then wb_next wb else wb) buf"

text \<open>\<^verbatim>\<open>seri\<close>: the message is copied out of the blocks. \<open>None\<close> is a read of bytes that were not written.\<close>

fun seri_copy :: "u8 list list \<Rightarrow> nat \<Rightarrow> u8 list option" where
  "seri_copy bs 0 = Some []"
| "seri_copy [] (Suc n) = None"
| "seri_copy (b # bs) (Suc n) =
     (if Suc n \<ge> BLOCK_SIZE then do {
        c_assert (BLOCK_SIZE \<le> length b);
        rest \<leftarrow> seri_copy bs (Suc n - BLOCK_SIZE);
        Some (take BLOCK_SIZE b @ rest) }
      else do {
        c_assert (Suc n \<le> length b);
        Some (take (Suc n) b) })"

definition seri :: "write_block \<Rightarrow> u8 list option" where
  "seri wb = seri_copy (wb_full wb @ [wb_current wb]) (wb_len wb)"

subsection \<open>Writing values\<close>

definition wb_nil :: "write_block \<Rightarrow> write_block" where
  "wb_nil wb = wb_push wb [of_int TYPE_NIL]"

definition wb_boolean :: "write_block \<Rightarrow> bool \<Rightarrow> write_block" where
  "wb_boolean wb b = wb_push wb [COMBINE_TYPE TYPE_BOOLEAN (if b then 1 else 0)]"

definition wb_integer :: "write_block \<Rightarrow> u64 \<Rightarrow> write_block" where
  "wb_integer wb v = (
     let t = (\<lambda>c. wb_push wb [COMBINE_TYPE TYPE_NUMBER c]) in
     if v = 0 then t TYPE_NUMBER_ZERO
     else if sint v \<noteq> sint (ucast v :: u32) then wb_push (t TYPE_NUMBER_QWORD) (le_bytes 8 (unat v))
     else if sint v < 0 then wb_push (t TYPE_NUMBER_DWORD) (le_bytes 4 (unat (ucast v :: u32)))
     else if sint v < 0x100 then wb_push (t TYPE_NUMBER_BYTE) (le_bytes 1 (unat (ucast v :: u8)))
     else if sint v < 0x10000 then wb_push (t TYPE_NUMBER_WORD) (le_bytes 2 (unat (ucast v :: u16)))
     else wb_push (t TYPE_NUMBER_DWORD) (le_bytes 4 (unat (ucast v :: u32))))"

definition wb_real :: "write_block \<Rightarrow> u64 \<Rightarrow> write_block" where
  "wb_real wb v = wb_push (wb_push wb [COMBINE_TYPE TYPE_NUMBER TYPE_NUMBER_REAL]) (le_bytes 8 (unat v))"

definition wb_pointer :: "write_block \<Rightarrow> u64 \<Rightarrow> write_block" where
  "wb_pointer wb v = wb_push (wb_push wb [of_int TYPE_USERDATA]) (le_bytes 8 (unat v))"

text \<open>The length is an \<^verbatim>\<open>int\<close>.\<close>

definition wb_string :: "write_block \<Rightarrow> u8 list \<Rightarrow> write_block" where
  "wb_string wb str = (
     let len = sint (of_nat (length str) :: u32) in
     if len < MAX_COOKIE then
       (let wb = wb_push wb [COMBINE_TYPE TYPE_SHORT_STRING len] in if len > 0 then wb_push wb (take (nat len) str) else wb)
     else
       (let wb = (if len < 0x10000
                  then wb_push (wb_push wb [COMBINE_TYPE TYPE_LONG_STRING 2]) (le_bytes 2 (nat len))
                  else wb_push (wb_push wb [COMBINE_TYPE TYPE_LONG_STRING 4]) (le_bytes 4 (nat len))) in
        wb_push wb (take (nat len) str)))"

definition table_header :: "write_block \<Rightarrow> nat \<Rightarrow> write_block" where
  "table_header wb array_size =
     (if int array_size \<ge> MAX_COOKIE - 1
      then wb_integer (wb_push wb [COMBINE_TYPE TYPE_TABLE (MAX_COOKIE - 1)]) (of_nat array_size)
      else wb_push wb [COMBINE_TYPE TYPE_TABLE (int array_size)])"

text \<open>\<^verbatim>\<open>lua_rawgeti\<close>.\<close>

definition raw_geti :: "(lua_value \<times> lua_value) list \<Rightarrow> nat \<Rightarrow> lua_value" where
  "raw_geti ps i = (case map_of ps (LInteger (of_nat i)) of Some v \<Rightarrow> v | None \<Rightarrow> LNil)"

text \<open>A key of the array part, which \<^verbatim>\<open>wb_table_hash\<close> skips.\<close>

definition in_array :: "nat \<Rightarrow> lua_value \<Rightarrow> bool" where
  "in_array n k = (case k of LInteger x \<Rightarrow> 0 < sint x \<and> sint x \<le> int n | _ \<Rightarrow> False)"

text \<open>The loops over the array part, the pairs of a table and the pairs of a metamethod, with the function
  \<^verbatim>\<open>pack_one\<close> for the next level.\<close>

primrec pack_list :: "(lua_value \<Rightarrow> write_block \<Rightarrow> seri_error + write_block) \<Rightarrow> lua_value list \<Rightarrow> write_block
    \<Rightarrow> seri_error + write_block" where
  "pack_list pk [] wb = Inr wb"
| "pack_list pk (v # vs) wb = (case pk v wb of Inl e \<Rightarrow> Inl e | Inr wb1 \<Rightarrow> pack_list pk vs wb1)"

definition pair_list :: "(lua_value \<times> lua_value) list \<Rightarrow> lua_value list" where
  "pair_list ps = concat (map (\<lambda>(k, x). [k, x]) ps)"

definition wb_table :: "(lua_value \<Rightarrow> write_block \<Rightarrow> seri_error + write_block) \<Rightarrow> nat \<Rightarrow> (lua_value \<times> lua_value) list
    \<Rightarrow> write_block \<Rightarrow> seri_error + write_block" where
  "wb_table pk n ps wb =
     (case pack_list pk (map (raw_geti ps) [1..<Suc n]) (table_header wb n) of
        Inl e \<Rightarrow> Inl e
      | Inr wb1 \<Rightarrow>
          (case pack_list pk (pair_list (filter (\<lambda>p. \<not> in_array n (fst p)) ps)) wb1 of
             Inl e \<Rightarrow> Inl e
           | Inr wb2 \<Rightarrow> Inr (wb_nil wb2)))"

definition wb_table_metapairs :: "(lua_value \<Rightarrow> write_block \<Rightarrow> seri_error + write_block) \<Rightarrow> (lua_value \<times> lua_value) list
    \<Rightarrow> write_block \<Rightarrow> seri_error + write_block" where
  "wb_table_metapairs pk ps wb =
     (case pack_list pk (pair_list (takeWhile (\<lambda>p. fst p \<noteq> LNil) ps)) (wb_push wb [COMBINE_TYPE TYPE_TABLE 0]) of
        Inl e \<Rightarrow> Inl e
      | Inr wb1 \<Rightarrow> Inr (wb_nil wb1))"

text \<open>\<^verbatim>\<open>pack_one\<close> with the number of levels that are left, \<^verbatim>\<open>MAX_DEPTH + 1 - depth\<close>.\<close>

primrec pack_one :: "nat \<Rightarrow> lua_value \<Rightarrow> write_block \<Rightarrow> seri_error + write_block" where
  "pack_one 0 v wb = Inl Too_Deep"
| "pack_one (Suc left) v wb = (case v of
     LNil \<Rightarrow> Inr (wb_nil wb)
   | LInteger x \<Rightarrow> Inr (wb_integer wb x)
   | LReal x \<Rightarrow> Inr (wb_real wb x)
   | LBoolean b \<Rightarrow> Inr (wb_boolean wb b)
   | LString s \<Rightarrow> Inr (wb_string wb s)
   | LPointer p \<Rightarrow> Inr (wb_pointer wb p)
   | LTable n ps \<Rightarrow> wb_table (pack_one left) n ps wb
   | LMeta ps \<Rightarrow> wb_table_metapairs (pack_one left) ps wb
   | LOther \<Rightarrow> Inl Unsupported_Type)"

definition luaseri_pack :: "lua_value list \<Rightarrow> seri_error + u8 list option" where
  "luaseri_pack vs = (case pack_list (pack_one (Suc MAX_DEPTH)) vs wb_init of Inl e \<Rightarrow> Inl e | Inr wb \<Rightarrow> Inr (seri wb))"

subsection \<open>Reading values\<close>

text \<open>The reader is the list of the bytes that are left. A negative length passes the test of \<^verbatim>\<open>rb_read\<close>.\<close>

definition rb_read :: "nat \<Rightarrow> u8 list \<Rightarrow> (u8 list \<times> u8 list) option" where
  "rb_read sz rb = (if length rb < sz then None else Some (take sz rb, drop sz rb))"

definition get_integer :: "int \<Rightarrow> u8 list \<Rightarrow> seri_error + u64 \<times> u8 list" where
  "get_integer cookie rb =
     (if cookie = TYPE_NUMBER_ZERO then Inr (0, rb)
      else if cookie = TYPE_NUMBER_BYTE then
        (case rb_read 1 rb of None \<Rightarrow> Inl Invalid_Stream | Some (n, rb) \<Rightarrow> Inr (ucast (of_nat (le_nat n) :: u8), rb))
      else if cookie = TYPE_NUMBER_WORD then
        (case rb_read 2 rb of None \<Rightarrow> Inl Invalid_Stream | Some (n, rb) \<Rightarrow> Inr (ucast (of_nat (le_nat n) :: u16), rb))
      else if cookie = TYPE_NUMBER_DWORD then
        (case rb_read 4 rb of None \<Rightarrow> Inl Invalid_Stream | Some (n, rb) \<Rightarrow> Inr (scast (of_nat (le_nat n) :: u32), rb))
      else if cookie = TYPE_NUMBER_QWORD then
        (case rb_read 8 rb of None \<Rightarrow> Inl Invalid_Stream | Some (n, rb) \<Rightarrow> Inr (of_nat (le_nat n), rb))
      else Inl Invalid_Stream)"

definition get_word :: "u8 list \<Rightarrow> seri_error + u64 \<times> u8 list" where
  "get_word rb = (case rb_read 8 rb of None \<Rightarrow> Inl Invalid_Stream | Some (n, rb) \<Rightarrow> Inr (of_nat (le_nat n), rb))"

text \<open>With a negative length \<^verbatim>\<open>lua_pushlstring\<close> is asked for a string of almost \<^verbatim>\<open>2^64\<close> bytes and raises an error.\<close>

definition get_buffer :: "int \<Rightarrow> u8 list \<Rightarrow> seri_error + lua_value \<times> u8 list" where
  "get_buffer len rb =
     (if len < 0 then Inl Block_Too_Big
      else (case rb_read (nat len) rb of None \<Rightarrow> Inl Invalid_Stream | Some (p, rb) \<Rightarrow> Inr (LString p, rb)))"

definition get_long_string :: "int \<Rightarrow> u8 list \<Rightarrow> seri_error + lua_value \<times> u8 list" where
  "get_long_string cookie rb =
     (if cookie = 2 then
        (case rb_read 2 rb of None \<Rightarrow> Inl Invalid_Stream | Some (n, rb) \<Rightarrow> get_buffer (int (le_nat n)) rb)
      else if cookie \<noteq> 4 then Inl Invalid_Stream
      else
        (case rb_read 4 rb of None \<Rightarrow> Inl Invalid_Stream
         | Some (n, rb) \<Rightarrow> get_buffer (sint (of_nat (le_nat n) :: u32)) rb))"

text \<open>The number of array elements of a table: in the cookie, or an integer behind it.\<close>

definition get_array_size :: "int \<Rightarrow> u8 list \<Rightarrow> seri_error + int \<times> u8 list" where
  "get_array_size cookie rb =
     (if cookie = MAX_COOKIE - 1 then
        (case rb_read 1 rb of None \<Rightarrow> Inl Invalid_Stream
         | Some (t, rb) \<Rightarrow>
             (let ty = hd t; cookie = uint (drop_bit 3 ty) in
              if uint (ty AND 7) \<noteq> TYPE_NUMBER \<or> cookie = TYPE_NUMBER_REAL then Inl Invalid_Stream
              else (case get_integer cookie rb of Inl e \<Rightarrow> Inl e | Inr (n, rb) \<Rightarrow> Inr (sint (ucast n :: u32), rb))))
      else Inr (cookie, rb))"

text \<open>What \<^verbatim>\<open>lua_rawset\<close> makes of a key: a float with the value of an integer becomes that integer, nil and NaN
  are refused.\<close>

definition real_key :: "u64 \<Rightarrow> lua_value option" where
  "real_key w = (
     let e = unat (drop_bit 52 w AND 0x7ff); m = unat (w AND 0xfffffffffffff); neg = bit w 63;
         val = (\<lambda>n. LInteger (if neg then - of_nat n else of_nat n)) in
     if e = 0x7ff then (if m = 0 then Some (LReal w) else None)
     else if e = 0 then Some (if m = 0 then LInteger 0 else LReal w)
     else (let s = 2 ^ 52 + m in
       if e \<ge> 1075 then
         (let n = s * 2 ^ (e - 1075) in if n < 2 ^ 63 \<or> neg \<and> n = 2 ^ 63 then Some (val n) else Some (LReal w))
       else if s mod 2 ^ (1075 - e) = 0 then Some (val (s div 2 ^ (1075 - e))) else Some (LReal w)))"

definition table_key :: "lua_value \<Rightarrow> lua_value option" where
  "table_key k = (case k of LNil \<Rightarrow> None | LReal w \<Rightarrow> real_key w | _ \<Rightarrow> Some k)"

text \<open>\<^verbatim>\<open>lua_rawset\<close> on the list of pairs: nil removes a pair, a new key comes last.\<close>

definition raw_set :: "lua_value \<Rightarrow> lua_value \<Rightarrow> (lua_value \<times> lua_value) list \<Rightarrow> (lua_value \<times> lua_value) list" where
  "raw_set k v ps =
     (if v = LNil then filter (\<lambda>p. fst p \<noteq> k) ps
      else if k \<in> fst ` set ps then map (\<lambda>p. if fst p = k then (k, v) else p) ps
      else ps @ [(k, v)])"

text \<open>\<^verbatim>\<open>push_value\<close> for every type but tables.\<close>

definition push_scalar :: "int \<Rightarrow> int \<Rightarrow> u8 list \<Rightarrow> seri_error + lua_value \<times> u8 list" where
  "push_scalar ty cookie rb =
     (if ty = TYPE_NIL then Inr (LNil, rb)
      else if ty = TYPE_BOOLEAN then Inr (LBoolean (cookie \<noteq> 0), rb)
      else if ty = TYPE_NUMBER then
        (if cookie = TYPE_NUMBER_REAL
         then (case get_word rb of Inl e \<Rightarrow> Inl e | Inr (n, rb) \<Rightarrow> Inr (LReal n, rb))
         else (case get_integer cookie rb of Inl e \<Rightarrow> Inl e | Inr (n, rb) \<Rightarrow> Inr (LInteger n, rb)))
      else if ty = TYPE_USERDATA then (case get_word rb of Inl e \<Rightarrow> Inl e | Inr (n, rb) \<Rightarrow> Inr (LPointer n, rb))
      else if ty = TYPE_SHORT_STRING then get_buffer cookie rb
      else if ty = TYPE_LONG_STRING then get_long_string cookie rb
      else Inl Invalid_Stream)"

text \<open>The two loops of \<^verbatim>\<open>unpack_table\<close>, with the function that reads one value.\<close>

type_synonym reader = "u8 list \<Rightarrow> seri_error + lua_value \<times> u8 list"
type_synonym pairs = "(lua_value \<times> lua_value) list"

primrec unpack_array :: "reader \<Rightarrow> nat \<Rightarrow> nat \<Rightarrow> pairs \<Rightarrow> u8 list \<Rightarrow> seri_error + pairs \<times> u8 list" where
  "unpack_array rd 0 i ps rb = Inr (ps, rb)"
| "unpack_array rd (Suc n) i ps rb = (case rd rb of
     Inl e \<Rightarrow> Inl e
   | Inr (v, rb) \<Rightarrow> unpack_array rd n (Suc i) (raw_set (LInteger (of_nat i)) v ps) rb)"

primrec unpack_hash :: "reader \<Rightarrow> nat \<Rightarrow> pairs \<Rightarrow> u8 list \<Rightarrow> seri_error + pairs \<times> u8 list" where
  "unpack_hash rd 0 ps rb = Inl Out_Of_Fuel"
| "unpack_hash rd (Suc f) ps rb = (case rd rb of
     Inl e \<Rightarrow> Inl e
   | Inr (k, rb) \<Rightarrow>
       if k = LNil then Inr (ps, rb)
       else (case rd rb of
          Inl e \<Rightarrow> Inl e
        | Inr (v, rb) \<Rightarrow>
            (case table_key k of
               None \<Rightarrow> Inl Bad_Index
             | Some k \<Rightarrow> unpack_hash rd f (raw_set k v ps) rb)))"

definition unpack_table :: "reader \<Rightarrow> nat \<Rightarrow> int \<Rightarrow> reader" where
  "unpack_table rd f cookie rb = (case get_array_size cookie rb of
     Inl e \<Rightarrow> Inl e
   | Inr (n, rb) \<Rightarrow>
       (case unpack_array rd (nat n) 1 [] rb of
          Inl e \<Rightarrow> Inl e
        | Inr (ps, rb) \<Rightarrow>
            (case unpack_hash rd f ps rb of
               Inl e \<Rightarrow> Inl e
             | Inr (ps, rb) \<Rightarrow> Inr (LTable (nat n) ps, rb))))"

text \<open>The first argument bounds the depth of the tables and the number of pairs in each; more than the
  number of bytes is enough.\<close>

primrec unpack_one :: "nat \<Rightarrow> reader" where
  "unpack_one 0 rb = Inl Out_Of_Fuel"
| "unpack_one (Suc f) rb = (case rb_read 1 rb of
     None \<Rightarrow> Inl Invalid_Stream
   | Some (t, rb) \<Rightarrow>
       (let ty = uint (hd t AND 7); cookie = uint (drop_bit 3 (hd t)) in
        if ty = TYPE_TABLE then unpack_table (unpack_one f) f cookie rb else push_scalar ty cookie rb))"

text \<open>The loop of \<^verbatim>\<open>luaseri_unpack\<close>: values until no byte is left.\<close>

primrec unpack_all :: "nat \<Rightarrow> u8 list \<Rightarrow> seri_error + lua_value list" where
  "unpack_all 0 rb = Inl Out_Of_Fuel"
| "unpack_all (Suc f) rb =
     (if rb = [] then Inr []
      else (case unpack_one f rb of
        Inl e \<Rightarrow> Inl e
      | Inr (v, rb) \<Rightarrow> (case unpack_all f rb of Inl e \<Rightarrow> Inl e | Inr vs \<Rightarrow> Inr (v # vs))))"

datatype unpack_arg = No_Value | Buffer "u8 list" | Null_Buffer int

fun luaseri_unpack :: "unpack_arg \<Rightarrow> seri_error + lua_value list" where
  "luaseri_unpack No_Value = Inr []"
| "luaseri_unpack (Null_Buffer len) = (if len = 0 then Inr [] else Inl Null_Pointer)"
| "luaseri_unpack (Buffer bs) = (if bs = [] then Inr [] else unpack_all (Suc (Suc (length bs))) bs)"

subsection \<open>Type bytes\<close>

lemma COMBINE_TYPE_decode:
  assumes "0 \<le> t" "t < 8" "0 \<le> v" "v < 32"
  shows "uint (COMBINE_TYPE t v AND 7) = t" "uint (drop_bit 3 (COMBINE_TYPE t v)) = v"
proof -
  have disj: "t AND push_bit 3 v = 0"
  proof (rule bit_eqI)
    fix n
    show "bit (t AND push_bit 3 v) n \<longleftrightarrow> bit (0 :: int) n"
    proof (cases "n < 3")
      case False
      then have "2 ^ 3 \<le> (2 :: int) ^ n" by (intro power_increasing) simp_all
      with assms have "t < 2 ^ n" by simp
      with assms(1) have "\<not> bit t n" by (simp add: bit_iff_odd)
      then show ?thesis by (simp add: bit_simps)
    qed (simp add: bit_simps)
  qed
  have "t OR push_bit 3 v = t + 8 * v"
    using disj by (simp add: disjunctive_add_eq_or [symmetric] push_bit_eq_mult)
  then have u: "uint (COMBINE_TYPE t v) = t + 8 * v"
    using assms by (simp only: COMBINE_TYPE_def unsigned_of_int) (simp add: take_bit_int_eq_self)
  have "uint (COMBINE_TYPE t v AND 7) = uint (COMBINE_TYPE t v) AND 7" by (simp add: unsigned_and_eq)
  also have "\<dots> = uint (COMBINE_TYPE t v) mod 8"
    using take_bit_eq_mask [of 3 "uint (COMBINE_TYPE t v)"] by (simp add: mask_eq_exp_minus_1 take_bit_eq_mod)
  finally show "uint (COMBINE_TYPE t v AND 7) = t" using u assms by simp
  show "uint (drop_bit 3 (COMBINE_TYPE t v)) = v"
    unfolding unsigned_drop_bit_eq using u assms by (simp add: drop_bit_eq_div take_bit_int_eq_self)
qed

subsection \<open>The chain of blocks is a stream\<close>

definition wb_stream :: "write_block \<Rightarrow> u8 list" where
  "wb_stream wb = concat (wb_full wb) @ wb_current wb"

definition wb_inv :: "write_block \<Rightarrow> bool" where
  "wb_inv wb \<longleftrightarrow> (\<forall>b \<in> set (wb_full wb). length b = BLOCK_SIZE) \<and> length (wb_current wb) \<le> BLOCK_SIZE \<and>
     wb_len wb = length (wb_stream wb)"

lemma wb_init_ok [simp]: "wb_inv wb_init" "wb_stream wb_init = []"
  by (simp_all add: wb_init_def wb_inv_def wb_stream_def)

lemma wb_copy_ok: "wb_inv wb \<Longrightarrow> wb_inv (wb_copy wb buf) \<and> wb_stream (wb_copy wb buf) = wb_stream wb @ buf"
proof (induction wb buf rule: wb_copy.induct)
  case (1 wb buf)
  show ?case
  proof (cases "length (wb_current wb) + length buf \<le> BLOCK_SIZE")
    case True
    with "1.prems" show ?thesis by (subst (1 2) wb_copy.simps) (auto simp: wb_inv_def wb_stream_def)
  next
    case False
    let ?cp = "BLOCK_SIZE - length (wb_current wb)"
    let ?wb = "wb_next (wb\<lparr>wb_current := wb_current wb @ take ?cp buf, wb_len := wb_len wb + ?cp\<rparr>)"
    have "length (take ?cp buf) = ?cp" using False by simp
    then have "wb_inv ?wb" "wb_stream ?wb = wb_stream wb @ take ?cp buf"
      using "1.prems" by (auto simp: wb_inv_def wb_stream_def wb_next_def)
    with "1.IH" [OF refl refl False] False show ?thesis
      by (subst (1 2) wb_copy.simps) (simp add: Let_def)
  qed
qed

lemma wb_push_ok [simp]:
  assumes "wb_inv wb"
  shows "wb_inv (wb_push wb buf)" "wb_stream (wb_push wb buf) = wb_stream wb @ buf"
proof -
  have "wb_inv (wb_next wb)" "wb_stream (wb_next wb) = wb_stream wb" if "length (wb_current wb) = BLOCK_SIZE"
    using that assms by (auto simp: wb_inv_def wb_stream_def wb_next_def)
  with assms wb_copy_ok show "wb_inv (wb_push wb buf)" "wb_stream (wb_push wb buf) = wb_stream wb @ buf"
    by (simp_all add: wb_push_def)
qed

lemma seri_copy_last: "length cur \<le> BLOCK_SIZE \<Longrightarrow> seri_copy [cur] (length cur) = Some cur"
  by (cases "length cur") (auto simp: BLOCK_SIZE_def)

lemma seri_copy_block:
  assumes "length b = BLOCK_SIZE"
  shows "seri_copy (b # bs) (BLOCK_SIZE + k) = map_option ((@) b) (seri_copy bs k)"
proof -
  obtain m where m: "BLOCK_SIZE + k = Suc m" by (cases "BLOCK_SIZE + k") (auto simp: BLOCK_SIZE_def)
  then have "Suc m \<ge> BLOCK_SIZE" "Suc m - BLOCK_SIZE = k" by (simp_all flip: m)
  with assms show ?thesis unfolding m by (cases "seri_copy bs k") simp_all
qed

lemma seri_copy_ok:
  assumes "\<forall>b \<in> set bs. length b = BLOCK_SIZE" "length cur \<le> BLOCK_SIZE" "n = length (concat bs) + length cur"
  shows "seri_copy (bs @ [cur]) n = Some (concat bs @ cur)"
  using assms
proof (induction bs arbitrary: n)
  case Nil
  then show ?case by (simp add: seri_copy_last)
next
  case (Cons b bs)
  then have "seri_copy (bs @ [cur]) (length (concat bs) + length cur) = Some (concat bs @ cur)" "length b = BLOCK_SIZE" by simp_all
  with Cons.prems(3) seri_copy_block [of b "bs @ [cur]" "length (concat bs) + length cur"] show ?case by (simp add: add.assoc)
qed

lemma seri_ok: "wb_inv wb \<Longrightarrow> seri wb = Some (wb_stream wb)"
  unfolding seri_def by (subst seri_copy_ok) (auto simp: wb_inv_def wb_stream_def)

subsection \<open>Reading back what was written\<close>

text \<open>The bytes \<open>bs\<close> are read as the value \<open>v\<close>, whatever comes behind them, with a bound above their number.\<close>

definition reads :: "lua_value \<Rightarrow> u8 list \<Rightarrow> bool" where
  "reads v bs \<longleftrightarrow> bs \<noteq> [] \<and> (\<forall>f rest. length bs < f \<longrightarrow> unpack_one f (bs @ rest) = Inr (v, rest))"

lemma rb_read_append [simp]: "length bs = n \<Longrightarrow> rb_read n (bs @ rest) = Some (bs, rest)"
  by (simp add: rb_read_def)

lemma rb_read_1 [simp]: "rb_read (Suc 0) (b # rest) = Some ([b], rest)"
  by (simp add: rb_read_def)

lemma unpack_one_head:
  assumes "0 \<le> t" "t < 8" "0 \<le> v" "v < 32"
  shows "unpack_one (Suc f) (COMBINE_TYPE t v # rest) =
    (if t = TYPE_TABLE then unpack_table (unpack_one f) f v rest else push_scalar t v rest)"
  using COMBINE_TYPE_decode [OF assms] by (cases "t = TYPE_TABLE") (simp_all add: Let_def)

lemma reads_scalarI:
  assumes "0 \<le> t" "t < 8" "t \<noteq> TYPE_TABLE" "0 \<le> v" "v < 32" "\<And>rest. push_scalar t v (bs @ rest) = Inr (x, rest)"
  shows "reads x (COMBINE_TYPE t v # bs)"
  unfolding reads_def
proof (intro conjI allI impI)
  fix f rest
  assume "length (COMBINE_TYPE t v # bs) < f"
  then obtain g where "f = Suc g" by (cases f) auto
  with assms show "unpack_one f ((COMBINE_TYPE t v # bs) @ rest) = Inr (x, rest)"
    by (simp add: unpack_one_head del: unpack_one.simps)
qed simp

lemma sint_nonneg_word:
  assumes "0 \<le> sint (v :: u64)"
  shows "sint v = uint v" "sint v < 2 ^ n \<Longrightarrow> unat v < 2 ^ n"
proof -
  have "sint v < 2 ^ 63" using sint_lt [of v] by simp
  with assms show eq: "sint v = uint v" by (simp add: uint_sint take_bit_int_eq_self)
  show "unat v < 2 ^ n" if "sint v < 2 ^ n"
    using that eq by (metis of_nat_unat of_nat_less_numeral_power_cancel_iff)
qed

lemma ucast_ucast_small: "unat (v :: u64) < 2 ^ LENGTH('a) \<Longrightarrow> ucast (ucast v :: 'a::len word) = v"
  by (simp add: word_unat_eq_iff unsigned_ucast_eq take_bit_nat_eq_self unsigned_take_bit_eq)

lemma scast_ucast_small:
  assumes "sint (v :: u64) = sint (ucast v :: u32)"
  shows "scast (ucast v :: u32) = v"
  using assms scast_eq [of "ucast v :: u32", where ?'a = 64] scast_eq [of v, where ?'a = 64] scast_id [of v] by metis

text \<open>Integers: the cookie says how many bytes are read back.\<close>

lemma wb_integer_ok:
  assumes "wb_inv wb"
  obtains c bs where "wb_inv (wb_integer wb v)" "wb_stream (wb_integer wb v) = wb_stream wb @ COMBINE_TYPE TYPE_NUMBER c # bs"
    "0 \<le> c" "c < 8" "\<forall>rest. get_integer c (bs @ rest) = Inr (v, rest)"
proof -
  have u32: "of_nat (le_nat (le_bytes 4 (unat (ucast v :: u32)))) = (ucast v :: u32)"
    using unsigned_less [of "ucast v :: u32", where ?'a = nat] by (subst le_nat_small) simp_all
  have u16: "of_nat (le_nat (le_bytes 2 (unat (ucast v :: u16)))) = (ucast v :: u16)"
    using unsigned_less [of "ucast v :: u16", where ?'a = nat] by (subst le_nat_small) simp_all
  have u8: "of_nat (le_nat (le_bytes 1 (unat (ucast v :: u8)))) = (ucast v :: u8)"
    using unsigned_less [of "ucast v :: u8", where ?'a = nat] by (subst le_nat_small) simp_all
  have u64: "of_nat (le_nat (le_bytes 8 (unat v))) = v"
    using unsigned_less [of v, where ?'a = nat] by (subst le_nat_small) simp_all
  consider (zero) "v = 0" | (qword) "v \<noteq> 0" "sint v \<noteq> sint (ucast v :: u32)"
    | (neg) "v \<noteq> 0" "sint v = sint (ucast v :: u32)" "sint v < 0"
    | (byte) "v \<noteq> 0" "sint v = sint (ucast v :: u32)" "0 \<le> sint v" "sint v < 0x100"
    | (word) "v \<noteq> 0" "sint v = sint (ucast v :: u32)" "0x100 \<le> sint v" "sint v < 0x10000"
    | (dword) "v \<noteq> 0" "sint v = sint (ucast v :: u32)" "0x10000 \<le> sint v" by linarith
  then show thesis
  proof cases
    case zero
    with assms show thesis by (intro that [of 0 "[]"]) (simp_all add: wb_integer_def get_integer_def seri_types)
  next
    case qword
    with assms u64 show thesis
      by (intro that [of 6 "le_bytes 8 (unat v)"]) (simp_all add: wb_integer_def get_integer_def seri_types)
  next
    case neg
    with assms u32 scast_ucast_small [OF neg(2)] show thesis
      by (intro that [of 4 "le_bytes 4 (unat (ucast v :: u32))"]) (simp_all add: wb_integer_def get_integer_def seri_types)
  next
    case byte
    then have "unat v < 2 ^ 8" by (intro sint_nonneg_word(2)) simp_all
    then have "ucast (ucast v :: u8) = v" by (intro ucast_ucast_small) simp
    with byte assms u8 show thesis
      by (intro that [of 1 "le_bytes 1 (unat (ucast v :: u8))"]) (simp_all add: wb_integer_def get_integer_def seri_types)
  next
    case word
    then have "unat v < 2 ^ 16" by (intro sint_nonneg_word(2)) simp_all
    then have "ucast (ucast v :: u16) = v" by (intro ucast_ucast_small) simp
    with word assms u16 show thesis
      by (intro that [of 2 "le_bytes 2 (unat (ucast v :: u16))"]) (simp_all add: wb_integer_def get_integer_def seri_types)
  next
    case dword
    with assms u32 scast_ucast_small [OF dword(2)] show thesis
      by (intro that [of 4 "le_bytes 4 (unat (ucast v :: u32))"]) (simp_all add: wb_integer_def get_integer_def seri_types)
  qed
qed

lemma reads_integer:
  assumes "0 \<le> c" "c < 8" "\<forall>rest. get_integer c (bs @ rest) = Inr (v, rest)"
  shows "reads (LInteger v) (COMBINE_TYPE TYPE_NUMBER c # bs)"
  using assms by (intro reads_scalarI) (simp_all add: push_scalar_def seri_types)

lemma get_word_le_bytes: "get_word (le_bytes 8 (unat v) @ rest) = Inr (v, rest)"
  using unsigned_less [of v, where ?'a = nat] by (simp add: get_word_def le_nat_le_bytes)

lemma reads_nil: "reads LNil [0]"
  using reads_scalarI [of 0 0 "[]" LNil] by (simp add: push_scalar_def seri_types COMBINE_TYPE_def)

text \<open>Strings: a short one has its length in the cookie.\<close>

lemma sint_of_nat_u32: "k < 2 ^ 31 \<Longrightarrow> sint (of_nat k :: u32) = int k"
  by (simp add: signed_of_nat) (simp add: signed_take_bit_int_eq_self)

lemma wb_string_ok:
  assumes "wb_inv wb" "length str < 2 ^ 31"
  obtains bs where "wb_inv (wb_string wb str)" "wb_stream (wb_string wb str) = wb_stream wb @ bs" "reads (LString str) bs"
proof -
  have len: "sint (of_nat (length str) :: u32) = int (length str)" by (rule sint_of_nat_u32 [OF assms(2)])
  consider (short) "length str < 32" | (word) "32 \<le> length str" "length str < 0x10000" | (dword) "0x10000 \<le> length str"
    by linarith
  then show thesis
  proof cases
    case short
    have "reads (LString str) (COMBINE_TYPE TYPE_SHORT_STRING (int (length str)) # str)"
      using short by (intro reads_scalarI) (simp_all add: push_scalar_def get_buffer_def seri_types)
    with short assms(1) len show thesis
      by (intro that [of "COMBINE_TYPE TYPE_SHORT_STRING (int (length str)) # str"]) (auto simp: wb_string_def seri_types Let_def)
  next
    case word
    have "reads (LString str) (COMBINE_TYPE TYPE_LONG_STRING 2 # le_bytes 2 (length str) @ str)"
      using word by (intro reads_scalarI) (simp_all add: push_scalar_def get_long_string_def get_buffer_def seri_types le_nat_le_bytes)
    with word assms(1) len show thesis
      by (intro that [of "COMBINE_TYPE TYPE_LONG_STRING 2 # le_bytes 2 (length str) @ str"]) (simp_all add: wb_string_def seri_types Let_def)
  next
    case dword
    have "le_nat (le_bytes 4 (length str)) = length str" using assms(2) by (intro le_nat_small) simp
    then have "reads (LString str) (COMBINE_TYPE TYPE_LONG_STRING 4 # le_bytes 4 (length str) @ str)"
      using len by (intro reads_scalarI) (simp_all add: push_scalar_def get_long_string_def get_buffer_def seri_types)
    with dword assms(1) len show thesis
      by (intro that [of "COMBINE_TYPE TYPE_LONG_STRING 4 # le_bytes 4 (length str) @ str"]) (simp_all add: wb_string_def seri_types Let_def)
  qed
qed

text \<open>The head of a table.\<close>

lemma table_header_ok:
  assumes "wb_inv wb" "n < 2 ^ 31"
  obtains c bs where "wb_inv (table_header wb n)" "wb_stream (table_header wb n) = wb_stream wb @ COMBINE_TYPE TYPE_TABLE c # bs"
    "0 \<le> c" "c < 32" "\<forall>rest. get_array_size c (bs @ rest) = Inr (int n, rest)"
proof (cases "n < 31")
  case True
  with assms(1) show thesis
    by (intro that [of "int n" "[]"]) (simp_all add: table_header_def get_array_size_def seri_types)
next
  case False
  let ?wb = "wb_push wb [COMBINE_TYPE TYPE_TABLE 31]"
  have inv: "wb_inv ?wb" using assms(1) by simp
  from wb_integer_ok [OF inv, where v = "of_nat n"] obtain c bs where
    i: "wb_inv (wb_integer ?wb (of_nat n))"
    "wb_stream (wb_integer ?wb (of_nat n)) = wb_stream ?wb @ COMBINE_TYPE TYPE_NUMBER c # bs"
    "0 \<le> c" "c < 8" "\<forall>rest. get_integer c (bs @ rest) = Inr (of_nat n, rest)" .
  have "ucast (of_nat n :: u64) = (of_nat n :: u32)"
    using assms(2) by (simp only: unsigned_of_nat) (simp add: take_bit_nat_eq_self)
  then have n: "sint (ucast (of_nat n :: u64) :: u32) = int n" using sint_of_nat_u32 [OF assms(2)] by simp
  have "get_array_size 31 ((COMBINE_TYPE TYPE_NUMBER c # bs) @ rest) = Inr (int n, rest)" for rest
    using COMBINE_TYPE_decode [of 2 c] i(3-5) n by (simp add: get_array_size_def seri_types Let_def)
  with False i assms(1) show thesis
    by (intro that [of 31 "COMBINE_TYPE TYPE_NUMBER c # bs"]) (simp_all add: table_header_def MAX_COOKIE_def)
qed

subsection \<open>Tables\<close>

text \<open>A key that a table of Lua can have and that is found again after the trip: no table, no NaN, and no
  float with the value of an integer (Lua stores those as integers).\<close>

definition key_ok :: "lua_value \<Rightarrow> bool" where
  "key_ok k = (case k of
     LBoolean b \<Rightarrow> True | LInteger x \<Rightarrow> True | LPointer x \<Rightarrow> True | LString s \<Rightarrow> length s < 2 ^ 31
   | LReal w \<Rightarrow> real_key w = Some (LReal w) | _ \<Rightarrow> False)"

text \<open>The values of Lua: the keys of a table are distinct, its values are not nil, and lengths are below
  \<^verbatim>\<open>2^31\<close>.\<close>

fun lua_ok :: "lua_value \<Rightarrow> bool" where
  "lua_ok (LString s) \<longleftrightarrow> length s < 2 ^ 31"
| "lua_ok (LTable n ps) \<longleftrightarrow> n < 2 ^ 31 \<and> distinct (map fst ps) \<and>
     (\<forall>(k, v) \<in> set ps. key_ok k \<and> v \<noteq> LNil \<and> lua_ok v)"
| "lua_ok (LMeta ps) \<longleftrightarrow> distinct (map fst ps) \<and> (\<forall>(k, v) \<in> set ps. key_ok k \<and> lua_ok v)"
| "lua_ok _ \<longleftrightarrow> True"

text \<open>The table as the reader builds it: first the array part, then the other pairs; for a metamethod the
  pairs it yields. The mapping from keys to values is the same.\<close>

definition array_pairs :: "nat \<Rightarrow> (lua_value \<times> lua_value) list \<Rightarrow> (lua_value \<times> lua_value) list" where
  "array_pairs n ps = filter (\<lambda>p. snd p \<noteq> LNil) (map (\<lambda>i. (LInteger (of_nat i), raw_geti ps i)) [1..<Suc n])"

fun canon :: "lua_value \<Rightarrow> lua_value" where
  "canon (LTable n ps) = (let qs = map (\<lambda>(k, v). (k, canon v)) ps in
     LTable n (array_pairs n qs @ filter (\<lambda>p. \<not> in_array n (fst p)) qs))"
| "canon (LMeta ps) = LTable 0 (filter (\<lambda>p. snd p \<noteq> LNil) (map (\<lambda>(k, v). (k, canon v)) ps))"
| "canon v = v"

lemma canon_LNil [simp]: "canon v = LNil \<longleftrightarrow> v = LNil"
  by (cases v) (simp_all add: Let_def)

lemma canon_key [simp]: "key_ok k \<Longrightarrow> canon k = k"
  by (cases k) (simp_all add: key_ok_def)

lemma key_ok_table_key: "key_ok k \<Longrightarrow> table_key k = Some k" "key_ok k \<Longrightarrow> k \<noteq> LNil" "key_ok k \<Longrightarrow> lua_ok k"
  by (cases k; simp add: key_ok_def table_key_def)+

lemma raw_geti_canon: "raw_geti (map (\<lambda>(k, v). (k, canon v)) ps) i = canon (raw_geti ps i)"
  by (induction ps) (auto simp: raw_geti_def split: option.splits)

lemma raw_geti_ok: "(\<forall>(k, v) \<in> set ps. lua_ok v) \<Longrightarrow> lua_ok (raw_geti ps i)"
  by (auto simp: raw_geti_def split: option.splits dest!: map_of_SomeD)

lemma raw_set_new: "k \<notin> fst ` set ps \<Longrightarrow> raw_set k v ps = ps @ filter (\<lambda>p. snd p \<noteq> LNil) [(k, v)]"
  by (auto simp: raw_set_def filter_id_conv)

text \<open>The first loop of \<^verbatim>\<open>unpack_table\<close>.\<close>

lemma unpack_array_reads:
  assumes "list_all2 reads vs bss" "\<forall>bs \<in> set bss. length bs < f" "\<forall>j. i \<le> j \<and> j < i + length vs \<longrightarrow> LInteger (of_nat j) \<notin> fst ` set ps"
    "i + length vs \<le> 2 ^ 32"
  shows "unpack_array (unpack_one f) (length vs) i ps (concat bss @ rest) =
    Inr (ps @ filter (\<lambda>p. snd p \<noteq> LNil) (zip (map (\<lambda>j. LInteger (of_nat j)) [i..<i + length vs]) vs), rest)"
  using assms
proof (induction vs bss arbitrary: i ps rule: list_all2_induct)
  case Nil
  then show ?case by simp
next
  case (Cons v vs bs bss)
  let ?k = "LInteger (of_nat i)"
  have rd: "unpack_one f (bs @ concat bss @ rest) = Inr (v, concat bss @ rest)"
    using Cons.hyps(1) Cons.prems(1) by (simp add: reads_def)
  have new: "?k \<notin> fst ` set ps" using Cons.prems(2) by simp
  have "(of_nat j :: u64) \<noteq> of_nat i" if "Suc i \<le> j" "j < Suc i + length vs" for j
  proof -
    have "unat (of_nat j :: u64) = j" "unat (of_nat i :: u64) = i"
      using that Cons.prems(3) by (simp_all add: unsigned_of_nat take_bit_nat_eq_self)
    with that show ?thesis by (metis not_less_eq_eq order_refl)
  qed
  with Cons.prems(2) have "\<forall>j. Suc i \<le> j \<and> j < Suc i + length vs \<longrightarrow> LInteger (of_nat j) \<notin> fst ` set (raw_set ?k v ps)"
    by (auto simp: raw_set_new [OF new] split: if_splits)
  from Cons.IH [OF _ this] Cons.prems
  have "unpack_array (unpack_one f) (length vs) (Suc i) (raw_set ?k v ps) (concat bss @ rest) =
    Inr (raw_set ?k v ps @ filter (\<lambda>p. snd p \<noteq> LNil) (zip (map (\<lambda>j. LInteger (of_nat j)) [Suc i..<Suc i + length vs]) vs), rest)"
    by simp
  moreover have "[i..<i + length (v # vs)] = i # [Suc i..<Suc i + length vs]" by (simp add: upt_rec)
  ultimately show ?case using rd by (simp add: raw_set_new [OF new])
qed

text \<open>The second loop: pairs up to a nil.\<close>

lemma unpack_hash_reads:
  assumes "list_all2 reads (pair_list qs) bss" "\<forall>bs \<in> set bss. length bs < f" "1 < f" "\<forall>p \<in> set qs. key_ok (fst p)"
    "distinct (map fst qs)" "fst ` set qs \<inter> fst ` set ps = {}" "length qs < g"
  shows "unpack_hash (unpack_one f) g ps (concat bss @ 0 # rest) = Inr (ps @ filter (\<lambda>p. snd p \<noteq> LNil) qs, rest)"
  using assms
proof (induction qs arbitrary: ps bss g)
  case Nil
  have "unpack_one f (0 # rest) = Inr (LNil, rest)" using reads_nil Nil.prems(3) by (auto simp: reads_def)
  with Nil show ?case by (cases g) (simp_all add: pair_list_def)
next
  case (Cons q qs)
  obtain k v where q: "q = (k, v)" by (cases q)
  obtain h where g: "g = Suc h" using Cons.prems(7) by (cases g) auto
  from Cons.prems(1) obtain b1 b2 bss' where
    b: "bss = b1 # b2 # bss'" "reads k b1" "reads v b2" "list_all2 reads (pair_list qs) bss'"
    by (auto simp: pair_list_def q list_all2_Cons1)
  have rd: "unpack_one f (b1 @ x) = Inr (k, x)" "unpack_one f (b2 @ x) = Inr (v, x)" for x
    using b Cons.prems(2) by (simp_all add: reads_def)
  have k: "table_key k = Some k" "k \<noteq> LNil" using Cons.prems(4) key_ok_table_key [of k] by (simp_all add: q)
  have new: "k \<notin> fst ` set ps" using Cons.prems(6) by (auto simp: q)
  have "unpack_hash (unpack_one f) h (raw_set k v ps) (concat bss' @ 0 # rest) =
      Inr (raw_set k v ps @ filter (\<lambda>p. snd p \<noteq> LNil) qs, rest)"
  proof (rule Cons.IH [OF b(4)])
    show "fst ` set qs \<inter> fst ` set (raw_set k v ps) = {}"
      using Cons.prems(5,6) by (auto simp: q raw_set_new [OF new] split: if_splits)
  qed (use Cons.prems b g in auto)
  then show ?case using b(1) rd k by (simp add: g q raw_set_new [OF new])
qed

lemma length_in_concat: "bs \<in> set bss \<Longrightarrow> length bs \<le> length (concat bss)"
  by (induction bss) auto

lemma length_bss_le: "list_all2 reads vs bss \<Longrightarrow> length bss \<le> length (concat bss)"
proof (induction rule: list_all2_induct)
  case (Cons v vs bs bss)
  then show ?case by (cases bs) (auto simp: reads_def)
qed simp

lemma length_pair_list [simp]: "length (pair_list qs) = 2 * length qs"
  by (induction qs) (auto simp: pair_list_def)

lemma in_array_index: "1 \<le> j \<Longrightarrow> j \<le> n \<Longrightarrow> n < 2 ^ 31 \<Longrightarrow> in_array n (LInteger (of_nat j))"
  by (simp add: in_array_def signed_of_nat) (simp add: signed_take_bit_int_eq_self)

lemma reads_table:
  assumes c: "0 \<le> c" "c < 32" "\<forall>rest. get_array_size c (hb @ rest) = Inr (int n, rest)" and n: "n < 2 ^ 31" "length vs = n"
    and arr: "list_all2 reads vs abss" and hash: "list_all2 reads (pair_list qs) hbss"
    and keys: "\<forall>p \<in> set qs. key_ok (fst p) \<and> \<not> in_array n (fst p)" "distinct (map fst qs)"
  shows "reads (LTable n (filter (\<lambda>p. snd p \<noteq> LNil) (zip (map (\<lambda>j. LInteger (of_nat j)) [1..<Suc n]) vs) @ filter (\<lambda>p. snd p \<noteq> LNil) qs))
    (COMBINE_TYPE TYPE_TABLE c # hb @ concat abss @ concat hbss @ [0])" (is "reads (LTable n (?arr @ _)) ?bs")
  unfolding reads_def
proof (intro conjI allI impI)
  fix f rest
  assume "length ?bs < f"
  then obtain g where g: "f = Suc g" "length ?bs \<le> g" by (cases f) auto
  have short: "\<forall>bs \<in> set abss. length bs < g" "\<forall>bs \<in> set hbss. length bs < g"
    using g(2) length_in_concat [of _ abss] length_in_concat [of _ hbss] by (fastforce dest: order_le_less_trans)+
  have pairs: "length qs < g" "1 < g"
    using g(2) length_bss_le [OF hash] list_all2_lengthD [OF hash] by simp_all
  have a: "unpack_array (unpack_one g) n 1 [] (concat abss @ concat hbss @ 0 # rest) = Inr (?arr, concat hbss @ 0 # rest)"
    using unpack_array_reads [OF arr short(1), of 1 "[]" "concat hbss @ 0 # rest"] n by simp
  have "fst ` set qs \<inter> fst ` set ?arr = {}"
    using keys(1) in_array_index [OF _ _ n(1)] by (fastforce dest!: set_zip_leftD)
  with unpack_hash_reads [OF hash short(2) pairs(2) _ keys(2) _ pairs(1), of ?arr rest] keys(1)
  have h: "unpack_hash (unpack_one g) g ?arr (concat hbss @ 0 # rest) = Inr (?arr @ filter (\<lambda>p. snd p \<noteq> LNil) qs, rest)"
    by simp
  show "unpack_one f (?bs @ rest) = Inr (LTable n (?arr @ filter (\<lambda>p. snd p \<noteq> LNil) qs), rest)"
    using unpack_one_head [of 6 c g] c a h by (simp add: g(1) seri_types unpack_table_def del: unpack_one.simps)
qed simp

text \<open>What \<^verbatim>\<open>pack_one\<close> writes is read as the same value.\<close>

definition packs :: "(lua_value \<Rightarrow> write_block \<Rightarrow> seri_error + write_block) \<Rightarrow> bool" where
  "packs pk \<longleftrightarrow> (\<forall>v wb wb'. pk v wb = Inr wb' \<longrightarrow> wb_inv wb \<longrightarrow> lua_ok v \<longrightarrow>
     (\<exists>bs. wb_inv wb' \<and> wb_stream wb' = wb_stream wb @ bs \<and> reads (canon v) bs))"

lemma packsE:
  assumes "packs pk" "pk v wb = Inr wb'" "wb_inv wb" "lua_ok v"
  obtains bs where "wb_inv wb'" "wb_stream wb' = wb_stream wb @ bs" "reads (canon v) bs"
  using assms unfolding packs_def by blast

lemma pack_list_packs:
  assumes "packs pk" "pack_list pk vs wb = Inr wb'" "wb_inv wb" "\<forall>v \<in> set vs. lua_ok v"
  shows "\<exists>bss. wb_inv wb' \<and> wb_stream wb' = wb_stream wb @ concat bss \<and> list_all2 reads (map canon vs) bss"
  using assms(2-4)
proof (induction vs arbitrary: wb)
  case Nil
  then show ?case by (intro exI [of _ "[]"]) simp
next
  case (Cons v vs)
  from Cons.prems(1) obtain wb1 where 1: "pk v wb = Inr wb1" "pack_list pk vs wb1 = Inr wb'" by (auto split: sum.splits)
  have "lua_ok v" using Cons.prems(3) by simp
  from packsE [OF assms(1) 1(1) Cons.prems(2) this] obtain bs where
    bs: "wb_inv wb1" "wb_stream wb1 = wb_stream wb @ bs" "reads (canon v) bs" .
  from Cons.IH [OF 1(2) bs(1)] Cons.prems(3) obtain bss where
    "wb_inv wb'" "wb_stream wb' = wb_stream wb1 @ concat bss" "list_all2 reads (map canon vs) bss" by auto
  with bs show ?case by (intro exI [of _ "bs # bss"]) simp
qed

lemma pair_list_canon: "\<forall>p \<in> set ps. key_ok (fst p) \<Longrightarrow> map canon (pair_list ps) = pair_list (map (\<lambda>(k, v). (k, canon v)) ps)"
  by (induction ps) (auto simp: pair_list_def)

lemma pair_list_ok: "\<forall>(k, v) \<in> set ps. key_ok k \<and> lua_ok v \<Longrightarrow> \<forall>v \<in> set (pair_list ps). lua_ok v"
  by (induction ps) (auto simp: pair_list_def key_ok_table_key)

lemma wb_table_packs:
  assumes pk: "packs pk" and run: "wb_table pk n ps wb = Inr wb'" and inv: "wb_inv wb" and ok: "lua_ok (LTable n ps)"
  shows "\<exists>bs. wb_inv wb' \<and> wb_stream wb' = wb_stream wb @ bs \<and> reads (canon (LTable n ps)) bs"
proof -
  let ?rest = "filter (\<lambda>p. \<not> in_array n (fst p)) ps"
  let ?qs = "map (\<lambda>(k, v). (k, canon v)) ps"
  from ok have n: "n < 2 ^ 31" and vals: "\<forall>(k, v) \<in> set ps. lua_ok v" and pairs: "\<forall>(k, v) \<in> set ?rest. key_ok k \<and> lua_ok v" by auto
  from run obtain wb1 wb2 where
    r: "pack_list pk (map (raw_geti ps) [1..<Suc n]) (table_header wb n) = Inr wb1"
    "pack_list pk (pair_list ?rest) wb1 = Inr wb2" "wb' = wb_nil wb2"
    by (auto simp: wb_table_def split: sum.splits)
  from table_header_ok [OF inv n] obtain c hb where
    h: "wb_inv (table_header wb n)" "wb_stream (table_header wb n) = wb_stream wb @ COMBINE_TYPE TYPE_TABLE c # hb"
    "0 \<le> c" "c < 32" "\<forall>rest. get_array_size c (hb @ rest) = Inr (int n, rest)" .
  from pack_list_packs [OF pk r(1) h(1)] raw_geti_ok [OF vals] obtain abss where
    a: "wb_inv wb1" "wb_stream wb1 = wb_stream (table_header wb n) @ concat abss"
    "list_all2 reads (map canon (map (raw_geti ps) [1..<Suc n])) abss" by auto
  from pack_list_packs [OF pk r(2) a(1) pair_list_ok [OF pairs]] obtain hbss where
    b: "wb_inv wb2" "wb_stream wb2 = wb_stream wb1 @ concat hbss" "list_all2 reads (map canon (pair_list ?rest)) hbss" by blast
  have qs: "filter (\<lambda>p. \<not> in_array n (fst p)) ?qs = map (\<lambda>(k, v). (k, canon v)) ?rest"
    by (simp add: filter_map o_def split_def)
  have keep: "filter (\<lambda>p. snd p \<noteq> LNil) (map (\<lambda>(k, v). (k, canon v)) ?rest) = map (\<lambda>(k, v). (k, canon v)) ?rest"
    using ok by (auto simp: filter_id_conv)
  have arr: "array_pairs n ?qs = filter (\<lambda>p. snd p \<noteq> LNil)
      (zip (map (\<lambda>j. LInteger (of_nat j)) [1..<Suc n]) (map canon (map (raw_geti ps) [1..<Suc n])))"
    unfolding array_pairs_def raw_geti_canon by (simp add: zip_map_map zip_same_conv_map o_def del: upt_Suc)
  have hash: "list_all2 reads (pair_list (map (\<lambda>(k, v). (k, canon v)) ?rest)) hbss"
    using b(3) pairs by (subst pair_list_canon [symmetric]) auto
  have keys: "\<forall>p \<in> set (map (\<lambda>(k, v). (k, canon v)) ?rest). key_ok (fst p) \<and> \<not> in_array n (fst p)"
    "distinct (map fst (map (\<lambda>(k, v). (k, canon v)) ?rest))"
    using ok by (auto simp: distinct_map_filter o_def split_def)
  from reads_table [OF h(3-5) n _ a(3) hash keys]
  have "reads (canon (LTable n ps)) (COMBINE_TYPE TYPE_TABLE c # hb @ concat abss @ concat hbss @ [0])"
    unfolding canon.simps Let_def qs arr keep by (simp del: upt_Suc)
  moreover have "wb_inv wb'" "wb_stream wb' = wb_stream wb @ COMBINE_TYPE TYPE_TABLE c # hb @ concat abss @ concat hbss @ [0]"
    using r(3) b a h by (simp_all add: wb_nil_def seri_types)
  ultimately show ?thesis by blast
qed

lemma wb_table_metapairs_packs:
  assumes pk: "packs pk" and run: "wb_table_metapairs pk ps wb = Inr wb'" and inv: "wb_inv wb" and ok: "lua_ok (LMeta ps)"
  shows "\<exists>bs. wb_inv wb' \<and> wb_stream wb' = wb_stream wb @ bs \<and> reads (canon (LMeta ps)) bs"
proof -
  let ?qs = "map (\<lambda>(k, v). (k, canon v)) ps"
  have all: "takeWhile (\<lambda>p. fst p \<noteq> LNil) ps = ps" using ok by (auto simp: takeWhile_eq_all_conv key_ok_table_key)
  from run obtain wb1 where
    r: "pack_list pk (pair_list ps) (wb_push wb [COMBINE_TYPE TYPE_TABLE 0]) = Inr wb1" "wb' = wb_nil wb1"
    by (auto simp: wb_table_metapairs_def all split: sum.splits)
  have "wb_inv (wb_push wb [COMBINE_TYPE TYPE_TABLE 0])" "\<forall>v \<in> set (pair_list ps). lua_ok v"
    using inv ok pair_list_ok [of ps] by auto
  from pack_list_packs [OF pk r(1) this] obtain hbss where
    b: "wb_inv wb1" "wb_stream wb1 = wb_stream wb @ COMBINE_TYPE TYPE_TABLE 0 # concat hbss"
    "list_all2 reads (map canon (pair_list ps)) hbss" using inv by auto
  have hash: "list_all2 reads (pair_list ?qs) hbss" using b(3) ok by (subst pair_list_canon [symmetric]) auto
  have keys: "\<forall>p \<in> set ?qs. key_ok (fst p) \<and> \<not> in_array 0 (fst p)" "distinct (map fst ?qs)"
    using ok by (auto simp: in_array_def o_def split_def split: lua_value.splits)
  have size: "\<forall>rest. get_array_size 0 ([] @ rest) = Inr (int 0, rest)" by (simp add: get_array_size_def seri_types)
  from reads_table [OF _ _ size _ _ _ hash keys, of "[]" "[]"]
  have "reads (canon (LMeta ps)) (COMBINE_TYPE TYPE_TABLE 0 # concat hbss @ [0])" by simp
  moreover have "wb_inv wb'" "wb_stream wb' = wb_stream wb @ COMBINE_TYPE TYPE_TABLE 0 # concat hbss @ [0]"
    using r(2) b by (simp_all add: wb_nil_def seri_types)
  ultimately show ?thesis by blast
qed

lemma pack_one_packs: "packs (pack_one left)"
proof (induction left)
  case 0
  then show ?case by (simp add: packs_def)
next
  case (Suc left)
  show ?case
    unfolding packs_def
  proof (intro allI impI)
    fix v wb wb'
    assume run: "pack_one (Suc left) v wb = Inr wb'" and inv: "wb_inv wb" and ok: "lua_ok v"
    show "\<exists>bs. wb_inv wb' \<and> wb_stream wb' = wb_stream wb @ bs \<and> reads (canon v) bs"
    proof (cases v)
      case LNil
      with run inv show ?thesis using reads_nil by (auto simp: wb_nil_def seri_types)
    next
      case (LBoolean b)
      have "reads v [COMBINE_TYPE TYPE_BOOLEAN (if b then 1 else 0)]"
        using LBoolean by (intro reads_scalarI) (simp_all add: push_scalar_def seri_types)
      with LBoolean run inv show ?thesis by (auto simp: wb_boolean_def)
    next
      case (LInteger x)
      from wb_integer_ok [OF inv, where v = x] obtain c bs where
        "wb_inv (wb_integer wb x)" "wb_stream (wb_integer wb x) = wb_stream wb @ COMBINE_TYPE TYPE_NUMBER c # bs"
        "0 \<le> c" "c < 8" "\<forall>rest. get_integer c (bs @ rest) = Inr (x, rest)" .
      with LInteger run reads_integer [of c bs x] show ?thesis by auto
    next
      case (LReal x)
      have "reads v (COMBINE_TYPE TYPE_NUMBER TYPE_NUMBER_REAL # le_bytes 8 (unat x))"
        using LReal get_word_le_bytes by (intro reads_scalarI) (simp_all add: push_scalar_def seri_types)
      with LReal run inv show ?thesis by (auto simp: wb_real_def)
    next
      case (LPointer x)
      have "COMBINE_TYPE TYPE_USERDATA 0 = of_int TYPE_USERDATA" by (simp add: COMBINE_TYPE_def)
      moreover have "reads v (COMBINE_TYPE TYPE_USERDATA 0 # le_bytes 8 (unat x))"
        using LPointer get_word_le_bytes by (intro reads_scalarI) (simp_all add: push_scalar_def seri_types)
      ultimately show ?thesis using LPointer run inv by (auto simp: wb_pointer_def)
    next
      case (LString str)
      then have "length str < 2 ^ 31" using ok by simp
      from wb_string_ok [OF inv this] LString run show ?thesis by auto
    next
      case (LTable n ps)
      with run have "wb_table (pack_one left) n ps wb = Inr wb'" by simp
      from wb_table_packs [OF Suc this inv] ok LTable show ?thesis by simp
    next
      case (LMeta ps)
      with run have "wb_table_metapairs (pack_one left) ps wb = Inr wb'" by simp
      from wb_table_metapairs_packs [OF Suc this inv] ok LMeta show ?thesis by simp
    next
      case LOther
      with run show ?thesis by simp
    qed
  qed
qed

lemma unpack_all_reads:
  assumes "list_all2 reads vs bss" "length (concat bss) < f"
  shows "unpack_all (Suc f) (concat bss) = Inr vs"
  using assms
proof (induction vs bss arbitrary: f rule: list_all2_induct)
  case Nil
  then show ?case by simp
next
  case (Cons v vs bs bss)
  then obtain g where g: "f = Suc g" by (cases f) auto
  have "bs \<noteq> []" "unpack_one f (bs @ concat bss) = Inr (v, concat bss)" using Cons by (simp_all add: reads_def)
  moreover have "length (concat bss) < g" using Cons.prems g \<open>bs \<noteq> []\<close> by (cases bs) simp_all
  ultimately show ?case using Cons.IH [of g] g by (simp del: unpack_one.simps)
qed

lemma unat_of_nat_u64: "j < 2 ^ 32 \<Longrightarrow> unat (of_nat j :: u64) = j"
  by (simp add: unsigned_of_nat take_bit_nat_eq_self)

text \<open>The reader built the same table: every key has the same value.\<close>

lemma map_of_array_pairs:
  assumes "n < 2 ^ 31" "\<forall>p \<in> set ps. snd p \<noteq> LNil"
  shows "map_of (array_pairs n ps) k = (if in_array n k then map_of ps k else None)"
proof (cases "in_array n k")
  case False
  then have "k \<notin> fst ` set (array_pairs n ps)"
    using in_array_index [OF _ _ assms(1)] by (force simp: array_pairs_def simp del: upt_Suc)
  with False show ?thesis by (simp add: map_of_eq_None_iff)
next
  case True
  then obtain x where x: "k = LInteger x" "0 < sint x" "sint x \<le> int n" by (auto simp: in_array_def split: lua_value.splits)
  let ?j = "nat (sint x)"
  have k: "k = LInteger (of_nat ?j)"
    using x scast_id [of x] scast_eq [of x, where ?'a = 64] by simp
  have inj: "i = ?j" if "(of_nat i :: u64) = of_nat ?j" "i < Suc n" for i
  proof -
    have "i < 2 ^ 32" "?j < 2 ^ 32" using that(2) x assms(1) by simp_all
    with that(1) unat_of_nat_u64 [of i] unat_of_nat_u64 [of ?j] show ?thesis by metis
  qed
  have dist: "distinct (map fst (array_pairs n ps))"
    unfolding array_pairs_def
  proof (rule distinct_map_filter)
    have "inj_on (\<lambda>i. of_nat i :: u64) (set [1..<Suc n])"
    proof (rule inj_onI)
      fix i j assume "i \<in> set [1..<Suc n]" "j \<in> set [1..<Suc n]" "(of_nat i :: u64) = of_nat j"
      moreover from this assms(1) have "i < 2 ^ 32" "j < 2 ^ 32" by (simp_all del: upt_Suc)
      ultimately show "i = j" using unat_of_nat_u64 [of i] unat_of_nat_u64 [of j] by metis
    qed
    then have "inj_on (\<lambda>i. LInteger (of_nat i)) (set [1..<Suc n])" unfolding inj_on_def by (simp only: lua_value.inject)
    then show "distinct (map fst (map (\<lambda>i. (LInteger (of_nat i), raw_geti ps i)) [1..<Suc n]))"
      by (simp only: map_map o_def fst_conv distinct_map distinct_upt simp_thms)
  qed
  show ?thesis
  proof (cases "map_of ps k")
    case None
    then have "raw_geti ps ?j = LNil" using k by (simp add: raw_geti_def)
    then have "k \<notin> fst ` set (array_pairs n ps)" using inj k by (auto simp: array_pairs_def simp del: upt_Suc)
    then have "map_of (array_pairs n ps) k = None" by (simp add: map_of_eq_None_iff)
    with True None show ?thesis by simp
  next
    case (Some v)
    then have "raw_geti ps ?j = v" "v \<noteq> LNil" using k assms(2) by (force simp: raw_geti_def dest: map_of_SomeD)+
    moreover from this(1) have "(k, v) = (\<lambda>i. (LInteger (of_nat i), raw_geti ps i)) ?j" using k by simp
    moreover have "?j \<in> set [1..<Suc n]" unfolding set_upt atLeastLessThan_iff using x by linarith
    ultimately have "(k, v) \<in> set (array_pairs n ps)"
      unfolding array_pairs_def set_filter set_map by (metis (mono_tags, lifting) imageI mem_Collect_eq snd_conv)
    with True Some dist show ?thesis by simp
  qed
qed

lemma canon_table:
  assumes "lua_ok (LTable n ps)"
  obtains qs where "canon (LTable n ps) = LTable n qs" "\<forall>k. map_of qs k = map_option canon (map_of ps k)"
proof -
  let ?qs = "map (\<lambda>(k, v). (k, canon v)) ps"
  have "map_of (filter (\<lambda>p. \<not> in_array n (fst p)) xs) k = (if in_array n k then None else map_of xs k)"
    for xs :: "(lua_value \<times> lua_value) list" and k
    by (induction xs) auto
  moreover have "\<forall>p \<in> set ?qs. snd p \<noteq> LNil" using assms by auto
  ultimately have "map_of (array_pairs n ?qs @ filter (\<lambda>p. \<not> in_array n (fst p)) ?qs) k = map_of ?qs k" for k
    using map_of_array_pairs [of n ?qs k] assms by (simp add: map_add_def split: option.splits)
  moreover have "map_of ?qs k = map_option canon (map_of ps k)" for k by (simp add: map_of_map)
  ultimately show thesis by (intro that [of "array_pairs n ?qs @ filter (\<lambda>p. \<not> in_array n (fst p)) ?qs"]) (simp only: canon.simps Let_def, metis)
qed

text \<open>The reader always ends: a value takes at least one byte.\<close>

definition leaves :: "nat \<Rightarrow> seri_error + 'a \<times> u8 list \<Rightarrow> bool" where
  "leaves n r \<longleftrightarrow> (case r of Inl e \<Rightarrow> e \<noteq> Out_Of_Fuel | Inr (v, rest) \<Rightarrow> length rest \<le> n)"

lemma leaves_simps [simp]: "leaves n (Inl e) \<longleftrightarrow> e \<noteq> Out_Of_Fuel" "leaves n (Inr (v, rest)) \<longleftrightarrow> length rest \<le> n"
  by (simp_all add: leaves_def)

lemma leaves_mono: "leaves m r \<Longrightarrow> m \<le> n \<Longrightarrow> leaves n r"
  by (auto simp: leaves_def split: sum.splits)

lemma rb_read_None_or:
  obtains "rb_read n rb = None" | bs rest where "rb_read n rb = Some (bs, rest)" "length rest + n = length rb"
  by (cases "length rb < n") (auto simp: rb_read_def)

lemma get_integer_leaves [simp]: "leaves (length rb) (get_integer c rb)"
  unfolding get_integer_def by (auto simp: rb_read_def split: option.split)

lemma get_word_leaves: "leaves (length rb) (get_word rb)"
  by (auto simp: get_word_def rb_read_def)

lemma get_buffer_leaves: "leaves (length rb) (get_buffer len rb)"
  by (auto simp: get_buffer_def rb_read_def)

lemma get_long_string_leaves: "leaves (length rb) (get_long_string c rb)"
  by (rule rb_read_None_or [of 2 rb]; rule rb_read_None_or [of 4 rb])
    (auto simp: get_long_string_def intro: leaves_mono [OF get_buffer_leaves])

lemma leaves_bind:
  assumes "leaves n r" "\<And>v rest. length rest \<le> n \<Longrightarrow> leaves n (k v rest)"
  shows "leaves n (case r of Inl e \<Rightarrow> Inl e | Inr (v, rest) \<Rightarrow> k v rest)"
  using assms by (cases r) (auto simp: leaves_def)

lemma leaves_map: "leaves n r \<Longrightarrow> leaves n (case r of Inl e \<Rightarrow> Inl e | Inr (v, rb) \<Rightarrow> Inr (g v, rb))"
  by (auto simp: leaves_def split: sum.splits)

lemma push_scalar_leaves: "leaves (length rb) (push_scalar t c rb)"
  unfolding push_scalar_def
  by (auto intro: leaves_map get_word_leaves get_buffer_leaves get_long_string_leaves)

lemma get_array_size_leaves: "leaves (length rb) (get_array_size c rb)"
proof (rule rb_read_None_or [of 1 rb])
  fix bs rest
  assume "rb_read 1 rb = Some (bs, rest)" "length rest + 1 = length rb"
  then show ?thesis
    by (auto simp: get_array_size_def Let_def intro: leaves_mono [OF leaves_map [OF get_integer_leaves]])
qed (simp add: get_array_size_def)

text \<open>A reader of values that takes at least one byte, on inputs below a length.\<close>

definition consumes :: "nat \<Rightarrow> reader \<Rightarrow> bool" where
  "consumes m rd \<longleftrightarrow> (\<forall>rb. length rb < m \<longrightarrow> (case rd rb of Inl e \<Rightarrow> e \<noteq> Out_Of_Fuel | Inr (v, rest) \<Rightarrow> length rest < length rb))"

lemma consumesE:
  assumes "consumes m rd" "length rb < m"
  obtains e where "rd rb = Inl e" "e \<noteq> Out_Of_Fuel" | v rest where "rd rb = Inr (v, rest)" "length rest < length rb"
proof -
  from assms have *: "case rd rb of Inl e \<Rightarrow> e \<noteq> Out_Of_Fuel | Inr (v, rest) \<Rightarrow> length rest < length rb"
    by (simp add: consumes_def)
  show thesis
  proof (cases "rd rb")
    case (Inl e)
    with * that(1) show thesis by simp
  next
    case (Inr r)
    with * that(2) [of "fst r" "snd r"] show thesis by (cases r) simp
  qed
qed

lemma unpack_array_leaves:
  assumes "consumes m rd" "length rb < m"
  shows "leaves (length rb) (unpack_array rd n i ps rb)"
  using assms(2)
proof (induction n arbitrary: i ps rb)
  case (Suc n)
  show ?case
  proof (cases rule: consumesE [OF assms(1) Suc.prems])
    case (1 e)
    then show ?thesis by simp
  next
    case (2 v rest)
    with Suc.prems have "leaves (length rest) (unpack_array rd n (Suc i) (raw_set (LInteger (of_nat i)) v ps) rest)"
      by (intro Suc.IH) simp
    with 2 show ?thesis by (simp add: leaves_mono)
  qed
qed simp

lemma unpack_hash_leaves:
  assumes "consumes m rd" "length rb < m" "length rb < f"
  shows "leaves (length rb) (unpack_hash rd f ps rb)"
  using assms(2,3)
proof (induction f arbitrary: ps rb)
  case (Suc f)
  show ?case
  proof (cases rule: consumesE [OF assms(1) Suc.prems(1)])
    case (1 e)
    then show ?thesis by simp
  next
    case (2 k rest)
    with Suc.prems have m: "length rest < m" by simp
    show ?thesis
    proof (cases rule: consumesE [OF assms(1) m])
      case (1 e)
      with 2 show ?thesis by simp
    next
      case 3: (2 v rest2)
      have "leaves (length rb) (unpack_hash rd f ps' rest2)" for ps'
        using Suc.IH [of rest2 ps'] 2(2) 3(2) Suc.prems by (simp add: leaves_mono)
      with 2 3 show ?thesis by (simp split: option.split)
    qed
  qed
qed simp

lemma unpack_table_leaves:
  assumes "consumes f rd" "length rb < f"
  shows "leaves (length rb) (unpack_table rd f c rb)"
  unfolding unpack_table_def
proof (rule leaves_bind [OF get_array_size_leaves])
  fix n :: int and r1 :: "u8 list"
  assume r1: "length r1 \<le> length rb"
  with assms(2) have f1: "length r1 < f" by simp
  show "leaves (length rb) (case unpack_array rd (nat n) 1 [] r1 of
      Inl e \<Rightarrow> Inl e
    | Inr (ps, rb) \<Rightarrow> (case unpack_hash rd f ps rb of Inl e \<Rightarrow> Inl e | Inr (ps, rb) \<Rightarrow> Inr (LTable (nat n) ps, rb)))"
  proof (rule leaves_bind [OF leaves_mono [OF unpack_array_leaves [OF assms(1) f1] r1]])
    fix ps and r2 :: "u8 list"
    assume r2: "length r2 \<le> length rb"
    with assms(2) have f2: "length r2 < f" by simp
    show "leaves (length rb) (case unpack_hash rd f ps r2 of Inl e \<Rightarrow> Inl e | Inr (ps, rb) \<Rightarrow> Inr (LTable (nat n) ps, rb))"
      by (rule leaves_map [OF leaves_mono [OF unpack_hash_leaves [OF assms(1) f2 f2] r2]])
  qed
qed

lemma unpack_one_consumes: "consumes f (unpack_one f)"
proof (induction f)
  case (Suc f)
  have "case unpack_one (Suc f) rb of Inl e \<Rightarrow> e \<noteq> Out_Of_Fuel | Inr (v, rest) \<Rightarrow> length rest < length rb"
    if "length rb < Suc f" for rb
  proof (cases rb)
    case Nil
    then show ?thesis by (simp add: rb_read_def)
  next
    case (Cons b rest)
    with that have "length rest < f" by simp
    from unpack_table_leaves [OF Suc this] have "leaves (length rest) (unpack_one (Suc f) rb)"
      by (simp add: Cons Let_def push_scalar_leaves)
    then show ?thesis
      unfolding leaves_def using Cons by (cases "unpack_one (Suc f) rb") (auto simp del: unpack_one.simps)
  qed
  then show ?case by (simp add: consumes_def del: unpack_one.simps)
qed (simp add: consumes_def)

lemma unpack_all_total: "length rb < f \<Longrightarrow> unpack_all (Suc f) rb \<noteq> Inl Out_Of_Fuel"
proof (induction f arbitrary: rb)
  case (Suc f)
  show ?case
  proof (cases rule: consumesE [OF unpack_one_consumes Suc.prems])
    case (1 e)
    then show ?thesis by (simp del: unpack_one.simps)
  next
    case (2 v rest)
    with Suc.IH [of rest] Suc.prems show ?thesis by (auto split: sum.splits simp del: unpack_one.simps)
  qed
qed simp

subsection \<open>Properties\<close>

text \<open>Property C28: whatever values a service packs, if packing succeeds then the message is one block of
  initialised bytes, and unpacking it gives the same values: numbers, strings and pointers
  themselves, and tables with the same pairs.\<close>

theorem seri_roundtrip:
  assumes "\<forall>v \<in> set vs. lua_ok v" "luaseri_pack vs = Inr msg"
  shows "\<exists>bs. msg = Some bs \<and> luaseri_unpack (Buffer bs) = Inr (map canon vs)"
proof -
  from assms(2) obtain wb where wb: "pack_list (pack_one (Suc MAX_DEPTH)) vs wb_init = Inr wb" "msg = seri wb"
    by (auto simp: luaseri_pack_def split: sum.splits)
  from pack_list_packs [OF pack_one_packs wb(1) _ assms(1)] obtain bss where
    b: "wb_inv wb" "wb_stream wb = concat bss" "list_all2 reads (map canon vs) bss" by auto
  have "concat bss = [] \<Longrightarrow> bss = []" using length_bss_le [OF b(3)] by (metis le_zero_eq length_0_conv)
  then show ?thesis
    using unpack_all_reads [OF b(3), of "Suc (length (concat bss))"] b wb(2) seri_ok [OF b(1)] by auto
qed

definition demo_values :: "lua_value list" where
  "demo_values = [LInteger 300, LString [104, 105],
     LTable 2 [(LString [107], LBoolean True), (LInteger 1, LInteger (- 5)), (LInteger 2, LReal 0x3FF8000000000000)]]"

theorem seri_roundtrip_witness:
  "\<exists>bs. luaseri_pack demo_values = Inr (Some bs) \<and> luaseri_unpack (Buffer bs) = Inr [LInteger 300, LString [104, 105],
     LTable 2 [(LInteger 1, LInteger (- 5)), (LInteger 2, LReal 0x3FF8000000000000), (LString [107], LBoolean True)]]"
proof -
  have "\<forall>v \<in> set demo_values. lua_ok v" by (simp add: demo_values_def key_ok_def)
  moreover obtain msg where msg: "luaseri_pack demo_values = Inr msg"
    by (simp add: luaseri_pack_def demo_values_def MAX_DEPTH_def wb_table_def pair_list_def raw_geti_def in_array_def numeral_eq_Suc)
  ultimately obtain bs where "msg = Some bs" "luaseri_unpack (Buffer bs) = Inr (map canon demo_values)"
    using seri_roundtrip by blast
  moreover have "map canon demo_values = [LInteger 300, LString [104, 105],
     LTable 2 [(LInteger 1, LInteger (- 5)), (LInteger 2, LReal 0x3FF8000000000000), (LString [107], LBoolean True)]]"
    by (simp add: demo_values_def array_pairs_def raw_geti_def in_array_def upt_rec)
  ultimately show ?thesis using msg by metis
qed

text \<open>Property: a table keeps its pairs on the trip: after unpacking, every key has the value it had, itself
  unpacked, and no other key has one.\<close>

theorem seri_table_keeps_pairs:
  assumes "lua_ok (LTable n ps)" "luaseri_pack [LTable n ps] = Inr msg"
  shows "\<exists>bs qs. msg = Some bs \<and> luaseri_unpack (Buffer bs) = Inr [LTable n qs] \<and>
    (\<forall>k. map_of qs k = map_option canon (map_of ps k))"
proof -
  from assms(2) obtain wb where wb: "pack_list (pack_one (Suc MAX_DEPTH)) [LTable n ps] wb_init = Inr wb" "msg = seri wb"
    unfolding luaseri_pack_def by (auto split: sum.splits simp del: pack_one.simps)
  have "\<forall>v \<in> set [LTable n ps]. lua_ok v" using assms(1) by simp
  from pack_list_packs [OF pack_one_packs wb(1) wb_init_ok(1) this] obtain bs where
    b: "wb_inv wb" "wb_stream wb = bs" "reads (canon (LTable n ps)) bs" by (auto simp: list_all2_Cons1 simp del: canon.simps)
  from canon_table [OF assms(1)] obtain qs where
    "canon (LTable n ps) = LTable n qs" "\<forall>k. map_of qs k = map_option canon (map_of ps k)" .
  with unpack_all_reads [of "[LTable n qs]" "[bs]" "Suc (length bs)"] b wb(2) seri_ok [OF b(1)] show ?thesis
    by (auto simp: reads_def)
qed

theorem seri_table_keeps_pairs_witness:
  "\<exists>bs qs. luaseri_pack [LTable 0 [(LString [107], LBoolean True)]] = Inr (Some bs) \<and>
     luaseri_unpack (Buffer bs) = Inr [LTable 0 qs] \<and> map_of qs (LString [107]) = Some (LBoolean True)"
proof -
  obtain msg where msg: "luaseri_pack [LTable 0 [(LString [107], LBoolean True)]] = Inr msg"
    by (simp add: luaseri_pack_def MAX_DEPTH_def wb_table_def pair_list_def raw_geti_def in_array_def numeral_eq_Suc)
  from seri_table_keeps_pairs [OF _ msg] obtain bs qs where
    "msg = Some bs" "luaseri_unpack (Buffer bs) = Inr [LTable 0 qs]"
    "\<forall>k. map_of qs k = map_option canon (map_of [(LString [107], LBoolean True)] k)" by (auto simp: key_ok_def)
  with msg show ?thesis by auto
qed

text \<open>Property C29: unpacking ends on every message, also on one that no service packed: the loops take at least
  one byte of the message in every round, so the bound of the model is never reached. The result is
  a list of values or an error.\<close>

theorem seri_unpack_ends: "luaseri_unpack arg \<noteq> Inl Out_Of_Fuel"
proof (cases arg)
  case (Buffer bs)
  then show ?thesis using unpack_all_total [of bs "Suc (length bs)"] by (simp del: unpack_all.simps)
qed simp_all

end
