(* ===== verification/Des.thy ===== *)
theory Des
  imports Skynet_Prelude
begin

text \<open>
  The DES functions of \<^verbatim>\<open>lualib-src/lua-crypt.c\<close>: the tables, the key schedule, the encryption of a block, the
  two kinds of padding, and the functions \<^verbatim>\<open>desencode\<close> and \<^verbatim>\<open>desdecode\<close> for texts of any length.

  An error raised with \<^verbatim>\<open>luaL_error\<close> is a value of the type \<open>crypt_error\<close>; \<open>None\<close> is a read outside a buffer.
  The sizes of the texts are below \<open>2 ^ 31\<close>, where the \<^verbatim>\<open>int\<close> indices of the loops do not overflow. The padding mode is
  given; Lua calls without one get \<^verbatim>\<open>PADDING_MODE_ISO7816_4\<close>.
\<close>

subsection \<open>Tables\<close>

definition SB1 :: "u32 list" where
  "SB1 = [
     0x01010400, 0x00000000, 0x00010000, 0x01010404, 0x01010004, 0x00010404, 0x00000004, 0x00010000,
     0x00000400, 0x01010400, 0x01010404, 0x00000400, 0x01000404, 0x01010004, 0x01000000, 0x00000004,
     0x00000404, 0x01000400, 0x01000400, 0x00010400, 0x00010400, 0x01010000, 0x01010000, 0x01000404,
     0x00010004, 0x01000004, 0x01000004, 0x00010004, 0x00000000, 0x00000404, 0x00010404, 0x01000000,
     0x00010000, 0x01010404, 0x00000004, 0x01010000, 0x01010400, 0x01000000, 0x01000000, 0x00000400,
     0x01010004, 0x00010000, 0x00010400, 0x01000004, 0x00000400, 0x00000004, 0x01000404, 0x00010404,
     0x01010404, 0x00010004, 0x01010000, 0x01000404, 0x01000004, 0x00000404, 0x00010404, 0x01010400,
     0x00000404, 0x01000400, 0x01000400, 0x00000000, 0x00010004, 0x00010400, 0x00000000, 0x01010004]"

definition SB2 :: "u32 list" where
  "SB2 = [
     0x80108020, 0x80008000, 0x00008000, 0x00108020, 0x00100000, 0x00000020, 0x80100020, 0x80008020,
     0x80000020, 0x80108020, 0x80108000, 0x80000000, 0x80008000, 0x00100000, 0x00000020, 0x80100020,
     0x00108000, 0x00100020, 0x80008020, 0x00000000, 0x80000000, 0x00008000, 0x00108020, 0x80100000,
     0x00100020, 0x80000020, 0x00000000, 0x00108000, 0x00008020, 0x80108000, 0x80100000, 0x00008020,
     0x00000000, 0x00108020, 0x80100020, 0x00100000, 0x80008020, 0x80100000, 0x80108000, 0x00008000,
     0x80100000, 0x80008000, 0x00000020, 0x80108020, 0x00108020, 0x00000020, 0x00008000, 0x80000000,
     0x00008020, 0x80108000, 0x00100000, 0x80000020, 0x00100020, 0x80008020, 0x80000020, 0x00100020,
     0x00108000, 0x00000000, 0x80008000, 0x00008020, 0x80000000, 0x80100020, 0x80108020, 0x00108000]"

definition SB3 :: "u32 list" where
  "SB3 = [
     0x00000208, 0x08020200, 0x00000000, 0x08020008, 0x08000200, 0x00000000, 0x00020208, 0x08000200,
     0x00020008, 0x08000008, 0x08000008, 0x00020000, 0x08020208, 0x00020008, 0x08020000, 0x00000208,
     0x08000000, 0x00000008, 0x08020200, 0x00000200, 0x00020200, 0x08020000, 0x08020008, 0x00020208,
     0x08000208, 0x00020200, 0x00020000, 0x08000208, 0x00000008, 0x08020208, 0x00000200, 0x08000000,
     0x08020200, 0x08000000, 0x00020008, 0x00000208, 0x00020000, 0x08020200, 0x08000200, 0x00000000,
     0x00000200, 0x00020008, 0x08020208, 0x08000200, 0x08000008, 0x00000200, 0x00000000, 0x08020008,
     0x08000208, 0x00020000, 0x08000000, 0x08020208, 0x00000008, 0x00020208, 0x00020200, 0x08000008,
     0x08020000, 0x08000208, 0x00000208, 0x08020000, 0x00020208, 0x00000008, 0x08020008, 0x00020200]"

definition SB4 :: "u32 list" where
  "SB4 = [
     0x00802001, 0x00002081, 0x00002081, 0x00000080, 0x00802080, 0x00800081, 0x00800001, 0x00002001,
     0x00000000, 0x00802000, 0x00802000, 0x00802081, 0x00000081, 0x00000000, 0x00800080, 0x00800001,
     0x00000001, 0x00002000, 0x00800000, 0x00802001, 0x00000080, 0x00800000, 0x00002001, 0x00002080,
     0x00800081, 0x00000001, 0x00002080, 0x00800080, 0x00002000, 0x00802080, 0x00802081, 0x00000081,
     0x00800080, 0x00800001, 0x00802000, 0x00802081, 0x00000081, 0x00000000, 0x00000000, 0x00802000,
     0x00002080, 0x00800080, 0x00800081, 0x00000001, 0x00802001, 0x00002081, 0x00002081, 0x00000080,
     0x00802081, 0x00000081, 0x00000001, 0x00002000, 0x00800001, 0x00002001, 0x00802080, 0x00800081,
     0x00002001, 0x00002080, 0x00800000, 0x00802001, 0x00000080, 0x00800000, 0x00002000, 0x00802080]"

definition SB5 :: "u32 list" where
  "SB5 = [
     0x00000100, 0x02080100, 0x02080000, 0x42000100, 0x00080000, 0x00000100, 0x40000000, 0x02080000,
     0x40080100, 0x00080000, 0x02000100, 0x40080100, 0x42000100, 0x42080000, 0x00080100, 0x40000000,
     0x02000000, 0x40080000, 0x40080000, 0x00000000, 0x40000100, 0x42080100, 0x42080100, 0x02000100,
     0x42080000, 0x40000100, 0x00000000, 0x42000000, 0x02080100, 0x02000000, 0x42000000, 0x00080100,
     0x00080000, 0x42000100, 0x00000100, 0x02000000, 0x40000000, 0x02080000, 0x42000100, 0x40080100,
     0x02000100, 0x40000000, 0x42080000, 0x02080100, 0x40080100, 0x00000100, 0x02000000, 0x42080000,
     0x42080100, 0x00080100, 0x42000000, 0x42080100, 0x02080000, 0x00000000, 0x40080000, 0x42000000,
     0x00080100, 0x02000100, 0x40000100, 0x00080000, 0x00000000, 0x40080000, 0x02080100, 0x40000100]"

definition SB6 :: "u32 list" where
  "SB6 = [
     0x20000010, 0x20400000, 0x00004000, 0x20404010, 0x20400000, 0x00000010, 0x20404010, 0x00400000,
     0x20004000, 0x00404010, 0x00400000, 0x20000010, 0x00400010, 0x20004000, 0x20000000, 0x00004010,
     0x00000000, 0x00400010, 0x20004010, 0x00004000, 0x00404000, 0x20004010, 0x00000010, 0x20400010,
     0x20400010, 0x00000000, 0x00404010, 0x20404000, 0x00004010, 0x00404000, 0x20404000, 0x20000000,
     0x20004000, 0x00000010, 0x20400010, 0x00404000, 0x20404010, 0x00400000, 0x00004010, 0x20000010,
     0x00400000, 0x20004000, 0x20000000, 0x00004010, 0x20000010, 0x20404010, 0x00404000, 0x20400000,
     0x00404010, 0x20404000, 0x00000000, 0x20400010, 0x00000010, 0x00004000, 0x20400000, 0x00404010,
     0x00004000, 0x00400010, 0x20004010, 0x00000000, 0x20404000, 0x20000000, 0x00400010, 0x20004010]"

definition SB7 :: "u32 list" where
  "SB7 = [
     0x00200000, 0x04200002, 0x04000802, 0x00000000, 0x00000800, 0x04000802, 0x00200802, 0x04200800,
     0x04200802, 0x00200000, 0x00000000, 0x04000002, 0x00000002, 0x04000000, 0x04200002, 0x00000802,
     0x04000800, 0x00200802, 0x00200002, 0x04000800, 0x04000002, 0x04200000, 0x04200800, 0x00200002,
     0x04200000, 0x00000800, 0x00000802, 0x04200802, 0x00200800, 0x00000002, 0x04000000, 0x00200800,
     0x04000000, 0x00200800, 0x00200000, 0x04000802, 0x04000802, 0x04200002, 0x04200002, 0x00000002,
     0x00200002, 0x04000000, 0x04000800, 0x00200000, 0x04200800, 0x00000802, 0x00200802, 0x04200800,
     0x00000802, 0x04000002, 0x04200802, 0x04200000, 0x00200800, 0x00000000, 0x00000002, 0x04200802,
     0x00000000, 0x00200802, 0x04200000, 0x00000800, 0x04000002, 0x04000800, 0x00000800, 0x00200002]"

definition SB8 :: "u32 list" where
  "SB8 = [
     0x10001040, 0x00001000, 0x00040000, 0x10041040, 0x10000000, 0x10001040, 0x00000040, 0x10000000,
     0x00040040, 0x10040000, 0x10041040, 0x00041000, 0x10041000, 0x00041040, 0x00001000, 0x00000040,
     0x10040000, 0x10000040, 0x10001000, 0x00001040, 0x00041000, 0x00040040, 0x10040040, 0x10041000,
     0x00001040, 0x00000000, 0x00000000, 0x10040040, 0x10000040, 0x10001000, 0x00041040, 0x00040000,
     0x00041040, 0x00040000, 0x10041000, 0x00001000, 0x00000040, 0x10040040, 0x00001000, 0x00041040,
     0x10001000, 0x00000040, 0x10000040, 0x10040000, 0x10040040, 0x10000000, 0x00040000, 0x10001040,
     0x00000000, 0x10041040, 0x00040040, 0x10000040, 0x10040000, 0x10001000, 0x10001040, 0x00000000,
     0x10041040, 0x00041000, 0x00041000, 0x00001040, 0x00001040, 0x00040040, 0x10000000, 0x10041000]"

definition LHs :: "u32 list" where
  "LHs = [
     0x00000000, 0x00000001, 0x00000100, 0x00000101, 0x00010000, 0x00010001, 0x00010100, 0x00010101,
     0x01000000, 0x01000001, 0x01000100, 0x01000101, 0x01010000, 0x01010001, 0x01010100, 0x01010101]"

definition RHs :: "u32 list" where
  "RHs = [
     0x00000000, 0x01000000, 0x00010000, 0x01010000, 0x00000100, 0x01000100, 0x00010100, 0x01010100,
     0x00000001, 0x01000001, 0x00010001, 0x01010001, 0x00000101, 0x01000101, 0x00010101, 0x01010101]"

definition PADDING_MODE_ISO7816_4 :: int where "PADDING_MODE_ISO7816_4 = 0"
definition PADDING_MODE_PKCS7 :: int where "PADDING_MODE_PKCS7 = 1"
definition PADDING_MODE_COUNT :: int where "PADDING_MODE_COUNT = 2"

datatype crypt_error =
    Invalid_Key_Size nat
  | Invalid_Padding_Mode int
  | Invalid_Padding
  | Invalid_Text_Length nat
  | Invalid_Text
  | Invalid_Hex_Size nat
  | Invalid_Hex_Text
  | Invalid_Uint64 string
  | Cant_Be_0
  | Invalid_Base64
  | Cant_Xor_Empty

subsection \<open>Words and bytes\<close>

definition GET_UINT32 :: "u8 list \<Rightarrow> nat \<Rightarrow> u32" where
  "GET_UINT32 b i = push_bit 24 (ucast (b ! i)) OR push_bit 16 (ucast (b ! (i + 1)))
     OR push_bit 8 (ucast (b ! (i + 2))) OR ucast (b ! (i + 3))"

definition PUT_UINT32 :: "u32 \<Rightarrow> u8 list" where
  "PUT_UINT32 n = [ucast (drop_bit 24 n), ucast (drop_bit 16 n), ucast (drop_bit 8 n), ucast n]"

text \<open>A line \<^verbatim>\<open>T = ((X >> s) ^ Y) & m; Y ^= T; X ^= (T << s);\<close> of the permutations.\<close>

definition bit_swap :: "nat \<Rightarrow> u32 \<Rightarrow> u32 \<times> u32 \<Rightarrow> u32 \<times> u32" where
  "bit_swap s m = (\<lambda>(X, Y). let T = (drop_bit s X XOR Y) AND m in (X XOR push_bit s T, Y XOR T))"

definition rotl1 :: "u32 \<Rightarrow> u32" where
  "rotl1 X = (push_bit 1 X OR drop_bit 31 X) AND 0xFFFFFFFF"

definition rotr1 :: "u32 \<Rightarrow> u32" where
  "rotr1 X = (push_bit 31 X OR drop_bit 1 X) AND 0xFFFFFFFF"

definition DES_IP :: "u32 \<times> u32 \<Rightarrow> u32 \<times> u32" where
  "DES_IP = (\<lambda>(X, Y).
     let (X, Y) = bit_swap 4 0x0F0F0F0F (X, Y);
         (X, Y) = bit_swap 16 0x0000FFFF (X, Y);
         (Y, X) = bit_swap 2 0x33333333 (Y, X);
         (Y, X) = bit_swap 8 0x00FF00FF (Y, X);
         Y = rotl1 Y;
         (X, Y) = bit_swap 0 0xAAAAAAAA (X, Y) in
     (rotl1 X, Y))"

definition DES_FP :: "u32 \<times> u32 \<Rightarrow> u32 \<times> u32" where
  "DES_FP = (\<lambda>(X, Y).
     let X = rotr1 X;
         (X, Y) = bit_swap 0 0xAAAAAAAA (X, Y);
         Y = rotr1 Y;
         (Y, X) = bit_swap 8 0x00FF00FF (Y, X);
         (Y, X) = bit_swap 2 0x33333333 (Y, X);
         (X, Y) = bit_swap 16 0x0000FFFF (X, Y);
         (X, Y) = bit_swap 4 0x0F0F0F0F (X, Y) in
     (X, Y))"

definition sbox :: "u32 list \<Rightarrow> nat \<Rightarrow> u32 \<Rightarrow> u32" where
  "sbox SB s T = SB ! unat (drop_bit s T AND 0x3F)"

text \<open>\<^verbatim>\<open>DES_ROUND(X,Y)\<close> with the two words of the subkey: the new \<open>Y\<close>.\<close>

definition DES_ROUND :: "u32 \<times> u32 \<Rightarrow> u32 \<Rightarrow> u32 \<Rightarrow> u32" where
  "DES_ROUND K X Y = (
     let T = fst K XOR X;
         Y = Y XOR (sbox SB8 0 T XOR sbox SB6 8 T XOR sbox SB4 16 T XOR sbox SB2 24 T);
         T = snd K XOR (push_bit 28 X OR drop_bit 4 X) in
     Y XOR (sbox SB7 0 T XOR sbox SB5 8 T XOR sbox SB3 16 T XOR sbox SB1 24 T))"

subsection \<open>Key schedule\<close>

definition nib :: "u32 list \<Rightarrow> u32 \<Rightarrow> nat \<Rightarrow> nat \<Rightarrow> u32" where
  "nib tab X s l = push_bit l (tab ! unat (drop_bit s X AND 0xF))"

text \<open>One term \<^verbatim>\<open>((X << l) & m)\<close> or \<^verbatim>\<open>((X >> r) & m)\<close> of a subkey.\<close>

definition shl_mask :: "u32 \<Rightarrow> nat \<Rightarrow> u32 \<Rightarrow> u32" where
  "shl_mask X l m = push_bit l X AND m"

definition shr_mask :: "u32 \<Rightarrow> nat \<Rightarrow> u32 \<Rightarrow> u32" where
  "shr_mask X r m = drop_bit r X AND m"

definition subkey1 :: "u32 \<Rightarrow> u32 \<Rightarrow> u32" where
  "subkey1 X Y =
     shl_mask X 4 0x24000000 OR shl_mask X 28 0x10000000 OR shl_mask X 14 0x08000000 OR shl_mask X 18 0x02080000
     OR shl_mask X 6 0x01000000 OR shl_mask X 9 0x00200000 OR shr_mask X 1 0x00100000 OR shl_mask X 10 0x00040000
     OR shl_mask X 2 0x00020000 OR shr_mask X 10 0x00010000 OR shr_mask Y 13 0x00002000 OR shr_mask Y 4 0x00001000
     OR shl_mask Y 6 0x00000800 OR shr_mask Y 1 0x00000400 OR shr_mask Y 14 0x00000200 OR shr_mask Y 0 0x00000100
     OR shr_mask Y 5 0x00000020 OR shr_mask Y 10 0x00000010 OR shr_mask Y 3 0x00000008 OR shr_mask Y 18 0x00000004
     OR shr_mask Y 26 0x00000002 OR shr_mask Y 24 0x00000001"

definition subkey2 :: "u32 \<Rightarrow> u32 \<Rightarrow> u32" where
  "subkey2 X Y =
     shl_mask X 15 0x20000000 OR shl_mask X 17 0x10000000 OR shl_mask X 10 0x08000000 OR shl_mask X 22 0x04000000
     OR shr_mask X 2 0x02000000 OR shl_mask X 1 0x01000000 OR shl_mask X 16 0x00200000 OR shl_mask X 11 0x00100000
     OR shl_mask X 3 0x00080000 OR shr_mask X 6 0x00040000 OR shl_mask X 15 0x00020000 OR shr_mask X 4 0x00010000
     OR shr_mask Y 2 0x00002000 OR shl_mask Y 8 0x00001000 OR shr_mask Y 14 0x00000808 OR shr_mask Y 9 0x00000400
     OR shr_mask Y 0 0x00000200 OR shl_mask Y 7 0x00000100 OR shr_mask Y 7 0x00000020 OR shr_mask Y 3 0x00000011
     OR shl_mask Y 2 0x00000004 OR shr_mask Y 21 0x00000002"

definition permuted_choice1 :: "u8 list \<Rightarrow> u32 \<times> u32" where
  "permuted_choice1 key = (
     let X = GET_UINT32 key 0; Y = GET_UINT32 key 4;
         (Y, X) = bit_swap 4 0x0F0F0F0F (Y, X);
         (Y, X) = bit_swap 0 0x10101010 (Y, X);
         X = nib LHs X 0 3 OR nib LHs X 8 2 OR nib LHs X 16 1 OR nib LHs X 24 0
           OR nib LHs X 5 7 OR nib LHs X 13 6 OR nib LHs X 21 5 OR nib LHs X 29 4;
         Y = nib RHs Y 1 3 OR nib RHs Y 9 2 OR nib RHs Y 17 1 OR nib RHs Y 25 0
           OR nib RHs Y 4 7 OR nib RHs Y 12 6 OR nib RHs Y 20 5 OR nib RHs Y 28 4 in
     (X AND 0x0FFFFFFF, Y AND 0x0FFFFFFF))"

definition rot28 :: "nat \<Rightarrow> u32 \<Rightarrow> u32" where
  "rot28 n X = (push_bit n X OR drop_bit (28 - n) X) AND 0x0FFFFFFF"

text \<open>The loop for the rounds \<open>i, \<dots>, i + n - 1\<close>: a pair of words each.\<close>

fun subkeys :: "nat \<Rightarrow> nat \<Rightarrow> u32 \<Rightarrow> u32 \<Rightarrow> (u32 \<times> u32) list" where
  "subkeys 0 i X Y = []"
| "subkeys (Suc n) i X Y = (
     let s = (if i < 2 \<or> i = 8 \<or> i = 15 then 1 else 2); X = rot28 s X; Y = rot28 s Y in
     (subkey1 X Y, subkey2 X Y) # subkeys n (i + 1) X Y)"

definition des_main_ks :: "u8 list \<Rightarrow> (u32 \<times> u32) list" where
  "des_main_ks key = (let (X, Y) = permuted_choice1 key in subkeys 16 0 X Y)"

subsection \<open>Blocks\<close>

text \<open>Two rounds at a time, as the code writes them: \<^verbatim>\<open>DES_ROUND( Y, X );  DES_ROUND( X, Y );\<close>\<close>

fun des_rounds :: "(u32 \<times> u32) list \<Rightarrow> u32 \<times> u32 \<Rightarrow> u32 \<times> u32" where
  "des_rounds (K1 # K2 # SK) (X, Y) = (
     let X = DES_ROUND K1 Y X; Y = DES_ROUND K2 X Y in des_rounds SK (X, Y))"
| "des_rounds _ (X, Y) = (X, Y)"

definition des_crypt :: "(u32 \<times> u32) list \<Rightarrow> u8 list \<Rightarrow> u8 list" where
  "des_crypt SK input = (
     let (X, Y) = DES_IP (GET_UINT32 input 0, GET_UINT32 input 4);
         (X, Y) = des_rounds SK (X, Y);
         (Y, X) = DES_FP (Y, X) in
     PUT_UINT32 Y @ PUT_UINT32 X)"

subsection \<open>Padding\<close>

definition padding_add_iso7816_4 :: "u8 list \<Rightarrow> u8 list" where
  "padding_add_iso7816_4 buf = buf @ 0x80 # replicate (7 - length buf) 0"

text \<open>The bytes are seen from the last one backwards.\<close>

fun iso_scan :: "nat \<Rightarrow> int \<Rightarrow> u8 list \<Rightarrow> int option" where
  "iso_scan 0 padding bs = Some 0"
| "iso_scan (Suc n) padding [] = None"
| "iso_scan (Suc n) padding (b # bs) =
     (if b = 0 then iso_scan n (padding + 1) bs else if b = 0x80 then Some padding else Some 0)"

definition padding_remove_iso7816_4 :: "u8 list \<Rightarrow> int option" where
  "padding_remove_iso7816_4 buf = iso_scan 8 1 (rev buf)"

definition padding_add_pkcs7 :: "u8 list \<Rightarrow> u8 list" where
  "padding_add_pkcs7 buf = buf @ replicate (8 - length buf) (of_nat (8 - length buf))"

fun pkcs_scan :: "nat \<Rightarrow> u8 \<Rightarrow> u8 list \<Rightarrow> bool option" where
  "pkcs_scan 0 x bs = Some True"
| "pkcs_scan (Suc n) x [] = None"
| "pkcs_scan (Suc n) x (b # bs) = (if b \<noteq> x then Some False else pkcs_scan n x bs)"

definition padding_remove_pkcs7 :: "u8 list \<Rightarrow> int option" where
  "padding_remove_pkcs7 buf = (case rev buf of
     [] \<Rightarrow> None
   | x # bs \<Rightarrow> do {
       ok \<leftarrow> pkcs_scan (unat x - 1) x bs;
       Some (if ok then int (unat x) else 0) })"

definition add_padding :: "u8 list \<Rightarrow> int \<Rightarrow> crypt_error + u8 list" where
  "add_padding src mode =
     (if mode < 0 \<or> mode \<ge> PADDING_MODE_COUNT then Inl (Invalid_Padding_Mode mode)
      else if length src \<ge> 8 then Inl Invalid_Padding
      else if mode = PADDING_MODE_ISO7816_4 then Inr (padding_add_iso7816_4 src)
      else Inr (padding_add_pkcs7 src))"

definition remove_padding :: "u8 list \<Rightarrow> int \<Rightarrow> (crypt_error + int) option" where
  "remove_padding buf mode =
     (if mode < 0 \<or> mode \<ge> PADDING_MODE_COUNT then Some (Inl (Invalid_Padding_Mode mode))
      else map_option Inr (if mode = PADDING_MODE_ISO7816_4 then padding_remove_iso7816_4 buf else padding_remove_pkcs7 buf))"

subsection \<open>Texts\<close>

definition des_key :: "u8 list \<Rightarrow> crypt_error + (u32 \<times> u32) list" where
  "des_key key = (if length key \<noteq> 8 then Inl (Invalid_Key_Size (length key)) else Inr (des_main_ks key))"

text \<open>The loop over the whole blocks of a text; the rest of the text is not encrypted yet.\<close>

function des_blocks :: "(u32 \<times> u32) list \<Rightarrow> u8 list \<Rightarrow> u8 list \<times> u8 list" where
  "des_blocks SK tx = (if length tx < 8 then ([], tx)
     else (let (out, rest) = des_blocks SK (drop 8 tx) in (des_crypt SK (take 8 tx) @ out, rest)))"
  by pat_completeness auto
termination by (relation "measure (\<lambda>(_, tx). length tx)") auto

declare des_blocks.simps [simp del]

definition ldesencode :: "u8 list \<Rightarrow> u8 list \<Rightarrow> int \<Rightarrow> crypt_error + u8 list" where
  "ldesencode key tx mode = (case des_key key of
     Inl e \<Rightarrow> Inl e
   | Inr SK \<Rightarrow> (let (out, rest) = des_blocks SK tx in
       case add_padding rest mode of Inl e \<Rightarrow> Inl e | Inr tail \<Rightarrow> Inr (out @ des_crypt SK tail)))"

definition ldesdecode :: "u8 list \<Rightarrow> u8 list \<Rightarrow> int \<Rightarrow> (crypt_error + u8 list) option" where
  "ldesdecode key tx mode = (case des_key key of
     Inl e \<Rightarrow> Some (Inl e)
   | Inr ESK \<Rightarrow>
       if length tx mod 8 \<noteq> 0 \<or> length tx = 0 then Some (Inl (Invalid_Text_Length (length tx)))
       else (let buffer = fst (des_blocks (rev ESK) tx) in do {
         r \<leftarrow> remove_padding buffer mode;
         Some (case r of
             Inl e \<Rightarrow> Inl e
           | Inr padding \<Rightarrow>
               if padding \<le> 0 \<or> padding > 8 then Inl Invalid_Text
               else Inr (take (length tx - nat padding) buffer)) }))"

subsection \<open>The permutations are inverse to each other\<close>

lemma xor_cancel: "(x :: u32) XOR y XOR y = x"
  by (simp add: xor.assoc)

lemma bit_swap_twice:
  assumes "drop_bit (32 - s) m = 0" "s < 32"
  shows "bit_swap s m (bit_swap s m p) = p"
proof -
  obtain X Y where p: "p = (X, Y)" by (cases p)
  let ?T = "(drop_bit s X XOR Y) AND m"
  have same: "drop_bit s (push_bit s ?T) = ?T"
  proof (rule bit_word_eqI)
    fix n
    assume "n < LENGTH(32)"
    have "\<not> bit m n" if "32 \<le> s + n"
    proof -
      have "bit (drop_bit (32 - s) m) (n - (32 - s)) = bit m n" using that assms(2) by (simp add: bit_drop_bit_eq)
      with assms(1) show ?thesis by simp
    qed
    then show "bit (drop_bit s (push_bit s ?T)) n = bit ?T n"
      using \<open>n < LENGTH(32)\<close> by (cases "32 \<le> s + n") (auto simp: bit_simps)
  qed
  have "drop_bit s (X XOR push_bit s ?T) XOR (Y XOR ?T) = (drop_bit s X XOR Y) XOR (?T XOR ?T)"
    unfolding drop_bit_xor same by (simp only: xor.assoc xor.commute xor.left_commute)
  then have T: "(drop_bit s (X XOR push_bit s ?T) XOR (Y XOR ?T)) AND m = ?T" by simp
  show ?thesis
    unfolding p bit_swap_def Let_def prod.case T by (simp only: xor.assoc xor_self_eq xor.right_neutral)
qed

lemma swaps [simp]:
  "bit_swap 4 0x0F0F0F0F (bit_swap 4 0x0F0F0F0F p) = p" "bit_swap 16 0x0000FFFF (bit_swap 16 0x0000FFFF p) = p"
  "bit_swap 2 0x33333333 (bit_swap 2 0x33333333 p) = p" "bit_swap 8 0x00FF00FF (bit_swap 8 0x00FF00FF p) = p"
  "bit_swap 0 0xAAAAAAAA (bit_swap 0 0xAAAAAAAA p) = p"
  by (rule bit_swap_twice; simp)+

lemma and_all_ones: "(x :: u32) AND 0xFFFFFFFF = x"
proof -
  have "(0xFFFFFFFF :: u32) = - 1" by code_simp
  then show ?thesis by (simp only: and.right_neutral)
qed

lemma bit_rotl1: "n < 32 \<Longrightarrow> bit (rotl1 X) n = bit X (if n = 0 then 31 else n - 1)"
  unfolding rotl1_def and_all_ones bit_or_iff bit_push_bit_iff bit_drop_bit_eq o_def
  by (auto dest: bit_imp_le_length)

lemma bit_rotr1: "n < 32 \<Longrightarrow> bit (rotr1 X) n = bit X (if n = 31 then 0 else Suc n)"
  unfolding rotr1_def and_all_ones bit_or_iff bit_push_bit_iff bit_drop_bit_eq o_def
  by (auto dest: bit_imp_le_length)

lemma rot1 [simp]: "rotr1 (rotl1 X) = X" "rotl1 (rotr1 X) = X"
  by (rule bit_word_eqI; auto simp: bit_rotl1 bit_rotr1)+

lemma DES_FP_IP [simp]: "DES_FP (DES_IP p) = p"
proof -
  obtain X Y where p: "p = (X, Y)" by (cases p)
  obtain X1 Y1 where 1: "bit_swap 4 0x0F0F0F0F (X, Y) = (X1, Y1)" by (cases "bit_swap 4 0x0F0F0F0F (X, Y)")
  obtain X2 Y2 where 2: "bit_swap 16 0x0000FFFF (X1, Y1) = (X2, Y2)" by (cases "bit_swap 16 0x0000FFFF (X1, Y1)")
  obtain X3 Y3 where 3: "bit_swap 2 0x33333333 (Y2, X2) = (Y3, X3)" by (cases "bit_swap 2 0x33333333 (Y2, X2)")
  obtain X4 Y4 where 4: "bit_swap 8 0x00FF00FF (Y3, X3) = (Y4, X4)" by (cases "bit_swap 8 0x00FF00FF (Y3, X3)")
  obtain X5 Y5 where 5: "bit_swap 0 0xAAAAAAAA (X4, rotl1 Y4) = (X5, Y5)" by (cases "bit_swap 0 0xAAAAAAAA (X4, rotl1 Y4)")
  have "bit_swap 0 0xAAAAAAAA (X5, Y5) = (X4, rotl1 Y4)" "bit_swap 8 0x00FF00FF (Y4, X4) = (Y3, X3)"
    "bit_swap 2 0x33333333 (Y3, X3) = (Y2, X2)" "bit_swap 16 0x0000FFFF (X2, Y2) = (X1, Y1)" "bit_swap 4 0x0F0F0F0F (X1, Y1) = (X, Y)"
    using swaps 1 2 3 4 5 by metis+
  then show ?thesis
    by (simp add: p DES_IP_def DES_FP_def 1 2 3 4 5 Let_def del: swaps)
qed

lemma DES_IP_FP [simp]: "DES_IP (DES_FP p) = p"
proof -
  obtain X Y where p: "p = (X, Y)" by (cases p)
  obtain X1 Y1 where 1: "bit_swap 0 0xAAAAAAAA (rotr1 X, Y) = (X1, Y1)" by (cases "bit_swap 0 0xAAAAAAAA (rotr1 X, Y)")
  obtain X2 Y2 where 2: "bit_swap 8 0x00FF00FF (rotr1 Y1, X1) = (Y2, X2)" by (cases "bit_swap 8 0x00FF00FF (rotr1 Y1, X1)")
  obtain X3 Y3 where 3: "bit_swap 2 0x33333333 (Y2, X2) = (Y3, X3)" by (cases "bit_swap 2 0x33333333 (Y2, X2)")
  obtain X4 Y4 where 4: "bit_swap 16 0x0000FFFF (X3, Y3) = (X4, Y4)" by (cases "bit_swap 16 0x0000FFFF (X3, Y3)")
  obtain X5 Y5 where 5: "bit_swap 4 0x0F0F0F0F (X4, Y4) = (X5, Y5)" by (cases "bit_swap 4 0x0F0F0F0F (X4, Y4)")
  have "bit_swap 4 0x0F0F0F0F (X5, Y5) = (X4, Y4)" "bit_swap 16 0x0000FFFF (X4, Y4) = (X3, Y3)"
    "bit_swap 2 0x33333333 (Y3, X3) = (Y2, X2)" "bit_swap 8 0x00FF00FF (Y2, X2) = (rotr1 Y1, X1)"
    "bit_swap 0 0xAAAAAAAA (X1, Y1) = (rotr1 X, Y)"
    using swaps 1 2 3 4 5 by metis+
  then show ?thesis
    by (simp add: p DES_IP_def DES_FP_def 1 2 3 4 5 Let_def del: swaps)
qed

subsection \<open>Rounds undone\<close>

text \<open>The rounds as a Feistel network: one round changes one half with a function of the other half, then
  the halves change places.\<close>

fun feistel :: "(u32 \<times> u32) list \<Rightarrow> u32 \<times> u32 \<Rightarrow> u32 \<times> u32" where
  "feistel [] p = p"
| "feistel (K # SK) (A, B) = feistel SK (B, DES_ROUND K B A)"

lemma feistel_append: "feistel (SK @ SK') p = feistel SK' (feistel SK p)"
  by (induction SK p rule: feistel.induct) simp_all

lemma DES_ROUND_twice: "DES_ROUND K X (DES_ROUND K X Y) = Y"
  unfolding DES_ROUND_def Let_def by (simp only: xor.assoc xor.commute xor.left_commute xor_self_eq xor.right_neutral xor.left_neutral)

lemma feistel_rev: "feistel (rev SK) (prod.swap (feistel SK p)) = prod.swap p"
proof (induction SK p rule: feistel.induct)
  case (2 K SK A B)
  then show ?case by (simp add: feistel_append DES_ROUND_twice)
qed simp

lemma des_rounds_feistel: "even (length SK) \<Longrightarrow> des_rounds SK p = feistel SK p"
  by (induction SK p rule: des_rounds.induct) (auto simp: Let_def)

lemma des_crypt_words:
  "even (length SK) \<Longrightarrow> des_crypt SK input =
     (let (Y, X) = DES_FP (prod.swap (feistel SK (DES_IP (GET_UINT32 input 0, GET_UINT32 input 4)))) in PUT_UINT32 Y @ PUT_UINT32 X)"
  by (simp add: des_crypt_def des_rounds_feistel case_prod_unfold Let_def prod.swap_def)

subsection \<open>Blocks decrypt to what was encrypted\<close>

lemma PUT_GET: "PUT_UINT32 (push_bit 24 (ucast a) OR push_bit 16 (ucast b) OR push_bit 8 (ucast c) OR ucast d) = [a, b, c, d]"
  unfolding PUT_UINT32_def
  by (intro list.inject [THEN iffD2] conjI refl; rule bit_word_eqI) (auto simp: bit_simps dest: bit_imp_le_length)

lemma GET_PUT:
  "push_bit 24 (ucast (ucast (drop_bit 24 n) :: u8)) OR push_bit 16 (ucast (ucast (drop_bit 16 n) :: u8))
     OR push_bit 8 (ucast (ucast (drop_bit 8 n) :: u8)) OR ucast (ucast n :: u8) = (n :: u32)"
proof (rule bit_word_eqI)
  fix i
  assume "i < LENGTH(32)"
  then show "bit (push_bit 24 (ucast (ucast (drop_bit 24 n) :: u8)) OR push_bit 16 (ucast (ucast (drop_bit 16 n) :: u8))
     OR push_bit 8 (ucast (ucast (drop_bit 8 n) :: u8)) OR ucast (ucast n :: u8) :: u32) i = bit n i"
    by (cases "i < 8"; cases "i < 16"; cases "i < 24") (auto simp: bit_simps)
qed

lemma GET_block [simp]: "GET_UINT32 (PUT_UINT32 X @ PUT_UINT32 Y) 0 = X" "GET_UINT32 (PUT_UINT32 X @ PUT_UINT32 Y) 4 = Y"
  using GET_PUT [of X] GET_PUT [of Y] by (simp_all add: GET_UINT32_def PUT_UINT32_def nth_append)

lemma PUT_block:
  assumes "length b = 8"
  shows "PUT_UINT32 (GET_UINT32 b 0) @ PUT_UINT32 (GET_UINT32 b 4) = b"
proof -
  from assms obtain b0 b1 b2 b3 b4 b5 b6 b7 where "b = [b0, b1, b2, b3, b4, b5, b6, b7]"
    by (auto simp: length_Suc_conv numeral_eq_Suc)
  then show ?thesis by (simp add: GET_UINT32_def PUT_GET)
qed

lemma length_des_crypt [simp]: "length (des_crypt SK b) = 8"
  by (simp add: des_crypt_def PUT_UINT32_def case_prod_unfold Let_def)

lemma des_crypt_rev:
  assumes "even (length SK)" "length b = 8"
  shows "des_crypt (rev SK) (des_crypt SK b) = b"
proof -
  let ?p = "(GET_UINT32 b 0, GET_UINT32 b 4)"
  obtain Y X where yx: "DES_FP (prod.swap (feistel SK (DES_IP ?p))) = (Y, X)"
    by (cases "DES_FP (prod.swap (feistel SK (DES_IP ?p)))")
  then have c: "des_crypt SK b = PUT_UINT32 Y @ PUT_UINT32 X" using assms(1) by (simp add: des_crypt_words)
  have "DES_IP (Y, X) = prod.swap (feistel SK (DES_IP ?p))" using yx DES_IP_FP by metis
  then have "feistel (rev SK) (DES_IP (Y, X)) = prod.swap (DES_IP ?p)" by (simp add: feistel_rev)
  then show ?thesis
    unfolding c using assms PUT_block [OF assms(2)] by (simp add: des_crypt_words)
qed

lemma length_subkeys [simp]: "length (subkeys n i X Y) = n"
  by (induction n arbitrary: i X Y) (simp_all add: Let_def)

lemma length_des_main_ks [simp]: "length (des_main_ks key) = 16"
  by (simp add: des_main_ks_def case_prod_unfold Let_def)

subsection \<open>Texts\<close>

text \<open>Whole blocks and the rest.\<close>

lemma des_blocks_append:
  assumes "length a mod 8 = 0"
  shows "des_blocks SK (a @ b) = (fst (des_blocks SK a) @ fst (des_blocks SK b), snd (des_blocks SK b))"
  using assms
proof (induction a rule: length_induct)
  case (1 a)
  show ?case
  proof (cases "a = []")
    case True
    then show ?thesis by (simp add: des_blocks.simps [of SK "[]"])
  next
    case False
    then have l: "8 \<le> length a" using "1.prems" by (cases "length a < 8") auto
    then have "length (drop 8 a) mod 8 = 0" using "1.prems" l le_mod_geq [of 8 "length a"] by simp
    with l have IH: "des_blocks SK (drop 8 a @ b) = (fst (des_blocks SK (drop 8 a)) @ fst (des_blocks SK b), snd (des_blocks SK b))"
      using "1.IH" [rule_format, of "drop 8 a"] by simp
    from l IH show ?thesis
      by (simp add: des_blocks.simps [of SK "a @ b"] des_blocks.simps [of SK a] case_prod_unfold Let_def)
  qed
qed

lemma des_blocks_rest:
  "length (snd (des_blocks SK tx)) < 8 \<and> length (fst (des_blocks SK tx)) mod 8 = 0 \<and>
   (even (length SK) \<longrightarrow> fst (des_blocks (rev SK) (fst (des_blocks SK tx))) @ snd (des_blocks SK tx) = tx)"
proof (induction SK tx rule: des_blocks.induct)
  case (1 SK tx)
  show ?case
  proof (cases "length tx < 8")
    case True
    then show ?thesis by (simp add: des_blocks.simps)
  next
    case False
    let ?r = "des_blocks SK (drop 8 tx)"
    have r: "des_blocks SK tx = (des_crypt SK (take 8 tx) @ fst ?r, snd ?r)"
      using False by (simp add: des_blocks.simps [of SK tx] case_prod_unfold Let_def)
    have "des_blocks (rev SK) (des_crypt SK (take 8 tx) @ xs) =
        (des_crypt (rev SK) (des_crypt SK (take 8 tx)) @ fst (des_blocks (rev SK) xs), snd (des_blocks (rev SK) xs))" for xs
      by (simp add: des_blocks.simps [of "rev SK" "des_crypt SK (take 8 tx) @ xs"] case_prod_unfold Let_def)
    with 1 [OF False] False r des_crypt_rev [of SK "take 8 tx"] show ?thesis
      by (auto simp: append_take_drop_id)
  qed
qed

lemma des_blocks_length: "length a mod 8 = 0 \<Longrightarrow> length (fst (des_blocks SK a)) = length a"
proof (induction SK a rule: des_blocks.induct)
  case (1 SK tx)
  show ?case
  proof (cases "length tx < 8")
    case True
    with "1.prems" have "tx = []" by simp
    then show ?thesis by (simp add: des_blocks.simps [of SK "[]"])
  next
    case False
    then have "length (drop 8 tx) mod 8 = 0" using "1.prems" le_mod_geq [of 8 "length tx"] by simp
    with "1.IH" [OF False] False show ?thesis by (simp add: des_blocks.simps [of SK tx] case_prod_unfold Let_def)
  qed
qed

lemma fst_des_blocks_block: "length b = 8 \<Longrightarrow> fst (des_blocks SK b) = des_crypt SK b"
  by (simp add: des_blocks.simps [of SK b] des_blocks.simps [of SK "[]"])

text \<open>Padding that was added is found again.\<close>

lemma iso_scan_zeros: "n < m \<Longrightarrow> iso_scan m p (replicate n 0 @ 0x80 # bs) = Some (p + int n)"
proof (induction n arbitrary: m p)
  case 0
  then show ?case by (cases m) simp_all
next
  case (Suc n)
  then show ?case by (cases m) simp_all
qed

lemma iso_scan_inside: "n \<le> length bs \<Longrightarrow> iso_scan n p bs \<noteq> None"
  by (induction n p bs rule: iso_scan.induct) auto

lemma remove_iso7816_4:
  assumes "length r < 8"
  shows "padding_remove_iso7816_4 (bs @ padding_add_iso7816_4 r) = Some (int (8 - length r))"
  using iso_scan_zeros [of "7 - length r" 8 1 "rev r @ rev bs"] assms
  by (simp add: padding_remove_iso7816_4_def padding_add_iso7816_4_def)

lemma pkcs_scan_all: "n \<le> m \<Longrightarrow> pkcs_scan n x (replicate m x @ bs) = Some True"
proof (induction n arbitrary: m)
  case (Suc n)
  then show ?case by (cases m) simp_all
qed simp

lemma remove_pkcs7_byte:
  assumes "unat x = Suc m"
  shows "padding_remove_pkcs7 (bs @ replicate (Suc m) x) = Some (int (Suc m))"
proof -
  have "rev (bs @ replicate (Suc m) x) = x # replicate m x @ rev bs"
    using rev_replicate [of "Suc m" x] by (simp only: rev_append replicate_Suc append_Cons)
  with assms pkcs_scan_all [of m m x "rev bs"] show ?thesis unfolding padding_remove_pkcs7_def by simp
qed

lemma remove_pkcs7:
  assumes "length r < 8"
  shows "padding_remove_pkcs7 (bs @ padding_add_pkcs7 r) = Some (int (8 - length r))"
proof -
  define n where "n = 8 - length r"
  define x where "x = (of_nat n :: u8)"
  have n: "unat x = n" unfolding x_def n_def by (simp only: unsigned_of_nat) (simp add: take_bit_nat_eq_self)
  obtain m where m: "n = Suc m" using assms by (cases n) (auto simp: n_def)
  have "padding_remove_pkcs7 ((bs @ r) @ replicate n x) = Some (int n)"
    unfolding m by (rule remove_pkcs7_byte) (simp only: n m)
  then show ?thesis unfolding padding_add_pkcs7_def append_assoc n_def [symmetric] x_def [symmetric] .
qed

subsection \<open>Properties\<close>

text \<open>Property C39: what \<^verbatim>\<open>desencode\<close> encrypts, \<^verbatim>\<open>desdecode\<close> decrypts: for every key of 8 bytes, every text and both kinds
  of padding, encryption succeeds and decryption of its result gives the text.\<close>

theorem des_roundtrip:
  assumes "length key = 8" "mode = PADDING_MODE_ISO7816_4 \<or> mode = PADDING_MODE_PKCS7"
  shows "\<exists>c. ldesencode key tx mode = Inr c \<and> ldesdecode key c mode = Some (Inr tx)"
proof -
  let ?SK = "des_main_ks key"
  obtain out rest where b: "des_blocks ?SK tx = (out, rest)" by (cases "des_blocks ?SK tx")
  from des_blocks_rest [of ?SK tx] b have r: "length rest < 8" "length out mod 8 = 0"
    "fst (des_blocks (rev ?SK) out) @ rest = tx" by simp_all
  let ?pre = "fst (des_blocks (rev ?SK) out)"
  define tail where "tail = (if mode = PADDING_MODE_ISO7816_4 then padding_add_iso7816_4 rest else padding_add_pkcs7 rest)"
  have tail: "add_padding rest mode = Inr tail" "length tail = 8" "take (length rest) tail = rest"
    using assms(2) r(1)
    by (auto simp: tail_def add_padding_def padding_add_iso7816_4_def padding_add_pkcs7_def
        PADDING_MODE_ISO7816_4_def PADDING_MODE_PKCS7_def PADDING_MODE_COUNT_def)
  let ?c = "out @ des_crypt ?SK tail"
  have enc: "ldesencode key tx mode = Inr ?c" using assms(1) b tail(1) by (simp add: ldesencode_def des_key_def)
  have buf: "fst (des_blocks (rev ?SK) ?c) = ?pre @ tail"
    using des_blocks_append [OF r(2), of "rev ?SK"] des_crypt_rev [OF _ tail(2), of ?SK] by (simp add: fst_des_blocks_block)
  have rem: "remove_padding (?pre @ tail) mode = Some (Inr (int (8 - length rest)))"
    using assms(2) remove_iso7816_4 [OF r(1), of ?pre] remove_pkcs7 [OF r(1), of ?pre]
    by (auto simp: remove_padding_def tail_def PADDING_MODE_ISO7816_4_def PADDING_MODE_PKCS7_def PADDING_MODE_COUNT_def)
  have "length ?pre = length out"
    using des_blocks_length [OF r(2), of "rev ?SK"] .
  moreover have "nat (int (8 - length rest)) = 8 - length rest" by (rule nat_int)
  ultimately have "take (length ?c - nat (int (8 - length rest))) (?pre @ tail) = tx" using r(1,3) tail(3) by simp
  then have "ldesdecode key ?c mode = Some (Inr tx)"
    using assms(1) r buf rem by (simp add: ldesdecode_def des_key_def)
  with enc show ?thesis by blast
qed

theorem des_roundtrip_witness:
  "\<exists>c. ldesencode [1, 2, 3, 4, 5, 6, 7, 8] [104, 105] PADDING_MODE_PKCS7 = Inr c \<and>
     ldesdecode [1, 2, 3, 4, 5, 6, 7, 8] c PADDING_MODE_PKCS7 = Some (Inr [104, 105])"
  by (rule des_roundtrip) simp_all

text \<open>Property: the two kinds of padding differ in what they read. With ISO 7816-4 padding, decryption never reads outside the
  decrypted text. With PKCS 7, for every key there is a text of one block whose decryption reads bytes in front of the buffer: the
  number of bytes to compare is the last byte itself, which can be larger than the text.\<close>

theorem des_padding_reads:
  assumes "length key = 8"
  shows "(\<forall>c. ldesdecode key c PADDING_MODE_ISO7816_4 \<noteq> None) \<and>
    (\<exists>c. length c = 8 \<and> ldesdecode key c PADDING_MODE_PKCS7 = None)"
proof -
  let ?SK = "des_main_ks key" and ?c = "des_crypt (des_main_ks key) (replicate 8 9)"
  have iso: "ldesdecode key c PADDING_MODE_ISO7816_4 \<noteq> None" for c
  proof (cases "length c mod 8 \<noteq> 0 \<or> length c = 0")
    case True
    with assms show ?thesis by (auto simp: ldesdecode_def des_key_def)
  next
    case False
    then have "8 \<le> length (fst (des_blocks (rev ?SK) c))" using des_blocks_length [of c "rev ?SK"] by (cases "length c < 8") auto
    then have "iso_scan 8 1 (rev (fst (des_blocks (rev ?SK) c))) \<noteq> None" by (intro iso_scan_inside) simp
    with assms False show ?thesis
      by (auto simp: ldesdecode_def des_key_def remove_padding_def padding_remove_iso7816_4_def
          PADDING_MODE_ISO7816_4_def PADDING_MODE_COUNT_def)
  qed
  have "fst (des_blocks (rev ?SK) ?c) = replicate 8 9" by (simp add: fst_des_blocks_block des_crypt_rev)
  moreover have "padding_remove_pkcs7 (replicate 8 9) = None" by code_simp
  ultimately have "ldesdecode key ?c PADDING_MODE_PKCS7 = None"
    using assms by (simp add: ldesdecode_def des_key_def remove_padding_def
        PADDING_MODE_PKCS7_def PADDING_MODE_ISO7816_4_def PADDING_MODE_COUNT_def)
  with iso show ?thesis by (intro conjI allI exI [of _ ?c]) simp_all
qed

theorem des_padding_reads_witness:
  "(\<forall>c. ldesdecode [1, 2, 3, 4, 5, 6, 7, 8] c PADDING_MODE_ISO7816_4 \<noteq> None) \<and>
    (\<exists>c. length c = 8 \<and> ldesdecode [1, 2, 3, 4, 5, 6, 7, 8] c PADDING_MODE_PKCS7 = None)"
  by (rule des_padding_reads) simp

end
