(* ===== verification/Crypt_Text.thy ===== *)
theory Crypt_Text
  imports Des
begin

text \<open>
  The functions of \<^verbatim>\<open>lualib-src/lua-crypt.c\<close> that turn texts into texts: the random key, the hash of a key, hexadecimal and
  base64 texts, and the exclusive or of a text with a key.

  A text is its bytes; the sizes are below \<open>2 ^ 31\<close>, where the \<^verbatim>\<open>int\<close> indices of the loops do not overflow. The numbers
  that \<^verbatim>\<open>random\<close> of the C library returns are an argument of the random key.
\<close>

subsection \<open>Words in little-endian order\<close>

definition le32 :: "u32 \<Rightarrow> u8 list" where
  "le32 n = [ucast n, ucast (drop_bit 8 n), ucast (drop_bit 16 n), ucast (drop_bit 24 n)]"

definition le_word :: "u8 list \<Rightarrow> nat \<Rightarrow> u32" where
  "le_word x i = ucast (x ! i) OR push_bit 8 (ucast (x ! (i + 1))) OR push_bit 16 (ucast (x ! (i + 2)))
     OR push_bit 24 (ucast (x ! (i + 3)))"

subsection \<open>Keys\<close>

definition lrandomkey :: "(nat \<Rightarrow> u64) \<Rightarrow> u8 list" where
  "lrandomkey random = (
     let tmp = map (\<lambda>i. ucast (random i AND 0xff)) [0..<8];
         x = foldl (XOR) 0 tmp in
     if x = 0 then tmp[0 := tmp ! 0 OR 1] else tmp)"

fun hash_loop :: "u8 list \<Rightarrow> u32 \<times> u32 \<Rightarrow> u32 \<times> u32" where
  "hash_loop [] (djb_hash, js_hash) = (djb_hash, js_hash)"
| "hash_loop (c # str) (djb_hash, js_hash) = hash_loop str
     (djb_hash + (push_bit 5 djb_hash + ucast c),
      js_hash XOR (push_bit 5 js_hash + ucast c + drop_bit 2 js_hash))"

definition Hash :: "u8 list \<Rightarrow> u8 list" where
  "Hash str = (let (djb_hash, js_hash) = hash_loop str (5381, 1315423911) in le32 djb_hash @ le32 js_hash)"

definition lhashkey :: "u8 list \<Rightarrow> u8 list" where
  "lhashkey key = Hash key"

subsection \<open>Hexadecimal texts\<close>

definition hex :: "u8 list" where
  "hex = map of_char ''0123456789abcdef''"

definition ltohex :: "u8 list \<Rightarrow> u8 list" where
  "ltohex tx = concat (map (\<lambda>b. [hex ! unat (drop_bit 4 b), hex ! unat (b AND 0xf)]) tx)"

text \<open>The macro reads its character as a signed \<^verbatim>\<open>char\<close> and stores the difference in a byte.\<close>

definition HEX :: "u8 \<Rightarrow> u8" where
  "HEX c = (let tmp = sint c in if 48 \<le> tmp \<and> tmp \<le> 57 then of_int (tmp - 48) else of_int (tmp - 97 + 10))"

fun fromhex_loop :: "u8 list \<Rightarrow> crypt_error + u8 list" where
  "fromhex_loop (a # b # tx) = (
     let hi = HEX a; low = HEX b in
     if hi > 16 \<or> low > 16 then Inl Invalid_Hex_Text
     else (case fromhex_loop tx of
         Inl e \<Rightarrow> Inl e
       | Inr out \<Rightarrow> Inr (ucast (push_bit 4 (ucast hi :: u32) OR ucast low) # out)))"
| "fromhex_loop _ = Inr []"

definition lfromhex :: "u8 list \<Rightarrow> crypt_error + u8 list" where
  "lfromhex tx = (if odd (length tx) then Inl (Invalid_Hex_Size (length tx)) else fromhex_loop tx)"

subsection \<open>Base64 texts\<close>

definition encoding :: "u8 list" where
  "encoding = map of_char ''ABCDEFGHIJKLMNOPQRSTUVWXYZabcdefghijklmnopqrstuvwxyz0123456789+/''"

text \<open>The character \<^verbatim>\<open>=\<close>.\<close>

definition b64_pad :: u8 where
  "b64_pad = 61"

fun lb64encode :: "u8 list \<Rightarrow> u8 list" where
  "lb64encode (a # b # c # tx) = (
     let v = push_bit 16 (ucast a) OR push_bit 8 (ucast b) OR ucast c :: u32 in
     encoding ! unat (drop_bit 18 v) # encoding ! unat (drop_bit 12 v AND 0x3f) #
     encoding ! unat (drop_bit 6 v AND 0x3f) # encoding ! unat (v AND 0x3f) # lb64encode tx)"
| "lb64encode [a] = (
     let v = ucast a :: u32 in
     [encoding ! unat (drop_bit 2 v), encoding ! unat (push_bit 4 (v AND 3)), b64_pad, b64_pad])"
| "lb64encode [a, b] = (
     let v = push_bit 8 (ucast a) OR ucast b :: u32 in
     [encoding ! unat (drop_bit 10 v), encoding ! unat (drop_bit 4 v AND 0x3f), encoding ! unat (push_bit 2 (v AND 0xf)), b64_pad])"
| "lb64encode [] = []"

definition decoding :: "int list" where
  "decoding = [62, -1, -1, -1, 63, 52, 53, 54, 55, 56, 57, 58, 59, 60, 61, -1, -1, -1, -2, -1, -1, -1, 0, 1, 2, 3, 4, 5, 6, 7, 8,
     9, 10, 11, 12, 13, 14, 15, 16, 17, 18, 19, 20, 21, 22, 23, 24, 25, -1, -1, -1, -1, -1, -1, 26, 27, 28, 29, 30, 31, 32, 33, 34,
     35, 36, 37, 38, 39, 40, 41, 42, 43, 44, 45, 46, 47, 48, 49, 50, 51]"

definition b64index :: "u8 \<Rightarrow> int" where
  "b64index c = (if c < 43 then -1
     else (let c = unat (c - 43) in if c \<ge> length decoding then -1 else decoding ! c))"

text \<open>The inner loop of the decoder collects four indices; characters that are not of the alphabet are skipped.\<close>

fun b64_quad :: "nat \<Rightarrow> u8 list \<Rightarrow> (int list \<times> u8 list) option" where
  "b64_quad 0 tx = Some ([], tx)"
| "b64_quad (Suc j) [] = None"
| "b64_quad (Suc j) (t # tx) = (
     let c = b64index t in
     if c = -1 then b64_quad (Suc j) tx
     else map_option (\<lambda>(cs, rest). (c # cs, rest)) (b64_quad j tx))"

definition b64_bytes :: "int list \<Rightarrow> u8 list option" where
  "b64_bytes c = (
     let padding = length (filter (\<lambda>x. x = -2) c);
         w = \<lambda>j. of_int (c ! j) :: u32 in
     if padding = 0 then
       (let v = push_bit 18 (w 0) OR push_bit 12 (w 1) OR push_bit 6 (w 2) OR w 3 in
        Some [ucast (drop_bit 16 v), ucast (drop_bit 8 v AND 0xff), ucast (v AND 0xff)])
     else if padding = 1 then
       (if c ! 3 \<noteq> -2 \<or> c ! 2 AND 3 \<noteq> 0 then None
        else (let v = push_bit 10 (w 0) OR push_bit 4 (w 1) OR of_int (drop_bit 2 (c ! 2)) in
          Some [ucast (drop_bit 8 v), ucast (v AND 0xff)]))
     else if padding = 2 then
       (if c ! 3 \<noteq> -2 \<or> c ! 2 \<noteq> -2 \<or> c ! 1 AND 0xf \<noteq> 0 then None
        else (let v = push_bit 2 (w 0) OR of_int (drop_bit 4 (c ! 1)) in Some [ucast v]))
     else None)"

lemma b64_quad_shorter: "b64_quad n tx = Some (cs, rest) \<Longrightarrow> length rest + n \<le> length tx"
  by (induction n tx arbitrary: cs rest rule: b64_quad.induct) (fastforce simp: Let_def split: if_splits)+

function lb64decode :: "u8 list \<Rightarrow> crypt_error + u8 list" where
  "lb64decode tx = (if tx = [] then Inr [] else
     (case b64_quad 4 tx of
       None \<Rightarrow> Inl Invalid_Base64
     | Some (c, rest) \<Rightarrow> (case b64_bytes c of
         None \<Rightarrow> Inl Invalid_Base64
       | Some out \<Rightarrow> (case lb64decode rest of Inl e \<Rightarrow> Inl e | Inr out' \<Rightarrow> Inr (out @ out')))))"
  by pat_completeness auto
termination
  by (relation "measure length") (auto dest: b64_quad_shorter)

declare lb64decode.simps [simp del]

subsection \<open>Exclusive or\<close>

definition lxor_str :: "u8 list \<Rightarrow> u8 list \<Rightarrow> crypt_error + u8 list" where
  "lxor_str s1 s2 = (if s2 = [] then Inl Cant_Xor_Empty
     else Inr (map (\<lambda>i. s1 ! i XOR s2 ! (i mod length s2)) [0..<length s1]))"

subsection \<open>Bytes and words\<close>

lemma and_masks:
  "(x :: u32) AND 0x3f = take_bit 6 x" "(x :: u32) AND 0xf = take_bit 4 x" "(x :: u32) AND 3 = take_bit 2 x"
  "(x :: u32) AND 0xff = take_bit 8 x" "(b :: u8) AND 0xf = take_bit 4 b"
  by (simp_all add: take_bit_eq_mask mask_eq_exp_minus_1)

lemma take_bit_word_less: "unat (take_bit n (x :: 'a :: len word)) < 2 ^ n"
  by (simp add: unsigned_take_bit_eq)

lemma of_int_drop_bit_uint: "of_int (drop_bit n (uint x)) = drop_bit n (x :: u32)"
  by (rule bit_word_eqI) (simp add: bit_simps)

lemma le32_word:
  assumes "i + 3 < length x"
  shows "le32 (le_word x i) = take 4 (drop i x)"
proof -
  have "le32 (ucast a OR push_bit 8 (ucast b) OR push_bit 16 (ucast c) OR push_bit 24 (ucast d)) = [a, b, c, d]"
    for a b c d :: u8
    unfolding le32_def
    by (intro list.inject [THEN iffD2] conjI refl; rule bit_word_eqI) (auto simp: bit_simps dest: bit_imp_le_length)
  moreover have "take 4 (drop i x) = [x ! i, x ! (i + 1), x ! (i + 2), x ! (i + 3)]"
    using assms by (intro nth_equalityI) (auto simp: less_Suc_eq numeral_eq_Suc)
  ultimately show ?thesis by (simp add: le_word_def)
qed

lemma le_word_le32: "le_word (le32 n @ x) 0 = n"
proof -
  have "ucast (ucast n :: u8) OR push_bit 8 (ucast (ucast (drop_bit 8 n) :: u8)) OR push_bit 16 (ucast (ucast (drop_bit 16 n) :: u8))
     OR push_bit 24 (ucast (ucast (drop_bit 24 n) :: u8)) = n" (is "?l = _")
  proof (rule bit_word_eqI)
    fix i
    assume "i < LENGTH(32)"
    then show "bit ?l i = bit n i" by (cases "i < 8"; cases "i < 16"; cases "i < 24") (auto simp: bit_simps)
  qed
  then show ?thesis by (simp add: le_word_def le32_def)
qed

subsection \<open>Hexadecimal texts\<close>

lemma HEX_hex: "n < 16 \<Longrightarrow> HEX (hex ! n) = of_nat n"
proof -
  have "list_all (\<lambda>n. HEX (hex ! n) = of_nat n) [0..<16]" by code_simp
  then show "n < 16 \<Longrightarrow> HEX (hex ! n) = of_nat n" by (simp add: list_all_iff)
qed

lemma HEX_hex_word: "(x :: u8) < 16 \<Longrightarrow> HEX (hex ! unat x) = x"
  using HEX_hex [of "unat x"] by (simp add: word_less_nat_alt)

lemma HEX_accepted: "HEX c \<le> 16 \<longleftrightarrow> 48 \<le> c \<and> c \<le> 57 \<or> 97 \<le> c \<and> c \<le> 103 \<or> 87 \<le> c \<and> c \<le> 96"
proof -
  define s where "s = sint c"
  have s: "-128 \<le> s" "s < 128" unfolding s_def using sint_ge [of c] sint_lt [of c] by simp_all
  have c: "uint c = s mod 256" unfolding s_def using uint_sint [of c] by (simp add: take_bit_eq_mod)
  have w: "uint (word_of_int z :: u8) = z mod 256" for z by (simp add: unsigned_of_int take_bit_eq_mod)
  have "uint (HEX c) = (if 48 \<le> s \<and> s \<le> 57 then s - 48 else (s - 87) mod 256)"
    unfolding HEX_def Let_def s_def [symmetric] by (cases "48 \<le> s \<and> s \<le> 57") (simp_all only: w if_True if_False simp_thms, simp_all)
  then have h: "HEX c \<le> 16 \<longleftrightarrow> (if 48 \<le> s \<and> s \<le> 57 then s - 48 else (s - 87) mod 256) \<le> 16"
    by (simp add: word_le_def)
  have m: "z mod 256 = (if z < 0 then z + 256 else z)" if "-256 \<le> z" "z < 256" for z :: int
    using that mod_add_self2 [of z 256] mod_pos_pos_trivial [of "z + 256" 256] mod_pos_pos_trivial [of z 256] by (cases "z < 0") simp_all
  have "HEX c \<le> 16 \<longleftrightarrow> 48 \<le> s mod 256 \<and> s mod 256 \<le> 57 \<or> 97 \<le> s mod 256 \<and> s mod 256 \<le> 103 \<or> 87 \<le> s mod 256 \<and> s mod 256 \<le> 96"
    unfolding h using s by (auto simp: m)
  then show ?thesis by (simp add: word_le_def c)
qed

lemma nibbles: "drop_bit 4 (b :: u8) < 16" "take_bit 4 (b :: u8) < 16"
  "ucast (push_bit 4 (ucast (drop_bit 4 b)) OR ucast (take_bit 4 b) :: u32) = b"
proof -
  have "take_bit 4 (drop_bit 4 b) = drop_bit 4 b"
    by (rule bit_word_eqI) (auto simp: bit_simps dest: bit_imp_le_length)
  with take_bit_word_less [of 4 "drop_bit 4 b"] take_bit_word_less [of 4 b]
  show "drop_bit 4 b < 16" "take_bit 4 b < 16" by (simp_all add: word_less_nat_alt)
  show "ucast (push_bit 4 (ucast (drop_bit 4 b)) OR ucast (take_bit 4 b) :: u32) = b"
    by (rule bit_word_eqI) (auto simp: bit_simps)
qed

lemma fromhex_tohex: "fromhex_loop (ltohex tx) = Inr tx"
proof (induction tx)
  case (Cons b tx)
  have "fromhex_loop (ltohex (b # tx)) = Inr (ucast (push_bit 4 (ucast (drop_bit 4 b)) OR ucast (take_bit 4 b) :: u32) # tx)"
    using Cons nibbles(1,2) [of b]
    by (simp add: ltohex_def and_masks HEX_hex_word Let_def not_less order_less_imp_le)
  then show ?case by (simp only: nibbles)
qed (simp add: ltohex_def)

lemma length_ltohex: "length (ltohex tx) = 2 * length tx"
  by (induction tx) (simp_all add: ltohex_def)

subsection \<open>Base64 texts\<close>

lemma b64index_encoding: "n < 64 \<Longrightarrow> b64index (encoding ! n) = int n"
proof -
  have "list_all (\<lambda>n. b64index (encoding ! n) = int n) [0..<64]" by code_simp
  then show "n < 64 \<Longrightarrow> b64index (encoding ! n) = int n" by (simp add: list_all_iff)
qed

lemma b64index_word: "x < 64 \<Longrightarrow> b64index (encoding ! unat (x :: u32)) = uint x"
  using b64index_encoding [of "unat x"] by (simp add: word_less_nat_alt)

lemma b64index_pad: "b64index b64_pad = -2"
  by code_simp

lemma uint_not_negative: "uint x \<noteq> -1" "uint x \<noteq> -2"
  using uint_ge_0 [of x] by linarith+

lemma b64_quad_encoded:
  assumes "b64index e0 \<noteq> -1" "b64index e1 \<noteq> -1" "b64index e2 \<noteq> -1" "b64index e3 \<noteq> -1"
  shows "b64_quad 4 (e0 # e1 # e2 # e3 # tx) = Some ([b64index e0, b64index e1, b64index e2, b64index e3], tx)"
  using assms by (simp add: numeral_eq_Suc Let_def)

lemma lb64decode_quad:
  assumes "b64_quad 4 tx = Some (c, rest)" "b64_bytes c = Some out"
  shows "lb64decode tx = (case lb64decode rest of Inl e \<Rightarrow> Inl e | Inr out' \<Rightarrow> Inr (out @ out'))"
proof -
  have "tx \<noteq> []" using assms(1) by (auto simp: numeral_eq_Suc)
  with assms show ?thesis by (simp add: lb64decode.simps [of tx])
qed

lemma lb64decode_Nil [simp]: "lb64decode [] = Inr []"
  by (simp add: lb64decode.simps [of "[]"])

lemma less_64: "take_bit 6 x = (x :: u32) \<Longrightarrow> x < 64"
  using take_bit_word_less [of 6 x] by (simp add: word_less_nat_alt)

lemma sextets3:
  fixes a b c :: u8
  defines "v \<equiv> push_bit 16 (ucast a) OR push_bit 8 (ucast b) OR ucast c :: u32"
  shows "take_bit 6 (drop_bit 18 v) = drop_bit 18 v"
    "push_bit 18 (drop_bit 18 v) OR push_bit 12 (take_bit 6 (drop_bit 12 v)) OR push_bit 6 (take_bit 6 (drop_bit 6 v)) OR take_bit 6 v = v"
    "ucast (drop_bit 16 v) = a" "ucast (take_bit 8 (drop_bit 8 v)) = b" "ucast (take_bit 8 v) = c"
proof -
  show "take_bit 6 (drop_bit 18 v) = drop_bit 18 v"
    by (rule bit_word_eqI) (auto simp: v_def bit_simps dest: bit_imp_le_length)
  show "push_bit 18 (drop_bit 18 v) OR push_bit 12 (take_bit 6 (drop_bit 12 v)) OR push_bit 6 (take_bit 6 (drop_bit 6 v)) OR take_bit 6 v = v"
    (is "?l = v")
  proof (rule bit_word_eqI)
    fix i
    assume "i < LENGTH(32)"
    then show "bit ?l i = bit v i" by (cases "i < 6"; cases "i < 12"; cases "i < 18") (auto simp: bit_simps)
  qed
  show "ucast (drop_bit 16 v) = a" "ucast (take_bit 8 (drop_bit 8 v)) = b" "ucast (take_bit 8 v) = c"
    by (rule bit_word_eqI, auto simp: v_def bit_simps dest: bit_imp_le_length)+
qed

lemma sextets2:
  fixes a b :: u8
  defines "v \<equiv> push_bit 8 (ucast a) OR ucast b :: u32"
  shows "take_bit 6 (drop_bit 10 v) = drop_bit 10 v" "take_bit 6 (push_bit 2 (take_bit 4 v)) = push_bit 2 (take_bit 4 v)"
    "take_bit 2 (push_bit 2 (take_bit 4 v)) = 0"
    "push_bit 10 (drop_bit 10 v) OR push_bit 4 (take_bit 6 (drop_bit 4 v)) OR drop_bit 2 (push_bit 2 (take_bit 4 v)) = v"
    "ucast (drop_bit 8 v) = a" "ucast (take_bit 8 v) = b"
proof -
  show "take_bit 6 (drop_bit 10 v) = drop_bit 10 v" "take_bit 6 (push_bit 2 (take_bit 4 v)) = push_bit 2 (take_bit 4 v)"
    "take_bit 2 (push_bit 2 (take_bit 4 v)) = 0"
    by (rule bit_word_eqI, auto simp: v_def bit_simps dest: bit_imp_le_length)+
  show "push_bit 10 (drop_bit 10 v) OR push_bit 4 (take_bit 6 (drop_bit 4 v)) OR drop_bit 2 (push_bit 2 (take_bit 4 v)) = v"
    (is "?l = v")
  proof (rule bit_word_eqI)
    fix i
    assume "i < LENGTH(32)"
    then show "bit ?l i = bit v i" by (cases "i < 4"; cases "i < 10") (auto simp: bit_simps)
  qed
  show "ucast (drop_bit 8 v) = a" "ucast (take_bit 8 v) = b"
    by (rule bit_word_eqI, auto simp: v_def bit_simps dest: bit_imp_le_length)+
qed

lemma sextets1:
  fixes a :: u8
  defines "v \<equiv> ucast a :: u32"
  shows "take_bit 6 (drop_bit 2 v) = drop_bit 2 v" "take_bit 6 (push_bit 4 (take_bit 2 v)) = push_bit 4 (take_bit 2 v)"
    "take_bit 4 (push_bit 4 (take_bit 2 v)) = 0" "push_bit 2 (drop_bit 2 v) OR drop_bit 4 (push_bit 4 (take_bit 2 v)) = v" "ucast v = a"
proof -
  show "take_bit 6 (drop_bit 2 v) = drop_bit 2 v" "take_bit 6 (push_bit 4 (take_bit 2 v)) = push_bit 4 (take_bit 2 v)"
    "take_bit 4 (push_bit 4 (take_bit 2 v)) = 0" "ucast v = a"
    by (rule bit_word_eqI, auto simp: v_def bit_simps dest: bit_imp_le_length)+
  show "push_bit 2 (drop_bit 2 v) OR drop_bit 4 (push_bit 4 (take_bit 2 v)) = v" (is "?l = v")
  proof (rule bit_word_eqI)
    fix i
    assume "i < LENGTH(32)"
    then show "bit ?l i = bit v i" by (cases i; cases "i - 1") (auto simp: bit_simps)
  qed
qed

lemma uint_and_mask: "uint (x :: u32) AND 3 = uint (take_bit 2 x)" "uint (x :: u32) AND 15 = uint (take_bit 4 x)"
  unfolding unsigned_take_bit_eq by (simp_all add: take_bit_eq_mask mask_eq_exp_minus_1)

lemma lb64decode_append: "lb64decode (lb64encode tx @ ys) = (case lb64decode ys of Inl e \<Rightarrow> Inl e | Inr out \<Rightarrow> Inr (tx @ out))"
proof (induction tx rule: lb64encode.induct)
  case (1 a b c tx)
  let ?v = "push_bit 16 (ucast a) OR push_bit 8 (ucast b) OR ucast c :: u32"
  let ?x = "[drop_bit 18 ?v, take_bit 6 (drop_bit 12 ?v), take_bit 6 (drop_bit 6 ?v), take_bit 6 ?v]"
  have lt: "x \<in> set ?x \<Longrightarrow> x < 64" for x using sextets3(1) [of a b c] by (intro less_64) auto
  have "b64_quad 4 (lb64encode (a # b # c # tx) @ ys) = Some (map uint ?x, lb64encode tx @ ys)"
    using lt by (simp add: and_masks b64_quad_encoded b64index_word uint_not_negative Let_def)
  moreover have "b64_bytes (map uint ?x) = Some [a, b, c]"
    using sextets3 [of a b c] by (simp add: b64_bytes_def uint_not_negative and_masks Let_def)
  ultimately show ?case using 1 by (simp add: lb64decode_quad split: sum.split)
next
  case (2 a)
  let ?v = "ucast a :: u32"
  let ?x = "[drop_bit 2 ?v, push_bit 4 (take_bit 2 ?v)]"
  have lt: "x \<in> set ?x \<Longrightarrow> x < 64" for x using sextets1(1,2) [of a] by (intro less_64) auto
  have "b64_quad 4 (lb64encode [a] @ ys) = Some (map uint ?x @ [-2, -2], ys)"
    using lt by (simp add: and_masks b64_quad_encoded b64index_word b64index_pad uint_not_negative Let_def)
  moreover have "b64_bytes (map uint ?x @ [-2, -2]) = Some [a]"
    using sextets1 [of a] by (simp add: b64_bytes_def uint_not_negative uint_and_mask of_int_drop_bit_uint Let_def)
  ultimately show ?case by (simp add: lb64decode_quad)
next
  case (3 a b)
  let ?v = "push_bit 8 (ucast a) OR ucast b :: u32"
  let ?x = "[drop_bit 10 ?v, take_bit 6 (drop_bit 4 ?v), push_bit 2 (take_bit 4 ?v)]"
  have lt: "x \<in> set ?x \<Longrightarrow> x < 64" for x using sextets2(1,2) [of a b] by (intro less_64) auto
  have "b64_quad 4 (lb64encode [a, b] @ ys) = Some (map uint ?x @ [-2], ys)"
    using lt by (simp add: and_masks b64_quad_encoded b64index_word b64index_pad uint_not_negative Let_def)
  moreover have "b64_bytes (map uint ?x @ [-2]) = Some [a, b]"
    using sextets2 [of a b] by (simp add: b64_bytes_def uint_not_negative uint_and_mask and_masks of_int_drop_bit_uint Let_def)
  ultimately show ?case by (simp add: lb64decode_quad)
qed (simp split: sum.split)

subsection \<open>Keys and exclusive or\<close>

text \<open>The random key is never the key of eight zero bytes.\<close>

lemma lrandomkey_not_0: "lrandomkey random \<noteq> replicate 8 0"
proof -
  define tmp where "tmp = map (\<lambda>i. ucast (random i AND 0xff) :: u8) [0..<8]"
  have "x OR 1 \<noteq> 0" for x :: u8
  proof
    assume "x OR 1 = 0"
    then have "bit (x OR 1) 0 = bit (0 :: u8) 0" by simp
    then show False by (simp add: bit_or_iff)
  qed
  then have "tmp[0 := tmp ! 0 OR 1] ! 0 \<noteq> 0" unfolding tmp_def by simp
  then have "tmp[0 := tmp ! 0 OR 1] \<noteq> replicate 8 0" by (metis nth_replicate zero_less_numeral)
  moreover have "foldl (XOR) 0 (replicate 8 0) = (0 :: u8)" by (simp add: numeral_eq_Suc)
  ultimately show ?thesis unfolding lrandomkey_def Let_def tmp_def [symmetric] by auto
qed

text \<open>The first half of the hash is the hash function \<open>h * 33 + c\<close> over the bytes of the text.\<close>

lemma hash_loop_djb: "fst (hash_loop str (h, j)) = foldl (\<lambda>h c. h * 33 + ucast c) h str"
proof (induction str arbitrary: h j)
  case (Cons c str)
  have "h + (push_bit 5 h + ucast c) = h * 33 + ucast c" by (simp add: push_bit_eq_mult)
  with Cons show ?case by (simp add: mult.commute [of 33])
qed simp

lemma lxor_str_twice:
  assumes "s2 \<noteq> []"
  shows "\<exists>c. lxor_str s1 s2 = Inr c \<and> lxor_str c s2 = Inr s1"
proof -
  let ?c = "map (\<lambda>i. s1 ! i XOR s2 ! (i mod length s2)) [0..<length s1]"
  have "map (\<lambda>i. ?c ! i XOR s2 ! (i mod length s2)) [0..<length ?c] = s1"
    by (rule nth_equalityI) (simp_all add: xor.assoc)
  with assms show ?thesis by (intro exI [of _ ?c] conjI) (simp_all only: lxor_str_def if_False)
qed

subsection \<open>Properties\<close>


text \<open>Property: \<^verbatim>\<open>hexdecode\<close> of what \<^verbatim>\<open>hexencode\<close> returns is the text; but it does not reject every text that
  is not hexadecimal: a character is accepted if it is a digit, one of \<^verbatim>\<open>a\<close> to \<^verbatim>\<open>g\<close> (with the value 16 for \<^verbatim>\<open>g\<close>), or one of the ten
  characters from \<^verbatim>\<open>W\<close> to the backquote, and no other.\<close>

theorem hex_roundtrip_and_accepted:
  "lfromhex (ltohex tx) = Inr tx \<and>
   ((\<exists>out. lfromhex [c, c] = Inr out) \<longleftrightarrow> 48 \<le> c \<and> c \<le> 57 \<or> 97 \<le> c \<and> c \<le> 103 \<or> 87 \<le> c \<and> c \<le> 96)"
  using HEX_accepted [of c] by (auto simp: lfromhex_def length_ltohex fromhex_tohex Let_def not_less)

end
