(* ===== verification/Dh.thy ===== *)
theory Dh
  imports Crypt_Text
begin

text \<open>
  The key exchange of \<^verbatim>\<open>lualib-src/lua-crypt.c\<close>: multiplication and powers modulo the prime \<^verbatim>\<open>P\<close> on 64-bit words, and
  \<^verbatim>\<open>dhexchange\<close> and \<^verbatim>\<open>dhsecret\<close>.

  The recursion of \<^verbatim>\<open>pow_mod_p\<close> does not end for the exponent 0, so the function is partial: \<open>None\<close> is a call that
  does not return.
\<close>

definition P :: u64 where
  "P = 0xffffffffffffffc5"

definition read64 :: "u8 list \<Rightarrow> u8 list \<Rightarrow> crypt_error + (u32 \<times> u32) \<times> (u32 \<times> u32)" where
  "read64 x y = (
     if length x \<noteq> 8 then Inl (Invalid_Uint64 ''x'')
     else if length y \<noteq> 8 then Inl (Invalid_Uint64 ''y'')
     else Inr ((le_word x 0, le_word x 4), (le_word y 0, le_word y 4)))"

lemma unat_drop_bit_1: "unat (drop_bit 1 (b :: u64)) = unat b div 2"
  using unat_div [of b 2] by (simp add: drop_bit_eq_div)

text \<open>The loop of the multiplication: \<open>m\<close> collects the multiples of \<open>a\<close> that the bits of \<open>b\<close> select.\<close>

function mul_loop :: "u64 \<Rightarrow> u64 \<Rightarrow> u64 \<Rightarrow> u64" where
  "mul_loop a b m = (if b = 0 then m else
     let m' = (if b AND 1 \<noteq> 0 then (let t = P - a in if m \<ge> t then m - t else m + a) else m);
         a' = (if a \<ge> P - a then a * 2 - P else a * 2) in
     mul_loop a' (drop_bit 1 b) m')"
  by pat_completeness auto
termination
proof (relation "measure (\<lambda>(_, b, _). unat b)", goal_cases)
  case (2 a b m)
  then have "0 < unat b" by (simp add: unat_gt_0)
  then show ?case by (simp only: in_measure case_prod_conv unat_drop_bit_1)
qed simp

declare mul_loop.simps [simp del]

definition mul_mod_p :: "u64 \<Rightarrow> u64 \<Rightarrow> u64" where
  "mul_mod_p a b = mul_loop a b 0"

partial_function (option) pow_mod_p :: "u64 \<Rightarrow> u64 \<Rightarrow> u64 option" where
  "pow_mod_p a b = (if b = 1 then Some a else do {
     t \<leftarrow> pow_mod_p a (drop_bit 1 b);
     let t = mul_mod_p t t;
     Some (if b mod 2 \<noteq> 0 then mul_mod_p t a else t) })"

definition powmodp :: "u64 \<Rightarrow> u64 \<Rightarrow> u64 option" where
  "powmodp a b = pow_mod_p (if a > P then a mod P else a) b"

definition push64 :: "u64 \<Rightarrow> u8 list" where
  "push64 r = [ucast (r AND 0xff), ucast (drop_bit 8 r AND 0xff), ucast (drop_bit 16 r AND 0xff), ucast (drop_bit 24 r AND 0xff),
     ucast (drop_bit 32 r AND 0xff), ucast (drop_bit 40 r AND 0xff), ucast (drop_bit 48 r AND 0xff), ucast (drop_bit 56 r AND 0xff)]"

definition u64_of :: "u32 \<times> u32 \<Rightarrow> u64" where
  "u64_of x = ucast (fst x) OR push_bit 32 (ucast (snd x))"

definition ldhsecret :: "u8 list \<Rightarrow> u8 list \<Rightarrow> (crypt_error + u8 list) option" where
  "ldhsecret x y = (case read64 x y of
     Inl e \<Rightarrow> Some (Inl e)
   | Inr (x, y) \<Rightarrow> (
       let xx = u64_of x; yy = u64_of y in
       if xx = 0 \<or> yy = 0 then Some (Inl Cant_Be_0)
       else do { r \<leftarrow> powmodp xx yy; Some (Inr (push64 r)) }))"

definition G :: u64 where
  "G = 5"

definition ldhexchange :: "u8 list \<Rightarrow> (crypt_error + u8 list) option" where
  "ldhexchange x = (
     if length x \<noteq> 8 then Some (Inl (Invalid_Uint64 ''dh''))
     else (let x64 = u64_of (le_word x 0, le_word x 4) in
       if x64 = 0 then Some (Inl Cant_Be_0)
       else do { r \<leftarrow> powmodp G x64; Some (Inr (push64 r)) }))"

subsection \<open>Multiplication\<close>

definition Pn :: nat where
  "Pn = 2 ^ 64 - 59"

lemma unat_P [simp]: "unat P = Pn"
  by (simp add: P_def Pn_def)

lemma and_1: "(b :: u64) AND 1 \<noteq> 0 \<longleftrightarrow> odd (unat b)"
proof -
  have "b AND 1 \<noteq> 0 \<longleftrightarrow> unat (b mod 2) \<noteq> 0" by (simp add: and_one_eq unat_eq_0)
  then show ?thesis using unat_mod [of b 2] by (simp add: odd_iff_mod_2_eq_one)
qed

lemma add_mod_p:
  assumes "a < P" "m < P"
  shows "unat (if m \<ge> P - a then m - (P - a) else m + a) = (unat m + unat a) mod Pn"
proof -
  have lt: "unat a < Pn" "unat m < Pn" using assms by (simp_all add: word_less_nat_alt)
  have t: "unat (P - a) = Pn - unat a" using assms by (simp add: unat_sub order_less_imp_le)
  show ?thesis
  proof (cases "m \<ge> P - a")
    case True
    then have "Pn - unat a \<le> unat m" by (simp add: word_le_nat_alt t)
    then have "unat m + unat a = Pn + (unat m - (Pn - unat a))" using lt by simp
    then have "(unat m + unat a) mod Pn = unat m - (Pn - unat a)" using lt by (simp only: mod_add_self1) (simp add: mod_less)
    with True lt show ?thesis by (simp add: unat_sub t)
  next
    case False
    then have "unat m + unat a < Pn" using lt by (simp add: word_le_nat_alt t)
    moreover from this have "unat (m + a) = unat m + unat a" by (simp add: unat_word_ariths Pn_def)
    ultimately show ?thesis using False by simp
  qed
qed

lemma double_mod_p: "a < P \<Longrightarrow> unat (if a \<ge> P - a then a * 2 - P else a * 2) = (2 * unat a) mod Pn"
proof -
  assume "a < P"
  moreover have "a * 2 - P = a - (P - a)" "a * 2 = a + a" by (simp_all add: mult_2_right)
  moreover have "2 * unat a = unat a + unat a" by (rule mult_2)
  ultimately show ?thesis using add_mod_p [of a a] by (simp only:)
qed

lemma mod_add_mult: "(x mod p + y mod p * z) mod p = (x + y * z) mod (p :: nat)"
proof -
  have "(x mod p + y mod p * z) mod p = (x mod p + (y mod p * z) mod p) mod p" by (simp only: mod_add_right_eq)
  also have "\<dots> = (x + y * z) mod p" by (simp only: mod_mult_left_eq mod_add_eq)
  finally show ?thesis .
qed

lemma mul_loop_mod:
  assumes "a < P" "m < P"
  shows "unat (mul_loop a b m) = (unat m + unat a * unat b) mod Pn"
  using assms
proof (induction a b m rule: mul_loop.induct)
  case (1 a b m)
  show ?case
  proof (cases "b = 0")
    case True
    with 1 show ?thesis by (simp add: mul_loop.simps [of a 0 m] word_less_nat_alt)
  next
    case False
    define m' where "m' = (if b AND 1 \<noteq> 0 then (let t = P - a in if m \<ge> t then m - t else m + a) else m)"
    define a' where "a' = (if a \<ge> P - a then a * 2 - P else a * 2)"
    have m': "unat m' = (unat m + unat a * (unat b mod 2)) mod Pn"
      using 1 add_mod_p [of a m] by (auto simp: m'_def and_1 Let_def word_less_nat_alt mod2_eq_if)
    have a': "unat a' = (2 * unat a) mod Pn" unfolding a'_def using 1 by (simp add: double_mod_p)
    have "unat m' < Pn" "unat a' < Pn" unfolding m' a' by (simp_all add: Pn_def)
    then have "unat (mul_loop a' (drop_bit 1 b) m') = (unat m' + unat a' * (unat b div 2)) mod Pn"
      using "1.IH" [OF False m'_def a'_def] by (simp only: word_less_nat_alt unat_P unat_drop_bit_1)
    also have "\<dots> = (unat m + unat a * (unat b mod 2) + 2 * unat a * (unat b div 2)) mod Pn"
      unfolding m' a' by (rule mod_add_mult)
    also have "\<dots> = (unat m + unat a * (2 * (unat b div 2) + unat b mod 2)) mod Pn"
      unfolding distrib_left by (simp only: ac_simps)
    finally show ?thesis using False unfolding mul_loop.simps [of a b m] Let_def m'_def a'_def by simp
  qed
qed

lemma mul_mod_p: "a < P \<Longrightarrow> unat (mul_mod_p a b) = (unat a * unat b) mod Pn"
  by (simp add: mul_mod_p_def mul_loop_mod word_less_nat_alt Pn_def)

subsection \<open>Powers\<close>

lemma unat_less_Pn: "a < P \<longleftrightarrow> unat a < Pn"
  by (simp add: word_less_nat_alt)

text \<open>Squaring and multiplying returns for every exponent but 0, and gives the power.\<close>

lemma pow_mod_p_power:
  assumes "a < P" "b \<noteq> 0"
  shows "\<exists>t. pow_mod_p a b = Some t \<and> unat t = unat a ^ unat b mod Pn"
  using assms(2)
proof (induction "unat b" arbitrary: b rule: less_induct)
  case less
  show ?case
  proof (cases "b = 1")
    case True
    with assms show ?thesis by (simp add: pow_mod_p.simps [of a 1] unat_less_Pn)
  next
    case False
    with less.prems have b: "1 < unat b" using word_unat_eq_iff [of b 0] word_unat_eq_iff [of b 1] by (simp del: word_unat_eq_iff)
    let ?h = "drop_bit 1 b"
    have h: "unat ?h = unat b div 2" by (rule unat_drop_bit_1)
    with b have "unat ?h < unat b" "unat ?h \<noteq> 0" by simp_all
    then have "?h \<noteq> 0" by (simp only: word_unat_eq_iff unat_0) simp
    with \<open>unat ?h < unat b\<close> less.hyps [of ?h] obtain t where t: "pow_mod_p a ?h = Some t" "unat t = unat a ^ (unat b div 2) mod Pn"
      unfolding h by blast
    have "unat t < Pn" using t(2) by (simp add: Pn_def)
    then have sq: "unat (mul_mod_p t t) = unat a ^ (2 * (unat b div 2)) mod Pn" "mul_mod_p t t < P"
      using t(2) by (simp_all add: unat_less_Pn mul_mod_p mod_mult_eq power_add [symmetric] mult_2 Pn_def)
    have "unat (mul_mod_p (mul_mod_p t t) a) = unat a ^ (2 * (unat b div 2) + 1) mod Pn"
      using sq by (simp add: mul_mod_p mod_mult_left_eq mod_mult_right_eq mult.commute)
    moreover have "b mod 2 \<noteq> 0 \<longleftrightarrow> odd (unat b)" using and_1 [of b] by (simp add: and_one_eq)
    moreover have "unat b = 2 * (unat b div 2) + (if odd (unat b) then 1 else 0)" by (simp add: mod2_eq_if [symmetric])
    ultimately have "unat (if b mod 2 \<noteq> 0 then mul_mod_p (mul_mod_p t t) a else mul_mod_p t t) = unat a ^ unat b mod Pn"
      using sq(1) by (cases "odd (unat b)") (simp_all only: if_True if_False simp_thms, simp_all)
    with False t show ?thesis by (simp add: pow_mod_p.simps [of a b] Let_def)
  qed
qed

text \<open>The exponent 0 recurses for ever; no caller passes it.\<close>

lemma pow_mod_p_0: "pow_mod_p a 0 = None"
proof -
  have "b \<noteq> 0" if "pow_mod_p a b = Some t" for b t
    using that by (rule pow_mod_p.raw_induct [rotated]) (fastforce split: if_splits bind_splits)
  then show ?thesis by (cases "pow_mod_p a 0") auto
qed

lemma powmodp_power:
  assumes "a \<noteq> P" "b \<noteq> 0"
  shows "\<exists>t. powmodp a b = Some t \<and> unat t = unat a ^ unat b mod Pn"
proof (cases "a > P")
  case True
  have "unat (a mod P) = unat a mod Pn" by (simp add: unat_mod)
  moreover from this have "a mod P < P" by (simp add: unat_less_Pn Pn_def)
  ultimately show ?thesis using True pow_mod_p_power [of "a mod P" b] assms by (simp add: powmodp_def power_mod)
next
  case False
  with assms show ?thesis using pow_mod_p_power [of a b] by (simp add: powmodp_def)
qed

subsection \<open>Bytes\<close>

lemma push64_le: "push64 r = le32 (ucast r) @ le32 (ucast (drop_bit 32 r))"
proof -
  have m: "(x :: u64) AND 0xff = take_bit 8 x" for x by (simp add: take_bit_eq_mask mask_eq_exp_minus_1)
  show ?thesis unfolding push64_def le32_def m append.simps
    by (intro list.inject [THEN iffD2] conjI refl; rule bit_word_eqI) (auto simp: bit_simps)
qed

lemma u64_of_push64: "u64_of (le_word (push64 r) 0, le_word (push64 r) 4) = r"
proof -
  have "le_word (push64 r) 0 = ucast r" unfolding push64_le by (rule le_word_le32)
  moreover have "le_word (push64 r) 4 = le_word (le32 (ucast (drop_bit 32 r)) @ []) 0"
    unfolding push64_le by (simp add: le_word_def nth_append le32_def)
  then have "le_word (push64 r) 4 = ucast (drop_bit 32 r)" by (simp only: le_word_le32)
  moreover have "u64_of (ucast r, ucast (drop_bit 32 r)) = r"
    unfolding u64_of_def fst_conv snd_conv
  proof (rule bit_word_eqI)
    fix i
    assume "i < LENGTH(64)"
    then show "bit (ucast (ucast r :: u32) OR push_bit 32 (ucast (ucast (drop_bit 32 r) :: u32)) :: u64) i = bit r i"
      by (cases "i < 32") (auto simp: bit_simps)
  qed
  ultimately show ?thesis by simp
qed

lemma length_push64 [simp]: "length (push64 r) = 8"
  by (simp add: push64_def)

text \<open>The number that eight bytes stand for.\<close>

definition num64 :: "u8 list \<Rightarrow> nat" where
  "num64 x = unat (u64_of (le_word x 0, le_word x 4))"

lemma num64_eq_0: "num64 x = 0 \<longleftrightarrow> u64_of (le_word x 0, le_word x 4) = 0"
  by (simp add: num64_def unat_eq_0)

lemma num64_push64 [simp]: "num64 (push64 r) = unat r"
  by (simp add: num64_def u64_of_push64)

lemma ldhexchange_power:
  assumes "length x = 8" "num64 x \<noteq> 0"
  shows "\<exists>X. ldhexchange x = Some (Inr X) \<and> length X = 8 \<and> num64 X = 5 ^ num64 x mod Pn"
proof -
  let ?x = "u64_of (le_word x 0, le_word x 4)"
  have "?x \<noteq> 0" using assms(2) by (auto simp: num64_def)
  moreover have "G \<noteq> P" by (simp add: G_def P_def)
  ultimately obtain t where "powmodp G ?x = Some t" "unat t = unat G ^ unat ?x mod Pn" using powmodp_power by blast
  with \<open>?x \<noteq> 0\<close> assms(1) show ?thesis
    by (intro exI [of _ "push64 t"]) (simp add: ldhexchange_def G_def num64_def u64_of_push64)
qed

lemma ldhsecret_power:
  assumes "length X = 8" "length y = 8" "num64 X \<noteq> 0" "num64 y \<noteq> 0" "num64 X \<noteq> Pn"
  shows "\<exists>r. ldhsecret X y = Some (Inr (push64 r)) \<and> unat r = num64 X ^ num64 y mod Pn"
proof -
  let ?x = "u64_of (le_word X 0, le_word X 4)" and ?y = "u64_of (le_word y 0, le_word y 4)"
  have nz: "?x \<noteq> 0" "?y \<noteq> 0" using assms by (auto simp: num64_def)
  moreover have "?x \<noteq> P" using assms(5) by (auto simp: num64_def)
  ultimately obtain t where "powmodp ?x ?y = Some t" "unat t = unat ?x ^ unat ?y mod Pn" using powmodp_power by blast
  with nz assms(1,2) show ?thesis by (intro exI [of _ t]) (simp add: ldhsecret_def read64_def num64_def Let_def)
qed

lemma power_5_mod: "5 ^ n mod Pn \<noteq> 0"
proof
  assume "5 ^ n mod Pn = 0"
  then have "Pn dvd 5 ^ n" by (simp add: mod_eq_0_iff_dvd)
  moreover have "coprime Pn 5"
    unfolding coprime_iff_gcd_eq_1 Pn_def by (simp add: gcd_non_0_nat)
  then have "coprime Pn (5 ^ n)" by simp
  ultimately have "is_unit Pn" by (meson coprime_common_divisor dvd_refl)
  then show False by (simp add: Pn_def)
qed

subsection \<open>Properties\<close>

text \<open>Property: two sides that exchange the results of \<^verbatim>\<open>dhexchange\<close> for their keys get the same secret from \<^verbatim>\<open>dhsecret\<close>:
  for any two keys of eight bytes that are not 0, no call fails, and the common secret is 5 to the product of the keys modulo the
  prime, in 64-bit arithmetic without overflow.\<close>

theorem dh_agreement:
  assumes "length x = 8" "length y = 8" "num64 x \<noteq> 0" "num64 y \<noteq> 0"
  shows "\<exists>X Y r. ldhexchange x = Some (Inr X) \<and> ldhexchange y = Some (Inr Y) \<and>
    ldhsecret X y = Some (Inr (push64 r)) \<and> ldhsecret Y x = Some (Inr (push64 r)) \<and>
    unat r = 5 ^ (num64 x * num64 y) mod (2 ^ 64 - 59)"
proof -
  from ldhexchange_power [OF assms(1,3)] obtain X where X: "ldhexchange x = Some (Inr X)" "length X = 8" "num64 X = 5 ^ num64 x mod Pn"
    by blast
  from ldhexchange_power [OF assms(2,4)] obtain Y where Y: "ldhexchange y = Some (Inr Y)" "length Y = 8" "num64 Y = 5 ^ num64 y mod Pn"
    by blast
  have less: "5 ^ n mod Pn < Pn" for n by (simp add: Pn_def)
  from ldhsecret_power [OF X(2) assms(2) _ assms(4)] X(3) power_5_mod less obtain r where
    r: "ldhsecret X y = Some (Inr (push64 r))" "unat r = num64 X ^ num64 y mod Pn" by (metis order_less_irrefl)
  from ldhsecret_power [OF Y(2) assms(1) _ assms(3)] Y(3) power_5_mod less obtain s where
    s: "ldhsecret Y x = Some (Inr (push64 s))" "unat s = num64 Y ^ num64 x mod Pn" by (metis order_less_irrefl)
  have ur: "unat r = 5 ^ (num64 x * num64 y) mod Pn" using r(2) X(3) by (simp add: power_mod power_mult)
  moreover have "unat s = 5 ^ (num64 x * num64 y) mod Pn" using s(2) Y(3) by (simp add: power_mod power_mult mult.commute [of "num64 x"])
  ultimately have "s = r" by (simp add: word_unat_eq_iff)
  with X(1) Y(1) r(1) s(1) ur show ?thesis unfolding Pn_def by blast
qed

theorem dh_agreement_witness:
  "\<exists>X Y r. ldhexchange [3, 0, 0, 0, 0, 0, 0, 1] = Some (Inr X) \<and> ldhexchange [7, 0, 0, 9, 0, 0, 0, 200] = Some (Inr Y) \<and>
    ldhsecret X [7, 0, 0, 9, 0, 0, 0, 200] = Some (Inr (push64 r)) \<and> ldhsecret Y [3, 0, 0, 0, 0, 0, 0, 1] = Some (Inr (push64 r)) \<and>
    unat r = 5 ^ (num64 [3, 0, 0, 0, 0, 0, 0, 1] * num64 [7, 0, 0, 9, 0, 0, 0, 200]) mod (2 ^ 64 - 59)"
proof (rule dh_agreement)
  show "num64 [3, 0, 0, 0, 0, 0, 0, 1] \<noteq> 0" unfolding num64_eq_0 by code_simp
  show "num64 [7, 0, 0, 9, 0, 0, 0, 200] \<noteq> 0" unfolding num64_eq_0 by code_simp
qed simp_all

text \<open>A base equal to the prime is not reduced, because the code compares with \<^verbatim>\<open>a > P\<close>: its first power is the prime itself and
  not 0.\<close>

theorem powmodp_of_prime: "powmodp P 1 = Some P \<and> unat P ^ 1 mod Pn = 0"
  by (simp add: powmodp_def pow_mod_p.simps [of P 1])

end
