(* ===== verification/Md5.thy ===== *)
theory Md5
  imports Dh
begin

text \<open>
  The message authentication codes of \<^verbatim>\<open>lualib-src/lua-crypt.c\<close>: the 64 steps of MD5 on one block, \<^verbatim>\<open>hmac64\<close>,
  \<^verbatim>\<open>hmac64_md5\<close> and \<^verbatim>\<open>hmac_hash\<close>; and a definition of MD5 for messages of any size after RFC 1321, against which the comment on
  \<^verbatim>\<open>hmac64_md5\<close> is proved.
\<close>

subsection \<open>One block\<close>

definition md5_k :: "u32 list" where
  "md5_k = [
     0xd76aa478, 0xe8c7b756, 0x242070db, 0xc1bdceee, 0xf57c0faf, 0x4787c62a, 0xa8304613, 0xfd469501,
     0x698098d8, 0x8b44f7af, 0xffff5bb1, 0x895cd7be, 0x6b901122, 0xfd987193, 0xa679438e, 0x49b40821,
     0xf61e2562, 0xc040b340, 0x265e5a51, 0xe9b6c7aa, 0xd62f105d, 0x02441453, 0xd8a1e681, 0xe7d3fbc8,
     0x21e1cde6, 0xc33707d6, 0xf4d50d87, 0x455a14ed, 0xa9e3e905, 0xfcefa3f8, 0x676f02d9, 0x8d2a4c8a,
     0xfffa3942, 0x8771f681, 0x6d9d6122, 0xfde5380c, 0xa4beea44, 0x4bdecfa9, 0xf6bb4b60, 0xbebfbc70,
     0x289b7ec6, 0xeaa127fa, 0xd4ef3085, 0x04881d05, 0xd9d4d039, 0xe6db99e5, 0x1fa27cf8, 0xc4ac5665,
     0xf4292244, 0x432aff97, 0xab9423a7, 0xfc93a039, 0x655b59c3, 0x8f0ccc92, 0xffeff47d, 0x85845dd1,
     0x6fa87e4f, 0xfe2ce6e0, 0xa3014314, 0x4e0811a1, 0xf7537e82, 0xbd3af235, 0x2ad7d2bb, 0xeb86d391]"

definition md5_r :: "nat list" where
  "md5_r = [7, 12, 17, 22, 7, 12, 17, 22, 7, 12, 17, 22, 7, 12, 17, 22,
     5, 9, 14, 20, 5, 9, 14, 20, 5, 9, 14, 20, 5, 9, 14, 20,
     4, 11, 16, 23, 4, 11, 16, 23, 4, 11, 16, 23, 4, 11, 16, 23,
     6, 10, 15, 21, 6, 10, 15, 21, 6, 10, 15, 21, 6, 10, 15, 21]"

definition LEFTROTATE :: "u32 \<Rightarrow> nat \<Rightarrow> u32" where
  "LEFTROTATE x c = push_bit c x OR drop_bit (32 - c) x"

text \<open>One turn of the loop, on the four variables.\<close>

definition md5_turn :: "u32 list \<Rightarrow> nat \<Rightarrow> u32 \<times> u32 \<times> u32 \<times> u32 \<Rightarrow> u32 \<times> u32 \<times> u32 \<times> u32" where
  "md5_turn w i s = (case s of (a, b, c, d) \<Rightarrow>
     let (f, g) = (if i < 16 then ((b AND c) OR ((NOT b) AND d), i)
       else if i < 32 then ((d AND b) OR ((NOT d) AND c), (5 * i + 1) mod 16)
       else if i < 48 then (b XOR c XOR d, (3 * i + 5) mod 16)
       else (c XOR (b OR (NOT d)), (7 * i) mod 16)) in
     (d, b + LEFTROTATE (a + f + md5_k ! i + w ! g) (md5_r ! i), b, c))"

definition digest_md5 :: "u32 list \<Rightarrow> u32 list" where
  "digest_md5 w = (
     let (a, b, c, d) = foldl (\<lambda>s i. md5_turn w i s) (0x67452301, 0xefcdab89, 0x98badcfe, 0x10325476) [0..<64] in
     [a, b, c, d])"

subsection \<open>The codes\<close>

definition hmac :: "u32 \<times> u32 \<Rightarrow> u32 \<times> u32 \<Rightarrow> u32 \<times> u32" where
  "hmac x y = (
     let w = concat (replicate 4 [snd x, fst x, snd y, fst y]);
         r = digest_md5 w in
     (r ! 2 XOR r ! 3, r ! 0 XOR r ! 1))"

definition hmac_md5 :: "u32 \<times> u32 \<Rightarrow> u32 \<times> u32 \<Rightarrow> u32 \<times> u32" where
  "hmac_md5 x y = (
     let w = concat (replicate 3 [fst x, snd x, fst y, snd y]) @ [0x80, 0, 384, 0];
         r = digest_md5 w in
     ((r ! 0 + 0x67452301) XOR (r ! 2 + 0x98badcfe), (r ! 1 + 0xefcdab89) XOR (r ! 3 + 0x10325476)))"

definition pushqword :: "u32 \<times> u32 \<Rightarrow> u8 list" where
  "pushqword result = le32 (fst result) @ le32 (snd result)"

definition lhmac64 :: "u8 list \<Rightarrow> u8 list \<Rightarrow> crypt_error + u8 list" where
  "lhmac64 x y = (case read64 x y of Inl e \<Rightarrow> Inl e | Inr (x, y) \<Rightarrow> Inr (pushqword (hmac x y)))"

definition lhmac64_md5 :: "u8 list \<Rightarrow> u8 list \<Rightarrow> crypt_error + u8 list" where
  "lhmac64_md5 x y = (case read64 x y of Inl e \<Rightarrow> Inl e | Inr (x, y) \<Rightarrow> Inr (pushqword (hmac_md5 x y)))"

definition lhmac_hash :: "u8 list \<Rightarrow> u8 list \<Rightarrow> crypt_error + u8 list" where
  "lhmac_hash x tx = (
     if length x \<noteq> 8 then Inl (Invalid_Uint64 ''key'')
     else (let key = (le_word x 0, le_word x 4); h = Hash tx; htext = (le_word h 0, le_word h 4) in
       Inr (pushqword (hmac htext key))))"

subsection \<open>MD5 after RFC 1321\<close>

text \<open>The four auxiliary functions, the word and the function each of the 64 operations uses.\<close>

definition rfc_F :: "u32 \<Rightarrow> u32 \<Rightarrow> u32 \<Rightarrow> u32" where "rfc_F x y z = (x AND y) OR (NOT x AND z)"
definition rfc_G :: "u32 \<Rightarrow> u32 \<Rightarrow> u32 \<Rightarrow> u32" where "rfc_G x y z = (x AND z) OR (y AND NOT z)"
definition rfc_H :: "u32 \<Rightarrow> u32 \<Rightarrow> u32 \<Rightarrow> u32" where "rfc_H x y z = x XOR y XOR z"
definition rfc_I :: "u32 \<Rightarrow> u32 \<Rightarrow> u32 \<Rightarrow> u32" where "rfc_I x y z = y XOR (x OR NOT z)"

definition rfc_fun :: "nat \<Rightarrow> u32 \<Rightarrow> u32 \<Rightarrow> u32 \<Rightarrow> u32" where
  "rfc_fun i = [rfc_F, rfc_G, rfc_H, rfc_I] ! (i div 16)"

definition rfc_word :: "nat \<Rightarrow> nat" where
  "rfc_word i = [i, 5 * i + 1, 3 * i + 5, 7 * i] ! (i div 16) mod 16"

text \<open>The operation \<open>[abcd k s i]\<close> changes one of the four registers in place: \<open>a = b + ((a + f (b, c, d) + X[k] + T[i]) <<< s)\<close>; the
  registers change their roles from one operation to the next, in the order ABCD, DABC, CDAB, BCDA.\<close>

definition rfc_operation :: "u32 list \<Rightarrow> nat \<Rightarrow> u32 list \<Rightarrow> u32 list" where
  "rfc_operation X i R = (
     let p = (4 - i mod 4) mod 4; a = R ! p; b = R ! ((p + 1) mod 4); c = R ! ((p + 2) mod 4); d = R ! ((p + 3) mod 4) in
     R[p := b + word_rotl (md5_r ! i) (a + rfc_fun i b c d + X ! rfc_word i + md5_k ! i)])"

definition rfc_block :: "u32 list \<Rightarrow> u8 list \<Rightarrow> u32 list" where
  "rfc_block R block = map2 (+) R (fold (rfc_operation (map (\<lambda>j. le_word block (4 * j)) [0..<16])) [0..<64] R)"

definition rfc_padded :: "u8 list \<Rightarrow> u8 list" where
  "rfc_padded m = m @ 0x80 # replicate ((119 - length m mod 64) mod 64) 0 @ push64 (of_nat (8 * length m))"

function rfc_blocks :: "u32 list \<Rightarrow> u8 list \<Rightarrow> u32 list" where
  "rfc_blocks R m = (if length m < 64 then R else rfc_blocks (rfc_block R (take 64 m)) (drop 64 m))"
  by pat_completeness auto
termination by (relation "measure (\<lambda>(_, m). length m)") auto

declare rfc_blocks.simps [simp del]

definition rfc_md5 :: "u8 list \<Rightarrow> u8 list" where
  "rfc_md5 m = concat (map le32 (rfc_blocks [0x67452301, 0xefcdab89, 0x98badcfe, 0x10325476] (rfc_padded m)))"

subsection \<open>The block of the code and the block of the RFC\<close>

lemma LEFTROTATE_rotl:
  assumes "0 < c" "c < 32"
  shows "LEFTROTATE x c = word_rotl c x"
proof (rule bit_word_eqI)
  fix n
  assume n: "n < LENGTH(32)"
  have "(32 + n - c) mod 32 = (if n < c then 32 + n - c else n - c)"
    using assms n by (cases "n < c") (simp_all add: le_mod_geq)
  with assms n show "bit (LEFTROTATE x c) n = bit (word_rotl c x) n"
    by (auto simp: LEFTROTATE_def bit_simps add.commute [of n 32] dest: bit_imp_le_length)
qed

lemma md5_r_bounds: "i < 64 \<Longrightarrow> 0 < md5_r ! i \<and> md5_r ! i < 32"
proof -
  have "list_all (\<lambda>i. 0 < md5_r ! i \<and> md5_r ! i < 32) [0..<64]" by code_simp
  then show "i < 64 \<Longrightarrow> 0 < md5_r ! i \<and> md5_r ! i < 32" by (simp add: list_all_iff)
qed

lemma md5_turn_rfc:
  assumes "i < 64"
  shows "md5_turn X i (a, b, c, d) = (d, b + word_rotl (md5_r ! i) (a + rfc_fun i b c d + X ! rfc_word i + md5_k ! i), b, c)"
proof -
  consider "i < 16" | "16 \<le> i" "i < 32" | "32 \<le> i" "i < 48" | "48 \<le> i" "i < 64" using assms by linarith
  then have "i div 16 = (if i < 16 then 0 else if i < 32 then 1 else if i < 48 then 2 else 3)"
    by cases (simp_all add: div_nat_eqI)
  with md5_r_bounds [OF assms] show ?thesis
    by (auto simp: md5_turn_def LEFTROTATE_rotl rfc_fun_def rfc_word_def rfc_F_def rfc_G_def rfc_H_def rfc_I_def ac_simps
        and.commute or.commute)
qed

text \<open>The registers of the RFC in the roles they have after \<open>n\<close> operations are the variables of the code.\<close>

definition roles :: "nat \<Rightarrow> u32 list \<Rightarrow> u32 \<times> u32 \<times> u32 \<times> u32" where
  "roles n R = (let p = (4 - n mod 4) mod 4 in (R ! p, R ! ((p + 1) mod 4), R ! ((p + 2) mod 4), R ! ((p + 3) mod 4)))"

lemma length_rfc_operation [simp]: "length (rfc_operation X i R) = length R"
  by (simp add: rfc_operation_def Let_def)

lemma roles_operation:
  assumes "length R = 4" "n < 64"
  shows "roles (Suc n) (rfc_operation X n R) = md5_turn X n (roles n R)"
proof -
  from assms(1) obtain r0 r1 r2 r3 where R: "R = [r0, r1, r2, r3]" by (auto simp: length_Suc_conv numeral_eq_Suc)
  consider "n mod 4 = 0" | "n mod 4 = 1" | "n mod 4 = 2" | "n mod 4 = 3" by linarith
  then show ?thesis
    by cases (simp_all add: R roles_def rfc_operation_def md5_turn_rfc [OF assms(2)] mod_Suc Let_def)
qed

lemma roles_fold:
  assumes "length R = 4"
  shows "n \<le> 64 \<Longrightarrow> length (fold (rfc_operation X) [0..<n] R) = 4 \<and>
    roles n (fold (rfc_operation X) [0..<n] R) = foldl (\<lambda>s i. md5_turn X i s) (roles 0 R) [0..<n]"
  by (induction n) (simp_all add: assms roles_operation)

lemma digest_md5_rfc: "digest_md5 X = fold (rfc_operation X) [0..<64] [0x67452301, 0xefcdab89, 0x98badcfe, 0x10325476]"
proof -
  define IV where "IV = [0x67452301, 0xefcdab89, 0x98badcfe, 0x10325476 :: u32]"
  define R where "R = fold (rfc_operation X) [0..<64] IV"
  have "length IV = 4" by (simp add: IV_def)
  then have l: "length R = 4" and r: "roles 64 R = foldl (\<lambda>s i. md5_turn X i s) (roles 0 IV) [0..<64]"
    using roles_fold [of IV 64 X] by (simp_all only: R_def order_refl simp_thms)
  from l obtain r0 r1 r2 r3 where "R = [r0, r1, r2, r3]" by (auto simp: length_Suc_conv numeral_eq_Suc)
  moreover have "roles 0 IV = (0x67452301, 0xefcdab89, 0x98badcfe, 0x10325476)" by (simp add: roles_def IV_def)
  ultimately have "foldl (\<lambda>s i. md5_turn X i s) (0x67452301, 0xefcdab89, 0x98badcfe, 0x10325476) [0..<64] = (r0, r1, r2, r3)"
    using r by (simp add: roles_def del: upt_rec_numeral)
  with \<open>R = [r0, r1, r2, r3]\<close> have "digest_md5 X = R" unfolding digest_md5_def by (simp only: Let_def prod.case)
  then show ?thesis unfolding R_def IV_def .
qed

subsection \<open>The words of a message\<close>

lemma le_word_append1 [simp]: "i + 4 \<le> length xs \<Longrightarrow> le_word (xs @ ys) i = le_word xs i"
  by (simp add: le_word_def nth_append)

lemma le_word_append2 [simp]: "length xs \<le> i \<Longrightarrow> le_word (xs @ ys) i = le_word ys (i - length xs)"
proof -
  assume "length xs \<le> i"
  then obtain k where "i = length xs + k" by (auto simp: le_iff_add)
  then show ?thesis by (simp add: le_word_def nth_append)
qed

lemma le32_xor: "le32 (x XOR y) = map2 (XOR) (le32 x) (le32 y)"
  unfolding le32_def by (simp; intro conjI; rule bit_word_eqI) (auto simp: bit_simps)

lemma lxor_str_same_size: "length s1 = length s2 \<Longrightarrow> s2 \<noteq> [] \<Longrightarrow> lxor_str s1 s2 = Inr (map2 (XOR) s1 s2)"
  by (auto simp: lxor_str_def intro: nth_equalityI)

lemma le32_not_Nil [simp]: "le32 x \<noteq> []"
  by (simp add: le32_def)

lemma length_le32 [simp]: "length (le32 x) = 4"
  by (simp add: le32_def)

lemma map2_append: "length a = length b \<Longrightarrow> map2 f (a @ c) (b @ d) = map2 f a b @ map2 f c d"
  by (simp add: zip_append)

lemma block_words:
  assumes "length x = 8" "length y = 8"
  shows "map (\<lambda>j. le_word (rfc_padded (concat (replicate 3 (x @ y)))) (4 * j)) [0..<16]
    = concat (replicate 3 [le_word x 0, le_word x 4, le_word y 0, le_word y 4]) @ [0x80, 0, 384, 0]"
proof -
  have tail: "map (\<lambda>j. le_word (0x80 # replicate 7 0 @ push64 384) (4 * j)) [0..<4] = [0x80, 0, 384, 0]" by code_simp
  have m: "concat (replicate 3 (x @ y)) = x @ y @ x @ y @ x @ y" by (simp add: numeral_eq_Suc)
  have "(119 - 48 mod 64) mod 64 = (7 :: nat)" by simp
  then have p: "rfc_padded (concat (replicate 3 (x @ y))) = x @ y @ x @ y @ x @ y @ (0x80 # replicate 7 0 @ push64 384)"
    unfolding m using assms by (simp add: rfc_padded_def)
  have "[0..<16] = [0 :: nat, 1, 2, 3, 4, 5, 6, 7, 8, 9, 10, 11, 12, 13, 14, 15]" by (simp add: upt_rec)
  with tail assms show ?thesis unfolding p by (simp add: upt_rec numeral_3_eq_3 del: append.simps)
qed

subsection \<open>Properties\<close>

text \<open>Property: \<^verbatim>\<open>hmac64_md5\<close> is what the comment in the code says: the MD5 sum of the concatenation of its arguments, repeated
  three times, with its two halves combined by exclusive or. MD5 is the function of RFC 1321, with padding, blocks in sequence
  and operations on registers in place.\<close>

theorem hmac64_md5_is_md5:
  assumes "length x = 8" "length y = 8"
  shows "lhmac64_md5 x y = (let m = rfc_md5 (concat (replicate 3 (x @ y))) in lxor_str (take 8 m) (drop 8 m))"
proof -
  define M where "M = rfc_padded (concat (replicate 3 (x @ y)))"
  define w where "w = map (\<lambda>j. le_word M (4 * j)) [0..<16]"
  obtain r0 r1 r2 r3 where r: "digest_md5 w = [r0, r1, r2, r3]" by (simp add: digest_md5_def case_prod_unfold Let_def)
  have "length (concat (replicate 3 (x @ y))) = 48" using assms by (simp add: numeral_3_eq_3)
  then have l: "length M = 64" by (simp add: M_def rfc_padded_def)
  have "rfc_blocks R M = rfc_block R M" for R using l by (simp add: rfc_blocks.simps [of R M] rfc_blocks.simps [of _ "[]"])
  then have m: "rfc_md5 (concat (replicate 3 (x @ y))) =
      le32 (r0 + 0x67452301) @ le32 (r1 + 0xefcdab89) @ le32 (r2 + 0x98badcfe) @ le32 (r3 + 0x10325476)"
    using r by (simp add: rfc_md5_def rfc_block_def add.commute flip: M_def w_def digest_md5_rfc)
  have "w = concat (replicate 3 [le_word x 0, le_word x 4, le_word y 0, le_word y 4]) @ [0x80, 0, 384, 0]"
    unfolding w_def M_def by (rule block_words [OF assms])
  with r have "hmac_md5 (le_word x 0, le_word x 4) (le_word y 0, le_word y 4) =
      ((r0 + 0x67452301) XOR (r2 + 0x98badcfe), (r1 + 0xefcdab89) XOR (r3 + 0x10325476))"
    by (simp add: hmac_md5_def)
  then show ?thesis
    using assms by (simp add: lhmac64_md5_def read64_def pushqword_def m lxor_str_same_size le32_xor map2_append)
qed

theorem hmac64_md5_is_md5_witness:
  "lhmac64_md5 [1, 2, 3, 4, 5, 6, 7, 8] [9, 10, 11, 12, 13, 14, 15, 16] =
    (let m = rfc_md5 (concat (replicate 3 ([1, 2, 3, 4, 5, 6, 7, 8] @ [9, 10, 11, 12, 13, 14, 15, 16]))) in lxor_str (take 8 m) (drop 8 m))"
  by (rule hmac64_md5_is_md5) simp_all

end
