(* ===== verification/Sha1.thy ===== *)
theory Sha1
  imports Md5
begin

text \<open>
  \<^verbatim>\<open>lualib-src/lsha1.c\<close>: the SHA-1 context with its counter and its buffer of one block, the transformation of a block with its
  schedule computed in place, \<^verbatim>\<open>sha1\<close> and \<^verbatim>\<open>hmac_sha1\<close>; and the functions of FIPS 180 and RFC 2104, against which they are proved.

  The code is the one for little-endian machines. The contexts live on the stack and are not initialised; the functions take them
  with the content they have, so that a property holds whatever that is.
\<close>

record SHA1_CTX =
  sha_state :: "u32 list"
  sha_count :: "u32 \<times> u32"
  sha_buffer :: "u8 list"

subsection \<open>One block\<close>

definition rol :: "u32 \<Rightarrow> nat \<Rightarrow> u32" where
  "rol v bits = push_bit bits v OR drop_bit (32 - bits) v"

text \<open>The macros that expand the block store the word in the block and have it as their value.\<close>

definition blk0 :: "u32 list \<Rightarrow> nat \<Rightarrow> u32 list \<times> u32" where
  "blk0 l i = (let v = (rol (l ! i) 24 AND 0xFF00FF00) OR (rol (l ! i) 8 AND 0x00FF00FF) in (l[i := v], v))"

definition blk :: "u32 list \<Rightarrow> nat \<Rightarrow> u32 list \<times> u32" where
  "blk l i = (
     let v = rol (l ! ((i + 13) mod 16) XOR l ! ((i + 8) mod 16) XOR l ! ((i + 2) mod 16) XOR l ! (i mod 16)) 1 in
     (l[i mod 16 := v], v))"

text \<open>The five variables in the order of the arguments of an operation. The operation changes the fifth and the second; the next
  operation of the unrolled loop has the fifth as its first argument, so the result is in that order.\<close>

type_synonym sha_vars = "u32 \<times> u32 \<times> u32 \<times> u32 \<times> u32"

definition R0 :: "nat \<Rightarrow> sha_vars \<times> u32 list \<Rightarrow> sha_vars \<times> u32 list" where
  "R0 i s = (case s of ((v, w, x, y, z), l) \<Rightarrow> let (l, b) = blk0 l i in
     ((z + (((w AND (x XOR y)) XOR y) + b + 0x5A827999 + rol v 5), v, rol w 30, x, y), l))"

definition R1 :: "nat \<Rightarrow> sha_vars \<times> u32 list \<Rightarrow> sha_vars \<times> u32 list" where
  "R1 i s = (case s of ((v, w, x, y, z), l) \<Rightarrow> let (l, b) = blk l i in
     ((z + (((w AND (x XOR y)) XOR y) + b + 0x5A827999 + rol v 5), v, rol w 30, x, y), l))"

definition R2 :: "nat \<Rightarrow> sha_vars \<times> u32 list \<Rightarrow> sha_vars \<times> u32 list" where
  "R2 i s = (case s of ((v, w, x, y, z), l) \<Rightarrow> let (l, b) = blk l i in
     ((z + ((w XOR x XOR y) + b + 0x6ED9EBA1 + rol v 5), v, rol w 30, x, y), l))"

definition R3 :: "nat \<Rightarrow> sha_vars \<times> u32 list \<Rightarrow> sha_vars \<times> u32 list" where
  "R3 i s = (case s of ((v, w, x, y, z), l) \<Rightarrow> let (l, b) = blk l i in
     ((z + ((((w OR x) AND y) OR (w AND x)) + b + 0x8F1BBCDC + rol v 5), v, rol w 30, x, y), l))"

definition R4 :: "nat \<Rightarrow> sha_vars \<times> u32 list \<Rightarrow> sha_vars \<times> u32 list" where
  "R4 i s = (case s of ((v, w, x, y, z), l) \<Rightarrow> let (l, b) = blk l i in
     ((z + ((w XOR x XOR y) + b + 0xCA62C1D6 + rol v 5), v, rol w 30, x, y), l))"

definition sha1_op :: "nat \<Rightarrow> sha_vars \<times> u32 list \<Rightarrow> sha_vars \<times> u32 list" where
  "sha1_op i = (if i < 16 then R0 i else if i < 20 then R1 i else if i < 40 then R2 i else if i < 60 then R3 i else R4 i)"

definition SHA1_Transform :: "u32 list \<Rightarrow> u8 list \<Rightarrow> u32 list" where
  "SHA1_Transform st buf = (
     let block = map (\<lambda>i. le_word buf (4 * i)) [0..<16];
         ((a, b, c, d, e), block) = fold sha1_op [0..<80] ((st ! 0, st ! 1, st ! 2, st ! 3, st ! 4), block) in
     [st ! 0 + a, st ! 1 + b, st ! 2 + c, st ! 3 + d, st ! 4 + e])"

subsection \<open>Contexts\<close>

definition sat_SHA1_Init :: "SHA1_CTX \<Rightarrow> SHA1_CTX" where
  "sat_SHA1_Init ctx = ctx\<lparr>
     sha_state := [0x67452301, 0xEFCDAB89, 0x98BADCFE, 0x10325476, 0xC3D2E1F0],
     sha_count := (0, 0)\<rparr>"

definition memcpy_at :: "u8 list \<Rightarrow> nat \<Rightarrow> u8 list \<Rightarrow> u8 list" where
  "memcpy_at buf j data = take j buf @ data @ drop (j + length data) buf"

text \<open>The loop over the whole blocks of the data; the result has the data that is left.\<close>

function sha1_blocks :: "u32 list \<Rightarrow> u8 list \<Rightarrow> u32 list \<times> u8 list" where
  "sha1_blocks st data = (if length data < 64 then (st, data) else sha1_blocks (SHA1_Transform st (take 64 data)) (drop 64 data))"
  by pat_completeness auto
termination by (relation "measure (\<lambda>(_, d). length d)") auto

declare sha1_blocks.simps [simp del]

definition sha1_add_count :: "u32 \<times> u32 \<Rightarrow> u64 \<Rightarrow> u32 \<times> u32" where
  "sha1_add_count c len = (
     let c0 = fst c + ucast (push_bit 3 len);
         c1 = (if ucast c0 < push_bit 3 len then snd c + 1 else snd c) in
     (c0, c1 + ucast (drop_bit 29 len)))"

definition sat_SHA1_Update :: "SHA1_CTX \<Rightarrow> u8 list \<Rightarrow> SHA1_CTX" where
  "sat_SHA1_Update ctx data = (
     let len = length data;
         j = unat (drop_bit 3 (fst (sha_count ctx)) AND 63);
         ctx = ctx\<lparr>sha_count := sha1_add_count (sha_count ctx) (of_nat len)\<rparr> in
     if j + len > 63 then
       (let i = 64 - j;
            buf = memcpy_at (sha_buffer ctx) j (take i data);
            st = SHA1_Transform (sha_state ctx) buf;
            (st, rest) = sha1_blocks st (drop i data) in
        ctx\<lparr>sha_state := st, sha_buffer := memcpy_at buf 0 rest\<rparr>)
     else ctx\<lparr>sha_buffer := memcpy_at (sha_buffer ctx) j data\<rparr>)"

lemma count_Update: "sha_count (sat_SHA1_Update ctx data) = sha1_add_count (sha_count ctx) (of_nat (length data))"
  by (simp add: sat_SHA1_Update_def case_prod_unfold Let_def)

lemma count_after_byte: "fst (sha1_add_count c 1) = fst c + 8"
  by (simp add: sha1_add_count_def Let_def)

lemma count_in_block: "unat ((c :: u32) AND 504) = 8 * (unat c div 8 mod 64)"
proof -
  have "c AND 504 = push_bit 3 (take_bit 6 (drop_bit 3 c))"
  proof -
    have m: "(504 :: u32) = push_bit 3 (mask 6)" by code_simp
    show ?thesis unfolding m by (rule bit_word_eqI) (auto simp: bit_simps)
  qed
  moreover have "unat (take_bit 6 (drop_bit 3 c)) = unat c div 8 mod 64"
    by (simp add: unsigned_take_bit_eq unsigned_drop_bit_eq drop_bit_eq_div take_bit_eq_mod unat_div unat_mod)
  ultimately show ?thesis by (simp add: push_bit_eq_mult unat_word_ariths)
qed

lemma count_next: "unat ((c :: u32) + 8) div 8 mod 64 = (unat c div 8 + 1) mod 64"
proof -
  have "unat (c + 8) = (unat c + 8) mod (8 * 2 ^ 29)" by (simp add: unat_word_ariths)
  also have "\<dots> = 8 * ((unat c + 8) div 8 mod 2 ^ 29) + (unat c + 8) mod 8" by (rule mod_mult2_eq)
  finally have "unat (c + 8) div 8 = (unat c + 8) div 8 mod 2 ^ 29" by simp
  moreover have "(unat c + 8) div 8 = unat c div 8 + 1" by (rule div_add_self2) simp
  ultimately have "unat (c + 8) div 8 = (unat c div 8 + 1) mod 2 ^ 29" by (simp only:)
  then show ?thesis by (simp add: mod_mod_cancel)
qed

lemma count_not_448: "(c :: u32) AND 504 \<noteq> 448 \<longleftrightarrow> unat c div 8 mod 64 \<noteq> 56"
  using count_in_block [of c] by (simp add: word_unat_eq_iff)

lemma zeros_left: "k < 64 \<Longrightarrow> (120 - k) mod 64 = (if k \<le> 56 then 56 - k else 120 - k :: nat)"
  using le_mod_geq [of 64 "120 - k"] by (cases "k \<le> 56") simp_all

text \<open>The loop that adds zero bytes until the last block has room for the count only.\<close>

function sha1_zeros :: "SHA1_CTX \<Rightarrow> SHA1_CTX" where
  "sha1_zeros ctx = (if fst (sha_count ctx) AND 504 \<noteq> 448 then sha1_zeros (sat_SHA1_Update ctx [0]) else ctx)"
  by pat_completeness auto
termination
proof (relation "measure (\<lambda>ctx. (120 - unat (fst (sha_count ctx)) div 8 mod 64) mod 64)", goal_cases)
  case (2 ctx)
  define n where "n = unat (fst (sha_count ctx)) div 8"
  have "n mod 64 \<noteq> 56" using 2 by (simp add: n_def count_not_448)
  moreover have "n mod 64 < 64" by simp
  moreover have "(n + 1) mod 64 = (if n mod 64 = 63 then 0 else n mod 64 + 1)" by (simp add: mod_Suc)
  ultimately have "(120 - (n + 1) mod 64) mod 64 < (120 - n mod 64) mod 64"
    by (auto simp: zeros_left)
  moreover have "unat (fst (sha_count (sat_SHA1_Update ctx [0]))) div 8 mod 64 = (n + 1) mod 64"
    unfolding n_def by (simp add: count_Update count_after_byte count_next)
  ultimately show ?case by (simp add: n_def)
qed simp

declare sha1_zeros.simps [simp del]

definition sat_SHA1_Final :: "SHA1_CTX \<Rightarrow> SHA1_CTX \<times> u8 list" where
  "sat_SHA1_Final ctx = (
     let finalcount = PUT_UINT32 (snd (sha_count ctx)) @ PUT_UINT32 (fst (sha_count ctx));
         ctx = sat_SHA1_Update ctx [0x80];
         ctx = sha1_zeros ctx;
         ctx = sat_SHA1_Update ctx finalcount;
         digest = concat (map PUT_UINT32 (sha_state ctx)) in
     (ctx\<lparr>sha_state := replicate 5 0, sha_count := (0, 0), sha_buffer := replicate 64 0\<rparr>, digest))"

definition lsha1 :: "SHA1_CTX \<Rightarrow> u8 list \<Rightarrow> u8 list" where
  "lsha1 ctx buf = (
     let ctx = sat_SHA1_Init ctx;
         ctx = sat_SHA1_Update ctx buf;
         (ctx, digest) = sat_SHA1_Final ctx in
     digest)"

subsection \<open>Keyed hash\<close>

definition xor_key :: "u8 list \<Rightarrow> u32 \<Rightarrow> u8 list" where
  "xor_key key x = concat (map (\<lambda>i. le32 (le_word key (4 * i) XOR x)) [0..<16])"

definition lhmac_sha1 :: "SHA1_CTX \<Rightarrow> SHA1_CTX \<Rightarrow> SHA1_CTX \<Rightarrow> u8 list \<Rightarrow> u8 list \<Rightarrow> u8 list" where
  "lhmac_sha1 ctx ctx1 ctx2 key tx = (
     let rkey = replicate 64 0;
         rkey = (if length key > 64 then
             (let ctx = sat_SHA1_Init ctx;
                  ctx = sat_SHA1_Update ctx key;
                  (ctx, digest) = sat_SHA1_Final ctx in
              memcpy_at rkey 0 digest)
           else memcpy_at rkey 0 key);
         rkey = xor_key rkey 0x5c5c5c5c;
         ctx1 = sat_SHA1_Update (sat_SHA1_Init ctx1) rkey;
         rkey = xor_key rkey (0x5c5c5c5c XOR 0x36363636);
         ctx2 = sat_SHA1_Update (sat_SHA1_Init ctx2) rkey;
         ctx2 = sat_SHA1_Update ctx2 tx;
         (ctx2, digest2) = sat_SHA1_Final ctx2;
         ctx1 = sat_SHA1_Update ctx1 digest2;
         (ctx1, digest1) = sat_SHA1_Final ctx1 in
     digest1)"

subsection \<open>SHA-1 after FIPS 180, HMAC after RFC 2104\<close>

fun fips_W :: "u8 list \<Rightarrow> nat \<Rightarrow> u32" where
  "fips_W M t = (if t < 16 then GET_UINT32 M (4 * t)
     else word_rotl 1 (fips_W M (t - 3) XOR fips_W M (t - 8) XOR fips_W M (t - 14) XOR fips_W M (t - 16)))"

declare fips_W.simps [simp del]

definition fips_Ch :: "u32 \<Rightarrow> u32 \<Rightarrow> u32 \<Rightarrow> u32" where "fips_Ch x y z = (x AND y) XOR (NOT x AND z)"
definition fips_Parity :: "u32 \<Rightarrow> u32 \<Rightarrow> u32 \<Rightarrow> u32" where "fips_Parity x y z = x XOR y XOR z"
definition fips_Maj :: "u32 \<Rightarrow> u32 \<Rightarrow> u32 \<Rightarrow> u32" where "fips_Maj x y z = (x AND y) XOR (x AND z) XOR (y AND z)"

definition fips_f :: "nat \<Rightarrow> u32 \<Rightarrow> u32 \<Rightarrow> u32 \<Rightarrow> u32" where
  "fips_f t = [fips_Ch, fips_Parity, fips_Maj, fips_Parity] ! (t div 20)"

definition fips_K :: "nat \<Rightarrow> u32" where
  "fips_K t = [0x5a827999, 0x6ed9eba1, 0x8f1bbcdc, 0xca62c1d6] ! (t div 20)"

definition fips_step :: "u8 list \<Rightarrow> nat \<Rightarrow> sha_vars \<Rightarrow> sha_vars" where
  "fips_step M t s = (case s of (a, b, c, d, e) \<Rightarrow>
     (word_rotl 5 a + fips_f t b c d + e + fips_K t + fips_W M t, a, word_rotl 30 b, c, d))"

definition fips_block :: "u32 list \<Rightarrow> u8 list \<Rightarrow> u32 list" where
  "fips_block H M = (
     let (a, b, c, d, e) = fold (fips_step M) [0..<80] (H ! 0, H ! 1, H ! 2, H ! 3, H ! 4) in
     [a + H ! 0, b + H ! 1, c + H ! 2, d + H ! 3, e + H ! 4])"

function fips_blocks :: "u32 list \<Rightarrow> u8 list \<Rightarrow> u32 list" where
  "fips_blocks H m = (if length m < 64 then H else fips_blocks (fips_block H (take 64 m)) (drop 64 m))"
  by pat_completeness auto
termination by (relation "measure (\<lambda>(_, m). length m)") auto

declare fips_blocks.simps [simp del]

definition fips_H0 :: "u32 list" where
  "fips_H0 = [0x67452301, 0xefcdab89, 0x98badcfe, 0x10325476, 0xc3d2e1f0]"

definition fips_padded :: "u8 list \<Rightarrow> u8 list" where
  "fips_padded m = m @ 0x80 # replicate ((119 - length m mod 64) mod 64) 0 @ rev (push64 (of_nat (8 * length m)))"

definition fips_sha1 :: "u8 list \<Rightarrow> u8 list" where
  "fips_sha1 m = concat (map PUT_UINT32 (fips_blocks fips_H0 (fips_padded m)))"

definition rfc_hmac :: "u8 list \<Rightarrow> u8 list \<Rightarrow> u8 list" where
  "rfc_hmac key tx = (
     let K = (if length key > 64 then fips_sha1 key else key);
         K = K @ replicate (64 - length K) 0 in
     fips_sha1 (map (\<lambda>b. b XOR 0x5c) K @ fips_sha1 (map (\<lambda>b. b XOR 0x36) K @ tx)))"

subsection \<open>The schedule in place\<close>

lemma rol_rotl: "0 < c \<Longrightarrow> c < 32 \<Longrightarrow> rol x c = word_rotl c x"
  using LEFTROTATE_rotl by (simp add: rol_def LEFTROTATE_def)

lemma bytes_swapped: "(rol (le_word M i) 24 AND 0xFF00FF00) OR (rol (le_word M i) 8 AND 0x00FF00FF) = GET_UINT32 M i"
proof -
  have m: "(0xFF00FF00 :: u32) = push_bit 8 (mask 8) OR push_bit 24 (mask 8)"
    "(0x00FF00FF :: u32) = mask 8 OR push_bit 16 (mask 8)" by code_simp+
  show ?thesis unfolding m
  proof (rule bit_word_eqI)
    fix n
    assume "n < LENGTH(32)"
    then show "bit ((rol (le_word M i) 24 AND (push_bit 8 (mask 8) OR push_bit 24 (mask 8))) OR
        (rol (le_word M i) 8 AND (mask 8 OR push_bit 16 (mask 8)))) n = bit (GET_UINT32 M i) n"
      unfolding rol_def le_word_def GET_UINT32_def
      by (cases "n < 8"; cases "n < 16"; cases "n < 24") (auto simp: bit_simps dest: bit_imp_le_length)
  qed
qed

text \<open>After \<open>t\<close> operations the block of 16 words holds the last 16 words of the schedule, and the words of the message that are
  not used yet.\<close>

definition schedule :: "u8 list \<Rightarrow> nat \<Rightarrow> u32 list \<Rightarrow> bool" where
  "schedule M t l \<longleftrightarrow> length l = 16 \<and> (\<forall>s < t. t \<le> s + 16 \<longrightarrow> l ! (s mod 16) = fips_W M s) \<and>
     (\<forall>j < 16. t \<le> j \<longrightarrow> l ! j = le_word M (4 * j))"

lemma schedule_update:
  assumes "schedule M t l"
  shows "schedule M (Suc t) (l[t mod 16 := fips_W M t])"
proof -
  have other: "s mod 16 \<noteq> t mod 16" if "s < t" "t < s + 16" for s
  proof
    assume "s mod 16 = t mod 16"
    then have "16 dvd t - s" using that(1) by (metis mod_eq_dvd_iff_nat order_less_imp_le)
    with that show False by (auto dest: dvd_imp_le)
  qed
  have "l[t mod 16 := fips_W M t] ! (s mod 16) = fips_W M s" if "s < Suc t" "Suc t \<le> s + 16" for s
    using assms that other [of s] by (cases "s = t") (auto simp: schedule_def nth_list_update)
  moreover have "l[t mod 16 := fips_W M t] ! j = le_word M (4 * j)" if "j < 16" "Suc t \<le> j" for j
    using assms that by (auto simp: schedule_def nth_list_update)
  ultimately show ?thesis using assms by (simp add: schedule_def)
qed

lemma blk0_W:
  assumes "schedule M t l" "t < 16"
  shows "blk0 l t = (l[t mod 16 := fips_W M t], fips_W M t)"
  using assms bytes_swapped [of M "4 * t"] by (simp add: blk0_def schedule_def fips_W.simps [of M t] Let_def)

lemma blk_W:
  assumes "schedule M t l" "16 \<le> t"
  shows "blk l t = (l[t mod 16 := fips_W M t], fips_W M t)"
proof -
  have l: "l ! (s mod 16) = fips_W M s" if "s < t" "t \<le> s + 16" for s using assms(1) that by (simp add: schedule_def)
  have ix: "(t + 13) mod 16 = (t - 3) mod 16" "(t + 8) mod 16 = (t - 8) mod 16" "(t + 2) mod 16 = (t - 14) mod 16"
    "t mod 16 = (t - 16) mod 16"
    using assms(2) mod_add_self2 [of "t - 3" 16] mod_add_self2 [of "t - 8" 16] mod_add_self2 [of "t - 14" 16] mod_add_self2 [of "t - 16" 16]
    by (simp_all add: add.commute)
  have "l ! ((t + 13) mod 16) = fips_W M (t - 3)" "l ! ((t + 8) mod 16) = fips_W M (t - 8)"
    "l ! ((t + 2) mod 16) = fips_W M (t - 14)" "l ! (t mod 16) = fips_W M (t - 16)"
    using assms(2) by (simp_all only: ix, simp_all add: l)
  with assms(2) show ?thesis by (simp add: blk_def rol_rotl fips_W.simps [of M t] Let_def)
qed

lemma choices: "(w AND (x XOR y)) XOR y = fips_Ch w x y" "w XOR x XOR y = fips_Parity w x y"
  "((w OR x) AND y) OR (w AND x) = fips_Maj w x y"
  unfolding fips_Ch_def fips_Parity_def fips_Maj_def by (rule bit_word_eqI, auto simp: bit_simps)+

lemma sha1_op_step:
  assumes "schedule M t l" "t < 80"
  shows "sha1_op t (s, l) = (fips_step M t s, l[t mod 16 := fips_W M t])"
proof -
  obtain a b c d e where s: "s = (a, b, c, d, e)" by (cases s)
  have "t div 20 = (if t < 20 then 0 else if t < 40 then 1 else if t < 60 then 2 else 3)"
    using assms(2) by (auto simp: div_nat_eqI)
  then show ?thesis
    using blk0_W [OF assms(1)] blk_W [OF assms(1)]
    by (auto simp: s sha1_op_def R0_def R1_def R2_def R3_def R4_def fips_step_def fips_f_def fips_K_def rol_rotl choices add.assoc add.commute add.left_commute)
qed

lemma fold_sha1_op:
  assumes "schedule M 0 l"
  shows "t \<le> 80 \<Longrightarrow> \<exists>l'. fold sha1_op [0..<t] (s, l) = (fold (fips_step M) [0..<t] s, l') \<and> schedule M t l'"
proof (induction t)
  case (Suc t)
  then obtain l' where "fold sha1_op [0..<t] (s, l) = (fold (fips_step M) [0..<t] s, l')" "schedule M t l'" by auto
  with Suc.prems sha1_op_step [of M t l'] schedule_update [of M t l'] show ?case by auto
qed (simp add: assms)

lemma Transform_fips: "SHA1_Transform H M = fips_block H M"
proof -
  let ?s = "(H ! 0, H ! 1, H ! 2, H ! 3, H ! 4)" and ?l = "map (\<lambda>i. le_word M (4 * i)) [0..<16]"
  have "schedule M 0 ?l" by (simp add: schedule_def del: upt_rec_numeral)
  from fold_sha1_op [OF this, of 80 ?s] obtain l' where "fold sha1_op [0..<80] (?s, ?l) = (fold (fips_step M) [0..<80] ?s, l')" by auto
  then show ?thesis
    unfolding SHA1_Transform_def fips_block_def Let_def by (simp add: case_prod_unfold add.commute del: upt_rec_numeral)
qed

end
