(* ===== verification/Sha1_Stream.thy ===== *)
theory Sha1_Stream
  imports Sha1
begin

text \<open>
  The SHA-1 context of \<^verbatim>\<open>lualib-src/lsha1.c\<close> as a stream: the context after any sequence of updates holds the message that was
  given so far. The interface \<open>hash_stream\<close> states this for any context with an initialisation, an update and a final operation;
  \<^verbatim>\<open>sha1\<close> and \<^verbatim>\<open>hmac_sha1\<close> rest on it.
\<close>

subsection \<open>The interface\<close>

locale hash_stream =
  fixes raw :: "'c \<Rightarrow> bool" and init :: "'c \<Rightarrow> 'c" and upd :: "'c \<Rightarrow> 'b list \<Rightarrow> 'c" and fin :: "'c \<Rightarrow> 'c \<times> 'b list"
    and ok :: "'b list \<Rightarrow> bool" and holds :: "'c \<Rightarrow> 'b list \<Rightarrow> bool" and hash :: "'b list \<Rightarrow> 'b list"
  assumes holds_init: "raw c \<Longrightarrow> holds (init c) []"
    and holds_upd: "holds c m \<Longrightarrow> ok d \<Longrightarrow> holds (upd c d) (m @ d)"
    and fin_hash: "holds c m \<Longrightarrow> snd (fin c) = hash m"
begin

lemma holds_upds: "holds c m \<Longrightarrow> list_all ok ds \<Longrightarrow> holds (foldl upd c ds) (m @ concat ds)"
proof (induction ds arbitrary: c m)
  case (Cons d ds)
  with holds_upd [of c m d] show ?case by (simp flip: append_assoc)
qed simp

lemma hash_of_parts: "raw c \<Longrightarrow> list_all ok ds \<Longrightarrow> snd (fin (foldl upd (init c) ds)) = hash (concat ds)"
  using fin_hash [OF holds_upds [OF holds_init]] by simp

lemma hash_of_one: "raw c \<Longrightarrow> ok d \<Longrightarrow> snd (fin (upd (init c) d)) = hash d"
  using hash_of_parts [of c "[d]"] by simp

lemma hash_of_two: "raw c \<Longrightarrow> ok d \<Longrightarrow> ok e \<Longrightarrow> snd (fin (upd (upd (init c) d) e)) = hash (d @ e)"
  using hash_of_parts [of c "[d, e]"] by simp

end

subsection \<open>Whole blocks and the rest\<close>

definition rest :: "'a list \<Rightarrow> 'a list" where
  "rest m = drop (length m - length m mod 64) m"

lemma length_rest [simp]: "length (rest m) = length m mod 64"
  by (simp add: rest_def)

lemma rest_short: "length m < 64 \<Longrightarrow> rest m = m"
  by (simp add: rest_def)

lemma rest_append: "length a mod 64 = 0 \<Longrightarrow> rest (a @ b) = rest b"
proof -
  assume a: "length a mod 64 = 0"
  then have "(length a + length b) mod 64 = length b mod 64" by (metis add_0 mod_add_left_eq)
  moreover have "length b mod 64 \<le> length b" by simp
  then have "length a + length b - length b mod 64 = length a + (length b - length b mod 64)" by simp
  ultimately show ?thesis by (simp add: rest_def)
qed

lemma blocks_and_rest: obtains w where "m = w @ rest m" "length w mod 64 = 0"
proof
  show "m = take (length m - length m mod 64) m @ rest m" by (simp add: rest_def)
  show "length (take (length m - length m mod 64) m) mod 64 = 0" by simp
qed

lemma fips_blocks_short: "length m < 64 \<Longrightarrow> fips_blocks H m = H"
  by (simp add: fips_blocks.simps [of H m])

lemma fips_blocks_append: "length a mod 64 = 0 \<Longrightarrow> fips_blocks H (a @ b) = fips_blocks (fips_blocks H a) b"
proof (induction H a rule: fips_blocks.induct)
  case (1 H a)
  show ?case
  proof (cases "length a < 64")
    case True
    with "1.prems" have "a = []" by simp
    then show ?thesis by (simp add: fips_blocks_short)
  next
    case False
    then have "length (drop 64 a) mod 64 = 0" using "1.prems" le_mod_geq [of 64 "length a"] by simp
    with "1.IH" [OF False] False show ?thesis
      by (simp add: fips_blocks.simps [of H a] fips_blocks.simps [of H "a @ b"])
  qed
qed

lemma fips_blocks_one: "length b = 64 \<Longrightarrow> fips_blocks H b = fips_block H b"
  by (simp add: fips_blocks.simps [of H b] fips_blocks_short)

lemma sha1_blocks_fips: "sha1_blocks st data = (fips_blocks st data, rest data)"
proof (induction st data rule: sha1_blocks.induct)
  case (1 st data)
  show ?case
  proof (cases "length data < 64")
    case True
    then show ?thesis by (simp add: sha1_blocks.simps [of st data] fips_blocks_short rest_short)
  next
    case False
    then have "rest (take 64 data @ drop 64 data) = rest (drop 64 data)" by (intro rest_append) simp
    with 1 [OF False] False show ?thesis
      by (simp add: sha1_blocks.simps [of st data] fips_blocks.simps [of st data] Transform_fips)
  qed
qed

subsection \<open>The counter\<close>

lemma carry: "b < q \<Longrightarrow> (a + b) div q = a div q + (if (a + b) mod q < b then 1 else 0)" for a b q :: nat
proof -
  assume b: "b < q"
  define u where "u = a mod q"
  have u: "a = q * (a div q) + u" "u < q" using b by (simp_all add: u_def)
  have "(a + b) mod q = (u + b) mod q" unfolding u_def by (simp add: mod_add_left_eq)
  moreover have "a + b = (u + b) + q * (a div q)" using u(1) by simp
  then have "(a + b) div q = a div q + (u + b) div q" using b div_mult_self2 [of q "u + b" "a div q"] by (simp only:)
  ultimately show ?thesis using b u(2)
    by (cases "u + b < q") (simp_all add: le_mod_geq le_div_geq)
qed

lemma sha1_add_count_nat:
  assumes "n < 2 ^ 29"
  shows "sha1_add_count (of_nat (8 * L), of_nat (8 * L div 2 ^ 32)) (of_nat n) = (of_nat (8 * (L + n)), of_nat (8 * (L + n) div 2 ^ 32))"
proof -
  have p: "push_bit 3 (of_nat n :: u64) = of_nat (8 * n)" by (simp add: push_bit_eq_mult)
  have un: "unat (of_nat (8 * n) :: u64) = 8 * n" using assms by (simp only: unsigned_of_nat) (simp add: take_bit_nat_eq_self)
  have d: "drop_bit 29 (of_nat n :: u64) = 0"
    using assms by (simp add: word_unat_eq_iff unsigned_drop_bit_eq drop_bit_eq_div unat_div unsigned_of_nat take_bit_nat_eq_self)
  have cast: "ucast (of_nat k :: u64) = (of_nat k :: u32)" for k by (rule bit_word_eqI) (simp add: bit_simps)
  have c0: "of_nat (8 * L) + ucast (of_nat (8 * n) :: u64) = (of_nat (8 * (L + n)) :: u32)"
    unfolding cast by (simp add: algebra_simps)
  have "unat (ucast (of_nat (8 * (L + n)) :: u32) :: u64) = 8 * (L + n) mod 2 ^ 32"
    by (simp only: unsigned_of_nat unsigned_ucast_eq) (simp add: take_bit_eq_mod)
  then have "(ucast (of_nat (8 * (L + n)) :: u32) < (of_nat (8 * n) :: u64)) \<longleftrightarrow> 8 * (L + n) mod 2 ^ 32 < 8 * n"
    by (simp only: word_less_nat_alt un)
  moreover have "8 * (L + n) div 2 ^ 32 = 8 * L div 2 ^ 32 + (if 8 * (L + n) mod 2 ^ 32 < 8 * n then 1 else 0)"
    using carry [of "8 * n" "2 ^ 32" "8 * L"] assms by (simp only: distrib_left) simp
  ultimately show ?thesis unfolding sha1_add_count_def Let_def fst_conv snd_conv p c0 d by simp
qed

lemma and_63: "(x :: u32) AND 63 = take_bit 6 x"
  by (simp add: take_bit_eq_mask mask_eq_exp_minus_1)

lemma count_offset: "unat (drop_bit 3 (of_nat (8 * L) :: u32) AND 63) = L mod 64"
proof -
  have "unat (of_nat (8 * L) :: u32) = 8 * L mod (8 * 2 ^ 29)" by (simp only: unsigned_of_nat) (simp add: take_bit_eq_mod)
  also have "\<dots> = 8 * (L mod 2 ^ 29)" by (simp add: mult_mod_right)
  finally have "unat (drop_bit 3 (of_nat (8 * L) :: u32)) = L mod 2 ^ 29"
    by (simp add: unsigned_drop_bit_eq drop_bit_eq_div unat_div del: of_nat_mult)
  then show ?thesis unfolding and_63 unsigned_take_bit_eq by (simp add: take_bit_eq_mod mod_mod_cancel)
qed

subsection \<open>The message a context holds\<close>

definition sha1_holds :: "SHA1_CTX \<Rightarrow> u8 list \<Rightarrow> bool" where
  "sha1_holds ctx m \<longleftrightarrow>
     sha_state ctx = fips_blocks fips_H0 m \<and>
     sha_count ctx = (of_nat (8 * length m), of_nat (8 * length m div 2 ^ 32)) \<and>
     length (sha_buffer ctx) = 64 \<and> take (length m mod 64) (sha_buffer ctx) = rest m"

definition sha1_ok :: "u8 list \<Rightarrow> bool" where
  "sha1_ok data \<longleftrightarrow> length data < 2 ^ 29"

lemma holds_Init: "length (sha_buffer ctx) = 64 \<Longrightarrow> sha1_holds (sat_SHA1_Init ctx) []"
  by (simp add: sha1_holds_def sat_SHA1_Init_def fips_blocks_short fips_H0_def rest_def)

lemma holds_Update:
  assumes "sha1_holds ctx m" "sha1_ok data"
  shows "sha1_holds (sat_SHA1_Update ctx data) (m @ data)"
proof -
  define j where "j = length m mod 64"
  define r where "r = rest m"
  define st where "st = fips_blocks fips_H0 m"
  have ctx: "sha_state ctx = st" "sha_count ctx = (of_nat (8 * length m), of_nat (8 * length m div 2 ^ 32))"
    "length (sha_buffer ctx) = 64" "take j (sha_buffer ctx) = r"
    using assms(1) by (simp_all add: sha1_holds_def j_def r_def st_def)
  have j: "unat (drop_bit 3 (fst (sha_count ctx)) AND 63) = j" "length r = j" "j < 64"
    by (simp_all add: ctx(2) count_offset j_def r_def del: of_nat_mult)
  have count: "sha1_add_count (sha_count ctx) (of_nat (length data)) =
      (of_nat (8 * length (m @ data)), of_nat (8 * length (m @ data) div 2 ^ 32))"
    unfolding ctx(2) length_append using assms(2) unfolding sha1_ok_def by (rule sha1_add_count_nat)
  obtain w where w: "m = w @ r" "length w mod 64 = 0" unfolding r_def by (rule blocks_and_rest)
  then have "st = fips_blocks fips_H0 w" using j by (simp add: st_def fips_blocks_append fips_blocks_short)
  then have new: "fips_blocks fips_H0 (m @ data) = fips_blocks st (r @ data)" "rest (m @ data) = rest (r @ data)"
    using w by (simp_all add: fips_blocks_append rest_append)
  show ?thesis
  proof (cases "j + length data > 63")
    case True
    define b where "b = r @ take (64 - j) data"
    define d where "d = drop (64 - j) data"
    have b: "length b = 64" "memcpy_at (sha_buffer ctx) j (take (64 - j) data) = b"
      using True j ctx by (simp_all add: b_def memcpy_at_def)
    have bd: "r @ data = b @ d" by (simp add: b_def d_def)
    have upd: "sat_SHA1_Update ctx data = ctx\<lparr>sha_count := sha1_add_count (sha_count ctx) (of_nat (length data)),
        sha_state := fips_blocks (fips_block st b) d, sha_buffer := memcpy_at b 0 (rest d)\<rparr>"
      using True b(2) ctx(1) by (simp add: sat_SHA1_Update_def j(1) sha1_blocks_fips Transform_fips d_def Let_def)
    have "fips_blocks st (b @ d) = fips_blocks (fips_block st b) d" "rest (b @ d) = rest d"
      using b(1) by (simp_all add: fips_blocks_append fips_blocks_one rest_append)
    moreover have "length (m @ data) mod 64 = length (rest d)"
      using new(2) bd \<open>rest (b @ d) = rest d\<close> by (metis length_rest)
    ultimately show ?thesis
      using b(1) bd count new by (simp add: sha1_holds_def upd memcpy_at_def)
  next
    case False
    then have l: "length (r @ data) < 64" using j by simp
    have upd: "sat_SHA1_Update ctx data = ctx\<lparr>sha_count := sha1_add_count (sha_count ctx) (of_nat (length data)),
        sha_buffer := r @ data @ drop (j + length data) (sha_buffer ctx)\<rparr>"
      using False ctx(4) by (simp add: sat_SHA1_Update_def j(1) memcpy_at_def Let_def)
    have "length (m @ data) mod 64 = length (r @ data)" using new(2) rest_short [OF l] by (metis length_rest)
    then show ?thesis
      using l j ctx(1,3) count new by (simp add: sha1_holds_def upd fips_blocks_short rest_short)
  qed
qed

lemma zeros_step:
  assumes "k < 64" "k \<noteq> 56"
  shows "(120 - k) mod 64 = Suc ((120 - (if Suc k = 64 then 0 else Suc k)) mod 64)"
proof -
  consider "k < 56" | "56 < k" "k < 63" | "k = 63" using assms by linarith
  then show ?thesis using zeros_left [of k] zeros_left [of "Suc k"] by cases simp_all
qed

lemma holds_zeros: "sha1_holds ctx m \<Longrightarrow> sha1_holds (sha1_zeros ctx) (m @ replicate ((120 - length m mod 64) mod 64) 0)"
proof (induction ctx arbitrary: m rule: sha1_zeros.induct)
  case (1 ctx)
  have c: "fst (sha_count ctx) AND 504 \<noteq> 448 \<longleftrightarrow> length m mod 64 \<noteq> 56"
  proof -
    have "unat (of_nat (8 * length m) :: u32) div 8 mod 64 = length m mod 64"
      using count_offset [of "length m"] count_in_block [of "of_nat (8 * length m)"]
      by (simp add: and_63 unsigned_take_bit_eq unsigned_drop_bit_eq drop_bit_eq_div take_bit_eq_mod unat_div unat_mod del: of_nat_mult)
    with 1(2) show ?thesis by (simp add: sha1_holds_def count_not_448 del: of_nat_mult)
  qed
  have lt: "length m mod 64 < 64" by simp
  show ?case
  proof (cases "length m mod 64 = 56")
    case True
    with c 1(2) show ?thesis by (simp add: sha1_zeros.simps [of ctx])
  next
    case False
    then have z: "sha1_zeros ctx = sha1_zeros (sat_SHA1_Update ctx [0])" using c by (simp add: sha1_zeros.simps [of ctx])
    have "sha1_holds (sat_SHA1_Update ctx [0]) (m @ [0])" using 1(2) by (rule holds_Update) (simp add: sha1_ok_def)
    from 1(1) [OF _ this] c False
    have h: "sha1_holds (sha1_zeros ctx) (m @ [0] @ replicate ((120 - Suc (length m) mod 64) mod 64) 0)" by (simp add: z)
    have "(120 - length m mod 64) mod 64 = Suc ((120 - Suc (length m) mod 64) mod 64)"
      unfolding mod_Suc using False lt by (intro zeros_step)
    with h show ?thesis by simp
  qed
qed

lemma finalcount_bytes: "PUT_UINT32 (of_nat (n div 2 ^ 32)) @ PUT_UINT32 (of_nat n) = rev (push64 (of_nat n))"
proof -
  have "ucast (of_nat n :: u64) = (of_nat n :: u32)" by (rule bit_word_eqI) (simp add: bit_simps)
  moreover have "ucast (drop_bit 32 (of_nat n :: u64)) = (of_nat (n div 2 ^ 32) :: u32)"
  proof -
    have "bit (n div 4294967296) k = bit n (32 + k)" for k using bit_drop_bit_eq [of 32 n] by (simp add: drop_bit_eq_div fun_eq_iff)
    then show ?thesis by (intro bit_word_eqI) (simp add: bit_simps)
  qed
  moreover have "PUT_UINT32 x = rev (le32 x)" for x by (simp add: PUT_UINT32_def le32_def)
  ultimately show ?thesis by (simp only: push64_le rev_append)
qed

lemma Final_fips:
  assumes "sha1_holds ctx m"
  shows "snd (sat_SHA1_Final ctx) = fips_sha1 m"
proof -
  let ?k = "(119 - length m mod 64) mod 64"
  define fc where "fc = PUT_UINT32 (snd (sha_count ctx)) @ PUT_UINT32 (fst (sha_count ctx))"
  have fc: "fc = rev (push64 (of_nat (8 * length m)))"
    using assms finalcount_bytes [of "8 * length m"] by (simp only: fc_def sha1_holds_def fst_conv snd_conv)
  have "sha1_holds (sat_SHA1_Update ctx [0x80]) (m @ [0x80])" using assms by (rule holds_Update) (simp add: sha1_ok_def)
  from holds_zeros [OF this]
  have "sha1_holds (sha1_zeros (sat_SHA1_Update ctx [0x80])) ((m @ [0x80]) @ replicate ((120 - Suc (length m) mod 64) mod 64) 0)" by simp
  moreover have "(120 - Suc (length m) mod 64) mod 64 = ?k" by (cases "length m mod 64 = 63") (simp_all add: mod_Suc)
  ultimately have "sha1_holds (sat_SHA1_Update (sha1_zeros (sat_SHA1_Update ctx [0x80])) fc) (((m @ [0x80]) @ replicate ?k 0) @ fc)"
    by (intro holds_Update) (simp_all add: sha1_ok_def fc)
  then have "sha_state (sat_SHA1_Update (sha1_zeros (sat_SHA1_Update ctx [0x80])) fc) = fips_blocks fips_H0 (fips_padded m)"
    by (simp add: sha1_holds_def fips_padded_def fc)
  then show ?thesis by (simp add: sat_SHA1_Final_def fips_sha1_def fc_def [symmetric] Let_def)
qed

interpretation sha: hash_stream "\<lambda>ctx. length (sha_buffer ctx) = 64" sat_SHA1_Init sat_SHA1_Update sat_SHA1_Final sha1_ok sha1_holds fips_sha1
  by unfold_locales (simp_all add: holds_Init holds_Update Final_fips)

subsection \<open>The key of the keyed hash\<close>

lemma length_xor_key [simp]: "length (xor_key key x) = 64"
  by (simp add: xor_key_def length_concat comp_def sum_list_triv)

lemma list_of_words:
  assumes "length key = 64"
  shows "concat (map (\<lambda>i. take 4 (drop (4 * i) key)) [0..<16]) = key"
proof -
  have "concat (map (\<lambda>i. take 4 (drop (4 * i) key)) [0..<n]) = take (4 * n) key" for n
  proof (induction n)
    case (Suc n)
    have "4 * Suc n = 4 * n + 4" by simp
    with Suc show ?case by (simp only: take_add upt_Suc_append le0 map_append concat_append) simp
  qed simp
  with assms show ?thesis by (simp del: upt_rec_numeral)
qed

lemma xor_key_bytes:
  assumes "length key = 64" "le32 x = replicate 4 b"
  shows "xor_key key x = map (\<lambda>c. c XOR b) key"
proof -
  have "le32 (le_word key (4 * i) XOR x) = map (\<lambda>c. c XOR b) (take 4 (drop (4 * i) key))" if "i < 16" for i
  proof -
    have "map2 (XOR) ys (replicate (length ys) b) = map (\<lambda>c. c XOR b) ys" for ys :: "u8 list" by (induction ys) simp_all
    from this [of "take 4 (drop (4 * i) key)"]
    have "map2 (XOR) (take 4 (drop (4 * i) key)) (replicate 4 b) = map (\<lambda>c. c XOR b) (take 4 (drop (4 * i) key))"
      using assms(1) that by simp
    moreover have "le32 (le_word key (4 * i)) = take 4 (drop (4 * i) key)" using assms(1) that by (intro le32_word) simp
    ultimately show ?thesis unfolding le32_xor assms(2) by (simp only:)
  qed
  then have "xor_key key x = concat (map (\<lambda>i. map (\<lambda>c. c XOR b) (take 4 (drop (4 * i) key))) [0..<16])"
    unfolding xor_key_def by (intro arg_cong [of _ _ concat] map_cong refl) (simp del: upt_rec_numeral)
  also have "\<dots> = map (\<lambda>c. c XOR b) (concat (map (\<lambda>i. take 4 (drop (4 * i) key)) [0..<16]))"
    by (simp only: map_concat map_map comp_def)
  finally show ?thesis by (simp only: list_of_words [OF assms(1)])
qed

lemma xor_key_pads:
  assumes "length key = 64"
  shows "xor_key key 0x5c5c5c5c = map (\<lambda>c. c XOR 0x5c) key"
    "xor_key (xor_key key 0x5c5c5c5c) (0x5c5c5c5c XOR 0x36363636) = map (\<lambda>c. c XOR 0x36) key"
proof -
  have o: "le32 0x5c5c5c5c = replicate 4 0x5c" "le32 (0x5c5c5c5c XOR 0x36363636) = replicate 4 0x6a" by code_simp+
  show k: "xor_key key 0x5c5c5c5c = map (\<lambda>c. c XOR 0x5c) key" by (rule xor_key_bytes [OF assms o(1)])
  have "(c XOR 0x5c) XOR 0x6a = c XOR 0x36" for c :: u8
  proof -
    have "0x5c XOR 0x6a = (0x36 :: u8)" by code_simp
    then show ?thesis by (simp only: xor.assoc)
  qed
  then show "xor_key (xor_key key 0x5c5c5c5c) (0x5c5c5c5c XOR 0x36363636) = map (\<lambda>c. c XOR 0x36) key"
    unfolding k using assms by (simp only: xor_key_bytes [OF _ o(2)] length_map map_map comp_def)
qed

lemma length_fips_sha1 [simp]: "length (fips_sha1 m) = 20"
proof -
  have "length H = 5 \<Longrightarrow> length (fips_blocks H m) = 5" for H m
    by (induction H m rule: fips_blocks.induct) (subst fips_blocks.simps, simp add: fips_block_def case_prod_unfold Let_def)
  then have l: "length (fips_blocks fips_H0 (fips_padded m)) = 5" by (simp add: fips_H0_def)
  have "length (concat (map PUT_UINT32 ws)) = 4 * length ws" for ws by (induction ws) (simp_all add: PUT_UINT32_def)
  with l show ?thesis by (simp add: fips_sha1_def)
qed

subsection \<open>Properties\<close>

text \<open>Property C38: \<^verbatim>\<open>sha1\<close> is SHA-1 as FIPS 180 defines it, for every text below 512 MB and whatever the memory of the context
  was: the transformation with its schedule of 16 words in place is the one with 80 words, the buffer and the counter of the
  context keep the rest and the length of the text, and the padding byte by byte is the padding of the standard.\<close>

theorem sha1_is_fips:
  assumes "length (sha_buffer ctx) = 64" "length m < 2 ^ 29"
  shows "lsha1 ctx m = fips_sha1 m"
  using sha.hash_of_one [of ctx m] assms by (simp add: lsha1_def sha1_ok_def case_prod_unfold Let_def)

definition sha1_any_ctx :: SHA1_CTX where
  "sha1_any_ctx = \<lparr>sha_state = [1, 2, 3, 4, 5], sha_count = (6, 7), sha_buffer = replicate 64 8\<rparr>"

theorem sha1_is_fips_witness: "lsha1 sha1_any_ctx [97, 98, 99] = fips_sha1 [97, 98, 99]"
  by (rule sha1_is_fips) (simp_all add: sha1_any_ctx_def)

text \<open>Property: \<^verbatim>\<open>hmac_sha1\<close> is the HMAC of RFC 2104 with SHA-1, for every key and text below 512 MB: keys longer than a block are
  hashed first, shorter ones filled with zeros, and the exclusive or on 32-bit words, done once and then corrected to the other
  pad, is the exclusive or of the RFC on bytes.\<close>

theorem hmac_sha1_is_rfc:
  assumes "length (sha_buffer ctx) = 64" "length (sha_buffer ctx1) = 64" "length (sha_buffer ctx2) = 64"
    "length key < 2 ^ 29" "length tx < 2 ^ 29"
  shows "lhmac_sha1 ctx ctx1 ctx2 key tx = rfc_hmac key tx"
proof -
  define K where "K = (if length key > 64 then fips_sha1 key else key)"
  define K' where "K' = K @ replicate (64 - length K) 0"
  have l: "length K \<le> 64" by (simp add: K_def)
  then have lK: "length K' = 64" by (simp add: K'_def)
  have "memcpy_at (replicate 64 0) 0 K = K'" using l by (simp add: memcpy_at_def K'_def)
  then have rkey: "(if length key > 64 then memcpy_at (replicate 64 0) 0 (snd (sat_SHA1_Final (sat_SHA1_Update (sat_SHA1_Init ctx) key)))
      else memcpy_at (replicate 64 0) 0 key) = K'"
    using sha.hash_of_one [of ctx key] assms(1,4) by (auto simp: K_def sha1_ok_def)
  define k1 where "k1 = xor_key K' 0x5c5c5c5c"
  define k2 where "k2 = xor_key k1 (0x5c5c5c5c XOR 0x36363636)"
  have ok: "sha1_ok k1" "sha1_ok k2" "sha1_ok tx" "sha1_ok (fips_sha1 t)" for t
    using assms(5) by (simp_all add: sha1_ok_def k1_def k2_def)
  have "lhmac_sha1 ctx ctx1 ctx2 key tx = snd (sat_SHA1_Final (sat_SHA1_Update (sat_SHA1_Update (sat_SHA1_Init ctx1) k1)
      (snd (sat_SHA1_Final (sat_SHA1_Update (sat_SHA1_Update (sat_SHA1_Init ctx2) k2) tx)))))"
    unfolding lhmac_sha1_def Let_def case_prod_unfold rkey k1_def k2_def ..
  also have "\<dots> = fips_sha1 (k1 @ fips_sha1 (k2 @ tx))" using assms(2,3) ok by (simp only: sha.hash_of_two)
  also have "k2 = map (\<lambda>c. c XOR 0x36) K'" unfolding k2_def k1_def by (rule xor_key_pads(2) [OF lK])
  also have "k1 = map (\<lambda>c. c XOR 0x5c) K'" unfolding k1_def by (rule xor_key_pads(1) [OF lK])
  also have "fips_sha1 (map (\<lambda>c. c XOR 0x5c) K' @ fips_sha1 (map (\<lambda>c. c XOR 0x36) K' @ tx)) = rfc_hmac key tx"
    unfolding rfc_hmac_def Let_def K_def [symmetric] K'_def [symmetric] ..
  finally show ?thesis .
qed

theorem hmac_sha1_is_rfc_witness:
  "lhmac_sha1 sha1_any_ctx sha1_any_ctx sha1_any_ctx [107, 101, 121] [104, 105] = rfc_hmac [107, 101, 121] [104, 105]"
  by (rule hmac_sha1_is_rfc) (simp_all add: sha1_any_ctx_def)

text \<open>From 512 MB on the counter is wrong: the size in bits does not fit the 32 bits of the low counter, so the comparison that
  finds the carry is always true, and the high counter is one too large.\<close>

theorem sha1_count_wrong: "sha1_add_count (0, 0) (2 ^ 29) = (0, 2) \<and> 8 * 2 ^ 29 div 2 ^ 32 = (1 :: nat)"
proof
  show "sha1_add_count (0, 0) (2 ^ 29) = (0, 2)" by code_simp
qed simp

end
