(* ===== verification/Cluster.thy ===== *)
theory Cluster
  imports Net_Pack Crypt_Text
begin

text \<open>
  \<^verbatim>\<open>lualib-src/lua-cluster.c\<close>: the packages between the nodes of a cluster. A request or a response that is too long for one
  package is sent as a header and parts. The functions that put the parts together are called by \<^verbatim>\<open>service/clusteragent.lua\<close> (requests)
  and \<^verbatim>\<open>lualib/skynet/socketchannel.lua\<close> (responses); the two loops of these scripts that do so are modelled as well.

  A message is the list of its bytes, its length is the argument \<^verbatim>\<open>sz\<close>. \<open>None\<close> is a failed assertion, a write outside the buffer on the
  stack, or an allocation with a negative size; errors that are raised in Lua are values of the type \<open>cluster_error\<close>. The freeing of the
  messages, the tracing of requests and \<^verbatim>\<open>lnodename\<close>, which asks the system, are not modelled.
\<close>

definition TEMP_LENGTH :: nat where "TEMP_LENGTH = 0x8200"
definition MULTI_PART :: nat where "MULTI_PART = 0x8000"

text \<open>The first argument of a request: a number, a string, or another value.\<close>

datatype cluster_addr = Addr_Number u32 | Addr_Name "u8 list" | Addr_Other

datatype cluster_error =
    Invalid_Request_Message
  | Invalid_Request_Session int
  | Name_Not_String
  | Name_Too_Long
  | Tag_Too_Long nat
  | Invalid_Cluster_Message nat
  | Invalid_Multi_Part
  | Invalid_Package_Type u8
  | Need_Lightuserdata

definition fill_uint32 :: "u32 \<Rightarrow> u8 list" where
  "fill_uint32 n = [ucast n, ucast (drop_bit 8 n), ucast (drop_bit 16 n), ucast (drop_bit 24 n)]"

definition fill_header :: "nat \<Rightarrow> u8 list option" where
  "fill_header sz = (if sz < 0x10000 then Some [of_nat (drop_bit 8 sz AND 0xff), of_nat (sz AND 0xff)] else None)"

text \<open>Everything that is written into the array \<^verbatim>\<open>buf\<close>.\<close>

definition temp_buf :: "u8 list \<Rightarrow> u8 list option" where
  "temp_buf bs = (if length bs \<le> TEMP_LENGTH then Some bs else None)"

subsection \<open>Requests\<close>

definition packreq_number :: "u32 \<Rightarrow> u32 \<Rightarrow> u8 list \<Rightarrow> bool \<Rightarrow> (u8 list \<times> nat) option" where
  "packreq_number addr session msg is_push = (
     let sz = length msg in
     if sz < MULTI_PART then do {
       h \<leftarrow> fill_header (sz + 9);
       b \<leftarrow> temp_buf (h @ [0] @ fill_uint32 addr @ fill_uint32 (if is_push then 0 else session) @ msg);
       Some (b, 0) }
     else do {
       h \<leftarrow> fill_header 13;
       b \<leftarrow> temp_buf (h @ [if is_push then 0x41 else 1] @ fill_uint32 addr @ fill_uint32 session @ fill_uint32 (of_nat sz));
       Some (b, (sz - 1) div MULTI_PART + 1) })"

definition packreq_string :: "u8 list \<Rightarrow> u32 \<Rightarrow> u8 list \<Rightarrow> bool \<Rightarrow> (cluster_error + u8 list \<times> nat) option" where
  "packreq_string name session msg is_push = (
     let namelen = length name; sz = length msg in
     if namelen < 1 \<or> namelen > 255 then Some (Inl Name_Too_Long)
     else if sz < MULTI_PART then do {
       h \<leftarrow> fill_header (sz + 6 + namelen);
       b \<leftarrow> temp_buf (h @ [0x80, of_nat namelen] @ name @ fill_uint32 (if is_push then 0 else session) @ msg);
       Some (Inr (b, 0)) }
     else do {
       h \<leftarrow> fill_header (10 + namelen);
       b \<leftarrow> temp_buf (h @ [if is_push then 0xc1 else 0x81, of_nat namelen] @ name @ fill_uint32 session @ fill_uint32 (of_nat sz));
       Some (Inr (b, (sz - 1) div MULTI_PART + 1)) })"

fun packreq_multi :: "nat \<Rightarrow> u32 \<Rightarrow> u8 list \<Rightarrow> u8 list list option" where
  "packreq_multi 0 session msg = Some []"
| "packreq_multi (Suc part) session msg = (
     let (s, b) = (if length msg > MULTI_PART then (MULTI_PART, 2) else (length msg, 3)) in do {
     h \<leftarrow> fill_header (s + 5);
     p \<leftarrow> temp_buf (h @ [b] @ fill_uint32 session @ take s msg);
     ps \<leftarrow> packreq_multi part session (drop s msg);
     Some (p # ps) })"

text \<open>The results are the package, the next session and the parts.\<close>

definition packrequest :: "cluster_addr \<Rightarrow> u32 \<Rightarrow> u8 list option \<Rightarrow> bool \<Rightarrow> (cluster_error + u8 list \<times> u32 \<times> u8 list list) option" where
  "packrequest addr session msg is_push = (case msg of
     None \<Rightarrow> Some (Inl Invalid_Request_Message)
   | Some msg \<Rightarrow>
       if sint session \<le> 0 then Some (Inl (Invalid_Request_Session (sint session)))
       else do {
         r \<leftarrow> (case addr of
             Addr_Number a \<Rightarrow> map_option Inr (packreq_number a session msg is_push)
           | Addr_Name name \<Rightarrow> packreq_string name session msg is_push
           | Addr_Other \<Rightarrow> Some (Inl Name_Not_String));
         (case r of
            Inl e \<Rightarrow> Some (Inl e)
          | Inr (b, multipak) \<Rightarrow> (
              let new_session = session + 1;
                  new_session = (if new_session > 0x7fffffff then 1 else new_session) in
              if multipak \<noteq> 0 then do {
                ps \<leftarrow> packreq_multi ((length msg - 1) div MULTI_PART + 1) session msg;
                Some (Inr (b, new_session, ps)) }
              else Some (Inr (b, new_session, [])))) })"

definition lpackrequest :: "cluster_addr \<Rightarrow> u32 \<Rightarrow> u8 list option \<Rightarrow> (cluster_error + u8 list \<times> u32 \<times> u8 list list) option" where
  "lpackrequest addr session msg = packrequest addr session msg False"

definition lpackpush :: "cluster_addr \<Rightarrow> u32 \<Rightarrow> u8 list option \<Rightarrow> (cluster_error + u8 list \<times> u32 \<times> u8 list list) option" where
  "lpackpush addr session msg = packrequest addr session msg True"

definition lpacktrace :: "u8 list \<Rightarrow> (cluster_error + u8 list) option" where
  "lpacktrace tag = (
     if length tag > 0x8000 then Some (Inl (Tag_Too_Long (length tag)))
     else do {
       h \<leftarrow> fill_header (length tag + 1);
       b \<leftarrow> temp_buf (h @ [4] @ tag);
       Some (Inr b) })"

subsection \<open>Unpacking requests\<close>

text \<open>The values that \<^verbatim>\<open>unpackrequest\<close> returns to Lua: address, session, message and whether it is a push; the header of a request in
  parts with the size of the message; a part and whether more follow; a trace tag.\<close>

datatype unpacked =
    Request cluster_addr u32 "u8 list" bool
  | Multi_Request cluster_addr u32 u32 bool
  | Part u32 "u8 list" bool
  | Trace "u8 list"

definition unpack_uint32 :: "u8 list \<Rightarrow> nat \<Rightarrow> u32" where
  "unpack_uint32 buf i = ucast (buf ! i) OR push_bit 8 (ucast (buf ! (i + 1))) OR push_bit 16 (ucast (buf ! (i + 2)))
     OR push_bit 24 (ucast (buf ! (i + 3)))"

definition unpackreq_number :: "u8 list \<Rightarrow> cluster_error + unpacked" where
  "unpackreq_number buf = (
     if length buf < 9 then Inl (Invalid_Cluster_Message (length buf))
     else (let session = unpack_uint32 buf 5 in Inr (Request (Addr_Number (unpack_uint32 buf 1)) session (drop 9 buf) (session = 0))))"

definition unpackmreq_number :: "u8 list \<Rightarrow> bool \<Rightarrow> cluster_error + unpacked" where
  "unpackmreq_number buf is_push = (
     if length buf \<noteq> 13 then Inl (Invalid_Cluster_Message (length buf))
     else Inr (Multi_Request (Addr_Number (unpack_uint32 buf 1)) (unpack_uint32 buf 5) (unpack_uint32 buf 9) is_push))"

definition unpackmreq_part :: "u8 list \<Rightarrow> cluster_error + unpacked" where
  "unpackmreq_part buf = (
     if length buf < 5 then Inl Invalid_Multi_Part
     else Inr (Part (unpack_uint32 buf 1) (drop 5 buf) (buf ! 0 = 2)))"

definition unpackreq_string :: "u8 list \<Rightarrow> cluster_error + unpacked" where
  "unpackreq_string buf = (
     if length buf < 2 then Inl (Invalid_Cluster_Message (length buf))
     else (let namesz = unat (buf ! 1) in
       if length buf < namesz + 6 then Inl (Invalid_Cluster_Message (length buf))
       else (let session = unpack_uint32 buf (namesz + 2) in
         Inr (Request (Addr_Name (take namesz (drop 2 buf))) session (drop (namesz + 6) buf) (session = 0)))))"

definition unpackmreq_string :: "u8 list \<Rightarrow> bool \<Rightarrow> cluster_error + unpacked" where
  "unpackmreq_string buf is_push = (
     if length buf < 2 then Inl (Invalid_Cluster_Message (length buf))
     else (let namesz = unat (buf ! 1) in
       if length buf < namesz + 10 then Inl (Invalid_Cluster_Message (length buf))
       else Inr (Multi_Request (Addr_Name (take namesz (drop 2 buf))) (unpack_uint32 buf (namesz + 2)) (unpack_uint32 buf (namesz + 6)) is_push)))"

text \<open>The first byte of an empty Lua string is its terminating zero.\<close>

definition lunpackrequest :: "u8 list \<Rightarrow> cluster_error + unpacked" where
  "lunpackrequest msg = (
     let t = (case msg of [] \<Rightarrow> 0 | b # _ \<Rightarrow> b) in
     if t = 0 then unpackreq_number msg
     else if t = 1 then unpackmreq_number msg False
     else if t = 0x41 then unpackmreq_number msg True
     else if t = 2 \<or> t = 3 then unpackmreq_part msg
     else if t = 4 then Inr (Trace (drop 1 msg))
     else if t = 0x80 then unpackreq_string msg
     else if t = 0x81 then unpackmreq_string msg False
     else if t = 0xc1 then unpackmreq_string msg True
     else Inl (Invalid_Package_Type t))"

subsection \<open>Responses\<close>

fun packresponse_multi :: "nat \<Rightarrow> u32 \<Rightarrow> u8 list \<Rightarrow> u8 list list option" where
  "packresponse_multi 0 session msg = Some []"
| "packresponse_multi (Suc part) session msg = (
     let (s, b) = (if length msg > MULTI_PART then (MULTI_PART, 3) else (length msg, 4)) in do {
     h \<leftarrow> fill_header (s + 5);
     p \<leftarrow> temp_buf (h @ fill_uint32 session @ [b] @ take s msg);
     ps \<leftarrow> packresponse_multi part session (drop s msg);
     Some (p # ps) })"

text \<open>One package, or a table of packages.\<close>

definition lpackresponse :: "u32 \<Rightarrow> bool \<Rightarrow> u8 list \<Rightarrow> (u8 list + u8 list list) option" where
  "lpackresponse session ok msg = (
     let sz = length msg in
     if ok \<and> sz > MULTI_PART then do {
       h \<leftarrow> fill_header 9;
       b \<leftarrow> temp_buf (h @ fill_uint32 session @ [2] @ fill_uint32 (of_nat sz));
       ps \<leftarrow> packresponse_multi ((sz - 1) div MULTI_PART + 1) session msg;
       Some (Inr (b # ps)) }
     else (
       let sz = (if \<not> ok \<and> sz > MULTI_PART then MULTI_PART else sz) in do {
       h \<leftarrow> fill_header (sz + 5);
       b \<leftarrow> temp_buf (h @ fill_uint32 session @ [if ok then 1 else 0] @ take sz msg);
       Some (Inl b) }))"

text \<open>The values that \<^verbatim>\<open>unpackresponse\<close> returns: the session, whether it is a result, the text or the size, and whether more follows.\<close>

datatype lua_item = Num int | Str "u8 list"

type_synonym response = "u32 \<times> bool \<times> lua_item \<times> bool"

definition lunpackresponse :: "u8 list \<Rightarrow> response option" where
  "lunpackresponse buf = (
     if length buf < 5 then None
     else (let session = unpack_uint32 buf 0; t = buf ! 4 in
       if t = 0 then Some (session, False, Str (drop 5 buf), False)
       else if t = 1 \<or> t = 4 then Some (session, True, Str (drop 5 buf), False)
       else if t = 2 then
         (if length buf \<noteq> 9 then None else Some (session, True, Num (uint (unpack_uint32 buf 5)), True))
       else if t = 3 then Some (session, True, Str (drop 5 buf), True)
       else None))"

subsection \<open>Putting parts together\<close>

datatype append_arg = Arg_Nil | Arg_Pointer "u8 list" | Arg_Other

definition lappend :: "lua_item list \<Rightarrow> append_arg \<Rightarrow> int \<Rightarrow> cluster_error + lua_item list" where
  "lappend tab buffer sz = (case buffer of
     Arg_Nil \<Rightarrow> Inr (tab @ [Num sz])
   | Arg_Pointer bs \<Rightarrow> Inr (tab @ [Str bs])
   | Arg_Other \<Rightarrow> Inl Need_Lightuserdata)"

text \<open>The loop of \<^verbatim>\<open>lconcat\<close>: the strings up to the first item that is none; the result is \<open>None\<close> when they do not fit.\<close>

fun concat_loop :: "int \<Rightarrow> u8 list \<Rightarrow> lua_item list \<Rightarrow> u8 list option" where
  "concat_loop sz buff (Str s # tab) =
     (if int (length s) + int (length buff) > sz then None else concat_loop sz (buff @ s) tab)"
| "concat_loop sz buff _ = (if int (length buff) \<noteq> sz then None else Some buff)"

text \<open>The outer \<open>None\<close> is the allocation of a block with a negative size, the inner one is no result.\<close>

definition lconcat :: "lua_item list \<Rightarrow> u8 list option option" where
  "lconcat tab = (case tab of
     Num n # items \<Rightarrow> (
       let sz = sint (of_int n :: u32) in
       if sz < 0 then None else Some (concat_loop sz [] items))
   | _ \<Rightarrow> Some None)"

text \<open>\<^verbatim>\<open>dispatch_request\<close> of \<^verbatim>\<open>service/clusteragent.lua\<close> up to the delivery of the message: the requests that are not complete, by session.\<close>

record large_req =
  lr_addr :: cluster_addr
  lr_push :: bool
  lr_items :: "lua_item list"

datatype delivery = Deliver cluster_addr u32 "u8 list" bool | Invalid_Large_Request u32

definition add_large :: "(u32 \<rightharpoonup> large_req) \<Rightarrow> cluster_addr \<Rightarrow> u32 \<Rightarrow> bool \<Rightarrow> lua_item \<Rightarrow> u32 \<rightharpoonup> large_req" where
  "add_large m addr session is_push item = (
     let req = (case m session of Some req \<Rightarrow> req | None \<Rightarrow> \<lparr>lr_addr = addr, lr_push = is_push, lr_items = []\<rparr>) in
     m(session \<mapsto> req\<lparr>lr_items := lr_items req @ [item]\<rparr>))"

definition finish_large :: "(u32 \<rightharpoonup> large_req) \<Rightarrow> cluster_addr \<Rightarrow> u32 \<Rightarrow> u8 list \<Rightarrow> bool \<Rightarrow> (delivery \<times> (u32 \<rightharpoonup> large_req)) option" where
  "finish_large m addr session msg is_push = (case m session of
     None \<Rightarrow> Some (Deliver addr session msg is_push, m)
   | Some req \<Rightarrow> do {
       r \<leftarrow> lconcat (lr_items req @ [Str msg]);
       Some (case r of None \<Rightarrow> Invalid_Large_Request session | Some msg \<Rightarrow> Deliver (lr_addr req) session msg (lr_push req),
         m(session := None)) })"

fun dispatch_request :: "(u32 \<rightharpoonup> large_req) \<Rightarrow> unpacked \<Rightarrow> (delivery list \<times> (u32 \<rightharpoonup> large_req)) option" where
  "dispatch_request m (Trace tag) = Some ([], m)"
| "dispatch_request m (Multi_Request addr session whole is_push) = Some ([], add_large m addr session is_push (Num (uint whole)))"
| "dispatch_request m (Part session bs True) = Some ([], add_large m Addr_Other session False (Str bs))"
| "dispatch_request m (Part session bs False) = map_option (\<lambda>(d, m). ([d], m)) (finish_large m Addr_Other session bs False)"
| "dispatch_request m (Request addr session msg is_push) = map_option (\<lambda>(d, m). ([d], m)) (finish_large m addr session msg is_push)"

text \<open>\<^verbatim>\<open>dispatch_by_session\<close> of \<^verbatim>\<open>lualib/skynet/socketchannel.lua\<close>, and what \<^verbatim>\<open>service/clustersender.lua\<close> does with its result: for each session
  that is waited for, the data received so far.\<close>

datatype answer = Answer_Ok "u8 list" | Answer_Error "u8 list" | Answer_Invalid

definition answer_of :: "lua_item list option \<Rightarrow> lua_item \<Rightarrow> answer option" where
  "answer_of tab data = (case tab of
     Some items \<Rightarrow> map_option (\<lambda>r. case r of Some bs \<Rightarrow> Answer_Ok bs | None \<Rightarrow> Answer_Invalid) (lconcat (items @ [data]))
   | None \<Rightarrow> Some (case data of Str bs \<Rightarrow> Answer_Ok bs | Num n \<Rightarrow> Answer_Invalid))"

definition dispatch_by_session :: "(u32 \<rightharpoonup> lua_item list option) \<Rightarrow> response
    \<Rightarrow> ((u32 \<times> answer) list \<times> (u32 \<rightharpoonup> lua_item list option)) option" where
  "dispatch_by_session thread r = (case r of (session, result_ok, data, padding) \<Rightarrow>
     (case thread session of
       None \<Rightarrow> Some ([], thread)
     | Some tab \<Rightarrow>
         if padding \<and> result_ok then
           Some ([], thread(session \<mapsto> Some ((case tab of Some items \<Rightarrow> items | None \<Rightarrow> []) @ [data])))
         else if result_ok then do {
           a \<leftarrow> answer_of tab data;
           Some ([(session, a)], thread(session := None)) }
         else Some ([(session, Answer_Error (case data of Str bs \<Rightarrow> bs | Num n \<Rightarrow> []))], thread(session := None))))"

definition lisname :: "cluster_addr \<Rightarrow> bool" where
  "lisname addr = (case addr of Addr_Name (c # _) \<Rightarrow> c = of_char (CHR ''@'') | _ \<Rightarrow> False)"

subsection \<open>Bytes\<close>

lemma fill_uint32_le32: "fill_uint32 n = le32 n"
  by (simp add: fill_uint32_def le32_def)

lemma length_fill_uint32 [simp]: "length (fill_uint32 n) = 4"
  by (simp add: fill_uint32_def)

lemma unpack_fill: "length xs = i \<Longrightarrow> unpack_uint32 (xs @ fill_uint32 n @ ys) i = n"
  using le_word_le32 [of n ys] by (auto simp: unpack_uint32_def le_word_def nth_append fill_uint32_le32 le32_def)

lemma fill_header_be2: "sz < 0x10000 \<Longrightarrow> fill_header sz = Some (be2 sz)"
  by (simp add: fill_header_def be2_def drop_bit_eq_div and_255)

lemma temp_buf_ok: "length bs \<le> 0x8200 \<Longrightarrow> temp_buf bs = Some bs"
  by (simp add: temp_buf_def TEMP_LENGTH_def)

lemma split_body: "length body < 0x10000 \<Longrightarrow> split_packages (be2 (length body) @ body @ r) = (body # fst (split_packages r), snd (split_packages r))"
  by (simp add: split_be2)

lemma split_one: "length body < 0x10000 \<Longrightarrow> split_packages (be2 (length body) @ body) = ([body], [])"
  using split_body [of body "[]"] by (simp add: split_packages_short)

subsection \<open>One package\<close>

text \<open>The head of a request: the address as it is written, and the types of the packages for this kind of address.\<close>

fun addr_bytes :: "cluster_addr \<Rightarrow> u8 list" where
  "addr_bytes (Addr_Number a) = fill_uint32 a"
| "addr_bytes (Addr_Name name) = of_nat (length name) # name"
| "addr_bytes Addr_Other = []"

fun addr_ok :: "cluster_addr \<Rightarrow> bool" where
  "addr_ok (Addr_Number a) = True"
| "addr_ok (Addr_Name name) = (1 \<le> length name \<and> length name \<le> 255)"
| "addr_ok Addr_Other = False"

definition small_type :: "cluster_addr \<Rightarrow> u8" where
  "small_type addr = (case addr of Addr_Number _ \<Rightarrow> 0 | _ \<Rightarrow> 0x80)"

definition multi_type :: "cluster_addr \<Rightarrow> bool \<Rightarrow> u8" where
  "multi_type addr is_push = (case addr of Addr_Number _ \<Rightarrow> (if is_push then 0x41 else 1) | _ \<Rightarrow> (if is_push then 0xc1 else 0x81))"

lemma length_addr_bytes: "addr_ok addr \<Longrightarrow> length (addr_bytes addr) \<le> 256"
  by (cases addr) auto

lemma unat_name_length: "length name \<le> 255 \<Longrightarrow> unat (of_nat (length name) :: u8) = length name"
  by (simp add: unsigned_of_nat take_bit_nat_eq_self)

lemma unpack_small:
  assumes "addr_ok addr"
  shows "lunpackrequest (small_type addr # addr_bytes addr @ fill_uint32 session @ msg) = Inr (Request addr session msg (session = 0))"
proof (cases addr)
  case (Addr_Number a)
  have "unpack_uint32 ([0] @ fill_uint32 a @ fill_uint32 session @ msg) 1 = a" by (rule unpack_fill) simp
  moreover have "unpack_uint32 (([0] @ fill_uint32 a) @ fill_uint32 session @ msg) 5 = session" by (rule unpack_fill) simp
  ultimately show ?thesis
    by (simp add: Addr_Number small_type_def lunpackrequest_def unpackreq_number_def Let_def)
next
  case (Addr_Name name)
  with assms have l: "unat (of_nat (length name) :: u8) = length name" by (simp add: unat_name_length)
  have "unpack_uint32 ((0x80 # of_nat (length name) # name) @ fill_uint32 session @ msg) (length name + 2) = session"
    by (rule unpack_fill) simp
  moreover have "drop (length name + 6) ((0x80 # of_nat (length name) # name @ fill_uint32 session) @ msg) = msg"
    by (simp only: drop_append) simp
  ultimately show ?thesis using l
    by (simp add: Addr_Name small_type_def lunpackrequest_def unpackreq_string_def Let_def)
qed (use assms in simp)

lemma unpack_multi:
  assumes "addr_ok addr"
  shows "lunpackrequest (multi_type addr is_push # addr_bytes addr @ fill_uint32 session @ fill_uint32 whole) = Inr (Multi_Request addr session whole is_push)"
proof (cases addr)
  case (Addr_Number a)
  have "unpack_uint32 ([t] @ fill_uint32 a @ fill_uint32 session @ fill_uint32 whole) 1 = a" for t by (rule unpack_fill) simp
  moreover have "unpack_uint32 (([t] @ fill_uint32 a) @ fill_uint32 session @ fill_uint32 whole) 5 = session" for t by (rule unpack_fill) simp
  moreover have "unpack_uint32 (([t] @ fill_uint32 a @ fill_uint32 session) @ fill_uint32 whole @ []) 9 = whole" for t by (rule unpack_fill) simp
  ultimately show ?thesis
    by (simp add: Addr_Number multi_type_def lunpackrequest_def unpackmreq_number_def Let_def)
next
  case (Addr_Name name)
  with assms have l: "unat (of_nat (length name) :: u8) = length name" by (simp add: unat_name_length)
  have "unpack_uint32 ((t # of_nat (length name) # name) @ fill_uint32 session @ fill_uint32 whole) (length name + 2) = session" for t
    by (rule unpack_fill) simp
  moreover have "unpack_uint32 ((t # of_nat (length name) # name @ fill_uint32 session) @ fill_uint32 whole @ []) (length name + 6) = whole" for t
    by (rule unpack_fill) simp
  ultimately show ?thesis using l
    by (simp add: Addr_Name multi_type_def lunpackrequest_def unpackmreq_string_def Let_def)
qed (use assms in simp)

lemma unpack_part: "b = 2 \<or> b = 3 \<Longrightarrow> lunpackrequest (b # fill_uint32 session @ bs) = Inr (Part session bs (b = 2))"
  using unpack_fill [of "[b]" 1 session bs] by (auto simp: lunpackrequest_def unpackmreq_part_def Let_def)

text \<open>What \<^verbatim>\<open>packrequest\<close> returns.\<close>

lemma packrequest_small:
  assumes "addr_ok addr" "0 < sint session" "length msg < MULTI_PART"
    and body_def: "body = small_type addr # addr_bytes addr @ fill_uint32 (if is_push then 0 else session) @ msg"
  shows "packrequest addr session (Some msg) is_push =
      Some (Inr (be2 (length body) @ body, (if session + 1 > 0x7fffffff then 1 else session + 1), []))"
    "length body < 0x10000"
proof -
  show "length body < 0x10000" using assms(3) length_addr_bytes [OF assms(1)] by (simp add: body_def MULTI_PART_def)
  show "packrequest addr session (Some msg) is_push =
      Some (Inr (be2 (length body) @ body, (if session + 1 > 0x7fffffff then 1 else session + 1), []))"
    using assms(1-3)
    by (cases addr) (auto simp: packrequest_def packreq_number_def packreq_string_def body_def small_type_def MULTI_PART_def
        fill_header_be2 temp_buf_ok be2_def ac_simps Let_def)
qed

lemma packrequest_big:
  assumes "addr_ok addr" "0 < sint session" "\<not> length msg < MULTI_PART"
    "packreq_multi ((length msg - 1) div MULTI_PART + 1) session msg = Some ps"
    and body_def: "body = multi_type addr is_push # addr_bytes addr @ fill_uint32 session @ fill_uint32 (of_nat (length msg))"
  shows "packrequest addr session (Some msg) is_push =
      Some (Inr (be2 (length body) @ body, (if session + 1 > 0x7fffffff then 1 else session + 1), ps))"
    "length body < 0x10000"
proof -
  show "length body < 0x10000" using length_addr_bytes [OF assms(1)] by (simp add: body_def)
  show "packrequest addr session (Some msg) is_push =
      Some (Inr (be2 (length body) @ body, (if session + 1 > 0x7fffffff then 1 else session + 1), ps))"
    using assms(1-4)
    by (cases addr) (auto simp: packrequest_def packreq_number_def packreq_string_def body_def multi_type_def
        fill_header_be2 temp_buf_ok be2_def add.commute Let_def)
qed

subsection \<open>Parts\<close>

text \<open>A message that is cut into parts: all but the last have their flag set.\<close>

definition part_messages :: "u32 \<Rightarrow> u8 list list \<Rightarrow> u8 list \<Rightarrow> unpacked list" where
  "part_messages session cs c = map (\<lambda>c. Part session c True) cs @ [Part session c False]"

lemma count_parts: "M < n \<Longrightarrow> 0 < M \<Longrightarrow> (n - 1) div M + 1 = Suc ((n - M - 1) div M + 1)" for M n :: nat
  using le_div_geq [of M "n - 1"] by simp

text \<open>The pieces both loops cut, with the flag of the pieces that another one follows.\<close>

fun pieces :: "nat \<Rightarrow> u8 list \<Rightarrow> (bool \<times> u8 list) list" where
  "pieces 0 msg = []"
| "pieces (Suc n) msg = (if length msg > MULTI_PART then (True, take MULTI_PART msg) # pieces n (drop MULTI_PART msg)
     else (False, msg) # pieces n [])"

definition framed :: "u8 list \<Rightarrow> u8 list" where
  "framed body = be2 (length body) @ body"

lemma split_framed: "list_all (\<lambda>b. length b < 0x10000) bodies \<Longrightarrow> split_packages (concat (map framed bodies)) = (bodies, [])"
  by (induction bodies) (simp_all add: split_packages_short framed_def split_body)

lemma pieces_short: "p \<in> set (pieces n msg) \<Longrightarrow> length (snd p) \<le> MULTI_PART"
  by (induction n arbitrary: msg) (auto simp: MULTI_PART_def split: if_splits)

lemma pieces_cover:
  assumes "0 < length msg"
  shows "\<exists>cs c. pieces ((length msg - 1) div MULTI_PART + 1) msg = map (Pair True) cs @ [(False, c)] \<and> concat cs @ c = msg"
  using assms
proof (induction "length msg" arbitrary: msg rule: less_induct)
  case less
  show ?case
  proof (cases "length msg \<le> MULTI_PART")
    case True
    then have "(length msg - 1) div MULTI_PART = 0" using less.prems by (simp add: MULTI_PART_def)
    with True show ?thesis by (intro exI [of _ "[]"] exI [of _ msg]) simp
  next
    case False
    let ?d = "drop MULTI_PART msg"
    from False have d: "length ?d < length msg" "0 < length ?d" by (simp_all add: MULTI_PART_def)
    from less.hyps [OF this] obtain cs c where
      IH: "pieces ((length ?d - 1) div MULTI_PART + 1) ?d = map (Pair True) cs @ [(False, c)]" "concat cs @ c = ?d" by blast
    have n: "(length msg - 1) div MULTI_PART + 1 = Suc ((length ?d - 1) div MULTI_PART + 1)"
      unfolding length_drop using False by (intro count_parts) (simp_all add: MULTI_PART_def)
    have "pieces ((length msg - 1) div MULTI_PART + 1) msg = (True, take MULTI_PART msg) # pieces ((length ?d - 1) div MULTI_PART + 1) ?d"
      unfolding n using False by simp
    with IH show ?thesis by (intro exI [of _ "take MULTI_PART msg # cs"] exI [of _ c]) simp
  qed
qed

lemma packreq_multi_pieces:
  "packreq_multi n session msg = Some (map (\<lambda>(more, c). framed ((if more then 2 else 3) # fill_uint32 session @ c)) (pieces n msg))"
proof (induction n arbitrary: msg)
  case (Suc n)
  show ?case
    by (cases "length msg > MULTI_PART")
      (simp_all add: Suc fill_header_be2 temp_buf_ok framed_def be2_def MULTI_PART_def add.commute)
qed simp

lemma packresponse_multi_pieces:
  "packresponse_multi n session msg = Some (map (\<lambda>(more, c). framed (fill_uint32 session @ (if more then 3 else 4) # c)) (pieces n msg))"
proof (induction n arbitrary: msg)
  case (Suc n)
  show ?case
    by (cases "length msg > MULTI_PART")
      (simp_all add: Suc fill_header_be2 temp_buf_ok framed_def be2_def MULTI_PART_def add.commute)
qed simp

lemma packreq_multi_parts:
  assumes "0 < length msg"
  shows "\<exists>ps bodies cs c. packreq_multi ((length msg - 1) div MULTI_PART + 1) session msg = Some ps \<and>
    concat cs @ c = msg \<and> map lunpackrequest bodies = map Inr (part_messages session cs c) \<and>
    split_packages (concat ps) = (bodies, [])"
proof -
  let ?n = "(length msg - 1) div MULTI_PART + 1"
  let ?body = "\<lambda>(more, c). (if more then 2 else 3) # fill_uint32 session @ c"
  from pieces_cover [OF assms] obtain cs c where c: "pieces ?n msg = map (Pair True) cs @ [(False, c)]" "concat cs @ c = msg" by blast
  have "length (?body p) < 0x10000" if "p \<in> set (pieces ?n msg)" for p
    using pieces_short [OF that] by (cases p) (simp add: MULTI_PART_def)
  then have "list_all (\<lambda>b. length b < 0x10000) (map ?body (pieces ?n msg))" unfolding list_all_iff set_map by blast
  then have "split_packages (concat (map framed (map ?body (pieces ?n msg)))) = (map ?body (pieces ?n msg), [])" by (rule split_framed)
  moreover have "packreq_multi ?n session msg = Some (map framed (map ?body (pieces ?n msg)))"
    by (simp only: packreq_multi_pieces map_map comp_def case_prod_unfold)
  moreover have "map lunpackrequest (map ?body (pieces ?n msg)) = map Inr (part_messages session cs c)"
    unfolding c(1) by (simp add: unpack_part part_messages_def)
  ultimately show ?thesis using c(2) by blast
qed

lemma concat_loop_ok: "int (length (buff @ concat cs)) = sz \<Longrightarrow> concat_loop sz buff (map Str cs) = Some (buff @ concat cs)"
  by (induction cs arbitrary: buff) auto

lemma lconcat_ok:
  assumes "length (concat cs) < 2 ^ 31"
  shows "lconcat (Num (int (length (concat cs))) # map Str cs) = Some (Some (concat cs))"
proof -
  have "sint (of_int (int (length (concat cs))) :: u32) = int (length (concat cs))"
    using assms by (simp only: signed_of_int) (simp add: signed_take_bit_int_eq_self_iff)
  then show ?thesis using concat_loop_ok [of "[]" cs] by (simp add: lconcat_def)
qed

lemma dispatch_parts:
  "m session = Some req \<Longrightarrow> run_steps dispatch_request m (part_messages session cs c) =
     map_option (\<lambda>(d, m). ([d], m)) (finish_large (m(session \<mapsto> req\<lparr>lr_items := lr_items req @ map Str cs\<rparr>)) Addr_Other session c False)"
proof (induction cs arbitrary: m req)
  case Nil
  then have "m(session \<mapsto> req\<lparr>lr_items := lr_items req @ map Str []\<rparr>) = m" by (simp add: fun_upd_idem)
  then show ?case by (cases "finish_large m Addr_Other session c False") (auto simp: part_messages_def)
next
  case (Cons a cs)
  let ?m = "m(session \<mapsto> req\<lparr>lr_items := lr_items req @ [Str a]\<rparr>)"
  have "dispatch_request m (Part session a True) = Some ([], ?m)" using Cons.prems by (simp add: add_large_def)
  moreover have "run_steps dispatch_request ?m (part_messages session cs c) =
      map_option (\<lambda>(d, m). ([d], m)) (finish_large (m(session \<mapsto> req\<lparr>lr_items := lr_items req @ map Str (a # cs)\<rparr>)) Addr_Other session c False)"
  proof -
    let ?r = "req\<lparr>lr_items := lr_items req @ [Str a]\<rparr>"
    have r: "?r\<lparr>lr_items := lr_items ?r @ map Str cs\<rparr> = req\<lparr>lr_items := lr_items req @ map Str (a # cs)\<rparr>" by simp
    have "?m session = Some ?r" by (rule fun_upd_same)
    from Cons.IH [of ?m ?r, OF this] show ?thesis unfolding r fun_upd_upd .
  qed
  moreover have "part_messages session (a # cs) c = Part session a True # part_messages session cs c" by (simp add: part_messages_def)
  ultimately show ?case by (simp only: run_steps_silent)
qed

text \<open>The header and the parts of a large request give one delivery.\<close>

lemma dispatch_large:
  assumes "m session = None" "concat cs @ c = msg" "length msg < 2 ^ 31"
  shows "run_steps dispatch_request m (Multi_Request addr session (of_nat (length msg)) is_push # part_messages session cs c) =
    Some ([Deliver addr session msg is_push], m)"
proof -
  let ?req = "\<lparr>lr_addr = addr, lr_push = is_push, lr_items = [Num (int (length msg))]\<rparr>"
  have "uint (of_nat (length msg) :: u32) = int (length msg)"
    using assms(3) by (simp add: unsigned_of_nat take_bit_nat_eq_self)
  then have "dispatch_request m (Multi_Request addr session (of_nat (length msg)) is_push) = Some ([], m(session \<mapsto> ?req))"
    using assms(1) by (simp add: add_large_def)
  moreover have "run_steps dispatch_request (m(session \<mapsto> ?req)) (part_messages session cs c) = Some ([Deliver addr session msg is_push], m)"
  proof -
    have "lconcat (lr_items (?req\<lparr>lr_items := lr_items ?req @ map Str cs\<rparr>) @ [Str c]) = Some (Some msg)"
      using lconcat_ok [of "cs @ [c]"] assms(2,3) by simp
    then have "finish_large (m(session \<mapsto> ?req\<lparr>lr_items := lr_items ?req @ map Str cs\<rparr>)) Addr_Other session c False =
        Some (Deliver addr session msg is_push, m)"
      unfolding finish_large_def using assms(1) by (simp add: fun_upd_idem del: map_append)
    then show ?thesis
      using dispatch_parts [of "m(session \<mapsto> ?req)" session ?req cs c] by (simp only: fun_upd_same fun_upd_upd) simp
  qed
  ultimately show ?thesis by simp
qed

subsection \<open>Requests that interleave\<close>

fun usession :: "unpacked \<Rightarrow> u32 option" where
  "usession (Request addr session msg is_push) = Some session"
| "usession (Multi_Request addr session whole is_push) = Some session"
| "usession (Part session bs padding) = Some session"
| "usession (Trace tag) = None"

fun dsession :: "delivery \<Rightarrow> u32" where
  "dsession (Deliver addr session msg is_push) = session"
| "dsession (Invalid_Large_Request session) = session"

lemma finish_large_frame:
  "finish_large m addr s msg is_push = Some (d, m') \<Longrightarrow> dsession d = s \<and> (\<forall>t. t \<noteq> s \<longrightarrow> m' t = m t)"
  by (auto simp: finish_large_def split: option.splits bind_splits)

lemma finish_large_local:
  assumes "finish_large m addr s msg is_push = Some (d, m')" "m s = n s"
  shows "\<exists>n'. finish_large n addr s msg is_push = Some (d, n') \<and> n' s = m' s"
  using assms by (cases "n s") (auto simp: finish_large_def split: bind_splits)

lemma dispatch_other: "dispatch_request m u = Some (ds, m') \<Longrightarrow> usession u \<noteq> Some s \<Longrightarrow> m' s = m s \<and> (\<forall>d \<in> set ds. dsession d \<noteq> s)"
  by (induction m u rule: dispatch_request.induct) (auto simp: add_large_def Let_def dest!: finish_large_frame)

lemma dispatch_local:
  assumes "dispatch_request m u = Some (ds, m')" "usession u = Some s" "m s = n s"
  shows "(\<exists>n'. dispatch_request n u = Some (ds, n') \<and> n' s = m' s) \<and> (\<forall>d \<in> set ds. dsession d = s)"
  using assms
proof (induction m u rule: dispatch_request.induct)
  case (4 m session bs)
  then obtain d where "finish_large m Addr_Other s bs False = Some (d, m')" "ds = [d]" by auto
  with finish_large_local [where n = n, OF this(1) "4.prems"(3)] finish_large_frame [OF this(1)] "4.prems"(2) show ?case by auto
next
  case (5 m addr session msg is_push)
  then obtain d where "finish_large m addr s msg is_push = Some (d, m')" "ds = [d]" by auto
  with finish_large_local [where n = n, OF this(1) "5.prems"(3)] finish_large_frame [OF this(1)] "5.prems"(2) show ?case by auto
qed (auto simp: add_large_def Let_def)

text \<open>What is delivered for a session depends on the messages of this session only.\<close>

lemma sessions_do_not_mix:
  "run_steps dispatch_request m us = Some (ds, m') \<Longrightarrow> m s = n s \<Longrightarrow>
   \<exists>n'. run_steps dispatch_request n (filter (\<lambda>u. usession u = Some s) us) = Some (filter (\<lambda>d. dsession d = s) ds, n') \<and> n' s = m' s"
proof (induction us arbitrary: m n ds)
  case (Cons u us)
  from Cons.prems(1) obtain ds1 m1 ds2 where u: "dispatch_request m u = Some (ds1, m1)"
    and us: "run_steps dispatch_request m1 us = Some (ds2, m')" and ds: "ds = ds1 @ ds2"
    by (auto split: bind_splits)
  show ?case
  proof (cases "usession u = Some s")
    case True
    from dispatch_local [where n = n, OF u True Cons.prems(2)] obtain n1 where n1: "dispatch_request n u = Some (ds1, n1)" "n1 s = m1 s"
      and same: "filter (\<lambda>d. dsession d = s) ds1 = ds1" by auto
    from Cons.IH [where n = n1, OF us n1(2) [symmetric]] True n1(1) same show ?thesis by (auto simp: ds)
  next
    case False
    from dispatch_other [OF u False] have "m1 s = n s" and none: "filter (\<lambda>d. dsession d = s) ds1 = []"
      using Cons.prems(2) by (auto simp: filter_empty_conv)
    from Cons.IH [where n = n, OF us this(1)] False none show ?thesis by (simp add: ds)
  qed
qed simp

lemma next_session:
  assumes "0 < sint (session :: u32)"
  shows "0 < sint (if session + 1 > 0x7fffffff then 1 else session + 1)"
proof (cases "session + 1 > 0x7fffffff")
  case False
  have u: "uint session = sint session" "sint session < 2 ^ 31"
    using assms sint_lt [of session] by (simp_all add: uint_sint take_bit_int_eq_self_iff)
  then have "uint (session + 1) = sint session + 1" using assms by (simp add: uint_word_ariths mod_pos_pos_trivial)
  moreover from this False have "sint session + 1 \<le> 0x7fffffff" by (simp add: word_less_def)
  ultimately have "sint (session + 1) = sint session + 1"
    using assms by (simp add: sint_uint signed_take_bit_int_eq_self_iff)
  with assms False show ?thesis by simp
qed simp

subsection \<open>Responses\<close>

lemma unpackresponse_fill:
  "lunpackresponse (fill_uint32 session @ t # bs) =
     (if t = 0 then Some (session, False, Str bs, False)
      else if t = 1 \<or> t = 4 then Some (session, True, Str bs, False)
      else if t = 2 then (if length bs \<noteq> 4 then None else Some (session, True, Num (uint (unpack_uint32 bs 0)), True))
      else if t = 3 then Some (session, True, Str bs, True)
      else None)"
proof -
  have "unpack_uint32 ([] @ fill_uint32 session @ t # bs) 0 = session" by (rule unpack_fill) simp
  moreover have "unpack_uint32 (fill_uint32 session @ t' # bs) 5 = unpack_uint32 bs 0" for t'
  proof -
    have "(fill_uint32 session @ t' # bs) ! (5 + k) = bs ! k" for k
      using nth_append_length_plus [of "fill_uint32 session @ [t']" bs k] by simp
    from this [of 0] this [of 1] this [of 2] this [of 3] show ?thesis by (simp add: unpack_uint32_def numeral_2_eq_2)
  qed
  ultimately show ?thesis by (simp add: lunpackresponse_def nth_append Let_def)
qed

lemma dispatch_answers:
  "thread session = Some (Some items) \<Longrightarrow>
   run_steps dispatch_by_session thread (map (\<lambda>c. (session, True, Str c, True)) cs @ [(session, True, Str c, False)]) =
     map_option (\<lambda>a. ([(session, a)], thread(session := None))) (answer_of (Some (items @ map Str cs)) (Str c))"
proof (induction cs arbitrary: thread items)
  case Nil
  then show ?case by (cases "answer_of (Some items) (Str c)") (simp_all add: dispatch_by_session_def fun_upd_def)
next
  case (Cons a cs)
  let ?t = "thread(session \<mapsto> Some (items @ [Str a]))"
  have "dispatch_by_session thread (session, True, Str a, True) = Some ([], ?t)" using Cons.prems by (simp add: dispatch_by_session_def)
  moreover have "?t session = Some (Some (items @ [Str a]))" by simp
  from Cons.IH [of ?t "items @ [Str a]", OF this]
  have "run_steps dispatch_by_session ?t (map (\<lambda>c. (session, True, Str c, True)) cs @ [(session, True, Str c, False)]) =
     map_option (\<lambda>x. ([(session, x)], thread(session := None))) (answer_of (Some (items @ map Str (a # cs))) (Str c))"
    by (simp only: fun_upd_upd append_assoc append.simps list.map)
  ultimately show ?case by (simp only: run_steps_silent list.map append.simps)
qed

subsection \<open>Properties\<close>

text \<open>Property C24: a request or a push reaches the other node as it was. For every address, session and message below 2 GB, packing
  succeeds and gives a session for the next request; the stream of its packages splits into bodies that unpack without an
  error; and however these arrive between the packages of other sessions, the node delivers the message once, with its address
  and its flag, and forgets the session. A push in one package has the session 0.\<close>

theorem cluster_request_roundtrip:
  assumes "0 < sint session" "length msg < 2 ^ 31" "addr_ok addr"
    "s = (if is_push \<and> length msg < MULTI_PART then 0 else session)"
  shows "\<exists>r nextid parts bodies us.
    packrequest addr session (Some msg) is_push = Some (Inr (r, nextid, parts)) \<and> 0 < sint nextid \<and>
    split_packages (r @ concat parts) = (bodies, []) \<and> map lunpackrequest bodies = map Inr us \<and>
    (\<forall>m vs ds m'. m s = None \<and> filter (\<lambda>u. usession u = Some s) vs = us \<and> run_steps dispatch_request m vs = Some (ds, m') \<longrightarrow>
       filter (\<lambda>d. dsession d = s) ds = [Deliver addr s msg is_push] \<and> m' s = None)"
proof -
  let ?next = "if session + 1 > 0x7fffffff then 1 else session + 1"
  have nextid: "0 < sint ?next" using assms(1) by (rule next_session)
  have deliver: "filter (\<lambda>d. dsession d = s) ds = [Deliver addr s msg is_push] \<and> m' s = None"
    if one: "\<And>n. n s = None \<Longrightarrow> run_steps dispatch_request n us = Some ([Deliver addr s msg is_push], n)"
      and run: "m s = None \<and> filter (\<lambda>u. usession u = Some s) vs = us \<and> run_steps dispatch_request m vs = Some (ds, m')"
    for us and m m' :: "u32 \<rightharpoonup> large_req" and vs ds
    using sessions_do_not_mix [where n = m and s = s, of m vs ds m'] one [of m] run by auto
  show ?thesis
  proof (cases "length msg < MULTI_PART")
    case True
    let ?b = "small_type addr # addr_bytes addr @ fill_uint32 (if is_push then 0 else session) @ msg"
    have u: "lunpackrequest ?b = Inr (Request addr s msg is_push)"
      using unpack_small [OF assms(3)] assms(1,4) True by auto
    have "run_steps dispatch_request n [Request addr s msg is_push] = Some ([Deliver addr s msg is_push], n)" if "n s = None" for n
      using that by (simp add: finish_large_def)
    from deliver [OF this] u packrequest_small [OF assms(3,1) True refl, of is_push] split_one [of ?b] nextid show ?thesis
      by (intro exI [of _ "be2 (length ?b) @ ?b"] exI [of _ ?next] exI [of _ "[]"] exI [of _ "[?b]"] exI [of _ "[Request addr s msg is_push]"])
        auto
  next
    case False
    then have s: "s = session" using assms(4) by simp
    let ?b = "multi_type addr is_push # addr_bytes addr @ fill_uint32 session @ fill_uint32 (of_nat (length msg))"
    from False have "0 < length msg" by (cases msg) (simp_all add: MULTI_PART_def)
    from packreq_multi_parts [OF this, of session] obtain ps bodies cs c where
      p: "packreq_multi ((length msg - 1) div MULTI_PART + 1) session msg = Some ps" "concat cs @ c = msg"
        "map lunpackrequest bodies = map Inr (part_messages session cs c)" "split_packages (concat ps) = (bodies, [])" by blast
    let ?us = "Multi_Request addr session (of_nat (length msg)) is_push # part_messages session cs c"
    have "run_steps dispatch_request n ?us = Some ([Deliver addr s msg is_push], n)" if "n s = None" for n
      using that unfolding s by (rule dispatch_large [OF _ p(2) assms(2)])
    note run = deliver [where us = ?us, OF this]
    have all_runs: "\<forall>m vs ds m'. m s = None \<and> filter (\<lambda>u. usession u = Some s) vs = ?us \<and> run_steps dispatch_request m vs = Some (ds, m') \<longrightarrow>
       filter (\<lambda>d. dsession d = s) ds = [Deliver addr s msg is_push] \<and> m' s = None"
      by (intro allI impI) (rule run)
    note req = packrequest_big [OF assms(3,1) False p(1) refl, of is_push]
    have "split_packages ((be2 (length ?b) @ ?b) @ concat ps) = (?b # bodies, [])" using split_body [OF req(2), of "concat ps"] p(4) by simp
    moreover have "map lunpackrequest (?b # bodies) = map Inr ?us" using p(3) unpack_multi [OF assms(3)] by simp
    ultimately show ?thesis
      using req(1) nextid all_runs
      by (intro exI [of _ "be2 (length ?b) @ ?b"] exI [of _ ?next] exI [of _ ps] exI [of _ "?b # bodies"] exI [of _ ?us] conjI)
  qed
qed

theorem cluster_request_roundtrip_witness:
  "\<exists>r nextid parts bodies us.
    packrequest (Addr_Name [64, 97]) 7 (Some [1, 2, 3]) True = Some (Inr (r, nextid, parts)) \<and> 0 < sint nextid \<and>
    split_packages (r @ concat parts) = (bodies, []) \<and> map lunpackrequest bodies = map Inr us \<and>
    (\<forall>m vs ds m'. m 0 = None \<and> filter (\<lambda>u. usession u = Some 0) vs = us \<and> run_steps dispatch_request m vs = Some (ds, m') \<longrightarrow>
       filter (\<lambda>d. dsession d = 0) ds = [Deliver (Addr_Name [64, 97]) 0 [1, 2, 3] True] \<and> m' 0 = None)"
  by (rule cluster_request_roundtrip) (simp_all add: MULTI_PART_def)

text \<open>Property C25: the answer to a request comes back as it was. Below 2 GB, a result is what the other node packed, in one package or in
  parts put together by session; an error text comes back cut to 32 KB. A thread that waits for the session gets exactly one
  answer, and the other sessions are not touched.\<close>

theorem cluster_response_roundtrip:
  assumes "length msg < 2 ^ 31"
  shows "\<exists>w bodies rs.
    lpackresponse session ok msg = Some w \<and>
    split_packages (concat (case w of Inl p \<Rightarrow> [p] | Inr ps \<Rightarrow> ps)) = (bodies, []) \<and> map lunpackresponse bodies = map Some rs \<and>
    (\<forall>thread. thread session = Some None \<longrightarrow> run_steps dispatch_by_session thread rs =
       Some ([(session, if ok then Answer_Ok msg else Answer_Error (take MULTI_PART msg))], thread(session := None)))"
proof (cases "ok \<and> length msg > MULTI_PART")
  case False
  let ?b = "fill_uint32 session @ (if ok then 1 else 0) # take MULTI_PART msg"
  let ?r = "(session, ok, Str (take MULTI_PART msg), False)"
  have b: "length ?b < 0x10000" "length ?b = min (length msg) MULTI_PART + 5" by (simp_all add: MULTI_PART_def)
  have "lpackresponse session ok msg = Some (Inl (be2 (length ?b) @ ?b))"
    using False by (auto simp: lpackresponse_def MULTI_PART_def fill_header_be2 temp_buf_ok be2_def min_def add.commute Let_def)
  moreover have "lunpackresponse ?b = Some ?r" by (simp add: unpackresponse_fill)
  moreover have "run_steps dispatch_by_session thread [?r] =
      Some ([(session, if ok then Answer_Ok msg else Answer_Error (take MULTI_PART msg))], thread(session := None))"
    if "thread session = Some None" for thread
    using that False by (cases ok) (simp_all add: dispatch_by_session_def answer_of_def fun_upd_def)
  ultimately show ?thesis
    using split_one [OF b(1)]
    by (intro exI [of _ "Inl (be2 (length ?b) @ ?b)"] exI [of _ "[?b]"] exI [of _ "[?r]"]) simp
next
  case True
  let ?n = "(length msg - 1) div MULTI_PART + 1"
  let ?h = "fill_uint32 session @ 2 # fill_uint32 (of_nat (length msg))"
  let ?body = "\<lambda>(more, c). fill_uint32 session @ (if more then 3 else 4) # c"
  from True have "0 < length msg" by (cases msg) simp_all
  from pieces_cover [OF this] obtain cs c where c: "pieces ?n msg = map (Pair True) cs @ [(False, c)]" "concat cs @ c = msg" by blast
  let ?bs = "?h # map ?body (pieces ?n msg)"
  let ?rs = "(session, True, Num (int (length msg)), True) # map (\<lambda>c. (session, True, Str c, True)) cs @ [(session, True, Str c, False)]"
  have "length (?body p) < 0x10000" if "p \<in> set (pieces ?n msg)" for p
    using pieces_short [OF that] by (cases p) (simp add: MULTI_PART_def)
  then have "list_all (\<lambda>b. length b < 0x10000) ?bs" unfolding list_all_iff list.set set_map by auto
  then have "split_packages (concat (map framed ?bs)) = (?bs, [])" by (rule split_framed)
  moreover have "lpackresponse session ok msg = Some (Inr (map framed ?bs))"
    using True
    by (simp add: lpackresponse_def packresponse_multi_pieces fill_header_be2 temp_buf_ok framed_def be2_def comp_def case_prod_unfold Let_def)
  moreover have u: "uint (of_nat (length msg) :: u32) = int (length msg)"
    using assms by (simp add: unsigned_of_nat take_bit_nat_eq_self)
  have "map lunpackresponse ?bs = map Some ?rs"
    unfolding c(1) using u unpack_fill [of "[]" 0 "of_nat (length msg)" "[]"] by (simp add: unpackresponse_fill)
  moreover have "run_steps dispatch_by_session thread ?rs = Some ([(session, Answer_Ok msg)], thread(session := None))"
    if "thread session = Some None" for thread
  proof -
    let ?t = "thread(session \<mapsto> Some [Num (int (length msg))])"
    have "dispatch_by_session thread (session, True, Num (int (length msg)), True) = Some ([], ?t)"
      using that by (simp add: dispatch_by_session_def)
    moreover have "answer_of (Some ([Num (int (length msg))] @ map Str cs)) (Str c) = Some (Answer_Ok msg)"
      using lconcat_ok [of "cs @ [c]"] c(2) assms by (simp add: answer_of_def)
    ultimately show ?thesis
      using dispatch_answers [of ?t session "[Num (int (length msg))]" cs c]
      by (simp only: run_steps_silent fun_upd_same fun_upd_upd option.map simp_thms)
  qed
  ultimately show ?thesis
    using True by (intro exI [of _ "Inr (map framed ?bs)"] exI [of _ ?bs] exI [of _ ?rs]) simp
qed

theorem cluster_response_roundtrip_witness:
  "\<exists>w bodies rs.
    lpackresponse 7 True [1, 2, 3] = Some w \<and>
    split_packages (concat (case w of Inl p \<Rightarrow> [p] | Inr ps \<Rightarrow> ps)) = (bodies, []) \<and> map lunpackresponse bodies = map Some rs \<and>
    (\<forall>thread. thread 7 = Some None \<longrightarrow> run_steps dispatch_by_session thread rs =
       Some ([(7, if True then Answer_Ok [1, 2, 3] else Answer_Error (take MULTI_PART [1, 2, 3]))], thread(7 := None)))"
  by (rule cluster_response_roundtrip) simp

end
