(* ===== verification/Harbor_Queue.thy ===== *)
theory Harbor_Queue
  imports Skynet_Prelude
begin

text \<open>
  The queues of \<^verbatim>\<open>service-src/service_harbor.c\<close>: a ring of messages that waits for a connection or for a name. It grows before it
  is full, unlike the rings of \<^verbatim>\<open>skynet_mq.c\<close> and \<^verbatim>\<open>lua-netpack.c\<close>, which grow when they are; it is the third
  implementation of the interface \<open>fifo\<close>.

  The buffer of a message is the list of its bytes.
\<close>

definition DEFAULT_QUEUE_SIZE_harbor :: nat where "DEFAULT_QUEUE_SIZE_harbor = 1024"

record remote_message_header =
  hd_source :: u32
  hd_destination :: u32
  hd_session :: u32

record harbor_msg =
  hm_header :: remote_message_header
  hm_buffer :: "u8 list"

record harbor_msg_queue =
  hq_size :: nat
  hq_head :: nat
  hq_tail :: nat
  hq_data :: "harbor_msg option list"

definition harbor_expand :: "harbor_msg_queue \<Rightarrow> harbor_msg_queue" where
  "harbor_expand queue = queue\<lparr>
     hq_data := map (\<lambda>i. hq_data queue ! ((i + hq_head queue) mod hq_size queue)) [0..<hq_size queue - 1]
       @ replicate (hq_size queue + 1) None,
     hq_head := 0, hq_tail := hq_size queue - 1, hq_size := hq_size queue * 2\<rparr>"

definition push_queue_msg :: "harbor_msg \<Rightarrow> harbor_msg_queue \<Rightarrow> harbor_msg_queue option" where
  "push_queue_msg m queue = (
     let queue = (if (hq_tail queue + 1) mod hq_size queue = hq_head queue then harbor_expand queue else queue) in do {
     data \<leftarrow> array_set (hq_data queue) (hq_tail queue) (Some m);
     Some (queue\<lparr>hq_data := data, hq_tail := (hq_tail queue + 1) mod hq_size queue\<rparr>) })"

definition push_queue :: "harbor_msg_queue \<Rightarrow> u8 list \<Rightarrow> remote_message_header \<Rightarrow> harbor_msg_queue option" where
  "push_queue queue buffer header = push_queue_msg \<lparr>hm_header = header, hm_buffer = buffer\<rparr> queue"

definition pop_queue :: "harbor_msg_queue \<Rightarrow> (harbor_msg option \<times> harbor_msg_queue) option" where
  "pop_queue queue =
     (if hq_head queue = hq_tail queue then Some (None, queue)
      else do {
        slot \<leftarrow> array_get (hq_data queue) (hq_head queue);
        m \<leftarrow> slot;
        Some (Some m, queue\<lparr>hq_head := (hq_head queue + 1) mod hq_size queue\<rparr>) })"

definition new_queue :: harbor_msg_queue where
  "new_queue = \<lparr>hq_size = DEFAULT_QUEUE_SIZE_harbor, hq_head = 0, hq_tail = 0, hq_data = replicate DEFAULT_QUEUE_SIZE_harbor None\<rparr>"

text \<open>The loops that empty a queue: all messages, in order.\<close>

partial_function (option) pop_all :: "harbor_msg_queue \<Rightarrow> (harbor_msg list \<times> harbor_msg_queue) option" where
  "pop_all queue = Option.bind (pop_queue queue) (\<lambda>(r, queue').
     (case r of
        None \<Rightarrow> Some ([], queue')
      | Some m \<Rightarrow> Option.bind (pop_all queue') (\<lambda>(ms, queue''). Some (m # ms, queue''))))"

subsection \<open>The queue as a list\<close>

definition hq_list :: "harbor_msg_queue \<Rightarrow> harbor_msg list" where
  "hq_list q = map the (ring_slice (hq_data q) (hq_head q) (ring_len (hq_head q) (hq_tail q) (hq_size q)))"

definition hq_inv :: "harbor_msg_queue \<Rightarrow> bool" where
  "hq_inv q \<longleftrightarrow> length (hq_data q) = hq_size q \<and> hq_head q < hq_size q \<and> hq_tail q < hq_size q \<and>
     None \<notin> set (ring_slice (hq_data q) (hq_head q) (ring_len (hq_head q) (hq_tail q) (hq_size q)))"

lemma new_queue_inv: "hq_inv new_queue" "hq_list new_queue = []"
  by (simp_all add: hq_inv_def hq_list_def new_queue_def ring_len_def DEFAULT_QUEUE_SIZE_harbor_def)

lemma next_mod: "i < c \<Longrightarrow> Suc i mod c = ring_next i c"
  using ring_next_mod [of i c] by simp

lemma harbor_expand_ok:
  assumes "hq_inv q" "(hq_tail q + 1) mod hq_size q = hq_head q"
  shows "hq_inv (harbor_expand q)" "hq_list (harbor_expand q) = hq_list q"
    "hq_head (harbor_expand q) \<noteq> ring_next (hq_tail (harbor_expand q)) (hq_size (harbor_expand q))"
proof -
  let ?h = "hq_head q" and ?t = "hq_tail q" and ?c = "hq_size q"
  from assms(1) have r: "length (hq_data q) = ?c" "?h < ?c" "?t < ?c" and some: "None \<notin> set (ring_slice (hq_data q) ?h (ring_len ?h ?t ?c))"
    by (simp_all add: hq_inv_def)
  have "?h = ring_next ?t ?c" using assms(2) r(3) by (simp add: next_mod)
  from ring_len_full [OF r(2,3) this] have n: "ring_len ?h ?t ?c = ?c - 1" by simp
  have data: "hq_data (harbor_expand q) = ring_slice (hq_data q) ?h (?c - 1) @ replicate (?c + 1) None"
    using r(1) by (simp add: harbor_expand_def ring_slice_def add.commute)
  have sel: "hq_head (harbor_expand q) = 0" "hq_tail (harbor_expand q) = ?c - 1" "hq_size (harbor_expand q) = ?c * 2"
    by (simp_all add: harbor_expand_def)
  have rl: "ring_len 0 (?c - 1) (?c * 2) = ?c - 1" by (simp add: ring_len_def)
  have sl: "ring_slice (hq_data (harbor_expand q)) 0 (?c - 1) = ring_slice (hq_data q) ?h (?c - 1)"
    unfolding data using r by (intro nth_equalityI) (simp_all add: ring_slice_def nth_append)
  show "hq_list (harbor_expand q) = hq_list q" unfolding hq_list_def sel rl sl n ..
  show "hq_inv (harbor_expand q)" unfolding hq_inv_def sel rl sl using some r by (simp add: n data)
  show "hq_head (harbor_expand q) \<noteq> ring_next (hq_tail (harbor_expand q)) (hq_size (harbor_expand q))"
    using r by (simp add: sel ring_next_def)
qed

lemma push_room:
  assumes "hq_inv q" "hq_head q \<noteq> ring_next (hq_tail q) (hq_size q)"
    and q'_def: "q' = q\<lparr>hq_data := (hq_data q)[hq_tail q := Some m], hq_tail := ring_next (hq_tail q) (hq_size q)\<rparr>"
  shows "hq_inv q'" "hq_list q' = hq_list q @ [m]"
proof -
  let ?h = "hq_head q" and ?t = "hq_tail q" and ?c = "hq_size q"
  from assms(1) have r: "length (hq_data q) = ?c" "?h < ?c" "?t < ?c" by (simp_all add: hq_inv_def)
  show "hq_inv q'" "hq_list q' = hq_list q @ [m]"
    using ring_slice_push [OF r, of "Some m"] ring_len_push [OF r(2,3) assms(2)] assms(1) r
    by (simp_all add: q'_def hq_inv_def hq_list_def)
qed

lemma push_queue_msg_ok: "hq_inv q \<Longrightarrow> \<exists>q'. push_queue_msg m q = Some q' \<and> hq_inv q' \<and> hq_list q' = hq_list q @ [m]"
proof -
  assume inv: "hq_inv q"
  define q1 where "q1 = (if (hq_tail q + 1) mod hq_size q = hq_head q then harbor_expand q else q)"
  have q1: "hq_inv q1" "hq_list q1 = hq_list q" "hq_head q1 \<noteq> ring_next (hq_tail q1) (hq_size q1)"
    using inv harbor_expand_ok [OF inv] by (auto simp: q1_def hq_inv_def next_mod)
  have "push_queue_msg m q = Some (q1\<lparr>hq_data := (hq_data q1)[hq_tail q1 := Some m], hq_tail := ring_next (hq_tail q1) (hq_size q1)\<rparr>)"
    using q1(1) unfolding push_queue_msg_def q1_def [symmetric] Let_def by (simp add: hq_inv_def ring_next_mod)
  with push_room [OF q1(1,3) refl] q1(2) show ?thesis by simp
qed

lemma hq_list_Nil_iff: "hq_inv q \<Longrightarrow> hq_list q = [] \<longleftrightarrow> hq_head q = hq_tail q"
  by (auto simp: hq_list_def hq_inv_def ring_len_eq_0 simp flip: length_0_conv)

lemma pop_queue_cons:
  assumes "hq_inv q" "hq_list q = m # ms"
  shows "\<exists>q'. pop_queue q = Some (Some m, q') \<and> hq_inv q' \<and> hq_list q' = ms"
proof -
  let ?h = "hq_head q" and ?t = "hq_tail q" and ?c = "hq_size q"
  from assms(1) have r: "length (hq_data q) = ?c" "?h < ?c" "?t < ?c" by (simp_all add: hq_inv_def)
  have ne: "?h \<noteq> ?t" using assms hq_list_Nil_iff [of q] by auto
  note len = ring_len_pop [OF r(2,3) ne]
  note sl = ring_slice_pop [OF r(1,2), of "ring_len (ring_next ?h ?c) ?t ?c"]
  let ?q = "q\<lparr>hq_head := ring_next ?h ?c\<rparr>"
  have "hq_data q ! ?h = Some m" "hq_list ?q = ms" "hq_inv ?q"
    using assms sl len r by (auto simp: hq_list_def hq_inv_def)
  moreover from this(1) have "pop_queue q = Some (Some m, ?q)" using ne r by (simp add: pop_queue_def ring_next_mod)
  ultimately show ?thesis by blast
qed

lemma pop_queue_empty: "hq_inv q \<Longrightarrow> hq_list q = [] \<Longrightarrow> pop_queue q = Some (None, q)"
  by (simp add: pop_queue_def hq_list_Nil_iff)

interpretation hq: fifo push_queue_msg pop_queue hq_list hq_inv
  by unfold_locales (auto simp: push_queue_msg_ok pop_queue_empty pop_queue_cons)

text \<open>Emptying a queue returns, with all its messages.\<close>

lemma pop_all_ok: "hq_inv q \<Longrightarrow> \<exists>q'. pop_all q = Some (hq_list q, q') \<and> hq_inv q' \<and> hq_list q' = []"
proof (induction "hq_list q" arbitrary: q)
  case Nil
  with hq.deq_empty [of q] show ?case by (auto simp: pop_all.simps [of q])
next
  case (Cons m ms)
  from hq.deq_cons [OF Cons.prems Cons.hyps(2) [symmetric]] obtain q1 where
    "pop_queue q = Some (Some m, q1)" "hq_inv q1" "hq_list q1 = ms" by blast
  with Cons.hyps(1) [of q1] Cons.hyps(2) show ?case by (auto simp: pop_all.simps [of q])
qed

text \<open>Moving all messages of one queue behind those of another.\<close>

fun push_all :: "harbor_msg list \<Rightarrow> harbor_msg_queue \<Rightarrow> harbor_msg_queue option" where
  "push_all [] queue = Some queue"
| "push_all (m # ms) queue = do { queue \<leftarrow> push_queue_msg m queue; push_all ms queue }"

lemma push_all_ok: "hq_inv q \<Longrightarrow> \<exists>q'. push_all ms q = Some q' \<and> hq_inv q' \<and> hq_list q' = hq_list q @ ms"
proof (induction ms arbitrary: q)
  case (Cons m ms)
  from hq.enq_ok [OF Cons.prems, of m] obtain q1 where "push_queue_msg m q = Some q1" "hq_inv q1" "hq_list q1 = hq_list q @ [m]" by blast
  with Cons.IH [of q1] show ?case by auto
qed simp

end
