(* ===== verification/Harbor_Service.thy ===== *)
theory Harbor_Service
  imports Harbor_Queue Service_Node Net_Pack
begin

text \<open>
  \<^verbatim>\<open>service-src/service_harbor.c\<close>: the service that connects the processes (the harbors) of a network. Messages to handles of
  other harbors and to global names arrive here, wait for the connection or for the name, and go to a socket with a cookie of
  twelve bytes behind them; data of the sockets is cut into messages, which go to the local services.

  The slots of the 256 harbors are the values of the function \<open>hb_s\<close>; every index is the top byte of a handle or is
  checked by the code. Calls out of the service (\<^verbatim>\<open>skynet_send\<close>, \<^verbatim>\<open>skynet_error\<close>, the socket functions, \<^verbatim>\<open>skynet_free\<close>) are recorded in
  order; the argument \<open>fails\<close> says for which calls \<^verbatim>\<open>skynet_send\<close> returns a negative number. The bytes of a block stand for
  the block. \<open>None\<close> is a failed assertion or an access outside a block.
\<close>

definition HASH_SIZE :: nat where "HASH_SIZE = 4096"
definition HEADER_COOKIE_LENGTH :: nat where "HEADER_COOKIE_LENGTH = 12"
definition REMOTE_MAX :: nat where "REMOTE_MAX = 256"
definition PTYPE_SOCKET :: u32 where "PTYPE_SOCKET = 6"

subsection \<open>Data\<close>

record keyvalue =
  kv_key :: "u8 list"
  kv_hash :: u32
  kv_value :: u32
  kv_queue :: "harbor_msg_queue option"

type_synonym hashmap = "nat \<Rightarrow> keyvalue list"

datatype status = STATUS_WAIT | STATUS_HANDSHAKE | STATUS_HEADER | STATUS_CONTENT | STATUS_DOWN

record slave =
  sl_fd :: int
  sl_queue :: "harbor_msg_queue option"
  sl_status :: status
  sl_length :: nat
  sl_read :: nat
  sl_size :: mem
  sl_recv :: "mem option"

record harbor =
  hb_id :: int
  hb_slave :: u32
  hb_map :: hashmap
  hb_s :: "nat \<Rightarrow> slave"

datatype harbor_log =
    Log_Invalid_Fd int
  | Log_Invalid_Handshake nat int u8
  | Log_Too_Long nat
  | Log_Unknown_Destination u32 u32 u32
  | Log_Too_Large u32 u32
  | Log_Drop_Name "u8 list" nat
  | Log_Drop_Message nat u32 u32 int nat
  | Log_Invalid_Name
  | Log_Invalid_Command char string
  | Log_Exists int
  | Log_Unknown_Command
  | Log_Unknown_Fd int
  | Log_Unsent nat int
  | Log_Socket_Message u32
  | Log_Message u32 u32

datatype harbor_call =
    Skynet_Send u32 u32 u32 int "u8 list"
  | Skynet_Error harbor_log
  | Skynet_Free "u8 list"
  | Socket_Close int
  | Socket_Start int
  | Socket_Sendbuffer int "u8 list"

definition put_slave :: "nat \<Rightarrow> slave \<Rightarrow> harbor \<Rightarrow> harbor" where
  "put_slave i s h = h\<lparr>hb_s := (hb_s h)(i := s)\<rparr>"

definition release_queue :: "harbor_msg_queue option \<Rightarrow> harbor_call list option" where
  "release_queue queue = (case queue of
     None \<Rightarrow> Some []
   | Some q \<Rightarrow> do { (ms, _) \<leftarrow> pop_all q; Some (map (Skynet_Free \<circ> hm_buffer) ms) })"

subsection \<open>The table of names\<close>

text \<open>A name is an array of sixteen bytes; its hash reads it as four words of the machine, least significant byte first.\<close>

definition le_u32 :: "u8 list \<Rightarrow> nat \<Rightarrow> u32" where
  "le_u32 bs i = ucast (bs ! i) OR push_bit 8 (ucast (bs ! (i + 1)))
     OR push_bit 16 (ucast (bs ! (i + 2))) OR push_bit 24 (ucast (bs ! (i + 3)))"

definition name_hash :: "u8 list \<Rightarrow> u32" where
  "name_hash name = le_u32 name 0 XOR le_u32 name 4 XOR le_u32 name 8 XOR le_u32 name 12"

text \<open>\<^verbatim>\<open>strncmp\<close> compares up to the first zero.\<close>

definition c_str :: "u8 list \<Rightarrow> u8 list" where
  "c_str bs = takeWhile (\<lambda>b. b \<noteq> 0) bs"

definition key_matches :: "u8 list \<Rightarrow> keyvalue \<Rightarrow> bool" where
  "key_matches name node \<longleftrightarrow> kv_hash node = name_hash name \<and> c_str (kv_key node) = c_str name"

definition bucket_of :: "u8 list \<Rightarrow> nat" where
  "bucket_of name = unat (name_hash name) mod HASH_SIZE"

definition hash_search :: "hashmap \<Rightarrow> u8 list \<Rightarrow> keyvalue option" where
  "hash_search hash name = find (key_matches name) (hash (bucket_of name))"

definition hash_insert :: "hashmap \<Rightarrow> u8 list \<Rightarrow> keyvalue \<times> hashmap" where
  "hash_insert hash name = (
     let node = \<lparr>kv_key = name, kv_hash = name_hash name, kv_value = 0, kv_queue = None\<rparr> in
     (node, hash(bucket_of name := node # hash (bucket_of name))))"

definition hash_new :: hashmap where
  "hash_new = (\<lambda>_. [])"

text \<open>A write through the pointer that \<^verbatim>\<open>hash_search\<close> returned.\<close>

fun put_node :: "(keyvalue \<Rightarrow> bool) \<Rightarrow> keyvalue \<Rightarrow> keyvalue list \<Rightarrow> keyvalue list" where
  "put_node p node [] = []"
| "put_node p node (n # ns) = (if p n then node # ns else n # put_node p node ns)"

definition hash_put :: "hashmap \<Rightarrow> u8 list \<Rightarrow> keyvalue \<Rightarrow> hashmap" where
  "hash_put hash name node = hash(bucket_of name := put_node (key_matches name) node (hash (bucket_of name)))"

text \<open>The search of \<^verbatim>\<open>update_name\<close> and \<^verbatim>\<open>remote_send_name\<close>, which inserts a missing name.\<close>

definition hash_find_or_insert :: "hashmap \<Rightarrow> u8 list \<Rightarrow> keyvalue \<times> hashmap" where
  "hash_find_or_insert hash name = (case hash_search hash name of
     Some node \<Rightarrow> (node, hash) | None \<Rightarrow> hash_insert hash name)"

fun release_nodes :: "keyvalue list \<Rightarrow> harbor_call list option" where
  "release_nodes [] = Some []"
| "release_nodes (n # ns) = do { cs \<leftarrow> release_queue (kv_queue n); cs' \<leftarrow> release_nodes ns; Some (cs @ cs') }"

definition hash_delete :: "hashmap \<Rightarrow> harbor_call list option" where
  "hash_delete hash = release_nodes (concat (map hash [0..<HASH_SIZE]))"

subsection \<open>Harbors\<close>

definition close_harbor :: "harbor \<Rightarrow> nat \<Rightarrow> (harbor_call list \<times> harbor) option" where
  "close_harbor h i = (let s = hb_s h i in do {
     cs \<leftarrow> release_queue (sl_queue s);
     Some ((if sl_fd s \<noteq> 0 then [Socket_Close (sl_fd s)] else []) @ cs,
       put_slave i (s\<lparr>sl_status := STATUS_DOWN, sl_queue := None\<rparr>) h) })"

definition report_harbor_down :: "harbor \<Rightarrow> nat \<Rightarrow> harbor_call" where
  "report_harbor_down h i = Skynet_Send 0 (hb_slave h) PTYPE_TEXT 0 (string_bytes (''D '' @ dec_string (int i)))"

definition free_slave :: slave where
  "free_slave = \<lparr>sl_fd = 0, sl_queue = None, sl_status = STATUS_WAIT, sl_length = 0, sl_read = 0,
     sl_size = replicate 4 (Some 0), sl_recv = None\<rparr>"

definition harbor_create :: harbor where
  "harbor_create = \<lparr>hb_id = 0, hb_slave = 0, hb_map = hash_new, hb_s = (\<lambda>_. free_slave)\<rparr>"

fun release_slaves :: "harbor \<Rightarrow> nat list \<Rightarrow> harbor_call list option" where
  "release_slaves h [] = Some []"
| "release_slaves h (i # is) = (let s = hb_s h i in
     if sl_fd s \<noteq> 0 \<and> sl_status s \<noteq> STATUS_DOWN then do {
       (cs, h) \<leftarrow> close_harbor h i;
       cs' \<leftarrow> release_slaves h is;
       Some (cs @ cs') }
     else release_slaves h is)"

definition harbor_release :: "harbor \<Rightarrow> harbor_call list option" where
  "harbor_release h = do {
     cs \<leftarrow> release_slaves h [1..<REMOTE_MAX];
     cs' \<leftarrow> hash_delete (hb_map h);
     Some (cs @ cs') }"

subsection \<open>Messages on the wire\<close>

definition to_bigendian :: "u32 \<Rightarrow> u8 list" where
  "to_bigendian n = [ucast (drop_bit 24 n AND 0xff), ucast (drop_bit 16 n AND 0xff), ucast (drop_bit 8 n AND 0xff), ucast (n AND 0xff)]"

definition header_to_message :: "remote_message_header \<Rightarrow> u8 list" where
  "header_to_message header = to_bigendian (hd_source header) @ to_bigendian (hd_destination header) @ to_bigendian (hd_session header)"

definition from_bigendian :: "u8 list \<Rightarrow> u32" where
  "from_bigendian bs = push_bit 24 (ucast (bs ! 0)) OR push_bit 16 (ucast (bs ! 1)) OR push_bit 8 (ucast (bs ! 2)) OR ucast (bs ! 3)"

definition message_to_header :: "u8 list \<Rightarrow> remote_message_header" where
  "message_to_header bs = \<lparr>hd_source = from_bigendian bs, hd_destination = from_bigendian (drop 4 bs), hd_session = from_bigendian (drop 8 bs)\<rparr>"

definition forward_local_messsage :: "(harbor_call \<Rightarrow> bool) \<Rightarrow> harbor \<Rightarrow> u8 list \<Rightarrow> harbor_call list option" where
  "forward_local_messsage fails h msg = do {
     c_assert (HEADER_COOKIE_LENGTH \<le> length msg);
     let sz = length msg - HEADER_COOKIE_LENGTH; header = message_to_header (drop sz msg);
         type = drop_bit HANDLE_REMOTE_SHIFT (hd_destination header);
         destination = (hd_destination header AND HANDLE_MASK) OR push_bit HANDLE_REMOTE_SHIFT (of_int (hb_id h));
         send = Skynet_Send (hd_source header) destination (type OR PTYPE_TAG_DONTCOPY) (sint (hd_session header)) (take sz msg) in
     Some ([send] @ (if fails send then
       (if type \<noteq> PTYPE_ERROR then [Skynet_Send destination (hd_source header) PTYPE_ERROR (sint (hd_session header)) []] else [])
       @ [Skynet_Error (Log_Unknown_Destination destination (hd_source header) type)] else [])) }"

text \<open>\<^verbatim>\<open>send_remote\<close>; \<^verbatim>\<open>skynet_server.c\<close> has a function of this name, too.\<close>

definition harbor_send_remote :: "int \<Rightarrow> u8 list \<Rightarrow> remote_message_header \<Rightarrow> harbor_call list" where
  "harbor_send_remote fd buffer cookie = (
     let sz_header = length buffer + 12 in
     if sz_header > 2 ^ 32 - 1 then [Skynet_Error (Log_Too_Large (hd_source cookie) (hd_destination cookie))]
     else [Socket_Sendbuffer fd (to_bigendian (of_nat sz_header) @ buffer @ header_to_message cookie)])"

definition send_queued :: "int \<Rightarrow> harbor_msg \<Rightarrow> harbor_call list" where
  "send_queued fd m = harbor_send_remote fd (hm_buffer m) (hm_header m) @ [Skynet_Free (hm_buffer m)]"

definition dispatch_name_queue :: "harbor \<Rightarrow> u8 list \<Rightarrow> u32 \<Rightarrow> harbor_msg_queue \<Rightarrow> (harbor_call list \<times> harbor) option" where
  "dispatch_name_queue h key handle queue = (
     let harbor_id = unat (drop_bit HANDLE_REMOTE_SHIFT handle); s = hb_s h harbor_id; fd = sl_fd s in
     if fd = 0 then
       (if sl_status s = STATUS_DOWN then do {
          cs \<leftarrow> release_queue (Some queue);
          Some ([Skynet_Error (Log_Drop_Name (c_str key) harbor_id)] @ cs, h) }
        else do {
          q \<leftarrow> (case sl_queue s of
            None \<Rightarrow> Some queue
          | Some q \<Rightarrow> do { (ms, _) \<leftarrow> pop_all queue; push_all ms q });
          if harbor_id = unat (drop_bit HANDLE_REMOTE_SHIFT (hb_slave h)) then do {
            (ms, _) \<leftarrow> pop_all q;
            Some (map (\<lambda>m. Skynet_Send (hd_source (hm_header m)) handle
                (drop_bit HANDLE_REMOTE_SHIFT (hd_destination (hm_header m)) OR PTYPE_TAG_DONTCOPY)
                (sint (hd_session (hm_header m))) (hm_buffer m)) ms,
              put_slave harbor_id (s\<lparr>sl_queue := None\<rparr>) h) }
          else Some ([], put_slave harbor_id (s\<lparr>sl_queue := Some q\<rparr>) h) })
     else do {
       (ms, _) \<leftarrow> pop_all queue;
       Some (concat (map (\<lambda>m. send_queued fd (m\<lparr>hm_header := (hm_header m)\<lparr>hd_destination :=
           hd_destination (hm_header m) OR (handle AND HANDLE_MASK)\<rparr>\<rparr>)) ms), h) })"

definition dispatch_queue :: "harbor \<Rightarrow> nat \<Rightarrow> (harbor_call list \<times> harbor) option" where
  "dispatch_queue h i = (let s = hb_s h i; fd = sl_fd s in do {
     c_assert (fd \<noteq> 0);
     case sl_queue s of
       None \<Rightarrow> Some ([], h)
     | Some queue \<Rightarrow> do {
         (ms, _) \<leftarrow> pop_all queue;
         Some (concat (map (send_queued fd) ms), put_slave i (s\<lparr>sl_queue := None\<rparr>) h) } })"

subsection \<open>Data from a socket\<close>

text \<open>The three states of a connection that read data. Each step returns the bytes with which the loop goes on, or none
  when the function returns.\<close>

type_synonym socket_step = "harbor_call list \<times> harbor \<times> u8 list option"

definition handshake_step :: "harbor \<Rightarrow> nat \<Rightarrow> u8 list \<Rightarrow> socket_step option" where
  "handshake_step h i buffer = do {
     remote_id \<leftarrow> array_get buffer 0;
     let s = hb_s h i in
     if uint remote_id \<noteq> int i then do {
       (cs, h) \<leftarrow> close_harbor h i;
       Some ([Skynet_Error (Log_Invalid_Handshake i (sl_fd s) remote_id)] @ cs, h, None) }
     else do {
       (cs, h) \<leftarrow> dispatch_queue (put_slave i (s\<lparr>sl_status := STATUS_HEADER\<rparr>) h) i;
       Some (cs, h, Some (tl buffer)) } }"

definition be24 :: "u8 list \<Rightarrow> nat" where
  "be24 bs = unat (push_bit 16 (ucast (bs ! 1)) OR push_bit 8 (ucast (bs ! 2)) OR ucast (bs ! 3) :: u32)"

definition header_step :: "harbor \<Rightarrow> nat \<Rightarrow> u8 list \<Rightarrow> socket_step option" where
  "header_step h i buffer = (let s = hb_s h i in do {
     c_assert (sl_read s \<le> 4);
     let need = 4 - sl_read s in do {
     sz \<leftarrow> copy_at (sl_size s) (sl_read s) (map Some (take need buffer));
     if length buffer < need then
       Some ([], put_slave i (s\<lparr>sl_size := sz, sl_read := sl_read s + length buffer\<rparr>) h, None)
     else do {
       c_assert (None \<notin> set sz);
       let s = s\<lparr>sl_size := sz\<rparr>; size_bytes = map the sz in
       if size_bytes ! 0 \<noteq> 0 then do {
         (cs, h) \<leftarrow> close_harbor (put_slave i s h) i;
         Some ([Skynet_Error (Log_Too_Long i)] @ cs, h, None) }
       else (let s = s\<lparr>sl_length := be24 size_bytes, sl_read := 0, sl_recv := Some (block (be24 size_bytes)), sl_status := STATUS_CONTENT\<rparr>;
           rest = drop need buffer in
         Some ([], put_slave i s h, if rest = [] then None else Some rest)) } } })"

definition content_step :: "(harbor_call \<Rightarrow> bool) \<Rightarrow> harbor \<Rightarrow> nat \<Rightarrow> u8 list \<Rightarrow> socket_step option" where
  "content_step fails h i buffer = (let s = hb_s h i in do {
     c_assert (sl_read s \<le> sl_length s);
     recv \<leftarrow> sl_recv s;
     let need = sl_length s - sl_read s in do {
     recv \<leftarrow> copy_at recv (sl_read s) (map Some (take need buffer));
     if length buffer < need then
       Some ([], put_slave i (s\<lparr>sl_recv := Some recv, sl_read := sl_read s + length buffer\<rparr>) h, None)
     else do {
       c_assert (None \<notin> set recv);
       cs \<leftarrow> forward_local_messsage fails h (map the recv);
       let rest = drop need buffer in
       Some (cs, put_slave i (s\<lparr>sl_length := 0, sl_read := 0, sl_recv := None, sl_status := STATUS_HEADER\<rparr>) h,
         if rest = [] then None else Some rest) } } })"

definition data_step :: "(harbor_call \<Rightarrow> bool) \<Rightarrow> harbor \<Rightarrow> nat \<Rightarrow> u8 list \<Rightarrow> socket_step option" where
  "data_step fails h i buffer = (case sl_status (hb_s h i) of
     STATUS_HANDSHAKE \<Rightarrow> handshake_step h i buffer
   | STATUS_HEADER \<Rightarrow> header_step h i buffer
   | STATUS_CONTENT \<Rightarrow> content_step fails h i buffer
   | _ \<Rightarrow> Some ([], h, None))"

partial_function (option) data_loop :: "(harbor_call \<Rightarrow> bool) \<Rightarrow> harbor \<Rightarrow> nat \<Rightarrow> u8 list \<Rightarrow> (harbor_call list \<times> harbor) option" where
  "data_loop fails h i buffer = Option.bind (data_step fails h i buffer) (\<lambda>(cs, h', r).
     (case r of
        None \<Rightarrow> Some (cs, h')
      | Some rest \<Rightarrow> Option.bind (data_loop fails h' i rest) (\<lambda>(cs', h''). Some (cs @ cs', h''))))"

definition harbor_id :: "harbor \<Rightarrow> int \<Rightarrow> nat option" where
  "harbor_id h fd = find (\<lambda>i. sl_fd (hb_s h i) = fd) [1..<REMOTE_MAX]"

definition push_socket_data :: "(harbor_call \<Rightarrow> bool) \<Rightarrow> harbor \<Rightarrow> skynet_socket_message \<Rightarrow> (harbor_call list \<times> harbor) option" where
  "push_socket_data fails h m = do {
     c_assert (sm_type m = SKYNET_SOCKET_TYPE_DATA);
     case harbor_id h (sm_id m) of
       None \<Rightarrow> Some ([Skynet_Error (Log_Invalid_Fd (sm_id m))], h)
     | Some i \<Rightarrow> do {
         buffer \<leftarrow> sm_buffer m;
         c_assert (0 \<le> sm_ud m \<and> nat (sm_ud m) \<le> length buffer);
         data_loop fails h i (take (nat (sm_ud m)) buffer) } }"

subsection \<open>Messages to other harbors\<close>

definition update_name :: "harbor \<Rightarrow> u8 list \<Rightarrow> u32 \<Rightarrow> (harbor_call list \<times> harbor) option" where
  "update_name h name handle = (
     let (node, map) = hash_find_or_insert (hb_map h) name; node = node\<lparr>kv_value := handle\<rparr> in
     case kv_queue node of
       None \<Rightarrow> Some ([], h\<lparr>hb_map := hash_put map name node\<rparr>)
     | Some queue \<Rightarrow> do {
         (cs, h) \<leftarrow> dispatch_name_queue h (kv_key node) handle queue;
         Some (cs, h\<lparr>hb_map := hash_put map name (node\<lparr>kv_queue := None\<rparr>)\<rparr>) })"

text \<open>The result is 1 when the block of the message has a new owner.\<close>

definition remote_send_handle :: "harbor \<Rightarrow> u32 \<Rightarrow> u32 \<Rightarrow> u32 \<Rightarrow> int \<Rightarrow> u8 list \<Rightarrow> (int \<times> harbor_call list \<times> harbor) option" where
  "remote_send_handle h source destination type session msg = (
     let harbor_id = unat (drop_bit HANDLE_REMOTE_SHIFT destination); s = hb_s h harbor_id;
         header = \<lparr>hd_source = source, hd_destination = push_bit HANDLE_REMOTE_SHIFT type OR (destination AND HANDLE_MASK),
           hd_session = word_of_int session\<rparr> in
     if int harbor_id = hb_id h then
       Some (1, [Skynet_Send source destination (type OR PTYPE_TAG_DONTCOPY) session msg], h)
     else if sl_fd s = 0 \<or> sl_status s = STATUS_HANDSHAKE then
       (if sl_status s = STATUS_DOWN then
          Some (0, [Skynet_Send destination source PTYPE_ERROR 0 [],
            Skynet_Error (Log_Drop_Message harbor_id source destination session (length msg))], h)
        else do {
          q \<leftarrow> push_queue (case sl_queue s of None \<Rightarrow> new_queue | Some q \<Rightarrow> q) msg header;
          Some (1, [], put_slave harbor_id (s\<lparr>sl_queue := Some q\<rparr>) h) })
     else Some (0, harbor_send_remote (sl_fd s) msg header, h))"

definition remote_send_name :: "harbor \<Rightarrow> u32 \<Rightarrow> u8 list \<Rightarrow> u32 \<Rightarrow> int \<Rightarrow> u8 list \<Rightarrow> (int \<times> harbor_call list \<times> harbor) option" where
  "remote_send_name h source name type session msg = (
     let (node, map) = hash_find_or_insert (hb_map h) name; h = h\<lparr>hb_map := map\<rparr> in
     if kv_value node = 0 then do {
       q \<leftarrow> push_queue (case kv_queue node of None \<Rightarrow> new_queue | Some q \<Rightarrow> q) msg
         \<lparr>hd_source = source, hd_destination = push_bit HANDLE_REMOTE_SHIFT type, hd_session = word_of_int session\<rparr>;
       Some (1, [Skynet_Send 0 (hb_slave h) PTYPE_TEXT 0 (string_bytes ''Q '' @ c_str name)],
         h\<lparr>hb_map := hash_put map name (node\<lparr>kv_queue := Some q\<rparr>)\<rparr>) }
     else remote_send_handle h source (kv_value node) type session msg)"

subsection \<open>Commands\<close>

definition handshake :: "harbor \<Rightarrow> nat \<Rightarrow> harbor_call" where
  "handshake h i = Socket_Sendbuffer (sl_fd (hb_s h i)) [of_int (hb_id h)]"

text \<open>The conversions \<^verbatim>\<open>%d\<close> and \<^verbatim>\<open>%u\<close> of \<^verbatim>\<open>sscanf\<close>: a number and the text behind it.\<close>

definition scan_number :: "string \<Rightarrow> (string \<times> string) option" where
  "scan_number s = (
     let t = dropWhile c_isspace s; u = snd (read_sign t); n = length (takeWhile (\<lambda>c. digit_value c < 10) u) in
     if n = 0 then None else Some (take (length t - length u + n) t, drop n u))"

definition scan_int :: "string \<Rightarrow> (int \<times> string) option" where
  "scan_int s = map_option (\<lambda>(t, rest). (strtol_int 10 t, rest)) (scan_number s)"

definition scan_uint :: "string \<Rightarrow> (u32 \<times> string) option" where
  "scan_uint s = map_option (\<lambda>(t, rest). (
     let (neg, u) = read_sign t; n = read_digits 10 0 u in
     if n \<ge> 2 ^ 64 then - 1 else if neg then - of_nat n else of_nat n, rest)) (scan_number s)"

definition scan_two :: "string \<Rightarrow> int \<times> int" where
  "scan_two s = (case scan_int s of
     None \<Rightarrow> (0, 0)
   | Some (a, rest) \<Rightarrow> (case scan_int rest of None \<Rightarrow> (a, 0) | Some (b, _) \<Rightarrow> (a, b)))"

definition bytes_string :: "u8 list \<Rightarrow> string" where
  "bytes_string bs = map (\<lambda>b. char_of (unat b)) (c_str bs)"

definition connect_command :: "harbor \<Rightarrow> char \<Rightarrow> string \<Rightarrow> (harbor_call list \<times> harbor) option" where
  "connect_command h c buffer = (
     let (fd, i) = scan_two buffer; s = hb_s h (nat i) in
     if fd = 0 \<or> i \<le> 0 \<or> i \<ge> int REMOTE_MAX then Some ([Skynet_Error (Log_Invalid_Command c buffer)], h)
     else if sl_fd s \<noteq> 0 then Some ([Skynet_Error (Log_Exists i)], h)
     else (
       let s = s\<lparr>sl_fd := fd\<rparr>; cs = [Socket_Start fd, handshake (put_slave (nat i) s h) (nat i)] in
       if c = CHR ''S'' then Some (cs, put_slave (nat i) (s\<lparr>sl_status := STATUS_HANDSHAKE\<rparr>) h)
       else do {
         (cs', h) \<leftarrow> dispatch_queue (put_slave (nat i) (s\<lparr>sl_status := STATUS_HEADER\<rparr>) h) (nat i);
         Some (cs @ cs', h) }))"

definition harbor_command :: "harbor \<Rightarrow> u8 list \<Rightarrow> u32 \<Rightarrow> (harbor_call list \<times> harbor) option" where
  "harbor_command h msg source = do {
     c0 \<leftarrow> array_get msg 0;
     let c = char_of (unat c0); name = drop 2 msg in
     if c = CHR ''N'' then
       (if length msg < 3 \<or> length name \<ge> GLOBALNAME_LENGTH then Some ([Skynet_Error Log_Invalid_Name], h)
        else update_name h (name @ replicate (GLOBALNAME_LENGTH - length name) 0) source)
     else if c = CHR ''S'' \<or> c = CHR ''A'' then do {
       c_assert (2 \<le> length msg);
       connect_command h c (bytes_string name) }
     else Some ([Skynet_Error Log_Unknown_Command], h) }"

subsection \<open>The callback\<close>

text \<open>What the pointer of the callback points to: a socket message, a text, or a remote message with its block.\<close>

datatype harbor_input = In_Socket skynet_socket_message | In_Text "u8 list" | In_Remote remote_message "u8 list"

definition socket_event :: "(harbor_call \<Rightarrow> bool) \<Rightarrow> harbor \<Rightarrow> skynet_socket_message \<Rightarrow> (harbor_call list \<times> harbor) option" where
  "socket_event fails h m =
     (if sm_type m = SKYNET_SOCKET_TYPE_DATA then do {
        (cs, h) \<leftarrow> push_socket_data fails h m;
        buffer \<leftarrow> sm_buffer m;
        Some (cs @ [Skynet_Free buffer], h) }
      else if sm_type m = SKYNET_SOCKET_TYPE_ERROR \<or> sm_type m = SKYNET_SOCKET_TYPE_CLOSE then
        Some ([case harbor_id h (sm_id m) of
          Some i \<Rightarrow> report_harbor_down h i | None \<Rightarrow> Skynet_Error (Log_Unknown_Fd (sm_id m))], h)
      else if sm_type m = SKYNET_SOCKET_TYPE_CONNECT then Some ([], h)
      else if sm_type m = SKYNET_SOCKET_TYPE_WARNING then
        Some (case harbor_id h (sm_id m) of Some i \<Rightarrow> [Skynet_Error (Log_Unsent i (sm_ud m))] | None \<Rightarrow> [], h)
      else Some ([Skynet_Error (Log_Socket_Message PTYPE_SOCKET)], h))"

definition harbor_mainloop :: "(harbor_call \<Rightarrow> bool) \<Rightarrow> harbor \<Rightarrow> u32 \<Rightarrow> int \<Rightarrow> u32 \<Rightarrow> harbor_input \<Rightarrow> (harbor_call list \<times> harbor) option" where
  "harbor_mainloop fails h type session source msg =
     (if type = PTYPE_SOCKET then (case msg of In_Socket m \<Rightarrow> socket_event fails h m | _ \<Rightarrow> None)
      else if type = PTYPE_HARBOR then (case msg of In_Text t \<Rightarrow> harbor_command h t source | _ \<Rightarrow> None)
      else if type = PTYPE_SYSTEM then (case msg of
        In_Remote r data \<Rightarrow> do {
          c_assert (rm_sz r = of_nat (length data));
          (taken, cs, h) \<leftarrow> (if rm_handle r = 0 then remote_send_name h source (rm_name r) (rm_type r) session data
            else remote_send_handle h source (rm_handle r) (rm_type r) session data);
          Some (cs @ (if taken = 0 then [Skynet_Free data] else []), h) }
      | _ \<Rightarrow> None)
      else Some ([Skynet_Error (Log_Message source type)]
        @ (if session \<noteq> 0 \<and> type \<noteq> PTYPE_ERROR then [Skynet_Send 0 source PTYPE_ERROR session []] else []), h))"

definition harbor_init :: "harbor \<Rightarrow> string \<Rightarrow> int \<times> harbor" where
  "harbor_init h args = (
     let (i, slave) = (case scan_int args of
           None \<Rightarrow> (0, 0)
         | Some (a, rest) \<Rightarrow> (case scan_uint rest of None \<Rightarrow> (a, 0) | Some (b, _) \<Rightarrow> (a, b))) in
     if slave = 0 then (1, h) else (0, h\<lparr>hb_id := i, hb_slave := slave\<rparr>))"

end
