(* ===== verification/Harbor_Props.thy ===== *)
theory Harbor_Props
  imports Harbor_Service
begin

text \<open>
  What the harbor service does: its invariant, the reassembly of the data of a socket against a specification on the byte
  stream, the path of a message from one harbor to another, and the cases in which it does not do what it means to.
\<close>

subsection \<open>Slots\<close>

lemma hb_s_put [simp]: "hb_s (put_slave i s h) = (hb_s h)(i := s)"
  by (simp add: put_slave_def)

lemma put_slave_sel [simp]: "hb_id (put_slave i s h) = hb_id h" "hb_slave (put_slave i s h) = hb_slave h"
  "hb_map (put_slave i s h) = hb_map h"
  by (simp_all add: put_slave_def)

lemma put_slave_put [simp]: "put_slave i s' (put_slave i s h) = put_slave i s' h"
  by (simp add: put_slave_def)

lemma put_slave_same: "hb_s h i = s \<Longrightarrow> put_slave i s h = h"
  by (auto simp: put_slave_def)

lemma harbor_id_put: "sl_fd s = sl_fd (hb_s h i) \<Longrightarrow> harbor_id (put_slave i s h) fd = harbor_id h fd"
  unfolding harbor_id_def by (rule find_cong) auto

lemma harbor_idD: "harbor_id h fd = Some i \<Longrightarrow> sl_fd (hb_s h i) = fd \<and> 1 \<le> i \<and> i < 256"
  by (auto simp: harbor_id_def find_Some_iff REMOTE_MAX_def)

lemma forward_put [simp]: "forward_local_messsage fails (put_slave i s h) = forward_local_messsage fails h"
  by (simp add: fun_eq_iff forward_local_messsage_def)

text \<open>A copy into a block behind the part that is written.\<close>

lemma copy_at_append:
  assumes "take n buf = map Some xs" "length xs = n" "n + length ys \<le> length buf"
  shows "\<exists>buf'. copy_at buf n (map Some ys) = Some buf' \<and> length buf' = length buf \<and> take (n + length ys) buf' = map Some (xs @ ys)"
  using assms by (auto simp: copy_at_def min_def)

subsection \<open>The specification of a stream\<close>

text \<open>A message is its length in four bytes, the first of them zero, and its bytes. The result is the messages and the bytes behind
  them, or no bytes when the connection has to be closed. That a message without bytes is complete is noticed with the next byte.\<close>

function harbor_frames :: "u8 list \<Rightarrow> u8 list list \<times> u8 list option" where
  "harbor_frames bs =
     (if length bs < 4 then ([], Some bs)
      else if bs ! 0 \<noteq> 0 then ([], None)
      else if length bs < 4 + max 1 (be24 bs) then ([], Some bs)
      else (let (fs, r) = harbor_frames (drop (4 + be24 bs) bs) in (take (be24 bs) (drop 4 bs) # fs, r)))"
  by pat_completeness auto
termination by (relation "measure length") auto

declare harbor_frames.simps [simp del]

lemma be24_append: "4 \<le> length xs \<Longrightarrow> be24 (xs @ ys) = be24 xs"
  by (simp add: be24_def nth_append)

lemma harbor_frames_short: "length bs < 4 \<Longrightarrow> harbor_frames bs = ([], Some bs)"
  by (simp add: harbor_frames.simps)

lemma harbor_frames_bad: "4 \<le> length bs \<Longrightarrow> bs ! 0 \<noteq> 0 \<Longrightarrow> harbor_frames bs = ([], None)"
  by (simp add: harbor_frames.simps)

lemma harbor_frames_part: "bs ! 0 = 0 \<Longrightarrow> length bs < 4 + max 1 (be24 bs) \<Longrightarrow> harbor_frames bs = ([], Some bs)"
  by (simp add: harbor_frames.simps)

lemma harbor_frames_cons:
  "length l = 4 \<Longrightarrow> l ! 0 = 0 \<Longrightarrow> length body = be24 l \<Longrightarrow> body @ rest \<noteq> [] \<Longrightarrow>
   harbor_frames (l @ body @ rest) = (body # fst (harbor_frames rest), snd (harbor_frames rest))"
  by (subst harbor_frames.simps) (auto simp: be24_append nth_append case_prod_unfold Let_def max_def Suc_le_eq)

definition long_frame :: "u8 list \<Rightarrow> bool" where
  "long_frame f \<longleftrightarrow> HEADER_COOKIE_LENGTH \<le> length f"

definition long_frames :: "u8 list \<Rightarrow> bool" where
  "long_frames bs \<longleftrightarrow> list_all long_frame (fst (harbor_frames bs))"

text \<open>What a slot has taken from the stream and not passed on: the predicate relates the fields of the slot to these bytes, the
  function reads them off.\<close>

definition slot_pending :: "slave \<Rightarrow> u8 list" where
  "slot_pending s = (case sl_status s of
     STATUS_HEADER \<Rightarrow> map the (take (sl_read s) (sl_size s))
   | STATUS_CONTENT \<Rightarrow> map the (sl_size s) @ map the (take (sl_read s) (the (sl_recv s)))
   | _ \<Rightarrow> [])"

definition slot_holds :: "slave \<Rightarrow> u8 list \<Rightarrow> bool" where
  "slot_holds s p \<longleftrightarrow> length (sl_size s) = 4 \<and> None \<notin> set (sl_size s) \<and> (case sl_status s of
     STATUS_HEADER \<Rightarrow> length p < 4 \<and> sl_read s = length p \<and> take (length p) (sl_size s) = map Some p
   | STATUS_CONTENT \<Rightarrow> (\<exists>l body recv. p = l @ body \<and> sl_size s = map Some l \<and> length l = 4 \<and> l ! 0 = 0 \<and> sl_length s = be24 l \<and> sl_read s = length body \<and>
       length body \<le> be24 l \<and> (length body = be24 l \<longrightarrow> be24 l = 0) \<and> sl_recv s = Some recv \<and> length recv = be24 l \<and> take (length body) recv = map Some body)
   | _ \<Rightarrow> False)"

lemma slot_holds_contentI:
  "sl_status s = STATUS_CONTENT \<Longrightarrow> sl_size s = map Some l \<Longrightarrow> length l = 4 \<Longrightarrow> l ! 0 = 0 \<Longrightarrow> sl_length s = be24 l \<Longrightarrow>
   sl_read s = length body \<Longrightarrow> length body < be24 l \<or> length body = 0 \<and> be24 l = 0 \<Longrightarrow> sl_recv s = Some recv \<Longrightarrow>
   length recv = be24 l \<Longrightarrow> take (length body) recv = map Some body \<Longrightarrow> slot_holds s (l @ body)"
  unfolding slot_holds_def by (auto intro!: exI [of _ l] exI [of _ body])

lemma slot_holds_pending: "slot_holds s p \<Longrightarrow> p = slot_pending s"
  by (auto simp: slot_holds_def slot_pending_def comp_def split: status.splits)

subsection \<open>Reading the data\<close>

lemma header_copy:
  assumes "slot_holds s p" "sl_status s = STATUS_HEADER" "length p + length bs \<le> 4"
  obtains sz where "copy_at (sl_size s) (sl_read s) (map Some bs) = Some sz" "length sz = 4" "None \<notin> set sz"
    "take (length (p @ bs)) sz = map Some (p @ bs)"
proof -
  from assms have s: "take (length p) (sl_size s) = map Some p" "length (sl_size s) = 4" "sl_read s = length p" "None \<notin> set (sl_size s)"
    by (auto simp: slot_holds_def)
  from copy_at_append [OF s(1), of bs] s assms(3) obtain sz where
    sz: "copy_at (sl_size s) (length p) (map Some bs) = Some sz" "length sz = 4" "take (length p + length bs) sz = map Some (p @ bs)" by auto
  moreover have "None \<notin> set sz"
    using sz(1) s(4) by (auto simp: copy_at_def split: if_splits dest: in_set_takeD in_set_dropD)
  ultimately show ?thesis using that [of sz] s(3) by simp
qed

lemma header_step_short:
  assumes "slot_holds s p" "sl_status s = STATUS_HEADER" "hb_s h i = s" "length p + length buf < 4"
  shows "\<exists>s'. header_step h i buf = Some ([], put_slave i s' h, None) \<and> slot_holds s' (p @ buf) \<and>
    sl_status s' = STATUS_HEADER \<and> sl_fd s' = sl_fd s \<and> sl_queue s' = sl_queue s"
proof -
  from assms have r: "sl_read s = length p" by (simp add: slot_holds_def)
  from header_copy [OF assms(1,2), of buf] assms(4) obtain sz where sz:
    "copy_at (sl_size s) (sl_read s) (map Some buf) = Some sz" "length sz = 4" "None \<notin> set sz" "take (length (p @ buf)) sz = map Some (p @ buf)"
    by auto
  let ?s = "s\<lparr>sl_size := sz, sl_read := length p + length buf\<rparr>"
  have lt: "length buf < 4 - length p" and all: "take (4 - length p) buf = buf" "length p \<le> 4" using assms(4) by simp_all
  have "header_step h i buf = Some ([], put_slave i ?s h, None)"
    using assms(3) sz(1) r all(2) by (simp add: header_step_def Let_def c_assert_def lt all(1))
  moreover have "slot_holds ?s (p @ buf)" using sz assms by (simp add: slot_holds_def)
  ultimately show ?thesis using assms(2) by (intro exI [of _ ?s]) simp
qed

lemma header_step_full:
  assumes "slot_holds s p" "sl_status s = STATUS_HEADER" "hb_s h i = s" "4 \<le> length p + length buf"
    and queue: "sl_queue s = None" "sl_fd s \<noteq> 0" and l: "l = take 4 (p @ buf)" and rest: "rest = drop (4 - length p) buf"
  shows "l ! 0 \<noteq> 0 \<Longrightarrow> \<exists>s'. header_step h i buf = Some ([Skynet_Error (Log_Too_Long i), Socket_Close (sl_fd s)], put_slave i s' h, None) \<and>
      sl_status s' = STATUS_DOWN \<and> sl_fd s' = sl_fd s \<and> sl_queue s' = None"
    and "l ! 0 = 0 \<Longrightarrow> \<exists>s'. header_step h i buf = Some ([], put_slave i s' h, if rest = [] then None else Some rest) \<and>
      slot_holds s' l \<and> sl_status s' = STATUS_CONTENT \<and> sl_fd s' = sl_fd s \<and> sl_queue s' = None"
proof -
  from assms have r: "sl_read s = length p" "length p < 4" by (simp_all add: slot_holds_def)
  from header_copy [OF assms(1,2), of "take (4 - length p) buf"] assms(4) r obtain sz where sz:
    "copy_at (sl_size s) (sl_read s) (map Some (take (4 - length p) buf)) = Some sz" "length sz = 4" "None \<notin> set sz"
    "take 4 sz = map Some (p @ take (4 - length p) buf)" by auto
  have szl: "map the sz = l" "length l = 4" "sz = map Some l" using sz(2,4) r assms(4) by (auto simp: l map_idI comp_def)
  have nlt: "\<not> length buf < 4 - length p" and le: "length p \<le> 4" using assms(4) r(2) by simp_all
  have step: "header_step h i buf = (let s = s\<lparr>sl_size := sz\<rparr> in
       if l ! 0 \<noteq> 0 then do {
         (cs, h) \<leftarrow> close_harbor (put_slave i s h) i;
         Some ([Skynet_Error (Log_Too_Long i)] @ cs, h, None) }
       else Some ([], put_slave i (s\<lparr>sl_length := be24 l, sl_read := 0, sl_recv := Some (block (be24 l)), sl_status := STATUS_CONTENT\<rparr>) h,
         if rest = [] then None else Some rest))"
    using assms(3) sz(1,3) r(1) nlt le by (simp add: header_step_def Let_def c_assert_def szl(1) rest)
  show "l ! 0 \<noteq> 0 \<Longrightarrow> \<exists>s'. header_step h i buf = Some ([Skynet_Error (Log_Too_Long i), Socket_Close (sl_fd s)], put_slave i s' h, None) \<and>
      sl_status s' = STATUS_DOWN \<and> sl_fd s' = sl_fd s \<and> sl_queue s' = None"
    unfolding step using queue by (auto simp: close_harbor_def release_queue_def Let_def)
  show "l ! 0 = 0 \<Longrightarrow> \<exists>s'. header_step h i buf = Some ([], put_slave i s' h, if rest = [] then None else Some rest) \<and>
      slot_holds s' l \<and> sl_status s' = STATUS_CONTENT \<and> sl_fd s' = sl_fd s \<and> sl_queue s' = None"
    unfolding step using queue sz szl by (auto simp: Let_def slot_holds_def block_def)
qed

lemma forward_ok: "long_frame f \<Longrightarrow> forward_local_messsage fails h f = Some (the (forward_local_messsage fails h f))"
  by (simp add: forward_local_messsage_def long_frame_def c_assert_def Let_def)

lemma forward_short: "\<not> long_frame f \<Longrightarrow> forward_local_messsage fails h f = None"
  by (simp add: forward_local_messsage_def long_frame_def c_assert_def)

lemma content_step_ok:
  assumes "slot_holds s (l @ body)" "sl_status s = STATUS_CONTENT" "hb_s h i = s" "length l = 4"
    and f: "f = take (be24 l) (body @ buf)" and rest: "rest = drop (be24 l - length body) buf"
  shows "length body + length buf < be24 l \<Longrightarrow> \<exists>s'. content_step fails h i buf = Some ([], put_slave i s' h, None) \<and>
      slot_holds s' (l @ body @ buf) \<and> sl_status s' = STATUS_CONTENT \<and> sl_fd s' = sl_fd s \<and> sl_queue s' = sl_queue s"
    and "be24 l \<le> length body + length buf \<Longrightarrow> long_frame f \<Longrightarrow> \<exists>s'. content_step fails h i buf =
        Some (the (forward_local_messsage fails h f), put_slave i s' h, if rest = [] then None else Some rest) \<and>
      slot_holds s' [] \<and> sl_status s' = STATUS_HEADER \<and> sl_fd s' = sl_fd s \<and> sl_queue s' = sl_queue s"
    and "be24 l \<le> length body + length buf \<Longrightarrow> \<not> long_frame f \<Longrightarrow> content_step fails h i buf = None"
proof -
  from assms(1,2) obtain l' body' recv where r0: "l @ body = l' @ body'" "length l' = 4" "sl_length s = be24 l'" "sl_read s = length body'"
    "length body' \<le> be24 l'" "sl_recv s = Some recv" "length recv = be24 l'" "take (length body') recv = map Some body'" "l' ! 0 = 0"
    "sl_size s = map Some l'" "None \<notin> set (sl_size s)"
    unfolding slot_holds_def by auto
  from r0(1,2) assms(4) have "l' = l" "body' = body" by simp_all
  with r0 assms(4) have r: "sl_length s = be24 l" "sl_read s = length body" "length body \<le> be24 l" "sl_recv s = Some recv"
    "length recv = be24 l" "take (length body) recv = map Some body" "l ! 0 = 0" "sl_size s = map Some l" "length (sl_size s) = 4" "None \<notin> set (sl_size s)"
    by simp_all
  have copy: "\<exists>recv'. copy_at recv (length body) (map Some bs) = Some recv' \<and> length recv' = be24 l \<and>
      take (length body + length bs) recv' = map Some (body @ bs)" if "length body + length bs \<le> be24 l" for bs
    using copy_at_append [OF r(6), of bs] r that by auto
  show "\<exists>s'. content_step fails h i buf = Some ([], put_slave i s' h, None) \<and>
      slot_holds s' (l @ body @ buf) \<and> sl_status s' = STATUS_CONTENT \<and> sl_fd s' = sl_fd s \<and> sl_queue s' = sl_queue s"
    if lt: "length body + length buf < be24 l"
  proof -
    from copy [of buf] lt obtain recv' where c: "copy_at recv (length body) (map Some buf) = Some recv'" "length recv' = be24 l"
      "take (length body + length buf) recv' = map Some (body @ buf)" by auto
    let ?s = "s\<lparr>sl_recv := Some recv', sl_read := length body + length buf\<rparr>"
    have lt': "length buf < be24 l - length body" and all: "take (be24 l - length body) buf = buf" using lt by simp_all
    have "content_step fails h i buf = Some ([], put_slave i ?s h, None)"
      using r(1-4) c(1) assms(3) by (simp add: content_step_def Let_def c_assert_def lt' all)
    moreover have "slot_holds ?s (l @ body @ buf)"
      using r c lt assms(2,4) by (intro slot_holds_contentI [where body = "body @ buf"]) simp_all
    ultimately show ?thesis using assms(2) by (intro exI [of _ ?s]) simp
  qed
  have full: "\<exists>s'. content_step fails h i buf = Option.bind (forward_local_messsage fails h f)
        (\<lambda>cs. Some (cs, put_slave i s' h, if rest = [] then None else Some rest)) \<and>
      slot_holds s' [] \<and> sl_status s' = STATUS_HEADER \<and> sl_fd s' = sl_fd s \<and> sl_queue s' = sl_queue s"
    if ge: "be24 l \<le> length body + length buf"
  proof -
    let ?bs = "take (be24 l - length body) buf"
    from copy [of ?bs] ge r(3) obtain recv' where c: "copy_at recv (length body) (map Some ?bs) = Some recv'" "length recv' = be24 l"
      "take (be24 l) recv' = map Some (body @ ?bs)" by auto
    have recv: "recv' = map Some f" using c(2,3) r(3) by (simp add: f)
    let ?s = "s\<lparr>sl_length := 0, sl_read := 0, sl_recv := None, sl_status := STATUS_HEADER\<rparr>"
    have nlt: "\<not> length buf < be24 l - length body" using ge by simp
    have "content_step fails h i buf = Option.bind (forward_local_messsage fails h f)
        (\<lambda>cs. Some (cs, put_slave i ?s h, if rest = [] then None else Some rest))"
      using r(1-4) c(1) assms(3) nlt by (simp add: content_step_def Let_def c_assert_def recv rest comp_def)
    moreover have "slot_holds ?s []" using r by (simp add: slot_holds_def)
    ultimately show ?thesis by (intro exI [of _ ?s]) simp
  qed
  show "\<exists>s'. content_step fails h i buf =
        Some (the (forward_local_messsage fails h f), put_slave i s' h, if rest = [] then None else Some rest) \<and>
      slot_holds s' [] \<and> sl_status s' = STATUS_HEADER \<and> sl_fd s' = sl_fd s \<and> sl_queue s' = sl_queue s"
    if "be24 l \<le> length body + length buf" "long_frame f"
    using full [OF that(1)] forward_ok [OF that(2), of fails h] by (metis bind.bind_lunit)
  show "content_step fails h i buf = None" if "be24 l \<le> length body + length buf" "\<not> long_frame f"
    using full [OF that(1)] forward_short [OF that(2), of fails h] by (metis bind_eq_None_conv)
qed

definition forwarded :: "(harbor_call \<Rightarrow> bool) \<Rightarrow> harbor \<Rightarrow> u8 list list \<Rightarrow> harbor_call list" where
  "forwarded fails h fs = concat (map (\<lambda>f. the (forward_local_messsage fails h f)) fs)"

definition ending :: "nat \<Rightarrow> int \<Rightarrow> u8 list option \<Rightarrow> harbor_call list" where
  "ending i fd r = (case r of None \<Rightarrow> [Skynet_Error (Log_Too_Long i), Socket_Close fd] | Some _ \<Rightarrow> [])"

definition slot_after :: "slave \<Rightarrow> u8 list option \<Rightarrow> bool" where
  "slot_after s r \<longleftrightarrow> (case r of None \<Rightarrow> sl_status s = STATUS_DOWN | Some p \<Rightarrow> slot_holds s p)"

lemma forwarded_simps [simp]: "forwarded fails h [] = []"
  "forwarded fails h (f # fs) = the (forward_local_messsage fails h f) @ forwarded fails h fs"
  "forwarded fails (put_slave i s h) fs = forwarded fails h fs"
  "forwarded fails h (fs @ gs) = forwarded fails h fs @ forwarded fails h gs"
  by (simp_all add: forwarded_def)

lemma ending_Some [simp]: "ending i fd (Some p) = []"
  by (simp add: ending_def)

lemma slot_holds_cases:
  assumes "slot_holds s p"
  obtains "sl_status s = STATUS_HEADER" "length p < 4"
    | l body where "sl_status s = STATUS_CONTENT" "p = l @ body" "length l = 4" "l ! 0 = 0" "length body \<le> be24 l"
      "length body = be24 l \<Longrightarrow> be24 l = 0"
  using assms unfolding slot_holds_def by (cases "sl_status s") auto

definition slot_rank :: "slave \<Rightarrow> u8 list \<Rightarrow> nat" where
  "slot_rank s buf = 2 * length buf + (if sl_status s = STATUS_CONTENT then 1 else 0)"

lemma data_loop_stop: "data_step fails h i buf = Some (cs, h', None) \<Longrightarrow> data_loop fails h i buf = Some (cs, h')"
  by (simp add: data_loop.simps [of fails h i buf])

lemma data_loop_on: "data_step fails h i buf = Some (cs, h', Some rest) \<Longrightarrow> data_loop fails h' i rest = Some (cs', h'') \<Longrightarrow>
    data_loop fails h i buf = Some (cs @ cs', h'')"
  by (simp add: data_loop.simps [of fails h i buf])

lemma data_loop_none: "data_step fails h i buf = None \<Longrightarrow> data_loop fails h i buf = None"
  "data_step fails h i buf = Some (cs, h', Some rest) \<Longrightarrow> data_loop fails h' i rest = None \<Longrightarrow> data_loop fails h i buf = None"
  by (simp_all add: data_loop.simps [of fails h i buf])

text \<open>One turn of the loop: either it is the last one, and everything is said about the bytes, or a shorter task is left, or the turn
  fails on a message that is too short.\<close>

definition data_round :: "(harbor_call \<Rightarrow> bool) \<Rightarrow> harbor \<Rightarrow> nat \<Rightarrow> slave \<Rightarrow> u8 list \<Rightarrow> u8 list \<Rightarrow> bool" where
  "data_round fails h i s p buf \<longleftrightarrow>
    (case data_step fails h i buf of
       None \<Rightarrow> \<not> long_frames (p @ buf)
     | Some (cs, h', r) \<Rightarrow> \<exists>s'. h' = put_slave i s' h \<and> sl_fd s' = sl_fd s \<and> sl_queue s' = None \<and> (case r of
         None \<Rightarrow> cs = forwarded fails h (fst (harbor_frames (p @ buf))) @ ending i (sl_fd s) (snd (harbor_frames (p @ buf))) \<and>
           slot_after s' (snd (harbor_frames (p @ buf))) \<and> long_frames (p @ buf)
       | Some rest \<Rightarrow> rest \<noteq> [] \<and> (\<exists>p' fs. slot_holds s' p' \<and> slot_rank s' rest < slot_rank s buf \<and> cs = forwarded fails h fs \<and>
           list_all long_frame fs \<and>
           harbor_frames (p @ buf) = (fs @ fst (harbor_frames (p' @ rest)), snd (harbor_frames (p' @ rest))))))"

lemma data_roundI: "data_step fails h i buf = Some (cs, put_slave i s' h, r) \<Longrightarrow> sl_fd s' = sl_fd s \<Longrightarrow> sl_queue s' = None \<Longrightarrow>
    (\<And>rest. r = Some rest \<Longrightarrow> rest \<noteq> [] \<and> slot_holds s' p' \<and> slot_rank s' rest < slot_rank s buf \<and> cs = forwarded fails h fs \<and>
         list_all long_frame fs \<and>
         harbor_frames (p @ buf) = (fs @ fst (harbor_frames (p' @ rest)), snd (harbor_frames (p' @ rest)))) \<Longrightarrow>
    (r = None \<Longrightarrow> cs = forwarded fails h (fst (harbor_frames (p @ buf))) @ ending i (sl_fd s) (snd (harbor_frames (p @ buf))) \<and>
         slot_after s' (snd (harbor_frames (p @ buf))) \<and> long_frames (p @ buf)) \<Longrightarrow> data_round fails h i s p buf"
  unfolding data_round_def by (cases r) (auto intro!: exI [of _ s'] exI [of _ p'] exI [of _ fs])

lemma header_round:
  assumes prems: "slot_holds s p" "sl_status s = STATUS_HEADER" "hb_s h i = s" "sl_queue s = None" "sl_fd s \<noteq> 0"
  shows "data_round fails h i s p buf"
proof -
  have step: "data_step fails h i buf = header_step h i buf" using prems(2,3) by (simp add: data_step_def)
  have p4: "length p < 4" using prems(1,2) by (simp add: slot_holds_def)
  show ?thesis
  proof (cases "length p + length buf < 4")
    case True
    from header_step_short [OF prems(1-3) True] prems(4) obtain s' where "header_step h i buf = Some ([], put_slave i s' h, None)"
      "slot_holds s' (p @ buf)" "sl_fd s' = sl_fd s" "sl_queue s' = None" by auto
    with True show ?thesis by (intro data_roundI) (auto simp: step harbor_frames_short slot_after_def long_frames_def)
  next
    case False
    define l rest where "l = take 4 (p @ buf)" and "rest = drop (4 - length p) buf"
    note full = header_step_full [OF prems(1-3) _ prems(4,5) l_def rest_def]
    have l: "p @ buf = l @ rest" "length l = 4" using False p4 by (simp_all add: l_def rest_def)
    show ?thesis
    proof (cases "l ! 0 = 0")
      case bad: False
      then have F: "harbor_frames (p @ buf) = ([], None)" using l by (simp add: harbor_frames_bad nth_append)
      from full(1) [OF _ bad] False obtain s' where "header_step h i buf = Some (ending i (sl_fd s) None, put_slave i s' h, None)"
        "sl_status s' = STATUS_DOWN" "sl_fd s' = sl_fd s" "sl_queue s' = None" by (auto simp: ending_def)
      with F show ?thesis by (intro data_roundI) (auto simp: step slot_after_def long_frames_def)
    next
      case good: True
      from full(2) [OF _ this] False obtain s' where
        s': "header_step h i buf = Some ([], put_slave i s' h, if rest = [] then None else Some rest)"
        "slot_holds s' l" "sl_status s' = STATUS_CONTENT" "sl_fd s' = sl_fd s" "sl_queue s' = None" by auto
      have "slot_rank s' rest < slot_rank s buf" if "rest \<noteq> []"
        using prems(2) p4 that s'(3) by (auto simp: slot_rank_def rest_def)
      moreover have "harbor_frames l = ([], Some l)"
        using l good by (intro harbor_frames_part) auto
      ultimately show ?thesis
        using s' l(1) by (intro data_roundI [where p' = l and fs = "[]"]) (auto simp: step slot_after_def long_frames_def split: if_splits)
    qed
  qed
qed

lemma content_round:
  assumes prems: "slot_holds s p" "sl_status s = STATUS_CONTENT" "hb_s h i = s" "sl_queue s = None" and "buf \<noteq> []"
  shows "data_round fails h i s p buf"
proof -
  have step: "data_step fails h i buf = content_step fails h i buf" using prems(2,3) by (simp add: data_step_def)
  from prems(1,2) obtain l body where p: "p = l @ body" "length l = 4" "l ! 0 = 0" "length body \<le> be24 l"
    by (auto simp: slot_holds_def)
  define f rest where "f = take (be24 l) (body @ buf)" and "rest = drop (be24 l - length body) buf"
  note cstep = content_step_ok [OF prems(1) [unfolded p(1)] prems(2,3) p(2) f_def rest_def]
  show ?thesis
  proof (cases "length body + length buf < be24 l")
    case True
    have F: "harbor_frames (p @ buf) = ([], Some (p @ buf))"
      using p True by (intro harbor_frames_part) (simp_all add: nth_append be24_append)
    from cstep(1) [OF True, of fails] prems(4) p(1) obtain s' where "content_step fails h i buf = Some ([], put_slave i s' h, None)"
      "slot_holds s' (p @ buf)" "sl_fd s' = sl_fd s" "sl_queue s' = None" by auto
    with F show ?thesis by (intro data_roundI) (auto simp: step slot_after_def long_frames_def)
  next
    case False
    have fr: "p @ buf = l @ f @ rest" "length f = be24 l" using False p(1,4) by (simp_all add: f_def rest_def)
    have "f @ rest \<noteq> []" using fr(1) p(1) assms(5) by auto
    note F = harbor_frames_cons [OF p(2,3) fr(2) this, folded fr(1)]
    show ?thesis
    proof (cases "long_frame f")
      case True
      from cstep(2) [OF _ True, of fails] False prems(4) obtain s' where
        s': "content_step fails h i buf = Some (forwarded fails h [f], put_slave i s' h, if rest = [] then None else Some rest)"
        "slot_holds s' []" "sl_status s' = STATUS_HEADER" "sl_fd s' = sl_fd s" "sl_queue s' = None" by (auto simp: forwarded_def)
      have "slot_rank s' rest < slot_rank s buf" using prems(2) s'(3) by (simp add: slot_rank_def rest_def)
      with s' F True show ?thesis
        by (intro data_roundI [where p' = "[]" and fs = "[f]"]) (auto simp: step slot_after_def harbor_frames_short long_frames_def split: if_splits)
    next
      case short: False
      from cstep(3) [OF _ short, of fails] False F short show ?thesis by (simp add: data_round_def step long_frames_def)
    qed
  qed
qed

text \<open>The loop, on any bytes: it forwards the messages of the stream, or fails when one of them is too short.\<close>

lemma data_loop_any:
  assumes "slot_holds s p" "hb_s h i = s" "sl_queue s = None" "sl_fd s \<noteq> 0" "buf = [] \<Longrightarrow> sl_status s = STATUS_HEADER"
  shows "if long_frames (p @ buf) then \<exists>s'. data_loop fails h i buf = Some (forwarded fails h (fst (harbor_frames (p @ buf)))
      @ ending i (sl_fd s) (snd (harbor_frames (p @ buf))), put_slave i s' h) \<and>
    slot_after s' (snd (harbor_frames (p @ buf))) \<and> sl_fd s' = sl_fd s \<and> sl_queue s' = None
    else data_loop fails h i buf = None"
  using assms
proof (induction "slot_rank s buf" arbitrary: s p h buf rule: less_induct)
  case less
  have "data_round fails h i s p buf"
    using header_round [OF less.prems(1) _ less.prems(2-4)] content_round [OF less.prems(1) _ less.prems(2,3)] less.prems(5)
      slot_holds_cases [OF less.prems(1)] by (metis status.distinct)
  note round = this [unfolded data_round_def]
  show ?case
  proof (cases "data_step fails h i buf")
    case None
    with round show ?thesis by (simp add: data_loop_none(1))
  next
    case (Some st)
    then obtain cs h' r where st: "data_step fails h i buf = Some (cs, h', r)" by (cases st) auto
    with round obtain s' where s': "h' = put_slave i s' h" "sl_fd s' = sl_fd s" "sl_queue s' = None" by auto
    show ?thesis
    proof (cases r)
      case None
      with round st data_loop_stop [of fails h i buf] show ?thesis by auto
    next
      case (Some rest)
      with round st obtain s' p' fs where p': "h' = put_slave i s' h" "sl_fd s' = sl_fd s" "sl_queue s' = None" "slot_holds s' p'"
        "slot_rank s' rest < slot_rank s buf" "cs = forwarded fails h fs" "list_all long_frame fs" "rest \<noteq> []"
        "harbor_frames (p @ buf) = (fs @ fst (harbor_frames (p' @ rest)), snd (harbor_frames (p' @ rest)))" by auto
      then have long: "long_frames (p @ buf) = long_frames (p' @ rest)" by (simp add: long_frames_def)
      note IH = less.hyps [OF p'(5,4), of "put_slave i s' h"]
      show ?thesis
      proof (cases "long_frames (p' @ rest)")
        case True
        with IH p'(2,3,8) less.prems(4) obtain s'' where
          "data_loop fails (put_slave i s' h) i rest = Some (forwarded fails h (fst (harbor_frames (p' @ rest)))
             @ ending i (sl_fd s) (snd (harbor_frames (p' @ rest))), put_slave i s'' h)"
          "slot_after s'' (snd (harbor_frames (p' @ rest)))" "sl_fd s'' = sl_fd s" "sl_queue s'' = None" by auto
        with data_loop_on [of fails h i buf cs "put_slave i s' h" rest] st Some p'(1,6,9) long True show ?thesis by auto
      next
        case False
        with IH p'(2,3,8) less.prems(4) have "data_loop fails (put_slave i s' h) i rest = None" by simp
        with data_loop_none(2) [of fails h i buf cs "put_slave i s' h" rest] st Some p'(1) long False show ?thesis by simp
      qed
    qed
  qed
qed

lemma data_loop_frames:
  assumes "slot_holds s p" "hb_s h i = s" "sl_queue s = None" "sl_fd s \<noteq> 0" "buf = [] \<Longrightarrow> sl_status s = STATUS_HEADER" "long_frames (p @ buf)"
  shows "\<exists>s'. data_loop fails h i buf = Some (forwarded fails h (fst (harbor_frames (p @ buf)))
      @ ending i (sl_fd s) (snd (harbor_frames (p @ buf))), put_slave i s' h) \<and>
    slot_after s' (snd (harbor_frames (p @ buf))) \<and> sl_fd s' = sl_fd s \<and> sl_queue s' = None"
  using data_loop_any [where fails = fails, OF assms(1-5)] assms(6) by simp

subsection \<open>Chunks\<close>

lemma harbor_frames_append:
  "harbor_frames (xs @ ys) = (case snd (harbor_frames xs) of
     None \<Rightarrow> (fst (harbor_frames xs), None)
   | Some p \<Rightarrow> (fst (harbor_frames xs) @ fst (harbor_frames (p @ ys)), snd (harbor_frames (p @ ys))))"
proof (induction xs rule: harbor_frames.induct)
  case (1 bs)
  show ?case
  proof (cases "length bs < 4 \<or> bs ! 0 \<noteq> 0 \<or> length bs < 4 + max 1 (be24 bs)")
    case True
    then consider "length bs < 4" | "4 \<le> length bs" "bs ! 0 \<noteq> 0" | "bs ! 0 = 0" "length bs < 4 + max 1 (be24 bs)" by fastforce
    then show ?thesis
    proof cases
      case 2
      then have "(bs @ ys) ! 0 \<noteq> 0" "4 \<le> length (bs @ ys)" by (auto simp: nth_append)
      from harbor_frames_bad [OF this(2,1)] harbor_frames_bad [OF 2] show ?thesis by simp
    qed (simp_all add: harbor_frames_short harbor_frames_part)
  next
    case False
    define l body rest where "l = take 4 bs" and "body = take (be24 bs) (drop 4 bs)" and "rest = drop (4 + be24 bs) bs"
    have bs: "bs = l @ body @ rest" by (simp add: l_def body_def rest_def) (metis append_take_drop_id add.commute drop_drop)
    have l: "length l = 4" "l ! 0 = 0" using False by (simp_all add: l_def)
    have "be24 bs = be24 l" by (simp add: l_def be24_def)
    with False have body: "length body = be24 l" by (auto simp: body_def)
    have ys: "bs @ ys = l @ body @ (rest @ ys)" by (subst bs) simp
    from False have conds: "\<not> length bs < 4" "\<not> bs ! 0 \<noteq> 0" "\<not> length bs < 4 + max 1 (be24 bs)" by auto
    have "length bs = 4 + length (body @ rest)" using l(1) by (subst bs) simp
    with conds(3) have ne: "body @ rest \<noteq> []" "body @ rest @ ys \<noteq> []" by auto
    from 1 [OF conds] harbor_frames_cons [OF l body ne(1), folded bs] harbor_frames_cons [OF l body ne(2), folded ys]
    show ?thesis unfolding rest_def [symmetric] by (simp split: option.split)
  qed
qed

definition data_message :: "int \<Rightarrow> u8 list \<Rightarrow> skynet_socket_message" where
  "data_message fd bs = \<lparr>sm_type = SKYNET_SOCKET_TYPE_DATA, sm_id = fd, sm_ud = int (length bs), sm_buffer = Some bs, sm_padding = []\<rparr>"

definition receive :: "(harbor_call \<Rightarrow> bool) \<Rightarrow> int \<Rightarrow> harbor \<Rightarrow> u8 list \<Rightarrow> (harbor_call list \<times> harbor) option" where
  "receive fails fd h bs = push_socket_data fails h (data_message fd bs)"

lemma receive_loop: "harbor_id h fd = Some i \<Longrightarrow> receive fails fd h bs = data_loop fails h i bs"
  by (simp add: receive_def push_socket_data_def data_message_def c_assert_def)

lemma receive_down:
  "harbor_id h fd = Some i \<Longrightarrow> sl_status (hb_s h i) = STATUS_DOWN \<Longrightarrow> run_steps (receive fails fd) h cs = Some ([], h)"
  by (induction cs) (simp_all add: receive_loop data_loop.simps [of fails h i] data_step_def)

lemma slot_holds_frames:
  assumes "slot_holds s p"
  shows "harbor_frames p = ([], Some p)"
  using assms
proof (cases rule: slot_holds_cases)
  case (2 l body)
  then show ?thesis by (cases "length body = be24 l") (auto simp: harbor_frames_part nth_append be24_append)
qed (simp add: harbor_frames_short)

lemma long_frames_append:
  "long_frames (xs @ ys) \<longleftrightarrow> long_frames xs \<and> (case snd (harbor_frames xs) of None \<Rightarrow> True | Some p \<Rightarrow> long_frames (p @ ys))"
  by (simp add: long_frames_def harbor_frames_append split: option.split)

lemma receive_any:
  assumes "slot_holds s p" "hb_s h i = s" "sl_queue s = None" "sl_fd s \<noteq> 0" "harbor_id h fd = Some i" "[] \<notin> set cs"
  shows "if long_frames (p @ concat cs) then \<exists>s'. run_steps (receive fails fd) h cs = Some (forwarded fails h (fst (harbor_frames (p @ concat cs)))
      @ ending i fd (snd (harbor_frames (p @ concat cs))), put_slave i s' h) \<and>
    slot_after s' (snd (harbor_frames (p @ concat cs))) \<and> sl_fd s' = sl_fd s
    else run_steps (receive fails fd) h cs = None"
  using assms
proof (induction cs arbitrary: s p h)
  case Nil
  with slot_holds_frames [OF Nil(1)] show ?case by (auto simp: put_slave_same slot_after_def long_frames_def intro!: exI [of _ s])
next
  case (Cons c cs)
  let ?F = "harbor_frames (p @ c)"
  have fd: "sl_fd s = fd" using harbor_idD [OF Cons.prems(5)] Cons.prems(2) by simp
  have c: "c = [] \<Longrightarrow> sl_status s = STATUS_HEADER" and cs: "[] \<notin> set cs" using Cons.prems(6) by auto
  note app = harbor_frames_append [of "p @ c" "concat cs"] and long = long_frames_append [of "p @ c" "concat cs"]
  note loop = data_loop_any [OF Cons.prems(1-4), of c fails, OF c]
  show ?case
  proof (cases "long_frames (p @ c)")
    case False
    with loop long Cons.prems(5) show ?thesis by (simp add: receive_loop)
  next
    case True
    with loop fd obtain s' where
      s': "data_loop fails h i c = Some (forwarded fails h (fst ?F) @ ending i fd (snd ?F), put_slave i s' h)"
      "slot_after s' (snd ?F)" "sl_fd s' = fd" "sl_queue s' = None" by auto
    have id: "harbor_id (put_slave i s' h) fd = Some i"
      using Cons.prems(2,5) fd s'(3) by (simp add: harbor_id_put)
    show ?thesis
    proof (cases "snd ?F")
      case None
      with receive_down [OF id, of fails cs] s' Cons.prems(5) app long True show ?thesis
        by (intro if_bool_eq_conj [THEN iffD2] conjI impI exI [of _ s']) (simp_all add: receive_loop slot_after_def fd)
    next
      case (Some q)
      have q: "slot_holds s' q" "sl_fd s' \<noteq> 0" using s' Some fd Cons.prems(4) by (auto simp: slot_after_def)
      have lq: "long_frames (p @ concat (c # cs)) = long_frames (q @ concat cs)" using long True Some by simp
      note IH = Cons.IH [OF q(1) _ s'(4) q(2) _ cs, of "put_slave i s' h"]
      show ?thesis
      proof (cases "long_frames (q @ concat cs)")
        case True
        with IH id obtain s'' where "run_steps (receive fails fd) (put_slave i s' h) cs = Some (forwarded fails h (fst (harbor_frames (q @ concat cs)))
          @ ending i fd (snd (harbor_frames (q @ concat cs))), put_slave i s'' h)" "slot_after s'' (snd (harbor_frames (q @ concat cs)))" "sl_fd s'' = sl_fd s'"
          by auto
        with s' Some Cons.prems(5) app lq True show ?thesis
          by (intro if_bool_eq_conj [THEN iffD2] conjI impI exI [of _ s'']) (simp_all add: receive_loop fd s'(3))
      next
        case False
        with IH id have "run_steps (receive fails fd) (put_slave i s' h) cs = None" by simp
        with lq False s'(1) Cons.prems(5) show ?thesis by (simp add: receive_loop)
      qed
    qed
  qed
qed

lemma receive_frames:
  assumes "slot_holds s p" "hb_s h i = s" "sl_queue s = None" "sl_fd s \<noteq> 0" "harbor_id h fd = Some i" "[] \<notin> set cs"
    and "long_frames (p @ concat cs)"
  shows "\<exists>s'. run_steps (receive fails fd) h cs = Some (forwarded fails h (fst (harbor_frames (p @ concat cs)))
      @ ending i fd (snd (harbor_frames (p @ concat cs))), put_slave i s' h) \<and>
    slot_after s' (snd (harbor_frames (p @ concat cs))) \<and> sl_fd s' = sl_fd s"
  using receive_any [OF assms(1-6), of fails] assms(7) by simp

subsection \<open>The bytes of a message\<close>

lemma mask8: "(0xff :: u32) = mask 8" by (simp add: mask_eq_exp_minus_1)

lemma handle_mask: "HANDLE_MASK = mask 24" by (simp add: HANDLE_MASK_def mask_eq_exp_minus_1)

lemma ucast_and_255: "ucast (x AND 0xff :: u32) = (ucast x :: u8)"
  by (rule bit_word_eqI) (simp only: mask8, simp add: bit_simps)

lemma to_bigendian_ucast: "to_bigendian n = [ucast (drop_bit 24 n), ucast (drop_bit 16 n), ucast (drop_bit 8 n), ucast n]"
  unfolding to_bigendian_def ucast_and_255 ..

lemma from_to_bigendian: "from_bigendian (to_bigendian n @ bs) = n"
proof (rule bit_word_eqI)
  fix k assume "k < LENGTH(32)"
  then have "k < 8 \<or> 8 \<le> k \<and> k < 16 \<or> 16 \<le> k \<and> k < 24 \<or> 24 \<le> k \<and> k < 32" by auto
  then show "bit (from_bigendian (to_bigendian n @ bs)) k = bit n k"
    by (elim disjE) (auto simp: from_bigendian_def to_bigendian_ucast bit_simps)
qed

lemma top_byte:
  assumes "unat type < 256"
  shows "drop_bit 24 (push_bit 24 type OR (x AND HANDLE_MASK)) = (type :: u32)"
    "(push_bit 24 type OR (x AND HANDLE_MASK)) AND HANDLE_MASK = x AND HANDLE_MASK"
proof -
  have "unat (take_bit 8 type) = unat type" using assms by (simp add: unsigned_take_bit_eq take_bit_nat_eq_self)
  then have "take_bit 8 type = type" by (simp only: word_unat_eq_iff)
  then have big: "\<not> bit type k" if "8 \<le> k" for k using that by (metis bit_take_bit_iff not_less)
  show "drop_bit 24 (push_bit 24 type OR (x AND HANDLE_MASK)) = type"
    by (rule bit_word_eqI) (use big in \<open>auto simp: handle_mask bit_simps not_le [symmetric]\<close>)
  show "(push_bit 24 type OR (x AND HANDLE_MASK)) AND HANDLE_MASK = x AND HANDLE_MASK"
    by (rule bit_word_eqI) (auto simp: handle_mask bit_simps)
qed

lemma top24: "n < 2 ^ 24 \<Longrightarrow> drop_bit 24 (of_nat n :: u32) = 0"
  by (rule word_unat_eq_iff [THEN iffD2]) (simp add: unat_div_distrib unsigned_of_nat take_bit_nat_eq_self drop_bit_eq_div)

lemma with_harbor: "drop_bit 24 (d :: u32) = a \<Longrightarrow> (d AND HANDLE_MASK) OR push_bit 24 a = d"
proof (rule bit_word_eqI)
  fix k assume "k < LENGTH(32)" "drop_bit 24 d = a"
  then show "bit ((d AND HANDLE_MASK) OR push_bit 24 a) k = bit d k"
    by (cases "k < 24") (auto simp: handle_mask bit_simps)
qed

lemma length_to_bigendian [simp]: "length (to_bigendian n) = 4"
  by (simp add: to_bigendian_def)

lemma be24_to_bigendian:
  assumes "n < 2 ^ 24"
  shows "be24 (to_bigendian (of_nat n) @ bs) = n" "to_bigendian (of_nat n) ! 0 = 0"
proof -
  note z = top24 [OF assms]
  then show "to_bigendian (of_nat n) ! 0 = 0" by (simp add: to_bigendian_def)
  have "be24 (to_bigendian (of_nat n) @ bs) = unat (from_bigendian (to_bigendian (of_nat n) @ bs))"
    by (simp add: be24_def from_bigendian_def to_bigendian_def z)
  also have "\<dots> = n" unfolding from_to_bigendian using assms by (simp only: unsigned_of_nat) (simp add: take_bit_nat_eq_self)
  finally show "be24 (to_bigendian (of_nat n) @ bs) = n" .
qed

lemma header_roundtrip: "message_to_header (header_to_message header) = header"
  using from_to_bigendian [of "hd_source header" "to_bigendian (hd_destination header) @ to_bigendian (hd_session header)"]
    from_to_bigendian [of "hd_destination header" "to_bigendian (hd_session header)"] from_to_bigendian [of "hd_session header" "[]"]
  by (simp add: message_to_header_def header_to_message_def)

lemma length_header [simp]: "length (header_to_message header) = 12"
  by (simp add: header_to_message_def)

definition wire_message :: "u8 list \<Rightarrow> remote_message_header \<Rightarrow> u8 list" where
  "wire_message buffer header = buffer @ header_to_message header"

definition wire_frame :: "u8 list \<Rightarrow> remote_message_header \<Rightarrow> u8 list" where
  "wire_frame buffer header = to_bigendian (of_nat (length buffer + 12)) @ wire_message buffer header"

lemma send_remote_frame:
  "length buffer + 12 < 2 ^ 32 \<Longrightarrow> harbor_send_remote fd buffer header = [Socket_Sendbuffer fd (wire_frame buffer header)]"
  by (simp add: harbor_send_remote_def wire_frame_def wire_message_def Let_def)

lemma frames_of_wire:
  assumes "list_all (\<lambda>(b, c). length b + 12 < 2 ^ 24) ms"
  shows "harbor_frames (concat (map (\<lambda>(b, c). wire_frame b c) ms)) = (map (\<lambda>(b, c). wire_message b c) ms, Some [])"
  using assms
proof (induction ms)
  case (Cons m ms)
  obtain b c where m: "m = (b, c)" by (cases m)
  with Cons.prems have "length b + 12 < 2 ^ 24" by simp
  note be = be24_to_bigendian [OF this]
  from be(1) [of "[]"] have "length (wire_message b c) = be24 (to_bigendian (of_nat (length b + 12)))" by (simp add: wire_message_def)
  moreover have "wire_message b c \<noteq> []" by (simp add: wire_message_def flip: length_greater_0_conv)
  ultimately show ?case using harbor_frames_cons [OF length_to_bigendian be(2)] Cons by (simp add: m wire_frame_def)
qed (simp add: harbor_frames_short)

lemma forward_wire:
  assumes "hd_destination header = push_bit 24 type OR (destination AND HANDLE_MASK)" "unat type < 256"
    and "drop_bit 24 destination = of_int (hb_id h)" and "\<And>c. \<not> fails c"
  shows "forward_local_messsage fails h (wire_message buffer header) = Some
      [Skynet_Send (hd_source header) destination (type OR PTYPE_TAG_DONTCOPY) (sint (hd_session header)) buffer]"
proof -
  have "drop_bit 24 (hd_destination header) = type" "(hd_destination header AND HANDLE_MASK) OR push_bit 24 (of_int (hb_id h)) = destination"
    unfolding assms(1) using top_byte [OF assms(2), of destination] with_harbor [OF assms(3)] by simp_all
  then show ?thesis using assms(4)
    by (simp add: forward_local_messsage_def wire_message_def HEADER_COOKIE_LENGTH_def c_assert_def header_roundtrip HANDLE_REMOTE_SHIFT_def)
qed

subsection \<open>Numbers in the commands\<close>

lemma dec_nat_digits: "list_all (\<lambda>c. digit_value c < 10) (dec_nat n) \<and> dec_nat n \<noteq> [] \<and> read_digits 10 0 (dec_nat n) = n"
proof (induction n rule: less_induct)
  case (less n)
  show ?case
  proof (cases "n < 10")
    case True
    then show ?thesis by (subst (1 2 3) dec_nat.simps) (simp add: digit_value_digit)
  next
    case False
    then have IH: "list_all (\<lambda>c. digit_value c < 10) (dec_nat (n div 10))" "read_digits 10 0 (dec_nat (n div 10)) = n div 10"
      using less [of "n div 10"] by simp_all
    from False show ?thesis
      using IH read_digits_append [of 10 "dec_nat (n div 10)" 0 "[hex_digit (n mod 10)]"]
      by (subst (1 2 3) dec_nat.simps) (simp add: digit_value_digit)
  qed
qed

lemma takeWhile_app: "list_all P xs \<Longrightarrow> ys = [] \<or> \<not> P (hd ys) \<Longrightarrow> takeWhile P (xs @ ys) = xs"
  by (induction xs) (cases ys; auto)+

lemma scan_dec:
  assumes "n < 2 ^ 31" "rest = [] \<or> \<not> digit_value (hd rest) < 10"
  shows "scan_int (dec_nat n @ rest) = Some (int n, rest)" "scan_int (CHR '' '' # dec_nat n @ rest) = Some (int n, rest)"
proof -
  from dec_nat_digits [of n] obtain c t where ds: "dec_nat n = c # t" "digit_value c < 10"
    "list_all (\<lambda>c. digit_value c < 10) (dec_nat n)" "read_digits 10 0 (dec_nat n) = n" by (cases "dec_nat n") auto
  have c: "\<not> c_isspace c" "c \<noteq> CHR ''-''" "c \<noteq> CHR ''+''" using digits16_head [of c "[]"] ds(2) by (auto simp: digits16_def)
  have tw: "takeWhile (\<lambda>c. digit_value c < 10) (dec_nat n @ rest) = dec_nat n" using ds(3) assms(2) by (rule takeWhile_app)
  have sign: "dropWhile c_isspace (dec_nat n @ rest) = dec_nat n @ rest" "read_sign (dec_nat n @ rest) = (False, dec_nat n @ rest)"
    "dropWhile c_isspace (dec_nat n) = dec_nat n" "read_sign (dec_nat n) = (False, dec_nat n)"
    using c by (simp_all add: ds(1) read_sign_def)
  have "strtol_int 10 (dec_nat n) = signed_take_bit 31 (int n)"
    using assms(1) ds(4) by (simp add: strtol_int_def sign read_magnitude_def)
  also have "\<dots> = int n" using assms(1) by (intro signed_take_bit_int_eq_self) auto
  finally have v: "strtol_int 10 (dec_nat n) = int n" .
  have num: "scan_number (dec_nat n @ rest) = Some (dec_nat n, rest)"
    unfolding scan_number_def sign(1) Let_def sign(2) snd_conv tw using dec_nat_digits [of n] by simp
  then show "scan_int (dec_nat n @ rest) = Some (int n, rest)" by (simp add: scan_int_def v)
  have "scan_number (CHR '' '' # dec_nat n @ rest) = scan_number (dec_nat n @ rest)" by (simp add: scan_number_def c_isspace_def)
  with num show "scan_int (CHR '' '' # dec_nat n @ rest) = Some (int n, rest)" by (simp add: scan_int_def v)
qed

lemma scan_two_dec: "a < 2 ^ 31 \<Longrightarrow> b < 2 ^ 31 \<Longrightarrow> scan_two (dec_nat a @ '' '' @ dec_nat b) = (int a, int b)"
  using scan_dec(1) [of a "CHR '' '' # dec_nat b"] scan_dec(2) [of b "[]"] by (simp add: scan_two_def digit_value_def)

lemma unat_of_char: "unat (of_char c :: u8) = of_char c"
proof -
  have "(of_char c :: u8) = of_nat (of_char c)" by (simp only: of_nat_of_char)
  then show ?thesis using of_char_mod_256 [of c, where ?'a = nat] by (simp add: unsigned_of_nat take_bit_eq_mod)
qed

lemma bytes_string_id: "CHR 0x00 \<notin> set s \<Longrightarrow> bytes_string (string_bytes s) = s"
proof (induction s)
  case (Cons c s)
  have "of_char c \<noteq> (0 :: u8)"
    using Cons.prems unat_of_char [of c] of_char_eqI [of c "CHR 0x00", where ?'a = nat] by auto
  with Cons show ?case by (simp add: bytes_string_def string_bytes_def c_str_def unat_of_char)
qed (simp add: bytes_string_def string_bytes_def c_str_def)

subsection \<open>Sending\<close>

record net_message =
  nm_source :: u32
  nm_destination :: u32
  nm_type :: u32
  nm_session :: int
  nm_data :: "u8 list"

type_synonym harbor_event = "u32 \<times> int \<times> u32 \<times> harbor_input"

definition harbor_step :: "(harbor_call \<Rightarrow> bool) \<Rightarrow> harbor \<Rightarrow> harbor_event \<Rightarrow> (harbor_call list \<times> harbor) option" where
  "harbor_step fails h e = (case e of (type, session, source, input) \<Rightarrow> harbor_mainloop fails h type session source input)"

text \<open>What the node gives to the service for a message to another harbor, and the command of the Lua side for a connection.\<close>

definition submit :: "net_message \<Rightarrow> harbor_event" where
  "submit m = (PTYPE_SYSTEM, nm_session m, nm_source m, In_Remote
     \<lparr>rm_name = replicate 16 0, rm_handle = nm_destination m, rm_message = None, rm_sz = of_nat (length (nm_data m)), rm_type = nm_type m\<rparr>
     (nm_data m))"

definition connect :: "char \<Rightarrow> nat \<Rightarrow> nat \<Rightarrow> harbor_event" where
  "connect c fd i = (PTYPE_HARBOR, 0, 0, In_Text (string_bytes (c # '' '' @ dec_nat fd @ '' '' @ dec_nat i)))"

definition cookie_of :: "net_message \<Rightarrow> remote_message_header" where
  "cookie_of m = \<lparr>hd_source = nm_source m, hd_destination = push_bit 24 (nm_type m) OR (nm_destination m AND HANDLE_MASK),
     hd_session = of_int (nm_session m)\<rparr>"

definition frame_of :: "net_message \<Rightarrow> u8 list" where
  "frame_of m = wire_frame (nm_data m) (cookie_of m)"

definition nm_ok :: "nat \<Rightarrow> net_message \<Rightarrow> bool" where
  "nm_ok i m \<longleftrightarrow> unat (drop_bit 24 (nm_destination m)) = i \<and> unat (nm_type m) < 256 \<and>
     - (2 ^ 31) \<le> nm_session m \<and> nm_session m < 2 ^ 31 \<and> length (nm_data m) + 12 < 2 ^ 24"

definition slot_queue :: "slave \<Rightarrow> harbor_msg list \<Rightarrow> bool" where
  "slot_queue s ms \<longleftrightarrow> (case sl_queue s of None \<Rightarrow> ms = [] | Some q \<Rightarrow> hq_inv q \<and> hq_list q = ms)"

definition queued :: "net_message \<Rightarrow> harbor_msg" where
  "queued m = \<lparr>hm_header = cookie_of m, hm_buffer = nm_data m\<rparr>"

lemma submit_step:
  assumes "nm_destination m \<noteq> 0"
  shows "harbor_step fails h (submit m) = do {
     (taken, cs, h) \<leftarrow> remote_send_handle h (nm_source m) (nm_destination m) (nm_type m) (nm_session m) (nm_data m);
     Some (cs @ (if taken = 0 then [Skynet_Free (nm_data m)] else []), h) }"
  using assms by (simp add: harbor_step_def submit_def harbor_mainloop_def PTYPE_SOCKET_def PTYPE_HARBOR_def PTYPE_SYSTEM_def c_assert_def)

lemma destination_neq_0: "unat (drop_bit 24 (d :: u32)) = i \<Longrightarrow> 1 \<le> i \<Longrightarrow> d \<noteq> 0"
  by auto

lemma submit_waits:
  assumes "nm_ok i m" "1 \<le> i" "hb_id h \<noteq> int i" "slot_queue (hb_s h i) ms"
    and "sl_fd (hb_s h i) = 0 \<and> sl_status (hb_s h i) = STATUS_WAIT \<or> sl_status (hb_s h i) = STATUS_HANDSHAKE"
  shows "\<exists>s'. harbor_step fails h (submit m) = Some ([], put_slave i s' h) \<and> slot_queue s' (ms @ [queued m]) \<and>
    s' = (hb_s h i)\<lparr>sl_queue := sl_queue s'\<rparr>"
proof -
  let ?s = "hb_s h i" and ?q = "case sl_queue (hb_s h i) of None \<Rightarrow> new_queue | Some q \<Rightarrow> q"
  have "hq_inv ?q" "hq_list ?q = ms" using assms(4) new_queue_inv by (auto simp: slot_queue_def split: option.splits)
  from hq.enq_ok [OF this(1), of "queued m"] this(2) obtain q' where
    q': "push_queue_msg (queued m) ?q = Some q'" "hq_inv q'" "hq_list q' = ms @ [queued m]" by auto
  have i: "unat (drop_bit 24 (nm_destination m)) = i" using assms(1) by (simp add: nm_ok_def)
  note step = submit_step [OF destination_neq_0 [OF i assms(2)]]
  have "remote_send_handle h (nm_source m) (nm_destination m) (nm_type m) (nm_session m) (nm_data m)
      = Some (1, [], put_slave i (?s\<lparr>sl_queue := Some q'\<rparr>) h)"
    using assms(3,5) q'(1) unfolding remote_send_handle_def HANDLE_REMOTE_SHIFT_def i Let_def push_queue_def queued_def cookie_of_def
    by auto
  with q' show ?thesis unfolding step
    by (intro exI [of _ "?s\<lparr>sl_queue := Some q'\<rparr>"]) (simp add: slot_queue_def)
qed

lemma submit_goes:
  assumes "unat (drop_bit 24 (nm_destination m)) = i" "length (nm_data m) + 12 < 2 ^ 32" "1 \<le> i" "hb_id h \<noteq> int i"
    "sl_fd (hb_s h i) \<noteq> 0" "sl_status (hb_s h i) \<noteq> STATUS_HANDSHAKE"
  shows "harbor_step fails h (submit m) = Some ([Socket_Sendbuffer (sl_fd (hb_s h i)) (frame_of m), Skynet_Free (nm_data m)], h)"
proof -
  from send_remote_frame [OF assms(2), of "sl_fd (hb_s h i)" "cookie_of m"]
  have "remote_send_handle h (nm_source m) (nm_destination m) (nm_type m) (nm_session m) (nm_data m)
      = Some (0, [Socket_Sendbuffer (sl_fd (hb_s h i)) (frame_of m)], h)"
    using assms(4-6) unfolding remote_send_handle_def HANDLE_REMOTE_SHIFT_def assms(1) Let_def frame_of_def cookie_of_def by simp
  then show ?thesis unfolding submit_step [OF destination_neq_0 [OF assms(1,3)]] by simp
qed

lemma submits_wait:
  assumes "list_all (nm_ok i) ns" "1 \<le> i" "hb_id h \<noteq> int i" "slot_queue (hb_s h i) ms"
    and "sl_fd (hb_s h i) = 0 \<and> sl_status (hb_s h i) = STATUS_WAIT \<or> sl_status (hb_s h i) = STATUS_HANDSHAKE"
  shows "\<exists>s'. run_steps (harbor_step fails) h (map submit ns) = Some ([], put_slave i s' h) \<and> slot_queue s' (ms @ map queued ns) \<and>
    s' = (hb_s h i)\<lparr>sl_queue := sl_queue s'\<rparr>"
  using assms
proof (induction ns arbitrary: h ms)
  case Nil
  then show ?case by (auto simp: put_slave_same intro!: exI [of _ "hb_s h i"])
next
  case (Cons n ns)
  from Cons.prems(1) have ok: "nm_ok i n" "list_all (nm_ok i) ns" by auto
  from submit_waits [OF ok(1) Cons.prems(2-5), of fails] obtain s1 where
    s1: "harbor_step fails h (submit n) = Some ([], put_slave i s1 h)" "slot_queue s1 (ms @ [queued n])"
    "s1 = (hb_s h i)\<lparr>sl_queue := sl_queue s1\<rparr>" by blast
  have "sl_fd s1 = sl_fd (hb_s h i)" "sl_status s1 = sl_status (hb_s h i)" by (subst s1(3), simp)+
  with Cons.IH [OF ok(2) Cons.prems(2), of "put_slave i s1 h" "ms @ [queued n]"] Cons.prems(3,5) s1(2) obtain s2 where
    "run_steps (harbor_step fails) (put_slave i s1 h) (map submit ns) = Some ([], put_slave i s2 h)"
    "slot_queue s2 (ms @ map queued (n # ns))" "s2 = s1\<lparr>sl_queue := sl_queue s2\<rparr>" by auto
  moreover from this(3) s1(3) have "s2 = (hb_s h i)\<lparr>sl_queue := sl_queue s2\<rparr>" by (metis slave.update_convs(2) slave.surjective slave.ext_inject)
  ultimately show ?case using s1(1) by auto
qed

lemma submits_go:
  assumes "list_all (nm_ok i) ns" "1 \<le> i" "hb_id h \<noteq> int i" "sl_fd (hb_s h i) \<noteq> 0" "sl_status (hb_s h i) \<noteq> STATUS_HANDSHAKE"
  shows "run_steps (harbor_step fails) h (map submit ns)
    = Some (concat (map (\<lambda>m. [Socket_Sendbuffer (sl_fd (hb_s h i)) (frame_of m), Skynet_Free (nm_data m)]) ns), h)"
  using assms
proof (induction ns)
  case (Cons n ns)
  with submit_goes [of n i h fails] show ?case by (simp add: nm_ok_def)
qed simp

text \<open>The queue of a slot goes out when the connection is there.\<close>

lemma dispatch_queue_ok:
  assumes "slot_queue (hb_s h i) ms" "sl_fd (hb_s h i) \<noteq> 0"
  shows "dispatch_queue h i = Some (concat (map (send_queued (sl_fd (hb_s h i))) ms), put_slave i ((hb_s h i)\<lparr>sl_queue := None\<rparr>) h)"
proof (cases "sl_queue (hb_s h i)")
  case None
  then have "(hb_s h i)\<lparr>sl_queue := None\<rparr> = hb_s h i" by (cases "hb_s h i") simp
  with None assms show ?thesis by (simp add: dispatch_queue_def c_assert_def slot_queue_def put_slave_same Let_def)
next
  case (Some q)
  with assms pop_all_ok [of q] obtain q' where "pop_all q = Some (ms, q')" by (auto simp: slot_queue_def)
  with Some assms show ?thesis by (simp add: dispatch_queue_def c_assert_def Let_def)
qed

lemma connect_command_eq:
  assumes "c = CHR ''S'' \<or> c = CHR ''A''" "fd < 2 ^ 31" "i < 256"
  shows "harbor_step fails h (connect c fd i) = connect_command h c (dec_nat fd @ '' '' @ dec_nat i)"
proof -
  let ?t = "c # '' '' @ dec_nat fd @ '' '' @ dec_nat i"
  have d: "CHR 0x00 \<notin> set (dec_nat n)" for n using dec_nat_digits [of n] by (auto simp: list_all_iff digit_value_def)
  have c: "char_of (unat (of_char c :: u8)) = c" by (simp add: unat_of_char)
  have "drop 2 (string_bytes ?t) = string_bytes (dec_nat fd @ '' '' @ dec_nat i)" "array_get (string_bytes ?t) 0 = Some (of_char c)"
    "2 \<le> length (string_bytes ?t)" by (simp_all add: string_bytes_def array_get_def)
  moreover have "bytes_string (string_bytes (dec_nat fd @ '' '' @ dec_nat i)) = dec_nat fd @ '' '' @ dec_nat i"
    using d by (intro bytes_string_id) auto
  ultimately have "harbor_command h (string_bytes ?t) 0 = connect_command h c (dec_nat fd @ '' '' @ dec_nat i)"
    using assms(1) unfolding harbor_command_def Let_def by (auto simp: c c_assert_def)
  then show ?thesis by (simp add: harbor_step_def connect_def harbor_mainloop_def PTYPE_SOCKET_def PTYPE_HARBOR_def)
qed

lemma connect_accept:
  assumes "0 < fd" "fd < 2 ^ 31" "1 \<le> i" "i < 256" "sl_fd (hb_s h i) = 0" "slot_queue (hb_s h i) ms"
  shows "\<exists>s'. harbor_step fails h (connect (CHR ''A'') fd i) = Some ([Socket_Start (int fd), Socket_Sendbuffer (int fd) [of_int (hb_id h)]]
      @ concat (map (send_queued (int fd)) ms), put_slave i s' h) \<and> sl_fd s' = int fd \<and> sl_status s' = STATUS_HEADER"
proof -
  let ?s = "(hb_s h i)\<lparr>sl_fd := int fd, sl_status := STATUS_HEADER\<rparr>"
  have "slot_queue (hb_s (put_slave i ?s h) i) ms" "sl_fd (hb_s (put_slave i ?s h) i) \<noteq> 0"
    using assms(1,6) by (simp_all add: slot_queue_def)
  note d = dispatch_queue_ok [OF this]
  show ?thesis
    unfolding connect_command_eq [OF disjI2 [OF refl] assms(2,4)]
    using assms d scan_two_dec [of fd i]
    by (intro exI [of _ "?s\<lparr>sl_queue := None\<rparr>"]) (simp add: connect_command_def handshake_def REMOTE_MAX_def Let_def)
qed

subsection \<open>The invariant\<close>

definition waiting_ok :: "harbor_msg_queue option \<Rightarrow> bool" where
  "waiting_ok qo \<longleftrightarrow> (case qo of None \<Rightarrow> True | Some q \<Rightarrow> hq_inv q)"

definition slot_ok :: "slave \<Rightarrow> bool" where
  "slot_ok s \<longleftrightarrow> (sl_status s = STATUS_WAIT \<longleftrightarrow> sl_fd s = 0) \<and> waiting_ok (sl_queue s) \<and>
     (case sl_status s of
        STATUS_WAIT \<Rightarrow> slot_holds (s\<lparr>sl_status := STATUS_HEADER\<rparr>) []
      | STATUS_HANDSHAKE \<Rightarrow> slot_holds (s\<lparr>sl_status := STATUS_HEADER\<rparr>) []
      | STATUS_DOWN \<Rightarrow> sl_queue s = None
      | _ \<Rightarrow> sl_queue s = None \<and> slot_holds s (slot_pending s))"

definition nodes_ok :: "hashmap \<Rightarrow> bool" where
  "nodes_ok hash \<longleftrightarrow> (\<forall>b. list_all (\<lambda>n. waiting_ok (kv_queue n)) (hash b))"

definition harbor_ok :: "harbor \<Rightarrow> bool" where
  "harbor_ok h \<longleftrightarrow> (\<forall>i. slot_ok (hb_s h i)) \<and> nodes_ok (hb_map h)"

lemma waiting_ok_simps [simp]: "waiting_ok None" "waiting_ok (Some q) = hq_inv q"
  by (simp_all add: waiting_ok_def)

lemma harbor_ok_put: "harbor_ok h \<Longrightarrow> slot_ok s \<Longrightarrow> harbor_ok (put_slave i s h)"
  by (simp add: harbor_ok_def)

lemma harbor_ok_slot: "harbor_ok h \<Longrightarrow> slot_ok (hb_s h i)"
  by (simp add: harbor_ok_def)

lemma slot_ok_queue: "slot_ok s \<Longrightarrow> \<exists>ms. slot_queue s ms"
  by (cases "sl_queue s") (auto simp: slot_ok_def slot_queue_def)

lemma slot_after_ok: "slot_after s r \<Longrightarrow> sl_fd s \<noteq> 0 \<Longrightarrow> sl_queue s = None \<Longrightarrow> slot_ok s"
  using slot_holds_pending [of s]
  by (auto simp: slot_after_def slot_ok_def split: option.splits status.split) (auto simp: slot_holds_def)

lemma release_queue_ok: "waiting_ok q \<Longrightarrow> \<exists>cs. release_queue q = Some cs"
  using pop_all_ok by (cases q) (fastforce simp: release_queue_def)+

lemma close_harbor_ok:
  assumes "waiting_ok (sl_queue (hb_s h i))" "sl_fd (hb_s h i) \<noteq> 0"
  shows "\<exists>cs s'. close_harbor h i = Some (cs, put_slave i s' h) \<and> slot_ok s'"
  using assms release_queue_ok [OF assms(1)]
  by (auto simp: close_harbor_def Let_def slot_ok_def intro!: exI [of _ "(hb_s h i)\<lparr>sl_status := STATUS_DOWN, sl_queue := None\<rparr>"])

text \<open>The handshake: the first byte is compared with the number of the slot, then the waiting messages go out.\<close>

lemma handshake_good:
  assumes "slot_ok s" "sl_status s = STATUS_HANDSHAKE" "hb_s h i = s" "i < 256" "slot_queue s ms"
  shows "if long_frames rest then \<exists>s'. data_loop fails h i (of_nat i # rest) = Some (concat (map (send_queued (sl_fd s)) ms)
      @ forwarded fails h (fst (harbor_frames rest)) @ ending i (sl_fd s) (snd (harbor_frames rest)), put_slave i s' h) \<and>
    slot_after s' (snd (harbor_frames rest)) \<and> sl_fd s' = sl_fd s \<and> sl_queue s' = None
    else data_loop fails h i (of_nat i # rest) = None"
proof -
  let ?s = "s\<lparr>sl_status := STATUS_HEADER\<rparr>" and ?s' = "s\<lparr>sl_status := STATUS_HEADER, sl_queue := None\<rparr>"
  have fd: "sl_fd s \<noteq> 0" and hold: "slot_holds ?s []" using assms(1,2) by (auto simp: slot_ok_def)
  have "slot_queue (hb_s (put_slave i ?s h) i) ms" using assms(5) by (simp add: slot_queue_def)
  from dispatch_queue_ok [OF this] fd
  have d: "dispatch_queue (put_slave i ?s h) i = Some (concat (map (send_queued (sl_fd s)) ms), put_slave i ?s' h)" by simp
  have "uint (of_nat i :: u8) = int i" using assms(4) by (simp add: unsigned_of_nat take_bit_nat_eq_self uint_nat)
  then have step: "data_step fails h i (of_nat i # rest) = Some (concat (map (send_queued (sl_fd s)) ms), put_slave i ?s' h, Some rest)"
    using assms(2,3) d by (simp add: data_step_def handshake_step_def array_get_def)
  have "slot_holds ?s' []" using hold by (simp add: slot_holds_def)
  note loop = data_loop_any [OF this, of "put_slave i ?s' h" i rest fails]
  show ?thesis
  proof (cases "long_frames rest")
    case True
    with loop fd obtain s' where
      "data_loop fails (put_slave i ?s' h) i rest = Some (forwarded fails h (fst (harbor_frames rest))
         @ ending i (sl_fd s) (snd (harbor_frames rest)), put_slave i s' h)"
      "slot_after s' (snd (harbor_frames rest))" "sl_fd s' = sl_fd s" "sl_queue s' = None" by auto
    with data_loop_on [OF step] True show ?thesis by auto
  next
    case False
    with loop fd have "data_loop fails (put_slave i ?s' h) i rest = None" by simp
    with data_loop_none(2) [OF step] False show ?thesis by simp
  qed
qed

text \<open>Data the code can read: no message in it is shorter than its cookie. A connection that has not shaken hands starts with the
  number of its slot, or is closed.\<close>

definition data_ok :: "nat \<Rightarrow> slave \<Rightarrow> u8 list \<Rightarrow> bool" where
  "data_ok i s bs \<longleftrightarrow> (case sl_status s of
     STATUS_HANDSHAKE \<Rightarrow> hd bs = of_nat i \<longrightarrow> long_frames (tl bs)
   | STATUS_HEADER \<Rightarrow> long_frames (slot_pending s @ bs)
   | STATUS_CONTENT \<Rightarrow> long_frames (slot_pending s @ bs)
   | _ \<Rightarrow> True)"

lemma data_loop_ok:
  assumes "slot_ok s" "bs \<noteq> []" "hb_s h i = s" "i < 256"
  shows "if data_ok i s bs then \<exists>cs s'. data_loop fails h i bs = Some (cs, put_slave i s' h) \<and> slot_ok s' else data_loop fails h i bs = None"
proof (cases "sl_status s")
  case STATUS_WAIT
  with assms show ?thesis
    by (auto simp: data_loop.simps [of fails h i bs] data_step_def put_slave_same data_ok_def intro!: exI [of _ s])
next
  case STATUS_DOWN
  with assms show ?thesis
    by (auto simp: data_loop.simps [of fails h i bs] data_step_def put_slave_same data_ok_def intro!: exI [of _ s])
next
  case STATUS_HANDSHAKE
  from assms(2) obtain b rest where bs: "bs = b # rest" by (cases bs) auto
  have fd: "sl_fd s \<noteq> 0" using assms(1) STATUS_HANDSHAKE by (simp add: slot_ok_def)
  show ?thesis
  proof (cases "b = of_nat i")
    case True
    from slot_ok_queue [OF assms(1)] obtain ms where "slot_queue s ms" ..
    from handshake_good [OF assms(1) STATUS_HANDSHAKE assms(3,4) this, of rest fails] bs True fd slot_after_ok STATUS_HANDSHAKE
    show ?thesis by (fastforce simp: data_ok_def split: if_splits)
  next
    case False
    then have "uint b \<noteq> int i" by (metis of_int_of_nat_eq word_of_int_uint)
    moreover from close_harbor_ok [of h i] assms(1,3) fd obtain cs s' where "close_harbor h i = Some (cs, put_slave i s' h)" "slot_ok s'"
      by (auto simp: slot_ok_def)
    ultimately show ?thesis using data_loop_stop [of fails h i bs] assms(3) STATUS_HANDSHAKE bs(1) False
      by (auto simp: data_step_def handshake_step_def array_get_def data_ok_def)
  qed
next
  case STATUS_HEADER
  with assms(1) have "slot_holds s (slot_pending s)" "sl_queue s = None" "sl_fd s \<noteq> 0" by (auto simp: slot_ok_def)
  from data_loop_any [OF this(1) assms(3) this(2,3), of bs fails] assms(2) STATUS_HEADER this slot_after_ok show ?thesis
    by (fastforce simp: data_ok_def split: if_splits)
next
  case STATUS_CONTENT
  with assms(1) have "slot_holds s (slot_pending s)" "sl_queue s = None" "sl_fd s \<noteq> 0" by (auto simp: slot_ok_def)
  from data_loop_any [OF this(1) assms(3) this(2,3), of bs fails] assms(2) STATUS_CONTENT this slot_after_ok show ?thesis
    by (fastforce simp: data_ok_def split: if_splits)
qed

text \<open>What the callers promise: the type of a message says what its pointer points to, data comes in a block that has at least the bytes
  that are announced, and at least one, and a remote message has its size. Nothing is said about the bytes themselves.\<close>

fun input_fits :: "harbor_event \<Rightarrow> bool" where
  "input_fits (type, session, source, In_Socket m) \<longleftrightarrow> type \<noteq> PTYPE_HARBOR \<and> type \<noteq> PTYPE_SYSTEM \<and>
     (sm_type m = SKYNET_SOCKET_TYPE_DATA \<longrightarrow> (case sm_buffer m of None \<Rightarrow> False | Some buffer \<Rightarrow>
        0 < sm_ud m \<and> nat (sm_ud m) \<le> length buffer))"
| "input_fits (type, session, source, In_Text t) \<longleftrightarrow> type \<noteq> PTYPE_SOCKET \<and> type \<noteq> PTYPE_SYSTEM"
| "input_fits (type, session, source, In_Remote r data) \<longleftrightarrow> type \<noteq> PTYPE_SOCKET \<and> type \<noteq> PTYPE_HARBOR \<and> rm_sz r = of_nat (length data)"

text \<open>The inputs that the code reads without leaving a block: data as above, and commands that are not empty, and have a second byte when
  they connect.\<close>

fun input_ok :: "harbor \<Rightarrow> harbor_event \<Rightarrow> bool" where
  "input_ok h (type, session, source, In_Socket m) \<longleftrightarrow> type = PTYPE_SOCKET \<longrightarrow> sm_type m = SKYNET_SOCKET_TYPE_DATA \<longrightarrow>
     (case (sm_buffer m, harbor_id h (sm_id m)) of
        (Some buffer, Some i) \<Rightarrow> data_ok i (hb_s h i) (take (nat (sm_ud m)) buffer)
      | _ \<Rightarrow> True)"
| "input_ok h (type, session, source, In_Text t) \<longleftrightarrow> type = PTYPE_HARBOR \<longrightarrow> (case t of
      [] \<Rightarrow> False
    | [c] \<Rightarrow> char_of (unat c) \<notin> {CHR ''S'', CHR ''A''}
    | _ \<Rightarrow> True)"
| "input_ok h (type, session, source, In_Remote r data) \<longleftrightarrow> True"

lemma find_node_ok: "nodes_ok hash \<Longrightarrow> hash_find_or_insert hash name = (node, hash') \<Longrightarrow> waiting_ok (kv_queue node) \<and> nodes_ok hash'"
proof -
  assume ok: "nodes_ok hash" and f: "hash_find_or_insert hash name = (node, hash')"
  show ?thesis
  proof (cases "hash_search hash name")
    case None
    with ok f show ?thesis by (auto simp: hash_find_or_insert_def hash_insert_def Let_def nodes_ok_def)
  next
    case (Some n)
    then have "n \<in> set (hash (bucket_of name))" by (auto simp: hash_search_def find_Some_iff)
    with Some ok f show ?thesis by (auto simp: hash_find_or_insert_def nodes_ok_def list_all_iff)
  qed
qed

lemma put_node_ok: "list_all P ns \<Longrightarrow> P n \<Longrightarrow> list_all P (put_node p n ns)"
  by (induction p n ns rule: put_node.induct) auto

lemma hash_put_ok: "nodes_ok hash \<Longrightarrow> waiting_ok (kv_queue node) \<Longrightarrow> nodes_ok (hash_put hash name node)"
  by (simp add: nodes_ok_def hash_put_def put_node_ok)

lemma slot_ok_wait:
  "slot_ok s \<Longrightarrow> sl_fd s = 0 \<or> sl_status s = STATUS_HANDSHAKE \<Longrightarrow> waiting_ok q \<Longrightarrow>
   slot_ok (s\<lparr>sl_queue := q\<rparr>) \<and> (sl_status s = STATUS_WAIT \<or> sl_status s = STATUS_HANDSHAKE)"
  by (cases "sl_status s") (auto simp: slot_ok_def slot_holds_def)

lemma push_default_ok: "waiting_ok qo \<Longrightarrow> \<exists>q'. push_queue (case qo of None \<Rightarrow> new_queue | Some q \<Rightarrow> q) msg header = Some q' \<and> hq_inv q'"
  using hq.enq_ok new_queue_inv(1) by (cases qo) (fastforce simp: push_queue_def)+

lemma dispatch_name_queue_ok:
  assumes "harbor_ok h" "hq_inv queue"
  shows "\<exists>cs h'. dispatch_name_queue h key handle queue = Some (cs, h') \<and> harbor_ok h' \<and> hb_map h' = hb_map h"
proof -
  define i where "i = unat (drop_bit HANDLE_REMOTE_SHIFT handle)"
  note ok = harbor_ok_slot [OF assms(1), of i]
  from pop_all_ok [OF assms(2)] obtain ms q0 where pop: "pop_all queue = Some (ms, q0)" by blast
  show ?thesis
  proof (cases "sl_fd (hb_s h i) = 0")
    case True
    with slot_ok_wait [OF ok, of None] ok have down: "sl_status (hb_s h i) \<noteq> STATUS_DOWN" by auto
    obtain q where q: "(case sl_queue (hb_s h i) of None \<Rightarrow> Some queue | Some q \<Rightarrow> do { (ms, _) \<leftarrow> pop_all queue; push_all ms q }) = Some q" "hq_inv q"
      using push_all_ok assms(2) ok by (cases "sl_queue (hb_s h i)") (fastforce simp: pop slot_ok_def)+
    from pop_all_ok [OF q(2)] obtain ms' q' where pop': "pop_all q = Some (ms', q')" by blast
    from slot_ok_wait [OF ok disjI1 [OF True]] q(2) have
      "slot_ok ((hb_s h i)\<lparr>sl_queue := None\<rparr>)" "slot_ok ((hb_s h i)\<lparr>sl_queue := Some q\<rparr>)" by simp_all
    then have "harbor_ok (put_slave i ((hb_s h i)\<lparr>sl_queue := None\<rparr>) h)" "harbor_ok (put_slave i ((hb_s h i)\<lparr>sl_queue := Some q\<rparr>) h)"
      using harbor_ok_put [OF assms(1)] by simp_all
    then show ?thesis
      unfolding dispatch_name_queue_def i_def [symmetric] Let_def using True down q(1) pop' by auto
  next
    case False
    with assms(1) pop show ?thesis unfolding dispatch_name_queue_def i_def [symmetric] Let_def by simp
  qed
qed

lemma update_name_ok:
  assumes "harbor_ok h"
  shows "\<exists>cs h'. update_name h name handle = Some (cs, h') \<and> harbor_ok h'"
proof -
  obtain node hash where f: "hash_find_or_insert (hb_map h) name = (node, hash)" by fastforce
  with find_node_ok assms have n: "waiting_ok (kv_queue node)" "nodes_ok hash" by (auto simp: harbor_ok_def)
  show ?thesis
  proof (cases "kv_queue node")
    case None
    with f n assms hash_put_ok [OF n(2), of "node\<lparr>kv_value := handle\<rparr>" name] show ?thesis
      by (simp add: update_name_def harbor_ok_def)
  next
    case (Some queue)
    with n dispatch_name_queue_ok [OF assms, of queue "kv_key node" handle] obtain cs h' where
      "dispatch_name_queue h (kv_key node) handle queue = Some (cs, h')" "harbor_ok h'" by auto
    with Some f n hash_put_ok [OF n(2), of "node\<lparr>kv_value := handle, kv_queue := None\<rparr>" name] show ?thesis
      by (simp add: update_name_def harbor_ok_def)
  qed
qed

lemma remote_send_handle_ok:
  assumes "harbor_ok h"
  shows "\<exists>taken cs h'. remote_send_handle h source destination type session msg = Some (taken, cs, h') \<and> harbor_ok h'"
proof -
  define i where "i = unat (drop_bit HANDLE_REMOTE_SHIFT destination)"
  note ok = harbor_ok_slot [OF assms, of i]
  show ?thesis
  proof (cases "int i \<noteq> hb_id h \<and> (sl_fd (hb_s h i) = 0 \<or> sl_status (hb_s h i) = STATUS_HANDSHAKE)")
    case True
    from ok have "waiting_ok (sl_queue (hb_s h i))" by (simp add: slot_ok_def)
    from push_default_ok [OF this, of msg "\<lparr>hd_source = source, hd_destination = push_bit HANDLE_REMOTE_SHIFT type OR (destination AND HANDLE_MASK), hd_session = of_int session\<rparr>"] obtain q' where q': "push_queue (case sl_queue (hb_s h i) of None \<Rightarrow> new_queue | Some q \<Rightarrow> q) msg
      \<lparr>hd_source = source, hd_destination = push_bit HANDLE_REMOTE_SHIFT type OR (destination AND HANDLE_MASK), hd_session = of_int session\<rparr> = Some q'" "hq_inv q'"
      by blast
    with slot_ok_wait [OF ok, of "Some q'"] True have "slot_ok ((hb_s h i)\<lparr>sl_queue := Some q'\<rparr>)" "sl_status (hb_s h i) \<noteq> STATUS_DOWN" by auto
    with harbor_ok_put [OF assms] True q' show ?thesis
      unfolding remote_send_handle_def i_def [symmetric] Let_def by simp
  next
    case False
    with assms show ?thesis unfolding remote_send_handle_def i_def [symmetric] Let_def by auto
  qed
qed

lemma remote_send_name_ok:
  assumes "harbor_ok h"
  shows "\<exists>taken cs h'. remote_send_name h source name type session msg = Some (taken, cs, h') \<and> harbor_ok h'"
proof -
  obtain node hash where f: "hash_find_or_insert (hb_map h) name = (node, hash)" by fastforce
  with find_node_ok assms have n: "waiting_ok (kv_queue node)" "nodes_ok hash" by (auto simp: harbor_ok_def)
  have h: "harbor_ok (h\<lparr>hb_map := hash\<rparr>)" using assms n(2) by (simp add: harbor_ok_def)
  show ?thesis
  proof (cases "kv_value node = 0")
    case True
    from push_default_ok [OF n(1)] obtain q' where
      q': "push_queue (case kv_queue node of None \<Rightarrow> new_queue | Some q \<Rightarrow> q) msg
         \<lparr>hd_source = source, hd_destination = push_bit HANDLE_REMOTE_SHIFT type, hd_session = of_int session\<rparr> = Some q'" "hq_inv q'"
      by blast
    with hash_put_ok [OF n(2), of "node\<lparr>kv_queue := Some q'\<rparr>" name] True f h show ?thesis
      by (simp add: remote_send_name_def harbor_ok_def)
  next
    case False
    with f remote_send_handle_ok [OF h, of source "kv_value node" type session msg] show ?thesis by (simp add: remote_send_name_def)
  qed
qed

lemma connect_command_ok:
  assumes "harbor_ok h"
  shows "\<exists>cs h'. connect_command h c buffer = Some (cs, h') \<and> harbor_ok h'"
proof -
  obtain fd k where sc: "scan_two buffer = (fd, k)" by fastforce
  define s where "s = hb_s h (nat k)"
  have ok: "slot_ok s" using harbor_ok_slot [OF assms] by (simp add: s_def)
  show ?thesis
  proof (cases "fd = 0 \<or> k \<le> 0 \<or> k \<ge> int REMOTE_MAX \<or> sl_fd s \<noteq> 0")
    case True
    with assms sc show ?thesis by (auto simp: connect_command_def s_def Let_def)
  next
    case False
    then have st: "sl_status s = STATUS_WAIT" using ok by (simp add: slot_ok_def)
    have shake: "slot_ok (s\<lparr>sl_fd := fd, sl_status := STATUS_HANDSHAKE\<rparr>)"
      using ok st False by (simp add: slot_ok_def slot_holds_def)
    have header: "slot_ok (s\<lparr>sl_fd := fd, sl_status := STATUS_HEADER, sl_queue := None\<rparr>)"
      using ok st False by (simp add: slot_ok_def slot_holds_def slot_pending_def)
    from slot_ok_queue [OF ok] obtain ms where ms: "slot_queue s ms" ..
    let ?h = "put_slave (nat k) (s\<lparr>sl_fd := fd, sl_status := STATUS_HEADER\<rparr>) h"
    from ms have "slot_queue (hb_s ?h (nat k)) ms" by (simp add: slot_queue_def)
    from dispatch_queue_ok [OF this] False
    have d: "dispatch_queue ?h (nat k) = Some (concat (map (send_queued fd) ms), put_slave (nat k) (s\<lparr>sl_fd := fd, sl_status := STATUS_HEADER, sl_queue := None\<rparr>) h)"
      by simp
    from harbor_ok_put [OF assms shake] harbor_ok_put [OF assms header] d False sc show ?thesis
      by (simp add: connect_command_def s_def [symmetric] Let_def)
  qed
qed

lemma harbor_command_ok:
  assumes "harbor_ok h"
  shows "if input_ok h (PTYPE_HARBOR, session, source, In_Text msg) then \<exists>cs h'. harbor_command h msg source = Some (cs, h') \<and> harbor_ok h'
    else harbor_command h msg source = None"
proof (cases msg)
  case Nil
  then show ?thesis by (simp add: harbor_command_def array_get_def)
next
  case (Cons c cs)
  then show ?thesis
    using assms update_name_ok [OF assms] connect_command_ok [OF assms]
    by (cases cs) (auto simp: harbor_command_def c_assert_def Let_def array_get_def)
qed

lemma socket_event_ok:
  assumes "harbor_ok h" "input_fits (PTYPE_SOCKET, session, source, In_Socket m)"
  shows "if input_ok h (PTYPE_SOCKET, session, source, In_Socket m) then \<exists>cs h'. socket_event fails h m = Some (cs, h') \<and> harbor_ok h'
    else socket_event fails h m = None"
proof (cases "sm_type m = SKYNET_SOCKET_TYPE_DATA")
  case data: True
  with assms(2) obtain buffer where b: "sm_buffer m = Some buffer" "0 < sm_ud m" "nat (sm_ud m) \<le> length buffer"
    by (auto split: option.splits)
  then have ne: "take (nat (sm_ud m)) buffer \<noteq> []" by auto
  show ?thesis
  proof (cases "harbor_id h (sm_id m)")
    case None
    with data b assms(1) show ?thesis by (simp add: socket_event_def push_socket_data_def c_assert_def)
  next
    case (Some i)
    note loop = data_loop_ok [OF harbor_ok_slot [OF assms(1)] ne refl, of i fails] harbor_idD [OF Some]
    show ?thesis
    proof (cases "data_ok i (hb_s h i) (take (nat (sm_ud m)) buffer)")
      case True
      with loop obtain cs s' where
        "data_loop fails h i (take (nat (sm_ud m)) buffer) = Some (cs, put_slave i s' h)" "slot_ok s'" by auto
      with Some data b harbor_ok_put [OF assms(1)] True show ?thesis
        by (simp add: socket_event_def push_socket_data_def c_assert_def)
    next
      case False
      with loop have "data_loop fails h i (take (nat (sm_ud m)) buffer) = None" by simp
      with Some data b False show ?thesis by (simp add: socket_event_def push_socket_data_def c_assert_def)
    qed
  qed
qed (use assms(1) in \<open>auto simp: socket_event_def\<close>)

lemma harbor_step_any:
  assumes "harbor_ok h" "input_fits e"
  shows "if input_ok h e then \<exists>cs h'. harbor_step fails h e = Some (cs, h') \<and> harbor_ok h' else harbor_step fails h e = None"
proof -
  obtain type session source input where e: "e = (type, session, source, input)" by (cases e)
  show ?thesis
  proof (cases input)
    case (In_Socket m)
    show ?thesis
    proof (cases "type = PTYPE_SOCKET")
      case True
      with socket_event_ok [OF assms(1), of session source m fails] assms(2) e In_Socket show ?thesis
        by (auto simp: harbor_step_def harbor_mainloop_def split: if_splits)
    next
      case False
      with e assms In_Socket show ?thesis by (auto simp: harbor_step_def harbor_mainloop_def)
    qed
  next
    case (In_Text t)
    show ?thesis
    proof (cases "type = PTYPE_HARBOR")
      case True
      with harbor_command_ok [OF assms(1), of session source t] assms(2) e In_Text show ?thesis
        by (auto simp: harbor_step_def harbor_mainloop_def PTYPE_HARBOR_def PTYPE_SOCKET_def split: if_splits)
    next
      case False
      with e assms In_Text show ?thesis by (auto simp: harbor_step_def harbor_mainloop_def)
    qed
  next
    case (In_Remote r data)
    with e assms remote_send_handle_ok [OF assms(1), of source "rm_handle r" "rm_type r" session data]
      remote_send_name_ok [OF assms(1), of source "rm_name r" "rm_type r" session data] show ?thesis
      by (auto simp: harbor_step_def harbor_mainloop_def c_assert_def)
  qed
qed

lemma harbor_create_ok: "harbor_ok harbor_create"
  by (simp add: harbor_ok_def harbor_create_def free_slave_def slot_ok_def slot_holds_def nodes_ok_def hash_new_def)

lemma harbor_init_ok: "harbor_ok h \<Longrightarrow> harbor_ok (snd (harbor_init h args))"
  by (auto simp: harbor_init_def harbor_ok_def Let_def split: prod.splits)

end
