(* ===== verification/Harbor_Link.thy ===== *)
theory Harbor_Link
  imports Harbor_Props
begin

text \<open>
  The properties of the harbor service: it never fails on the inputs it may be given, it cuts streams into messages, it carries
  messages from one harbor to another, and three cases in which a message is lost without a word.
\<close>

subsection \<open>Single steps\<close>


definition demo_harbor :: "int \<Rightarrow> harbor" where
  "demo_harbor i = harbor_create\<lparr>hb_id := i, hb_slave := 1\<rparr>"

definition demo_connected :: "status \<Rightarrow> harbor" where
  "demo_connected st = put_slave 2 (free_slave\<lparr>sl_fd := 7, sl_status := st\<rparr>) (demo_harbor 1)"

lemma demo_harbor_ok: "harbor_ok (demo_harbor i)"
  using harbor_create_ok by (simp add: demo_harbor_def harbor_ok_def)

lemma demo_connected_ok: "harbor_ok (demo_connected STATUS_HEADER)" "harbor_ok (demo_connected STATUS_HANDSHAKE)"
  unfolding demo_connected_def by (intro harbor_ok_put demo_harbor_ok; simp add: slot_ok_def free_slave_def slot_holds_def slot_pending_def)+

lemma demo_connected_id: "harbor_id (demo_connected st) 7 = Some 2"
proof -
  have "[1..<REMOTE_MAX] = 1 # 2 # [3..<REMOTE_MAX]" by (simp add: REMOTE_MAX_def upt_conv_Cons)
  then show ?thesis by (simp add: harbor_id_def demo_connected_def demo_harbor_def harbor_create_def free_slave_def)
qed

lemma demo_connected_slot: "hb_s (demo_connected st) 2 = free_slave\<lparr>sl_fd := 7, sl_status := st\<rparr>" "hb_id (demo_connected st) = 1"
  by (simp_all add: demo_connected_def demo_harbor_def)


subsection \<open>Streams\<close>

text \<open>Property C19: Whatever pieces of at least one byte the data of an open connection comes in: when no message of the stream is shorter
  than its cookie of twelve bytes, the service forwards exactly the messages of the stream, in order, and it closes the connection
  exactly when the stream has a length with a first byte other than zero; from then on it forwards nothing. When a message before
  such a length is shorter than its cookie, the connection is not closed: the service reads memory before the block of that
  message.\<close>

theorem harbor_reassembles:
  assumes "harbor_ok h" "harbor_id h fd = Some i" "sl_status (hb_s h i) = STATUS_HEADER \<or> sl_status (hb_s h i) = STATUS_CONTENT"
    and "harbor_frames (slot_pending (hb_s h i) @ concat chunks) = (fs, r)" "[] \<notin> set chunks"
  shows "if list_all (\<lambda>f. HEADER_COOKIE_LENGTH \<le> length f) fs then
      \<exists>h'. run_steps (receive fails fd) h chunks = Some
        (concat (map (\<lambda>f. the (forward_local_messsage fails h f)) fs)
           @ (if r = None then [Skynet_Error (Log_Too_Long i), Socket_Close fd] else []), h') \<and>
        (case r of None \<Rightarrow> sl_status (hb_s h' i) = STATUS_DOWN | Some rest \<Rightarrow> slot_pending (hb_s h' i) = rest)
    else run_steps (receive fails fd) h chunks = None"
proof -
  from harbor_ok_slot [OF assms(1), of i] assms(3) have s: "slot_holds (hb_s h i) (slot_pending (hb_s h i))"
    "sl_queue (hb_s h i) = None" "sl_fd (hb_s h i) \<noteq> 0" by (auto simp: slot_ok_def)
  note any = receive_any [OF s(1) refl s(2,3) assms(2,5), of fails, unfolded assms(4) fst_conv snd_conv long_frames_def long_frame_def]
  show ?thesis
  proof (cases "list_all (\<lambda>f. HEADER_COOKIE_LENGTH \<le> length f) fs")
    case True
    with any obtain s' where
      "run_steps (receive fails fd) h chunks = Some (forwarded fails h fs @ ending i fd r, put_slave i s' h)" "slot_after s' r" by auto
    with True show ?thesis using slot_holds_pending by (fastforce simp: forwarded_def ending_def slot_after_def split: option.splits)
  next
    case False
    with any show ?thesis by simp
  qed
qed

definition demo_message :: net_message where
  "demo_message = \<lparr>nm_source = 0x1000005, nm_destination = 0x2000009, nm_type = 10, nm_session = 3, nm_data = [1, 2]\<rparr>"

theorem harbor_reassembles_witness:
  "(\<exists>h'. run_steps (receive (\<lambda>_. False) 7) (demo_connected STATUS_HEADER) [[0, 0], [0, 12] @ replicate 11 1, [1, 3]] = Some
     ([Skynet_Send 0x01010101 0x01010101 (1 OR PTYPE_TAG_DONTCOPY) 0x01010101 []], h') \<and> slot_pending (hb_s h' 2) = [3]) \<and>
   run_steps (receive (\<lambda>_. False) 7) (demo_connected STATUS_HEADER) [[0, 0, 0], [1, 9]] = None"
proof -
  define cs where "cs = [[0, 0], [0, 12] @ replicate 11 1, [1, 3 :: u8]]"
  define ds where "ds = [[0, 0, 0], [1, 9 :: u8]]"
  have pending: "slot_pending (hb_s (demo_connected STATUS_HEADER) 2) = []" "sl_status (hb_s (demo_connected STATUS_HEADER) 2) = STATUS_HEADER"
    by (simp_all add: demo_connected_slot free_slave_def slot_pending_def)
  have "concat cs = [0, 0, 0, 12] @ replicate 12 1 @ [3 :: u8]" unfolding cs_def by (simp add: numeral_eq_Suc)
  moreover have "be24 [0, 0, 0, 12] = 12" by (simp add: be24_def)
  ultimately have 1: "harbor_frames (slot_pending (hb_s (demo_connected STATUS_HEADER) 2) @ concat cs) = ([replicate 12 1], Some [3])"
    using harbor_frames_cons [of "[0, 0, 0, 12]" "replicate 12 1" "[3]"] by (simp add: harbor_frames_short pending)
  have 2: "harbor_frames (slot_pending (hb_s (demo_connected STATUS_HEADER) 2) @ concat ds) = ([[9]], Some [])"
    using harbor_frames_cons [of "[0, 0, 0, 1]" "[9]" "[]"] by (simp add: harbor_frames_short pending ds_def be24_def)
  have 3: "[] \<notin> set cs" "[] \<notin> set ds" by (simp_all add: cs_def ds_def)
  have "the (forward_local_messsage (\<lambda>_. False) (demo_connected STATUS_HEADER) (replicate 12 1)) =
      [Skynet_Send 0x01010101 0x01010101 (1 OR PTYPE_TAG_DONTCOPY) 0x01010101 []]"
    unfolding forward_local_messsage_def demo_connected_slot by code_simp
  with harbor_reassembles [OF demo_connected_ok(1) demo_connected_id _ 1 3(1), of "\<lambda>_. False"]
    harbor_reassembles [OF demo_connected_ok(1) demo_connected_id _ 2 3(2), of "\<lambda>_. False"] show ?thesis
    unfolding cs_def [symmetric] ds_def [symmetric]
    by (simp add: HEADER_COOKIE_LENGTH_def pending del: run_steps.simps)
qed

subsection \<open>From one harbor to another\<close>

definition is_send :: "harbor_call \<Rightarrow> bool" where
  "is_send c \<longleftrightarrow> (case c of Skynet_Send _ _ _ _ _ \<Rightarrow> True | _ \<Rightarrow> False)"

text \<open>What is written to a socket, and the message for the local service at the other end.\<close>

definition written :: "int \<Rightarrow> harbor_call list \<Rightarrow> u8 list" where
  "written fd cs = concat (map (\<lambda>c. case c of Socket_Sendbuffer fd' bs \<Rightarrow> if fd' = fd then bs else [] | _ \<Rightarrow> []) cs)"

definition arrival :: "net_message \<Rightarrow> harbor_call" where
  "arrival m = Skynet_Send (nm_source m) (nm_destination m) (nm_type m OR PTYPE_TAG_DONTCOPY) (nm_session m) (nm_data m)"

lemma written_append [simp]: "written fd (cs @ cs') = written fd cs @ written fd cs'"
  by (simp add: written_def)

lemma send_queued_nm: "nm_ok i m \<Longrightarrow> send_queued fd (queued m) = [Socket_Sendbuffer fd (frame_of m), Skynet_Free (nm_data m)]"
  using send_remote_frame [of "nm_data m" fd "cookie_of m"] by (simp add: send_queued_def queued_def frame_of_def nm_ok_def)

lemma send_queued_nms: "list_all (nm_ok i) ms \<Longrightarrow> concat (map (send_queued fd) (map queued ms))
    = concat (map (\<lambda>m. [Socket_Sendbuffer fd (frame_of m), Skynet_Free (nm_data m)]) ms)"
proof (induction ms)
  case (Cons m ms)
  with send_queued_nm [of i m fd] show ?case by simp
qed simp

lemma written_frames: "written fd (concat (map (\<lambda>m. [Socket_Sendbuffer fd (frame_of m), Skynet_Free (nm_data m)]) ms)) = concat (map frame_of ms)"
  by (induction ms) (simp_all add: written_def)

lemma frames_of_messages:
  assumes "list_all (nm_ok i) ms"
  shows "harbor_frames (concat (map frame_of ms)) = (map (\<lambda>m. wire_message (nm_data m) (cookie_of m)) ms, Some [])"
proof -
  have "list_all (\<lambda>(b, c). length b + 12 < 2 ^ 24) (map (\<lambda>m. (nm_data m, cookie_of m)) ms)"
    using assms by (induction ms) (simp_all add: nm_ok_def)
  from frames_of_wire [OF this] show ?thesis by (simp add: comp_def frame_of_def [abs_def])
qed

lemma forward_message:
  assumes "nm_ok i m" "hb_id h = int i" "i < 256" "\<And>c. \<not> fails c"
  shows "forward_local_messsage fails h (wire_message (nm_data m) (cookie_of m)) = Some [arrival m]"
proof -
  have d: "drop_bit 24 (nm_destination m) = of_int (hb_id h)"
    using assms(1-3) by (simp add: nm_ok_def word_unat_eq_iff unsigned_of_nat take_bit_nat_eq_self)
  have s: "sint (of_int (nm_session m) :: u32) = nm_session m"
    using assms(1) by (simp add: nm_ok_def signed_of_int signed_take_bit_int_eq_self)
  from assms(1) have t: "unat (nm_type m) < 256" by (simp add: nm_ok_def)
  show ?thesis
    using forward_wire [of "cookie_of m", OF _ t d assms(4)] s by (simp add: cookie_of_def arrival_def)
qed

lemma forwarded_messages:
  assumes "hb_id h = int i" "i < 256" "\<And>c. \<not> fails c"
  shows "list_all (nm_ok i) ms \<Longrightarrow> forwarded fails h (map (\<lambda>m. wire_message (nm_data m) (cookie_of m)) ms) = map arrival ms"
proof (induction ms)
  case (Cons m ms)
  then have "nm_ok i m" "list_all (nm_ok i) ms" by simp_all
  with forward_message [OF this(1) assms] Cons.IH show ?case by simp
qed simp

lemma receive_handshake:
  assumes h: "harbor_ok h" "harbor_id h fd = Some i" "sl_status (hb_s h i) = STATUS_HANDSHAKE" "slot_queue (hb_s h i) ms"
    and cs: "[] \<notin> set cs" "concat cs = of_nat i # bs" and fs: "harbor_frames bs = (fs, Some r)" "list_all (\<lambda>f. 12 \<le> length f) fs"
  shows "\<exists>s'. run_steps (receive fails fd) h cs = Some (concat (map (send_queued fd) ms) @ forwarded fails h fs, put_slave i s' h)"
proof -
  let ?s = "hb_s h i"
  from cs obtain c cs' where c: "cs = (of_nat i # c) # cs'" "bs = c @ concat cs'"
    by (cases cs) (auto simp: append_eq_Cons_conv)
  from harbor_idD [OF h(2)] have i: "i < 256" "sl_fd ?s = fd" by auto
  note ok = harbor_ok_slot [OF h(1), of i]
  then have fd: "sl_fd ?s \<noteq> 0" using h(3) by (auto simp: slot_ok_def)
  note app = harbor_frames_append [of c "concat cs'", folded c(2), unfolded fs(1)]
  then obtain p where p: "snd (harbor_frames c) = Some p" "fs = fst (harbor_frames c) @ fst (harbor_frames (p @ concat cs'))"
    "snd (harbor_frames (p @ concat cs')) = Some r" by (auto split: option.splits)
  with fs(2) have long: "long_frames c" "long_frames (p @ concat cs')"
    by (simp_all add: long_frames_def list_all_iff long_frame_def HEADER_COOKIE_LENGTH_def)
  have ne: "[] \<notin> set cs'" using cs(1) c(1) by simp
  from handshake_good [where rest = c and fails = fails, OF ok h(3) refl i(1) h(4)] long(1) p(1) i(2) obtain s1 where
    s1: "data_loop fails h i (of_nat i # c) = Some (concat (map (send_queued fd) ms) @ forwarded fails h (fst (harbor_frames c)), put_slave i s1 h)"
    "slot_holds s1 p" "sl_fd s1 = fd" "sl_queue s1 = None" by (auto simp: slot_after_def)
  have "harbor_id (put_slave i s1 h) fd = Some i" using h(2) s1(3) i(2) by (simp add: harbor_id_put)
  from receive_frames [where cs = cs' and fails = fails, OF s1(2) _ s1(4) _ this ne long(2)] s1(3) fd i(2) p(3) obtain s2 where
    "run_steps (receive fails fd) (put_slave i s1 h) cs' = Some (forwarded fails h (fst (harbor_frames (p @ concat cs'))), put_slave i s2 h)" by auto
  with s1(1) c(1) p(2) receive_loop [OF h(2), of fails] show ?thesis by auto
qed

lemma is_send_queued: "filter is_send (concat (map (send_queued fd) ms)) = []"
  by (induction ms) (simp_all add: send_queued_def harbor_send_remote_def is_send_def Let_def)

lemma sender_run:
  assumes "hb_id A = int j" "i \<noteq> j" "1 \<le> i" "i < 256" "sl_fd (hb_s A i) = 0" "sl_status (hb_s A i) = STATUS_WAIT" "sl_queue (hb_s A i) = None"
    and "0 < fd" "fd < 2 ^ 31" "list_all (nm_ok i) ms" "list_all (nm_ok i) ns"
  shows "\<exists>cs A'. run_steps (harbor_step fails) A (map submit ms @ [connect (CHR ''A'') fd i] @ map submit ns) = Some (cs, A') \<and>
    written (int fd) cs = of_nat j # concat (map frame_of (ms @ ns))"
proof -
  have id: "hb_id A \<noteq> int i" using assms(1,2) by simp
  have "slot_queue (hb_s A i) []" using assms(7) by (simp add: slot_queue_def)
  from submits_wait [OF assms(10,3) id this, of fails] assms(5,6) obtain s1 where
    s1: "run_steps (harbor_step fails) A (map submit ms) = Some ([], put_slave i s1 A)" "slot_queue s1 (map queued ms)"
    "s1 = (hb_s A i)\<lparr>sl_queue := sl_queue s1\<rparr>" by auto
  have "sl_fd s1 = 0" by (subst s1(3)) (simp add: assms(5))
  with connect_accept [OF assms(8,9,3,4), of "put_slave i s1 A" "map queued ms" fails] s1(2) obtain s2 where
    s2: "harbor_step fails (put_slave i s1 A) (connect (CHR ''A'') fd i) = Some ([Socket_Start (int fd), Socket_Sendbuffer (int fd) [of_int (hb_id A)]]
      @ concat (map (send_queued (int fd)) (map queued ms)), put_slave i s2 A)" "sl_fd s2 = int fd" "sl_status s2 = STATUS_HEADER" by auto
  from submits_go [OF assms(11,3), of "put_slave i s2 A" fails] id s2(2,3) assms(8) have
    "run_steps (harbor_step fails) (put_slave i s2 A) (map submit ns)
      = Some (concat (map (\<lambda>m. [Socket_Sendbuffer (int fd) (frame_of m), Skynet_Free (nm_data m)]) ns), put_slave i s2 A)" by simp
  with s1(1) s2(1) have "run_steps (harbor_step fails) A (map submit ms @ [connect (CHR ''A'') fd i] @ map submit ns)
    = Some ([Socket_Start (int fd), Socket_Sendbuffer (int fd) [of_int (hb_id A)]]
      @ concat (map (\<lambda>m. [Socket_Sendbuffer (int fd) (frame_of m), Skynet_Free (nm_data m)]) ms)
      @ concat (map (\<lambda>m. [Socket_Sendbuffer (int fd) (frame_of m), Skynet_Free (nm_data m)]) ns), put_slave i s2 A)"
    unfolding send_queued_nms [OF assms(10)] by (simp add: run_steps_append)
  moreover have "written (int fd) ([Socket_Start (int fd), Socket_Sendbuffer (int fd) [of_int (hb_id A)]]
      @ concat (map (\<lambda>m. [Socket_Sendbuffer (int fd) (frame_of m), Skynet_Free (nm_data m)]) ms)
      @ concat (map (\<lambda>m. [Socket_Sendbuffer (int fd) (frame_of m), Skynet_Free (nm_data m)]) ns)) = of_nat j # concat (map frame_of (ms @ ns))"
    unfolding written_append written_frames by (simp add: written_def assms(1))
  ultimately show ?thesis by blast
qed


lemma demo_message_ok: "nm_ok 2 demo_message"
  by (simp add: nm_ok_def demo_message_def)


subsection \<open>Lost messages\<close>

text \<open>Property: When a stream is closed for a bad length, nobody is told: a message for that harbor is not reported to its source as the code
  means to do (the branch is behind a test that a closed connection never passes), but is written to the closed socket and
  freed.\<close>

theorem harbor_down_is_silent:
  assumes h: "harbor_ok h" "harbor_id h fd = Some i" "sl_status (hb_s h i) = STATUS_HEADER \<or> sl_status (hb_s h i) = STATUS_CONTENT"
    and bad: "snd (harbor_frames (slot_pending (hb_s h i) @ concat chunks)) = None" "long_frames (slot_pending (hb_s h i) @ concat chunks)" "[] \<notin> set chunks"
    and m: "nm_ok i m" "hb_id h \<noteq> int i"
  shows "\<exists>cs h'. run_steps (receive fails fd) h chunks = Some (cs @ [Skynet_Error (Log_Too_Long i), Socket_Close fd], h') \<and>
    harbor_step fails h' (submit m) = Some ([Socket_Sendbuffer fd (frame_of m), Skynet_Free (nm_data m)], h')"
proof -
  from harbor_ok_slot [OF h(1), of i] h(3) have s: "slot_holds (hb_s h i) (slot_pending (hb_s h i))"
    "sl_queue (hb_s h i) = None" "sl_fd (hb_s h i) \<noteq> 0" by (auto simp: slot_ok_def)
  from harbor_idD [OF h(2)] have i: "sl_fd (hb_s h i) = fd" "1 \<le> i" by auto
  define bs where "bs = slot_pending (hb_s h i) @ concat chunks"
  from receive_frames [where cs = chunks and fails = fails, OF s(1) refl s(2,3) h(2) bad(3,2)] bad(1) obtain s' where
    s': "run_steps (receive fails fd) h chunks = Some (forwarded fails h (fst (harbor_frames bs)) @ ending i fd None, put_slave i s' h)"
    "slot_after s' None" "sl_fd s' = sl_fd (hb_s h i)" unfolding bs_def by auto
  have d: "unat (drop_bit 24 (nm_destination m)) = i" "length (nm_data m) + 12 < 2 ^ 32" using m(1) by (simp_all add: nm_ok_def)
  from submit_goes [OF d i(2), of "put_slave i s' h" fails] m(2) s'(2,3) s(3) i(1) [symmetric]
  have "harbor_step fails (put_slave i s' h) (submit m) = Some ([Socket_Sendbuffer fd (frame_of m), Skynet_Free (nm_data m)], put_slave i s' h)"
    by (simp add: slot_after_def)
  with s'(1) show ?thesis by (auto simp: ending_def)
qed

theorem harbor_down_is_silent_witness:
  "\<exists>cs h'. run_steps (receive (\<lambda>_. False) 7) (demo_connected STATUS_HEADER) [[1, 0], [0, 0]]
      = Some (cs @ [Skynet_Error (Log_Too_Long 2), Socket_Close 7], h') \<and>
    harbor_step (\<lambda>_. False) h' (submit demo_message) = Some ([Socket_Sendbuffer 7 (frame_of demo_message), Skynet_Free [1, 2]], h')"
proof -
  have pending: "slot_pending (hb_s (demo_connected STATUS_HEADER) 2) = []" "sl_status (hb_s (demo_connected STATUS_HEADER) 2) = STATUS_HEADER"
    by (simp_all add: demo_connected_slot free_slave_def slot_pending_def)
  have "harbor_frames (slot_pending (hb_s (demo_connected STATUS_HEADER) 2) @ concat [[1, 0], [0, 0]]) = ([], None)"
    by (simp add: pending harbor_frames_bad)
  then show ?thesis
    using harbor_down_is_silent [OF demo_connected_ok(1) demo_connected_id, of "[[1, 0], [0, 0]]" demo_message "\<lambda>_. False"] demo_message_ok
    by (simp add: pending long_frames_def demo_connected_slot demo_message_def del: run_steps.simps)
qed

lemma top_byte_large: "2 ^ 24 \<le> n \<Longrightarrow> n < 2 ^ 32 \<Longrightarrow> to_bigendian (of_nat n) ! 0 \<noteq> 0"
proof -
  assume n: "2 ^ 24 \<le> n" "n < 2 ^ 32"
  have "unat (drop_bit 24 (of_nat n :: u32)) = n div 2 ^ 24"
    using n by (simp add: unat_div_distrib unsigned_of_nat take_bit_nat_eq_self drop_bit_eq_div)
  moreover have "n div 2 ^ 24 < 256" "0 < n div 2 ^ 24" using n by (simp_all add: div_less_iff_less_mult div_greater_zero_iff)
  ultimately have "unat (ucast (drop_bit 24 (of_nat n :: u32)) :: u8) = n div 2 ^ 24"
    by (simp add: unsigned_ucast_eq take_bit_nat_eq_self)
  with \<open>0 < n div 2 ^ 24\<close> show ?thesis by (auto simp: to_bigendian_ucast)
qed

text \<open>Property: The two ends do not agree on the longest message: the sender takes every message whose length fits into 32 bits, the receiver
  only 24 bits. A message of 16 MB is written, and the other harbor closes the connection because of it, whatever comes after.\<close>

theorem harbor_too_large_closes:
  assumes A: "sl_fd (hb_s A i) = fd" "fd \<noteq> 0" "sl_status (hb_s A i) \<noteq> STATUS_HANDSHAKE" "hb_id A \<noteq> int i" "1 \<le> i"
    and B: "harbor_ok B" "harbor_id B fd' = Some j" "sl_status (hb_s B j) = STATUS_HEADER" "slot_pending (hb_s B j) = []"
    and m: "unat (drop_bit 24 (nm_destination m)) = i" "2 ^ 24 - 12 \<le> length (nm_data m)" "length (nm_data m) < 2 ^ 32 - 12"
  shows "harbor_step fails A (submit m) = Some ([Socket_Sendbuffer fd (frame_of m), Skynet_Free (nm_data m)], A) \<and>
    (\<forall>chunks rest. concat chunks = frame_of m @ rest \<and> [] \<notin> set chunks \<longrightarrow>
       (\<exists>B'. run_steps (receive fails fd') B chunks = Some ([Skynet_Error (Log_Too_Long j), Socket_Close fd'], B')))"
proof -
  have n: "2 ^ 24 \<le> length (nm_data m) + 12" "length (nm_data m) + 12 < 2 ^ 32" using m(2,3) by simp_all
  from submit_goes [OF m(1) n(2) A(5,4)] A(1-3)
  have send: "harbor_step fails A (submit m) = Some ([Socket_Sendbuffer fd (frame_of m), Skynet_Free (nm_data m)], A)" by auto
  from harbor_ok_slot [OF B(1), of j] B(3,4) have s: "slot_holds (hb_s B j) []" "sl_queue (hb_s B j) = None" "sl_fd (hb_s B j) \<noteq> 0"
    by (auto simp: slot_ok_def)
  have "\<exists>B'. run_steps (receive fails fd') B chunks = Some ([Skynet_Error (Log_Too_Long j), Socket_Close fd'], B')"
    if "concat chunks = frame_of m @ rest" "[] \<notin> set chunks" for chunks rest
  proof -
    have "(frame_of m @ rest) ! 0 \<noteq> 0" using top_byte_large [OF n] by (simp add: frame_of_def wire_frame_def nth_append)
    then have F: "harbor_frames (concat chunks) = ([], None)" unfolding that(1)
      by (intro harbor_frames_bad) (simp_all add: frame_of_def wire_frame_def)
    from receive_frames [where cs = chunks and fails = fails, OF s(1) refl s(2,3) B(2) that(2)] show ?thesis
      by (auto simp: F ending_def long_frames_def)
  qed
  with send show ?thesis by blast
qed

lemma frame_of_ne: "frame_of m \<noteq> []"
  by (simp add: frame_of_def wire_frame_def flip: length_greater_0_conv)

theorem harbor_too_large_closes_witness:
  "\<exists>B'. run_steps (receive (\<lambda>_. False) 7) (demo_connected STATUS_HEADER)
     [frame_of (demo_message\<lparr>nm_data := replicate (2 ^ 24) 0\<rparr>)] = Some ([Skynet_Error (Log_Too_Long 2), Socket_Close 7], B')"
proof -
  define m where "m = demo_message\<lparr>nm_data := replicate (2 ^ 24) 0\<rparr>"
  have "nm_destination m = 0x2000009" "length (nm_data m) = 2 ^ 24" by (simp_all add: m_def demo_message_def)
  with harbor_too_large_closes [of "demo_connected STATUS_HEADER" 2 7 "demo_connected STATUS_HEADER" 7 2 m "\<lambda>_. False"]
    demo_connected_ok(1) demo_connected_id
  have "\<forall>chunks rest. concat chunks = frame_of m @ rest \<and> [] \<notin> set chunks \<longrightarrow> (\<exists>B'. run_steps (receive (\<lambda>_. False) 7)
      (demo_connected STATUS_HEADER) chunks = Some ([Skynet_Error (Log_Too_Long 2), Socket_Close 7], B'))"
    by (simp add: demo_connected_slot free_slave_def slot_pending_def del: run_steps.simps)
  from this [rule_format, of "[frame_of m]" "[]"] frame_of_ne [of m] show ?thesis unfolding m_def [symmetric] by auto
qed

text \<open>A message to a name that is not known yet, and the announcement of the name by its owner.\<close>

definition submit_named :: "u8 list \<Rightarrow> net_message \<Rightarrow> harbor_event" where
  "submit_named name m = (PTYPE_SYSTEM, nm_session m, nm_source m, In_Remote
     \<lparr>rm_name = name @ replicate (16 - length name) 0, rm_handle = 0, rm_message = None, rm_sz = of_nat (length (nm_data m)), rm_type = nm_type m\<rparr>
     (nm_data m))"

definition announce :: "u8 list \<Rightarrow> u32 \<Rightarrow> harbor_event" where
  "announce name handle = (PTYPE_HARBOR, 0, handle, In_Text (string_bytes ''N '' @ name))"

definition named_cookie :: "net_message \<Rightarrow> remote_message_header" where
  "named_cookie m = \<lparr>hd_source = nm_source m, hd_destination = push_bit 24 (nm_type m), hd_session = of_int (nm_session m)\<rparr>"

lemma submit_named_step:
  assumes "hash_search (hb_map h) (name @ replicate (16 - length name) 0) = None"
  shows "\<exists>q hash node. harbor_step fails h (submit_named name m) =
      Some ([Skynet_Send 0 (hb_slave h) PTYPE_TEXT 0 (string_bytes ''Q '' @ c_str (name @ replicate (16 - length name) 0))], h\<lparr>hb_map := hash\<rparr>) \<and>
    hash_search hash (name @ replicate (16 - length name) 0) = Some node \<and> kv_queue node = Some q \<and>
    hq_inv q \<and> hq_list q = [\<lparr>hm_header = named_cookie m, hm_buffer = nm_data m\<rparr>]"
proof -
  let ?name = "name @ replicate (16 - length name) 0"
  let ?i = "hash_insert (hb_map h) ?name"
  from hq.enq_ok [OF new_queue_inv(1), of "\<lparr>hm_header = named_cookie m, hm_buffer = nm_data m\<rparr>"] new_queue_inv(2) obtain q where
    q: "push_queue_msg \<lparr>hm_header = named_cookie m, hm_buffer = nm_data m\<rparr> new_queue = Some q" "hq_inv q"
    "hq_list q = [\<lparr>hm_header = named_cookie m, hm_buffer = nm_data m\<rparr>]" by auto
  have i: "kv_value (fst ?i) = 0" "kv_queue (fst ?i) = None" by (simp_all add: hash_insert_def Let_def)
  have "hash_find_or_insert (hb_map h) ?name = ?i" using assms by (simp add: hash_find_or_insert_def)
  then have "remote_send_name h (nm_source m) ?name (nm_type m) (nm_session m) (nm_data m) = Some (1,
      [Skynet_Send 0 (hb_slave h) PTYPE_TEXT 0 (string_bytes ''Q '' @ c_str ?name)],
      h\<lparr>hb_map := hash_put (snd ?i) ?name ((fst ?i)\<lparr>kv_queue := Some q\<rparr>)\<rparr>)"
    unfolding remote_send_name_def using i q(1) by (simp add: push_queue_def case_prod_unfold Let_def named_cookie_def HANDLE_REMOTE_SHIFT_def)
  moreover have "hash_search (hash_put (snd ?i) ?name ((fst ?i)\<lparr>kv_queue := Some q\<rparr>)) ?name = Some ((fst ?i)\<lparr>kv_queue := Some q\<rparr>)"
    by (simp add: hash_insert_def Let_def key_matches_def hash_search_def hash_put_def)
  ultimately show ?thesis
    using q(2,3)
    by (intro exI [of _ q] exI [of _ "hash_put (snd ?i) ?name ((fst ?i)\<lparr>kv_queue := Some q\<rparr>)"] exI [of _ "(fst ?i)\<lparr>kv_queue := Some q\<rparr>"])
      (simp add: harbor_step_def submit_named_def harbor_mainloop_def PTYPE_SOCKET_def PTYPE_HARBOR_def PTYPE_SYSTEM_def c_assert_def)
qed

lemma announce_step:
  assumes "hash_search (hb_map h) (name @ replicate (16 - length name) 0) = Some node" "kv_queue node = Some q" "hq_inv q" "hq_list q = ms"
    and name: "name \<noteq> []" "length name < 16" and i: "unat (drop_bit 24 handle) = i" "i \<noteq> unat (drop_bit 24 (hb_slave h))"
    and free: "sl_fd (hb_s h i) = 0" "sl_status (hb_s h i) = STATUS_WAIT" "sl_queue (hb_s h i) = None"
  shows "\<exists>hash. harbor_step fails h (announce name handle) = Some ([], put_slave i ((hb_s h i)\<lparr>sl_queue := Some q\<rparr>) (h\<lparr>hb_map := hash\<rparr>))"
proof -
  let ?name = "name @ replicate (16 - length name) 0"
  have "dispatch_name_queue h (kv_key node) handle q = Some ([], put_slave i ((hb_s h i)\<lparr>sl_queue := Some q\<rparr>) h)"
    unfolding dispatch_name_queue_def HANDLE_REMOTE_SHIFT_def i(1) Let_def using free i(2) by simp
  then have "\<exists>hash. update_name h ?name handle = Some ([], put_slave i ((hb_s h i)\<lparr>sl_queue := Some q\<rparr>) (h\<lparr>hb_map := hash\<rparr>))"
    using assms(1,2)
    by (intro exI [of _ "hash_put (hb_map h) ?name (node\<lparr>kv_value := handle, kv_queue := None\<rparr>)"])
      (cases h, simp add: update_name_def hash_find_or_insert_def put_slave_def)
  moreover have "char_of (unat (of_char CHR ''N'' :: u8)) = CHR ''N''" by (simp only: unat_of_char char_of_char)
  ultimately show ?thesis
    using name by (auto simp: harbor_step_def announce_def harbor_mainloop_def harbor_command_def PTYPE_SOCKET_def PTYPE_HARBOR_def
      string_bytes_def array_get_def GLOBALNAME_LENGTH_def)
qed

text \<open>Property: A message to a global name that is resolved before its harbor is connected does not reach the owner of the name: the branch of
  the code for a missing connection leaves out the handle, so that the other harbor sends the message to handle 0.\<close>

theorem harbor_name_loses_handle:
  assumes "hash_search (hb_map A) (name @ replicate (16 - length name) 0) = None" "name \<noteq> []" "length name < 16"
    and i: "unat (drop_bit 24 handle) = i" "i \<noteq> unat (drop_bit 24 (hb_slave A))" "1 \<le> i" "hb_s A i = free_slave" "0 < fd" "fd < 2 ^ 31"
    and m: "unat (nm_type m) < 256" "length (nm_data m) + 12 < 2 ^ 24" and B: "hb_id B = int i" and fails: "\<And>c. \<not> fails c"
  shows "(\<exists>A'. run_steps (harbor_step fails) A [submit_named name m, announce name handle, connect (CHR ''A'') fd i] = Some
      ([Skynet_Send 0 (hb_slave A) PTYPE_TEXT 0 (string_bytes ''Q '' @ c_str (name @ replicate (16 - length name) 0)),
        Socket_Start (int fd), Socket_Sendbuffer (int fd) [of_int (hb_id A)],
        Socket_Sendbuffer (int fd) (wire_frame (nm_data m) (named_cookie m)), Skynet_Free (nm_data m)], A')) \<and>
    forward_local_messsage fails B (wire_message (nm_data m) (named_cookie m)) = Some
      [Skynet_Send (nm_source m) (push_bit 24 (of_nat i)) (nm_type m OR PTYPE_TAG_DONTCOPY) (sint (of_int (nm_session m) :: u32)) (nm_data m)]"
proof -
  let ?m = "\<lparr>hm_header = named_cookie m, hm_buffer = nm_data m\<rparr>"
  have small: "drop_bit 24 handle = of_nat i" by (simp add: word_unat_eq_iff i(1) [symmetric])
  have "unat handle < 2 ^ 32" using unsigned_less [of handle, where ?'a = nat] by simp
  then have i256: "i < 256" using i(1) by (simp add: drop_bit_eq_div unat_div_distrib div_less_iff_less_mult flip: i(1))
  from submit_named_step [OF assms(1), of fails m] obtain q hash node where
    s1: "harbor_step fails A (submit_named name m) = Some ([Skynet_Send 0 (hb_slave A) PTYPE_TEXT 0
        (string_bytes ''Q '' @ c_str (name @ replicate (16 - length name) 0))], A\<lparr>hb_map := hash\<rparr>)"
    "hash_search hash (name @ replicate (16 - length name) 0) = Some node" "kv_queue node = Some q" "hq_inv q" "hq_list q = [?m]" by blast
  from announce_step [OF _ s1(3-5) assms(2,3) i(1), of "A\<lparr>hb_map := hash\<rparr>" fails] s1(2) i(2,4) obtain hash' where
    s2: "harbor_step fails (A\<lparr>hb_map := hash\<rparr>) (announce name handle) = Some ([], put_slave i (free_slave\<lparr>sl_queue := Some q\<rparr>) (A\<lparr>hb_map := hash'\<rparr>))"
    by (auto simp: free_slave_def)
  from connect_accept [OF i(5,6,3) i256, of "put_slave i (free_slave\<lparr>sl_queue := Some q\<rparr>) (A\<lparr>hb_map := hash'\<rparr>)" "[?m]" fails] s1(4,5) obtain s3 where
    s3: "harbor_step fails (put_slave i (free_slave\<lparr>sl_queue := Some q\<rparr>) (A\<lparr>hb_map := hash'\<rparr>)) (connect (CHR ''A'') fd i)
      = Some ([Socket_Start (int fd), Socket_Sendbuffer (int fd) [of_int (hb_id A)]] @ send_queued (int fd) ?m, put_slave i s3 (A\<lparr>hb_map := hash'\<rparr>))"
    by (auto simp: free_slave_def slot_queue_def)
  have "send_queued (int fd) ?m = [Socket_Sendbuffer (int fd) (wire_frame (nm_data m) (named_cookie m)), Skynet_Free (nm_data m)]"
    using send_remote_frame [of "nm_data m" "int fd" "named_cookie m"] m(2) by (simp add: send_queued_def)
  with s1(1) s2 s3 have run: "run_steps (harbor_step fails) A [submit_named name m, announce name handle, connect (CHR ''A'') fd i] = Some
      ([Skynet_Send 0 (hb_slave A) PTYPE_TEXT 0 (string_bytes ''Q '' @ c_str (name @ replicate (16 - length name) 0)),
        Socket_Start (int fd), Socket_Sendbuffer (int fd) [of_int (hb_id A)],
        Socket_Sendbuffer (int fd) (wire_frame (nm_data m) (named_cookie m)), Skynet_Free (nm_data m)], put_slave i s3 (A\<lparr>hb_map := hash'\<rparr>))"
    by simp
  have d: "push_bit 24 (of_nat i :: u32) AND HANDLE_MASK = 0" by (rule bit_word_eqI) (auto simp: handle_mask bit_simps)
  have "drop_bit 24 (push_bit 24 (of_nat i :: u32)) = of_nat i" 
  proof (rule bit_word_eqI)
    fix k assume "k < LENGTH(32)"
    show "bit (drop_bit 24 (push_bit 24 (of_nat i :: u32))) k = bit (of_nat i :: u32) k"
      unfolding small [symmetric] by (auto simp: bit_simps dest: bit_imp_le_length)
  qed
  with forward_wire [of "named_cookie m" "nm_type m" "push_bit 24 (of_nat i)", OF _ m(1) _ fails] d B
  have "forward_local_messsage fails B (wire_message (nm_data m) (named_cookie m)) = Some
      [Skynet_Send (nm_source m) (push_bit 24 (of_nat i)) (nm_type m OR PTYPE_TAG_DONTCOPY) (sint (of_int (nm_session m) :: u32)) (nm_data m)]"
    by (simp add: named_cookie_def)
  with run show ?thesis by blast
qed

theorem harbor_name_loses_handle_witness:
  "(\<exists>A'. run_steps (harbor_step (\<lambda>_. False)) (demo_harbor 1)
      [submit_named [65] demo_message, announce [65] 0x2000009, connect (CHR ''A'') 7 2] = Some
      ([Skynet_Send 0 1 PTYPE_TEXT 0 (string_bytes ''Q '' @ c_str ([65] @ replicate (16 - 1) 0)),
        Socket_Start 7, Socket_Sendbuffer 7 [1],
        Socket_Sendbuffer 7 (wire_frame [1, 2] (named_cookie demo_message)), Skynet_Free [1, 2]], A')) \<and>
    forward_local_messsage (\<lambda>_. False) (demo_harbor 2) (wire_message [1, 2] (named_cookie demo_message)) = Some
      [Skynet_Send 0x1000005 (push_bit 24 (of_nat 2)) (10 OR PTYPE_TAG_DONTCOPY) (sint (of_int 3 :: u32)) [1, 2]]"
  using harbor_name_loses_handle [of "demo_harbor 1" "[65]" "0x2000009" 2 7 demo_message "demo_harbor 2" "\<lambda>_. False"]
  by (simp add: demo_harbor_def harbor_create_def hash_new_def hash_search_def demo_message_def del: run_steps.simps)

end
