(* ===== verification/Socket_Server.thy ===== *)
theory Socket_Server
  imports Skynet_Prelude
begin

text \<open>
  \<^verbatim>\<open>skynet-src/socket_server.c\<close>: the slots of the sockets, their buffers, and the functions that the socket thread and the workers
  call on them. The state of a slot is a record with the fields of \<^verbatim>\<open>struct socket\<close>; both lists of buffers are lists, and so there
  are no tail pointers.

  System calls are outside of the program. What a function asks of the system (bytes it writes, descriptors it closes, blocks it
  frees) is recorded in order as a list of calls; what the system answers is an argument: for the writes a list of results, the
  result of a read, an accept or a connect, and two predicates that say for which descriptors the event queue refuses a change. A
  write with the result \<open>Room n\<close> takes at most \<open>n\<close> bytes of what it is given; when the list is at its end, the system has no room
  (\<^verbatim>\<open>EAGAIN\<close>). So a list stands for every behaviour with finitely many interrupted calls.

  A function runs as one step: the lock of a socket covers the steps of the workers, and the socket thread is alone. \<open>None\<close> is a
  failed assertion or an access outside a block.
\<close>

subsection \<open>Constants\<close>

definition MAX_SOCKET :: nat where "MAX_SOCKET = 65536"
definition MIN_READ_BUFFER :: int where "MIN_READ_BUFFER = 64"
definition WARNING_SIZE :: int where "WARNING_SIZE = 1024 * 1024"
definition PROTOCOL_TCP :: u8 where "PROTOCOL_TCP = 0"
definition PROTOCOL_UDP :: u8 where "PROTOCOL_UDP = 1"
definition PROTOCOL_UDPv6 :: u8 where "PROTOCOL_UDPv6 = 2"
definition PROTOCOL_UNKNOWN :: u8 where "PROTOCOL_UNKNOWN = 255"

datatype socket_type =
    SOCKET_TYPE_INVALID | SOCKET_TYPE_RESERVE | SOCKET_TYPE_PLISTEN | SOCKET_TYPE_LISTEN | SOCKET_TYPE_CONNECTING
  | SOCKET_TYPE_CONNECTED | SOCKET_TYPE_HALFCLOSE_READ | SOCKET_TYPE_HALFCLOSE_WRITE | SOCKET_TYPE_PACCEPT | SOCKET_TYPE_BIND

definition HASH_ID :: "int \<Rightarrow> nat" where
  "HASH_ID i = nat (i mod int MAX_SOCKET)"

definition ID_TAG16 :: "int \<Rightarrow> nat" where
  "ID_TAG16 i = nat (i div int MAX_SOCKET mod 65536)"

subsection \<open>Data\<close>

text \<open>A buffer in a list has memory for an address only when it was made for a datagram.

  What is sent: a block of memory, or an object whose interface returns these bytes. The caller may also lend a block
  (\<open>Raw\<close>), which has to be copied to be kept.\<close>

datatype send_data = Memory "u8 list" | Object "u8 list"

datatype sendbuffer = Owned send_data | Raw "u8 list"

fun data_bytes :: "send_data \<Rightarrow> u8 list" where
  "data_bytes (Memory bs) = bs"
| "data_bytes (Object bs) = bs"

record write_buffer =
  wb_data :: send_data
  wb_ptr :: nat
  wb_udp :: "u8 list option"

definition wb_rest :: "write_buffer \<Rightarrow> u8 list" where
  "wb_rest wb = drop (wb_ptr wb) (data_bytes (wb_data wb))"

record socket =
  so_opaque :: nat
  so_high :: "write_buffer list"
  so_low :: "write_buffer list"
  so_wb_size :: int
  so_rtime :: u64
  so_wtime :: u64
  so_stat_read :: u64
  so_stat_write :: u64
  so_sending :: nat
  so_fd :: int
  so_id :: int
  so_type :: socket_type
  so_protocol :: u8
  so_reading :: bool
  so_writing :: bool
  so_closing :: bool
  so_udpconnecting :: int
  so_warn_size :: int
  so_size :: int
  so_udp_address :: "u8 list"
  so_dw_offset :: nat
  so_dw_buffer :: "send_data option"

record socket_server =
  ss_time :: u64
  ss_alloc_id :: u32
  ss_slot :: "nat \<Rightarrow> socket"

datatype ss_kind =
    SOCKET_DATA | SOCKET_CLOSE | SOCKET_OPEN | SOCKET_ACCEPT | SOCKET_ERR | SOCKET_EXIT | SOCKET_UDP | SOCKET_WARNING
  | SOCKET_RST | SOCKET_MORE

text \<open>The data of a result: nothing, a text of the code, a text of the system, or the bytes that were read.\<close>

datatype res_data = No_Data | Text string | System_Text | Bytes_Read "u8 list"

record socket_result =
  res_kind :: ss_kind
  res_id :: int
  res_opaque :: nat
  res_ud :: int
  res_data :: res_data

datatype ss_call =
    Sys_Write int "u8 list"
  | Sys_Sendto int "u8 list" "u8 list"
  | Sys_Free send_data
  | Sys_Close int
  | Sys_Shutdown_Read int
  | Sys_Shutdown_Write int
  | Sys_Add int
  | Sys_Del int
  | Sys_Enable int bool bool
  | Sys_Setopt int int int
  | Sys_Error string

datatype io = Room nat | Fail_Intr | Fail_Again | Fail_Other

text \<open>For which calls \<^verbatim>\<open>sp_add\<close> and \<^verbatim>\<open>sp_enable\<close> report an error.\<close>

record poll_errors =
  add_fails :: "int \<Rightarrow> bool"
  enable_fails :: "int \<Rightarrow> bool \<Rightarrow> bool \<Rightarrow> bool"

definition socket_invalid :: "socket \<Rightarrow> int \<Rightarrow> bool" where
  "socket_invalid s i \<longleftrightarrow> so_id s \<noteq> i \<or> so_type s = SOCKET_TYPE_INVALID"

definition result_of :: "ss_kind \<Rightarrow> socket \<Rightarrow> int \<Rightarrow> res_data \<Rightarrow> socket_result" where
  "result_of k s ud data = \<lparr>res_kind = k, res_id = so_id s, res_opaque = so_opaque s, res_ud = ud, res_data = data\<rparr>"

definition free_of :: "sendbuffer \<Rightarrow> ss_call list" where
  "free_of buf = (case buf of Owned d \<Rightarrow> [Sys_Free d] | Raw _ \<Rightarrow> [])"

definition clone_buffer :: "sendbuffer \<Rightarrow> send_data" where
  "clone_buffer buf = (case buf of Owned d \<Rightarrow> d | Raw bs \<Rightarrow> Memory bs)"

subsection \<open>Slots\<close>

definition empty_slot :: socket where
  "empty_slot = \<lparr>so_opaque = 0, so_high = [], so_low = [], so_wb_size = 0, so_rtime = 0, so_wtime = 0, so_stat_read = 0, so_stat_write = 0,
     so_sending = 0, so_fd = 0, so_id = 0, so_type = SOCKET_TYPE_INVALID, so_protocol = 0, so_reading = False, so_writing = False,
     so_closing = False, so_udpconnecting = 0, so_warn_size = 0, so_size = 0, so_udp_address = [], so_dw_offset = 0, so_dw_buffer = None\<rparr>"

definition socket_server_create :: "u64 \<Rightarrow> socket_server" where
  "socket_server_create time = \<lparr>ss_time = time, ss_alloc_id = 0, ss_slot = (\<lambda>_. empty_slot)\<rparr>"

definition socket_server_updatetime :: "socket_server \<Rightarrow> u64 \<Rightarrow> socket_server" where
  "socket_server_updatetime ss time = ss\<lparr>ss_time := time\<rparr>"

definition put_slot :: "int \<Rightarrow> socket \<Rightarrow> socket_server \<Rightarrow> socket_server" where
  "put_slot i s ss = ss\<lparr>ss_slot := (ss_slot ss)(HASH_ID i := s)\<rparr>"

text \<open>\<^verbatim>\<open>reserve_id\<close>; the counter is a signed number that wraps around to 0.\<close>

fun reserve_loop :: "nat \<Rightarrow> socket_server \<Rightarrow> int \<times> socket_server" where
  "reserve_loop 0 ss = (- 1, ss)"
| "reserve_loop (Suc n) ss = (
     let alloc = ss_alloc_id ss + 1;
         (i, alloc) = (if sint alloc < 0 then (uint (alloc AND 0x7fffffff), alloc AND 0x7fffffff) else (sint alloc, alloc));
         ss = ss\<lparr>ss_alloc_id := alloc\<rparr>; s = ss_slot ss (HASH_ID i) in
     if so_type s = SOCKET_TYPE_INVALID then
       (i, put_slot i (s\<lparr>so_type := SOCKET_TYPE_RESERVE, so_id := i, so_protocol := PROTOCOL_UNKNOWN, so_udpconnecting := 0, so_fd := - 1\<rparr>) ss)
     else reserve_loop n ss)"

definition reserve_id :: "socket_server \<Rightarrow> int \<times> socket_server" where
  "reserve_id ss = reserve_loop MAX_SOCKET ss"

definition enable_write :: "poll_errors \<Rightarrow> socket \<Rightarrow> bool \<Rightarrow> bool \<times> ss_call list \<times> socket" where
  "enable_write pe s enable =
     (if so_writing s \<noteq> enable then (enable_fails pe (so_fd s) (so_reading s) enable, [Sys_Enable (so_fd s) (so_reading s) enable], s\<lparr>so_writing := enable\<rparr>)
      else (False, [], s))"

definition enable_read :: "poll_errors \<Rightarrow> socket \<Rightarrow> bool \<Rightarrow> bool \<times> ss_call list \<times> socket" where
  "enable_read pe s enable =
     (if so_reading s \<noteq> enable then (enable_fails pe (so_fd s) enable (so_writing s), [Sys_Enable (so_fd s) enable (so_writing s)], s\<lparr>so_reading := enable\<rparr>)
      else (False, [], s))"

text \<open>\<^verbatim>\<open>new_fd\<close> on the slot of the id: no slot is returned when the event queue is full.\<close>

definition new_fd :: "poll_errors \<Rightarrow> int \<Rightarrow> int \<Rightarrow> u8 \<Rightarrow> nat \<Rightarrow> bool \<Rightarrow> socket \<Rightarrow> (bool \<times> ss_call list \<times> socket) option" where
  "new_fd pe i fd protocol opaque reading s = do {
     c_assert (so_type s = SOCKET_TYPE_RESERVE);
     if add_fails pe fd then Some (False, [Sys_Add fd], s\<lparr>so_type := SOCKET_TYPE_INVALID\<rparr>)
     else do {
       c_assert (so_high s = [] \<and> so_low s = []);
       let (failed, cs, s) = enable_read pe (s\<lparr>so_id := i, so_fd := fd, so_reading := True, so_writing := False, so_closing := False,
             so_sending := ID_TAG16 i * 65536, so_protocol := protocol, so_size := MIN_READ_BUFFER, so_opaque := opaque, so_wb_size := 0,
             so_warn_size := 0, so_dw_buffer := None, so_rtime := 0, so_wtime := 0, so_stat_read := 0, so_stat_write := 0\<rparr>) reading in
       Some (\<not> failed, Sys_Add fd # cs, if failed then s\<lparr>so_type := SOCKET_TYPE_INVALID\<rparr> else s) } }"

definition force_close :: "socket \<Rightarrow> (ss_call list \<times> socket) option" where
  "force_close s =
     (if so_type s = SOCKET_TYPE_INVALID then Some ([], s)
      else do {
        c_assert (so_type s \<noteq> SOCKET_TYPE_RESERVE);
        Some (map (Sys_Free \<circ> wb_data) (so_high s @ so_low s) @ [Sys_Del (so_fd s)]
            @ (if so_type s \<noteq> SOCKET_TYPE_BIND then [Sys_Close (so_fd s)] else [])
            @ (case so_dw_buffer s of None \<Rightarrow> [] | Some d \<Rightarrow> [Sys_Free d]),
          s\<lparr>so_high := [], so_low := [], so_type := SOCKET_TYPE_INVALID, so_dw_buffer := None\<rparr>) })"

subsection \<open>Sending\<close>

definition stat_write :: "u64 \<Rightarrow> socket \<Rightarrow> nat \<Rightarrow> socket" where
  "stat_write time s n = s\<lparr>so_stat_write := so_stat_write s + of_nat n, so_wtime := time\<rparr>"

definition stat_read :: "u64 \<Rightarrow> socket \<Rightarrow> nat \<Rightarrow> socket" where
  "stat_read time s n = s\<lparr>so_stat_read := so_stat_read s + of_nat n, so_rtime := time\<rparr>"

text \<open>What the functions of this part return: the calls, the socket, the remaining results of the system, and a result or none.\<close>

type_synonym send_outcome = "ss_call list \<times> socket \<times> io list \<times> socket_result option"

definition close_write :: "poll_errors \<Rightarrow> socket \<Rightarrow> (ss_call list \<times> socket \<times> socket_result) option" where
  "close_write pe s =
     (if so_closing s \<or> so_type s = SOCKET_TYPE_HALFCLOSE_READ then do {
        (cs, s') \<leftarrow> force_close s;
        Some (cs, s', result_of SOCKET_RST s 0 No_Data) }
      else if so_type s = SOCKET_TYPE_HALFCLOSE_WRITE then Some ([], s, result_of SOCKET_RST s 0 No_Data)
      else (let (_, cs, s) = enable_write pe (s\<lparr>so_type := SOCKET_TYPE_HALFCLOSE_WRITE\<rparr>) False in
        Some (Sys_Shutdown_Write (so_fd s) # cs, s, result_of SOCKET_ERR s 0 System_Text)))"

definition put_list :: "bool \<Rightarrow> write_buffer list \<Rightarrow> socket \<Rightarrow> socket" where
  "put_list high wbs s = (if high then s\<lparr>so_high := wbs\<rparr> else s\<lparr>so_low := wbs\<rparr>)"

fun send_list_tcp :: "u64 \<Rightarrow> poll_errors \<Rightarrow> socket \<Rightarrow> bool \<Rightarrow> write_buffer list \<Rightarrow> io list \<Rightarrow> send_outcome option" where
  "send_list_tcp time pe s high [] ios = Some ([], put_list high [] s, ios, None)"
| "send_list_tcp time pe s high (wb # wbs) [] = Some ([], put_list high (wb # wbs) s, [], None)"
| "send_list_tcp time pe s high (wb # wbs) (Fail_Intr # ios) = send_list_tcp time pe s high (wb # wbs) ios"
| "send_list_tcp time pe s high (wb # wbs) (Fail_Again # ios) = Some ([], put_list high (wb # wbs) s, ios, None)"
| "send_list_tcp time pe s high (wb # wbs) (Fail_Other # ios) = do {
     (cs, s, r) \<leftarrow> close_write pe (put_list high (wb # wbs) s);
     Some (cs, s, ios, Some r) }"
| "send_list_tcp time pe s high (wb # wbs) (Room r # ios) = (
     let n = min r (length (wb_rest wb)); s = (stat_write time s n)\<lparr>so_wb_size := so_wb_size s - int n\<rparr>; w = Sys_Write (so_fd s) (take n (wb_rest wb)) in
     if n \<noteq> length (wb_rest wb) then Some ([w], put_list high (wb\<lparr>wb_ptr := wb_ptr wb + n\<rparr> # wbs) s, ios, None)
     else do {
       (cs, s, ios, r) \<leftarrow> send_list_tcp time pe s high wbs ios;
       Some ([w, Sys_Free (wb_data wb)] @ cs, s, ios, r) })"

text \<open>An address is its protocol, a port and an IP address of the size of the protocol.\<close>

definition udp_socket_address :: "socket \<Rightarrow> u8 list \<Rightarrow> u8 list option" where
  "udp_socket_address s address =
     (if take 1 address \<noteq> [so_protocol s] then None
      else if so_protocol s = PROTOCOL_UDP then Some (take 7 address)
      else if so_protocol s = PROTOCOL_UDPv6 then Some (take 19 address)
      else None)"

definition drop_udp :: "socket \<Rightarrow> bool \<Rightarrow> write_buffer \<Rightarrow> write_buffer list \<Rightarrow> socket" where
  "drop_udp s high wb wbs = put_list high wbs (s\<lparr>so_wb_size := so_wb_size s - int (length (wb_rest wb))\<rparr>)"

fun send_list_udp :: "u64 \<Rightarrow> socket \<Rightarrow> bool \<Rightarrow> write_buffer list \<Rightarrow> io list \<Rightarrow> send_outcome option" where
  "send_list_udp time s high [] ios = Some ([], put_list high [] s, ios, None)"
| "send_list_udp time s high (wb # wbs) ios = Option.bind (wb_udp wb) (\<lambda>address. case udp_socket_address s address of
     None \<Rightarrow> Some ([Sys_Error ''udp type mismatch'', Sys_Free (wb_data wb)], drop_udp s high wb wbs, ios, None)
   | Some a \<Rightarrow> (case ios of
       [] \<Rightarrow> Some ([], put_list high (wb # wbs) s, [], None)
     | Room n # ios \<Rightarrow> do {
         (cs, s, ios, r) \<leftarrow> send_list_udp time (let s = stat_write time s (length (wb_rest wb)) in
           s\<lparr>so_wb_size := so_wb_size s - int (length (wb_rest wb))\<rparr>) high wbs ios;
         Some ([Sys_Sendto (so_fd s) (wb_rest wb) a, Sys_Free (wb_data wb)] @ cs, s, ios, r) }
     | Fail_Other # ios \<Rightarrow> Some ([Sys_Error ''udp sendto error'', Sys_Free (wb_data wb)], drop_udp s high wb wbs, ios, None)
     | _ # ios \<Rightarrow> Some ([], put_list high (wb # wbs) s, ios, None)))"

definition send_list :: "u64 \<Rightarrow> poll_errors \<Rightarrow> socket \<Rightarrow> bool \<Rightarrow> io list \<Rightarrow> send_outcome option" where
  "send_list time pe s high ios = (let wbs = (if high then so_high s else so_low s) in
     if so_protocol s = PROTOCOL_TCP then send_list_tcp time pe s high wbs ios else send_list_udp time s high wbs ios)"

definition list_uncomplete :: "write_buffer list \<Rightarrow> bool" where
  "list_uncomplete wbs \<longleftrightarrow> (case wbs of [] \<Rightarrow> False | wb # _ \<Rightarrow> wb_ptr wb \<noteq> 0)"

definition raise_uncomplete :: "socket \<Rightarrow> socket option" where
  "raise_uncomplete s = (case so_low s of
     [] \<Rightarrow> None
   | wb # wbs \<Rightarrow> do { c_assert (so_high s = []); Some (s\<lparr>so_low := wbs, so_high := [wb]\<rparr>) })"

definition send_buffer_empty :: "socket \<Rightarrow> bool" where
  "send_buffer_empty s \<longleftrightarrow> so_high s = [] \<and> so_low s = []"

text \<open>Step 4 of \<^verbatim>\<open>send_buffer_\<close>: both lists are empty.\<close>

definition all_sent :: "poll_errors \<Rightarrow> socket \<Rightarrow> io list \<Rightarrow> send_outcome option" where
  "all_sent pe s ios = do {
     c_assert (send_buffer_empty s \<and> so_wb_size s = 0);
     if so_closing s then do { (cs, s) \<leftarrow> force_close s; Some (cs, s, ios, None) }
     else (let (failed, cs, s) = enable_write pe s False in
       if failed then Some (cs, s, ios, Some (result_of SOCKET_ERR s 0 (Text ''disable write failed'')))
       else if so_warn_size s > 0 then Some (cs, s\<lparr>so_warn_size := 0\<rparr>, ios, Some (result_of SOCKET_WARNING s 0 No_Data))
       else Some (cs, s, ios, None)) }"

text \<open>What the callers of \<^verbatim>\<open>send_list\<close> make of its result: an error is passed on, a reset is not.\<close>

definition pass_error :: "socket_result \<Rightarrow> socket_result option" where
  "pass_error r = (if res_kind r = SOCKET_ERR then Some r else None)"

definition send_low_list :: "u64 \<Rightarrow> poll_errors \<Rightarrow> socket \<Rightarrow> io list \<Rightarrow> send_outcome option" where
  "send_low_list time pe s ios = do {
     (cs, s, ios, r) \<leftarrow> send_list time pe s False ios;
     case r of
       Some r \<Rightarrow> Some (cs, s, ios, pass_error r)
     | None \<Rightarrow>
         if list_uncomplete (so_low s) then do { s \<leftarrow> raise_uncomplete s; Some (cs, s, ios, None) }
         else if so_low s \<noteq> [] then Some (cs, s, ios, None)
         else do { (cs', s, ios, r) \<leftarrow> all_sent pe s ios; Some (cs @ cs', s, ios, r) } }"

definition send_buffer_lists :: "u64 \<Rightarrow> poll_errors \<Rightarrow> socket \<Rightarrow> io list \<Rightarrow> send_outcome option" where
  "send_buffer_lists time pe s ios = do {
     c_assert (\<not> list_uncomplete (so_low s));
     (cs, s, ios, r) \<leftarrow> send_list time pe s True ios;
     case r of
       Some r \<Rightarrow> Some (cs, s, ios, pass_error r)
     | None \<Rightarrow>
         if so_high s \<noteq> [] then Some (cs, s, ios, None)
         else do {
           (cs', s, ios, r) \<leftarrow> (if so_low s \<noteq> [] then send_low_list time pe s ios else all_sent pe s ios);
           Some (cs @ cs', s, ios, r) } }"

definition take_direct :: "socket \<Rightarrow> socket" where
  "take_direct s = (case so_dw_buffer s of
     None \<Rightarrow> s
   | Some d \<Rightarrow> (let wb = \<lparr>wb_data = d, wb_ptr = so_dw_offset s, wb_udp = None\<rparr> in
       s\<lparr>so_wb_size := so_wb_size s + int (length (wb_rest wb)), so_high := wb # so_high s, so_dw_buffer := None\<rparr>))"

text \<open>\<^verbatim>\<open>send_buffer\<close>; \<open>locked\<close> says that a worker has the lock of the socket.\<close>

definition send_buffer :: "u64 \<Rightarrow> poll_errors \<Rightarrow> bool \<Rightarrow> socket \<Rightarrow> io list \<Rightarrow> send_outcome option" where
  "send_buffer time pe locked s ios = (if locked then Some ([], s, ios, None) else send_buffer_lists time pe (take_direct s) ios)"

definition append_sendbuffer :: "bool \<Rightarrow> socket \<Rightarrow> send_data \<Rightarrow> u8 list option \<Rightarrow> socket" where
  "append_sendbuffer high s d address = (
     let wb = \<lparr>wb_data = d, wb_ptr = 0, wb_udp = address\<rparr>; s = s\<lparr>so_wb_size := so_wb_size s + int (length (data_bytes d))\<rparr> in
     if high then s\<lparr>so_high := so_high s @ [wb]\<rparr> else s\<lparr>so_low := so_low s @ [wb]\<rparr>)"

subsection \<open>Requests\<close>

text \<open>The requests of the workers, as they go through the pipe to the socket thread.\<close>

datatype request =
    Req_Resume int nat
  | Req_Pause int nat
  | Req_Bind int int nat
  | Req_Listen int int nat
  | Req_Close int bool nat
  | Req_Open int nat
  | Req_Exit
  | Req_Trigger int
  | Req_Send bool int send_data
  | Req_Send_Udp int send_data "u8 list"
  | Req_Set_Udp int "u8 list"
  | Req_Setopt int int int
  | Req_Udp int int bool nat
  | Req_Unknown

definition trigger_write :: "poll_errors \<Rightarrow> socket \<Rightarrow> int \<Rightarrow> ss_call list \<times> socket \<times> socket_result option" where
  "trigger_write pe s i =
     (if socket_invalid s i then ([], s, None)
      else (let (failed, cs, s) = enable_write pe s True in
        (cs, s, if failed then Some (result_of SOCKET_ERR s 0 (Text ''enable write failed'')) else None)))"

definition queue_warning :: "socket \<Rightarrow> socket \<times> socket_result option" where
  "queue_warning s =
     (if so_wb_size s \<ge> WARNING_SIZE \<and> so_wb_size s \<ge> so_warn_size s then
        (s\<lparr>so_warn_size := (if so_warn_size s = 0 then WARNING_SIZE * 2 else so_warn_size s * 2)\<rparr>,
         Some (result_of SOCKET_WARNING s (if so_wb_size s mod 1024 = 0 then so_wb_size s div 1024 else so_wb_size s div 1024 + 1) No_Data))
      else (s, None))"

definition send_refused :: "socket \<Rightarrow> int \<Rightarrow> bool" where
  "send_refused s i \<longleftrightarrow> so_type s = SOCKET_TYPE_INVALID \<or> so_id s \<noteq> i \<or> so_type s = SOCKET_TYPE_HALFCLOSE_WRITE \<or>
     so_type s = SOCKET_TYPE_PACCEPT \<or> so_closing s"

text \<open>The first buffer of an empty socket is queued, and the event of the socket switched on.\<close>

definition start_sending :: "poll_errors \<Rightarrow> socket \<Rightarrow> ss_call list \<times> socket \<times> socket_result option" where
  "start_sending pe s = (let (failed, cs, s) = enable_write pe s True in
     if failed then (cs, s, Some (result_of SOCKET_ERR s 0 (Text ''enable write failed'')))
     else (let (s, r) = queue_warning s in (cs, s, r)))"

definition send_socket_udp :: "u64 \<Rightarrow> poll_errors \<Rightarrow> socket \<Rightarrow> send_data \<Rightarrow> bool \<Rightarrow> u8 list \<Rightarrow> io list \<Rightarrow> send_outcome option" where
  "send_socket_udp time pe s d high address ios =
     (if send_buffer_empty s then (case udp_socket_address s address of
          None \<Rightarrow> Some ([Sys_Error ''udp socket type mismatch'', Sys_Free d], s, ios, None)
        | Some a \<Rightarrow> (case ios of
            Room n # ios \<Rightarrow>
              Some ([Sys_Sendto (so_fd s) (data_bytes d) a, Sys_Free d], stat_write time s (length (data_bytes d)), ios, None)
          | _ \<Rightarrow> (let (cs, s, r) = start_sending pe (append_sendbuffer high s d (Some address)) in Some (cs, s, tl ios, r))))
      else (let (s, r) = queue_warning (append_sendbuffer high s d (Some address)) in Some ([], s, ios, r)))"

definition send_socket :: "u64 \<Rightarrow> poll_errors \<Rightarrow> socket \<Rightarrow> int \<Rightarrow> send_data \<Rightarrow> bool \<Rightarrow> u8 list option \<Rightarrow> io list \<Rightarrow> send_outcome option" where
  "send_socket time pe s i d high udp_address ios =
     (if send_refused s i then Some ([Sys_Free d], s, ios, None)
      else if so_type s = SOCKET_TYPE_PLISTEN \<or> so_type s = SOCKET_TYPE_LISTEN then Some ([Sys_Error ''write to listen fd'', Sys_Free d], s, ios, None)
      else if so_protocol s = PROTOCOL_TCP then
        (if send_buffer_empty s then (let (cs, s, r) = start_sending pe (append_sendbuffer True s d None) in Some (cs, s, ios, r))
         else (let (s, r) = queue_warning (append_sendbuffer high s d None) in Some ([], s, ios, r)))
      else send_socket_udp time pe s d high (case udp_address of None \<Rightarrow> so_udp_address s | Some a \<Rightarrow> a) ios)"

definition listen_socket :: "poll_errors \<Rightarrow> socket \<Rightarrow> int \<Rightarrow> int \<Rightarrow> nat \<Rightarrow> (ss_call list \<times> socket \<times> socket_result option) option" where
  "listen_socket pe s i fd opaque = do {
     (ok, cs, s) \<leftarrow> new_fd pe i fd PROTOCOL_TCP opaque False s;
     if ok then Some (cs, s\<lparr>so_type := SOCKET_TYPE_PLISTEN\<rparr>, None)
     else Some (cs @ [Sys_Close fd], s\<lparr>so_type := SOCKET_TYPE_INVALID\<rparr>,
       Some \<lparr>res_kind = SOCKET_ERR, res_id = i, res_opaque = opaque, res_ud = 0, res_data = Text ''reach skynet socket number limit''\<rparr>) }"

definition nomore_sending_data :: "socket \<Rightarrow> bool" where
  "nomore_sending_data s \<longleftrightarrow> (send_buffer_empty s \<and> so_dw_buffer s = None \<and> so_sending s mod 65536 = 0) \<or> so_type s = SOCKET_TYPE_HALFCLOSE_WRITE"

definition close_read :: "poll_errors \<Rightarrow> socket \<Rightarrow> ss_call list \<times> socket" where
  "close_read pe s = (let (_, cs, s) = enable_read pe (s\<lparr>so_type := SOCKET_TYPE_HALFCLOSE_READ\<rparr>) False in
     (cs @ [Sys_Shutdown_Read (so_fd s)], s))"

definition halfclose_read :: "socket \<Rightarrow> bool" where
  "halfclose_read s \<longleftrightarrow> so_type s = SOCKET_TYPE_HALFCLOSE_READ"

definition close_socket :: "poll_errors \<Rightarrow> socket \<Rightarrow> int \<Rightarrow> bool \<Rightarrow> (ss_call list \<times> socket \<times> socket_result option) option" where
  "close_socket pe s i shutdown =
     (if socket_invalid s i then Some ([], s, None)
      else (let closed = (if halfclose_read s then None else Some (result_of SOCKET_CLOSE s 0 No_Data)) in
        if shutdown \<or> nomore_sending_data s then do {
          (cs, s) \<leftarrow> force_close s;
          Some (cs, s, closed) }
        else (let s' = s\<lparr>so_closing := True\<rparr> in
          if \<not> halfclose_read s then (let (cs, s') = close_read pe s' in Some (cs, s', closed))
          else Some ([], s', None))))"

definition bind_socket :: "poll_errors \<Rightarrow> socket \<Rightarrow> int \<Rightarrow> int \<Rightarrow> nat \<Rightarrow> (ss_call list \<times> socket \<times> socket_result option) option" where
  "bind_socket pe s i fd opaque = do {
     (ok, cs, s) \<leftarrow> new_fd pe i fd PROTOCOL_TCP opaque True s;
     let r = \<lparr>res_kind = SOCKET_ERR, res_id = i, res_opaque = opaque, res_ud = 0, res_data = Text ''reach skynet socket number limit''\<rparr> in
     if ok then Some (cs, s\<lparr>so_type := SOCKET_TYPE_BIND\<rparr>, Some (r\<lparr>res_kind := SOCKET_OPEN, res_data := Text ''binding''\<rparr>))
     else Some (cs, s, Some r) }"

definition resume_socket :: "poll_errors \<Rightarrow> socket \<Rightarrow> int \<Rightarrow> nat \<Rightarrow> ss_call list \<times> socket \<times> socket_result option" where
  "resume_socket pe s i opaque = (
     let r = (\<lambda>k t. Some \<lparr>res_kind = k, res_id = i, res_opaque = opaque, res_ud = 0, res_data = Text t\<rparr>) in
     if socket_invalid s i then ([], s, r SOCKET_ERR ''invalid socket'')
     else if halfclose_read s then ([], s, r SOCKET_ERR ''socket closed'')
     else (let (failed, cs, s) = enable_read pe s True in
       if failed then (cs, s, r SOCKET_ERR ''enable read failed'')
       else if so_type s = SOCKET_TYPE_PACCEPT \<or> so_type s = SOCKET_TYPE_PLISTEN then
         (cs, s\<lparr>so_type := (if so_type s = SOCKET_TYPE_PACCEPT then SOCKET_TYPE_CONNECTED else SOCKET_TYPE_LISTEN), so_opaque := opaque\<rparr>,
          r SOCKET_OPEN ''start'')
       else if so_type s = SOCKET_TYPE_CONNECTED then (cs, s\<lparr>so_opaque := opaque\<rparr>, r SOCKET_OPEN ''transfer'')
       else (cs, s, None)))"

definition pause_socket :: "poll_errors \<Rightarrow> socket \<Rightarrow> int \<Rightarrow> ss_call list \<times> socket \<times> socket_result option" where
  "pause_socket pe s i =
     (if socket_invalid s i then ([], s, None)
      else (let (failed, cs, s) = enable_read pe s False in
        (cs, s, if failed then Some (result_of SOCKET_ERR s 0 (Text ''enable read failed'')) else None)))"

definition setopt_socket :: "socket \<Rightarrow> int \<Rightarrow> int \<Rightarrow> int \<Rightarrow> ss_call list" where
  "setopt_socket s i what v = (if socket_invalid s i then [] else [Sys_Setopt (so_fd s) what v])"

definition add_udp_socket :: "poll_errors \<Rightarrow> socket \<Rightarrow> int \<Rightarrow> int \<Rightarrow> bool \<Rightarrow> nat \<Rightarrow> (ss_call list \<times> socket) option" where
  "add_udp_socket pe s i fd inet6 opaque = do {
     (ok, cs, s) \<leftarrow> new_fd pe i fd (if inet6 then PROTOCOL_UDPv6 else PROTOCOL_UDP) opaque True s;
     if ok then Some (cs, s\<lparr>so_type := SOCKET_TYPE_CONNECTED, so_udp_address := replicate 19 0\<rparr>)
     else Some (cs @ [Sys_Close fd], s\<lparr>so_type := SOCKET_TYPE_INVALID\<rparr>) }"

definition set_udp_address :: "socket \<Rightarrow> int \<Rightarrow> u8 list \<Rightarrow> socket \<times> socket_result option" where
  "set_udp_address s i address =
     (if socket_invalid s i then (s, None)
      else if take 1 address \<noteq> [so_protocol s] then (s, Some (result_of SOCKET_ERR s 0 (Text ''protocol mismatch'')))
      else (let n = (if so_protocol s = PROTOCOL_UDP then 7 else 19) in
        (s\<lparr>so_udp_address := take n address @ drop n (so_udp_address s), so_udpconnecting := so_udpconnecting s - 1\<rparr>, None)))"

text \<open>The counter of the requests of a TCP socket that are in the pipe. A worker that finds it full spins until the socket thread
  has counted down, which is no step of the worker.\<close>

definition inc_sending_ref :: "socket \<Rightarrow> int \<Rightarrow> socket option" where
  "inc_sending_ref s i =
     (if so_protocol s \<noteq> PROTOCOL_TCP \<or> so_sending s div 65536 \<noteq> ID_TAG16 i then Some s
      else if so_sending s mod 65536 = 0xffff then None
      else Some (s\<lparr>so_sending := so_sending s + 1\<rparr>))"

definition dec_sending_ref :: "socket \<Rightarrow> int \<Rightarrow> socket option" where
  "dec_sending_ref s i =
     (if so_id s = i \<and> so_protocol s = PROTOCOL_TCP then do {
        c_assert (so_sending s mod 65536 \<noteq> 0);
        Some (s\<lparr>so_sending := so_sending s - 1\<rparr>) }
      else Some s)"

text \<open>\<^verbatim>\<open>open_socket\<close>: what the resolver, \<^verbatim>\<open>socket\<close> and \<^verbatim>\<open>connect\<close> answer.\<close>

datatype open_io = Open_Failed | Open_Connected int "string option" | Open_Pending int

definition open_socket :: "poll_errors \<Rightarrow> socket \<Rightarrow> int \<Rightarrow> nat \<Rightarrow> open_io \<Rightarrow> (ss_call list \<times> socket \<times> socket_result option) option" where
  "open_socket pe s i opaque res = (
     let r = (\<lambda>k d. Some \<lparr>res_kind = k, res_id = i, res_opaque = opaque, res_ud = 0, res_data = d\<rparr>);
         attach = (\<lambda>fd. new_fd pe i fd PROTOCOL_TCP opaque True s) in
     case res of
       Open_Failed \<Rightarrow> Some ([], s\<lparr>so_type := SOCKET_TYPE_INVALID\<rparr>, r SOCKET_ERR System_Text)
     | Open_Connected fd name \<Rightarrow> do {
         (ok, cs, s) \<leftarrow> attach fd;
         if ok then Some (cs, s\<lparr>so_type := SOCKET_TYPE_CONNECTED\<rparr>, r SOCKET_OPEN (case name of None \<Rightarrow> No_Data | Some t \<Rightarrow> Text t))
         else Some (cs @ [Sys_Close fd], s\<lparr>so_type := SOCKET_TYPE_INVALID\<rparr>, r SOCKET_ERR (Text ''reach skynet socket number limit'')) }
     | Open_Pending fd \<Rightarrow> do {
         (ok, cs, s) \<leftarrow> attach fd;
         if ok then (let (failed, cs', s) = enable_write pe (s\<lparr>so_type := SOCKET_TYPE_CONNECTING\<rparr>) True in
           if failed then Some (cs @ cs', s\<lparr>so_type := SOCKET_TYPE_INVALID\<rparr>, r SOCKET_ERR (Text ''enable write failed''))
           else Some (cs @ cs', s, None))
         else Some (cs @ [Sys_Close fd], s\<lparr>so_type := SOCKET_TYPE_INVALID\<rparr>, r SOCKET_ERR (Text ''reach skynet socket number limit'')) })"

fun request_id :: "request \<Rightarrow> int" where
  "request_id (Req_Resume i _) = i"
| "request_id (Req_Pause i _) = i"
| "request_id (Req_Bind i _ _) = i"
| "request_id (Req_Listen i _ _) = i"
| "request_id (Req_Close i _ _) = i"
| "request_id (Req_Open i _) = i"
| "request_id Req_Exit = 0"
| "request_id (Req_Trigger i) = i"
| "request_id (Req_Send _ i _) = i"
| "request_id (Req_Send_Udp i _ _) = i"
| "request_id (Req_Set_Udp i _) = i"
| "request_id (Req_Setopt i _ _) = i"
| "request_id (Req_Udp i _ _ _) = i"
| "request_id Req_Unknown = 0"

text \<open>\<^verbatim>\<open>ctrl_cmd\<close> on the slot of the request.\<close>

fun slot_cmd :: "u64 \<Rightarrow> poll_errors \<Rightarrow> socket \<Rightarrow> request \<Rightarrow> open_io \<Rightarrow> io list \<Rightarrow> (ss_call list \<times> socket \<times> socket_result option) option" where
  "slot_cmd time pe s (Req_Resume i opaque) res ios = Some (resume_socket pe s i opaque)"
| "slot_cmd time pe s (Req_Pause i opaque) res ios = Some (pause_socket pe s i)"
| "slot_cmd time pe s (Req_Bind i fd opaque) res ios = bind_socket pe s i fd opaque"
| "slot_cmd time pe s (Req_Listen i fd opaque) res ios = listen_socket pe s i fd opaque"
| "slot_cmd time pe s (Req_Close i shutdown opaque) res ios = close_socket pe s i shutdown"
| "slot_cmd time pe s (Req_Open i opaque) res ios = open_socket pe s i opaque res"
| "slot_cmd time pe s Req_Exit res ios = Some ([], s,
     Some \<lparr>res_kind = SOCKET_EXIT, res_id = 0, res_opaque = 0, res_ud = 0, res_data = No_Data\<rparr>)"
| "slot_cmd time pe s (Req_Trigger i) res ios = Some (trigger_write pe s i)"
| "slot_cmd time pe s (Req_Send high i d) res ios = do {
     (cs, s, _, r) \<leftarrow> send_socket time pe s i d high None ios;
     s \<leftarrow> dec_sending_ref s i;
     Some (cs, s, r) }"
| "slot_cmd time pe s (Req_Send_Udp i d address) res ios = do {
     (cs, s, _, r) \<leftarrow> send_socket time pe s i d True (Some address) ios;
     Some (cs, s, r) }"
| "slot_cmd time pe s (Req_Set_Udp i address) res ios = (let (s, r) = set_udp_address s i address in Some ([], s, r))"
| "slot_cmd time pe s (Req_Setopt i what v) res ios = Some (setopt_socket s i what v, s, None)"
| "slot_cmd time pe s (Req_Udp i fd inet6 opaque) res ios = do {
     (cs, s) \<leftarrow> add_udp_socket pe s i fd inet6 opaque;
     Some (cs, s, None) }"
| "slot_cmd time pe s Req_Unknown res ios = Some ([Sys_Error ''Unknown ctrl''], s, None)"

definition ctrl_cmd :: "poll_errors \<Rightarrow> socket_server \<Rightarrow> request \<Rightarrow> open_io \<Rightarrow> io list \<Rightarrow> (ss_call list \<times> socket_server \<times> socket_result option) option" where
  "ctrl_cmd pe ss req res ios = do {
     (cs, s, r) \<leftarrow> slot_cmd (ss_time ss) pe (ss_slot ss (HASH_ID (request_id req))) req res ios;
     Some (cs, put_slot (request_id req) s ss, r) }"

subsection \<open>Events of the sockets\<close>

datatype read_io = Read "u8 list" | Read_Again | Read_Error

text \<open>\<^verbatim>\<open>forward_message_tcp\<close>: a read takes what has arrived, at most the size of the buffer; no bytes are the end of the stream. The size of the next buffer doubles after a full one and halves after one that is not half full.\<close>

definition forward_message_tcp :: "u64 \<Rightarrow> poll_errors \<Rightarrow> socket \<Rightarrow> read_io \<Rightarrow> (ss_call list \<times> socket \<times> socket_result option) option" where
  "forward_message_tcp time pe s io = (case io of
     Read_Again \<Rightarrow> Some ([], s, None)
   | Read_Error \<Rightarrow> Some ([], s, Some (result_of SOCKET_ERR s 0 System_Text))
   | Read arrived \<Rightarrow> (let bs = take (nat (so_size s)) arrived in
       if bs = [] then
         (if so_closing s then
            (if nomore_sending_data s then do { (cs, s) \<leftarrow> force_close s; Some (cs, s, None) } else Some ([], s, None))
          else if so_type s = SOCKET_TYPE_HALFCLOSE_READ then Some ([], s, None)
          else if so_type s = SOCKET_TYPE_HALFCLOSE_WRITE then do {
            (cs, s') \<leftarrow> force_close s;
            Some (cs, s', Some (result_of SOCKET_CLOSE s 0 No_Data)) }
          else (let (cs, s') = close_read pe s in Some (cs, s', Some (result_of SOCKET_CLOSE s 0 No_Data))))
       else if halfclose_read s then Some ([], s, None)
       else (let n = int (length bs); sz = so_size s; s = stat_read time s (length bs) in
         if n = sz then Some ([], s\<lparr>so_size := sz * 2\<rparr>, Some (result_of SOCKET_MORE s n (Bytes_Read bs)))
         else Some ([], if sz > MIN_READ_BUFFER \<and> n * 2 < sz then s\<lparr>so_size := sz div 2\<rparr> else s,
           Some (result_of SOCKET_DATA s n (Bytes_Read bs))))))"

text \<open>What \<^verbatim>\<open>recvfrom\<close> gives: the datagram, and the address of the sender with the size of its kind.\<close>

datatype recv_io = Recv "u8 list" bool "u8 list" | Recv_Again | Recv_Error

definition forward_message_udp :: "u64 \<Rightarrow> socket \<Rightarrow> recv_io \<Rightarrow> (ss_call list \<times> socket \<times> socket_result option) option" where
  "forward_message_udp time s io = (case io of
     Recv_Again \<Rightarrow> Some ([], s, None)
   | Recv_Error \<Rightarrow> do {
       (cs, s') \<leftarrow> force_close s;
       Some (cs, s', Some (result_of SOCKET_ERR s 0 System_Text)) }
   | Recv bs v4 address \<Rightarrow> (let s = stat_read time s (length bs); p = (if v4 then PROTOCOL_UDP else PROTOCOL_UDPv6) in
       if so_protocol s \<noteq> p then Some ([], s, None)
       else Some ([], s, Some (result_of SOCKET_UDP s (int (length bs)) (Bytes_Read (bs @ [p] @ address))))))"

text \<open>\<^verbatim>\<open>report_connect\<close>: whether the connection has an error, and the name of the peer.\<close>

datatype connect_io = Connect_Failed | Connect_Ok "string option"

definition report_connect :: "poll_errors \<Rightarrow> socket \<Rightarrow> connect_io \<Rightarrow> (ss_call list \<times> socket \<times> socket_result option) option" where
  "report_connect pe s io = (case io of
     Connect_Failed \<Rightarrow> do {
       (cs, s') \<leftarrow> force_close s;
       Some (cs, s', Some (result_of SOCKET_ERR s 0 System_Text)) }
   | Connect_Ok name \<Rightarrow> (
       let s = s\<lparr>so_type := SOCKET_TYPE_CONNECTED\<rparr>;
           (failed, cs, s) = (if nomore_sending_data s then enable_write pe s False else (False, [], s)) in
       if failed then do {
         (cs', s') \<leftarrow> force_close s;
         Some (cs @ cs', s', Some (result_of SOCKET_ERR s 0 (Text ''disable write failed''))) }
       else Some (cs, s, Some (result_of SOCKET_OPEN s 0 (case name of None \<Rightarrow> No_Data | Some t \<Rightarrow> Text t)))))"

datatype accept_io = Accepted int "string option" | Accept_Limit | Accept_Failed

text \<open>\<^verbatim>\<open>report_accept\<close> for the listening socket of the id: the new connection has an id and a slot of its own.\<close>

definition report_accept :: "poll_errors \<Rightarrow> socket_server \<Rightarrow> int \<Rightarrow> accept_io \<Rightarrow> (ss_call list \<times> socket_server \<times> socket_result option) option" where
  "report_accept pe ss l io = (let ls = ss_slot ss (HASH_ID l) in case io of
     Accept_Failed \<Rightarrow> Some ([], ss, None)
   | Accept_Limit \<Rightarrow> Some ([], ss, Some (result_of SOCKET_ERR ls 0 System_Text))
   | Accepted fd name \<Rightarrow> (let (i, ss) = reserve_id ss in
       if i < 0 then Some ([Sys_Close fd], ss, None)
       else do {
         (ok, cs, s) \<leftarrow> new_fd pe i fd PROTOCOL_TCP (so_opaque ls) False (ss_slot ss (HASH_ID i));
         if \<not> ok then Some (cs @ [Sys_Close fd], put_slot i s ss, None)
         else Some (cs, put_slot l (stat_read (ss_time ss) ls 1) (put_slot i (s\<lparr>so_type := SOCKET_TYPE_PACCEPT\<rparr>) ss),
           Some (result_of SOCKET_ACCEPT ls i (case name of None \<Rightarrow> No_Data | Some t \<Rightarrow> Text t))) }))"

record event =
  ev_read :: bool
  ev_write :: bool
  ev_error :: bool
  ev_eof :: bool

text \<open>What the system answers to the calls of an event.\<close>

record event_io =
  io_read :: read_io
  io_recv :: recv_io
  io_writes :: "io list"
  io_connect :: connect_io
  io_accept :: accept_io

text \<open>The default branch of \<^verbatim>\<open>socket_server_poll\<close>: reading goes before writing, and an event that has more to read or still to write is
  handled again. The last component of the result is the event that is left.\<close>

definition read_event :: "u64 \<Rightarrow> poll_errors \<Rightarrow> socket \<Rightarrow> event \<Rightarrow> event_io \<Rightarrow> (ss_call list \<times> socket \<times> socket_result option \<times> event option) option" where
  "read_event time pe s ev io = do {
     (cs, s, r) \<leftarrow> (if so_protocol s = PROTOCOL_TCP then forward_message_tcp time pe s (io_read io) else forward_message_udp time s (io_recv io));
     let again = (if ev_write ev then Some (ev\<lparr>ev_read := False\<rparr>) else None) in
     case r of
       None \<Rightarrow> Some (cs, s, None, again)
     | Some m \<Rightarrow>
         if res_kind m = SOCKET_MORE then Some (cs, s, Some (m\<lparr>res_kind := SOCKET_DATA\<rparr>), Some ev)
         else if res_kind m = SOCKET_UDP then Some (cs, s, Some m, Some ev)
         else if res_kind m = SOCKET_CLOSE \<or> res_kind m = SOCKET_ERR then Some (cs, s, Some m, None)
         else Some (cs, s, Some m, again) }"

definition handle_event :: "u64 \<Rightarrow> poll_errors \<Rightarrow> bool \<Rightarrow> socket \<Rightarrow> event \<Rightarrow> event_io \<Rightarrow> (ss_call list \<times> socket \<times> socket_result option \<times> event option) option" where
  "handle_event time pe locked s ev io =
     (if so_type s = SOCKET_TYPE_CONNECTING then do {
        (cs, s, r) \<leftarrow> report_connect pe s (io_connect io);
        Some (cs, s, r, None) }
      else if so_type s = SOCKET_TYPE_INVALID then Some ([Sys_Error ''invalid socket''], s, None, None)
      else if ev_read ev then read_event time pe s ev io
      else if ev_write ev then do {
        (cs, s, _, r) \<leftarrow> send_buffer time pe locked s (io_writes io);
        Some (cs, s, r, None) }
      else if ev_error ev then Some ([], s, Some (result_of SOCKET_ERR s 0 System_Text), None)
      else if ev_eof ev then do {
        (cs, s') \<leftarrow> force_close s;
        Some (cs, s', if halfclose_read s then None else Some (result_of SOCKET_CLOSE s 0 No_Data), None) }
      else Some ([], s, None, None))"

definition poll_event :: "poll_errors \<Rightarrow> bool \<Rightarrow> socket_server \<Rightarrow> int \<Rightarrow> event \<Rightarrow> event_io
    \<Rightarrow> (ss_call list \<times> socket_server \<times> socket_result option \<times> event option) option" where
  "poll_event pe locked ss i ev io = (let s = ss_slot ss (HASH_ID i) in
     if so_type s = SOCKET_TYPE_LISTEN then do {
       (cs, ss, r) \<leftarrow> report_accept pe ss i (io_accept io);
       Some (cs, ss, r, None) }
     else do {
       (cs, s, r, again) \<leftarrow> handle_event (ss_time ss) pe locked s ev io;
       Some (cs, put_slot i s ss, r, again) })"

subsection \<open>Functions of the workers\<close>

definition can_direct_write :: "socket \<Rightarrow> int \<Rightarrow> bool" where
  "can_direct_write s i \<longleftrightarrow> so_id s = i \<and> nomore_sending_data s \<and> so_type s = SOCKET_TYPE_CONNECTED \<and> so_udpconnecting s = 0"

definition sendbuffer_bytes :: "sendbuffer \<Rightarrow> u8 list" where
  "sendbuffer_bytes buf = (case buf of Owned d \<Rightarrow> data_bytes d | Raw bs \<Rightarrow> bs)"

text \<open>\<^verbatim>\<open>socket_server_send\<close> on the slot: a socket with nothing to send is written to at once, and what is left over waits for the socket
  thread; otherwise the buffer goes through the pipe. The results are the number that is returned and the request.\<close>

definition direct_write :: "u64 \<Rightarrow> socket \<Rightarrow> int \<Rightarrow> sendbuffer \<Rightarrow> u8 list option \<Rightarrow> io \<Rightarrow> (int \<times> ss_call list \<times> socket \<times> request option) option" where
  "direct_write time s i buf address io = (
     let bs = sendbuffer_bytes buf;
         n = (case io of Room r \<Rightarrow> if address = None then min r (length bs) else length bs | _ \<Rightarrow> 0);
         w = (case io of
           Room r \<Rightarrow> [case address of None \<Rightarrow> Sys_Write (so_fd s) (take n bs) | Some a \<Rightarrow> Sys_Sendto (so_fd s) (take n bs) a]
         | _ \<Rightarrow> []);
         s = stat_write time s n in
     if n = length bs then Some (0, w @ free_of buf, s, None)
     else do {
       s \<leftarrow> inc_sending_ref (s\<lparr>so_dw_buffer := Some (clone_buffer buf), so_dw_offset := n\<rparr>) i;
       Some (0, w, s, Some (Req_Trigger i)) })"

definition slot_send :: "u64 \<Rightarrow> bool \<Rightarrow> socket \<Rightarrow> int \<Rightarrow> sendbuffer \<Rightarrow> io \<Rightarrow> (int \<times> ss_call list \<times> socket \<times> request option) option" where
  "slot_send time locked s i buf io =
     (if socket_invalid s i \<or> so_closing s then Some (- 1, free_of buf, s, None)
      else if can_direct_write s i \<and> \<not> locked then
        (if so_protocol s = PROTOCOL_TCP then direct_write time s i buf None io
         else (case udp_socket_address s (so_udp_address s) of
           None \<Rightarrow> Some (- 1, Sys_Error ''set udp address first'' # free_of buf, s, None)
         | Some a \<Rightarrow> direct_write time s i buf (Some a) io))
      else do {
        s \<leftarrow> inc_sending_ref s i;
        Some (0, [], s, Some (Req_Send True i (clone_buffer buf))) })"

definition slot_send_lowpriority :: "socket \<Rightarrow> int \<Rightarrow> sendbuffer \<Rightarrow> (int \<times> ss_call list \<times> socket \<times> request option) option" where
  "slot_send_lowpriority s i buf =
     (if socket_invalid s i then Some (- 1, free_of buf, s, None)
      else do {
        s \<leftarrow> inc_sending_ref s i;
        Some (0, [], s, Some (Req_Send False i (clone_buffer buf))) })"

definition slot_udp_send :: "u64 \<Rightarrow> bool \<Rightarrow> socket \<Rightarrow> int \<Rightarrow> u8 list \<Rightarrow> sendbuffer \<Rightarrow> io \<Rightarrow> int \<times> ss_call list \<times> socket \<times> request option" where
  "slot_udp_send time locked s i address buf io = (
     let p = take 1 address; sz = (if p = [PROTOCOL_UDP] then 7 else 19);
         through_pipe = (0, [], s, Some (Req_Send_Udp i (clone_buffer buf) (take sz address))) in
     if socket_invalid s i \<or> (p \<noteq> [PROTOCOL_UDP] \<and> p \<noteq> [PROTOCOL_UDPv6]) then (- 1, free_of buf, s, None)
     else if can_direct_write s i \<and> \<not> locked then (case udp_socket_address s address of
         None \<Rightarrow> (- 1, free_of buf, s, None)
       | Some a \<Rightarrow> (case io of
           Room n \<Rightarrow> (0, Sys_Sendto (so_fd s) (sendbuffer_bytes buf) a # free_of buf, stat_write time s n, None)
         | _ \<Rightarrow> through_pipe))
     else through_pipe)"

definition socket_server_send :: "socket_server \<Rightarrow> bool \<Rightarrow> int \<Rightarrow> sendbuffer \<Rightarrow> io \<Rightarrow> (int \<times> ss_call list \<times> socket_server \<times> request option) option" where
  "socket_server_send ss locked i buf io = do {
     (ret, cs, s, req) \<leftarrow> slot_send (ss_time ss) locked (ss_slot ss (HASH_ID i)) i buf io;
     Some (ret, cs, put_slot i s ss, req) }"

definition socket_server_send_lowpriority :: "socket_server \<Rightarrow> int \<Rightarrow> sendbuffer \<Rightarrow> (int \<times> ss_call list \<times> socket_server \<times> request option) option" where
  "socket_server_send_lowpriority ss i buf = do {
     (ret, cs, s, req) \<leftarrow> slot_send_lowpriority (ss_slot ss (HASH_ID i)) i buf;
     Some (ret, cs, put_slot i s ss, req) }"

definition socket_server_udp_send :: "socket_server \<Rightarrow> bool \<Rightarrow> int \<Rightarrow> u8 list \<Rightarrow> sendbuffer \<Rightarrow> io \<Rightarrow> int \<times> ss_call list \<times> socket_server \<times> request option" where
  "socket_server_udp_send ss locked i address buf io = (
     let (ret, cs, s, req) = slot_udp_send (ss_time ss) locked (ss_slot ss (HASH_ID i)) i address buf io in (ret, cs, put_slot i s ss, req))"

definition socket_server_exit :: request where "socket_server_exit = Req_Exit"
definition socket_server_close :: "nat \<Rightarrow> int \<Rightarrow> request" where "socket_server_close opaque i = Req_Close i False opaque"
definition socket_server_shutdown :: "nat \<Rightarrow> int \<Rightarrow> request" where "socket_server_shutdown opaque i = Req_Close i True opaque"
definition socket_server_start :: "nat \<Rightarrow> int \<Rightarrow> request" where "socket_server_start opaque i = Req_Resume i opaque"
definition socket_server_pause :: "nat \<Rightarrow> int \<Rightarrow> request" where "socket_server_pause opaque i = Req_Pause i opaque"
definition TCP_NODELAY :: int where "TCP_NODELAY = 1"
definition socket_server_nodelay :: "int \<Rightarrow> request" where "socket_server_nodelay i = Req_Setopt i TCP_NODELAY 1"

text \<open>Functions that reserve an id first; the descriptor, or its absence, comes from the system.\<close>

definition open_request :: "socket_server \<Rightarrow> nat \<Rightarrow> nat \<Rightarrow> ss_call list \<times> int \<times> socket_server" where
  "open_request ss opaque addr_len =
     (if addr_len + 24 \<ge> 256 then ([Sys_Error ''Invalid addr''], - 1, ss)
      else (let (i, ss) = reserve_id ss in ([], if i < 0 then - 1 else i, ss)))"

definition socket_server_connect :: "socket_server \<Rightarrow> nat \<Rightarrow> nat \<Rightarrow> ss_call list \<times> int \<times> socket_server \<times> request option" where
  "socket_server_connect ss opaque addr_len = (
     let (cs, i, ss) = open_request ss opaque addr_len in (cs, i, ss, if i < 0 then None else Some (Req_Open i opaque)))"

definition socket_server_listen :: "socket_server \<Rightarrow> nat \<Rightarrow> int \<Rightarrow> ss_call list \<times> int \<times> socket_server \<times> request option" where
  "socket_server_listen ss opaque fd =
     (if fd < 0 then ([], - 1, ss, None)
      else (let (i, ss) = reserve_id ss in
        if i < 0 then ([Sys_Close fd], i, ss, None) else ([], i, ss, Some (Req_Listen i fd opaque))))"

definition socket_server_bind :: "socket_server \<Rightarrow> nat \<Rightarrow> int \<Rightarrow> int \<times> socket_server \<times> request option" where
  "socket_server_bind ss opaque fd = (let (i, ss) = reserve_id ss in
     if i < 0 then (- 1, ss, None) else (i, ss, Some (Req_Bind i fd opaque)))"

definition socket_server_udp :: "socket_server \<Rightarrow> nat \<Rightarrow> int \<Rightarrow> bool \<Rightarrow> ss_call list \<times> int \<times> socket_server \<times> request option" where
  "socket_server_udp ss opaque fd inet6 =
     (if fd < 0 then ([], - 1, ss, None)
      else (let (i, ss) = reserve_id ss in
        if i < 0 then ([Sys_Close fd], - 1, ss, None) else ([], i, ss, Some (Req_Udp i fd inet6 opaque))))"

text \<open>\<^verbatim>\<open>socket_server_udp_connect\<close>: the address from the resolver, with its protocol in front.\<close>

definition socket_server_udp_connect :: "socket_server \<Rightarrow> int \<Rightarrow> u8 list option \<Rightarrow> int \<times> socket_server \<times> request option" where
  "socket_server_udp_connect ss i address = (let s = ss_slot ss (HASH_ID i) in
     if socket_invalid s i then (- 1, ss, None)
     else (let ss = put_slot i (s\<lparr>so_udpconnecting := so_udpconnecting s + 1\<rparr>) ss in
       case address of None \<Rightarrow> (- 1, ss, None) | Some a \<Rightarrow> (0, ss, Some (Req_Set_Udp i a))))"

end
