(* ===== verification/Socket_Props.thy ===== *)
theory Socket_Props
  imports Socket_Server
begin

text \<open>
  What the socket server does with the data of a TCP connection: the assertions of the code hold in every run of workers and
  socket thread, the bytes go out in the order in which they were sent, and what becomes of them when the socket is closed. The
  last part is about ids.
\<close>

subsection \<open>The buffers of a slot\<close>

definition rest_bytes :: "write_buffer list \<Rightarrow> u8 list" where
  "rest_bytes wbs = concat (map wb_rest wbs)"

lemma rest_bytes_simps [simp]: "rest_bytes [] = []" "rest_bytes (wb # wbs) = wb_rest wb @ rest_bytes wbs"
  "rest_bytes (wbs @ wbs') = rest_bytes wbs @ rest_bytes wbs'"
  by (simp_all add: rest_bytes_def)

text \<open>Bytes that were taken from a worker and have not been written.\<close>

definition direct_rest :: "socket \<Rightarrow> u8 list" where
  "direct_rest s = (case so_dw_buffer s of None \<Rightarrow> [] | Some d \<Rightarrow> drop (so_dw_offset s) (data_bytes d))"

definition written :: "ss_call list \<Rightarrow> u8 list" where
  "written cs = concat (map (\<lambda>c. case c of Sys_Write _ bs \<Rightarrow> bs | _ \<Rightarrow> []) cs)"

lemma written_simps [simp]: "written [] = []" "written (cs @ cs') = written cs @ written cs'"
  "written (Sys_Write fd bs # cs) = bs @ written cs" "written (Sys_Free d # cs) = written cs"
  "written (Sys_Enable fd r w # cs) = written cs" "written (Sys_Del fd # cs) = written cs" "written (Sys_Close fd # cs) = written cs"
  "written (Sys_Shutdown_Write fd # cs) = written cs" "written (Sys_Shutdown_Read fd # cs) = written cs"
  by (simp_all add: written_def)

lemma written_frees [simp]: "written (map (Sys_Free \<circ> wb_data) wbs) = []"
  by (induction wbs) (simp_all add: written_def)

text \<open>A list of buffers of a TCP socket: only the head may be sent in part, and the rest of a buffer is the rest of its bytes.\<close>

definition fresh_buffers :: "write_buffer list \<Rightarrow> bool" where
  "fresh_buffers wbs \<longleftrightarrow> list_all (\<lambda>wb. wb_ptr wb = 0) wbs"

lemma fresh_buffers_simps [simp]: "fresh_buffers []" "fresh_buffers (wb # wbs) \<longleftrightarrow> wb_ptr wb = 0 \<and> fresh_buffers wbs"
  "fresh_buffers (wbs @ wbs') \<longleftrightarrow> fresh_buffers wbs \<and> fresh_buffers wbs'"
  by (simp_all add: fresh_buffers_def)

lemma fresh_uncomplete: "fresh_buffers wbs \<Longrightarrow> \<not> list_uncomplete wbs"
  by (auto simp: list_uncomplete_def split: list.split)

definition buffers_ok :: "socket \<Rightarrow> bool" where
  "buffers_ok s \<longleftrightarrow> so_wb_size s = int (length (rest_bytes (so_high s)) + length (rest_bytes (so_low s))) \<and>
     fresh_buffers (tl (so_high s)) \<and> fresh_buffers (so_low s) \<and> (so_dw_buffer s \<noteq> None \<longrightarrow> fresh_buffers (so_high s))"

lemma wb_rest_fresh: "wb_ptr wb = 0 \<Longrightarrow> wb_rest wb = data_bytes (wb_data wb)"
  by (simp add: wb_rest_def)

text \<open>The fields that sending does not touch.\<close>

definition same_socket :: "socket \<Rightarrow> socket \<Rightarrow> bool" where
  "same_socket s s' \<longleftrightarrow> so_fd s' = so_fd s \<and> so_id s' = so_id s \<and> so_protocol s' = so_protocol s \<and> so_opaque s' = so_opaque s \<and>
     so_closing s' = so_closing s \<and> so_sending s' = so_sending s \<and> so_reading s' = so_reading s \<and> so_udpconnecting s' = so_udpconnecting s \<and>
     so_size s' = so_size s"

text \<open>One list is sent as far as the system has room; without an error the connection stays as it is.\<close>

definition no_error :: "io list \<Rightarrow> bool" where
  "no_error ios \<longleftrightarrow> Fail_Other \<notin> set ios"

lemma no_error_Cons [simp]: "no_error (io # ios) \<longleftrightarrow> io \<noteq> Fail_Other \<and> no_error ios" "no_error []"
  by (auto simp: no_error_def)

text \<open>What is left of a list: some buffers are gone, and the head may be sent in part.\<close>

definition left_of :: "write_buffer list \<Rightarrow> write_buffer list \<Rightarrow> bool" where
  "left_of wbs wbs' \<longleftrightarrow> (\<exists>sent wb ws n. wbs = sent @ wbs' \<or> (wbs = sent @ wb # ws \<and> 0 < n \<and> wbs' = wb\<lparr>wb_ptr := wb_ptr wb + n\<rparr> # ws))"

lemma left_of_same: "left_of wbs wbs"
  by (auto simp: left_of_def)

lemma left_of_part: "left_of (wb # wbs) (wb\<lparr>wb_ptr := wb_ptr wb + n\<rparr> # wbs)"
proof (cases "n = 0")
  case False
  then show ?thesis unfolding left_of_def by (intro exI [of _ "[]"] exI [of _ wb] exI [of _ wbs] exI [of _ n]) simp
qed (simp add: left_of_same)

lemma left_of_gone: "left_of wbs wbs' \<Longrightarrow> left_of (wb # wbs) wbs'"
  unfolding left_of_def by (metis append_Cons)

lemma send_list_tcp_ok:
  assumes "no_error ios" "fresh_buffers (tl wbs)"
  shows "\<exists>cs s' wbs' ios'. send_list_tcp time pe s high wbs ios = Some (cs, put_list high wbs' s', ios', None) \<and>
    written cs @ rest_bytes wbs' = rest_bytes wbs \<and> so_wb_size s' = so_wb_size s - int (length (written cs)) \<and>
    fresh_buffers (tl wbs') \<and> no_error ios' \<and> same_socket s s' \<and> so_type s' = so_type s \<and> so_high s' = so_high s \<and> so_low s' = so_low s \<and>
    so_dw_buffer s' = so_dw_buffer s \<and> so_dw_offset s' = so_dw_offset s \<and> so_writing s' = so_writing s \<and> so_warn_size s' = so_warn_size s \<and>
    set cs \<inter> range Sys_Close = {} \<and>
    left_of wbs wbs'"
  using assms
proof (induction time pe s high wbs ios rule: send_list_tcp.induct)
  case (6 time pe s high wb wbs r ios)
  let ?n = "min r (length (wb_rest wb))"
  let ?s = "(stat_write time s ?n)\<lparr>so_wb_size := so_wb_size s - int ?n\<rparr>"
  have same: "same_socket s ?s" by (simp add: same_socket_def stat_write_def)
  show ?case
  proof (cases "?n = length (wb_rest wb)")
    case False
    let ?wb = "wb\<lparr>wb_ptr := wb_ptr wb + ?n\<rparr>"
    have "wb_rest ?wb = drop ?n (wb_rest wb)" by (simp add: wb_rest_def add.commute)
    then have "take ?n (wb_rest wb) @ wb_rest ?wb = wb_rest wb" by simp
    with False 6(2,3) same show ?thesis
      by (intro exI [of _ "[Sys_Write (so_fd s) (take ?n (wb_rest wb))]"] exI [of _ ?s] exI [of _ "?wb # wbs"] exI [of _ ios])
        (auto simp: Let_def stat_write_def intro: left_of_part)
  next
    case True
    from 6(2,3) have "no_error ios" "fresh_buffers (tl wbs)" by (cases wbs; simp)+
    with 6(1) [OF refl refl refl] True obtain cs s' wbs' ios' where IH:
      "send_list_tcp time pe ?s high wbs ios = Some (cs, put_list high wbs' s', ios', None)"
      "written cs @ rest_bytes wbs' = rest_bytes wbs" "so_wb_size s' = so_wb_size ?s - int (length (written cs))"
      "fresh_buffers (tl wbs')" "no_error ios'" "same_socket ?s s'" "so_type s' = so_type ?s" "so_high s' = so_high ?s" "so_low s' = so_low ?s"
      "so_dw_buffer s' = so_dw_buffer ?s" "so_dw_offset s' = so_dw_offset ?s" "so_writing s' = so_writing ?s" "so_warn_size s' = so_warn_size ?s"
      "set cs \<inter> range Sys_Close = {}" "left_of wbs wbs'" by auto
    from IH(6) same have "same_socket s s'" by (simp add: same_socket_def)
    with IH True show ?thesis
      by (intro exI [of _ "[Sys_Write (so_fd s) (wb_rest wb), Sys_Free (wb_data wb)] @ cs"] exI [of _ s'] exI [of _ wbs'] exI [of _ ios'])
        (auto simp: Let_def stat_write_def intro: left_of_gone)
  qed
qed (auto simp: same_socket_def left_of_same intro!: exI)

lemma same_socket_refl: "same_socket s s"
  by (simp add: same_socket_def)

lemma same_socket_trans: "same_socket s s' \<Longrightarrow> same_socket s' s'' \<Longrightarrow> same_socket s s''"
  by (simp add: same_socket_def)

lemma left_of_fresh:
  assumes "left_of wbs wbs'" "fresh_buffers wbs"
  shows "\<exists>sent. (wbs = sent @ wbs' \<and> \<not> list_uncomplete wbs') \<or>
    (\<exists>wb ws n. wbs = sent @ wb # ws \<and> wbs' = wb\<lparr>wb_ptr := wb_ptr wb + n\<rparr> # ws \<and> list_uncomplete wbs')"
proof -
  from assms(1) obtain sent wb ws n where "wbs = sent @ wbs' \<or> (wbs = sent @ wb # ws \<and> 0 < n \<and> wbs' = wb\<lparr>wb_ptr := wb_ptr wb + n\<rparr> # ws)"
    unfolding left_of_def by blast
  then show ?thesis
  proof
    assume "wbs = sent @ wbs'"
    with assms(2) fresh_uncomplete [of wbs'] show ?thesis by auto
  next
    assume "wbs = sent @ wb # ws \<and> 0 < n \<and> wbs' = wb\<lparr>wb_ptr := wb_ptr wb + n\<rparr> # ws"
    then show ?thesis by (intro exI [of _ sent] disjI2 exI [of _ wb] exI [of _ ws] exI [of _ n]) (simp add: list_uncomplete_def)
  qed
qed

lemma take_direct_ok:
  assumes "buffers_ok s"
  shows "buffers_ok (take_direct s)" "rest_bytes (so_high (take_direct s)) = direct_rest s @ rest_bytes (so_high s)"
    "so_dw_buffer (take_direct s) = None" "same_socket s (take_direct s)" "so_low (take_direct s) = so_low s" "so_type (take_direct s) = so_type s"
  using assms
  by (cases "so_dw_buffer s"; simp add: take_direct_def buffers_ok_def direct_rest_def same_socket_def Let_def; simp add: wb_rest_def)+

text \<open>What an event sends: all of the direct buffer and the high list that goes, then of the low list. Step 4 follows when both are
  empty.\<close>

lemma send_buffer_ok:
  assumes ok: "buffers_ok s" "so_protocol s = PROTOCOL_TCP" "no_error ios"
  shows "\<exists>cs s1 ios1 sent. send_buffer time pe False s ios = (if send_buffer_empty s1
      then do { (cs2, s2, ios2, r) \<leftarrow> all_sent pe s1 ios1; Some (cs @ cs2, s2, ios2, r) } else Some (cs, s1, ios1, None)) \<and>
    so_low s = sent @ so_low s1 \<and> written cs @ rest_bytes (so_high s1) = direct_rest s @ rest_bytes (so_high s) @ rest_bytes sent \<and>
    buffers_ok s1 \<and> same_socket s s1 \<and> so_type s1 = so_type s \<and> so_dw_buffer s1 = None \<and> set cs \<inter> range Sys_Close = {}"
proof -
  let ?s = "take_direct s"
  note td = take_direct_ok [OF ok(1)]
  have tcp: "so_protocol ?s = PROTOCOL_TCP" using td(4) ok(2) by (simp add: same_socket_def)
  from td(1) have b: "fresh_buffers (tl (so_high ?s))" "fresh_buffers (so_low ?s)"
    "so_wb_size ?s = int (length (rest_bytes (so_high ?s)) + length (rest_bytes (so_low ?s)))" by (simp_all add: buffers_ok_def)
  from send_list_tcp_ok [OF ok(3) b(1), of time pe ?s True] obtain cs s1 wbs ios1 where
    h: "send_list_tcp time pe ?s True (so_high ?s) ios = Some (cs, put_list True wbs s1, ios1, None)"
    "written cs @ rest_bytes wbs = rest_bytes (so_high ?s)" "so_wb_size s1 = so_wb_size ?s - int (length (written cs))"
    "fresh_buffers (tl wbs)" "no_error ios1" "same_socket ?s s1" "so_type s1 = so_type ?s" "so_low s1 = so_low ?s"
    "so_dw_buffer s1 = so_dw_buffer ?s" "set cs \<inter> range Sys_Close = {}" by blast
  let ?s1 = "put_list True wbs s1"
  have "length (written cs) + length (rest_bytes wbs) = length (rest_bytes (so_high ?s))"
    using arg_cong [OF h(2), of length] by simp
  then have len1: "so_wb_size s1 = int (length (rest_bytes wbs) + length (rest_bytes (so_low s)))"
    using h(3) b(3) td(5) by simp
  have s1: "so_high ?s1 = wbs" "so_low ?s1 = so_low s" "so_dw_buffer ?s1 = None" "so_protocol ?s1 = PROTOCOL_TCP" "same_socket s ?s1"
    "so_type ?s1 = so_type s" "so_wb_size ?s1 = int (length (rest_bytes wbs) + length (rest_bytes (so_low s)))"
    using h td tcp len1 same_socket_trans [OF td(4) h(6)] by (simp_all add: put_list_def same_socket_def)
  have ok1: "buffers_ok ?s1" using s1 h(4) b(2) td(5) by (simp add: buffers_ok_def)
  have str1: "written cs @ rest_bytes wbs = direct_rest s @ rest_bytes (so_high s)" using h(2) td(2) by simp
  have send: "send_buffer time pe False s ios = (if so_high ?s1 \<noteq> [] then Some (cs, ?s1, ios1, None) else do {
      (cs', s, ios, r) \<leftarrow> (if so_low ?s1 \<noteq> [] then send_low_list time pe ?s1 ios1 else all_sent pe ?s1 ios1);
      Some (cs @ cs', s, ios, r) })"
    using fresh_uncomplete [OF b(2)] tcp h(1) by (simp add: send_buffer_def send_buffer_lists_def c_assert_def send_list_def)
  consider "wbs \<noteq> []" | "wbs = []" "so_low s = []" | "wbs = []" "so_low s \<noteq> []" by blast
  then show ?thesis
  proof cases
    case 1
    with send s1 str1 ok1 h(10) show ?thesis
      by (intro exI [of _ cs] exI [of _ ?s1] exI [of _ ios1] exI [of _ "[]"]) (simp add: send_buffer_empty_def)
  next
    case 2
    with send s1 str1 ok1 h(10) show ?thesis
      by (intro exI [of _ cs] exI [of _ ?s1] exI [of _ ios1] exI [of _ "[]"]) (simp add: send_buffer_empty_def)
  next
    case 3
    have fr: "fresh_buffers (so_low s)" using b(2) td(5) by simp
    then have "fresh_buffers (tl (so_low s))" by (cases "so_low s") simp_all
    from send_list_tcp_ok [OF h(5) this, of time pe ?s1 False] obtain cs' s2 low ios2 where
      l: "send_list_tcp time pe ?s1 False (so_low s) ios1 = Some (cs', put_list False low s2, ios2, None)"
      "written cs' @ rest_bytes low = rest_bytes (so_low s)" "so_wb_size s2 = so_wb_size ?s1 - int (length (written cs'))"
      "fresh_buffers (tl low)" "same_socket ?s1 s2" "so_type s2 = so_type ?s1" "so_high s2 = so_high ?s1"
      "so_dw_buffer s2 = so_dw_buffer ?s1" "set cs' \<inter> range Sys_Close = {}" "left_of (so_low s) low" by blast
    let ?s2 = "put_list False low s2"
    have "length (written cs') + length (rest_bytes low) = length (rest_bytes (so_low s))"
      using arg_cong [OF l(2), of length] by simp
    then have len2: "so_wb_size s2 = int (length (rest_bytes low))" using l(3) s1(7) 3(1) by simp
    have s2: "so_high ?s2 = []" "so_low ?s2 = low" "so_dw_buffer ?s2 = None" "same_socket s ?s2" "so_type ?s2 = so_type s"
      "so_wb_size ?s2 = int (length (rest_bytes low))"
      using l s1 3 len2 same_socket_trans [OF s1(5) l(5)] by (simp_all add: put_list_def same_socket_def)
    have str2: "written (cs @ cs') @ rest_bytes low = direct_rest s @ rest_bytes (so_high s) @ rest_bytes (so_low s)"
      using str1 3(1) l(2) by simp
    from left_of_fresh [OF l(10) fr] obtain sent where
      "so_low s = sent @ low \<and> \<not> list_uncomplete low \<or>
       (\<exists>wb ws n. so_low s = sent @ wb # ws \<and> low = wb\<lparr>wb_ptr := wb_ptr wb + n\<rparr> # ws \<and> list_uncomplete low)" by blast
    then show ?thesis
    proof
      assume whole: "so_low s = sent @ low \<and> \<not> list_uncomplete low"
      then have "fresh_buffers low" using fr by simp
      with s2 have ok2: "buffers_ok ?s2" by (simp add: buffers_ok_def)
      have "send_buffer time pe False s ios = (if send_buffer_empty ?s2
        then do { (cs2, s2, ios2, r) \<leftarrow> all_sent pe ?s2 ios2; Some ((cs @ cs') @ cs2, s2, ios2, r) } else Some (cs @ cs', ?s2, ios2, None))"
        unfolding send using 3 s1 s2(1,2) l(1) whole
        by (cases "all_sent pe ?s2 ios2") (auto simp: send_low_list_def send_list_def send_buffer_empty_def)
      with s2 ok2 str2 whole h(10) l(9) show ?thesis
        by (intro exI [of _ "cs @ cs'"] exI [of _ ?s2] exI [of _ ios2] exI [of _ sent]) (simp add: Int_Un_distrib2)
    next
      assume "\<exists>wb ws n. so_low s = sent @ wb # ws \<and> low = wb\<lparr>wb_ptr := wb_ptr wb + n\<rparr> # ws \<and> list_uncomplete low"
      then obtain wb ws n where part: "so_low s = sent @ wb # ws" "low = wb\<lparr>wb_ptr := wb_ptr wb + n\<rparr> # ws" "list_uncomplete low" by blast
      let ?s3 = "?s2\<lparr>so_low := ws, so_high := [wb\<lparr>wb_ptr := wb_ptr wb + n\<rparr>]\<rparr>"
      have "raise_uncomplete ?s2 = Some ?s3" using s2(1,2) part(2) by (simp add: raise_uncomplete_def c_assert_def)
      then have run: "send_buffer time pe False s ios = Some (cs @ cs', ?s3, ios2, None)"
        unfolding send using 3 s1 s2(1,2) l(1) part(3) by (simp add: send_low_list_def send_list_def)
      have "buffers_ok ?s3" using s2 fr part(1,2) by (simp add: buffers_ok_def)
      moreover have "same_socket s ?s3" using s2(4) by (simp add: same_socket_def)
      ultimately show ?thesis
        using s2 str2 part h(10) l(9) run
        by (intro exI [of _ "cs @ cs'"] exI [of _ ?s3] exI [of _ ios2] exI [of _ "sent @ [wb]"]) (simp add: send_buffer_empty_def Int_Un_distrib2)
    qed
  qed
qed

subsection \<open>A connection that is written to\<close>

text \<open>
  Workers send to the socket of the id \<open>i\<close> with high or low priority, the socket thread takes the requests from the pipe in their
  order and handles the write events of the socket. An action says what the system answers, and whether the other side has the lock.
\<close>

record conn_state =
  cn_slot :: socket
  cn_pipe :: "request list"

datatype conn_act = Act_Send sendbuffer bool io | Act_Send_Low sendbuffer | Act_Cmd | Act_Write bool "io list"

definition to_pipe :: "conn_state \<Rightarrow> int \<times> ss_call list \<times> socket \<times> request option \<Rightarrow> ss_call list \<times> conn_state" where
  "to_pipe c r = (let (_, cs, s, req) = r in
     (cs, \<lparr>cn_slot = s, cn_pipe = cn_pipe c @ (case req of None \<Rightarrow> [] | Some q \<Rightarrow> [q])\<rparr>))"

fun conn_step :: "u64 \<Rightarrow> poll_errors \<Rightarrow> int \<Rightarrow> conn_state \<Rightarrow> conn_act \<Rightarrow> (ss_call list \<times> conn_state) option" where
  "conn_step time pe i c (Act_Send buf locked io) = map_option (to_pipe c) (slot_send time locked (cn_slot c) i buf io)"
| "conn_step time pe i c (Act_Send_Low buf) = map_option (to_pipe c) (slot_send_lowpriority (cn_slot c) i buf)"
| "conn_step time pe i c Act_Cmd = (case cn_pipe c of
     [] \<Rightarrow> Some ([], c)
   | req # reqs \<Rightarrow> do {
       (cs, s, r) \<leftarrow> slot_cmd time pe (cn_slot c) req Open_Failed [];
       Some (cs, \<lparr>cn_slot = s, cn_pipe = reqs\<rparr>) })"
| "conn_step time pe i c (Act_Write locked ios) = do {
     (cs, s, ios, r) \<leftarrow> send_buffer time pe locked (cn_slot c) ios;
     Some (cs, c\<lparr>cn_slot := s\<rparr>) }"

text \<open>The messages of both priorities.\<close>

fun high_sends :: "conn_act list \<Rightarrow> u8 list list" where
  "high_sends [] = []"
| "high_sends (Act_Send buf _ _ # acts) = sendbuffer_bytes buf # high_sends acts"
| "high_sends (_ # acts) = high_sends acts"

fun low_sends :: "conn_act list \<Rightarrow> u8 list list" where
  "low_sends [] = []"
| "low_sends (Act_Send_Low buf # acts) = sendbuffer_bytes buf # low_sends acts"
| "low_sends (_ # acts) = low_sends acts"

fun act_no_error :: "conn_act \<Rightarrow> bool" where
  "act_no_error (Act_Write _ ios) \<longleftrightarrow> no_error ios"
| "act_no_error _ \<longleftrightarrow> True"

text \<open>A connected TCP socket of the id with nothing to send.\<close>

definition fresh_conn :: "socket \<Rightarrow> int \<Rightarrow> bool" where
  "fresh_conn s i \<longleftrightarrow> so_id s = i \<and> so_type s = SOCKET_TYPE_CONNECTED \<and> so_protocol s = PROTOCOL_TCP \<and> \<not> so_closing s \<and>
     so_sending s = ID_TAG16 i * 65536 \<and> so_high s = [] \<and> so_low s = [] \<and> so_wb_size s = 0 \<and> so_dw_buffer s = None"

definition drained :: "conn_state \<Rightarrow> bool" where
  "drained c \<longleftrightarrow> cn_pipe c = [] \<and> send_buffer_empty (cn_slot c) \<and> so_dw_buffer (cn_slot c) = None"

subsection \<open>The bytes of a connection\<close>

fun pipe_sends :: "bool \<Rightarrow> request list \<Rightarrow> u8 list list" where
  "pipe_sends high [] = []"
| "pipe_sends high (Req_Send h i d # reqs) = (if h = high then [data_bytes d] else []) @ pipe_sends high reqs"
| "pipe_sends high (_ # reqs) = pipe_sends high reqs"

lemma pipe_sends_append [simp]: "pipe_sends high (reqs @ reqs') = pipe_sends high reqs @ pipe_sends high reqs'"
  by (induction high reqs rule: pipe_sends.induct) simp_all

text \<open>Only requests of these kinds are in the pipe.\<close>

fun conn_request :: "int \<Rightarrow> request \<Rightarrow> bool" where
  "conn_request i (Req_Send _ j _) \<longleftrightarrow> j = i"
| "conn_request i (Req_Trigger j) \<longleftrightarrow> j = i"
| "conn_request i _ \<longleftrightarrow> False"

text \<open>The bytes \<open>w\<close> that were written and those that are committed to go next are whole messages, and the messages of both
  priorities are in their order.\<close>

definition stream_ok :: "u8 list list \<Rightarrow> u8 list list \<Rightarrow> u8 list \<Rightarrow> conn_state \<Rightarrow> bool" where
  "stream_ok H L w c \<longleftrightarrow> (\<exists>S Hd Ld. S \<in> shuffles Hd Ld \<and>
     w @ direct_rest (cn_slot c) @ rest_bytes (so_high (cn_slot c)) = concat S \<and> H = Hd @ pipe_sends True (cn_pipe c) \<and>
     L = Ld @ map (data_bytes \<circ> wb_data) (so_low (cn_slot c)) @ pipe_sends False (cn_pipe c))"

definition sock_ok :: "int \<Rightarrow> nat \<Rightarrow> conn_state \<Rightarrow> bool" where
  "sock_ok i n c \<longleftrightarrow> (let s = cn_slot c; k = length (pipe_sends True (cn_pipe c)) + length (pipe_sends False (cn_pipe c)) in
     so_id s = i \<and> so_type s = SOCKET_TYPE_CONNECTED \<and> so_protocol s = PROTOCOL_TCP \<and> \<not> so_closing s \<and> buffers_ok s \<and>
     so_sending s div 65536 = ID_TAG16 i \<and> k \<le> so_sending s mod 65536 \<and> so_sending s mod 65536 \<le> n \<and>
     list_all (conn_request i) (cn_pipe c))"

lemma shuffles_append_left: "S \<in> shuffles Hs Ls \<Longrightarrow> S @ T \<in> shuffles (Hs @ T) Ls"
proof (induction Hs Ls arbitrary: S rule: shuffles.induct)
  case (1 Ls)
  have "Ls @ T \<in> shuffles T Ls" by (induction Ls) (cases T; simp; blast?)+
  with 1 show ?case by simp
next
  case (3 x xs y ys)
  then show ?case by (auto simp: Cons_in_shuffles_iff)
qed simp

lemma shuffles_append_right: "S \<in> shuffles Hs Ls \<Longrightarrow> S @ T \<in> shuffles Hs (Ls @ T)"
  using shuffles_append_left shuffles_commutes by blast

text \<open>Switching an event or a warning changes nothing else.\<close>

definition same_data :: "socket \<Rightarrow> socket \<Rightarrow> bool" where
  "same_data s s' \<longleftrightarrow> s' = s\<lparr>so_writing := so_writing s', so_warn_size := so_warn_size s'\<rparr>"

lemma same_data_fields:
  assumes "same_data s s'"
  shows "so_high s' = so_high s" "so_low s' = so_low s" "so_wb_size s' = so_wb_size s" "so_dw_buffer s' = so_dw_buffer s"
    "so_dw_offset s' = so_dw_offset s" "so_type s' = so_type s" "same_socket s s'"
    "direct_rest s' = direct_rest s"
proof -
  obtain w z where "s' = s\<lparr>so_writing := w, so_warn_size := z\<rparr>" using assms by (auto simp: same_data_def)
  then show "so_high s' = so_high s" "so_low s' = so_low s" "so_wb_size s' = so_wb_size s" "so_dw_buffer s' = so_dw_buffer s"
    "so_dw_offset s' = so_dw_offset s" "so_type s' = so_type s" "same_socket s s'" "direct_rest s' = direct_rest s"
    by (simp_all add: same_socket_def direct_rest_def split: option.split)
qed

lemma enable_write_data: "enable_write pe s e = (f, cs, s') \<Longrightarrow> same_data s s' \<and> written cs = []"
  by (auto simp: enable_write_def same_data_def split: if_splits)

lemma direct_rest_sending: "direct_rest (s\<lparr>so_sending := k\<rparr>) = direct_rest s"
  by (simp add: direct_rest_def split: option.split)

lemma queue_warning_data: "queue_warning s = (s', r) \<Longrightarrow> same_data s s'"
  by (auto simp: queue_warning_def same_data_def split: if_splits)

lemma same_data_trans: "same_data s s' \<Longrightarrow> same_data s' s'' \<Longrightarrow> same_data s s''"
  by (cases s; cases s'; cases s''; simp add: same_data_def)

lemma start_sending_data: "start_sending pe s = (cs, s', r) \<Longrightarrow> same_data s s' \<and> written cs = []"
  by (auto simp: start_sending_def Let_def split: prod.splits if_splits dest!: enable_write_data queue_warning_data intro: same_data_trans)

lemma trigger_write_data: "trigger_write pe s i = (cs, s', r) \<Longrightarrow> same_data s s' \<and> written cs = []"
  by (auto simp: trigger_write_def Let_def same_data_def split: prod.splits if_splits dest!: enable_write_data)

lemma all_sent_data:
  assumes "buffers_ok s" "send_buffer_empty s" "\<not> so_closing s"
  shows "\<exists>cs s' r. all_sent pe s ios = Some (cs, s', ios, r) \<and> same_data s s' \<and> written cs = []"
proof -
  obtain f cs s' where e: "enable_write pe s False = (f, cs, s')" by (cases "enable_write pe s False")
  have "so_wb_size s = 0" using assms(1,2) by (simp add: buffers_ok_def send_buffer_empty_def)
  with enable_write_data [OF e] assms e show ?thesis
    by (cases s; cases s'; auto simp: all_sent_def same_data_def)
qed

lemma same_data_buffers: "same_data s s' \<Longrightarrow> buffers_ok s \<Longrightarrow> buffers_ok s'"
  by (simp add: buffers_ok_def same_data_fields)

lemma sock_ok_frame:
  assumes "sock_ok i n c" "same_socket (cn_slot c) s" "so_type s = so_type (cn_slot c)" "buffers_ok s"
  shows "sock_ok i n (c\<lparr>cn_slot := s\<rparr>)"
  using assms by (simp add: sock_ok_def same_socket_def Let_def)

lemma fresh_bytes: "fresh_buffers wbs \<Longrightarrow> rest_bytes wbs = concat (map (data_bytes \<circ> wb_data) wbs)"
  by (induction wbs) (simp_all add: wb_rest_fresh)

text \<open>A write event.\<close>

lemma write_step_ok:
  assumes ok: "sock_ok i n c" "stream_ok H L w c" "no_error ios"
  shows "\<exists>cs c'. conn_step time pe i c (Act_Write locked ios) = Some (cs, c') \<and> sock_ok i n c' \<and> stream_ok H L (w @ written cs) c'"
proof (cases locked)
  case True
  then show ?thesis using ok by (simp add: send_buffer_def)
next
  case False
  let ?s = "cn_slot c"
  from ok(1) have b: "buffers_ok ?s" "so_protocol ?s = PROTOCOL_TCP" "\<not> so_closing ?s" by (simp_all add: sock_ok_def Let_def)
  obtain cs s1 ios1 sent where
    run: "send_buffer time pe False ?s ios = (if send_buffer_empty s1
      then do { (cs2, s2, ios2, r) \<leftarrow> all_sent pe s1 ios1; Some (cs @ cs2, s2, ios2, r) } else Some (cs, s1, ios1, None))"
    and low: "so_low ?s = sent @ so_low s1"
    and str: "written cs @ rest_bytes (so_high s1) = direct_rest ?s @ rest_bytes (so_high ?s) @ rest_bytes sent"
    and ok1: "buffers_ok s1" "same_socket ?s s1" "so_type s1 = so_type ?s" "so_dw_buffer s1 = None"
    using send_buffer_ok [OF b(1,2) ok(3), of time pe] by blast
  have "\<exists>cs' s' ios' r. send_buffer time pe False ?s ios = Some (cs', s', ios', r) \<and> same_data s1 s' \<and> written cs' = written cs"
  proof (cases "send_buffer_empty s1")
    case True
    with all_sent_data [OF ok1(1) True, of pe ios1] b(3) ok1(2) show ?thesis unfolding run by (auto simp: same_socket_def)
  next
    case False
    then show ?thesis unfolding run by (simp add: same_data_def)
  qed
  then obtain cs' s' ios' r where s': "send_buffer time pe False ?s ios = Some (cs', s', ios', r)" "same_data s1 s'" "written cs' = written cs"
    by blast
  have fr: "fresh_buffers sent" using b(1) low by (simp add: buffers_ok_def)
  have "sock_ok i n (c\<lparr>cn_slot := s'\<rparr>)"
    using sock_ok_frame [OF ok(1)] same_socket_trans [OF ok1(2) same_data_fields(7) [OF s'(2)]] same_data_fields [OF s'(2)] ok1
      same_data_buffers [OF s'(2)] by simp
  moreover have "stream_ok H L (w @ written cs') (c\<lparr>cn_slot := s'\<rparr>)"
  proof -
    let ?T = "map (data_bytes \<circ> wb_data) sent"
    from ok(2) obtain S Hd Ld where S: "S \<in> shuffles Hd Ld" "w @ direct_rest ?s @ rest_bytes (so_high ?s) = concat S"
      "H = Hd @ pipe_sends True (cn_pipe c)" "L = Ld @ map (data_bytes \<circ> wb_data) (so_low ?s) @ pipe_sends False (cn_pipe c)"
      by (auto simp: stream_ok_def)
    have "w @ written cs @ rest_bytes (so_high s1) = concat (S @ ?T)"
      using str S(2) fresh_bytes [OF fr] by (metis append.assoc concat_append)
    with S low ok1(4) s'(3) same_data_fields [OF s'(2)] show ?thesis
      unfolding stream_ok_def
      by (intro exI [of _ "S @ ?T"] exI [of _ Hd] exI [of _ "Ld @ ?T"]) (simp add: shuffles_append_right direct_rest_def)
  qed
  ultimately show ?thesis using s'(1) False by simp
qed

text \<open>A message from the pipe goes to the end of a list.\<close>

lemma send_socket_tcp:
  assumes "so_id s = i" "so_type s = SOCKET_TYPE_CONNECTED" "so_protocol s = PROTOCOL_TCP" "\<not> so_closing s"
  shows "\<exists>cs s' r. send_socket time pe s i d high None ios = Some (cs, s', ios, r) \<and> written cs = [] \<and>
    same_data (append_sendbuffer (high \<or> send_buffer_empty s) s d None) s'"
proof -
  obtain cs1 s1 r1 where st: "start_sending pe (append_sendbuffer True s d None) = (cs1, s1, r1)"
    by (cases "start_sending pe (append_sendbuffer True s d None)")
  obtain s2 r2 where q: "queue_warning (append_sendbuffer high s d None) = (s2, r2)"
    by (cases "queue_warning (append_sendbuffer high s d None)")
  from st q assms start_sending_data [OF st] queue_warning_data [OF q] show ?thesis
    by (auto simp: send_socket_def send_refused_def)
qed

lemma append_sendbuffer_fields:
  "same_socket s (append_sendbuffer high s d None)"
  "so_type (append_sendbuffer high s d None) = so_type s"
  "direct_rest (append_sendbuffer high s d None) = direct_rest s"
  "rest_bytes (so_high (append_sendbuffer high s d None)) = rest_bytes (so_high s) @ (if high then data_bytes d else [])"
  "map (data_bytes \<circ> wb_data) (so_low (append_sendbuffer high s d None)) =
    map (data_bytes \<circ> wb_data) (so_low s) @ (if high then [] else [data_bytes d])"
  by (simp_all add: append_sendbuffer_def same_socket_def Let_def direct_rest_def wb_rest_def split: option.split)

lemma append_sendbuffer_ok:
  assumes "buffers_ok s"
  shows "buffers_ok (append_sendbuffer high s d None)"
  using assms by (cases "so_high s") (auto simp: append_sendbuffer_def buffers_ok_def Let_def wb_rest_def)

text \<open>The counter in the low half of a number.\<close>

lemma count_down:
  fixes m :: nat
  assumes "0 < m mod 65536"
  shows "(m - 1) div 65536 = m div 65536" "(m - 1) mod 65536 = m mod 65536 - 1"
proof -
  have "m - 1 = 65536 * (m div 65536) + (m mod 65536 - 1)" using assms div_mult_mod_eq [of m 65536] by linarith
  moreover have "m mod 65536 - 1 < 65536" by (simp add: less_imp_diff_less)
  ultimately show "(m - 1) div 65536 = m div 65536" "(m - 1) mod 65536 = m mod 65536 - 1" by simp_all
qed

lemma count_up:
  fixes m :: nat
  assumes "m mod 65536 < 65535"
  shows "(m + 1) div 65536 = m div 65536" "(m + 1) mod 65536 = m mod 65536 + 1"
  using assms by (simp_all add: mod_Suc div_Suc)

text \<open>A request of the pipe.\<close>

lemma cmd_step_ok:
  assumes ok: "sock_ok i n c" "stream_ok H L w c"
  shows "\<exists>cs c'. conn_step time pe i c Act_Cmd = Some (cs, c') \<and> sock_ok i n c' \<and> stream_ok H L (w @ written cs) c'"
proof (cases "cn_pipe c")
  case Nil
  then show ?thesis using ok by simp
next
  case (Cons req reqs)
  let ?s = "cn_slot c"
  from ok(1) have b: "buffers_ok ?s" "so_protocol ?s = PROTOCOL_TCP" "\<not> so_closing ?s" "so_type ?s = SOCKET_TYPE_CONNECTED" "so_id ?s = i"
    by (simp_all add: sock_ok_def Let_def)
  from ok(1) Cons have "conn_request i req" by (simp add: sock_ok_def Let_def)
  then consider (trigger) "req = Req_Trigger i" | (send) high d where "req = Req_Send high i d" by (cases req) auto
  then show ?thesis
  proof cases
    case trigger
    obtain cs s r where t: "trigger_write pe ?s i = (cs, s, r)" by (cases "trigger_write pe ?s i")
    note sd = trigger_write_data [OF t, THEN conjunct1]
    have "sock_ok i n \<lparr>cn_slot = s, cn_pipe = reqs\<rparr>"
      using ok(1) Cons trigger same_data_fields [OF sd] same_data_buffers [OF sd] by (simp add: sock_ok_def same_socket_def Let_def)
    moreover have "stream_ok H L w \<lparr>cn_slot = s, cn_pipe = reqs\<rparr>"
      using ok(2) Cons trigger same_data_fields [OF sd] by (simp add: stream_ok_def)
    ultimately show ?thesis using Cons trigger t trigger_write_data [OF t] by simp
  next
    case send
    let ?a = "append_sendbuffer (high \<or> send_buffer_empty ?s) ?s d None"
    from send_socket_tcp [OF b(5,4,2,3), of time pe d high "[]"] obtain cs s r where
      t: "send_socket time pe ?s i d high None [] = Some (cs, s, [], r)" "written cs = []" "same_data ?a s" by blast
    note f = same_data_fields [OF t(3)] append_sendbuffer_fields [where s = ?s and high = "high \<or> send_buffer_empty ?s" and d = d]
    have sc: "same_socket ?s s" using same_socket_trans [OF f(9) f(7)] .
    from ok(1) Cons send have k: "0 < so_sending ?s mod 65536" by (simp add: sock_ok_def Let_def split: if_splits)
    let ?s' = "s\<lparr>so_sending := so_sending s - 1\<rparr>"
    have dec: "dec_sending_ref s i = Some ?s'" using k sc b by (simp add: dec_sending_ref_def same_socket_def)
    have sn: "so_sending ?s' div 65536 = so_sending ?s div 65536" "so_sending ?s' mod 65536 = so_sending ?s mod 65536 - 1"
      using count_down [OF k] sc by (simp_all add: same_socket_def)
    have "buffers_ok ?s'" using same_data_buffers [OF t(3) append_sendbuffer_ok [OF b(1)]] by (simp add: buffers_ok_def)
    then have "sock_ok i n \<lparr>cn_slot = ?s', cn_pipe = reqs\<rparr>"
    proof -
      have "so_id ?s' = i" "so_protocol ?s' = PROTOCOL_TCP" "\<not> so_closing ?s'" "so_type ?s' = SOCKET_TYPE_CONNECTED"
        using sc f(6,10) b by (simp_all add: same_socket_def)
      moreover have "so_sending ?s div 65536 = ID_TAG16 i" "so_sending ?s mod 65536 \<le> n" "list_all (conn_request i) reqs"
        "length (pipe_sends True (cn_pipe c)) + length (pipe_sends False (cn_pipe c)) \<le> so_sending ?s mod 65536"
        using ok(1) Cons by (simp_all add: sock_ok_def Let_def)
      moreover have "length (pipe_sends True (cn_pipe c)) + length (pipe_sends False (cn_pipe c)) =
          Suc (length (pipe_sends True reqs) + length (pipe_sends False reqs))"
        using Cons send by (cases high) simp_all
      then have "length (pipe_sends True reqs) + length (pipe_sends False reqs) \<le> so_sending ?s mod 65536 - 1"
        using calculation(8) by linarith
      ultimately show ?thesis
        using \<open>buffers_ok ?s'\<close> unfolding sock_ok_def Let_def conn_state.simps sn by (meson diff_le_self le_trans)
    qed
    moreover have "stream_ok H L w \<lparr>cn_slot = ?s', cn_pipe = reqs\<rparr>"
    proof -
      from ok(2) obtain S Hd Ld where S: "S \<in> shuffles Hd Ld" "w @ direct_rest ?s @ rest_bytes (so_high ?s) = concat S"
        "H = Hd @ pipe_sends True (req # reqs)" "L = Ld @ map (data_bytes \<circ> wb_data) (so_low ?s) @ pipe_sends False (req # reqs)"
        by (auto simp: stream_ok_def Cons)
      have fields: "direct_rest ?s' = direct_rest ?s" "so_high ?s' = so_high ?a" "so_low ?s' = so_low ?a"
        using f(1,2,8,11) by (simp_all add: direct_rest_sending)
      show ?thesis
      proof (cases "high \<or> send_buffer_empty ?s")
        case True
        let ?Hd = "if high then Hd @ [data_bytes d] else Hd" and ?Ld = "if high then Ld else Ld @ [data_bytes d]"
        have "S @ [data_bytes d] \<in> shuffles ?Hd ?Ld" using S(1) shuffles_append_left shuffles_append_right by auto
        moreover have "w @ direct_rest ?s' @ rest_bytes (so_high ?s') = concat (S @ [data_bytes d])"
          using S(2) True f(12) unfolding fields by (simp flip: S(2))
        moreover have "H = ?Hd @ pipe_sends True reqs" "L = ?Ld @ map (data_bytes \<circ> wb_data) (so_low ?s') @ pipe_sends False reqs"
          using S(3,4) True f(13) unfolding fields by (auto simp: send send_buffer_empty_def)
        ultimately show ?thesis unfolding stream_ok_def by fastforce
      next
        case False
        then show ?thesis using S f(12,13) unfolding stream_ok_def conn_state.simps fields
          by (intro exI [of _ S] exI [of _ Hd] exI [of _ Ld]) (simp add: send)
      qed
    qed
    ultimately show ?thesis using Cons send t dec by simp
  qed
qed

text \<open>A worker that sends.\<close>

lemma clone_bytes [simp]: "data_bytes (clone_buffer buf) = sendbuffer_bytes buf"
  by (cases buf) (simp_all add: clone_buffer_def sendbuffer_bytes_def)

lemma written_free_of [simp]: "written (free_of buf) = []"
  by (cases buf) (simp_all add: free_of_def)

lemma inc_sending_ok:
  assumes "sock_ok i n c" "n < 65535"
  shows "inc_sending_ref (cn_slot c) i = Some ((cn_slot c)\<lparr>so_sending := so_sending (cn_slot c) + 1\<rparr>)"
    "so_sending (cn_slot c) mod 65536 < 65535"
  using assms by (simp_all add: inc_sending_ref_def sock_ok_def Let_def)

lemma sock_ok_more: "sock_ok i n c \<Longrightarrow> sock_ok i (Suc n) c"
  by (simp add: sock_ok_def Let_def)

text \<open>A request that is counted goes into the pipe.\<close>

lemma counted_ok:
  assumes ok: "sock_ok i n c" "n < 65535" "conn_request i req"
  shows "sock_ok i (Suc n) \<lparr>cn_slot = (cn_slot c)\<lparr>so_sending := so_sending (cn_slot c) + 1\<rparr>, cn_pipe = cn_pipe c @ [req]\<rparr>"
    (is "sock_ok i _ ?c")
proof -
  note up = count_up [OF inc_sending_ok(2) [OF ok(1,2)]]
  have "so_sending (cn_slot ?c) div 65536 = so_sending (cn_slot c) div 65536"
    "so_sending (cn_slot ?c) mod 65536 = so_sending (cn_slot c) mod 65536 + 1" using up by simp_all
  moreover have "so_id (cn_slot ?c) = so_id (cn_slot c)" "so_type (cn_slot ?c) = so_type (cn_slot c)"
    "so_protocol (cn_slot ?c) = so_protocol (cn_slot c)" "so_closing (cn_slot ?c) = so_closing (cn_slot c)"
    "buffers_ok (cn_slot ?c) = buffers_ok (cn_slot c)" by (simp_all add: buffers_ok_def)
  moreover have "length (pipe_sends True (cn_pipe ?c)) + length (pipe_sends False (cn_pipe ?c)) \<le>
      Suc (length (pipe_sends True (cn_pipe c)) + length (pipe_sends False (cn_pipe c)))"
    "list_all (conn_request i) (cn_pipe ?c) = list_all (conn_request i) (cn_pipe c)" using ok(3) by (cases req; simp)+
  ultimately show ?thesis using ok(1) unfolding sock_ok_def Let_def by simp
qed

lemma pipe_stream_ok:
  assumes "stream_ok H L w c"
  shows "stream_ok (if high then H @ [data_bytes d] else H) (if high then L else L @ [data_bytes d]) w
    \<lparr>cn_slot = (cn_slot c)\<lparr>so_sending := k\<rparr>, cn_pipe = cn_pipe c @ [Req_Send high i d]\<rparr>"
proof -
  from assms obtain S Hd Ld where "S \<in> shuffles Hd Ld" "w @ direct_rest (cn_slot c) @ rest_bytes (so_high (cn_slot c)) = concat S"
    "H = Hd @ pipe_sends True (cn_pipe c)" "L = Ld @ map (data_bytes \<circ> wb_data) (so_low (cn_slot c)) @ pipe_sends False (cn_pipe c)"
    by (auto simp: stream_ok_def)
  then show ?thesis unfolding stream_ok_def conn_state.simps
    by (intro exI [of _ S] exI [of _ Hd] exI [of _ Ld]) (simp add: direct_rest_sending)
qed

text \<open>A message that is written at once, in part or whole.\<close>

lemma direct_write_ok:
  assumes ok: "sock_ok i n c" "stream_ok H L w c" "n < 65535" "can_direct_write (cn_slot c) i"
  shows "\<exists>cs c'. map_option (to_pipe c) (direct_write time (cn_slot c) i buf None io) = Some (cs, c') \<and> sock_ok i (Suc n) c' \<and>
    stream_ok (H @ [sendbuffer_bytes buf]) L (w @ written cs) c'"
proof -
  let ?s = "cn_slot c" and ?bs = "sendbuffer_bytes buf"
  let ?n = "case io of Room r \<Rightarrow> min r (length ?bs) | _ \<Rightarrow> 0"
  let ?cs = "case io of Room r \<Rightarrow> [Sys_Write (so_fd ?s) (take ?n ?bs)] | _ \<Rightarrow> []"
  have cs: "written ?cs = take ?n ?bs" by (cases io) simp_all
  have nomore: "nomore_sending_data ?s" "so_type ?s = SOCKET_TYPE_CONNECTED" using ok(4) by (simp_all add: can_direct_write_def)
  have empty: "so_high ?s = []" "so_low ?s = []" "so_dw_buffer ?s = None" "so_sending ?s mod 65536 = 0" "direct_rest ?s = []"
    using nomore by (simp_all add: nomore_sending_data_def send_buffer_empty_def direct_rest_def)
  have pipe: "pipe_sends True (cn_pipe c) = []" "pipe_sends False (cn_pipe c) = []"
    using ok(1) empty(4) by (simp_all add: sock_ok_def Let_def)
  from ok(2) have S: "\<exists>S. S \<in> shuffles H L \<and> w = concat S" using empty pipe by (auto simp: stream_ok_def)
  then obtain S where S: "S \<in> shuffles H L" "w = concat S" by blast
  have S': "S @ [?bs] \<in> shuffles (H @ [?bs]) L" using S(1) by (rule shuffles_append_left)
  show ?thesis
  proof (cases "?n = length ?bs")
    case True
    let ?c = "c\<lparr>cn_slot := stat_write time ?s ?n\<rparr>"
    have run: "map_option (to_pipe c) (direct_write time ?s i buf None io) = Some (?cs @ free_of buf, ?c)"
      using True by (cases io) (auto simp: direct_write_def to_pipe_def Let_def)
    have "sock_ok i (Suc n) ?c"
      using ok(1) by (intro sock_ok_more sock_ok_frame) (simp_all add: same_socket_def stat_write_def buffers_ok_def sock_ok_def Let_def)
    moreover have "stream_ok (H @ [?bs]) L (w @ written (?cs @ free_of buf)) ?c"
      unfolding stream_ok_def using S' S(2) cs True empty pipe
      by (intro exI [of _ "S @ [?bs]"] exI [of _ "H @ [?bs]"] exI [of _ L]) (simp add: stat_write_def direct_rest_def)
    ultimately show ?thesis using run by blast
  next
    case False
    let ?s1 = "(stat_write time ?s ?n)\<lparr>so_dw_buffer := Some (clone_buffer buf), so_dw_offset := ?n\<rparr>"
    have ok1: "sock_ok i n (c\<lparr>cn_slot := ?s1\<rparr>)"
      using ok(1) empty by (intro sock_ok_frame) (simp_all add: same_socket_def stat_write_def buffers_ok_def sock_ok_def Let_def)
    let ?c = "\<lparr>cn_slot = ?s1\<lparr>so_sending := so_sending ?s1 + 1\<rparr>, cn_pipe = cn_pipe c @ [Req_Trigger i]\<rparr>"
    have inc: "inc_sending_ref ?s1 i = Some (?s1\<lparr>so_sending := so_sending ?s1 + 1\<rparr>)"
      using inc_sending_ok(1) [OF ok1 ok(3)] by simp
    have run: "map_option (to_pipe c) (direct_write time ?s i buf None io) = Some (?cs, ?c)"
      using False inc by (cases io) (auto simp: direct_write_def to_pipe_def Let_def)
    have "sock_ok i (Suc n) ?c" using counted_ok [OF ok1 ok(3), of "Req_Trigger i"] by simp
    moreover have "stream_ok (H @ [?bs]) L (w @ written ?cs) ?c"
      unfolding stream_ok_def using S' S(2) cs empty pipe
      by (intro exI [of _ "S @ [?bs]"] exI [of _ "H @ [?bs]"] exI [of _ L]) (simp add: stat_write_def direct_rest_def)
    ultimately show ?thesis using run by blast
  qed
qed

lemma send_step_ok:
  assumes ok: "sock_ok i n c" "stream_ok H L w c" "n < 65535"
  shows "\<exists>cs c'. conn_step time pe i c (Act_Send buf locked io) = Some (cs, c') \<and> sock_ok i (Suc n) c' \<and>
    stream_ok (H @ [sendbuffer_bytes buf]) L (w @ written cs) c'"
proof -
  from ok(1) have b: "\<not> socket_invalid (cn_slot c) i" "\<not> so_closing (cn_slot c)" "so_protocol (cn_slot c) = PROTOCOL_TCP"
    by (simp_all add: sock_ok_def Let_def socket_invalid_def)
  show ?thesis
  proof (cases "can_direct_write (cn_slot c) i \<and> \<not> locked")
    case True
    with direct_write_ok [OF ok, of time buf io] b show ?thesis by (simp add: slot_send_def)
  next
    case False
    then have "conn_step time pe i c (Act_Send buf locked io) =
        Some ([], \<lparr>cn_slot = (cn_slot c)\<lparr>so_sending := so_sending (cn_slot c) + 1\<rparr>, cn_pipe = cn_pipe c @ [Req_Send True i (clone_buffer buf)]\<rparr>)"
      using b inc_sending_ok(1) [OF ok(1,3)] by (auto simp: slot_send_def to_pipe_def)
    with counted_ok [OF ok(1,3), of "Req_Send True i (clone_buffer buf)"]
      pipe_stream_ok [OF ok(2), of True "clone_buffer buf" "so_sending (cn_slot c) + 1" i] show ?thesis
      by (simp del: conn_step.simps)
  qed
qed

lemma send_low_step_ok:
  assumes ok: "sock_ok i n c" "stream_ok H L w c" "n < 65535"
  shows "\<exists>cs c'. conn_step time pe i c (Act_Send_Low buf) = Some (cs, c') \<and> sock_ok i (Suc n) c' \<and>
    stream_ok H (L @ [sendbuffer_bytes buf]) (w @ written cs) c'"
proof -
  from ok(1) have "\<not> socket_invalid (cn_slot c) i" by (simp add: sock_ok_def Let_def socket_invalid_def)
  then have "conn_step time pe i c (Act_Send_Low buf) =
      Some ([], \<lparr>cn_slot = (cn_slot c)\<lparr>so_sending := so_sending (cn_slot c) + 1\<rparr>, cn_pipe = cn_pipe c @ [Req_Send False i (clone_buffer buf)]\<rparr>)"
    using inc_sending_ok(1) [OF ok(1,3)] by (auto simp: slot_send_lowpriority_def to_pipe_def)
  with counted_ok [OF ok(1,3), of "Req_Send False i (clone_buffer buf)"]
    pipe_stream_ok [OF ok(2), of False "clone_buffer buf" "so_sending (cn_slot c) + 1" i] show ?thesis
      by (simp del: conn_step.simps)
qed

lemma conn_step_ok:
  assumes "sock_ok i n c" "stream_ok H L w c" "act_no_error act" "n + length (high_sends [act]) + length (low_sends [act]) < 65536"
  shows "\<exists>cs c'. conn_step time pe i c act = Some (cs, c') \<and> sock_ok i (n + length (high_sends [act]) + length (low_sends [act])) c' \<and>
    stream_ok (H @ high_sends [act]) (L @ low_sends [act]) (w @ written cs) c'"
proof (cases act)
  case Act_Send
  with send_step_ok [OF assms(1,2)] assms(4) show ?thesis by simp
next
  case Act_Send_Low
  with send_low_step_ok [OF assms(1,2)] assms(4) show ?thesis by simp
next
  case Act_Cmd
  with cmd_step_ok [OF assms(1,2)] show ?thesis by simp
next
  case (Act_Write locked ios)
  with write_step_ok [OF assms(1,2), of ios time pe locked] assms(3) show ?thesis by simp
qed

lemma sends_Cons: "high_sends (act # acts) = high_sends [act] @ high_sends acts" "low_sends (act # acts) = low_sends [act] @ low_sends acts"
  by (cases act; simp)+

lemma conn_run_ok:
  assumes "sock_ok i n c" "stream_ok H L w c" "list_all act_no_error acts" "n + length (high_sends acts) + length (low_sends acts) < 65536"
  shows "\<exists>cs c'. run_steps (conn_step time pe i) c acts = Some (cs, c') \<and> sock_ok i (n + length (high_sends acts) + length (low_sends acts)) c' \<and>
    stream_ok (H @ high_sends acts) (L @ low_sends acts) (w @ written cs) c'"
  using assms
proof (induction acts arbitrary: n c H L w)
  case (Cons act acts)
  let ?n = "n + length (high_sends [act]) + length (low_sends [act])"
  note sends = sends_Cons [of act acts]
  from Cons(5) have bound: "?n < 65536" "?n + length (high_sends acts) + length (low_sends acts) < 65536" unfolding sends by simp_all
  from Cons(4) have err: "act_no_error act" "list_all act_no_error acts" by simp_all
  from conn_step_ok [OF Cons(2,3) err(1) bound(1)] obtain cs c1 where
    one: "conn_step time pe i c act = Some (cs, c1)" "sock_ok i ?n c1" "stream_ok (H @ high_sends [act]) (L @ low_sends [act]) (w @ written cs) c1"
    by blast
  from Cons.IH [OF one(2,3) err(2) bound(2)] obtain cs' c2 where
    rest: "run_steps (conn_step time pe i) c1 acts = Some (cs', c2)" "sock_ok i (?n + length (high_sends acts) + length (low_sends acts)) c2"
      "stream_ok ((H @ high_sends [act]) @ high_sends acts) ((L @ low_sends [act]) @ low_sends acts) ((w @ written cs) @ written cs') c2" by blast
  with one(1) show ?case unfolding sends by (simp add: ac_simps)
qed simp

lemma fresh_sock_ok:
  assumes "fresh_conn s i"
  shows "sock_ok i 0 \<lparr>cn_slot = s, cn_pipe = []\<rparr>" "stream_ok [] [] [] \<lparr>cn_slot = s, cn_pipe = []\<rparr>"
  using assms by (simp_all add: fresh_conn_def sock_ok_def buffers_ok_def stream_ok_def direct_rest_def ID_TAG16_def)

lemma stream_okD:
  assumes "stream_ok H L w c"
  shows "\<exists>S Hd hi Ld lo rest. S \<in> shuffles Hd Ld \<and> concat S = w @ rest \<and> H = Hd @ hi \<and> L = Ld @ lo \<and> (drained c \<longrightarrow> rest = [] \<and> hi = [] \<and> lo = [])"
proof -
  from assms obtain S Hd Ld where S: "S \<in> shuffles Hd Ld" "w @ direct_rest (cn_slot c) @ rest_bytes (so_high (cn_slot c)) = concat S"
    "H = Hd @ pipe_sends True (cn_pipe c)" "L = Ld @ map (data_bytes \<circ> wb_data) (so_low (cn_slot c)) @ pipe_sends False (cn_pipe c)"
    by (auto simp: stream_ok_def)
  then show ?thesis
    by (intro exI [of _ S] exI [of _ Hd] exI [of _ "pipe_sends True (cn_pipe c)"] exI [of _ Ld]
        exI [of _ "map (data_bytes \<circ> wb_data) (so_low (cn_slot c)) @ pipe_sends False (cn_pipe c)"]
        exI [of _ "direct_rest (cn_slot c) @ rest_bytes (so_high (cn_slot c))"])
      (simp add: drained_def send_buffer_empty_def direct_rest_def)
qed

end
