(* ===== verification/Socket_Flow.thy ===== *)
theory Socket_Flow
  imports Socket_Props
begin

text \<open>
  The promises of the socket server to its callers: the order of the bytes of a connection, what happens to them when the
  connection is closed, and the ids of the sockets.
\<close>

subsection \<open>The order of the bytes\<close>


definition demo_conn :: socket where
  "demo_conn = empty_slot\<lparr>so_type := SOCKET_TYPE_CONNECTED, so_id := 1, so_fd := 9\<rparr>"

definition demo_poll :: poll_errors where
  "demo_poll = \<lparr>add_fails = (\<lambda>_. False), enable_fails = (\<lambda>_ _ _. False)\<rparr>"

definition demo_sends :: "conn_act list" where
  "demo_sends = [Act_Send (Raw [1, 2, 3]) False (Room 2), Act_Send (Raw [4, 5]) False (Room 9), Act_Send_Low (Raw [6]), Act_Cmd, Act_Cmd,
     Act_Write True [Room 9], Act_Write False [Room 9, Room 1], Act_Cmd, Act_Write False [Fail_Intr, Room 9, Room 9, Room 9]]"

lemmas demo_run = demo_conn_def empty_slot_def demo_poll_def to_pipe_def slot_send_def slot_send_lowpriority_def socket_invalid_def can_direct_write_def nomore_sending_data_def send_buffer_empty_def direct_write_def stat_write_def
  sendbuffer_bytes_def inc_sending_ref_def ID_TAG16_def MAX_SOCKET_def clone_buffer_def PROTOCOL_TCP_def trigger_write_def enable_write_def send_socket_def send_refused_def start_sending_def append_sendbuffer_def
  queue_warning_def WARNING_SIZE_def dec_sending_ref_def send_buffer_def send_buffer_lists_def take_direct_def send_list_def list_uncomplete_def put_list_def send_low_list_def all_sent_def wb_rest_def free_of_def written_def drained_def Let_def

lemma demo_conn_fresh: "fresh_conn demo_conn 1"
  by (simp add: demo_conn_def empty_slot_def fresh_conn_def ID_TAG16_def MAX_SOCKET_def PROTOCOL_TCP_def)


subsection \<open>Closing\<close>

text \<open>The bytes of a socket that were not yet written.\<close>

definition unsent :: "socket \<Rightarrow> u8 list" where
  "unsent s = direct_rest s @ rest_bytes (so_high s) @ rest_bytes (so_low s)"

definition closes :: "ss_call list \<Rightarrow> int list" where
  "closes cs = concat (map (\<lambda>c. case c of Sys_Close fd \<Rightarrow> [fd] | _ \<Rightarrow> []) cs)"

lemma closes_none: "set cs \<inter> range Sys_Close = {} \<Longrightarrow> closes cs = []"
  by (induction cs) (auto simp: closes_def split: ss_call.splits)

lemma closes_append: "closes (cs @ cs') = closes cs @ closes cs'"
  by (simp add: closes_def)

lemma enable_read_data:
  "\<exists>f cs. enable_read pe s e = (f, cs, s\<lparr>so_reading := e\<rparr>) \<and> closes cs = [] \<and> written cs = []"
  by (cases s) (auto simp: enable_read_def closes_def)

text \<open>Step 4 of a socket that is closing closes the descriptor.\<close>

lemma all_sent_closing:
  assumes "buffers_ok s" "send_buffer_empty s" "so_closing s" "so_dw_buffer s = None" "so_type s = SOCKET_TYPE_HALFCLOSE_READ"
  shows "all_sent pe s ios = Some ([Sys_Del (so_fd s), Sys_Close (so_fd s)], s\<lparr>so_type := SOCKET_TYPE_INVALID\<rparr>, ios, None)"
  using assms by (cases s) (simp add: all_sent_def buffers_ok_def send_buffer_empty_def force_close_def)


definition demo_half_written :: socket where
  "demo_half_written = demo_conn\<lparr>so_high := [\<lparr>wb_data = Memory [1, 2, 3], wb_ptr = 2, wb_udp = None\<rparr>],
     so_low := [\<lparr>wb_data = Memory [4], wb_ptr = 0, wb_udp = None\<rparr>], so_wb_size := 2\<rparr>"

lemma demo_half_written_ok:
  "buffers_ok demo_half_written" "so_protocol demo_half_written = PROTOCOL_TCP" "so_type demo_half_written = SOCKET_TYPE_CONNECTED"
  "so_id demo_half_written = 1" "\<not> nomore_sending_data demo_half_written" "no_error [Room 5, Fail_Intr, Room 1]"
  by (simp_all add: demo_half_written_def demo_conn_def empty_slot_def buffers_ok_def wb_rest_def PROTOCOL_TCP_def nomore_sending_data_def
      send_buffer_empty_def no_error_def)




subsection \<open>Datagrams\<close>

text \<open>Property: a worker sends a datagram on an idle UDP socket, and the system has no room for it. The message is kept for the socket
  thread, which makes a buffer of the size for TCP of it. When it sends the datagram it reads the address behind the end of that
  buffer: the event does not come to an end within the memory of the program, whatever the system answers.\<close>

theorem datagram_leftover_overreads:
  assumes "so_id s = i" "so_type s = SOCKET_TYPE_CONNECTED" "so_protocol s = PROTOCOL_UDP" "\<not> so_closing s" "so_udpconnecting s = 0"
    "so_high s = []" "so_low s = []" "so_dw_buffer s = None" "so_sending s mod 65536 = 0" "take 1 (so_udp_address s) = [PROTOCOL_UDP]"
    "sendbuffer_bytes buf \<noteq> []"
  shows "\<exists>s'. slot_send time False s i buf Fail_Again = Some (0, [], s', Some (Req_Trigger i)) \<and> send_buffer time pe False s' ios = None"
  using assms
  by (auto simp: slot_send_def socket_invalid_def can_direct_write_def nomore_sending_data_def send_buffer_empty_def udp_socket_address_def
      direct_write_def inc_sending_ref_def stat_write_def PROTOCOL_TCP_def PROTOCOL_UDP_def send_buffer_def send_buffer_lists_def take_direct_def
      list_uncomplete_def send_list_def Let_def)

definition demo_udp :: socket where
  "demo_udp = demo_conn\<lparr>so_protocol := PROTOCOL_UDP, so_udp_address := [PROTOCOL_UDP, 31, 144, 127, 0, 0, 1]\<rparr>"

lemma datagram_leftover_overreads_witness:
  "\<exists>s'. slot_send 0 False demo_udp 1 (Raw [1]) Fail_Again = Some (0, [], s', Some (Req_Trigger 1)) \<and> send_buffer 0 demo_poll False s' [Room 1] = None"
  by (rule datagram_leftover_overreads) (simp_all add: demo_udp_def demo_conn_def empty_slot_def sendbuffer_bytes_def)

subsection \<open>Ids\<close>

text \<open>One round of \<open>reserve_loop\<close> looks at the slot after the one of the counter.\<close>

definition free_slot :: "socket_server \<Rightarrow> nat \<Rightarrow> bool" where
  "free_slot ss k \<longleftrightarrow> so_type (ss_slot ss k) = SOCKET_TYPE_INVALID"

definition reserved :: "int \<Rightarrow> socket \<Rightarrow> socket" where
  "reserved i s = s\<lparr>so_type := SOCKET_TYPE_RESERVE, so_id := i, so_protocol := PROTOCOL_UNKNOWN, so_udpconnecting := 0, so_fd := - 1\<rparr>"

lemma mask31: "uint (a AND 0x7fffffff :: u32) = uint a mod 2147483648"
proof -
  have "(0x7fffffff :: u32) = mask 31" by (simp add: mask_eq_exp_minus_1)
  then have "a AND 0x7fffffff = take_bit 31 a" by (simp only: take_bit_eq_mask)
  then have "uint (a AND 0x7fffffff) = take_bit 31 (uint a)" by (simp only: unsigned_take_bit_eq)
  also have "\<dots> = uint a mod 2147483648" by (simp add: take_bit_eq_mod)
  finally show ?thesis .
qed

lemma sint_nonneg: "0 \<le> sint (a :: u32) \<Longrightarrow> sint a = uint a"
proof -
  assume "0 \<le> sint a"
  then have no: "\<not> bit (uint a) 31" by (simp add: sint_uint signed_take_bit_nonnegative_iff)
  have "take_bit (Suc 31) (uint a) = uint a" 
    using unsigned_less [of a, where ?'a = int] unsigned_greater_eq [of a] by (intro take_bit_int_eq_self) simp_all
  with no have "take_bit 31 (uint a) = uint a" using take_bit_Suc_from_most [of 31 "uint a"] by simp
  with no show ?thesis by (simp add: sint_uint signed_take_bit_eq_if_positive)
qed

lemma uint_succ: "uint (a + 1 :: u32) mod 65536 = (uint a + 1) mod 65536"
proof -
  have "uint (a + 1) = (uint a + 1) mod 4294967296" by (simp add: uint_word_ariths)
  then show ?thesis by (simp add: mod_mod_cancel)
qed

lemma reserve_round:
  "\<exists>i alloc. 0 \<le> i \<and> HASH_ID i = nat ((uint (ss_alloc_id ss) + 1) mod 65536) \<and> nat (uint alloc mod 65536) = HASH_ID i \<and>
    reserve_loop (Suc n) ss = (let ss = ss\<lparr>ss_alloc_id := alloc\<rparr> in
      if free_slot ss (HASH_ID i) then (i, put_slot i (reserved i (ss_slot ss (HASH_ID i))) ss) else reserve_loop n ss)"
proof -
  let ?a = "ss_alloc_id ss + 1"
  show ?thesis
  proof (cases "sint ?a < 0")
    case True
    have "uint (?a AND 0x7fffffff) mod 65536 = (uint (ss_alloc_id ss) + 1) mod 65536"
      unfolding mask31 by (simp add: mod_mod_cancel uint_succ)
    with True show ?thesis
      by (intro exI [of _ "uint (?a AND 0x7fffffff)"] exI [of _ "?a AND 0x7fffffff"])
        (simp add: HASH_ID_def MAX_SOCKET_def free_slot_def reserved_def Let_def)
  next
    case False
    then have "sint ?a = uint ?a" by (intro sint_nonneg) simp
    with False show ?thesis
      by (intro exI [of _ "sint ?a"] exI [of _ ?a]) (simp add: HASH_ID_def MAX_SOCKET_def free_slot_def reserved_def Let_def uint_succ)
  qed
qed

lemma reserve_loop_ok:
  "\<exists>i ss'. reserve_loop n ss = (i, ss') \<and> (if \<exists>k \<in> {1..int n}. free_slot ss (nat ((uint (ss_alloc_id ss) + k) mod 65536))
     then 0 \<le> i \<and> free_slot ss (HASH_ID i) \<and> ss_slot ss' = (ss_slot ss)(HASH_ID i := reserved i (ss_slot ss (HASH_ID i)))
     else i = - 1 \<and> ss_slot ss' = ss_slot ss)"
proof (induction n arbitrary: ss)
  case 0
  then show ?case by simp
next
  case (Suc n)
  obtain i alloc where r: "0 \<le> i" "HASH_ID i = nat ((uint (ss_alloc_id ss) + 1) mod 65536)" "nat (uint alloc mod 65536) = HASH_ID i"
    "reserve_loop (Suc n) ss = (let ss = ss\<lparr>ss_alloc_id := alloc\<rparr> in
      if free_slot ss (HASH_ID i) then (i, put_slot i (reserved i (ss_slot ss (HASH_ID i))) ss) else reserve_loop n ss)"
    using reserve_round by blast
  let ?ss = "ss\<lparr>ss_alloc_id := alloc\<rparr>"
  have free: "free_slot ?ss = free_slot ss" by (rule ext) (simp add: free_slot_def)
  show ?case
  proof (cases "free_slot ss (HASH_ID i)")
    case True
    then have "\<exists>k \<in> {1..int (Suc n)}. free_slot ss (nat ((uint (ss_alloc_id ss) + k) mod 65536))"
      using r(2) by (intro bexI [of _ 1]) simp_all
    moreover have "reserve_loop (Suc n) ss = (i, put_slot i (reserved i (ss_slot ss (HASH_ID i))) ?ss)"
      using r(4) True by (simp add: Let_def free del: reserve_loop.simps)
    ultimately show ?thesis using r(1) True by (simp add: put_slot_def del: reserve_loop.simps)
  next
    case False
    have counter: "uint alloc mod 65536 = (uint (ss_alloc_id ss) + 1) mod 65536" using r(2,3) by (simp add: eq_nat_nat_iff)
    have shift: "(uint alloc + k) mod 65536 = (uint (ss_alloc_id ss) + (1 + k)) mod 65536" for k
      using mod_add_cong [OF counter refl, of k] by (simp add: add.assoc)
    have same: "(\<exists>k \<in> {1..int (Suc n)}. free_slot ss (nat ((uint (ss_alloc_id ss) + k) mod 65536))) \<longleftrightarrow>
        (\<exists>k \<in> {1..int n}. free_slot ss (nat ((uint alloc + k) mod 65536)))" (is "?l \<longleftrightarrow> ?r")
    proof
      assume ?l
      then obtain k where k: "1 \<le> k" "k \<le> int (Suc n)" "free_slot ss (nat ((uint (ss_alloc_id ss) + k) mod 65536))" by auto
      with False r(2) have "k \<noteq> 1" by auto
      with k shift [of "k - 1"] show ?r by (intro bexI [of _ "k - 1"]) simp_all
    next
      assume ?r
      then obtain k where k: "1 \<le> k" "k \<le> int n" "free_slot ss (nat ((uint alloc + k) mod 65536))" by auto
      with shift [of k] show ?l by (intro bexI [of _ "1 + k"]) simp_all
    qed
    have step: "reserve_loop (Suc n) ss = reserve_loop n ?ss" using r(4) False by (simp add: Let_def free del: reserve_loop.simps)
    have eqs: "ss_alloc_id ?ss = alloc" "ss_slot ?ss = ss_slot ss" by simp_all
    show ?thesis unfolding same step using Suc.IH [of ?ss] unfolding free eqs .
  qed
qed

text \<open>Every slot is looked at.\<close>

lemma all_slots: "(\<exists>k \<in> {1..65536 :: int}. P (nat ((a + k) mod 65536))) \<longleftrightarrow> (\<exists>k < 65536. P k)"
proof
  assume "\<exists>k \<in> {1..65536 :: int}. P (nat ((a + k) mod 65536))"
  then obtain k where "P (nat ((a + k) mod 65536))" by blast
  moreover have "nat ((a + k) mod 65536) < 65536" by (simp add: nat_less_iff)
  ultimately show "\<exists>k < 65536. P k" by blast
next
  assume "\<exists>k < 65536. P k"
  then obtain j where j: "j < 65536" "P j" by blast
  let ?k = "(int j - a - 1) mod 65536 + 1"
  have "(a + ?k) mod 65536 = (a + 1 + (int j - a - 1) mod 65536) mod 65536" by (simp add: algebra_simps)
  also have "\<dots> = int j mod 65536" unfolding mod_add_right_eq by simp
  finally have "nat ((a + ?k) mod 65536) = j" using j(1) by simp
  moreover have "?k \<in> {1..65536}" using pos_mod_bound [of 65536 "int j - a - 1"] by simp
  ultimately show "\<exists>k \<in> {1..65536 :: int}. P (nat ((a + k) mod 65536))" using j(2) by metis
qed

text \<open>Property C16: an id is given out exactly when one of the 65536 slots is free; it is not negative, its slot was free, and this slot is
  marked as taken and carries the id, also after the 32-bit counter has wrapped around. All other slots are as they were, and when
  no slot is free all are.\<close>

theorem reserve_id_ok:
  "\<exists>i ss'. reserve_id ss = (i, ss') \<and>
    (if \<exists>k < MAX_SOCKET. so_type (ss_slot ss k) = SOCKET_TYPE_INVALID
     then 0 \<le> i \<and> so_type (ss_slot ss (HASH_ID i)) = SOCKET_TYPE_INVALID \<and>
       (\<exists>s. ss_slot ss' = (ss_slot ss)(HASH_ID i := s) \<and> so_id s = i \<and> so_type s = SOCKET_TYPE_RESERVE \<and> \<not> can_direct_write s i)
     else i = - 1 \<and> ss_slot ss' = ss_slot ss)"
proof -
  have all: "(\<exists>k \<in> {1..int 65536}. free_slot ss (nat ((uint (ss_alloc_id ss) + k) mod 65536))) \<longleftrightarrow> (\<exists>k < 65536. so_type (ss_slot ss k) = SOCKET_TYPE_INVALID)"
    using all_slots [of "free_slot ss" "uint (ss_alloc_id ss)"] by (simp add: free_slot_def)
  have res: "so_id (reserved i s) = i \<and> so_type (reserved i s) = SOCKET_TYPE_RESERVE \<and> \<not> can_direct_write (reserved i s) i" for i s
    by (simp add: reserved_def can_direct_write_def)
  obtain i ss' where r: "reserve_loop 65536 ss = (i, ss')" "if \<exists>k < 65536. so_type (ss_slot ss k) = SOCKET_TYPE_INVALID
     then 0 \<le> i \<and> free_slot ss (HASH_ID i) \<and> ss_slot ss' = (ss_slot ss)(HASH_ID i := reserved i (ss_slot ss (HASH_ID i)))
     else i = - 1 \<and> ss_slot ss' = ss_slot ss"
    using reserve_loop_ok [of 65536 ss] unfolding all by blast
  show ?thesis
  proof (cases "\<exists>k < 65536. so_type (ss_slot ss k) = SOCKET_TYPE_INVALID")
    case True
    with r have "0 \<le> i" "so_type (ss_slot ss (HASH_ID i)) = SOCKET_TYPE_INVALID"
      "ss_slot ss' = (ss_slot ss)(HASH_ID i := reserved i (ss_slot ss (HASH_ID i)))" by (simp_all add: free_slot_def)
    with True r(1) res show ?thesis unfolding reserve_id_def MAX_SOCKET_def by simp blast
  next
    case False
    with r show ?thesis unfolding reserve_id_def MAX_SOCKET_def by auto
  qed
qed

text \<open>Property C17: a request that comes from the pipe for a connection that is gone, because its slot has been given to another id: the slot is
  not touched, and nothing is asked of the system but that the data of the message is freed, once. This holds for every request that
  works on a socket that exists.\<close>

theorem stale_request_is_harmless:
  assumes "so_id s \<noteq> i"
    "req \<in> {Req_Resume i opaque, Req_Pause i opaque, Req_Close i b opaque, Req_Trigger i, Req_Send b i d, Req_Send_Udp i d a, Req_Set_Udp i a, Req_Setopt i what v}"
  shows "\<exists>r. slot_cmd time pe s req res ios =
    Some (if req = Req_Send b i d \<or> req = Req_Send_Udp i d a then [Sys_Free d] else [], s, r)"
  using assms
  by (auto simp: resume_socket_def pause_socket_def close_socket_def trigger_write_def send_socket_def send_refused_def dec_sending_ref_def
      set_udp_address_def setopt_socket_def socket_invalid_def)

lemma stale_request_is_harmless_witness:
  "\<exists>r. slot_cmd 0 demo_poll demo_conn (Req_Send True 65537 (Memory [7])) Open_Failed [] =
    Some (if Req_Send True 65537 (Memory [7]) = Req_Send True 65537 (Memory [7]) \<or> Req_Send True 65537 (Memory [7]) = Req_Send_Udp 65537 (Memory [7]) []
      then [Sys_Free (Memory [7])] else [], demo_conn, r)"
  by (rule stale_request_is_harmless [where opaque = 0]) (simp_all add: demo_conn_def empty_slot_def)

end
