(* ===== verification/Socket_Poll.thy ===== *)
theory Socket_Poll
  imports Socket_Server Net_Pack
begin

text \<open>
  The loop of the socket thread (\<^verbatim>\<open>socket_server_poll\<close>), the release of the server and the report of its sockets, and
  \<^verbatim>\<open>skynet-src/skynet_socket.c\<close>, which forwards the results of the loop to the services and the calls of the services to the
  server.
\<close>

subsection \<open>The loop\<close>

text \<open>The pipe, the flag that says whether it has to be looked at, and the events that were not handled yet, each with the index of its
  slot; an event without a slot is one of the pipe.\<close>

record poll_state =
  pl_server :: socket_server
  pl_pipe :: "request list"
  pl_checkctrl :: bool
  pl_events :: "(nat option \<times> event) list"

text \<open>What the system answers in one round: to the wait for events, to the calls of the request or the event; and whether the lock of
  the socket is taken.\<close>

record poll_io =
  pi_wait :: "(nat option \<times> event) list"
  pi_open :: open_io
  pi_event :: event_io
  pi_locked :: bool

fun clear_event :: "socket_server \<Rightarrow> int \<Rightarrow> (nat option \<times> event) list \<Rightarrow> (nat option \<times> event) list" where
  "clear_event ss i [] = []"
| "clear_event ss i ((None, e) # evs) = (None, e) # clear_event ss i evs"
| "clear_event ss i ((Some k, e) # evs) =
     (if socket_invalid (ss_slot ss k) i \<and> so_id (ss_slot ss k) = i then (None, e) # evs
      else (Some k, e) # clear_event ss i evs)"

definition clear_closed_event :: "socket_server \<Rightarrow> socket_result \<Rightarrow> (nat option \<times> event) list \<Rightarrow> (nat option \<times> event) list" where
  "clear_closed_event ss r evs =
     (if res_kind r = SOCKET_CLOSE \<or> res_kind r = SOCKET_ERR then clear_event ss (res_id r) evs else evs)"

text \<open>One round of the loop: a request, or a wait and an event. The last component says whether the loop has waited.\<close>

definition request_round :: "poll_errors \<Rightarrow> poll_state \<Rightarrow> request \<Rightarrow> request list \<Rightarrow> poll_io
    \<Rightarrow> (ss_call list \<times> poll_state \<times> socket_result option) option" where
  "request_round pe p req reqs io = do {
     (cs, ss, r) \<leftarrow> ctrl_cmd pe (pl_server p) req (pi_open io) (io_writes (pi_event io));
     Some (cs, p\<lparr>pl_server := ss, pl_pipe := reqs,
       pl_events := (case r of None \<Rightarrow> pl_events p | Some m \<Rightarrow> clear_closed_event ss m (pl_events p))\<rparr>, r) }"

definition event_round :: "poll_errors \<Rightarrow> poll_state \<Rightarrow> poll_io \<Rightarrow> (ss_call list \<times> poll_state \<times> socket_result option) option" where
  "event_round pe p io = (case pl_events p of
     [] \<Rightarrow> Some ([], p, None)
   | (None, e) # evs \<Rightarrow> Some ([], p\<lparr>pl_events := evs\<rparr>, None)
   | (Some k, e) # evs \<Rightarrow> do {
       (cs, ss, r, again) \<leftarrow> poll_event pe (pi_locked io) (pl_server p) (int k) e (pi_event io);
       Some (cs, p\<lparr>pl_server := ss, pl_events := (case again of None \<Rightarrow> evs | Some e \<Rightarrow> (Some k, e) # evs)\<rparr>, r) })"

definition poll_round :: "poll_errors \<Rightarrow> poll_state \<Rightarrow> poll_io \<Rightarrow> (ss_call list \<times> poll_state \<times> socket_result option \<times> bool) option" where
  "poll_round pe p io = (case (pl_checkctrl p, pl_pipe p) of
     (True, req # reqs) \<Rightarrow> do {
       (cs, p, r) \<leftarrow> request_round pe p req reqs io;
       Some (cs, p, r, False) }
   | _ \<Rightarrow> (let waits = (pl_events p = []);
           p = p\<lparr>pl_checkctrl := waits, pl_events := (if waits then pi_wait io else pl_events p)\<rparr> in do {
       (cs, p, r) \<leftarrow> event_round pe p io;
       Some (cs, p, r, waits) }))"

text \<open>\<^verbatim>\<open>socket_server_poll\<close>: rounds until one has a result. The answers of the system are used up when no result came by then.\<close>

fun socket_server_poll :: "poll_errors \<Rightarrow> poll_state \<Rightarrow> bool \<Rightarrow> poll_io list \<Rightarrow> (ss_call list \<times> poll_state \<times> (socket_result \<times> bool) option) option" where
  "socket_server_poll pe p busy [] = Some ([], p, None)"
| "socket_server_poll pe p busy (io # ios) = do {
     (cs, p, r, waits) \<leftarrow> poll_round pe p io;
     case r of
       Some m \<Rightarrow> Some (cs, p, Some (m, busy \<and> \<not> waits))
     | None \<Rightarrow> do {
         (cs', p, r) \<leftarrow> socket_server_poll pe p (busy \<and> \<not> waits) ios;
         Some (cs @ cs', p, r) } }"

subsection \<open>Release and report\<close>

fun release_slots :: "nat \<Rightarrow> socket_server \<Rightarrow> (ss_call list \<times> socket_server) option" where
  "release_slots 0 ss = Some ([], ss)"
| "release_slots (Suc n) ss = do {
     (cs, ss) \<leftarrow> release_slots n ss;
     let s = ss_slot ss n in
     if so_type s = SOCKET_TYPE_RESERVE then Some (cs, ss)
     else do {
       (cs', s) \<leftarrow> force_close s;
       Some (cs @ cs', ss\<lparr>ss_slot := (ss_slot ss)(n := s)\<rparr>) } }"

definition socket_server_release :: "socket_server \<Rightarrow> ss_call list option" where
  "socket_server_release ss = map_option fst (release_slots MAX_SOCKET ss)"

datatype info_type = SOCKET_INFO_UNKNOWN | SOCKET_INFO_LISTEN | SOCKET_INFO_TCP | SOCKET_INFO_UDP | SOCKET_INFO_BIND | SOCKET_INFO_CLOSING

text \<open>Without a name the array is as it was before.\<close>

record socket_info =
  si_id :: int
  si_type :: info_type
  si_opaque :: u64
  si_read :: u64
  si_write :: u64
  si_rtime :: u64
  si_wtime :: u64
  si_wbuffer :: int
  si_reading :: bool
  si_writing :: bool
  si_name :: "string option"

text \<open>The names come from the system: of the own side, of the peer, and of an address.\<close>

record name_io =
  sock_name :: "int \<Rightarrow> string option"
  peer_name :: "int \<Rightarrow> string option"
  address_name :: "u8 list \<Rightarrow> string"

definition info_of :: "socket \<Rightarrow> info_type \<Rightarrow> string option \<Rightarrow> socket_info" where
  "info_of s t name = \<lparr>si_id = so_id s, si_type = t, si_opaque = of_nat (so_opaque s), si_read = so_stat_read s, si_write = so_stat_write s,
     si_rtime = so_rtime s, si_wtime = so_wtime s, si_wbuffer = so_wb_size s, si_reading = so_reading s, si_writing = so_writing s,
     si_name = name\<rparr>"

definition query_info :: "name_io \<Rightarrow> socket \<Rightarrow> socket_info option" where
  "query_info nio s = (
     let closing = (so_type s = SOCKET_TYPE_HALFCLOSE_READ \<or> so_type s = SOCKET_TYPE_HALFCLOSE_WRITE) in
     if so_type s = SOCKET_TYPE_BIND then Some (info_of s SOCKET_INFO_BIND (Some []))
     else if so_type s = SOCKET_TYPE_LISTEN then Some (info_of s SOCKET_INFO_LISTEN (sock_name nio (so_fd s)))
     else if closing \<or> so_type s = SOCKET_TYPE_CONNECTED then
       Some (if so_protocol s = PROTOCOL_TCP
         then info_of s (if closing then SOCKET_INFO_CLOSING else SOCKET_INFO_TCP) (peer_name nio (so_fd s))
         else info_of s SOCKET_INFO_UDP (map_option (address_name nio) (udp_socket_address s (so_udp_address s))))
     else None)"

text \<open>The list is built from its end: the last slot comes first.\<close>

definition socket_server_info :: "name_io \<Rightarrow> socket_server \<Rightarrow> socket_info list" where
  "socket_server_info nio ss = rev (List.map_filter (\<lambda>k. query_info nio (ss_slot ss k)) [0..<MAX_SOCKET])"

definition socket_server_udp_address :: "u8 list \<Rightarrow> nat \<Rightarrow> (u8 list \<times> nat) option" where
  "socket_server_udp_address data ud = (let address = drop ud data in
     if take 1 address = [PROTOCOL_UDP] then Some (address, 7)
     else if take 1 address = [PROTOCOL_UDPv6] then Some (address, 19)
     else None)"

subsection \<open>Forwarding\<close>

definition SKYNET_SOCKET_TYPE_UDP :: nat where "SKYNET_SOCKET_TYPE_UDP = 6"

text \<open>\<^verbatim>\<open>forward_message\<close>: the message of a result, with its destination. A text is cut after 128 characters. The texts of the system are
  given by a function of the descriptor.\<close>

definition result_text :: "string \<Rightarrow> socket_result \<Rightarrow> string" where
  "result_text system r = (case res_data r of Text t \<Rightarrow> take 128 t | System_Text \<Rightarrow> take 128 system | _ \<Rightarrow> [])"

definition result_buffer :: "socket_result \<Rightarrow> u8 list option" where
  "result_buffer r = (case res_data r of Bytes_Read bs \<Rightarrow> Some bs | _ \<Rightarrow> None)"

definition socket_message :: "string \<Rightarrow> nat \<Rightarrow> bool \<Rightarrow> socket_result \<Rightarrow> skynet_socket_message" where
  "socket_message system type padding r = \<lparr>sm_type = type, sm_id = res_id r, sm_ud = res_ud r,
     sm_buffer = (if padding then None else result_buffer r), sm_padding = (if padding then result_text system r else [])\<rparr>"

text \<open>What the thread does with a result: a push into the mailbox of a service, the end of the thread, or a line in the log. When no
  service has the handle, the message and its buffer are freed.\<close>

datatype forward_call = Push u32 skynet_socket_message | Drop skynet_socket_message | Unknown_Type

definition forward_socket_message :: "string \<Rightarrow> (u32 \<Rightarrow> bool) \<Rightarrow> nat \<Rightarrow> bool \<Rightarrow> socket_result \<Rightarrow> forward_call" where
  "forward_socket_message system alive type padding r = (let m = socket_message system type padding r; handle = of_nat (res_opaque r) in
     if alive handle then Push handle m else Drop m)"

text \<open>\<^verbatim>\<open>skynet_socket_poll\<close> on the result of the loop: what it forwards, and the number that it returns.\<close>

definition skynet_socket_poll :: "string \<Rightarrow> (u32 \<Rightarrow> bool) \<Rightarrow> socket_result \<Rightarrow> bool \<Rightarrow> forward_call list \<times> int" where
  "skynet_socket_poll system alive r busy = (
     let pass = (\<lambda>type padding. ([forward_socket_message system alive type padding r], if busy then - 1 else 1)) in
     case res_kind r of
       SOCKET_EXIT \<Rightarrow> ([], 0)
     | SOCKET_DATA \<Rightarrow> pass SKYNET_SOCKET_TYPE_DATA False
     | SOCKET_CLOSE \<Rightarrow> pass SKYNET_SOCKET_TYPE_CLOSE False
     | SOCKET_OPEN \<Rightarrow> pass SKYNET_SOCKET_TYPE_CONNECT True
     | SOCKET_ERR \<Rightarrow> pass SKYNET_SOCKET_TYPE_ERROR True
     | SOCKET_ACCEPT \<Rightarrow> pass SKYNET_SOCKET_TYPE_ACCEPT True
     | SOCKET_UDP \<Rightarrow> pass SKYNET_SOCKET_TYPE_UDP False
     | SOCKET_WARNING \<Rightarrow> pass SKYNET_SOCKET_TYPE_WARNING False
     | SOCKET_RST \<Rightarrow> ([Unknown_Type], - 1)
     | SOCKET_MORE \<Rightarrow> ([Unknown_Type], - 1))"

text \<open>The functions for the services: the handle of the service is the owner of the socket.\<close>

definition skynet_socket_exit :: request where "skynet_socket_exit = socket_server_exit"
definition skynet_socket_close :: "u32 \<Rightarrow> int \<Rightarrow> request" where "skynet_socket_close source i = socket_server_close (unat source) i"
definition skynet_socket_shutdown :: "u32 \<Rightarrow> int \<Rightarrow> request" where "skynet_socket_shutdown source i = socket_server_shutdown (unat source) i"
definition skynet_socket_start :: "u32 \<Rightarrow> int \<Rightarrow> request" where "skynet_socket_start source i = socket_server_start (unat source) i"
definition skynet_socket_pause :: "u32 \<Rightarrow> int \<Rightarrow> request" where "skynet_socket_pause source i = socket_server_pause (unat source) i"
definition skynet_socket_nodelay :: "int \<Rightarrow> request" where "skynet_socket_nodelay i = socket_server_nodelay i"

definition skynet_socket_listen :: "socket_server \<Rightarrow> u32 \<Rightarrow> int \<Rightarrow> ss_call list \<times> int \<times> socket_server \<times> request option" where
  "skynet_socket_listen ss source fd = socket_server_listen ss (unat source) fd"

definition skynet_socket_connect :: "socket_server \<Rightarrow> u32 \<Rightarrow> nat \<Rightarrow> ss_call list \<times> int \<times> socket_server \<times> request option" where
  "skynet_socket_connect ss source addr_len = socket_server_connect ss (unat source) addr_len"

definition skynet_socket_bind :: "socket_server \<Rightarrow> u32 \<Rightarrow> int \<Rightarrow> int \<times> socket_server \<times> request option" where
  "skynet_socket_bind ss source fd = socket_server_bind ss (unat source) fd"

definition skynet_socket_udp :: "socket_server \<Rightarrow> u32 \<Rightarrow> int \<Rightarrow> bool \<Rightarrow> ss_call list \<times> int \<times> socket_server \<times> request option" where
  "skynet_socket_udp ss source fd inet6 = socket_server_udp ss (unat source) fd inet6"

definition skynet_socket_udp_address :: "skynet_socket_message \<Rightarrow> (u8 list \<times> nat) option" where
  "skynet_socket_udp_address m =
     (if sm_type m \<noteq> SKYNET_SOCKET_TYPE_UDP then None
      else Option.bind (sm_buffer m) (\<lambda>data. socket_server_udp_address data (nat (sm_ud m))))"

end
