(* ===== verification/Socket_Netpack.thy ===== *)
theory Socket_Netpack
  imports Socket_Flow Socket_Poll
begin

text \<open>
  The socket server together with its users: events and requests in the loop, and a stream of packages from a service through a
  connection, the socket thread of the other side and \<^verbatim>\<open>lua-netpack.c\<close> to a gate.
\<close>

subsection \<open>Events of closed sockets\<close>

definition event_slots :: "(nat option \<times> event) list \<Rightarrow> nat list" where
  "event_slots evs = List.map_filter fst evs"

lemma event_slots_simps [simp]: "event_slots [] = []" "event_slots ((None, e) # evs) = event_slots evs"
  "event_slots ((Some k, e) # evs) = k # event_slots evs"
  by (simp_all add: event_slots_def List.map_filter_def)

lemma clear_event_ok:
  assumes "distinct (event_slots evs)" "so_type (ss_slot ss k) = SOCKET_TYPE_INVALID" "so_id (ss_slot ss k) = i"
    "\<And>l. l \<in> set (event_slots evs) \<Longrightarrow> l \<noteq> k \<Longrightarrow> so_id (ss_slot ss l) \<noteq> i"
  shows "event_slots (clear_event ss i evs) = filter (\<lambda>l. l \<noteq> k) (event_slots evs)"
  using assms
proof (induction ss i evs rule: clear_event.induct)
  case (3 ss i l e evs)
  show ?case
  proof (cases "l = k")
    case True
    with 3 have "filter (\<lambda>l. l \<noteq> k) (event_slots evs) = event_slots evs" by (auto intro: filter_True)
    with True 3 show ?thesis by (simp add: socket_invalid_def)
  next
    case False
    with 3(5) have "so_id (ss_slot ss l) \<noteq> i" by simp
    with 3 False show ?thesis by simp
  qed
qed simp_all

text \<open>Property C15: the socket thread takes a request from the pipe that closes a socket of any kind at once (nothing of its data is left,
  or the service does not want to wait). The slot is free afterwards, and the descriptor is closed, but one that the service has bound
  stays open, for it belongs to the service. What happens to the event that the system had already reported for this socket depends on
  its state. When the other side had not ended the connection before, the service is told, once, and the event is taken out of the
  events that wait: no handler runs for the closed socket. When the socket is half closed for reading, the service has been told
  before; it is not told again, and all events stay. An event that is left finds an invalid socket while no other socket has the
  slot, and then it does nothing but report that. The events of other sockets always stay. (The system reports at most one event of a
  socket at a time, and no two slots have the same id.)\<close>

theorem close_request_and_events:
  assumes "pl_checkctrl p" "pl_pipe p = Req_Close i shutdown opaque # reqs" "s = ss_slot (pl_server p) (HASH_ID i)" "so_id s = i"
    "so_type s \<noteq> SOCKET_TYPE_INVALID" "so_type s \<noteq> SOCKET_TYPE_RESERVE" "shutdown \<or> nomore_sending_data s"
    "distinct (event_slots (pl_events p))" "\<And>l. l \<noteq> HASH_ID i \<Longrightarrow> so_id (ss_slot (pl_server p) l) \<noteq> i"
  shows "\<exists>cs p'. poll_round pe p io = Some (cs, p', if halfclose_read s then None else Some (result_of SOCKET_CLOSE s 0 No_Data), False) \<and>
    closes cs = (if so_type s = SOCKET_TYPE_BIND then [] else [so_fd s]) \<and>
    so_type (ss_slot (pl_server p') (HASH_ID i)) = SOCKET_TYPE_INVALID \<and> pl_pipe p' = reqs \<and>
    (if halfclose_read s then pl_events p' = pl_events p
     else event_slots (pl_events p') = filter (\<lambda>l. l \<noteq> HASH_ID i) (event_slots (pl_events p))) \<and>
    (\<forall>locked ev eio. poll_event pe locked (pl_server p') i ev eio = Some ([Sys_Error ''invalid socket''], pl_server p', None, None))"
proof -
  let ?s = "s\<lparr>so_high := [], so_low := [], so_type := SOCKET_TYPE_INVALID, so_dw_buffer := None\<rparr>"
  let ?r = "if halfclose_read s then None else Some (result_of SOCKET_CLOSE s 0 No_Data)"
  let ?cs = "map (Sys_Free \<circ> wb_data) (so_high s @ so_low s) @ [Sys_Del (so_fd s)]
    @ (if so_type s \<noteq> SOCKET_TYPE_BIND then [Sys_Close (so_fd s)] else [])
    @ (case so_dw_buffer s of None \<Rightarrow> [] | Some d \<Rightarrow> [Sys_Free d])"
  let ?ss = "put_slot i ?s (pl_server p)"
  let ?evs = "if halfclose_read s then pl_events p else clear_event ?ss i (pl_events p)"
  have close: "close_socket pe s i shutdown = Some (?cs, ?s, ?r)"
    using assms(4-7) by (auto simp: close_socket_def socket_invalid_def force_close_def Let_def)
  have frees: "closes (map (Sys_Free \<circ> wb_data) wbs) = []" for wbs by (induction wbs) (simp_all add: closes_def)
  have cs: "closes ?cs = (if so_type s = SOCKET_TYPE_BIND then [] else [so_fd s])"
    unfolding closes_append frees by (cases "so_dw_buffer s") (simp_all add: closes_def)
  have "poll_round pe p io = Some (?cs, p\<lparr>pl_server := ?ss, pl_pipe := reqs, pl_events := ?evs\<rparr>, ?r, False)"
    using assms(1-4) close
    by (cases "halfclose_read s") (simp_all add: poll_round_def request_round_def ctrl_cmd_def clear_closed_event_def result_of_def)
  moreover have "event_slots (clear_event ?ss i (pl_events p)) = filter (\<lambda>l. l \<noteq> HASH_ID i) (event_slots (pl_events p))"
    using assms(4,8,9) by (intro clear_event_ok) (auto simp: put_slot_def)
  moreover have "poll_event pe locked ?ss i ev eio = Some ([Sys_Error ''invalid socket''], ?ss, None, None)" for locked ev eio
    by (simp add: poll_event_def handle_event_def put_slot_def)
  ultimately show ?thesis using cs by (simp add: put_slot_def)
qed

subsection \<open>A connection that is read\<close>

text \<open>Bytes arrive at the system in pieces, and the socket thread handles read events; what has arrived and was not read waits in the
  system. The results of the events are the output.\<close>

record receiver =
  rc_slot :: socket
  rc_arrived :: "u8 list"

datatype recv_act = Arrive "u8 list" | Read_Event

definition delivered :: "socket_result option \<Rightarrow> u8 list" where
  "delivered r = (case r of None \<Rightarrow> [] | Some m \<Rightarrow> (case result_buffer m of None \<Rightarrow> [] | Some bs \<Rightarrow> bs))"

fun recv_step :: "u64 \<Rightarrow> poll_errors \<Rightarrow> event_io \<Rightarrow> receiver \<Rightarrow> recv_act \<Rightarrow> (socket_result list \<times> receiver) option" where
  "recv_step time pe io r (Arrive bs) = Some ([], r\<lparr>rc_arrived := rc_arrived r @ bs\<rparr>)"
| "recv_step time pe io r Read_Event = do {
     (cs, s, res, again) \<leftarrow> read_event time pe (rc_slot r) \<lparr>ev_read = True, ev_write = False, ev_error = False, ev_eof = False\<rparr>
       (io\<lparr>io_read := (if rc_arrived r = [] then Read_Again else Read (rc_arrived r))\<rparr>);
     Some (case res of None \<Rightarrow> [] | Some m \<Rightarrow> [m], \<lparr>rc_slot = s, rc_arrived = drop (length (delivered res)) (rc_arrived r)\<rparr>) }"

fun arrivals :: "recv_act list \<Rightarrow> u8 list" where
  "arrivals [] = []"
| "arrivals (Arrive bs # acts) = bs @ arrivals acts"
| "arrivals (Read_Event # acts) = arrivals acts"

text \<open>What the socket thread pushes into the mailbox of the owner.\<close>

definition pushed :: "string \<Rightarrow> (u32 \<Rightarrow> bool) \<Rightarrow> socket_result list \<Rightarrow> skynet_socket_message list" where
  "pushed system alive ms = concat (map (\<lambda>r. concat (map (\<lambda>c. case c of Push _ m \<Rightarrow> [m] | _ \<Rightarrow> []) (fst (skynet_socket_poll system alive r True)))) ms)"

lemma pushed_simps [simp]: "pushed system alive [] = []" "pushed system alive (ms @ ms') = pushed system alive ms @ pushed system alive ms'"
  by (simp_all add: pushed_def)

definition recv_ok :: "int \<Rightarrow> nat \<Rightarrow> socket \<Rightarrow> bool" where
  "recv_ok j owner s \<longleftrightarrow> so_type s = SOCKET_TYPE_CONNECTED \<and> so_protocol s = PROTOCOL_TCP \<and> so_id s = j \<and> \<not> so_closing s \<and> 0 < so_size s \<and>
     so_opaque s = owner"

lemma pushed_data:
  assumes "res_kind m = SOCKET_DATA" "res_id m = j" "res_opaque m = owner" "alive (of_nat owner)" "res_data m = Bytes_Read bs" "res_ud m = int (length bs)"
  shows "pushed system alive [m] = [data_message j bs]"
  using assms by (simp add: pushed_def skynet_socket_poll_def forward_socket_message_def socket_message_def result_buffer_def data_message_def)

lemma read_event_ok:
  assumes "recv_ok j owner s" "arrived \<noteq> []"
  shows "\<exists>s' m again bs rest. read_event time pe s \<lparr>ev_read = True, ev_write = False, ev_error = False, ev_eof = False\<rparr> (io\<lparr>io_read := Read arrived\<rparr>)
      = Some ([], s', Some m, again) \<and> recv_ok j owner s' \<and> arrived = bs @ rest \<and> bs \<noteq> [] \<and> res_kind m = SOCKET_DATA \<and> res_id m = j \<and>
    res_opaque m = owner \<and> res_data m = Bytes_Read bs \<and> res_ud m = int (length bs)"
proof -
  let ?n = "nat (so_size s)"
  have n: "0 < ?n" and ne: "take ?n arrived \<noteq> []" using assms by (simp_all add: recv_ok_def)
  have half: "0 < so_size s div 2" if "so_size s > MIN_READ_BUFFER" using that by (simp add: MIN_READ_BUFFER_def)
  let ?bs = "take ?n arrived"
  let ?s = "stat_read time s (length ?bs)"
  let ?s' = "if int (length ?bs) = so_size s then ?s\<lparr>so_size := so_size s * 2\<rparr>
    else if so_size s > MIN_READ_BUFFER \<and> int (length ?bs) * 2 < so_size s then ?s\<lparr>so_size := so_size s div 2\<rparr> else ?s"
  let ?again = "if int (length ?bs) = so_size s
    then Some \<lparr>ev_read = True, ev_write = False, ev_error = False, ev_eof = False\<rparr> else None"
  have "read_event time pe s \<lparr>ev_read = True, ev_write = False, ev_error = False, ev_eof = False\<rparr> (io\<lparr>io_read := Read arrived\<rparr>)
      = Some ([], ?s', Some (result_of SOCKET_DATA s (int (length ?bs)) (Bytes_Read ?bs)), ?again)"
    using assms(1) ne by (simp add: read_event_def forward_message_tcp_def recv_ok_def halfclose_read_def stat_read_def result_of_def Let_def)
  moreover have "recv_ok j owner ?s'" using assms(1) half by (simp add: recv_ok_def stat_read_def)
  ultimately show ?thesis using assms(1) ne
    by (intro exI [of _ ?s'] exI [of _ "result_of SOCKET_DATA s (int (length ?bs)) (Bytes_Read ?bs)"] exI [of _ ?again] exI [of _ ?bs]
        exI [of _ "drop ?n arrived"]) (simp add: recv_ok_def result_of_def del: length_take)
qed

text \<open>The messages of a run carry the bytes that have arrived, but those that still wait.\<close>

lemma recv_run_ok:
  assumes "recv_ok j owner (rc_slot r)" "alive (of_nat owner)"
  shows "\<exists>ms r' bss. run_steps (recv_step time pe io) r acts = Some (ms, r') \<and> recv_ok j owner (rc_slot r') \<and>
    pushed system alive ms = map (data_message j) bss \<and> [] \<notin> set bss \<and> concat bss @ rc_arrived r' = rc_arrived r @ arrivals acts"
  using assms(1)
proof (induction acts arbitrary: r)
  case Nil
  then show ?case by (intro exI [of _ "[]"] exI [of _ r]) simp
next
  case (Cons act acts)
  show ?case
  proof (cases act)
    case (Arrive bs)
    let ?r = "r\<lparr>rc_arrived := rc_arrived r @ bs\<rparr>"
    from Cons.IH [of ?r] Cons.prems obtain ms r' bss where
      "run_steps (recv_step time pe io) ?r acts = Some (ms, r')" "recv_ok j owner (rc_slot r')" "pushed system alive ms = map (data_message j) bss"
      "[] \<notin> set bss" "concat bss @ rc_arrived r' = (rc_arrived r @ bs) @ arrivals acts" by auto
    with Arrive show ?thesis by auto
  next
    case Read_Event
    show ?thesis
    proof (cases "rc_arrived r = []")
      case True
      then have "recv_step time pe io r Read_Event = Some ([], r)"
        using Cons.prems by (cases r) (simp add: read_event_def forward_message_tcp_def recv_ok_def delivered_def)
      with Cons.IH [OF Cons.prems] Read_Event show ?thesis by (simp del: recv_step.simps)
    next
      case False
      from read_event_ok [OF Cons.prems False, of time pe io] obtain s' m again bs rest where
        e: "read_event time pe (rc_slot r) \<lparr>ev_read = True, ev_write = False, ev_error = False, ev_eof = False\<rparr>
          (io\<lparr>io_read := Read (rc_arrived r)\<rparr>) = Some ([], s', Some m, again)" "recv_ok j owner s'" "rc_arrived r = bs @ rest" "bs \<noteq> []"
        "res_kind m = SOCKET_DATA" "res_id m = j" "res_opaque m = owner" "res_data m = Bytes_Read bs" "res_ud m = int (length bs)" by blast
      let ?r = "\<lparr>rc_slot = s', rc_arrived = rest\<rparr>"
      have step: "recv_step time pe io r Read_Event = Some ([m], ?r)"
        using e(1,3,4,8) False by (simp add: delivered_def result_buffer_def)
      from Cons.IH [of ?r] e(2) obtain ms r' bss where
        IH: "run_steps (recv_step time pe io) ?r acts = Some (ms, r')" "recv_ok j owner (rc_slot r')"
        "pushed system alive ms = map (data_message j) bss" "[] \<notin> set bss" "concat bss @ rc_arrived r' = rest @ arrivals acts" by auto
      have "pushed system alive ([m] @ ms) = map (data_message j) (bs # bss)"
        unfolding pushed_simps pushed_data [where alive = alive, OF e(5,6,7) assms(2) e(8,9)] IH(3) by simp
      with IH e(3,4) step Read_Event show ?thesis
        by (intro exI [of _ "[m] @ ms"] exI [of _ r'] exI [of _ "bs # bss"]) (simp del: recv_step.simps pushed_simps)
    qed
  qed
qed

text \<open>The specification of \<^verbatim>\<open>lua-netpack.c\<close> on the data of one socket.\<close>

lemma stream_run_data:
  assumes "split_packages (pend j) = ([], pend j)"
  shows "stream_run pend (map (data_message j) bss) = map (packet j) (fst (split_packages (pend j @ concat bss)))"
  using assms
proof (induction bss arbitrary: pend)
  case (Cons bs bss)
  obtain ps rest where sp: "split_packages (pend j @ bs) = (ps, rest)" by (cases "split_packages (pend j @ bs)")
  have "split_packages rest = ([], rest)" using split_packages_rest [of "pend j @ bs"] sp by simp
  then have IH: "stream_run (pend(j := rest)) (map (data_message j) bss) = map (packet j) (fst (split_packages (rest @ concat bss)))"
    using Cons.IH [of "pend(j := rest)"] by (simp only: fun_upd_same)
  have "stream_run pend (map (data_message j) (bs # bss)) = map (packet j) ps @ stream_run (pend(j := rest)) (map (data_message j) bss)"
    using sp by (simp add: data_message_def)
  with split_packages_append [of "pend j @ bs" "concat bss"] sp show ?case unfolding IH by (simp add: case_prod_unfold Let_def)
qed simp

subsection \<open>From service to service\<close>

text \<open>Property C8: a service packs messages with \<^verbatim>\<open>lua-netpack.c\<close> and sends them on a TCP connection, directly or through the pipe, with any
  behaviour of the system but an error; the bytes arrive in any pieces at the node of the other side, where the socket thread reads
  them in any number of events, with a buffer that grows and shrinks, and forwards them to the owner of the socket, which cuts them
  into packages with \<^verbatim>\<open>lua-netpack.c\<close>. When all that was sent is written, has arrived and was read, the owner has the messages of the
  sender, all of them, each whole, in their order.\<close>

theorem socket_packages_arrive:
  assumes "fresh_conn s i" "list_all act_no_error acts" "low_sends acts = []" "length (high_sends acts) < 65536"
    "list_all2 (\<lambda>m w. lpack m = Inr w) msgs (high_sends acts)"
    "recv_ok j owner r" "alive (of_nat owner)"
  shows "\<exists>cs c. run_steps (conn_step time pe i) \<lparr>cn_slot = s, cn_pipe = []\<rparr> acts = Some (cs, c) \<and>
    (\<forall>racts. drained c \<and> arrivals racts = written cs \<longrightarrow>
      (\<exists>ms r'. run_steps (recv_step rtime rpe io) \<lparr>rc_slot = r, rc_arrived = []\<rparr> racts = Some (ms, r') \<and>
        (rc_arrived r' = [] \<longrightarrow> (\<exists>qo. client_run None (pushed system alive ms) = Some (map (packet j) msgs, qo)))))"
proof -
  from conn_run_ok [OF fresh_sock_ok [OF assms(1)] assms(2), of time pe] assms(3,4) obtain cs c where
    run: "run_steps (conn_step time pe i) \<lparr>cn_slot = s, cn_pipe = []\<rparr> acts = Some (cs, c)" and
    str: "stream_ok (high_sends acts) [] (written cs) c" by auto
  have "\<exists>ms r'. run_steps (recv_step rtime rpe io) \<lparr>rc_slot = r, rc_arrived = []\<rparr> racts = Some (ms, r') \<and>
      (rc_arrived r' = [] \<longrightarrow> (\<exists>qo. client_run None (pushed system alive ms) = Some (map (packet j) msgs, qo)))"
    if d: "drained c" "arrivals racts = written cs" for racts
  proof -
    from stream_okD [OF str] d(1) have w: "written cs = concat (high_sends acts)" by auto
    from recv_run_ok [of j owner "\<lparr>rc_slot = r, rc_arrived = []\<rparr>" alive rtime rpe io racts system] assms(6,7) obtain ms r' bss where
      R: "run_steps (recv_step rtime rpe io) \<lparr>rc_slot = r, rc_arrived = []\<rparr> racts = Some (ms, r')"
      "pushed system alive ms = map (data_message j) bss" "[] \<notin> set bss" "concat bss @ rc_arrived r' = written cs"
      using d(2) by auto
    have "\<forall>m \<in> set (map (data_message j) bss). message_ok m" using R(3) by (auto simp: message_ok_def data_message_def)
    from client_run_new [OF this] obtain qo where
      "client_run None (map (data_message j) bss) = Some (map (packet j) (fst (split_packages (concat bss))), qo)"
      using stream_run_data [of "\<lambda>_. []" j bss] by (auto simp: split_packages_short)
    with R w split_lpack [OF assms(5)] show ?thesis by auto
  qed
  with run show ?thesis by blast
qed


definition demo_wires :: "conn_act list" where
  "demo_wires = [Act_Send (Raw [0, 1, 65]) False (Room 2), Act_Send (Raw [0, 2, 66, 67]) False (Room 9), Act_Cmd, Act_Cmd,
     Act_Write False [Room 9, Room 9]]"

definition demo_event_io :: event_io where
  "demo_event_io = \<lparr>io_read = Read_Again, io_recv = Recv_Again, io_writes = [], io_connect = Connect_Failed, io_accept = Accept_Failed\<rparr>"

lemma socket_packages_arrive_witness:
  "(\<exists>cs c. run_steps (conn_step 0 demo_poll 1) \<lparr>cn_slot = demo_conn, cn_pipe = []\<rparr> demo_wires = Some (cs, c) \<and>
    (\<forall>racts. drained c \<and> arrivals racts = written cs \<longrightarrow>
      (\<exists>ms r'. run_steps (recv_step 0 demo_poll demo_event_io) \<lparr>rc_slot = demo_conn\<lparr>so_size := 64\<rparr>, rc_arrived = []\<rparr> racts = Some (ms, r') \<and>
        (rc_arrived r' = [] \<longrightarrow> (\<exists>qo. client_run None (pushed [] (\<lambda>_. True) ms) = Some (map (packet 1) [[65], [66, 67]], qo)))))) \<and>
   (case run_steps (conn_step 0 demo_poll 1) \<lparr>cn_slot = demo_conn, cn_pipe = []\<rparr> demo_wires of
      None \<Rightarrow> False | Some (cs, c) \<Rightarrow> written cs = arrivals [Arrive [0, 1], Read_Event, Arrive [65, 0, 2, 66], Arrive [67], Read_Event] \<and> drained c)"
proof
  have r: "recv_ok 1 0 (demo_conn\<lparr>so_size := 64\<rparr>)"
    by (simp add: recv_ok_def demo_conn_def empty_slot_def PROTOCOL_TCP_def)
  show "\<exists>cs c. run_steps (conn_step 0 demo_poll 1) \<lparr>cn_slot = demo_conn, cn_pipe = []\<rparr> demo_wires = Some (cs, c) \<and>
    (\<forall>racts. drained c \<and> arrivals racts = written cs \<longrightarrow>
      (\<exists>ms r'. run_steps (recv_step 0 demo_poll demo_event_io) \<lparr>rc_slot = demo_conn\<lparr>so_size := 64\<rparr>, rc_arrived = []\<rparr> racts = Some (ms, r') \<and>
        (rc_arrived r' = [] \<longrightarrow> (\<exists>qo. client_run None (pushed [] (\<lambda>_. True) ms) = Some (map (packet 1) [[65], [66, 67]], qo)))))"
    by (rule socket_packages_arrive [OF demo_conn_fresh _ _ _ _ r]) (simp_all add: demo_wires_def no_error_def sendbuffer_bytes_def lpack_def write_size_def and_255 drop_bit_eq_div)
  show "case run_steps (conn_step 0 demo_poll 1) \<lparr>cn_slot = demo_conn, cn_pipe = []\<rparr> demo_wires of
      None \<Rightarrow> False | Some (cs, c) \<Rightarrow> written cs = arrivals [Arrive [0, 1], Read_Event, Arrive [65, 0, 2, 66], Arrive [67], Read_Event] \<and> drained c"
    by (simp add: demo_wires_def demo_run)
qed

definition demo_half_closed :: socket where
  "demo_half_closed = demo_conn\<lparr>so_type := SOCKET_TYPE_HALFCLOSE_READ\<rparr>"

definition demo_server :: "socket \<Rightarrow> socket_server" where
  "demo_server s = \<lparr>ss_time = 0, ss_alloc_id = 1, ss_slot = (\<lambda>k. if k = 1 then s else empty_slot)\<rparr>"

definition demo_loop :: "socket \<Rightarrow> poll_state" where
  "demo_loop s = \<lparr>pl_server = demo_server s, pl_pipe = [Req_Close 1 False 0], pl_checkctrl = True,
     pl_events = [(None, \<lparr>ev_read = True, ev_write = False, ev_error = False, ev_eof = False\<rparr>),
       (Some 1, \<lparr>ev_read = True, ev_write = False, ev_error = False, ev_eof = False\<rparr>)]\<rparr>"

definition demo_poll_io :: poll_io where
  "demo_poll_io = \<lparr>pi_wait = [], pi_open = Open_Failed, pi_event = demo_event_io, pi_locked = False\<rparr>"

text \<open>The same socket, open, and half closed for reading: only in the first case the event is gone.\<close>

lemma close_request_and_events_witness:
  "(\<exists>cs p'. poll_round demo_poll (demo_loop demo_conn) demo_poll_io = Some (cs, p', Some (result_of SOCKET_CLOSE demo_conn 0 No_Data), False) \<and>
    closes cs = [9] \<and> so_type (ss_slot (pl_server p') (HASH_ID 1)) = SOCKET_TYPE_INVALID \<and> pl_pipe p' = [] \<and> event_slots (pl_events p') = []) \<and>
   (\<exists>cs p'. poll_round demo_poll (demo_loop demo_half_closed) demo_poll_io = Some (cs, p', None, False) \<and>
    closes cs = [9] \<and> so_type (ss_slot (pl_server p') (HASH_ID 1)) = SOCKET_TYPE_INVALID \<and> pl_pipe p' = [] \<and>
    event_slots (pl_events p') = [1])"
proof -
  have h: "HASH_ID 1 = 1" by (simp add: HASH_ID_def MAX_SOCKET_def)
  have slot: "s = ss_slot (pl_server (demo_loop s)) (HASH_ID 1)" for s by (simp add: demo_loop_def demo_server_def h)
  have ids: "so_id (ss_slot (pl_server (demo_loop s)) l) \<noteq> 1" if "l \<noteq> HASH_ID 1" for l s
    using that by (simp add: demo_loop_def demo_server_def h empty_slot_def)
  have "so_id demo_conn = 1" "so_type demo_conn = SOCKET_TYPE_CONNECTED" "so_fd demo_conn = 9" "nomore_sending_data demo_conn"
    by (simp_all add: demo_conn_def empty_slot_def nomore_sending_data_def send_buffer_empty_def)
  moreover from this have "so_id demo_half_closed = 1" "so_type demo_half_closed = SOCKET_TYPE_HALFCLOSE_READ" "so_fd demo_half_closed = 9"
      "nomore_sending_data demo_half_closed"
    by (simp_all add: demo_half_closed_def nomore_sending_data_def send_buffer_empty_def)
  ultimately show ?thesis
    using close_request_and_events [of "demo_loop demo_conn" 1 False 0 "[]" demo_conn demo_poll demo_poll_io, OF _ _ slot _ _ _ _ _ ids]
      close_request_and_events [of "demo_loop demo_half_closed" 1 False 0 "[]" demo_half_closed demo_poll demo_poll_io, OF _ _ slot _ _ _ _ _ ids]
    by (auto simp: demo_loop_def h halfclose_read_def)
qed

end
