(* ===== verification/Sproto_Schema.thy ===== *)
theory Sproto_Schema
  imports Skynet_Prelude
begin

text \<open>
  The schema of \<^verbatim>\<open>lualib-src/sproto/sproto.c\<close>: how the types and protocols are read from the bundle that the compiler of schemas made, and
  how they are looked up.

  A pointer into the bundle is the list of the bytes from there to the end of the bundle; \<open>None\<close> is a read behind the end. In the inner
  option \<open>None\<close> is the result \<^verbatim>\<open>NULL\<close>, which says that the bundle is not accepted. The memory pool is not modelled: it grows as needed,
  and all of it is freed together.
\<close>

subsection \<open>Reading numbers\<close>

definition toword :: "u8 list \<Rightarrow> nat option" where
  "toword p = (if length p < 2 then None else Some (le_nat (take 2 p)))"

definition todword :: "u8 list \<Rightarrow> u32 option" where
  "todword p = (if length p < 4 then None else Some (of_nat (le_nat (take 4 p))))"

definition SIZEOF_LENGTH :: nat where "SIZEOF_LENGTH = 4"
definition SIZEOF_HEADER :: nat where "SIZEOF_HEADER = 2"
definition SIZEOF_FIELD :: nat where "SIZEOF_FIELD = 2"

text \<open>The lengths are words of 32 bits: a length close to \<open>2 ^ 32\<close> becomes small when the size of the length itself is added.\<close>

partial_function (option) count_loop :: "u32 \<Rightarrow> u8 list \<Rightarrow> int \<Rightarrow> int option" where
  "count_loop len stream n =
     (if len > 0 then
        if len < of_nat SIZEOF_LENGTH then Some (- 1)
        else do {
          nsz \<leftarrow> todword stream;
          let nsz = nsz + of_nat SIZEOF_LENGTH;
          if nsz > len then Some (- 1) else count_loop (len - nsz) (drop (unat nsz) stream) (n + 1) }
      else Some n)"

declare count_loop.simps [code]

definition count_array :: "u8 list \<Rightarrow> int option" where
  "count_array stream = do { len \<leftarrow> todword stream; count_loop len (drop SIZEOF_LENGTH stream) 0 }"

fun struct_loop :: "nat \<Rightarrow> u8 list \<Rightarrow> u8 list \<Rightarrow> nat \<Rightarrow> bool option" where
  "struct_loop 0 fields stream sz = Some True"
| "struct_loop (Suc k) fields stream sz = do {
     v \<leftarrow> toword fields;
     if v \<noteq> 0 then struct_loop k (drop SIZEOF_FIELD fields) stream sz
     else if sz < SIZEOF_LENGTH then Some False
     else do {
       dsz \<leftarrow> todword stream;
       let n = unat (of_nat SIZEOF_LENGTH + dsz);
       if sz < n then Some False else struct_loop k (drop SIZEOF_FIELD fields) (drop n stream) (sz - n) } }"

text \<open>The number of fields, or -1.\<close>

definition struct_field :: "u8 list \<Rightarrow> nat \<Rightarrow> int option" where
  "struct_field stream sz =
     (if sz < SIZEOF_LENGTH then Some (- 1)
      else do {
        fn \<leftarrow> toword stream;
        let header = SIZEOF_HEADER + SIZEOF_FIELD * fn;
        if sz < header then Some (- 1)
        else do {
          ok \<leftarrow> struct_loop fn (drop SIZEOF_HEADER stream) (drop header stream) (sz - header);
          Some (if ok then int fn else - 1) } })"

definition import_string :: "u8 list \<Rightarrow> u8 list option" where
  "import_string stream = do {
     sz \<leftarrow> todword stream;
     let text = drop SIZEOF_LENGTH stream;
     if length text < unat sz then None else Some (take (unat sz) text) }"

text \<open>The C code computes with signed numbers; on overflow, from \<open>n = 10\<close> on, the model wraps around.\<close>

fun calc_pow :: "u32 \<Rightarrow> nat \<Rightarrow> u32" where
  "calc_pow base n = (if n = 0 then 1 else let r = calc_pow (base * base) (n div 2) in if odd n then r * base else r)"

declare calc_pow.simps [simp del]

subsection \<open>Types and protocols\<close>

definition SPROTO_TINTEGER :: int where "SPROTO_TINTEGER = 0"
definition SPROTO_TBOOLEAN :: int where "SPROTO_TBOOLEAN = 1"
definition SPROTO_TSTRING :: int where "SPROTO_TSTRING = 2"
definition SPROTO_TDOUBLE :: int where "SPROTO_TDOUBLE = 3"
definition SPROTO_TSTRUCT :: int where "SPROTO_TSTRUCT = 4"
definition SPROTO_TARRAY :: int where "SPROTO_TARRAY = 0x80"

lemmas sproto_types = SPROTO_TINTEGER_def SPROTO_TBOOLEAN_def SPROTO_TSTRING_def SPROTO_TDOUBLE_def SPROTO_TSTRUCT_def SPROTO_TARRAY_def

text \<open>A pointer to a type is its index in the table of types.\<close>

record sproto_field =
  sf_tag :: int
  sf_type :: int
  sf_name :: "u8 list option"
  sf_st :: "nat option"
  sf_key :: int
  sf_map :: int
  sf_extra :: int

record sproto_type =
  st_name :: "u8 list"
  st_n :: nat
  st_base :: int
  st_maxn :: nat
  st_f :: "sproto_field list"

record sproto_protocol =
  pr_name :: "u8 list option"
  pr_tag :: int
  pr_confirm :: int
  pr_request :: "nat option"
  pr_response :: "nat option"

record sproto =
  sp_type :: "sproto_type list"
  sp_proto :: "sproto_protocol list"

definition empty_field :: sproto_field where
  "empty_field = \<lparr>sf_tag = - 1, sf_type = - 1, sf_name = None, sf_st = None, sf_key = - 1, sf_map = - 1, sf_extra = 0\<rparr>"

text \<open>What the value of an attribute, which is in its word of the record, does to a field. \<open>arr\<close> is the variable \<^verbatim>\<open>array\<close>.\<close>

definition field_attribute :: "nat \<Rightarrow> int \<Rightarrow> int \<Rightarrow> sproto_field \<times> int \<Rightarrow> (sproto_field \<times> int) option" where
  "field_attribute type_n tag value fa = (let (f, arr) = fa in
     if tag = 1 then (if value \<ge> SPROTO_TSTRUCT then None else Some (f\<lparr>sf_type := value\<rparr>, arr))
     else if tag = 2 then
       (if sf_type f = SPROTO_TINTEGER then Some (f\<lparr>sf_extra := sint (calc_pow 10 (nat value))\<rparr>, arr)
        else if sf_type f = SPROTO_TSTRING then Some (f\<lparr>sf_extra := value\<rparr>, arr)
        else if value \<ge> int type_n \<or> sf_type f \<ge> 0 then None
        else Some (f\<lparr>sf_type := SPROTO_TSTRUCT, sf_st := Some (nat value)\<rparr>, arr))
     else if tag = 3 then Some (f\<lparr>sf_tag := value\<rparr>, arr)
     else if tag = 4 then Some (f, if value \<noteq> 0 then SPROTO_TARRAY else arr)
     else if tag = 5 then Some (f\<lparr>sf_key := value\<rparr>, arr)
     else if tag = 6 then Some (if value \<noteq> 0 then f\<lparr>sf_map := 1\<rparr> else f, arr)
     else None)"

text \<open>The loop of \<^verbatim>\<open>import_field\<close> over the words of the record; \<open>data\<close> is what follows the words.\<close>

fun field_loop :: "nat \<Rightarrow> nat \<Rightarrow> u8 list \<Rightarrow> u8 list \<Rightarrow> int \<Rightarrow> sproto_field \<times> int \<Rightarrow> (sproto_field \<times> int) option option" where
  "field_loop type_n 0 words data tag fa = Some (Some fa)"
| "field_loop type_n (Suc k) words data tag fa = do {
     v \<leftarrow> toword words;
     let tag = tag + 1;
     if odd v then field_loop type_n k (drop SIZEOF_FIELD words) data (tag + int (v div 2)) fa
     else if tag = 0 then
       (if v \<noteq> 0 then Some None
        else do {
          name \<leftarrow> import_string data;
          field_loop type_n k (drop SIZEOF_FIELD words) data tag ((fst fa)\<lparr>sf_name := Some name\<rparr>, snd fa) })
     else if v = 0 then Some None
     else (case field_attribute type_n tag (int (v div 2) - 1) fa of
         None \<Rightarrow> Some None
       | Some fa \<Rightarrow> field_loop type_n k (drop SIZEOF_FIELD words) data tag fa) }"

definition import_field :: "nat \<Rightarrow> u8 list \<Rightarrow> (sproto_field \<times> u8 list) option option" where
  "import_field type_n stream = do {
     sz \<leftarrow> todword stream;
     let stream = drop SIZEOF_LENGTH stream;
     let result = drop (unat sz) stream;
     fn \<leftarrow> struct_field stream (unat sz);
     if fn < 0 then Some None
     else do {
       let words = drop SIZEOF_HEADER stream;
       r \<leftarrow> field_loop type_n (nat fn) words (drop (SIZEOF_FIELD * nat fn) words) (- 1) (empty_field, 0);
       Some (case r of
         None \<Rightarrow> None
       | Some (f, arr) \<Rightarrow>
           if sf_tag f < 0 \<or> sf_type f < 0 \<or> sf_name f = None then None else Some (f\<lparr>sf_type := or (sf_type f) arr\<rparr>, result)) } }"

text \<open>The fields of a type: the number of gaps between their tags is added to \<^verbatim>\<open>maxn\<close>.\<close>

fun import_fields :: "nat \<Rightarrow> nat \<Rightarrow> u8 list \<Rightarrow> int \<Rightarrow> nat \<Rightarrow> (sproto_field list \<times> nat) option option" where
  "import_fields type_n 0 stream prev maxn = Some (Some ([], maxn))"
| "import_fields type_n (Suc k) stream prev maxn = do {
     r \<leftarrow> import_field type_n stream;
     case r of
       None \<Rightarrow> Some None
     | Some (f, stream) \<Rightarrow>
         if sf_tag f \<le> prev then Some None
         else do {
           r \<leftarrow> import_fields type_n k stream (sf_tag f) (if sf_tag f > prev + 1 then maxn + 1 else maxn);
           Some (map_option (\<lambda>(fs, maxn). (f # fs, maxn)) r) } }"

text \<open>The end of \<^verbatim>\<open>import_type\<close>; it reads the first and the last field.\<close>

definition type_of_fields :: "u8 list \<Rightarrow> nat \<Rightarrow> nat \<Rightarrow> sproto_field list \<Rightarrow> sproto_type option" where
  "type_of_fields name n maxn fs = do {
     first \<leftarrow> array_get fs 0;
     final \<leftarrow> (if n = 0 then None else array_get fs (n - 1));
     Some \<lparr>st_name = name, st_n = n, st_base = (if sf_tag final - sf_tag first + 1 \<noteq> int n then - 1 else sf_tag first),
       st_maxn = maxn, st_f = fs\<rparr> }"

definition import_type :: "nat \<Rightarrow> u8 list \<Rightarrow> (sproto_type \<times> u8 list) option option" where
  "import_type type_n stream = do {
     sz \<leftarrow> todword stream;
     let stream = drop SIZEOF_LENGTH stream;
     let result = drop (unat sz) stream;
     fn \<leftarrow> struct_field stream (unat sz);
     if fn \<le> 0 \<or> fn > 2 then Some None
     else do {
       v0 \<leftarrow> toword (drop SIZEOF_HEADER stream);
       v1 \<leftarrow> (if fn = 2 then toword (drop (SIZEOF_HEADER + SIZEOF_FIELD) stream) else Some 0);
       if v0 \<noteq> 0 \<or> v1 \<noteq> 0 then Some None
       else do {
         let stream = drop (SIZEOF_HEADER + nat fn * SIZEOF_FIELD) stream;
         name \<leftarrow> import_string stream;
         if fn = 1 then Some (Some (\<lparr>st_name = name, st_n = 0, st_base = 0, st_maxn = 0, st_f = []\<rparr>, result))
         else do {
           l \<leftarrow> todword stream;
           let stream = drop (unat (l + of_nat SIZEOF_LENGTH)) stream;
           n \<leftarrow> count_array stream;
           if n < 0 then Some None
           else do {
             r \<leftarrow> import_fields type_n (nat n) (drop SIZEOF_LENGTH stream) (- 1) (nat n);
             case r of
               None \<Rightarrow> Some None
             | Some (fs, maxn) \<Rightarrow> map_option (\<lambda>t. Some (t, result)) (type_of_fields name (nat n) maxn fs) } } } } }"

subsection \<open>Protocols and the bundle\<close>

text \<open>The position of an attribute is its number \<open>i\<close> in the record, and not the tag that the skipped numbers give.\<close>

fun protocol_loop :: "nat \<Rightarrow> nat \<Rightarrow> nat \<Rightarrow> u8 list \<Rightarrow> u8 list \<Rightarrow> sproto_protocol \<Rightarrow> sproto_protocol option option" where
  "protocol_loop type_n 0 i words data p = Some (Some p)"
| "protocol_loop type_n (Suc k) i words data p = do {
     v \<leftarrow> toword words;
     let value = int (v div 2) - 1;
     let continue = (\<lambda>p. protocol_loop type_n k (i + 1) (drop SIZEOF_FIELD words) data p);
     if odd v then continue p
     else if i = 0 then
       (if value \<noteq> - 1 then Some None else do { name \<leftarrow> import_string data; continue (p\<lparr>pr_name := Some name\<rparr>) })
     else if i = 1 then (if value < 0 then Some None else continue (p\<lparr>pr_tag := value\<rparr>))
     else if i = 2 then (if value < 0 \<or> value \<ge> int type_n then Some None else continue (p\<lparr>pr_request := Some (nat value)\<rparr>))
     else if i = 3 then (if value < 0 \<or> value \<ge> int type_n then Some None else continue (p\<lparr>pr_response := Some (nat value)\<rparr>))
     else if i = 4 then continue (p\<lparr>pr_confirm := value\<rparr>)
     else Some None }"

definition import_protocol :: "nat \<Rightarrow> u8 list \<Rightarrow> (sproto_protocol \<times> u8 list) option option" where
  "import_protocol type_n stream = do {
     sz \<leftarrow> todword stream;
     let stream = drop SIZEOF_LENGTH stream;
     let result = drop (unat sz) stream;
     fn \<leftarrow> struct_field stream (unat sz);
     let words = drop SIZEOF_HEADER stream;
     r \<leftarrow> protocol_loop type_n (nat fn) 0 words (drop (SIZEOF_FIELD * nat fn) words)
       \<lparr>pr_name = None, pr_tag = - 1, pr_confirm = 0, pr_request = None, pr_response = None\<rparr>;
     Some (case r of
       None \<Rightarrow> None
     | Some p \<Rightarrow> if pr_name p = None \<or> pr_tag p < 0 then None else Some (p, result)) }"

fun import_types :: "nat \<Rightarrow> nat \<Rightarrow> u8 list \<Rightarrow> sproto_type list option option" where
  "import_types type_n 0 stream = Some (Some [])"
| "import_types type_n (Suc k) stream = do {
     r \<leftarrow> import_type type_n stream;
     case r of
       None \<Rightarrow> Some None
     | Some (t, stream) \<Rightarrow> do { r \<leftarrow> import_types type_n k stream; Some (map_option (\<lambda>ts. t # ts) r) } }"

fun import_protocols :: "nat \<Rightarrow> nat \<Rightarrow> u8 list \<Rightarrow> sproto_protocol list option option" where
  "import_protocols type_n 0 stream = Some (Some [])"
| "import_protocols type_n (Suc k) stream = do {
     r \<leftarrow> import_protocol type_n stream;
     case r of
       None \<Rightarrow> Some None
     | Some (p, stream) \<Rightarrow> do { r \<leftarrow> import_protocols type_n k stream; Some (map_option (\<lambda>ps. p # ps) r) } }"

text \<open>The arrays of the bundle: where their elements start and how many they are.\<close>

fun bundle_arrays :: "nat \<Rightarrow> u8 list \<Rightarrow> u8 list \<Rightarrow> (nat \<times> u8 list) list option option" where
  "bundle_arrays 0 words content = Some (Some [])"
| "bundle_arrays (Suc k) words content = do {
     v \<leftarrow> toword words;
     if v \<noteq> 0 then Some None
     else do {
       n \<leftarrow> count_array content;
       if n < 0 then Some None
       else do {
         l \<leftarrow> todword content;
         r \<leftarrow> bundle_arrays k (drop SIZEOF_FIELD words) (drop (unat (l + of_nat SIZEOF_LENGTH)) content);
         Some (map_option (\<lambda>rs. (nat n, drop SIZEOF_LENGTH content) # rs) r) } } }"

definition import_all :: "(nat \<times> u8 list) list \<Rightarrow> sproto option option" where
  "import_all rs = do {
     let (type_n, typedata) = (if length rs > 0 then rs ! 0 else (0, []));
     let (protocol_n, protocoldata) = (if length rs > 1 then rs ! 1 else (0, []));
     ts \<leftarrow> import_types type_n type_n typedata;
     case ts of
       None \<Rightarrow> Some None
     | Some ts \<Rightarrow> do {
         ps \<leftarrow> import_protocols type_n protocol_n protocoldata;
         Some (map_option (\<lambda>ps. \<lparr>sp_type = ts, sp_proto = ps\<rparr>) ps) } }"

definition create_from_bundle :: "u8 list \<Rightarrow> sproto option option" where
  "create_from_bundle stream = do {
     fn \<leftarrow> struct_field stream (length stream);
     if fn < 0 \<or> fn > 2 then Some None
     else do {
       let words = drop SIZEOF_HEADER stream;
       arrays \<leftarrow> bundle_arrays (nat fn) words (drop (nat fn * SIZEOF_FIELD) words);
       case arrays of None \<Rightarrow> Some None | Some rs \<Rightarrow> import_all rs } }"

definition sproto_create :: "u8 list \<Rightarrow> sproto option option" where
  "sproto_create proto = create_from_bundle proto"


subsection \<open>Looking up\<close>

text \<open>Names are compared as C strings.\<close>

definition c_text :: "u8 list \<Rightarrow> u8 list" where
  "c_text s = takeWhile (\<lambda>b. b \<noteq> 0) s"

fun prototag_loop :: "sproto_protocol list \<Rightarrow> u8 list \<Rightarrow> int" where
  "prototag_loop [] name = - 1"
| "prototag_loop (p # ps) name = (if map_option c_text (pr_name p) = Some (c_text name) then pr_tag p else prototag_loop ps name)"

definition sproto_prototag :: "sproto \<Rightarrow> u8 list \<Rightarrow> int" where
  "sproto_prototag sp name = prototag_loop (sp_proto sp) name"

text \<open>The two binary searches, on the tags of fields and of protocols: the index that has the tag, if there is one.\<close>

function tag_search :: "(nat \<Rightarrow> int option) \<Rightarrow> int \<Rightarrow> nat \<Rightarrow> nat \<Rightarrow> nat option option" where
  "tag_search tag_at tag begin1 end1 =
     (if begin1 < end1 then do {
        let mid = (begin1 + end1) div 2;
        t \<leftarrow> tag_at mid;
        if t = tag then Some (Some mid)
        else if tag > t then tag_search tag_at tag (mid + 1) end1
        else tag_search tag_at tag begin1 mid }
      else Some None)"
  by pat_completeness auto
termination by (relation "measure (\<lambda>(tag_at, tag, b, e). e - b)") auto

declare tag_search.simps [simp del]

definition query_proto :: "sproto \<Rightarrow> int \<Rightarrow> sproto_protocol option option" where
  "query_proto sp tag = do {
     r \<leftarrow> tag_search (\<lambda>i. map_option pr_tag (array_get (sp_proto sp) i)) tag 0 (length (sp_proto sp));
     Some (map_option (\<lambda>i. sp_proto sp ! i) r) }"

definition SPROTO_REQUEST :: int where "SPROTO_REQUEST = 0"
definition SPROTO_RESPONSE :: int where "SPROTO_RESPONSE = 1"

definition sproto_protoquery :: "sproto \<Rightarrow> int \<Rightarrow> int \<Rightarrow> nat option option" where
  "sproto_protoquery sp proto what =
     (if what < 0 \<or> what > 1 then Some None
      else do {
        p \<leftarrow> query_proto sp proto;
        Some (case p of None \<Rightarrow> None | Some p \<Rightarrow> if what = SPROTO_REQUEST then pr_request p else pr_response p) })"

definition sproto_protoresponse :: "sproto \<Rightarrow> int \<Rightarrow> bool option" where
  "sproto_protoresponse sp proto = do {
     p \<leftarrow> query_proto sp proto;
     Some (case p of None \<Rightarrow> False | Some p \<Rightarrow> pr_response p \<noteq> None \<or> pr_confirm p \<noteq> 0) }"

definition sproto_protoname :: "sproto \<Rightarrow> int \<Rightarrow> u8 list option option" where
  "sproto_protoname sp proto = do { p \<leftarrow> query_proto sp proto; Some (Option.bind p pr_name) }"

fun type_loop :: "sproto_type list \<Rightarrow> nat \<Rightarrow> u8 list \<Rightarrow> nat option" where
  "type_loop [] i name = None"
| "type_loop (t # ts) i name = (if c_text name = c_text (st_name t) then Some i else type_loop ts (i + 1) name)"

definition find_type :: "sproto \<Rightarrow> u8 list \<Rightarrow> nat option" where
  "find_type sp name = type_loop (sp_type sp) 0 name"

definition findtag :: "sproto_type \<Rightarrow> int \<Rightarrow> sproto_field option option" where
  "findtag st tag =
     (if st_base st \<ge> 0 then
        let tag = tag - st_base st in
        if tag < 0 \<or> tag \<ge> int (st_n st) then Some None else map_option Some (array_get (st_f st) (nat tag))
      else do {
        r \<leftarrow> tag_search (\<lambda>i. map_option sf_tag (array_get (st_f st) i)) tag 0 (st_n st);
        Some (map_option (\<lambda>i. st_f st ! i) r) })"

subsection \<open>Binary search\<close>

lemma tag_search_ok:
  assumes "\<And>i. i < n \<Longrightarrow> tag_at i = Some (ts ! i)" "sorted_wrt (<) ts" "length ts = n" "e \<le> n"
    "\<And>i. i < b \<Longrightarrow> i < n \<Longrightarrow> ts ! i < tag" "\<And>i. e \<le> i \<Longrightarrow> i < n \<Longrightarrow> tag < ts ! i"
  shows "tag_search tag_at tag b e = Some (if \<exists>i<n. ts ! i = tag then Some (THE i. i < n \<and> ts ! i = tag) else None)"
  using assms(4-)
proof (induction "e - b" arbitrary: b e rule: less_induct)
  case less
  show ?case
  proof (cases "b < e")
    case False
    have "\<not> (\<exists>i<n. ts ! i = tag)"
    proof
      assume "\<exists>i<n. ts ! i = tag"
      then obtain i where "i < n" "ts ! i = tag" by blast
      with less(3) [of i] less(4) [of i] False show False by (cases "i < b") auto
    qed
    with False show ?thesis by (simp add: tag_search.simps)
  next
    case True
    let ?m = "(b + e) div 2"
    have m: "b \<le> ?m" "?m < e" using True by auto
    with less(2) have n: "?m < n" by linarith
    have mono: "ts ! i < ts ! j" if "i < j" "j < n" for i j using assms(2,3) that by (simp add: sorted_wrt_iff_nth_less)
    consider "ts ! ?m = tag" | "ts ! ?m < tag" | "tag < ts ! ?m" by linarith
    then show ?thesis
    proof cases
      case 1
      have "(THE i. i < n \<and> ts ! i = tag) = ?m"
      proof (rule the_equality)
        fix i assume i: "i < n \<and> ts ! i = tag"
        then show "i = ?m" using mono [of i ?m] mono [of ?m i] 1 n by (cases i ?m rule: linorder_cases) auto
      qed (use 1 n in simp)
      then show ?thesis using True 1 n assms(1) [OF n] by (subst tag_search.simps) (auto simp: Let_def)
    next
      case 2
      have "tag_search tag_at tag (?m + 1) e = Some (if \<exists>i<n. ts ! i = tag then Some (THE i. i < n \<and> ts ! i = tag) else None)"
      proof (rule less(1))
        fix i assume "i < ?m + 1" "i < n"
        then show "ts ! i < tag" using 2 mono [of i ?m] n by (cases "i = ?m") auto
      qed (use m less(2,4) in auto)
      then show ?thesis using True 2 assms(1) [OF n] by (subst tag_search.simps) (simp add: Let_def)
    next
      case 3
      have "tag_search tag_at tag b ?m = Some (if \<exists>i<n. ts ! i = tag then Some (THE i. i < n \<and> ts ! i = tag) else None)"
      proof (rule less(1))
        fix i assume "?m \<le> i" "i < n"
        then show "tag < ts ! i" using 3 mono [of ?m i] by (cases "i = ?m") auto
      qed (use m n less(2,3) in auto)
      then show ?thesis using True 3 assms(1) [OF n] by (subst tag_search.simps) (simp add: Let_def)
    qed
  qed
qed

lemma tag_search_find:
  assumes "sorted_wrt (<) (map g xs)"
  shows "Option.bind (tag_search (\<lambda>i. map_option g (array_get xs i)) tag 0 (length xs)) (\<lambda>r. Some (map_option (\<lambda>i. xs ! i) r)) =
    Some (find (\<lambda>x. g x = tag) xs)"
proof -
  have s: "tag_search (\<lambda>i. map_option g (array_get xs i)) tag 0 (length xs) =
    Some (if \<exists>i<length xs. map g xs ! i = tag then Some (THE i. i < length xs \<and> map g xs ! i = tag) else None)"
    using assms by (intro tag_search_ok) simp_all
  show ?thesis
  proof (cases "\<exists>i<length xs. g (xs ! i) = tag")
    case True
    then obtain i where i: "i < length xs" "g (xs ! i) = tag" by blast
    have uniq: "j = i" if "j < length xs" "g (xs ! j) = tag" for j
    proof -
      have lt: "g (xs ! a) < g (xs ! b)" if "a < b" "b < length xs" for a b using assms that by (simp add: sorted_wrt_iff_nth_less)
      from lt [of i j] lt [of j i] i that show ?thesis by (cases i j rule: linorder_cases) simp_all
    qed
    have the: "(THE i. i < length xs \<and> map g xs ! i = tag) = i" 
    proof (rule the_equality)
      show "i < length xs \<and> map g xs ! i = tag" using i by simp
      show "j = i" if "j < length xs \<and> map g xs ! j = tag" for j
      proof (rule uniq)
        show "j < length xs" "g (xs ! j) = tag" using that by auto
      qed
    qed
    have "\<forall>j<i. g (xs ! j) \<noteq> tag"
    proof (intro allI impI)
      fix j assume "j < i"
      with uniq [of j] i(1) show "g (xs ! j) \<noteq> tag" by (cases "g (xs ! j) = tag") auto
    qed
    with i have "find (\<lambda>x. g x = tag) xs = Some (xs ! i)" unfolding find_Some_iff by blast
    with the i s show ?thesis by auto
  next
    case False
    then have "find (\<lambda>x. g x = tag) xs = None" by (auto simp: find_None_iff in_set_conv_nth)
    with False s show ?thesis by (auto simp: nth_map)
  qed
qed

subsection \<open>Schemas that are accepted are well-formed\<close>

text \<open>The gaps between the tags of the fields, each of which may cost a word of the record.\<close>

fun gaps :: "int \<Rightarrow> sproto_field list \<Rightarrow> nat" where
  "gaps prev [] = 0"
| "gaps prev (f # fs) = (if sf_tag f > prev + 1 then 1 else 0) + gaps (sf_tag f) fs"

definition base_ok :: "nat \<Rightarrow> sproto_field \<Rightarrow> bool" where
  "base_ok type_n f \<longleftrightarrow> (sf_st f = None \<and> sf_type f \<in> {SPROTO_TINTEGER, SPROTO_TBOOLEAN, SPROTO_TSTRING, SPROTO_TDOUBLE}) \<or>
     (sf_type f = SPROTO_TSTRUCT \<and> (\<exists>i<type_n. sf_st f = Some i))"

definition field_ok :: "nat \<Rightarrow> sproto_field \<Rightarrow> bool" where
  "field_ok type_n f \<longleftrightarrow> 0 \<le> sf_tag f \<and> sf_tag f < 32767 \<and> sf_name f \<noteq> None \<and>
     (\<exists>t. base_ok type_n (f\<lparr>sf_type := t\<rparr>) \<and> (sf_type f = t \<or> sf_type f = or t SPROTO_TARRAY))"

definition type_ok :: "nat \<Rightarrow> sproto_type \<Rightarrow> bool" where
  "type_ok type_n t \<longleftrightarrow> st_n t = length (st_f t) \<and> (\<forall>f\<in>set (st_f t). field_ok type_n f) \<and> sorted_wrt (<) (map sf_tag (st_f t)) \<and>
     st_maxn t = st_n t + gaps (- 1) (st_f t) \<and> - 1 \<le> st_base t \<and>
     (0 \<le> st_base t \<longrightarrow> (\<forall>i < st_n t. sf_tag (st_f t ! i) = st_base t + int i))"

definition reading_ok :: "nat \<Rightarrow> int \<Rightarrow> sproto_field \<times> int \<Rightarrow> bool" where
  "reading_ok type_n tag fa \<longleftrightarrow> snd fa \<in> {0, SPROTO_TARRAY} \<and> sf_tag (fst fa) < 32767 \<and> (sf_st (fst fa) \<noteq> None \<longrightarrow> 2 \<le> tag) \<and>
     ((sf_type (fst fa) = - 1 \<and> sf_st (fst fa) = None) \<or> base_ok type_n (fst fa))"

lemma toword_less:
  assumes "toword p = Some v"
  shows "v < 65536"
proof -
  have "v = le_nat (take 2 p)" "length (take 2 p) = 2" using assms by (auto simp: toword_def split: if_splits)
  then show ?thesis using le_nat_less [of "take 2 p"] by simp
qed

lemma field_attribute_ok:
  assumes "reading_ok type_n tag0 fa" "tag0 < tag" "0 \<le> value" "field_attribute type_n tag value fa = Some fa'" "value < 32767"
  shows "reading_ok type_n tag fa'"
proof -
  obtain f arr where fa: "fa = (f, arr)" by (cases fa)
  have arr: "arr \<in> {0, SPROTO_TARRAY}" and less: "sf_tag f < 32767" and st: "sf_st f \<noteq> None \<longrightarrow> 2 \<le> tag0"
    and ty: "(sf_type f = - 1 \<and> sf_st f = None) \<or> base_ok type_n f" using assms(1) by (auto simp: reading_ok_def fa)
  note run = assms(4) [unfolded field_attribute_def fa Let_def prod.case]
  have keep: "reading_ok type_n tag (g, arr')" if "sf_type g = sf_type f" "sf_st g = sf_st f" "arr' \<in> {0, SPROTO_TARRAY}" "sf_tag g < 32767" for g arr'
    using that st ty assms(2) by (auto simp: reading_ok_def base_ok_def)
  consider "tag = 1" | "tag = 2" | "tag \<noteq> 1" "tag \<noteq> 2" by blast
  then show ?thesis
  proof cases
    case 1
    with run have "fa' = (f\<lparr>sf_type := value\<rparr>, arr)" "value < SPROTO_TSTRUCT" by (simp_all split: if_splits)
    moreover have "value \<in> {0, 1, 2, 3}" using calculation(2) assms(3) by (auto simp: sproto_types)
    moreover have "sf_st f = None" using st assms(2) 1 by auto
    ultimately show ?thesis using arr less by (auto simp: reading_ok_def base_ok_def sproto_types)
  next
    case 2
    show ?thesis
    proof (cases "sf_type f = SPROTO_TINTEGER \<or> sf_type f = SPROTO_TSTRING")
      case True
      with run 2 obtain e where "fa' = (f\<lparr>sf_extra := e\<rparr>, arr)" by (auto split: if_splits)
      with keep arr less show ?thesis by simp
    next
      case False
      with run 2 have r: "fa' = (f\<lparr>sf_type := SPROTO_TSTRUCT, sf_st := Some (nat value)\<rparr>, arr)" "value < int type_n"
        by (simp_all split: if_splits)
      then have "nat value < type_n" using assms(3) by linarith
      with r arr less 2 show ?thesis by (simp add: reading_ok_def base_ok_def)
    qed
  next
    case 3
    with run obtain g arr' where "fa' = (g, arr')" "sf_type g = sf_type f" "sf_st g = sf_st f" "arr' = arr \<or> arr' = SPROTO_TARRAY"
      "sf_tag g = sf_tag f \<or> sf_tag g = value" by (auto split: if_splits)
    with keep arr less assms(5) show ?thesis by auto
  qed
qed

lemma field_loop_ok:
  assumes "reading_ok type_n tag fa" "field_loop type_n k words data tag fa = Some (Some fa')"
  shows "\<exists>tag'. reading_ok type_n tag' fa'"
  using assms
proof (induction k arbitrary: words tag fa)
  case (Suc k)
  from Suc.prems(2) obtain v where v: "toword words = Some v" by (auto split: bind_splits)
  have mono: "reading_ok type_n t fa" if "tag \<le> t" for t using Suc.prems(1) that by (auto simp: reading_ok_def)
  show ?case
  proof (cases "odd v")
    case True
    with Suc.prems(2) v have "field_loop type_n k (drop SIZEOF_FIELD words) data (tag + 1 + int (v div 2)) fa = Some (Some fa')" by simp
    moreover have "reading_ok type_n (tag + 1 + int (v div 2)) fa" by (rule mono) simp
    ultimately show ?thesis using Suc.IH by blast
  next
    case even: False
    show ?thesis
    proof (cases "tag + 1 = 0")
      case True
      with Suc.prems(2) v even obtain name where
        "field_loop type_n k (drop SIZEOF_FIELD words) data (tag + 1) ((fst fa)\<lparr>sf_name := Some name\<rparr>, snd fa) = Some (Some fa')"
        by (auto split: if_splits bind_splits)
      moreover have "reading_ok type_n (tag + 1) ((fst fa)\<lparr>sf_name := Some name\<rparr>, snd fa)"
        using mono [of "tag + 1"] by (auto simp: reading_ok_def base_ok_def)
      ultimately show ?thesis using Suc.IH by blast
    next
      case False
      with Suc.prems(2) v even obtain fa1 where a: "field_attribute type_n (tag + 1) (int (v div 2) - 1) fa = Some fa1" "v \<noteq> 0"
        "field_loop type_n k (drop SIZEOF_FIELD words) data (tag + 1) fa1 = Some (Some fa')"
        by (auto simp: Let_def split: if_splits option.splits)
      from even a(2) have "0 \<le> int (v div 2) - 1" by (cases v) auto
      moreover have "int (v div 2) - 1 < 32767" using toword_less [OF v] by linarith
      ultimately have "reading_ok type_n (tag + 1) fa1" using field_attribute_ok [OF Suc.prems(1) _ _ a(1)] by simp
      with a(3) Suc.IH show ?thesis by blast
    qed
  qed
qed auto

lemma import_field_ok:
  assumes "import_field type_n stream = Some (Some (f, rest))"
  shows "field_ok type_n f"
proof -
  from assms obtain k words data f0 arr where l: "field_loop type_n k words data (- 1) (empty_field, 0) = Some (Some (f0, arr))"
    and f: "\<not> (sf_tag f0 < 0 \<or> sf_type f0 < 0 \<or> sf_name f0 = None)" "f = f0\<lparr>sf_type := or (sf_type f0) arr\<rparr>"
    by (auto simp: import_field_def Let_def split: bind_splits if_splits option.splits)
  have "reading_ok type_n (- 1) (empty_field, 0)" by (simp add: reading_ok_def empty_field_def)
  from field_loop_ok [OF this l] obtain t where r: "reading_ok type_n t (f0, arr)" ..
  with f(1) have b: "base_ok type_n f0" "arr = 0 \<or> arr = SPROTO_TARRAY" by (auto simp: reading_ok_def)
  have "base_ok type_n (f\<lparr>sf_type := sf_type f0\<rparr>)" using b(1) f(2) by (simp add: base_ok_def)
  moreover have "sf_type f = sf_type f0 \<or> sf_type f = or (sf_type f0) SPROTO_TARRAY" using b(2) f(2) by auto
  moreover have "0 \<le> sf_tag f \<and> sf_tag f < 32767 \<and> sf_name f \<noteq> None" using f r by (simp add: reading_ok_def)
  ultimately show ?thesis unfolding field_ok_def by blast
qed

lemma import_fields_ok:
  assumes "import_fields type_n k stream prev maxn = Some (Some (fs, maxn'))"
  shows "length fs = k \<and> (\<forall>f\<in>set fs. field_ok type_n f \<and> prev < sf_tag f) \<and> sorted_wrt (<) (map sf_tag fs) \<and> maxn' = maxn + gaps prev fs"
  using assms
proof (induction k arbitrary: stream prev maxn fs)
  case (Suc k)
  from Suc.prems obtain f rest fs1 where f: "import_field type_n stream = Some (Some (f, rest))" "prev < sf_tag f" "fs = f # fs1"
    and r: "import_fields type_n k rest (sf_tag f) (if sf_tag f > prev + 1 then maxn + 1 else maxn) = Some (Some (fs1, maxn'))"
    by (auto split: bind_splits option.splits if_splits)
  from Suc.IH [OF r] import_field_ok [OF f(1)] f(2) show ?case unfolding f(3) by (auto split: if_splits)
qed auto

lemma sorted_tags_gap:
  assumes "sorted_wrt (<) (map sf_tag fs)" "i \<le> j" "j < length fs"
  shows "sf_tag (fs ! i) + int (j - i) \<le> sf_tag (fs ! j)"
  using assms(2,3)
proof (induction j)
  case (Suc j)
  show ?case
  proof (cases "i = Suc j")
    case False
    with Suc have "sf_tag (fs ! i) + int (j - i) \<le> sf_tag (fs ! j)" by simp
    moreover have "sf_tag (fs ! j) < sf_tag (fs ! Suc j)" using assms(1) Suc.prems(2) by (simp add: sorted_wrt_iff_nth_less)
    ultimately show ?thesis using False Suc.prems(1) by (simp add: Suc_diff_le)
  qed simp
qed simp

lemma import_type_ok:
  assumes "import_type type_n stream = Some (Some (t, rest))"
  shows "type_ok type_n t"
proof -
  from assms consider (short) "st_n t = 0" "st_f t = []" "st_maxn t = 0" "st_base t = 0"
    | (long) name n fs maxn stream' where "import_fields type_n n stream' (- 1) n = Some (Some (fs, maxn))" "type_of_fields name n maxn fs = Some t"
    by (auto simp: import_type_def Let_def split: bind_splits if_splits option.splits)
  then show ?thesis
  proof cases
    case short
    then show ?thesis by (simp add: type_ok_def)
  next
    case long
    from import_fields_ok [OF long(1)] have fs: "length fs = n" "\<forall>f\<in>set fs. field_ok type_n f \<and> - 1 < sf_tag f"
      "sorted_wrt (<) (map sf_tag fs)" "maxn = n + gaps (- 1) fs" by auto
    let ?first = "fs ! 0" and ?final = "fs ! (n - 1)"
    from long(2) fs(1) have n: "0 < n" and t: "st_n t = n" "st_f t = fs" "st_maxn t = maxn"
      "st_base t = (if sf_tag ?final - sf_tag ?first + 1 \<noteq> int n then - 1 else sf_tag ?first)"
      by (auto simp: type_of_fields_def array_get_Some split: bind_splits if_splits)
    have first: "- 1 < sf_tag ?first" using fs(1,2) n by simp
    have "sf_tag (fs ! i) = sf_tag ?first + int i" if "sf_tag ?final - sf_tag ?first + 1 = int n" "i < n" for i
    proof -
      have "sf_tag (fs ! 0) + int i \<le> sf_tag (fs ! i)" using sorted_tags_gap [OF fs(3), of 0 i] that(2) fs(1) by simp
      moreover have "sf_tag (fs ! i) + int (n - 1 - i) \<le> sf_tag (fs ! (n - 1))"
        using sorted_tags_gap [OF fs(3), of i "n - 1"] that(2) fs(1) by simp
      ultimately show ?thesis using that by linarith
    qed
    note tags = this
    show ?thesis unfolding type_ok_def
    proof (intro conjI)
      show "0 \<le> st_base t \<longrightarrow> (\<forall>i < st_n t. sf_tag (st_f t ! i) = st_base t + int i)"
      proof (intro impI allI)
        fix i assume "0 \<le> st_base t" "i < st_n t"
        then show "sf_tag (st_f t ! i) = st_base t + int i" using tags [of i] unfolding t by (simp split: if_splits)
      qed
      show "- 1 \<le> st_base t" using first unfolding t by simp
      show "\<forall>f\<in>set (st_f t). field_ok type_n f" using fs(2) unfolding t by blast
    qed (use t fs in simp_all)
  qed
qed

lemma import_types_ok:
  "import_types type_n k stream = Some (Some ts) \<Longrightarrow> length ts = k \<and> (\<forall>t\<in>set ts. type_ok type_n t)"
proof (induction k arbitrary: stream ts)
  case (Suc k)
  from Suc.prems obtain t rest ts1 where "import_type type_n stream = Some (Some (t, rest))" "import_types type_n k rest = Some (Some ts1)" "ts = t # ts1"
    by (auto split: bind_splits option.splits)
  with Suc.IH import_type_ok show ?case by auto
qed simp

definition protocol_ok :: "nat \<Rightarrow> sproto_protocol \<Rightarrow> bool" where
  "protocol_ok type_n p \<longleftrightarrow> pr_name p \<noteq> None \<and> 0 \<le> pr_tag p \<and> (\<forall>i. pr_request p = Some i \<or> pr_response p = Some i \<longrightarrow> i < type_n)"

lemma protocol_loop_ok:
  assumes "protocol_loop type_n k i words data p = Some (Some p')" "\<forall>i. pr_request p = Some i \<or> pr_response p = Some i \<longrightarrow> i < type_n"
  shows "\<forall>i. pr_request p' = Some i \<or> pr_response p' = Some i \<longrightarrow> i < type_n"
  using assms
proof (induction k arbitrary: i words p)
  case (Suc k)
  from Suc.prems(1) obtain i' words' q where "protocol_loop type_n k i' words' data q = Some (Some p')"
    "\<forall>i. pr_request q = Some i \<or> pr_response q = Some i \<longrightarrow> i < type_n"
    using Suc.prems(2) by (auto simp: Let_def split: bind_splits if_splits)
  with Suc.IH show ?case by blast
qed simp


lemma import_protocols_ok:
  "import_protocols type_n k stream = Some (Some ps) \<Longrightarrow> \<forall>p\<in>set ps. protocol_ok type_n p"
proof (induction k arbitrary: stream ps)
  case (Suc k)
  from Suc.prems obtain p rest ps1 where p: "import_protocol type_n stream = Some (Some (p, rest))"
    "import_protocols type_n k rest = Some (Some ps1)" "ps = p # ps1" by (auto split: bind_splits option.splits)
  let ?p0 = "\<lparr>pr_name = None, pr_tag = - 1, pr_confirm = 0, pr_request = None, pr_response = None\<rparr>"
  from p(1) obtain n words data where l: "protocol_loop type_n n 0 words data ?p0 = Some (Some p)" and c: "pr_name p \<noteq> None" "0 \<le> pr_tag p"
    by (auto simp: import_protocol_def Let_def split: bind_splits option.splits if_splits)
  from protocol_loop_ok [OF l] have "\<forall>i. pr_request p = Some i \<or> pr_response p = Some i \<longrightarrow> i < type_n" by simp
  with c have "protocol_ok type_n p" unfolding protocol_ok_def by blast
  with p Suc.IH show ?case by auto
qed simp

lemma sproto_create_ok:
  assumes "sproto_create bundle = Some (Some sp)"
  shows "(\<forall>t\<in>set (sp_type sp). type_ok (length (sp_type sp)) t) \<and> (\<forall>p\<in>set (sp_proto sp). protocol_ok (length (sp_type sp)) p)"
proof -
  from assms obtain rs where "import_all rs = Some (Some sp)"
    by (auto simp: sproto_create_def create_from_bundle_def Let_def split: bind_splits option.splits if_splits)
  moreover obtain n typedata where "(if length rs > 0 then rs ! 0 else (0, [])) = (n, typedata)" by (rule prod.exhaust)
  moreover obtain m protocoldata where "(if length rs > 1 then rs ! 1 else (0, [])) = (m, protocoldata)" by (rule prod.exhaust)
  ultimately obtain ts ps where
    "import_types n n typedata = Some (Some ts)" "import_protocols n m protocoldata = Some (Some ps)" "sp = \<lparr>sp_type = ts, sp_proto = ps\<rparr>"
    unfolding import_all_def Let_def by (auto simp del: import_types.simps import_protocols.simps split: bind_splits option.splits)
  with import_types_ok [of n n typedata ts] import_protocols_ok [of n m protocoldata ps] show ?thesis by simp
qed

text \<open>The words of a record fit into its header, and each skipped number of tags into its word.\<close>

lemma gaps_bound:
  assumes "sorted_wrt (<) (prev # map sf_tag fs)" "\<forall>f\<in>set fs. sf_tag f \<le> bound" "prev \<le> bound"
  shows "int (length fs + gaps prev fs) \<le> bound - prev"
  using assms
proof (induction fs arbitrary: prev)
  case (Cons f fs)
  have "int (length fs + gaps (sf_tag f) fs) \<le> bound - sf_tag f" by (rule Cons.IH) (use Cons.prems in auto)
  with Cons.prems(1) show ?case by simp
qed simp

lemma type_ok_maxn:
  assumes "type_ok n t"
  shows "st_maxn t < 65536"
proof -
  have tags: "sf_tag f \<le> 32766" "- 1 < sf_tag f" if "f \<in> set (st_f t)" for f using assms that by (fastforce simp: type_ok_def field_ok_def)+
  have "sorted_wrt (<) (- 1 # map sf_tag (st_f t))" using assms tags(2) by (simp add: type_ok_def)
  from gaps_bound [OF this, of 32766] tags(1) assms show ?thesis by (simp add: type_ok_def)
qed

lemma findtag_ok:
  assumes "type_ok type_n t"
  shows "findtag t tag = Some (find (\<lambda>f. sf_tag f = tag) (st_f t))"
proof (cases "0 \<le> st_base t")
  case True
  with assms have tags: "sf_tag (st_f t ! i) = st_base t + int i" if "i < length (st_f t)" for i using that by (simp add: type_ok_def)
  have n: "st_n t = length (st_f t)" using assms by (simp add: type_ok_def)
  show ?thesis
  proof (cases "tag - st_base t < 0 \<or> tag - st_base t \<ge> int (st_n t)")
    case out: True
    have "sf_tag f \<noteq> tag" if "f \<in> set (st_f t)" for f
    proof -
      from that obtain i where i: "i < length (st_f t)" "st_f t ! i = f" by (auto simp: in_set_conv_nth)
      with tags [OF i(1)] out n show ?thesis by auto
    qed
    then have "find (\<lambda>f. sf_tag f = tag) (st_f t) = None" by (simp add: find_None_iff)
    with True out show ?thesis by (simp add: findtag_def Let_def)
  next
    case False
    define i where "i = nat (tag - st_base t)"
    have i: "i < length (st_f t)" "tag = st_base t + int i" using False n by (auto simp: i_def)
    have "\<forall>j<i. sf_tag (st_f t ! j) \<noteq> tag"
    proof (intro allI impI)
      fix j assume "j < i"
      with i tags [of j] show "sf_tag (st_f t ! j) \<noteq> tag" by simp
    qed
    moreover have "sf_tag (st_f t ! i) = tag" using tags [OF i(1)] i(2) by simp
    ultimately have "find (\<lambda>f. sf_tag f = tag) (st_f t) = Some (st_f t ! i)" using i(1) unfolding find_Some_iff by blast
    with True False i(1) show ?thesis by (simp add: findtag_def Let_def flip: i_def)
  qed
next
  case False
  with assms tag_search_find [of sf_tag "st_f t" tag] show ?thesis by (simp add: findtag_def type_ok_def)
qed

lemma query_proto_ok:
  assumes "sorted_wrt (<) (map pr_tag (sp_proto sp))"
  shows "query_proto sp tag = Some (find (\<lambda>p. pr_tag p = tag) (sp_proto sp))"
  unfolding query_proto_def by (rule tag_search_find [OF assms])

lemma calc_pow_ok: "calc_pow base n = base ^ n"
proof (induction base n rule: calc_pow.induct)
  case (1 base n)
  show ?case
  proof (cases "n = 0")
    case False
    then have "calc_pow (base * base) (n div 2) = (base * base) ^ (n div 2)" using 1 by blast
    also have "\<dots> = base ^ (2 * (n div 2))" by (simp add: power_mult power2_eq_square)
    finally have r: "calc_pow (base * base) (n div 2) = base ^ (2 * (n div 2))" .
    show ?thesis
    proof (cases "odd n")
      case True
      then have "n = Suc (2 * (n div 2))" by simp
      then have "base ^ n = base ^ (2 * (n div 2)) * base" by (metis power_Suc2)
      with r True False show ?thesis by (subst calc_pow.simps) (simp add: Let_def)
    next
      case even: False
      with r False show ?thesis by (subst calc_pow.simps) (simp add: Let_def)
    qed
  qed (simp add: calc_pow.simps)
qed

subsection \<open>Properties\<close>

text \<open>A bundle with a type \<^verbatim>\<open>a\<close> that has the integer \<^verbatim>\<open>x\<close> with the tag 0.\<close>

definition demo_bundle :: "u8 list" where
  "demo_bundle = [1, 0, 0, 0, 38, 0, 0, 0, 34, 0, 0, 0, 2, 0, 0, 0, 0, 0, 1, 0, 0, 0, 97, 19, 0, 0, 0, 15, 0, 0, 0,
     4, 0, 0, 0, 2, 0, 1, 0, 2, 0, 1, 0, 0, 0, 120]"

lemma demo_create: "sproto_create demo_bundle = Some (Some \<lparr>sp_type = [\<lparr>st_name = [97], st_n = 1, st_base = 0, st_maxn = 1,
    st_f = [\<lparr>sf_tag = 0, sf_type = 0, sf_name = Some [120], sf_st = None, sf_key = - 1, sf_map = - 1, sf_extra = 0\<rparr>]\<rparr>], sp_proto = []\<rparr>)"
  by code_simp

text \<open>Property C35: a schema that is accepted is well-formed, whatever the bytes of the bundle are: the fields of each type have ascending tags, a
  name and one of the known types, the types they and the protocols refer to exist, \<^verbatim>\<open>maxn\<close> counts the fields and the gaps between their tags,
  and a type has a base exactly when its tags follow each other without a gap. So looking up a tag, with or without a base, finds the field
  with this tag, if the type has one, and never reads outside of the array of fields.\<close>

theorem sproto_create_wellformed:
  assumes "sproto_create bundle = Some (Some sp)" "t \<in> set (sp_type sp)"
  shows "type_ok (length (sp_type sp)) t \<and> findtag t tag = Some (find (\<lambda>f. sf_tag f = tag) (st_f t))"
  using sproto_create_ok [OF assms(1)] assms(2) findtag_ok by blast

theorem sproto_create_wellformed_witness:
  "\<exists>sp t. sproto_create demo_bundle = Some (Some sp) \<and> t \<in> set (sp_type sp) \<and> type_ok 1 t \<and> findtag t 5 = Some None"
  using sproto_create_wellformed [OF demo_create, of "\<lparr>st_name = [97], st_n = 1, st_base = 0, st_maxn = 1,
    st_f = [\<lparr>sf_tag = 0, sf_type = 0, sf_name = Some [120], sf_st = None, sf_key = - 1, sf_map = - 1, sf_extra = 0\<rparr>]\<rparr>" 5] demo_create
  by simp

text \<open>A type whose array of fields is empty makes the code read the field before the array.\<close>

definition no_fields_bundle :: "u8 list" where
  "no_fields_bundle = [1, 0, 0, 0, 19, 0, 0, 0, 15, 0, 0, 0, 2, 0, 0, 0, 0, 0, 1, 0, 0, 0, 97, 0, 0, 0, 0]"

lemma sproto_no_fields: "sproto_create no_fields_bundle = None"
  by code_simp


text \<open>An element of an array with the length \<open>0xfffffffc\<close> takes no bytes: the loop that counts the elements stays where it is.\<close>

lemma count_array_hangs: "count_array ([8, 0, 0, 0, 0xfc, 0xff, 0xff, 0xff] @ r) = None"
proof -
  have stays: "4 \<le> len \<longrightarrow> todword stream \<noteq> Some 0xfffffffc" if "count_loop len stream n = Some y" for len stream n y
  proof (rule count_loop.raw_induct [OF _ that])
    fix loop len stream n r
    assume IH: "\<And>len stream n y. loop len stream n = Some y \<Longrightarrow> 4 \<le> len \<longrightarrow> todword stream \<noteq> Some 0xfffffffc"
      and run: "(if 0 < len then if len < word_of_nat SIZEOF_LENGTH then Some (- 1)
          else todword stream \<bind> (\<lambda>nsz. let nsz = nsz + word_of_nat SIZEOF_LENGTH in
            if len < nsz then Some (- 1) else loop (len - nsz) (drop (unat nsz) stream) (n + 1)) else Some n) = Some r"
    show "4 \<le> len \<longrightarrow> todword stream \<noteq> Some 0xfffffffc"
    proof (intro impI notI)
      assume len: "4 \<le> len" and w: "todword stream = Some 0xfffffffc"
      have "0 < len" using len by (rule less_le_trans [rotated]) simp
      have z: "(4294967296 :: u32) = 0" by simp
      from run len w \<open>0 < len\<close> have "loop len stream (n + 1) = Some r" by (simp add: z SIZEOF_LENGTH_def split: if_splits)
      with IH len w show False by blast
    qed
  qed
  have "todword ([8, 0, 0, 0, 0xfc, 0xff, 0xff, 0xff] @ r) = Some 8" "todword ([0xfc, 0xff, 0xff, 0xff] @ r) = Some 0xfffffffc"
    by (simp_all add: todword_def)
  with stays [of 8 "[0xfc, 0xff, 0xff, 0xff] @ r" 0] show ?thesis by (cases "count_loop 8 ([0xfc, 0xff, 0xff, 0xff] @ r) 0") (simp_all add: count_array_def SIZEOF_LENGTH_def)
qed

text \<open>A protocol \<^verbatim>\<open>p\<close> with the tag 1 and \<^verbatim>\<open>confirm\<close>, the request and the response skipped in one word, is read as one with a response.\<close>

definition confirm_bundle :: "u8 list" where
  "confirm_bundle = [2, 0, 0, 0, 0, 0] @ drop 4 demo_bundle @ [19, 0, 0, 0, 15, 0, 0, 0, 4, 0, 0, 0, 4, 0, 3, 0, 2, 0, 1, 0, 0, 0, 112]"

lemma confirm_read_as_response: "map_option (map_option (map pr_response \<circ> sp_proto)) (sproto_create confirm_bundle) = Some (Some [Some 0])"
  by code_simp

end
