(* ===== verification/Sproto_Wire.thy ===== *)
theory Sproto_Wire
  imports Sproto_Schema
begin

text \<open>
  Encoding and decoding in \<^verbatim>\<open>lualib-src/sproto/sproto.c\<close>. Both work through a callback: when a message is encoded it gives the values, when
  one is decoded it gets them.

  A function that writes into a buffer is modelled by the bytes it writes and by the room it has. The results of a function: a value, the result
  -1, an error that the callback raises in Lua and that leaves the function, and \<open>Bad\<close>, which is a read or write outside of a buffer or a
  failed assertion.
\<close>

datatype ('e, 'a) run = Ret 'a | Minus | Raise 'e | Bad

definition rbind :: "('e, 'a) run \<Rightarrow> ('a \<Rightarrow> ('e, 'b) run) \<Rightarrow> ('e, 'b) run" where
  "rbind m f = (case m of Ret x \<Rightarrow> f x | Minus \<Rightarrow> Minus | Raise e \<Rightarrow> Raise e | Bad \<Rightarrow> Bad)"

lemma rbind_simps [simp]: "rbind (Ret x) f = f x" "rbind Minus f = Minus" "rbind (Raise e) f = Raise e" "rbind Bad f = Bad"
  by (simp_all add: rbind_def)

lemma rbind_Ret: "rbind m f = Ret y \<longleftrightarrow> (\<exists>x. m = Ret x \<and> f x = Ret y)"
  by (cases m) simp_all

definition from_read :: "'a option \<Rightarrow> ('e, 'a) run" where
  "from_read r = (case r of None \<Rightarrow> Bad | Some x \<Rightarrow> Ret x)"

lemma from_read_simps [simp]: "from_read None = Bad" "from_read (Some x) = Ret x"
  by (simp_all add: from_read_def)

record sproto_arg =
  ar_tagname :: "u8 list option"
  ar_tagid :: int
  ar_type :: int
  ar_subtype :: "nat option"
  ar_value :: "u8 list"
  ar_length :: int
  ar_index :: int
  ar_mainindex :: int
  ar_extra :: int
  ar_ktagname :: "u8 list option"
  ar_vtagname :: "u8 list option"

definition SIZEOF_INT32 :: nat where "SIZEOF_INT32 = 4"
definition SIZEOF_INT64 :: nat where "SIZEOF_INT64 = 8"

lemmas sproto_sizes = SIZEOF_LENGTH_def SIZEOF_HEADER_def SIZEOF_FIELD_def SIZEOF_INT32_def SIZEOF_INT64_def

definition is_array :: "sproto_field \<Rightarrow> bool" where
  "is_array f \<longleftrightarrow> and (sf_type f) SPROTO_TARRAY \<noteq> 0"

definition element_type :: "sproto_field \<Rightarrow> int" where
  "element_type f = and (sf_type f) (not SPROTO_TARRAY)"

text \<open>The arguments for a field; for a map also the names of the two fields of its type.\<close>

definition field_name :: "sproto_type list \<Rightarrow> sproto_field \<Rightarrow> nat \<Rightarrow> u8 list option option" where
  "field_name types f i = do {
     k \<leftarrow> sf_st f;
     st \<leftarrow> array_get types k;
     g \<leftarrow> array_get (st_f st) i;
     Some (sf_name g) }"

definition field_arg :: "sproto_field \<Rightarrow> sproto_arg" where
  "field_arg f = \<lparr>ar_tagname = sf_name f, ar_tagid = sf_tag f, ar_type = sf_type f, ar_subtype = sf_st f, ar_value = [], ar_length = 0,
     ar_index = 0, ar_mainindex = sf_key f, ar_extra = sf_extra f, ar_ktagname = None, ar_vtagname = None\<rparr>"

definition array_arg :: "sproto_type list \<Rightarrow> sproto_field \<Rightarrow> ('e, sproto_arg) run" where
  "array_arg types f = (let args = (field_arg f)\<lparr>ar_type := element_type f\<rparr> in
     if sf_map f > 0 then
       rbind (from_read (field_name types f 0)) (\<lambda>k. rbind (from_read (field_name types f 1)) (\<lambda>v.
         Ret (args\<lparr>ar_ktagname := k, ar_vtagname := v\<rparr>)))
     else Ret args)"

subsection \<open>Encoding\<close>

text \<open>What the callback answers: one of the codes that are less than 0, or the bytes it has written at \<^verbatim>\<open>value\<close>, whose number is its result.\<close>

datatype cb_result = Cb_Error | Cb_Nil | Cb_Noarray | Cb_Bytes "u8 list"

type_synonym 'e enc_cb = "sproto_arg \<Rightarrow> ('e, cb_result) run"

definition fill_size :: "u8 list \<Rightarrow> u8 list" where
  "fill_size bs = le_bytes 4 (length bs) @ bs"

text \<open>A comparison with a \<^verbatim>\<open>sizeof\<close> is one of unsigned numbers of 64 bits.\<close>

definition encode_integer :: "nat \<Rightarrow> int \<Rightarrow> ('e, u8 list) run" where
  "encode_integer v sz = (if (word_of_int sz :: u64) < of_nat (SIZEOF_LENGTH + SIZEOF_INT32) then Minus else Ret (fill_size (le_bytes 4 v)))"

definition encode_uint64 :: "nat \<Rightarrow> int \<Rightarrow> ('e, u8 list) run" where
  "encode_uint64 v sz = (if (word_of_int sz :: u64) < of_nat (SIZEOF_LENGTH + SIZEOF_INT64) then Minus else Ret (fill_size (le_bytes 8 v)))"

text \<open>The empty list is the result 0.\<close>

definition encode_object :: "'e enc_cb \<Rightarrow> sproto_arg \<Rightarrow> int \<Rightarrow> ('e, u8 list) run" where
  "encode_object cb args sz =
     (if sz < int SIZEOF_LENGTH then Minus
      else rbind (cb (args\<lparr>ar_length := sz - int SIZEOF_LENGTH\<rparr>)) (\<lambda>r. case r of
        Cb_Nil \<Rightarrow> Ret []
      | Cb_Bytes bs \<Rightarrow> if int (length bs) \<le> sz - int SIZEOF_LENGTH then Ret (fill_size bs) else Bad
      | _ \<Rightarrow> Minus))"

definition uint32_to_uint64 :: "bool \<Rightarrow> u8 list" where
  "uint32_to_uint64 negative = (if negative then [0xff, 0xff, 0xff, 0xff] else [0, 0, 0, 0])"

text \<open>The numbers of 4 bytes that are in the buffer already become numbers of 8 bytes; the code moves the last one first.\<close>

fun rearrange :: "u8 list \<Rightarrow> u8 list" where
  "rearrange (a # b # c # d # bs) = [a, b, c, d] @ uint32_to_uint64 (bit d 7) @ rearrange bs"
| "rearrange bs = []"

text \<open>The loop over the numbers: \<open>out\<close> are the bytes behind the first one, which says the size of the numbers. The result is \<open>None\<close> when the
  callback says that there is no array.\<close>

function encode_integers :: "'e enc_cb \<Rightarrow> sproto_arg \<Rightarrow> int \<Rightarrow> nat \<Rightarrow> nat \<Rightarrow> u8 list \<Rightarrow> ('e, (nat \<times> u8 list) option) run" where
  "encode_integers cb args sz intlen index out = (case cb (args\<lparr>ar_length := 8, ar_index := int index\<rparr>) of
     Minus \<Rightarrow> Minus
   | Raise e \<Rightarrow> Raise e
   | Bad \<Rightarrow> Bad
   | Ret Cb_Nil \<Rightarrow> Ret (Some (intlen, out))
   | Ret Cb_Noarray \<Rightarrow> Ret None
   | Ret Cb_Error \<Rightarrow> Minus
   | Ret (Cb_Bytes bs) \<Rightarrow>
       if bs = [] \<or> sz < int SIZEOF_INT64 then Minus
       else if length bs = SIZEOF_INT32 then
         (if intlen = SIZEOF_INT64
          then encode_integers cb args (sz - int SIZEOF_INT64) intlen (index + 1) (out @ bs @ uint32_to_uint64 (bit (bs ! 3) 7))
          else encode_integers cb args (sz - int SIZEOF_INT32) intlen (index + 1) (out @ bs))
       else if length bs \<noteq> SIZEOF_INT64 then Minus
       else if intlen = SIZEOF_INT32 then
         (let sz = sz - int ((index - 1) * SIZEOF_INT32) in
          if sz < int SIZEOF_INT64 then Minus
          else encode_integers cb args (sz - int SIZEOF_INT64) SIZEOF_INT64 (index + 1) (rearrange out @ bs))
       else encode_integers cb args (sz - int SIZEOF_INT64) intlen (index + 1) (out @ bs))"
  by pat_completeness auto
termination by (relation "measure (\<lambda>(cb, args, sz, intlen, index, out). nat sz)") (auto simp: sproto_sizes)

declare encode_integers.simps [simp del]

definition encode_integer_array :: "'e enc_cb \<Rightarrow> sproto_arg \<Rightarrow> int \<Rightarrow> ('e, u8 list option) run" where
  "encode_integer_array cb args sz =
     (if sz < 1 then Minus
      else rbind (encode_integers cb args (sz - 1) SIZEOF_INT32 1 []) (\<lambda>r.
        Ret (map_option (\<lambda>(intlen, out). if out = [] then [] else of_nat intlen # out) r)))"

function encode_array_object :: "'e enc_cb \<Rightarrow> sproto_arg \<Rightarrow> int \<Rightarrow> int \<Rightarrow> u8 list \<Rightarrow> ('e, u8 list option) run" where
  "encode_array_object cb args sz index out =
     (if sz < int SIZEOF_LENGTH then Minus
      else let sz = sz - int SIZEOF_LENGTH in case cb (args\<lparr>ar_length := sz, ar_index := index\<rparr>) of
        Minus \<Rightarrow> Minus
      | Raise e \<Rightarrow> Raise e
      | Bad \<Rightarrow> Bad
      | Ret Cb_Nil \<Rightarrow> Ret (Some out)
      | Ret Cb_Noarray \<Rightarrow> Ret None
      | Ret Cb_Error \<Rightarrow> Minus
      | Ret (Cb_Bytes bs) \<Rightarrow>
          if int (length bs) > sz then Bad else encode_array_object cb args (sz - int (length bs)) (index + 1) (out @ fill_size bs))"
  by pat_completeness auto
termination by (relation "measure (\<lambda>(cb, args, sz, index, out). nat sz)") (auto simp: sproto_sizes)

declare encode_array_object.simps [simp del]

function encode_booleans :: "'e enc_cb \<Rightarrow> sproto_arg \<Rightarrow> int \<Rightarrow> int \<Rightarrow> u8 list \<Rightarrow> ('e, u8 list option) run" where
  "encode_booleans cb args sz index out = (case cb (args\<lparr>ar_length := 4, ar_index := index\<rparr>) of
     Minus \<Rightarrow> Minus
   | Raise e \<Rightarrow> Raise e
   | Bad \<Rightarrow> Bad
   | Ret Cb_Nil \<Rightarrow> Ret (Some out)
   | Ret Cb_Noarray \<Rightarrow> Ret None
   | Ret Cb_Error \<Rightarrow> Minus
   | Ret (Cb_Bytes bs) \<Rightarrow>
       if sz < 1 then Minus else encode_booleans cb args (sz - 1) (index + 1) (out @ [if le_nat bs \<noteq> 0 then 1 else 0]))"
  by pat_completeness auto
termination by (relation "measure (\<lambda>(cb, args, sz, index, out). nat sz)") auto

declare encode_booleans.simps [simp del]

definition encode_array :: "'e enc_cb \<Rightarrow> sproto_arg \<Rightarrow> int \<Rightarrow> ('e, u8 list) run" where
  "encode_array cb args sz =
     (if sz < int SIZEOF_LENGTH then Minus
      else let sz = sz - int SIZEOF_LENGTH in
        rbind (if ar_type args = SPROTO_TDOUBLE \<or> ar_type args = SPROTO_TINTEGER then encode_integer_array cb args sz
               else if ar_type args = SPROTO_TBOOLEAN then encode_booleans cb args sz 1 []
               else encode_array_object cb args sz 1 [])
          (\<lambda>r. Ret (case r of None \<Rightarrow> [] | Some out \<Rightarrow> fill_size out)))"

text \<open>The body of the loop of \<^verbatim>\<open>sproto_encode\<close>, up to the record: the value that goes into the record, or 0, and the bytes of the data. A field
  is left out when there are neither.\<close>

datatype enc_field = Skip | Whole_Empty | Value nat | Data "u8 list"

definition encode_field :: "sproto_type list \<Rightarrow> 'e enc_cb \<Rightarrow> sproto_field \<Rightarrow> int \<Rightarrow> ('e, enc_field) run" where
  "encode_field types cb f sz = (let data = (\<lambda>bs. Ret (if bs = [] then Skip else Data bs)) in
     if is_array f then rbind (array_arg types f) (\<lambda>args. rbind (encode_array cb args sz) data)
     else if sf_type f = SPROTO_TDOUBLE \<or> sf_type f = SPROTO_TINTEGER \<or> sf_type f = SPROTO_TBOOLEAN then
       rbind (cb ((field_arg f)\<lparr>ar_length := 8\<rparr>)) (\<lambda>r. case r of
         Cb_Nil \<Rightarrow> Ret Skip
       | Cb_Noarray \<Rightarrow> Ret Whole_Empty
       | Cb_Error \<Rightarrow> Minus
       | Cb_Bytes bs \<Rightarrow>
           if length bs = SIZEOF_INT32 then
             (if le_nat bs < 0x7fff then Ret (Value ((le_nat bs + 1) * 2)) else rbind (encode_integer (le_nat bs) sz) data)
           else if length bs = SIZEOF_INT64 then rbind (encode_uint64 (le_nat bs) sz) data
           else Minus)
     else if sf_type f = SPROTO_TSTRUCT \<or> sf_type f = SPROTO_TSTRING then rbind (encode_object cb (field_arg f) sz) data
     else Minus)"

text \<open>The state of the loop: the words of the record, the data, the room that is left, and the last tag. There is room for
  \<^verbatim>\<open>maxn\<close> words between the header and the data.\<close>

record enc_state =
  en_words :: "nat list"
  en_data :: "u8 list"
  en_size :: int
  en_lasttag :: int

definition add_record :: "nat \<Rightarrow> int \<Rightarrow> nat \<Rightarrow> u8 list \<Rightarrow> enc_state \<Rightarrow> ('e, enc_state) run" where
  "add_record maxn ftag v bs s = (let
     s = s\<lparr>en_data := en_data s @ bs, en_size := en_size s - int (length bs)\<rparr>;
     tag = ftag - en_lasttag s - 1; skip = (tag - 1) * 2 + 1 in
     if tag > 0 \<and> skip > 0xffff then Minus
     else let ws = en_words s @ (if tag > 0 then [nat skip] else []) @ [v] in
       if length ws > maxn then Bad else Ret (s\<lparr>en_words := ws, en_lasttag := ftag\<rparr>))"

fun encode_fields :: "sproto_type list \<Rightarrow> nat \<Rightarrow> 'e enc_cb \<Rightarrow> sproto_field list \<Rightarrow> enc_state \<Rightarrow> ('e, enc_state option) run" where
  "encode_fields types maxn cb [] s = Ret (Some s)"
| "encode_fields types maxn cb (f # fs) s = rbind (encode_field types cb f (en_size s)) (\<lambda>r. case r of
     Skip \<Rightarrow> encode_fields types maxn cb fs s
   | Whole_Empty \<Rightarrow> Ret None
   | Value v \<Rightarrow> rbind (add_record maxn (sf_tag f) v [] s) (encode_fields types maxn cb fs)
   | Data bs \<Rightarrow> rbind (add_record maxn (sf_tag f) 0 bs s) (encode_fields types maxn cb fs))"

definition sproto_encode :: "sproto_type list \<Rightarrow> sproto_type \<Rightarrow> int \<Rightarrow> 'e enc_cb \<Rightarrow> ('e, u8 list) run" where
  "sproto_encode types st sz cb = (let header_sz = SIZEOF_HEADER + st_maxn st * SIZEOF_FIELD in
     if sz < int header_sz then Minus
     else rbind (encode_fields types (st_maxn st) cb (take (st_n st) (st_f st))
         \<lparr>en_words = [], en_data = [], en_size = sz - int header_sz, en_lasttag = - 1\<rparr>) (\<lambda>r.
       Ret (case r of
         None \<Rightarrow> []
       | Some s \<Rightarrow> le_bytes 2 (length (en_words s)) @ concat (map (le_bytes 2) (en_words s)) @ en_data s)))"


subsection \<open>Decoding\<close>

text \<open>The callback has a state, into which it puts the values. \<open>ar_value\<close> is what follows the pointer \<^verbatim>\<open>value\<close> in memory.\<close>

type_synonym ('e, 's) dec_cb = "sproto_arg \<Rightarrow> 's \<Rightarrow> ('e, int \<times> 's) run"

definition expand64 :: "u32 \<Rightarrow> u64" where
  "expand64 v = (let value = ucast v in if value AND 0x80000000 \<noteq> 0 then value OR push_bit 32 (NOT 0) else value)"

text \<open>A call with a number of 64 bits, whose result is ignored.\<close>

definition give_number :: "('e, 's) dec_cb \<Rightarrow> sproto_arg \<Rightarrow> u64 \<Rightarrow> 's \<Rightarrow> ('e, 's) run" where
  "give_number cb args v s = rbind (cb (args\<lparr>ar_value := le_bytes 8 (unat v), ar_length := 8\<rparr>) s) (\<lambda>(r, s). Ret s)"

definition word64_at :: "u8 list \<Rightarrow> u64 option" where
  "word64_at stream = do {
     low \<leftarrow> todword stream;
     hi \<leftarrow> todword (drop SIZEOF_INT32 stream);
     Some (ucast low OR push_bit 32 (ucast hi)) }"

fun give_all :: "('e, 's) dec_cb \<Rightarrow> sproto_arg \<Rightarrow> (u8 list \<Rightarrow> u64 option) \<Rightarrow> nat \<Rightarrow> nat \<Rightarrow> u8 list \<Rightarrow> int \<Rightarrow> 's \<Rightarrow> ('e, 's) run" where
  "give_all cb args rd width 0 stream index s = Ret s"
| "give_all cb args rd width (Suc k) stream index s =
     rbind (from_read (rd stream)) (\<lambda>v.
     rbind (give_number cb (args\<lparr>ar_index := index\<rparr>) v s) (\<lambda>s.
       give_all cb args rd width k (drop width stream) (index + 1) s))"

function decode_array_object :: "('e, 's) dec_cb \<Rightarrow> sproto_arg \<Rightarrow> u8 list \<Rightarrow> int \<Rightarrow> int \<Rightarrow> 's \<Rightarrow> ('e, 's) run" where
  "decode_array_object cb args stream sz index s =
     (if sz > 0 then
        if sz < int SIZEOF_LENGTH then Minus
        else case todword stream of
          None \<Rightarrow> Bad
        | Some hsz \<Rightarrow>
            let stream = drop SIZEOF_LENGTH stream; sz = sz - int SIZEOF_LENGTH in
            if hsz > word_of_int sz then Minus
            else (case cb (args\<lparr>ar_index := index, ar_value := stream, ar_length := sint hsz\<rparr>) s of
              Minus \<Rightarrow> Minus
            | Raise e \<Rightarrow> Raise e
            | Bad \<Rightarrow> Bad
            | Ret (r, s) \<Rightarrow>
                if r \<noteq> 0 then Minus
                else decode_array_object cb args (drop (unat hsz) stream) (sz - int (unat hsz)) (index + 1) s)
      else Ret s)"
  by pat_completeness auto
termination by (relation "measure (\<lambda>(cb, args, stream, sz, index, s). nat sz)") (auto simp: sproto_sizes intro: less_le_trans [OF _ uint_nonnegative])

declare decode_array_object.simps [simp del]

definition byte_at :: "u8 list \<Rightarrow> u64 option" where
  "byte_at stream = (case stream of [] \<Rightarrow> None | b # _ \<Rightarrow> Some (ucast b))"

definition word32_at :: "u8 list \<Rightarrow> u64 option" where
  "word32_at stream = map_option expand64 (todword stream)"

definition decode_array :: "('e, 's) dec_cb \<Rightarrow> sproto_arg \<Rightarrow> u8 list \<Rightarrow> 's \<Rightarrow> ('e, 's) run" where
  "decode_array cb args stream s = rbind (from_read (todword stream)) (\<lambda>sz.
     if sz = 0 then rbind (cb (args\<lparr>ar_index := - 1, ar_value := [], ar_length := 0\<rparr>) s) (\<lambda>(r, s). Ret s)
     else let stream = drop SIZEOF_LENGTH stream in
       if ar_type args = SPROTO_TDOUBLE \<or> ar_type args = SPROTO_TINTEGER then
         (case stream of
            [] \<Rightarrow> Bad
          | b # stream \<Rightarrow> let sz = unat (sz - 1) in
              if unat b = SIZEOF_INT32 then
                (if sz mod SIZEOF_INT32 \<noteq> 0 then Minus else give_all cb args word32_at SIZEOF_INT32 (sz div SIZEOF_INT32) stream 1 s)
              else if unat b = SIZEOF_INT64 then
                (if sz mod SIZEOF_INT64 \<noteq> 0 then Minus else give_all cb args word64_at SIZEOF_INT64 (sz div SIZEOF_INT64) stream 1 s)
              else Minus)
       else if ar_type args = SPROTO_TBOOLEAN then give_all cb args byte_at 1 (unat sz) stream 1 s
       else if ar_type args = SPROTO_TSTRING \<or> ar_type args = SPROTO_TSTRUCT then decode_array_object cb args stream (sint sz) 1 s
       else Minus)"

text \<open>The body of the loop of \<^verbatim>\<open>sproto_decode\<close> for a field that the type has: \<open>value\<close> is the value in the record, or -1, and \<open>data\<close> the data.\<close>

definition decode_field :: "sproto_type list \<Rightarrow> ('e, 's) dec_cb \<Rightarrow> sproto_field \<Rightarrow> int \<Rightarrow> u8 list \<Rightarrow> 's \<Rightarrow> ('e, 's) run" where
  "decode_field types cb f value data s = (let args = field_arg f in
     if value < 0 then
       if is_array f then rbind (array_arg types f) (\<lambda>args. decode_array cb args data s)
       else if sf_type f = SPROTO_TDOUBLE \<or> sf_type f = SPROTO_TINTEGER then
         rbind (from_read (todword data)) (\<lambda>sz.
           if sz = of_nat SIZEOF_INT32 then rbind (from_read (word32_at (drop SIZEOF_LENGTH data))) (\<lambda>v. give_number cb args v s)
           else if sz \<noteq> of_nat SIZEOF_INT64 then Minus
           else rbind (from_read (word64_at (drop SIZEOF_LENGTH data))) (\<lambda>v. give_number cb args v s))
       else if sf_type f = SPROTO_TSTRING \<or> sf_type f = SPROTO_TSTRUCT then
         rbind (from_read (todword data)) (\<lambda>sz.
           rbind (cb (args\<lparr>ar_value := drop SIZEOF_LENGTH data, ar_length := sint sz\<rparr>) s) (\<lambda>(r, s). if r \<noteq> 0 then Minus else Ret s))
       else Minus
     else if sf_type f \<noteq> SPROTO_TINTEGER \<and> sf_type f \<noteq> SPROTO_TBOOLEAN then Minus
     else give_number cb args (word_of_int value) s)"

text \<open>The loop: the words that are left, the data, the number of bytes left, the tag. The result has the number of bytes left.\<close>

fun decode_words :: "sproto_type list \<Rightarrow> sproto_type \<Rightarrow> ('e, 's) dec_cb \<Rightarrow> nat \<Rightarrow> u8 list \<Rightarrow> u8 list \<Rightarrow> int \<Rightarrow> int \<Rightarrow> 's \<Rightarrow> ('e, int \<times> 's) run" where
  "decode_words types st cb 0 words datastream sz tag s = Ret (sz, s)"
| "decode_words types st cb (Suc k) words datastream sz tag s = rbind (from_read (toword words)) (\<lambda>v.
     let tag = tag + 1; words = drop SIZEOF_FIELD words in
     if odd v then decode_words types st cb k words datastream sz (tag + int (v div 2)) s
     else let value = int (v div 2) - 1 in
       rbind (if value < 0 then
           if sz < int SIZEOF_LENGTH then Minus
           else rbind (from_read (todword datastream)) (\<lambda>dsz. let n = dsz + of_nat SIZEOF_LENGTH in
             if (word_of_int sz :: u32) < n then Minus else Ret (drop (unat n) datastream, sz - int (unat n)))
         else Ret (datastream, sz)) (\<lambda>(rest, sz).
       rbind (from_read (findtag st tag)) (\<lambda>f. case f of
         None \<Rightarrow> decode_words types st cb k words rest sz tag s
       | Some f \<Rightarrow> rbind (decode_field types cb f value datastream s) (\<lambda>s. decode_words types st cb k words rest sz tag s))))"

definition sproto_decode :: "sproto_type list \<Rightarrow> sproto_type \<Rightarrow> u8 list \<Rightarrow> int \<Rightarrow> ('e, 's) dec_cb \<Rightarrow> 's \<Rightarrow> ('e, int \<times> 's) run" where
  "sproto_decode types st data sz cb s =
     (if sz < int SIZEOF_HEADER then Minus
      else rbind (from_read (toword data)) (\<lambda>fn.
        let total = sz; words = drop SIZEOF_HEADER data; sz = sz - int SIZEOF_HEADER in
        if sz < int (fn * SIZEOF_FIELD) then Minus
        else rbind (decode_words types st cb fn words (drop (fn * SIZEOF_FIELD) words) (sz - int (fn * SIZEOF_FIELD)) (- 1) s)
          (\<lambda>(left, s). Ret (total - left, s))))"

end
