(* ===== verification/Sproto_Pack.thy ===== *)
theory Sproto_Pack
  imports Skynet_Prelude
begin

text \<open>
  The packing of \<^verbatim>\<open>lualib-src/sproto/sproto.c\<close>, which leaves out bytes that are 0, and the functions \<^verbatim>\<open>pack\<close> and \<^verbatim>\<open>unpack\<close> of
  \<^verbatim>\<open>lsproto.c\<close> that give it its buffers. The input is cut into segments of 8 bytes. A segment becomes a byte that says which of its
  bytes are not 0, and these bytes; a run of segments without a 0 becomes the byte \<^verbatim>\<open>0xff\<close>, the number of segments, and the
  segments as they are.

  A buffer is a list of bytes, a pointer into it an index. \<open>None\<close> is a write outside of the buffer, or an \<^verbatim>\<open>int\<close> that leaves its range,
  which has no defined result in C: the size that \<^verbatim>\<open>sproto_unpack\<close> counts, and the size of a buffer that is doubled. The counters of
  \<^verbatim>\<open>sproto_pack\<close> are not bounded here; they stay below the size of the buffer it is given, 16 MB at most.
\<close>

subsection \<open>Packing\<close>

fun seg_loop :: "u8 list \<Rightarrow> nat \<Rightarrow> u8 \<Rightarrow> nat \<Rightarrow> u8 list \<Rightarrow> nat \<Rightarrow> int \<Rightarrow> (u8 \<times> nat \<times> u8 list) option" where
  "seg_loop [] i header notzero buf pos sz = Some (header, notzero, buf)"
| "seg_loop (b # bs) i header notzero buf pos sz =
     (if b = 0 then seg_loop bs (Suc i) header notzero buf pos sz
      else if sz > 0 then do {
        buf \<leftarrow> array_set buf pos b;
        seg_loop bs (Suc i) (header OR push_bit i 1) (Suc notzero) buf (Suc pos) (sz - 1) }
      else seg_loop bs (Suc i) (header OR push_bit i 1) (Suc notzero) buf pos sz)"

text \<open>\<^verbatim>\<open>pack_seg\<close>: the results are the number that the function returns and the buffer.\<close>

definition pack_seg :: "u8 list \<Rightarrow> u8 list \<Rightarrow> nat \<Rightarrow> int \<Rightarrow> nat \<Rightarrow> (nat \<times> u8 list) option" where
  "pack_seg src buf pos sz n = do {
     (header, notzero, buf) \<leftarrow> seg_loop src 0 0 0 buf (pos + 1) (sz - 1);
     let notzero = (if (notzero = 7 \<or> notzero = 6) \<and> n > 0 then 8 else notzero);
     if notzero = 8 then Some (if n > 0 then 8 else 10, buf)
     else do {
       buf \<leftarrow> (if sz - 1 < 0 then Some buf else array_set buf pos header);
       Some (notzero + 1, buf) } }"

fun write_bytes :: "u8 list \<Rightarrow> nat \<Rightarrow> u8 list \<Rightarrow> u8 list option" where
  "write_bytes buf pos [] = Some buf"
| "write_bytes buf pos (b # bs) = do { buf \<leftarrow> array_set buf pos b; write_bytes buf (Suc pos) bs }"

text \<open>\<^verbatim>\<open>write_ff\<close>: the source is the input from the first segment of the run on. It is no place of the input when the run starts in the copy
  of the last segment, where the code would compare pointers into different objects.\<close>

definition write_ff :: "u8 list \<Rightarrow> nat option \<Rightarrow> u8 list \<Rightarrow> nat \<Rightarrow> nat \<Rightarrow> u8 list option" where
  "write_ff input start buf des n = (case start of
     None \<Rightarrow> None
   | Some k \<Rightarrow> do {
       buf \<leftarrow> array_set buf des 0xff;
       buf \<leftarrow> array_set buf (des + 1) (of_nat (n - 1));
       let src = drop k input;
       write_bytes buf (des + 2) (if n * 8 \<le> length src then take (n * 8) src else src @ replicate (n * 8 - length src) 0) })"

record pack_state =
  pk_buffer :: "u8 list"
  pk_size :: nat
  pk_bufsz :: int
  pk_ff_start :: "nat option"
  pk_ff_des :: nat
  pk_ff_n :: nat

text \<open>What a round does with the run: it starts one, goes on with it, writes it when it has 256 segments, or writes it at its end.\<close>

definition pack_run :: "u8 list \<Rightarrow> pack_state \<Rightarrow> nat \<Rightarrow> nat option \<Rightarrow> pack_state option" where
  "pack_run input st n src = (
     let flush = (\<lambda>k. if pk_bufsz st \<ge> 0 then write_ff input (pk_ff_start st) (pk_buffer st) (pk_ff_des st) k else Some (pk_buffer st)) in
     if n = 10 then Some (st\<lparr>pk_ff_start := src, pk_ff_des := pk_size st, pk_ff_n := 1\<rparr>)
     else if n = 8 \<and> pk_ff_n st > 0 then
       (if pk_ff_n st + 1 = 256 then do { buf \<leftarrow> flush 256; Some (st\<lparr>pk_buffer := buf, pk_ff_n := 0\<rparr>) }
        else Some (st\<lparr>pk_ff_n := pk_ff_n st + 1\<rparr>))
     else if pk_ff_n st > 0 then do { buf \<leftarrow> flush (pk_ff_n st); Some (st\<lparr>pk_buffer := buf, pk_ff_n := 0\<rparr>) }
     else Some st)"

definition pack_round :: "u8 list \<Rightarrow> nat \<Rightarrow> pack_state \<Rightarrow> pack_state option" where
  "pack_round input i st = (
     let seg = take 8 (drop i input); padding = 8 - length seg;
         src = (if padding > 0 then None else Some i) in do {
     (n, buf) \<leftarrow> pack_seg (seg @ replicate padding 0) (pk_buffer st) (pk_size st) (pk_bufsz st) (pk_ff_n st);
     st \<leftarrow> pack_run input (st\<lparr>pk_buffer := buf, pk_bufsz := pk_bufsz st - int n\<rparr>) n src;
     Some (st\<lparr>pk_size := pk_size st + n\<rparr>) })"

fun pack_rounds :: "u8 list \<Rightarrow> nat \<Rightarrow> nat \<Rightarrow> pack_state \<Rightarrow> pack_state option" where
  "pack_rounds input 0 i st = Some st"
| "pack_rounds input (Suc k) i st = do { st \<leftarrow> pack_round input i st; pack_rounds input k (i + 8) st }"

text \<open>\<^verbatim>\<open>sproto_pack\<close>: the size of the result, and the buffer.\<close>

definition sproto_pack :: "u8 list \<Rightarrow> u8 list \<Rightarrow> int \<Rightarrow> (nat \<times> u8 list) option" where
  "sproto_pack input buf bufsz = do {
     st \<leftarrow> pack_rounds input ((length input + 7) div 8) 0
       \<lparr>pk_buffer = buf, pk_size = 0, pk_bufsz = bufsz, pk_ff_start = None, pk_ff_des = 0, pk_ff_n = 0\<rparr>;
     buf \<leftarrow> (if pk_bufsz st \<ge> 0 \<and> pk_ff_n st > 0 then write_ff input (pk_ff_start st) (pk_buffer st) (pk_ff_des st) (pk_ff_n st)
       else Some (pk_buffer st));
     Some (pk_size st, buf) }"

subsection \<open>Unpacking\<close>

text \<open>The position in the buffer, the room in it, which may be less than 0, and the size of the result. \<open>Inl ()\<close> is the result \<^verbatim>\<open>-1\<close>.\<close>

record unpack_state =
  up_buffer :: "u8 list"
  up_pos :: nat
  up_bufsz :: int
  up_size :: int

definition unpack_put :: "u8 \<Rightarrow> unpack_state \<Rightarrow> unpack_state option" where
  "unpack_put b st = do {
     c_assert (up_size st + 1 < 2 ^ 31);
     if up_bufsz st > 0 then do {
        buf \<leftarrow> array_set (up_buffer st) (up_pos st) b;
        Some (st\<lparr>up_buffer := buf, up_pos := up_pos st + 1, up_bufsz := up_bufsz st - 1, up_size := up_size st + 1\<rparr>) }
     else Some (st\<lparr>up_size := up_size st + 1\<rparr>) }"

fun unpack_seg :: "u8 \<Rightarrow> nat list \<Rightarrow> u8 list \<Rightarrow> unpack_state \<Rightarrow> (unit + u8 list \<times> unpack_state) option" where
  "unpack_seg header [] src st = Some (Inr (src, st))"
| "unpack_seg header (i # is) src st =
     (if bit header i then (case src of
        [] \<Rightarrow> Some (Inl ())
      | b # src \<Rightarrow> do { st \<leftarrow> unpack_put b st; unpack_seg header is src st })
      else do { st \<leftarrow> unpack_put 0 st; unpack_seg header is src st })"

definition unpack_ff :: "u8 list \<Rightarrow> unpack_state \<Rightarrow> (unit + u8 list \<times> unpack_state) option" where
  "unpack_ff src st = (case src of
     [] \<Rightarrow> Some (Inl ())
   | b # src \<Rightarrow> (let n = (unat b + 1) * 8 in
       if length src < n then Some (Inl ())
       else do {
         c_assert (up_size st + int n < 2 ^ 31);
         buf \<leftarrow> (if up_bufsz st \<ge> int n then write_bytes (up_buffer st) (up_pos st) (take n src) else Some (up_buffer st));
         Some (Inr (drop n src,
           st\<lparr>up_buffer := buf, up_pos := up_pos st + n, up_bufsz := up_bufsz st - int n, up_size := up_size st + int n\<rparr>)) }))"

lemma unpack_seg_length: "unpack_seg header is src st = Some (Inr (src', st')) \<Longrightarrow> length src' \<le> length src"
  by (induction header "is" src st rule: unpack_seg.induct) (fastforce split: if_splits list.splits bind_splits)+

lemma unpack_ff_length: "unpack_ff src st = Some (Inr (src', st')) \<Longrightarrow> length src' \<le> length src"
  by (auto simp: unpack_ff_def Let_def split: list.splits if_splits bind_splits)

function unpack_loop :: "u8 list \<Rightarrow> unpack_state \<Rightarrow> (unit + unpack_state) option" where
  "unpack_loop [] st = Some (Inr st)"
| "unpack_loop (header # src) st = (
     case (if header = 0xff then unpack_ff src st else unpack_seg header [0..<8] src st) of
       None \<Rightarrow> None
     | Some (Inl _) \<Rightarrow> Some (Inl ())
     | Some (Inr (src, st)) \<Rightarrow> unpack_loop src st)"
  by pat_completeness auto
termination by (relation "measure (\<lambda>(src, st). length src)")
  (auto split: if_splits dest: unpack_seg_length unpack_ff_length simp: less_Suc_eq_le)

text \<open>The size of the input is an \<^verbatim>\<open>int\<close>; nothing is read when it is negative. When the result is \<^verbatim>\<open>-1\<close> the buffer has to be forgotten.\<close>

definition sproto_unpack :: "u8 list \<Rightarrow> int \<Rightarrow> u8 list \<Rightarrow> int \<Rightarrow> (unit + int \<times> u8 list) option" where
  "sproto_unpack src srcsz buf bufsz = map_option (map_sum (\<lambda>_. ()) (\<lambda>st. (up_size st, up_buffer st)))
     (unpack_loop (take (nat srcsz) src) \<lparr>up_buffer = buf, up_pos = 0, up_bufsz = bufsz, up_size = 0\<rparr>)"

subsection \<open>The functions for Lua\<close>

text \<open>Each function keeps a buffer and replaces it by one of at least twice its size when it is too small. The first buffer has 2050 bytes.
  The parameter \<open>fresh\<close> is what the allocator returns for a size: a block of this size with any content. A \<^verbatim>\<open>size_t\<close> that becomes
  an \<^verbatim>\<open>int\<close> keeps its low 32 bits.\<close>

definition ENCODE_BUFFERSIZE :: nat where "ENCODE_BUFFERSIZE = 2050"
definition ENCODE_MAXSIZE :: nat where "ENCODE_MAXSIZE = 0x1000000"

definition c_int :: "nat \<Rightarrow> int" where
  "c_int n = sint (of_nat n :: u32)"

lemma c_int_id: "n < 2 ^ 31 \<Longrightarrow> c_int n = int n"
  unfolding c_int_def by (simp add: signed_of_nat signed_take_bit_int_eq_self)

datatype sproto_error = Too_Large | Packing_Error nat | Invalid_Unpack_Stream

partial_function (option) expand_size :: "int \<Rightarrow> int \<Rightarrow> int option" where
  "expand_size osz nsz = Option.bind (c_assert (osz * 2 < 2 ^ 31)) (\<lambda>_.
     if osz * 2 < nsz then expand_size (osz * 2) nsz else Some (osz * 2))"

definition expand_buffer :: "(nat \<Rightarrow> u8 list) \<Rightarrow> int \<Rightarrow> int \<Rightarrow> (sproto_error + u8 list) option" where
  "expand_buffer fresh osz nsz = do {
     sz \<leftarrow> expand_size osz nsz;
     Some (if sz > int ENCODE_MAXSIZE then Inl Too_Large else Inr (fresh (nat sz))) }"

text \<open>The results are the string or the error, and the buffer that the function keeps.\<close>

definition lsproto_pack :: "(nat \<Rightarrow> u8 list) \<Rightarrow> u8 list \<Rightarrow> u8 list \<Rightarrow> ((sproto_error + u8 list) \<times> u8 list) option" where
  "lsproto_pack fresh buf input = (
     let sz = length input; maxsz = (sz + 2047) div 2048 * 2 + sz + 2 in do {
     r \<leftarrow> (if length buf < maxsz then expand_buffer fresh (int (length buf)) (c_int maxsz) else Some (Inr buf));
     case r of
       Inl e \<Rightarrow> Some (Inl e, buf)
     | Inr buf \<Rightarrow> do {
         (bytes, buf) \<leftarrow> sproto_pack (take (nat (c_int sz)) input) buf (c_int maxsz);
         Some (if bytes > maxsz then Inl (Packing_Error bytes) else Inr (take bytes buf), buf) } })"

definition lsproto_unpack :: "(nat \<Rightarrow> u8 list) \<Rightarrow> u8 list \<Rightarrow> u8 list \<Rightarrow> ((sproto_error + u8 list) \<times> u8 list) option" where
  "lsproto_unpack fresh buf input = do {
     r \<leftarrow> sproto_unpack input (c_int (length input)) buf (int (length buf));
     case r of
       Inl _ \<Rightarrow> Some (Inl Invalid_Unpack_Stream, buf)
     | Inr (n, buf1) \<Rightarrow>
         if n \<le> int (length buf) then Some (Inr (take (nat n) buf1), buf1)
         else do {
           r \<leftarrow> expand_buffer fresh (int (length buf)) n;
           case r of
             Inl e \<Rightarrow> Some (Inl e, buf1)
           | Inr buf2 \<Rightarrow> do {
               r \<leftarrow> sproto_unpack input (c_int (length input)) buf2 n;
               Some (case r of Inl _ \<Rightarrow> (Inl Invalid_Unpack_Stream, buf2) | Inr (n, buf3) \<Rightarrow> (Inr (take (nat n) buf3), buf3)) } } }"

subsection \<open>The format\<close>

text \<open>Packing as a function on segments: \<open>ffs\<close> are the segments of the run so far.\<close>

definition nonzero :: "u8 list \<Rightarrow> u8 list" where
  "nonzero seg = filter (\<lambda>b. b \<noteq> 0) seg"

fun seg_header :: "nat \<Rightarrow> u8 list \<Rightarrow> u8" where
  "seg_header i [] = 0"
| "seg_header i (b # bs) = (if b = 0 then 0 else push_bit i 1) OR seg_header (Suc i) bs"

definition packed_seg :: "u8 list \<Rightarrow> u8 list" where
  "packed_seg seg = seg_header 0 seg # nonzero seg"

definition packed_ff :: "u8 list list \<Rightarrow> u8 list" where
  "packed_ff ffs = [0xff, of_nat (length ffs - 1)] @ concat ffs"

fun packed :: "u8 list list \<Rightarrow> u8 list list \<Rightarrow> u8 list" where
  "packed ffs [] = (if ffs = [] then [] else packed_ff ffs)"
| "packed ffs (seg # segs) =
     (if ffs = [] then (if length (nonzero seg) = 8 then packed [seg] segs else packed_seg seg @ packed [] segs)
      else if length (nonzero seg) \<ge> 6 then
        (if length ffs = 255 then packed_ff (ffs @ [seg]) @ packed [] segs else packed (ffs @ [seg]) segs)
      else packed_ff ffs @ packed_seg seg @ packed [] segs)"

text \<open>The segments of the input; the last one is filled up with 0.\<close>

definition segment :: "u8 list \<Rightarrow> u8 list" where
  "segment xs = take 8 xs @ replicate (8 - length xs) 0"

fun segments :: "nat \<Rightarrow> u8 list \<Rightarrow> u8 list list" where
  "segments 0 input = []"
| "segments (Suc k) input = segment input # segments k (drop 8 input)"

definition pack_spec :: "u8 list \<Rightarrow> u8 list" where
  "pack_spec input = packed [] (segments ((length input + 7) div 8) input)"

text \<open>Unpacking as a function on the input alone.\<close>

fun seg_bytes :: "u8 \<Rightarrow> nat list \<Rightarrow> u8 list \<Rightarrow> (u8 list \<times> u8 list) option" where
  "seg_bytes header [] src = Some ([], src)"
| "seg_bytes header (i # is) src =
     (if bit header i then (case src of
        [] \<Rightarrow> None
      | b # src \<Rightarrow> do { (bs, src) \<leftarrow> seg_bytes header is src; Some (b # bs, src) })
      else do { (bs, src) \<leftarrow> seg_bytes header is src; Some (0 # bs, src) })"

definition ff_bytes :: "u8 list \<Rightarrow> (u8 list \<times> u8 list) option" where
  "ff_bytes src = (case src of
     [] \<Rightarrow> None
   | b # src \<Rightarrow> (let n = (unat b + 1) * 8 in if length src < n then None else Some (take n src, drop n src)))"

lemma seg_bytes_length: "seg_bytes header is src = Some (bs, src') \<Longrightarrow> length src' \<le> length src \<and> length bs = length is"
  by (induction header "is" src arbitrary: bs src' rule: seg_bytes.induct) (fastforce split: if_splits list.splits bind_splits)+

lemma ff_bytes_length: "ff_bytes src = Some (bs, src') \<Longrightarrow> length src' \<le> length src"
  by (auto simp: ff_bytes_def Let_def split: list.splits if_splits)

lemma ff_bytes_bytes: "ff_bytes src = Some (bs, src') \<Longrightarrow> length bs + length src' < length src"
  by (auto simp: ff_bytes_def Let_def split: list.splits if_splits)

function unpack_spec :: "u8 list \<Rightarrow> u8 list option" where
  "unpack_spec [] = Some []"
| "unpack_spec (header # src) = (case (if header = 0xff then ff_bytes src else seg_bytes header [0..<8] src) of
     None \<Rightarrow> None
   | Some (bs, src) \<Rightarrow> map_option (\<lambda>out. bs @ out) (unpack_spec src))"
  by pat_completeness auto
termination by (relation "measure length") (auto split: if_splits dest: seg_bytes_length ff_bytes_length simp: less_Suc_eq_le)

subsection \<open>Writing into a buffer\<close>

lemma take_array_set: "array_set buf pos b = Some buf' \<Longrightarrow> take (Suc pos) buf' = take pos buf @ [b] \<and> length buf' = length buf \<and> take pos buf' = take pos buf"
  by (auto simp: array_set_Some take_Suc_conv_app_nth)

lemma write_bytes_ok:
  assumes "pos + length bs \<le> length buf"
  shows "\<exists>buf'. write_bytes buf pos bs = Some buf' \<and> length buf' = length buf \<and> take (pos + length bs) buf' = take pos buf @ bs"
  using assms
proof (induction bs arbitrary: buf pos)
  case (Cons b bs)
  from Cons.prems obtain buf1 where s: "array_set buf pos b = Some buf1" by (simp add: array_set_def)
  note t = take_array_set [OF s]
  from Cons.IH [of "Suc pos" buf1] Cons.prems t obtain buf' where
    "write_bytes buf1 (Suc pos) bs = Some buf'" "length buf' = length buf1" "take (Suc pos + length bs) buf' = take (Suc pos) buf1 @ bs" by auto
  with s t show ?case by simp
qed simp

subsection \<open>Unpacking computes its specification\<close>

text \<open>What was unpacked is in the buffer, as long as it fits.\<close>

definition unpack_inv :: "nat \<Rightarrow> int \<Rightarrow> u8 list \<Rightarrow> unpack_state \<Rightarrow> bool" where
  "unpack_inv len room out st \<longleftrightarrow> length (up_buffer st) = len \<and> room \<le> int len \<and> up_size st = int (length out) \<and>
     int (up_pos st) + up_bufsz st = room \<and>
     (if int (length out) \<le> room then up_pos st = length out \<and> take (length out) (up_buffer st) = out else up_bufsz st \<le> 0)"

lemma unpack_put_ok:
  assumes "unpack_inv len room out st" "length out + 1 < 2 ^ 31"
  shows "\<exists>st'. unpack_put b st = Some st' \<and> unpack_inv len room (out @ [b]) st'"
proof (cases "up_bufsz st > 0")
  case True
  with assms(1) have fits: "int (length out) \<le> room" by (auto simp: unpack_inv_def split: if_splits)
  with assms(1) True have p: "up_pos st = length out" "take (length out) (up_buffer st) = out" "up_pos st < length (up_buffer st)"
    by (auto simp: unpack_inv_def)
  with assms True show ?thesis by (simp add: unpack_put_def unpack_inv_def take_Suc_conv_app_nth)
next
  case False
  with assms show ?thesis by (auto simp: unpack_put_def unpack_inv_def split: if_splits)
qed

lemma unpack_seg_ok:
  assumes "unpack_inv len room out st" "length out + length is < 2 ^ 31"
  shows "case seg_bytes header is src of
      None \<Rightarrow> unpack_seg header is src st = Some (Inl ())
    | Some (bs, src') \<Rightarrow> \<exists>st'. unpack_seg header is src st = Some (Inr (src', st')) \<and> unpack_inv len room (out @ bs) st'"
  using assms
proof (induction header "is" src arbitrary: out st rule: seg_bytes.induct)
  case (2 header i "is" src)
  show ?case
  proof (cases "bit header i")
    case True
    show ?thesis
    proof (cases src)
      case (Cons b src1)
      from unpack_put_ok [OF 2(3), of b] 2(4) obtain st1 where "unpack_put b st = Some st1" "unpack_inv len room (out @ [b]) st1" by auto
      with 2(1) [OF True Cons this(2)] 2(4) Cons True show ?thesis by (auto split: option.splits)
    qed (simp add: True)
  next
    case False
    from unpack_put_ok [OF 2(3), of 0] 2(4) obtain st1 where "unpack_put 0 st = Some st1" "unpack_inv len room (out @ [0]) st1" by auto
    with 2(2) [OF False this(2)] 2(4) False show ?thesis by (auto split: option.splits)
  qed
qed simp

lemma unpack_ff_ok:
  assumes "unpack_inv len room out st" "length out + length src < 2 ^ 31"
  shows "case ff_bytes src of
      None \<Rightarrow> unpack_ff src st = Some (Inl ())
    | Some (bs, src') \<Rightarrow> \<exists>st'. unpack_ff src st = Some (Inr (src', st')) \<and> unpack_inv len room (out @ bs) st'"
proof (cases src)
  case (Cons b src1)
  define n where "n = (unat b + 1) * 8"
  have pos: "0 < n" by (simp add: n_def)
  show ?thesis
  proof (cases "length src1 < n")
    case False
    let ?st = "\<lambda>buf. st\<lparr>up_buffer := buf, up_pos := up_pos st + n, up_bufsz := up_bufsz st - int n, up_size := up_size st + int n\<rparr>"
    have "up_size st + int n < 2 ^ 31" using assms False Cons by (simp add: unpack_inv_def)
    note small = this
    have spec: "ff_bytes src = Some (take n src1, drop n src1)"
      using False unfolding Cons n_def by (simp add: ff_bytes_def Let_def)
    have code: "unpack_ff src st = do {
        buf \<leftarrow> (if up_bufsz st \<ge> int n then write_bytes (up_buffer st) (up_pos st) (take n src1) else Some (up_buffer st));
        Some (Inr (drop n src1, ?st buf)) }"
      using False small unfolding Cons n_def unpack_ff_def list.case Let_def by simp
    have l: "length (take n src1) = n" using False by simp
    show ?thesis
    proof (cases "up_bufsz st \<ge> int n")
      case True
      with assms pos have fits: "int (length out) \<le> room" "up_pos st = length out" "take (length out) (up_buffer st) = out"
        "up_pos st + n \<le> length (up_buffer st)" by (auto simp: unpack_inv_def split: if_splits)
      with write_bytes_ok [of "up_pos st" "take n src1" "up_buffer st"] l obtain buf where
        w: "write_bytes (up_buffer st) (up_pos st) (take n src1) = Some buf" "length buf = length (up_buffer st)"
        "take (up_pos st + n) buf = take (up_pos st) (up_buffer st) @ take n src1" by auto
      then have "unpack_ff src st = Some (Inr (drop n src1, ?st buf))" using True unfolding code by simp
      moreover have "unpack_inv len room (out @ take n src1) (?st buf)"
        using w fits assms True l by (simp add: unpack_inv_def)
      ultimately show ?thesis unfolding spec by auto
    next
      case no: False
      then have "unpack_ff src st = Some (Inr (drop n src1, ?st (up_buffer st)))" unfolding code by simp
      moreover have "unpack_inv len room (out @ take n src1) (?st (up_buffer st))"
        using assms no l pos by (auto simp: unpack_inv_def split: if_splits)
      ultimately show ?thesis unfolding spec by auto
    qed
  next
    case True
    then have "ff_bytes src = None" "unpack_ff src st = Some (Inl ())"
      unfolding Cons n_def by (simp_all add: ff_bytes_def unpack_ff_def Let_def)
    then show ?thesis by simp
  qed
qed (simp add: ff_bytes_def unpack_ff_def)

lemma unpack_loop_ok:
  assumes "unpack_inv len room out st" "length out + 8 * length src < 2 ^ 31"
  shows "case unpack_spec src of
      None \<Rightarrow> unpack_loop src st = Some (Inl ())
    | Some bs \<Rightarrow> \<exists>st'. unpack_loop src st = Some (Inr st') \<and> unpack_inv len room (out @ bs) st'"
  using assms
proof (induction src arbitrary: out st rule: unpack_spec.induct)
  case (2 header src)
  let ?spec = "if header = 0xff then ff_bytes src else seg_bytes header [0..<8] src"
  let ?code = "if header = 0xff then unpack_ff src st else unpack_seg header [0..<8] src st"
  have step: "case ?spec of None \<Rightarrow> ?code = Some (Inl ())
    | Some (bs, src') \<Rightarrow> \<exists>st'. ?code = Some (Inr (src', st')) \<and> unpack_inv len room (out @ bs) st'"
    using unpack_ff_ok [OF 2(2), of src] unpack_seg_ok [OF 2(2), of "[0..<8]" header src] 2(3) by (simp split: if_splits)
  show ?case
  proof (cases ?spec)
    case None
    with step show ?thesis by simp
  next
    case (Some r)
    obtain bs src' where r: "r = (bs, src')" by (cases r)
    with step Some obtain st' where c: "?code = Some (Inr (src', st'))" "unpack_inv len room (out @ bs) st'" by auto
    have "length (out @ bs) + 8 * length src' < 2 ^ 31"
      using Some r 2(3) seg_bytes_length [of header "[0..<8]" src bs src'] ff_bytes_bytes [of src bs src'] by (auto split: if_splits)
    from 2(1) [OF Some r [symmetric] c(2) this] Some c(1) r show ?thesis by (auto split: option.splits)
  qed
qed simp

lemma unpack_spec_length: "unpack_spec src = Some bs \<Longrightarrow> length bs \<le> 8 * length src"
proof (induction src arbitrary: bs rule: unpack_spec.induct)
  case (2 header src)
  from 2(2) obtain bs1 src' out where s: "(if header = 0xff then ff_bytes src else seg_bytes header [0..<8] src) = Some (bs1, src')"
    "unpack_spec src' = Some out" "bs = bs1 @ out" by (auto split: option.splits)
  from 2(1) [OF s(1) refl s(2)] s(1,3) seg_bytes_length [of header "[0..<8]" src bs1 src'] ff_bytes_bytes [of src bs1 src'] show ?case
    by (auto split: if_splits)
qed simp

lemma sproto_unpack_ok:
  assumes "0 \<le> room" "room \<le> int (length buf)" "8 * length src < 2 ^ 31"
  shows "case unpack_spec src of
      None \<Rightarrow> sproto_unpack src (c_int (length src)) buf room = Some (Inl ())
    | Some bs \<Rightarrow> \<exists>buf'. sproto_unpack src (c_int (length src)) buf room = Some (Inr (int (length bs), buf')) \<and> length buf' = length buf \<and>
        (int (length bs) \<le> room \<longrightarrow> take (length bs) buf' = bs)"
proof -
  let ?st = "\<lparr>up_buffer = buf, up_pos = 0, up_bufsz = room, up_size = 0\<rparr>"
  have "unpack_inv (length buf) room [] ?st" using assms by (simp add: unpack_inv_def)
  from unpack_loop_ok [OF this, of src] assms(3) show ?thesis
    by (auto simp: sproto_unpack_def unpack_inv_def c_int_id split: option.splits)
qed

subsection \<open>Packing computes its specification\<close>

lemma write_bytes_eq:
  "pos + length bs \<le> length buf \<Longrightarrow> write_bytes buf pos bs = Some (take pos buf @ bs @ drop (pos + length bs) buf)"
proof (induction bs arbitrary: buf pos)
  case (Cons b bs)
  then have "write_bytes (buf[pos := b]) (Suc pos) bs = Some (take (Suc pos) (buf[pos := b]) @ bs @ drop (Suc pos + length bs) (buf[pos := b]))"
    by simp
  with Cons.prems show ?case by (simp add: take_Suc_conv_app_nth)
qed simp

lemma length_nonzero: "length (nonzero seg) \<le> length seg"
  by (simp add: nonzero_def)

lemma nonzero_simps [simp]: "nonzero [] = []" "nonzero (b # bs) = (if b = 0 then nonzero bs else b # nonzero bs)"
  by (simp_all add: nonzero_def)

lemma seg_loop_ok:
  assumes "int pos + sz \<le> int (length buf)"
  shows "\<exists>buf'. seg_loop bs i h nz buf pos sz = Some (h OR seg_header i bs, nz + length (nonzero bs), buf') \<and> length buf' = length buf \<and>
    take pos buf' = take pos buf \<and> (int (length (nonzero bs)) \<le> sz \<longrightarrow> take (pos + length (nonzero bs)) buf' = take pos buf @ nonzero bs)"
  using assms
proof (induction bs arbitrary: i h nz buf pos sz)
  case (Cons b bs)
  show ?case
  proof (cases "b = 0")
    case True
    with Cons.IH [OF Cons.prems] show ?thesis by (simp add: or.assoc)
  next
    case False
    show ?thesis
    proof (cases "sz > 0")
      case True
      with Cons.prems have pos: "pos < length buf" by linarith
      let ?buf = "buf[pos := b]"
      have "int (Suc pos) + (sz - 1) \<le> int (length ?buf)" using Cons.prems by simp
      from Cons.IH [OF this, of "Suc i" "h OR push_bit i 1" "Suc nz"] obtain buf' where
        IH: "seg_loop bs (Suc i) (h OR push_bit i 1) (Suc nz) ?buf (Suc pos) (sz - 1) =
          Some ((h OR push_bit i 1) OR seg_header (Suc i) bs, Suc nz + length (nonzero bs), buf')" "length buf' = length buf"
        "take (Suc pos) buf' = take (Suc pos) ?buf"
        "int (length (nonzero bs)) \<le> sz - 1 \<longrightarrow> take (Suc pos + length (nonzero bs)) buf' = take (Suc pos) ?buf @ nonzero bs" by auto
      have t: "take (Suc pos) ?buf = take pos buf @ [b]" using pos by (simp add: take_Suc_conv_app_nth)
      have "take pos buf' = take pos (take (Suc pos) buf')" by (simp add: min_def)
      also have "\<dots> = take pos buf" unfolding IH(3) t using pos by simp
      finally have "take pos buf' = take pos buf" .
      with False True pos IH t show ?thesis by (simp add: or.assoc)
    next
      case no: False
      have "int pos + sz \<le> int (length buf)" by (rule Cons.prems)
      from Cons.IH [OF this, of "Suc i" "h OR push_bit i 1" "Suc nz"] no False show ?thesis by (auto simp: or.assoc)
    qed
  qed
qed simp

lemma pack_seg_ok:
  fixes n :: nat
  assumes "int pos + sz \<le> int (length buf)" "length seg = 8"
  defines "nn \<equiv> length (nonzero seg)"
  defines "full \<equiv> nn = 8 \<or> (0 < n \<and> 6 \<le> nn)"
  defines "k \<equiv> if full then (if n > 0 then 8 else 10) else nn + 1"
  shows "\<exists>buf'. pack_seg seg buf pos sz n = Some (k, buf') \<and> length buf' = length buf \<and> take pos buf' = take pos buf \<and>
    (\<not> full \<and> int k \<le> sz \<longrightarrow> take (pos + k) buf' = take pos buf @ packed_seg seg)"
proof -
  have nn: "nn \<le> 8" using length_nonzero [of seg] assms(2) by (simp add: nn_def)
  have "int (pos + 1) + (sz - 1) \<le> int (length buf)" using assms(1) by simp
  from seg_loop_ok [OF this, of seg 0 0 0] obtain buf1 where
    s: "seg_loop seg 0 0 0 buf (pos + 1) (sz - 1) = Some (seg_header 0 seg, nn, buf1)" "length buf1 = length buf"
    "take (pos + 1) buf1 = take (pos + 1) buf"
    "int nn \<le> sz - 1 \<longrightarrow> take (pos + 1 + nn) buf1 = take (pos + 1) buf @ nonzero seg" by (auto simp: nn_def)
  have prefix: "take pos buf1 = take pos buf"
    using arg_cong [OF s(3), of "take pos"] by (simp add: min_def)
  have n8: "(if (nn = 7 \<or> nn = 6) \<and> n > 0 then 8 else nn) = 8 \<longleftrightarrow> full" using nn by (auto simp: full_def)
  show ?thesis
  proof (cases full)
    case True
    then have "pack_seg seg buf pos sz n = Some (k, buf1)" using s(1) n8 by (simp add: pack_seg_def k_def Let_def)
    with s prefix True show ?thesis by simp
  next
    case False
    then have nn': "(if (nn = 7 \<or> nn = 6) \<and> n > 0 then 8 else nn) = nn" using nn by (auto simp: full_def)
    show ?thesis
    proof (cases "sz - 1 < 0")
      case True
      have "pack_seg seg buf pos sz n = Some (k, buf1)"
        unfolding pack_seg_def s(1) using True False n8 nn' by (simp add: k_def Let_def)
      with s prefix True show ?thesis by (simp add: k_def)
    next
      case no: False
      then have pos: "pos < length buf" using assms(1) by linarith
      let ?buf = "buf1[pos := seg_header 0 seg]"
      have run: "pack_seg seg buf pos sz n = Some (k, ?buf)"
        unfolding pack_seg_def s(1) using no False n8 nn' pos s(2) by (simp add: k_def Let_def)
      have "take (pos + k) ?buf = take pos buf @ packed_seg seg" if "int k \<le> sz"
      proof -
        have "take (pos + 1 + nn) buf1 = take pos buf @ buf ! pos # nonzero seg"
          using s(4) that False pos by (simp add: k_def take_Suc_conv_app_nth)
        then have "take (pos + 1 + nn) ?buf = (take pos buf @ buf ! pos # nonzero seg)[pos := seg_header 0 seg]"
          by (simp only: take_update_swap)
        also have "\<dots> = take pos buf @ packed_seg seg" using pos by (simp add: list_update_append packed_seg_def)
        finally show ?thesis using False by (simp add: k_def)
      qed
      with run s(2) prefix show ?thesis by simp
    qed
  qed
qed

lemma length_segment [simp]: "length (segment xs) = 8"
  by (simp add: segment_def)

lemma segments_snoc: "segments (Suc n) xs = segments n xs @ [segment (drop (8 * n) xs)]"
proof (induction n arbitrary: xs)
  case (Suc n)
  have "segments (Suc (Suc n)) xs = segment xs # segments n (drop 8 xs) @ [segment (drop (8 * n) (drop 8 xs))]"
    unfolding segments.simps(2) [of "Suc n"] Suc.IH ..
  then show ?case by (simp add: add.commute)
qed simp

lemma concat_segments:
  "concat (segments n xs) = (if n * 8 \<le> length xs then take (n * 8) xs else xs @ replicate (n * 8 - length xs) 0)"
proof (induction n arbitrary: xs)
  case (Suc n)
  consider "8 \<le> length xs" | "length xs < 8" by linarith
  then show ?case
  proof cases
    case 1
    then have "segment xs = take 8 xs" by (simp add: segment_def)
    moreover have "take 8 xs @ take (n * 8) (drop 8 xs) = take (8 + n * 8) xs" by (simp add: take_add)
    moreover have "take 8 xs @ drop 8 xs @ zs = xs @ zs" for zs by (simp flip: append_assoc)
    ultimately show ?thesis using 1 unfolding segments.simps
      by (cases "n * 8 \<le> length xs - 8") (auto simp: Suc.IH add.commute)
  next
    case 2
    then have "concat (segments n (drop 8 xs)) = replicate (n * 8) 0" by (simp add: Suc.IH)
    moreover have "segment xs = xs @ replicate (8 - length xs) 0" using 2 by (simp add: segment_def)
    moreover have "replicate (8 - length xs) 0 @ replicate (n * 8) (0 :: u8) = replicate (8 + n * 8 - length xs) 0"
      using 2 by (simp flip: replicate_add)
    ultimately show ?thesis using 2 unfolding segments.simps by simp
  qed
qed simp

lemma length_segments [simp]: "length (segments n xs) = n"
  by (induction n arbitrary: xs) simp_all

lemma length_concat_segments [simp]: "length (concat (segments n xs)) = 8 * n"
  by (simp add: concat_segments)

lemma write_ff_ok:
  assumes "des + 2 + 8 * n \<le> length buf" "ffs = segments n (drop k input)"
  shows "write_ff input (Some k) buf des n = Some (take des buf @ packed_ff ffs @ drop (des + 2 + 8 * n) buf)"
proof -
  let ?bs = "concat ffs"
  have l: "length ?bs = 8 * n" using assms(2) by simp
  have bs: "(if n * 8 \<le> length (drop k input) then take (n * 8) (drop k input) else drop k input @ replicate (n * 8 - length (drop k input)) 0) = ?bs"
    unfolding assms(2) concat_segments ..
  let ?buf = "buf[des := 0xff, des + 1 := of_nat (n - 1)]"
  have "write_bytes ?buf (des + 2) ?bs = Some (take (des + 2) ?buf @ ?bs @ drop (des + 2 + length ?bs) ?buf)"
    using assms(1) l by (intro write_bytes_eq) simp
  moreover have "take (des + 2) ?buf = take des buf @ [0xff, of_nat (n - 1)]"
    using assms(1) by (simp add: take_Suc_conv_app_nth numeral_2_eq_2 nth_list_update)
  moreover have "drop (des + 2 + length ?bs) ?buf = drop (des + 2 + 8 * n) buf" using l by simp
  moreover have "length ffs = n" using assms(2) by simp
  ultimately show ?thesis using assms(1) unfolding write_ff_def option.case Let_def bs by (simp add: packed_ff_def)
qed

text \<open>Between two rounds: \<open>out\<close> is done and is at the start of the buffer, \<open>ffs\<close> are the segments of the run.\<close>

definition pack_inv :: "u8 list \<Rightarrow> nat \<Rightarrow> int \<Rightarrow> u8 list list \<Rightarrow> u8 list \<Rightarrow> nat \<Rightarrow> pack_state \<Rightarrow> bool" where
  "pack_inv input len room ffs out i st \<longleftrightarrow> length (pk_buffer st) = len \<and> room \<le> int len \<and> int (pk_size st) + pk_bufsz st = room \<and>
     pk_ff_n st = length ffs \<and> length ffs < 256 \<and> (0 \<le> pk_bufsz st \<longrightarrow> take (length out) (pk_buffer st) = out) \<and>
     (if ffs = [] then pk_size st = length out
      else pk_ff_des st = length out \<and> pk_size st = length out + 2 + 8 * length ffs \<and>
        (\<exists>k. pk_ff_start st = Some k \<and> i = k + 8 * length ffs \<and> ffs = segments (length ffs) (drop k input)))"

lemma padded_segment:
  "(let seg = take 8 (drop i input); padding = 8 - length seg in seg @ replicate padding 0) = segment (drop i input)"
  by (simp add: segment_def Let_def min_def)

lemma full_segment:
  assumes "length (nonzero (segment xs)) = 8"
  shows "8 \<le> length xs"
proof (rule ccontr)
  assume "\<not> 8 \<le> length xs"
  then have "0 \<in> set (segment xs)" by (simp add: segment_def)
  then have "length (nonzero (segment xs)) < length (segment xs)" unfolding nonzero_def by (intro length_filter_less [of 0]) simp_all
  with assms show False by simp
qed

lemma pack_round_ok:
  assumes inv: "pack_inv input len room ffs out i st"
  shows "\<exists>st' ffs' out'. pack_round input i st = Some st' \<and> pack_inv input len room ffs' out' (i + 8) st' \<and>
    (\<forall>segs. out' @ packed ffs' segs = out @ packed ffs (segment (drop i input) # segs))"
proof -
  let ?seg = "segment (drop i input)" and ?nn = "length (nonzero (segment (drop i input)))"
  let ?full = "?nn = 8 \<or> (0 < pk_ff_n st \<and> 6 \<le> ?nn)"
  let ?k = "if ?full then (if pk_ff_n st > 0 then 8 else 10) else ?nn + 1"
  let ?src = "if 8 - length (take 8 (drop i input)) > 0 then None else Some i"
  have nn: "?nn \<le> 8" using length_nonzero [of ?seg] by simp
  from inv have b: "length (pk_buffer st) = len" "room \<le> int len" "int (pk_size st) + pk_bufsz st = room" "pk_ff_n st = length ffs"
    "length ffs < 256" "length out \<le> pk_size st" by (auto simp: pack_inv_def split: if_splits)
  then have "int (pk_size st) + pk_bufsz st \<le> int (length (pk_buffer st))" by simp
  from pack_seg_ok [OF this, of ?seg "pk_ff_n st"] obtain buf where
    seg: "pack_seg ?seg (pk_buffer st) (pk_size st) (pk_bufsz st) (pk_ff_n st) = Some (?k, buf)" "length buf = length (pk_buffer st)"
    "take (pk_size st) buf = take (pk_size st) (pk_buffer st)"
    "\<not> ?full \<and> int ?k \<le> pk_bufsz st \<longrightarrow> take (pk_size st + ?k) buf = take (pk_size st) (pk_buffer st) @ packed_seg ?seg" by auto
  let ?st = "st\<lparr>pk_buffer := buf, pk_bufsz := pk_bufsz st - int ?k\<rparr>"
  have round: "pack_round input i st = map_option (\<lambda>st. st\<lparr>pk_size := pk_size st + ?k\<rparr>) (pack_run input ?st ?k ?src)"
    unfolding pack_round_def Let_def padded_segment [unfolded Let_def] seg(1)
    by (cases "pack_run input ?st ?k ?src") auto
  have keep: "take (length out) buf = out" if "0 \<le> pk_bufsz st"
  proof -
    have "take (length out) buf = take (length out) (take (pk_size st) buf)" using b(6) by (simp add: min_def)
    also have "\<dots> = take (length out) (pk_buffer st)" unfolding seg(3) using b(6) by (simp add: min_def)
    finally show ?thesis using inv that by (simp add: pack_inv_def)
  qed
  show ?thesis
  proof (cases "ffs = []")
    case True
    with inv have start: "pk_size st = length out" "pk_ff_n st = 0" by (simp_all add: pack_inv_def)
    show ?thesis
    proof (cases "?nn = 8")
      case full: True
      from full_segment [OF full] have src: "?src = Some i" by simp
      let ?st' = "?st\<lparr>pk_ff_start := Some i, pk_ff_des := pk_size st, pk_ff_n := 1, pk_size := pk_size st + 10\<rparr>"
      have "pack_round input i st = Some ?st'"
        using full start unfolding round src by (simp add: pack_run_def)
      moreover have "pack_inv input len room [?seg] out (i + 8) ?st'"
        using b seg(2) keep full start by (auto simp: pack_inv_def)
      ultimately show ?thesis using True full by (intro exI [of _ ?st'] exI [of _ "[?seg]"] exI [of _ out]) simp
    next
      case part: False
      then have k: "?k = ?nn + 1" "?k \<noteq> 10" using start nn by auto
      let ?st' = "?st\<lparr>pk_size := pk_size st + (?nn + 1)\<rparr>"
      have "pack_round input i st = Some ?st'"
        using part start nn unfolding round by (simp add: pack_run_def)
      moreover have "pack_inv input len room [] (out @ packed_seg ?seg) (i + 8) ?st'"
        using b seg keep part start inv by (auto simp: pack_inv_def packed_seg_def)
      ultimately show ?thesis using True part by (intro exI [of _ ?st'] exI [of _ "[]"] exI [of _ "out @ packed_seg ?seg"]) simp
    qed
  next
    case False
    with inv obtain k0 where run: "pk_ff_des st = length out" "pk_size st = length out + 2 + 8 * length ffs" "pk_ff_start st = Some k0"
      "i = k0 + 8 * length ffs" "ffs = segments (length ffs) (drop k0 input)" by (auto simp: pack_inv_def)
    have n: "0 < pk_ff_n st" using False b(4) by simp
    show ?thesis
    proof (cases "6 \<le> ?nn")
      case more: True
      let ?ffs = "ffs @ [?seg]"
      have ffs: "?ffs = segments (length ?ffs) (drop k0 input)"
      proof -
        have "segments (length ?ffs) (drop k0 input) = segments (length ffs) (drop k0 input) @ [segment (drop (8 * length ffs) (drop k0 input))]"
          using segments_snoc [of "length ffs" "drop k0 input"] by (simp del: segments.simps)
        also have "\<dots> = ffs @ [?seg]" using run(4) by (simp add: add.commute flip: run(5))
        finally show ?thesis by (simp del: segments.simps)
      qed
      show ?thesis
      proof (cases "length ffs = 255")
        case last: True
        show ?thesis
        proof (cases "0 \<le> pk_bufsz ?st")
          case True
          then have "length out + 2 + 8 * 256 \<le> length buf" using b seg(2) run(2) more n last by simp
          from write_ff_ok [OF this, of ?ffs k0 input] ffs last have
            w: "write_ff input (Some k0) buf (length out) 256 = Some (take (length out) buf @ packed_ff ?ffs @ drop (length out + 2 + 8 * 256) buf)"
            (is "_ = Some ?buf") by simp
          let ?st' = "?st\<lparr>pk_buffer := ?buf, pk_ff_n := 0, pk_size := pk_size st + 8\<rparr>"
          have "pack_round input i st = Some ?st'"
            using more n last b(4) w True run(1,3) unfolding round by (simp add: pack_run_def)
          moreover have "length (packed_ff ?ffs) = 2 + 8 * 256"
          proof -
            have "length (concat ?ffs) = 8 * length ?ffs" using arg_cong [OF ffs, of "\<lambda>ffs. length (concat ffs)"] by simp
            then have "length (concat ?ffs) = 8 * 256" using last by simp
            then show ?thesis by (simp add: packed_ff_def)
          qed
          then have "pack_inv input len room [] (out @ packed_ff ?ffs) (i + 8) ?st'"
            using b seg(2) keep more n last run(2) True \<open>length out + 2 + 8 * 256 \<le> length buf\<close> by (simp add: pack_inv_def)
          ultimately show ?thesis using False more last by (intro exI [of _ ?st'] exI [of _ "[]"] exI [of _ "out @ packed_ff ?ffs"]) simp
        next
          case no: False
          let ?st' = "?st\<lparr>pk_ff_n := 0, pk_size := pk_size st + 8\<rparr>"
          have "pack_round input i st = Some ?st'"
            using more n last b(4) no unfolding round by (simp add: pack_run_def)
          moreover have "length (packed_ff ?ffs) = 2 + 8 * 256"
          proof -
            have "length (concat ?ffs) = 8 * length ?ffs" using arg_cong [OF ffs, of "\<lambda>ffs. length (concat ffs)"] by simp
            then have "length (concat ?ffs) = 8 * 256" using last by simp
            then show ?thesis by (simp add: packed_ff_def)
          qed
          then have "pack_inv input len room [] (out @ packed_ff ?ffs) (i + 8) ?st'"
            using b seg(2) more n last run(2) no by (simp add: pack_inv_def)
          ultimately show ?thesis using False more last by (intro exI [of _ ?st'] exI [of _ "[]"] exI [of _ "out @ packed_ff ?ffs"]) simp
        qed
      next
        case mid: False
        let ?st' = "?st\<lparr>pk_ff_n := pk_ff_n st + 1, pk_size := pk_size st + 8\<rparr>"
        have "pack_round input i st = Some ?st'"
          using more n mid b(4) unfolding round by (simp add: pack_run_def)
        moreover have "pack_inv input len room ?ffs out (i + 8) ?st'"
          using b seg(2) keep more n mid run ffs by (simp add: pack_inv_def)
        ultimately show ?thesis using False more mid by (intro exI [of _ ?st'] exI [of _ ?ffs] exI [of _ out]) simp
      qed
    next
      case few: False
      then have k: "?k = ?nn + 1" "?nn + 1 \<noteq> 8" "?nn + 1 \<noteq> 10" by auto
      have spec: "packed ffs (?seg # segs) = packed_ff ffs @ packed_seg ?seg @ packed [] segs" for segs using False few by simp
      have len_ff: "length (packed_ff ffs) = 2 + 8 * length ffs"
        using arg_cong [OF run(5), of "\<lambda>ffs. length (concat ffs)"] by (simp add: packed_ff_def)
      have len_seg: "length (packed_seg ?seg) = ?nn + 1" by (simp add: packed_seg_def)
      have round': "pack_round input i st = map_option (\<lambda>st. st\<lparr>pk_size := pk_size st + (?nn + 1)\<rparr>)
        (pack_run input (st\<lparr>pk_buffer := buf, pk_bufsz := pk_bufsz st - int (?nn + 1)\<rparr>) (?nn + 1) ?src)"
        using round unfolding k(1) .
      let ?st0 = "st\<lparr>pk_buffer := buf, pk_bufsz := pk_bufsz st - int (?nn + 1)\<rparr>"
      show ?thesis
      proof (cases "0 \<le> pk_bufsz st - int (?nn + 1)")
        case True
        then have fits: "length out + 2 + 8 * length ffs \<le> length buf" using b seg(2) run(2) by simp
        let ?buf = "take (length out) buf @ packed_ff ffs @ drop (length out + 2 + 8 * length ffs) buf"
        from write_ff_ok [OF fits run(5)] have w: "write_ff input (Some k0) buf (length out) (length ffs) = Some ?buf" .
        let ?st' = "?st0\<lparr>pk_buffer := ?buf, pk_ff_n := 0, pk_size := pk_size st + (?nn + 1)\<rparr>"
        have step: "pack_round input i st = Some ?st'"
          using k n b(4) w True run(1,3) unfolding round' by (simp add: pack_run_def)
        have out: "take (length out) buf = out" using keep True by simp
        have "take (pk_size st + (?nn + 1)) buf = take (pk_size st) (pk_buffer st) @ packed_seg ?seg"
          using seg(4) few True k(1) n by simp
        from arg_cong [OF this, of "drop (pk_size st)"] b seg(2) True
        have tail: "take (?nn + 1) (drop (pk_size st) buf) = packed_seg ?seg" by (simp add: drop_take)
        have "take (length out + (2 + 8 * length ffs) + (?nn + 1)) ?buf = out @ packed_ff ffs @ packed_seg ?seg"
          using fits len_ff tail run(2) by (simp add: out)
        then have "pack_inv input len room [] (out @ packed_ff ffs @ packed_seg ?seg) (i + 8) ?st'"
          using b seg(2) True run(2) fits len_ff len_seg by (simp add: pack_inv_def add.assoc)
        with step spec show ?thesis by (intro exI [of _ ?st'] exI [of _ "[]"] exI [of _ "out @ packed_ff ffs @ packed_seg ?seg"]) simp
      next
        case no: False
        let ?st' = "?st0\<lparr>pk_ff_n := 0, pk_size := pk_size st + (?nn + 1)\<rparr>"
        have step: "pack_round input i st = Some ?st'"
          using k n b(4) no unfolding round' by (simp add: pack_run_def)
        have "pack_inv input len room [] (out @ packed_ff ffs @ packed_seg ?seg) (i + 8) ?st'"
          using b seg(2) no run(2) len_ff len_seg by (simp add: pack_inv_def)
        with step spec show ?thesis by (intro exI [of _ ?st'] exI [of _ "[]"] exI [of _ "out @ packed_ff ffs @ packed_seg ?seg"]) simp
      qed
    qed
  qed
qed

lemma pack_rounds_ok:
  assumes "pack_inv input len room ffs out i st"
  shows "\<exists>st' ffs' out'. pack_rounds input k i st = Some st' \<and> pack_inv input len room ffs' out' (i + 8 * k) st' \<and>
    out' @ packed ffs' [] = out @ packed ffs (segments k (drop i input))"
  using assms
proof (induction k arbitrary: ffs out i st)
  case (Suc k)
  from pack_round_ok [OF Suc.prems] obtain st1 ffs1 out1 where
    r: "pack_round input i st = Some st1" "pack_inv input len room ffs1 out1 (i + 8) st1"
    "\<And>segs. out1 @ packed ffs1 segs = out @ packed ffs (segment (drop i input) # segs)" by blast
  from Suc.IH [OF r(2)] obtain st' ffs' out' where
    s: "pack_rounds input k (i + 8) st1 = Some st'" "pack_inv input len room ffs' out' (i + 8 + 8 * k) st'"
    "out' @ packed ffs' [] = out1 @ packed ffs1 (segments k (drop (i + 8) input))" by blast
  have "out1 @ packed ffs1 (segments k (drop (i + 8) input)) = out @ packed ffs (segments (Suc k) (drop i input))"
    unfolding r(3) by (simp add: add.commute)
  with s r(1) show ?case by (intro exI [of _ st'] exI [of _ ffs'] exI [of _ out']) (simp add: add.assoc)
qed auto

lemma sproto_pack_ok:
  assumes "bufsz \<le> int (length buf)"
  shows "\<exists>buf'. sproto_pack input buf bufsz = Some (length (pack_spec input), buf') \<and> length buf' = length buf \<and>
    (int (length (pack_spec input)) \<le> bufsz \<longrightarrow> take (length (pack_spec input)) buf' = pack_spec input)"
proof -
  let ?st0 = "\<lparr>pk_buffer = buf, pk_size = 0, pk_bufsz = bufsz, pk_ff_start = None, pk_ff_des = 0, pk_ff_n = 0\<rparr>"
  let ?k = "(length input + 7) div 8"
  have "pack_inv input (length buf) bufsz [] [] 0 ?st0" using assms by (simp add: pack_inv_def)
  from pack_rounds_ok [OF this, of ?k] obtain st ffs out where
    r: "pack_rounds input ?k 0 ?st0 = Some st" "pack_inv input (length buf) bufsz ffs out (8 * ?k) st" "out @ packed ffs [] = pack_spec input"
    by (auto simp: pack_spec_def)
  show ?thesis
  proof (cases "ffs = []")
    case True
    with r show ?thesis by (intro exI [of _ "pk_buffer st"]) (auto simp: sproto_pack_def pack_inv_def)
  next
    case False
    with r(2) obtain k where run: "pk_ff_start st = Some k" "pk_ff_des st = length out" "pk_ff_n st = length ffs"
      "pk_size st = length out + 2 + 8 * length ffs" "ffs = segments (length ffs) (drop k input)" by (auto simp: pack_inv_def)
    have spec: "pack_spec input = out @ packed_ff ffs" using r(3) False by simp
    have len_ff: "length (packed_ff ffs) = 2 + 8 * length ffs"
      using arg_cong [OF run(5), of "\<lambda>ffs. length (concat ffs)"] by (simp add: packed_ff_def)
    show ?thesis
    proof (cases "0 \<le> pk_bufsz st")
      case True
      with r(2) run(4) have fits: "length out + 2 + 8 * length ffs \<le> length (pk_buffer st)" by (simp add: pack_inv_def)
      have "Suc (Suc (length buf - 2)) = length buf" using fits r(2) by (simp add: pack_inv_def)
      from write_ff_ok [OF fits run(5)] run False True r this show ?thesis
        using fits by (simp add: sproto_pack_def spec len_ff pack_inv_def)
    next
      case no: False
      with r run show ?thesis by (auto simp: sproto_pack_def spec len_ff pack_inv_def)
    qed
  qed
qed

subsection \<open>The size of the result\<close>

text \<open>A run costs 2 bytes more than its segments, and the last segment may cost 2 bytes more than it has of the input.\<close>

lemma packed_length:
  assumes "length (concat ffs) = 8 * length ffs" "length ffs < 256"
  shows "length (packed ffs (segments ((length xs + 7) div 8) xs)) \<le> 8 * length ffs + length xs + 2 + 2 * ((8 * length ffs + length xs + 2047) div 2048)"
  using assms
proof (induction "length xs" arbitrary: xs ffs rule: less_induct)
  case less
  let ?f = "length ffs" and ?l = "length xs" and ?n = "length (nonzero (segment xs))"
  have ff: "length (packed_ff ffs) = 2 + 8 * ?f" using less(2) by (simp add: packed_ff_def)
  have n: "?n \<le> 8" using length_nonzero [of "segment xs"] by simp
  have seg: "length (packed_seg (segment xs)) = ?n + 1" by (simp add: packed_seg_def)
  show ?case
  proof (cases "8 \<le> ?l")
    case True
    then have k: "(?l + 7) div 8 = Suc ((length (drop 8 xs) + 7) div 8)" by (simp add: le_div_geq [of 8 "?l + 7"])
    let ?rest = "segments ((length (drop 8 xs) + 7) div 8) (drop 8 xs)"
    have IH: "length (packed ffs' ?rest) \<le> 8 * length ffs' + (?l - 8) + 2 + 2 * ((8 * length ffs' + (?l - 8) + 2047) div 2048)"
      if "length (concat ffs') = 8 * length ffs'" "length ffs' < 256" for ffs'
      using less(1) [of "drop 8 xs" ffs'] that True by simp
    have IH0: "length (packed [] ?rest) \<le> (?l - 8) + 2 + 2 * ((?l - 8 + 2047) div 2048)"
      using IH [of "[]"] by simp
    have mono: "(?l - 8 + 2047) div 2048 \<le> (8 * ?f + ?l + 2047) div 2048" by (intro div_le_mono) simp
    have IH1: "length (packed (ffs @ [segment xs]) ?rest) \<le> 8 * ?f + ?l + 2 + 2 * ((8 * ?f + ?l + 2047) div 2048)" if "?f < 255"
      using IH [of "ffs @ [segment xs]"] less(2) that True by simp
    show ?thesis
    proof (cases "ffs = []")
      case True
      show ?thesis
      proof (cases "?n = 8")
        case full: True
        then show ?thesis using IH1 True unfolding k segments.simps by simp
      next
        case False
        then have "?n + 1 \<le> 8" using n by simp
        with False show ?thesis using IH0 mono seg True \<open>8 \<le> ?l\<close> unfolding k segments.simps by simp
      qed
    next
      case False
      show ?thesis
      proof (cases "6 \<le> ?n")
        case more: True
        show ?thesis
        proof (cases "?f = 255")
          case last: True
          have "length (packed_ff (ffs @ [segment xs])) = 2 + 8 * 256" using less(2) last by (simp add: packed_ff_def)
          moreover have "(8 * ?f + ?l + 2047) div 2048 = Suc ((?l - 8 + 2047) div 2048)"
            using last \<open>8 \<le> ?l\<close> by (simp add: le_div_geq [of 2048 "8 * ?f + ?l + 2047"])
          ultimately show ?thesis using IH0 False more last \<open>8 \<le> ?l\<close> unfolding k segments.simps by simp
        next
          case False
          then show ?thesis using IH1 less(3) \<open>ffs \<noteq> []\<close> more unfolding k segments.simps by simp
        qed
      next
        case few: False
        then show ?thesis using IH0 False mono ff seg \<open>8 \<le> ?l\<close> unfolding k segments.simps by simp
      qed
    qed
  next
    case short: False
    show ?thesis
    proof (cases "xs = []")
      case True
      have "1 \<le> (8 * ?f + 2047) div 2048" if "ffs \<noteq> []"
      proof -
        have "2048 div 2048 \<le> (8 * ?f + 2047) div 2048" using that by (intro div_le_mono) (simp add: Suc_le_eq)
        then show ?thesis by simp
      qed
      then show ?thesis using True ff by simp
    next
      case False
      then have k: "(?l + 7) div 8 = Suc 0" using short by (cases xs) simp_all
      have nl: "?n \<le> ?l" using length_nonzero [of xs] short by (simp add: segment_def nonzero_def)
      have one: "1 \<le> (8 * ?f + ?l + 2047) div 2048"
      proof -
        have "2048 div 2048 \<le> (8 * ?f + ?l + 2047) div 2048" using False by (intro div_le_mono) (simp add: Suc_le_eq)
        then show ?thesis by simp
      qed
      have "length (packed_ff (ffs @ [segment xs])) = 2 + 8 * (?f + 1)" using less(2) by (simp add: packed_ff_def)
      moreover have "1 \<le> (4087 + ?l) div 2048" using div_le_mono [of 2048 "4087 + ?l" 2048] by simp
      ultimately show ?thesis using one nl ff seg short unfolding k segments.simps by (auto split: if_splits)
    qed
  qed
qed

lemma pack_spec_length: "length (pack_spec xs) \<le> (length xs + 2047) div 2048 * 2 + length xs + 2"
  using packed_length [of "[]" xs] by (simp add: pack_spec_def)


subsection \<open>The round trip\<close>

lemma bit_seg_header: "bit (seg_header i bs) j \<longleftrightarrow> j < 8 \<and> i \<le> j \<and> j < i + length bs \<and> bs ! (j - i) \<noteq> 0"
proof (induction bs arbitrary: i)
  case (Cons b bs)
  have one: "bit (push_bit i 1 :: u8) j \<longleftrightarrow> j = i \<and> j < 8" by (auto simp: bit_simps)
  show ?case
  proof (cases "i < j")
    case True
    then obtain d where "j - i = Suc d" "j - Suc i = d" by (metis Suc_diff_Suc)
    with True one Cons.IH [of "Suc i"] show ?thesis by (simp add: bit_or_iff)
  next
    case False
    then have "\<not> bit (seg_header (Suc i) bs) j" unfolding Cons.IH by simp
    with False one show ?thesis by (auto simp: bit_or_iff)
  qed
qed simp

lemma seg_bytes_nonzero:
  assumes "\<forall>j<length bs. bit h (i + j) \<longleftrightarrow> bs ! j \<noteq> 0"
  shows "seg_bytes h [i..<i + length bs] (nonzero bs @ rest) = Some (bs, rest)"
  using assms
proof (induction bs arbitrary: i)
  case (Cons b bs)
  then have "bit h i \<longleftrightarrow> b \<noteq> 0" by (metis add_0_right length_greater_0_conv list.discI nth_Cons_0)
  moreover have "seg_bytes h [Suc i..<Suc i + length bs] (nonzero bs @ rest) = Some (bs, rest)"
    using Cons.prems by (intro Cons.IH) auto
  moreover have "[i..<i + length (b # bs)] = i # [Suc i..<Suc i + length bs]" by (subst upt_conv_Cons) simp_all
  ultimately show ?case by (simp only: seg_bytes.simps nonzero_simps append.simps list.case) simp
qed simp

lemma unpack_packed_seg:
  assumes "length seg = 8" "length (nonzero seg) \<noteq> 8"
  shows "unpack_spec (packed_seg seg @ rest) = map_option (\<lambda>out. seg @ out) (unpack_spec rest)"
proof -
  have "\<exists>b\<in>set seg. b = 0"
  proof (rule ccontr)
    assume "\<not> ?thesis"
    then have "nonzero seg = seg" by (auto simp: nonzero_def filter_id_conv)
    with assms show False by simp
  qed
  then obtain j where "j < 8" "seg ! j = 0" using assms(1) by (metis in_set_conv_nth)
  then have "\<not> bit (seg_header 0 seg) j" "bit (0xff :: u8) j"
    using bit_mask_iff [where 'a = "u8", of 8 j] by (simp_all add: bit_seg_header mask_eq_exp_minus_1)
  then have "seg_header 0 seg \<noteq> 0xff" by metis
  moreover have "seg_bytes (seg_header 0 seg) [0..<0 + length seg] (nonzero seg @ rest) = Some (seg, rest)"
    using assms(1) by (intro seg_bytes_nonzero) (simp add: bit_seg_header)
  ultimately show ?thesis using assms(1) by (simp add: packed_seg_def)
qed

lemma unpack_packed_ff:
  assumes "length (concat ffs) = 8 * length ffs" "ffs \<noteq> []" "length ffs \<le> 256"
  shows "unpack_spec (packed_ff ffs @ rest) = map_option (\<lambda>out. concat ffs @ out) (unpack_spec rest)"
proof -
  define c :: u8 where "c = of_nat (length ffs - 1)"
  have "unat c + 1 = length ffs"
    using assms(2,3) unfolding c_def by (simp add: unsigned_of_nat take_bit_nat_eq_self Suc_diff_Suc)
  then have "(unat c + 1) * 8 = length (concat ffs)" using assms(1) by simp
  then have "ff_bytes (c # concat ffs @ rest) = Some (concat ffs, rest)"
    unfolding ff_bytes_def list.case Let_def by simp
  then show ?thesis unfolding packed_ff_def c_def [symmetric] by simp
qed

lemma unpack_packed:
  assumes "\<forall>seg\<in>set (ffs @ segs). length seg = 8" "length ffs < 256"
  shows "unpack_spec (packed ffs segs) = Some (concat ffs @ concat segs)"
proof -
  have len: "length (concat ffs) = 8 * length ffs" if "\<forall>seg\<in>set ffs. length seg = 8" for ffs :: "u8 list list"
    using that by (induction ffs) auto
  show ?thesis using assms
  proof (induction ffs segs rule: packed.induct)
    case (1 ffs)
    then show ?case using unpack_packed_ff [of ffs "[]"] len [of ffs] by simp
  next
    case (2 ffs seg segs)
    show ?case
    proof (cases "ffs = []")
      case True
      show ?thesis
      proof (cases "length (nonzero seg) = 8")
        case full: True
        then show ?thesis using 2(1) [OF True full] 2(6) True by simp
      next
        case False
        then show ?thesis using 2(2) [OF True False] 2(6) True unpack_packed_seg [of seg] by simp
      qed
    next
      case ffs: False
      show ?thesis
      proof (cases "6 \<le> length (nonzero seg)")
        case more: True
        show ?thesis
        proof (cases "length ffs = 255")
          case True
          then show ?thesis using 2(3) [OF ffs more True] 2(6) ffs more unpack_packed_ff [of "ffs @ [seg]"] len [of "ffs @ [seg]"] by simp
        next
          case False
          then show ?thesis using 2(4) [OF ffs more False] 2(6,7) ffs more by simp
        qed
      next
        case few: False
        then show ?thesis
          using 2(5) [OF ffs few] 2(6,7) ffs unpack_packed_seg [of seg] unpack_packed_ff [of ffs] len [of ffs] by simp
      qed
    qed
  qed
qed

definition padded :: "u8 list \<Rightarrow> u8 list" where
  "padded xs = xs @ replicate ((length xs + 7) div 8 * 8 - length xs) 0"

lemma set_segments: "seg \<in> set (segments n xs) \<Longrightarrow> length seg = 8"
  by (induction n arbitrary: xs) auto

lemma unpack_pack_spec: "unpack_spec (pack_spec xs) = Some (padded xs)"
proof -
  let ?n = "(length xs + 7) div 8"
  have "unpack_spec (pack_spec xs) = Some (concat (segments ?n xs))"
    unfolding pack_spec_def using unpack_packed [of "[]" "segments ?n xs"] set_segments by simp
  moreover have "length xs \<le> ?n * 8" using div_mult_mod_eq [of "length xs + 7" 8] mod_less_divisor [of 8 "length xs + 7"] by linarith
  then have "concat (segments ?n xs) = padded xs" by (cases "?n * 8 = length xs") (auto simp: concat_segments padded_def)
  ultimately show ?thesis by simp
qed

subsection \<open>The buffer grows until the result fits\<close>

lemma expand_size_ok:
  "0 < osz \<Longrightarrow> osz < nsz \<Longrightarrow> nsz \<le> 2 ^ 30 \<Longrightarrow> \<exists>sz. expand_size osz nsz = Some sz \<and> nsz \<le> sz \<and> sz < 2 * nsz"
proof (induction "nat (nsz - osz)" arbitrary: osz rule: less_induct)
  case less
  then have small: "osz * 2 < 2 ^ 31" by simp
  show ?case
  proof (cases "osz * 2 < nsz")
    case True
    with less(1) [of "osz * 2"] less(2,4) small show ?thesis by (subst expand_size.simps) auto
  next
    case False
    with less(3) small show ?thesis by (subst expand_size.simps) auto
  qed
qed

lemma expand_buffer_ok:
  assumes "\<And>n. length (fresh n) = n" "0 < osz" "osz < nsz" "nsz \<le> 2 ^ 30"
  shows "\<exists>r. expand_buffer fresh (int osz) (int nsz) = Some r \<and>
    (case r of Inl e \<Rightarrow> e = Too_Large \<and> ENCODE_MAXSIZE < 2 * nsz | Inr buf \<Rightarrow> nsz \<le> length buf \<and> 0 < length buf)"
proof -
  from expand_size_ok [of "int osz" "int nsz"] assms(2-4) obtain sz where
    sz: "expand_size (int osz) (int nsz) = Some sz" "int nsz \<le> sz" "sz < 2 * int nsz" by auto
  then show ?thesis using assms(1-3) by (cases "sz > int ENCODE_MAXSIZE") (auto simp: expand_buffer_def simp flip: length_greater_0_conv)
qed

lemma lsproto_pack_ok:
  assumes fresh: "\<And>n. length (fresh n) = n" and buf: "0 < length buf" and small: "length input \<le> 2 ^ 29"
  shows "\<exists>r buf'. lsproto_pack fresh buf input = Some (r, buf') \<and> 0 < length buf' \<and>
    (r = Inr (pack_spec input) \<or> r = Inl Too_Large \<and> ENCODE_MAXSIZE < 2 * ((length input + 2047) div 2048 * 2 + length input + 2))"
proof -
  define maxsz where "maxsz = (length input + 2047) div 2048 * 2 + length input + 2"
  have bound: "length (pack_spec input) \<le> maxsz" using pack_spec_length by (simp add: maxsz_def)
  have "(length input + 2047) div 2048 \<le> 262144" using div_le_mono [of "length input + 2047" "536872959" 2048] small by simp
  then have max30: "maxsz \<le> 2 ^ 30" using small by (simp add: maxsz_def)
  then have ints: "c_int maxsz = int maxsz" "c_int (length input) = int (length input)" using small by (simp_all add: c_int_id)
  obtain r where r: "(if length buf < maxsz then expand_buffer fresh (int (length buf)) (int maxsz) else Some (Inr buf)) = Some r"
    "case r of Inl e \<Rightarrow> e = Too_Large \<and> ENCODE_MAXSIZE < 2 * maxsz | Inr buf \<Rightarrow> maxsz \<le> length buf \<and> 0 < length buf"
    using expand_buffer_ok [OF fresh buf, of maxsz] buf max30 by (cases "length buf < maxsz") auto
  have eq: "lsproto_pack fresh buf input = (case r of
       Inl e \<Rightarrow> Some (Inl e, buf)
     | Inr buf \<Rightarrow> do {
         (bytes, buf) \<leftarrow> sproto_pack input buf (int maxsz);
         Some (if bytes > maxsz then Inl (Packing_Error bytes) else Inr (take bytes buf), buf) })"
    unfolding lsproto_pack_def Let_def maxsz_def [symmetric] ints r(1) by simp
  show ?thesis
  proof (cases r)
    case (Inl e)
    with r(2) eq buf show ?thesis by (simp add: maxsz_def)
  next
    case (Inr buf1)
    with r(2) have "int maxsz \<le> int (length buf1)" "0 < length buf1" by simp_all
    with sproto_pack_ok [OF this(1), of input] bound eq Inr show ?thesis by (auto simp flip: length_greater_0_conv)
  qed
qed

lemma lsproto_unpack_ok:
  assumes fresh: "\<And>n. length (fresh n) = n" and buf: "0 < length buf" and small: "length src \<le> 2 ^ 27"
  shows "\<exists>r buf'. lsproto_unpack fresh buf src = Some (r, buf') \<and> 0 < length buf' \<and> (case unpack_spec src of
      None \<Rightarrow> r = Inl Invalid_Unpack_Stream
    | Some bs \<Rightarrow> r = Inr bs \<or> r = Inl Too_Large \<and> ENCODE_MAXSIZE < 2 * length bs)"
proof (cases "unpack_spec src")
  case None
  with sproto_unpack_ok [of "int (length buf)" buf src] buf small show ?thesis by (simp add: lsproto_unpack_def)
next
  case (Some bs)
  with sproto_unpack_ok [of "int (length buf)" buf src] small obtain buf1 where
    u: "sproto_unpack src (c_int (length src)) buf (int (length buf)) = Some (Inr (int (length bs), buf1))" "length buf1 = length buf"
    "length bs \<le> length buf \<longrightarrow> take (length bs) buf1 = bs" by auto
  have "buf1 \<noteq> []" using u(2) buf by auto
  show ?thesis
  proof (cases "length bs \<le> length buf")
    case True
    with u Some \<open>buf1 \<noteq> []\<close> show ?thesis by (simp add: lsproto_unpack_def)
  next
    case False
    have "length bs \<le> 2 ^ 30" using unpack_spec_length [OF Some] small by simp
    with False expand_buffer_ok [OF fresh buf, of "length bs"] obtain r where
      r: "expand_buffer fresh (int (length buf)) (int (length bs)) = Some r"
      "case r of Inl e \<Rightarrow> e = Too_Large \<and> ENCODE_MAXSIZE < 2 * length bs | Inr buf \<Rightarrow> length bs \<le> length buf \<and> 0 < length buf"
      by auto
    show ?thesis
    proof (cases r)
      case (Inl e)
      with r u False \<open>buf1 \<noteq> []\<close> Some show ?thesis by (simp add: lsproto_unpack_def)
    next
      case (Inr buf2)
      with r(2) have "int (length bs) \<le> int (length buf2)" "0 < length buf2" by simp_all
      with sproto_unpack_ok [OF _ this(1), of src] Some small obtain buf3 where
        "sproto_unpack src (c_int (length src)) buf2 (int (length bs)) = Some (Inr (int (length bs), buf3))" "length buf3 = length buf2"
        "take (length bs) buf3 = bs" by auto
      moreover from this(2) \<open>0 < length buf2\<close> have "buf3 \<noteq> []" by auto
      ultimately show ?thesis using Inr r(1) u(1) False Some by (simp add: lsproto_unpack_def)
    qed
  qed
qed

text \<open>Bytes that are 0 stand for eight bytes each.\<close>

lemma unpack_zeros_seg:
  "unpack_seg 0 is src st = None \<or> (\<exists>st'. unpack_seg 0 is src st = Some (Inr (src, st')) \<and> up_size st' = up_size st + int (length is) \<and>
     (is \<noteq> [] \<longrightarrow> up_size st' < 2 ^ 31))"
proof (induction "is" arbitrary: st)
  case (Cons i "is")
  show ?case
  proof (cases "unpack_put 0 st")
    case None
    then show ?thesis by simp
  next
    case (Some st1)
    then have s: "up_size st1 = up_size st + 1" "up_size st1 < 2 ^ 31"
      by (auto simp: unpack_put_def c_assert_def bind_eq_Some_conv split: if_splits)
    show ?thesis using Cons.IH [of st1] Some s by (cases "is = []") auto
  qed
qed simp

lemma unpack_zeros:
  "unpack_loop (replicate k 0) st = None \<or> (\<exists>st'. unpack_loop (replicate k 0) st = Some (Inr st') \<and> up_size st' = up_size st + 8 * int k \<and>
     (0 < k \<longrightarrow> up_size st' < 2 ^ 31))"
proof (induction k arbitrary: st)
  case (Suc k)
  have "unpack_seg 0 [0..<8] (replicate k 0) st = None \<or> (\<exists>st'. unpack_seg 0 [0..<8] (replicate k 0) st = Some (Inr (replicate k 0, st')) \<and>
      up_size st' = up_size st + 8 \<and> up_size st' < 2 ^ 31)"
    using unpack_zeros_seg [of "[0..<8]" "replicate k 0" st] by (auto simp del: upt.simps unpack_seg.simps)
  then show ?case
  proof
    assume "\<exists>st'. unpack_seg 0 [0..<8] (replicate k 0) st = Some (Inr (replicate k 0, st')) \<and> up_size st' = up_size st + 8 \<and> up_size st' < 2 ^ 31"
    then obtain st' where st': "unpack_seg 0 [0..<8] (replicate k 0) st = Some (Inr (replicate k 0, st'))" "up_size st' = up_size st + 8"
      "up_size st' < 2 ^ 31" by blast
    from Suc.IH [of st'] st' show ?thesis by (cases "k = 0") (auto simp del: upt.simps unpack_seg.simps)
  qed (simp del: upt.simps unpack_seg.simps)
qed simp

subsection \<open>Properties\<close>

text \<open>Property: for an allocator that returns blocks of the size it is asked for, and any kept buffer that is not empty, the function
  \<^verbatim>\<open>pack\<close> writes only inside of its buffer and returns the packed form of its reference definition, byte for byte; its check of the size never
  fails. The only error is that the buffer would have to become larger than 16 MB, which needs an input of about 8 MB. (The input has
  at most 512 MB: with more of them the size of the buffer may not fit into an \<^verbatim>\<open>int\<close>.)\<close>

theorem sproto_pack_is_reference:
  assumes "\<And>n. length (fresh n) = n" "0 < length buf" "length input \<le> 2 ^ 29"
  shows "\<exists>r buf'. lsproto_pack fresh buf input = Some (r, buf') \<and> 0 < length buf' \<and>
    (r = Inr (pack_spec input) \<or> r = Inl Too_Large \<and> ENCODE_MAXSIZE < 2 * ((length input + 2047) div 2048 * 2 + length input + 2))"
  using lsproto_pack_ok [OF assms] .

theorem sproto_pack_is_reference_witness:
  "\<exists>r buf'. lsproto_pack (\<lambda>n. replicate n 0) [0] [0, 7, 1] = Some (r, buf') \<and> 0 < length buf' \<and> (r = Inr [6, 7, 1])"
proof -
  have "(length [0, 7, 1 :: u8] + 2047) div 2048 * 2 + length [0, 7, 1 :: u8] + 2 = 7" by simp
  moreover have "pack_spec [0, 7, 1] = [6, 7, 1]" by code_simp
  ultimately show ?thesis
    using sproto_pack_is_reference [of "\<lambda>n. replicate n 0" "[0]" "[0, 7, 1]"] by (simp add: ENCODE_MAXSIZE_def)
qed

text \<open>Property C36: an input of at most 8000000 bytes that was packed is unpacked to the same bytes, followed by the fewest 0 bytes that fill
  the last segment, whatever the kept buffers of the two functions hold.\<close>

theorem sproto_pack_reads_back:
  assumes "\<And>n. length (fresh n) = n" "0 < length buf1" "0 < length buf2" "length input \<le> 8000000"
  shows "\<exists>bs buf1' buf2'. lsproto_pack fresh buf1 input = Some (Inr bs, buf1') \<and>
    lsproto_unpack fresh buf2 bs = Some (Inr (input @ replicate ((length input + 7) div 8 * 8 - length input) 0), buf2')"
proof -
  have "length input + 7 < 8001000" using assms(4) by simp
  then have pad: "length (padded input) < 8001000" using div_mult_mod_eq [of "length input + 7" 8] by (simp add: padded_def)
  have "(length input + 2047) div 2048 \<le> 4000" using div_le_mono [of "length input + 2047" "8002047" 2048] assms(4) by simp
  then have "length (pack_spec input) \<le> 2 ^ 27" using pack_spec_length [of input] assms(4) by simp
  note unpack = lsproto_unpack_ok [OF assms(1,3) this]
  from lsproto_pack_ok [OF assms(1,2), where input = input] assms(4) \<open>(length input + 2047) div 2048 \<le> 4000\<close>
  obtain buf1' where "lsproto_pack fresh buf1 input = Some (Inr (pack_spec input), buf1')"
    by (auto simp: ENCODE_MAXSIZE_def)
  with unpack pad show ?thesis
    by (auto simp: unpack_pack_spec ENCODE_MAXSIZE_def padded_def)
qed

theorem sproto_pack_reads_back_witness:
  "\<exists>bs buf1' buf2'. lsproto_pack (\<lambda>n. replicate n 0) [0] [1, 2] = Some (Inr bs, buf1') \<and>
    lsproto_unpack (\<lambda>n. replicate n 0) [3] bs = Some (Inr [1, 2, 0, 0, 0, 0, 0, 0], buf2')"
proof -
  have "[1, 2] @ replicate ((length [1, 2 :: u8] + 7) div 8 * 8 - length [1, 2 :: u8]) 0 = [1, 2, 0, 0, 0, 0, 0, 0 :: u8]" by code_simp
  with sproto_pack_reads_back [of "\<lambda>n. replicate n 0" "[0]" "[3]" "[1, 2]"] show ?thesis by (simp only:) simp
qed

text \<open>Property C37: on any input of at most 128 MB, whatever its bytes, \<^verbatim>\<open>unpack\<close> reads only its input, writes only inside of its buffer, and no
  \<^verbatim>\<open>int\<close> of it overflows. It returns what the reference definition reads, or the error that this is too large, and it reports an
  invalid stream exactly when the input ends inside of a segment.\<close>

theorem sproto_unpack_any_bytes:
  assumes "\<And>n. length (fresh n) = n" "0 < length buf" "length src \<le> 2 ^ 27"
  shows "\<exists>r buf'. lsproto_unpack fresh buf src = Some (r, buf') \<and> 0 < length buf' \<and> (case unpack_spec src of
      None \<Rightarrow> r = Inl Invalid_Unpack_Stream
    | Some bs \<Rightarrow> r = Inr bs \<or> r = Inl Too_Large \<and> ENCODE_MAXSIZE < 2 * length bs)"
  using lsproto_unpack_ok [OF assms] .

theorem sproto_unpack_any_bytes_witness:
  "\<exists>r buf'. lsproto_unpack (\<lambda>n. replicate n 0) [0] [3, 1] = Some (r, buf') \<and> 0 < length buf' \<and> r = Inl Invalid_Unpack_Stream"
  using sproto_unpack_any_bytes [of "\<lambda>n. replicate n 0" "[0]" "[3, 1]"] by (simp add: upt_rec)

text \<open>Property: an input of 256 MB of bytes that are 0 makes the size of the result overflow: the size is an \<^verbatim>\<open>int\<close> and nothing checks it
  before all of the input is counted.\<close>

theorem sproto_unpack_size_overflows: "lsproto_unpack fresh buf (replicate (2 ^ 28) 0) = None"
proof -
  let ?st = "\<lparr>up_buffer = buf, up_pos = 0, up_bufsz = int (length buf), up_size = 0\<rparr>"
  have "unpack_loop (replicate (2 ^ 28) 0) ?st = None"
    using unpack_zeros [of "2 ^ 28" ?st] by (elim disjE exE conjE) simp_all
  moreover have "nat (c_int (2 ^ 28)) = 2 ^ 28" by (simp add: c_int_id)
  ultimately show ?thesis unfolding lsproto_unpack_def sproto_unpack_def length_replicate by simp
qed

end
