(* ===== verification/Sproto_Lua.thy ===== *)
theory Sproto_Lua
  imports Sproto_Wire Sproto_Pack
begin

text \<open>
  Encoding and decoding of Lua tables in \<^verbatim>\<open>lualib-src/sproto/lsproto.c\<close>: the callbacks for \<^verbatim>\<open>sproto.c\<close>, which call its functions again for a
  table in a table.

  A Lua table is the list of its pairs in the order in which \<^verbatim>\<open>next\<close> visits them. There are no metatables in the model. A number with a fraction
  is its 64 bits; what Lua and the C library compute with it is a parameter.
\<close>

subsection \<open>Lua values\<close>

datatype lua_value =
    LNil
  | LBoolean bool
  | LInteger u64
  | LNumber u64
  | LString "u8 list"
  | LTable "(lua_value \<times> lua_value) list"

text \<open>\<^verbatim>\<open>lua_tointegerx\<close> (\<open>None\<close> when the value is not an integer), \<^verbatim>\<open>lua_tonumber\<close>, for a decimal with its factor
  \<^verbatim>\<open>round(vn * extra)\<close> and \<^verbatim>\<open>(lua_Number)v / extra\<close>, and the key under which \<^verbatim>\<open>lua_settable\<close> stores a value: an integer for a number
  without a fraction, \<open>None\<close> for a NaN, which it does not accept.\<close>

record lua_arith =
  la_tointeger :: "lua_value \<Rightarrow> u64 option"
  la_tonumber :: "lua_value \<Rightarrow> u64"
  la_scale :: "int \<Rightarrow> u64 \<Rightarrow> u64"
  la_unscale :: "int \<Rightarrow> u64 \<Rightarrow> u64"
  la_key :: "lua_value \<Rightarrow> lua_value option"

type_synonym lua_pairs = "(lua_value \<times> lua_value) list"

fun lua_get :: "lua_pairs \<Rightarrow> lua_value \<Rightarrow> lua_value" where
  "lua_get [] k = LNil"
| "lua_get ((k', v) # ps) k = (if k = k' then v else lua_get ps k)"

fun lua_set :: "lua_pairs \<Rightarrow> lua_value \<Rightarrow> lua_value \<Rightarrow> lua_pairs" where
  "lua_set [] k v = (if v = LNil then [] else [(k, v)])"
| "lua_set ((k', w) # ps) k v = (if k = k' then (if v = LNil then ps else (k, v) # ps) else (k', w) # lua_set ps k v)"

definition ENCODE_DEEPLEVEL :: nat where "ENCODE_DEEPLEVEL = 64"

datatype lsproto_error = Too_Deep | Not_A_Table | Not_An_Integer | Not_A_Boolean | Not_A_String | Invalid_Type | Object_Too_Large | Decode_Error
  | No_Key_Field | No_Value_Field | No_Main_Index | Not_A_Key

text \<open>A name is a key; a pointer to no text is not one.\<close>

definition name_key :: "u8 list option \<Rightarrow> (lsproto_error, lua_value) run" where
  "name_key name = (case name of None \<Rightarrow> Bad | Some n \<Rightarrow> Ret (LString (c_text n)))"

subsection \<open>Encoding\<close>

text \<open>The value for a field: for an array the element with the index, in the order of \<^verbatim>\<open>next\<close> when the type has a main index, as the table of key
  and value for a map. The state of the C code, which keeps the array and the last key between two calls, follows from the index.\<close>

definition get_encodefield :: "lua_value \<Rightarrow> sproto_arg \<Rightarrow> (lsproto_error, cb_result + lua_value) run" where
  "get_encodefield tbl args = (case tbl of
     LTable ps \<Rightarrow> rbind (name_key (ar_tagname args)) (\<lambda>name. let v = lua_get ps name in
       if ar_index args > 0 then
         (case v of
            LNil \<Rightarrow> Ret (Inl Cb_Noarray)
          | LTable els \<Rightarrow>
              if ar_mainindex args \<ge> 0 then
                (if nat (ar_index args) \<le> length els then
                   let (k, w) = els ! (nat (ar_index args) - 1) in
                   if ar_ktagname args \<noteq> None then
                     rbind (name_key (ar_ktagname args)) (\<lambda>kname. rbind (name_key (ar_vtagname args)) (\<lambda>vname.
                       Ret (Inr (LTable (lua_set (lua_set [] vname w) kname k)))))
                   else Ret (Inr w)
                 else Ret (Inl Cb_Nil))
              else Ret (Inr (lua_get els (LInteger (word_of_int (ar_index args)))))
          | _ \<Rightarrow> Raise Not_A_Table)
       else Ret (Inr v))
   | _ \<Rightarrow> Raise Not_A_Table)"

text \<open>An integer that fits into 32 bits takes 4 bytes.\<close>

definition integer_bytes :: "u64 \<Rightarrow> u8 list" where
  "integer_bytes v = (let vh = signed_drop_bit 31 v in if vh = 0 \<or> vh = - 1 then le_bytes 4 (unat v) else le_bytes 8 (unat v))"

definition encode_one :: "lua_arith \<Rightarrow> sproto_type list \<Rightarrow> (lua_value \<Rightarrow> lsproto_error enc_cb) \<Rightarrow> lua_value \<Rightarrow> sproto_arg \<Rightarrow> (lsproto_error, cb_result) run" where
  "encode_one la types sub v args =
     (if ar_type args = SPROTO_TINTEGER then
        (if ar_extra args \<noteq> 0 then Ret (Cb_Bytes (integer_bytes (la_scale la (ar_extra args) (la_tonumber la v))))
         else case la_tointeger la v of None \<Rightarrow> Raise Not_An_Integer | Some i \<Rightarrow> Ret (Cb_Bytes (integer_bytes i)))
      else if ar_type args = SPROTO_TDOUBLE then Ret (Cb_Bytes (le_bytes 8 (unat (la_tonumber la v))))
      else if ar_type args = SPROTO_TBOOLEAN then
        (case v of LBoolean b \<Rightarrow> Ret (Cb_Bytes (le_bytes 4 (if b then 1 else 0))) | _ \<Rightarrow> Raise Not_A_Boolean)
      else if ar_type args = SPROTO_TSTRING then
        (case v of
           LString str \<Rightarrow> Ret (if (of_nat (length str) :: u64) > word_of_int (ar_length args) then Cb_Error else Cb_Bytes str)
         | _ \<Rightarrow> Raise Not_A_String)
      else if ar_type args = SPROTO_TSTRUCT then
        rbind (from_read (Option.bind (ar_subtype args) (array_get types))) (\<lambda>st.
          case sproto_encode types st (ar_length args) (sub v) of
            Ret bs \<Rightarrow> Ret (Cb_Bytes bs)
          | Minus \<Rightarrow> Ret Cb_Error
          | Raise e \<Rightarrow> Raise e
          | Bad \<Rightarrow> Bad)
      else Raise Invalid_Type)"

text \<open>The callback \<^verbatim>\<open>encode\<close>. The first argument is how much deeper the tables may be, the last but one the table.\<close>

fun lua_encode :: "nat \<Rightarrow> lua_arith \<Rightarrow> sproto_type list \<Rightarrow> lua_value \<Rightarrow> lsproto_error enc_cb" where
  "lua_encode 0 la types tbl args = Raise Too_Deep"
| "lua_encode (Suc d) la types tbl args = rbind (get_encodefield tbl args) (\<lambda>r. case r of
     Inl code \<Rightarrow> Ret code
   | Inr LNil \<Rightarrow> Ret Cb_Nil
   | Inr v \<Rightarrow> encode_one la types (\<lambda>v args. lua_encode d la types v args) v args)"

text \<open>The function \<^verbatim>\<open>encode\<close> for Lua: the buffer is doubled until the encoded table fits. The results are the string and the size of the
  buffer that is kept. The kept buffer is never of size 0, with which the loop of the code would not end.\<close>

function lencode_loop :: "lua_arith \<Rightarrow> sproto_type list \<Rightarrow> sproto_type \<Rightarrow> lua_value \<Rightarrow> nat \<Rightarrow> (lsproto_error, u8 list \<times> nat) run" where
  "lencode_loop la types st tbl sz = (case sproto_encode types st (int sz) (lua_encode ENCODE_DEEPLEVEL la types tbl) of
     Raise e \<Rightarrow> Raise e
   | Bad \<Rightarrow> Bad
   | Ret bs \<Rightarrow> Ret (bs, sz)
   | Minus \<Rightarrow> if sz * 2 > ENCODE_MAXSIZE \<or> sz = 0 then Raise Object_Too_Large else lencode_loop la types st tbl (sz * 2))"
  by pat_completeness auto
termination by (relation "measure (\<lambda>(la, types, st, tbl, sz). ENCODE_MAXSIZE - sz)") auto

declare lencode_loop.simps [simp del]

text \<open>The first argument is the type, or \<open>None\<close> for a response without one.\<close>

definition lencode :: "lua_arith \<Rightarrow> sproto_type list \<Rightarrow> sproto_type option \<Rightarrow> lua_value \<Rightarrow> nat \<Rightarrow> (lsproto_error, u8 list \<times> nat) run" where
  "lencode la types st tbl sz = (case st of
     None \<Rightarrow> if tbl = LNil then Ret ([], sz) else Raise Not_A_Table
   | Some st \<Rightarrow> lencode_loop la types st tbl sz)"

subsection \<open>Decoding\<close>

text \<open>The state of the callback \<^verbatim>\<open>decode\<close>: the table it fills, the tag of the last array, whose table is a value of this table, the tag of the
  main index and the value found for it, and the table that the entries of a map are decoded into.\<close>

record decode_ud =
  du_result :: lua_pairs
  du_array_tag :: "int option"
  du_mainindex_tag :: int
  du_key :: lua_value
  du_map_entry :: "lua_pairs option"

definition array_set_at :: "lua_pairs \<Rightarrow> lua_value \<Rightarrow> lua_value \<Rightarrow> lua_value \<Rightarrow> lua_pairs option" where
  "array_set_at ps name k v = (case lua_get ps name of LTable els \<Rightarrow> Some (lua_set ps name (LTable (lua_set els k v))) | _ \<Rightarrow> None)"

text \<open>\<^verbatim>\<open>lua_settable\<close> on the array, for the main index or the key of a map.\<close>

definition set_entry :: "lua_arith \<Rightarrow> lua_value \<Rightarrow> lua_value \<Rightarrow> lua_value \<Rightarrow> decode_ud \<Rightarrow> (lsproto_error, int \<times> decode_ud) run" where
  "set_entry la name k v u = (case la_key la k of
     None \<Rightarrow> Raise Not_A_Key
   | Some k \<Rightarrow> rbind (from_read (array_set_at (du_result u) name k v)) (\<lambda>ps. Ret (0, u\<lparr>du_result := ps\<rparr>)))"

text \<open>The array of a field begins. A pointer to a name is identified by the tag of its field.\<close>

definition begin_array :: "sproto_arg \<Rightarrow> lua_value \<Rightarrow> decode_ud \<Rightarrow> decode_ud" where
  "begin_array args name u =
     (if ar_index args \<noteq> 0 \<and> du_array_tag u \<noteq> Some (ar_tagid args)
      then u\<lparr>du_array_tag := Some (ar_tagid args), du_result := lua_set (du_result u) name (LTable [])\<rparr> else u)"

definition read_number :: "sproto_arg \<Rightarrow> (lsproto_error, u64) run" where
  "read_number args = (if length (ar_value args) < 8 then Bad else Ret (of_nat (le_nat (take 8 (ar_value args)))))"

text \<open>A value is put into the array or into the table.\<close>

definition store_value :: "sproto_arg \<Rightarrow> lua_value \<Rightarrow> lua_value \<Rightarrow> decode_ud \<Rightarrow> (lsproto_error, int \<times> decode_ud) run" where
  "store_value args name v u =
     (if ar_index args > 0 then
        rbind (from_read (array_set_at (du_result u) name (LInteger (word_of_int (ar_index args))) v)) (\<lambda>ps. Ret (0, u\<lparr>du_result := ps\<rparr>))
      else let u = (if du_mainindex_tag u = ar_tagid args then u\<lparr>du_key := v\<rparr> else u) in
        Ret (0, u\<lparr>du_result := lua_set (du_result u) name v\<rparr>))"

definition empty_ud :: "lua_pairs \<Rightarrow> int \<Rightarrow> decode_ud" where
  "empty_ud ps tag = \<lparr>du_result = ps, du_array_tag = None, du_mainindex_tag = tag, du_key = LNil, du_map_entry = None\<rparr>"

text \<open>A table in a table. The entry of a map is decoded into the same table as the entries before.\<close>

definition decode_struct :: "lua_arith \<Rightarrow> sproto_type list \<Rightarrow> (lsproto_error, decode_ud) dec_cb \<Rightarrow> sproto_arg \<Rightarrow> lua_value \<Rightarrow> decode_ud \<Rightarrow>
    (lsproto_error, int \<times> decode_ud) run" where
  "decode_struct la types sub args name u = (let
     mp = ar_ktagname args \<noteq> None;
     start = (if mp then (case du_map_entry u of None \<Rightarrow> [] | Some ps \<Rightarrow> ps) else []);
     keep = (\<lambda>ps u. if mp then u\<lparr>du_map_entry := Some ps\<rparr> else u) in
     rbind (from_read (Option.bind (ar_subtype args) (array_get types))) (\<lambda>st.
       case sproto_decode types st (ar_value args) (ar_length args) sub
           (empty_ud start (if ar_mainindex args \<ge> 0 then ar_mainindex args else - 1)) of
         Bad \<Rightarrow> Bad
       | Raise e \<Rightarrow> Raise e
       | Minus \<Rightarrow> Ret (- 1, u)
       | Ret (r, w) \<Rightarrow>
           let u = keep (du_result w) u in
           if r \<noteq> ar_length args then Ret (r, u)
           else if ar_mainindex args < 0 then store_value args name (LTable (du_result w)) u
           else if mp then
             rbind (name_key (ar_ktagname args)) (\<lambda>kname. rbind (name_key (ar_vtagname args)) (\<lambda>vname.
               let k = lua_get (du_result w) kname; v = lua_get (du_result w) vname in
               if k = LNil then Raise No_Key_Field
               else if v = LNil then Raise No_Value_Field
               else set_entry la name k v u))
           else if du_key w = LNil then Raise No_Main_Index
           else set_entry la name (du_key w) (LTable (du_result w)) u))"

fun lua_decode :: "nat \<Rightarrow> lua_arith \<Rightarrow> sproto_type list \<Rightarrow> (lsproto_error, decode_ud) dec_cb" where
  "lua_decode 0 la types args u = Raise Too_Deep"
| "lua_decode (Suc d) la types args u = rbind (name_key (ar_tagname args)) (\<lambda>name.
     let new = (ar_index args \<noteq> 0 \<and> du_array_tag u \<noteq> Some (ar_tagid args)); u = begin_array args name u in
     if new \<and> ar_index args < 0 then Ret (0, u)
     else if ar_type args = SPROTO_TINTEGER then rbind (read_number args) (\<lambda>v.
       store_value args name (if ar_extra args \<noteq> 0 then LNumber (la_unscale la (ar_extra args) v) else LInteger v) u)
     else if ar_type args = SPROTO_TDOUBLE then rbind (read_number args) (\<lambda>v. store_value args name (LNumber v) u)
     else if ar_type args = SPROTO_TBOOLEAN then rbind (read_number args) (\<lambda>v. store_value args name (LBoolean ((ucast v :: u32) \<noteq> 0)) u)
     else if ar_type args = SPROTO_TSTRING then
       (if ar_length args < 0 \<or> int (length (ar_value args)) < ar_length args then Bad
        else store_value args name (LString (take (nat (ar_length args)) (ar_value args))) u)
     else if ar_type args = SPROTO_TSTRUCT then decode_struct la types (\<lambda>args u. lua_decode d la types args u) args name u
     else Raise Invalid_Type)"

text \<open>The function \<^verbatim>\<open>decode\<close> for Lua, of a string, into a new table: the table and the number of bytes that were read. The size is converted
  to an \<^verbatim>\<open>int\<close>.\<close>

definition ldecode :: "lua_arith \<Rightarrow> sproto_type list \<Rightarrow> sproto_type option \<Rightarrow> u8 list \<Rightarrow> (lsproto_error, (lua_value \<times> int) option) run" where
  "ldecode la types st data = (case st of
     None \<Rightarrow> Ret None
   | Some st \<Rightarrow>
       (case sproto_decode types st data (sint (of_nat (length data) :: u32)) (lua_decode ENCODE_DEEPLEVEL la types) (empty_ud [] (- 1)) of
          Bad \<Rightarrow> Bad
        | Raise e \<Rightarrow> Raise e
        | Minus \<Rightarrow> Raise Decode_Error
        | Ret (r, u) \<Rightarrow> Ret (Some (LTable (du_result u), r))))"

end
