(* ===== verification/Multicast.thy ===== *)
theory Multicast
  imports Skynet_Prelude
begin

text \<open>
  The packages of \<^verbatim>\<open>lualib-src/lua-multicast.c\<close>: a message that is published to the services of a node is kept once, in a package with a
  count of the receivers that have not closed it. What travels in the messages is a pointer to the package.

  The heap has three kinds of blocks: the bytes of a message, the packages, and the cells that hold a pointer to a package. The addresses that
  \<^verbatim>\<open>skynet_malloc\<close> returns are arguments. \<open>None\<close> is the use of a pointer whose block is not allocated; a result \<open>Inl\<close> is an error
  in Lua.
\<close>

subsection \<open>The heap\<close>

record mc_package =
  mp_reference :: int
  mp_size :: u32
  mp_data :: nat

record mc_heap =
  mh_block :: "nat \<rightharpoonup> u8 list"
  mh_package :: "nat \<rightharpoonup> mc_package"
  mh_cell :: "nat \<rightharpoonup> nat"

definition free_block :: "mc_heap \<Rightarrow> nat \<Rightarrow> mc_heap option" where
  "free_block h a = (if mh_block h a = None then None else Some (h\<lparr>mh_block := (mh_block h)(a := None)\<rparr>))"

definition free_package :: "mc_heap \<Rightarrow> nat \<Rightarrow> mc_heap option" where
  "free_package h a = (if mh_package h a = None then None else Some (h\<lparr>mh_package := (mh_package h)(a := None)\<rparr>))"

definition free_cell :: "mc_heap \<Rightarrow> nat \<Rightarrow> mc_heap option" where
  "free_cell h a = (if mh_cell h a = None then None else Some (h\<lparr>mh_cell := (mh_cell h)(a := None)\<rparr>))"

datatype mc_error = Size_Not_32_Bit | Invalid_Package_Size int | Bound_Twice | Invalid_Reference int

subsection \<open>The functions for Lua\<close>

text \<open>A Lua integer has 64 bits; a conversion to \<^verbatim>\<open>int\<close> keeps the low 32.\<close>

definition to_int :: "u64 \<Rightarrow> int" where
  "to_int x = sint (ucast x :: u32)"

definition mc_pack :: "mc_heap \<Rightarrow> nat \<Rightarrow> nat \<Rightarrow> nat \<Rightarrow> u64 \<Rightarrow> (nat \<times> u64) \<times> mc_heap" where
  "mc_pack h pack ret data sz =
     ((ret, 8), h\<lparr>mh_package := (mh_package h)(pack \<mapsto> \<lparr>mp_reference = 0, mp_size = ucast sz, mp_data = data\<rparr>),
       mh_cell := (mh_cell h)(ret \<mapsto> pack)\<rparr>)"

definition mc_packlocal :: "mc_heap \<Rightarrow> nat \<Rightarrow> nat \<Rightarrow> nat \<Rightarrow> u64 \<Rightarrow> mc_error + (nat \<times> u64) \<times> mc_heap" where
  "mc_packlocal h pack ret data sz =
     (if sz \<noteq> ucast (ucast sz :: u32) then Inl Size_Not_32_Bit else Inr (mc_pack h pack ret data sz))"

text \<open>The bytes at \<open>data\<close> are those of a message of another node; the package gets a copy of them.\<close>

definition mc_packremote :: "mc_heap \<Rightarrow> nat \<Rightarrow> nat \<Rightarrow> nat \<Rightarrow> u8 list \<Rightarrow> u64 \<Rightarrow> (mc_error + (nat \<times> u64) \<times> mc_heap) option" where
  "mc_packremote h msg pack ret data sz =
     (if sz \<noteq> ucast (ucast sz :: u32) then Some (Inl Size_Not_32_Bit)
      else if length data < unat sz then None
      else Some (Inr (mc_pack (h\<lparr>mh_block := (mh_block h)(msg \<mapsto> take (unat sz) data)\<rparr>) pack ret msg sz)))"

definition mc_unpacklocal :: "mc_heap \<Rightarrow> nat \<Rightarrow> u64 \<Rightarrow> (mc_error + nat \<times> nat \<times> u32) option" where
  "mc_unpacklocal h pack sz =
     (if to_int sz \<noteq> 8 then Some (Inl (Invalid_Package_Size (to_int sz)))
      else do {
        a \<leftarrow> mh_cell h pack;
        p \<leftarrow> mh_package h a;
        Some (Inr (a, mp_data p, mp_size p)) })"

definition mc_bindrefer :: "mc_heap \<Rightarrow> nat \<Rightarrow> u64 \<Rightarrow> (mc_error + nat \<times> mc_heap) option" where
  "mc_bindrefer h pack ref = do {
     a \<leftarrow> mh_cell h pack;
     p \<leftarrow> mh_package h a;
     if mp_reference p \<noteq> 0 then Some (Inl Bound_Twice)
     else do {
       h \<leftarrow> free_cell (h\<lparr>mh_package := (mh_package h)(a \<mapsto> p\<lparr>mp_reference := to_int ref\<rparr>)\<rparr>) pack;
       Some (Inr (a, h)) } }"

definition mc_closelocal :: "mc_heap \<Rightarrow> nat \<Rightarrow> ((mc_error + unit) \<times> mc_heap) option" where
  "mc_closelocal h pack = do {
     p \<leftarrow> mh_package h pack;
     let ref = mp_reference p - 1;
     let h = h\<lparr>mh_package := (mh_package h)(pack \<mapsto> p\<lparr>mp_reference := ref\<rparr>)\<rparr>;
     if ref \<le> 0 then do {
       h \<leftarrow> free_block h (mp_data p);
       h \<leftarrow> free_package h pack;
       Some (if ref < 0 then Inl (Invalid_Reference ref) else Inr (), h) }
     else Some (Inr (), h) }"

text \<open>The bytes of the package go to the caller.\<close>

definition mc_remote :: "mc_heap \<Rightarrow> nat \<Rightarrow> ((nat \<times> u32) \<times> mc_heap) option" where
  "mc_remote h ptr = do {
     pack \<leftarrow> mh_cell h ptr;
     p \<leftarrow> mh_package h pack;
     h \<leftarrow> free_package h pack;
     h \<leftarrow> free_cell h ptr;
     Some ((mp_data p, mp_size p), h) }"

definition mc_nextid :: "u64 \<Rightarrow> u32" where
  "mc_nextid i = (ucast i + 256) AND 0x7fffffff"

subsection \<open>A package lives until its last receiver closes it\<close>

text \<open>Closing \<open>k\<close> times without an error.\<close>

fun closes :: "nat \<Rightarrow> nat \<Rightarrow> mc_heap \<Rightarrow> mc_heap option" where
  "closes 0 a h = Some h"
| "closes (Suc k) a h = (case mc_closelocal h a of Some (Inr _, h) \<Rightarrow> closes k a h | _ \<Rightarrow> None)"

lemma closes_early:
  assumes "mh_package h a = Some p" "int k < mp_reference p"
  shows "closes k a h = Some (h\<lparr>mh_package := (mh_package h)(a \<mapsto> p\<lparr>mp_reference := mp_reference p - int k\<rparr>)\<rparr>)"
  using assms
proof (induction k arbitrary: h p)
  case 0
  then have "(mh_package h)(a \<mapsto> p) = mh_package h" by auto
  then show ?case by simp
next
  case (Suc k)
  let ?h = "h\<lparr>mh_package := (mh_package h)(a \<mapsto> p\<lparr>mp_reference := mp_reference p - 1\<rparr>)\<rparr>"
  have "mc_closelocal h a = Some (Inr (), ?h)" using Suc.prems by (simp add: mc_closelocal_def Let_def)
  with Suc.IH [of ?h "p\<lparr>mp_reference := mp_reference p - 1\<rparr>"] Suc.prems show ?case by (simp add: algebra_simps fun_upd_def cong: if_cong)
qed

lemma closes_add: "closes (k + l) a h = Option.bind (closes k a h) (closes l a)"
  by (induction k arbitrary: h) (auto split: option.splits sum.splits)

lemma closes_all:
  assumes "mh_package h a = Some p" "mp_reference p = int (Suc n)" "mh_block h (mp_data p) \<noteq> None"
  shows "closes (Suc n) a h = Some (h\<lparr>mh_block := (mh_block h)(mp_data p := None), mh_package := (mh_package h)(a := None)\<rparr>)"
proof -
  have "closes n a h = Some (h\<lparr>mh_package := (mh_package h)(a \<mapsto> p\<lparr>mp_reference := 1\<rparr>)\<rparr>)"
    using closes_early [OF assms(1), of n] assms(2) by simp
  then show ?thesis
    using closes_add [of n 1 a h] assms(3) by (auto simp: mc_closelocal_def free_block_def free_package_def Let_def)
qed

text \<open>A package that goes to another node leaves its bytes, and nothing else, to the caller.\<close>

lemma remote_gives_back:
  assumes "mh_package h pack = None" "mh_cell h ret = None" "mc_packlocal h pack ret data sz = Inr (r, h1)"
  shows "mc_remote h1 ret = Some ((data, ucast sz), h)"
proof -
  have "(mh_package h)(pack := None) = mh_package h" "(mh_cell h)(ret := None) = mh_cell h" using assms by auto
  with assms(3) show ?thesis
    by (auto simp: mc_packlocal_def mc_pack_def mc_remote_def free_package_def free_cell_def split: if_splits)
qed

lemma bind_twice_fails:
  assumes "mh_cell h p = Some a" "mh_package h a = Some q" "mp_reference q \<noteq> 0"
  shows "mc_bindrefer h p ref = Some (Inl Bound_Twice)"
  using assms by (simp add: mc_bindrefer_def)

text \<open>Property C34: a package is bound to a number of receivers, of which each one unpacks the pointer it was sent and closes the package
  once. In whatever order they do so, a receiver that comes after at most all of the others finds the package, and the bytes of the message as
  they were. The last one gives back the bytes and the package, so that nothing of it is left, and a further close would use memory that was
  given back.\<close>

theorem multicast_freed_by_last_receiver:
  assumes "mh_package h pack = None" "mh_cell h ret = None" "mh_block h data = Some msg" "unat sz = length msg" "length msg < 2 ^ 32"
    and "0 < n" "n < 2 ^ 31"
  shows "\<exists>h1 h2. mc_packlocal h pack ret data sz = Inr ((ret, 8), h1) \<and> mc_bindrefer h1 ret (of_nat n) = Some (Inr (pack, h2)) \<and>
    (\<forall>k<n. \<exists>h3. closes k pack h2 = Some h3 \<and> mh_block h3 data = Some msg \<and>
       (\<forall>cell. mh_cell h3 cell = Some pack \<longrightarrow> mc_unpacklocal h3 cell 8 = Some (Inr (pack, data, of_nat (length msg))))) \<and>
    (let h4 = h\<lparr>mh_block := (mh_block h)(data := None)\<rparr> in closes n pack h2 = Some h4 \<and> mc_closelocal h4 pack = None)"
proof -
  have n: "to_int (of_nat n) = int n"
  proof -
    have "(ucast (of_nat n :: u64) :: u32) = of_nat n" by (rule bit_word_eqI) (simp add: bit_simps)
    then show ?thesis using assms(7) by (simp add: to_int_def signed_of_nat signed_take_bit_int_eq_self)
  qed
  have size: "sz = of_nat (length msg)" by (simp add: assms(4) [symmetric])
  have sz: "sz = ucast (ucast sz :: u32)" "(ucast sz :: u32) = of_nat (length msg)"
  proof -
    have "unat (ucast (ucast sz :: u32) :: u64) = unat sz"
      using assms(4,5) by (simp add: unsigned_ucast_eq unsigned_take_bit_eq take_bit_nat_eq_self)
    then show "sz = ucast (ucast sz :: u32)" by (simp add: word_unat_eq_iff)
    show "(ucast sz :: u32) = of_nat (length msg)" unfolding size by (rule bit_word_eqI) (simp add: bit_simps)
  qed
  let ?p = "\<lparr>mp_reference = 0, mp_size = of_nat (length msg), mp_data = data\<rparr>"
  let ?h1 = "h\<lparr>mh_package := (mh_package h)(pack \<mapsto> ?p), mh_cell := (mh_cell h)(ret \<mapsto> pack)\<rparr>"
  let ?q = "?p\<lparr>mp_reference := int n\<rparr>"
  let ?h2 = "h\<lparr>mh_package := (mh_package h)(pack \<mapsto> ?q)\<rparr>"
  have h1: "mc_packlocal h pack ret data sz = Inr ((ret, 8), ?h1)"
    using sz unfolding mc_packlocal_def by (simp add: mc_pack_def)
  have "(mh_cell h)(ret := None) = mh_cell h" using assms(2) by auto
  then have h2: "mc_bindrefer ?h1 ret (of_nat n) = Some (Inr (pack, ?h2))"
    by (simp add: mc_bindrefer_def free_cell_def n)
  have q: "mh_package ?h2 pack = Some ?q" by simp
  have k: "\<exists>h3. closes k pack ?h2 = Some h3 \<and> mh_block h3 data = Some msg \<and>
       (\<forall>cell. mh_cell h3 cell = Some pack \<longrightarrow> mc_unpacklocal h3 cell 8 = Some (Inr (pack, data, of_nat (length msg))))" if "k < n" for k
    using closes_early [OF q, of k] that assms(3) by (simp add: mc_unpacklocal_def to_int_def)
  obtain m where m: "n = Suc m" using assms(6) by (cases n) auto
  have "(mh_package h)(pack := None) = mh_package h" using assms(1) by auto
  then have last: "closes n pack ?h2 = Some (h\<lparr>mh_block := (mh_block h)(data := None)\<rparr>)"
    using closes_all [OF q, of m] assms(3) m by simp
  have "mc_closelocal (h\<lparr>mh_block := (mh_block h)(data := None)\<rparr>) pack = None"
    using assms(1) by (simp add: mc_closelocal_def)
  with h1 h2 k last show ?thesis unfolding Let_def by blast
qed

theorem multicast_freed_by_last_receiver_witness:
  "let h = \<lparr>mh_block = [5 \<mapsto> [1, 2, 3]], mh_package = Map.empty, mh_cell = Map.empty\<rparr> in
   \<exists>h1 h2. mc_packlocal h 7 9 5 3 = Inr ((9, 8), h1) \<and> mc_bindrefer h1 9 2 = Some (Inr (7, h2)) \<and>
    closes 2 7 h2 = Some (h\<lparr>mh_block := Map.empty\<rparr>)"
  using multicast_freed_by_last_receiver [of "\<lparr>mh_block = [5 \<mapsto> [1, 2, 3]], mh_package = Map.empty, mh_cell = Map.empty\<rparr>" 7 9 5 "[1, 2, 3]" 3 2]
  by (auto simp: Let_def)

fun nextids :: "nat \<Rightarrow> u32 \<Rightarrow> u32" where
  "nextids 0 i = i"
| "nextids (Suc k) i = mc_nextid (ucast (nextids k i))"

lemma uint_nextid: "uint (mc_nextid (ucast (i :: u32))) = (uint i + 256) mod 2 ^ 31"
proof -
  have "0x7fffffff = (mask 31 :: u32)" by (simp add: mask_eq_exp_minus_1)
  moreover have "ucast (ucast i :: u64) = i" by (rule bit_word_eqI) (simp add: bit_simps)
  ultimately have "mc_nextid (ucast i) = take_bit 31 (i + 256)" by (simp add: mc_nextid_def take_bit_eq_mask)
  then have "uint (mc_nextid (ucast i)) = take_bit 31 (uint (i + 256))" by (simp only: unsigned_take_bit_eq)
  then show ?thesis by (simp add: take_bit_eq_mod uint_word_ariths mod_mod_cancel)
qed

lemma uint_nextids:
  assumes "i < 2 ^ 31"
  shows "uint (nextids k i) = (uint i + 256 * int k) mod 2 ^ 31"
proof (induction k)
  case 0
  have "uint i < uint (2 ^ 31 :: u32)" using assms by (simp only: word_less_def)
  then show ?case by simp
next
  case (Suc k)
  then show ?case using mod_add_right_eq [of 256 "uint i + int k * 256" "2147483648"] by (simp add: uint_nextid algebra_simps)
qed

text \<open>Property: the next channel number keeps the low 8 bits, which are the number of the node, and is less than \<open>2 ^ 31\<close>. From a
  channel number on, the same number comes back after \<open>2 ^ 23\<close> steps and not before.\<close>

theorem multicast_nextid_cycle:
  assumes "i < 2 ^ 31"
  shows "nextids k i < 2 ^ 31 \<and> nextids k i AND 0xff = i AND 0xff \<and> (nextids k i = i \<longleftrightarrow> 2 ^ 23 dvd k)"
proof (intro conjI)
  note u = uint_nextids [OF assms, of k]
  have i: "uint i < 2 ^ 31"
  proof -
    have "uint i < uint (2 ^ 31 :: u32)" using assms by (simp only: word_less_def)
    then show ?thesis by simp
  qed
  show "nextids k i < 2 ^ 31" by (simp add: word_less_def u)
  have ff: "(0xff :: u32) = mask 8" by (simp add: mask_eq_exp_minus_1)
  have "uint (take_bit 8 (nextids k i)) = uint (take_bit 8 i)"
  proof -
    have "uint (take_bit 8 (nextids k i)) = (uint i + 256 * int k) mod 2 ^ 31 mod 256"
      by (simp add: unsigned_take_bit_eq u) (simp add: take_bit_eq_mod)
    also have "\<dots> = (uint i + 256 * int k) mod 256" by (simp add: mod_mod_cancel)
    also have "\<dots> = uint (take_bit 8 i)" by (simp add: unsigned_take_bit_eq) (simp add: take_bit_eq_mod)
    finally show ?thesis .
  qed
  then show "nextids k i AND 0xff = i AND 0xff" unfolding ff by (simp only: word_uint_eq_iff take_bit_eq_mask)
  have "nextids k i = i \<longleftrightarrow> (uint i + 256 * int k) mod 2 ^ 31 = uint i mod 2 ^ 31"
    using i by (simp add: word_uint_eq_iff u)
  also have "\<dots> \<longleftrightarrow> 2 ^ 31 dvd 256 * int k" by (simp add: mod_eq_dvd_iff)
  also have "\<dots> \<longleftrightarrow> 256 * 2 ^ 23 dvd 256 * int k" by simp
  also have "\<dots> \<longleftrightarrow> 2 ^ 23 dvd int k" by (simp only: dvd_times_left_cancel_iff)
  also have "\<dots> \<longleftrightarrow> int (2 ^ 23) dvd int k" by simp
  also have "\<dots> \<longleftrightarrow> 2 ^ 23 dvd k" by (simp only: int_dvd_int_iff)
  finally show "nextids k i = i \<longleftrightarrow> 2 ^ 23 dvd k" .
qed

theorem multicast_nextid_cycle_witness: "mc_nextid 0x7fffff01 = 1 \<and> nextids 1 0x7fffff01 AND 0xff = (0x7fffff01 AND 0xff :: u32)"
  using multicast_nextid_cycle [where i = "0x7fffff01" and k = 1] by (simp add: mc_nextid_def)

end
