(* ===== verification/Stm.thy ===== *)
theory Stm
  imports Skynet_Prelude "HOL-Library.Multiset"
begin

text \<open>
  The shared objects of \<^verbatim>\<open>lualib-src/lua-stm.c\<close>: a writer replaces the message of an object, readers in other services see the newest one.
  Both the object and each of its messages (a copy) have a count of their users.

  The heap has three kinds of blocks. \<open>None\<close> is an assertion that fails or the use of a block that is not allocated. The functions that take
  the lock of the object are one step each, which is what the lock is for; the end of this theory has the one place where it is not enough.
\<close>

subsection \<open>The heap and the functions of the C code\<close>

record stm_object =
  so_reference :: int
  so_copy :: "nat option"

record stm_copy =
  sc_reference :: int
  sc_sz :: u32
  sc_msg :: nat

record stm_heap =
  sh_object :: "nat \<rightharpoonup> stm_object"
  sh_copy :: "nat \<rightharpoonup> stm_copy"
  sh_msg :: "nat \<rightharpoonup> u8 list"

definition stm_newcopy :: "nat \<Rightarrow> nat \<Rightarrow> u32 \<Rightarrow> 'a stm_heap_scheme \<Rightarrow> 'a stm_heap_scheme" where
  "stm_newcopy c msg sz h = h\<lparr>sh_copy := (sh_copy h)(c \<mapsto> \<lparr>sc_reference = 1, sc_sz = sz, sc_msg = msg\<rparr>)\<rparr>"

definition stm_new :: "nat \<Rightarrow> nat \<Rightarrow> nat \<Rightarrow> u32 \<Rightarrow> 'a stm_heap_scheme \<Rightarrow> 'a stm_heap_scheme" where
  "stm_new obj c msg sz h =
     (let h = stm_newcopy c msg sz h in h\<lparr>sh_object := (sh_object h)(obj \<mapsto> \<lparr>so_reference = 1, so_copy = Some c\<rparr>)\<rparr>)"

definition free_msg :: "nat \<Rightarrow> 'a stm_heap_scheme \<Rightarrow> 'a stm_heap_scheme option" where
  "free_msg m h = (if sh_msg h m = None then None else Some (h\<lparr>sh_msg := (sh_msg h)(m := None)\<rparr>))"

definition stm_releasecopy :: "nat option \<Rightarrow> 'a stm_heap_scheme \<Rightarrow> 'a stm_heap_scheme option" where
  "stm_releasecopy copy h = (case copy of
     None \<Rightarrow> Some h
   | Some c \<Rightarrow> do {
       p \<leftarrow> sh_copy h c;
       let h = h\<lparr>sh_copy := (sh_copy h)(c \<mapsto> p\<lparr>sc_reference := sc_reference p - 1\<rparr>)\<rparr>;
       if sc_reference p \<le> 1 then do {
         h \<leftarrow> free_msg (sc_msg p) h;
         Some (h\<lparr>sh_copy := (sh_copy h)(c := None)\<rparr>) }
       else Some h })"

definition stm_release :: "nat \<Rightarrow> 'a stm_heap_scheme \<Rightarrow> 'a stm_heap_scheme option" where
  "stm_release obj h = do {
     p \<leftarrow> sh_object h obj;
     _ \<leftarrow> c_assert (so_copy p \<noteq> None);
     h \<leftarrow> stm_releasecopy (so_copy p) h;
     let q = p\<lparr>so_reference := so_reference p - 1, so_copy := None\<rparr>;
     Some (h\<lparr>sh_object := (sh_object h)(obj := if so_reference p > 1 then Some q else None)\<rparr>) }"

definition stm_releasereader :: "nat \<Rightarrow> 'a stm_heap_scheme \<Rightarrow> 'a stm_heap_scheme option" where
  "stm_releasereader obj h = do {
     p \<leftarrow> sh_object h obj;
     if so_reference p = 1 then do {
       _ \<leftarrow> c_assert (so_copy p = None);
       Some (h\<lparr>sh_object := (sh_object h)(obj := None)\<rparr>) }
     else Some (h\<lparr>sh_object := (sh_object h)(obj \<mapsto> p\<lparr>so_reference := so_reference p - 1\<rparr>)\<rparr>) }"

definition stm_grab :: "nat \<Rightarrow> 'a stm_heap_scheme \<Rightarrow> 'a stm_heap_scheme option" where
  "stm_grab obj h = do {
     p \<leftarrow> sh_object h obj;
     _ \<leftarrow> c_assert (so_reference p > 0);
     Some (h\<lparr>sh_object := (sh_object h)(obj \<mapsto> p\<lparr>so_reference := so_reference p + 1\<rparr>)\<rparr>) }"

definition stm_getcopy :: "nat \<Rightarrow> 'a stm_heap_scheme \<Rightarrow> (nat option \<times> 'a stm_heap_scheme) option" where
  "stm_getcopy obj h = do {
     p \<leftarrow> sh_object h obj;
     case so_copy p of
       None \<Rightarrow> Some (None, h)
     | Some c \<Rightarrow> do {
         q \<leftarrow> sh_copy h c;
         _ \<leftarrow> c_assert (sc_reference q > 0);
         Some (Some c, h\<lparr>sh_copy := (sh_copy h)(c \<mapsto> q\<lparr>sc_reference := sc_reference q + 1\<rparr>)\<rparr>) } }"

definition stm_update :: "nat \<Rightarrow> nat \<Rightarrow> nat \<Rightarrow> u32 \<Rightarrow> 'a stm_heap_scheme \<Rightarrow> 'a stm_heap_scheme option" where
  "stm_update obj c msg sz h = do {
     let h = stm_newcopy c msg sz h;
     p \<leftarrow> sh_object h obj;
     let h = h\<lparr>sh_object := (sh_object h)(obj \<mapsto> p\<lparr>so_copy := Some c\<rparr>)\<rparr>;
     stm_releasecopy (so_copy p) h }"

subsection \<open>The functions for Lua\<close>

text \<open>The boxes: a writer has an object, a reader an object and the copy it read last. A pointer that \<^verbatim>\<open>copy\<close> returned and that no reader
  was made from yet is pending. The boxes and the pending pointers have numbers.\<close>

record stm_lua = stm_heap +
  lua_writer :: "nat \<rightharpoonup> nat"
  lua_pending :: "nat \<rightharpoonup> nat"
  lua_reader :: "nat \<rightharpoonup> nat"
  lua_last :: "nat \<rightharpoonup> nat"

text \<open>A message is given as a pointer, which the object then owns, or as a string, of which a copy is made at the address that
  \<^verbatim>\<open>skynet_malloc\<close> returns.\<close>

datatype stm_source = Userdata nat u64 | Lua_String nat "u8 list"

definition source_msg :: "stm_source \<Rightarrow> stm_lua \<Rightarrow> (nat \<times> u32) \<times> stm_lua" where
  "source_msg src s = (case src of
     Userdata m sz \<Rightarrow> ((m, ucast sz), s)
   | Lua_String m bs \<Rightarrow> ((m, of_nat (length bs)), s\<lparr>sh_msg := (sh_msg s)(m \<mapsto> bs)\<rparr>))"

definition lcopy :: "nat \<Rightarrow> nat \<Rightarrow> stm_lua \<Rightarrow> stm_lua option" where
  "lcopy w k s = do {
     obj \<leftarrow> lua_writer s w;
     s \<leftarrow> stm_grab obj s;
     Some (s\<lparr>lua_pending := (lua_pending s)(k \<mapsto> obj)\<rparr>) }"

definition lnewwriter :: "nat \<Rightarrow> nat \<Rightarrow> nat \<Rightarrow> stm_source \<Rightarrow> stm_lua \<Rightarrow> stm_lua" where
  "lnewwriter w obj c src s = (let ((msg, sz), s) = source_msg src s; s = stm_new obj c msg sz s in
     s\<lparr>lua_writer := (lua_writer s)(w \<mapsto> obj)\<rparr>)"

definition ldeletewriter :: "nat \<Rightarrow> stm_lua \<Rightarrow> stm_lua option" where
  "ldeletewriter w s = do {
     obj \<leftarrow> lua_writer s w;
     s \<leftarrow> stm_release obj s;
     Some (s\<lparr>lua_writer := (lua_writer s)(w := None)\<rparr>) }"

definition lupdate :: "nat \<Rightarrow> nat \<Rightarrow> stm_source \<Rightarrow> stm_lua \<Rightarrow> stm_lua option" where
  "lupdate w c src s = do {
     let ((msg, sz), s) = source_msg src s;
     obj \<leftarrow> lua_writer s w;
     stm_update obj c msg sz s }"

definition lnewreader :: "nat \<Rightarrow> nat \<Rightarrow> stm_lua \<Rightarrow> stm_lua option" where
  "lnewreader r k s = do {
     obj \<leftarrow> lua_pending s k;
     Some (s\<lparr>lua_pending := (lua_pending s)(k := None), lua_reader := (lua_reader s)(r \<mapsto> obj), lua_last := (lua_last s)(r := None)\<rparr>) }"

definition ldeletereader :: "nat \<Rightarrow> stm_lua \<Rightarrow> stm_lua option" where
  "ldeletereader r s = do {
     obj \<leftarrow> lua_reader s r;
     s \<leftarrow> stm_releasereader obj s;
     let s = s\<lparr>lua_reader := (lua_reader s)(r := None)\<rparr>;
     s \<leftarrow> stm_releasecopy (lua_last s r) s;
     Some (s\<lparr>lua_last := (lua_last s)(r := None)\<rparr>) }"

text \<open>The result is what the function of the reader is called with: the bytes at the pointer and the size, or \<open>None\<close> when there is nothing new.\<close>

definition lread :: "nat \<Rightarrow> stm_lua \<Rightarrow> ((u8 list \<times> u32) option \<times> stm_lua) option" where
  "lread r s = do {
     obj \<leftarrow> lua_reader s r;
     (copy, s) \<leftarrow> stm_getcopy obj s;
     if copy = lua_last s r then do { s \<leftarrow> stm_releasecopy copy s; Some (None, s) }
     else do {
       s \<leftarrow> stm_releasecopy (lua_last s r) s;
       let s = s\<lparr>lua_last := (lua_last s)(r := copy)\<rparr>;
       case copy of
         None \<Rightarrow> Some (None, s)
       | Some c \<Rightarrow> do {
           p \<leftarrow> sh_copy s c;
           msg \<leftarrow> sh_msg s (sc_msg p);
           Some (Some (msg, sc_sz p), s) } } }"

subsection \<open>The calls that services make\<close>

datatype stm_call =
    Call_Copy nat nat
  | Call_Newwriter nat nat nat stm_source
  | Call_Deletewriter nat
  | Call_Update nat nat stm_source
  | Call_Newreader nat nat
  | Call_Deletereader nat
  | Call_Read nat

fun run_call :: "stm_call \<Rightarrow> stm_lua \<Rightarrow> stm_lua option" where
  "run_call (Call_Copy w k) s = lcopy w k s"
| "run_call (Call_Newwriter w obj c src) s = Some (lnewwriter w obj c src s)"
| "run_call (Call_Deletewriter w) s = ldeletewriter w s"
| "run_call (Call_Update w c src) s = lupdate w c src s"
| "run_call (Call_Newreader r k) s = lnewreader r k s"
| "run_call (Call_Deletereader r) s = ldeletereader r s"
| "run_call (Call_Read r) s = map_option snd (lread r s)"

text \<open>What Lua and the allocator guarantee: a box is used until it is collected, once; a pointer that \<^verbatim>\<open>copy\<close> returned is made into one
  reader; an allocated block is a free one; a pointer that is given as a message is an allocated block that no object owns.\<close>

definition source_ok :: "stm_source \<Rightarrow> stm_lua \<Rightarrow> bool" where
  "source_ok src s = (case src of
     Userdata m sz \<Rightarrow> sh_msg s m \<noteq> None \<and> m \<notin> sc_msg ` ran (sh_copy s)
   | Lua_String m bs \<Rightarrow> sh_msg s m = None)"

fun call_ok :: "stm_call \<Rightarrow> stm_lua \<Rightarrow> bool" where
  "call_ok (Call_Copy w k) s \<longleftrightarrow> lua_writer s w \<noteq> None \<and> lua_pending s k = None"
| "call_ok (Call_Newwriter w obj c src) s \<longleftrightarrow> lua_writer s w = None \<and> sh_object s obj = None \<and> sh_copy s c = None \<and> source_ok src s"
| "call_ok (Call_Deletewriter w) s \<longleftrightarrow> lua_writer s w \<noteq> None"
| "call_ok (Call_Update w c src) s \<longleftrightarrow> lua_writer s w \<noteq> None \<and> sh_copy s c = None \<and> source_ok src s"
| "call_ok (Call_Newreader r k) s \<longleftrightarrow> lua_pending s k \<noteq> None \<and> lua_reader s r = None"
| "call_ok (Call_Deletereader r) s \<longleftrightarrow> lua_reader s r \<noteq> None"
| "call_ok (Call_Read r) s \<longleftrightarrow> lua_reader s r \<noteq> None"

inductive stm_reachable :: "(nat \<rightharpoonup> u8 list) \<Rightarrow> stm_lua \<Rightarrow> bool" for msgs where
  stm_start: "stm_reachable msgs \<lparr>sh_object = Map.empty, sh_copy = Map.empty, sh_msg = msgs, lua_writer = Map.empty, lua_pending = Map.empty,
    lua_reader = Map.empty, lua_last = Map.empty\<rparr>"
| stm_next: "stm_reachable msgs s \<Longrightarrow> call_ok c s \<Longrightarrow> run_call c s = Some s' \<Longrightarrow> stm_reachable msgs s'"

subsection \<open>Counting references\<close>

definition refs :: "(nat \<rightharpoonup> nat) \<Rightarrow> nat \<Rightarrow> int" where
  "refs m x = int (card {k. m k = Some x})"

lemma finite_refs: "finite (dom m) \<Longrightarrow> finite {k. m k = Some x}"
  by (rule finite_subset [rotated]) (auto simp: dom_def)

lemma refs_upd:
  assumes "finite (dom m)"
  shows "refs (m(k := v)) x = refs m x - (if m k = Some x then 1 else 0) + (if v = Some x then 1 else 0)"
proof -
  let ?S = "{j. m j = Some x} - {k}"
  have fin: "finite {j. m j = Some x}" using assms by (rule finite_refs)
  have ins: "int (card (if b then insert k ?S else ?S)) = int (card ?S) + (if b then 1 else 0)" for b
    by (cases b) (use fin in \<open>simp_all only: card_insert_disjoint finite_Diff Diff_iff insertI1 simp_thms if_True if_False of_nat_Suc add.commute add_0\<close>)
  have new: "{j. (m(k := v)) j = Some x} = (if v = Some x then insert k ?S else ?S)" by auto
  have old: "{j. m j = Some x} = (if m k = Some x then insert k ?S else ?S)" by auto
  have "refs (m(k := v)) x = int (card ?S) + (if v = Some x then 1 else 0)" unfolding refs_def new ins ..
  moreover have "refs m x = int (card ?S) + (if m k = Some x then 1 else 0)" unfolding refs_def by (subst old) (rule ins)
  ultimately show ?thesis by simp
qed

lemma refs_nonneg [simp]: "0 \<le> refs m x"
  by (simp add: refs_def)

lemma refs_pos: "finite (dom m) \<Longrightarrow> m k = Some x \<Longrightarrow> 0 < refs m x"
  using finite_refs [of m x] by (auto simp: refs_def card_gt_0_iff)

lemma refs_empty [simp]: "refs Map.empty x = 0"
  by (simp add: refs_def)

definition obj_copy :: "'a stm_heap_scheme \<Rightarrow> nat \<rightharpoonup> nat" where
  "obj_copy h o1 = Option.bind (sh_object h o1) so_copy"

lemma obj_copy_frame [simp]:
  "obj_copy (h\<lparr>sh_copy := cp\<rparr>) = obj_copy h" "obj_copy (h\<lparr>sh_msg := ms\<rparr>) = obj_copy h"
  "obj_copy (s\<lparr>lua_last := l\<rparr>) = obj_copy s" "obj_copy (s\<lparr>lua_reader := l\<rparr>) = obj_copy s"
  "obj_copy (s\<lparr>lua_writer := l\<rparr>) = obj_copy s" "obj_copy (s\<lparr>lua_pending := l\<rparr>) = obj_copy s"
  by (simp_all add: obj_copy_def fun_eq_iff)

text \<open>The copies: the number of users of each is the number of objects and of readers that have it, and of the pointers \<open>E\<close> that the running
  function holds.\<close>

definition copy_inv :: "nat multiset \<Rightarrow> stm_lua \<Rightarrow> bool" where
  "copy_inv E s \<longleftrightarrow> finite (dom (obj_copy s)) \<and> finite (dom (lua_last s)) \<and>
     (\<forall>c. refs (obj_copy s) c + refs (lua_last s) c + int (count E c) = (case sh_copy s c of None \<Rightarrow> 0 | Some p \<Rightarrow> sc_reference p)) \<and>
     (\<forall>c p. sh_copy s c = Some p \<longrightarrow> 0 < sc_reference p \<and> sh_msg s (sc_msg p) \<noteq> None) \<and>
     (\<forall>c c' p p'. sh_copy s c = Some p \<longrightarrow> sh_copy s c' = Some p' \<longrightarrow> sc_msg p = sc_msg p' \<longrightarrow> c = c')"

definition object_inv :: "stm_lua \<Rightarrow> bool" where
  "object_inv s \<longleftrightarrow> finite (dom (sh_object s)) \<and> finite (dom (lua_writer s)) \<and> finite (dom (lua_pending s)) \<and> finite (dom (lua_reader s)) \<and>
     (\<forall>x. refs (lua_writer s) x + refs (lua_pending s) x + refs (lua_reader s) x = (case sh_object s x of None \<Rightarrow> 0 | Some p \<Rightarrow> so_reference p)) \<and>
     (\<forall>x p. sh_object s x = Some p \<longrightarrow> 0 < so_reference p \<and> refs (lua_writer s) x = (if so_copy p = None then 0 else 1)) \<and>
     dom (lua_last s) \<subseteq> dom (lua_reader s)"

lemma copy_inv_finite: "copy_inv E s \<Longrightarrow> finite (dom (obj_copy s)) \<and> finite (dom (lua_last s))"
  by (simp add: copy_inv_def)

lemma copy_inv_count:
  "copy_inv E s \<Longrightarrow> refs (obj_copy s) c + refs (lua_last s) c + int (count E c) = (case sh_copy s c of None \<Rightarrow> 0 | Some p \<Rightarrow> sc_reference p)"
  by (simp add: copy_inv_def)

lemma copy_inv_live: "copy_inv E s \<Longrightarrow> sh_copy s c = Some p \<Longrightarrow> 0 < sc_reference p \<and> sh_msg s (sc_msg p) \<noteq> None"
  by (simp add: copy_inv_def)

lemma copy_inv_inj: "copy_inv E s \<Longrightarrow> sh_copy s c = Some p \<Longrightarrow> sh_copy s c' = Some p' \<Longrightarrow> sc_msg p = sc_msg p' \<Longrightarrow> c = c'"
  by (simp add: copy_inv_def)

lemma copy_invI:
  assumes "finite (dom (obj_copy s))" "finite (dom (lua_last s))"
    and "\<And>c. refs (obj_copy s) c + refs (lua_last s) c + int (count E c) = (case sh_copy s c of None \<Rightarrow> 0 | Some p \<Rightarrow> sc_reference p)"
    and "\<And>c p. sh_copy s c = Some p \<Longrightarrow> 0 < sc_reference p \<and> sh_msg s (sc_msg p) \<noteq> None"
    and "\<And>c c' p p'. sh_copy s c = Some p \<Longrightarrow> sh_copy s c' = Some p' \<Longrightarrow> sc_msg p = sc_msg p' \<Longrightarrow> c = c'"
  shows "copy_inv E s"
  unfolding copy_inv_def using assms by blast

lemma copy_inv_set:
  assumes inv: "copy_inv E s" and p: "sh_copy s c = Some p" and r: "0 < r"
    and E': "int (count E' c) = int (count E c) + r - sc_reference p" "\<And>d. d \<noteq> c \<Longrightarrow> count E' d = count E d"
  shows "copy_inv E' (s\<lparr>sh_copy := (sh_copy s)(c \<mapsto> p\<lparr>sc_reference := r\<rparr>)\<rparr>)"
proof -
  let ?cp = "(sh_copy s)(c \<mapsto> p\<lparr>sc_reference := r\<rparr>)"
  have n: "refs (obj_copy s) d + refs (lua_last s) d + int (count E' d) = (case ?cp d of None \<Rightarrow> 0 | Some p \<Rightarrow> sc_reference p)" for d
    using copy_inv_count [OF inv, of d] E' p by (cases "d = c") simp_all
  have live: "0 < sc_reference q \<and> sh_msg s (sc_msg q) \<noteq> None" if "?cp d = Some q" for d q
    using that r copy_inv_live [OF inv p] copy_inv_live [OF inv, of d] by (cases "d = c") auto
  have old: "\<exists>q0. sh_copy s d = Some q0 \<and> sc_msg q0 = sc_msg q" if "?cp d = Some q" for d q
    using that p by (cases "d = c") auto
  have inj: "d = d'" if "?cp d = Some q" "?cp d' = Some q'" "sc_msg q = sc_msg q'" for d d' q q'
    using old [OF that(1)] old [OF that(2)] that(3) copy_inv_inj [OF inv] by metis
  define s' where "s' = s\<lparr>sh_copy := ?cp\<rparr>"
  have sel: "sh_copy s' = ?cp" "sh_msg s' = sh_msg s" "obj_copy s' = obj_copy s" "lua_last s' = lua_last s" by (simp_all add: s'_def)
  have "copy_inv E' s'"
    using copy_inv_finite [OF inv] n live inj by (intro copy_invI) (simp_all only: sel simp_thms)
  then show ?thesis by (simp only: s'_def)
qed

lemma releasecopy_ok:
  assumes inv: "copy_inv (add_mset c E) s"
  shows "\<exists>cp ms. stm_releasecopy (Some c) s = Some (s\<lparr>sh_copy := cp, sh_msg := ms\<rparr>) \<and> copy_inv E (s\<lparr>sh_copy := cp, sh_msg := ms\<rparr>)"
proof -
  let ?n = "\<lambda>E c. refs (obj_copy s) c + refs (lua_last s) c + int (count E c)"
  note n = copy_inv_count [OF inv]
  have "0 < ?n (add_mset c E) c" by (simp add: add_nonneg_pos)
  with n [of c] obtain p where p: "sh_copy s c = Some p" "sc_reference p = ?n E c + 1" by (cases "sh_copy s c") auto
  note live = copy_inv_live [OF inv]
  show ?thesis
  proof (cases "sc_reference p \<le> 1")
    case True
    let ?cp = "(sh_copy s)(c := None)" and ?ms = "(sh_msg s)(sc_msg p := None)"
    have "stm_releasecopy (Some c) s = Some (s\<lparr>sh_copy := ?cp, sh_msg := ?ms\<rparr>)"
      using p(1) True live [OF p(1)] by (simp add: stm_releasecopy_def free_msg_def Let_def)
    moreover have "copy_inv E (s\<lparr>sh_copy := ?cp, sh_msg := ?ms\<rparr>)"
    proof -
      have "?n E c = 0" using live [OF p(1)] p(2) True by linarith
      then have "?n E d = (case ?cp d of None \<Rightarrow> 0 | Some p \<Rightarrow> sc_reference p)" for d
        using n [of d] by (cases "d = c") simp_all
      moreover have "sc_msg q \<noteq> sc_msg p" if "sh_copy s d = Some q" "d \<noteq> c" for d q using inv p(1) that by (auto simp: copy_inv_def)
      ultimately show ?thesis using inv by (auto simp: copy_inv_def)
    qed
    ultimately show ?thesis by blast
  next
    case False
    let ?cp = "(sh_copy s)(c \<mapsto> p\<lparr>sc_reference := sc_reference p - 1\<rparr>)"
    have "stm_releasecopy (Some c) s = Some (s\<lparr>sh_copy := ?cp, sh_msg := sh_msg s\<rparr>)"
      using p(1) False by (simp add: stm_releasecopy_def)
    moreover have "copy_inv E (s\<lparr>sh_copy := ?cp\<rparr>)"
      using False by (intro copy_inv_set [OF inv p(1)]) simp_all
    ultimately show ?thesis by (intro exI [of _ ?cp] exI [of _ "sh_msg s"]) simp
  qed
qed

definition held :: "nat option \<Rightarrow> nat multiset" where
  "held x = (case x of None \<Rightarrow> {#} | Some c \<Rightarrow> {#c#})"

lemma held_simps [simp]: "held None = {#}" "held (Some c) = {#c#}"
  by (simp_all add: held_def)

lemma count_held: "int (count (held x) c) = (if x = Some c then 1 else 0)"
  by (cases x) auto

lemma releasecopy_held:
  assumes "copy_inv (held x + E) s"
  shows "\<exists>cp ms. stm_releasecopy x s = Some (s\<lparr>sh_copy := cp, sh_msg := ms\<rparr>) \<and> copy_inv E (s\<lparr>sh_copy := cp, sh_msg := ms\<rparr>)"
proof (cases x)
  case None
  with assms show ?thesis by (intro exI [of _ "sh_copy s"] exI [of _ "sh_msg s"]) (simp add: stm_releasecopy_def)
qed (use assms releasecopy_ok in simp)

lemma getcopy_ok:
  assumes inv: "copy_inv E s" and p: "sh_object s obj = Some p"
  shows "\<exists>cp. stm_getcopy obj s = Some (so_copy p, s\<lparr>sh_copy := cp\<rparr>) \<and> copy_inv (held (so_copy p) + E) (s\<lparr>sh_copy := cp\<rparr>)"
proof (cases "so_copy p")
  case None
  with assms show ?thesis by (intro exI [of _ "sh_copy s"]) (simp add: stm_getcopy_def)
next
  case (Some c)
  have "0 < refs (obj_copy s) c"
    using copy_inv_finite [OF inv] p Some by (intro refs_pos [of _ obj]) (simp_all add: obj_copy_def)
  then have "0 < refs (obj_copy s) c + refs (lua_last s) c + int (count E c)" by (simp add: add_pos_nonneg)
  with copy_inv_count [OF inv, of c] obtain q where q: "sh_copy s c = Some q" by (cases "sh_copy s c") auto
  with copy_inv_live [OF inv q] p Some
  have "stm_getcopy obj s = Some (Some c, s\<lparr>sh_copy := (sh_copy s)(c \<mapsto> q\<lparr>sc_reference := sc_reference q + 1\<rparr>)\<rparr>)"
    by (simp add: stm_getcopy_def)
  moreover have "copy_inv (add_mset c E) (s\<lparr>sh_copy := (sh_copy s)(c \<mapsto> q\<lparr>sc_reference := sc_reference q + 1\<rparr>)\<rparr>)"
    using copy_inv_live [OF inv q] by (intro copy_inv_set [OF inv q]) simp_all
  ultimately show ?thesis using Some by auto
qed

lemma getcopy_kept:
  "stm_getcopy x s = Some (y, s') \<Longrightarrow> sh_copy s' d = Some q \<Longrightarrow> \<exists>q0. sh_copy s d = Some q0 \<and> sc_msg q = sc_msg q0 \<and> sc_sz q = sc_sz q0"
  by (auto simp: stm_getcopy_def split: bind_splits option.splits if_splits)

lemma newcopy_ok:
  assumes inv: "copy_inv E s" and c: "sh_copy s c = None" and m: "sh_msg s m \<noteq> None" "m \<notin> sc_msg ` ran (sh_copy s)"
  shows "copy_inv (add_mset c E) (stm_newcopy c m sz s)"
proof -
  have "refs (obj_copy s) d + refs (lua_last s) d + int (count (add_mset c E) d) =
      (case ((sh_copy s)(c \<mapsto> \<lparr>sc_reference = 1, sc_sz = sz, sc_msg = m\<rparr>)) d of None \<Rightarrow> 0 | Some p \<Rightarrow> sc_reference p)" for d
    using copy_inv_count [OF inv, of d] c by (cases "d = c") simp_all
  moreover have "sc_msg q \<noteq> m" if "sh_copy s d = Some q" for d q using m(2) that by (auto simp: ran_def)
  ultimately show ?thesis using inv m(1) by (auto simp: copy_inv_def stm_newcopy_def)
qed

lemma move_last:
  assumes inv: "copy_inv (held y + E) s"
  shows "copy_inv (held (lua_last s r) + E) (s\<lparr>lua_last := (lua_last s)(r := y)\<rparr>)"
proof -
  have "refs (obj_copy s) d + refs ((lua_last s)(r := y)) d + int (count (held (lua_last s r) + E) d) =
      refs (obj_copy s) d + refs (lua_last s) d + int (count (held y + E) d)" for d
    using copy_inv_finite [OF inv] by (simp add: refs_upd count_held)
  with inv show ?thesis by (simp add: copy_inv_def)
qed

lemma obj_copy_upd: "obj_copy (s\<lparr>sh_object := (sh_object s)(x := v)\<rparr>) = (obj_copy s)(x := Option.bind v so_copy)"
  by (auto simp: obj_copy_def fun_eq_iff)

lemma move_object:
  assumes inv: "copy_inv (held (Option.bind v so_copy) + E) s"
  shows "copy_inv (held (obj_copy s x) + E) (s\<lparr>sh_object := (sh_object s)(x := v)\<rparr>)"
proof -
  have "refs ((obj_copy s)(x := Option.bind v so_copy)) d + refs (lua_last s) d + int (count (held (obj_copy s x) + E) d) =
      refs (obj_copy s) d + refs (lua_last s) d + int (count (held (Option.bind v so_copy) + E) d)" for d
    using copy_inv_finite [OF inv] by (simp add: refs_upd count_held)
  with inv show ?thesis by (simp add: copy_inv_def obj_copy_upd)
qed


lemma releasecopy_frame:
  "stm_releasecopy x (s\<lparr>sh_object := ob\<rparr>) = map_option (\<lambda>s. s\<lparr>sh_object := ob\<rparr>) (stm_releasecopy x s)"
  "stm_releasecopy x (t\<lparr>lua_last := l\<rparr>) = map_option (\<lambda>s. s\<lparr>lua_last := l\<rparr>) (stm_releasecopy x t)"
  by (auto simp: stm_releasecopy_def free_msg_def Let_def split: option.splits bind_splits)

lemma releasecopy_before_object:
  assumes "copy_inv (held x + E) (s\<lparr>sh_object := ob\<rparr>)"
  shows "\<exists>cp ms. stm_releasecopy x s = Some (s\<lparr>sh_copy := cp, sh_msg := ms\<rparr>) \<and> copy_inv E (s\<lparr>sh_object := ob, sh_copy := cp, sh_msg := ms\<rparr>)"
proof -
  from releasecopy_held [OF assms] obtain cp ms where
    r: "stm_releasecopy x (s\<lparr>sh_object := ob\<rparr>) = Some (s\<lparr>sh_object := ob, sh_copy := cp, sh_msg := ms\<rparr>)"
    "copy_inv E (s\<lparr>sh_object := ob, sh_copy := cp, sh_msg := ms\<rparr>)" by auto
  have "stm_releasecopy x ((s\<lparr>sh_object := ob\<rparr>)\<lparr>sh_object := sh_object s\<rparr>) = Some (s\<lparr>sh_copy := cp, sh_msg := ms\<rparr>)"
    by (subst releasecopy_frame(1)) (simp only: r(1) option.map, simp)
  with r(2) show ?thesis by auto
qed

lemma releasecopy_before_last:
  assumes "copy_inv (held x + E) (s\<lparr>lua_last := la\<rparr>)"
  shows "\<exists>cp ms. stm_releasecopy x s = Some (s\<lparr>sh_copy := cp, sh_msg := ms\<rparr>) \<and> copy_inv E (s\<lparr>sh_copy := cp, sh_msg := ms, lua_last := la\<rparr>)"
proof -
  have swap: "s\<lparr>lua_last := la, sh_copy := cp, sh_msg := ms\<rparr> = s\<lparr>sh_copy := cp, sh_msg := ms, lua_last := la\<rparr>" for cp ms by simp
  from releasecopy_held [OF assms] obtain cp ms where
    r: "stm_releasecopy x (s\<lparr>lua_last := la\<rparr>) = Some (s\<lparr>lua_last := la, sh_copy := cp, sh_msg := ms\<rparr>)"
    "copy_inv E (s\<lparr>lua_last := la, sh_copy := cp, sh_msg := ms\<rparr>)" by auto
  have "stm_releasecopy x ((s\<lparr>lua_last := la\<rparr>)\<lparr>lua_last := lua_last s\<rparr>) = Some (s\<lparr>sh_copy := cp, sh_msg := ms\<rparr>)"
    by (subst releasecopy_frame(2)) (simp only: r(1) option.map, simp)
  moreover have "(s\<lparr>lua_last := la\<rparr>)\<lparr>lua_last := lua_last s\<rparr> = s" by simp
  ultimately show ?thesis using r(2) unfolding swap by metis
qed

lemma object_inv_frame [simp]:
  "object_inv (s\<lparr>sh_copy := cp\<rparr>) = object_inv s" "object_inv (s\<lparr>sh_msg := ms\<rparr>) = object_inv s"
  by (simp_all add: object_inv_def)

lemma copy_inv_frame [simp]:
  "copy_inv E (s\<lparr>lua_reader := l\<rparr>) = copy_inv E s" "copy_inv E (s\<lparr>lua_writer := l\<rparr>) = copy_inv E s"
  "copy_inv E (s\<lparr>lua_pending := l\<rparr>) = copy_inv E s"
  by (simp_all add: copy_inv_def)

lemma copy_inv_reference:
  assumes "copy_inv E s" "sh_object s x = Some p"
  shows "copy_inv E (s\<lparr>sh_object := (sh_object s)(x \<mapsto> p\<lparr>so_reference := r\<rparr>)\<rparr>)"
proof -
  have "obj_copy (s\<lparr>sh_object := (sh_object s)(x \<mapsto> p\<lparr>so_reference := r\<rparr>)\<rparr>) = obj_copy s"
    using assms(2) by (auto simp: obj_copy_def fun_eq_iff)
  then show ?thesis using assms(1) by (simp add: copy_inv_def)
qed

text \<open>A copy that is not freed keeps its message.\<close>

lemma releasecopy_kept:
  assumes inv: "copy_inv E s" and run: "stm_releasecopy x s = Some s'" and d: "sh_copy s' d = Some q'"
  shows "\<exists>q. sh_copy s d = Some q \<and> sc_msg q' = sc_msg q \<and> sc_sz q' = sc_sz q \<and> sh_msg s' (sc_msg q) = sh_msg s (sc_msg q)"
proof (cases x)
  case None
  with run d show ?thesis by (simp add: stm_releasecopy_def)
next
  case (Some c)
  with run obtain p where p: "sh_copy s c = Some p" by (auto simp: stm_releasecopy_def split: bind_splits)
  show ?thesis
  proof (cases "sc_reference p \<le> 1")
    case True
    with Some run p have s': "sh_copy s' = (sh_copy s)(c := None)" "sh_msg s' = (sh_msg s)(sc_msg p := None)"
      by (auto simp: stm_releasecopy_def free_msg_def Let_def split: if_splits)
    with d have "sh_copy s d = Some q'" "d \<noteq> c" by (auto split: if_splits)
    moreover have "sc_msg q' \<noteq> sc_msg p" using copy_inv_inj [OF inv _ p, of d q'] calculation by auto
    ultimately show ?thesis using s' by auto
  next
    case False
    with Some run p have "sh_copy s' = (sh_copy s)(c \<mapsto> p\<lparr>sc_reference := sc_reference p - 1\<rparr>)" "sh_msg s' = sh_msg s"
      by (auto simp: stm_releasecopy_def Let_def)
    with d p show ?thesis by (cases "d = c") auto
  qed
qed

lemma source_msg_ok:
  assumes "copy_inv E s" "source_ok src s"
  shows "\<exists>m sz ms. source_msg src s = ((m, sz), s\<lparr>sh_msg := ms\<rparr>) \<and> copy_inv E (s\<lparr>sh_msg := ms\<rparr>) \<and> ms m \<noteq> None \<and>
    m \<notin> sc_msg ` ran (sh_copy s)"
proof (cases src)
  case (Userdata m sz)
  with assms show ?thesis by (intro exI [of _ m] exI [of _ "ucast sz"] exI [of _ "sh_msg s"]) (simp add: source_ok_def source_msg_def)
next
  case (Lua_String m bs)
  with assms(2) have m: "sh_msg s m = None" by (simp add: source_ok_def)
  have "m \<notin> sc_msg ` ran (sh_copy s)"
    using copy_inv_live [OF assms(1)] m by (fastforce simp: ran_def)
  moreover have "copy_inv E (s\<lparr>sh_msg := (sh_msg s)(m \<mapsto> bs)\<rparr>)" using assms(1) by (simp add: copy_inv_def)
  ultimately show ?thesis using Lua_String
    by (intro exI [of _ m] exI [of _ "of_nat (length bs)"] exI [of _ "(sh_msg s)(m \<mapsto> bs)"]) (simp add: source_msg_def)
qed

definition stm_inv :: "stm_lua \<Rightarrow> bool" where
  "stm_inv s \<longleftrightarrow> copy_inv {#} s \<and> object_inv s"

lemma object_fin:
  "object_inv s \<Longrightarrow> finite (dom (sh_object s)) \<and> finite (dom (lua_writer s)) \<and> finite (dom (lua_pending s)) \<and> finite (dom (lua_reader s)) \<and>
    dom (lua_last s) \<subseteq> dom (lua_reader s)"
  by (simp add: object_inv_def)

lemma object_count:
  "object_inv s \<Longrightarrow> refs (lua_writer s) x + refs (lua_pending s) x + refs (lua_reader s) x = (case sh_object s x of None \<Rightarrow> 0 | Some p \<Rightarrow> so_reference p)"
  by (simp add: object_inv_def)

lemma object_live:
  "object_inv s \<Longrightarrow> sh_object s x = Some p \<Longrightarrow> 0 < so_reference p \<and> refs (lua_writer s) x = (if so_copy p = None then 0 else 1)"
  by (simp add: object_inv_def)

lemma object_held:
  assumes inv: "object_inv s" and k: "lua_writer s k = Some x \<or> lua_pending s k = Some x \<or> lua_reader s k = Some x"
  shows "\<exists>p. sh_object s x = Some p \<and> so_reference p = refs (lua_writer s) x + refs (lua_pending s) x + refs (lua_reader s) x"
proof -
  have "0 < refs (lua_writer s) x \<or> 0 < refs (lua_pending s) x \<or> 0 < refs (lua_reader s) x"
    using object_fin [OF inv] k refs_pos [of _ k x] by blast
  then have "0 < refs (lua_writer s) x + refs (lua_pending s) x + refs (lua_reader s) x"
    using refs_nonneg [of "lua_writer s" x] refs_nonneg [of "lua_pending s" x] refs_nonneg [of "lua_reader s" x] by linarith
  with object_count [OF inv, of x] show ?thesis by (cases "sh_object s x") auto
qed

text \<open>One object changes, and with it the boxes that have it.\<close>

lemma object_inv_step:
  assumes inv: "object_inv s"
    and fin: "finite (dom wr)" "finite (dom pe)" "finite (dom re)" "dom la \<subseteq> dom re"
    and x: "refs wr x + refs pe x + refs re x = (case v of None \<Rightarrow> 0 | Some p \<Rightarrow> so_reference p)"
      "\<And>p. v = Some p \<Longrightarrow> 0 < so_reference p \<and> refs wr x = (if so_copy p = None then 0 else 1)"
    and other: "\<And>y. y \<noteq> x \<Longrightarrow> refs wr y = refs (lua_writer s) y \<and> refs pe y + refs re y = refs (lua_pending s) y + refs (lua_reader s) y"
  shows "object_inv (s\<lparr>sh_object := (sh_object s)(x := v), lua_writer := wr, lua_pending := pe, lua_reader := re, lua_last := la\<rparr>)" (is "object_inv ?s")
proof -
  have "refs wr y + refs pe y + refs re y = (case ((sh_object s)(x := v)) y of None \<Rightarrow> 0 | Some p \<Rightarrow> so_reference p)" for y
  proof (cases "y = x")
    case False
    with object_count [OF inv, of y] other [of y] show ?thesis by (simp add: add.assoc)
  qed (simp add: x)
  moreover have "0 < so_reference p \<and> refs wr y = (if so_copy p = None then 0 else 1)" if "((sh_object s)(x := v)) y = Some p" for y p
    using x(2) [of p] other [of y] object_live [OF inv, of y p] that by (cases "y = x") simp_all
  moreover have "finite (dom ((sh_object s)(x := v)))" using object_fin [OF inv] by simp
  moreover have "sh_object ?s = (sh_object s)(x := v)" "lua_writer ?s = wr" "lua_pending ?s = pe" "lua_reader ?s = re" "lua_last ?s = la" by simp_all
  ultimately show ?thesis using fin unfolding object_inv_def by metis
qed

lemma lcopy_ok:
  assumes "stm_inv s" "lua_writer s w \<noteq> None" "lua_pending s k = None"
  shows "\<exists>s'. lcopy w k s = Some s' \<and> stm_inv s'"
proof -
  from assms obtain x where x: "lua_writer s w = Some x" by auto
  from assms(1) have inv: "copy_inv {#} s" "object_inv s" by (simp_all add: stm_inv_def)
  from object_held [OF inv(2)] x obtain p where p: "sh_object s x = Some p" by blast
  note live = object_live [OF inv(2) p] and count = object_count [OF inv(2), of x]
  let ?v = "Some (p\<lparr>so_reference := so_reference p + 1\<rparr>)" and ?pe = "(lua_pending s)(k \<mapsto> x)"
  let ?s = "s\<lparr>sh_object := (sh_object s)(x := ?v), lua_pending := ?pe\<rparr>"
  have "lcopy w k s = Some ?s" using x p live by (simp add: lcopy_def stm_grab_def)
  moreover have "copy_inv {#} ?s" using copy_inv_reference [OF inv(1) p(1)] by simp
  moreover have "object_inv (s\<lparr>sh_object := (sh_object s)(x := ?v), lua_writer := lua_writer s, lua_pending := ?pe, lua_reader := lua_reader s,
      lua_last := lua_last s\<rparr>)"
    using object_fin [OF inv(2)] count live p assms(3) by (intro object_inv_step [OF inv(2)]) (auto simp: refs_upd)
  ultimately show ?thesis by (auto simp: stm_inv_def)
qed

lemma lnewwriter_ok:
  assumes "stm_inv s" "lua_writer s w = None" "sh_object s x = None" "sh_copy s c = None" "source_ok src s"
  shows "stm_inv (lnewwriter w x c src s)"
proof -
  from assms(1) have inv: "copy_inv {#} s" "object_inv s" by (simp_all add: stm_inv_def)
  from source_msg_ok [OF inv(1) assms(5)] obtain m sz ms where
    src: "source_msg src s = ((m, sz), s\<lparr>sh_msg := ms\<rparr>)" "copy_inv {#} (s\<lparr>sh_msg := ms\<rparr>)" "ms m \<noteq> None" "m \<notin> sc_msg ` ran (sh_copy s)" by blast
  let ?v = "Some \<lparr>so_reference = 1, so_copy = Some c\<rparr>" and ?s1 = "stm_newcopy c m sz (s\<lparr>sh_msg := ms\<rparr>)"
  have "copy_inv (add_mset c {#}) ?s1" using newcopy_ok [OF src(2)] assms(4) src(3,4) by simp
  then have "copy_inv (held (Option.bind ?v so_copy) + {#}) ?s1" by simp
  from move_object [OF this, of x] have "copy_inv {#} (?s1\<lparr>sh_object := (sh_object ?s1)(x := ?v)\<rparr>)"
    using assms(3) by (simp add: obj_copy_def stm_newcopy_def)
  moreover have "object_inv (s\<lparr>sh_object := (sh_object s)(x := ?v), lua_writer := (lua_writer s)(w \<mapsto> x), lua_pending := lua_pending s,
      lua_reader := lua_reader s, lua_last := lua_last s\<rparr>)"
  proof (rule object_inv_step [OF inv(2)])
    have "refs (lua_writer s) x + refs (lua_pending s) x + refs (lua_reader s) x = 0" using object_count [OF inv(2), of x] assms(3) by simp
    then have "refs (lua_writer s) x = 0 \<and> refs (lua_pending s) x = 0 \<and> refs (lua_reader s) x = 0"
      using refs_nonneg [of "lua_writer s" x] refs_nonneg [of "lua_pending s" x] refs_nonneg [of "lua_reader s" x] by linarith
    then show "refs ((lua_writer s)(w \<mapsto> x)) x + refs (lua_pending s) x + refs (lua_reader s) x = (case ?v of None \<Rightarrow> 0 | Some p \<Rightarrow> so_reference p)"
      "\<And>p. ?v = Some p \<Longrightarrow> 0 < so_reference p \<and> refs ((lua_writer s)(w \<mapsto> x)) x = (if so_copy p = None then 0 else 1)"
      using object_fin [OF inv(2)] assms(2) by (auto simp: refs_upd)
  qed (use object_fin [OF inv(2)] assms(2) in \<open>simp_all add: refs_upd\<close>)
  ultimately show ?thesis
    by (simp add: stm_inv_def lnewwriter_def src(1) stm_new_def Let_def) (simp add: stm_newcopy_def object_inv_def)
qed

lemma ldeletewriter_ok:
  assumes "stm_inv s" "lua_writer s w \<noteq> None"
  shows "\<exists>s'. ldeletewriter w s = Some s' \<and> stm_inv s'"
proof -
  from assms obtain x where x: "lua_writer s w = Some x" by auto
  from assms(1) have inv: "copy_inv {#} s" "object_inv s" by (simp_all add: stm_inv_def)
  from object_held [OF inv(2)] x obtain p where p: "sh_object s x = Some p" by blast
  note live = object_live [OF inv(2) p] and count = object_count [OF inv(2), of x]
  have one: "0 < refs (lua_writer s) x" using refs_pos x object_fin [OF inv(2)] by blast
  with live obtain c where c: "so_copy p = Some c" by (auto split: if_splits)
  let ?v = "if so_reference p > 1 then Some (p\<lparr>so_reference := so_reference p - 1, so_copy := None\<rparr>) else None"
  let ?ob = "(sh_object s)(x := ?v)" and ?wr = "(lua_writer s)(w := None)"
  have "copy_inv (held (Option.bind ?v so_copy) + {#}) s" using inv(1) by simp
  from move_object [OF this, of x] have "copy_inv (held (Some c) + {#}) (s\<lparr>sh_object := ?ob\<rparr>)" using p c by (simp add: obj_copy_def)
  from releasecopy_before_object [OF this] obtain cp ms where r: "stm_releasecopy (Some c) s = Some (s\<lparr>sh_copy := cp, sh_msg := ms\<rparr>)"
    "copy_inv {#} (s\<lparr>sh_object := ?ob, sh_copy := cp, sh_msg := ms\<rparr>)" by blast
  have "ldeletewriter w s = Some (s\<lparr>sh_object := ?ob, sh_copy := cp, sh_msg := ms, lua_writer := ?wr\<rparr>)"
    using x p c r(1) by (simp add: ldeletewriter_def stm_release_def Let_def)
  moreover have "copy_inv {#} (s\<lparr>sh_object := ?ob, sh_copy := cp, sh_msg := ms, lua_writer := ?wr\<rparr>)" using r(2) by simp
  moreover have "object_inv (s\<lparr>sh_object := ?ob, lua_writer := ?wr, lua_pending := lua_pending s, lua_reader := lua_reader s, lua_last := lua_last s\<rparr>)"
    using object_fin [OF inv(2)] count live p c x by (intro object_inv_step [OF inv(2)]) (auto simp: refs_upd split: if_splits)
  then have "object_inv (s\<lparr>sh_object := ?ob, sh_copy := cp, sh_msg := ms, lua_writer := ?wr\<rparr>)" by (simp add: object_inv_def)
  ultimately show ?thesis by (auto simp: stm_inv_def)
qed

lemma lupdate_ok:
  assumes "stm_inv s" "lua_writer s w \<noteq> None" "sh_copy s c = None" "source_ok src s"
  shows "\<exists>s'. lupdate w c src s = Some s' \<and> stm_inv s'"
proof -
  from assms obtain x where x: "lua_writer s w = Some x" by auto
  from assms(1) have inv: "copy_inv {#} s" "object_inv s" by (simp_all add: stm_inv_def)
  from object_held [OF inv(2)] x obtain p where p: "sh_object s x = Some p" by blast
  note live = object_live [OF inv(2) p] and count = object_count [OF inv(2), of x]
  have one: "0 < refs (lua_writer s) x" using refs_pos x object_fin [OF inv(2)] by blast
  from source_msg_ok [OF inv(1) assms(4)] obtain m sz ms where
    src: "source_msg src s = ((m, sz), s\<lparr>sh_msg := ms\<rparr>)" "copy_inv {#} (s\<lparr>sh_msg := ms\<rparr>)" "ms m \<noteq> None" "m \<notin> sc_msg ` ran (sh_copy s)" by blast
  let ?v = "Some (p\<lparr>so_copy := Some c\<rparr>)" and ?s1 = "stm_newcopy c m sz (s\<lparr>sh_msg := ms\<rparr>)"
  have sel: "sh_object ?s1 = sh_object s" by (simp add: stm_newcopy_def)
  have "copy_inv (add_mset c {#}) ?s1" using newcopy_ok [OF src(2)] assms(3) src(3,4) by simp
  then have "copy_inv (held (Option.bind ?v so_copy) + {#}) ?s1" by simp
  from move_object [OF this, of x] have "copy_inv (held (so_copy p) + {#}) (?s1\<lparr>sh_object := (sh_object s)(x := ?v)\<rparr>)"
    using p by (simp add: obj_copy_def sel)
  from releasecopy_held [OF this] obtain cp ms' where
    r: "stm_releasecopy (so_copy p) (?s1\<lparr>sh_object := (sh_object s)(x := ?v)\<rparr>) = Some (?s1\<lparr>sh_object := (sh_object s)(x := ?v), sh_copy := cp, sh_msg := ms'\<rparr>)"
    "copy_inv {#} (?s1\<lparr>sh_object := (sh_object s)(x := ?v), sh_copy := cp, sh_msg := ms'\<rparr>)" by auto
  let ?s2 = "s\<lparr>sh_object := (sh_object s)(x := ?v), sh_copy := cp, sh_msg := ms'\<rparr>"
  have s2: "?s1\<lparr>sh_object := (sh_object s)(x := ?v), sh_copy := cp, sh_msg := ms'\<rparr> = ?s2" by (simp add: stm_newcopy_def)
  have "lupdate w c src s = Some ?s2"
    using x p r(1) unfolding s2 by (simp add: lupdate_def src(1) stm_update_def Let_def sel)
  moreover have "object_inv (s\<lparr>sh_object := (sh_object s)(x := ?v), lua_writer := lua_writer s, lua_pending := lua_pending s, lua_reader := lua_reader s,
      lua_last := lua_last s\<rparr>)"
    using object_fin [OF inv(2)] count live p one by (intro object_inv_step [OF inv(2)]) (auto split: if_splits)
  then have "object_inv ?s2" by (simp add: object_inv_def)
  ultimately show ?thesis using r(2) unfolding s2 stm_inv_def by blast
qed

lemma lnewreader_ok:
  assumes "stm_inv s" "lua_pending s k \<noteq> None" "lua_reader s r = None"
  shows "\<exists>s'. lnewreader r k s = Some s' \<and> stm_inv s'"
proof -
  from assms obtain x where x: "lua_pending s k = Some x" by auto
  from assms(1) have inv: "copy_inv {#} s" "object_inv s" by (simp_all add: stm_inv_def)
  from object_held [OF inv(2)] x obtain p where p: "sh_object s x = Some p" by blast
  note live = object_live [OF inv(2) p] and count = object_count [OF inv(2), of x]
  have "lua_last s r = None" using object_fin [OF inv(2)] assms(3) by auto
  then have last: "(lua_last s)(r := None) = lua_last s" by auto
  let ?s = "s\<lparr>lua_pending := (lua_pending s)(k := None), lua_reader := (lua_reader s)(r \<mapsto> x)\<rparr>"
  have "lnewreader r k s = Some ?s" using x by (simp add: lnewreader_def last)
  moreover have "copy_inv {#} ?s" using inv(1) by simp
  moreover have "object_inv (s\<lparr>sh_object := (sh_object s)(x := Some p), lua_writer := lua_writer s, lua_pending := (lua_pending s)(k := None),
      lua_reader := (lua_reader s)(r \<mapsto> x), lua_last := lua_last s\<rparr>)"
    using object_fin [OF inv(2)] count live p x assms(3) by (intro object_inv_step [OF inv(2)]) (auto simp: refs_upd)
  then have "object_inv ?s" using p by (simp add: fun_upd_idem)
  ultimately show ?thesis by (auto simp: stm_inv_def)
qed

lemma ldeletereader_ok:
  assumes "stm_inv s" "lua_reader s r \<noteq> None"
  shows "\<exists>s'. ldeletereader r s = Some s' \<and> stm_inv s'"
proof -
  from assms obtain x where x: "lua_reader s r = Some x" by auto
  from assms(1) have inv: "copy_inv {#} s" "object_inv s" by (simp_all add: stm_inv_def)
  from object_held [OF inv(2)] x obtain p where p: "sh_object s x = Some p" by blast
  note live = object_live [OF inv(2) p] and count = object_count [OF inv(2), of x]
  have one: "0 < refs (lua_reader s) x" using refs_pos x object_fin [OF inv(2)] by blast
  let ?v = "if so_reference p = 1 then None else Some (p\<lparr>so_reference := so_reference p - 1\<rparr>)"
  let ?ob = "(sh_object s)(x := ?v)" and ?re = "(lua_reader s)(r := None)" and ?la = "(lua_last s)(r := None)"
  have last: "so_copy p = None \<and> refs (lua_writer s) x = 0 \<and> refs (lua_pending s) x = 0 \<and> refs (lua_reader s) x = 1" if "so_reference p = 1"
  proof -
    have "refs (lua_writer s) x + refs (lua_pending s) x + refs (lua_reader s) x = 1" using count that p by simp
    then have "refs (lua_writer s) x = 0 \<and> refs (lua_pending s) x = 0 \<and> refs (lua_reader s) x = 1"
      using one refs_nonneg [of "lua_writer s" x] refs_nonneg [of "lua_pending s" x] by linarith
    with live show ?thesis by (auto split: if_splits)
  qed
  let ?s1 = "s\<lparr>sh_object := ?ob, lua_reader := ?re\<rparr>"
  have "(obj_copy s)(x := Option.bind ?v so_copy) = obj_copy s"
    using p last by (intro fun_upd_idem) (auto simp: obj_copy_def)
  then have "obj_copy ?s1 = obj_copy s" using obj_copy_upd [of s x ?v] by simp
  then have "copy_inv (held None + {#}) ?s1" using inv(1) by (simp add: copy_inv_def)
  from move_last [OF this, of r] have "copy_inv (held (lua_last s r) + {#}) (?s1\<lparr>lua_last := ?la\<rparr>)" by simp
  from releasecopy_before_last [OF this] obtain cp ms where rel: "stm_releasecopy (lua_last s r) ?s1 = Some (?s1\<lparr>sh_copy := cp, sh_msg := ms\<rparr>)"
    "copy_inv {#} (?s1\<lparr>sh_copy := cp, sh_msg := ms, lua_last := ?la\<rparr>)" by blast
  let ?s2 = "s\<lparr>sh_object := ?ob, lua_reader := ?re, sh_copy := cp, sh_msg := ms, lua_last := ?la\<rparr>"
  have "stm_releasereader x s = Some (s\<lparr>sh_object := ?ob\<rparr>)" using p last by (simp add: stm_releasereader_def)
  with x rel(1) have "ldeletereader r s = Some ?s2" by (simp add: ldeletereader_def Let_def)
  moreover have "copy_inv {#} ?s2" by (rule rel(2))
  moreover have "object_inv (s\<lparr>sh_object := ?ob, lua_writer := lua_writer s, lua_pending := lua_pending s, lua_reader := ?re, lua_last := ?la\<rparr>)"
    using object_fin [OF inv(2)] count live p x last by (intro object_inv_step [OF inv(2)]) (auto simp: refs_upd split: if_splits)
  then have "object_inv ?s2" by (simp add: object_inv_def)
  ultimately show ?thesis by (auto simp: stm_inv_def)
qed

text \<open>The newest message of an object.\<close>

definition stm_value :: "nat \<Rightarrow> stm_lua \<Rightarrow> (u8 list \<times> u32) option" where
  "stm_value x s = do {
     p \<leftarrow> sh_object s x;
     c \<leftarrow> so_copy p;
     q \<leftarrow> sh_copy s c;
     m \<leftarrow> sh_msg s (sc_msg q);
     Some (m, sc_sz q) }"

lemma lread_ok:
  assumes "stm_inv s" "lua_reader s r = Some x"
  shows "\<exists>s'. lread r s = Some (if obj_copy s x = lua_last s r then None else stm_value x s, s') \<and> stm_inv s' \<and>
    lua_last s' = (lua_last s)(r := obj_copy s x) \<and> obj_copy s' = obj_copy s \<and> lua_reader s' = lua_reader s"
proof -
  from assms(1) have inv: "copy_inv {#} s" "object_inv s" by (simp_all add: stm_inv_def)
  from object_held [OF inv(2)] assms(2) obtain p where p: "sh_object s x = Some p" by blast
  have o: "obj_copy s x = so_copy p" using p by (simp add: obj_copy_def)
  from getcopy_ok [OF inv(1) p] obtain cp where
    g: "stm_getcopy x s = Some (so_copy p, s\<lparr>sh_copy := cp\<rparr>)" "copy_inv (held (so_copy p) + {#}) (s\<lparr>sh_copy := cp\<rparr>)" by blast
  show ?thesis
  proof (cases "so_copy p = lua_last s r")
    case True
    from releasecopy_held [OF g(2)] obtain cp' ms where
      "stm_releasecopy (so_copy p) (s\<lparr>sh_copy := cp\<rparr>) = Some (s\<lparr>sh_copy := cp', sh_msg := ms\<rparr>)" "copy_inv {#} (s\<lparr>sh_copy := cp', sh_msg := ms\<rparr>)" by auto
    moreover have "(lua_last s)(r := so_copy p) = lua_last s" using True by auto
    ultimately show ?thesis using assms(2) g(1) True inv(2) o by (simp add: lread_def stm_inv_def)
  next
    case False
    let ?la = "(lua_last s)(r := so_copy p)" and ?s1 = "s\<lparr>sh_copy := cp\<rparr>"
    from move_last [OF g(2), of r] have "copy_inv (held (lua_last s r) + {#}) (?s1\<lparr>lua_last := ?la\<rparr>)" by simp
    from releasecopy_before_last [OF this] obtain cp' ms where rel: "stm_releasecopy (lua_last s r) ?s1 = Some (s\<lparr>sh_copy := cp', sh_msg := ms\<rparr>)"
      "copy_inv {#} (s\<lparr>sh_copy := cp', sh_msg := ms, lua_last := ?la\<rparr>)" by auto
    let ?s2 = "s\<lparr>sh_copy := cp', sh_msg := ms, lua_last := ?la\<rparr>"
    have inv2: "copy_inv {#} ?s2" by (rule rel(2))
    have ob: "object_inv ?s2" using inv(2) assms(2) by (auto simp: object_inv_def)
    have run: "lread r s = (case so_copy p of None \<Rightarrow> Some (None, ?s2)
       | Some c \<Rightarrow> do { q \<leftarrow> cp' c; m \<leftarrow> ms (sc_msg q); Some (Some (m, sc_sz q), ?s2) })"
      using assms(2) g(1) False rel(1) by (simp add: lread_def Let_def split: option.split)
    have frame: "obj_copy ?s2 = obj_copy s" by simp
    show ?thesis
    proof (cases "so_copy p")
      case None
      then have "stm_value x s = None" using p by (simp add: stm_value_def)
      then show ?thesis using run None False inv2 ob o frame by (simp add: stm_inv_def)
    next
      case (Some c)
      have "0 < refs ?la c" using copy_inv_finite [OF inv2] Some by (intro refs_pos [of _ r]) simp_all
      then have "0 < refs (obj_copy ?s2) c + refs (lua_last ?s2) c + int (count {#} c)" by (simp add: add_nonneg_pos)
      with copy_inv_count [OF inv2, of c] obtain q where q: "cp' c = Some q" by (cases "cp' c") auto
      from releasecopy_kept [OF g(2) rel(1), of c q] q obtain q1 where q1: "cp c = Some q1" "sc_msg q = sc_msg q1" "sc_sz q = sc_sz q1"
        "ms (sc_msg q1) = sh_msg s (sc_msg q1)" by auto
      from g(1) p Some obtain q0 where q0: "sh_copy s c = Some q0" "sc_msg q1 = sc_msg q0" "sc_sz q1 = sc_sz q0"
        using getcopy_kept [OF g(1), of c q1] q1(1) by auto
      from copy_inv_live [OF inv(1) q0(1)] obtain m where m: "sh_msg s (sc_msg q0) = Some m" by auto
      have "stm_value x s = Some (m, sc_sz q0)" using p Some q0(1) m by (simp add: stm_value_def)
      with run Some q q1 q0 m False inv2 ob o frame show ?thesis by (simp add: stm_inv_def)
    qed
  qed
qed

lemma call_keeps_inv:
  assumes "stm_inv s" "call_ok c s"
  shows "\<exists>s'. run_call c s = Some s' \<and> stm_inv s'"
proof (cases c)
  case (Call_Read r)
  with assms obtain x where "lua_reader s r = Some x" by auto
  from lread_ok [OF assms(1) this] Call_Read show ?thesis by auto
qed (use assms lcopy_ok lnewwriter_ok ldeletewriter_ok lupdate_ok lnewreader_ok ldeletereader_ok in auto)

lemma reachable_inv: "stm_reachable msgs s \<Longrightarrow> stm_inv s"
proof (induction rule: stm_reachable.induct)
  case stm_start
  have "obj_copy (\<lparr>sh_object = Map.empty, sh_copy = Map.empty, sh_msg = msgs, lua_writer = Map.empty, lua_pending = Map.empty,
    lua_reader = Map.empty, lua_last = Map.empty\<rparr> :: stm_lua) = Map.empty" by (auto simp: obj_copy_def)
  then show ?case by (simp add: stm_inv_def copy_inv_def object_inv_def)
next
  case (stm_next s c s')
  with call_keeps_inv show ?case by fastforce
qed


subsection \<open>Properties\<close>

text \<open>Property C30: after any sequence of calls from the services, in any order, each further call that Lua can make works: no object, copy or
  message is used after it was given back, none is given back twice, and no assertion of the C code fails.\<close>

theorem stm_calls_never_fail:
  assumes "stm_reachable msgs s" "call_ok c s"
  shows "run_call c s \<noteq> None"
  using call_keeps_inv [OF reachable_inv [OF assms(1)] assms(2)] by auto

theorem stm_calls_never_fail_witness:
  "\<exists>s. stm_reachable Map.empty s \<and> lua_writer s 0 = Some 5 \<and> run_call (Call_Update 0 8 (Lua_String 9 [4])) s \<noteq> None"
proof -
  let ?s0 = "\<lparr>sh_object = Map.empty, sh_copy = Map.empty, sh_msg = Map.empty, lua_writer = Map.empty, lua_pending = Map.empty,
    lua_reader = Map.empty, lua_last = Map.empty\<rparr> :: stm_lua"
  let ?c = "Call_Newwriter 0 5 6 (Lua_String 7 [1, 2])" and ?d = "Call_Update 0 8 (Lua_String 9 [4])"
  have "call_ok ?c ?s0" by (simp add: source_ok_def)
  moreover have "run_call ?c ?s0 = Some (lnewwriter 0 5 6 (Lua_String 7 [1, 2]) ?s0)" by (simp only: run_call.simps)
  ultimately have r: "stm_reachable Map.empty (lnewwriter 0 5 6 (Lua_String 7 [1, 2]) ?s0)" by (rule stm_next [OF stm_start])
  have w: "lua_writer (lnewwriter 0 5 6 (Lua_String 7 [1, 2]) ?s0) 0 = Some 5"
    by (simp add: lnewwriter_def source_msg_def Let_def)
  have "call_ok ?d (lnewwriter 0 5 6 (Lua_String 7 [1, 2]) ?s0)"
    by (simp add: lnewwriter_def source_msg_def stm_new_def stm_newcopy_def source_ok_def Let_def)
  from stm_calls_never_fail [OF r this] r w show ?thesis by blast
qed

lemma refs_zero_iff: "finite (dom m) \<Longrightarrow> refs m x = 0 \<longleftrightarrow> x \<notin> ran m"
proof -
  assume fin: "finite (dom m)"
  show ?thesis
  proof (cases "x \<in> ran m")
    case True
    then obtain k where "m k = Some x" by (auto simp: ran_def)
    from refs_pos [OF fin this] True show ?thesis by simp
  next
    case False
    then have "{k. m k = Some x} = {}" by (auto simp: ran_def)
    with False show ?thesis by (simp add: refs_def)
  qed
qed

text \<open>Property C31: an object is allocated exactly as long as a writer, a reader or a pointer on its way to a new reader has it, and a copy
  exactly as long as it is the newest one of an object or the last one that some reader has seen. Its message lives with it.\<close>

theorem stm_lives_while_used:
  assumes "stm_reachable msgs s"
  shows "(sh_object s x \<noteq> None \<longleftrightarrow> x \<in> ran (lua_writer s) \<union> ran (lua_pending s) \<union> ran (lua_reader s)) \<and>
    (sh_copy s c \<noteq> None \<longleftrightarrow> (\<exists>y p. sh_object s y = Some p \<and> so_copy p = Some c) \<or> c \<in> ran (lua_last s)) \<and>
    (\<forall>p. sh_copy s c = Some p \<longrightarrow> sh_msg s (sc_msg p) \<noteq> None)"
proof -
  from reachable_inv [OF assms] have inv: "copy_inv {#} s" "object_inv s" by (simp_all add: stm_inv_def)
  have sum0: "a + b = 0 \<longleftrightarrow> a = 0 \<and> b = 0" if "0 \<le> a" "0 \<le> b" for a b :: int using that by linarith
  have "sh_object s x \<noteq> None \<longleftrightarrow> refs (lua_writer s) x + refs (lua_pending s) x + refs (lua_reader s) x \<noteq> 0"
    using object_count [OF inv(2), of x] object_live [OF inv(2), of x] by (cases "sh_object s x") auto
  also have "\<dots> \<longleftrightarrow> x \<in> ran (lua_writer s) \<union> ran (lua_pending s) \<union> ran (lua_reader s)"
    using object_fin [OF inv(2)] by (simp add: sum0 refs_zero_iff)
  finally have "sh_object s x \<noteq> None \<longleftrightarrow> x \<in> ran (lua_writer s) \<union> ran (lua_pending s) \<union> ran (lua_reader s)" .
  moreover have "sh_copy s c \<noteq> None \<longleftrightarrow> refs (obj_copy s) c + refs (lua_last s) c \<noteq> 0"
    using copy_inv_count [OF inv(1), of c] copy_inv_live [OF inv(1), of c] by (cases "sh_copy s c") auto
  then have "sh_copy s c \<noteq> None \<longleftrightarrow> c \<in> ran (obj_copy s) \<or> c \<in> ran (lua_last s)"
    using copy_inv_finite [OF inv(1)] by (simp add: sum0 refs_zero_iff)
  then have "sh_copy s c \<noteq> None \<longleftrightarrow> (\<exists>y p. sh_object s y = Some p \<and> so_copy p = Some c) \<or> c \<in> ran (lua_last s)"
    by (auto simp: ran_def obj_copy_def bind_eq_Some_conv)
  ultimately show ?thesis using copy_inv_live [OF inv(1)] by blast
qed

theorem stm_lives_while_used_witness:
  "let s0 = \<lparr>sh_object = Map.empty, sh_copy = Map.empty, sh_msg = [3 \<mapsto> [7]], lua_writer = Map.empty, lua_pending = Map.empty,
    lua_reader = Map.empty, lua_last = Map.empty\<rparr> in sh_object s0 1 = None \<and> sh_copy s0 1 = None"
  using stm_lives_while_used [OF stm_start [of "[3 \<mapsto> [7]]"], of 1 1] by (simp add: Let_def)

lemma lupdate_value:
  assumes inv: "stm_inv s" and w: "lua_writer s w = Some x" and c: "sh_copy s c = None" and src: "source_ok src s"
    and run: "lupdate w c src s = Some s'"
  shows "obj_copy s' x = Some c \<and> lua_last s' = lua_last s \<and> lua_reader s' = lua_reader s \<and> (\<exists>m sz. fst (source_msg src s) = (m, sz) \<and>
    stm_value x s' = map_option (\<lambda>bs. (bs, sz)) (sh_msg (snd (source_msg src s)) m))"
proof -
  from inv have cinv: "copy_inv {#} s" "object_inv s" by (simp_all add: stm_inv_def)
  from object_held [OF cinv(2)] w obtain p where p: "sh_object s x = Some p" by blast
  from source_msg_ok [OF cinv(1) src] obtain m sz ms where
    m: "source_msg src s = ((m, sz), s\<lparr>sh_msg := ms\<rparr>)" "copy_inv {#} (s\<lparr>sh_msg := ms\<rparr>)" "ms m \<noteq> None" "m \<notin> sc_msg ` ran (sh_copy s)" by blast
  let ?v = "Some (p\<lparr>so_copy := Some c\<rparr>)" and ?s1 = "stm_newcopy c m sz (s\<lparr>sh_msg := ms\<rparr>)"
  let ?s2 = "?s1\<lparr>sh_object := (sh_object s)(x := ?v)\<rparr>"
  have sel: "sh_object ?s1 = sh_object s" by (simp add: stm_newcopy_def)
  have "copy_inv (held (Option.bind ?v so_copy) + {#}) ?s1" using newcopy_ok [OF m(2)] c m(3,4) by simp
  from move_object [OF this, of x] have inv2: "copy_inv (held (so_copy p) + {#}) ?s2" using p by (simp add: obj_copy_def sel)
  from releasecopy_held [OF this] obtain cp ms' where
    r: "stm_releasecopy (so_copy p) ?s2 = Some (?s2\<lparr>sh_copy := cp, sh_msg := ms'\<rparr>)" "copy_inv {#} (?s2\<lparr>sh_copy := cp, sh_msg := ms'\<rparr>)" by auto
  have s': "s' = ?s2\<lparr>sh_copy := cp, sh_msg := ms'\<rparr>"
    using run w p r(1) by (simp add: lupdate_def m(1) stm_update_def Let_def sel)
  have o: "obj_copy s' x = Some c" unfolding s' by (simp add: obj_copy_def)
  have "0 < refs (obj_copy s') c" using copy_inv_finite [OF r(2)] o unfolding s' by (intro refs_pos [of _ x]) simp_all
  then have "0 < refs (obj_copy s') c + refs (lua_last s') c + int (count {#} c)" by (simp add: add_pos_nonneg)
  moreover have "copy_inv {#} s'" using r(2) unfolding s' .
  ultimately obtain q where q: "sh_copy s' c = Some q" using copy_inv_count [of "{#}" s' c] by (cases "sh_copy s' c") auto
  from releasecopy_kept [OF inv2 r(1), of c q] q
  have q': "sc_msg q = m" "sc_sz q = sz" "ms' m = ms m" unfolding s' by (auto simp: stm_newcopy_def)
  have "stm_value x s' = map_option (\<lambda>bs. (bs, sz)) (ms m)"
    using o q q' unfolding s' by (cases "ms m") (simp_all add: stm_value_def obj_copy_def)
  moreover have "lua_last s' = lua_last s" "lua_reader s' = lua_reader s" unfolding s' by (simp_all add: stm_newcopy_def)
  ultimately show ?thesis using o m(1) by simp
qed

subsection \<open>Objects are channels\<close>

text \<open>What the objects are for: a channel has its newest message, and each reader has read it or not. The calls of the services, with the
  bytes and the size of the message that a writer puts in.\<close>

record channels =
  ch_writer :: "nat \<rightharpoonup> nat"
  ch_pending :: "nat \<rightharpoonup> nat"
  ch_reader :: "nat \<rightharpoonup> nat"
  ch_value :: "nat \<rightharpoonup> u8 list \<times> u32"
  ch_unread :: "nat \<Rightarrow> bool"

fun channel_step :: "stm_call \<Rightarrow> (u8 list \<times> u32) option \<Rightarrow> channels \<Rightarrow> channels" where
  "channel_step (Call_Copy w k) v a = a\<lparr>ch_pending := (ch_pending a)(k := ch_writer a w)\<rparr>"
| "channel_step (Call_Newwriter w x c src) v a = a\<lparr>ch_writer := (ch_writer a)(w \<mapsto> x), ch_value := (ch_value a)(x := v)\<rparr>"
| "channel_step (Call_Deletewriter w) v a = a\<lparr>ch_writer := (ch_writer a)(w := None),
     ch_value := (ch_value a)(the (ch_writer a w) := None), ch_unread := (\<lambda>r. ch_unread a r \<and> ch_reader a r \<noteq> ch_writer a w)\<rparr>"
| "channel_step (Call_Update w c src) v a = a\<lparr>ch_value := (ch_value a)(the (ch_writer a w) := v),
     ch_unread := (\<lambda>r. ch_unread a r \<or> ch_reader a r = ch_writer a w)\<rparr>"
| "channel_step (Call_Newreader r k) v a = a\<lparr>ch_pending := (ch_pending a)(k := None), ch_reader := (ch_reader a)(r := ch_pending a k),
     ch_unread := (ch_unread a)(r := ch_value a (the (ch_pending a k)) \<noteq> None)\<rparr>"
| "channel_step (Call_Deletereader r) v a = a\<lparr>ch_reader := (ch_reader a)(r := None), ch_unread := (ch_unread a)(r := False)\<rparr>"
| "channel_step (Call_Read r) v a = a\<lparr>ch_unread := (ch_unread a)(r := False)\<rparr>"

definition channel_read :: "nat \<Rightarrow> channels \<Rightarrow> (u8 list \<times> u32) option" where
  "channel_read r a = (if ch_unread a r then Option.bind (ch_reader a r) (ch_value a) else None)"

text \<open>The message of a source: the bytes at the pointer with the given size, or the string with its length.\<close>

definition message_of :: "stm_source \<Rightarrow> stm_lua \<Rightarrow> (u8 list \<times> u32) option" where
  "message_of src s = (let ((m, sz), s) = source_msg src s in map_option (\<lambda>bs. (bs, sz)) (sh_msg s m))"

fun call_message :: "stm_call \<Rightarrow> stm_lua \<Rightarrow> (u8 list \<times> u32) option" where
  "call_message (Call_Newwriter w x c src) s = message_of src s"
| "call_message (Call_Update w c src) s = message_of src s"
| "call_message _ s = None"

text \<open>The channels of a state: a message is unread when the copy that the reader has seen last is not the newest one.\<close>

definition copy_unread :: "stm_lua \<Rightarrow> nat \<Rightarrow> bool" where
  "copy_unread s r \<longleftrightarrow> (case lua_reader s r of None \<Rightarrow> False | Some x \<Rightarrow> obj_copy s x \<noteq> None \<and> obj_copy s x \<noteq> lua_last s r)"

definition channels_of :: "stm_lua \<Rightarrow> channels" where
  "channels_of s = \<lparr>ch_writer = lua_writer s, ch_pending = lua_pending s, ch_reader = lua_reader s,
     ch_value = (\<lambda>x. stm_value x s), ch_unread = copy_unread s\<rparr>"

text \<open>A copy with its message; an operation that frees copies does not change the others.\<close>

definition copy_value :: "stm_lua \<Rightarrow> nat \<Rightarrow> (u8 list \<times> u32) option" where
  "copy_value s c = do { q \<leftarrow> sh_copy s c; m \<leftarrow> sh_msg s (sc_msg q); Some (m, sc_sz q) }"

lemma stm_value_copy: "stm_value x s = Option.bind (obj_copy s x) (copy_value s)"
  by (simp add: stm_value_def obj_copy_def copy_value_def [abs_def])

lemma copy_value_live:
  assumes "stm_inv s" "obj_copy s x = Some c \<or> lua_last s r = Some c"
  shows "copy_value s c \<noteq> None" "sh_copy s c \<noteq> None"
proof -
  from assms(1) have inv: "copy_inv {#} s" by (simp add: stm_inv_def)
  have "0 < refs (obj_copy s) c \<or> 0 < refs (lua_last s) c"
    using assms(2) copy_inv_finite [OF inv] by (auto intro: refs_pos)
  then have "0 < refs (obj_copy s) c + refs (lua_last s) c + int (count {#} c)"
    by (auto intro: add_pos_nonneg add_nonneg_pos)
  with copy_inv_count [OF inv, of c] show c: "sh_copy s c \<noteq> None" by (cases "sh_copy s c") auto
  then obtain q where q: "sh_copy s c = Some q" by auto
  with copy_inv_live [OF inv q] obtain m where "sh_msg s (sc_msg q) = Some m" by auto
  with q show "copy_value s c \<noteq> None" by (simp add: copy_value_def)
qed

definition copies_kept :: "stm_lua \<Rightarrow> stm_lua \<Rightarrow> bool" where
  "copies_kept s s' \<longleftrightarrow> (\<forall>c. copy_value s' c = None \<or> copy_value s' c = copy_value s c)"

lemma copies_kept_trans: "copies_kept s s' \<Longrightarrow> copies_kept s' s'' \<Longrightarrow> copies_kept s s''"
  unfolding copies_kept_def by metis

lemma copies_kept_value:
  assumes "copies_kept s s'" "stm_inv s'" "obj_copy s' x = obj_copy s x"
  shows "stm_value x s' = stm_value x s"
proof (cases "obj_copy s x")
  case None
  then show ?thesis using assms(3) by (simp add: stm_value_copy)
next
  case (Some c)
  with copy_value_live(1) [OF assms(2), of x c] assms(1,3) show ?thesis
    unfolding stm_value_copy copies_kept_def by (metis bind.bind_lunit)
qed

lemma releasecopy_copies:
  assumes "copy_inv E s" "stm_releasecopy x s = Some s'"
  shows "copies_kept s s'"
  unfolding copies_kept_def
proof (intro allI)
  fix c
  show "copy_value s' c = None \<or> copy_value s' c = copy_value s c"
  proof (cases "sh_copy s' c")
    case None
    then show ?thesis by (simp add: copy_value_def)
  next
    case (Some q)
    from releasecopy_kept [OF assms this] Some show ?thesis by (auto simp: copy_value_def)
  qed
qed

lemma copy_value_frame [simp]:
  "copy_value (s\<lparr>sh_object := ob\<rparr>) = copy_value s" "copy_value (s\<lparr>lua_writer := l\<rparr>) = copy_value s"
  "copy_value (s\<lparr>lua_pending := l\<rparr>) = copy_value s" "copy_value (s\<lparr>lua_reader := l\<rparr>) = copy_value s" "copy_value (s\<lparr>lua_last := l\<rparr>) = copy_value s"
  by (simp_all add: copy_value_def fun_eq_iff)

lemma releasecopy_fields:
  assumes "stm_releasecopy x s = Some s'"
  obtains cp ms where "s' = s\<lparr>sh_copy := cp, sh_msg := ms\<rparr>"
proof (cases x)
  case None
  with assms have "s' = s\<lparr>sh_copy := sh_copy s, sh_msg := sh_msg s\<rparr>" by (simp add: stm_releasecopy_def)
  then show thesis by (rule that)
next
  case (Some c)
  with assms obtain p where "sh_copy s c = Some p" by (auto simp: stm_releasecopy_def bind_eq_Some_conv)
  note p = this
  show thesis
  proof (cases "sc_reference p \<le> 1")
    case True
    with assms Some p have "s' = s\<lparr>sh_copy := (sh_copy s)(c := None), sh_msg := (sh_msg s)(sc_msg p := None)\<rparr>"
      by (auto simp: stm_releasecopy_def free_msg_def Let_def split: if_splits)
    then show thesis by (rule that)
  next
    case False
    with assms Some p have "s' = s\<lparr>sh_copy := (sh_copy s)(c \<mapsto> p\<lparr>sc_reference := sc_reference p - 1\<rparr>), sh_msg := sh_msg s\<rparr>"
      by (auto simp: stm_releasecopy_def Let_def)
    then show thesis by (rule that)
  qed
qed

text \<open>The message of a source, put into a new copy, and the messages of the other copies.\<close>

lemma newcopy_values:
  assumes inv: "copy_inv E s" and c: "sh_copy s c = None" and src: "source_ok src s" and m: "source_msg src s = ((m, sz), s1)"
  shows "copy_value (stm_newcopy c m sz s1) = (copy_value s)(c := message_of src s)" "message_of src s \<noteq> None"
    "\<exists>ms. s1 = s\<lparr>sh_msg := ms\<rparr>"
proof -
  have kept: "sh_msg s1 (sc_msg q) = sh_msg s (sc_msg q) \<and> sh_copy s1 = sh_copy s" if "sh_copy s d = Some q" for d q
    using m src copy_inv_live [OF inv that] by (auto simp: source_msg_def source_ok_def split: stm_source.splits)
  show "\<exists>ms. s1 = s\<lparr>sh_msg := ms\<rparr>"
  proof (cases src)
    case (Userdata m sz)
    with m show ?thesis by (intro exI [of _ "sh_msg s"]) (simp add: source_msg_def)
  next
    case (Lua_String m bs)
    with m show ?thesis by (intro exI [of _ "(sh_msg s)(m \<mapsto> bs)"]) (auto simp: source_msg_def)
  qed
  then have copies: "sh_copy s1 = sh_copy s" by auto
  show "message_of src s \<noteq> None"
    using src m by (auto simp: message_of_def source_msg_def source_ok_def split: stm_source.splits)
  have "copy_value (stm_newcopy c m sz s1) d = ((copy_value s)(c := message_of src s)) d" for d
  proof (cases "d = c")
    case True
    then show ?thesis using m by (cases "sh_msg s1 m") (simp_all add: copy_value_def stm_newcopy_def message_of_def)
  next
    case False
    then show ?thesis using kept [of d] by (cases "sh_copy s d") (simp_all add: copy_value_def stm_newcopy_def copies)
  qed
  then show "copy_value (stm_newcopy c m sz s1) = (copy_value s)(c := message_of src s)" by blast
qed

lemma fresh_copy:
  assumes "stm_inv s" "sh_copy s c = None"
  shows "obj_copy s x \<noteq> Some c" "lua_last s r \<noteq> Some c"
  using copy_value_live(2) [OF assms(1), of x c r] assms(2) by auto

text \<open>Every call does to the channels what it should.\<close>

lemma lcopy_channels:
  assumes "lcopy w k s = Some s'"
  shows "channels_of s' = channel_step (Call_Copy w k) v (channels_of s)"
proof -
  from assms obtain x p where x: "lua_writer s w = Some x" "sh_object s x = Some p"
    "s' = s\<lparr>sh_object := (sh_object s)(x \<mapsto> p\<lparr>so_reference := so_reference p + 1\<rparr>), lua_pending := (lua_pending s)(k \<mapsto> x)\<rparr>"
    by (auto simp: lcopy_def stm_grab_def c_assert_def bind_eq_Some_conv split: if_splits)
  have o: "obj_copy s' = obj_copy s" using x(2) by (auto simp: x(3) obj_copy_def fun_eq_iff)
  have fields: "lua_reader s' = lua_reader s" "lua_last s' = lua_last s" by (simp_all add: x(3))
  have "copy_unread s' = copy_unread s" by (rule ext) (simp add: copy_unread_def o fields split: option.split)
  moreover have "copy_value s' = copy_value s" by (simp add: x(3))
  ultimately show ?thesis using x(1) by (simp add: channels_of_def stm_value_copy o) (simp add: x(3))
qed

lemma lnewwriter_channels:
  assumes inv: "stm_inv s" and new: "sh_object s x = None" "sh_copy s c = None" "source_ok src s"
  shows "channels_of (lnewwriter w x c src s) = channel_step (Call_Newwriter w x c src) (message_of src s) (channels_of s)"
proof -
  from inv have ci: "copy_inv {#} s" "object_inv s" by (simp_all add: stm_inv_def)
  obtain m sz s1 where m: "source_msg src s = ((m, sz), s1)" by (metis prod.exhaust)
  note val = newcopy_values [OF ci(1) new(2,3) m]
  from val(3) obtain ms where s1: "s1 = s\<lparr>sh_msg := ms\<rparr>" ..
  let ?s2 = "stm_newcopy c m sz s1"
  have s': "lnewwriter w x c src s = ?s2\<lparr>sh_object := (sh_object s)(x \<mapsto> \<lparr>so_reference = 1, so_copy = Some c\<rparr>), lua_writer := (lua_writer s)(w \<mapsto> x)\<rparr>"
    unfolding lnewwriter_def m by (simp add: stm_new_def Let_def stm_newcopy_def s1)
  have "obj_copy ?s2 = obj_copy s" by (simp add: stm_newcopy_def s1)
  then have o: "obj_copy (lnewwriter w x c src s) = (obj_copy s)(x \<mapsto> c)"
    unfolding s' using obj_copy_upd [of ?s2 x] by (simp add: stm_newcopy_def s1)
  have fields: "lua_writer (lnewwriter w x c src s) = (lua_writer s)(w \<mapsto> x)" "lua_pending (lnewwriter w x c src s) = lua_pending s"
    "lua_reader (lnewwriter w x c src s) = lua_reader s" "lua_last (lnewwriter w x c src s) = lua_last s"
    unfolding s' by (simp_all add: stm_newcopy_def s1)
  have cv: "copy_value (lnewwriter w x c src s) = (copy_value s)(c := message_of src s)" unfolding s' using val(1) by simp
  have "lua_reader s r \<noteq> Some x" for r using object_held [OF ci(2), of r x] new(1) by auto
  then have "copy_unread (lnewwriter w x c src s) = copy_unread s"
    by (auto simp: copy_unread_def o fields fun_eq_iff split: option.split)
  moreover have "stm_value y (lnewwriter w x c src s) = ((\<lambda>x. stm_value x s)(x := message_of src s)) y" for y
    using fresh_copy(1) [OF inv new(2), of y] by (cases "obj_copy s y") (auto simp: stm_value_copy o cv)
  ultimately show ?thesis by (simp add: channels_of_def fields fun_eq_iff)
qed

lemma ldeletewriter_channels:
  assumes inv: "stm_inv s" and run: "ldeletewriter w s = Some s'" and inv': "stm_inv s'"
  shows "channels_of s' = channel_step (Call_Deletewriter w) v (channels_of s)"
proof -
  from inv have ci: "copy_inv {#} s" by (simp add: stm_inv_def)
  from run obtain x p h where x: "lua_writer s w = Some x" "sh_object s x = Some p" "stm_releasecopy (so_copy p) s = Some h" "so_copy p \<noteq> None"
    "s' = h\<lparr>sh_object := (sh_object h)(x := if so_reference p > 1 then Some (p\<lparr>so_reference := so_reference p - 1, so_copy := None\<rparr>) else None),
      lua_writer := (lua_writer h)(w := None)\<rparr>"
    by (auto simp: ldeletewriter_def stm_release_def c_assert_def bind_eq_Some_conv Let_def split: if_splits)
  from releasecopy_fields [OF x(3)] obtain cp ms where h: "h = s\<lparr>sh_copy := cp, sh_msg := ms\<rparr>" .
  have "obj_copy h = obj_copy s" by (simp add: h)
  then have o: "obj_copy s' = (obj_copy s)(x := None)" unfolding x(5) using obj_copy_upd [of h x] by simp
  have kept: "copies_kept s s'" using releasecopy_copies [OF ci x(3)] unfolding x(5) copies_kept_def by simp
  have fields: "lua_writer s' = (lua_writer s)(w := None)" "lua_pending s' = lua_pending s" "lua_reader s' = lua_reader s" "lua_last s' = lua_last s"
    by (simp_all add: x(5) h)
  have "stm_value y s' = ((\<lambda>x. stm_value x s)(x := None)) y" for y
    using copies_kept_value [OF kept inv', of y] o by (cases "y = x") (simp_all add: stm_value_copy)
  moreover have "copy_unread s' r \<longleftrightarrow> copy_unread s r \<and> lua_reader s r \<noteq> Some x" for r
    by (auto simp: copy_unread_def o fields split: option.split)
  ultimately show ?thesis using x(1) by (simp add: channels_of_def fields fun_eq_iff)
qed

lemma lupdate_channels:
  assumes inv: "stm_inv s" and w: "lua_writer s w = Some x" and c: "sh_copy s c = None" and src: "source_ok src s"
    and run: "lupdate w c src s = Some s'" and inv': "stm_inv s'"
  shows "channels_of s' = channel_step (Call_Update w c src) (message_of src s) (channels_of s)"
proof -
  from inv have ci: "copy_inv {#} s" "object_inv s" by (simp_all add: stm_inv_def)
  from object_held [OF ci(2)] w obtain p where p: "sh_object s x = Some p" by blast
  obtain m sz s1 where m: "source_msg src s = ((m, sz), s1)" by (metis prod.exhaust)
  note val = newcopy_values [OF ci(1) c src m]
  from val(3) obtain ms where s1: "s1 = s\<lparr>sh_msg := ms\<rparr>" ..
  let ?v = "Some (p\<lparr>so_copy := Some c\<rparr>)" and ?s1 = "stm_newcopy c m sz s1"
  let ?s2 = "?s1\<lparr>sh_object := (sh_object s)(x := ?v)\<rparr>"
  have sel: "sh_object ?s1 = sh_object s" "lua_writer s1 = lua_writer s" by (simp_all add: stm_newcopy_def s1)
  from source_msg_ok [OF ci(1) src] obtain m' sz' ms1 where o1: "source_msg src s = ((m', sz'), s\<lparr>sh_msg := ms1\<rparr>)"
    "copy_inv {#} (s\<lparr>sh_msg := ms1\<rparr>)" "ms1 m' \<noteq> None" "m' \<notin> sc_msg ` ran (sh_copy s)" by blast
  from o1(1) m have "m' = m" "s1 = s\<lparr>sh_msg := ms1\<rparr>" by simp_all
  with o1(2-4) have "copy_inv {#} s1" "sh_msg s1 m \<noteq> None" "m \<notin> sc_msg ` ran (sh_copy s1)" by simp_all
  with newcopy_ok [of "{#}" s1 c m sz] c have "copy_inv (held (Option.bind ?v so_copy) + {#}) ?s1" by (simp add: s1)
  from move_object [OF this, of x] have inv2: "copy_inv (held (so_copy p) + {#}) ?s2" using p by (simp add: obj_copy_def sel)
  have rel: "stm_releasecopy (so_copy p) ?s2 = Some s'"
    using run w p by (simp add: lupdate_def m stm_update_def Let_def sel)
  from releasecopy_fields [OF rel] obtain cp ms' where s': "s' = ?s2\<lparr>sh_copy := cp, sh_msg := ms'\<rparr>" .
  have "obj_copy ?s1 = obj_copy s" by (simp add: stm_newcopy_def s1)
  then have o: "obj_copy s' = (obj_copy s)(x \<mapsto> c)" unfolding s' using obj_copy_upd [of ?s1 x ?v] by (simp add: sel)
  have fields: "lua_writer s' = lua_writer s" "lua_pending s' = lua_pending s" "lua_reader s' = lua_reader s" "lua_last s' = lua_last s"
    by (simp_all add: s' stm_newcopy_def s1)
  have cv: "copy_value s' d = None \<or> copy_value s' d = ((copy_value s)(c := message_of src s)) d" for d
    using releasecopy_copies [OF inv2 rel] val(1) unfolding copies_kept_def by simp
  have "stm_value y s' = ((\<lambda>x. stm_value x s)(x := message_of src s)) y" for y
  proof (cases "obj_copy s' y")
    case None
    with o show ?thesis by (auto simp: stm_value_copy split: if_splits)
  next
    case (Some d)
    from copy_value_live(1) [OF inv', of y d] Some cv [of d] have "copy_value s' d = ((copy_value s)(c := message_of src s)) d" by auto
    with Some o fresh_copy(1) [OF inv c, of y] show ?thesis by (auto simp: stm_value_copy split: if_splits)
  qed
  moreover have "copy_unread s' r \<longleftrightarrow> copy_unread s r \<or> lua_reader s r = Some x" for r
    using fresh_copy(2) [OF inv c, of r] by (auto simp: copy_unread_def o fields split: option.split)
  ultimately show ?thesis using w by (simp add: channels_of_def fields fun_eq_iff)
qed

lemma lnewreader_channels:
  assumes inv: "stm_inv s" and run: "lnewreader r k s = Some s'"
  shows "channels_of s' = channel_step (Call_Newreader r k) v (channels_of s)"
proof -
  from run obtain x where x: "lua_pending s k = Some x"
    "s' = s\<lparr>lua_pending := (lua_pending s)(k := None), lua_reader := (lua_reader s)(r \<mapsto> x), lua_last := (lua_last s)(r := None)\<rparr>"
    by (auto simp: lnewreader_def bind_eq_Some_conv)
  have o: "obj_copy s' = obj_copy s" "copy_value s' = copy_value s" by (simp_all add: x(2))
  have "stm_value x s \<noteq> None \<longleftrightarrow> obj_copy s x \<noteq> None"
    using copy_value_live(1) [OF inv, of x] by (cases "obj_copy s x") (auto simp: stm_value_copy)
  then have "copy_unread s' q \<longleftrightarrow> ((copy_unread s)(r := stm_value x s \<noteq> None)) q" for q
    by (cases "q = r") (auto simp: copy_unread_def o(1) x(2) split: option.split)
  then show ?thesis using x(1) by (simp add: channels_of_def stm_value_copy o fun_eq_iff) (simp add: x(2))
qed

lemma ldeletereader_channels:
  assumes inv: "stm_inv s" and run: "ldeletereader r s = Some s'" and inv': "stm_inv s'"
  shows "channels_of s' = channel_step (Call_Deletereader r) v (channels_of s)"
proof -
  from inv have ci: "copy_inv {#} s" by (simp add: stm_inv_def)
  from run obtain y h0 where h0: "lua_reader s r = Some y" "stm_releasereader y s = Some h0"
    by (auto simp: ldeletereader_def bind_eq_Some_conv)
  from h0(2) obtain p where p: "sh_object s y = Some p" by (auto simp: stm_releasereader_def bind_eq_Some_conv)
  let ?v = "if so_reference p = 1 then None else Some (p\<lparr>so_reference := so_reference p - 1\<rparr>)"
  have h0': "h0 = s\<lparr>sh_object := (sh_object s)(y := ?v)\<rparr>" "so_reference p = 1 \<longrightarrow> so_copy p = None"
    using h0(2) p by (auto simp: stm_releasereader_def c_assert_def split: if_splits)
  obtain h where h: "h = s\<lparr>sh_object := (sh_object s)(y := ?v), lua_reader := (lua_reader s)(r := None)\<rparr>" by blast
  with run h0 h0'(1) obtain s2 where s2: "stm_releasecopy (lua_last h r) h = Some s2" "s' = s2\<lparr>lua_last := (lua_last s2)(r := None)\<rparr>"
    by (auto simp: ldeletereader_def bind_eq_Some_conv Let_def)
  note x = h0(1) p h0'(2) h s2
  have oh: "obj_copy h = obj_copy s" unfolding x(4) using x(2,3) by (auto simp: obj_copy_def fun_eq_iff)
  have ch: "copy_inv {#} h" using ci oh by (simp add: copy_inv_def) (simp add: x(4))
  from releasecopy_fields [OF x(5)] obtain cp ms where s2eq: "s2 = h\<lparr>sh_copy := cp, sh_msg := ms\<rparr>" .
  have o: "obj_copy s' = obj_copy s" by (simp add: x(6) s2eq oh)
  have kept: "copies_kept s s'" using releasecopy_copies [OF ch x(5)] unfolding x(6) copies_kept_def by (simp add: x(4))
  have fields: "lua_writer s' = lua_writer s" "lua_pending s' = lua_pending s" "lua_reader s' = (lua_reader s)(r := None)"
    "lua_last s' = (lua_last s)(r := None)" by (simp_all add: x(6) s2eq) (simp_all add: x(4))
  have "stm_value y s' = stm_value y s" for y using copies_kept_value [OF kept inv', of y] o by simp
  moreover have "copy_unread s' q \<longleftrightarrow> ((copy_unread s)(r := False)) q" for q
    by (cases "q = r") (auto simp: copy_unread_def o fields split: option.split)
  ultimately show ?thesis by (simp add: channels_of_def fields fun_eq_iff)
qed

lemma getcopy_fields:
  assumes "stm_getcopy x s = Some (y, s')"
  shows "\<exists>cp. s' = s\<lparr>sh_copy := cp\<rparr>" "copies_kept s s'"
proof -
  from assms obtain p where p: "sh_object s x = Some p" by (auto simp: stm_getcopy_def bind_eq_Some_conv)
  show f: "\<exists>cp. s' = s\<lparr>sh_copy := cp\<rparr>"
  proof (cases "so_copy p")
    case None
    with assms p show ?thesis by (intro exI [of _ "sh_copy s"]) (simp add: stm_getcopy_def)
  next
    case (Some c)
    with assms p show ?thesis by (auto simp: stm_getcopy_def c_assert_def bind_eq_Some_conv split: if_splits)
  qed
  show "copies_kept s s'"
    unfolding copies_kept_def
  proof (intro allI)
    fix c
    show "copy_value s' c = None \<or> copy_value s' c = copy_value s c"
    proof (cases "sh_copy s' c")
      case None
      then show ?thesis by (simp add: copy_value_def)
    next
      case (Some q)
      from getcopy_kept [OF assms this] Some f show ?thesis by (auto simp: copy_value_def)
    qed
  qed
qed

lemma lread_fields:
  assumes inv: "stm_inv s" and run: "lread r s = Some (res, s')"
  shows "lua_writer s' = lua_writer s" "lua_pending s' = lua_pending s" "copies_kept s s'"
proof -
  from inv have ci: "copy_inv {#} s" "object_inv s" by (simp_all add: stm_inv_def)
  from run obtain x where x: "lua_reader s r = Some x" by (auto simp: lread_def bind_eq_Some_conv)
  from object_held [OF ci(2)] x obtain p where p: "sh_object s x = Some p" by blast
  from getcopy_ok [OF ci(1) p] obtain cp where
    g: "stm_getcopy x s = Some (so_copy p, s\<lparr>sh_copy := cp\<rparr>)" "copy_inv (held (so_copy p) + {#}) (s\<lparr>sh_copy := cp\<rparr>)" by blast
  define s1 where "s1 = s\<lparr>sh_copy := cp\<rparr>"
  from run x g(1) obtain s2 where s2: "stm_releasecopy (if so_copy p = lua_last s r then so_copy p else lua_last s r) s1 = Some s2"
    "s' = s2 \<or> s' = s2\<lparr>lua_last := (lua_last s2)(r := so_copy p)\<rparr>"
    by (cases "so_copy p = lua_last s r")
      (auto simp: lread_def s1_def bind_eq_Some_conv Let_def split: option.splits)
  from releasecopy_fields [OF s2(1)] obtain cp' ms where f: "s2 = s1\<lparr>sh_copy := cp', sh_msg := ms\<rparr>" .
  show "lua_writer s' = lua_writer s" "lua_pending s' = lua_pending s" using s2(2) by (auto simp: f s1_def)
  have "copies_kept s s1" using getcopy_fields(2) [OF g(1)] by (simp add: s1_def)
  moreover have "copies_kept s1 s2" using releasecopy_copies [OF g(2) s2(1) [unfolded s1_def]] by (simp add: s1_def)
  ultimately have "copies_kept s s2" by (rule copies_kept_trans)
  with s2(2) show "copies_kept s s'" by (auto simp: copies_kept_def)
qed

lemma lread_channels:
  assumes inv: "stm_inv s" and r: "lua_reader s r = Some x"
  shows "\<exists>s'. lread r s = Some (channel_read r (channels_of s), s') \<and> stm_inv s' \<and> channels_of s' = channel_step (Call_Read r) v (channels_of s)"
proof -
  from lread_ok [OF assms] obtain s' where s': "lread r s = Some (if obj_copy s x = lua_last s r then None else stm_value x s, s')" "stm_inv s'"
    "lua_last s' = (lua_last s)(r := obj_copy s x)" "obj_copy s' = obj_copy s" "lua_reader s' = lua_reader s" by blast
  note f = lread_fields [OF inv s'(1)]
  have "stm_value y s' = stm_value y s" for y using copies_kept_value [OF f(3) s'(2), of y] s'(4) by simp
  moreover have "copy_unread s' q \<longleftrightarrow> ((copy_unread s)(r := False)) q" for q
    using r by (cases "q = r") (auto simp: copy_unread_def s'(3-5) split: option.split)
  ultimately have "channels_of s' = channel_step (Call_Read r) v (channels_of s)"
    by (simp add: channels_of_def f s'(5) fun_eq_iff)
  moreover have "channel_read r (channels_of s) = (if obj_copy s x = lua_last s r then None else stm_value x s)"
    using r by (cases "obj_copy s x") (auto simp: channel_read_def channels_of_def copy_unread_def stm_value_copy)
  ultimately show ?thesis using s'(1,2) by auto
qed

text \<open>Every call of the C code is the call of the channels, and a read returns what the channels say.\<close>

lemma call_channels:
  assumes "stm_inv s" "call_ok c s"
  shows "\<exists>s'. run_call c s = Some s' \<and> stm_inv s' \<and> channels_of s' = channel_step c (call_message c s) (channels_of s)"
proof -
  from call_keeps_inv [OF assms] obtain s' where s': "run_call c s = Some s'" "stm_inv s'" by blast
  have "channels_of s' = channel_step c (call_message c s) (channels_of s)"
  proof (cases c)
    case (Call_Copy w k)
    with s' lcopy_channels show ?thesis by simp
  next
    case (Call_Newwriter w x c src)
    with s' assms lnewwriter_channels show ?thesis by auto
  next
    case (Call_Deletewriter w)
    with s' assms(1) ldeletewriter_channels show ?thesis by simp
  next
    case (Call_Update w c src)
    with s' assms lupdate_channels show ?thesis by auto
  next
    case (Call_Newreader r k)
    with s' assms(1) lnewreader_channels show ?thesis by simp
  next
    case (Call_Deletereader r)
    with s' assms(1) ldeletereader_channels show ?thesis by simp
  next
    case (Call_Read r)
    with assms(2) obtain x where "lua_reader s r = Some x" by auto
    from lread_channels [OF assms(1) this] s'(1) Call_Read show ?thesis by auto
  qed
  with s' show ?thesis by blast
qed

fun run_calls :: "stm_call list \<Rightarrow> stm_lua \<Rightarrow> stm_lua option" where
  "run_calls [] s = Some s"
| "run_calls (c # cs) s = (if call_ok c s then Option.bind (run_call c s) (run_calls cs) else None)"

lemma run_calls_reachable: "stm_reachable msgs s \<Longrightarrow> run_calls cs s = Some s' \<Longrightarrow> stm_reachable msgs s'"
  by (induction cs arbitrary: s) (auto split: if_splits bind_splits intro: stm_next)

text \<open>Calls that leave a writer and its message alone, and calls that leave a reader alone.\<close>

fun keeps_writer :: "nat \<Rightarrow> stm_call \<Rightarrow> bool" where
  "keeps_writer w (Call_Update w' c src) \<longleftrightarrow> w' \<noteq> w"
| "keeps_writer w (Call_Deletewriter w') \<longleftrightarrow> w' \<noteq> w"
| "keeps_writer w _ \<longleftrightarrow> True"

fun keeps_reader :: "nat \<Rightarrow> stm_call \<Rightarrow> bool" where
  "keeps_reader r (Call_Deletereader r') \<longleftrightarrow> r' \<noteq> r"
| "keeps_reader r _ \<longleftrightarrow> True"

definition channel_has :: "nat \<Rightarrow> nat \<Rightarrow> nat \<Rightarrow> (u8 list \<times> u32) option \<Rightarrow> bool \<Rightarrow> stm_lua \<Rightarrow> bool" where
  "channel_has w r x v u s \<longleftrightarrow> stm_inv s \<and> lua_writer s w = Some x \<and> lua_reader s r = Some x \<and> stm_value x s = v \<and> copy_unread s r = u"

lemma writer_unique:
  assumes "stm_inv s" "lua_writer s w = Some x" "lua_writer s w' = Some x"
  shows "w = w'"
proof (rule ccontr)
  assume ne: "w \<noteq> w'"
  from assms(1) have inv: "object_inv s" by (simp add: stm_inv_def)
  from object_held [OF inv] assms(2) obtain p where "sh_object s x = Some p" by blast
  from object_live [OF inv this] have "refs (lua_writer s) x \<le> 1" by (simp split: if_splits)
  moreover have "card {w, w'} \<le> card {k. lua_writer s k = Some x}"
    using assms(2,3) object_fin [OF inv] by (intro card_mono finite_refs) auto
  ultimately show False using ne by (simp add: refs_def)
qed

lemma call_keeps_channel:
  assumes "channel_has w r x v u s" "call_ok c s" "keeps_writer w c" "keeps_reader r c" "u \<longrightarrow> c \<noteq> Call_Read r"
  shows "\<exists>s'. run_call c s = Some s' \<and> channel_has w r x v u s'"
proof -
  from assms(1) have has: "stm_inv s" "lua_writer s w = Some x" "lua_reader s r = Some x" "stm_value x s = v" "copy_unread s r = u"
    by (simp_all add: channel_has_def)
  from call_channels [OF has(1) assms(2)] obtain s' where
    s': "run_call c s = Some s'" "stm_inv s'" "channels_of s' = channel_step c (call_message c s) (channels_of s)" by blast
  have inv: "object_inv s" using has(1) by (simp add: stm_inv_def)
  have x: "sh_object s x \<noteq> None" using object_held [OF inv, of w x] has(2) by auto
  have w: "lua_writer s w' \<noteq> Some x" if "w' \<noteq> w" for w' using writer_unique [OF has(1,2), of w'] that by auto
  have "lua_writer s' w = Some x \<and> lua_reader s' r = Some x \<and> stm_value x s' = v \<and> copy_unread s' r = u"
    using s'(3) has(2-5) assms(2-5) x w
    by (cases c) (auto simp: channels_of_def fun_eq_iff split: if_splits)
  with s'(1,2) show ?thesis by (simp add: channel_has_def)
qed

lemma run_keeps_channel:
  assumes "channel_has w r x v u s" "run_calls cs s = Some s'"
    and "\<forall>c \<in> set cs. keeps_writer w c \<and> keeps_reader r c \<and> (u \<longrightarrow> c \<noteq> Call_Read r)"
  shows "channel_has w r x v u s'"
  using assms
proof (induction cs arbitrary: s)
  case (Cons c cs)
  from Cons.prems(2) have ok: "call_ok c s" by (auto split: if_splits)
  from call_keeps_channel [OF Cons.prems(1) ok] Cons.prems(3) obtain s1 where "run_call c s = Some s1" "channel_has w r x v u s1" by auto
  with Cons ok show ?case by auto
qed simp

text \<open>Property C32: each reader of an object gets a message that the writer puts in it exactly once, whatever other calls the services make
  meanwhile: reads by other readers, new readers and writers, updates of other objects, boxes that are collected. When the writer
  puts in a message, as a string or as a pointer, and neither changes it nor goes away, the next read of the reader returns the bytes
  and the size of the message, and every read after that returns that there is nothing new. (So a message that is replaced before
  a reader comes is never seen by that reader.) This holds also when the allocator uses the addresses of old messages again: a
  reader compares addresses of copies, and the copy it has seen last cannot be freed.\<close>

theorem stm_update_read_once:
  assumes "stm_reachable msgs s" "lua_writer s w = lua_reader s r" "run_calls (Call_Update w c src # cs) s = Some s1"
    and "\<forall>c \<in> set cs. keeps_writer w c \<and> keeps_reader r c \<and> c \<noteq> Call_Read r"
  shows "\<exists>s2. lread r s1 = Some (message_of src s, s2) \<and> message_of src s \<noteq> None \<and>
    (\<forall>cs' s3. run_calls cs' s2 = Some s3 \<and> (\<forall>c \<in> set cs'. keeps_writer w c \<and> keeps_reader r c) \<longrightarrow> (\<exists>s4. lread r s3 = Some (None, s4)))"
proof -
  note inv = reachable_inv [OF assms(1)]
  from assms(3) have ok: "call_ok (Call_Update w c src) s" by (auto split: if_splits)
  with assms(2) obtain x where x: "lua_writer s w = Some x" "lua_reader s r = Some x" by auto
  from call_channels [OF inv ok] obtain s0 where
    s0: "run_call (Call_Update w c src) s = Some s0" "stm_inv s0"
    "channels_of s0 = channel_step (Call_Update w c src) (message_of src s) (channels_of s)" by auto
  have "channel_has w r x (message_of src s) True s0" using s0(2,3) x by (simp add: channel_has_def channels_of_def fun_eq_iff)
  moreover have "run_calls cs s0 = Some s1" using assms(3) s0(1) ok by (simp del: run_call.simps)
  ultimately have has: "channel_has w r x (message_of src s) True s1"
    by (rule run_keeps_channel) (use assms(4) in simp)
  then have s1: "stm_inv s1" "lua_reader s1 r = Some x" by (simp_all add: channel_has_def)
  from lread_channels [OF s1, of None] obtain s2 where
    s2: "lread r s1 = Some (channel_read r (channels_of s1), s2)" "stm_inv s2" "channels_of s2 = channel_step (Call_Read r) None (channels_of s1)" by blast
  have read: "channel_read r (channels_of s1) = message_of src s" using has by (simp add: channel_has_def channel_read_def channels_of_def)
  have has2: "channel_has w r x (message_of src s) False s2"
    using s2(2,3) has by (simp add: channel_has_def channels_of_def fun_eq_iff)
  have "message_of src s \<noteq> None"
  proof -
    obtain m sz t where m: "source_msg src s = ((m, sz), t)" by (metis prod.exhaust)
    from inv have "copy_inv {#} s" by (simp add: stm_inv_def)
    moreover have "sh_copy s c = None" "source_ok src s" using ok by simp_all
    ultimately show ?thesis using newcopy_values(2) [OF _ _ _ m] by blast
  qed
  moreover have "\<exists>s4. lread r s3 = Some (None, s4)"
    if "run_calls cs' s2 = Some s3" "\<forall>c \<in> set cs'. keeps_writer w c \<and> keeps_reader r c" for cs' s3
  proof -
    from run_keeps_channel [OF has2 that(1)] that(2) have has3: "channel_has w r x (message_of src s) False s3" by simp
    then have s3: "stm_inv s3" "lua_reader s3 r = Some x" by (simp_all add: channel_has_def)
    have "channel_read r (channels_of s3) = None" using has3 by (simp add: channel_has_def channel_read_def channels_of_def)
    with lread_channels [OF s3, of None] show ?thesis by auto
  qed
  ultimately show ?thesis using s2(1) read by auto
qed

text \<open>Two readers of an object: the writer puts in a message at a pointer, the other reader reads, and then this one does.\<close>

definition demo_calls :: "stm_call list" where
  "demo_calls = [Call_Newwriter 0 5 6 (Lua_String 7 [1, 2]), Call_Copy 0 1, Call_Newreader 2 1, Call_Copy 0 1, Call_Newreader 3 1, Call_Read 3]"

definition demo_heap :: stm_lua where
  "demo_heap = \<lparr>sh_object = [5 \<mapsto> \<lparr>so_reference = 3, so_copy = Some 6\<rparr>], sh_copy = [6 \<mapsto> \<lparr>sc_reference = 2, sc_sz = 2, sc_msg = 7\<rparr>],
    sh_msg = [9 \<mapsto> [4], 7 \<mapsto> [1, 2]], lua_writer = [0 \<mapsto> 5], lua_pending = Map.empty, lua_reader = [2 \<mapsto> 5, 3 \<mapsto> 5], lua_last = [3 \<mapsto> 6]\<rparr>"

theorem stm_update_read_once_witness:
  "\<exists>s s1 s2 s3. run_calls demo_calls \<lparr>sh_object = Map.empty, sh_copy = Map.empty, sh_msg = [9 \<mapsto> [4]], lua_writer = Map.empty,
      lua_pending = Map.empty, lua_reader = Map.empty, lua_last = Map.empty\<rparr> = Some s \<and>
    run_calls [Call_Update 0 8 (Userdata 9 1), Call_Read 3] s = Some s1 \<and> lread 2 s1 = Some (Some ([4], 1), s2) \<and> lread 2 s2 = Some (None, s3)"
proof -
  let ?start = "\<lparr>sh_object = Map.empty, sh_copy = Map.empty, sh_msg = [9 \<mapsto> [4]], lua_writer = Map.empty, lua_pending = Map.empty,
    lua_reader = Map.empty, lua_last = Map.empty\<rparr> :: stm_lua"
  note defs = source_ok_def lnewwriter_def source_msg_def Let_def stm_new_def stm_newcopy_def lcopy_def stm_grab_def lnewreader_def
    lread_def stm_getcopy_def stm_releasecopy_def lupdate_def stm_update_def free_msg_def
  have run: "run_calls demo_calls ?start = Some demo_heap"
    by (simp add: demo_calls_def demo_heap_def defs)
  have "\<exists>s1. run_calls [Call_Update 0 8 (Userdata 9 1), Call_Read 3] demo_heap = Some s1"
    by (simp add: demo_heap_def defs)
  then obtain s1 where s1: "run_calls [Call_Update 0 8 (Userdata 9 1), Call_Read 3] demo_heap = Some s1" ..
  have m: "message_of (Userdata 9 1) demo_heap = Some ([4], 1)" "lua_writer demo_heap 0 = lua_reader demo_heap 2"
    by (simp_all add: message_of_def source_msg_def demo_heap_def)
  from stm_update_read_once [OF run_calls_reachable [OF stm_start run] m(2) s1] m(1) obtain s2 where
    s2: "lread 2 s1 = Some (Some ([4], 1), s2)" "\<And>cs' s3. run_calls cs' s2 = Some s3 \<Longrightarrow> \<forall>c \<in> set cs'. keeps_writer 0 c \<and> keeps_reader 2 c \<Longrightarrow>
      \<exists>s4. lread 2 s3 = Some (None, s4)" by auto
  from s2(2) [of "[]" s2] run s1 s2(1) show ?thesis by auto
qed

subsection \<open>The last two readers\<close>

text \<open>\<^verbatim>\<open>stm_releasereader\<close> in steps: several threads can have the read lock at the same time. The object has the counter of its read lock.
  The steps of a thread: take the lock, decrement the reference, and then give back the object, or the lock. \<open>None\<close> is the use
  of the object after it was given back.\<close>

datatype rr_pc = RR_Rlock | RR_Dec | RR_Free | RR_Runlock | RR_Done

record rr_object =
  rr_read :: int
  rr_object :: stm_object

fun rr_step :: "rr_pc \<Rightarrow> rr_object option \<Rightarrow> (rr_pc \<times> rr_object option) option" where
  "rr_step RR_Done ob = Some (RR_Done, ob)"
| "rr_step pc None = None"
| "rr_step RR_Rlock (Some ob) = Some (RR_Dec, Some (ob\<lparr>rr_read := rr_read ob + 1\<rparr>))"
| "rr_step RR_Dec (Some ob) = (let p = rr_object ob in
     Some (if so_reference p = 1 then RR_Free else RR_Runlock, Some (ob\<lparr>rr_object := p\<lparr>so_reference := so_reference p - 1\<rparr>\<rparr>)))"
| "rr_step RR_Free (Some ob) = do { _ \<leftarrow> c_assert (so_copy (rr_object ob) = None); Some (RR_Done, None) }"
| "rr_step RR_Runlock (Some ob) = Some (RR_Done, Some (ob\<lparr>rr_read := rr_read ob - 1\<rparr>))"

text \<open>Threads that release readers of the same object, and a schedule of their steps.\<close>

fun rr_run :: "nat list \<Rightarrow> rr_pc list \<Rightarrow> rr_object option \<Rightarrow> (rr_pc list \<times> rr_object option) option" where
  "rr_run [] pcs ob = Some (pcs, ob)"
| "rr_run (t # ts) pcs ob = (if t < length pcs then do {
     (pc, ob) \<leftarrow> rr_step (pcs ! t) ob;
     rr_run ts (pcs[t := pc]) ob } else None)"

definition to_dec :: "rr_pc \<Rightarrow> nat" where
  "to_dec pc = (if pc = RR_Rlock \<or> pc = RR_Dec then 1 else 0)"

lemma rr_run_safe:
  assumes "RR_Free \<notin> set pcs" "int (sum_list (map to_dec pcs)) < so_reference (rr_object ob)" "set ts \<subseteq> {..<length pcs}"
  shows "rr_run ts pcs (Some ob) \<noteq> None"
  using assms
proof (induction ts arbitrary: pcs ob)
  case (Cons t ts)
  have t: "t < length pcs" using Cons.prems(3) by simp
  have le: "to_dec (pcs ! t) \<le> sum_list (map to_dec pcs)" using t by (intro member_le_sum_list) auto
  have sum: "sum_list (map to_dec (pcs[t := pc])) = sum_list (map to_dec pcs) + to_dec pc - to_dec (pcs ! t)" for pc
    using t by (simp add: map_update sum_list_update)
  have go: "rr_run ts (pcs[t := pc]) (Some ob') \<noteq> None"
    if "pc \<noteq> RR_Free" "int (sum_list (map to_dec pcs) + to_dec pc - to_dec (pcs ! t)) < so_reference (rr_object ob')" for pc ob'
    using that Cons.prems(1,3) by (intro Cons.IH) (auto simp: sum dest: set_update_subset_insert [THEN subsetD])
  have pos: "0 < so_reference (rr_object ob)" using Cons.prems(2) by linarith
  show ?case
  proof (cases "pcs ! t")
    case RR_Dec
    with le Cons.prems(2) have "so_reference (rr_object ob) \<noteq> 1" using to_dec_def [of RR_Dec] by simp
    note ne = this
    have eq: "rr_run (t # ts) pcs (Some ob) = rr_run ts (pcs[t := RR_Runlock]) (Some (ob\<lparr>rr_object := rr_object ob\<lparr>so_reference := so_reference (rr_object ob) - 1\<rparr>\<rparr>))" using RR_Dec ne t by (simp add: Let_def)
    show ?thesis unfolding eq by (rule go) (use RR_Dec le Cons.prems(2) to_dec_def [of RR_Dec] to_dec_def [of RR_Runlock] in simp_all)
  next
    case RR_Free
    with Cons.prems(1) t nth_mem show ?thesis by metis
  next
    case RR_Rlock
    have eq: "rr_run (t # ts) pcs (Some ob) = rr_run ts (pcs[t := RR_Dec]) (Some (ob\<lparr>rr_read := rr_read ob + 1\<rparr>))" using RR_Rlock t by simp
    show ?thesis unfolding eq by (rule go) (use RR_Rlock le Cons.prems(2) to_dec_def [of RR_Dec] to_dec_def [of RR_Rlock] in simp_all)
  next
    case RR_Runlock
    have eq: "rr_run (t # ts) pcs (Some ob) = rr_run ts (pcs[t := RR_Done]) (Some (ob\<lparr>rr_read := rr_read ob - 1\<rparr>))" using RR_Runlock t by simp
    show ?thesis unfolding eq by (rule go) (use RR_Runlock le Cons.prems(2) to_dec_def [of RR_Done] to_dec_def [of RR_Runlock] in simp_all)
  next
    case RR_Done
    have eq: "rr_run (t # ts) pcs (Some ob) = rr_run ts (pcs[t := RR_Done]) (Some ob)" using RR_Done t by simp
    show ?thesis unfolding eq by (rule go) (use RR_Done le Cons.prems(2) to_dec_def [of RR_Done] in simp_all)
  qed
qed simp

text \<open>Property C33: threads that release readers while somebody else still has the object never use freed memory, in any
  interleaving of their steps. The last two readers of an object without a writer can: both have the read lock, the first one decrements the
  count to 1, the second one to 0 and frees the object, and the first one gives back the lock in it. Without the overlap the same
  two calls are right.\<close>

theorem stm_last_readers_race:
  "(\<forall>n ts ob. int n < so_reference (rr_object ob) \<and> set ts \<subseteq> {..<n} \<longrightarrow> rr_run ts (replicate n RR_Rlock) (Some ob) \<noteq> None) \<and>
   (let ob = \<lparr>rr_read = 0, rr_object = \<lparr>so_reference = 2, so_copy = None\<rparr>\<rparr> in
     rr_run [0, 0, 1, 1, 1, 0] [RR_Rlock, RR_Rlock] (Some ob) = None \<and>
     rr_run [0, 0, 0, 1, 1, 1] [RR_Rlock, RR_Rlock] (Some ob) = Some ([RR_Done, RR_Done], None))"
proof (intro conjI allI impI)
  fix n ts and ob :: rr_object
  assume h: "int n < so_reference (rr_object ob) \<and> set ts \<subseteq> {..<n}"
  have "sum_list (map to_dec (replicate n RR_Rlock)) = n" by (simp add: to_dec_def sum_list_replicate)
  with h show "rr_run ts (replicate n RR_Rlock) (Some ob) \<noteq> None" by (intro rr_run_safe) auto
next
  show "let ob = \<lparr>rr_read = 0, rr_object = \<lparr>so_reference = 2, so_copy = None\<rparr>\<rparr> in
     rr_run [0, 0, 1, 1, 1, 0] [RR_Rlock, RR_Rlock] (Some ob) = None \<and>
     rr_run [0, 0, 0, 1, 1, 1] [RR_Rlock, RR_Rlock] (Some ob) = Some ([RR_Done, RR_Done], None)"
    by (simp add: Let_def)
qed

theorem stm_last_readers_race_witness:
  "let ob = \<lparr>rr_read = 0, rr_object = \<lparr>so_reference = 3, so_copy = None\<rparr>\<rparr> in rr_run [0, 0, 1, 1, 1, 0] [RR_Rlock, RR_Rlock] (Some ob) \<noteq> None"
  using stm_last_readers_race [THEN conjunct1, rule_format, of 2 "\<lparr>rr_read = 0, rr_object = \<lparr>so_reference = 3, so_copy = None\<rparr>\<rparr>" "[0, 0, 1, 1, 1, 0]"]
  by (simp add: numeral_2_eq_2 Let_def)

end
