(* ===== verification/Spec2Isabelle.thy ===== *)
theory Spec2Isabelle
  imports Commands Gate Net_Pack Seri Sha1_Stream Cluster Harbor_Link Socket_Netpack Sproto_Lua Multicast Stm
begin

text \<open>
  A verification library for the C core of skynet and its libraries. Skynet runs many services in one process: a service has a
  handle, a queue of messages and a callback, worker threads take queues from a global queue and run the callbacks, a timer
  sends responses after a delay, and services that face the network cut byte streams into packages. Lua services use C
  libraries to serialise values, to cut packages and to encrypt.

  \<^bold>\<open>How the code is modelled.\<close> A struct is a record, an enumeration or a tagged union a datatype, a C function a function of the same
  name on explicit state. Words of the code that wrap around are \<open>word\<close>s; indices and sizes are natural numbers where the code keeps
  them in range, and the type \<open>int\<close> where it computes with signed numbers. A function into \<open>option\<close> is \<open>None\<close> exactly when the C
  function fails an assertion, follows a null or dangling pointer, reads memory nobody wrote, leaves an array, or, where
  the theory says so, overflows an \<^verbatim>\<open>int\<close>. Errors that the code reports are values. A loop whose end is not obvious is a \<open>partial_function\<close>, and there are lemmas that it returns.

  \<^bold>\<open>The theories, from the bottom up.\<close>

  \<^item> \<open>Skynet_Prelude\<close>: integer types, assertions, arrays, ring buffers as lists, and the locale \<open>fifo\<close>: what a user of a queue may
    rely on (an invariant, and a list to which the one operation appends and from which the other takes the head), with the
    lemmas that follow for sequences of operations.
  \<^item> \<open>Message_Queue\<close> (\<^verbatim>\<open>skynet_mq.c\<close>): the ring of a service that doubles when it is full, and the global queue as a list linked
    through a store of queues. The interpretation \<open>mq\<close> of \<open>fifo\<close> is on these operations. Refinement to lists, overload reports,
    release of a queue with the messages left in it.
  \<^item> \<open>Scheduler\<close> (\<^verbatim>\<open>skynet_mq.c\<close>, \<^verbatim>\<open>skynet_context_message_dispatch\<close>): the queue operations of any number of threads as a step
    relation. By rule induction: no operation fails, no queue is scheduled twice, no queue with messages is forgotten.
  \<^item> \<open>Handle_Storage\<close> (\<^verbatim>\<open>skynet_handle.c\<close>): the open hash table of the services that doubles, and the sorted array of names with its
    binary search. Registration is proved for every state of the table, also where the handles wrap around: it gives a fresh handle, or
    fails in exactly two states, a table with \<open>2 ^ 24\<close> services and one at the end of the handle range with slot 0 as its only free one.
  \<^item> \<open>Timer_Wheel\<close> (\<^verbatim>\<open>skynet_timer.c\<close>): the five levels of lists with their redistribution on a 32-bit clock that wraps around.
  \<^item> \<open>C_Text\<close>: the functions of the C library on numbers and texts that the commands use.
  \<^item> \<open>Service_Node\<close> (\<^verbatim>\<open>skynet_server.c\<close>, \<^verbatim>\<open>skynet_error.c\<close>, \<^verbatim>\<open>skynet_harbor.c\<close>, \<^verbatim>\<open>skynet_monitor.c\<close>, \<^verbatim>\<open>skynet_env.c\<close> and the calls into
    them from \<^verbatim>\<open>skynet_handle.c\<close> and \<^verbatim>\<open>skynet_timer.c\<close>): contexts with reference counts, sending, dispatching, launching, retiring, and
    memory as heap blocks with an owner. The code of a service is a parameter, the record \<open>service_code\<close>.
  \<^item> \<open>Service_Props\<close>: the invariant of a node, and what sending, dispatching, timeouts and retiring do to the mailboxes. What the \<^verbatim>\<open>release\<close>
    function of a module may do to the node is the hypothesis \<open>release_leaves\<close>.
  \<^item> \<open>Commands\<close> (\<^verbatim>\<open>skynet_server.c\<close>): the text commands of a service.
  \<^item> \<open>Packages\<close>: the specification of cutting a stream into packages, shared by the two theories that follow it.
  \<^item> \<open>Hash_Id\<close> (\<^verbatim>\<open>hashid.h\<close>): the hash table of the gate with chains through an array. The locale \<open>id_table\<close> states it as a finite map and
    has an interpretation \<open>hid\<close> on these operations.
  \<^item> \<open>Data_Buffer\<close> (\<^verbatim>\<open>databuffer.h\<close>): the receive buffer of a connection as a byte stream.
  \<^item> \<open>Gate\<close> (\<^verbatim>\<open>service_gate.c\<close>): the gate service: control commands, connections, and packages from the streams, with lengths of two and of
    four bytes, with and without a receiver. The only events that can fail are accepts, for another listening socket or with an id so
    large that the index in the table of ids overflows.
  \<^item> \<open>Net_Pack\<close> (\<^verbatim>\<open>lua-netpack.c\<close>): the same work for gates in Lua, with a ring (the interpretation \<open>np\<close> of \<open>fifo\<close>) and a hash table of
    unfinished packages. It refines a specification on the byte streams of the sockets.
  \<^item> \<open>Cluster\<close> (\<^verbatim>\<open>lua-cluster.c\<close>, and the loops of \<^verbatim>\<open>clusteragent.lua\<close> and \<^verbatim>\<open>socketchannel.lua\<close> that put the parts together): requests and
    responses between nodes, cut into packages of 32 KB. A request comes back as it was packed, between packages of other sessions.
  \<^item> \<open>Harbor_Queue\<close>, \<open>Harbor_Service\<close>, \<open>Harbor_Props\<close>, \<open>Harbor_Link\<close> (\<^verbatim>\<open>service_harbor.c\<close>): the service that connects the processes of a network: its
    ring of waiting messages (the interpretation \<open>hq\<close> of \<open>fifo\<close>), the table of names, the slots of the harbors with their states, the
    commands and the messages on the wire. The calls out of the service are recorded in order. The invariant of its state, with the
    exact inputs on which the code reads outside of a block; the reassembly against a specification on the byte stream, which the code
    follows unless a message is shorter than its cookie; the path of a message from one harbor to another.
  \<^item> \<open>Socket_Server\<close>, \<open>Socket_Poll\<close> (\<^verbatim>\<open>socket_server.c\<close>, \<^verbatim>\<open>skynet_socket.c\<close>): the slots of the sockets with their buffers and states, the requests
    of the workers that go through the pipe, the direct writes, the events and the loop of the socket thread. What the system answers is
    an argument of each function: how much a write takes and which error it has, what has arrived, whether the event queue refuses.
    \<open>Socket_Props\<close>: a connection as workers, pipe and socket thread see it, step by step, with the invariant of its buffers and of the
    order of its bytes. \<open>Socket_Flow\<close>: the promises of the server on the bytes, on closing and on ids. \<open>Socket_Netpack\<close>: packages from a
    service to another through two sockets and \<open>Net_Pack\<close>; what a request to close a socket does to the event that waits for it.
  \<^item> \<open>Seri\<close> (\<^verbatim>\<open>lua-seri.c\<close>): packing and unpacking of Lua values. Round trip through the chain of blocks; unpacking ends on every
    message: every turn of its loops takes a byte, so the number of bytes is a bound for the recursion.
  \<^item> \<open>Sproto_Pack\<close> (\<^verbatim>\<open>sproto.c\<close>, \<^verbatim>\<open>lsproto.c\<close>): the packing of sproto, which leaves out bytes that are 0, compared with its definition
    on segments: what is written where in the buffer, how the buffers grow, the round trip. The size that \<^verbatim>\<open>sproto_unpack\<close> counts and the
    sizes of the buffers are \<^verbatim>\<open>int\<close>s whose overflow is \<open>None\<close>.
  \<^item> \<open>Sproto_Schema\<close>, \<open>Sproto_Wire\<close>, \<open>Sproto_Lua\<close> (\<^verbatim>\<open>sproto.c\<close>, \<^verbatim>\<open>lsproto.c\<close>): the types of a protocol read from the bytes of a bundle, with the
    lemma that what is accepted is well-formed; the encoder and the decoder of messages, which are functions of a callback; the callbacks
    for Lua tables, whose fuel is the depth of the tables, which the code bounds by 64.
  \<^item> \<open>Multicast\<close> (\<^verbatim>\<open>lua-multicast.c\<close>): messages to many services, kept once and freed by the last receiver.
  \<^item> \<open>Stm\<close> (\<^verbatim>\<open>lua-stm.c\<close>): objects that a writer updates and readers in other services look at, with reference counts for the object and for each
    message. The invariant counts the users; the calls of the services come in any order. The objects refine channels that hold the bytes of
    the newest message and the readers that have seen it. The release of readers once more in atomic steps.
  \<^item> \<open>Des\<close>, \<open>Crypt_Text\<close>, \<open>Dh\<close>, \<open>Md5\<close> (\<^verbatim>\<open>lua-crypt.c\<close>): DES with its padding; keys, hexadecimal and base64 texts; the key exchange in
    64-bit arithmetic modulo a prime; the authentication codes, compared with MD5 as RFC 1321 defines it.
  \<^item> \<open>Sha1\<close>, \<open>Sha1_Stream\<close> (\<^verbatim>\<open>lsha1.c\<close>): SHA-1 and HMAC, compared with FIPS 180 and RFC 2104. The locale \<open>hash_stream\<close> states what a
    hash context with updates promises; its interpretation \<open>sha\<close> is on the SHA-1 context.

  \<^bold>\<open>What the properties show.\<close> The queues, the scheduler and the timer keep every message and every timeout, in order and in time.
  Handles and names map to the services that own them. Sending, killing and launching change exactly what they should, and
  memory has one owner. The three readers of streams return the packages of the streams, however the data arrives. The socket server writes
  the messages of a connection whole and in order, whatever part of them the system takes at a time, and closes a connection when they
  are written. Messages between harbors and requests between nodes arrive as they were sent. Round trips hold for packages, serialised values, handles as texts, DES, hexadecimal and base64. The hashes are the standard ones. Some
  properties state where the code does not do what it means to: the registration at the end of the handle range, lengths
  with the top bit set in the gate, packages nobody receives, the PKCS 7 padding, hexadecimal texts with other characters,
  two ways in which messages to other harbors are lost, messages between harbors that are shorter than their cookie, a socket that is never
  closed after a direct write that was cut short, the event of a half-closed socket that outlives it, a datagram whose address is read
  behind the end of its buffer, a packed input whose size overflows, and two readers of a shared object that give it back at the same time.

  \<^bold>\<open>Bounds.\<close> The sizes of the buffers of the gate, of the rings and of the waiting messages of the harbor are unbounded in the model; the code keeps them in an \<^verbatim>\<open>int\<close>, so the
  results are about connections with less than 2 GB of waiting data and rings with less than \<open>2 ^ 30\<close> messages. Unpacking in \<open>Sproto_Pack\<close> is
  proved for inputs up to 128 MB, where nothing overflows, and shown to overflow on 256 MB of bytes that are 0. The texts of the encryption library have less than \<open>2 ^ 31\<close> bytes;
  the order of the bytes of a connection is proved for runs of less than 65536 messages, the size of the counter of a socket, on which
  a worker waits when it is full; SHA-1 is proved for updates below \<open>2 ^ 29\<close> bytes, from which on the counter of the code is wrong.

  \<^bold>\<open>Not modelled.\<close> The system calls of the socket server (epoll and kqueue, addresses and their names), the bytes of its pipe, and threads inside
  of its functions: a function is one step, as its lock makes it; the start of the process and its threads; the loader of modules, the message log, the memory
  accounting and the locks; BSON and the shared tables; the memory pool and the dump of sproto; the bindings that run Lua
  code; the commands \<^verbatim>\<open>LOGON\<close> and \<^verbatim>\<open>LOGOFF\<close>, which open and close files; the freeing of blocks after an error in packing, the growth of the
  Lua stack; the vendored libraries and the game scripts, which are not C or not of this program.
\<close>

end
